(* ===== verification/Prelude.thy ===== *)
theory Prelude
  imports Main "HOL-Library.Word"
begin

text \<open>
  Shared vocabulary of the development: the fixed-width integer types of
  \<^verbatim>\<open>lib/types.h\<close>, sub-list reads and writes (the shape of every
  \<^verbatim>\<open>memcpy\<close> into a C array), the first-index search that the kernel's
  \<^verbatim>\<open>for\<close> loops over tables perform, the interface \<open>slot_allocator\<close>
  that the physical frame allocator, the disk block allocator and the pipe
  table all provide, and the interface \<open>bounded_queue\<close> of the ring buffers.
\<close>

unbundle bit_operations_syntax

named_theorems kernel_defs \<open>definitions unfolded by the component proofs\<close>
named_theorems word_nat \<open>moving word arithmetic to the natural numbers\<close>

section \<open>Machine integers\<close>

type_synonym u8 = "8 word"
type_synonym u16 = "16 word"
type_synonym u32 = "32 word"
type_synonym u64 = "64 word"

lemma unat_of_nat_u32 [simp, word_nat]:
  "n < 2 ^ 32 \<Longrightarrow> unat (of_nat n :: u32) = n"
  by (simp add: unat_of_nat)

lemma unat_u32_bound: "unat (w :: u32) < 4294967296"
  using unsigned_less [of w, where ?'a = nat] by simp

lemma unat_u8_bound: "unat (w :: u8) < 256"
  using unsigned_less [of w, where ?'a = nat] by simp

lemma unat_plus_u32 [word_nat]:
  "unat a + unat b < 4294967296 \<Longrightarrow> unat ((a :: u32) + b) = unat a + unat b"
  by (simp add: unat_word_ariths)

lemma unat_minus_u32 [word_nat]:
  "b \<le> a \<Longrightarrow> unat ((a :: u32) - b) = unat a - unat b"
  by (rule unat_sub) simp

lemma unat_mult_u32 [word_nat]:
  "unat a * unat b < 4294967296 \<Longrightarrow> unat ((a :: u32) * b) = unat a * unat b"
  by (simp add: unat_word_ariths)

section \<open>First matching index\<close>

text \<open>
  \<^verbatim>\<open>for (i = lo; i < hi; i++) if (P(i)) ...break\<close>: the least index of the
  range that satisfies the test.
\<close>

definition first_index :: "(nat \<Rightarrow> bool) \<Rightarrow> nat \<Rightarrow> nat \<Rightarrow> nat option" where
  "first_index P lo hi = find P [lo..<hi]"

lemma first_index_Some:
  "first_index P lo hi = Some k \<longleftrightarrow> lo \<le> k \<and> k < hi \<and> P k \<and> (\<forall>j. lo \<le> j \<and> j < k \<longrightarrow> \<not> P j)"
proof
  assume "first_index P lo hi = Some k"
  then obtain i where i: "i < length [lo..<hi]" "P ([lo..<hi] ! i)" "k = [lo..<hi] ! i"
    and least: "\<forall>j<i. \<not> P ([lo..<hi] ! j)"
    unfolding first_index_def find_Some_iff by auto
  have "\<not> P j" if "lo \<le> j" "j < k" for j
    using least [rule_format, of "j - lo"] that i by auto
  with i show "lo \<le> k \<and> k < hi \<and> P k \<and> (\<forall>j. lo \<le> j \<and> j < k \<longrightarrow> \<not> P j)" by auto
next
  assume k: "lo \<le> k \<and> k < hi \<and> P k \<and> (\<forall>j. lo \<le> j \<and> j < k \<longrightarrow> \<not> P j)"
  show "first_index P lo hi = Some k"
    unfolding first_index_def find_Some_iff
    by (rule exI [of _ "k - lo"]) (use k in auto)
qed

lemma first_index_None: "first_index P lo hi = None \<longleftrightarrow> (\<forall>k. lo \<le> k \<and> k < hi \<longrightarrow> \<not> P k)"
  by (auto simp: first_index_def find_None_iff)

lemma first_index_None_iff_not_Some:
  "first_index P lo hi \<noteq> None \<longleftrightarrow> (\<exists>k. lo \<le> k \<and> k < hi \<and> P k)"
  by (auto simp: first_index_None)

lemma find_remove1: "\<not> P x \<Longrightarrow> find P (remove1 x xs) = find P xs"
  by (induction xs) auto

lemma char_of_byte: "char_of (unat (of_char c :: u8)) = c"
proof -
  have "unat (of_char c :: u8) = of_char c"
    using nat_of_char_less_256 [of c] of_nat_of_char [of c, where ?'a = u8] unat_of_nat [of "of_char c", where ?'a = 8] by simp
  then show ?thesis by simp
qed

section \<open>Reading and writing a run of a list\<close>

definition slice :: "nat \<Rightarrow> nat \<Rightarrow> 'a list \<Rightarrow> 'a list" where
  "slice off n xs = take n (drop off xs)"

definition splice :: "nat \<Rightarrow> 'a list \<Rightarrow> 'a list \<Rightarrow> 'a list" where
  "splice off ys xs = take off xs @ ys @ drop (off + length ys) xs"

lemma length_slice [simp]: "length (slice off n xs) = min n (length xs - off)"
  by (simp add: slice_def)

lemma length_splice [simp]:
  "off + length ys \<le> length xs \<Longrightarrow> length (splice off ys xs) = length xs"
  by (simp add: splice_def)

lemma nth_slice: "i < n \<Longrightarrow> off + i < length xs \<Longrightarrow> slice off n xs ! i = xs ! (off + i)"
  by (simp add: slice_def)

lemma nth_splice:
  assumes "off + length ys \<le> length xs" "i < length xs"
  shows "splice off ys xs ! i = (if off \<le> i \<and> i < off + length ys then ys ! (i - off) else xs ! i)"
  using assms by (auto simp: splice_def nth_append)

lemma slice_splice_same:
  "off + length ys \<le> length xs \<Longrightarrow> slice off (length ys) (splice off ys xs) = ys"
  by (rule nth_equalityI) (auto simp: nth_slice nth_splice)

lemma slice_splice_other:
  assumes "off + length ys \<le> length xs" "a + n \<le> off \<or> off + length ys \<le> a"
  shows "slice a n (splice off ys xs) = slice a n xs"
  using assms by (intro nth_equalityI) (auto simp: nth_slice nth_splice)

lemma splice_splice_adjacent:
  assumes "off + length ys + length zs \<le> length xs"
  shows "splice (off + length ys) zs (splice off ys xs) = splice off (ys @ zs) xs"
  using assms by (intro nth_equalityI) (auto simp: nth_splice nth_append)

lemma slice_append_slice:
  "slice off m xs @ slice (off + m) n xs = slice off (m + n) xs"
  by (simp add: slice_def take_add add.commute)

lemma card_nat_bound:
  assumes "X \<subseteq> {..<(n::nat)}"
  shows "card X \<le> n" and "finite X"
proof -
  show "finite X" using assms finite_subset by blast
  have "card X \<le> card {..<n}" using assms by (intro card_mono) auto
  then show "card X \<le> n" by simp
qed

section \<open>The allocator interface\<close>

text \<open>
  A table of \<open>cap\<close> slots, some in use. \<open>reserved\<close> is the set of slots that a
  client never releases. \<open>alloc_many\<close> is the client's loop that asks for one
  slot after another and stops at the first refusal.
\<close>

fun alloc_many :: "('s \<Rightarrow> nat option \<times> 's) \<Rightarrow> nat \<Rightarrow> 's \<Rightarrow> nat list \<times> 's" where
  "alloc_many alloc 0 s = ([], s)"
| "alloc_many alloc (Suc n) s =
     (case alloc s of
        (None, s') \<Rightarrow> ([], s')
      | (Some k, s') \<Rightarrow> (case alloc_many alloc n s' of (ks, s'') \<Rightarrow> (k # ks, s'')))"

locale slot_allocator =
  fixes inv :: "'s \<Rightarrow> bool"
    and cap :: "'s \<Rightarrow> nat"
    and used :: "'s \<Rightarrow> nat set"
    and reserved :: "nat set"
    and alloc :: "'s \<Rightarrow> nat option \<times> 's"
    and release :: "nat \<Rightarrow> 's \<Rightarrow> 's"
  assumes used_below_cap: "inv s \<Longrightarrow> used s \<subseteq> {..<cap s}"
    and alloc_fresh: "inv s \<Longrightarrow> alloc s = (Some k, s') \<Longrightarrow> k < cap s \<and> k \<notin> used s \<and> k \<notin> reserved"
    and alloc_first_fit: "inv s \<Longrightarrow> alloc s = (Some k, s') \<Longrightarrow> j < k \<Longrightarrow> j \<in> used s"
    and alloc_used: "inv s \<Longrightarrow> alloc s = (Some k, s') \<Longrightarrow> used s' = insert k (used s)"
    and alloc_keeps: "inv s \<Longrightarrow> alloc s = (r, s') \<Longrightarrow> inv s' \<and> cap s' = cap s"
    and alloc_full: "inv s \<Longrightarrow> alloc s = (None, s') \<Longrightarrow> used s = {..<cap s} \<and> s' = s"
    and release_used: "inv s \<Longrightarrow> k \<notin> reserved \<Longrightarrow> used (release k s) = used s - {k}"
    and release_keeps: "inv s \<Longrightarrow> k \<notin> reserved \<Longrightarrow> inv (release k s) \<and> cap (release k s) = cap s"
begin

lemma alloc_Some_iff:
  assumes "inv s"
  shows "fst (alloc s) \<noteq> None \<longleftrightarrow> used s \<noteq> {..<cap s}"
proof (cases "alloc s")
  case (Pair r s')
  show ?thesis
  proof (cases r)
    case None
    with alloc_full [OF assms, of s'] Pair show ?thesis by simp
  next
    case (Some k)
    with alloc_fresh [OF assms, of k s'] Pair show ?thesis by auto
  qed
qed

lemma alloc_release_used:
  assumes "inv s" "alloc s = (Some k, s')"
  shows "used (release k s') = used s"
proof -
  have fresh: "k \<notin> used s" "k \<notin> reserved" using alloc_fresh [OF assms] by auto
  have "inv s'" using alloc_keeps [OF assms] by simp
  then have "used (release k s') = used s' - {k}" using fresh(2) by (rule release_used)
  then show ?thesis using alloc_used [OF assms] fresh(1) by auto
qed

lemma alloc_card:
  assumes "inv s" "alloc s = (Some k, s')"
  shows "card (used s') = Suc (card (used s))"
  using alloc_fresh [OF assms] alloc_used [OF assms] used_below_cap [OF assms(1)]
  by (simp add: finite_subset)

lemma alloc_many_spec:
  assumes "inv s" "alloc_many alloc n s = (ks, s')"
  shows "inv s' \<and> cap s' = cap s \<and> distinct ks \<and> set ks \<inter> used s = {}
         \<and> set ks \<inter> reserved = {} \<and> used s' = used s \<union> set ks
         \<and> length ks = min n (cap s - card (used s))"
  using assms
proof (induction n arbitrary: s ks s')
  case 0
  then show ?case by simp
next
  case (Suc n)
  obtain r t where a: "alloc s = (r, t)" by (cases "alloc s")
  have t: "inv t" "cap t = cap s" using alloc_keeps [OF Suc.prems(1) a] by auto
  show ?case
  proof (cases r)
    case None
    with a Suc.prems alloc_full [OF Suc.prems(1), of t] show ?thesis by auto
  next
    case (Some k)
    obtain ls u where m: "alloc_many alloc n t = (ls, u)" by (cases "alloc_many alloc n t")
    have ks: "ks = k # ls" "s' = u" using Suc.prems a Some m by auto
    have a': "alloc s = (Some k, t)" using a Some by simp
    note IH = Suc.IH [OF t(1) m]
    have c: "card (used t) = Suc (card (used s))" by (rule alloc_card [OF Suc.prems(1) a'])
    have "card (used s) < cap s"
    proof -
      have "insert k (used s) \<subseteq> {..<cap s}"
        using alloc_fresh [OF Suc.prems(1) a'] used_below_cap [OF Suc.prems(1)] by auto
      then have "card (used t) \<le> cap s"
        using alloc_used [OF Suc.prems(1) a'] card_nat_bound(1) by metis
      with c show ?thesis by simp
    qed
    with IH ks c t alloc_used [OF Suc.prems(1) a'] alloc_fresh [OF Suc.prems(1) a']
    show ?thesis by auto
  qed
qed

end

section \<open>A bounded queue\<close>

text \<open>
  The interface a ring buffer provides: items go in at the back while there is room and come
  out at the front, in order. The pipes and the keyboard driver provide it.
\<close>

locale bounded_queue =
  fixes inv :: "'q \<Rightarrow> bool"
    and contents :: "'q \<Rightarrow> 'a list"
    and cap :: nat
    and put :: "'a \<Rightarrow> 'q \<Rightarrow> 'q"
    and get :: "'q \<Rightarrow> 'a \<times> 'q"
  assumes bounded: "inv q \<Longrightarrow> length (contents q) \<le> cap"
    and put_contents: "inv q \<Longrightarrow> length (contents q) < cap \<Longrightarrow> contents (put x q) = contents q @ [x]"
    and put_inv: "inv q \<Longrightarrow> length (contents q) < cap \<Longrightarrow> inv (put x q)"
    and get_contents: "inv q \<Longrightarrow> contents q \<noteq> [] \<Longrightarrow> contents q = fst (get q) # contents (snd (get q))"
    and get_inv: "inv q \<Longrightarrow> contents q \<noteq> [] \<Longrightarrow> inv (snd (get q))"
begin

lemma put_many:
  assumes "inv q" "length (contents q) + length xs \<le> cap"
  shows "inv (fold put xs q) \<and> contents (fold put xs q) = contents q @ xs"
  using assms
proof (induction xs arbitrary: q)
  case Nil
  then show ?case by simp
next
  case (Cons x xs)
  have lt: "length (contents q) < cap" using Cons.prems(2) by simp
  have "contents (put x q) = contents q @ [x]" by (rule put_contents [OF Cons.prems(1) lt])
  with Cons.IH [OF put_inv [OF Cons.prems(1) lt]] Cons.prems(2) show ?case by simp
qed

lemma put_get_empty:
  assumes "inv q" "contents q = []" "0 < cap"
  shows "fst (get (put x q)) = x" and "contents (snd (get (put x q))) = []"
proof -
  have c: "contents (put x q) = [x]" using put_contents [OF assms(1)] assms(2,3) by simp
  have i: "inv (put x q)" using put_inv [OF assms(1)] assms(2,3) by simp
  from get_contents [OF i] c show "fst (get (put x q)) = x" "contents (snd (get (put x q))) = []"
    by auto
qed

end

end
