(* ===== verification/CMemory.thy ===== *)
theory CMemory
  imports Prelude
begin

text \<open>
  Byte-addressed memory for the code that works on raw addresses: little-endian 32-bit
  loads and stores, and the block routines \<^verbatim>\<open>memcpy\<close>, \<^verbatim>\<open>memset\<close>,
  \<^verbatim>\<open>memcmp\<close> and \<^verbatim>\<open>memmove\<close> of \<^verbatim>\<open>lib/string.c\<close>. Addresses are natural
  numbers; the components that use them keep every address below \<open>2 ^ 32\<close>.
\<close>

type_synonym mem = "nat \<Rightarrow> u8"

section \<open>Little-endian words\<close>

definition le32 :: "u8 \<Rightarrow> u8 \<Rightarrow> u8 \<Rightarrow> u8 \<Rightarrow> u32" where
  "le32 b0 b1 b2 b3 =
     ucast b0 OR push_bit 8 (ucast b1) OR push_bit 16 (ucast b2) OR push_bit 24 (ucast b3)"

definition le32_bytes :: "u32 \<Rightarrow> u8 list" where
  "le32_bytes v = [ucast v, ucast (drop_bit 8 v), ucast (drop_bit 16 v), ucast (drop_bit 24 v)]"

definition rd32 :: "mem \<Rightarrow> nat \<Rightarrow> u32" where
  "rd32 m a = le32 (m a) (m (a + 1)) (m (a + 2)) (m (a + 3))"

definition wr32 :: "mem \<Rightarrow> nat \<Rightarrow> u32 \<Rightarrow> mem" where
  "wr32 m a v = m(a := ucast v, a + 1 := ucast (drop_bit 8 v),
                  a + 2 := ucast (drop_bit 16 v), a + 3 := ucast (drop_bit 24 v))"

section \<open>Block routines\<close>

fun memcpy_from :: "nat \<Rightarrow> nat \<Rightarrow> nat \<Rightarrow> nat \<Rightarrow> mem \<Rightarrow> mem" where
  "memcpy_from d s i 0 m = m"
| "memcpy_from d s i (Suc k) m = memcpy_from d s (Suc i) k (m(d + i := m (s + i)))"

text \<open>The loop index runs from 0; \<open>k\<close> is the number of iterations left.\<close>

definition memcpy :: "nat \<Rightarrow> nat \<Rightarrow> nat \<Rightarrow> mem \<Rightarrow> mem" where
  "memcpy d s n m = memcpy_from d s 0 n m"

fun memset_from :: "nat \<Rightarrow> u8 \<Rightarrow> nat \<Rightarrow> nat \<Rightarrow> mem \<Rightarrow> mem" where
  "memset_from d c i 0 m = m"
| "memset_from d c i (Suc k) m = memset_from d c (Suc i) k (m(d + i := c))"

definition memset :: "nat \<Rightarrow> u32 \<Rightarrow> nat \<Rightarrow> mem \<Rightarrow> mem" where
  "memset d c n m = memset_from d (ucast c) 0 n m"

fun memcmp_from :: "nat \<Rightarrow> nat \<Rightarrow> nat \<Rightarrow> nat \<Rightarrow> mem \<Rightarrow> int" where
  "memcmp_from a b i 0 m = 0"
| "memcmp_from a b i (Suc k) m =
     (if m (a + i) \<noteq> m (b + i) then uint (m (a + i)) - uint (m (b + i))
      else memcmp_from a b (Suc i) k m)"

definition memcmp :: "nat \<Rightarrow> nat \<Rightarrow> nat \<Rightarrow> mem \<Rightarrow> int" where
  "memcmp a b n m = memcmp_from a b 0 n m"

fun memmove_down :: "nat \<Rightarrow> nat \<Rightarrow> nat \<Rightarrow> mem \<Rightarrow> mem" where
  "memmove_down d s 0 m = m"
| "memmove_down d s (Suc i) m = memmove_down d s i (m(d + i := m (s + i)))"

definition memmove :: "nat \<Rightarrow> nat \<Rightarrow> nat \<Rightarrow> mem \<Rightarrow> mem" where
  "memmove d s n m =
     (if d = s \<or> n = 0 then m
      else if d < s then memcpy_from d s 0 n m
      else memmove_down d s n m)"

text \<open>The reference: every byte of the destination range holds the old byte of the source range.\<close>

definition copied :: "nat \<Rightarrow> nat \<Rightarrow> nat \<Rightarrow> mem \<Rightarrow> mem" where
  "copied d s n m = (\<lambda>x. if d \<le> x \<and> x < d + n then m (s + (x - d)) else m x)"

section \<open>Lemmas on words\<close>

lemma le32_of_bytes:
  "le32 (ucast v) (ucast (drop_bit 8 v)) (ucast (drop_bit 16 v)) (ucast (drop_bit 24 v)) = v"
proof (rule bit_word_eqI)
  fix n
  assume n: "n < LENGTH(32)"
  consider "n < 8" | "8 \<le> n" "n < 16" | "16 \<le> n" "n < 24" | "24 \<le> n" by linarith
  then show "bit (le32 (ucast v) (ucast (drop_bit 8 v)) (ucast (drop_bit 16 v))
                 (ucast (drop_bit 24 v))) n = bit v n"
    using n by cases (auto simp: le32_def bit_simps)
qed

lemma length_le32_bytes [simp]: "length (le32_bytes v) = 4"
  by (simp add: le32_bytes_def)

lemma rd32_wr32_same [simp]: "rd32 (wr32 m a v) a = v"
  by (simp add: rd32_def wr32_def le32_of_bytes)

lemma rd32_wr32_other [simp]: "a + 4 \<le> b \<or> b + 4 \<le> a \<Longrightarrow> rd32 (wr32 m a v) b = rd32 m b"
  by (auto simp: rd32_def wr32_def)

lemma wr32_outside [simp]: "x < a \<or> a + 4 \<le> x \<Longrightarrow> wr32 m a v x = m x"
  by (auto simp: wr32_def)

lemma rd32_cong: "(\<forall>x. a \<le> x \<and> x < a + 4 \<longrightarrow> m x = m' x) \<Longrightarrow> rd32 m a = rd32 m' a"
  by (simp add: rd32_def)

section \<open>Lemmas on the block routines\<close>

lemma memcpy_from_apply:
  assumes "d \<le> s \<or> s + i + k \<le> d + i"
  shows "memcpy_from d s i k m x = (if d + i \<le> x \<and> x < d + i + k then m (s + (x - d)) else m x)"
  using assms
proof (induction k arbitrary: i m)
  case 0
  then show ?case by auto
next
  case (Suc k)
  have "d \<le> s \<or> s + Suc i + k \<le> d + Suc i" using Suc.prems by auto
  note IH = Suc.IH [OF this]
  show ?case using Suc.prems by (auto simp: IH)
qed

lemma memcpy_eq_copied:
  assumes "d \<le> s \<or> s + n \<le> d"
  shows "memcpy d s n m = copied d s n m"
  using assms by (auto simp: memcpy_def copied_def memcpy_from_apply fun_eq_iff)

lemma memset_from_apply:
  "memset_from d c i k m x = (if d + i \<le> x \<and> x < d + i + k then c else m x)"
  by (induction k arbitrary: i m) auto

lemma memset_apply: "memset d c n m x = (if d \<le> x \<and> x < d + n then ucast c else m x)"
  by (simp add: memset_def memset_from_apply)

lemma memmove_down_apply:
  assumes "s < d"
  shows "memmove_down d s k m x = (if d \<le> x \<and> x < d + k then m (s + (x - d)) else m x)"
proof (induction k arbitrary: m)
  case 0
  show ?case by auto
next
  case (Suc k)
  show ?case using assms by (auto simp: Suc.IH)
qed

lemma memcmp_from_zero:
  "memcmp_from a b i k m = 0 \<longleftrightarrow> (\<forall>j. i \<le> j \<and> j < i + k \<longrightarrow> m (a + j) = m (b + j))"
proof (induction k arbitrary: i)
  case 0
  show ?case by auto
next
  case (Suc k)
  have split: "(\<forall>j. i \<le> j \<and> j < i + Suc k \<longrightarrow> m (a + j) = m (b + j)) \<longleftrightarrow>
     m (a + i) = m (b + i) \<and> (\<forall>j. Suc i \<le> j \<and> j < Suc i + k \<longrightarrow> m (a + j) = m (b + j))"
    using Suc_le_eq le_eq_less_or_eq by fastforce
  show ?case unfolding split using Suc.IH by (simp add: word_uint_eq_iff)
qed

text \<open>
  \<^verbatim>\<open>memmove\<close> is correct for every overlap of source and destination: afterwards the
  destination range holds exactly the bytes the source range held before, and no other byte has
  changed. The choice of copy direction is what makes this hold.
\<close>

theorem memmove_overlap_correct: "memmove d s n m = copied d s n m"
proof -
  consider "d = s \<or> n = 0" | "d < s" "n \<noteq> 0" | "s < d" "n \<noteq> 0" by linarith
  then show ?thesis
  proof cases
    case 1
    then show ?thesis by (auto simp: memmove_def copied_def fun_eq_iff)
  next
    case 2
    then have "memmove d s n m = memcpy d s n m" by (simp add: memmove_def memcpy_def)
    then show ?thesis using 2 by (simp add: memcpy_eq_copied)
  next
    case 3
    then have "memmove d s n m = memmove_down d s n m" by (simp add: memmove_def)
    then show ?thesis using 3 by (auto simp: copied_def fun_eq_iff memmove_down_apply)
  qed
qed

end
