(* ===== verification/Kheap.thy ===== *)
theory Kheap
  imports CMemory
begin

text \<open>
  The kernel heap, \<^verbatim>\<open>mm/kheap.c\<close>: a first-fit allocator over a static arena whose
  blocks carry a 20-byte header and form a doubly linked list in address order. The operations
  below read and write the headers in byte memory exactly where the C code does. The predicate
  \<open>chain\<close> says that the arena holds a given list of blocks; each operation is then shown to
  refine an operation on that list.
\<close>

section \<open>Headers in memory\<close>

abbreviation HEAP_SIZE :: nat where "HEAP_SIZE \<equiv> 33554432"
abbreviation MAGIC_USED :: u32 where "MAGIC_USED \<equiv> 0xA110C8ED"
abbreviation MAGIC_FREE :: u32 where "MAGIC_FREE \<equiv> 0xF8EE8100"

text \<open>
  \<^verbatim>\<open>block_t\<close>: five 32-bit fields at offsets 0, 4, 8, 12 and 16, so
  \<^verbatim>\<open>sizeof(block_t)\<close> is 20.
\<close>

definition get_magic :: "mem \<Rightarrow> nat \<Rightarrow> u32" where "get_magic m b = rd32 m b"
definition get_size :: "mem \<Rightarrow> nat \<Rightarrow> u32" where "get_size m b = rd32 m (b + 4)"
definition get_free :: "mem \<Rightarrow> nat \<Rightarrow> bool" where "get_free m b \<longleftrightarrow> rd32 m (b + 8) \<noteq> 0"
definition get_next :: "mem \<Rightarrow> nat \<Rightarrow> nat" where "get_next m b = unat (rd32 m (b + 12))"
definition get_prev :: "mem \<Rightarrow> nat \<Rightarrow> nat" where "get_prev m b = unat (rd32 m (b + 16))"

definition set_magic :: "nat \<Rightarrow> u32 \<Rightarrow> mem \<Rightarrow> mem" where "set_magic b v m = wr32 m b v"
definition set_size :: "nat \<Rightarrow> u32 \<Rightarrow> mem \<Rightarrow> mem" where "set_size b v m = wr32 m (b + 4) v"
definition set_free :: "nat \<Rightarrow> bool \<Rightarrow> mem \<Rightarrow> mem" where
  "set_free b v m = wr32 m (b + 8) (if v then 1 else 0)"
definition set_next :: "nat \<Rightarrow> nat \<Rightarrow> mem \<Rightarrow> mem" where "set_next b v m = wr32 m (b + 12) (of_nat v)"
definition set_prev :: "nat \<Rightarrow> nat \<Rightarrow> mem \<Rightarrow> mem" where "set_prev b v m = wr32 m (b + 16) (of_nat v)"

record kheap =
  kh_mem :: mem
  kh_base :: nat    \<comment> \<open>link-time address of the static arena\<close>
  kh_head :: nat
  kh_initialized :: bool

section \<open>Operations\<close>

definition align_up :: "u32 \<Rightarrow> u32 \<Rightarrow> u32" where
  "align_up n a = (n + (a - 1)) AND NOT (a - 1)"

definition kheap_init :: "kheap \<Rightarrow> kheap" where
  "kheap_init h =
     (let b = kh_base h;
          m = set_magic b MAGIC_FREE (kh_mem h);
          m = set_size b (of_nat (HEAP_SIZE - 20)) m;
          m = set_free b True m;
          m = set_next b 0 m;
          m = set_prev b 0 m
      in h\<lparr>kh_mem := m, kh_head := b, kh_initialized := True\<rparr>)"

definition split_block :: "nat \<Rightarrow> u32 \<Rightarrow> mem \<Rightarrow> mem" where
  "split_block b sz m =
     (if get_size m b \<ge> sz + 20 + 8
      then (let nb = b + 20 + unat sz;
                m = set_magic nb MAGIC_FREE m;
                m = set_size nb (get_size m b - sz - 20) m;
                m = set_free nb True m;
                m = set_next nb (get_next m b) m;
                m = set_prev nb b m;
                m = (if get_next m b \<noteq> 0 then set_prev (get_next m b) nb m else m);
                m = set_next b nb m
            in set_size b sz m)
      else m)"

text \<open>
  The list walk of \<^verbatim>\<open>kmalloc\<close>. \<open>None\<close> means that the walk never ends; the
  result 0 is the null pointer.
\<close>

partial_function (option) kmalloc_walk :: "nat \<Rightarrow> u32 \<Rightarrow> mem \<Rightarrow> (nat \<times> mem) option" where
  "kmalloc_walk b sz m =
     (if b = 0 then Some (0, m)
      else if get_free m b \<and> get_size m b \<ge> sz
      then Some (b + 20, set_magic b MAGIC_USED (set_free b False (split_block b sz m)))
      else kmalloc_walk (get_next m b) sz m)"

definition kmalloc :: "u32 \<Rightarrow> kheap \<Rightarrow> (nat \<times> kheap) option" where
  "kmalloc sz h =
     (let h = (if kh_initialized h then h else kheap_init h)
      in if sz = 0 then Some (0, h)
         else map_option (\<lambda>(p, m). (p, h\<lparr>kh_mem := m\<rparr>))
                (kmalloc_walk (kh_head h) (align_up sz 8) (kh_mem h)))"

definition kcalloc :: "u32 \<Rightarrow> u32 \<Rightarrow> kheap \<Rightarrow> (nat \<times> kheap) option" where
  "kcalloc count sz h =
     (let total = count * sz
      in map_option (\<lambda>(p, h). (p, if p \<noteq> 0 then h\<lparr>kh_mem := memset p 0 (unat total) (kh_mem h)\<rparr> else h))
           (kmalloc total h))"

definition kmalloc_aligned :: "u32 \<Rightarrow> kheap \<Rightarrow> (nat \<times> kheap) option" where
  "kmalloc_aligned sz h =
     (let h = (if kh_initialized h then h else kheap_init h);
          sz = align_up sz 8;
          pad = 4096 + 20
      in map_option (\<lambda>(raw, h).
            if raw = 0 then (0, h)
            else (let aligned = unat (align_up (of_nat raw) 4096)
                  in if aligned = raw then (raw, h)
                     else (aligned, h\<lparr>kh_mem := wr32 (kh_mem h) (aligned - 4) (of_nat raw)\<rparr>)))
           (kmalloc (sz + pad) h))"

definition block_from_ptr :: "nat \<Rightarrow> nat" where
  "block_from_ptr p = p - 20"

text \<open>The two halves of \<^verbatim>\<open>coalesce\<close>: merging with the next and with the previous block.\<close>

definition merge_next :: "nat \<Rightarrow> mem \<Rightarrow> mem" where
  "merge_next b m =
     (if get_next m b \<noteq> 0 \<and> get_free m (get_next m b)
      then (let m = set_size b (get_size m b + (20 + get_size m (get_next m b))) m;
                m = set_next b (get_next m (get_next m b)) m
            in if get_next m b \<noteq> 0 then set_prev (get_next m b) b m else m)
      else m)"

definition merge_prev :: "nat \<Rightarrow> mem \<Rightarrow> mem" where
  "merge_prev b m =
     (if get_prev m b \<noteq> 0 \<and> get_free m (get_prev m b)
      then (let p = get_prev m b;
                m = set_size p (get_size m p + (20 + get_size m b)) m;
                m = set_next p (get_next m b) m
            in if get_next m b \<noteq> 0 then set_prev (get_next m b) p m else m)
      else m)"

definition coalesce :: "nat \<Rightarrow> mem \<Rightarrow> mem" where
  "coalesce b m = merge_prev b (merge_next b m)"

definition release_block :: "nat \<Rightarrow> mem \<Rightarrow> mem" where
  "release_block b m = coalesce b (set_magic b MAGIC_FREE (set_free b True m))"

definition kfree :: "nat \<Rightarrow> kheap \<Rightarrow> kheap" where
  "kfree p h =
     (if p = 0 then h
      else let b = block_from_ptr p; m = kh_mem h
           in if get_magic m b \<noteq> MAGIC_USED
              then let rb = block_from_ptr (unat (rd32 m (p - 4)))
                   in if get_magic m rb = MAGIC_USED then h\<lparr>kh_mem := release_block rb m\<rparr> else h
              else h\<lparr>kh_mem := release_block b m\<rparr>)"


text \<open>\<^verbatim>\<open>kheap_stats\<close>: used bytes, free bytes, largest free block, number of blocks.\<close>

partial_function (option) kheap_stats_walk ::
  "nat \<Rightarrow> mem \<Rightarrow> u32 \<Rightarrow> u32 \<Rightarrow> u32 \<Rightarrow> u32 \<Rightarrow> (u32 \<times> u32 \<times> u32 \<times> u32) option" where
  "kheap_stats_walk b m u f lf bc =
     (if b = 0 then Some (u, f, lf, bc)
      else if get_free m b
      then kheap_stats_walk (get_next m b) m u (f + get_size m b)
             (if get_size m b > lf then get_size m b else lf) (bc + 1)
      else kheap_stats_walk (get_next m b) m (u + get_size m b) f lf (bc + 1))"

definition kheap_stats :: "kheap \<Rightarrow> (u32 \<times> u32 \<times> u32 \<times> u32) option" where
  "kheap_stats h = kheap_stats_walk (kh_head h) (kh_mem h) 0 0 0 0"

section \<open>The block list in memory\<close>

text \<open>
  A block is its payload size and whether it is free. \<open>hdr\<close> says that the header at \<open>a\<close>
  describes such a block; \<open>chain m p a bs e q\<close> that the blocks \<open>bs\<close> tile the
  addresses from \<open>a\<close> to \<open>e\<close>, with \<open>p\<close> stored as the first block's
  \<^verbatim>\<open>prev\<close> and \<open>q\<close> as the last one's \<^verbatim>\<open>next\<close>.
\<close>

type_synonym blk = "nat \<times> bool"

definition hdr :: "mem \<Rightarrow> nat \<Rightarrow> nat \<Rightarrow> bool \<Rightarrow> nat \<Rightarrow> nat \<Rightarrow> bool" where
  "hdr m a sz f p q \<longleftrightarrow>
     get_magic m a = (if f then MAGIC_FREE else MAGIC_USED) \<and> unat (get_size m a) = sz
     \<and> get_free m a = f \<and> get_prev m a = p \<and> get_next m a = q"

fun chain :: "mem \<Rightarrow> nat \<Rightarrow> nat \<Rightarrow> blk list \<Rightarrow> nat \<Rightarrow> nat \<Rightarrow> bool" where
  "chain m p a [] e q \<longleftrightarrow> a = e"
| "chain m p a ((sz, f) # bs) e q \<longleftrightarrow>
     hdr m a sz f p (if bs = [] then q else a + 20 + sz) \<and> chain m a (a + 20 + sz) bs e q"

fun extent :: "blk list \<Rightarrow> nat" where
  "extent [] = 0"
| "extent ((sz, f) # bs) = 20 + sz + extent bs"

text \<open>The address of the last block of a list that starts at \<open>a\<close>, or \<open>p\<close> if it is empty.\<close>

fun last_addr :: "nat \<Rightarrow> nat \<Rightarrow> blk list \<Rightarrow> nat" where
  "last_addr p a [] = p"
| "last_addr p a ((sz, f) # bs) = last_addr a (a + 20 + sz) bs"

text \<open>Adjacent blocks are never both free.\<close>

fun coalesced :: "blk list \<Rightarrow> bool" where
  "coalesced ((s1, f1) # (s2, f2) # bs) \<longleftrightarrow> \<not> (f1 \<and> f2) \<and> coalesced ((s2, f2) # bs)"
| "coalesced bs \<longleftrightarrow> True"

definition heap_rep :: "kheap \<Rightarrow> blk list \<Rightarrow> bool" where
  "heap_rep h bs \<longleftrightarrow> kh_initialized h \<and> kh_head h = kh_base h \<and> 0 < kh_base h
     \<and> kh_base h + HEAP_SIZE + 28 < 2 ^ 32 \<and> bs \<noteq> [] \<and> coalesced bs
     \<and> chain (kh_mem h) 0 (kh_base h) bs (kh_base h + HEAP_SIZE) 0"

section \<open>The operations on the block list\<close>

text \<open>First fit with splitting; the payload address and the new list.\<close>

fun amalloc :: "nat \<Rightarrow> nat \<Rightarrow> blk list \<Rightarrow> (nat \<times> blk list) option" where
  "amalloc n a [] = None"
| "amalloc n a ((sz, f) # bs) =
     (if f \<and> n \<le> sz
      then Some (a + 20, if n + 28 \<le> sz then (n, False) # (sz - n - 20, True) # bs
                         else (sz, False) # bs)
      else map_option (\<lambda>(p, bs'). (p, (sz, f) # bs')) (amalloc n (a + 20 + sz) bs))"

text \<open>Prepending a freed block to what follows it, and appending that to what precedes it.\<close>

fun join_right :: "nat \<Rightarrow> blk list \<Rightarrow> blk list" where
  "join_right sz ((s2, True) # bs) = (sz + 20 + s2, True) # bs"
| "join_right sz bs = (sz, True) # bs"

fun join_left :: "blk list \<Rightarrow> blk list \<Rightarrow> blk list" where
  "join_left xs ((s, True) # ys) =
     (if xs \<noteq> [] \<and> snd (last xs) then butlast xs @ (fst (last xs) + 20 + s, True) # ys
      else xs @ (s, True) # ys)"
| "join_left xs ys = xs @ ys"

text \<open>The used block with a given payload address: what precedes it, its size, what follows.\<close>

fun find_block :: "nat \<Rightarrow> nat \<Rightarrow> blk list \<Rightarrow> (blk list \<times> nat \<times> blk list) option" where
  "find_block p a [] = None"
| "find_block p a ((sz, f) # bs) =
     (if p = a + 20 \<and> \<not> f then Some ([], sz, bs)
      else map_option (\<lambda>(xs, s, ys). ((sz, f) # xs, s, ys)) (find_block p (a + 20 + sz) bs))"

definition afree :: "nat \<Rightarrow> nat \<Rightarrow> blk list \<Rightarrow> blk list" where
  "afree p a bs =
     (case find_block p a bs of None \<Rightarrow> bs
      | Some (xs, sz, ys) \<Rightarrow> join_left xs (join_right sz ys))"

text \<open>The live allocations: payload address and size of every used block.\<close>

fun live :: "nat \<Rightarrow> blk list \<Rightarrow> (nat \<times> nat) set" where
  "live a [] = {}"
| "live a ((sz, f) # bs) = (if f then {} else {(a + 20, sz)}) \<union> live (a + 20 + sz) bs"

text \<open>The bytes that hold headers, and memories that agree everywhere else than on a set.\<close>

fun hdr_bytes :: "nat \<Rightarrow> blk list \<Rightarrow> nat set" where
  "hdr_bytes a [] = {}"
| "hdr_bytes a ((sz, f) # bs) = {a..<a + 20} \<union> hdr_bytes (a + 20 + sz) bs"

definition touched :: "nat set \<Rightarrow> mem \<Rightarrow> mem \<Rightarrow> bool" where
  "touched H m m' \<longleftrightarrow> (\<forall>x. x \<notin> H \<longrightarrow> m' x = m x)"

section \<open>Header fields\<close>

lemmas field_defs = get_magic_def get_size_def get_free_def get_next_def get_prev_def
  set_magic_def set_size_def set_free_def set_next_def set_prev_def

lemma get_set_same [simp]:
  "get_magic (set_magic b v m) b = v"
  "get_size (set_size b v m) b = v"
  "get_free (set_free b fl m) b = fl"
  "x < 2 ^ 32 \<Longrightarrow> get_next (set_next b x m) b = x"
  "x < 2 ^ 32 \<Longrightarrow> get_prev (set_prev b x m) b = x"
  by (simp_all add: field_defs)

lemma get_set_field [simp]:
  "get_magic (set_size b v m) b = get_magic m b" "get_magic (set_free b fl m) b = get_magic m b"
  "get_magic (set_next b x m) b = get_magic m b" "get_magic (set_prev b x m) b = get_magic m b"
  "get_size (set_magic b v m) b = get_size m b" "get_size (set_free b fl m) b = get_size m b"
  "get_size (set_next b x m) b = get_size m b" "get_size (set_prev b x m) b = get_size m b"
  "get_free (set_magic b v m) b = get_free m b" "get_free (set_size b v m) b = get_free m b"
  "get_free (set_next b x m) b = get_free m b" "get_free (set_prev b x m) b = get_free m b"
  "get_next (set_magic b v m) b = get_next m b" "get_next (set_size b v m) b = get_next m b"
  "get_next (set_free b fl m) b = get_next m b" "get_next (set_prev b x m) b = get_next m b"
  "get_prev (set_magic b v m) b = get_prev m b" "get_prev (set_size b v m) b = get_prev m b"
  "get_prev (set_free b fl m) b = get_prev m b" "get_prev (set_next b x m) b = get_prev m b"
  by (simp_all add: field_defs)

lemma get_cong:
  assumes "\<forall>x. a \<le> x \<and> x < a + 20 \<longrightarrow> m x = m' x"
  shows "get_magic m a = get_magic m' a" "get_size m a = get_size m' a"
    "get_free m a = get_free m' a" "get_next m a = get_next m' a" "get_prev m a = get_prev m' a"
  using assms by (auto simp: field_defs rd32_def)

lemma set_outside [simp]:
  assumes "x < b \<or> b + 20 \<le> x"
  shows "set_magic b v m x = m x" "set_size b v m x = m x" "set_free b fl m x = m x"
    "set_next b y m x = m x" "set_prev b y m x = m x"
  using assms by (auto simp: field_defs)

lemma get_set_other [simp]:
  assumes "a + 20 \<le> b \<or> b + 20 \<le> a"
  shows
  "get_magic (set_magic b v m) a = get_magic m a" "get_magic (set_size b v m) a = get_magic m a"
  "get_magic (set_free b fl m) a = get_magic m a" "get_magic (set_next b y m) a = get_magic m a"
  "get_magic (set_prev b y m) a = get_magic m a"
  "get_size (set_magic b v m) a = get_size m a" "get_size (set_size b v m) a = get_size m a"
  "get_size (set_free b fl m) a = get_size m a" "get_size (set_next b y m) a = get_size m a"
  "get_size (set_prev b y m) a = get_size m a"
  "get_free (set_magic b v m) a = get_free m a" "get_free (set_size b v m) a = get_free m a"
  "get_free (set_free b fl m) a = get_free m a" "get_free (set_next b y m) a = get_free m a"
  "get_free (set_prev b y m) a = get_free m a"
  "get_next (set_magic b v m) a = get_next m a" "get_next (set_size b v m) a = get_next m a"
  "get_next (set_free b fl m) a = get_next m a" "get_next (set_next b y m) a = get_next m a"
  "get_next (set_prev b y m) a = get_next m a"
  "get_prev (set_magic b v m) a = get_prev m a" "get_prev (set_size b v m) a = get_prev m a"
  "get_prev (set_free b fl m) a = get_prev m a" "get_prev (set_next b y m) a = get_prev m a"
  "get_prev (set_prev b y m) a = get_prev m a"
  using assms by (auto intro!: get_cong)

lemma hdr_cong:
  assumes "\<forall>x. a \<le> x \<and> x < a + 20 \<longrightarrow> m x = m' x"
  shows "hdr m a sz f p q = hdr m' a sz f p q"
  using get_cong [OF assms] by (simp add: hdr_def)

section \<open>Chains\<close>

lemma chain_extent: "chain m p a bs e q \<Longrightarrow> e = a + extent bs"
  by (induction m p a bs e q rule: chain.induct) auto

lemma chain_cong:
  "(\<forall>x. a \<le> x \<and> x < a + extent bs \<longrightarrow> m x = m' x) \<Longrightarrow> chain m p a bs e q \<longleftrightarrow> chain m' p a bs e q"
proof (induction bs arbitrary: p a)
  case Nil
  then show ?case by simp
next
  case (Cons b bs)
  obtain sz f where b: "b = (sz, f)" by (cases b)
  have "hdr m a sz f p q' = hdr m' a sz f p q'" for q'
    by (rule hdr_cong) (use Cons.prems b in auto)
  moreover have "chain m a (a + 20 + sz) bs e q \<longleftrightarrow> chain m' a (a + 20 + sz) bs e q"
    by (rule Cons.IH) (use Cons.prems b in auto)
  ultimately show ?case by (simp add: b)
qed

lemma chain_append:
  "chain m p a (xs @ ys) e q \<longleftrightarrow>
     chain m p a xs (a + extent xs) (if ys = [] then q else a + extent xs)
     \<and> chain m (last_addr p a xs) (a + extent xs) ys e q"
proof (induction xs arbitrary: p a)
  case Nil
  show ?case by simp
next
  case (Cons b xs)
  obtain sz f where b: "b = (sz, f)" by (cases b)
  show ?case
    using Cons.IH [of a "a + 20 + sz"] by (auto simp: b add.assoc)
qed

lemma extent_append [simp]: "extent (xs @ ys) = extent xs + extent ys"
  by (induction xs) auto

lemma chain_set_prev:
  assumes "chain m p a bs e q" "bs \<noteq> []" "p' < 2 ^ 32"
  shows "chain (set_prev a p' m) p' a bs e q"
proof -
  obtain sz f cs where bs: "bs = (sz, f) # cs" using assms(2) by (cases bs) auto
  have "chain (set_prev a p' m) a (a + 20 + sz) cs e q \<longleftrightarrow> chain m a (a + 20 + sz) cs e q"
    by (rule chain_cong) simp
  with assms show ?thesis by (simp add: bs hdr_def)
qed

section \<open>One step of each operation on memory\<close>

lemma touched_trans: "touched H m m' \<Longrightarrow> touched H m' m'' \<Longrightarrow> touched H m m''"
  by (simp add: touched_def)

lemma touched_mono: "touched H m m' \<Longrightarrow> H \<subseteq> K \<Longrightarrow> touched K m m'"
  by (auto simp: touched_def)

lemma hdr_bytes_range: "hdr_bytes a bs \<subseteq> {a..<a + extent bs}"
  by (induction a bs rule: hdr_bytes.induct) auto

lemma hdr_bytes_append: "hdr_bytes a (xs @ ys) = hdr_bytes a xs \<union> hdr_bytes (a + extent xs) ys"
  by (induction a xs rule: hdr_bytes.induct) (auto simp: add.assoc)

lemma chain_untouched:
  assumes "touched H m m'" "{a..<a + extent bs} \<inter> H = {}"
  shows "chain m' p a bs e q \<longleftrightarrow> chain m p a bs e q"
  by (rule chain_cong) (use assms in \<open>auto simp: touched_def\<close>)

lemma merge_next_chain:
  assumes c: "chain m p a ((s1, True) # (s2, True) # bs) e 0" and e: "0 < a" "e < 2 ^ 32"
  shows "chain (merge_next a m) p a ((s1 + 20 + s2, True) # bs) e 0"
    and "touched (hdr_bytes a ((s1, True) # (s2, True) # bs)) m (merge_next a m)"
proof -
  let ?n = "a + 20 + s1" and ?k = "a + 20 + s1 + 20 + s2"
  have ext: "e = ?k + extent bs" using chain_extent [OF c] by simp
  let ?q = "if bs = [] then 0 else ?k"
  from c have h1: "hdr m a s1 True p ?n" and h2: "hdr m ?n s2 True a ?q"
    and rest: "chain m ?n ?k bs e 0" by auto
  let ?m1 = "set_next a ?q (set_size a (get_size m a + (20 + get_size m ?n)) m)"
  have q: "?q < 2 ^ 32" using e ext by simp
  have mn: "merge_next a m = (if bs = [] then ?m1 else set_prev ?k a ?m1)"
    using h1 h2 e(1) q unfolding merge_next_def
    by (cases "bs = []") (simp_all add: hdr_def Let_def add.commute add.left_commute)
  have sz: "unat (get_size m a + (20 + get_size m ?n)) = s1 + 20 + s2"
    using h1 h2 e ext by (simp add: hdr_def unat_plus_u32)
  have hd: "hdr ?m1 a (s1 + 20 + s2) True p ?q"
    using h1 q sz by (simp add: hdr_def)
  have r1: "chain ?m1 ?n ?k bs e 0"
    using rest by (subst chain_cong [where m' = m]) auto
  show "chain (merge_next a m) p a ((s1 + 20 + s2, True) # bs) e 0"
  proof (cases "bs = []")
    case True
    with mn hd r1 ext show ?thesis by simp
  next
    case False
    have "chain (set_prev ?k a ?m1) a ?k bs e 0"
      by (rule chain_set_prev [OF r1 False]) (use e ext in simp)
    moreover have "hdr (set_prev ?k a ?m1) a (s1 + 20 + s2) True p ?q"
      using hd by (subst hdr_cong [where m' = ?m1]) auto
    ultimately show ?thesis using mn False by (simp add: algebra_simps)
  qed
  show "touched (hdr_bytes a ((s1, True) # (s2, True) # bs)) m (merge_next a m)"
    unfolding touched_def mn by (cases bs) auto
qed

lemma merge_next_used:
  assumes "chain m p a ((s1, f1) # bs) e 0" "bs = [] \<or> \<not> snd (hd bs)"
  shows "merge_next a m = m"
  using assms by (cases bs) (auto simp: merge_next_def hdr_def)

lemma merge_prev_as_next:
  assumes "hdr m p s0 True pp c" "hdr m c s1 True p q" "0 < p" "p + 20 \<le> c" "q < 2 ^ 32"
    and "q = 0 \<or> c + 20 \<le> q"
  shows "merge_prev c m = merge_next p m"
  using assms unfolding merge_prev_def merge_next_def
  by (cases "q = 0") (simp_all add: hdr_def Let_def)

lemma merge_prev_used:
  assumes "chain m p a (xs @ (s1, f1) # bs) e 0" "xs = [] \<longrightarrow> p = 0" "xs \<noteq> [] \<longrightarrow> \<not> snd (last xs)"
  shows "merge_prev (a + extent xs) m = m"
proof (cases xs rule: rev_cases)
  case Nil
  with assms show ?thesis by (simp add: merge_prev_def hdr_def)
next
  case (snoc ws b)
  obtain s0 f0 where b: "b = (s0, f0)" by (cases b)
  have f0: "\<not> f0" using assms(3) snoc b by simp
  have "hdr m (a + extent ws) s0 f0 (last_addr p a ws) (a + extent xs)"
    and "\<exists>q. hdr m (a + extent xs) s1 f1 (a + extent ws) q"
    using assms(1) unfolding snoc b by (auto simp: chain_append add.assoc)
  with f0 show ?thesis by (auto simp: merge_prev_def hdr_def)
qed

lemma release_header:
  assumes "chain m p a ((sz, False) # bs) e q"
  shows "chain (set_magic a MAGIC_FREE (set_free a True m)) p a ((sz, True) # bs) e q"
    and "touched {a..<a + 20} m (set_magic a MAGIC_FREE (set_free a True m))"
proof -
  let ?m = "set_magic a MAGIC_FREE (set_free a True m)"
  have "chain ?m a (a + 20 + sz) bs e q \<longleftrightarrow> chain m a (a + 20 + sz) bs e q"
    by (rule chain_cong) simp
  with assms show "chain ?m p a ((sz, True) # bs) e q" by (simp add: hdr_def)
  show "touched {a..<a + 20} m ?m" by (auto simp: touched_def)
qed

text \<open>Replacing the tail of a chain by one that holds in a memory changed only from there on.\<close>

lemma chain_replace_tail:
  assumes "chain m p a (xs @ ys) e q" "touched (hdr_bytes (a + extent xs) ys) m m'"
    and "chain m' (last_addr p a xs) (a + extent xs) zs e q" "ys \<noteq> []" "zs \<noteq> []"
  shows "chain m' p a (xs @ zs) e q"
proof -
  have "chain m p a xs (a + extent xs) (a + extent xs)"
    using assms(1,4) by (simp add: chain_append)
  then have "chain m' p a xs (a + extent xs) (a + extent xs)"
    using chain_untouched [OF assms(2), of a xs] hdr_bytes_range [of "a + extent xs" ys] by fastforce
  with assms show ?thesis by (simp add: chain_append)
qed

text \<open>Releasing a block and merging it with a free right neighbour.\<close>

lemma free_and_merge_right:
  assumes c: "chain m p a ((sz, False) # ys) e 0" and e: "0 < a" "e < 2 ^ 32"
  defines "m' \<equiv> merge_next a (set_magic a MAGIC_FREE (set_free a True m))"
  shows "chain m' p a (join_right sz ys) e 0" and "touched (hdr_bytes a ((sz, False) # ys)) m m'"
proof -
  let ?m1 = "set_magic a MAGIC_FREE (set_free a True m)"
  note r = release_header [OF c]
  have t1: "touched (hdr_bytes a ((sz, False) # ys)) m ?m1"
    using r(2) by (rule touched_mono) auto
  have "chain m' p a (join_right sz ys) e 0 \<and> touched (hdr_bytes a ((sz, False) # ys)) m m'"
  proof (cases "ys \<noteq> [] \<and> snd (hd ys)")
    case True
    then obtain s2 bs where ys: "ys = (s2, True) # bs" by (cases ys) auto
    note mn = merge_next_chain [OF r(1) [unfolded ys] e]
    have "touched (hdr_bytes a ((sz, False) # ys)) ?m1 m'"
      using mn(2) unfolding m'_def ys by simp
    with t1 mn(1) ys show ?thesis by (auto simp: m'_def intro: touched_trans)
  next
    case False
    then have m': "m' = ?m1" using merge_next_used [OF r(1)] by (cases ys) (auto simp: m'_def)
    have "join_right sz ys = (sz, True) # ys" using False by (cases ys) auto
    with r m' t1 show ?thesis by auto
  qed
  then show "chain m' p a (join_right sz ys) e 0" "touched (hdr_bytes a ((sz, False) # ys)) m m'"
    by auto
qed

lemma join_right_Cons: "\<exists>s ys'. join_right sz ys = (s, True) # ys'"
  by (cases "(sz, ys)" rule: join_right.cases) auto

lemma hdr_bytes_join_right: "hdr_bytes a (join_right sz ys) \<subseteq> hdr_bytes a ((sz, False) # ys)"
  by (cases "(sz, ys)" rule: join_right.cases) (auto simp: add.assoc)

lemma extent_join_right: "extent (join_right sz ys) = 20 + sz + extent ys"
  by (cases "(sz, ys)" rule: join_right.cases) auto

text \<open>The whole of \<^verbatim>\<open>release_block\<close>.\<close>

lemma release_block_chain:
  assumes c: "chain m 0 a (xs @ (sz, False) # ys) e 0" and e: "0 < a" "e < 2 ^ 32"
  defines "m' \<equiv> release_block (a + extent xs) m"
  shows "chain m' 0 a (join_left xs (join_right sz ys)) e 0"
    and "touched (hdr_bytes a (xs @ (sz, False) # ys)) m m'"
proof -
  let ?c = "a + extent xs"
  let ?m2 = "merge_next ?c (set_magic ?c MAGIC_FREE (set_free ?c True m))"
  have tail: "chain m (last_addr 0 a xs) ?c ((sz, False) # ys) e 0"
    using c by (simp add: chain_append)
  have c0: "0 < ?c" using e by simp
  note fm = free_and_merge_right [OF tail c0 e(2)]
  obtain s ys' where jr: "join_right sz ys = (s, True) # ys'" using join_right_Cons by blast
  have c2: "chain ?m2 0 a (xs @ join_right sz ys) e 0"
    by (rule chain_replace_tail [OF c fm(2) fm(1)]) (simp_all add: jr)
  have t2: "touched (hdr_bytes a (xs @ (sz, False) # ys)) m ?m2"
    using fm(2) by (rule touched_mono) (auto simp: hdr_bytes_append)
  have m': "m' = merge_prev ?c ?m2" by (simp add: m'_def release_block_def coalesce_def)
  have "chain m' 0 a (join_left xs (join_right sz ys)) e 0
        \<and> touched (hdr_bytes a (xs @ (sz, False) # ys)) m m'"
  proof (cases "xs \<noteq> [] \<and> snd (last xs)")
    case False
    have "m' = ?m2" unfolding m'
      by (rule merge_prev_used [OF c2 [unfolded jr]]) (use False in auto)
    moreover have "join_left xs (join_right sz ys) = xs @ join_right sz ys"
      using False by (auto simp: jr)
    ultimately show ?thesis using c2 t2 by simp
  next
    case True
    then obtain ws s0 where xs: "xs = ws @ [(s0, True)]"
      by (metis append_butlast_last_id prod.collapse)
    let ?p = "a + extent ws"
    have c2': "chain ?m2 0 a (ws @ ((s0, True) # (s, True) # ys')) e 0"
      using c2 by (simp add: xs jr)
    then have t: "chain ?m2 (last_addr 0 a ws) ?p ((s0, True) # (s, True) # ys') e 0"
      by (simp add: chain_append)
    have p0: "0 < ?p" using e by simp
    have cp: "?c = ?p + 20 + s0" by (simp add: xs)
    have bound: "e = ?p + 20 + s0 + (20 + s + extent ys')" using chain_extent [OF t] by simp
    have "merge_prev ?c ?m2 = merge_next ?p ?m2"
      using t e(2) bound p0 unfolding cp
      by (intro merge_prev_as_next [where ?s0.0 = s0 and ?s1.0 = s
            and q = "if ys' = [] then 0 else ?p + 20 + s0 + 20 + s"]) auto
    then have eq: "m' = merge_next ?p ?m2" using m' by simp
    note mn = merge_next_chain [OF t p0 e(2)]
    have "chain m' 0 a (ws @ (s0 + 20 + s, True) # ys') e 0"
      unfolding eq by (rule chain_replace_tail [OF c2' mn(2) mn(1)]) simp_all
    moreover have "touched (hdr_bytes a (xs @ (sz, False) # ys)) ?m2 m'"
      unfolding eq using mn(2)
    proof (rule touched_mono)
      have "hdr_bytes ?c ((s, True) # ys') \<subseteq> hdr_bytes ?c ((sz, False) # ys)"
        using hdr_bytes_join_right [of ?c sz ys] by (simp add: jr)
      then show "hdr_bytes ?p ((s0, True) # (s, True) # ys') \<subseteq> hdr_bytes a (xs @ (sz, False) # ys)"
        using cp by (auto simp: xs hdr_bytes_append)
    qed
    ultimately show ?thesis using t2 by (auto simp: xs jr intro: touched_trans)
  qed
  then show "chain m' 0 a (join_left xs (join_right sz ys)) e 0"
    "touched (hdr_bytes a (xs @ (sz, False) # ys)) m m'" by auto
qed

section \<open>Allocation on memory\<close>

lemma split_block_keeps:
  assumes "unat n + 28 > unat (get_size m b)" "unat n \<le> unat (get_size m b)" "unat (get_size m b) + 28 < 2 ^ 32"
  shows "split_block b n m = m"
proof -
  have "unat (n + 20 + 8) = unat n + 28" using assms by (simp add: unat_plus_u32)
  with assms show ?thesis by (simp add: split_block_def word_le_nat_alt)
qed

lemma split_block_unfold:
  assumes h: "hdr m a sz True p (if bs = [] then 0 else a + 20 + sz)"
    and n: "unat n + 28 \<le> sz" and b: "a + 20 + sz < 2 ^ 32"
  defines "nb \<equiv> a + 20 + unat n"
  defines "m1 \<equiv> set_prev nb a (set_next nb (if bs = [] then 0 else a + 20 + sz)
                  (set_free nb True (set_size nb (get_size m a - n - 20) (set_magic nb MAGIC_FREE m))))"
  shows "split_block a n m = set_size a n (set_next a nb
           (if bs = [] then m1 else set_prev (a + 20 + sz) nb m1))"
proof -
  have "unat (n + 20 + 8) = unat n + 28" using n b by (simp add: unat_plus_u32)
  then have cond: "n + 20 + 8 \<le> get_size m a" using h n by (simp add: word_le_nat_alt hdr_def)
  have sep: "a + 20 \<le> nb" by (simp add: nb_def)
  show ?thesis
    using h cond sep unfolding split_block_def nb_def [symmetric]
    by (cases "bs = []") (simp_all add: hdr_def Let_def m1_def)
qed

lemma take_block_chain:
  assumes c: "chain m p a ((sz, True) # bs) e 0" and n: "unat n \<le> sz" and e: "0 < a" "e + 28 < 2 ^ 32"
  defines "m' \<equiv> set_magic a MAGIC_USED (set_free a False (split_block a n m))"
  defines "bs' \<equiv> (if unat n + 28 \<le> sz then (unat n, False) # (sz - unat n - 20, True) # bs
                  else (sz, False) # bs)"
  shows "chain m' p a bs' e 0" and "touched (hdr_bytes a bs') m m'"
proof -
  let ?k = "a + 20 + sz"
  let ?q = "if bs = [] then 0 else ?k"
  have ext: "e = ?k + extent bs" using chain_extent [OF c] by simp
  from c have h: "hdr m a sz True p ?q" and rest: "chain m a ?k bs e 0" by auto
  have "chain m' p a bs' e 0 \<and> touched (hdr_bytes a bs') m m'"
  proof (cases "unat n + 28 \<le> sz")
    case False
    have "split_block a n m = m"
      using split_block_keeps [of m a n] h n False e ext by (simp add: hdr_def)
    then have m': "m' = set_magic a MAGIC_USED (set_free a False m)" by (simp add: m'_def)
    have "chain m' a ?k bs e 0" using rest by (subst chain_cong [where m' = m]) (auto simp: m')
    moreover have "hdr m' a sz False p ?q" using h by (simp add: m' hdr_def)
    ultimately show ?thesis using False by (auto simp: bs'_def touched_def m')
  next
    case True
    let ?nb = "a + 20 + unat n"
    let ?m1 = "set_prev ?nb a (set_next ?nb ?q (set_free ?nb True
                 (set_size ?nb (get_size m a - n - 20) (set_magic ?nb MAGIC_FREE m))))"
    let ?m2 = "if bs = [] then ?m1 else set_prev ?k ?nb ?m1"
    have m': "m' = set_magic a MAGIC_USED (set_free a False (set_size a n (set_next a ?nb ?m2)))"
      unfolding m'_def using split_block_unfold [OF h True] e ext by simp
    have q: "?q < 2 ^ 32" using e ext by simp
    have nbk: "?nb + 20 \<le> ?k" using True by simp
    have kb: "?k < 2 ^ 32" using e ext by simp
    have szn: "unat (get_size m a - n - 20) = sz - unat n - 20"
    proof -
      have "unat (get_size m a - n) = sz - unat n"
        using h n by (simp add: hdr_def unat_minus_u32 word_le_nat_alt)
      then show ?thesis using True by (simp add: unat_minus_u32 word_le_nat_alt)
    qed
    have ha: "hdr m' a (unat n) False p ?nb"
      using h nbk kb by (cases "bs = []") (simp_all add: m' hdr_def)
    have hnb: "hdr m' ?nb (sz - unat n - 20) True a ?q"
      using nbk kb szn q by (cases "bs = []") (simp_all add: m' hdr_def)
    have r1: "chain ?m1 a ?k bs e 0"
      using rest by (subst chain_cong [where m' = m]) (use nbk in auto)
    have r2: "chain ?m2 ?nb ?k bs e 0"
      using r1 chain_set_prev [OF r1, of ?nb] kb nbk by (cases "bs = []") auto
    have r3: "chain m' ?nb ?k bs e 0"
      using r2 by (subst chain_cong [where m' = ?m2]) (auto simp: m')
    have ks: "?nb + 20 + (sz - unat n - 20) = ?k" using True by simp
    have bs': "bs' = (unat n, False) # (sz - unat n - 20, True) # bs" using True by (simp add: bs'_def)
    have "chain m' p a bs' e 0" unfolding bs' using ha hnb r3 ks by (cases "bs = []") (simp_all add: add.assoc)
    moreover have "touched (hdr_bytes a bs') m m'"
      unfolding bs' touched_def m' using ks by (cases bs) (auto simp: add.assoc)
    ultimately show ?thesis by simp
  qed
  then show "chain m' p a bs' e 0" "touched (hdr_bytes a bs') m m'" by auto
qed

text \<open>The walk of \<^verbatim>\<open>kmalloc\<close> implements first fit on the block list, and always returns.\<close>

lemma kmalloc_walk_refines:
  assumes "chain m p a bs e 0" "0 < a" "e + 28 < 2 ^ 32"
  shows "case amalloc (unat n) a bs of
           None \<Rightarrow> kmalloc_walk (if bs = [] then 0 else a) n m = Some (0, m)
         | Some (ptr, bs') \<Rightarrow> \<exists>m'. kmalloc_walk (if bs = [] then 0 else a) n m = Some (ptr, m')
              \<and> chain m' p a bs' e 0 \<and> touched (hdr_bytes a bs') m m' \<and> bs' \<noteq> []"
  using assms
proof (induction bs arbitrary: p a)
  case Nil
  then show ?case by (simp add: kmalloc_walk.simps)
next
  case (Cons b bs)
  obtain sz f where b: "b = (sz, f)" by (cases b)
  from Cons.prems(1) have h: "hdr m a sz f p (if bs = [] then 0 else a + 20 + sz)"
    and rest: "chain m a (a + 20 + sz) bs e 0" by (auto simp: b)
  show ?case
  proof (cases "f \<and> unat n \<le> sz")
    case True
    have "kmalloc_walk a n m =
      Some (a + 20, set_magic a MAGIC_USED (set_free a False (split_block a n m)))"
      using h True Cons.prems(2) by (subst kmalloc_walk.simps) (auto simp: hdr_def word_le_nat_alt)
    with True take_block_chain [of m p a sz bs e n] Cons.prems show ?thesis by (auto simp: b)
  next
    case False
    have w: "kmalloc_walk a n m = kmalloc_walk (if bs = [] then 0 else a + 20 + sz) n m"
      using h False Cons.prems(2)
      by (subst kmalloc_walk.simps) (auto simp: hdr_def word_le_nat_alt)
    have a': "0 < a + 20 + sz" using Cons.prems(2) by simp
    note IH = Cons.IH [OF rest a' Cons.prems(3)]
    show ?thesis
    proof (cases "amalloc (unat n) (a + 20 + sz) bs")
      case None
      with IH w False show ?thesis by (auto simp: b)
    next
      case (Some r)
      obtain ptr bs' where r: "r = (ptr, bs')" by (cases r)
      with Some IH obtain m' where m': "kmalloc_walk (if bs = [] then 0 else a + 20 + sz) n m = Some (ptr, m')"
        "chain m' a (a + 20 + sz) bs' e 0" "touched (hdr_bytes (a + 20 + sz) bs') m m'" "bs' \<noteq> []"
        by auto
      have ne: "bs \<noteq> []" using Some by auto
      have "hdr m' a sz f p (a + 20 + sz)"
        using h ne m'(3) hdr_bytes_range [of "a + 20 + sz" bs']
        by (subst hdr_cong [where m' = m]) (fastforce simp: touched_def)+
      moreover have "touched (hdr_bytes a (b # bs')) m m'"
        using m'(3) by (rule touched_mono) (auto simp: b)
      ultimately show ?thesis using Some r m' w False ne by (auto simp: b)
    qed
  qed
qed

section \<open>The operations on the block list\<close>

lemma live_append: "live a (xs @ ys) = live a xs \<union> live (a + extent xs) ys"
  by (induction a xs rule: live.induct) (auto simp: add.assoc)

lemma live_range: "(q, s) \<in> live a bs \<Longrightarrow> a + 20 \<le> q \<and> q + s \<le> a + extent bs"
  by (induction a bs rule: live.induct) (auto split: if_splits)

lemma live_not_header: "(q, s) \<in> live a bs \<Longrightarrow> q \<le> x \<Longrightarrow> x < q + s \<Longrightarrow> x \<notin> hdr_bytes a bs"
proof (induction a bs rule: live.induct)
  case (1 a)
  then show ?case by simp
next
  case (2 a sz f bs)
  have r: "hdr_bytes (a + 20 + sz) bs \<subseteq> {a + 20 + sz..<a + 20 + sz + extent bs}"
    by (rule hdr_bytes_range)
  consider "(q, s) = (a + 20, sz)" | "(q, s) \<in> live (a + 20 + sz) bs"
    using 2 by (auto split: if_splits)
  then show ?case
  proof cases
    case 1
    with r "2.prems" show ?thesis by auto
  next
    case 2
    then have "x \<notin> hdr_bytes (a + 20 + sz) bs" using "2.IH" "2.prems" by blast
    with live_range [OF 2] "2.prems" show ?thesis by auto
  qed
qed

definition take_block :: "nat \<Rightarrow> nat \<Rightarrow> blk list \<Rightarrow> blk list" where
  "take_block n sz ys = (if n + 28 \<le> sz then (n, False) # (sz - n - 20, True) # ys else (sz, False) # ys)"

lemma amalloc_Some:
  assumes "amalloc n a bs = Some (p, bs')"
  obtains xs sz ys where "bs = xs @ (sz, True) # ys" "n \<le> sz" "p = a + extent xs + 20"
    "bs' = xs @ take_block n sz ys"
  using assms
proof (induction bs arbitrary: a bs' thesis)
  case Nil
  then show ?case by simp
next
  case (Cons b bs)
  obtain sz f where b: "b = (sz, f)" by (cases b)
  show ?case
  proof (cases "f \<and> n \<le> sz")
    case True
    with Cons.prems show ?thesis
      by (intro Cons.prems(1) [of "[]" sz bs]) (auto simp: b take_block_def)
  next
    case False
    then obtain cs where cs: "amalloc n (a + 20 + sz) bs = Some (p, cs)" "bs' = (sz, f) # cs"
      using Cons.prems(2) by (auto simp: b)
    from cs(1) show ?thesis
    proof (rule Cons.IH [rotated])
      fix xs sz' ys
      assume "bs = xs @ (sz', True) # ys" "n \<le> sz'" "p = a + 20 + sz + extent xs + 20"
        "cs = xs @ take_block n sz' ys"
      then show ?thesis using cs by (intro Cons.prems(1) [of "b # xs" sz' ys]) (auto simp: b)
    qed
  qed
qed

lemma amalloc_None: "amalloc n a bs = None \<longleftrightarrow> (\<forall>(sz, f) \<in> set bs. f \<longrightarrow> sz < n)"
  by (induction n a bs rule: amalloc.induct) auto

lemma extent_take_block: "n \<le> sz \<Longrightarrow> extent (take_block n sz ys) = 20 + sz + extent ys"
  by (simp add: take_block_def)

lemma take_block_live:
  assumes "n \<le> sz"
  obtains s where "n \<le> s" "s \<le> sz" "live a (take_block n sz ys) = insert (a + 20, s) (live (a + 20 + sz) ys)"
proof (cases "n + 28 \<le> sz")
  case True
  have "a + 20 + n + 20 + (sz - n - 20) = a + 20 + sz" using True by simp
  with True show ?thesis by (intro that [of n]) (auto simp: take_block_def add.assoc)
next
  case False
  with assms show ?thesis by (intro that [of sz]) (auto simp: take_block_def)
qed

lemma coalesced_append:
  "coalesced (xs @ ys) \<longleftrightarrow> coalesced xs \<and> coalesced ys
     \<and> (xs \<noteq> [] \<and> ys \<noteq> [] \<longrightarrow> \<not> (snd (last xs) \<and> snd (hd ys)))"
proof (induction xs rule: coalesced.induct, goal_cases)
  case (3 v)
  then show ?case by (cases v; cases ys) auto
qed simp_all

lemma coalesced_take_block: "coalesced ((sz, True) # ys) \<Longrightarrow> coalesced (take_block n sz ys)"
  by (cases ys) (auto simp: take_block_def)

lemma coalesced_amalloc: "coalesced bs \<Longrightarrow> amalloc n a bs = Some (p, bs') \<Longrightarrow> coalesced bs'"
  by (erule amalloc_Some)
     (auto simp: coalesced_append coalesced_take_block take_block_def dest: coalesced_take_block [of _ _ n])

lemma find_block_Some:
  "find_block p a bs = Some (xs, sz, ys) \<Longrightarrow> bs = xs @ (sz, False) # ys \<and> p = a + extent xs + 20"
  by (induction p a bs arbitrary: xs rule: find_block.induct) (fastforce split: if_splits)+

lemma find_block_at: "find_block (a + extent xs + 20) a (xs @ (sz, False) # ys) = Some (xs, sz, ys)"
proof (induction xs arbitrary: a)
  case Nil
  show ?case by simp
next
  case (Cons b xs)
  obtain s f where b: "b = (s, f)" by (cases b)
  show ?case using Cons.IH [of "a + 20 + s"] by (simp add: b add.assoc)
qed

lemma live_find_block: "(p, sz) \<in> live a bs \<Longrightarrow> \<exists>xs ys. find_block p a bs = Some (xs, sz, ys)"
proof (induction a bs rule: live.induct)
  case (1 a)
  then show ?case by simp
next
  case (2 a s f bs)
  show ?case
  proof (cases "p = a + 20 \<and> \<not> f")
    case True
    then have "(p, sz) \<notin> live (a + 20 + s) bs" using live_range [of p sz "a + 20 + s" bs] by auto
    with True 2 show ?thesis by auto
  next
    case False
    with 2 show ?thesis by (fastforce split: if_splits)
  qed
qed

lemma live_join_right: "live a (join_right sz ys) = live (a + 20 + sz) ys"
  by (cases "(sz, ys)" rule: join_right.cases) (auto simp: add.assoc add.left_commute)

lemma coalesced_join_right:
  "coalesced ((sz, False) # ys) \<Longrightarrow> coalesced (join_right sz ys)"
proof (cases "(sz, ys)" rule: join_right.cases)
  case (1 _ s2 bs)
  then show "coalesced ((sz, False) # ys) \<Longrightarrow> coalesced (join_right sz ys)"
    by (cases bs) auto
qed auto

lemma live_join_left:
  "live a (join_left xs ((s, True) # ys)) = live a xs \<union> live (a + extent xs + 20 + s) ys"
proof (cases "xs \<noteq> [] \<and> snd (last xs)")
  case True
  then obtain ws s0 where "xs = ws @ [(s0, True)]" by (metis append_butlast_last_id prod.collapse)
  then show ?thesis by (simp add: live_append add.assoc add.left_commute)
next
  case False
  then show ?thesis by (auto simp: live_append)
qed

lemma coalesced_join_left:
  assumes "coalesced xs" "coalesced ((s, True) # ys)"
  shows "coalesced (join_left xs ((s, True) # ys))"
proof (cases "xs \<noteq> [] \<and> snd (last xs)")
  case True
  then obtain ws s0 where xs: "xs = ws @ [(s0, True)]" by (metis append_butlast_last_id prod.collapse)
  have "coalesced ((s0 + 20 + s, True) # ys)" using assms(2) by (cases ys) auto
  with assms(1) xs show ?thesis by (simp add: coalesced_append)
next
  case False
  with assms show ?thesis by (auto simp: coalesced_append)
qed

section \<open>The heap interface\<close>

text \<open>
  What a client of the heap relies on: a set of live allocations (payload address and size)
  that never overlap, an allocation that adds one of at least the requested size and a
  release that removes one, neither of them touching the bytes of any other live allocation.
\<close>

definition heap_ok :: "kheap \<Rightarrow> bool" where
  "heap_ok h \<longleftrightarrow> (\<exists>bs. heap_rep h bs)"

definition heap_live :: "kheap \<Rightarrow> (nat \<times> nat) set" where
  "heap_live h = {a. \<exists>bs. heap_rep h bs \<and> a \<in> live (kh_base h) bs}"

locale heap_provider =
  fixes ok :: "'h \<Rightarrow> bool"
    and allocs :: "'h \<Rightarrow> (nat \<times> nat) set"
    and bytes :: "'h \<Rightarrow> mem"
    and malloc :: "u32 \<Rightarrow> 'h \<Rightarrow> (nat \<times> 'h) option"
    and free :: "nat \<Rightarrow> 'h \<Rightarrow> 'h"
    and sane :: "u32 \<Rightarrow> bool"
  assumes malloc_total: "ok h \<Longrightarrow> \<exists>p h'. malloc n h = Some (p, h')"
    and malloc_null: "ok h \<Longrightarrow> sane n \<Longrightarrow> malloc n h = Some (0, h') \<Longrightarrow> h' = h"
    and malloc_live: "ok h \<Longrightarrow> sane n \<Longrightarrow> malloc n h = Some (p, h') \<Longrightarrow> p \<noteq> 0 \<Longrightarrow>
          \<exists>s. unat n \<le> s \<and> (p, s) \<notin> allocs h \<and> allocs h' = insert (p, s) (allocs h)"
    and malloc_bytes: "ok h \<Longrightarrow> sane n \<Longrightarrow> malloc n h = Some (p, h') \<Longrightarrow> (q, s) \<in> allocs h \<Longrightarrow>
          q \<le> x \<Longrightarrow> x < q + s \<Longrightarrow> bytes h' x = bytes h x"
    and malloc_ok: "ok h \<Longrightarrow> sane n \<Longrightarrow> malloc n h = Some (p, h') \<Longrightarrow> ok h'"
    and free_live: "ok h \<Longrightarrow> (p, s) \<in> allocs h \<Longrightarrow> allocs (free p h) = allocs h - {(p, s)}"
    and free_bytes: "ok h \<Longrightarrow> (p, s) \<in> allocs h \<Longrightarrow> (q, t) \<in> allocs h \<Longrightarrow>
          q \<le> x \<Longrightarrow> x < q + t \<Longrightarrow> bytes (free p h) x = bytes h x"
    and free_ok: "ok h \<Longrightarrow> (p, s) \<in> allocs h \<Longrightarrow> ok (free p h)"
    and live_disjoint: "ok h \<Longrightarrow> (p, s) \<in> allocs h \<Longrightarrow> (q, t) \<in> allocs h \<Longrightarrow>
          (p, s) = (q, t) \<or> p + s \<le> q \<or> q + t \<le> p"
begin

lemma malloc_disjoint:
  assumes "ok h" "sane n" "malloc n h = Some (p, h')" "p \<noteq> 0" "(q, t) \<in> allocs h"
  shows "p + unat n \<le> q \<or> q + t \<le> p"
proof -
  obtain s where s: "unat n \<le> s" "(p, s) \<notin> allocs h" "allocs h' = insert (p, s) (allocs h)"
    using malloc_live [OF assms(1-4)] by blast
  have "(p, s) = (q, t) \<or> p + s \<le> q \<or> q + t \<le> p"
    using live_disjoint [OF malloc_ok [OF assms(1-3)], of p s q t] s assms(5) by simp
  with s assms(5) show ?thesis by auto
qed

lemma malloc_free_allocs:
  assumes "ok h" "sane n" "malloc n h = Some (p, h')" "p \<noteq> 0"
  shows "allocs (free p h') = allocs h"
proof -
  obtain s where s: "(p, s) \<notin> allocs h" "allocs h' = insert (p, s) (allocs h)"
    using malloc_live [OF assms] by blast
  have "allocs (free p h') = allocs h' - {(p, s)}"
    using free_live [OF malloc_ok [OF assms(1-3)], of p s] s by simp
  with s show ?thesis by auto
qed

lemma malloc_free_bytes:
  assumes "ok h" "sane n" "malloc n h = Some (p, h')" "p \<noteq> 0" "(q, t) \<in> allocs h" "q \<le> x" "x < q + t"
  shows "bytes (free p h') x = bytes h x"
proof -
  obtain s where s: "allocs h' = insert (p, s) (allocs h)"
    using malloc_live [OF assms(1-4)] by blast
  have "bytes (free p h') x = bytes h' x"
    by (rule free_bytes [OF malloc_ok [OF assms(1-3)], of p s q t]) (use s assms in auto)
  with malloc_bytes [OF assms(1-3,5-7)] show ?thesis by simp
qed

end

section \<open>The heap provides the interface\<close>

lemma chain_unique: "chain m p a bs e q \<Longrightarrow> chain m p a cs e q \<Longrightarrow> bs = cs"
proof (induction bs arbitrary: p a cs)
  case Nil
  then show ?case using chain_extent [OF Nil.prems(2)] by (cases cs) auto
next
  case (Cons b bs)
  obtain sz f where b: "b = (sz, f)" by (cases b)
  have "a < e" using chain_extent [OF Cons.prems(1)] b by simp
  then obtain sz' f' cs' where cs: "cs = (sz', f') # cs'" using Cons.prems(2) by (cases cs) auto
  have "sz' = sz \<and> f' = f" using Cons.prems by (auto simp: b cs hdr_def)
  with Cons show ?case by (auto simp: b cs)
qed

lemma heap_rep_unique: "heap_rep h bs \<Longrightarrow> heap_rep h cs \<Longrightarrow> bs = cs"
  unfolding heap_rep_def by (blast intro: chain_unique)

lemma heap_live_rep: "heap_rep h bs \<Longrightarrow> heap_live h = live (kh_base h) bs"
  by (auto simp: heap_live_def dest: heap_rep_unique)

lemma align_up_8_shift: "align_up n 8 = push_bit 3 (drop_bit 3 (n + 7))"
proof -
  have m: "(7 :: u32) = mask 3" by (simp add: mask_eq_exp_minus_1)
  show ?thesis unfolding align_up_def by (rule bit_word_eqI) (auto simp: bit_simps m)
qed

lemma unat_align_up_8:
  assumes "unat n \<le> 4294967288"
  shows "unat (align_up n 8) = (unat n + 7) div 8 * 8"
proof -
  have "unat (align_up n 8) = unat (drop_bit 3 (n + 7)) * 8 mod 2 ^ 32"
    by (simp add: align_up_8_shift push_bit_eq_mult unat_word_ariths mult.commute)
  also have "unat (drop_bit 3 (n + 7)) = (unat n + 7) div 8"
    using assms by (simp add: drop_bit_eq_div unat_div unat_plus_u32)
  also have "(unat n + 7) div 8 * 8 mod 2 ^ 32 = (unat n + 7) div 8 * 8"
    using assms by simp
  finally show ?thesis .
qed

definition sane_size :: "u32 \<Rightarrow> bool" where
  "sane_size n \<longleftrightarrow> unat n \<le> 4294967288"

lemma align_up_8_ge: "sane_size n \<Longrightarrow> unat n \<le> unat (align_up n 8)"
  by (simp add: sane_size_def unat_align_up_8)

text \<open>\<^verbatim>\<open>kmalloc\<close> refines first fit on the block list.\<close>

lemma kmalloc_refines:
  assumes rep: "heap_rep h bs" and n: "n \<noteq> 0"
  shows "case amalloc (unat (align_up n 8)) (kh_base h) bs of
           None \<Rightarrow> kmalloc n h = Some (0, h)
         | Some (p, bs') \<Rightarrow> \<exists>m'. kmalloc n h = Some (p, h\<lparr>kh_mem := m'\<rparr>)
              \<and> heap_rep (h\<lparr>kh_mem := m'\<rparr>) bs' \<and> touched (hdr_bytes (kh_base h) bs') (kh_mem h) m'"
proof -
  have r: "kh_initialized h" "kh_head h = kh_base h" "0 < kh_base h" "bs \<noteq> []" "coalesced bs"
    "kh_base h + HEAP_SIZE + 28 < 2 ^ 32"
    "chain (kh_mem h) 0 (kh_base h) bs (kh_base h + HEAP_SIZE) 0"
    using rep by (auto simp: heap_rep_def)
  note w = kmalloc_walk_refines [OF r(7,3,6), of "align_up n 8"]
  have k: "kmalloc n h = map_option (\<lambda>(p, m). (p, h\<lparr>kh_mem := m\<rparr>))
             (kmalloc_walk (if bs = [] then 0 else kh_base h) (align_up n 8) (kh_mem h))"
    using r n by (simp add: kmalloc_def)
  show ?thesis
  proof (cases "amalloc (unat (align_up n 8)) (kh_base h) bs")
    case None
    with w k show ?thesis by simp
  next
    case (Some pr)
    obtain p bs' where pr: "pr = (p, bs')" by (cases pr)
    with Some w obtain m' where m': "kmalloc_walk (if bs = [] then 0 else kh_base h) (align_up n 8) (kh_mem h) = Some (p, m')"
      "chain m' 0 (kh_base h) bs' (kh_base h + HEAP_SIZE) 0" "touched (hdr_bytes (kh_base h) bs') (kh_mem h) m'" "bs' \<noteq> []"
      by auto
    have "coalesced bs'" using coalesced_amalloc [OF r(5)] Some pr by simp
    with m' r have "heap_rep (h\<lparr>kh_mem := m'\<rparr>) bs'" by (simp add: heap_rep_def)
    with m' k Some pr show ?thesis by auto
  qed
qed

lemma amalloc_live:
  assumes "amalloc n a bs = Some (p, bs')"
  shows "\<exists>s. n \<le> s \<and> (p, s) \<notin> live a bs \<and> live a bs' = insert (p, s) (live a bs) \<and> 0 < p"
  using assms
proof (rule amalloc_Some)
  fix xs sz ys
  assume d: "bs = xs @ (sz, True) # ys" "n \<le> sz" "p = a + extent xs + 20" "bs' = xs @ take_block n sz ys"
  obtain s where s: "n \<le> s" "s \<le> sz"
    "live (a + extent xs) (take_block n sz ys) = insert (a + extent xs + 20, s) (live (a + extent xs + 20 + sz) ys)"
    using take_block_live [OF d(2)] .
  have "(p, s) \<notin> live a xs" "(p, s) \<notin> live (a + extent xs + 20 + sz) ys"
    using live_range [of p s a xs] live_range [of p s "a + extent xs + 20 + sz" ys] d(3) by auto
  with s d show ?thesis by (auto simp: live_append)
qed

lemma kfree_refines:
  assumes rep: "heap_rep h bs" and lv: "(p, s) \<in> live (kh_base h) bs"
  obtains m' where "kfree p h = h\<lparr>kh_mem := m'\<rparr>" "heap_rep (h\<lparr>kh_mem := m'\<rparr>) (afree p (kh_base h) bs)"
    "touched (hdr_bytes (kh_base h) bs) (kh_mem h) m'"
proof -
  have r: "kh_initialized h" "kh_head h = kh_base h" "0 < kh_base h" "coalesced bs"
    "kh_base h + HEAP_SIZE + 28 < 2 ^ 32"
    "chain (kh_mem h) 0 (kh_base h) bs (kh_base h + HEAP_SIZE) 0"
    using rep by (auto simp: heap_rep_def)
  obtain xs ys where fb: "find_block p (kh_base h) bs = Some (xs, s, ys)"
    using live_find_block [OF lv] by blast
  then have bs: "bs = xs @ (s, False) # ys" and p: "p = kh_base h + extent xs + 20"
    using find_block_Some by blast+
  let ?c = "kh_base h + extent xs"
  have "hdr (kh_mem h) ?c s False (last_addr 0 (kh_base h) xs) (if ys = [] then 0 else ?c + 20 + s)"
    using r(6) unfolding bs by (simp add: chain_append)
  then have "get_magic (kh_mem h) ?c = MAGIC_USED" by (simp add: hdr_def)
  then have k: "kfree p h = h\<lparr>kh_mem := release_block ?c (kh_mem h)\<rparr>"
    by (simp add: kfree_def block_from_ptr_def p)
  have eb: "kh_base h + HEAP_SIZE < 2 ^ 32" using r(5) by simp
  note rel = release_block_chain [OF r(6) [unfolded bs] r(3) eb]
  obtain s' ys' where jr: "join_right s ys = (s', True) # ys'" using join_right_Cons by blast
  have co: "coalesced xs" "coalesced ((s, False) # ys)" using r(4) by (auto simp: bs coalesced_append)
  have "coalesced (join_left xs (join_right s ys))"
    using coalesced_join_left [OF co(1)] coalesced_join_right [OF co(2)] jr by simp
  moreover have "join_left xs (join_right s ys) \<noteq> []" by (simp add: jr)
  ultimately have "heap_rep (h\<lparr>kh_mem := release_block ?c (kh_mem h)\<rparr>) (afree p (kh_base h) bs)"
    using rel(1) r fb by (simp add: heap_rep_def afree_def)
  then show ?thesis using that [OF k] rel(2) bs by simp
qed

lemma afree_live:
  assumes "(p, s) \<in> live a bs"
  shows "live a (afree p a bs) = live a bs - {(p, s)}"
proof -
  obtain xs ys where fb: "find_block p a bs = Some (xs, s, ys)"
    using live_find_block [OF assms] by blast
  then have bs: "bs = xs @ (s, False) # ys" and p: "p = a + extent xs + 20"
    using find_block_Some by blast+
  obtain s' ys' where jr: "join_right s ys = (s', True) # ys'" using join_right_Cons by blast
  have "live (a + extent xs) (join_right s ys) = live (a + extent xs + 20 + s) ys"
    by (rule live_join_right)
  then have "live a (afree p a bs) = live a xs \<union> live (a + extent xs + 20 + s) ys"
    using fb by (simp add: afree_def jr live_join_left del: join_left.simps)
  moreover have "(p, s) \<notin> live a xs" "(p, s) \<notin> live (a + extent xs + 20 + s) ys"
    using live_range [of p s a xs] live_range [of p s "a + extent xs + 20 + s" ys] p by auto
  ultimately show ?thesis by (auto simp: bs live_append p)
qed

lemma live_pairwise_disjoint:
  "(p, s) \<in> live a bs \<Longrightarrow> (q, t) \<in> live a bs \<Longrightarrow> (p, s) = (q, t) \<or> p + s \<le> q \<or> q + t \<le> p"
proof (induction a bs rule: live.induct)
  case (1 a)
  then show ?case by simp
next
  case (2 a sz f bs)
  then show ?case
    using live_range [of p s "a + 20 + sz" bs] live_range [of q t "a + 20 + sz" bs]
    by (auto split: if_splits)
qed

lemma untouched_live:
  assumes "touched (hdr_bytes a bs) m m'" "(q, t) \<in> live a bs" "q \<le> x" "x < q + t"
  shows "m' x = m x"
  using assms live_not_header [OF assms(2-4)] by (simp add: touched_def)

lemma kmalloc_cases:
  assumes rep: "heap_rep h bs" and n: "sane_size n"
  obtains (null) "kmalloc n h = Some (0, h)" "n \<noteq> 0 \<Longrightarrow> \<forall>(sz, f) \<in> set bs. f \<longrightarrow> sz < unat (align_up n 8)"
  | (ok) p s m' bs' where "kmalloc n h = Some (p, h\<lparr>kh_mem := m'\<rparr>)" "0 < p" "unat n \<le> s"
      "amalloc (unat (align_up n 8)) (kh_base h) bs = Some (p, bs')" "heap_rep (h\<lparr>kh_mem := m'\<rparr>) bs'"
      "live (kh_base h) bs' = insert (p, s) (live (kh_base h) bs)" "(p, s) \<notin> live (kh_base h) bs"
      "touched (hdr_bytes (kh_base h) bs') (kh_mem h) m'" "n \<noteq> 0"
proof (cases "n = 0")
  case True
  have "kh_initialized h" using rep by (simp add: heap_rep_def)
  with True show ?thesis by (intro null) (simp_all add: kmalloc_def)
next
  case False
  note r = kmalloc_refines [OF rep False]
  show ?thesis
  proof (cases "amalloc (unat (align_up n 8)) (kh_base h) bs")
    case None
    with r show ?thesis by (intro null) (auto simp: amalloc_None)
  next
    case (Some pr)
    obtain p bs' where pr: "pr = (p, bs')" by (cases pr)
    with Some r obtain m' where m': "kmalloc n h = Some (p, h\<lparr>kh_mem := m'\<rparr>)"
      "heap_rep (h\<lparr>kh_mem := m'\<rparr>) bs'" "touched (hdr_bytes (kh_base h) bs') (kh_mem h) m'" by auto
    obtain s where s: "unat (align_up n 8) \<le> s" "(p, s) \<notin> live (kh_base h) bs"
      "live (kh_base h) bs' = insert (p, s) (live (kh_base h) bs)" "0 < p"
      using amalloc_live Some pr by blast
    show ?thesis
      by (rule ok [of p m' s bs']) (use m' s Some pr False align_up_8_ge [OF n] in auto)
  qed
qed

interpretation kheap: heap_provider heap_ok heap_live kh_mem kmalloc kfree sane_size
proof
  fix h n p q s t x h'
  assume ok: "heap_ok h"
  then obtain bs where rep: "heap_rep h bs" by (auto simp: heap_ok_def)
  note lv = heap_live_rep [OF rep]
  show "\<exists>p h'. kmalloc n h = Some (p, h')"
  proof (cases "n = 0")
    case True
    then show ?thesis by (simp add: kmalloc_def)
  next
    case False
    from kmalloc_refines [OF rep this] show ?thesis by (auto split: option.splits)
  qed
  show "h' = h" if "sane_size n" "kmalloc n h = Some (0, h')"
    using rep that(1) by (cases rule: kmalloc_cases) (use that in auto)
  show "\<exists>s. unat n \<le> s \<and> (p, s) \<notin> heap_live h \<and> heap_live h' = insert (p, s) (heap_live h)"
    if "sane_size n" "kmalloc n h = Some (p, h')" "p \<noteq> 0"
    using rep that(1)
  proof (cases rule: kmalloc_cases)
    case null
    with that show ?thesis by simp
  next
    case (ok p' s' m' bs')
    with that heap_live_rep [OF ok(5)] show ?thesis by (auto simp: lv)
  qed
  show "kh_mem h' x = kh_mem h x"
    if "sane_size n" "kmalloc n h = Some (p, h')" "(q, s) \<in> heap_live h" "q \<le> x" "x < q + s"
    using rep that(1)
  proof (cases rule: kmalloc_cases)
    case null
    with that show ?thesis by simp
  next
    case (ok p' s' m' bs')
    have "m' x = kh_mem h x"
      by (rule untouched_live [OF ok(8), of q s]) (use ok(6) that lv in auto)
    with ok that show ?thesis by simp
  qed
  show "heap_ok h'" if "sane_size n" "kmalloc n h = Some (p, h')"
    using rep that(1) by (cases rule: kmalloc_cases) (use that ok in \<open>auto simp: heap_ok_def\<close>)
  show "(p, s) = (q, t) \<or> p + s \<le> q \<or> q + t \<le> p" if "(p, s) \<in> heap_live h" "(q, t) \<in> heap_live h"
    using live_pairwise_disjoint that by (simp add: lv)
  assume live: "(p, s) \<in> heap_live h"
  then have lp: "(p, s) \<in> live (kh_base h) bs" by (simp add: lv)
  obtain m' where m': "kfree p h = h\<lparr>kh_mem := m'\<rparr>" "heap_rep (h\<lparr>kh_mem := m'\<rparr>) (afree p (kh_base h) bs)"
    "touched (hdr_bytes (kh_base h) bs) (kh_mem h) m'"
    using kfree_refines [OF rep lp] .
  show "heap_live (kfree p h) = heap_live h - {(p, s)}"
    using heap_live_rep [OF m'(2)] afree_live [OF lp] m'(1) by (simp add: lv)
  show "heap_ok (kfree p h)" using m' by (auto simp: heap_ok_def)
  show "kh_mem (kfree p h) x = kh_mem h x" if "(q, t) \<in> heap_live h" "q \<le> x" "x < q + t"
    using untouched_live [OF m'(3), of q t x] that m'(1) by (simp add: lv)
qed

lemma kheap_init_rep:
  assumes "0 < kh_base h" "kh_base h + HEAP_SIZE + 28 < 2 ^ 32"
  shows "heap_rep (kheap_init h) [(HEAP_SIZE - 20, True)]"
  using assms by (simp add: heap_rep_def kheap_init_def Let_def hdr_def)

lemma amalloc_afree:
  assumes "coalesced bs" "amalloc n a bs = Some (p, bs')"
  shows "afree p a bs' = bs"
  using assms(2)
proof (rule amalloc_Some)
  fix xs sz ys
  assume d: "bs = xs @ (sz, True) # ys" "n \<le> sz" "p = a + extent xs + 20" "bs' = xs @ take_block n sz ys"
  have xs: "\<not> (xs \<noteq> [] \<and> snd (last xs))" and ys: "ys \<noteq> [] \<Longrightarrow> \<not> snd (hd ys)"
    using assms(1) d(1) by (cases ys; auto simp: coalesced_append)+
  have jr: "join_right sz ys = (sz, True) # ys" using ys by (cases ys) auto
  show ?thesis
  proof (cases "n + 28 \<le> sz")
    case True
    then have bs': "bs' = xs @ (n, False) # (sz - n - 20, True) # ys"
      using d(4) by (simp add: take_block_def)
    have "find_block p a bs' = Some (xs, n, (sz - n - 20, True) # ys)"
      unfolding bs' d(3) by (rule find_block_at)
    with True xs d(1) show ?thesis by (auto simp: afree_def)
  next
    case False
    then have bs': "bs' = xs @ (sz, False) # ys" using d(4) by (simp add: take_block_def)
    have "find_block p a bs' = Some (xs, sz, ys)" unfolding bs' d(3) by (rule find_block_at)
    with jr xs d(1) show ?thesis by (auto simp: afree_def)
  qed
qed


section \<open>Properties\<close>

text \<open>
  C6: allocation. From any heap that holds a coalesced block list, a request of at most
  \<open>2 ^ 32 - 8\<close> bytes returns. A null result leaves the heap unchanged and, for a non-zero request,
  means that every free block is smaller than the request rounded up to 8 bytes. Otherwise the result is the address of a new live payload of at least the
  requested size that overlaps no live payload, the heap invariant holds again, and every byte of
  every payload that was live before is unchanged.
\<close>

theorem kmalloc_correct:
  assumes "heap_rep h bs" and "unat n \<le> 4294967288"
  shows "\<exists>p h'. kmalloc n h = Some (p, h') \<and>
     (if p = 0 then h' = h \<and> (n \<noteq> 0 \<longrightarrow> (\<forall>(sz, f) \<in> set bs. f \<longrightarrow> sz < (unat n + 7) div 8 * 8))
      else (\<exists>bs' s. heap_rep h' bs' \<and> unat n \<le> s \<and> live (kh_base h) bs' = insert (p, s) (live (kh_base h) bs)
             \<and> (\<forall>(q, t) \<in> live (kh_base h) bs.
                   (p + s \<le> q \<or> q + t \<le> p) \<and> (\<forall>x. q \<le> x \<and> x < q + t \<longrightarrow> kh_mem h' x = kh_mem h x))))"
proof -
  have n: "sane_size n" using assms(2) by (simp add: sane_size_def)
  from assms(1) n show ?thesis
  proof (cases rule: kmalloc_cases)
    case null
    then show ?thesis using assms(2) by (auto simp: unat_align_up_8)
  next
    case (ok p s m' bs')
    have "(p + s \<le> q \<or> q + t \<le> p) \<and> (\<forall>x. q \<le> x \<and> x < q + t \<longrightarrow> m' x = kh_mem h x)"
      if qt: "(q, t) \<in> live (kh_base h) bs" for q t
    proof
      show "p + s \<le> q \<or> q + t \<le> p"
        using live_pairwise_disjoint [of p s "kh_base h" bs' q t] ok(6,7) qt by auto
      show "\<forall>x. q \<le> x \<and> x < q + t \<longrightarrow> m' x = kh_mem h x"
        using untouched_live [OF ok(8), of q t] ok(6) qt by auto
    qed
    then have "\<forall>(q, t) \<in> live (kh_base h) bs.
       (p + s \<le> q \<or> q + t \<le> p) \<and> (\<forall>x. q \<le> x \<and> x < q + t \<longrightarrow> m' x = kh_mem h x)"
      by auto
    with ok have "\<exists>bs' s. heap_rep (h\<lparr>kh_mem := m'\<rparr>) bs' \<and> unat n \<le> s
      \<and> live (kh_base h) bs' = insert (p, s) (live (kh_base h) bs)
      \<and> (\<forall>(q, t) \<in> live (kh_base h) bs. (p + s \<le> q \<or> q + t \<le> p) \<and>
           (\<forall>x. q \<le> x \<and> x < q + t \<longrightarrow> kh_mem (h\<lparr>kh_mem := m'\<rparr>) x = kh_mem h x))"
      by (intro exI [of _ bs'] exI [of _ s]) simp
    with ok(1,2) show ?thesis by (intro exI [of _ p] exI [of _ "h\<lparr>kh_mem := m'\<rparr>"]) simp
  qed
qed

definition example_heap :: kheap where
  "example_heap = kheap_init \<lparr>kh_mem = (\<lambda>_. 0), kh_base = 1048576, kh_head = 0, kh_initialized = False\<rparr>"

lemma example_heap_rep: "heap_rep example_heap [(HEAP_SIZE - 20, True)]"
  unfolding example_heap_def by (rule kheap_init_rep) simp_all

theorem kmalloc_correct_witness:
  "\<exists>p h'. kmalloc 100 example_heap = Some (p, h')"
  using kmalloc_correct [OF example_heap_rep, of 100] by auto

text \<open>
  C29: release. Freeing the address of a live payload removes exactly that payload from the live
  set, leaves no two adjacent free blocks (the heap invariant includes it), and changes no byte
  of any payload that is still live.
\<close>

theorem kfree_correct:
  assumes "heap_rep h bs" and "(p, s) \<in> live (kh_base h) bs"
  shows "\<exists>bs'. heap_rep (kfree p h) bs' \<and> live (kh_base h) bs' = live (kh_base h) bs - {(p, s)}
     \<and> (\<forall>(q, t) \<in> live (kh_base h) bs. \<forall>x. q \<le> x \<and> x < q + t \<longrightarrow> kh_mem (kfree p h) x = kh_mem h x)"
proof -
  obtain m' where m': "kfree p h = h\<lparr>kh_mem := m'\<rparr>" "heap_rep (h\<lparr>kh_mem := m'\<rparr>) (afree p (kh_base h) bs)"
    "touched (hdr_bytes (kh_base h) bs) (kh_mem h) m'"
    using kfree_refines [OF assms] .
  have "\<forall>(q, t) \<in> live (kh_base h) bs. \<forall>x. q \<le> x \<and> x < q + t \<longrightarrow> m' x = kh_mem h x"
    using untouched_live [OF m'(3)] by auto
  with m' afree_live [OF assms(2)] show ?thesis by (intro exI [of _ "afree p (kh_base h) bs"]) auto
qed

theorem kfree_correct_witness:
  "\<exists>p h' bs'. kmalloc 100 example_heap = Some (p, h') \<and> heap_rep (kfree p h') bs'"
proof (rule kmalloc_cases [OF example_heap_rep, of 100], goal_cases)
  case 1
  show ?case by (simp add: sane_size_def)
next
  case null: 2
  then show ?thesis using unat_align_up_8 [of 100] by simp
next
  case ok: (3 p s m' bs')
  have "(p, s) \<in> live (kh_base (example_heap\<lparr>kh_mem := m'\<rparr>)) bs'" using ok by simp
  from kfree_correct [OF ok(5) this] ok(1) show ?thesis by blast
qed

text \<open>
  allocating and freeing again restores the block list exactly: the split remainder is
  merged back, so repeated allocate/free cycles never fragment the heap.
\<close>

theorem kmalloc_kfree_restores:
  assumes "heap_rep h bs" and "unat n \<le> 4294967288" and "kmalloc n h = Some (p, h')" and "p \<noteq> 0"
  shows "heap_rep (kfree p h') bs"
proof -
  have n: "sane_size n" using assms(2) by (simp add: sane_size_def)
  from assms(1) n show ?thesis
  proof (cases rule: kmalloc_cases)
    case null
    with assms show ?thesis by simp
  next
    case (ok q s m' bs')
    then have h': "h' = h\<lparr>kh_mem := m'\<rparr>" and pq: "q = p" using assms(3) by auto
    have lv: "(p, s) \<in> live (kh_base h') bs'" using ok pq h' by simp
    obtain m'' where "kfree p h' = h'\<lparr>kh_mem := m''\<rparr>"
      "heap_rep (h'\<lparr>kh_mem := m''\<rparr>) (afree p (kh_base h') bs')"
      using kfree_refines [OF ok(5) [folded h'] lv] .
    moreover have "afree p (kh_base h') bs' = bs"
      using amalloc_afree [OF _ ok(4)] assms(1) pq h' by (simp add: heap_rep_def)
    ultimately show ?thesis by simp
  qed
qed

theorem kmalloc_kfree_restores_witness:
  "\<exists>p h'. kmalloc 64 example_heap = Some (p, h') \<and> p \<noteq> 0 \<and>
     heap_rep (kfree p h') [(HEAP_SIZE - 20, True)]"
proof (rule kmalloc_cases [OF example_heap_rep, of 64], goal_cases)
  case 1
  show ?case by (simp add: sane_size_def)
next
  case null: 2
  then show ?thesis using unat_align_up_8 [of 64] by simp
next
  case ok: (3 p s m' bs')
  then show ?thesis using kmalloc_kfree_restores [OF example_heap_rep _ ok(1)] by auto
qed





lemma align_up_8_wraps:
  assumes "4294967288 < unat n"
  shows "align_up n 8 = 0"
proof -
  have "unat (n + 7) = (unat n + 7) mod 4294967296" by (simp add: unat_word_ariths)
  also have "\<dots> = unat n + 7 - 4294967296"
    using assms unat_u32_bound [of n] by (simp add: mod_if)
  finally have "unat (n + 7) < 8" using unat_u32_bound [of n] by simp
  then have "drop_bit 3 (n + 7) = 0"
    by (simp add: drop_bit_eq_div word_eq_iff_unsigned [where ?'a = nat] unat_div)
  then show ?thesis by (simp add: align_up_8_shift)
qed

text \<open>
  the size check is missing for requests within 7 bytes of 4 GiB: rounding up wraps to
  zero, so such a request succeeds whenever any block is free, and the payload it gets is
  shorter than 28 bytes.
\<close>

theorem kmalloc_huge_request_wraps:
  assumes "heap_rep h bs" and "4294967288 < unat n" and "(sz, True) \<in> set bs"
  shows "\<exists>p h' s. kmalloc n h = Some (p, h') \<and> p \<noteq> 0 \<and> heap_live h' = insert (p, s) (heap_live h) \<and> s < 28"
proof -
  have n0: "n \<noteq> 0" using assms(2) by auto
  have z: "unat (align_up n 8) = 0" using align_up_8_wraps [OF assms(2)] by simp
  have "amalloc 0 (kh_base h) bs \<noteq> None" using assms(3) by (auto simp: amalloc_None)
  then obtain p bs' where am: "amalloc 0 (kh_base h) bs = Some (p, bs')" by auto
  with kmalloc_refines [OF assms(1) n0] z obtain m' where
    m': "kmalloc n h = Some (p, h\<lparr>kh_mem := m'\<rparr>)" "heap_rep (h\<lparr>kh_mem := m'\<rparr>) bs'" by auto
  from am obtain xs sz' ys where d: "bs = xs @ (sz', True) # ys" "p = kh_base h + extent xs + 20"
    "bs' = xs @ take_block 0 sz' ys" by (rule amalloc_Some)
  have "live (kh_base h) bs' = insert (p, if 28 \<le> sz' then 0 else sz') (live (kh_base h) bs)"
    by (auto simp: d live_append take_block_def add.assoc)
  then have "heap_live (h\<lparr>kh_mem := m'\<rparr>) = insert (p, if 28 \<le> sz' then 0 else sz') (heap_live h)"
    using heap_live_rep [OF m'(2)] heap_live_rep [OF assms(1)] by simp
  with m'(1) d(2) show ?thesis by auto
qed

theorem kmalloc_huge_request_wraps_witness:
  "\<exists>p h'. kmalloc 0xFFFFFFFF example_heap = Some (p, h') \<and> p \<noteq> 0"
  using kmalloc_huge_request_wraps [OF example_heap_rep, where n = "0xFFFFFFFF"] by auto

end
