(* ===== verification/Pmm.thy ===== *)
theory Pmm
  imports Prelude
begin

text \<open>
  The physical memory manager, \<^verbatim>\<open>mm/pmm.c\<close>: one bit per 4 KiB frame in a
  static array of 32-bit words, first-fit allocation, and the counters that
  \<^verbatim>\<open>SYS_MEMINFO\<close> reports. The lemmas show that the counter always equals
  the number of set bits, that allocation is first fit and never hands out the
  first 128 MiB, and that the manager is a \<open>slot_allocator\<close>.
\<close>

section \<open>State and operations\<close>

abbreviation PMM_FRAME_SIZE :: u32 where "PMM_FRAME_SIZE \<equiv> 4096"
abbreviation MAX_FRAMES :: u32 where "MAX_FRAMES \<equiv> 1024 * 1024"

definition BITMAP_WORDS :: nat where "BITMAP_WORDS = 32768"

record pmm =
  frame_bitmap :: "u32 list"
  total_frames :: u32
  used_frames :: u32

definition bitmap_set :: "u32 \<Rightarrow> pmm \<Rightarrow> pmm" where
  "bitmap_set frame s = s\<lparr>frame_bitmap :=
     (frame_bitmap s)[unat (frame div 32) :=
        frame_bitmap s ! unat (frame div 32) OR push_bit (unat (frame mod 32)) 1]\<rparr>"

definition bitmap_clear :: "u32 \<Rightarrow> pmm \<Rightarrow> pmm" where
  "bitmap_clear frame s = s\<lparr>frame_bitmap :=
     (frame_bitmap s)[unat (frame div 32) :=
        frame_bitmap s ! unat (frame div 32) AND NOT (push_bit (unat (frame mod 32)) 1)]\<rparr>"

definition bitmap_test :: "u32 \<Rightarrow> pmm \<Rightarrow> bool" where
  "bitmap_test frame s \<longleftrightarrow>
     frame_bitmap s ! unat (frame div 32) AND push_bit (unat (frame mod 32)) 1 \<noteq> 0"

text \<open>One iteration of the loop of \<^verbatim>\<open>pmm_reserve_region\<close>.\<close>

definition reserve_frame :: "u32 \<Rightarrow> pmm \<Rightarrow> pmm" where
  "reserve_frame f s =
     (if bitmap_test f s then s
      else (bitmap_set f s)\<lparr>used_frames := used_frames s + 1\<rparr>)"

definition pmm_reserve_region :: "u32 \<Rightarrow> u32 \<Rightarrow> pmm \<Rightarrow> pmm" where
  "pmm_reserve_region addr len s =
     (let start = addr div PMM_FRAME_SIZE;
          stop = (addr + len + PMM_FRAME_SIZE - 1) div PMM_FRAME_SIZE
      in fold (\<lambda>f. reserve_frame (of_nat f)) [unat start..<unat (min stop (total_frames s))] s)"

definition pmm_init :: "u32 \<Rightarrow> pmm" where
  "pmm_init total_memory_bytes =
     (let t = total_memory_bytes div PMM_FRAME_SIZE;
          t = (if t > MAX_FRAMES then MAX_FRAMES else t);
          s = \<lparr>frame_bitmap = replicate BITMAP_WORDS 0xFFFFFFFF, total_frames = t, used_frames = t\<rparr>;
          s = fold (\<lambda>i. bitmap_clear (of_nat i)) [0..<unat t] s;
          s = s\<lparr>used_frames := 0\<rparr>
      in pmm_reserve_region 0 (128 * 1024 * 1024) s)"

definition pmm_alloc_frame :: "pmm \<Rightarrow> u32 \<times> pmm" where
  "pmm_alloc_frame s =
     (case first_index (\<lambda>i. \<not> bitmap_test (of_nat i) s) 0 (unat (total_frames s)) of
        Some i \<Rightarrow> (of_nat i * PMM_FRAME_SIZE,
                   (bitmap_set (of_nat i) s)\<lparr>used_frames := used_frames s + 1\<rparr>)
      | None \<Rightarrow> (0, s))"

definition pmm_free_frame :: "u32 \<Rightarrow> pmm \<Rightarrow> pmm" where
  "pmm_free_frame addr s =
     (let frame = addr div PMM_FRAME_SIZE
      in if frame < total_frames s \<and> bitmap_test frame s
         then (let s' = bitmap_clear frame s
               in if used_frames s' > 0 then s'\<lparr>used_frames := used_frames s' - 1\<rparr> else s')
         else s)"

definition pmm_get_total_memory :: "pmm \<Rightarrow> u32" where
  "pmm_get_total_memory s = total_frames s * PMM_FRAME_SIZE"

definition pmm_get_used_memory :: "pmm \<Rightarrow> u32" where
  "pmm_get_used_memory s = used_frames s * PMM_FRAME_SIZE"

definition pmm_get_free_memory :: "pmm \<Rightarrow> u32" where
  "pmm_get_free_memory s = (total_frames s - used_frames s) * PMM_FRAME_SIZE"

section \<open>Abstraction and invariant\<close>

text \<open>The frames below \<open>total_frames\<close> whose bit is set.\<close>

definition pmm_used :: "pmm \<Rightarrow> nat set" where
  "pmm_used s = {f. f < unat (total_frames s) \<and> bitmap_test (of_nat f) s}"

definition pmm_cap :: "pmm \<Rightarrow> nat" where
  "pmm_cap s = unat (total_frames s)"

definition pmm_reserved :: "nat set" where
  "pmm_reserved = {..<32768}"

text \<open>The bookkeeping part holds throughout initialisation; the second part from its end on.\<close>

definition pmm_wf :: "pmm \<Rightarrow> bool" where
  "pmm_wf s \<longleftrightarrow> length (frame_bitmap s) = BITMAP_WORDS \<and> total_frames s < MAX_FRAMES
     \<and> unat (used_frames s) = card (pmm_used s)"

definition pmm_inv :: "pmm \<Rightarrow> bool" where
  "pmm_inv s \<longleftrightarrow> pmm_wf s \<and> pmm_reserved \<inter> {..<pmm_cap s} \<subseteq> pmm_used s"

section \<open>Bit-level lemmas\<close>

lemma bitmap_test_bit:
  assumes "f < 2 ^ 32"
  shows "bitmap_test (of_nat f) s \<longleftrightarrow> bit (frame_bitmap s ! (f div 32)) (f mod 32)"
  using assms by (simp add: bitmap_test_def and_exp_eq_0_iff_not_bit unat_div unat_mod)

lemma bitmap_set_simps [simp]:
  "total_frames (bitmap_set f s) = total_frames s"
  "used_frames (bitmap_set f s) = used_frames s"
  "length (frame_bitmap (bitmap_set f s)) = length (frame_bitmap s)"
  by (simp_all add: bitmap_set_def)

lemma bitmap_clear_simps [simp]:
  "total_frames (bitmap_clear f s) = total_frames s"
  "used_frames (bitmap_clear f s) = used_frames s"
  "length (frame_bitmap (bitmap_clear f s)) = length (frame_bitmap s)"
  by (simp_all add: bitmap_clear_def)

lemma bitmap_test_counter [simp]: "bitmap_test f (s\<lparr>used_frames := u\<rparr>) = bitmap_test f s"
  by (simp add: bitmap_test_def)

lemma same_cell_iff: "(f :: nat) div 32 = g div 32 \<and> f mod 32 = g mod 32 \<longleftrightarrow> f = g"
  by (metis div_mult_mod_eq)

lemma bitmap_test_set:
  assumes "f < 2 ^ 20" "g < 2 ^ 20" "length (frame_bitmap s) = BITMAP_WORDS"
  shows "bitmap_test (of_nat g) (bitmap_set (of_nat f) s) \<longleftrightarrow> g = f \<or> bitmap_test (of_nat g) s"
proof -
  have b: "f div 32 < BITMAP_WORDS" using assms(1) by (simp add: BITMAP_WORDS_def)
  have "bitmap_test (of_nat g) (bitmap_set (of_nat f) s) \<longleftrightarrow>
        (if g div 32 = f div 32 then g mod 32 = f mod 32 \<or> bit (frame_bitmap s ! (g div 32)) (g mod 32)
         else bit (frame_bitmap s ! (g div 32)) (g mod 32))"
    using assms b
    by (auto simp: bitmap_test_bit bitmap_set_def unat_div unat_mod nth_list_update bit_simps)
  then show ?thesis using assms same_cell_iff [of g f] by (auto simp: bitmap_test_bit)
qed

lemma bitmap_test_clear:
  assumes "f < 2 ^ 20" "g < 2 ^ 20" "length (frame_bitmap s) = BITMAP_WORDS"
  shows "bitmap_test (of_nat g) (bitmap_clear (of_nat f) s) \<longleftrightarrow> g \<noteq> f \<and> bitmap_test (of_nat g) s"
proof -
  have b: "f div 32 < BITMAP_WORDS" using assms(1) by (simp add: BITMAP_WORDS_def)
  have "bitmap_test (of_nat g) (bitmap_clear (of_nat f) s) \<longleftrightarrow>
        (if g div 32 = f div 32 then g mod 32 \<noteq> f mod 32 \<and> bit (frame_bitmap s ! (g div 32)) (g mod 32)
         else bit (frame_bitmap s ! (g div 32)) (g mod 32))"
    using assms b
    by (auto simp: bitmap_test_bit bitmap_clear_def unat_div unat_mod nth_list_update bit_simps)
  then show ?thesis using assms same_cell_iff [of g f] by (auto simp: bitmap_test_bit)
qed


section \<open>Effect of the operations on the set of used frames\<close>

lemma pmm_wf_frame_bound: "pmm_wf s \<Longrightarrow> f < unat (total_frames s) \<Longrightarrow> f < 2 ^ 20"
  by (simp add: pmm_wf_def word_less_nat_alt)

lemma pmm_used_below: "pmm_used s \<subseteq> {..<pmm_cap s}"
  by (auto simp: pmm_used_def pmm_cap_def)

lemma pmm_used_counter [simp]: "pmm_used (s\<lparr>used_frames := u\<rparr>) = pmm_used s"
  by (simp add: pmm_used_def)

lemma pmm_cap_simps [simp]:
  "pmm_cap (s\<lparr>used_frames := u\<rparr>) = pmm_cap s"
  "pmm_cap (bitmap_set f s) = pmm_cap s"
  "pmm_cap (bitmap_clear f s) = pmm_cap s"
  by (simp_all add: pmm_cap_def)

lemma pmm_used_set:
  assumes "length (frame_bitmap s) = BITMAP_WORDS" "total_frames s < MAX_FRAMES"
    and "f < unat (total_frames s)"
  shows "pmm_used (bitmap_set (of_nat f) s) = insert f (pmm_used s)"
proof -
  have "g < 2 ^ 20" if "g < unat (total_frames s)" for g
    using assms(2) that by (simp add: word_less_nat_alt)
  with assms show ?thesis by (auto simp: pmm_used_def bitmap_test_set)
qed

lemma pmm_used_clear:
  assumes "length (frame_bitmap s) = BITMAP_WORDS" "total_frames s < MAX_FRAMES"
    and "f < unat (total_frames s)"
  shows "pmm_used (bitmap_clear (of_nat f) s) = pmm_used s - {f}"
proof -
  have "g < 2 ^ 20" if "g < unat (total_frames s)" for g
    using assms(2) that by (simp add: word_less_nat_alt)
  with assms show ?thesis by (auto simp: pmm_used_def bitmap_test_clear)
qed

lemma finite_pmm_used [simp]: "finite (pmm_used s)"
  using card_nat_bound(2) [OF pmm_used_below] .

lemma pmm_wf_used_small: "pmm_wf s \<Longrightarrow> card (pmm_used s) \<le> 2 ^ 20"
proof -
  assume wf: "pmm_wf s"
  have "card (pmm_used s) \<le> pmm_cap s" using card_nat_bound(1) [OF pmm_used_below] .
  with wf show ?thesis by (simp add: pmm_wf_def pmm_cap_def word_less_nat_alt)
qed

text \<open>Marking a free frame and bumping the counter is the step shared by reserve and alloc.\<close>

lemma take_frame_wf:
  assumes wf: "pmm_wf s" and f: "f < unat (total_frames s)" "f \<notin> pmm_used s"
  defines "t \<equiv> (bitmap_set (of_nat f) s)\<lparr>used_frames := used_frames s + 1\<rparr>"
  shows "pmm_wf t" and "pmm_used t = insert f (pmm_used s)" and "pmm_cap t = pmm_cap s"
proof -
  show u: "pmm_used t = insert f (pmm_used s)"
    using wf f unfolding t_def by (simp add: pmm_used_set pmm_wf_def)
  show "pmm_cap t = pmm_cap s" by (simp add: t_def)
  have "unat (used_frames s + 1) = Suc (card (pmm_used s))"
    using wf pmm_wf_used_small [OF wf] by (simp add: pmm_wf_def unat_word_ariths)
  with wf u f show "pmm_wf t" by (simp add: pmm_wf_def t_def)
qed

lemma reserve_frame_spec:
  assumes "pmm_wf s" "f < unat (total_frames s)"
  shows "pmm_wf (reserve_frame (of_nat f) s)
         \<and> pmm_used (reserve_frame (of_nat f) s) = insert f (pmm_used s)
         \<and> pmm_cap (reserve_frame (of_nat f) s) = pmm_cap s"
proof (cases "bitmap_test (of_nat f) s")
  case True
  with assms(2) have "f \<in> pmm_used s" by (simp add: pmm_used_def)
  with True assms show ?thesis by (auto simp: reserve_frame_def)
next
  case False
  then have "f \<notin> pmm_used s" by (simp add: pmm_used_def)
  with False take_frame_wf [OF assms] show ?thesis by (simp add: reserve_frame_def)
qed

lemma reserve_fold_spec:
  assumes "pmm_wf s" "\<forall>f \<in> set fs. f < pmm_cap s"
  shows "pmm_wf (fold (\<lambda>f. reserve_frame (of_nat f)) fs s)
         \<and> pmm_used (fold (\<lambda>f. reserve_frame (of_nat f)) fs s) = set fs \<union> pmm_used s
         \<and> pmm_cap (fold (\<lambda>f. reserve_frame (of_nat f)) fs s) = pmm_cap s"
  using assms
proof (induction fs arbitrary: s)
  case Nil
  then show ?case by simp
next
  case (Cons f fs)
  let ?t = "reserve_frame (of_nat f) s"
  have step: "pmm_wf ?t" "pmm_used ?t = insert f (pmm_used s)" "pmm_cap ?t = pmm_cap s"
    using reserve_frame_spec [OF Cons.prems(1), of f] Cons.prems(2) by (auto simp: pmm_cap_def)
  have "\<forall>f \<in> set fs. f < pmm_cap ?t" using Cons.prems(2) step(3) by simp
  from Cons.IH [OF step(1) this] step show ?case by auto
qed

lemma unat_min_u32: "unat (min (a :: u32) b) = min (unat a) (unat b)"
  by (simp add: min_def word_le_nat_alt)

lemma unat_numeral_4096: "unat (4096 :: u32) = 4096"
  by simp

lemma pmm_reserve_region_spec:
  assumes "pmm_wf s" "unat addr + unat len + 4095 < 2 ^ 32"
  shows "pmm_wf (pmm_reserve_region addr len s)"
    and "pmm_used (pmm_reserve_region addr len s) = pmm_used s \<union>
           {f. unat addr div 4096 \<le> f \<and> f < (unat addr + unat len + 4095) div 4096 \<and> f < pmm_cap s}"
    and "pmm_cap (pmm_reserve_region addr len s) = pmm_cap s"
proof -
  have e: "unat ((addr + len + PMM_FRAME_SIZE - 1) div PMM_FRAME_SIZE)
           = (unat addr + unat len + 4095) div 4096"
  proof -
    have w: "addr + len + PMM_FRAME_SIZE - 1 = addr + len + 4095" by simp
    have "unat (addr + len) = unat addr + unat len"
      using assms(2) by (intro unat_plus_u32) simp
    then have "unat (addr + len + 4095) = unat addr + unat len + 4095"
      using assms(2) unat_plus_u32 [of "addr + len" 4095] by simp
    then show ?thesis unfolding w unat_div by (simp only: unat_numeral_4096)
  qed
  define lo where "lo = unat addr div 4096"
  define hi where "hi = (unat addr + unat len + 4095) div 4096"
  let ?fs = "[lo..<min hi (pmm_cap s)]"
  have eq: "pmm_reserve_region addr len s = fold (\<lambda>f. reserve_frame (of_nat f)) ?fs s"
    unfolding pmm_reserve_region_def Let_def unat_min_u32 e
    by (simp only: unat_div pmm_cap_def lo_def hi_def unat_numeral_4096)
  have "\<forall>f \<in> set ?fs. f < pmm_cap s" by simp
  note sp = reserve_fold_spec [OF assms(1) this, folded eq]
  show "pmm_wf (pmm_reserve_region addr len s)" "pmm_cap (pmm_reserve_region addr len s) = pmm_cap s"
    using sp by simp_all
  show "pmm_used (pmm_reserve_region addr len s) = pmm_used s \<union>
          {f. unat addr div 4096 \<le> f \<and> f < (unat addr + unat len + 4095) div 4096 \<and> f < pmm_cap s}"
  proof -
    have "set ?fs = {f. lo \<le> f \<and> f < hi \<and> f < pmm_cap s}" by auto
    with sp show ?thesis unfolding lo_def [symmetric] hi_def [symmetric] by (metis Un_commute)
  qed
qed

section \<open>Initialisation\<close>

lemma clear_fold_spec:
  assumes "length (frame_bitmap s) = BITMAP_WORDS" "total_frames s < MAX_FRAMES"
    and "\<forall>f \<in> set fs. f < unat (total_frames s)"
  shows "length (frame_bitmap (fold (\<lambda>i. bitmap_clear (of_nat i)) fs s)) = BITMAP_WORDS
         \<and> total_frames (fold (\<lambda>i. bitmap_clear (of_nat i)) fs s) = total_frames s
         \<and> pmm_used (fold (\<lambda>i. bitmap_clear (of_nat i)) fs s) = pmm_used s - set fs"
  using assms
proof (induction fs arbitrary: s)
  case Nil
  then show ?case by simp
next
  case (Cons f fs)
  have "pmm_used (bitmap_clear (of_nat f) s) = pmm_used s - {f}"
    using Cons.prems by (simp add: pmm_used_clear)
  with Cons.IH [of "bitmap_clear (of_nat f) s"] Cons.prems show ?case by auto
qed

lemma pmm_init_frames: "pmm_cap (pmm_init m) = unat m div 4096"
  and pmm_init_wf: "pmm_wf (pmm_init m)"
  and pmm_init_used: "pmm_used (pmm_init m) = pmm_reserved \<inter> {..<unat m div 4096}"
proof -
  have small: "unat (m div 4096) = unat m div 4096" "unat m div 4096 < 2 ^ 20"
    using unat_u32_bound [of m] by (simp_all add: unat_div)
  have tle: "m div 4096 < MAX_FRAMES" using small by (simp add: word_less_nat_alt)
  let ?s0 = "\<lparr>frame_bitmap = replicate BITMAP_WORDS 0xFFFFFFFF,
              total_frames = m div 4096, used_frames = m div 4096\<rparr>"
  let ?s1 = "fold (\<lambda>i. bitmap_clear (of_nat i)) [0..<unat (m div 4096)] ?s0"
  let ?s2 = "?s1\<lparr>used_frames := 0\<rparr>"
  have init: "pmm_init m = pmm_reserve_region 0 (128 * 1024 * 1024) ?s2"
    using tle by (simp add: pmm_init_def Let_def)
  have s1: "length (frame_bitmap ?s1) = BITMAP_WORDS" "total_frames ?s1 = m div 4096"
    "pmm_used ?s1 = {}"
  proof -
    have len: "length (frame_bitmap ?s0) = BITMAP_WORDS" by (simp only: pmm.simps length_replicate)
    have tot: "total_frames ?s0 = m div 4096" by (simp only: pmm.simps)
    have le: "total_frames ?s0 < MAX_FRAMES" unfolding tot by (rule tle)
    have lt: "\<forall>f \<in> set [0..<unat (m div 4096)]. f < unat (total_frames ?s0)" unfolding tot by simp
    have "pmm_used ?s0 \<subseteq> set [0..<unat (m div 4096)]"
      using pmm_used_below [of ?s0] unfolding pmm_cap_def tot by auto
    then show "length (frame_bitmap ?s1) = BITMAP_WORDS" "total_frames ?s1 = m div 4096"
      "pmm_used ?s1 = {}"
      using clear_fold_spec [OF len le lt] unfolding tot by blast+
  qed
  have wf2: "pmm_wf ?s2" using s1 tle by (simp add: pmm_wf_def)
  have cap2: "pmm_cap ?s2 = unat m div 4096" using s1 small by (simp add: pmm_cap_def)
  note r = pmm_reserve_region_spec [OF wf2, of 0 "128 * 1024 * 1024"]
  show "pmm_cap (pmm_init m) = unat m div 4096" using r(3) cap2 init by simp
  show "pmm_wf (pmm_init m)" using r(1) init by simp
  show "pmm_used (pmm_init m) = pmm_reserved \<inter> {..<unat m div 4096}"
    using r(2) s1(3) cap2 init by (auto simp: pmm_reserved_def)
qed

lemma pmm_init_inv: "pmm_inv (pmm_init m)"
  using pmm_init_wf pmm_init_used pmm_init_frames by (simp add: pmm_inv_def)

section \<open>Allocation and release\<close>

lemma pmm_alloc_frame_cases:
  assumes inv: "pmm_inv s"
  obtains (full) "pmm_alloc_frame s = (0, s)" "pmm_used s = {..<pmm_cap s}"
  | (ok) f t where "pmm_alloc_frame s = (of_nat f * 4096, t)" "f < pmm_cap s" "f \<notin> pmm_used s"
      "\<forall>j<f. j \<in> pmm_used s" "32768 \<le> f" "f < 2 ^ 20" "pmm_inv t" "pmm_cap t = pmm_cap s"
      "pmm_used t = insert f (pmm_used s)"
proof (cases "first_index (\<lambda>i. \<not> bitmap_test (of_nat i) s) 0 (unat (total_frames s))")
  case None
  then have "pmm_alloc_frame s = (0, s)" by (simp add: pmm_alloc_frame_def)
  moreover from None have "pmm_used s = {..<pmm_cap s}"
    by (auto simp: first_index_None pmm_used_def pmm_cap_def)
  ultimately show ?thesis by (rule full)
next
  case (Some f)
  let ?t = "(bitmap_set (of_nat f) s)\<lparr>used_frames := used_frames s + 1\<rparr>"
  from Some have f: "f < unat (total_frames s)" "\<not> bitmap_test (of_nat f) s"
    "\<forall>j<f. bitmap_test (of_nat j) s"
    by (auto simp: first_index_Some)
  have wf: "pmm_wf s" using inv by (simp add: pmm_inv_def)
  have nu: "f \<notin> pmm_used s" using f by (simp add: pmm_used_def)
  note t = take_frame_wf [OF wf f(1) nu]
  have "32768 \<le> f"
  proof (rule ccontr)
    assume "\<not> 32768 \<le> f"
    with inv f(1) have "f \<in> pmm_used s" by (auto simp: pmm_inv_def pmm_reserved_def pmm_cap_def)
    with nu show False by simp
  qed
  moreover have "pmm_alloc_frame s = (of_nat f * 4096, ?t)"
    using Some by (simp add: pmm_alloc_frame_def)
  moreover have "pmm_inv ?t" using inv t by (auto simp: pmm_inv_def)
  moreover have "\<forall>j<f. j \<in> pmm_used s" using f by (auto simp: pmm_used_def)
  moreover have "f < 2 ^ 20" using pmm_wf_frame_bound [OF wf f(1)] .
  ultimately show ?thesis using ok [of f ?t] f nu t by (simp add: pmm_cap_def)
qed

lemma pmm_free_frame_spec:
  assumes inv: "pmm_inv s" and k: "k \<notin> pmm_reserved" "k < 2 ^ 20"
  shows "pmm_used (pmm_free_frame (of_nat k * 4096) s) = pmm_used s - {k}"
    and "pmm_inv (pmm_free_frame (of_nat k * 4096) s)"
    and "pmm_cap (pmm_free_frame (of_nat k * 4096) s) = pmm_cap s"
proof -
  have wf: "pmm_wf s" using inv by (simp add: pmm_inv_def)
  have fr: "(of_nat k * 4096 :: u32) div 4096 = of_nat k"
  proof (rule word_eq_iff_unsigned [where ?'a = nat, THEN iffD2])
    show "unat ((of_nat k * 4096 :: u32) div 4096) = unat (of_nat k :: u32)"
      using k(2) by (simp add: unat_div unat_word_ariths)
  qed
  let ?t = "pmm_free_frame (of_nat k * 4096) s"
  have lt: "(of_nat k :: u32) < total_frames s \<longleftrightarrow> k < unat (total_frames s)"
    using k(2) by (simp add: word_less_nat_alt)
  have "pmm_used ?t = pmm_used s - {k} \<and> pmm_wf ?t \<and> pmm_cap ?t = pmm_cap s"
  proof (cases "k \<in> pmm_used s")
    case False
    then have "?t = s" using fr lt by (auto simp: pmm_free_frame_def pmm_used_def Let_def)
    with False wf show ?thesis by simp
  next
    case True
    then have b: "k < unat (total_frames s)" "bitmap_test (of_nat k) s"
      by (auto simp: pmm_used_def)
    have pos: "0 < card (pmm_used s)" using True by (auto simp: card_gt_0_iff)
    then have p: "0 < used_frames s" using wf by (auto simp: pmm_wf_def word_gt_0)
    have teq: "?t = (bitmap_clear (of_nat k) s)\<lparr>used_frames := used_frames s - 1\<rparr>"
      using b fr lt p by (simp add: pmm_free_frame_def Let_def)
    have u: "pmm_used ?t = pmm_used s - {k}"
      using teq wf b by (simp add: pmm_used_clear pmm_wf_def)
    have "unat (used_frames s - 1) = card (pmm_used s) - 1"
      using p wf by (simp add: unat_minus_one word_gt_0 pmm_wf_def)
    then have "pmm_wf ?t" using wf True u teq by (simp add: pmm_wf_def)
    with u teq show ?thesis by simp
  qed
  then show "pmm_used ?t = pmm_used s - {k}" "pmm_inv ?t" "pmm_cap ?t = pmm_cap s"
    using inv k(1) by (auto simp: pmm_inv_def)
qed

section \<open>The frame allocator as a slot allocator\<close>

text \<open>Frame numbers instead of byte addresses; the address 0 stands for a failed request.\<close>

definition pmm_alloc_slot :: "pmm \<Rightarrow> nat option \<times> pmm" where
  "pmm_alloc_slot s =
     (case pmm_alloc_frame s of (a, s') \<Rightarrow> (if a = 0 then None else Some (unat a div 4096), s'))"

definition pmm_free_slot :: "nat \<Rightarrow> pmm \<Rightarrow> pmm" where
  "pmm_free_slot k s = (if k < 2 ^ 20 then pmm_free_frame (of_nat k * 4096) s else s)"

lemma frame_addr:
  assumes "f < 2 ^ 20"
  shows "unat (of_nat f * 4096 :: u32) = f * 4096"
  using assms by (simp add: unat_word_ariths)

lemma frame_addr_nonzero: "0 < f \<Longrightarrow> f < 2 ^ 20 \<Longrightarrow> (of_nat f * 4096 :: u32) \<noteq> 0"
  using frame_addr [of f] by (metis mult_is_0 neq0_conv unat_0 zero_neq_numeral)

lemma pmm_alloc_slot_cases:
  assumes inv: "pmm_inv s"
  obtains (full) "pmm_alloc_slot s = (None, s)" "pmm_used s = {..<pmm_cap s}"
  | (ok) f t where "pmm_alloc_slot s = (Some f, t)" "f < pmm_cap s" "f \<notin> pmm_used s"
      "\<forall>j<f. j \<in> pmm_used s" "f \<notin> pmm_reserved" "pmm_inv t" "pmm_cap t = pmm_cap s"
      "pmm_used t = insert f (pmm_used s)"
  using inv
proof (cases rule: pmm_alloc_frame_cases)
  case full
  then show ?thesis by (intro that(1)) (simp_all add: pmm_alloc_slot_def)
next
  case (ok f t)
  have "0 < f" using ok by simp
  then have "pmm_alloc_slot s = (Some f, t)"
    using ok frame_addr_nonzero [of f] frame_addr [of f] by (simp add: pmm_alloc_slot_def)
  with ok show ?thesis by (intro that(2)) (auto simp: pmm_reserved_def)
qed

lemma pmm_inv_used_bound: "pmm_inv s \<Longrightarrow> k \<in> pmm_used s \<Longrightarrow> k < 2 ^ 20"
  using pmm_wf_frame_bound by (auto simp: pmm_inv_def pmm_used_def)

interpretation pmm: slot_allocator pmm_inv pmm_cap pmm_used pmm_reserved pmm_alloc_slot pmm_free_slot
proof
  fix s k s' r j
  assume inv: "pmm_inv s"
  show "pmm_used s \<subseteq> {..<pmm_cap s}" by (rule pmm_used_below)
  show "k < pmm_cap s \<and> k \<notin> pmm_used s \<and> k \<notin> pmm_reserved" if "pmm_alloc_slot s = (Some k, s')"
    using inv by (cases rule: pmm_alloc_slot_cases) (use that in auto)
  show "j \<in> pmm_used s" if "pmm_alloc_slot s = (Some k, s')" "j < k"
    using inv by (cases rule: pmm_alloc_slot_cases) (use that in auto)
  show "pmm_used s' = insert k (pmm_used s)" if "pmm_alloc_slot s = (Some k, s')"
    using inv by (cases rule: pmm_alloc_slot_cases) (use that in auto)
  show "pmm_inv s' \<and> pmm_cap s' = pmm_cap s" if "pmm_alloc_slot s = (r, s')"
    using inv by (cases rule: pmm_alloc_slot_cases) (use that inv in auto)
  show "pmm_used s = {..<pmm_cap s} \<and> s' = s" if "pmm_alloc_slot s = (None, s')"
    using inv by (cases rule: pmm_alloc_slot_cases) (use that in auto)
  show "pmm_used (pmm_free_slot k s) = pmm_used s - {k}" if "k \<notin> pmm_reserved"
    using pmm_free_frame_spec [OF inv that] pmm_inv_used_bound [OF inv, of k]
    by (auto simp: pmm_free_slot_def)
  show "pmm_inv (pmm_free_slot k s) \<and> pmm_cap (pmm_free_slot k s) = pmm_cap s"
    if "k \<notin> pmm_reserved"
    using pmm_free_frame_spec [OF inv that] inv by (auto simp: pmm_free_slot_def)
qed

section \<open>Runs of the manager\<close>

text \<open>
  The states reachable from boot: frames are released only at or above the 128 MiB
  boundary, and regions are reserved without address overflow.
\<close>

inductive pmm_reachable :: "pmm \<Rightarrow> bool" where
  boot: "pmm_reachable (pmm_init m)"
| alloc: "pmm_reachable s \<Longrightarrow> pmm_reachable (snd (pmm_alloc_frame s))"
| free: "pmm_reachable s \<Longrightarrow> 134217728 \<le> unat addr \<Longrightarrow> pmm_reachable (pmm_free_frame addr s)"
| reserve: "pmm_reachable s \<Longrightarrow> unat addr + unat len + 4095 < 2 ^ 32 \<Longrightarrow>
    pmm_reachable (pmm_reserve_region addr len s)"

lemma pmm_free_frame_frame:
  "pmm_free_frame addr s = pmm_free_frame (of_nat (unat addr div 4096) * 4096) s"
proof -
  have "(of_nat (unat addr div 4096) * 4096 :: u32) div 4096 = addr div 4096"
    using unat_u32_bound [of addr]
    by (intro word_eq_iff_unsigned [where ?'a = nat, THEN iffD2])
       (simp add: unat_div unat_word_ariths)
  then show ?thesis by (simp add: pmm_free_frame_def)
qed

lemma pmm_free_frame_inv:
  assumes "pmm_inv s" "134217728 \<le> unat addr"
  shows "pmm_inv (pmm_free_frame addr s)"
proof -
  have "unat addr div 4096 < 2 ^ 20" using unat_u32_bound [of addr] by simp
  moreover have "unat addr div 4096 \<notin> pmm_reserved" using assms(2) by (simp add: pmm_reserved_def)
  ultimately have "pmm_inv (pmm_free_frame (of_nat (unat addr div 4096) * 4096) s)"
    using pmm_free_frame_spec(2) [OF assms(1)] by blast
  then show ?thesis by (simp only: pmm_free_frame_frame [of addr s])
qed

lemma pmm_reachable_inv: "pmm_reachable s \<Longrightarrow> pmm_inv s"
proof (induction rule: pmm_reachable.induct)
  case (boot m)
  show ?case by (rule pmm_init_inv)
next
  case (alloc s)
  from alloc.IH show ?case by (cases rule: pmm_alloc_frame_cases) (simp_all only: alloc.IH snd_conv)
next
  case (free s addr)
  then show ?case by (blast intro: pmm_free_frame_inv)
next
  case (reserve s addr len)
  have "pmm_wf s" using reserve.IH by (simp add: pmm_inv_def)
  with reserve pmm_reserve_region_spec [of s addr len] show ?case by (auto simp: pmm_inv_def)
qed

section \<open>Properties\<close>

text \<open>
  C35: the memory statistics are exact in every reachable state: the used-bytes counter
  is 4096 times the number of frames marked in the bitmap, used and free bytes add up to the
  total, and no frame of the first 128 MiB is ever free.
\<close>

theorem pmm_statistics_exact:
  assumes "pmm_reachable s"
  shows "unat (pmm_get_used_memory s) = 4096 * card (pmm_used s)
         \<and> unat (pmm_get_used_memory s) + unat (pmm_get_free_memory s) = unat (pmm_get_total_memory s)
         \<and> pmm_reserved \<inter> {..<pmm_cap s} \<subseteq> pmm_used s"
proof -
  have inv: "pmm_inv s" using assms by (rule pmm_reachable_inv)
  then have u: "unat (used_frames s) = card (pmm_used s)" and t: "unat (total_frames s) < 1048576"
    by (auto simp: pmm_inv_def pmm_wf_def word_less_nat_alt)
  have le: "card (pmm_used s) \<le> unat (total_frames s)"
    using card_nat_bound(1) [OF pmm_used_below] by (simp add: pmm_cap_def)
  have f: "unat (total_frames s - used_frames s) = unat (total_frames s) - card (pmm_used s)"
    using le u by (simp add: unat_minus_u32 word_le_nat_alt)
  have "unat (pmm_get_used_memory s) = 4096 * card (pmm_used s)"
    using u le t unat_mult_u32 [of "used_frames s" 4096] by (simp add: pmm_get_used_memory_def)
  moreover have "unat (pmm_get_total_memory s) = 4096 * unat (total_frames s)"
    using t unat_mult_u32 [of "total_frames s" 4096] by (simp add: pmm_get_total_memory_def)
  moreover have "unat (pmm_get_free_memory s) = 4096 * (unat (total_frames s) - card (pmm_used s))"
    using f t unat_mult_u32 [of "total_frames s - used_frames s" 4096]
    unfolding pmm_get_free_memory_def by simp
  ultimately show ?thesis using le inv by (simp add: pmm_inv_def)
qed

theorem pmm_statistics_exact_witness:
  "unat (pmm_get_used_memory (snd (pmm_alloc_frame (pmm_init 0x10000000))))
   = 4096 * card (pmm_used (snd (pmm_alloc_frame (pmm_init 0x10000000))))"
  using pmm_statistics_exact [OF pmm_reachable.alloc [OF pmm_reachable.boot]] by blast

text \<open>
  allocation in a state that satisfies the invariant. The result 0 means exactly that no
  frame is free, and then nothing changes; any other result is the 4096-aligned address of
  the lowest free frame, at or above 128 MiB and inside the managed memory, which is now marked;
  no other frame changes state.
\<close>

theorem pmm_alloc_frame_correct:
  assumes "pmm_inv s" and "pmm_alloc_frame s = (a, t)"
  shows "if a = 0 then pmm_used s = {..<pmm_cap s} \<and> t = s
         else unat a mod 4096 = 0 \<and> 134217728 \<le> unat a
              \<and> unat a div 4096 < pmm_cap s \<and> unat a div 4096 \<notin> pmm_used s
              \<and> (\<forall>f < unat a div 4096. f \<in> pmm_used s)
              \<and> pmm_used t = insert (unat a div 4096) (pmm_used s) \<and> pmm_inv t"
  using assms(1)
proof (cases rule: pmm_alloc_frame_cases)
  case full
  then show ?thesis using assms(2) by simp
next
  case (ok f t')
  then have "a \<noteq> 0" "unat a = f * 4096"
    using assms(2) frame_addr_nonzero [of f] frame_addr [of f] by auto
  with ok assms(2) show ?thesis by simp
qed

theorem pmm_alloc_frame_correct_witness:
  "\<exists>a t. pmm_alloc_frame (pmm_init 0x10000000) = (a, t) \<and>
     (if a = 0 then pmm_used (pmm_init 0x10000000) = {..<pmm_cap (pmm_init 0x10000000)}
      else 134217728 \<le> unat a)"
proof -
  obtain a t where a: "pmm_alloc_frame (pmm_init 0x10000000) = (a, t)" by fastforce
  show ?thesis using a pmm_alloc_frame_correct [OF pmm_init_inv a] by (auto split: if_splits)
qed

text \<open>
  a client that asks for \<open>n\<close> frames in a row, as the fork code does for every page it
  copies, receives as many as are free (at most \<open>n\<close>), all different from each other, none of
  them in use before and none of them in the reserved low memory.
\<close>

theorem pmm_alloc_many_distinct:
  assumes "pmm_inv s" and "alloc_many pmm_alloc_slot n s = (ks, s')"
  shows "distinct ks \<and> set ks \<inter> pmm_used s = {} \<and> set ks \<inter> pmm_reserved = {}
         \<and> length ks = min n (pmm_cap s - card (pmm_used s)) \<and> pmm_used s' = pmm_used s \<union> set ks
         \<and> pmm_inv s'"
  using pmm.alloc_many_spec [OF assms] by blast

theorem pmm_alloc_many_distinct_witness:
  "\<exists>ks s'. alloc_many pmm_alloc_slot 2 (pmm_init 0x10000000) = (ks, s') \<and> distinct ks \<and> length ks = 2"
proof -
  let ?s = "pmm_init 0x10000000"
  obtain ks s' where m: "alloc_many pmm_alloc_slot 2 ?s = (ks, s')" by fastforce
  have "card (pmm_used ?s) \<le> 32768"
    using card_nat_bound(1) [of "pmm_used ?s" 32768] by (simp add: pmm_init_used pmm_reserved_def)
  moreover have "pmm_cap ?s = 65536" by (simp add: pmm_init_frames)
  ultimately show ?thesis
    using m pmm_alloc_many_distinct [OF pmm_init_inv m] by auto
qed

end
