(* ===== verification/Vmm.thy ===== *)
theory Vmm
  imports Pmm
begin

text \<open>
  Paging, \<^verbatim>\<open>mm/vmm.c\<close>. Page directories and tables are 1024 consecutive words of physical memory,
  which the kernel reaches at its own address (the first gigabyte is mapped to itself). The
  addresses of the static tables are fixed by the linker and part of the state; writing \<^verbatim>\<open>cr3\<close> is
  an assignment, invalidating the translation cache has no counterpart. \<open>mmu_walk\<close> is the
  processor's two-level walk, against which the operations are specified.
\<close>

section \<open>State and operations\<close>

abbreviation PAGE_PRESENT :: u32 where "PAGE_PRESENT \<equiv> 1"
abbreviation PAGE_RW :: u32 where "PAGE_RW \<equiv> 2"
abbreviation PAGE_USER :: u32 where "PAGE_USER \<equiv> 4"
abbreviation PAGES_PER_TABLE :: nat where "PAGES_PER_TABLE \<equiv> 1024"
abbreviation IDENTITY_TABLES :: nat where "IDENTITY_TABLES \<equiv> 256"
abbreviation KERNEL_END_TABLE :: nat where "KERNEL_END_TABLE \<equiv> 20"
abbreviation EXTRA_TABLES :: nat where "EXTRA_TABLES \<equiv> 8"

type_synonym pmem = "u32 \<Rightarrow> u32"

record vmm =
  vm_mem :: pmem                  \<comment> \<open>physical memory, by word address\<close>
  vm_pmm :: pmm
  page_directory :: u32
  page_tables :: u32
  extra_tables :: u32
  extra_used :: nat
  paging_enabled :: bool
  current_page_directory :: u32
  vm_cr3 :: u32

definition word_at :: "u32 \<Rightarrow> nat \<Rightarrow> u32" where
  "word_at a i = a + 4 * of_nat i"

definition page_at :: "u32 \<Rightarrow> nat \<Rightarrow> u32" where
  "page_at a t = a + 4096 * of_nat t"

text \<open>\<^verbatim>\<open>for (i = 0; i < n; i++) a[i] = f(i)\<close>.\<close>

definition fill_words :: "u32 \<Rightarrow> (nat \<Rightarrow> u32) \<Rightarrow> nat \<Rightarrow> pmem \<Rightarrow> pmem" where
  "fill_words a f n m = fold (\<lambda>i m. m(word_at a i := f i)) [0..<n] m"

definition init_table :: "nat \<Rightarrow> vmm \<Rightarrow> vmm" where
  "init_table t s =
     (let kernel = t < KERNEL_END_TABLE;
          flags = (if kernel then PAGE_PRESENT OR PAGE_RW else PAGE_PRESENT OR PAGE_RW OR PAGE_USER);
          m = fill_words (page_at (page_tables s) t)
                (\<lambda>p. (of_nat (t * PAGES_PER_TABLE + p) * 0x1000) OR flags) PAGES_PER_TABLE (vm_mem s)
      in s\<lparr>vm_mem := m(word_at (page_directory s) t := page_at (page_tables s) t OR flags)\<rparr>)"

definition vmm_init :: "vmm \<Rightarrow> vmm" where
  "vmm_init s =
     (let s = s\<lparr>vm_mem := fill_words (page_directory s) (\<lambda>i. 0) PAGES_PER_TABLE (vm_mem s)\<rparr>;
          s = fold init_table [0..<IDENTITY_TABLES] s
      in s\<lparr>vm_cr3 := page_directory s, current_page_directory := page_directory s, paging_enabled := True\<rparr>)"

definition dir_idx :: "u32 \<Rightarrow> nat" where
  "dir_idx virt = unat (drop_bit 22 virt)"

definition tbl_idx :: "u32 \<Rightarrow> nat" where
  "tbl_idx virt = unat (drop_bit 12 virt AND 0x3FF)"

text \<open>\<^verbatim>\<open>x & ~0xFFF\<close>: the frame address in an entry.\<close>

definition frame_of :: "u32 \<Rightarrow> u32" where
  "frame_of w = w AND NOT 0xFFF"

definition make_entry :: "u32 \<Rightarrow> u32 \<Rightarrow> u32" where
  "make_entry phys flags = frame_of phys OR (flags AND 0xFFF) OR PAGE_PRESENT"

definition present :: "u32 \<Rightarrow> bool" where
  "present e = (e AND PAGE_PRESENT \<noteq> 0)"

definition vmm_map_page :: "u32 \<Rightarrow> u32 \<Rightarrow> u32 \<Rightarrow> vmm \<Rightarrow> vmm" where
  "vmm_map_page virt phys flags s =
     (let d = dir_idx virt; e = word_at (page_directory s) d
      in if d < IDENTITY_TABLES
         then s\<lparr>vm_mem := (vm_mem s)(word_at (page_at (page_tables s) d) (tbl_idx virt) := make_entry phys flags)\<rparr>
         else if \<not> present (vm_mem s e) \<and> extra_used s \<ge> EXTRA_TABLES then s
         else let s = (if present (vm_mem s e) then s
                       else let x = page_at (extra_tables s) (extra_used s);
                                m = fill_words x (\<lambda>i. 0) PAGES_PER_TABLE (vm_mem s)
                            in s\<lparr>vm_mem := m(e := x OR PAGE_PRESENT OR PAGE_RW), extra_used := extra_used s + 1\<rparr>);
                  pt = frame_of (vm_mem s e)
              in s\<lparr>vm_mem := (vm_mem s)(word_at pt (tbl_idx virt) := make_entry phys flags)\<rparr>)"

definition vmm_unmap_page :: "u32 \<Rightarrow> vmm \<Rightarrow> vmm" where
  "vmm_unmap_page virt s =
     (let d = dir_idx virt; e = vm_mem s (word_at (page_directory s) d)
      in if d < IDENTITY_TABLES
         then s\<lparr>vm_mem := (vm_mem s)(word_at (page_at (page_tables s) d) (tbl_idx virt) := 0)\<rparr>
         else if present e
         then s\<lparr>vm_mem := (vm_mem s)(word_at (frame_of e) (tbl_idx virt) := 0)\<rparr>
         else s)"

definition vmm_is_enabled :: "vmm \<Rightarrow> bool" where
  "vmm_is_enabled s = paging_enabled s"

definition vmm_get_current_dir :: "vmm \<Rightarrow> u32" where
  "vmm_get_current_dir s = current_page_directory s"

definition vmm_switch_address_space :: "u32 \<Rightarrow> vmm \<Rightarrow> vmm" where
  "vmm_switch_address_space pd s = s\<lparr>current_page_directory := pd, vm_cr3 := pd\<rparr>"

text \<open>The entries a new directory gets: the identity map with the kernel part closed to user code.\<close>

definition clone_entry :: "vmm \<Rightarrow> nat \<Rightarrow> u32" where
  "clone_entry s i =
     (if i < IDENTITY_TABLES
      then if i < KERNEL_END_TABLE then vm_mem s (word_at (page_directory s) i) AND NOT PAGE_USER
           else vm_mem s (word_at (page_directory s) i)
      else 0)"

definition vmm_create_address_space :: "vmm \<Rightarrow> u32 \<times> vmm" where
  "vmm_create_address_space s =
     (case pmm_alloc_frame (vm_pmm s) of
        (pd, p) \<Rightarrow> if pd = 0 then (0, s\<lparr>vm_pmm := p\<rparr>)
                   else (pd, s\<lparr>vm_pmm := p, vm_mem := fill_words pd (clone_entry s) 1024 (vm_mem s)\<rparr>))"

definition vmm_map_page_in :: "u32 \<Rightarrow> u32 \<Rightarrow> u32 \<Rightarrow> u32 \<Rightarrow> vmm \<Rightarrow> vmm" where
  "vmm_map_page_in pd virt phys flags s =
     (let e = word_at pd (dir_idx virt);
          store = (\<lambda>s. s\<lparr>vm_mem := (vm_mem s)(word_at (frame_of (vm_mem s e)) (tbl_idx virt) := make_entry phys flags)\<rparr>)
      in if present (vm_mem s e) then store s
         else case pmm_alloc_frame (vm_pmm s) of
                (pt, p) \<Rightarrow>
                  if pt = 0 then s\<lparr>vm_pmm := p\<rparr>
                  else store (s\<lparr>vm_pmm := p,
                         vm_mem := (fill_words pt (\<lambda>i. 0) 1024 (vm_mem s))(e := pt OR PAGE_PRESENT OR PAGE_RW OR PAGE_USER)\<rparr>))"

text \<open>The frames a page table maps are freed, then the table itself.\<close>

definition free_table :: "u32 \<Rightarrow> vmm \<Rightarrow> vmm" where
  "free_table e s =
     (if present e
      then let s = fold (\<lambda>j s. let w = vm_mem s (word_at (frame_of e) j)
                               in if present w then s\<lparr>vm_pmm := pmm_free_frame (frame_of w) (vm_pmm s)\<rparr> else s)
                     [0..<1024] s
           in s\<lparr>vm_pmm := pmm_free_frame (frame_of e) (vm_pmm s)\<rparr>
      else s)"

definition vmm_free_address_space :: "u32 \<Rightarrow> vmm \<Rightarrow> vmm" where
  "vmm_free_address_space pd s =
     (let s = fold (\<lambda>i s. free_table (vm_mem s (word_at pd i)) s) [IDENTITY_TABLES..<1024] s
      in s\<lparr>vm_pmm := pmm_free_frame pd (vm_pmm s)\<rparr>)"

section \<open>The processor's walk\<close>

text \<open>The physical address, and whether user code may access it and whether it may be written.\<close>

definition mmu_walk :: "pmem \<Rightarrow> u32 \<Rightarrow> u32 \<Rightarrow> (u32 \<times> bool \<times> bool) option" where
  "mmu_walk m pd virt =
     (let pde = m (word_at pd (dir_idx virt));
          pte = m (word_at (frame_of pde) (tbl_idx virt))
      in if present pde \<and> present pte
         then Some (frame_of pte OR (virt AND 0xFFF),
                    (pde AND pte) AND PAGE_USER \<noteq> 0, (pde AND pte) AND PAGE_RW \<noteq> 0)
         else None)"

section \<open>Words and pages\<close>

definition aligned :: "u32 \<Rightarrow> bool" where
  "aligned a = (a AND 0xFFF = 0)"

lemma and_fff: "unat (w AND 0xFFF :: u32) = unat w mod 4096"
proof -
  have "(0xFFF :: u32) = mask 12" by (simp add: mask_eq_exp_minus_1)
  then have "w AND 0xFFF = take_bit 12 w" by (simp only: take_bit_eq_mask)
  then show ?thesis by (simp add: take_bit_eq_mod unat_mod)
qed

lemma and_3ff: "unat (w AND 0x3FF :: u32) = unat w mod 1024"
proof -
  have "(0x3FF :: u32) = mask 10" by (simp add: mask_eq_exp_minus_1)
  then have "w AND 0x3FF = take_bit 10 w" by (simp only: take_bit_eq_mask)
  then show ?thesis by (simp add: take_bit_eq_mod unat_mod)
qed

lemma aligned_unat: "aligned a \<longleftrightarrow> unat a mod 4096 = 0"
  using and_fff [of a] by (simp add: aligned_def unat_eq_0 [symmetric] del: unat_eq_0)

lemma frame_of_bit: "bit (frame_of w) n \<longleftrightarrow> 12 \<le> n \<and> n < 32 \<and> bit w n"
proof -
  have "NOT 0xFFF = (NOT (mask 12) :: u32)" by (simp add: mask_eq_exp_minus_1)
  then have "frame_of w = w AND NOT (mask 12)" unfolding frame_of_def by (rule arg_cong)
  then show ?thesis by (auto simp: bit_simps dest: bit_imp_le_length)
qed

lemma offset_bit: "bit (w AND 0xFFF :: u32) n \<longleftrightarrow> n < 12 \<and> bit w n"
proof -
  have "(0xFFF :: u32) = mask 12" by (simp add: mask_eq_exp_minus_1)
  then have "w AND 0xFFF = take_bit 12 w" by (simp only: take_bit_eq_mask)
  then show ?thesis by (simp add: bit_take_bit_iff)
qed

lemma frame_of_unat: "unat (frame_of w) = unat w - unat w mod 4096"
proof -
  have "frame_of w AND (w AND 0xFFF) = 0" by (rule bit_eqI) (subst bit_and_iff, auto simp: frame_of_bit offset_bit)
  then have "frame_of w + (w AND 0xFFF) = frame_of w OR (w AND 0xFFF)" by (rule disjunctive_add_eq_or)
  also have "\<dots> = w" by (rule bit_eqI) (subst bit_or_iff, auto simp: frame_of_bit offset_bit)
  finally have "frame_of w = w - (w AND 0xFFF)" by (simp add: eq_diff_eq)
  moreover have "w AND 0xFFF \<le> w" unfolding word_le_nat_alt and_fff by simp
  ultimately show ?thesis using and_fff [of w] unat_minus_u32 [of "w AND 0xFFF" w] by simp
qed

lemma aligned_frame_of [simp]: "aligned (frame_of w)"
  by (simp add: aligned_unat frame_of_unat minus_mod_self1 mod_diff_eq)

lemma word_at_unat:
  assumes "aligned a" "i < 1024"
  shows "unat (word_at a i) = unat a + 4 * i"
proof -
  obtain k where k: "unat a = 4096 * k" using assms(1) by (auto simp: aligned_unat dvd_def)
  have "4096 * k < 4294967296" using k unat_u32_bound [of a] by simp
  then have "k < 1048576" by simp
  then have "unat a + 4 * i < 4294967296" using k assms(2) by linarith
  moreover have "unat (4 * of_nat i :: u32) = 4 * i" using assms(2) by (subst unat_mult_u32) simp_all
  ultimately show ?thesis by (simp add: word_at_def unat_plus_u32)
qed

lemma word_at_eq:
  assumes "aligned a" "aligned b" "i < 1024" "j < 1024"
  shows "word_at a i = word_at b j \<longleftrightarrow> a = b \<and> i = j"
proof
  assume "word_at a i = word_at b j"
  then have eq: "unat a + 4 * i = unat b + 4 * j"
    using word_at_unat [OF assms(1,3)] word_at_unat [OF assms(2,4)] by simp
  obtain k where k: "unat a = 4096 * k" using assms(1) by (auto simp: aligned_unat dvd_def)
  obtain l where l: "unat b = 4096 * l" using assms(2) by (auto simp: aligned_unat dvd_def)
  have "k = l" using eq assms(3,4) unfolding k l by linarith
  then show "a = b \<and> i = j" using eq k l by (simp add: word_unat_eq_iff)
qed simp

lemma dir_idx_eq: "dir_idx v = unat v div 4194304"
  by (simp add: dir_idx_def drop_bit_eq_div unat_div)

lemma tbl_idx_eq: "tbl_idx v = unat v div 4096 mod 1024"
  unfolding tbl_idx_def and_3ff by (simp add: drop_bit_eq_div unat_div)

lemma dir_idx_less [simp]: "dir_idx v < 1024"
  unfolding dir_idx_eq using unat_u32_bound [of v] by (simp add: less_mult_imp_div_less)

lemma tbl_idx_less [simp]: "tbl_idx v < 1024"
  by (simp add: tbl_idx_eq)

lemma same_page: "dir_idx a = dir_idx b \<and> tbl_idx a = tbl_idx b \<longleftrightarrow> unat a div 4096 = unat b div 4096"
proof -
  have "unat v div 4194304 = unat v div 4096 div 1024" for v :: u32 by (simp add: div_mult2_eq [symmetric])
  then show ?thesis unfolding dir_idx_eq tbl_idx_eq by (metis div_mult_mod_eq)
qed

lemma frame_of_aligned: "aligned a \<Longrightarrow> frame_of a = a"
  by (simp add: word_unat_eq_iff frame_of_unat aligned_unat)

text \<open>Flag bits are low bits: they do not reach the frame address.\<close>

definition low :: "u32 \<Rightarrow> bool" where
  "low f = (f AND 0xFFF = f)"

lemma low_bit: "low f \<Longrightarrow> bit f n \<Longrightarrow> n < 12"
  using offset_bit [of f n] by (simp add: low_def)

lemma low_flags [simp]: "low 1" "low 2" "low 4" "low (f AND 0xFFF)"
  by (simp_all add: low_def)

lemma low_or [simp]: "low f \<Longrightarrow> low g \<Longrightarrow> low (f OR g)"
  by (simp add: low_def bit.conj_disj_distrib2)

lemma aligned_bit: "aligned a \<Longrightarrow> bit a n \<Longrightarrow> 12 \<le> n"
  using offset_bit [of a n] by (auto simp: aligned_def not_less)

lemma frame_of_or:
  assumes "aligned a" "low f"
  shows "frame_of (a OR f) = a"
proof (rule bit_eqI)
  fix n assume "possible_bit TYPE(u32) n"
  then show "bit (frame_of (a OR f)) n \<longleftrightarrow> bit a n"
    using aligned_bit [OF assms(1), of n] low_bit [OF assms(2), of n]
    by (auto simp: frame_of_bit bit_or_iff)
qed

lemma present_bit: "present e \<longleftrightarrow> bit e 0"
  using and_exp_eq_0_iff_not_bit [of e 0] by (simp add: present_def)

lemma flag_bit: "e AND PAGE_USER \<noteq> 0 \<longleftrightarrow> bit e 2" "e AND PAGE_RW \<noteq> 0 \<longleftrightarrow> bit e 1" for e :: u32
proof -
  have "(4 :: u32) = 2 ^ 2" "(2 :: u32) = 2 ^ 1" by simp_all
  then show "e AND PAGE_USER \<noteq> 0 \<longleftrightarrow> bit e 2" "e AND PAGE_RW \<noteq> 0 \<longleftrightarrow> bit e 1"
    using and_exp_eq_0_iff_not_bit [of e 2] and_exp_eq_0_iff_not_bit [of e 1] by simp_all
qed

lemma low_bits_or:
  assumes "aligned a" "n < 12"
  shows "bit (a OR f) n \<longleftrightarrow> bit f n"
  using aligned_bit [OF assms(1), of n] assms(2) by (auto simp: bit_or_iff)

lemma make_entry_simps [simp]:
  "frame_of (make_entry phys flags) = frame_of phys" "present (make_entry phys flags)"
  "bit (make_entry phys flags) (Suc 0) \<longleftrightarrow> bit flags (Suc 0)" "bit (make_entry phys flags) 2 \<longleftrightarrow> bit flags 2"
proof -
  have eq: "make_entry phys flags = frame_of phys OR ((flags AND 0xFFF) OR 1)"
    by (simp add: make_entry_def or.assoc)
  show "frame_of (make_entry phys flags) = frame_of phys" unfolding eq by (rule frame_of_or) simp_all
  have one: "bit (1 :: u32) n \<longleftrightarrow> n = 0" for n by (simp add: bit_1_iff)
  show "present (make_entry phys flags)" unfolding eq present_bit by (simp add: low_bits_or bit_or_iff one)
  show "bit (make_entry phys flags) (Suc 0) \<longleftrightarrow> bit flags (Suc 0)" "bit (make_entry phys flags) 2 \<longleftrightarrow> bit flags 2"
    unfolding eq low_bits_or [OF aligned_frame_of, of "Suc 0"] low_bits_or [OF aligned_frame_of, of 2]
    by (simp_all add: low_bits_or bit_or_iff [of "flags AND 0xFFF"] offset_bit one)
qed

lemma mmu_walk_bits:
  "mmu_walk m pd virt =
     (let pde = m (word_at pd (dir_idx virt)); pte = m (word_at (frame_of pde) (tbl_idx virt))
      in if bit pde 0 \<and> bit pte 0
         then Some (frame_of pte OR (virt AND 0xFFF), bit pde 2 \<and> bit pte 2, bit pde 1 \<and> bit pte 1)
         else None)"
  by (simp only: mmu_walk_def present_bit flag_bit bit_and_iff Let_def)

section \<open>Filling a page\<close>

lemma fill_words_Suc: "fill_words a f (Suc n) m = (fill_words a f n m)(word_at a n := f n)"
  by (simp add: fill_words_def)

lemma fill_words_at:
  assumes "aligned a" "aligned b" "n \<le> 1024" "i < 1024"
  shows "fill_words a f n m (word_at b i) = (if b = a \<and> i < n then f i else m (word_at b i))"
  using assms(3)
proof (induction n)
  case 0
  then show ?case by (simp add: fill_words_def)
next
  case (Suc n)
  then show ?case using word_at_eq [OF assms(2,1,4), of n] by (auto simp: fill_words_Suc less_Suc_eq)
qed

section \<open>The identity map\<close>

text \<open>The static tables as the linker lays them out: whole pages, apart from each other, inside the kernel image.\<close>

definition layout_ok :: "vmm \<Rightarrow> bool" where
  "layout_ok s = (aligned (page_directory s) \<and> aligned (page_tables s) \<and> aligned (extra_tables s)
     \<and> unat (page_tables s) + 4096 * IDENTITY_TABLES \<le> 0x08000000
     \<and> unat (extra_tables s) + 4096 * EXTRA_TABLES \<le> 0x08000000
     \<and> unat (page_directory s) + 4096 \<le> 0x08000000
     \<and> (\<forall>t<IDENTITY_TABLES. page_at (page_tables s) t \<noteq> page_directory s)
     \<and> (\<forall>x<EXTRA_TABLES. page_at (extra_tables s) x \<noteq> page_directory s)
     \<and> (\<forall>t<IDENTITY_TABLES. \<forall>x<EXTRA_TABLES. page_at (page_tables s) t \<noteq> page_at (extra_tables s) x))"

lemma page_at_unat:
  assumes "unat a + 4096 * n \<le> 0x08000000" "t < n"
  shows "unat (page_at a t) = unat a + 4096 * t"
proof -
  have "4096 * t < 0x08000000" using assms by linarith
  then have "unat (4096 * of_nat t :: u32) = 4096 * t" by (subst unat_mult_u32) simp_all
  then show ?thesis using assms unfolding page_at_def by (subst unat_plus_u32) simp_all
qed

lemma page_at_eq:
  assumes "unat a + 4096 * n \<le> 0x08000000" "t < n" "u < n"
  shows "page_at a t = page_at a u \<longleftrightarrow> t = u"
proof
  assume "page_at a t = page_at a u"
  then have "unat a + 4096 * t = unat a + 4096 * u"
    unfolding page_at_unat [OF assms(1,2), symmetric] page_at_unat [OF assms(1,3), symmetric] by (rule arg_cong)
  then show "t = u" by simp
qed simp

lemma page_at_aligned:
  assumes "aligned a" "unat a + 4096 * n \<le> 0x08000000" "t < n"
  shows "aligned (page_at a t)"
  using assms(1) page_at_unat [OF assms(2,3)] by (simp add: aligned_unat)

lemma layout_tables:
  assumes "layout_ok s" "t < IDENTITY_TABLES"
  shows "aligned (page_at (page_tables s) t)" "page_at (page_tables s) t \<noteq> page_directory s"
    and "unat (page_at (page_tables s) t) < 0x08000000"
    and "u < IDENTITY_TABLES \<Longrightarrow> page_at (page_tables s) t = page_at (page_tables s) u \<longleftrightarrow> t = u"
proof -
  have b: "unat (page_tables s) + 4096 * 256 \<le> 0x08000000" using assms(1) by (simp add: layout_ok_def)
  have "aligned (page_tables s)" using assms(1) by (simp add: layout_ok_def)
  then show "aligned (page_at (page_tables s) t)" using page_at_aligned [OF _ b assms(2)] by simp
  show "page_at (page_tables s) t \<noteq> page_directory s" using assms by (simp add: layout_ok_def)
  show "unat (page_at (page_tables s) t) < 0x08000000" using page_at_unat [OF b assms(2)] b assms(2) by linarith
  show "u < IDENTITY_TABLES \<Longrightarrow> page_at (page_tables s) t = page_at (page_tables s) u \<longleftrightarrow> t = u"
    by (rule page_at_eq [OF b assms(2)])
qed

definition table_flags :: "nat \<Rightarrow> u32" where
  "table_flags t = (if t < KERNEL_END_TABLE then PAGE_PRESENT OR PAGE_RW else PAGE_PRESENT OR PAGE_RW OR PAGE_USER)"

lemma table_flags_bits [simp]:
  "low (table_flags t)" "bit (table_flags t) 0" "bit (table_flags t) (Suc 0)" "bit (table_flags t) 2 \<longleftrightarrow> \<not> t < KERNEL_END_TABLE"
proof -
  show "low (table_flags t)" by (auto simp: table_flags_def low_def)
  show "bit (table_flags t) 0" "bit (table_flags t) (Suc 0)" "bit (table_flags t) 2 \<longleftrightarrow> \<not> t < KERNEL_END_TABLE"
    using flag_bit [of "table_flags t"] by (simp_all add: table_flags_def bit_or_iff bit_1_iff split: if_splits)
qed

lemma init_table_mem:
  "init_table t s = s\<lparr>vm_mem := (fill_words (page_at (page_tables s) t)
       (\<lambda>p. (of_nat (t * 1024 + p) * 4096) OR table_flags t) 1024 (vm_mem s))
       (word_at (page_directory s) t := page_at (page_tables s) t OR table_flags t)\<rparr>"
  by (simp add: init_table_def table_flags_def Let_def)

text \<open>What the directory and tables hold after \<open>n\<close> rounds of the loop.\<close>

definition identity_upto :: "nat \<Rightarrow> vmm \<Rightarrow> pmem \<Rightarrow> bool" where
  "identity_upto n s m = ((\<forall>t<1024. m (word_at (page_directory s) t) =
        (if t < n then page_at (page_tables s) t OR table_flags t else 0))
   \<and> (\<forall>t<n. \<forall>p<1024. m (word_at (page_at (page_tables s) t) p) = (of_nat (t * 1024 + p) * 4096) OR table_flags t))"

lemma identity_step:
  assumes l: "layout_ok s" and n: "n < IDENTITY_TABLES" and i: "identity_upto n s (vm_mem s)"
  shows "identity_upto (Suc n) s (vm_mem (init_table n s))"
proof -
  have d: "aligned (page_directory s)" using l by (simp add: layout_ok_def)
  have tb: "aligned (page_at (page_tables s) t)" "page_at (page_tables s) t \<noteq> page_directory s" if "t < IDENTITY_TABLES" for t
    using layout_tables [OF l that] by simp_all
  have inj: "page_at (page_tables s) t = page_at (page_tables s) u \<longleftrightarrow> t = u"
    if "t < IDENTITY_TABLES" "u < IDENTITY_TABLES" for t u
    using layout_tables(4) [OF l] that by simp
  show ?thesis
    unfolding identity_upto_def init_table_mem
  proof (intro conjI allI impI, goal_cases)
    case (1 t)
    then show ?case using i d tb [OF n] n word_at_eq [OF d d, of t n]
      by (auto simp: fill_words_at identity_upto_def less_Suc_eq)
  next
    case (2 t p)
    then have t: "t < IDENTITY_TABLES" using n by simp
    have "word_at (page_at (page_tables s) t) p \<noteq> word_at (page_directory s) n"
      using word_at_eq [OF tb(1) [OF t] d 2(2), of n] n tb(2) [OF t] by simp
    then show ?case using 2 i inj [OF t n] tb(1) [OF t] tb(1) [OF n]
      by (auto simp: fill_words_at identity_upto_def less_Suc_eq)
  qed
qed

lemma init_fields [simp]:
  "page_directory (fold init_table ts s) = page_directory s" "page_tables (fold init_table ts s) = page_tables s"
  "extra_tables (fold init_table ts s) = extra_tables s" "vm_pmm (fold init_table ts s) = vm_pmm s"
  by (induction ts arbitrary: s) (simp_all add: init_table_mem)

lemma layout_cong:
  "page_directory t = page_directory s \<Longrightarrow> page_tables t = page_tables s \<Longrightarrow> extra_tables t = extra_tables s
    \<Longrightarrow> layout_ok t = layout_ok s"
  by (simp add: layout_ok_def)

lemma identity_cong:
  "page_directory t = page_directory s \<Longrightarrow> page_tables t = page_tables s \<Longrightarrow> identity_upto n t m = identity_upto n s m"
  by (simp add: identity_upto_def)

lemma identity_loop:
  assumes "layout_ok s" "identity_upto 0 s (vm_mem s)" "n \<le> IDENTITY_TABLES"
  shows "identity_upto n s (vm_mem (fold init_table [0..<n] s))"
  using assms(3)
proof (induction n)
  case 0
  then show ?case using assms(2) by simp
next
  case (Suc n)
  let ?s = "fold init_table [0..<n] s"
  have "layout_ok ?s" using assms(1) layout_cong [of ?s s] by simp
  moreover have "identity_upto n ?s (vm_mem ?s)" using Suc identity_cong [of ?s s] by simp
  ultimately have "identity_upto (Suc n) ?s (vm_mem (init_table n ?s))" using Suc.prems identity_step by simp
  then show ?case using identity_cong [of ?s s] by simp
qed

lemma vmm_init_identity:
  assumes "layout_ok s"
  shows "identity_upto IDENTITY_TABLES s (vm_mem (vmm_init s))"
proof -
  let ?z = "s\<lparr>vm_mem := fill_words (page_directory s) (\<lambda>i. 0) 1024 (vm_mem s)\<rparr>"
  have l: "layout_ok ?z" using assms layout_cong [of ?z s] by simp
  have "identity_upto 0 ?z (vm_mem ?z)"
    using assms by (simp add: identity_upto_def layout_ok_def fill_words_at)
  from identity_loop [OF l this order_refl] show ?thesis
    using identity_cong [of ?z s] by (simp add: vmm_init_def Let_def)
qed

lemma page_number_aligned:
  assumes "k < 1048576"
  shows "unat (of_nat k * 4096 :: u32) = k * 4096" and "aligned (of_nat k * 4096)"
proof -
  show "unat (of_nat k * 4096 :: u32) = k * 4096" using assms by (subst unat_mult_u32) simp_all
  then show "aligned (of_nat k * 4096)" by (simp add: aligned_unat)
qed

lemma identity_walk:
  assumes l: "layout_ok s"
    and dirs: "\<forall>t<1024. m (word_at dir t) = (if t < IDENTITY_TABLES then page_at (page_tables s) t OR table_flags t else 0)"
    and tabs: "\<forall>t<IDENTITY_TABLES. \<forall>p<1024. m (word_at (page_at (page_tables s) t) p) = (of_nat (t * 1024 + p) * 4096) OR table_flags t"
  shows "mmu_walk m dir virt =
    (if virt < 0x40000000 then Some (virt, 0x05000000 \<le> virt, True) else None)"
proof -
  let ?d = "dir_idx virt" and ?p = "tbl_idx virt"
  have in_id: "?d < 256 \<longleftrightarrow> virt < 0x40000000" unfolding dir_idx_eq word_less_nat_alt by auto
  have kern: "?d < 20 \<longleftrightarrow> \<not> 0x05000000 \<le> virt" unfolding dir_idx_eq word_le_nat_alt by auto
  show ?thesis
  proof (cases "?d < 256")
    case False
    then have "m (word_at dir ?d) = 0" using dirs by simp
    then show ?thesis using False in_id by (simp add: mmu_walk_bits Let_def)
  next
    case True
    let ?t = "page_at (page_tables s) ?d" and ?k = "?d * 1024 + ?p"
    have al: "aligned ?t" using layout_tables(1) [OF l True] .
    have k: "?k = unat virt div 4096"
      using div_mult_mod_eq [of "unat virt div 4096" 1024] by (simp add: dir_idx_eq tbl_idx_eq div_mult2_eq [symmetric])
    have "?k < 1048576" using unat_u32_bound [of virt] unfolding k by simp
    note page = page_number_aligned [OF this]
    have pde: "m (word_at dir ?d) = ?t OR table_flags ?d"
      using dirs True by simp
    have pte: "m (word_at ?t ?p) = (of_nat ?k * 4096) OR table_flags ?d"
      using tabs True by simp
    have fr: "(of_nat ?k * 4096 :: u32) = frame_of virt"
      using page(1) unfolding word_unat_eq_iff frame_of_unat by (simp only: k minus_mod_eq_div_mult)
    have whole: "frame_of virt OR (virt AND 0xFFF) = virt"
      by (rule bit_eqI) (subst bit_or_iff, auto simp: frame_of_bit offset_bit)
    have "frame_of (?t OR table_flags ?d) = ?t" "frame_of (frame_of virt OR table_flags ?d) = frame_of virt"
      by (rule frame_of_or; simp add: al)+
    moreover have "m (word_at ?t ?p) = frame_of virt OR table_flags ?d" unfolding pte fr ..
    moreover have "bit (?t OR table_flags ?d) n \<longleftrightarrow> bit (table_flags ?d) n"
      "bit (frame_of virt OR table_flags ?d) n \<longleftrightarrow> bit (table_flags ?d) n" if "n < 12" for n
      using that by (simp_all add: low_bits_or al)
    ultimately show ?thesis using True in_id kern whole by (simp add: mmu_walk_bits pde Let_def)
  qed
qed

section \<open>Address spaces\<close>

text \<open>
  The directory and the page tables of an address space are distinct pages whose frames the
  frame allocator counts as used, so a new table never overlaps them.
\<close>

definition table_at :: "pmem \<Rightarrow> u32 \<Rightarrow> nat \<Rightarrow> u32" where
  "table_at m pd i = frame_of (m (word_at pd i))"

definition held :: "u32 \<Rightarrow> pmm \<Rightarrow> bool" where
  "held a p = (unat a div 4096 \<in> pmm_used p)"

definition space_ok :: "u32 \<Rightarrow> vmm \<Rightarrow> bool" where
  "space_ok pd s = (aligned pd \<and> pmm_inv (vm_pmm s) \<and> held pd (vm_pmm s)
     \<and> (\<forall>i<1024. present (vm_mem s (word_at pd i)) \<longrightarrow>
          table_at (vm_mem s) pd i \<noteq> pd \<and> held (table_at (vm_mem s) pd i) (vm_pmm s)
          \<and> (\<forall>j<1024. present (vm_mem s (word_at pd j)) \<and> table_at (vm_mem s) pd j = table_at (vm_mem s) pd i \<longrightarrow> i = j)))"

lemma space_table_apart:
  "space_ok pd s \<Longrightarrow> i < 1024 \<Longrightarrow> vm_mem s (word_at pd i) = t OR table_flags i \<Longrightarrow> aligned t \<Longrightarrow> pd \<noteq> t"
proof -
  assume sp: "space_ok pd s" and i: "i < 1024" and e: "vm_mem s (word_at pd i) = t OR table_flags i" and t: "aligned t"
  have "present (vm_mem s (word_at pd i))" unfolding e present_bit by (simp add: low_bits_or [OF t])
  then have "table_at (vm_mem s) pd i \<noteq> pd" using sp i by (simp add: space_ok_def)
  then show ?thesis unfolding table_at_def e frame_of_or [OF t table_flags_bits(1)] by auto
qed

lemma new_frame:
  assumes "pmm_alloc_frame p = (a, q)" "a \<noteq> 0" "pmm_inv p"
  shows "aligned a" "\<not> held a p" "held a q" "pmm_inv q" "held b p \<Longrightarrow> held b q"
    and "unat a div 4096 \<notin> pmm_reserved" "pmm_reserved \<subseteq> pmm_used p" "pmm_used q = insert (unat a div 4096) (pmm_used p)"
proof -
  obtain f where f: "a = of_nat f * 4096" "f \<notin> pmm_used p" "f < 2 ^ 20" "pmm_inv q" "pmm_used q = insert f (pmm_used p)"
    "f < pmm_cap p" "32768 \<le> f"
  proof (rule pmm_alloc_frame_cases [OF assms(3)], goal_cases)
    case 1
    then show ?case using assms(1,2) by simp
  next
    case (2 f t)
    then show ?case using assms(1) by (intro that [of f]) simp_all
  qed
  have "f < 1048576" using f(3) by simp
  note pg = page_number_aligned [OF this]
  show "aligned a" "\<not> held a p" "held a q" "pmm_inv q" "held b p \<Longrightarrow> held b q"
    "unat a div 4096 \<notin> pmm_reserved" "pmm_used q = insert (unat a div 4096) (pmm_used p)"
    using pg f by (simp_all add: held_def pmm_reserved_def)
  show "pmm_reserved \<subseteq> pmm_used p" using assms(3) f(6,7) by (auto simp: pmm_inv_def pmm_reserved_def)
qed

lemma pmm_alloc_zero: "pmm_inv p \<Longrightarrow> pmm_alloc_frame p = (0, q) \<Longrightarrow> q = p"
proof (rule pmm_alloc_frame_cases [of p], goal_cases)
  case (3 f t)
  then show ?case using frame_addr_nonzero [of f] by auto
qed simp_all

lemma walk_unfold:
  "mmu_walk m pd virt =
     (let pde = m (word_at pd (dir_idx virt)); pte = m (word_at (table_at m pd (dir_idx virt)) (tbl_idx virt))
      in if bit pde 0 \<and> bit pte 0
         then Some (frame_of pte OR (virt AND 0xFFF), bit pde 2 \<and> bit pte 2, bit pde 1 \<and> bit pte 1)
         else None)"
  by (simp only: mmu_walk_bits table_at_def Let_def)

text \<open>Storing an entry in a table that is there.\<close>

lemma store_entry:
  fixes phys flags :: u32
  assumes sp: "space_ok pd s" and pr: "present (vm_mem s (word_at pd (dir_idx virt)))"
  defines "t \<equiv> s\<lparr>vm_mem := (vm_mem s)(word_at (table_at (vm_mem s) pd (dir_idx virt)) (tbl_idx virt) := make_entry phys flags)\<rparr>"
  shows "space_ok pd t"
    and "\<forall>i<1024. vm_mem t (word_at pd i) = vm_mem s (word_at pd i)"
    and "mmu_walk (vm_mem t) pd va =
       (if unat va div 4096 = unat virt div 4096
        then Some (frame_of phys OR (va AND 0xFFF), bit (vm_mem s (word_at pd (dir_idx virt))) 2 \<and> bit flags 2,
                   bit (vm_mem s (word_at pd (dir_idx virt))) 1 \<and> bit flags 1)
        else mmu_walk (vm_mem s) pd va)"
proof -
  let ?tab = "table_at (vm_mem s) pd (dir_idx virt)"
  have al: "aligned pd" "aligned ?tab" using sp by (simp_all add: space_ok_def table_at_def)
  have ne: "?tab \<noteq> pd" using sp pr by (simp add: space_ok_def)
  show dir: "\<forall>i<1024. vm_mem t (word_at pd i) = vm_mem s (word_at pd i)"
    using ne al by (simp add: t_def word_at_eq)
  then have tab: "table_at (vm_mem t) pd i = table_at (vm_mem s) pd i" if "i < 1024" for i
    using that by (simp add: table_at_def)
  show "space_ok pd t"
  proof -
    have "vm_pmm t = vm_pmm s" by (simp add: t_def)
    then show ?thesis using sp dir tab unfolding space_ok_def by simp
  qed
  show "mmu_walk (vm_mem t) pd va =
       (if unat va div 4096 = unat virt div 4096
        then Some (frame_of phys OR (va AND 0xFFF), bit (vm_mem s (word_at pd (dir_idx virt))) 2 \<and> bit flags 2,
                   bit (vm_mem s (word_at pd (dir_idx virt))) 1 \<and> bit flags 1)
        else mmu_walk (vm_mem s) pd va)"
  proof (cases "present (vm_mem s (word_at pd (dir_idx va)))")
    case False
    then have "unat va div 4096 \<noteq> unat virt div 4096" using pr same_page [of va virt] by auto
    then show ?thesis using False dir by (simp add: walk_unfold present_bit Let_def)
  next
    case True
    have pte: "vm_mem t (word_at (table_at (vm_mem s) pd (dir_idx va)) (tbl_idx va)) =
        (if dir_idx va = dir_idx virt \<and> tbl_idx va = tbl_idx virt then make_entry phys flags
         else vm_mem s (word_at (table_at (vm_mem s) pd (dir_idx va)) (tbl_idx va)))"
    proof -
      have "table_at (vm_mem s) pd (dir_idx va) = ?tab \<longleftrightarrow> dir_idx va = dir_idx virt"
        using sp pr True unfolding space_ok_def by auto
      then show ?thesis by (simp add: t_def word_at_eq table_at_def)
    qed
    have "bit (make_entry phys flags) 0" using make_entry_simps(2) by (simp add: present_bit)
    then show ?thesis using True pr dir tab pte same_page [of va virt]
      by (auto simp: walk_unfold present_bit Let_def)
  qed
qed

text \<open>Adding an empty table for a directory entry that was not present.\<close>

lemma add_table:
  assumes sp: "space_ok pd s" and no: "\<not> present (vm_mem s (word_at pd d))" and d: "d < 1024"
    and al: "pmm_alloc_frame (vm_pmm s) = (pt, p)" "pt \<noteq> 0"
  defines "t \<equiv> s\<lparr>vm_pmm := p, vm_mem := (fill_words pt (\<lambda>i. 0) 1024 (vm_mem s))
                   (word_at pd d := pt OR PAGE_PRESENT OR PAGE_RW OR PAGE_USER)\<rparr>"
  shows "space_ok pd t" and "vm_mem t (word_at pd d) = pt OR PAGE_PRESENT OR PAGE_RW OR PAGE_USER"
    and "table_at (vm_mem t) pd d = pt"
    and "mmu_walk (vm_mem t) pd va = mmu_walk (vm_mem s) pd va"
proof -
  have inv: "pmm_inv (vm_pmm s)" "aligned pd" "held pd (vm_pmm s)" using sp by (simp_all add: space_ok_def)
  note new = new_frame [OF al inv(1)]
  have ne: "pt \<noteq> pd" using new(2) inv(3) by auto
  let ?f = "PAGE_PRESENT OR PAGE_RW OR PAGE_USER"
  have f: "low ?f" by (simp add: low_def)
  have flag_on: "bit (pt OR ?f) 0" by (simp add: bit_or_iff)
  have mem: "vm_mem t (word_at a i) = (if a = pd \<and> i = d then pt OR ?f else if a = pt then 0 else vm_mem s (word_at a i))"
    if "aligned a" "i < 1024" for a i
    using that ne inv(2) d new(1) by (auto simp: t_def word_at_eq fill_words_at)
  show dird: "vm_mem t (word_at pd d) = pt OR ?f" using mem inv(2) d by simp
  show tabd: "table_at (vm_mem t) pd d = pt" unfolding table_at_def dird by (rule frame_of_or [OF new(1) f])
  have dir: "vm_mem t (word_at pd i) = vm_mem s (word_at pd i)" if "i < 1024" "i \<noteq> d" for i
    using mem [OF inv(2) that(1)] that ne by simp
  have tab: "table_at (vm_mem t) pd i = table_at (vm_mem s) pd i" if "i < 1024" "i \<noteq> d" for i
    using dir that by (simp add: table_at_def)
  have old: "present (vm_mem s (word_at pd i)) \<Longrightarrow> i < 1024 \<Longrightarrow> table_at (vm_mem s) pd i \<noteq> pt" for i
    using sp new(2) by (auto simp: space_ok_def)
  show "space_ok pd t"
    unfolding space_ok_def
  proof (intro conjI allI impI, goal_cases)
    case 1 show ?case by (rule inv(2))
  next
    case 2 show ?case using new(4) by (simp add: t_def)
  next
    case 3 show ?case using new(5) [OF inv(3)] by (simp add: t_def)
  next
    case (4 i)
    then show ?case using sp ne tabd tab dir by (cases "i = d") (auto simp: space_ok_def)
  next
    case (5 i)
    then show ?case using sp tabd tab dir new(3,5) by (cases "i = d") (auto simp: space_ok_def t_def)
  next
    case (6 i j)
    then show ?case using sp tabd tab dir old by (cases "i = d"; cases "j = d") (auto simp: space_ok_def)
  qed
  show "mmu_walk (vm_mem t) pd va = mmu_walk (vm_mem s) pd va"
  proof (cases "dir_idx va = d")
    case True
    then have "mmu_walk (vm_mem s) pd va = None" using no by (simp add: walk_unfold present_bit Let_def)
    moreover have "vm_mem t (word_at pt (tbl_idx va)) = 0" using mem [OF new(1)] ne by simp
    then have "mmu_walk (vm_mem t) pd va = None" using True tabd by (simp add: walk_unfold Let_def)
    ultimately show ?thesis by simp
  next
    case False
    have "vm_mem t (word_at (table_at (vm_mem s) pd (dir_idx va)) (tbl_idx va)) =
        vm_mem s (word_at (table_at (vm_mem s) pd (dir_idx va)) (tbl_idx va))"
      if pr: "present (vm_mem s (word_at pd (dir_idx va)))"
    proof -
      have "table_at (vm_mem s) pd (dir_idx va) \<noteq> pd" using sp pr by (simp add: space_ok_def)
      then show ?thesis using mem [of "table_at (vm_mem s) pd (dir_idx va)" "tbl_idx va"] old [OF pr]
        by (simp add: table_at_def)
    qed
    then show ?thesis using False dir tab by (auto simp: walk_unfold present_bit Let_def)
  qed
qed

lemma map_page_in_present:
  assumes "present (vm_mem s (word_at pd (dir_idx virt)))"
  shows "vmm_map_page_in pd virt phys flags s =
    s\<lparr>vm_mem := (vm_mem s)(word_at (table_at (vm_mem s) pd (dir_idx virt)) (tbl_idx virt) := make_entry phys flags)\<rparr>"
  using assms by (simp add: vmm_map_page_in_def table_at_def Let_def)

lemma map_page_in_new:
  assumes "\<not> present (vm_mem s (word_at pd (dir_idx virt)))" "pmm_alloc_frame (vm_pmm s) = (pt, p)" "pt \<noteq> 0"
  shows "vmm_map_page_in pd virt phys flags s =
    vmm_map_page_in pd virt phys flags (s\<lparr>vm_pmm := p, vm_mem := (fill_words pt (\<lambda>i. 0) 1024 (vm_mem s))
       (word_at pd (dir_idx virt) := pt OR PAGE_PRESENT OR PAGE_RW OR PAGE_USER)\<rparr>)"
proof -
  have "bit (pt OR 7) 0" by (simp add: bit_or_iff)
  then show ?thesis using assms by (simp add: vmm_map_page_in_def present_bit Let_def)
qed

lemma map_page_in_spec:
  fixes virt phys flags :: u32
  assumes "space_ok pd s"
  defines "t \<equiv> vmm_map_page_in pd virt phys flags s"
    and "pde \<equiv> vm_mem s (word_at pd (dir_idx virt))"
  shows "space_ok pd t
    \<and> (if present pde \<or> fst (pmm_alloc_frame (vm_pmm s)) \<noteq> 0
       then mmu_walk (vm_mem t) pd va =
         (if unat va div 4096 = unat virt div 4096
          then Some (frame_of phys OR (va AND 0xFFF), (present pde \<longrightarrow> bit pde 2) \<and> bit flags 2,
                     (present pde \<longrightarrow> bit pde 1) \<and> bit flags 1)
          else mmu_walk (vm_mem s) pd va)
       else t = s)"
proof (cases "present pde")
  case True
  then have pr: "present (vm_mem s (word_at pd (dir_idx virt)))" by (simp add: pde_def)
  show ?thesis using store_entry [OF assms(1) pr, of phys flags] True
    unfolding t_def map_page_in_present [OF pr] pde_def by simp
next
  case False
  then have no: "\<not> present (vm_mem s (word_at pd (dir_idx virt)))" by (simp add: pde_def)
  obtain pt p where al: "pmm_alloc_frame (vm_pmm s) = (pt, p)" by (cases "pmm_alloc_frame (vm_pmm s)")
  show ?thesis
  proof (cases "pt = 0")
    case True
    then have "t = s" using no al pmm_alloc_zero [of "vm_pmm s"] assms(1)
      by (simp add: t_def vmm_map_page_in_def space_ok_def)
    then show ?thesis using True False al assms(1) by simp
  next
    case False
    let ?u = "s\<lparr>vm_pmm := p, vm_mem := (fill_words pt (\<lambda>i. 0) 1024 (vm_mem s))
       (word_at pd (dir_idx virt) := pt OR PAGE_PRESENT OR PAGE_RW OR PAGE_USER)\<rparr>"
    note add = add_table [OF assms(1) no dir_idx_less al False]
    have bits: "bit (pt OR PAGE_PRESENT OR PAGE_RW OR PAGE_USER) 0" "bit (pt OR PAGE_PRESENT OR PAGE_RW OR PAGE_USER) 1"
      "bit (pt OR PAGE_PRESENT OR PAGE_RW OR PAGE_USER) 2"
      using flag_bit [of 7] by (simp_all add: bit_or_iff)
    have pr: "present (vm_mem ?u (word_at pd (dir_idx virt)))" unfolding add(2) present_bit by (rule bits)
    have eq: "t = ?u\<lparr>vm_mem := (vm_mem ?u)(word_at (table_at (vm_mem ?u) pd (dir_idx virt)) (tbl_idx virt) := make_entry phys flags)\<rparr>"
      unfolding t_def map_page_in_new [OF no al False] by (rule map_page_in_present [OF pr])
    show ?thesis using store_entry [OF add(1) pr, of phys flags] no al False bits
      unfolding eq [symmetric] add(2,4) pde_def by simp
  qed
qed

text \<open>
  Another space keeps its translations unless it shares the table that is written: its pages are its
  directory and the tables of its present entries.
\<close>

definition space_pages :: "u32 \<Rightarrow> vmm \<Rightarrow> u32 set" where
  "space_pages pd s = insert pd (table_at (vm_mem s) pd ` {i. i < 1024 \<and> present (vm_mem s (word_at pd i))})"

lemma space_pages_held: "space_ok pd s \<Longrightarrow> a \<in> space_pages pd s \<Longrightarrow> aligned a \<and> held a (vm_pmm s)"
  by (auto simp: space_pages_def space_ok_def table_at_def)

lemma walk_cong_pages:
  assumes "\<And>a i. a \<in> space_pages pd s \<Longrightarrow> i < 1024 \<Longrightarrow> m (word_at a i) = vm_mem s (word_at a i)"
  shows "mmu_walk m pd va = mmu_walk (vm_mem s) pd va"
proof -
  have dir: "m (word_at pd (dir_idx va)) = vm_mem s (word_at pd (dir_idx va))" by (rule assms) (simp_all add: space_pages_def)
  have "m (word_at (table_at (vm_mem s) pd (dir_idx va)) (tbl_idx va)) = vm_mem s (word_at (table_at (vm_mem s) pd (dir_idx va)) (tbl_idx va))"
    if "present (vm_mem s (word_at pd (dir_idx va)))"
    by (rule assms) (use that in \<open>auto simp: space_pages_def\<close>)
  then show ?thesis using dir by (auto simp: walk_unfold table_at_def present_bit Let_def)
qed

lemma map_page_in_others:
  assumes "space_ok pd s" "space_ok pd' s" "pd \<notin> space_pages pd' s"
    and "present (vm_mem s (word_at pd (dir_idx virt))) \<longrightarrow> table_at (vm_mem s) pd (dir_idx virt) \<notin> space_pages pd' s"
  shows "mmu_walk (vm_mem (vmm_map_page_in pd virt phys flags s)) pd' va = mmu_walk (vm_mem s) pd' va"
proof (rule walk_cong_pages)
  fix a i assume a: "a \<in> space_pages pd' s" and i: "i < (1024 :: nat)"
  have al: "aligned a" "held a (vm_pmm s)" "aligned pd" "a \<noteq> pd" "pmm_inv (vm_pmm s)"
    using space_pages_held [OF assms(2) a] a assms(1,3) by (auto simp: space_ok_def)
  show "vm_mem (vmm_map_page_in pd virt phys flags s) (word_at a i) = vm_mem s (word_at a i)"
  proof (cases "present (vm_mem s (word_at pd (dir_idx virt)))")
    case True
    then have "a \<noteq> table_at (vm_mem s) pd (dir_idx virt)" using a assms(4) by auto
    then show ?thesis unfolding map_page_in_present [OF True]
      using al(1) i by (simp add: word_at_eq table_at_def)
  next
    case False
    obtain pt p where fr: "pmm_alloc_frame (vm_pmm s) = (pt, p)" by (cases "pmm_alloc_frame (vm_pmm s)")
    show ?thesis
    proof (cases "pt = 0")
      case True
      then show ?thesis using False fr by (simp add: vmm_map_page_in_def)
    next
      case new: False
      have ne: "a \<noteq> pt" "aligned pt" using new_frame [OF fr new al(5)] al(2) by auto
      note add = add_table [OF assms(1) False dir_idx_less fr new]
      have pr: "present (pt OR PAGE_PRESENT OR PAGE_RW OR PAGE_USER)" by (simp add: present_bit bit_or_iff)
      show ?thesis unfolding map_page_in_new [OF False fr new]
        by (subst map_page_in_present) (use pr add(2,3) al ne i in \<open>simp_all add: word_at_eq fill_words_at\<close>)
    qed
  qed
qed

section \<open>Creating and freeing a space\<close>

text \<open>The frames that freeing an address space gives back, in order.\<close>

definition table_frames :: "pmem \<Rightarrow> u32 \<Rightarrow> u32 list" where
  "table_frames m e = map frame_of (filter present (map (\<lambda>j. m (word_at (frame_of e) j)) [0..<1024]))"

definition entry_frames :: "pmem \<Rightarrow> u32 \<Rightarrow> u32 list" where
  "entry_frames m e = (if present e then table_frames m e @ [frame_of e] else [])"

definition space_frames :: "pmem \<Rightarrow> u32 \<Rightarrow> u32 list" where
  "space_frames m pd = concat (map (\<lambda>i. entry_frames m (m (word_at pd i))) [IDENTITY_TABLES..<1024]) @ [pd]"

lemma free_table_frames_fold:
  "fold (\<lambda>j s. if present (vm_mem s (word_at a j))
               then s\<lparr>vm_pmm := pmm_free_frame (frame_of (vm_mem s (word_at a j))) (vm_pmm s)\<rparr> else s) js s =
   s\<lparr>vm_pmm := fold pmm_free_frame (map frame_of (filter present (map (\<lambda>j. vm_mem s (word_at a j)) js))) (vm_pmm s)\<rparr>"
  by (induction js arbitrary: s) simp_all

lemma free_table_eq: "free_table e s = s\<lparr>vm_pmm := fold pmm_free_frame (entry_frames (vm_mem s) e) (vm_pmm s)\<rparr>"
  unfolding free_table_def entry_frames_def table_frames_def Let_def free_table_frames_fold by simp

lemma free_tables_fold:
  "fold (\<lambda>i s. free_table (vm_mem s (word_at pd i)) s) is s =
   s\<lparr>vm_pmm := fold pmm_free_frame (concat (map (\<lambda>i. entry_frames (vm_mem s) (vm_mem s (word_at pd i))) is)) (vm_pmm s)\<rparr>"
  by (induction "is" arbitrary: s) (simp_all add: free_table_eq)

lemma vmm_free_address_space_eq:
  "vmm_free_address_space pd s = s\<lparr>vm_pmm := fold pmm_free_frame (space_frames (vm_mem s) pd) (vm_pmm s)\<rparr>"
  unfolding vmm_free_address_space_def free_tables_fold space_frames_def Let_def by simp

lemma clear_user: "\<not> bit w 2 \<Longrightarrow> w AND NOT PAGE_USER = w" for w :: u32
proof -
  have "bit (2 ^ 2 :: u32) n \<longleftrightarrow> n = 2" for n unfolding bit_exp_iff by auto
  then have four: "bit (4 :: u32) n \<longleftrightarrow> n = 2" for n by simp
  assume "\<not> bit w 2"
  then show ?thesis
    by (intro bit_eqI) (auto simp only: bit_and_iff bit_not_iff four)
qed

lemma free_frames_used:
  assumes "pmm_inv p" "\<forall>a \<in> set as. aligned a \<and> unat a div 4096 \<notin> pmm_reserved"
  shows "pmm_inv (fold pmm_free_frame as p)
    \<and> pmm_used (fold pmm_free_frame as p) = pmm_used p - (\<lambda>a. unat a div 4096) ` set as"
  using assms
proof (induction "as" arbitrary: p)
  case (Cons a as)
  let ?k = "unat a div 4096"
  have k: "?k < 2 ^ 20" using unat_u32_bound [of a] by simp
  have "aligned a" using Cons.prems by simp
  then have "unat a = ?k * 4096" by (simp add: aligned_unat) (metis add_0_right div_mult_mod_eq)
  moreover have "?k < 1048576" using k by simp
  ultimately have a: "of_nat ?k * 4096 = a"
    using page_number_aligned(1) [of ?k] by (simp add: word_unat_eq_iff)
  have "pmm_inv (pmm_free_frame a p)" "pmm_used (pmm_free_frame a p) = pmm_used p - {?k}"
    using pmm_free_frame_spec [OF Cons.prems(1) _ k] Cons.prems(2) unfolding a by simp_all
  then show ?case using Cons.IH [of "pmm_free_frame a p"] Cons.prems(2) by auto
qed simp

text \<open>The kernel's own tables are in place.\<close>

definition kernel_ok :: "vmm \<Rightarrow> bool" where
  "kernel_ok s = (layout_ok s \<and> pmm_inv (vm_pmm s) \<and> identity_upto IDENTITY_TABLES s (vm_mem s))"

lemma clone_entry_identity:
  assumes "kernel_ok s" "i < 1024"
  shows "clone_entry s i = (if i < IDENTITY_TABLES then page_at (page_tables s) i OR table_flags i else 0)"
proof (cases "i < KERNEL_END_TABLE")
  case True
  let ?w = "page_at (page_tables s) i OR table_flags i"
  have al: "aligned (page_at (page_tables s) i)" using assms True layout_tables(1) by (simp add: kernel_ok_def)
  have "\<not> bit ?w 2" using True by (simp add: low_bits_or [OF al])
  then have "?w AND NOT PAGE_USER = ?w" by (rule clear_user)
  moreover have "vm_mem s (word_at (page_directory s) i) = ?w"
    using assms True by (simp add: kernel_ok_def identity_upto_def)
  ultimately show ?thesis using True unfolding clone_entry_def by (simp only: if_True)
next
  case False
  then show ?thesis using assms by (simp add: clone_entry_def kernel_ok_def identity_upto_def)
qed

lemma create_space:
  assumes k: "kernel_ok s" and c: "vmm_create_address_space s = (pd, t)" "pd \<noteq> 0"
  shows "kernel_ok t" "space_ok pd t" "page_tables t = page_tables s" "aligned pd"
    and "\<forall>i<1024. vm_mem t (word_at pd i) = (if i < IDENTITY_TABLES then page_at (page_tables s) i OR table_flags i else 0)"
    and "space_ok pd' s \<Longrightarrow> mmu_walk (vm_mem t) pd' virt = mmu_walk (vm_mem s) pd' virt \<and> space_ok pd' t \<and> pd' \<noteq> pd
          \<and> (\<forall>i<1024. vm_mem t (word_at pd' i) = vm_mem s (word_at pd' i))"
    and "pmm_used (vm_pmm (vmm_free_address_space pd t)) = pmm_used (vm_pmm s)"
proof -
  obtain q where al: "pmm_alloc_frame (vm_pmm s) = (pd, q)"
    and t: "t = s\<lparr>vm_pmm := q, vm_mem := fill_words pd (clone_entry s) 1024 (vm_mem s)\<rparr>"
    using c by (auto simp: vmm_create_address_space_def split: prod.splits if_splits)
  have l: "layout_ok s" and inv: "pmm_inv (vm_pmm s)" and idm: "identity_upto IDENTITY_TABLES s (vm_mem s)"
    using k by (simp_all add: kernel_ok_def)
  note new = new_frame [OF al c(2) inv]
  have static: "held a (vm_pmm s)" if "unat a < 0x08000000" for a
  proof -
    have "unat a div 4096 < 32768" using that by (simp add: less_mult_imp_div_less)
    then show ?thesis using new(7) by (auto simp: held_def pmm_reserved_def)
  qed
  have mem: "vm_mem t (word_at a i) = (if a = pd then clone_entry s i else vm_mem s (word_at a i))"
    if "aligned a" "i < 1024" for a i
    using that new(1) by (simp add: t fill_words_at)
  have keep: "vm_mem t (word_at a i) = vm_mem s (word_at a i)" if "aligned a" "i < 1024" "held a (vm_pmm s)" for a i
    using mem [OF that(1,2)] new(2) that(3) by auto
  show dir: "\<forall>i<1024. vm_mem t (word_at pd i) = (if i < IDENTITY_TABLES then page_at (page_tables s) i OR table_flags i else 0)"
    using mem [OF new(1)] clone_entry_identity [OF k] by simp
  show "page_tables t = page_tables s" "aligned pd" using new(1) by (simp_all add: t)
  have tabs: "held (page_at (page_tables s) i) (vm_pmm s)" "aligned (page_at (page_tables s) i)" if "i < IDENTITY_TABLES" for i
    using layout_tables [OF l that] static by simp_all
  show "kernel_ok t"
  proof -
    have "aligned (page_directory s)" "held (page_directory s) (vm_pmm s)"
      using l static [of "page_directory s"] by (simp_all add: layout_ok_def)
    then have "identity_upto IDENTITY_TABLES s (vm_mem t)" using idm keep tabs by (simp add: identity_upto_def)
    then show ?thesis using l new(4) layout_cong [of t s] identity_cong [of t s] by (simp add: kernel_ok_def t)
  qed
  have pde: "table_at (vm_mem t) pd i = page_at (page_tables s) i" if "i < IDENTITY_TABLES" for i
    using dir that tabs(2) [OF that] by (simp add: table_at_def frame_of_or)
  show "space_ok pd t"
    unfolding space_ok_def
  proof (intro conjI allI impI, goal_cases)
    case (4 i)
    then have i: "i < IDENTITY_TABLES" using dir by (auto simp: present_bit split: if_splits)
    show ?case unfolding pde [OF i] using new(2) tabs(1) [OF i] by auto
  next
    case (5 i)
    then have i: "i < IDENTITY_TABLES" using dir by (auto simp: present_bit split: if_splits)
    show ?case unfolding pde [OF i] using new(5) [OF tabs(1) [OF i]] by (simp add: t)
  next
    case (6 i j)
    then have "i < IDENTITY_TABLES" "j < IDENTITY_TABLES" using dir by (auto simp: present_bit split: if_splits)
    then show ?case using 6 pde layout_tables(4) [OF l] by simp
  qed (use new in \<open>simp_all add: t\<close>)
  show "mmu_walk (vm_mem t) pd' virt = mmu_walk (vm_mem s) pd' virt \<and> space_ok pd' t \<and> pd' \<noteq> pd
          \<and> (\<forall>i<1024. vm_mem t (word_at pd' i) = vm_mem s (word_at pd' i))" if sp: "space_ok pd' s"
  proof -
    have ne: "pd' \<noteq> pd" using sp new(2) by (auto simp: space_ok_def)
    have a: "aligned pd'" "held pd' (vm_pmm s)" using sp by (simp_all add: space_ok_def)
    have d: "vm_mem t (word_at pd' i) = vm_mem s (word_at pd' i)" if "i < 1024" for i by (rule keep [OF a(1) that a(2)])
    have ta: "table_at (vm_mem t) pd' i = table_at (vm_mem s) pd' i" if "i < 1024" for i using d that by (simp add: table_at_def)
    have "vm_mem t (word_at (table_at (vm_mem s) pd' (dir_idx virt)) (tbl_idx virt)) =
        vm_mem s (word_at (table_at (vm_mem s) pd' (dir_idx virt)) (tbl_idx virt))"
      if "present (vm_mem s (word_at pd' (dir_idx virt)))"
      using sp that by (intro keep) (simp_all add: space_ok_def table_at_def)
    then have "mmu_walk (vm_mem t) pd' virt = mmu_walk (vm_mem s) pd' virt"
      using d ta by (auto simp: walk_unfold present_bit Let_def)
    moreover have "space_ok pd' t"
      using sp d ta new(4,5) unfolding space_ok_def by (simp add: t)
    ultimately show ?thesis using ne d by simp
  qed
  have "space_frames (vm_mem t) pd = [pd]"
    using dir by (simp add: space_frames_def entry_frames_def present_def)
  then show "pmm_used (vm_pmm (vmm_free_address_space pd t)) = pmm_used (vm_pmm s)"
    using free_frames_used [OF new(4), of "[pd]"] new(1,2,6,8) by (simp add: vmm_free_address_space_eq t held_def)
qed

lemma create_walk:
  assumes k: "kernel_ok s" and c: "vmm_create_address_space s = (pd, t)" "pd \<noteq> 0"
  shows "mmu_walk (vm_mem t) pd virt = (if virt < 0x40000000 then Some (virt, 0x05000000 \<le> virt, True) else None)"
proof -
  note cs = create_space [OF k c]
  have "layout_ok t" "identity_upto IDENTITY_TABLES t (vm_mem t)" using cs(1) by (simp_all add: kernel_ok_def)
  then show ?thesis using cs(3,5) by (intro identity_walk [of t]) (simp_all add: identity_upto_def)
qed

text \<open>A directory whose entry for a page of the identity map is the kernel's.\<close>

lemma walk_shared_table:
  assumes "layout_ok s" "d = dir_idx virt" "d < IDENTITY_TABLES"
    and "m (word_at dir d) = page_at (page_tables s) d OR table_flags d"
    and "m (word_at (page_at (page_tables s) d) (tbl_idx virt)) = make_entry phys flags"
  shows "mmu_walk m dir virt = Some (frame_of phys OR (virt AND 0xFFF), 0x05000000 \<le> virt \<and> bit flags 2, bit flags 1)"
proof -
  have al: "aligned (page_at (page_tables s) d)" by (rule layout_tables(1) [OF assms(1,3)])
  have kern: "d < 20 \<longleftrightarrow> \<not> 0x05000000 \<le> virt" unfolding assms(2) dir_idx_eq word_le_nat_alt by auto
  have "table_at m dir d = page_at (page_tables s) d" unfolding table_at_def assms(4) by (rule frame_of_or [OF al]) simp
  moreover have "bit (make_entry phys flags) 0" using make_entry_simps(2) by (simp add: present_bit)
  moreover have "bit (page_at (page_tables s) d OR table_flags d) n \<longleftrightarrow> bit (table_flags d) n" if "n < 12" for n
    using low_bits_or [OF al that] .
  ultimately show ?thesis using assms(3-5) kern by (simp add: walk_unfold Let_def flip: assms(2))
qed

text \<open>A kernel with 256 MiB of memory, just initialised.\<close>

definition example_vmm :: vmm where
  "example_vmm = vmm_init \<lparr>vm_mem = \<lambda>_. 0, vm_pmm = pmm_init 0x10000000, page_directory = 0x00300000,
     page_tables = 0x00400000, extra_tables = 0x00600000, extra_used = 0, paging_enabled = False,
     current_page_directory = 0, vm_cr3 = 0\<rparr>"

lemma example_layout:
  "layout_ok \<lparr>vm_mem = \<lambda>_. 0, vm_pmm = pmm_init 0x10000000, page_directory = 0x00300000,
     page_tables = 0x00400000, extra_tables = 0x00600000, extra_used = 0, paging_enabled = False,
     current_page_directory = 0, vm_cr3 = 0\<rparr>" (is "layout_ok ?s")
proof -
  have p: "unat (page_at 0x00400000 t) = 0x00400000 + 4096 * t" if "t < 256" for t
    using page_at_unat [of "0x00400000" 256 t] that by simp
  have x: "unat (page_at 0x00600000 t) = 0x00600000 + 4096 * t" if "t < 8" for t
    using page_at_unat [of "0x00600000" 8 t] that by simp
  have "page_at 0x00400000 t \<noteq> 0x00300000" if "t < 256" for t using p [OF that] by auto
  moreover have "page_at 0x00600000 t \<noteq> 0x00300000" if "t < 8" for t using x [OF that] by auto
  moreover have "page_at 0x00400000 t \<noteq> page_at 0x00600000 u" if "t < 256" "u < 8" for t u
    using p [OF that(1)] x [OF that(2)] that by auto
  ultimately show ?thesis by (simp add: layout_ok_def aligned_def)
qed

lemma example_kernel: "kernel_ok example_vmm"
  unfolding example_vmm_def kernel_ok_def
  using vmm_init_identity [OF example_layout] example_layout pmm_init_inv [of "0x10000000"]
  by (simp add: vmm_init_def Let_def layout_ok_def identity_upto_def)

lemma alloc_succeeds:
  assumes "pmm_inv p" "card (pmm_used p) < pmm_cap p"
  obtains a q where "pmm_alloc_frame p = (a, q)" "a \<noteq> 0" "pmm_inv q" "card (pmm_used q) = Suc (card (pmm_used p))"
    "pmm_cap q = pmm_cap p"
  using assms(1)
proof (cases rule: pmm_alloc_frame_cases)
  case full
  then show thesis using assms(2) by simp
next
  case (ok f t)
  then show thesis using frame_addr_nonzero [of f] that [of "of_nat f * 4096" t] by simp
qed

lemma example_space_create:
  obtains pd t where "vmm_create_address_space example_vmm = (pd, t)" "pd \<noteq> 0"
    "pmm_inv (vm_pmm t)" "card (pmm_used (vm_pmm t)) < pmm_cap (vm_pmm t)"
proof -
  have p: "vm_pmm example_vmm = pmm_init 0x10000000" by (simp add: example_vmm_def vmm_init_def Let_def)
  have "card (pmm_used (pmm_init 0x10000000)) \<le> 32768"
    using card_nat_bound(1) [of "pmm_used (pmm_init 0x10000000)" 32768] by (simp add: pmm_init_used pmm_reserved_def)
  moreover have c: "pmm_cap (pmm_init 0x10000000) = 65536" by (simp add: pmm_init_frames)
  ultimately have "card (pmm_used (pmm_init 0x10000000)) < pmm_cap (pmm_init 0x10000000)" by simp
  then obtain a q where "pmm_alloc_frame (pmm_init 0x10000000) = (a, q)" "a \<noteq> 0" "pmm_inv q"
      "card (pmm_used q) = Suc (card (pmm_used (pmm_init 0x10000000)))" "pmm_cap q = pmm_cap (pmm_init 0x10000000)"
    using alloc_succeeds [OF pmm_init_inv] by blast
  then show thesis
    using that p c \<open>card (pmm_used (pmm_init 0x10000000)) \<le> 32768\<close> by (simp add: vmm_create_address_space_def)
qed

text \<open>Two new spaces have the kernel's tables in common, but not their directories.\<close>

lemma created_apart:
  assumes "kernel_ok s" "vmm_create_address_space s = (a, t)" "a \<noteq> 0" "vmm_create_address_space t = (b, u)" "b \<noteq> 0"
  shows "a \<notin> space_pages b u"
proof -
  note A = create_space [OF assms(1-3)] and B = create_space [OF create_space(1) [OF assms(1-3)] assms(4,5)]
  have sa: "space_ok a u" "a \<noteq> b" using B(6) [OF A(2)] by simp_all
  have "table_at (vm_mem u) b i \<noteq> a" if i: "i < 1024" "present (vm_mem u (word_at b i))" for i
  proof -
    have lo: "i < IDENTITY_TABLES" using i B(5) by (cases "i < IDENTITY_TABLES") (simp_all add: present_def)
    have e: "vm_mem u (word_at b i) = vm_mem u (word_at a i)" using i(1) lo B(5) B(6) [OF A(2)] A(3,5) by simp
    then have "table_at (vm_mem u) a i \<noteq> a" using sa(1) i by (simp add: space_ok_def)
    then show ?thesis using e by (simp add: table_at_def)
  qed
  then show ?thesis using sa(2) by (auto simp: space_pages_def)
qed

section \<open>Properties\<close>

text \<open>
  C32: after \<^verbatim>\<open>vmm_init\<close> the processor translates every address of the first gigabyte to itself,
  writable, and open to user code exactly from 80 MiB on; no other address is mapped.
\<close>

theorem vmm_init_protects_kernel:
  assumes "layout_ok s"
  shows "mmu_walk (vm_mem (vmm_init s)) (vm_cr3 (vmm_init s)) virt =
    (if virt < 0x40000000 then Some (virt, 0x05000000 \<le> virt, True) else None)"
proof -
  have "vm_cr3 (vmm_init s) = page_directory s" by (simp add: vmm_init_def Let_def)
  then show ?thesis
    using identity_walk [OF assms, of "vm_mem (vmm_init s)" "page_directory s"] vmm_init_identity [OF assms]
    by (simp add: identity_upto_def)
qed

text \<open>
  C31: mapping a page in an address space makes the processor translate exactly that page to the
  given frame, with the given user and write permissions as far as the directory entry allows
  them (a new table allows both), leaves every other translation of that space as it was, and keeps
  its tables apart. It does nothing when a table is needed and memory is exhausted. A second
  well-formed space keeps all its translations when neither the directory of the first nor the
  table that is written is among its pages; spaces that share the table see the new page too
  (\<open>vmm_map_page_in_shared\<close>).
\<close>

theorem vmm_map_page_in_correct:
  assumes "space_ok pd s"
  shows "let t = vmm_map_page_in pd virt phys flags s; pde = vm_mem s (word_at pd (dir_idx virt))
    in space_ok pd t
     \<and> (if present pde \<or> fst (pmm_alloc_frame (vm_pmm s)) \<noteq> 0
        then mmu_walk (vm_mem t) pd va =
          (if unat va div 4096 = unat virt div 4096
           then Some (frame_of phys OR (va AND 0xFFF), (present pde \<longrightarrow> bit pde 2) \<and> bit flags 2,
                      (present pde \<longrightarrow> bit pde 1) \<and> bit flags 1)
           else mmu_walk (vm_mem s) pd va)
        else t = s)
     \<and> (space_ok pd' s \<and> pd \<notin> space_pages pd' s \<and> (present pde \<longrightarrow> frame_of pde \<notin> space_pages pd' s)
        \<longrightarrow> mmu_walk (vm_mem t) pd' va = mmu_walk (vm_mem s) pd' va)"
  unfolding Let_def using map_page_in_spec [OF assms] map_page_in_others [OF assms, of pd' virt] by (simp add: table_at_def)

text \<open>
  C13: a new address space maps the first gigabyte to itself with the kernel's 80 MiB closed to user
  code and nothing else; its directory is a fresh page, so every other well-formed space keeps
  its translations; freeing it right away gives back exactly the memory it took.
\<close>

theorem vmm_create_address_space_correct:
  assumes "kernel_ok s" "vmm_create_address_space s = (pd, t)" "pd \<noteq> 0"
  shows "mmu_walk (vm_mem t) pd virt = (if virt < 0x40000000 then Some (virt, 0x05000000 \<le> virt, True) else None)
    \<and> (space_ok pd' s \<longrightarrow> pd' \<noteq> pd \<and> mmu_walk (vm_mem t) pd' virt = mmu_walk (vm_mem s) pd' virt)
    \<and> kernel_ok t \<and> space_ok pd t
    \<and> pmm_used (vm_pmm (vmm_free_address_space pd t)) = pmm_used (vm_pmm s)"
  using create_walk [OF assms] create_space [OF assms] by simp

text \<open>
  address spaces are not isolated below one gigabyte. All of them point to the kernel's own page
  tables there, so mapping a page of that range in one space, as \<^verbatim>\<open>fork\<close> does for the child's copy
  of the program, maps it in every other space and in the kernel's directory as well.
\<close>

theorem vmm_map_page_in_shared:
  assumes "kernel_ok s" "vmm_create_address_space s = (a, t)" "a \<noteq> 0"
    and "vmm_create_address_space t = (b, u)" "b \<noteq> 0" "virt < 0x40000000"
  shows "a \<noteq> b \<and> (\<forall>dir \<in> {b, page_directory u}.
    mmu_walk (vm_mem (vmm_map_page_in a virt phys flags u)) dir virt
      = Some (frame_of phys OR (virt AND 0xFFF), 0x05000000 \<le> virt \<and> bit flags 2, bit flags 1))"
proof -
  note A = create_space [OF assms(1-3)]
  note B = create_space [OF A(1) assms(4,5)]
  let ?d = "dir_idx virt" and ?v = "vmm_map_page_in a virt phys flags u"
  have d: "?d < IDENTITY_TABLES" using assms(6) unfolding dir_idx_eq word_less_nat_alt by auto
  have lay: "layout_ok u" and idm: "identity_upto IDENTITY_TABLES u (vm_mem u)" using B(1) by (simp_all add: kernel_ok_def)
  have sa: "space_ok a u" "a \<noteq> b" using B(6) [OF A(2)] by simp_all
  let ?t = "page_at (page_tables u) ?d"
  have al: "aligned ?t" "?t \<noteq> page_directory u" using layout_tables [OF lay d] by simp_all
  have ea: "vm_mem u (word_at a ?d) = ?t OR table_flags ?d" using B(6) [OF A(2)] A(3,5) B(3) d by simp
  have eb: "vm_mem u (word_at b ?d) = ?t OR table_flags ?d" using B(5,3) d by simp
  have ek: "vm_mem u (word_at (page_directory u) ?d) = ?t OR table_flags ?d" using idm d by (simp add: identity_upto_def)
  have "present (vm_mem u (word_at a ?d))" unfolding ea present_bit by (simp add: low_bits_or [OF al(1)])
  from map_page_in_present [OF this] have v: "vm_mem ?v = (vm_mem u)(word_at ?t (tbl_idx virt) := make_entry phys flags)"
    by (simp add: table_at_def ea frame_of_or [OF al(1)])
  have keep: "vm_mem ?v (word_at dir ?d) = ?t OR table_flags ?d" if "dir \<in> {b, page_directory u}" for dir
  proof -
    have "aligned dir" using that B(4) lay by (auto simp: layout_ok_def)
    moreover have "dir \<noteq> ?t" using that al(2) space_table_apart [OF B(2) dir_idx_less eb al(1)] by auto
    ultimately show ?thesis using that eb ek al(1) by (auto simp: v word_at_eq)
  qed
  show ?thesis using sa(2) walk_shared_table [OF lay refl d] keep by (auto simp: v)
qed

theorem vmm_init_protects_kernel_witness:
  "mmu_walk (vm_mem example_vmm) (vm_cr3 example_vmm) 0x00100000 = Some (0x00100000, False, True)"
  unfolding example_vmm_def using vmm_init_protects_kernel [OF example_layout, of "0x00100000"] by simp

theorem vmm_map_page_in_correct_witness:
  "\<exists>a b u. a \<noteq> b \<and> space_ok a (vmm_map_page_in a 0x50000000 0x09000000 7 u)
     \<and> mmu_walk (vm_mem (vmm_map_page_in a 0x50000000 0x09000000 7 u)) b 0x50000000 = None"
proof -
  obtain a t where c: "vmm_create_address_space example_vmm = (a, t)" "a \<noteq> 0"
    and p: "pmm_inv (vm_pmm t)" "card (pmm_used (vm_pmm t)) < pmm_cap (vm_pmm t)" by (rule example_space_create)
  obtain b q where "pmm_alloc_frame (vm_pmm t) = (b, q)" "b \<noteq> 0" using alloc_succeeds [OF p] by blast
  then obtain u where d: "vmm_create_address_space t = (b, u)" "b \<noteq> 0" by (simp add: vmm_create_address_space_def)
  note A = create_space [OF example_kernel c] and B = create_space [OF A(1) d]
  have a: "space_ok a u" "a \<noteq> b" using B(6) [OF A(2)] by simp_all
  have "dir_idx 0x50000000 = 320" by (simp add: dir_idx_eq)
  then have no: "\<not> present (vm_mem u (word_at a (dir_idx 0x50000000)))" using B(6) [OF A(2)] A(5) by (simp add: present_def)
  have "mmu_walk (vm_mem u) b 0x50000000 = None" using create_walk [OF A(1) d, of "0x50000000"] by simp
  moreover note created_apart [OF example_kernel c d]
  ultimately show ?thesis
    using vmm_map_page_in_correct [OF a(1), of "0x50000000" "0x09000000" 7 _ b] a(2) B(2) no unfolding Let_def by metis
qed

theorem vmm_create_address_space_correct_witness:
  "\<exists>pd t. vmm_create_address_space example_vmm = (pd, t) \<and> mmu_walk (vm_mem t) pd 0x08048000 = Some (0x08048000, True, True)"
proof -
  obtain pd t where c: "vmm_create_address_space example_vmm = (pd, t)" "pd \<noteq> 0" by (rule example_space_create)
  show ?thesis using vmm_create_address_space_correct [OF example_kernel c, of "0x08048000"] c(1) by auto
qed

theorem vmm_map_page_in_shared_witness:
  "\<exists>a b u. a \<noteq> b \<and> mmu_walk (vm_mem (vmm_map_page_in a 0x08048000 0x09000000 7 u)) b 0x08048000 = Some (0x09000000, True, True)"
proof -
  obtain a t where c: "vmm_create_address_space example_vmm = (a, t)" "a \<noteq> 0"
    and p: "pmm_inv (vm_pmm t)" "card (pmm_used (vm_pmm t)) < pmm_cap (vm_pmm t)" by (rule example_space_create)
  obtain b q where "pmm_alloc_frame (vm_pmm t) = (b, q)" "b \<noteq> 0" using alloc_succeeds [OF p] by blast
  then obtain u where d: "vmm_create_address_space t = (b, u)" "b \<noteq> 0" by (simp add: vmm_create_address_space_def)
  have "a \<noteq> b \<and> mmu_walk (vm_mem (vmm_map_page_in a 0x08048000 0x09000000 7 u)) b 0x08048000
      = Some (frame_of 0x09000000 OR (0x08048000 AND 0xFFF), 0x05000000 \<le> (0x08048000 :: u32) \<and> bit (7 :: u32) 2, bit (7 :: u32) 1)"
    using vmm_map_page_in_shared [OF example_kernel c d, of "0x08048000" "0x09000000" 7] by simp
  moreover have "frame_of 0x09000000 = 0x09000000" by (rule frame_of_aligned) (simp add: aligned_def)
  moreover have "bit (7 :: u32) 2" "bit (7 :: u32) 1" using flag_bit [of 7] by simp_all
  ultimately show ?thesis by (intro exI [of _ a] exI [of _ b] exI [of _ u]) simp
qed

end
