(* ===== verification/Pipe.thy ===== *)
theory Pipe
  imports Prelude
begin

text \<open>
  In-memory pipes, \<^verbatim>\<open>fs/pipe.c\<close>: a table of 16 ring buffers of 4096 bytes, addressed
  by file descriptors from 100 on (even: read end, odd: write end). A read or write that cannot
  proceed calls \<^verbatim>\<open>schedule()\<close> inside its loop; the model stops there with the outcome
  \<open>Io_blocked\<close>, which carries the progress made so far, and the interleaving of
  readers and writers is a step relation over these partial runs. Access to
  \<^verbatim>\<open>pipe_used[]\<close> outside the table is the value \<open>None\<close>.
\<close>

section \<open>State\<close>

abbreviation PIPE_BUF_SIZE :: nat where "PIPE_BUF_SIZE \<equiv> 4096"
abbreviation PIPE_MAX_OPEN :: nat where "PIPE_MAX_OPEN \<equiv> 16"
abbreviation PIPE_FD_BASE :: int where "PIPE_FD_BASE \<equiv> 100"
abbreviation PIPE_FD_STRIDE :: int where "PIPE_FD_STRIDE \<equiv> 2"

record pipe_t =
  p_buf :: "u8 list"
  p_head :: u32
  p_tail :: u32
  p_used :: u32
  p_write_closed :: bool
  p_read_closed :: bool
  p_refcount :: int

datatype fd_type = FD_TYPE_VFS | FD_TYPE_PIPE_R | FD_TYPE_PIPE_W

record pipe_table =
  pipes :: "pipe_t list"
  pipe_used :: "bool list"

definition zero_pipe :: pipe_t where
  "zero_pipe = \<lparr>p_buf = replicate PIPE_BUF_SIZE 0, p_head = 0, p_tail = 0, p_used = 0,
     p_write_closed = False, p_read_closed = False, p_refcount = 0\<rparr>"

section \<open>Operations\<close>

definition pipe_init :: pipe_table where
  "pipe_init = \<lparr>pipes = replicate PIPE_MAX_OPEN zero_pipe, pipe_used = replicate PIPE_MAX_OPEN False\<rparr>"

definition fd_to_slot :: "int \<Rightarrow> int" where
  "fd_to_slot fd = (if fd < PIPE_FD_BASE then -1 else (fd - PIPE_FD_BASE) div PIPE_FD_STRIDE)"

definition pipe_is_pipe :: "int \<Rightarrow> pipe_table \<Rightarrow> bool" where
  "pipe_is_pipe fd t =
     (if fd < PIPE_FD_BASE then False
      else let slot = fd_to_slot fd
           in if slot < 0 \<or> slot \<ge> int PIPE_MAX_OPEN then False else pipe_used t ! nat slot)"

definition pipe_fd_type :: "int \<Rightarrow> pipe_table \<Rightarrow> fd_type" where
  "pipe_fd_type fd t =
     (if \<not> pipe_is_pipe fd t then FD_TYPE_VFS
      else if (fd - PIPE_FD_BASE) mod PIPE_FD_STRIDE = 0 then FD_TYPE_PIPE_R else FD_TYPE_PIPE_W)"

text \<open>The descriptors are an out-parameter, written only when the call succeeds.\<close>

definition pipe_create :: "pipe_table \<Rightarrow> int \<times> (int \<times> int) option \<times> pipe_table" where
  "pipe_create t =
     (case first_index (\<lambda>i. \<not> pipe_used t ! i) 0 PIPE_MAX_OPEN of
        None \<Rightarrow> (-1, None, t)
      | Some slot \<Rightarrow>
          (0, Some (PIPE_FD_BASE + int slot * PIPE_FD_STRIDE, PIPE_FD_BASE + int slot * PIPE_FD_STRIDE + 1),
           \<lparr>pipes = (pipes t)[slot := zero_pipe\<lparr>p_refcount := 2\<rparr>], pipe_used = (pipe_used t)[slot := True]\<rparr>))"

text \<open>The inner \<^verbatim>\<open>for\<close> loops: one byte out of, or into, the ring per iteration.\<close>

fun ring_get :: "nat \<Rightarrow> pipe_t \<Rightarrow> u8 list \<times> pipe_t" where
  "ring_get 0 p = ([], p)"
| "ring_get (Suc n) p =
     (let b = p_buf p ! unat (p_head p);
          p' = p\<lparr>p_head := (p_head p + 1) AND 4095, p_used := p_used p - 1\<rparr>
      in case ring_get n p' of (bs, p'') \<Rightarrow> (b # bs, p''))"

fun ring_put :: "u8 list \<Rightarrow> pipe_t \<Rightarrow> pipe_t" where
  "ring_put [] p = p"
| "ring_put (b # bs) p =
     ring_put bs (p\<lparr>p_buf := (p_buf p)[unat (p_tail p) := b],
                    p_tail := (p_tail p + 1) AND 4095, p_used := p_used p + 1\<rparr>)"

lemma ring_get_length: "ring_get n p = (bs, p') \<Longrightarrow> length bs = n"
  by (induction n arbitrary: p bs p') (auto simp: Let_def split: prod.splits)

datatype io_outcome =
    Io_done int "u8 list"     \<comment> \<open>return value and the bytes moved\<close>
  | Io_blocked "u8 list"      \<comment> \<open>the loop called \<^verbatim>\<open>schedule()\<close>; the bytes moved so far\<close>

text \<open>The loop of \<^verbatim>\<open>pipe_read\<close> up to its end or to its next call of \<^verbatim>\<open>schedule()\<close>.\<close>

function pipe_read_loop :: "nat \<Rightarrow> u8 list \<Rightarrow> pipe_t \<Rightarrow> io_outcome \<times> pipe_t" where
  "pipe_read_loop len dst p =
     (if length dst < len
      then if p_used p = 0
           then if p_write_closed p then (Io_done (int (length dst)) dst, p) else (Io_blocked dst, p)
           else (case ring_get (min (unat (p_used p)) (len - length dst)) p of
                   (bs, p') \<Rightarrow> pipe_read_loop len (dst @ bs) p')
      else (Io_done (int (length dst)) dst, p))"
  by pat_completeness auto
termination
proof (relation "measure (\<lambda>(len, dst, p). len - length dst)", goal_cases)
  case (2 len dst p bs p')
  then have "length bs = min (unat (p_used p)) (len - length dst)" by (metis ring_get_length)
  moreover have "0 < unat (p_used p)" using 2 by (simp add: unat_gt_0)
  ultimately show ?case using 2 by (auto simp: min_def)
qed simp

definition pipe_read :: "int \<Rightarrow> nat \<Rightarrow> pipe_table \<Rightarrow> (io_outcome \<times> pipe_table) option" where
  "pipe_read fd len t =
     (let slot = fd_to_slot fd
      in if slot < 0 then Some (Io_done (-1) [], t)
         else if nat slot \<ge> PIPE_MAX_OPEN then None
         else if \<not> pipe_used t ! nat slot then Some (Io_done (-1) [], t)
         else if pipe_fd_type fd t \<noteq> FD_TYPE_PIPE_R then Some (Io_done (-1) [], t)
         else (case pipe_read_loop len [] (pipes t ! nat slot) of
                 (r, p) \<Rightarrow> Some (r, t\<lparr>pipes := (pipes t)[nat slot := p]\<rparr>)))"

text \<open>The loop of \<^verbatim>\<open>pipe_write\<close>; \<open>src\<close> is what is still to be sent.\<close>

function pipe_write_loop :: "u8 list \<Rightarrow> u8 list \<Rightarrow> pipe_t \<Rightarrow> io_outcome \<times> pipe_t" where
  "pipe_write_loop sent src p =
     (if src \<noteq> []
      then if p_used p = 4096
           then if p_read_closed p then (Io_done (int (length sent)) sent, p) else (Io_blocked sent, p)
           else (let chunk = min (length src) (unat (4096 - p_used p))
                 in pipe_write_loop (sent @ take chunk src) (drop chunk src) (ring_put (take chunk src) p))
      else (Io_done (int (length sent)) sent, p))"
  by pat_completeness auto
termination
  by (relation "measure (\<lambda>(sent, src, p). length src)") (auto simp: unat_gt_0)

definition pipe_write :: "int \<Rightarrow> u8 list \<Rightarrow> pipe_table \<Rightarrow> (io_outcome \<times> pipe_table) option" where
  "pipe_write fd src t =
     (let slot = fd_to_slot fd
      in if slot < 0 then Some (Io_done (-1) [], t)
         else if nat slot \<ge> PIPE_MAX_OPEN then None
         else if \<not> pipe_used t ! nat slot then Some (Io_done (-1) [], t)
         else if pipe_fd_type fd t \<noteq> FD_TYPE_PIPE_W then Some (Io_done (-1) [], t)
         else if p_read_closed (pipes t ! nat slot) then Some (Io_done (-1) [], t)
         else (case pipe_write_loop [] src (pipes t ! nat slot) of
                 (r, p) \<Rightarrow> Some (r, t\<lparr>pipes := (pipes t)[nat slot := p]\<rparr>)))"

definition pipe_close :: "int \<Rightarrow> pipe_table \<Rightarrow> pipe_table option" where
  "pipe_close fd t =
     (let slot = fd_to_slot fd
      in if slot < 0 then Some t
         else if nat slot \<ge> PIPE_MAX_OPEN then None
         else if \<not> pipe_used t ! nat slot then Some t
         else let p = pipes t ! nat slot;
                  p = (if pipe_fd_type fd t = FD_TYPE_PIPE_R then p\<lparr>p_read_closed := True\<rparr>
                       else p\<lparr>p_write_closed := True\<rparr>);
                  p = p\<lparr>p_refcount := p_refcount p - 1\<rparr>
              in if p_refcount p \<le> 0
                 then Some \<lparr>pipes = (pipes t)[nat slot := zero_pipe], pipe_used = (pipe_used t)[nat slot := False]\<rparr>
                 else Some (t\<lparr>pipes := (pipes t)[nat slot := p]\<rparr>))"

section \<open>Abstraction and invariant\<close>

definition ring_contents :: "pipe_t \<Rightarrow> u8 list" where
  "ring_contents p = map (\<lambda>i. p_buf p ! ((unat (p_head p) + i) mod 4096)) [0..<unat (p_used p)]"

definition ring_inv :: "pipe_t \<Rightarrow> bool" where
  "ring_inv p \<longleftrightarrow> length (p_buf p) = PIPE_BUF_SIZE \<and> unat (p_head p) < 4096
     \<and> unat (p_used p) \<le> PIPE_BUF_SIZE \<and> unat (p_tail p) = (unat (p_head p) + unat (p_used p)) mod 4096"

definition table_inv :: "pipe_table \<Rightarrow> bool" where
  "table_inv t \<longleftrightarrow> length (pipes t) = PIPE_MAX_OPEN \<and> length (pipe_used t) = PIPE_MAX_OPEN
     \<and> (\<forall>k < PIPE_MAX_OPEN. ring_inv (pipes t ! k))
     \<and> (\<forall>k < PIPE_MAX_OPEN. pipe_used t ! k \<longrightarrow> p_refcount (pipes t ! k) \<in> {1, 2})"

section \<open>The ring is a bounded queue\<close>

definition ring_put1 :: "u8 \<Rightarrow> pipe_t \<Rightarrow> pipe_t" where
  "ring_put1 b p = ring_put [b] p"

definition ring_get1 :: "pipe_t \<Rightarrow> u8 \<times> pipe_t" where
  "ring_get1 p = (case ring_get 1 p of (bs, p') \<Rightarrow> (hd bs, p'))"

lemma and_4095: "unat (w AND 4095 :: u32) = unat w mod 4096"
proof -
  have "w AND 4095 = take_bit 12 w" by (simp add: take_bit_eq_mask mask_eq_exp_minus_1)
  then have "w AND 4095 = w mod 4096" by (simp add: take_bit_eq_mod)
  then show ?thesis by (simp add: unat_mod)
qed

lemma succ_and_4095: "unat w < 4096 \<Longrightarrow> unat ((w + 1) AND 4095 :: u32) = (unat w + 1) mod 4096"
  by (simp add: and_4095 unat_word_ariths)

lemma length_ring_contents [simp]: "length (ring_contents p) = unat (p_used p)"
  by (simp add: ring_contents_def)

lemma ring_put1_contents:
  assumes inv: "ring_inv p" and room: "unat (p_used p) < PIPE_BUF_SIZE"
  shows "ring_contents (ring_put1 b p) = ring_contents p @ [b]" and "ring_inv (ring_put1 b p)"
proof -
  let ?h = "unat (p_head p)" and ?u = "unat (p_used p)" and ?t = "unat (p_tail p)"
  let ?p = "ring_put1 b p"
  have t: "?t = (?h + ?u) mod 4096" "?t < 4096" using inv by (auto simp: ring_inv_def)
  have u: "unat (p_used p + 1) = Suc ?u" using room by (simp add: unat_word_ariths)
  have f: "p_buf ?p = (p_buf p)[?t := b]" "p_head ?p = p_head p" "unat (p_used ?p) = Suc ?u"
    "unat (p_tail ?p) = (?t + 1) mod 4096"
    using u t succ_and_4095 [of "p_tail p"] by (simp_all add: ring_put1_def)
  have ne: "?t \<noteq> (?h + i) mod 4096" if "i < ?u" for i
  proof
    assume "?t = (?h + i) mod 4096"
    then have "(?h + i) mod 4096 = (?h + ?u) mod 4096" using t by simp
    then have "(4096 :: nat) dvd ?u - i" using that mod_eq_dvd_iff_nat [of "?h + i" "?h + ?u" 4096] by simp
    then have "4096 \<le> ?u - i" using that by (simp add: dvd_imp_le)
    with room show False by simp
  qed
  have len: "?t < length (p_buf p)" using inv t by (simp add: ring_inv_def)
  have old: "map (\<lambda>i. (p_buf p)[?t := b] ! ((?h + i) mod 4096)) [0..<?u] = ring_contents p"
    unfolding ring_contents_def using ne by (intro map_cong) auto
  show "ring_contents ?p = ring_contents p @ [b]"
    using old len t by (simp add: ring_contents_def f)
  have "(?t + 1) mod 4096 = (?h + Suc ?u) mod 4096" using t(1) by (simp add: mod_Suc_eq)
  then show "ring_inv ?p" using inv f room by (simp add: ring_inv_def)
qed

lemma ring_get1_contents:
  assumes inv: "ring_inv p" and ne: "ring_contents p \<noteq> []"
  shows "ring_contents p = fst (ring_get1 p) # ring_contents (snd (ring_get1 p))"
    and "ring_inv (snd (ring_get1 p))"
proof -
  let ?h = "unat (p_head p)" and ?u = "unat (p_used p)"
  have u: "0 < ?u" using ne by (metis length_0_conv length_ring_contents neq0_conv)
  have h: "?h < 4096" using inv by (simp add: ring_inv_def)
  let ?q = "snd (ring_get1 p)"
  have f: "p_buf ?q = p_buf p" "p_tail ?q = p_tail p" "unat (p_head ?q) = (?h + 1) mod 4096"
    "unat (p_used ?q) = ?u - 1" "fst (ring_get1 p) = p_buf p ! ?h"
    using h u succ_and_4095 [of "p_head p"]
    by (auto simp: ring_get1_def Let_def unat_minus_one unat_gt_0)
  have idx: "(Suc ?h mod 4096 + i) mod 4096 = Suc (?h + i) mod 4096" for i
    by (metis add_Suc mod_add_left_eq)
  have "[0..<?u] = 0 # map Suc [0..<?u - 1]"
    using u by (metis Suc_diff_1 map_Suc_upt upt_conv_Cons)
  then show "ring_contents p = fst (ring_get1 p) # ring_contents ?q"
    using h by (simp add: ring_contents_def f idx comp_def)
  have "(Suc ?h mod 4096 + (?u - 1)) mod 4096 = (?h + ?u) mod 4096"
    using u idx [of "?u - 1"] by simp
  moreover have "?u - 1 \<le> 4096" using inv unfolding ring_inv_def by linarith
  ultimately show "ring_inv ?q" using inv f by (simp add: ring_inv_def)
qed

interpretation ring: bounded_queue ring_inv ring_contents PIPE_BUF_SIZE ring_put1 ring_get1
proof
  fix q :: pipe_t and x
  assume inv: "ring_inv q"
  show "length (ring_contents q) \<le> PIPE_BUF_SIZE" using inv by (simp add: ring_inv_def)
  show "ring_contents (ring_put1 x q) = ring_contents q @ [x]" "ring_inv (ring_put1 x q)"
    if "length (ring_contents q) < PIPE_BUF_SIZE"
    using ring_put1_contents [OF inv] that by simp_all
  show "ring_contents q = fst (ring_get1 q) # ring_contents (snd (ring_get1 q))"
    "ring_inv (snd (ring_get1 q))" if "ring_contents q \<noteq> []"
    using ring_get1_contents [OF inv that] .
qed


section \<open>The loops move runs of bytes\<close>

lemma ring_put_fold: "ring_put bs p = fold ring_put1 bs p"
  by (induction bs arbitrary: p) (simp_all add: ring_put1_def)

lemma ring_put_frame [simp]:
  "p_write_closed (ring_put bs p) = p_write_closed p" "p_read_closed (ring_put bs p) = p_read_closed p"
  "p_refcount (ring_put bs p) = p_refcount p"
  by (induction bs arbitrary: p) simp_all

lemma ring_put_contents:
  assumes "ring_inv p" "unat (p_used p) + length bs \<le> PIPE_BUF_SIZE"
  shows "ring_inv (ring_put bs p)" and "ring_contents (ring_put bs p) = ring_contents p @ bs"
  using ring.put_many [of p bs] assms by (simp_all add: ring_put_fold)

lemma ring_get_frame:
  "ring_get n p = (bs, p') \<Longrightarrow> p_write_closed p' = p_write_closed p \<and> p_read_closed p' = p_read_closed p
     \<and> p_refcount p' = p_refcount p"
  by (induction n arbitrary: p bs p') (auto simp: Let_def split: prod.splits)

lemma ring_get_Suc_get1:
  "ring_get (Suc n) p = (case ring_get1 p of (b, q) \<Rightarrow> case ring_get n q of (bs, p') \<Rightarrow> (b # bs, p'))"
  by (simp add: ring_get1_def Let_def)

lemma ring_get_contents:
  assumes "ring_inv p" "n \<le> unat (p_used p)" "ring_get n p = (bs, p')"
  shows "ring_inv p' \<and> bs = take n (ring_contents p) \<and> ring_contents p' = drop n (ring_contents p)"
  using assms
proof (induction n arbitrary: p bs p')
  case 0
  then show ?case by simp
next
  case (Suc n)
  obtain b q where q: "ring_get1 p = (b, q)" by (cases "ring_get1 p")
  obtain cs where cs: "ring_get n q = (cs, p')" "bs = b # cs"
    using Suc.prems(3) q by (auto simp: ring_get_Suc_get1 simp del: ring_get.simps split: prod.splits)
  have "ring_contents p \<noteq> []" using Suc.prems(2) by (metis length_ring_contents list.size(3) not_less_eq_eq zero_le)
  from ring_get1_contents [OF Suc.prems(1) this] q
  have c: "ring_contents p = b # ring_contents q" "ring_inv q" by auto
  have "n \<le> unat (p_used q)"
    using Suc.prems(2) c(1) length_ring_contents [of p] length_ring_contents [of q] by simp
  from Suc.IH [OF c(2) this cs(1)] c cs show ?case by simp
qed

text \<open>The outcome of a loop that moved \<open>bs\<close>, with \<open>fin\<close> telling whether it came to its end.\<close>

definition io_result :: "bool \<Rightarrow> u8 list \<Rightarrow> io_outcome" where
  "io_result fin bs = (if fin then Io_done (int (length bs)) bs else Io_blocked bs)"

declare pipe_read_loop.simps [simp del] pipe_write_loop.simps [simp del]

lemma pipe_read_loop_spec:
  assumes "ring_inv p" "length dst \<le> len" "pipe_read_loop len dst p = (r, p')"
  shows "ring_inv p' \<and> ring_contents p' = drop (len - length dst) (ring_contents p)
     \<and> r = io_result (p_write_closed p \<or> len - length dst \<le> unat (p_used p))
              (dst @ take (len - length dst) (ring_contents p))
     \<and> p_write_closed p' = p_write_closed p \<and> p_read_closed p' = p_read_closed p
     \<and> p_refcount p' = p_refcount p"
  using assms
proof (induction len dst p arbitrary: r p' rule: pipe_read_loop.induct)
  case (1 len dst p)
  show ?case
  proof (cases "length dst < len \<and> p_used p \<noteq> 0")
    case False
    then show ?thesis using 1(2-) length_ring_contents [of p]
      by (auto simp: pipe_read_loop.simps [of len dst p] io_result_def split: if_splits
          simp del: length_ring_contents)
  next
    case True
    let ?n = "min (unat (p_used p)) (len - length dst)"
    obtain bs q where g: "ring_get ?n p = (bs, q)" by (cases "ring_get ?n p")
    note c = ring_get_contents [OF 1(2) min.cobounded1 g] and fr = ring_get_frame [OF g]
    have lb: "length bs = ?n" by (rule ring_get_length [OF g])
    have rec: "pipe_read_loop len (dst @ bs) q = (r, p')"
      using 1(4) True g by (simp add: pipe_read_loop.simps [of len dst p])
    have uq: "unat (p_used q) = unat (p_used p) - ?n"
      using c length_ring_contents [of q] by simp
    have IH: "ring_inv p' \<and> ring_contents p' = drop (len - length (dst @ bs)) (ring_contents q)
     \<and> r = io_result (p_write_closed q \<or> len - length (dst @ bs) \<le> unat (p_used q))
              ((dst @ bs) @ take (len - length (dst @ bs)) (ring_contents q))
     \<and> p_write_closed p' = p_write_closed q \<and> p_read_closed p' = p_read_closed q
     \<and> p_refcount p' = p_refcount q"
      using True g c lb rec 1(3) by (intro 1(1)) auto
    have e: "len - length (dst @ bs) + ?n = len - length dst" using lb by simp
    have tk: "bs @ take (len - length (dst @ bs)) (ring_contents q) = take (len - length dst) (ring_contents p)"
      using c e by (metis take_add add.commute)
    have dr: "drop (len - length (dst @ bs)) (ring_contents q) = drop (len - length dst) (ring_contents p)"
      using c e by (metis drop_drop)
    have fin: "len - length (dst @ bs) \<le> unat (p_used q) \<longleftrightarrow> len - length dst \<le> unat (p_used p)"
      using lb uq by (auto simp: min_def)
    show ?thesis using IH fr tk dr fin by simp
  qed
qed

lemma pipe_write_loop_spec:
  assumes "ring_inv p" "pipe_write_loop sent src p = (r, p')"
  shows "ring_inv p' \<and> ring_contents p' = ring_contents p @ take (4096 - unat (p_used p)) src
     \<and> r = io_result (p_read_closed p \<or> length src \<le> 4096 - unat (p_used p))
              (sent @ take (4096 - unat (p_used p)) src)
     \<and> p_write_closed p' = p_write_closed p \<and> p_read_closed p' = p_read_closed p
     \<and> p_refcount p' = p_refcount p"
  using assms
proof (induction sent src p arbitrary: r p' rule: pipe_write_loop.induct)
  case (1 sent src p)
  have ub: "unat (p_used p) \<le> 4096" using 1(2) by (simp add: ring_inv_def)
  have full: "p_used p = 4096 \<longleftrightarrow> unat (p_used p) = 4096"
    by (auto simp: word_eq_iff_unsigned [where ?'a = nat])
  show ?case
  proof (cases "src \<noteq> [] \<and> p_used p \<noteq> 4096")
    case False
    then show ?thesis using 1(2-) full
      by (auto simp: pipe_write_loop.simps [of sent src p] io_result_def split: if_splits)
  next
    case True
    have room: "unat (4096 - p_used p) = 4096 - unat (p_used p)"
      using ub unat_minus_u32 [of "p_used p" 4096] by (simp add: word_le_nat_alt)
    let ?n = "min (length src) (unat (4096 - p_used p))"
    let ?q = "ring_put (take ?n src) p"
    have lt: "length (take ?n src) = ?n" by simp
    have fit: "unat (p_used p) + length (take ?n src) \<le> PIPE_BUF_SIZE" using ub room by simp
    note c = ring_put_contents [OF 1(2) fit]
    have uq: "unat (p_used ?q) = unat (p_used p) + ?n"
      using c(2) length_ring_contents [of ?q] by simp
    have rec: "pipe_write_loop (sent @ take ?n src) (drop ?n src) ?q = (r, p')"
      using 1(3) True by (simp add: pipe_write_loop.simps [of sent src p] Let_def)
    note IH = 1(1) [OF _ _ refl c(1) rec]
    show ?thesis
    proof (cases "length src \<le> 4096 - unat (p_used p)")
      case True
      then have n: "?n = length src" using room by simp
      show ?thesis using IH True \<open>src \<noteq> [] \<and> p_used p \<noteq> 4096\<close> c n by (simp add: io_result_def)
    next
      case False
      then have n: "?n = 4096 - unat (p_used p)" using room by simp
      then have "unat (p_used ?q) = 4096" using uq ub by simp
      then show ?thesis using IH False \<open>src \<noteq> [] \<and> p_used p \<noteq> 4096\<close> c n by (simp add: io_result_def)
    qed
  qed
qed


section \<open>The table operations\<close>

abbreviation read_fd :: "nat \<Rightarrow> int" where "read_fd k \<equiv> PIPE_FD_BASE + int k * PIPE_FD_STRIDE"
abbreviation write_fd :: "nat \<Rightarrow> int" where "write_fd k \<equiv> PIPE_FD_BASE + int k * PIPE_FD_STRIDE + 1"

lemma fd_to_slot_read [simp]: "fd_to_slot (read_fd k) = int k"
  by (simp add: fd_to_slot_def)

lemma fd_to_slot_write [simp]: "fd_to_slot (write_fd k) = int k"
proof -
  have "(int k * 2 + 1) div 2 = int k" by presburger
  then show ?thesis by (simp add: fd_to_slot_def add.commute)
qed

lemma pipe_is_pipe_slot:
  assumes "k < PIPE_MAX_OPEN"
  shows "pipe_is_pipe (read_fd k) t = pipe_used t ! k" and "pipe_is_pipe (write_fd k) t = pipe_used t ! k"
  using assms fd_to_slot_read [of k] fd_to_slot_write [of k] unfolding pipe_is_pipe_def Let_def by auto

lemma pipe_fd_type_slot:
  assumes "k < PIPE_MAX_OPEN" "pipe_used t ! k"
  shows "pipe_fd_type (read_fd k) t = FD_TYPE_PIPE_R" and "pipe_fd_type (write_fd k) t = FD_TYPE_PIPE_W"
proof -
  have "(int k * 2 + 1) mod 2 = 1" by presburger
  then show "pipe_fd_type (read_fd k) t = FD_TYPE_PIPE_R" "pipe_fd_type (write_fd k) t = FD_TYPE_PIPE_W"
    using assms pipe_is_pipe_slot [of k t] unfolding pipe_fd_type_def by (simp_all add: add.commute)
qed

text \<open>Every descriptor of the table is one of the two ends of a slot.\<close>

lemma pipe_fd_cases:
  assumes "fd_to_slot fd = int k"
  obtains "fd = read_fd k" | "fd = write_fd k"
proof -
  have "fd = read_fd k \<or> fd = write_fd k"
    using assms unfolding fd_to_slot_def by (simp split: if_splits) presburger
  with that show ?thesis by blast
qed

lemma fd_to_slot_split: "fd_to_slot fd < 0 \<or> (\<exists>k. fd_to_slot fd = int k)"
  by (metis linorder_not_less nonneg_int_cases)

lemma table_invD:
  assumes "table_inv t" "k < PIPE_MAX_OPEN"
  shows "k < length (pipes t)" "k < length (pipe_used t)" "ring_inv (pipes t ! k)"
    "pipe_used t ! k \<Longrightarrow> p_refcount (pipes t ! k) \<in> {1, 2}"
  using assms by (auto simp: table_inv_def)

lemma table_inv_update:
  assumes "table_inv t" "k < PIPE_MAX_OPEN" "ring_inv p" "p_refcount p \<in> {1, 2} \<or> p_refcount p = p_refcount (pipes t ! k)"
  shows "table_inv (t\<lparr>pipes := (pipes t)[k := p]\<rparr>)"
  using assms by (auto simp: table_inv_def nth_list_update)

lemma ring_contents_zero [simp]: "ring_contents zero_pipe = []" "ring_contents (zero_pipe\<lparr>p_refcount := n\<rparr>) = []"
  by (simp_all add: ring_contents_def zero_pipe_def)

lemma ring_inv_zero [simp]: "ring_inv zero_pipe" "ring_inv (zero_pipe\<lparr>p_refcount := n\<rparr>)"
  by (simp_all add: ring_inv_def zero_pipe_def)

lemma ring_frame [simp]:
  "ring_contents (p\<lparr>p_read_closed := b\<rparr>) = ring_contents p" "ring_inv (p\<lparr>p_read_closed := b\<rparr>) = ring_inv p"
  "ring_contents (p\<lparr>p_write_closed := b\<rparr>) = ring_contents p" "ring_inv (p\<lparr>p_write_closed := b\<rparr>) = ring_inv p"
  "ring_contents (p\<lparr>p_refcount := n\<rparr>) = ring_contents p" "ring_inv (p\<lparr>p_refcount := n\<rparr>) = ring_inv p"
  by (simp_all add: ring_contents_def ring_inv_def)

lemma table_inv_init: "table_inv pipe_init"
  by (simp add: table_inv_def pipe_init_def)

lemma pipe_create_cases:
  obtains (full) "pipe_create t = (-1, None, t)" "\<forall>k < PIPE_MAX_OPEN. pipe_used t ! k"
  | (slot) k where "k < PIPE_MAX_OPEN" "\<not> pipe_used t ! k" "\<forall>j < k. pipe_used t ! j"
      "pipe_create t = (0, Some (read_fd k, write_fd k),
         \<lparr>pipes = (pipes t)[k := zero_pipe\<lparr>p_refcount := 2\<rparr>], pipe_used = (pipe_used t)[k := True]\<rparr>)"
proof (cases "first_index (\<lambda>i. \<not> pipe_used t ! i) 0 PIPE_MAX_OPEN")
  case None
  show ?thesis
  proof (rule full)
    show "pipe_create t = (-1, None, t)" using None by (simp add: pipe_create_def)
    show "\<forall>k < PIPE_MAX_OPEN. pipe_used t ! k" using None by (simp add: first_index_None)
  qed
next
  case (Some k)
  show ?thesis
  proof (rule slot)
    show "k < PIPE_MAX_OPEN" "\<not> pipe_used t ! k" "\<forall>j < k. pipe_used t ! j"
      using Some by (auto simp: first_index_Some)
    show "pipe_create t = (0, Some (read_fd k, write_fd k),
         \<lparr>pipes = (pipes t)[k := zero_pipe\<lparr>p_refcount := 2\<rparr>], pipe_used = (pipe_used t)[k := True]\<rparr>)"
      using Some by (simp add: pipe_create_def)
  qed
qed

lemma table_inv_create:
  assumes "table_inv t" shows "table_inv (snd (snd (pipe_create t)))"
proof (cases t rule: pipe_create_cases)
  case full
  then show ?thesis using assms by simp
next
  case (slot k)
  then show ?thesis using assms by (auto simp: table_inv_def nth_list_update)
qed

lemma pipe_read_slot:
  assumes "table_inv t" "k < PIPE_MAX_OPEN" "pipe_used t ! k"
  obtains p' where
    "pipe_read (read_fd k) len t =
       Some (io_result (p_write_closed (pipes t ! k) \<or> len \<le> length (ring_contents (pipes t ! k)))
               (take len (ring_contents (pipes t ! k))),
             t\<lparr>pipes := (pipes t)[k := p']\<rparr>)"
    "ring_contents p' = drop len (ring_contents (pipes t ! k))" "ring_inv p'"
    "p_refcount p' = p_refcount (pipes t ! k)"
    "p_read_closed p' = p_read_closed (pipes t ! k)" "p_write_closed p' = p_write_closed (pipes t ! k)"
proof -
  obtain r p' where l: "pipe_read_loop len [] (pipes t ! k) = (r, p')"
    by (cases "pipe_read_loop len [] (pipes t ! k)")
  note sp = pipe_read_loop_spec [OF table_invD(3) [OF assms(1,2)] _ l, simplified]
  show ?thesis
  proof (rule that [of p'])
    show "pipe_read (read_fd k) len t =
       Some (io_result (p_write_closed (pipes t ! k) \<or> len \<le> length (ring_contents (pipes t ! k)))
               (take len (ring_contents (pipes t ! k))),
             t\<lparr>pipes := (pipes t)[k := p']\<rparr>)"
      unfolding pipe_read_def fd_to_slot_read Let_def using assms sp l pipe_fd_type_slot [OF assms(2,3)] by simp
  qed (use sp in simp_all)
qed

lemma pipe_write_slot:
  assumes "table_inv t" "k < PIPE_MAX_OPEN" "pipe_used t ! k" "\<not> p_read_closed (pipes t ! k)"
  obtains p' where
    "pipe_write (write_fd k) src t =
       Some (io_result (length src \<le> PIPE_BUF_SIZE - length (ring_contents (pipes t ! k)))
               (take (PIPE_BUF_SIZE - length (ring_contents (pipes t ! k))) src),
             t\<lparr>pipes := (pipes t)[k := p']\<rparr>)"
    "ring_contents p' = ring_contents (pipes t ! k) @ take (PIPE_BUF_SIZE - length (ring_contents (pipes t ! k))) src"
    "ring_inv p'" "p_refcount p' = p_refcount (pipes t ! k)"
    "p_read_closed p' = p_read_closed (pipes t ! k)" "p_write_closed p' = p_write_closed (pipes t ! k)"
proof -
  obtain r p' where l: "pipe_write_loop [] src (pipes t ! k) = (r, p')"
    by (cases "pipe_write_loop [] src (pipes t ! k)")
  note sp = pipe_write_loop_spec [OF table_invD(3) [OF assms(1,2)] l, simplified]
  show ?thesis
  proof (rule that [of p'])
    show "pipe_write (write_fd k) src t =
       Some (io_result (length src \<le> PIPE_BUF_SIZE - length (ring_contents (pipes t ! k)))
               (take (PIPE_BUF_SIZE - length (ring_contents (pipes t ! k))) src),
             t\<lparr>pipes := (pipes t)[k := p']\<rparr>)"
      unfolding pipe_write_def fd_to_slot_write Let_def using assms sp l pipe_fd_type_slot [OF assms(2,3)] by simp
  qed (use sp in simp_all)
qed

text \<open>A close marks the end and drops one reference; the last reference frees the slot.\<close>

definition close_end :: "bool \<Rightarrow> pipe_t \<Rightarrow> pipe_t" where
  "close_end rd p = (if rd then p\<lparr>p_read_closed := True, p_refcount := p_refcount p - 1\<rparr>
                     else p\<lparr>p_write_closed := True, p_refcount := p_refcount p - 1\<rparr>)"

lemma pipe_close_slot:
  assumes "k < PIPE_MAX_OPEN" "pipe_used t ! k" "fd = (if rd then read_fd k else write_fd k)"
  shows "pipe_close fd t =
     (if p_refcount (pipes t ! k) \<le> 1
      then Some \<lparr>pipes = (pipes t)[k := zero_pipe], pipe_used = (pipe_used t)[k := False]\<rparr>
      else Some (t\<lparr>pipes := (pipes t)[k := close_end rd (pipes t ! k)]\<rparr>))"
proof -
  have "fd_to_slot fd = int k" using assms(3) fd_to_slot_read fd_to_slot_write by auto
  moreover have "pipe_fd_type fd t = (if rd then FD_TYPE_PIPE_R else FD_TYPE_PIPE_W)"
    using pipe_fd_type_slot [OF assms(1,2)] assms(3) by auto
  ultimately show ?thesis using assms(1,2) by (auto simp: pipe_close_def Let_def close_end_def)
qed

lemma pipe_close_bounds: "pipe_close fd t = None \<longleftrightarrow> fd \<ge> 132"
  unfolding pipe_close_def Let_def fd_to_slot_def by auto

lemma pipe_close_cases:
  assumes "pipe_close fd t = Some t'"
  obtains (nop) "t' = t"
  | (last) k where "k < PIPE_MAX_OPEN" "pipe_used t ! k" "p_refcount (pipes t ! k) \<le> 1"
      "t' = \<lparr>pipes = (pipes t)[k := zero_pipe], pipe_used = (pipe_used t)[k := False]\<rparr>"
  | (first) k rd where "k < PIPE_MAX_OPEN" "pipe_used t ! k" "1 < p_refcount (pipes t ! k)"
      "t' = t\<lparr>pipes := (pipes t)[k := close_end rd (pipes t ! k)]\<rparr>"
proof (cases "fd_to_slot fd < 0 \<or> \<not> pipe_used t ! nat (fd_to_slot fd)")
  case True
  with assms have "t' = t" by (auto simp: pipe_close_def Let_def split: if_splits)
  then show ?thesis by (rule nop)
next
  case False
  then obtain k where k: "fd_to_slot fd = int k" using fd_to_slot_split by blast
  have lt: "k < PIPE_MAX_OPEN" using assms k False by (auto simp: pipe_close_def Let_def split: if_splits)
  have u: "pipe_used t ! k" using False k by simp
  obtain rd where "fd = (if rd then read_fd k else write_fd k)"
    using pipe_fd_cases [OF k] by (metis (full_types))
  from pipe_close_slot [OF lt u this] assms last [OF lt u] first [OF lt u] show ?thesis
    by (cases "p_refcount (pipes t ! k) \<le> 1") auto
qed

lemma close_end_ring [simp]: "ring_contents (close_end rd p) = ring_contents p" "ring_inv (close_end rd p) = ring_inv p"
  by (simp_all add: close_end_def ring_contents_def ring_inv_def)

lemma table_inv_close:
  assumes "table_inv t" "pipe_close fd t = Some t'"
  shows "table_inv t'"
  using assms(2)
proof (cases rule: pipe_close_cases)
  case nop
  then show ?thesis using assms(1) by simp
next
  case (last k)
  then show ?thesis using assms(1) by (auto simp: table_inv_def nth_list_update)
next
  case (first k rd)
  have "p_refcount (pipes t ! k) = 2" using table_invD(4) [OF assms(1) first(1,2)] first(3) by auto
  then have "p_refcount (close_end rd (pipes t ! k)) = 1" by (simp add: close_end_def)
  then show ?thesis using first table_inv_update [OF assms(1) first(1)] table_invD(3) [OF assms(1) first(1)]
    by simp
qed


section \<open>Interleaved readers and writers\<close>

text \<open>
  One step is one system call on the table, or the continuation of a call that had yielded in
  \<^verbatim>\<open>schedule()\<close>: the loop goes on with the same pipe and its local progress.
  The ghost lists record, per slot, the bytes that were moved in and out since the
  slot was last cleared.
\<close>

record pipe_world =
  w_table :: pipe_table
  w_written :: "nat \<Rightarrow> u8 list"
  w_read :: "nat \<Rightarrow> u8 list"

fun io_moved :: "io_outcome \<Rightarrow> u8 list" where
  "io_moved (Io_done r bs) = bs"
| "io_moved (Io_blocked bs) = bs"

definition wrote :: "nat \<Rightarrow> u8 list \<Rightarrow> pipe_world \<Rightarrow> pipe_world" where
  "wrote k bs w = w\<lparr>w_written := (w_written w)(k := w_written w k @ bs)\<rparr>"

definition took :: "nat \<Rightarrow> u8 list \<Rightarrow> pipe_world \<Rightarrow> pipe_world" where
  "took k bs w = w\<lparr>w_read := (w_read w)(k := w_read w k @ bs)\<rparr>"

definition set_pipe :: "nat \<Rightarrow> pipe_t \<Rightarrow> pipe_world \<Rightarrow> pipe_world" where
  "set_pipe k p w = w\<lparr>w_table := (w_table w)\<lparr>pipes := (pipes (w_table w))[k := p]\<rparr>\<rparr>"

text \<open>Ghost state restarts for the slots that a create or a last close zeroes.\<close>

definition forget :: "nat \<Rightarrow> pipe_world \<Rightarrow> pipe_world" where
  "forget k w = w\<lparr>w_written := (w_written w)(k := []), w_read := (w_read w)(k := [])\<rparr>"

definition forget_freed :: "pipe_table \<Rightarrow> pipe_world \<Rightarrow> pipe_world" where
  "forget_freed t w =
     w\<lparr>w_written := (\<lambda>k. if pipe_used t ! k \<noteq> pipe_used (w_table w) ! k then [] else w_written w k),
       w_read := (\<lambda>k. if pipe_used t ! k \<noteq> pipe_used (w_table w) ! k then [] else w_read w k)\<rparr>"

inductive pipe_step :: "pipe_world \<Rightarrow> pipe_world \<Rightarrow> bool" where
  create: "pipe_create (w_table w) = (0, Some (r, wr), t')
     \<Longrightarrow> pipe_step w (forget (nat (fd_to_slot r)) (w\<lparr>w_table := t'\<rparr>))"
| write_call: "pipe_write fd src (w_table w) = Some (out, t')
     \<Longrightarrow> pipe_step w (wrote (nat (fd_to_slot fd)) (io_moved out) (w\<lparr>w_table := t'\<rparr>))"
| write_on: "k < PIPE_MAX_OPEN \<Longrightarrow> pipe_write_loop sent src (pipes (w_table w) ! k) = (out, p')
     \<Longrightarrow> pipe_step w (wrote k (drop (length sent) (io_moved out)) (set_pipe k p' w))"
| read: "pipe_read fd len (w_table w) = Some (out, t')
     \<Longrightarrow> pipe_step w (took (nat (fd_to_slot fd)) (io_moved out) (w\<lparr>w_table := t'\<rparr>))"
| read_on: "k < PIPE_MAX_OPEN \<Longrightarrow> length dst \<le> len \<Longrightarrow> pipe_read_loop len dst (pipes (w_table w) ! k) = (out, p')
     \<Longrightarrow> pipe_step w (took k (drop (length dst) (io_moved out)) (set_pipe k p' w))"
| close: "pipe_close fd (w_table w) = Some t'
     \<Longrightarrow> pipe_step w ((forget_freed t' w)\<lparr>w_table := t'\<rparr>)"

definition pipe_start :: pipe_world where
  "pipe_start = \<lparr>w_table = pipe_init, w_written = (\<lambda>_. []), w_read = (\<lambda>_. [])\<rparr>"

definition pipe_reachable :: "pipe_world \<Rightarrow> bool" where
  "pipe_reachable w \<longleftrightarrow> pipe_step\<^sup>*\<^sup>* pipe_start w"

definition world_inv :: "pipe_world \<Rightarrow> bool" where
  "world_inv w \<longleftrightarrow> table_inv (w_table w)
     \<and> (\<forall>k < PIPE_MAX_OPEN. w_written w k = w_read w k @ ring_contents (pipes (w_table w) ! k))"

lemma io_moved_result [simp]: "io_moved (io_result fin bs) = bs"
  by (simp add: io_result_def)

lemma world_inv_wrote:
  assumes "world_inv w" "k < PIPE_MAX_OPEN" "ring_inv p" "p_refcount p = p_refcount (pipes (w_table w) ! k)"
    "ring_contents p = ring_contents (pipes (w_table w) ! k) @ bs"
  shows "world_inv (wrote k bs (set_pipe k p w))"
  using assms table_inv_update [of "w_table w" k p] table_invD(1) [of "w_table w" k]
  by (auto simp: world_inv_def wrote_def set_pipe_def nth_list_update)

lemma world_inv_took:
  assumes "world_inv w" "k < PIPE_MAX_OPEN" "ring_inv p" "p_refcount p = p_refcount (pipes (w_table w) ! k)"
    "bs @ ring_contents p = ring_contents (pipes (w_table w) ! k)"
  shows "world_inv (took k bs (set_pipe k p w))"
proof -
  have "table_inv ((w_table w)\<lparr>pipes := (pipes (w_table w))[k := p]\<rparr>)" "k < length (pipes (w_table w))"
    using assms table_inv_update [of "w_table w" k p] table_invD(1) [of "w_table w" k]
    by (auto simp: world_inv_def)
  moreover have "w_written w k = w_read w k @ bs @ ring_contents p"
    using assms(1,2,5) by (simp add: world_inv_def)
  ultimately show ?thesis using assms(1) by (auto simp: world_inv_def took_def set_pipe_def nth_list_update)
qed

lemma world_inv_nop: "world_inv w \<Longrightarrow> world_inv (wrote k [] w)" "world_inv w \<Longrightarrow> world_inv (took k [] w)"
  by (simp_all add: wrote_def took_def)

text \<open>A successful table call either refuses, changing nothing, or runs the loop on its slot.\<close>

lemma pipe_write_cases:
  assumes "pipe_write fd src t = Some (out, t')"
  obtains (refused) "out = Io_done (-1) []" "t' = t"
  | (ran) k p' where "k < PIPE_MAX_OPEN" "fd_to_slot fd = int k" "t' = t\<lparr>pipes := (pipes t)[k := p']\<rparr>"
      "pipe_write_loop [] src (pipes t ! k) = (out, p')"
  using assms fd_to_slot_split [of fd] unfolding pipe_write_def Let_def
  by (fastforce split: if_splits prod.splits)

lemma pipe_read_cases:
  assumes "pipe_read fd len t = Some (out, t')"
  obtains (refused) "out = Io_done (-1) []" "t' = t"
  | (ran) k p' where "k < PIPE_MAX_OPEN" "fd_to_slot fd = int k" "t' = t\<lparr>pipes := (pipes t)[k := p']\<rparr>"
      "pipe_read_loop len [] (pipes t ! k) = (out, p')"
  using assms fd_to_slot_split [of fd] unfolding pipe_read_def Let_def
  by (fastforce split: if_splits prod.splits)

lemma world_inv_write_on:
  assumes "world_inv w" "k < PIPE_MAX_OPEN" "pipe_write_loop sent src (pipes (w_table w) ! k) = (out, p')"
  shows "world_inv (wrote k (drop (length sent) (io_moved out)) (set_pipe k p' w))"
proof (rule world_inv_wrote [OF assms(1,2)])
  have "ring_inv (pipes (w_table w) ! k)" using assms(1,2) by (simp add: world_inv_def table_inv_def)
  note sp = pipe_write_loop_spec [OF this assms(3)]
  show "ring_inv p'" "p_refcount p' = p_refcount (pipes (w_table w) ! k)"
    "ring_contents p' = ring_contents (pipes (w_table w) ! k) @ drop (length sent) (io_moved out)"
    using sp by auto
qed

lemma world_inv_read_on:
  assumes "world_inv w" "k < PIPE_MAX_OPEN" "length dst \<le> len"
    "pipe_read_loop len dst (pipes (w_table w) ! k) = (out, p')"
  shows "world_inv (took k (drop (length dst) (io_moved out)) (set_pipe k p' w))"
proof (rule world_inv_took [OF assms(1,2)])
  have "ring_inv (pipes (w_table w) ! k)" using assms(1,2) by (simp add: world_inv_def table_inv_def)
  note sp = pipe_read_loop_spec [OF this assms(3,4)]
  show "ring_inv p'" "p_refcount p' = p_refcount (pipes (w_table w) ! k)"
    "drop (length dst) (io_moved out) @ ring_contents p' = ring_contents (pipes (w_table w) ! k)"
    using sp by auto
qed

lemma world_inv_create:
  assumes "world_inv w" "pipe_create (w_table w) = (0, Some (r, wr), t')"
  shows "world_inv (forget (nat (fd_to_slot r)) (w\<lparr>w_table := t'\<rparr>))"
proof (cases "w_table w" rule: pipe_create_cases)
  case full
  then show ?thesis using assms(2) by simp
next
  case (slot k)
  then have r: "r = read_fd k" and t': "t' = snd (snd (pipe_create (w_table w)))" using assms(2) by auto
  have "table_inv t'" using assms(1) table_inv_create unfolding t' world_inv_def by blast
  moreover have "k < length (pipes (w_table w))" using assms(1) slot(1) by (simp add: world_inv_def table_inv_def)
  ultimately show ?thesis unfolding r fd_to_slot_read
    using assms(1) slot(1,4) t' by (auto simp: world_inv_def forget_def nth_list_update)
qed

lemma world_inv_close:
  assumes "world_inv w" "pipe_close fd (w_table w) = Some t'"
  shows "world_inv ((forget_freed t' w)\<lparr>w_table := t'\<rparr>)"
proof -
  have ti: "table_inv (w_table w)" using assms(1) by (simp add: world_inv_def)
  have t': "table_inv t'" using table_inv_close [OF ti assms(2)] .
  from assms(2) show ?thesis
  proof (cases rule: pipe_close_cases)
    case nop
    then show ?thesis using assms(1) by (auto simp: world_inv_def forget_freed_def)
  next
    case (last k)
    then show ?thesis using assms(1) t' table_invD(1,2) [OF ti last(1)]
      by (auto simp: world_inv_def forget_freed_def nth_list_update)
  next
    case (first k rd)
    then show ?thesis using assms(1) t' table_invD(1) [OF ti first(1)]
      by (auto simp: world_inv_def forget_freed_def nth_list_update)
  qed
qed

lemma pipe_step_inv: "pipe_step w w' \<Longrightarrow> world_inv w \<Longrightarrow> world_inv w'"
proof (induction rule: pipe_step.induct)
  case (create w r wr t')
  then show ?case by (simp add: world_inv_create)
next
  case (write_call fd src w out t')
  from write_call(1) show ?case
  proof (cases rule: pipe_write_cases)
    case refused
    then show ?thesis using write_call(2) world_inv_nop by simp
  next
    case (ran k p')
    then show ?thesis using world_inv_write_on [OF write_call(2) ran(1,4)] by (simp add: set_pipe_def)
  qed
next
  case (write_on k sent src w out p')
  then show ?case by (simp add: world_inv_write_on)
next
  case (read fd len w out t')
  from read(1) show ?case
  proof (cases rule: pipe_read_cases)
    case refused
    then show ?thesis using read(2) world_inv_nop by simp
  next
    case (ran k p')
    then show ?thesis using world_inv_read_on [OF read(2) ran(1) _ ran(4)] by (simp add: set_pipe_def)
  qed
next
  case (read_on k dst len w out p')
  then show ?case by (simp add: world_inv_read_on)
next
  case (close fd w t')
  then show ?case by (simp add: world_inv_close)
qed

lemma pipe_reachable_inv: "pipe_reachable w \<Longrightarrow> world_inv w"
  unfolding pipe_reachable_def
proof (induction rule: rtranclp_induct)
  case base
  show ?case using table_inv_init by (simp add: world_inv_def pipe_start_def pipe_init_def)
next
  case (step w w')
  then show ?case using pipe_step_inv by blast
qed


section \<open>The pipe table as a slot allocator\<close>

definition pipe_slots :: "pipe_table \<Rightarrow> nat set" where
  "pipe_slots t = {k. k < PIPE_MAX_OPEN \<and> pipe_used t ! k}"

text \<open>A client that opens a pipe, and one that closes both of its ends.\<close>

definition open_pipe :: "pipe_table \<Rightarrow> nat option \<times> pipe_table" where
  "open_pipe t = (case pipe_create t of
      (_, Some (r, w), t') \<Rightarrow> (Some (nat (fd_to_slot r)), t')
    | (_, None, t') \<Rightarrow> (None, t'))"

definition close_both :: "nat \<Rightarrow> pipe_table \<Rightarrow> pipe_table" where
  "close_both k t = (case pipe_close (read_fd k) t of None \<Rightarrow> t
      | Some t' \<Rightarrow> (case pipe_close (write_fd k) t' of None \<Rightarrow> t' | Some t'' \<Rightarrow> t''))"

lemma open_pipe_cases:
  obtains (full) "open_pipe t = (None, t)" "pipe_slots t = {..<PIPE_MAX_OPEN}"
  | (slot) k where "k < PIPE_MAX_OPEN" "\<not> pipe_used t ! k" "\<forall>j < k. pipe_used t ! j"
      "open_pipe t = (Some k, snd (snd (pipe_create t)))"
      "pipe_used (snd (snd (pipe_create t))) = (pipe_used t)[k := True]"
proof (cases t rule: pipe_create_cases)
  case full
  then show ?thesis using that(1) by (auto simp: open_pipe_def pipe_slots_def)
next
  case (slot k)
  have "open_pipe t = (Some k, snd (snd (pipe_create t)))"
    unfolding open_pipe_def slot(4) by (simp del: of_nat_mult)
  then show ?thesis using that(2) [OF slot(1-3)] slot(4) by simp
qed

lemma pipe_close_unused:
  assumes "k < PIPE_MAX_OPEN" "\<not> pipe_used t ! k" "fd = (if rd then read_fd k else write_fd k)"
  shows "pipe_close fd t = Some t"
proof -
  have "fd_to_slot fd = int k" using assms(3) fd_to_slot_read fd_to_slot_write by auto
  then show ?thesis using assms(1,2) by (simp add: pipe_close_def Let_def)
qed

lemma close_both_spec:
  assumes inv: "table_inv t" and k: "k < PIPE_MAX_OPEN"
  shows "table_inv (close_both k t)" and "pipe_used (close_both k t) = (pipe_used t)[k := False]"
proof -
  obtain t' where t': "pipe_close (read_fd k) t = Some t'"
    using pipe_close_bounds [of "read_fd k" t] k by (cases "pipe_close (read_fd k) t") auto
  obtain t'' where t'': "pipe_close (write_fd k) t' = Some t''"
    using pipe_close_bounds [of "write_fd k" t'] k by (cases "pipe_close (write_fd k) t'") auto
  have e: "close_both k t = t''" unfolding close_both_def t' option.case t'' ..
  have inv': "table_inv t'" by (rule table_inv_close [OF inv t'])
  show "table_inv (close_both k t)" using table_inv_close [OF inv' t''] e by simp
  note tab = table_invD [OF inv k] table_invD [OF inv' k]
  show "pipe_used (close_both k t) = (pipe_used t)[k := False]"
  proof (cases "pipe_used t ! k")
    case False
    then have "t' = t" "t'' = t" using pipe_close_unused [OF k, of t _ True] pipe_close_unused [OF k, of t _ False] t' t'' by auto
    then show ?thesis using e False tab(2) by (metis (full_types) list_update_id)
  next
    case True
    note c = pipe_close_slot [OF k True, of "read_fd k" True]
    show ?thesis
    proof (cases "p_refcount (pipes t ! k) \<le> 1")
      case True
      then have u: "pipe_used t' = (pipe_used t)[k := False]" using c t' by auto
      then have "\<not> pipe_used t' ! k" using tab(2) by simp
      then have "t'' = t'" using pipe_close_unused [OF k, of t' _ False] t'' by auto
      then show ?thesis using e u by simp
    next
      case False
      then have tt: "t' = t\<lparr>pipes := (pipes t)[k := close_end True (pipes t ! k)]\<rparr>" using c t' by auto
      have "p_refcount (pipes t ! k) = 2" using tab(4) True False by auto
      then have "p_refcount (pipes t' ! k) \<le> 1" using tt tab(1) by (simp add: close_end_def)
      then show ?thesis using pipe_close_slot [OF k, of t' "write_fd k" False] t'' tt True e by auto
    qed
  qed
qed

interpretation pipes: slot_allocator table_inv "\<lambda>_. PIPE_MAX_OPEN" pipe_slots "{PIPE_MAX_OPEN..}" open_pipe close_both
proof
  fix s s' :: pipe_table and k j r
  assume inv: "table_inv s"
  have len: "length (pipe_used s) = PIPE_MAX_OPEN" using inv by (simp add: table_inv_def)
  show "pipe_slots s \<subseteq> {..<PIPE_MAX_OPEN}" by (auto simp: pipe_slots_def)
  show "table_inv s' \<and> PIPE_MAX_OPEN = PIPE_MAX_OPEN" if "open_pipe s = (r, s')"
    using that inv table_inv_create [OF inv] by (cases s rule: open_pipe_cases) auto
  show "pipe_slots s = {..<PIPE_MAX_OPEN} \<and> s' = s" if "open_pipe s = (None, s')"
    using that by (cases s rule: open_pipe_cases) auto
  show "k < PIPE_MAX_OPEN \<and> k \<notin> pipe_slots s \<and> k \<notin> {PIPE_MAX_OPEN..}" if "open_pipe s = (Some k, s')"
    using that by (cases s rule: open_pipe_cases) (auto simp: pipe_slots_def)
  show "j \<in> pipe_slots s" if "open_pipe s = (Some k, s')" "j < k"
    using that by (cases s rule: open_pipe_cases) (auto simp: pipe_slots_def)
  show "pipe_slots s' = insert k (pipe_slots s)" if "open_pipe s = (Some k, s')"
    using that len by (cases s rule: open_pipe_cases) (auto simp: pipe_slots_def nth_list_update)
  show "pipe_slots (close_both k s) = pipe_slots s - {k}" if "k \<notin> {PIPE_MAX_OPEN..}"
    using close_both_spec [OF inv, of k] that len by (auto simp: pipe_slots_def nth_list_update)
  show "table_inv (close_both k s) \<and> PIPE_MAX_OPEN = PIPE_MAX_OPEN" if "k \<notin> {PIPE_MAX_OPEN..}"
    using close_both_spec [OF inv, of k] that by auto
qed

section \<open>Properties\<close>

text \<open>
  C27: Pipes are FIFO under every interleaving of creates, reads, writes, resumed calls and
  closes: in every reachable state the bytes that were written to a slot are the bytes that were
  read from it followed by the ring's contents, so nothing is lost, duplicated or reordered, and
  at most 4096 bytes are in flight.
\<close>

theorem pipe_fifo:
  assumes "pipe_reachable w" "k < PIPE_MAX_OPEN"
  shows "w_written w k = w_read w k @ ring_contents (pipes (w_table w) ! k)
    \<and> length (w_written w k) - length (w_read w k) \<le> PIPE_BUF_SIZE"
proof -
  have i: "world_inv w" by (rule pipe_reachable_inv [OF assms(1)])
  then have "ring_inv (pipes (w_table w) ! k)" using assms(2) by (simp add: world_inv_def table_inv_def)
  from ring.bounded [OF this] i assms(2) show ?thesis by (simp add: world_inv_def)
qed

text \<open>
  A read on the read end of an open pipe returns the oldest bytes of the ring, at most
  \<open>len\<close>; it returns exactly when that many are there or the writer has closed (end of file,
  with what was there), and otherwise it waits having taken everything. Other pipes are untouched.
\<close>

theorem pipe_read_correct:
  assumes "table_inv t" "k < PIPE_MAX_OPEN" "pipe_used t ! k"
  shows "\<exists>t'. pipe_read (read_fd k) len t =
       Some (io_result (p_write_closed (pipes t ! k) \<or> len \<le> length (ring_contents (pipes t ! k)))
               (take len (ring_contents (pipes t ! k))), t')
     \<and> ring_contents (pipes t' ! k) = drop len (ring_contents (pipes t ! k))
     \<and> (\<forall>j. j \<noteq> k \<longrightarrow> pipes t' ! j = pipes t ! j) \<and> pipe_used t' = pipe_used t \<and> table_inv t'"
proof (rule pipe_read_slot [OF assms, of len], goal_cases)
  case (1 p')
  then show ?case using table_invD(1) [OF assms(1,2)] table_inv_update [OF assms(1,2) 1(3)] by auto
qed

text \<open>
  A write on the write end of an open pipe is refused with -1 when the reader has closed;
  otherwise it appends as many bytes as there is room for and returns exactly when all of them
  fitted, waiting for room when they did not.
\<close>

theorem pipe_write_correct:
  assumes "table_inv t" "k < PIPE_MAX_OPEN" "pipe_used t ! k"
  shows "(p_read_closed (pipes t ! k) \<longrightarrow> pipe_write (write_fd k) src t = Some (Io_done (-1) [], t))
     \<and> (\<not> p_read_closed (pipes t ! k) \<longrightarrow>
         (let room = PIPE_BUF_SIZE - length (ring_contents (pipes t ! k))
          in \<exists>t'. pipe_write (write_fd k) src t = Some (io_result (length src \<le> room) (take room src), t')
           \<and> ring_contents (pipes t' ! k) = ring_contents (pipes t ! k) @ take room src
           \<and> (\<forall>j. j \<noteq> k \<longrightarrow> pipes t' ! j = pipes t ! j) \<and> pipe_used t' = pipe_used t \<and> table_inv t'))"
proof (cases "p_read_closed (pipes t ! k)")
  case True
  then have "pipe_write (write_fd k) src t = Some (Io_done (-1) [], t)"
    unfolding pipe_write_def fd_to_slot_write Let_def using assms pipe_fd_type_slot [OF assms(2,3)] by simp
  with True show ?thesis by simp
next
  case False
  show ?thesis
  proof (rule pipe_write_slot [OF assms False, of src], goal_cases)
    case (1 p')
    then show ?case using False table_invD(1) [OF assms(1,2)] table_inv_update [OF assms(1,2) 1(3)]
      by (auto simp: Let_def)
  qed
qed

text \<open>
  Opening pipes one after another gives distinct free slots until the table of 16 is full,
  and closing both ends of a pipe just opened makes exactly its slot free again.
\<close>

theorem pipe_open_many:
  assumes "table_inv t" "alloc_many open_pipe n t = (ks, t')"
  shows "distinct ks \<and> set ks \<inter> pipe_slots t = {} \<and> pipe_slots t' = pipe_slots t \<union> set ks
     \<and> length ks = min n (PIPE_MAX_OPEN - card (pipe_slots t))
     \<and> (\<forall>k \<in> set ks. pipe_slots (close_both k t') = pipe_slots t' - {k})"
proof -
  note sp = pipes.alloc_many_spec [OF assms]
  have "k \<notin> {PIPE_MAX_OPEN..}" if "k \<in> set ks" for k using sp that by auto
  then show ?thesis using sp pipes.release_used [of t'] by auto
qed

text \<open>
  Closing the same end of a new pipe twice frees its slot although the other end was never
  closed: the write end is then no descriptor any more, and the next pipe created may reuse it.
\<close>

theorem pipe_double_close_frees:
  assumes "table_inv t" "pipe_create t = (0, Some (r, w), t0)"
  shows "\<exists>t1 t2. pipe_close r t0 = Some t1 \<and> pipe_close r t1 = Some t2
     \<and> pipe_is_pipe w t1 \<and> \<not> pipe_is_pipe w t2 \<and> pipe_write w src t2 = Some (Io_done (-1) [], t2)"
proof (cases t rule: pipe_create_cases)
  case full
  then show ?thesis using assms(2) by simp
next
  case (slot k)
  then have rw: "r = read_fd k" "w = write_fd k"
    and t0: "t0 = \<lparr>pipes = (pipes t)[k := zero_pipe\<lparr>p_refcount := 2\<rparr>], pipe_used = (pipe_used t)[k := True]\<rparr>"
    using assms(2) by auto
  note len = table_invD(1,2) [OF assms(1) slot(1)]
  define t1 where "t1 = t0\<lparr>pipes := (pipes t0)[k := close_end True (pipes t0 ! k)]\<rparr>"
  have u0: "pipe_used t0 ! k" "p_refcount (pipes t0 ! k) = 2" using len by (simp_all add: t0)
  have c1: "pipe_close r t0 = Some t1"
    using pipe_close_slot [OF slot(1) u0(1), of r True] u0 rw by (simp add: t1_def)
  have u1: "pipe_used t1 ! k" "p_refcount (pipes t1 ! k) = 1"
    using u0 len by (simp_all add: t1_def t0 close_end_def)
  define t2 where "t2 = \<lparr>pipes = (pipes t1)[k := zero_pipe], pipe_used = (pipe_used t1)[k := False]\<rparr>"
  have c2: "pipe_close r t1 = Some t2"
    using pipe_close_slot [OF slot(1) u1(1), of r True] u1 rw by (simp add: t2_def)
  have n2: "\<not> pipe_used t2 ! k" using len by (simp add: t2_def t1_def t0)
  moreover have "pipe_write w src t2 = Some (Io_done (-1) [], t2)"
    unfolding pipe_write_def rw fd_to_slot_write Let_def using n2 slot(1) by simp
  ultimately show ?thesis using c1 c2 u1(1) pipe_is_pipe_slot(2) [OF slot(1)] unfolding rw by blast
qed

section \<open>Witnesses\<close>

definition example_table :: pipe_table where
  "example_table = snd (snd (pipe_create pipe_init))"

lemma example_create: "pipe_create pipe_init = (0, Some (100, 101), example_table)"
proof (cases pipe_init rule: pipe_create_cases)
  case full
  then have "pipe_used pipe_init ! 0" by simp
  then show ?thesis by (simp add: pipe_init_def)
next
  case (slot k)
  have "k = 0" using slot(1,3) by (cases k) (auto simp: pipe_init_def)
  then show ?thesis using slot(4) by (simp add: example_table_def)
qed

lemma example_table:
  "table_inv example_table" "pipe_used example_table ! 0" "\<not> p_read_closed (pipes example_table ! 0)"
  "ring_contents (pipes example_table ! 0) = []" "\<not> p_write_closed (pipes example_table ! 0)"
proof -
  show "table_inv example_table" unfolding example_table_def by (rule table_inv_create [OF table_inv_init])
  have "first_index (\<lambda>i. \<not> pipe_used pipe_init ! i) 0 PIPE_MAX_OPEN = Some 0"
    by (simp add: first_index_Some pipe_init_def)
  then have e: "example_table = \<lparr>pipes = (pipes pipe_init)[0 := zero_pipe\<lparr>p_refcount := 2\<rparr>],
      pipe_used = (pipe_used pipe_init)[0 := True]\<rparr>"
    unfolding example_table_def pipe_create_def by simp
  have "pipes example_table ! 0 = zero_pipe\<lparr>p_refcount := 2\<rparr>" "pipe_used example_table ! 0"
    unfolding e by (simp_all add: pipe_init_def)
  then show "pipe_used example_table ! 0" "\<not> p_read_closed (pipes example_table ! 0)"
    "ring_contents (pipes example_table ! 0) = []" "\<not> p_write_closed (pipes example_table ! 0)"
    by (simp_all add: zero_pipe_def ring_contents_def)
qed

theorem pipe_fifo_witness:
  "\<exists>w. pipe_reachable w \<and> w_written w 0 = [65, 66] \<and> [65, 66] = w_read w 0 @ ring_contents (pipes (w_table w) ! 0)"
proof -
  let ?w0 = "forget 0 (pipe_start\<lparr>w_table := example_table\<rparr>)"
  have s0: "pipe_step pipe_start ?w0"
    using pipe_step.create [of pipe_start 100 101 example_table] example_create
    by (simp add: pipe_start_def fd_to_slot_def)
  obtain p' where w: "pipe_write 101 [65, 66] example_table =
      Some (io_result True [65, 66], example_table\<lparr>pipes := (pipes example_table)[0 := p']\<rparr>)"
    using pipe_write_slot [OF example_table(1) _ example_table(2,3), of "[65, 66]"] example_table(4) by auto
  let ?w1 = "wrote 0 [65, 66] (?w0\<lparr>w_table := example_table\<lparr>pipes := (pipes example_table)[0 := p']\<rparr>\<rparr>)"
  have s1: "pipe_step ?w0 ?w1"
    using pipe_step.write_call [of 101 "[65, 66]" ?w0] w by (simp add: fd_to_slot_def forget_def)
  have r: "pipe_reachable ?w1" unfolding pipe_reachable_def using s0 s1 by (meson r_into_rtranclp rtranclp.rtrancl_into_rtrancl)
  have "w_written ?w1 0 = [65, 66]" by (simp add: wrote_def forget_def)
  with pipe_fifo [OF r, of 0] r show ?thesis by (intro exI [of _ ?w1]) simp
qed

theorem pipe_read_correct_witness:
  "\<exists>t'. pipe_read 100 4 example_table = Some (Io_blocked [], t')"
  using pipe_read_correct [OF example_table(1) _ example_table(2), of 4] example_table(4,5)
  by (auto simp: io_result_def)

theorem pipe_write_correct_witness:
  "\<exists>t'. pipe_write 101 [65, 66] example_table = Some (Io_done 2 [65, 66], t')
     \<and> ring_contents (pipes t' ! 0) = [65, 66]"
  using pipe_write_correct [OF example_table(1) _ example_table(2), of "[65, 66]"] example_table(3,4)
  by (auto simp: io_result_def)

theorem pipe_open_many_witness:
  "length (fst (alloc_many open_pipe 3 pipe_init)) = 3 \<and> distinct (fst (alloc_many open_pipe 3 pipe_init))"
proof -
  have "pipe_slots pipe_init = {}" by (auto simp: pipe_slots_def pipe_init_def)
  then show ?thesis
    using pipe_open_many [OF table_inv_init prod.collapse [symmetric], of 3] by simp
qed

theorem pipe_double_close_frees_witness:
  "\<exists>t1 t2. pipe_close 100 example_table = Some t1 \<and> pipe_close 100 t1 = Some t2 \<and> \<not> pipe_is_pipe 101 t2"
  using pipe_double_close_frees [OF table_inv_init example_create, of "[]"] by blast

end
