(* ===== verification/Pipe_Spec.thy ===== *)
theory Pipe_Spec
  imports Pipe
begin

text \<open>
  What a pipe promises, without rings, slots' indices or descriptor arithmetic: a channel is a
  queue of at most 4096 bytes with two ends that may be gone. The operations of \<^verbatim>\<open>fs/pipe.c\<close> refine the
  operations on channels through the abstraction function \<open>channels\<close>.
\<close>

section \<open>Channels\<close>

record channel =
  c_queue :: "u8 list"
  c_reader_gone :: bool
  c_writer_gone :: bool
  c_ends :: int

type_synonym channels = "nat \<rightharpoonup> channel"

definition chan_create :: "channels \<Rightarrow> int \<times> (int \<times> int) option \<times> channels" where
  "chan_create C =
     (case first_index (\<lambda>k. C k = None) 0 PIPE_MAX_OPEN of
        None \<Rightarrow> (-1, None, C)
      | Some k \<Rightarrow> (0, Some (read_fd k, write_fd k),
                  C(k \<mapsto> \<lparr>c_queue = [], c_reader_gone = False, c_writer_gone = False, c_ends = 2\<rparr>)))"

definition chan_read :: "nat \<Rightarrow> nat \<Rightarrow> channels \<Rightarrow> io_outcome \<times> channels" where
  "chan_read k len C =
     (case C k of
        None \<Rightarrow> (Io_done (-1) [], C)
      | Some c \<Rightarrow> (io_result (c_writer_gone c \<or> len \<le> length (c_queue c)) (take len (c_queue c)),
                  C(k \<mapsto> c\<lparr>c_queue := drop len (c_queue c)\<rparr>)))"

definition chan_write :: "nat \<Rightarrow> u8 list \<Rightarrow> channels \<Rightarrow> io_outcome \<times> channels" where
  "chan_write k src C =
     (case C k of
        None \<Rightarrow> (Io_done (-1) [], C)
      | Some c \<Rightarrow>
          if c_reader_gone c then (Io_done (-1) [], C)
          else let room = PIPE_BUF_SIZE - length (c_queue c)
               in (io_result (length src \<le> room) (take room src), C(k \<mapsto> c\<lparr>c_queue := c_queue c @ take room src\<rparr>)))"

definition chan_close :: "nat \<Rightarrow> bool \<Rightarrow> channels \<Rightarrow> channels" where
  "chan_close k rd C =
     (case C k of
        None \<Rightarrow> C
      | Some c \<Rightarrow>
          if c_ends c \<le> 1 then C(k := None)
          else C(k \<mapsto> (if rd then c\<lparr>c_reader_gone := True\<rparr> else c\<lparr>c_writer_gone := True\<rparr>)\<lparr>c_ends := c_ends c - 1\<rparr>))"

section \<open>The abstraction\<close>

definition channel_of :: "pipe_t \<Rightarrow> channel" where
  "channel_of p = \<lparr>c_queue = ring_contents p, c_reader_gone = p_read_closed p, c_writer_gone = p_write_closed p,
     c_ends = p_refcount p\<rparr>"

definition channels :: "pipe_table \<Rightarrow> channels" where
  "channels t k = (if k < PIPE_MAX_OPEN \<and> pipe_used t ! k then Some (channel_of (pipes t ! k)) else None)"

lemma channels_update:
  assumes "table_inv t" "k < PIPE_MAX_OPEN" "pipe_used t ! k"
  shows "channels (t\<lparr>pipes := (pipes t)[k := p]\<rparr>) = (channels t)(k \<mapsto> channel_of p)"
  using assms table_invD(1) [OF assms(1,2)] by (auto simp: channels_def fun_eq_iff table_inv_def nth_list_update)

lemma create_refines:
  assumes "table_inv t"
  shows "(case pipe_create t of (r, fds, t') \<Rightarrow> (r, fds, channels t')) = chan_create (channels t)"
proof -
  have "first_index (\<lambda>k. channels t k = None) 0 PIPE_MAX_OPEN = first_index (\<lambda>k. \<not> pipe_used t ! k) 0 PIPE_MAX_OPEN"
    unfolding first_index_def by (rule find_cong) (auto simp: channels_def)
  moreover have "channels \<lparr>pipes = (pipes t)[k := zero_pipe\<lparr>p_refcount := 2\<rparr>], pipe_used = (pipe_used t)[k := True]\<rparr>
      = (channels t)(k \<mapsto> \<lparr>c_queue = [], c_reader_gone = False, c_writer_gone = False, c_ends = 2\<rparr>)" if "k < PIPE_MAX_OPEN" for k
    using assms that by (auto simp: channels_def fun_eq_iff table_inv_def nth_list_update channel_of_def zero_pipe_def ring_contents_def)
  moreover have "first_index (\<lambda>k. \<not> pipe_used t ! k) 0 PIPE_MAX_OPEN = Some k \<Longrightarrow> k < PIPE_MAX_OPEN" for k
    by (simp add: first_index_Some)
  ultimately show ?thesis
    by (cases "first_index (\<lambda>k. \<not> pipe_used t ! k) 0 PIPE_MAX_OPEN") (simp_all add: pipe_create_def chan_create_def)
qed

lemma read_refines:
  assumes "table_inv t" "k < PIPE_MAX_OPEN"
  shows "map_option (apsnd channels) (pipe_read (read_fd k) len t) = Some (chan_read k len (channels t))"
proof (cases "pipe_used t ! k")
  case True
  show ?thesis
  proof (rule pipe_read_slot [OF assms True, of len], goal_cases)
    case (1 p')
    then show ?case using True assms channels_update [OF assms True]
      by (simp add: chan_read_def channels_def channel_of_def)
  qed
next
  case False
  then show ?thesis using assms(2) by (simp add: pipe_read_def chan_read_def channels_def)
qed

lemma write_refines:
  assumes "table_inv t" "k < PIPE_MAX_OPEN"
  shows "map_option (apsnd channels) (pipe_write (write_fd k) src t) = Some (chan_write k src (channels t))"
proof (cases "pipe_used t ! k \<and> \<not> p_read_closed (pipes t ! k)")
  case True
  then have u: "pipe_used t ! k" "\<not> p_read_closed (pipes t ! k)" by simp_all
  show ?thesis
  proof (rule pipe_write_slot [OF assms u, of src], goal_cases)
    case (1 p')
    then show ?case using u assms channels_update [OF assms u(1)]
      by (simp add: chan_write_def channels_def channel_of_def Let_def)
  qed
next
  case False
  then show ?thesis using assms(2) pipe_fd_type_slot [OF assms(2), of t]
    unfolding pipe_write_def fd_to_slot_write Let_def
    by (cases "pipe_used t ! k") (simp_all add: chan_write_def channels_def channel_of_def)
qed

lemma close_refines:
  assumes "table_inv t" "k < PIPE_MAX_OPEN"
  shows "map_option channels (pipe_close (if rd then read_fd k else write_fd k) t) = Some (chan_close k rd (channels t))"
proof (cases "pipe_used t ! k")
  case True
  have "channels \<lparr>pipes = (pipes t)[k := zero_pipe], pipe_used = (pipe_used t)[k := False]\<rparr> = (channels t)(k := None)"
    using assms by (auto simp: channels_def fun_eq_iff table_inv_def nth_list_update)
  then show ?thesis
    using pipe_close_slot [OF assms(2) True refl, of rd] True assms(2) channels_update [OF assms True]
    by (auto simp: chan_close_def channels_def channel_of_def close_end_def ring_contents_def)
next
  case False
  moreover have "fd_to_slot (if rd then read_fd k else write_fd k) = int k"
    using fd_to_slot_read fd_to_slot_write by auto
  ultimately show ?thesis using assms(2) by (simp add: pipe_close_def chan_close_def channels_def)
qed

text \<open>
  C10: the pipe table refines the table of channels: creating, reading, writing and closing answer as
  the abstract operations do, and leave a table that stands for the abstract result.
\<close>

theorem pipe_refines_channels:
  assumes "table_inv t" "k < PIPE_MAX_OPEN"
  shows "(case pipe_create t of (r, fds, t') \<Rightarrow> (r, fds, channels t')) = chan_create (channels t)
    \<and> map_option (apsnd channels) (pipe_read (read_fd k) len t) = Some (chan_read k len (channels t))
    \<and> map_option (apsnd channels) (pipe_write (write_fd k) src t) = Some (chan_write k src (channels t))
    \<and> map_option channels (pipe_close (if rd then read_fd k else write_fd k) t) = Some (chan_close k rd (channels t))"
  by (intro conjI create_refines read_refines write_refines close_refines assms)

theorem pipe_refines_channels_witness:
  "\<exists>t'. pipe_write 101 [65, 66] example_table = Some (Io_done 2 [65, 66], t') \<and> map_option c_queue (channels t' 0) = Some [65, 66]"
proof -
  have "channels example_table 0 = Some \<lparr>c_queue = [], c_reader_gone = False, c_writer_gone = p_write_closed (pipes example_table ! 0),
      c_ends = p_refcount (pipes example_table ! 0)\<rparr>"
    using example_table(2-5) by (simp add: channels_def channel_of_def)
  with pipe_refines_channels [OF example_table(1), of 0 0 "[65, 66]" True]
  show ?thesis by (auto simp: chan_write_def io_result_def Let_def)
qed

end
