(* ===== verification/Path.thy ===== *)
theory Path
  imports Prelude "HOL-Library.Sublist"
begin

text \<open>
  Path manipulation, \<^verbatim>\<open>fs/path.c\<close>, on strings as values (a C string is its characters
  up to the terminator; the string routines themselves are treated in \<open>CString\<close>). The
  512-byte work buffer of \<^verbatim>\<open>path_normalize\<close> and its stack of 64 component pointers are kept:
  longer input is cut, and components beyond the stack are dropped. The reference is the usual
  reading of a path as a list of names.
\<close>

section \<open>Operations\<close>

abbreviation SLASH :: char where "SLASH \<equiv> CHR ''/''"
abbreviation PATH_MAX :: nat where "PATH_MAX \<equiv> 256"

definition path_is_absolute :: "string \<Rightarrow> bool" where
  "path_is_absolute path \<longleftrightarrow> (case path of [] \<Rightarrow> False | c # _ \<Rightarrow> c = SLASH)"

text \<open>The combined raw path in \<^verbatim>\<open>work[512]\<close>; \<open>None\<close> is a null \<^verbatim>\<open>base\<close>.\<close>

definition path_work :: "string option \<Rightarrow> string \<Rightarrow> string" where
  "path_work base path =
     (if path_is_absolute path then take 511 path
      else let work = take 511 (case base of None \<Rightarrow> ''/'' | Some b \<Rightarrow> b);
               len = length work;
               work = (if len = 0 \<or> last work \<noteq> SLASH
                       then if len < 511 then work @ [SLASH] else work
                       else work)
           in work @ take (512 - length work - 1) path)"

definition push_component :: "string \<Rightarrow> string list \<Rightarrow> string list" where
  "push_component start comps =
     (if start = ''.'' then comps
      else if start = ''..'' then (if comps \<noteq> [] then butlast comps else comps)
      else if length comps < 64 then comps @ [start] else comps)"

function path_components :: "string \<Rightarrow> string list \<Rightarrow> string list" where
  "path_components p comps =
     (if p = [] then comps
      else let p = dropWhile (\<lambda>c. c = SLASH) p
           in if p = [] then comps
              else let start = takeWhile (\<lambda>c. c \<noteq> SLASH) p;
                       p = dropWhile (\<lambda>c. c \<noteq> SLASH) p;
                       p = (if p \<noteq> [] then tl p else p)
                   in path_components p (push_component start comps))"
  by pat_completeness auto
termination
proof (relation "measure (\<lambda>(p, comps). length p)", goal_cases)
  case (2 p comps q start r r')
  then have "q \<noteq> []" "hd q \<noteq> SLASH" using hd_dropWhile [of "\<lambda>c. c = SLASH" p] by simp_all
  then have "length (dropWhile (\<lambda>c. c \<noteq> SLASH) q) < length q"
    by (cases q) (auto simp: length_dropWhile_le less_Suc_eq_le)
  moreover have "length q \<le> length p" using 2 by (simp add: length_dropWhile_le)
  ultimately show ?case using 2 by auto
qed simp

declare path_components.simps [simp del]

fun rebuild :: "string list \<Rightarrow> string" where
  "rebuild [] = []"
| "rebuild (c # cs) = SLASH # c @ rebuild cs"

definition path_normalize :: "string option \<Rightarrow> string \<Rightarrow> string" where
  "path_normalize base path =
     (let comps = path_components (path_work base path) []
      in if comps = [] then ''/'' else rebuild comps)"

definition path_join :: "string \<Rightarrow> string \<Rightarrow> string" where
  "path_join a b =
     (let out = (if a = [] \<or> last a \<noteq> SLASH then a @ [SLASH] else a);
          b = (case b of c # b' \<Rightarrow> if c = SLASH then b' else b | [] \<Rightarrow> b)
      in out @ b)"

text \<open>\<^verbatim>\<open>strrchr(path, '/')\<close>: what precedes the last slash and what follows it.\<close>

fun split_last :: "string \<Rightarrow> (string \<times> string) option" where
  "split_last [] = None"
| "split_last (c # s) =
     (case split_last s of
        Some (a, b) \<Rightarrow> Some (c # a, b)
      | None \<Rightarrow> if c = SLASH then Some ([], s) else None)"

definition path_basename :: "string \<Rightarrow> string" where
  "path_basename path =
     (let name = (case split_last path of Some (_, b) \<Rightarrow> b | None \<Rightarrow> path)
      in if name = [] then ''/'' else name)"

definition path_dirname :: "string \<Rightarrow> string" where
  "path_dirname path =
     (case split_last path of
        None \<Rightarrow> ''.''
      | Some (a, _) \<Rightarrow> if a = [] then ''/'' else a)"

section \<open>Canonical paths\<close>

definition name_ok :: "string \<Rightarrow> bool" where
  "name_ok c \<longleftrightarrow> c \<noteq> [] \<and> SLASH \<notin> set c \<and> c \<noteq> ''.'' \<and> c \<noteq> ''..''"

definition render :: "string list \<Rightarrow> string" where
  "render cs = (if cs = [] then ''/'' else rebuild cs)"

definition canonical :: "string \<Rightarrow> bool" where
  "canonical p \<longleftrightarrow> (\<exists>cs. (\<forall>c \<in> set cs. name_ok c) \<and> p = render cs)"

text \<open>The reference: the names between slashes, read from left to right.\<close>

fun split_slash :: "string \<Rightarrow> string list" where
  "split_slash [] = [[]]"
| "split_slash (c # s) =
     (if c = SLASH then [] # split_slash s
      else case split_slash s of x # xs \<Rightarrow> (c # x) # xs | [] \<Rightarrow> [[c]])"

definition path_names :: "string \<Rightarrow> string list" where
  "path_names s = filter (\<lambda>x. x \<noteq> []) (split_slash s)"

fun resolve :: "string list \<Rightarrow> string list \<Rightarrow> string list" where
  "resolve st [] = st"
| "resolve st (c # cs) =
     resolve (if c = ''.'' then st else if c = ''..'' then butlast st else st @ [c]) cs"

section \<open>The component loop\<close>

lemma split_slash_ne [simp]: "split_slash s \<noteq> []"
  by (induction s) (auto split: list.splits)

lemma split_slash_no: "SLASH \<notin> set s \<Longrightarrow> split_slash s = [s]"
  by (induction s) auto

lemma split_slash_append:
  "SLASH \<notin> set a \<Longrightarrow> split_slash (a @ SLASH # s) = a # split_slash s"
  by (induction a) auto

lemma path_names_Nil [simp]: "path_names [] = []"
  by (simp add: path_names_def)

lemma path_names_slash [simp]: "path_names (SLASH # s) = path_names s"
  by (simp add: path_names_def)

lemma path_names_append:
  "SLASH \<notin> set a \<Longrightarrow> a \<noteq> [] \<Longrightarrow> path_names (a @ SLASH # s) = a # path_names s"
  by (simp add: path_names_def split_slash_append)

lemma path_names_single: "SLASH \<notin> set a \<Longrightarrow> a \<noteq> [] \<Longrightarrow> path_names a = [a]"
  by (simp add: path_names_def split_slash_no)

lemma path_names_skip: "path_names (dropWhile (\<lambda>c. c = SLASH) s) = path_names s"
  by (induction s) auto

lemma path_names_step:
  assumes "p \<noteq> []" "hd p \<noteq> SLASH"
  shows "path_names p = takeWhile (\<lambda>c. c \<noteq> SLASH) p
     # path_names (case dropWhile (\<lambda>c. c \<noteq> SLASH) p of [] \<Rightarrow> [] | _ # r \<Rightarrow> r)"
proof -
  let ?a = "takeWhile (\<lambda>c. c \<noteq> SLASH) p" and ?r = "dropWhile (\<lambda>c. c \<noteq> SLASH) p"
  have a: "SLASH \<notin> set ?a" "?a \<noteq> []" using assms by (cases p; auto dest: set_takeWhileD)+
  have p: "p = ?a @ ?r" by simp
  show ?thesis
  proof (cases ?r)
    case Nil
    then have "p = ?a" using p by (metis append_Nil2)
    then show ?thesis using path_names_single [OF a] Nil by (metis list.simps(4) path_names_Nil)
  next
    case (Cons c r)
    then have "c = SLASH" using hd_dropWhile [of "\<lambda>c. c \<noteq> SLASH" p] by simp
    then have "p = ?a @ SLASH # r" using p Cons by simp
    then have "path_names p = path_names (?a @ SLASH # r)" by simp
    then show ?thesis using path_names_append [OF a, of r] Cons by simp
  qed
qed

lemma tl_case: "(if r \<noteq> [] then tl r else r) = (case r of [] \<Rightarrow> [] | _ # r' \<Rightarrow> r')"
  by (cases r) auto

lemma path_components_fold: "path_components p comps = fold push_component (path_names p) comps"
proof (induction p comps rule: path_components.induct)
  case (1 p comps)
  let ?q = "dropWhile (\<lambda>c. c = SLASH) p"
  show ?case
  proof (cases "?q = []")
    case True
    then have "path_names p = []" using path_names_skip [of p] by (metis path_names_Nil)
    then show ?thesis using True by (subst path_components.simps) simp
  next
    case False
    let ?r = "dropWhile (\<lambda>c. c \<noteq> SLASH) ?q"
    note t = tl_case [of ?r]
    have "path_names ?q = takeWhile (\<lambda>c. c \<noteq> SLASH) ?q # path_names (case ?r of [] \<Rightarrow> [] | _ # r \<Rightarrow> r)"
      by (rule path_names_step [OF False hd_dropWhile [OF False]])
    then have n: "path_names p = takeWhile (\<lambda>c. c \<noteq> SLASH) ?q # path_names (case ?r of [] \<Rightarrow> [] | _ # r \<Rightarrow> r)"
      unfolding path_names_skip .
    have p: "p \<noteq> []" using False by auto
    have "path_components p comps =
        path_components (if ?r \<noteq> [] then tl ?r else ?r) (push_component (takeWhile (\<lambda>c. c \<noteq> SLASH) ?q) comps)"
      using p False by (subst path_components.simps) (simp only: Let_def if_False)
    also have "\<dots> = fold push_component (path_names (if ?r \<noteq> [] then tl ?r else ?r))
        (push_component (takeWhile (\<lambda>c. c \<noteq> SLASH) ?q) comps)"
      by (rule 1 [OF p refl False refl refl refl])
    finally show ?thesis unfolding t n by simp
  qed
qed

lemma path_names_ok: "c \<in> set (path_names s) \<Longrightarrow> c \<noteq> [] \<and> SLASH \<notin> set c"
proof -
  have "x \<in> set (split_slash s) \<Longrightarrow> SLASH \<notin> set x" for x
    by (induction s arbitrary: x) (auto split: list.splits if_splits)
  then show "c \<in> set (path_names s) \<Longrightarrow> c \<noteq> [] \<and> SLASH \<notin> set c" by (auto simp: path_names_def)
qed

lemma fold_push_ok:
  assumes "\<forall>c \<in> set cs. c \<noteq> [] \<and> SLASH \<notin> set c" "\<forall>c \<in> set st. name_ok c"
  shows "\<forall>c \<in> set (fold push_component cs st). name_ok c"
  using assms
proof (induction cs arbitrary: st)
  case (Cons c cs)
  have "\<forall>x \<in> set (push_component c st). name_ok x"
    using Cons.prems by (auto simp: push_component_def name_ok_def dest: in_set_butlastD)
  with Cons show ?case by simp
qed simp

lemma fold_push_resolve:
  assumes "length st + length cs \<le> 64"
  shows "fold push_component cs st = resolve st cs"
  using assms
proof (induction cs arbitrary: st)
  case (Cons c cs)
  then have "length (push_component c st) + length cs \<le> 64" by (auto simp: push_component_def)
  from Cons.IH [OF this] Cons.prems show ?case by (auto simp: push_component_def)
qed simp

lemma fold_push_names:
  assumes "\<forall>c \<in> set cs. name_ok c" "length st + length cs \<le> 64"
  shows "fold push_component cs st = st @ cs"
  using assms
proof (induction cs arbitrary: st)
  case (Cons c cs)
  then have "push_component c st = st @ [c]" by (auto simp: push_component_def name_ok_def)
  with Cons show ?case by simp
qed simp

lemma fold_push_length: "length st \<le> 64 \<Longrightarrow> length (fold push_component cs st) \<le> 64"
proof (induction cs arbitrary: st)
  case (Cons c cs)
  then have "length (push_component c st) \<le> 64" by (auto simp: push_component_def)
  with Cons show ?case by simp
qed simp

lemma path_names_rebuild_cons:
  "SLASH \<notin> set c \<Longrightarrow> c \<noteq> [] \<Longrightarrow> path_names (c @ rebuild cs) = c # path_names (rebuild cs)"
  by (cases cs) (simp_all add: path_names_single path_names_append)

lemma path_names_rebuild: "\<forall>c \<in> set cs. name_ok c \<Longrightarrow> path_names (rebuild cs) = cs"
  by (induction cs) (auto simp: path_names_rebuild_cons name_ok_def)

lemma path_names_render: "\<forall>c \<in> set cs. name_ok c \<Longrightarrow> path_names (render cs) = cs"
  by (auto simp: render_def path_names_rebuild)

lemma path_normalize_render: "path_normalize base path = render (fold push_component (path_names (path_work base path)) [])"
  by (simp add: path_normalize_def path_components_fold render_def Let_def)

lemma path_normalize_canonical:
  obtains cs where "path_normalize base path = render cs" "\<forall>c \<in> set cs. name_ok c" "length cs \<le> 64"
proof
  let ?cs = "fold push_component (path_names (path_work base path)) []"
  show "path_normalize base path = render ?cs" by (rule path_normalize_render)
  show "\<forall>c \<in> set ?cs. name_ok c" using path_names_ok by (intro fold_push_ok) auto
  show "length ?cs \<le> 64" by (rule fold_push_length) simp
qed


section \<open>Lengths\<close>

lemma length_rebuild: "length (rebuild cs) = sum_list (map (\<lambda>c. length c + 1) cs)"
  by (induction cs) simp_all

lemma split_slash_length: "sum_list (map (\<lambda>c. length c + 1) (split_slash s)) = length s + 1"
  by (induction s) (auto split: list.splits)

lemma path_names_length: "length (rebuild (path_names s)) \<le> length s + 1"
proof -
  have "sum_list (map (\<lambda>c. length c + 1) (filter P xs)) \<le> sum_list (map (\<lambda>c. length c + 1) xs)"
    for P and xs :: "string list"
    by (induction xs) auto
  from this [of "\<lambda>x. x \<noteq> []" "split_slash s"] show ?thesis
    unfolding split_slash_length path_names_def length_rebuild .
qed

lemma rebuild_append [simp]: "rebuild (xs @ ys) = rebuild xs @ rebuild ys"
  by (induction xs) simp_all

lemma length_rebuild_butlast: "length (rebuild (butlast st)) \<le> length (rebuild st)"
  by (induction st) auto

lemma fold_push_rebuild_length:
  "length (rebuild (fold push_component cs st)) \<le> length (rebuild st) + length (rebuild cs)"
proof (induction cs arbitrary: st)
  case (Cons c cs)
  have "length (rebuild (push_component c st)) \<le> length (rebuild st) + (length c + 1)"
    using length_rebuild_butlast [of st] by (auto simp: push_component_def)
  with Cons.IH [of "push_component c st"] show ?case by simp
qed simp

definition base_absolute :: "string option \<Rightarrow> bool" where
  "base_absolute base \<longleftrightarrow> (case base of None \<Rightarrow> True | Some b \<Rightarrow> path_is_absolute b)"

lemma path_work_absolute:
  assumes "path_is_absolute path \<or> base_absolute base"
  obtains w where "path_work base path = SLASH # w" "length w \<le> 510"
proof -
  have len: "length (path_work base path) \<le> 511"
    by (auto simp: path_work_def Let_def min_def)
  have "path_is_absolute (path_work base path)"
  proof (cases "path_is_absolute path")
    case True
    then show ?thesis by (auto simp: path_work_def path_is_absolute_def split: list.splits)
  next
    case False
    then have b: "path_is_absolute (case base of None \<Rightarrow> ''/'' | Some b \<Rightarrow> b)"
      using assms by (auto simp: base_absolute_def path_is_absolute_def split: option.splits)
    then obtain b' where "(case base of None \<Rightarrow> ''/'' | Some b \<Rightarrow> b) = SLASH # b'"
      by (auto simp: path_is_absolute_def split: list.splits)
    with False show ?thesis by (auto simp: path_work_def Let_def path_is_absolute_def)
  qed
  with len that show ?thesis by (auto simp: path_is_absolute_def split: list.splits)
qed

lemma path_normalize_length:
  assumes "path_is_absolute path \<or> base_absolute base"
  shows "length (path_normalize base path) \<le> 511"
proof -
  obtain w where w: "path_work base path = SLASH # w" "length w \<le> 510"
    using path_work_absolute [OF assms] by blast
  have "length (rebuild (fold push_component (path_names w) [])) \<le> 511"
    using fold_push_rebuild_length [of "path_names w" "[]"] path_names_length [of w] w(2) by simp
  then show ?thesis unfolding path_normalize_render w(1) by (simp add: render_def)
qed

lemma render_absolute [simp]: "path_is_absolute (render cs)"
  by (cases cs) (simp_all add: render_def path_is_absolute_def)

lemma path_work_render: "length (render cs) \<le> 511 \<Longrightarrow> path_work base (render cs) = render cs"
  by (simp add: path_work_def)

lemma path_normalize_names:
  assumes "\<forall>c \<in> set cs. name_ok c" "length cs \<le> 64" "length (render cs) \<le> 511"
  shows "path_normalize base (render cs) = render cs"
  using assms fold_push_names [of cs "[]"] by (simp add: path_normalize_render path_work_render path_names_render)

section \<open>Splitting at the last slash\<close>

lemma split_last_none: "SLASH \<notin> set s \<Longrightarrow> split_last s = None"
  by (induction s) auto

lemma split_last_append: "SLASH \<notin> set c \<Longrightarrow> split_last (a @ SLASH # c) = Some (a, c)"
  by (induction a) (simp_all add: split_last_none)

lemma rebuild_last: "c \<noteq> [] \<Longrightarrow> SLASH \<notin> set c \<Longrightarrow> last (rebuild (cs @ [c])) \<noteq> SLASH"
  by (auto simp: last_append) (metis last_in_set)

lemma name_ok_notslash: "name_ok c \<Longrightarrow> SLASH \<notin> set c" "name_ok c \<Longrightarrow> c \<noteq> []"
  by (auto simp: name_ok_def)

lemma rebuild_ends:
  assumes "cs \<noteq> []" "\<forall>c \<in> set cs. name_ok c"
  shows "rebuild cs \<noteq> []" "last (rebuild cs) \<noteq> SLASH"
proof -
  obtain ds d where "cs = ds @ [d]" using assms(1) by (metis append_butlast_last_id)
  then show "rebuild cs \<noteq> []" "last (rebuild cs) \<noteq> SLASH"
    using assms(2) name_ok_notslash [of d] rebuild_last [of d ds] by auto
qed

lemma path_names_split_slash: "path_names (a @ SLASH # s) = path_names a @ path_names s"
proof -
  have "split_slash (a @ SLASH # s) = split_slash a @ split_slash s" for a s
    by (induction a) (auto split: list.splits simp: neq_Nil_conv)
  then show ?thesis by (simp add: path_names_def)
qed

text \<open>The loop over the work buffer against the reference reading.\<close>

lemma path_normalize_resolve:
  assumes "if path_is_absolute path then length path \<le> 511 else length b + length path < 511"
    and "ns = (if path_is_absolute path then path_names path else path_names b @ path_names path)"
    and "length ns \<le> 64"
  shows "path_normalize (Some b) path = render (resolve [] ns)"
proof -
  have "path_names (path_work (Some b) path) = ns"
  proof (cases "path_is_absolute path")
    case True
    then show ?thesis using assms by (simp add: path_work_def)
  next
    case False
    show ?thesis
    proof (cases "b = [] \<or> last b \<noteq> SLASH")
      case True
      with False assms(1) have "path_work (Some b) path = b @ SLASH # path"
        by (auto simp: path_work_def Let_def)
      then show ?thesis using False assms(2) by (simp add: path_names_split_slash)
    next
      case bs: False
      then obtain b' where b': "b = b' @ [SLASH]" by (metis append_butlast_last_id)
      with False bs assms(1) have "path_work (Some b) path = b' @ SLASH # path"
        by (auto simp: path_work_def Let_def)
      moreover have "path_names b = path_names b'" using path_names_split_slash [of b' "[]"] b' by simp
      ultimately show ?thesis using False assms(2) by (simp add: path_names_split_slash)
    qed
  qed
  then show ?thesis using assms(3) fold_push_resolve [of "[]" ns] by (simp add: path_normalize_render)
qed

section \<open>Properties\<close>

text \<open>
  C24: \<^verbatim>\<open>path_normalize\<close> computes the usual meaning of a path: when the input fits the work
  buffer and has at most 64 names, the result is the absolute path whose names are those of the
  base directory (for a relative path) and of the path, with "." dropped and ".." removing the
  name before it.
\<close>

theorem path_normalize_correct:
  assumes "if path_is_absolute path then length path \<le> 511 else length b + length path < 511"
    and "ns = (if path_is_absolute path then path_names path else path_names b @ path_names path)"
    and "length ns \<le> 64"
  shows "path_normalize (Some b) path = render (resolve [] ns)"
  by (rule path_normalize_resolve [OF assms])

text \<open>
  Whatever the input, cut or not, the normalized path is canonical (absolute, no empty, "."
  or ".." component, no trailing slash but for the root); and normalizing it again, from any
  directory, changes nothing, when the path or the base directory was absolute.
\<close>

theorem path_normalize_idempotent:
  "canonical (path_normalize base path) \<and>
   (path_is_absolute path \<or> base_absolute base \<longrightarrow>
      path_normalize base' (path_normalize base path) = path_normalize base path)"
proof -
  obtain cs where cs: "path_normalize base path = render cs" "\<forall>c \<in> set cs. name_ok c" "length cs \<le> 64"
    by (rule path_normalize_canonical)
  have "path_normalize base' (render cs) = render cs" if "path_is_absolute path \<or> base_absolute base"
    using path_normalize_names [OF cs(2,3)] path_normalize_length [OF that] cs(1) by simp
  then show ?thesis using cs by (auto simp: canonical_def)
qed

text \<open>
  On the canonical path of the names \<open>cs\<close> followed by \<open>c\<close>, \<^verbatim>\<open>path_basename\<close> gives the last
  name, \<^verbatim>\<open>path_dirname\<close> the path of the others, and \<^verbatim>\<open>path_join\<close> puts them together again;
  changing directory to ".." from there is the same as taking the directory name.
\<close>

theorem path_split_join:
  assumes "\<forall>x \<in> set (cs @ [c]). name_ok x"
  shows "path_basename (render (cs @ [c])) = c \<and> path_dirname (render (cs @ [c])) = render cs
    \<and> path_join (render cs) c = render (cs @ [c])
    \<and> (length cs < 63 \<and> length (render (cs @ [c])) < 500 \<longrightarrow>
        path_normalize (Some (render (cs @ [c]))) ''..'' = path_dirname (render (cs @ [c])))"
proof -
  have c: "SLASH \<notin> set c" "c \<noteq> []" using assms name_ok_notslash [of c] by auto
  have r: "render (cs @ [c]) = rebuild cs @ SLASH # c" by (simp add: render_def)
  note sl = split_last_append [OF c(1), of "rebuild cs"]
  have ne: "rebuild cs = [] \<longleftrightarrow> cs = []" by (cases cs) auto
  have dir: "path_dirname (render (cs @ [c])) = render cs"
    using sl ne by (simp add: path_dirname_def r render_def)
  have join: "path_join (render cs) c = render (cs @ [c])"
  proof (cases "cs = []")
    case True
    then show ?thesis using c by (cases c) (auto simp: path_join_def render_def)
  next
    case False
    then show ?thesis using c rebuild_ends [OF False] assms
      by (cases c) (auto simp: path_join_def render_def)
  qed
  have "path_normalize (Some (render (cs @ [c]))) ''..'' = render cs"
    if "length cs < 63" "length (render (cs @ [c])) < 500"
  proof -
    have "path_names ''..'' = [''..'']" by (simp add: path_names_def)
    then have "path_normalize (Some (render (cs @ [c]))) ''..'' = render (resolve [] ((cs @ [c]) @ [''..'']))"
      using that assms path_names_render [of "cs @ [c]"]
      by (intro path_normalize_resolve) (auto simp: path_is_absolute_def)
    also have "resolve [] ((cs @ [c]) @ [''..'']) = cs"
    proof -
      have "resolve st (xs @ ys) = resolve (resolve st xs) ys" for st xs ys
        by (induction xs arbitrary: st) simp_all
      moreover have "resolve st xs = st @ xs" if "\<forall>x \<in> set xs. name_ok x" for st xs
        using that by (induction xs arbitrary: st) (auto simp: name_ok_def)
      ultimately show ?thesis using assms by (simp add: name_ok_def [of c])
    qed
    finally show ?thesis .
  qed
  then show ?thesis using sl c(2) dir join by (simp add: path_basename_def r)
qed


text \<open>
  The result is not bounded by the output buffer: the header promises a buffer of
  \<^verbatim>\<open>PATH_MAX\<close> (256) bytes, but an absolute path of one long name comes back with its full
  length, up to 511 characters.
\<close>

theorem path_normalize_exceeds_buffer:
  assumes "1 \<le> n" "n \<le> 510"
  shows "length (path_normalize base (SLASH # replicate n CHR ''a'')) = n + 1"
proof -
  let ?a = "replicate n CHR ''a''"
  have "?a \<noteq> ''.''" "?a \<noteq> ''..''" by (auto simp: Cons_replicate_eq dest: sym)
  then have "name_ok ?a" using assms(1) by (auto simp: name_ok_def)
  then have "path_normalize base (render [?a]) = render [?a]"
    using assms(2) by (intro path_normalize_names) (auto simp: render_def)
  then show ?thesis by (simp add: render_def)
qed

section \<open>Witnesses\<close>

theorem path_normalize_correct_witness:
  "path_normalize (Some ''/home/u'') ''../v//./w'' = ''/home/v/w''"
  using path_normalize_correct [of "''../v//./w''" "''/home/u''" "[''home'', ''u'', ''..'', ''v'', ''.'', ''w'']"]
  by (simp add: path_is_absolute_def path_names_def render_def)

theorem path_normalize_idempotent_witness:
  "path_normalize None (path_normalize (Some ''/'') ''a/../b'') = path_normalize (Some ''/'') ''a/../b''"
  using path_normalize_idempotent [of "Some ''/''" "''a/../b''" None]
  by (simp add: base_absolute_def path_is_absolute_def)

theorem path_split_join_witness:
  "path_dirname ''/etc/passwd'' = ''/etc'' \<and> path_basename ''/etc/passwd'' = ''passwd''
    \<and> path_join ''/etc'' ''passwd'' = ''/etc/passwd''"
  using path_split_join [of "[''etc'']" "''passwd''"] by (simp add: name_ok_def render_def)

theorem path_normalize_exceeds_buffer_witness:
  "PATH_MAX < length (path_normalize None (SLASH # replicate 300 CHR ''a''))"
  using path_normalize_exceeds_buffer [of 300 None] by simp

end
