(* ===== verification/Disk.thy ===== *)
theory Disk
  imports Prelude
begin

text \<open>
  The unified disk driver, \<^verbatim>\<open>drivers/ata.c\<close>, from its public interface down to one sector
  transfer of the legacy IDE back end. The medium (sector contents, which sectors fail, and
  whether the cache flush after a write fails) is hardware and part of the state; the port
  polling that moves one sector is one access to it. The AHCI and xHCI back ends, register-level
  drivers of other controllers, are parameters carried by the state. \<open>device_ok\<close> states what
  the clients rely on; it holds of the IDE back end on a medium without failing sectors.
\<close>

section \<open>State\<close>

datatype disk_backend = DISK_NONE | DISK_IDE | DISK_AHCI | DISK_XHCI

type_synonym medium = "nat \<Rightarrow> u8 list"

record disk =
  dk_backend :: disk_backend
  dk_total :: u32
  dk_sector :: medium
  dk_fails :: "nat \<Rightarrow> bool"
  dk_flush_fails :: "nat \<Rightarrow> bool"
  dk_ahci_read :: "u32 \<Rightarrow> nat \<Rightarrow> medium \<Rightarrow> int \<times> u8 list"
  dk_ahci_write :: "u32 \<Rightarrow> nat \<Rightarrow> u8 list \<Rightarrow> medium \<Rightarrow> int \<times> medium"
  dk_xhci_read :: "u32 \<Rightarrow> nat \<Rightarrow> medium \<Rightarrow> int \<times> u8 list"
  dk_xhci_write :: "u32 \<Rightarrow> nat \<Rightarrow> u8 list \<Rightarrow> medium \<Rightarrow> int \<times> medium"

section \<open>The IDE back end\<close>

text \<open>
  The drive is given 28 address bits: four in the drive register and three bytes.
  A read returns the status and the bytes transferred before it stopped.
\<close>

definition lba28 :: "u32 \<Rightarrow> nat" where
  "lba28 cur = unat (cur AND 0x0FFFFFFF)"

function ide_read_loop :: "disk \<Rightarrow> u32 \<Rightarrow> nat \<Rightarrow> nat \<Rightarrow> u8 list \<Rightarrow> int \<times> u8 list" where
  "ide_read_loop d lba s n out =
     (if s < n
      then let cur = lba + of_nat s
           in if dk_fails d (lba28 cur) then (-1, out)
              else ide_read_loop d lba (s + 1) n (out @ dk_sector d (lba28 cur))
      else (0, out))"
  by pat_completeness auto
termination by (relation "measure (\<lambda>(d, lba, s, n, out). n - s)") auto

definition ide_read_sectors :: "u32 \<Rightarrow> u8 \<Rightarrow> disk \<Rightarrow> int \<times> u8 list" where
  "ide_read_sectors lba count d =
     (let n = (if count = 0 then 256 else unat count) in ide_read_loop d lba 0 n [])"

function ide_write_loop :: "u32 \<Rightarrow> nat \<Rightarrow> nat \<Rightarrow> u8 list \<Rightarrow> disk \<Rightarrow> int \<times> disk" where
  "ide_write_loop lba s n buf d =
     (if s < n
      then let cur = lba + of_nat s
           in if dk_fails d (lba28 cur) then (-1, d)
              else let d = d\<lparr>dk_sector := (dk_sector d)(lba28 cur := slice (s * 512) 512 buf)\<rparr>
                   in if dk_flush_fails d (lba28 cur) then (-2, d) else ide_write_loop lba (s + 1) n buf d
      else (0, d))"
  by pat_completeness auto
termination by (relation "measure (\<lambda>(lba, s, n, buf, d). n - s)") auto

definition ide_write_sectors :: "u32 \<Rightarrow> u8 \<Rightarrow> u8 list \<Rightarrow> disk \<Rightarrow> int \<times> disk" where
  "ide_write_sectors lba count buf d =
     (let n = (if count = 0 then 256 else unat count) in ide_write_loop lba 0 n buf d)"

declare ide_read_loop.simps [simp del] ide_write_loop.simps [simp del]

section \<open>The public interface\<close>

definition ata_present :: "disk \<Rightarrow> bool" where
  "ata_present d \<longleftrightarrow> dk_backend d \<noteq> DISK_NONE"

definition ata_total_sectors :: "disk \<Rightarrow> u32" where
  "ata_total_sectors d = dk_total d"

definition ata_read_sectors :: "u32 \<Rightarrow> u8 \<Rightarrow> disk \<Rightarrow> int \<times> u8 list" where
  "ata_read_sectors lba count d =
     (let cnt16 = (if count = 0 then 256 else unat count)
      in case dk_backend d of
           DISK_IDE \<Rightarrow> ide_read_sectors lba count d
         | DISK_AHCI \<Rightarrow> dk_ahci_read d lba cnt16 (dk_sector d)
         | DISK_XHCI \<Rightarrow> dk_xhci_read d lba cnt16 (dk_sector d)
         | DISK_NONE \<Rightarrow> (-10, []))"

definition ata_write_sectors :: "u32 \<Rightarrow> u8 \<Rightarrow> u8 list \<Rightarrow> disk \<Rightarrow> int \<times> disk" where
  "ata_write_sectors lba count buf d =
     (let cnt16 = (if count = 0 then 256 else unat count)
      in case dk_backend d of
           DISK_IDE \<Rightarrow> ide_write_sectors lba count buf d
         | DISK_AHCI \<Rightarrow> (case dk_ahci_write d lba cnt16 buf (dk_sector d) of (rc, s) \<Rightarrow> (rc, d\<lparr>dk_sector := s\<rparr>))
         | DISK_XHCI \<Rightarrow> (case dk_xhci_write d lba cnt16 buf (dk_sector d) of (rc, s) \<Rightarrow> (rc, d\<lparr>dk_sector := s\<rparr>))
         | DISK_NONE \<Rightarrow> (-10, d))"

section \<open>Runs of sectors\<close>

definition read_run :: "medium \<Rightarrow> nat \<Rightarrow> nat \<Rightarrow> u8 list" where
  "read_run s lba n = concat (map s [lba..<lba + n])"

definition write_run :: "nat \<Rightarrow> nat \<Rightarrow> u8 list \<Rightarrow> medium \<Rightarrow> medium" where
  "write_run lba n buf s = (\<lambda>x. if lba \<le> x \<and> x < lba + n then slice ((x - lba) * 512) 512 buf else s x)"

lemma read_run_append: "read_run s lba (m + n) = read_run s lba m @ read_run s (lba + m) n"
proof -
  have "[lba..<lba + (m + n)] = [lba..<lba + m] @ [lba + m..<lba + m + n]"
    by (metis add.assoc le_add1 upt_add_eq_append)
  then show ?thesis by (simp add: read_run_def)
qed

lemma length_read_run: "\<forall>x. length (s x) = 512 \<Longrightarrow> length (read_run s lba n) = n * 512"
  by (induction n) (simp_all add: read_run_def)

lemma read_run_cong: "\<forall>x. lba \<le> x \<and> x < lba + n \<longrightarrow> s x = s' x \<Longrightarrow> read_run s lba n = read_run s' lba n"
  unfolding read_run_def by (intro arg_cong [of _ _ concat] map_cong) auto

lemma length_write_run:
  assumes "length buf = n * 512" "\<forall>x. length (s x) = 512"
  shows "length (write_run lba n buf s x) = 512"
proof (cases "lba \<le> x \<and> x < lba + n")
  case True
  then have "x - lba + 1 \<le> n" by linarith
  then have "(x - lba) * 512 + 512 \<le> length buf" using assms(1) by simp
  then show ?thesis using True by (simp add: write_run_def)
qed (use assms(2) in \<open>auto simp: write_run_def\<close>)

lemma read_write_run:
  assumes "length buf = n * 512"
  shows "read_run (write_run lba n buf s) lba n = buf"
proof -
  have "k \<le> n \<Longrightarrow> read_run (write_run lba n buf s) lba k = take (k * 512) buf" for k
  proof (induction k)
    case (Suc k)
    have "slice (k * 512) 512 buf = take 512 (drop (k * 512) buf)" by (simp add: slice_def)
    then have "read_run (write_run lba n buf s) (lba + k) 1 = take 512 (drop (k * 512) buf)"
      using Suc.prems by (simp add: read_run_def write_run_def)
    moreover have "read_run (write_run lba n buf s) lba (k + 1)
        = read_run (write_run lba n buf s) lba k @ read_run (write_run lba n buf s) (lba + k) 1"
      by (rule read_run_append)
    ultimately show ?case using Suc take_add [of "k * 512" 512 buf] by (simp add: add.commute)
  qed (simp add: read_run_def)
  then show ?thesis using assms by simp
qed

lemma read_write_run_other:
  "a + m \<le> lba \<or> lba + n \<le> a \<Longrightarrow> read_run (write_run lba n buf s) a m = read_run s a m"
  by (intro read_run_cong) (auto simp: write_run_def)

lemma write_run_append:
  assumes "length buf = m * 512"
  shows "write_run (lba + m) n buf' (write_run lba m buf s) = write_run lba (m + n) (buf @ buf') s"
proof
  fix x
  have "slice ((x - (lba + m)) * 512) 512 buf' = slice ((x - lba) * 512) 512 (buf @ buf')"
    if "lba + m \<le> x"
  proof -
    have "(x - lba) * 512 = m * 512 + (x - (lba + m)) * 512"
      using that by (metis Nat.le_imp_diff_is_add add.commute add_mult_distrib diff_diff_left diff_is_0_eq le_add_diff_inverse nat_le_linear)
    then show ?thesis using assms by (simp add: slice_def)
  qed
  moreover have "slice ((x - lba) * 512) 512 buf = slice ((x - lba) * 512) 512 (buf @ buf')"
    if "lba \<le> x" "x < lba + m"
  proof -
    have "x - lba + 1 \<le> m" using that by linarith
    then have "(x - lba + 1) * 512 \<le> length buf" using assms by simp
    then show ?thesis by (simp add: slice_def)
  qed
  ultimately show "write_run (lba + m) n buf' (write_run lba m buf s) x = write_run lba (m + n) (buf @ buf') s x"
    by (auto simp: write_run_def)
qed


section \<open>Transfers in chunks\<close>

text \<open>
  The loops that \<^verbatim>\<open>blockfs.c\<close> and \<^verbatim>\<open>diskfs.c\<close> run around the driver: at most \<open>c\<close> sectors per
  call (255 when reading, 32 when writing), stopping at the first error. They are written over
  the driver's operations, which every client instantiates with \<open>ata_read_sectors\<close> and
  \<open>ata_write_sectors\<close>.
\<close>

function read_chunks ::
  "(u32 \<Rightarrow> u8 \<Rightarrow> 'd \<Rightarrow> int \<times> u8 list) \<Rightarrow> nat \<Rightarrow> u32 \<Rightarrow> nat \<Rightarrow> nat \<Rightarrow> u8 list \<Rightarrow> 'd \<Rightarrow> u8 list option" where
  "read_chunks rd c base got n acc d =
     (if got < n \<and> 0 < c
      then let chunk = min c (n - got)
           in case rd (base + of_nat got) (of_nat chunk) d of
                (rc, bs) \<Rightarrow> if rc \<noteq> 0 then None else read_chunks rd c base (got + chunk) n (acc @ bs) d
      else Some acc)"
  by pat_completeness auto
termination by (relation "measure (\<lambda>(rd, c, base, got, n, acc, d). n - got)") auto

function write_chunks ::
  "(u32 \<Rightarrow> u8 \<Rightarrow> u8 list \<Rightarrow> 'd \<Rightarrow> int \<times> 'd) \<Rightarrow> nat \<Rightarrow> u32 \<Rightarrow> nat \<Rightarrow> nat \<Rightarrow> u8 list \<Rightarrow> 'd \<Rightarrow> bool \<times> 'd" where
  "write_chunks wr c base written n buf d =
     (if written < n \<and> 0 < c
      then let chunk = min c (n - written)
           in case wr (base + of_nat written) (of_nat chunk) (slice (written * 512) (chunk * 512) buf) d of
                (rc, d) \<Rightarrow> if rc \<noteq> 0 then (False, d) else write_chunks wr c base (written + chunk) n buf d
      else (True, d))"
  by pat_completeness auto
termination by (relation "measure (\<lambda>(wr, c, base, written, n, buf, d). n - written)") auto

declare read_chunks.simps [simp del] write_chunks.simps [simp del]

section \<open>What clients rely on\<close>

locale block_device =
  fixes ok :: "'d \<Rightarrow> bool"
    and cap :: "'d \<Rightarrow> nat"
    and sectors :: "'d \<Rightarrow> medium"
    and rd :: "u32 \<Rightarrow> u8 \<Rightarrow> 'd \<Rightarrow> int \<times> u8 list"
    and wr :: "u32 \<Rightarrow> u8 \<Rightarrow> u8 list \<Rightarrow> 'd \<Rightarrow> int \<times> 'd"
  assumes cap_u32: "ok d \<Longrightarrow> cap d < 4294967296"
    and sector_size: "ok d \<Longrightarrow> length (sectors d x) = 512"
    and rd_ok: "ok d \<Longrightarrow> 0 < count \<Longrightarrow> unat lba + unat count \<le> cap d
      \<Longrightarrow> rd lba count d = (0, read_run (sectors d) (unat lba) (unat count))"
    and wr_ok: "ok d \<Longrightarrow> 0 < count \<Longrightarrow> unat lba + unat count \<le> cap d \<Longrightarrow> length buf = unat count * 512
      \<Longrightarrow> \<exists>d'. wr lba count buf d = (0, d') \<and> ok d' \<and> cap d' = cap d
            \<and> sectors d' = write_run (unat lba) (unat count) buf (sectors d)"
begin

lemma chunk_args:
  fixes base :: u32
  assumes "ok d" "unat base + n \<le> cap d" "got < n" "0 < c" "c \<le> 255"
  shows "unat (of_nat (min c (n - got)) :: u8) = min c (n - got)"
    and "unat (base + of_nat got) = unat base + got"
    and "0 < (of_nat (min c (n - got)) :: u8)"
proof -
  have m: "min c (n - got) < 256" using assms(5) by simp
  then show u: "unat (of_nat (min c (n - got)) :: u8) = min c (n - got)" by (simp add: unat_of_nat)
  show "0 < (of_nat (min c (n - got)) :: u8)"
    unfolding word_less_nat_alt u using assms(3,4) by simp
  have "unat base + got < 4294967296" using cap_u32 [OF assms(1)] assms(2,3) by simp
  then show "unat (base + of_nat got) = unat base + got"
    using unat_plus_u32 [of base "of_nat got"] by simp
qed

lemma read_chunks_ok:
  assumes "ok d" "unat base + n \<le> cap d" "0 < c" "c \<le> 255" "got \<le> n"
  shows "read_chunks rd c base got n acc d = Some (acc @ read_run (sectors d) (unat base + got) (n - got))"
  using assms(5)
proof (induction "n - got" arbitrary: got acc rule: less_induct)
  case less
  show ?case
  proof (cases "got < n")
    case False
    with less(2) have "got = n" by simp
    then show ?thesis by (subst read_chunks.simps) (simp add: read_run_def)
  next
    case True
    let ?k = "min c (n - got)"
    have k: "0 < ?k" "got + ?k \<le> n" using True assms(3) by auto
    note args = chunk_args [OF assms(1,2) True assms(3,4)]
    have fit: "unat (base + of_nat got) + unat (of_nat ?k :: u8) \<le> cap d"
      unfolding args using k assms(2) by simp
    have r: "rd (base + of_nat got) (of_nat ?k) d = (0, read_run (sectors d) (unat base + got) ?k)"
      using rd_ok [OF assms(1) args(3) fit] unfolding args .
    have "read_chunks rd c base got n acc d
        = read_chunks rd c base (got + ?k) n (acc @ read_run (sectors d) (unat base + got) ?k) d"
      using True assms(3) r by (subst read_chunks.simps) (simp add: Let_def)
    also have "\<dots> = Some ((acc @ read_run (sectors d) (unat base + got) ?k)
        @ read_run (sectors d) (unat base + (got + ?k)) (n - (got + ?k)))"
      using k True by (intro less(1)) auto
    finally have e: "read_chunks rd c base got n acc d = Some ((acc @ read_run (sectors d) (unat base + got) ?k)
        @ read_run (sectors d) (unat base + (got + ?k)) (n - (got + ?k)))" .
    have "n - got = ?k + (n - (got + ?k))" using k by simp
    then have "read_run (sectors d) (unat base + got) ?k @ read_run (sectors d) (unat base + (got + ?k)) (n - (got + ?k))
        = read_run (sectors d) (unat base + got) (n - got)"
      by (metis add.assoc read_run_append)
    with e show ?thesis by simp
  qed
qed

lemma write_chunks_ok:
  assumes "ok d" "unat base + n \<le> cap d" "0 < c" "c \<le> 255" "written \<le> n" "length buf = n * 512"
  shows "\<exists>d'. write_chunks wr c base written n buf d = (True, d') \<and> ok d' \<and> cap d' = cap d
    \<and> sectors d' = write_run (unat base + written) (n - written) (drop (written * 512) buf) (sectors d)"
  using assms(1,2,5)
proof (induction "n - written" arbitrary: written d rule: less_induct)
  case less
  show ?case
  proof (cases "written < n")
    case False
    with less(4) have "written = n" by simp
    then show ?thesis using less(2)
      by (subst write_chunks.simps) (auto simp: write_run_def fun_eq_iff)
  next
    case True
    let ?k = "min c (n - written)"
    let ?b = "slice (written * 512) (?k * 512) buf"
    have k: "0 < ?k" "written + ?k \<le> n" using True assms(3) by auto
    note args = chunk_args [OF less(2,3) True assms(3,4)]
    have fit: "unat (base + of_nat written) + unat (of_nat ?k :: u8) \<le> cap d"
      unfolding args using k less(3) by simp
    have "written * 512 + ?k * 512 \<le> n * 512" using k(2) by (metis add_mult_distrib mult_le_mono1)
    then have lb: "length ?b = ?k * 512" using assms(6) by simp
    obtain d1 where d1: "wr (base + of_nat written) (of_nat ?k) ?b d = (0, d1)" "ok d1" "cap d1 = cap d"
      "sectors d1 = write_run (unat base + written) ?k ?b (sectors d)"
      using wr_ok [OF less(2) args(3) fit, of ?b] lb unfolding args by auto
    have "write_chunks wr c base written n buf d = write_chunks wr c base (written + ?k) n buf d1"
      using True assms(3) d1(1) by (subst write_chunks.simps) (simp add: Let_def)
    moreover have "\<exists>d'. write_chunks wr c base (written + ?k) n buf d1 = (True, d') \<and> ok d' \<and> cap d' = cap d1
      \<and> sectors d' = write_run (unat base + (written + ?k)) (n - (written + ?k)) (drop ((written + ?k) * 512) buf) (sectors d1)"
      using k True d1 less(3) by (intro less(1)) auto
    ultimately obtain d' where d': "write_chunks wr c base written n buf d = (True, d')" "ok d'" "cap d' = cap d"
      "sectors d' = write_run (unat base + (written + ?k)) (n - (written + ?k)) (drop ((written + ?k) * 512) buf) (sectors d1)"
      using d1(3) by auto
    have "?b @ drop ((written + ?k) * 512) buf = drop (written * 512) buf"
    proof -
      have "(written + ?k) * 512 = ?k * 512 + written * 512" by (simp only: add_mult_distrib add.commute)
      then show ?thesis
        using append_take_drop_id [of "?k * 512" "drop (written * 512) buf"] by (simp only: slice_def drop_drop)
    qed
    moreover have "?k + (n - (written + ?k)) = n - written" using k by simp
    ultimately have "sectors d' = write_run (unat base + written) (n - written) (drop (written * 512) buf) (sectors d)"
      using write_run_append [OF lb, of "unat base + written" "n - (written + ?k)" "drop ((written + ?k) * 512) buf" "sectors d"]
      unfolding d'(4) d1(4) by (simp add: add.assoc)
    with d' show ?thesis by blast
  qed
qed

end

section \<open>The driver as a block device\<close>

text \<open>
  What is asked of a host bus adapter back end: on sectors within the disk, for every medium, it
  reads and writes them.
\<close>

definition hba_ok :: "nat \<Rightarrow> (u32 \<Rightarrow> nat \<Rightarrow> medium \<Rightarrow> int \<times> u8 list)
    \<Rightarrow> (u32 \<Rightarrow> nat \<Rightarrow> u8 list \<Rightarrow> medium \<Rightarrow> int \<times> medium) \<Rightarrow> bool" where
  "hba_ok lim rd wr \<longleftrightarrow> (\<forall>lba n s. 0 < n \<and> unat lba + n \<le> lim \<longrightarrow>
     rd lba n s = (0, read_run s (unat lba) n)
     \<and> (\<forall>buf. length buf = n * 512 \<longrightarrow> wr lba n buf s = (0, write_run (unat lba) n buf s)))"

definition device_ok :: "disk \<Rightarrow> bool" where
  "device_ok d \<longleftrightarrow> (\<forall>x. length (dk_sector d x) = 512) \<and> (case dk_backend d of
       DISK_NONE \<Rightarrow> False
     | DISK_IDE \<Rightarrow> unat (dk_total d) \<le> 0x10000000
         \<and> (\<forall>x < unat (dk_total d). \<not> dk_fails d x \<and> \<not> dk_flush_fails d x)
     | DISK_AHCI \<Rightarrow> hba_ok (unat (dk_total d)) (dk_ahci_read d) (dk_ahci_write d)
     | DISK_XHCI \<Rightarrow> hba_ok (unat (dk_total d)) (dk_xhci_read d) (dk_xhci_write d))"

lemma lba28_small:
  assumes "unat lba + s < 0x10000000"
  shows "lba28 (lba + of_nat s) = unat lba + s"
proof -
  have u: "unat (lba + of_nat s) = unat lba + s"
    using unat_plus_u32 [of lba "of_nat s"] assms by simp
  have "w AND 0x0FFFFFFF = w mod 0x10000000" for w :: u32
  proof -
    have "w AND 0x0FFFFFFF = take_bit 28 w" by (simp add: take_bit_eq_mask mask_eq_exp_minus_1)
    then show ?thesis by (simp add: take_bit_eq_mod)
  qed
  then have "lba28 (lba + of_nat s) = unat (lba + of_nat s) mod 0x10000000"
    by (simp add: lba28_def unat_mod)
  then show ?thesis using u assms by simp
qed

lemma ide_read_loop_ok:
  assumes "unat lba + n \<le> unat (dk_total d)" "unat (dk_total d) \<le> 0x10000000"
    and "\<forall>x < unat (dk_total d). \<not> dk_fails d x" "s \<le> n"
  shows "ide_read_loop d lba s n out = (0, out @ read_run (dk_sector d) (unat lba + s) (n - s))"
  using assms
proof (induction d lba s n out rule: ide_read_loop.induct)
  case (1 d lba s n out)
  show ?case
  proof (cases "s < n")
    case False
    then show ?thesis using 1(5) by (subst ide_read_loop.simps) (simp add: read_run_def)
  next
    case True
    have l: "lba28 (lba + of_nat s) = unat lba + s" using 1(2,3) True by (intro lba28_small) simp
    have nf: "\<not> dk_fails d (unat lba + s)" using 1(2,4) True by simp
    have "ide_read_loop d lba (s + 1) n (out @ dk_sector d (lba28 (lba + of_nat s))) =
       (0, (out @ dk_sector d (lba28 (lba + of_nat s))) @ read_run (dk_sector d) (unat lba + (s + 1)) (n - (s + 1)))"
      using True l nf 1(2-5) by (intro 1(1)) auto
    moreover have "read_run (dk_sector d) (unat lba + s) (n - s)
        = dk_sector d (unat lba + s) @ read_run (dk_sector d) (unat lba + (s + 1)) (n - (s + 1))"
      using read_run_append [of "dk_sector d" "unat lba + s" 1 "n - (s + 1)"] True by (simp add: read_run_def)
    ultimately show ?thesis using True l nf by (subst ide_read_loop.simps) (simp add: Let_def)
  qed
qed

lemma ide_write_loop_ok:
  assumes "unat lba + n \<le> unat (dk_total d)" "unat (dk_total d) \<le> 0x10000000"
    and "\<forall>x < unat (dk_total d). \<not> dk_fails d x \<and> \<not> dk_flush_fails d x" "s \<le> n"
  shows "ide_write_loop lba s n buf d =
     (0, d\<lparr>dk_sector := \<lambda>x. if unat lba + s \<le> x \<and> x < unat lba + n then slice ((x - unat lba) * 512) 512 buf
                           else dk_sector d x\<rparr>)"
  using assms
proof (induction lba s n buf d rule: ide_write_loop.induct)
  case (1 lba s n buf d)
  show ?case
  proof (cases "s < n")
    case False
    have "(\<lambda>x. if unat lba + s \<le> x \<and> x < unat lba + n then slice ((x - unat lba) * 512) 512 buf
                           else dk_sector d x) = dk_sector d" using False by (auto simp: fun_eq_iff)
    then show ?thesis using False by (subst ide_write_loop.simps) simp
  next
    case True
    have l: "lba28 (lba + of_nat s) = unat lba + s" using 1(2,3) True by (intro lba28_small) simp
    have nf: "\<not> dk_fails d (unat lba + s)" "\<not> dk_flush_fails d (unat lba + s)" using 1(2,4) True by simp_all
    let ?d = "d\<lparr>dk_sector := (dk_sector d)(lba28 (lba + of_nat s) := slice (s * 512) 512 buf)\<rparr>"
    have "ide_write_loop lba (s + 1) n buf ?d =
     (0, ?d\<lparr>dk_sector := \<lambda>x. if unat lba + (s + 1) \<le> x \<and> x < unat lba + n then slice ((x - unat lba) * 512) 512 buf
                           else dk_sector ?d x\<rparr>)"
      using True l nf 1(2-5) by (intro 1(1)) auto
    moreover have "(\<lambda>x. if unat lba + (s + 1) \<le> x \<and> x < unat lba + n then slice ((x - unat lba) * 512) 512 buf
                           else dk_sector ?d x)
      = (\<lambda>x. if unat lba + s \<le> x \<and> x < unat lba + n then slice ((x - unat lba) * 512) 512 buf
                           else dk_sector d x)" using True l by (auto simp: fun_eq_iff)
    ultimately show ?thesis using True l nf by (subst ide_write_loop.simps) (simp add: Let_def)
  qed
qed

lemma word8_pos: "0 < (count :: u8) \<Longrightarrow> count \<noteq> 0" by auto

interpretation ata: block_device device_ok "\<lambda>d. unat (dk_total d)" dk_sector ata_read_sectors ata_write_sectors
proof
  fix d :: disk and lba :: u32 and count :: u8 and buf :: "u8 list" and x :: nat
  assume ok: "device_ok d"
  then show "length (dk_sector d x) = 512" by (simp add: device_ok_def)
  show "unat (dk_total d) < 4294967296" by (rule unat_u32_bound)
  assume c: "0 < count" and fit: "unat lba + unat count \<le> unat (dk_total d)"
  have n: "(if count = 0 then 256 else unat count) = unat count" "0 < unat count"
    using c by (auto simp: word_less_nat_alt)
  show "ata_read_sectors lba count d = (0, read_run (dk_sector d) (unat lba) (unat count))"
    using ok fit n ide_read_loop_ok [of lba "unat count" d 0 "[]"]
    by (auto simp: device_ok_def ata_read_sectors_def ide_read_sectors_def hba_ok_def Let_def split: disk_backend.splits)
  assume len: "length buf = unat count * 512"
  have w: "(\<lambda>x. if unat lba + 0 \<le> x \<and> x < unat lba + unat count then slice ((x - unat lba) * 512) 512 buf
                           else dk_sector d x) = write_run (unat lba) (unat count) buf (dk_sector d)"
    by (simp add: write_run_def)
  have "ata_write_sectors lba count buf d = (0, d\<lparr>dk_sector := write_run (unat lba) (unat count) buf (dk_sector d)\<rparr>)"
  proof (cases "dk_backend d = DISK_IDE")
    case True
    then show ?thesis using ok fit n ide_write_loop_ok [of lba "unat count" d 0 buf] unfolding w
      by (simp add: device_ok_def ata_write_sectors_def ide_write_sectors_def)
  next
    case False
    then show ?thesis using ok fit n len
      by (auto simp: device_ok_def ata_write_sectors_def hba_ok_def Let_def split: disk_backend.splits)
  qed
  then show "\<exists>d'. ata_write_sectors lba count buf d = (0, d') \<and> device_ok d' \<and> unat (dk_total d') = unat (dk_total d)
            \<and> dk_sector d' = write_run (unat lba) (unat count) buf (dk_sector d)"
    using ok length_write_run [OF len, of "dk_sector d"] by (auto simp: device_ok_def split: disk_backend.splits)
qed

end
