(* ===== verification/Blockfs.thy ===== *)
theory Blockfs
  imports Disk
begin

text \<open>
  The disk block allocator, \<^verbatim>\<open>fs/blockfs.c\<close>: the layout computed from the disk's size, the
  in-memory bitmap of 4 KiB blocks, first-fit allocation, block transfer and the bitmap's way to
  disk and back. Whether \<^verbatim>\<open>kmalloc\<close> delivers is an argument of the two functions that call it.
\<close>

section \<open>State\<close>

abbreviation DISKFS_TAIL_SECTORS :: u32 where "DISKFS_TAIL_SECTORS \<equiv> 131072"
abbreviation BOOT_RESERVE_SECTORS :: u32 where "BOOT_RESERVE_SECTORS \<equiv> 32768"
abbreviation BITMAP_LBA :: u32 where "BITMAP_LBA \<equiv> BOOT_RESERVE_SECTORS"
abbreviation SECTORS_PER_BLOCK :: u32 where "SECTORS_PER_BLOCK \<equiv> 8"
abbreviation BLOCK_INVALID :: u32 where "BLOCK_INVALID \<equiv> 0xFFFFFFFF"

record blockfs =
  bf_available :: bool
  bf_bitmap :: "u8 list"
  bf_bitmap_bytes :: u32
  bf_bitmap_sectors :: u32
  bf_data_start_lba :: u32
  bf_total_blocks :: u32
  bf_used_blocks :: u32

section \<open>Operations\<close>

definition bit_set :: "u32 \<Rightarrow> u8 list \<Rightarrow> u8 list" where
  "bit_set i bm = (let k = unat (drop_bit 3 i) in bm[k := bm ! k OR push_bit (unat (i AND 7)) 1])"

definition bit_clear :: "u32 \<Rightarrow> u8 list \<Rightarrow> u8 list" where
  "bit_clear i bm = (let k = unat (drop_bit 3 i) in bm[k := bm ! k AND NOT (push_bit (unat (i AND 7)) 1)])"

definition bit_test :: "u32 \<Rightarrow> u8 list \<Rightarrow> bool" where
  "bit_test i bm \<longleftrightarrow> drop_bit (unat (i AND 7)) (bm ! unat (drop_bit 3 i)) AND 1 \<noteq> 0"

definition count_used :: "nat \<Rightarrow> u8 list \<Rightarrow> u32" where
  "count_used n bm = fold (\<lambda>i c. if bit_test (of_nat i) bm then c + 1 else c) [0..<n] 0"

text \<open>
  \<open>ok1\<close> and \<open>ok2\<close> tell whether the two allocations of \<^verbatim>\<open>blockfs_init\<close> succeed. The bitmap is
  read in runs of at most 255 sectors and starts empty when the disk cannot be read.
\<close>

definition blockfs_init :: "bool \<Rightarrow> bool \<Rightarrow> disk \<Rightarrow> blockfs \<Rightarrow> bool \<times> blockfs" where
  "blockfs_init ok1 ok2 d b =
     (let b = b\<lparr>bf_available := False\<rparr>
      in if \<not> ata_present d then (False, b)
         else let total_sectors = ata_total_sectors d
              in if total_sectors \<le> BOOT_RESERVE_SECTORS + DISKFS_TAIL_SECTORS + 64 then (False, b)
         else let avail_sectors = total_sectors - BOOT_RESERVE_SECTORS - DISKFS_TAIL_SECTORS;
                  approx_blocks = avail_sectors div SECTORS_PER_BLOCK;
                  bitmap_bytes = (approx_blocks + 7) div 8;
                  bitmap_sectors = (bitmap_bytes + 511) div 512;
                  bitmap_sectors = (if bitmap_sectors = 0 then 1 else bitmap_sectors);
                  data_start_lba = BITMAP_LBA + bitmap_sectors;
                  data_sectors = total_sectors - data_start_lba - DISKFS_TAIL_SECTORS;
                  total_blocks = data_sectors div SECTORS_PER_BLOCK;
                  b = b\<lparr>bf_bitmap_bytes := bitmap_bytes, bf_bitmap_sectors := bitmap_sectors,
                        bf_data_start_lba := data_start_lba, bf_total_blocks := total_blocks\<rparr>
              in if total_blocks = 0 then (False, b)
                 else if \<not> ok1 \<or> \<not> ok2 then (False, b\<lparr>bf_bitmap := []\<rparr>)
                 else let bitmap = (case read_chunks ata_read_sectors 255 BITMAP_LBA 0 (unat bitmap_sectors) [] d of
                                      Some secbuf \<Rightarrow> take (unat bitmap_bytes) secbuf
                                    | None \<Rightarrow> replicate (unat bitmap_bytes) 0)
                      in (True, b\<lparr>bf_bitmap := bitmap, bf_used_blocks := count_used (unat total_blocks) bitmap,
                                  bf_available := True\<rparr>))"

definition blockfs_alloc :: "blockfs \<Rightarrow> u32 \<times> blockfs" where
  "blockfs_alloc b =
     (if \<not> bf_available b then (BLOCK_INVALID, b)
      else case first_index (\<lambda>i. \<not> bit_test (of_nat i) (bf_bitmap b)) 0 (unat (bf_total_blocks b)) of
             Some i \<Rightarrow> (of_nat i, b\<lparr>bf_bitmap := bit_set (of_nat i) (bf_bitmap b),
                                   bf_used_blocks := bf_used_blocks b + 1\<rparr>)
           | None \<Rightarrow> (BLOCK_INVALID, b))"

definition blockfs_free :: "u32 \<Rightarrow> blockfs \<Rightarrow> blockfs" where
  "blockfs_free block b =
     (if \<not> bf_available b \<or> block \<ge> bf_total_blocks b then b
      else if bit_test block (bf_bitmap b)
      then let b = b\<lparr>bf_bitmap := bit_clear block (bf_bitmap b)\<rparr>
           in if bf_used_blocks b \<noteq> 0 then b\<lparr>bf_used_blocks := bf_used_blocks b - 1\<rparr> else b
      else b)"

definition blockfs_read_block :: "u32 \<Rightarrow> blockfs \<Rightarrow> disk \<Rightarrow> int \<times> u8 list" where
  "blockfs_read_block block b d =
     (if \<not> bf_available b \<or> block \<ge> bf_total_blocks b then (-1, [])
      else let lba = bf_data_start_lba b + block * SECTORS_PER_BLOCK
           in ata_read_sectors lba 8 d)"

definition blockfs_write_block :: "u32 \<Rightarrow> u8 list \<Rightarrow> blockfs \<Rightarrow> disk \<Rightarrow> int \<times> disk" where
  "blockfs_write_block block buf b d =
     (if \<not> bf_available b \<or> block \<ge> bf_total_blocks b then (-1, d)
      else let lba = bf_data_start_lba b + block * SECTORS_PER_BLOCK
           in ata_write_sectors lba 8 buf d)"

definition blockfs_flush_bitmap :: "bool \<Rightarrow> blockfs \<Rightarrow> disk \<Rightarrow> int \<times> disk" where
  "blockfs_flush_bitmap ok b d =
     (if \<not> bf_available b then (-1, d)
      else if \<not> ok then (-2, d)
      else let n = unat (bf_bitmap_sectors b);
               secbuf = bf_bitmap b @ replicate (n * 512 - length (bf_bitmap b)) 0
           in case write_chunks ata_write_sectors 32 BITMAP_LBA 0 n secbuf d of
                (True, d) \<Rightarrow> (0, d) | (False, d) \<Rightarrow> (-3, d))"

section \<open>Bits of the bitmap\<close>

lemma bit_index:
  "unat (drop_bit 3 (i :: u32)) = unat i div 8" "unat (i AND 7) = unat i mod 8"
proof -
  show "unat (drop_bit 3 i) = unat i div 8" by (simp add: drop_bit_eq_div unat_div)
  have "i AND 7 = take_bit 3 i" by (simp add: take_bit_eq_mask mask_eq_exp_minus_1)
  then show "unat (i AND 7) = unat i mod 8" by (simp add: take_bit_eq_mod unat_mod)
qed

lemma bit_test_bit: "bit_test i bm = bit (bm ! (unat i div 8)) (unat i mod 8)"
  by (simp add: bit_test_def bit_index and_one_eq bit_iff_odd_drop_bit odd_iff_mod_2_eq_one)

lemma same_bit_iff: "(f :: nat) div 8 = g div 8 \<and> f mod 8 = g mod 8 \<longleftrightarrow> f = g"
  by (metis div_mult_mod_eq)

lemma bit_test_set:
  assumes "unat i div 8 < length bm"
  shows "bit_test j (bit_set i bm) \<longleftrightarrow> j = i \<or> bit_test j bm"
proof -
  have "bit_test j (bit_set i bm) \<longleftrightarrow>
     (if unat j div 8 = unat i div 8 then unat j mod 8 = unat i mod 8 \<or> bit_test j bm else bit_test j bm)"
    using assms by (auto simp: bit_test_bit bit_set_def Let_def bit_index nth_list_update bit_simps)
  moreover have "j = i \<longleftrightarrow> unat j div 8 = unat i div 8 \<and> unat j mod 8 = unat i mod 8"
    unfolding same_bit_iff by (simp add: word_eq_iff_unsigned [where ?'a = nat])
  ultimately show ?thesis by auto
qed

lemma bit_test_clear:
  assumes "unat i div 8 < length bm"
  shows "bit_test j (bit_clear i bm) \<longleftrightarrow> j \<noteq> i \<and> bit_test j bm"
proof -
  have "bit_test j (bit_clear i bm) \<longleftrightarrow>
     (if unat j div 8 = unat i div 8 then unat j mod 8 \<noteq> unat i mod 8 \<and> bit_test j bm else bit_test j bm)"
    using assms by (auto simp: bit_test_bit bit_clear_def Let_def bit_index nth_list_update bit_simps)
  moreover have "j = i \<longleftrightarrow> unat j div 8 = unat i div 8 \<and> unat j mod 8 = unat i mod 8"
    unfolding same_bit_iff by (simp add: word_eq_iff_unsigned [where ?'a = nat])
  ultimately show ?thesis by auto
qed

lemma length_bit_set [simp]: "length (bit_set i bm) = length bm" "length (bit_clear i bm) = length bm"
  by (simp_all add: bit_set_def bit_clear_def Let_def)

lemma count_used_card:
  assumes "n < 4294967296"
  shows "unat (count_used n bm) = card {i. i < n \<and> bit_test (of_nat i) bm}"
  using assms
proof (induction n)
  case 0
  then show ?case by (simp add: count_used_def)
next
  case (Suc n)
  let ?S = "{i. i < n \<and> bit_test (of_nat i) bm}"
  have fin: "finite ?S" by simp
  have le: "card ?S \<le> n" using card_mono [of "{..<n}" ?S] by auto
  have step: "count_used (Suc n) bm = (if bit_test (of_nat n) bm then count_used n bm + 1 else count_used n bm)"
    by (simp add: count_used_def)
  show ?case
  proof (cases "bit_test (of_nat n) bm")
    case True
    then have "{i. i < Suc n \<and> bit_test (of_nat i) bm} = insert n ?S" by (auto simp: less_Suc_eq)
    then have "card {i. i < Suc n \<and> bit_test (of_nat i) bm} = Suc (card ?S)" using fin by simp
    moreover have "unat (count_used n bm + 1) = unat (count_used n bm) + 1"
      using Suc le unat_plus_u32 [of "count_used n bm" 1] by simp
    ultimately show ?thesis using True step Suc by simp
  next
    case False
    then have "{i. i < Suc n \<and> bit_test (of_nat i) bm} = ?S" by (auto simp: less_Suc_eq)
    then show ?thesis using False step Suc by simp
  qed
qed

section \<open>Invariant\<close>

definition bf_used :: "blockfs \<Rightarrow> nat set" where
  "bf_used b = {i. i < unat (bf_total_blocks b) \<and> bit_test (of_nat i) (bf_bitmap b)}"

definition blockfs_inv :: "blockfs \<Rightarrow> bool" where
  "blockfs_inv b \<longleftrightarrow> bf_available b \<and> length (bf_bitmap b) = unat (bf_bitmap_bytes b)
     \<and> unat (bf_total_blocks b) \<le> 8 * unat (bf_bitmap_bytes b) \<and> unat (bf_total_blocks b) < 536870912
     \<and> unat (bf_used_blocks b) = card (bf_used b)"

lemma bf_used_finite [simp]: "finite (bf_used b)"
  by (simp add: bf_used_def)

lemma bf_used_below: "bf_used b \<subseteq> {..<unat (bf_total_blocks b)}"
  by (auto simp: bf_used_def)

lemma blockfs_index:
  assumes "blockfs_inv b" "i < unat (bf_total_blocks b)"
  shows "unat (of_nat i :: u32) = i" "unat (of_nat i :: u32) div 8 < length (bf_bitmap b)" "(of_nat i :: u32) \<noteq> BLOCK_INVALID"
    "(of_nat i :: u32) < bf_total_blocks b"
proof -
  have i: "i < 536870912" using assms by (simp add: blockfs_inv_def)
  then show u: "unat (of_nat i :: u32) = i" by simp
  show "unat (of_nat i :: u32) div 8 < length (bf_bitmap b)" unfolding u
    by (rule less_mult_imp_div_less) (use assms in \<open>simp add: blockfs_inv_def\<close>)
  show "(of_nat i :: u32) \<noteq> BLOCK_INVALID"
  proof
    assume "(of_nat i :: u32) = BLOCK_INVALID"
    then have "unat (of_nat i :: u32) = 4294967295" by simp
    with u i show False by simp
  qed
  show "(of_nat i :: u32) < bf_total_blocks b" unfolding word_less_nat_alt u by (rule assms(2))
qed

lemma bf_used_set:
  assumes "blockfs_inv b" "i < unat (bf_total_blocks b)"
  shows "bf_used (b\<lparr>bf_bitmap := bit_set (of_nat i) (bf_bitmap b)\<rparr>) = insert i (bf_used b)"
proof -
  have "(of_nat j :: u32) = of_nat i \<longleftrightarrow> j = i" if "j < unat (bf_total_blocks b)" for j
    using blockfs_index(1) [OF assms] blockfs_index(1) [OF assms(1) that] by metis
  then show ?thesis using assms(2) bit_test_set [OF blockfs_index(2) [OF assms]] by (auto simp: bf_used_def)
qed

lemma bf_used_clear:
  assumes "blockfs_inv b" "i < unat (bf_total_blocks b)"
  shows "bf_used (b\<lparr>bf_bitmap := bit_clear (of_nat i) (bf_bitmap b)\<rparr>) = bf_used b - {i}"
proof -
  have "(of_nat j :: u32) = of_nat i \<longleftrightarrow> j = i" if "j < unat (bf_total_blocks b)" for j
    using blockfs_index(1) [OF assms] blockfs_index(1) [OF assms(1) that] by metis
  then show ?thesis using assms(2) bit_test_clear [OF blockfs_index(2) [OF assms]] by (auto simp: bf_used_def)
qed

lemma bf_used_counter [simp]: "bf_used (b\<lparr>bf_used_blocks := n\<rparr>) = bf_used b"
  by (simp add: bf_used_def)

lemma blockfs_alloc_cases:
  assumes "blockfs_inv b"
  obtains (full) "blockfs_alloc b = (BLOCK_INVALID, b)" "bf_used b = {..<unat (bf_total_blocks b)}"
  | (block) i b' where "blockfs_alloc b = (of_nat i, b')" "i < unat (bf_total_blocks b)" "i \<notin> bf_used b"
      "\<forall>j < i. j \<in> bf_used b" "bf_used b' = insert i (bf_used b)" "blockfs_inv b'"
      "bf_total_blocks b' = bf_total_blocks b"
proof (cases "first_index (\<lambda>i. \<not> bit_test (of_nat i) (bf_bitmap b)) 0 (unat (bf_total_blocks b))")
  case None
  have "blockfs_alloc b = (BLOCK_INVALID, b)" using None assms by (simp add: blockfs_alloc_def)
  moreover have "bf_used b = {..<unat (bf_total_blocks b)}"
    using None by (auto simp: bf_used_def first_index_None)
  ultimately show ?thesis by (rule full)
next
  case (Some i)
  then have i: "i < unat (bf_total_blocks b)" "\<not> bit_test (of_nat i) (bf_bitmap b)"
    "\<forall>j < i. bit_test (of_nat j) (bf_bitmap b)" by (auto simp: first_index_Some)
  let ?b = "b\<lparr>bf_bitmap := bit_set (of_nat i) (bf_bitmap b), bf_used_blocks := bf_used_blocks b + 1\<rparr>"
  have u: "bf_used ?b = insert i (bf_used b)" using bf_used_set [OF assms i(1)] by simp
  have ni: "i \<notin> bf_used b" using i(2) by (simp add: bf_used_def)
  have "card (bf_used b) \<le> unat (bf_total_blocks b)" using card_nat_bound(1) [OF bf_used_below] .
  then have "unat (bf_used_blocks b + 1) = Suc (card (bf_used b))"
    using assms unat_plus_u32 [of "bf_used_blocks b" 1] by (simp add: blockfs_inv_def)
  moreover have "card (bf_used ?b) = Suc (card (bf_used b))" using u ni by simp
  ultimately have inv: "blockfs_inv ?b" using assms unfolding blockfs_inv_def by simp
  show ?thesis
    by (rule block [of i ?b]) (use Some assms i u ni inv in \<open>auto simp: blockfs_alloc_def blockfs_inv_def bf_used_def\<close>)
qed

lemma blockfs_free_spec:
  assumes "blockfs_inv b"
  shows "blockfs_inv (blockfs_free k b)" "bf_used (blockfs_free k b) = bf_used b - {unat k}"
    "bf_total_blocks (blockfs_free k b) = bf_total_blocks b"
proof -
  have "blockfs_inv (blockfs_free k b) \<and> bf_used (blockfs_free k b) = bf_used b - {unat k}
    \<and> bf_total_blocks (blockfs_free k b) = bf_total_blocks b"
  proof (cases "k < bf_total_blocks b \<and> bit_test k (bf_bitmap b)")
    case False
    then have "blockfs_free k b = b" by (auto simp: blockfs_free_def)
    moreover have "unat k \<notin> bf_used b" using False by (auto simp: bf_used_def word_less_nat_alt)
    ultimately show ?thesis using assms by simp
  next
    case True
    then have lt: "unat k < unat (bf_total_blocks b)" by (simp add: word_less_nat_alt)
    have kin: "unat k \<in> bf_used b" using True lt by (simp add: bf_used_def)
    then have pos: "0 < card (bf_used b)" by (metis bf_used_finite card_gt_0_iff empty_iff)
    then have nz: "bf_used_blocks b \<noteq> 0" using assms by (auto simp: blockfs_inv_def)
    let ?b = "b\<lparr>bf_bitmap := bit_clear k (bf_bitmap b), bf_used_blocks := bf_used_blocks b - 1\<rparr>"
    have "\<not> bf_total_blocks b \<le> k" using True by (simp add: not_le)
    then have f: "blockfs_free k b = ?b"
      using True nz assms by (simp add: blockfs_free_def blockfs_inv_def Let_def)
    have u: "bf_used ?b = bf_used b - {unat k}" using bf_used_clear [OF assms lt] by simp
    have "unat (bf_used_blocks b - 1) = card (bf_used b) - 1"
      using nz assms by (simp add: unat_minus_one blockfs_inv_def)
    moreover have "card (bf_used ?b) = card (bf_used b) - 1" using u kin by simp
    ultimately have "blockfs_inv ?b" using assms unfolding blockfs_inv_def by simp
    then show ?thesis using f u by simp
  qed
  then show "blockfs_inv (blockfs_free k b)" "bf_used (blockfs_free k b) = bf_used b - {unat k}"
    "bf_total_blocks (blockfs_free k b) = bf_total_blocks b" by auto
qed

text \<open>Block numbers as natural numbers; every number below \<open>2 ^ 32\<close> may be released.\<close>

definition bf_alloc_slot :: "blockfs \<Rightarrow> nat option \<times> blockfs" where
  "bf_alloc_slot b = (case blockfs_alloc b of (r, b') \<Rightarrow> (if r = BLOCK_INVALID then None else Some (unat r), b'))"

interpretation blocks: slot_allocator blockfs_inv "\<lambda>b. unat (bf_total_blocks b)" bf_used "{4294967296..}"
  bf_alloc_slot "\<lambda>k. blockfs_free (of_nat k)"
proof
  fix s s' :: blockfs and k j r
  assume inv: "blockfs_inv s"
  have slot: "bf_alloc_slot s = (Some i, b')" if "blockfs_alloc s = (of_nat i, b')" "i < unat (bf_total_blocks s)" for i b'
    using that blockfs_index [OF inv that(2)] by (simp add: bf_alloc_slot_def)
  have full: "bf_alloc_slot s = (None, s)" if "blockfs_alloc s = (BLOCK_INVALID, s)"
    using that by (simp add: bf_alloc_slot_def)
  show "bf_used s \<subseteq> {..<unat (bf_total_blocks s)}" by (rule bf_used_below)
  show "k < unat (bf_total_blocks s) \<and> k \<notin> bf_used s \<and> k \<notin> {4294967296..}" if "bf_alloc_slot s = (Some k, s')"
    using that inv slot full unat_u32_bound [of "bf_total_blocks s"]
    by (cases rule: blockfs_alloc_cases [OF inv]) auto
  show "j \<in> bf_used s" if "bf_alloc_slot s = (Some k, s')" "j < k"
    using that slot full by (cases rule: blockfs_alloc_cases [OF inv]) auto
  show "bf_used s' = insert k (bf_used s)" if "bf_alloc_slot s = (Some k, s')"
    using that slot full by (cases rule: blockfs_alloc_cases [OF inv]) auto
  show "blockfs_inv s' \<and> unat (bf_total_blocks s') = unat (bf_total_blocks s)" if "bf_alloc_slot s = (r, s')"
    using that slot full inv by (cases rule: blockfs_alloc_cases [OF inv]) auto
  show "bf_used s = {..<unat (bf_total_blocks s)} \<and> s' = s" if "bf_alloc_slot s = (None, s')"
    using that slot full by (cases rule: blockfs_alloc_cases [OF inv]) auto
  show "bf_used (blockfs_free (of_nat k) s) = bf_used s - {k}" if "k \<notin> {4294967296..}"
    using that blockfs_free_spec(2) [OF inv, of "of_nat k"] by simp
  show "blockfs_inv (blockfs_free (of_nat k) s)
      \<and> unat (bf_total_blocks (blockfs_free (of_nat k) s)) = unat (bf_total_blocks s)" if "k \<notin> {4294967296..}"
    using blockfs_free_spec(1,3) [OF inv, of "of_nat k"] by simp
qed


section \<open>Layout\<close>

text \<open>
  The geometry in natural numbers for a disk of \<open>T\<close> sectors: how many of them lie between the boot
  reserve and the metadata tail, the bitmap's size, and the number of blocks behind it.
\<close>

definition geo_avail :: "nat \<Rightarrow> nat" where "geo_avail T = T - 163840"
definition geo_bytes :: "nat \<Rightarrow> nat" where "geo_bytes T = (geo_avail T div 8 + 7) div 8"
definition geo_sectors :: "nat \<Rightarrow> nat" where "geo_sectors T = (geo_bytes T + 511) div 512"
definition geo_blocks :: "nat \<Rightarrow> nat" where "geo_blocks T = (geo_avail T - geo_sectors T) div 8"

lemma geo_bounds:
  assumes "163904 < T"
  shows "0 < geo_sectors T" "geo_sectors T < geo_avail T" "geo_blocks T \<le> 8 * geo_bytes T"
    "geo_bytes T \<le> geo_sectors T * 512" "32768 + geo_sectors T + geo_blocks T * 8 + 131072 \<le> T" "0 < geo_blocks T"
    "geo_blocks T \<le> geo_avail T div 8"
proof -
  have a: "64 < geo_avail T" "geo_avail T + 163840 = T" using assms by (auto simp: geo_avail_def)
  have b: "geo_avail T div 8 \<le> 8 * geo_bytes T" "8 * geo_bytes T \<le> geo_avail T div 8 + 7"
    unfolding geo_bytes_def by linarith+
  have c: "geo_bytes T \<le> geo_sectors T * 512" "geo_sectors T * 512 \<le> geo_bytes T + 511"
    unfolding geo_sectors_def by linarith+
  show "geo_bytes T \<le> geo_sectors T * 512" by (rule c)
  have d: "8 \<le> geo_avail T div 8" "8 * (geo_avail T div 8) \<le> geo_avail T" using a by linarith+
  show "0 < geo_sectors T" using b c d by linarith
  show lt: "geo_sectors T < geo_avail T" using b c d a by linarith
  show e: "geo_blocks T \<le> geo_avail T div 8" unfolding geo_blocks_def by (simp add: div_le_mono)
  show "geo_blocks T \<le> 8 * geo_bytes T" using e b by linarith
  have f: "8 * geo_blocks T \<le> geo_avail T - geo_sectors T" unfolding geo_blocks_def by linarith
  then show "32768 + geo_sectors T + geo_blocks T * 8 + 131072 \<le> T" using a lt by linarith
  have "8 \<le> geo_avail T - geo_sectors T" using b c d a by linarith
  then show "0 < geo_blocks T" unfolding geo_blocks_def by linarith
qed

lemma blockfs_geometry:
  fixes T :: u32
  assumes "163904 < unat T"
  defines "avail \<equiv> T - BOOT_RESERVE_SECTORS - DISKFS_TAIL_SECTORS"
  defines "bytes \<equiv> (avail div SECTORS_PER_BLOCK + 7) div 8"
  defines "secs \<equiv> (bytes + 511) div 512"
  shows "unat avail = geo_avail (unat T)" "unat bytes = geo_bytes (unat T)" "unat secs = geo_sectors (unat T)"
    "secs \<noteq> 0" "unat (BITMAP_LBA + secs) = 32768 + geo_sectors (unat T)"
    "unat ((T - (BITMAP_LBA + secs) - DISKFS_TAIL_SECTORS) div SECTORS_PER_BLOCK) = geo_blocks (unat T)"
proof -
  note g = geo_bounds [OF assms(1)]
  have T: "unat T < 4294967296" by (rule unat_u32_bound)
  have s1: "unat (T - BOOT_RESERVE_SECTORS) = unat T - 32768"
    using assms(1) by (subst unat_minus_u32) (simp_all add: word_le_nat_alt)
  show av: "unat avail = geo_avail (unat T)"
    unfolding avail_def using assms(1) s1 by (subst unat_minus_u32) (simp_all add: word_le_nat_alt geo_avail_def)
  have ap: "unat (avail div SECTORS_PER_BLOCK) = geo_avail (unat T) div 8" using av by (simp add: unat_div)
  have b1: "unat (avail div SECTORS_PER_BLOCK + 7) = geo_avail (unat T) div 8 + 7"
  proof (subst unat_plus_u32)
    have "geo_avail (unat T) div 8 \<le> 536870912" using T unfolding geo_avail_def by linarith
    then show "unat (avail div SECTORS_PER_BLOCK) + unat (7 :: u32) < 4294967296" using ap by simp
    show "unat (avail div SECTORS_PER_BLOCK) + unat (7 :: u32) = geo_avail (unat T) div 8 + 7" using ap by simp
  qed
  then show byt: "unat bytes = geo_bytes (unat T)" by (simp add: bytes_def unat_div geo_bytes_def)
  have "geo_bytes (unat T) \<le> 536870912" using T unfolding geo_bytes_def geo_avail_def by linarith
  then have "unat (bytes + 511) = geo_bytes (unat T) + 511"
    using byt by (subst unat_plus_u32) simp_all
  then show se: "unat secs = geo_sectors (unat T)" by (simp add: secs_def unat_div geo_sectors_def)
  show "secs \<noteq> 0" using se g(1) by auto
  have sm: "geo_sectors (unat T) + 163840 < unat T" using g(2) assms(1) unfolding geo_avail_def by linarith
  then show st: "unat (BITMAP_LBA + secs) = 32768 + geo_sectors (unat T)"
    using se T by (subst unat_plus_u32) simp_all
  have s2: "unat (T - (BITMAP_LBA + secs)) = unat T - (32768 + geo_sectors (unat T))"
    using sm st by (subst unat_minus_u32) (simp_all add: word_le_nat_alt)
  have "unat (T - (BITMAP_LBA + secs) - DISKFS_TAIL_SECTORS) = geo_avail (unat T) - geo_sectors (unat T)"
    using sm s2 by (subst unat_minus_u32) (simp_all add: word_le_nat_alt geo_avail_def)
  then show "unat ((T - (BITMAP_LBA + secs) - DISKFS_TAIL_SECTORS) div SECTORS_PER_BLOCK) = geo_blocks (unat T)"
    by (simp add: unat_div geo_blocks_def)
qed

text \<open>A mounted store: the fields are the geometry of the disk it was mounted from.\<close>

definition mounted_on :: "nat \<Rightarrow> blockfs \<Rightarrow> bool" where
  "mounted_on T b \<longleftrightarrow> blockfs_inv b \<and> unat (bf_bitmap_bytes b) = geo_bytes T
     \<and> unat (bf_bitmap_sectors b) = geo_sectors T \<and> unat (bf_data_start_lba b) = 32768 + geo_sectors T
     \<and> unat (bf_total_blocks b) = geo_blocks T"

lemma blockfs_init_mounted:
  assumes "device_ok d" "163904 < unat (dk_total d)"
  obtains b' where "blockfs_init True True d b = (True, b')" "mounted_on (unat (dk_total d)) b'"
    "bf_bitmap b' = take (geo_bytes (unat (dk_total d)))
       (read_run (dk_sector d) 32768 (geo_sectors (unat (dk_total d))))"
proof -
  let ?T = "dk_total d" and ?U = "unat (dk_total d)"
  note g = geo_bounds [OF assms(2)] and w = blockfs_geometry [OF assms(2)]
  let ?avail = "?T - BOOT_RESERVE_SECTORS - DISKFS_TAIL_SECTORS"
  let ?bytes = "(?avail div SECTORS_PER_BLOCK + 7) div 8"
  let ?secs = "(?bytes + 511) div 512"
  let ?start = "BITMAP_LBA + ?secs"
  let ?blocks = "(?T - ?start - DISKFS_TAIL_SECTORS) div SECTORS_PER_BLOCK"
  let ?bm = "take (geo_bytes ?U) (read_run (dk_sector d) 32768 (geo_sectors ?U))"
  let ?b = "b\<lparr>bf_available := True, bf_bitmap := ?bm, bf_bitmap_bytes := ?bytes, bf_bitmap_sectors := ?secs,
      bf_data_start_lba := ?start, bf_total_blocks := ?blocks, bf_used_blocks := count_used (unat ?blocks) ?bm\<rparr>"
  have present: "ata_present d" using assms(1) by (auto simp: ata_present_def device_ok_def)
  have big: "\<not> ata_total_sectors d \<le> BOOT_RESERVE_SECTORS + DISKFS_TAIL_SECTORS + 64"
    using assms(2) by (simp add: ata_total_sectors_def word_le_nat_alt)
  have nz: "?blocks \<noteq> 0" using w(6) g(6) by auto
  have "unat BITMAP_LBA + geo_sectors ?U \<le> ?U" using g(5) by simp
  from ata.read_chunks_ok [OF assms(1) this, of 255 0 "[]"]
  have rd: "read_chunks ata_read_sectors 255 BITMAP_LBA 0 (unat ?secs) [] d
      = Some (read_run (dk_sector d) 32768 (geo_sectors ?U))"
    unfolding w(3) by simp
  have init: "blockfs_init True True d b = (True, ?b)"
    unfolding blockfs_init_def Let_def
    using present big nz rd w(2,4) by (simp add: ata_total_sectors_def)
  have len: "length ?bm = geo_bytes ?U"
    using g(4) length_read_run [of "dk_sector d" 32768 "geo_sectors ?U"] assms(1) by (simp add: device_ok_def)
  have "geo_avail ?U div 8 < 536870912" using unat_u32_bound [of ?T] unfolding geo_avail_def by linarith
  then have small: "geo_blocks ?U < 536870912" using g(7) by linarith
  have "mounted_on ?U ?b"
    unfolding mounted_on_def blockfs_inv_def bf_used_def
    using len small g(3) w count_used_card [of "geo_blocks ?U" ?bm] by simp
  then show ?thesis by (intro that [OF init]) simp_all
qed


lemma block_lba:
  assumes "mounted_on (unat T) b" "163904 < unat (T :: u32)" "k < bf_total_blocks b"
  shows "unat (bf_data_start_lba b + k * SECTORS_PER_BLOCK) = 32768 + geo_sectors (unat T) + unat k * 8"
    and "32768 + geo_sectors (unat T) + unat k * 8 + 8 + 131072 \<le> unat T"
proof -
  have k: "unat k + 1 \<le> geo_blocks (unat T)" using assms(1,3) by (simp add: mounted_on_def word_less_nat_alt)
  then have "unat k * 8 + 8 \<le> geo_blocks (unat T) * 8" by linarith
  then show b: "32768 + geo_sectors (unat T) + unat k * 8 + 8 + 131072 \<le> unat T"
    using geo_bounds(5) [OF assms(2)] by linarith
  have T: "unat T < 4294967296" by (rule unat_u32_bound)
  have m: "unat (k * SECTORS_PER_BLOCK) = unat k * 8" using b T by (subst unat_mult_u32) simp_all
  show "unat (bf_data_start_lba b + k * SECTORS_PER_BLOCK) = 32768 + geo_sectors (unat T) + unat k * 8"
    using assms(1) b T m by (subst unat_plus_u32) (simp_all add: mounted_on_def)
qed

lemma blockfs_read_block_ok:
  assumes "mounted_on (unat (dk_total d)) b" "device_ok d" "163904 < unat (dk_total d)" "k < bf_total_blocks b"
  shows "blockfs_read_block k b d =
     (0, read_run (dk_sector d) (32768 + geo_sectors (unat (dk_total d)) + unat k * 8) 8)"
proof -
  note l = block_lba [OF assms(1,3,4)]
  have "ata_read_sectors (bf_data_start_lba b + k * SECTORS_PER_BLOCK) 8 d
      = (0, read_run (dk_sector d) (32768 + geo_sectors (unat (dk_total d)) + unat k * 8) (unat (8 :: u8)))"
    using ata.rd_ok [OF assms(2), of 8 "bf_data_start_lba b + k * SECTORS_PER_BLOCK"] l by simp
  moreover have "bf_available b" "\<not> bf_total_blocks b \<le> k"
    using assms(1,4) by (auto simp: mounted_on_def blockfs_inv_def)
  ultimately show ?thesis by (simp add: blockfs_read_block_def)
qed

lemma blockfs_write_block_ok:
  assumes "mounted_on (unat (dk_total d)) b" "device_ok d" "163904 < unat (dk_total d)" "k < bf_total_blocks b"
    and "length buf = 4096"
  obtains d' where "blockfs_write_block k buf b d = (0, d')" "device_ok d'" "unat (dk_total d') = unat (dk_total d)"
    "dk_sector d' = write_run (32768 + geo_sectors (unat (dk_total d)) + unat k * 8) 8 buf (dk_sector d)"
proof -
  note l = block_lba [OF assms(1,3,4)]
  have "\<exists>d'. ata_write_sectors (bf_data_start_lba b + k * SECTORS_PER_BLOCK) 8 buf d = (0, d') \<and> device_ok d'
     \<and> unat (dk_total d') = unat (dk_total d)
     \<and> dk_sector d' = write_run (unat (bf_data_start_lba b + k * SECTORS_PER_BLOCK)) (unat (8 :: u8)) buf (dk_sector d)"
    by (rule ata.wr_ok [OF assms(2)]) (use l assms(5) in simp_all)
  moreover have "bf_available b" "\<not> bf_total_blocks b \<le> k"
    using assms(1,4) by (auto simp: mounted_on_def blockfs_inv_def)
  ultimately show ?thesis using that l(1) by (auto simp: blockfs_write_block_def)
qed

lemma blockfs_flush_ok:
  assumes "mounted_on (unat (dk_total d)) b" "device_ok d" "163904 < unat (dk_total d)"
  obtains d' sec where "blockfs_flush_bitmap True b d = (0, d')" "device_ok d'" "unat (dk_total d') = unat (dk_total d)"
    "dk_sector d' = write_run 32768 (geo_sectors (unat (dk_total d))) sec (dk_sector d)"
    "length sec = geo_sectors (unat (dk_total d)) * 512" "take (geo_bytes (unat (dk_total d))) sec = bf_bitmap b"
proof -
  let ?T = "unat (dk_total d)"
  note g = geo_bounds [OF assms(3)]
  define sec where "sec = bf_bitmap b @ replicate (geo_sectors ?T * 512 - length (bf_bitmap b)) 0"
  have lb: "length (bf_bitmap b) = geo_bytes ?T" using assms(1) by (simp add: mounted_on_def blockfs_inv_def)
  have ls: "length sec = geo_sectors ?T * 512" using g(4) lb by (simp add: sec_def)
  have fit: "unat BITMAP_LBA + geo_sectors ?T \<le> ?T" using g(5) by simp
  obtain d' where d': "write_chunks ata_write_sectors 32 BITMAP_LBA 0 (geo_sectors ?T) sec d = (True, d')" "device_ok d'"
    "unat (dk_total d') = ?T" "dk_sector d' = write_run 32768 (geo_sectors ?T) sec (dk_sector d)"
    using ata.write_chunks_ok [OF assms(2) fit, of 32 0 sec] ls by auto
  have "blockfs_flush_bitmap True b d = (0, d')"
    using assms(1) d'(1) by (simp add: blockfs_flush_bitmap_def mounted_on_def blockfs_inv_def sec_def Let_def)
  moreover have "take (geo_bytes ?T) sec = bf_bitmap b" using lb by (simp add: sec_def)
  ultimately show ?thesis using that d' ls by blast
qed

section \<open>Properties\<close>

text \<open>
  Writing a 4 KiB block and reading it back gives the bytes written; every other block keeps its
  contents, and so do the boot reserve, the bitmap and the metadata tail of the disk.
\<close>

theorem blockfs_write_read:
  assumes "mounted_on (unat (dk_total d)) b" "device_ok d" "163904 < unat (dk_total d)" "k < bf_total_blocks b"
    and "length buf = 4096"
  shows "\<exists>d'. blockfs_write_block k buf b d = (0, d') \<and> blockfs_read_block k b d' = (0, buf)
     \<and> (\<forall>j. j < bf_total_blocks b \<and> j \<noteq> k \<longrightarrow> blockfs_read_block j b d' = blockfs_read_block j b d)
     \<and> (\<forall>x. x < 32768 + unat (bf_bitmap_sectors b) \<or> unat (dk_total d) - 131072 \<le> x
          \<longrightarrow> dk_sector d' x = dk_sector d x)"
proof -
  obtain d' where w: "blockfs_write_block k buf b d = (0, d')" "device_ok d'" "unat (dk_total d') = unat (dk_total d)"
    "dk_sector d' = write_run (32768 + geo_sectors (unat (dk_total d)) + unat k * 8) 8 buf (dk_sector d)"
    using blockfs_write_block_ok [OF assms] by blast
  have m: "mounted_on (unat (dk_total d')) b" "163904 < unat (dk_total d')" using assms(1,3) w(3) by simp_all
  have "blockfs_read_block k b d' = (0, buf)"
    using blockfs_read_block_ok [OF m(1) w(2) m(2) assms(4)] read_write_run [of buf 8] assms(5) unfolding w(3,4) by simp
  moreover have "blockfs_read_block j b d' = blockfs_read_block j b d" if "j < bf_total_blocks b" "j \<noteq> k" for j
  proof -
    have "unat j \<noteq> unat k" using that(2) by (simp add: word_eq_iff_unsigned [where ?'a = nat])
    then have "32768 + geo_sectors (unat (dk_total d)) + unat j * 8 + 8 \<le> 32768 + geo_sectors (unat (dk_total d)) + unat k * 8
       \<or> 32768 + geo_sectors (unat (dk_total d)) + unat k * 8 + 8 \<le> 32768 + geo_sectors (unat (dk_total d)) + unat j * 8"
      by linarith
    from read_write_run_other [OF this] show ?thesis
      using blockfs_read_block_ok [OF m(1) w(2) m(2) that(1)] blockfs_read_block_ok [OF assms(1-3) that(1)]
      unfolding w(3,4) by simp
  qed
  moreover have "dk_sector d' x = dk_sector d x"
    if "x < 32768 + unat (bf_bitmap_sectors b) \<or> unat (dk_total d) - 131072 \<le> x" for x
    using that block_lba(2) [OF assms(1,3,4)] assms(1) unfolding w(4) by (auto simp: write_run_def mounted_on_def)
  ultimately show ?thesis using w(1) by blast
qed

text \<open>
  C36: Remounting after a flush restores the allocator: on a disk without failing sectors the flush
  succeeds, leaves the data blocks alone, and a fresh \<^verbatim>\<open>blockfs_init\<close> then finds the same bitmap
  and the same number of used blocks.
\<close>

theorem blockfs_flush_remount:
  assumes "mounted_on (unat (dk_total d)) b" "device_ok d" "163904 < unat (dk_total d)"
  shows "\<exists>d' b'. blockfs_flush_bitmap True b d = (0, d') \<and> blockfs_init True True d' b0 = (True, b')
     \<and> bf_bitmap b' = bf_bitmap b \<and> bf_used b' = bf_used b \<and> bf_used_blocks b' = bf_used_blocks b
     \<and> (\<forall>k < bf_total_blocks b. blockfs_read_block k b' d' = blockfs_read_block k b d)"
proof -
  let ?T = "unat (dk_total d)"
  note g = geo_bounds [OF assms(3)]
  have lb: "length (bf_bitmap b) = geo_bytes ?T" using assms(1) by (simp add: mounted_on_def blockfs_inv_def)
  obtain d' sec where fl: "blockfs_flush_bitmap True b d = (0, d')" and d': "device_ok d'" "unat (dk_total d') = ?T"
    "dk_sector d' = write_run 32768 (geo_sectors ?T) sec (dk_sector d)" "length sec = geo_sectors ?T * 512"
    and sec: "take (geo_bytes ?T) sec = bf_bitmap b"
    by (rule blockfs_flush_ok [OF assms])
  have big: "163904 < unat (dk_total d')" using assms(3) d'(2) by simp
  obtain b' where b': "blockfs_init True True d' b0 = (True, b')" "mounted_on ?T b'"
    "bf_bitmap b' = take (geo_bytes ?T) (read_run (dk_sector d') 32768 (geo_sectors ?T))"
    using blockfs_init_mounted [OF d'(1) big, of b0] unfolding d'(2) by blast
  have bm: "bf_bitmap b' = bf_bitmap b"
    unfolding b'(3) d'(3) read_write_run [OF d'(4)] by (rule sec)
  have tot: "bf_total_blocks b' = bf_total_blocks b"
    using b'(2) assms(1) by (simp add: mounted_on_def word_eq_iff_unsigned [where ?'a = nat])
  have us: "bf_used b' = bf_used b" by (simp add: bf_used_def bm tot)
  then have "bf_used_blocks b' = bf_used_blocks b"
    using b'(2) assms(1) by (simp add: mounted_on_def blockfs_inv_def word_eq_iff_unsigned [where ?'a = nat])
  moreover have "blockfs_read_block k b' d' = blockfs_read_block k b d" if "k < bf_total_blocks b" for k
  proof -
    have "read_run (dk_sector d') (32768 + geo_sectors ?T + unat k * 8) 8
        = read_run (dk_sector d) (32768 + geo_sectors ?T + unat k * 8) 8"
      unfolding d'(3) by (rule read_write_run_other) simp
    then show ?thesis using blockfs_read_block_ok [of d' b' k] blockfs_read_block_ok [OF assms that] b'(2) d'(1,2) big that tot
      by simp
  qed
  ultimately show ?thesis using fl b'(1) bm us by blast
qed

text \<open>
  Allocating blocks one after another gives distinct free blocks until the disk is full, with
  the used counter equal to the number of set bits throughout; freeing a block makes exactly it free.
\<close>

theorem blockfs_alloc_many_distinct:
  assumes "blockfs_inv b" "alloc_many bf_alloc_slot n b = (ks, b')"
  shows "distinct ks \<and> set ks \<inter> bf_used b = {} \<and> bf_used b' = bf_used b \<union> set ks
     \<and> length ks = min n (unat (bf_total_blocks b) - card (bf_used b))
     \<and> unat (bf_used_blocks b') = card (bf_used b) + length ks
     \<and> (\<forall>k \<in> set ks. bf_used (blockfs_free (of_nat k) b') = bf_used b' - {k})"
proof -
  note sp = blocks.alloc_many_spec [OF assms]
  have "card (bf_used b \<union> set ks) = card (bf_used b) + length ks"
    using sp by (simp add: card_Un_disjoint distinct_card Int_commute)
  then have "unat (bf_used_blocks b') = card (bf_used b) + length ks"
    using sp by (simp add: blockfs_inv_def)
  moreover have "bf_used (blockfs_free (of_nat k) b') = bf_used b' - {k}" if "k \<in> set ks" for k
    using blocks.release_used [of b' k] sp that by auto
  ultimately show ?thesis using sp by simp
qed

section \<open>Witnesses\<close>

definition example_disk :: disk where
  "example_disk = \<lparr>dk_backend = DISK_IDE, dk_total = 200000, dk_sector = (\<lambda>_. replicate 512 0),
     dk_fails = (\<lambda>_. False), dk_flush_fails = (\<lambda>_. False),
     dk_ahci_read = (\<lambda>_ _ _. (-1, [])), dk_ahci_write = (\<lambda>_ _ _ s. (-1, s)),
     dk_xhci_read = (\<lambda>_ _ _. (-1, [])), dk_xhci_write = (\<lambda>_ _ _ s. (-1, s))\<rparr>"

definition blank_blockfs :: blockfs where
  "blank_blockfs = \<lparr>bf_available = False, bf_bitmap = [], bf_bitmap_bytes = 0, bf_bitmap_sectors = 0,
     bf_data_start_lba = 0, bf_total_blocks = 0, bf_used_blocks = 0\<rparr>"

definition example_blockfs :: blockfs where
  "example_blockfs = snd (blockfs_init True True example_disk blank_blockfs)"

lemma example_disk: "device_ok example_disk" "163904 < unat (dk_total example_disk)"
  by (simp_all add: device_ok_def example_disk_def)

lemma example_blockfs: "mounted_on (unat (dk_total example_disk)) example_blockfs"
proof (rule blockfs_init_mounted [OF example_disk, of blank_blockfs], goal_cases)
  case (1 b')
  show ?case unfolding example_blockfs_def 1(1) snd_conv by (rule 1(2))
qed

lemma example_blocks: "bf_total_blocks example_blockfs = 4519"
proof -
  have "unat (bf_total_blocks example_blockfs) = geo_blocks 200000"
    using example_blockfs by (simp add: mounted_on_def example_disk_def)
  also have "\<dots> = unat (4519 :: u32)" by (simp add: geo_blocks_def geo_sectors_def geo_bytes_def geo_avail_def)
  finally show ?thesis by (simp only: word_eq_iff_unsigned [where ?'a = nat])
qed

definition example_block :: "u8 list" where
  "example_block = replicate 4096 5"

lemma length_example_block: "length example_block = 4096"
  unfolding example_block_def by (rule length_replicate)

theorem blockfs_write_read_witness:
  "\<exists>d'. blockfs_write_block 7 example_block example_blockfs example_disk = (0, d')
     \<and> blockfs_read_block 7 example_blockfs d' = (0, example_block)"
proof -
  have "7 < bf_total_blocks example_blockfs" by (simp add: example_blocks)
  from blockfs_write_read [OF example_blockfs example_disk this length_example_block] show ?thesis by blast
qed

theorem blockfs_flush_remount_witness:
  "\<exists>d' b'. blockfs_flush_bitmap True example_blockfs example_disk = (0, d')
     \<and> blockfs_init True True d' blank_blockfs = (True, b') \<and> bf_bitmap b' = bf_bitmap example_blockfs"
  using blockfs_flush_remount [OF example_blockfs example_disk, of blank_blockfs] by blast

theorem blockfs_alloc_many_distinct_witness: "distinct (fst (alloc_many bf_alloc_slot 3 example_blockfs))"
proof -
  have "blockfs_inv example_blockfs" using example_blockfs by (simp add: mounted_on_def)
  from blockfs_alloc_many_distinct [OF this prod.collapse [symmetric]] show ?thesis by blast
qed

end
