(* ===== verification/Ramfs.thy ===== *)
theory Ramfs
  imports Blockfs "HOL-Library.Monad_Syntax"
begin

text \<open>
  The file system that backs the VFS, \<^verbatim>\<open>fs/ramfs.c\<close>. A node is a record in a store indexed by
  its address; an address that is not in the store is freed memory. A file keeps its bytes in a
  heap buffer or, once written while block storage is available, in disk blocks. The kernel heap
  enters through its answers: \<open>fs_grants k\<close> tells whether the \<open>k\<close>-th allocation of the file
  system succeeds, and \<open>fs_junk\<close> is what fresh heap memory (or an unset stack buffer) contains.
  An access outside an array is the value \<open>None\<close>.
\<close>

section \<open>State\<close>

abbreviation VFS_FILE :: u32 where "VFS_FILE \<equiv> 1"
abbreviation VFS_DIRECTORY :: u32 where "VFS_DIRECTORY \<equiv> 2"
abbreviation VFS_DEVICE :: u32 where "VFS_DEVICE \<equiv> 4"
abbreviation VFS_MAX_CHILDREN :: nat where "VFS_MAX_CHILDREN \<equiv> 256"
abbreviation BLOCK_SIZE :: u32 where "BLOCK_SIZE \<equiv> 4096"

text \<open>
  Of the function pointers only \<^verbatim>\<open>read\<close> and \<^verbatim>\<open>write\<close> ever differ from those of ramfs: device
  nodes replace them.
\<close>

datatype node_ops = Ramfs_ops | Device_ops

record vnode =
  n_name :: string
  n_type :: u32
  n_permissions :: u32
  n_owner_uid :: u32
  n_owner_gid :: u32
  n_size :: u32
  n_created :: u32
  n_modified :: u32
  n_ops :: node_ops
  n_parent :: "nat option"
  n_children :: "nat list"
  n_data :: "u8 list option"      \<comment> \<open>the buffer, \<^verbatim>\<open>capacity\<close> bytes long\<close>
  n_capacity :: u32
  n_blocks :: "u32 list option"   \<comment> \<open>the entries in use, \<^verbatim>\<open>block_count\<close> of them\<close>
  n_disk_backed :: bool

record fs =
  fs_nodes :: "nat \<Rightarrow> vnode option"
  fs_next :: nat                  \<comment> \<open>address of the next node the heap hands out\<close>
  fs_root :: "nat option"
  fs_vfs_root :: "nat option"
  fs_disk :: disk
  fs_blockfs :: blockfs
  fs_grants :: "nat \<Rightarrow> bool"
  fs_allocs :: nat
  fs_junk :: "nat \<Rightarrow> u8"
  fs_uptime :: u32
  fs_cred :: "(u32 \<times> u32) option"
  fs_umask :: u32

definition kalloc :: "fs \<Rightarrow> bool \<times> fs" where
  "kalloc s = (fs_grants s (fs_allocs s), s\<lparr>fs_allocs := fs_allocs s + 1\<rparr>)"

definition put_node :: "nat \<Rightarrow> vnode \<Rightarrow> fs \<Rightarrow> fs" where
  "put_node i n s = s\<lparr>fs_nodes := (fs_nodes s)(i \<mapsto> n)\<rparr>"

definition block_list :: "vnode \<Rightarrow> u32 list" where
  "block_list n = (case n_blocks n of None \<Rightarrow> [] | Some bs \<Rightarrow> bs)"

section \<open>Disk-backed files\<close>

definition zero_block :: "u8 list" where
  "zero_block = replicate 4096 0"

text \<open>The loop of \<^verbatim>\<open>ensure_blocks\<close>; \<open>k\<close> counts the blocks still to be added.\<close>

fun grow_blocks :: "nat \<Rightarrow> u32 list \<Rightarrow> disk \<Rightarrow> blockfs \<Rightarrow> bool \<times> u32 list \<times> disk \<times> blockfs" where
  "grow_blocks 0 bs d b = (True, bs, d, b)"
| "grow_blocks (Suc k) bs d b =
     (case blockfs_alloc b of (blk, b) \<Rightarrow>
        if blk = BLOCK_INVALID then (False, bs, d, b)
        else grow_blocks k (bs @ [blk]) (snd (blockfs_write_block blk zero_block b d)) b)"

definition ensure_blocks :: "nat \<Rightarrow> vnode \<Rightarrow> nat \<Rightarrow> fs \<Rightarrow> bool \<times> vnode \<times> fs" where
  "ensure_blocks i n nblocks s =
     (if nblocks \<le> length (block_list n) then (True, n, s)
      else case kalloc s of (ok, s) \<Rightarrow>
        if \<not> ok then (False, n, s)
        else case grow_blocks (nblocks - length (block_list n)) (block_list n) (fs_disk s) (fs_blockfs s) of
               (r, bs, d, b) \<Rightarrow>
                 (let n = n\<lparr>n_blocks := Some bs\<rparr>
                  in (r, n, put_node i n (s\<lparr>fs_disk := d, fs_blockfs := b\<rparr>))))"

function diskfile_read_loop :: "u32 list \<Rightarrow> u32 \<Rightarrow> nat \<Rightarrow> blockfs \<Rightarrow> disk \<Rightarrow> nat \<Rightarrow> u8 list \<Rightarrow> nat \<times> u8 list" where
  "diskfile_read_loop bs off sz b d got out =
     (if got < sz
      then let pos = off + of_nat got;
               bindex = unat (pos div BLOCK_SIZE);
               boff = unat (pos mod BLOCK_SIZE);
               chunk = min (4096 - boff) (sz - got)
           in if bindex \<ge> length bs then (got, out)
              else case blockfs_read_block (bs ! bindex) b d of (rc, blk) \<Rightarrow>
                     if rc \<noteq> 0 then (got, out)
                     else diskfile_read_loop bs off sz b d (got + chunk) (out @ slice boff chunk blk)
      else (got, out))"
  by pat_completeness auto
termination
proof (relation "measure (\<lambda>(bs, off, sz, b, d, got, out). sz - got)", goal_cases)
  case (2 bs off sz b d got out pos bindex boff chunk)
  have "unat (pos mod BLOCK_SIZE) < 4096" by (simp add: unat_mod)
  with 2 show ?case by auto
qed simp

definition diskfile_read :: "vnode \<Rightarrow> u32 \<Rightarrow> u32 \<Rightarrow> fs \<Rightarrow> u32 \<times> u8 list" where
  "diskfile_read n off sz s =
     (if off \<ge> n_size n then (0, [])
      else let avail = n_size n - off;
               sz = (if sz > avail then avail else sz)
           in case diskfile_read_loop (block_list n) off (unat sz) (fs_blockfs s) (fs_disk s) 0 [] of
                (got, out) \<Rightarrow> (of_nat got, out))"

text \<open>
  The write loop; \<open>blk\<close> is the stack buffer, which a failed read leaves (partly) as it was.
  \<open>None\<close> is the access to \<^verbatim>\<open>node->blocks[bindex]\<close> beyond the list.
\<close>

function diskfile_write_loop ::
  "u32 list \<Rightarrow> u32 \<Rightarrow> u8 list \<Rightarrow> blockfs \<Rightarrow> nat \<Rightarrow> u8 list \<Rightarrow> disk \<Rightarrow> (nat \<times> disk) option" where
  "diskfile_write_loop bs off buf b sent blk d =
     (if sent < length buf
      then let pos = off + of_nat sent;
               bindex = unat (pos div BLOCK_SIZE);
               boff = unat (pos mod BLOCK_SIZE);
               chunk = min (4096 - boff) (length buf - sent)
           in if bindex \<ge> length bs then None
              else let blk = (if chunk \<noteq> 4096
                              then case blockfs_read_block (bs ! bindex) b d of (_, r) \<Rightarrow> r @ drop (length r) blk
                              else blk);
                       blk = splice boff (slice sent chunk buf) blk
                   in case blockfs_write_block (bs ! bindex) blk b d of (rc, d) \<Rightarrow>
                        if rc \<noteq> 0 then Some (sent, d)
                        else diskfile_write_loop bs off buf b (sent + chunk) blk d
      else Some (sent, d))"
  by pat_completeness auto
termination
proof (relation "measure (\<lambda>(bs, off, buf, b, sent, blk, d). length buf - sent)", goal_cases)
  case (2 bs off buf b sent blk d pos bindex boff chunk)
  have "unat (pos mod BLOCK_SIZE) < 4096" by (simp add: unat_mod)
  with 2 show ?case by auto
qed simp

declare diskfile_read_loop.simps [simp del] diskfile_write_loop.simps [simp del]

definition diskfile_write :: "nat \<Rightarrow> vnode \<Rightarrow> u32 \<Rightarrow> u8 list \<Rightarrow> fs \<Rightarrow> (u32 \<times> fs) option" where
  "diskfile_write i n off buf s =
     (let needed = off + of_nat (length buf);
          nblocks = (needed + BLOCK_SIZE - 1) div BLOCK_SIZE
      in case ensure_blocks i n (unat nblocks) s of (ok, n, s) \<Rightarrow>
           if \<not> ok then Some (0, s)
           else map_option (\<lambda>(sent, d).
                  (let n = (if off + of_nat sent > n_size n then n\<lparr>n_size := off + of_nat sent\<rparr> else n)
                   in (of_nat sent, put_node i (n\<lparr>n_modified := fs_uptime s\<rparr>) (s\<lparr>fs_disk := d\<rparr>))))
                (diskfile_write_loop (block_list n) off buf (fs_blockfs s) 0 (map (fs_junk s) [0..<4096]) (fs_disk s)))"

section \<open>File callbacks\<close>

definition ramfs_read :: "vnode \<Rightarrow> u32 \<Rightarrow> u32 \<Rightarrow> fs \<Rightarrow> u32 \<times> u8 list" where
  "ramfs_read n off sz s =
     (if n_disk_backed n then diskfile_read n off sz s
      else case n_data n of
             None \<Rightarrow> (0, [])
           | Some data \<Rightarrow>
               if off \<ge> n_size n then (0, [])
               else let avail = n_size n - off;
                        sz = (if sz > avail then avail else sz)
                    in (sz, slice (unat off) (unat sz) data))"

text \<open>
  The buffer grows to \<^verbatim>\<open>needed + 64\<close> bytes; what \<^verbatim>\<open>krealloc\<close> adds is whatever the heap held
  there. A copy beyond the buffer (after a wrapped sum) is \<open>None\<close>.
\<close>

definition data_bytes :: "vnode \<Rightarrow> u8 list" where
  "data_bytes n = (case n_data n of None \<Rightarrow> [] | Some dt \<Rightarrow> dt)"

definition grow_data :: "vnode \<Rightarrow> u32 \<Rightarrow> fs \<Rightarrow> bool \<times> vnode \<times> fs" where
  "grow_data n needed s =
     (if needed > n_capacity n
      then case kalloc s of (ok, s) \<Rightarrow>
             if \<not> ok then (False, n, s)
             else let newcap = needed + 64;
                      old = data_bytes n;
                      data = take (unat newcap) (old @ map (fs_junk s) [length old..<unat newcap])
                  in (True, n\<lparr>n_data := Some data, n_capacity := newcap\<rparr>, s)
      else (True, n, s))"

definition ramfs_write :: "nat \<Rightarrow> vnode \<Rightarrow> u32 \<Rightarrow> u8 list \<Rightarrow> fs \<Rightarrow> (u32 \<times> fs) option" where
  "ramfs_write i n off buf s =
     (let n = (if \<not> n_disk_backed n \<and> n_capacity n = 0 \<and> bf_available (fs_blockfs s)
               then n\<lparr>n_disk_backed := True\<rparr> else n);
          s = put_node i n s
      in if n_disk_backed n then diskfile_write i n off buf s
         else let needed = off + of_nat (length buf);
                  (ok, n, s) = grow_data n needed s
              in if \<not> ok then Some (0, s)
                 else case n_data n of
                        None \<Rightarrow> if buf = [] then Some (0, put_node i (n\<lparr>n_modified := fs_uptime s\<rparr>) s) else None
                      | Some data \<Rightarrow>
                          if unat off + length buf > length data then None
                          else let n = n\<lparr>n_data := Some (splice (unat off) buf data)\<rparr>;
                                   n = (if needed > n_size n then n\<lparr>n_size := needed\<rparr> else n)
                               in Some (of_nat (length buf), put_node i (n\<lparr>n_modified := fs_uptime s\<rparr>) s))"

definition ramfs_readdir :: "vnode \<Rightarrow> nat \<Rightarrow> nat option" where
  "ramfs_readdir n index =
     (if n_type n \<noteq> VFS_DIRECTORY \<or> index \<ge> length (n_children n) then None
      else Some (n_children n ! index))"

definition ramfs_finddir :: "vnode \<Rightarrow> string \<Rightarrow> fs \<Rightarrow> nat option" where
  "ramfs_finddir n name s =
     (if n_type n \<noteq> VFS_DIRECTORY then None
      else find (\<lambda>c. case fs_nodes s c of Some v \<Rightarrow> n_name v = name | None \<Rightarrow> False) (n_children n))"

section \<open>Nodes\<close>

definition fresh_node :: "nat option \<Rightarrow> string \<Rightarrow> u32 \<Rightarrow> u32 \<Rightarrow> vnode" where
  "fresh_node parent name ty now =
     \<lparr>n_name = take 63 name, n_type = ty, n_permissions = (if ty = VFS_DIRECTORY then 0x1ED else 0x1A4),
      n_owner_uid = 0, n_owner_gid = 0, n_size = 0, n_created = now, n_modified = now, n_ops = Ramfs_ops,
      n_parent = parent, n_children = [], n_data = None, n_capacity = 0, n_blocks = None,
      n_disk_backed = False\<rparr>"

definition ramfs_create_node :: "nat option \<Rightarrow> string \<Rightarrow> u32 \<Rightarrow> fs \<Rightarrow> nat option \<times> fs" where
  "ramfs_create_node parent name ty s =
     (let pn = Option.bind parent (fs_nodes s)
      in if (case pn of Some p \<Rightarrow> length (n_children p) \<ge> VFS_MAX_CHILDREN | None \<Rightarrow> False) then (None, s)
         else case kalloc s of (ok, s) \<Rightarrow>
           if \<not> ok then (None, s)
           else let i = fs_next s;
                    s = put_node i (fresh_node parent name ty (fs_uptime s)) (s\<lparr>fs_next := i + 1\<rparr>)
                in (Some i,
                    case (parent, pn) of
                      (Some p, Some v) \<Rightarrow> put_node p (v\<lparr>n_children := n_children v @ [i]\<rparr>) s
                    | _ \<Rightarrow> s))"

definition ramfs_remove_node :: "nat \<Rightarrow> fs \<Rightarrow> int \<times> fs" where
  "ramfs_remove_node i s =
     (case fs_nodes s i of
        None \<Rightarrow> (-1, s)
      | Some n \<Rightarrow>
        (case Option.bind (n_parent n) (\<lambda>p. map_option (Pair p) (fs_nodes s p)) of
           None \<Rightarrow> (-1, s)
         | Some (p, v) \<Rightarrow>
             if n_type n = VFS_DIRECTORY \<and> n_children n \<noteq> [] then (-2, s)
             else if i \<notin> set (n_children v) then (-1, s)
             else let s = put_node p (v\<lparr>n_children := remove1 i (n_children v)\<rparr>) s;
                      s = (if n_disk_backed n
                           then s\<lparr>fs_blockfs := fold blockfs_free (block_list n) (fs_blockfs s)\<rparr> else s)
                  in (0, s\<lparr>fs_nodes := (fs_nodes s)(i := None)\<rparr>)))"


section \<open>The default tree\<close>

definition upd_node :: "nat option \<Rightarrow> (vnode \<Rightarrow> vnode) \<Rightarrow> fs \<Rightarrow> fs" where
  "upd_node i f s =
     (case i of None \<Rightarrow> s | Some i \<Rightarrow> (case fs_nodes s i of Some n \<Rightarrow> put_node i (f n) s | None \<Rightarrow> s))"

definition string_bytes :: "string \<Rightarrow> u8 list" where
  "string_bytes t = map of_char t"

text \<open>\<open>None\<close>: the node pointer is null.\<close>

definition write_string_file :: "nat option \<Rightarrow> string \<Rightarrow> fs \<Rightarrow> fs option" where
  "write_string_file i text s =
     (case i of None \<Rightarrow> None
      | Some i \<Rightarrow> (case fs_nodes s i of
                    None \<Rightarrow> None
                  | Some n \<Rightarrow> map_option snd (ramfs_write i n 0 (string_bytes text) s)))"

abbreviation NL :: string where "NL \<equiv> [CHR 0x0A]"

definition ramfs_init :: "fs \<Rightarrow> fs option" where
  "ramfs_init s =
     (let (root, s) = ramfs_create_node None ''/'' VFS_DIRECTORY s;
          s = s\<lparr>fs_root := root\<rparr>;
          (bin, s) = ramfs_create_node root ''bin'' VFS_DIRECTORY s;
          (etc, s) = ramfs_create_node root ''etc'' VFS_DIRECTORY s;
          (home, s) = ramfs_create_node root ''home'' VFS_DIRECTORY s;
          (tmp, s) = ramfs_create_node root ''tmp'' VFS_DIRECTORY s;
          (var, s) = ramfs_create_node root ''var'' VFS_DIRECTORY s;
          (_, s) = ramfs_create_node root ''dev'' VFS_DIRECTORY s;
          (_, s) = ramfs_create_node root ''mnt'' VFS_DIRECTORY s;
          (root_home, s) = ramfs_create_node root ''root'' VFS_DIRECTORY s;
          s = upd_node root_home (\<lambda>n. n\<lparr>n_owner_uid := 0, n_owner_gid := 0, n_permissions := 0x1C0\<rparr>) s;
          s = upd_node tmp (\<lambda>n. n\<lparr>n_permissions := 0x3FF\<rparr>) s;
          (u_home, s) = ramfs_create_node home ''user'' VFS_DIRECTORY s;
          s = upd_node u_home (\<lambda>n. n\<lparr>n_owner_uid := 1000, n_owner_gid := 1000\<rparr>) s;
          (_, s) = ramfs_create_node var ''log'' VFS_DIRECTORY s;
          (hostname, s) = ramfs_create_node etc ''hostname'' VFS_FILE s
      in do {
           s \<leftarrow> write_string_file hostname (''trinux'' @ NL) s;
           let (motd, s) = ramfs_create_node etc ''motd'' VFS_FILE s;
           s \<leftarrow> write_string_file motd (''Welcome to Trinux!'' @ NL
                  @ ''A tiny Unix-like kernel written in C and assembly.'' @ NL
                  @ ''Type '' @ [CHR 0x27] @ ''help'' @ [CHR 0x27] @ '' to get started.'' @ NL) s;
           h \<leftarrow> Option.bind home (fs_nodes s);
           case ramfs_finddir h ''user'' s of
             None \<Rightarrow> Some s
           | Some hu \<Rightarrow>
               let (readme, s) = ramfs_create_node (Some hu) ''readme.txt'' VFS_FILE s;
                   s = upd_node readme (\<lambda>n. n\<lparr>n_owner_uid := 1000, n_owner_gid := 1000\<rparr>) s
               in write_string_file readme (''Hello from Trinux.'' @ NL
                  @ ''This file lives in a RAM filesystem.'' @ NL
                  @ ''Try: cat readme.txt, wc readme.txt, hexdump readme.txt'' @ NL) s
         })"

end
