(* ===== verification/Ramfs_Data.thy ===== *)
theory Ramfs_Data
  imports Ramfs
begin

text \<open>
  What a file's bytes are, for both storage modes, and the proof that writing and reading them
  through \<^verbatim>\<open>fs/ramfs.c\<close> behaves like writing into and reading from one byte string. The
  last part gives one contract for both modes, which the account files and the descriptors use.
\<close>

section \<open>Splicing into blocks\<close>

lemma splice_splice_nested:
  assumes "p + m \<le> length xs" "off + length zs \<le> m"
  shows "splice p (splice off zs (slice p m xs)) xs = splice (p + off) zs xs"
proof (rule nth_equalityI)
  have l: "length (splice off zs (slice p m xs)) = m" using assms by simp
  show "length (splice p (splice off zs (slice p m xs)) xs) = length (splice (p + off) zs xs)"
    using assms l by simp
  fix i
  assume "i < length (splice p (splice off zs (slice p m xs)) xs)"
  then have i: "i < length xs" using assms l by simp
  show "splice p (splice off zs (slice p m xs)) xs ! i = splice (p + off) zs xs ! i"
    using assms l i by (auto simp: nth_splice nth_slice)
qed

lemma length_concat_blocks: "\<forall>b \<in> set bs. length (f b) = m \<Longrightarrow> length (concat (map f bs)) = length bs * m"
  by (induction bs) simp_all

lemma slice_concat_block:
  assumes "\<forall>b \<in> set bs. length (f b) = m" "i < length bs"
  shows "slice (i * m) m (concat (map f bs)) = f (bs ! i)"
  using assms
proof (induction bs arbitrary: i)
  case (Cons b bs)
  then show ?case
    by (cases i) (auto simp: slice_def)
qed simp

lemma concat_block_update:
  assumes "\<forall>b \<in> set bs. length (f b) = m" "i < length bs" "distinct bs" "length blk = m"
    and "\<forall>b \<in> set bs. g b = (if b = bs ! i then blk else f b)"
  shows "concat (map g bs) = splice (i * m) blk (concat (map f bs))"
  using assms
proof (induction bs arbitrary: i)
  case (Cons b bs)
  show ?case
  proof (cases i)
    case 0
    have "map g bs = map f bs" using Cons.prems 0 by (intro map_cong) auto
    then have "concat (map g bs) = concat (map f bs)" by (rule arg_cong)
    then show ?thesis using Cons.prems(1,4,5) 0 unfolding splice_def by (simp del: map_eq_conv)
  next
    case (Suc j)
    have j: "j < length bs" using Cons.prems(2) Suc by simp
    have "b \<noteq> bs ! j" using Cons.prems(3) j by auto
    then have "g b = f b" using Cons.prems(5) Suc by simp
    moreover have "concat (map g bs) = splice (j * m) blk (concat (map f bs))"
      using Cons.prems Suc j by (intro Cons.IH) auto
    ultimately show ?thesis using Cons.prems(1) Suc by (simp add: splice_def)
  qed
qed simp

section \<open>Blocks of the mounted disk\<close>

definition block_bytes :: "disk \<Rightarrow> u32 \<Rightarrow> u8 list" where
  "block_bytes d k = read_run (dk_sector d) (32768 + geo_sectors (unat (dk_total d)) + unat k * 8) 8"

definition disk_ready :: "blockfs \<Rightarrow> disk \<Rightarrow> bool" where
  "disk_ready b d \<longleftrightarrow> mounted_on (unat (dk_total d)) b \<and> device_ok d \<and> 163904 < unat (dk_total d)"

lemma length_block_bytes: "disk_ready b d \<Longrightarrow> length (block_bytes d k) = 4096"
  using length_read_run [of "dk_sector d"] ata.sector_size by (simp add: block_bytes_def disk_ready_def)

lemma block_read:
  "disk_ready b d \<Longrightarrow> k < bf_total_blocks b \<Longrightarrow> blockfs_read_block k b d = (0, block_bytes d k)"
  by (simp add: block_bytes_def disk_ready_def blockfs_read_block_ok)

lemma block_write:
  assumes "disk_ready b d" "k < bf_total_blocks b" "length blk = 4096"
  obtains d' where "blockfs_write_block k blk b d = (0, d')" "disk_ready b d'"
    "\<And>j. block_bytes d' j = (if j = k then blk else block_bytes d j)"
proof -
  have a: "mounted_on (unat (dk_total d)) b" "device_ok d" "163904 < unat (dk_total d)"
    using assms(1) by (auto simp: disk_ready_def)
  obtain d' where d': "blockfs_write_block k blk b d = (0, d')" "device_ok d'" "unat (dk_total d') = unat (dk_total d)"
    "dk_sector d' = write_run (32768 + geo_sectors (unat (dk_total d)) + unat k * 8) 8 blk (dk_sector d)"
    using blockfs_write_block_ok [OF a assms(2,3)] by blast
  show ?thesis
  proof (rule that [OF d'(1)])
    show "disk_ready b d'" using a d'(2,3) by (simp add: disk_ready_def)
    fix j
    have len: "length blk = 8 * 512" using assms(3) by simp
    show "block_bytes d' j = (if j = k then blk else block_bytes d j)"
    proof (cases "j = k")
      case True
      then show ?thesis using read_write_run [OF len] by (simp add: block_bytes_def d'(3,4))
    next
      case False
      then have "unat j \<noteq> unat k" by (simp add: word_eq_iff_unsigned [where ?'a = nat])
      then have "32768 + geo_sectors (unat (dk_total d)) + unat j * 8 + 8 \<le> 32768 + geo_sectors (unat (dk_total d)) + unat k * 8
        \<or> 32768 + geo_sectors (unat (dk_total d)) + unat k * 8 + 8 \<le> 32768 + geo_sectors (unat (dk_total d)) + unat j * 8"
        by linarith
      from read_write_run_other [OF this] False show ?thesis by (simp add: block_bytes_def d'(3,4))
    qed
  qed
qed

text \<open>The bytes of a list of blocks, end to end.\<close>

definition raw_bytes :: "disk \<Rightarrow> u32 list \<Rightarrow> u8 list" where
  "raw_bytes d bs = concat (map (block_bytes d) bs)"

lemma length_raw_bytes: "disk_ready b d \<Longrightarrow> length (raw_bytes d bs) = length bs * 4096"
  unfolding raw_bytes_def by (rule length_concat_blocks) (simp add: length_block_bytes)

lemma slice_in_block:
  assumes "disk_ready b d" "i < length bs" "off + n \<le> 4096"
  shows "slice off n (block_bytes d (bs ! i)) = slice (i * 4096 + off) n (raw_bytes d bs)"
proof -
  have "slice (i * 4096) 4096 (raw_bytes d bs) = block_bytes d (bs ! i)"
    unfolding raw_bytes_def
    by (rule slice_concat_block) (use assms(2) length_block_bytes [OF assms(1)] in auto)
  then have "slice off n (block_bytes d (bs ! i)) = slice off n (slice (i * 4096) 4096 (raw_bytes d bs))" by simp
  also have "\<dots> = slice (i * 4096 + off) n (raw_bytes d bs)"
    using assms(3) by (simp add: slice_def drop_take add.commute min_def)
  finally show ?thesis .
qed

lemma splice_in_block:
  assumes "disk_ready b d" "i < length bs" "off + length zs \<le> 4096"
  shows "splice (i * 4096) (splice off zs (block_bytes d (bs ! i))) (raw_bytes d bs)
     = splice (i * 4096 + off) zs (raw_bytes d bs)"
proof -
  have s: "slice (i * 4096) 4096 (raw_bytes d bs) = block_bytes d (bs ! i)"
    using slice_in_block [OF assms(1,2), of 0 4096] length_block_bytes [OF assms(1)] by (simp add: slice_def)
  have "(i + 1) * 4096 \<le> length bs * 4096" using assms(2) by simp
  then have "i * 4096 + 4096 \<le> length (raw_bytes d bs)" using length_raw_bytes [OF assms(1)] by simp
  from splice_splice_nested [OF this assms(3)] show ?thesis unfolding s by simp
qed

section \<open>The transfer loops\<close>

lemma block_position:
  fixes off :: u32
  assumes "unat off + got < 4294967296"
  shows "unat ((off + of_nat got) div BLOCK_SIZE) = (unat off + got) div 4096"
    and "unat ((off + of_nat got) mod BLOCK_SIZE) = (unat off + got) mod 4096"
  using assms unat_plus_u32 [of off "of_nat got"] by (simp_all add: unat_div unat_mod)

lemma diskfile_read_loop_ok:
  assumes "disk_ready b d" "\<forall>k \<in> set bs. k < bf_total_blocks b"
    and "unat off + sz \<le> length bs * 4096" "unat off + sz < 4294967296" "got \<le> sz"
  shows "diskfile_read_loop bs off sz b d got out = (sz, out @ slice (unat off + got) (sz - got) (raw_bytes d bs))"
  using assms(5)
proof (induction "sz - got" arbitrary: got out rule: less_induct)
  case less
  let ?C = "raw_bytes d bs"
  show ?case
  proof (cases "got < sz")
    case False
    then show ?thesis using less(2) by (subst diskfile_read_loop.simps) (simp add: slice_def)
  next
    case True
    let ?p = "unat off + got"
    define bi where "bi = ?p div 4096"
    define bo where "bo = ?p mod 4096"
    define chunk where "chunk = min (4096 - bo) (sz - got)"
    have "?p < 4294967296" using True assms(4) by simp
    note pos = block_position [OF this, folded bi_def bo_def]
    have pb: "?p = bi * 4096 + bo" "bo < 4096" by (simp_all add: bi_def bo_def)
    have "?p < length bs * 4096" using True assms(3) by simp
    then have lt: "bi < length bs" unfolding bi_def by (rule less_mult_imp_div_less)
    have k: "bs ! bi < bf_total_blocks b" using assms(2) lt by simp
    have c: "0 < chunk" "got + chunk \<le> sz" "bo + chunk \<le> 4096" using True pb by (auto simp: chunk_def)
    have sl: "slice bo chunk (block_bytes d (bs ! bi)) = slice ?p chunk ?C"
      using slice_in_block [OF assms(1) lt c(3)] pb(1) by simp
    have "diskfile_read_loop bs off sz b d got out = diskfile_read_loop bs off sz b d (got + chunk) (out @ slice ?p chunk ?C)"
      using True lt block_read [OF assms(1) k] sl
      by (subst diskfile_read_loop.simps) (simp add: Let_def pos chunk_def [symmetric])
    also have "\<dots> = (sz, (out @ slice ?p chunk ?C) @ slice (unat off + (got + chunk)) (sz - (got + chunk)) ?C)"
      using c True by (intro less(1)) auto
    finally show ?thesis using slice_append_slice [of ?p chunk ?C "sz - (got + chunk)"] c by (simp add: add.assoc)
  qed
qed

lemma diskfile_write_loop_ok:
  assumes "disk_ready b d" "\<forall>k \<in> set bs. k < bf_total_blocks b" "distinct bs"
    and "unat off + length buf \<le> length bs * 4096" "unat off + length buf < 4294967296"
    and "sent \<le> length buf" "length blk = 4096"
  shows "\<exists>d'. diskfile_write_loop bs off buf b sent blk d = Some (length buf, d') \<and> disk_ready b d'
     \<and> raw_bytes d' bs = splice (unat off + sent) (drop sent buf) (raw_bytes d bs)
     \<and> (\<forall>k. k \<notin> set bs \<longrightarrow> block_bytes d' k = block_bytes d k)"
  using assms(1,6,7)
proof (induction "length buf - sent" arbitrary: sent blk d rule: less_induct)
  case less
  show ?case
  proof (cases "sent < length buf")
    case False
    then show ?thesis using less(2-4)
      by (subst diskfile_write_loop.simps) (simp add: splice_def)
  next
    case True
    let ?p = "unat off + sent" and ?C = "raw_bytes d bs"
    define bi where "bi = ?p div 4096"
    define bo where "bo = ?p mod 4096"
    define chunk where "chunk = min (4096 - bo) (length buf - sent)"
    have "?p < 4294967296" using True assms(5) by simp
    note pos = block_position [OF this, folded bi_def bo_def]
    have pb: "?p = bi * 4096 + bo" "bo < 4096" by (simp_all add: bi_def bo_def)
    have "?p < length bs * 4096" using True assms(4) by simp
    then have lt: "bi < length bs" unfolding bi_def by (rule less_mult_imp_div_less)
    have k: "bs ! bi < bf_total_blocks b" using assms(2) lt by simp
    have c: "0 < chunk" "sent + chunk \<le> length buf" "bo + chunk \<le> 4096" using True pb by (auto simp: chunk_def)
    have lb: "length (block_bytes d (bs ! bi)) = 4096" by (rule length_block_bytes [OF less(2)])
    define part where "part = slice sent chunk buf"
    have lp: "length part = chunk" using c by (simp add: part_def)
    define nb where "nb = splice bo part (block_bytes d (bs ! bi))"
    have nb: "length nb = 4096" using c lb lp by (simp add: nb_def)
    have blk: "splice bo part (if chunk \<noteq> 4096
        then case blockfs_read_block (bs ! bi) b d of (_, r) \<Rightarrow> r @ drop (length r) blk else blk) = nb"
    proof (cases "chunk = 4096")
      case True
      then have "bo = 0" using c by simp
      then show ?thesis using True lp lb less(4) by (simp add: nb_def splice_def)
    next
      case False
      then show ?thesis using block_read [OF less(2) k] less(4) lb by (simp add: nb_def)
    qed
    obtain d1 where d1: "blockfs_write_block (bs ! bi) nb b d = (0, d1)" "disk_ready b d1"
      "\<And>j. block_bytes d1 j = (if j = bs ! bi then nb else block_bytes d j)"
      using block_write [OF less(2) k nb] by blast
    have C1: "raw_bytes d1 bs = splice ?p part ?C"
      unfolding nb_def raw_bytes_def
    proof -
      have "concat (map (block_bytes d1) bs) = splice (bi * 4096) nb (concat (map (block_bytes d) bs))"
        by (rule concat_block_update) (use lt assms(3) nb d1(3) length_block_bytes [OF less(2)] in auto)
      also have "\<dots> = splice (bi * 4096 + bo) part (concat (map (block_bytes d) bs))"
        unfolding nb_def raw_bytes_def [symmetric]
        using splice_in_block [OF less(2) lt, of bo part] c(3) lp by simp
      finally show "concat (map (block_bytes d1) bs) = splice ?p part (concat (map (block_bytes d) bs))"
        using pb(1) by simp
    qed
    have "diskfile_write_loop bs off buf b sent blk d = diskfile_write_loop bs off buf b (sent + chunk) nb d1"
      by (subst diskfile_write_loop.simps,
          unfold Let_def pos chunk_def [symmetric] part_def [symmetric] blk d1(1)) (use True lt in simp)
    moreover have dec: "length buf - (sent + chunk) < length buf - sent" using c by linarith
    moreover obtain d' where d': "diskfile_write_loop bs off buf b (sent + chunk) nb d1 = Some (length buf, d')" "disk_ready b d'"
      "raw_bytes d' bs = splice (unat off + (sent + chunk)) (drop (sent + chunk) buf) (raw_bytes d1 bs)"
      "\<forall>k. k \<notin> set bs \<longrightarrow> block_bytes d' k = block_bytes d1 k"
      using less(1) [OF dec d1(2) c(2) nb] by blast
    moreover have "splice (unat off + (sent + chunk)) (drop (sent + chunk) buf) (raw_bytes d1 bs)
        = splice ?p (drop sent buf) ?C"
    proof -
      have "part @ drop (sent + chunk) buf = drop sent buf"
        by (simp add: part_def slice_def) (metis add.commute append_take_drop_id drop_drop)
      moreover have "?p + length part + length (drop (sent + chunk) buf) \<le> length ?C"
        using length_raw_bytes [OF less(2)] assms(4) lp c by simp
      ultimately show ?thesis
        using splice_splice_adjacent [of ?p part "drop (sent + chunk) buf" ?C] lp unfolding C1 by (simp add: add.assoc)
    qed
    moreover have "block_bytes d1 j = block_bytes d j" if "j \<notin> set bs" for j
      using d1(3) [of j] that lt by auto
    ultimately show ?thesis by auto
  qed
qed


section \<open>Growing a file\<close>

lemma grow_blocks_ok:
  assumes "disk_ready b d" "n \<le> unat (bf_total_blocks b) - card (bf_used b)"
    and "set bs \<subseteq> of_nat ` bf_used b" "distinct bs" "grow_blocks n bs d b = (r, bs', d', b')"
  shows "r \<and> disk_ready b' d' \<and> bf_total_blocks b' = bf_total_blocks b
     \<and> (\<exists>new. bs' = bs @ new \<and> length new = n \<and> distinct bs' \<and> set new \<inter> of_nat ` bf_used b = {}
          \<and> of_nat ` bf_used b' = of_nat ` bf_used b \<union> set new \<and> (\<forall>k \<in> set new. block_bytes d' k = zero_block))
     \<and> (\<forall>k. k \<in> of_nat ` bf_used b \<longrightarrow> block_bytes d' k = block_bytes d k)"
  using assms
proof (induction n arbitrary: bs d b)
  case 0
  then show ?case by auto
next
  case (Suc n)
  have inv: "blockfs_inv b" using Suc.prems(1) by (simp add: disk_ready_def mounted_on_def)
  from inv show ?case
  proof (cases rule: blockfs_alloc_cases)
    case full
    then show ?thesis using Suc.prems(2) by simp
  next
    case (block i b1)
    let ?k = "of_nat i :: u32"
    note idx = blockfs_index [OF inv block(2)]
    have m1: "mounted_on (unat (dk_total d)) b1"
    proof -
      have "blockfs_alloc b = (?k, b1)" by (rule block(1))
      then have "bf_bitmap_bytes b1 = bf_bitmap_bytes b" "bf_bitmap_sectors b1 = bf_bitmap_sectors b"
        "bf_data_start_lba b1 = bf_data_start_lba b"
        by (auto simp: blockfs_alloc_def split: if_splits option.splits)
      then show ?thesis using Suc.prems(1) block(6,7) by (simp add: disk_ready_def mounted_on_def)
    qed
    then have r1: "disk_ready b1 d" using Suc.prems(1) by (simp add: disk_ready_def)
    have k1: "?k < bf_total_blocks b1" using idx(4) block(7) by simp
    have z: "length zero_block = 4096" by (simp add: zero_block_def)
    obtain d1 where d1: "blockfs_write_block ?k zero_block b1 d = (0, d1)" "disk_ready b1 d1"
      "\<And>j. block_bytes d1 j = (if j = ?k then zero_block else block_bytes d j)"
      using block_write [OF r1 k1 z] by blast
    have fresh: "?k \<notin> of_nat ` bf_used b"
    proof
      assume "?k \<in> of_nat ` bf_used b"
      then obtain j where "j \<in> bf_used b" "?k = of_nat j" by blast
      moreover then have "unat (of_nat j :: u32) = j" using blockfs_index(1) [OF inv] bf_used_below by auto
      ultimately show False using idx(1) block(3) by simp
    qed
    have step: "grow_blocks n (bs @ [?k]) d1 b1 = (r, bs', d', b')"
      using Suc.prems(5) block(1) idx(3) d1(1) by simp
    have u1: "of_nat ` bf_used b1 = insert ?k (of_nat ` bf_used b)" using block(5) by simp
    have card1: "card (bf_used b1) = Suc (card (bf_used b))" using block(3,5) by simp
    have "r \<and> disk_ready b' d' \<and> bf_total_blocks b' = bf_total_blocks b1
     \<and> (\<exists>new. bs' = (bs @ [?k]) @ new \<and> length new = n \<and> distinct bs' \<and> set new \<inter> of_nat ` bf_used b1 = {}
          \<and> of_nat ` bf_used b' = of_nat ` bf_used b1 \<union> set new \<and> (\<forall>k \<in> set new. block_bytes d' k = zero_block))
     \<and> (\<forall>k. k \<in> of_nat ` bf_used b1 \<longrightarrow> block_bytes d' k = block_bytes d1 k)"
      by (rule Suc.IH [OF d1(2) _ _ _ step]) (use Suc.prems(2-4) card1 block(7) u1 fresh in auto)
    then obtain new where new: "r" "disk_ready b' d'" "bf_total_blocks b' = bf_total_blocks b"
      "bs' = bs @ (?k # new)" "length new = n" "distinct bs'" "set new \<inter> insert ?k (of_nat ` bf_used b) = {}"
      "of_nat ` bf_used b' = of_nat ` bf_used b \<union> set (?k # new)" "\<forall>k \<in> set new. block_bytes d' k = zero_block"
      "\<forall>k. k \<in> insert ?k (of_nat ` bf_used b) \<longrightarrow> block_bytes d' k = block_bytes d1 k"
      using block(7) u1 by auto
    have "\<forall>k \<in> set (?k # new). block_bytes d' k = zero_block" using new(9,10) d1(3) by simp
    moreover have "block_bytes d' k = block_bytes d k" if "k \<in> of_nat ` bf_used b" for k
    proof -
      have "k \<noteq> ?k" using that fresh by metis
      then show ?thesis using new(10) d1(3) [of k] that by simp
    qed
    moreover have "set (?k # new) \<inter> of_nat ` bf_used b = {}" using new(7) fresh by auto
    ultimately show ?thesis using new by (intro conjI exI [of _ "?k # new"]) simp_all
  qed
qed

lemma raw_bytes_append: "raw_bytes d (xs @ ys) = raw_bytes d xs @ raw_bytes d ys"
  by (simp add: raw_bytes_def)

lemma raw_bytes_zero: "\<forall>k \<in> set bs. block_bytes d k = zero_block \<Longrightarrow> raw_bytes d bs = replicate (length bs * 4096) 0"
  by (induction bs) (simp_all add: raw_bytes_def zero_block_def replicate_add)

lemma raw_bytes_cong: "\<forall>k \<in> set bs. block_bytes d k = block_bytes d' k \<Longrightarrow> raw_bytes d bs = raw_bytes d' bs"
  unfolding raw_bytes_def by (intro arg_cong [of _ _ concat] map_cong) auto

text \<open>
  A disk-backed file that is in order: its blocks are distinct, in use, and hold its size.
\<close>

definition file_blocks_ok :: "vnode \<Rightarrow> fs \<Rightarrow> bool" where
  "file_blocks_ok n s \<longleftrightarrow> disk_ready (fs_blockfs s) (fs_disk s) \<and> distinct (block_list n)
     \<and> set (block_list n) \<subseteq> of_nat ` bf_used (fs_blockfs s) \<and> unat (n_size n) \<le> length (block_list n) * 4096"

text \<open>What an operation on one file leaves alone, and how many blocks it takes from the disk.\<close>

definition fs_frame :: "fs \<Rightarrow> fs \<Rightarrow> bool" where
  "fs_frame s s' \<longleftrightarrow> fs_next s' = fs_next s \<and> fs_root s' = fs_root s \<and> fs_vfs_root s' = fs_vfs_root s
     \<and> fs_grants s' = fs_grants s \<and> fs_cred s' = fs_cred s \<and> fs_umask s' = fs_umask s"

definition used_blocks :: "fs \<Rightarrow> u32 set" where
  "used_blocks s = of_nat ` bf_used (fs_blockfs s)"

definition free_blocks :: "fs \<Rightarrow> nat" where
  "free_blocks s = unat (bf_total_blocks (fs_blockfs s)) - card (bf_used (fs_blockfs s))"

definition takes_blocks :: "nat \<Rightarrow> fs \<Rightarrow> fs \<Rightarrow> bool" where
  "takes_blocks k s s' \<longleftrightarrow> used_blocks s \<subseteq> used_blocks s' \<and> free_blocks s' = free_blocks s - k"

lemma card_used_blocks:
  assumes "blockfs_inv b"
  shows "card (of_nat ` bf_used b :: u32 set) = card (bf_used b)"
proof (rule card_image, rule inj_onI)
  fix i j assume "i \<in> bf_used b" "j \<in> bf_used b" "(of_nat i :: u32) = of_nat j"
  then show "i = j" using blockfs_index(1) [OF assms] bf_used_below by (metis lessThan_iff subsetD)
qed

definition disk_content :: "vnode \<Rightarrow> fs \<Rightarrow> u8 list" where
  "disk_content n s = take (unat (n_size n)) (raw_bytes (fs_disk s) (block_list n))"

lemma used_block_bound:
  assumes "disk_ready b d" "k \<in> of_nat ` bf_used b"
  shows "k < bf_total_blocks b"
proof -
  obtain i where i: "i \<in> bf_used b" "k = of_nat i" using assms(2) by blast
  have "blockfs_inv b" using assms(1) by (simp add: disk_ready_def mounted_on_def)
  then show ?thesis using blockfs_index(4) [of b i] i bf_used_below by auto
qed

lemma ensure_blocks_ok:
  assumes ok: "file_blocks_ok n s" and g: "fs_grants s (fs_allocs s)"
    and room: "nblocks - length (block_list n) \<le> unat (bf_total_blocks (fs_blockfs s)) - card (bf_used (fs_blockfs s))"
  obtains n' s' where "ensure_blocks i n nblocks s = (True, n', s')" "file_blocks_ok n' s'"
    "length (block_list n') = max nblocks (length (block_list n))" "n_size n' = n_size n"
    "raw_bytes (fs_disk s') (block_list n') = raw_bytes (fs_disk s) (block_list n)
       @ replicate ((nblocks - length (block_list n)) * 4096) 0"
    "\<forall>k. k \<in> of_nat ` bf_used (fs_blockfs s) \<longrightarrow> block_bytes (fs_disk s') k = block_bytes (fs_disk s) k"
    "set (block_list n') \<inter> of_nat ` bf_used (fs_blockfs s) = set (block_list n)"
    "fs_junk s' = fs_junk s" "\<forall>j. j \<noteq> i \<longrightarrow> fs_nodes s' j = fs_nodes s j"
    "\<exists>bs. n' = n\<lparr>n_blocks := bs\<rparr>" "fs_frame s s'" "takes_blocks (nblocks - length (block_list n)) s s'"
proof (cases "nblocks \<le> length (block_list n)")
  case True
  have "n = n\<lparr>n_blocks := n_blocks n\<rparr>" by simp
  then have form: "\<exists>bs. n = n\<lparr>n_blocks := bs\<rparr>" by (rule exI)
  show ?thesis
  proof (rule that [of n s])
    show "\<exists>bs. n = n\<lparr>n_blocks := bs\<rparr>" by (rule form)
  qed (use True ok in \<open>auto simp: ensure_blocks_def file_blocks_ok_def max_def fs_frame_def takes_blocks_def\<close>)
next
  case False
  let ?k = "nblocks - length (block_list n)"
  obtain r bs d b where gr: "grow_blocks ?k (block_list n) (fs_disk s) (fs_blockfs s) = (r, bs, d, b)"
    by (metis prod_cases4)
  have pre: "disk_ready (fs_blockfs s) (fs_disk s)" "distinct (block_list n)"
    "set (block_list n) \<subseteq> of_nat ` bf_used (fs_blockfs s)" using ok by (auto simp: file_blocks_ok_def)
  from grow_blocks_ok [OF pre(1) room pre(3,2) gr] obtain new where new: "r" "disk_ready b d"
    "bs = block_list n @ new" "length new = ?k" "distinct bs" "set new \<inter> of_nat ` bf_used (fs_blockfs s) = {}"
    "of_nat ` bf_used b = of_nat ` bf_used (fs_blockfs s) \<union> set new" "\<forall>k \<in> set new. block_bytes d k = zero_block"
    "\<forall>k. k \<in> of_nat ` bf_used (fs_blockfs s) \<longrightarrow> block_bytes d k = block_bytes (fs_disk s) k"
    by blast
  let ?n = "n\<lparr>n_blocks := Some bs\<rparr>"
  let ?s = "put_node i ?n (s\<lparr>fs_allocs := fs_allocs s + 1, fs_disk := d, fs_blockfs := b\<rparr>)"
  have e: "ensure_blocks i n nblocks s = (True, ?n, ?s)"
    using False g gr new(1) by (simp add: ensure_blocks_def kalloc_def Let_def)
  have bl: "block_list ?n = bs" by (simp add: block_list_def)
  have old: "raw_bytes d (block_list n) = raw_bytes (fs_disk s) (block_list n)"
    by (rule raw_bytes_cong) (use new(9) pre(3) in blast)
  have inv: "blockfs_inv (fs_blockfs s)" "blockfs_inv b" using pre(1) new(2) by (simp_all add: disk_ready_def mounted_on_def)
  have "card (of_nat ` bf_used b :: u32 set) = card (of_nat ` bf_used (fs_blockfs s) :: u32 set) + ?k"
    unfolding new(7) using distinct_card [of new] new(3-6) finite_subset [OF bf_used_below finite_lessThan]
    by (subst card_Un_disjoint) auto
  then have "card (bf_used b) = card (bf_used (fs_blockfs s)) + ?k" by (simp only: card_used_blocks inv)
  moreover have "bf_total_blocks b = bf_total_blocks (fs_blockfs s)"
    using grow_blocks_ok [OF pre(1) room pre(3,2) gr] by blast
  ultimately have took: "takes_blocks ?k s ?s"
    using new(7) by (simp add: takes_blocks_def used_blocks_def free_blocks_def put_node_def)
  show ?thesis
  proof (rule that [OF e])
    show "takes_blocks ?k s ?s" by (rule took)
    show "file_blocks_ok ?n ?s"
      using new pre(3) ok bl by (auto simp: file_blocks_ok_def put_node_def)
    show "raw_bytes (fs_disk ?s) (block_list ?n) = raw_bytes (fs_disk s) (block_list n)
       @ replicate (?k * 4096) 0"
      using old raw_bytes_zero [OF new(8)] new(3,4) bl by (simp add: put_node_def raw_bytes_append)
    show "set (block_list ?n) \<inter> of_nat ` bf_used (fs_blockfs s) = set (block_list n)"
      using new(3,6) pre(3) bl by auto
  qed (use False new bl in \<open>auto simp: put_node_def fs_frame_def\<close>)
qed


section \<open>Writing to the disk\<close>

text \<open>What a write leaves alone in the node it writes to.\<close>

definition same_attrs :: "vnode \<Rightarrow> vnode \<Rightarrow> bool" where
  "same_attrs n n' \<longleftrightarrow> n_name n' = n_name n \<and> n_type n' = n_type n \<and> n_permissions n' = n_permissions n
     \<and> n_owner_uid n' = n_owner_uid n \<and> n_owner_gid n' = n_owner_gid n \<and> n_created n' = n_created n
     \<and> n_ops n' = n_ops n \<and> n_parent n' = n_parent n \<and> n_children n' = n_children n"

lemma diskfile_write_ok:
  assumes "file_blocks_ok n s" "fs_grants s (fs_allocs s)"
    and "unat off + length buf < 4294963200"
    and "nblocks = (unat off + length buf + 4095) div 4096"
    and "nblocks - length (block_list n) \<le> unat (bf_total_blocks (fs_blockfs s)) - card (bf_used (fs_blockfs s))"
  shows "\<exists>s' n'. diskfile_write i n off buf s = Some (of_nat (length buf), s') \<and> fs_nodes s' = (fs_nodes s)(i \<mapsto> n')
     \<and> file_blocks_ok n' s' \<and> unat (n_size n') = max (unat (n_size n)) (unat off + length buf)
     \<and> raw_bytes (fs_disk s') (block_list n') = splice (unat off) buf
          (raw_bytes (fs_disk s) (block_list n) @ replicate ((nblocks - length (block_list n)) * 4096) 0)
     \<and> diskfile_read n' off (of_nat (length buf)) s' = (of_nat (length buf), buf)
     \<and> (\<forall>k \<in> used_blocks s - set (block_list n).
          block_bytes (fs_disk s') k = block_bytes (fs_disk s) k)
     \<and> same_attrs n n' \<and> n_disk_backed n' = n_disk_backed n \<and> fs_frame s s'
     \<and> takes_blocks (nblocks - length (block_list n)) s s' \<and> set (block_list n') \<inter> used_blocks s = set (block_list n)"
proof -
  let ?len = "length buf"
  have e1: "unat (off + of_nat ?len) = unat off + ?len"
    using assms(3) unat_plus_u32 [of off "of_nat ?len"] by simp
  then have e2: "unat (off + of_nat ?len + BLOCK_SIZE) = unat off + ?len + 4096"
    using assms(3) unat_plus_u32 [of "off + of_nat ?len" BLOCK_SIZE] by simp
  have "unat (off + of_nat ?len + BLOCK_SIZE - 1) = unat off + ?len + 4095"
    using e2 by (subst unat_minus_one) (auto simp: unat_gt_0 [symmetric])
  then have nb: "unat ((off + of_nat ?len + BLOCK_SIZE - 1) div BLOCK_SIZE) = nblocks"
    using assms(4) by (simp add: unat_div)
  obtain n1 s1 where en: "ensure_blocks i n nblocks s = (True, n1, s1)" and ok1: "file_blocks_ok n1 s1"
    and len1: "length (block_list n1) = max nblocks (length (block_list n))" and sz1: "n_size n1 = n_size n"
    and raw1: "raw_bytes (fs_disk s1) (block_list n1) = raw_bytes (fs_disk s) (block_list n)
       @ replicate ((nblocks - length (block_list n)) * 4096) 0"
    and keep1: "\<forall>k. k \<in> of_nat ` bf_used (fs_blockfs s) \<longrightarrow> block_bytes (fs_disk s1) k = block_bytes (fs_disk s) k"
    and own1: "set (block_list n1) \<inter> of_nat ` bf_used (fs_blockfs s) = set (block_list n)"
    and form: "\<exists>bs. n1 = n\<lparr>n_blocks := bs\<rparr>" and frame: "fs_frame s s1" and took: "takes_blocks (nblocks - length (block_list n)) s s1"
    and nodes: "\<forall>j. j \<noteq> i \<longrightarrow> fs_nodes s1 j = fs_nodes s j"
    by (rule ensure_blocks_ok [OF assms(1,2,5), of i])
  let ?bs = "block_list n1"
  have ready: "disk_ready (fs_blockfs s1) (fs_disk s1)" and dist: "distinct ?bs"
    using ok1 by (auto simp: file_blocks_ok_def)
  have bound: "\<forall>k \<in> set ?bs. k < bf_total_blocks (fs_blockfs s1)"
    using ok1 used_block_bound [OF ready] by (auto simp: file_blocks_ok_def)
  have "unat off + ?len \<le> nblocks * 4096" using assms(4) by linarith
  then have fit: "unat off + ?len \<le> length ?bs * 4096" unfolding len1 by (simp add: max_def split: if_splits)
  have "unat off + ?len < 4294967296" using assms(3) by simp
  then obtain d' where d': "diskfile_write_loop ?bs off buf (fs_blockfs s1) 0 (map (fs_junk s1) [0..<4096]) (fs_disk s1)
      = Some (?len, d')" "disk_ready (fs_blockfs s1) d'"
    "raw_bytes d' ?bs = splice (unat off) buf (raw_bytes (fs_disk s1) ?bs)"
    "\<forall>k. k \<notin> set ?bs \<longrightarrow> block_bytes d' k = block_bytes (fs_disk s1) k"
    using diskfile_write_loop_ok [OF ready bound dist fit, of 0 "map (fs_junk s1) [0..<4096]"] by auto
  define n2 where "n2 = (if off + of_nat ?len > n_size n1 then n1\<lparr>n_size := off + of_nat ?len\<rparr> else n1)\<lparr>n_modified := fs_uptime s1\<rparr>"
  define s2 where "s2 = put_node i n2 (s1\<lparr>fs_disk := d'\<rparr>)"
  have w: "diskfile_write i n off buf s = Some (of_nat ?len, s2)"
    unfolding diskfile_write_def Let_def nb en using d'(1) by (simp add: n2_def s2_def)
  have bl2: "block_list n2 = ?bs" by (simp add: n2_def block_list_def)
  have sz2: "unat (n_size n2) = max (unat (n_size n)) (unat off + ?len)"
    using e1 sz1 by (auto simp: n2_def word_less_nat_alt max_def)
  have ok2: "file_blocks_ok n2 s2"
    using ok1 d'(2) fit bl2 sz2 sz1 by (auto simp: file_blocks_ok_def s2_def put_node_def)
  have raw2: "raw_bytes (fs_disk s2) (block_list n2) = splice (unat off) buf (raw_bytes (fs_disk s1) ?bs)"
    using d'(3) bl2 by (simp add: s2_def put_node_def)
  have rd: "diskfile_read n2 off (of_nat ?len) s2 = (of_nat ?len, buf)"
  proof (cases "?len = 0")
    case True
    then show ?thesis by (auto simp: diskfile_read_def Let_def diskfile_read_loop.simps)
  next
    case False
    have l: "unat (of_nat ?len :: u32) = ?len" using assms(3) by simp
    have "\<not> n_size n2 \<le> off" using sz2 False by (simp add: word_le_nat_alt)
    moreover have "\<not> of_nat ?len > n_size n2 - off"
      using sz2 l unat_minus_u32 [of off "n_size n2"] False by (simp add: word_less_nat_alt word_le_nat_alt)
    moreover have "diskfile_read_loop (block_list n2) off ?len (fs_blockfs s2) (fs_disk s2) 0 []
        = (?len, [] @ slice (unat off + 0) (?len - 0) (raw_bytes (fs_disk s2) (block_list n2)))"
      using d'(2) bound fit assms(3) bl2
      by (intro diskfile_read_loop_ok) (auto simp: s2_def put_node_def)
    moreover have "slice (unat off) ?len (raw_bytes (fs_disk s2) (block_list n2)) = buf"
      unfolding raw2 using fit length_raw_bytes [OF ready] by (intro slice_splice_same) simp
    ultimately show ?thesis using l by (simp add: diskfile_read_def Let_def)
  qed
  have keep: "block_bytes (fs_disk s2) k = block_bytes (fs_disk s) k"
    if "k \<in> of_nat ` bf_used (fs_blockfs s) - set (block_list n)" for k
  proof -
    have "k \<notin> set ?bs" using that own1 by blast
    then show ?thesis using that keep1 d'(4) by (simp add: s2_def put_node_def)
  qed
  have "same_attrs n n2" "n_disk_backed n2 = n_disk_backed n" using form by (auto simp: n2_def same_attrs_def)
  moreover have "fs_nodes s2 = (fs_nodes s)(i \<mapsto> n2)" using nodes by (auto simp: s2_def put_node_def fun_eq_iff)
  moreover have "fs_frame s s2" "takes_blocks (nblocks - length (block_list n)) s s2" "set (block_list n2) \<inter> used_blocks s = set (block_list n)"
    using frame took own1 bl2 by (simp_all add: fs_frame_def takes_blocks_def used_blocks_def free_blocks_def s2_def put_node_def)
  ultimately show ?thesis
    by (intro exI [of _ s2] exI [of _ n2] conjI)
      (use w ok2 sz2 raw2 raw1 rd keep in \<open>auto simp: s2_def put_node_def used_blocks_def\<close>)
qed

section \<open>Properties\<close>

text \<open>
  C28: Writing to a disk-backed file behaves like writing into a byte string: with heap and disk
  space available, the whole buffer is written, the file's blocks hold the old bytes (followed by
  zeros where the file grew) with the buffer spliced in at the offset, the size becomes the
  larger of the old one and the end of the write, reading the range back gives the buffer, and
  every block of any other file keeps its contents.
\<close>

theorem diskfile_write_read:
  assumes "file_blocks_ok n s" "fs_grants s (fs_allocs s)"
    and "unat off + length buf < 4294963200"
    and "nblocks = (unat off + length buf + 4095) div 4096"
    and "nblocks - length (block_list n) \<le> unat (bf_total_blocks (fs_blockfs s)) - card (bf_used (fs_blockfs s))"
  shows "\<exists>s' n'. diskfile_write i n off buf s = Some (of_nat (length buf), s') \<and> fs_nodes s' i = Some n'
     \<and> file_blocks_ok n' s' \<and> unat (n_size n') = max (unat (n_size n)) (unat off + length buf)
     \<and> raw_bytes (fs_disk s') (block_list n') = splice (unat off) buf
          (raw_bytes (fs_disk s) (block_list n) @ replicate ((nblocks - length (block_list n)) * 4096) 0)
     \<and> diskfile_read n' off (of_nat (length buf)) s' = (of_nat (length buf), buf)
     \<and> (\<forall>k \<in> of_nat ` bf_used (fs_blockfs s) - set (block_list n).
          block_bytes (fs_disk s') k = block_bytes (fs_disk s) k)"
  using diskfile_write_ok [OF assms, of i] unfolding used_blocks_def by (metis fun_upd_same)

text \<open>
  Reading a disk-backed file returns the bytes of the file from the offset on, at most as many
  as asked for and never beyond its size.
\<close>

theorem diskfile_read_correct:
  assumes "file_blocks_ok n s"
  shows "diskfile_read n off sz s =
     (of_nat (length (slice (unat off) (unat sz) (disk_content n s))), slice (unat off) (unat sz) (disk_content n s))"
proof (cases "n_size n \<le> off")
  case True
  then have "slice (unat off) (unat sz) (disk_content n s) = []"
    by (simp add: slice_def disk_content_def word_le_nat_alt)
  then show ?thesis using True by (simp add: diskfile_read_def)
next
  case False
  let ?raw = "raw_bytes (fs_disk s) (block_list n)"
  have ready: "disk_ready (fs_blockfs s) (fs_disk s)" using assms by (simp add: file_blocks_ok_def)
  have bound: "\<forall>k \<in> set (block_list n). k < bf_total_blocks (fs_blockfs s)"
    using assms used_block_bound [OF ready] by (auto simp: file_blocks_ok_def)
  have cap: "unat (n_size n) \<le> length (block_list n) * 4096" using assms by (simp add: file_blocks_ok_def)
  have av: "unat (n_size n - off) = unat (n_size n) - unat off"
    using False by (intro unat_minus_u32) simp
  define m where "m = (if sz > n_size n - off then n_size n - off else sz)"
  have m: "unat m = min (unat sz) (unat (n_size n) - unat off)"
    using av by (auto simp: m_def word_less_nat_alt min_def)
  have lt: "unat off < unat (n_size n)" using False by (simp add: word_le_nat_alt)
  then have end_le: "unat off + unat m \<le> unat (n_size n)" using m by simp
  have "diskfile_read_loop (block_list n) off (unat m) (fs_blockfs s) (fs_disk s) 0 []
      = (unat m, [] @ slice (unat off + 0) (unat m - 0) ?raw)"
    using ready bound cap end_le unat_u32_bound [of "n_size n"] by (intro diskfile_read_loop_ok) auto
  moreover have "slice (unat off) (unat m) ?raw = slice (unat off) (unat sz) (disk_content n s)"
    using m by (simp add: slice_def disk_content_def drop_take min_def)
  moreover have "length (slice (unat off) (unat m) ?raw) = unat m"
    using end_le cap length_raw_bytes [OF ready] by simp
  ultimately show ?thesis using False by (simp add: diskfile_read_def m_def [symmetric] Let_def)
qed


text \<open>A file in memory: its buffer is as long as its capacity and holds its size.\<close>

definition file_buffer_ok :: "vnode \<Rightarrow> bool" where
  "file_buffer_ok n \<longleftrightarrow> length (data_bytes n) = unat (n_capacity n) \<and> n_size n \<le> n_capacity n"

lemma ramfs_write_ram:
  assumes "\<not> n_disk_backed n" "n_capacity n \<noteq> 0 \<or> \<not> bf_available (fs_blockfs s)"
    and "length (data_bytes n) = unat (n_capacity n)" "n_size n \<le> n_capacity n"
    and "fs_grants s (fs_allocs s)" "unat off + length buf < 4294967232" "buf \<noteq> []"
  shows "\<exists>s' n'. ramfs_write i n off buf s = Some (of_nat (length buf), s') \<and> fs_nodes s' i = Some n'
     \<and> unat (n_size n') = max (unat (n_size n)) (unat off + length buf)
     \<and> ramfs_read n' off (of_nat (length buf)) s' = (of_nat (length buf), buf)
     \<and> (\<forall>x < unat (n_size n). x < unat off \<or> unat off + length buf \<le> x \<longrightarrow>
          the (n_data n') ! x = the (n_data n) ! x)
     \<and> same_attrs n n' \<and> n_disk_backed n' = n_disk_backed n \<and> file_buffer_ok n'
     \<and> fs_nodes s' = (fs_nodes s)(i \<mapsto> n') \<and> fs_frame s s' \<and> fs_blockfs s' = fs_blockfs s \<and> fs_disk s' = fs_disk s"
proof -
  let ?len = "length buf"
  let ?need = "off + of_nat (length buf)"
  have l: "unat (of_nat ?len :: u32) = ?len" using assms(6) by simp
  have e1: "unat ?need = unat off + ?len" using assms(6) unat_plus_u32 [of off "of_nat ?len"] by simp
  have e2: "unat (?need + 64) = unat off + ?len + 64" using e1 assms(6) unat_plus_u32 [of ?need 64] by simp
  obtain n1 s1 dt where r1: "grow_data n ?need (put_node i n s) = (True, n1, s1)"
    and n1: "n_data n1 = Some dt" "n_size n1 = n_size n" "\<not> n_disk_backed n1" "unat off + ?len \<le> length dt"
      "unat (n_size n) \<le> length dt" "\<forall>x < unat (n_capacity n). dt ! x = data_bytes n ! x"
      "\<exists>c. n1 = n\<lparr>n_data := Some dt, n_capacity := c\<rparr> \<and> length dt = unat c"
      "fs_nodes s1 = (fs_nodes s)(i \<mapsto> n)" "fs_frame s s1" "fs_blockfs s1 = fs_blockfs s" "fs_disk s1 = fs_disk s"
  proof (cases "?need > n_capacity n")
    case True
    let ?dt = "take (unat (?need + 64)) (data_bytes n @ map (fs_junk s) [length (data_bytes n)..<unat (?need + 64)])"
    have "unat (n_capacity n) < unat off + ?len" using True e1 by (simp add: word_less_nat_alt)
    then show ?thesis using True assms(1,3,4,5) e2
      by (intro that [of "n\<lparr>n_data := Some ?dt, n_capacity := ?need + 64\<rparr>" "(put_node i n s)\<lparr>fs_allocs := fs_allocs s + 1\<rparr>" ?dt])
        (auto simp: grow_data_def kalloc_def put_node_def Let_def nth_append word_le_nat_alt fs_frame_def)
  next
    case False
    then have le: "unat off + ?len \<le> unat (n_capacity n)" using e1 by (simp add: word_less_nat_alt)
    moreover have "0 < ?len" using assms(7) by simp
    ultimately obtain dt where dt: "n_data n = Some dt" using assms(3) by (cases "n_data n") (auto simp: data_bytes_def)
    then have "n = n\<lparr>n_data := Some dt, n_capacity := n_capacity n\<rparr>" by simp
    moreover have "length dt = unat (n_capacity n)" using dt assms(3) by (simp add: data_bytes_def)
    ultimately have "\<exists>c. n = n\<lparr>n_data := Some dt, n_capacity := c\<rparr> \<and> length dt = unat c" by blast
    then show ?thesis using False assms(1,3,4) le dt
      by (intro that [of n "put_node i n s" dt])
        (simp_all add: grow_data_def data_bytes_def word_le_nat_alt put_node_def fs_frame_def)
  qed
  define n2 where "n2 = n1\<lparr>n_data := Some (splice (unat off) buf dt)\<rparr>"
  define n3 where "n3 = (if ?need > n_size n2 then n2\<lparr>n_size := ?need\<rparr> else n2)\<lparr>n_modified := fs_uptime s1\<rparr>"
  have w: "ramfs_write i n off buf s = Some (of_nat ?len, put_node i n3 s1)"
    using assms(1,2) r1 n1(1,4) by (auto simp: ramfs_write_def Let_def n2_def n3_def)
  have sz: "unat (n_size n3) = max (unat (n_size n)) (unat off + ?len)"
    using e1 n1(2) by (auto simp: n3_def n2_def word_less_nat_alt max_def)
  have d3: "n_data n3 = Some (splice (unat off) buf dt)" "\<not> n_disk_backed n3"
    using n1(3) by (auto simp: n3_def n2_def)
  have "\<not> n_size n3 \<le> off" using sz assms(7) by (simp add: word_le_nat_alt)
  moreover then have "unat (n_size n3 - off) = unat (n_size n3) - unat off" by (intro unat_minus_u32) simp
  then have "\<not> of_nat ?len > n_size n3 - off" using sz l by (simp add: word_less_nat_alt)
  ultimately have "ramfs_read n3 off (of_nat ?len) (put_node i n3 s1) = (of_nat ?len, buf)"
    using d3 l slice_splice_same [OF n1(4)] by (simp add: ramfs_read_def Let_def)
  moreover have "the (n_data n3) ! x = the (n_data n) ! x"
    if "x < unat (n_size n)" "x < unat off \<or> unat off + ?len \<le> x" for x
  proof -
    have "x < unat (n_capacity n)" using that(1) assms(4) by (simp add: word_le_nat_alt)
    then have "dt ! x = the (n_data n) ! x" using n1(6) assms(3) by (cases "n_data n") (auto simp: data_bytes_def)
    moreover have "x < length dt" using that(1) n1(5) by simp
    ultimately show ?thesis using d3(1) nth_splice [OF n1(4)] that(2) by auto
  qed
  moreover obtain c where c: "n1 = n\<lparr>n_data := Some dt, n_capacity := c\<rparr>" "length dt = unat c" using n1(7) by blast
  have len: "length (splice (unat off) buf dt) = length dt" using n1(4) by (simp add: splice_def)
  have "file_buffer_ok n3"
    using sz n1(4,5) d3(1) c len by (auto simp: file_buffer_ok_def n3_def n2_def data_bytes_def word_le_nat_alt)
  moreover have "same_attrs n n3" "n_disk_backed n3 = n_disk_backed n" by (simp_all add: n3_def n2_def c(1) same_attrs_def)
  ultimately show ?thesis using w sz n1(8-)
    by (intro exI [of _ "put_node i n3 s1"] exI [of _ n3]) (auto simp: put_node_def fs_frame_def)
qed

text \<open>
  Writing to a file kept in a heap buffer: when the heap grants the buffer, everything is
  written, the size becomes the larger of the old one and the end of the write, reading the range
  back gives the bytes written, and every byte of the old contents outside the range is kept.
\<close>

theorem ramfs_write_read_ram:
  assumes "\<not> n_disk_backed n" "n_capacity n \<noteq> 0 \<or> \<not> bf_available (fs_blockfs s)"
    and "length (data_bytes n) = unat (n_capacity n)" "n_size n \<le> n_capacity n"
    and "fs_grants s (fs_allocs s)" "unat off + length buf < 4294967232" "buf \<noteq> []"
  shows "\<exists>s' n'. ramfs_write i n off buf s = Some (of_nat (length buf), s') \<and> fs_nodes s' i = Some n'
     \<and> unat (n_size n') = max (unat (n_size n)) (unat off + length buf)
     \<and> ramfs_read n' off (of_nat (length buf)) s' = (of_nat (length buf), buf)
     \<and> (\<forall>x < unat (n_size n). x < unat off \<or> unat off + length buf \<le> x \<longrightarrow>
          the (n_data n') ! x = the (n_data n) ! x)"
  using ramfs_write_ram [OF assms] by blast

section \<open>Files of either kind\<close>

text \<open>
  A write puts a file on the disk when it is there already, or has no buffer yet while block storage
  is available. For both kinds: when the file is in order and when a write of \<open>len\<close> bytes at
  \<open>off\<close> finds room.
\<close>

definition lies_on_disk :: "vnode \<Rightarrow> fs \<Rightarrow> bool" where
  "lies_on_disk n s \<longleftrightarrow> n_disk_backed n \<or> n_capacity n = 0 \<and> bf_available (fs_blockfs s)"

definition file_ok :: "vnode \<Rightarrow> fs \<Rightarrow> bool" where
  "file_ok n s \<longleftrightarrow> (if lies_on_disk n s then file_blocks_ok n s else file_buffer_ok n)"

definition new_blocks :: "vnode \<Rightarrow> nat \<Rightarrow> fs \<Rightarrow> nat" where
  "new_blocks n fin s = (if lies_on_disk n s then (fin + 4095) div 4096 - length (block_list n) else 0)"

definition write_fits :: "vnode \<Rightarrow> nat \<Rightarrow> nat \<Rightarrow> fs \<Rightarrow> bool" where
  "write_fits n off len s \<longleftrightarrow> off + len < (if lies_on_disk n s then 4294963200 else 4294967232)
     \<and> new_blocks n (off + len) s \<le> free_blocks s"

definition apart :: "vnode \<Rightarrow> vnode \<Rightarrow> fs \<Rightarrow> bool" where
  "apart n m s \<longleftrightarrow> (lies_on_disk n s \<and> lies_on_disk m s \<longrightarrow> set (block_list n) \<inter> set (block_list m) = {})"

text \<open>What happens to another file: it stays in order, apart, and reads as before.\<close>

definition spared :: "vnode \<Rightarrow> vnode \<Rightarrow> fs \<Rightarrow> fs \<Rightarrow> vnode \<Rightarrow> bool" where
  "spared n n' s s' m \<longleftrightarrow> (file_ok m s \<and> apart n m s \<longrightarrow> lies_on_disk m s' = lies_on_disk m s \<and> file_ok m s' \<and> apart n' m s'
     \<and> (\<forall>off sz. ramfs_read m off sz s' = ramfs_read m off sz s))"

lemma file_blocks_available: "file_blocks_ok n s \<Longrightarrow> bf_available (fs_blockfs s)"
  by (simp add: file_blocks_ok_def disk_ready_def mounted_on_def blockfs_inv_def)

lemma spared_disk:
  assumes "file_blocks_ok n s" "file_blocks_ok n' s'" "takes_blocks k s s'" "set (block_list n') \<inter> used_blocks s = set (block_list n)"
    and "\<forall>j \<in> used_blocks s - set (block_list n). block_bytes (fs_disk s') j = block_bytes (fs_disk s) j" "lies_on_disk n s"
  shows "spared n n' s s' m"
  unfolding spared_def
proof (intro impI, elim conjE)
  assume m: "file_ok m s" "apart n m s"
  have od: "lies_on_disk m s' = lies_on_disk m s"
    using file_blocks_available [OF assms(1)] file_blocks_available [OF assms(2)] by (simp add: lies_on_disk_def)
  show "lies_on_disk m s' = lies_on_disk m s \<and> file_ok m s' \<and> apart n' m s' \<and> (\<forall>off sz. ramfs_read m off sz s' = ramfs_read m off sz s)"
  proof (cases "lies_on_disk m s")
    case False
    then show ?thesis using m(1) od by (auto simp: file_ok_def apart_def ramfs_read_def lies_on_disk_def)
  next
    case True
    then have mb: "file_blocks_ok m s" using m(1) by (simp add: file_ok_def)
    then have used: "set (block_list m) \<subseteq> used_blocks s" by (simp add: file_blocks_ok_def used_blocks_def)
    have dj: "set (block_list m) \<inter> set (block_list n) = {}" using m(2) True assms(6) by (auto simp: apart_def)
    have ok: "file_blocks_ok m s'"
      using mb assms(2,3) used by (auto simp: file_blocks_ok_def takes_blocks_def used_blocks_def)
    have "raw_bytes (fs_disk s') (block_list m) = raw_bytes (fs_disk s) (block_list m)"
      by (rule raw_bytes_cong) (use assms(5) used dj in blast)
    then have "diskfile_read m off sz s' = diskfile_read m off sz s" for off sz
      unfolding diskfile_read_correct [OF mb] diskfile_read_correct [OF ok] disk_content_def by simp
    then have "\<forall>off sz. ramfs_read m off sz s' = ramfs_read m off sz s" by (simp add: ramfs_read_def)
    moreover have "apart n' m s'" using assms(4) used dj by (auto simp: apart_def)
    ultimately show ?thesis using od ok True by (simp add: file_ok_def)
  qed
qed

lemma spared_buffer:
  assumes "fs_blockfs s' = fs_blockfs s" "fs_disk s' = fs_disk s" "\<not> lies_on_disk n s" "lies_on_disk n' s' = lies_on_disk n s"
  shows "spared n n' s s' m"
proof -
  have "diskfile_read m off sz s' = diskfile_read m off sz s" for off sz using assms(1,2) by (simp add: diskfile_read_def)
  then have "ramfs_read m off sz s' = ramfs_read m off sz s" for off sz by (simp add: ramfs_read_def)
  moreover have "lies_on_disk m s' = lies_on_disk m s" using assms(1) by (simp add: lies_on_disk_def)
  moreover from this have "file_ok m s' = file_ok m s" using assms(1,2) by (simp add: file_ok_def file_blocks_ok_def)
  moreover have "apart n' m s'" using assms(3,4) by (simp add: apart_def)
  ultimately show ?thesis by (simp add: spared_def)
qed

text \<open>
  One contract for both kinds: a write that finds room is complete, reads back, leaves the file in
  order and spares every other file.
\<close>

lemma ramfs_write_file:
  assumes "file_ok n s" "write_fits n (unat off) (length buf) s" "fs_grants s (fs_allocs s)" "buf \<noteq> []"
  obtains s' n' where "ramfs_write i n off buf s = Some (of_nat (length buf), s')" "fs_nodes s' = (fs_nodes s)(i \<mapsto> n')"
    "unat (n_size n') = max (unat (n_size n)) (unat off + length buf)"
    "ramfs_read n' off (of_nat (length buf)) s' = (of_nat (length buf), buf)"
    "file_ok n' s'" "same_attrs n n'" "fs_frame s s'" "\<forall>m. spared n n' s s' m"
    "free_blocks s' = free_blocks s - new_blocks n (unat off + length buf) s"
proof (cases "lies_on_disk n s")
  case True
  let ?n = "n\<lparr>n_disk_backed := True\<rparr>" and ?nb = "(unat off + length buf + 4095) div 4096"
  have ok: "file_blocks_ok n s" using assms(1) True by (simp add: file_ok_def)
  have bl: "block_list ?n = block_list n" by (simp add: block_list_def)
  have ok': "file_blocks_ok ?n (put_node i ?n s)" using ok bl by (simp add: file_blocks_ok_def put_node_def)
  have g: "fs_grants (put_node i ?n s) (fs_allocs (put_node i ?n s))" using assms(3) by (simp add: put_node_def)
  have b: "unat off + length buf < 4294963200" and r: "?nb - length (block_list ?n)
      \<le> unat (bf_total_blocks (fs_blockfs (put_node i ?n s))) - card (bf_used (fs_blockfs (put_node i ?n s)))"
    using assms(2) True bl by (simp_all add: write_fits_def new_blocks_def free_blocks_def put_node_def)
  obtain s' n' where w: "diskfile_write i ?n off buf (put_node i ?n s) = Some (of_nat (length buf), s')"
    "fs_nodes s' = (fs_nodes (put_node i ?n s))(i \<mapsto> n')" "file_blocks_ok n' s'"
    "unat (n_size n') = max (unat (n_size ?n)) (unat off + length buf)"
    "diskfile_read n' off (of_nat (length buf)) s' = (of_nat (length buf), buf)"
    "\<forall>k \<in> used_blocks (put_node i ?n s) - set (block_list ?n). block_bytes (fs_disk s') k = block_bytes (fs_disk (put_node i ?n s)) k"
    "same_attrs ?n n'" "n_disk_backed n' = n_disk_backed ?n" "fs_frame (put_node i ?n s) s'"
    "takes_blocks (?nb - length (block_list ?n)) (put_node i ?n s) s'" "set (block_list n') \<inter> used_blocks (put_node i ?n s) = set (block_list ?n)"
    using diskfile_write_ok [OF ok' g b refl r, of i] by (elim exE conjE) (rule that; assumption)
  have n': "n_disk_backed n'" "same_attrs n n'" using w(7,8) by (simp_all add: same_attrs_def)
  have eq: "fs_nodes (put_node i ?n s) = (fs_nodes s)(i \<mapsto> ?n)" "fs_disk (put_node i ?n s) = fs_disk s"
    "used_blocks (put_node i ?n s) = used_blocks s" "fs_frame (put_node i ?n s) s' = fs_frame s s'"
    "takes_blocks k (put_node i ?n s) s' = takes_blocks k s s'" for k
    by (simp_all add: put_node_def used_blocks_def free_blocks_def takes_blocks_def fs_frame_def)
  note w = w [unfolded eq bl]
  have od: "lies_on_disk n' s'" using n'(1) by (simp add: lies_on_disk_def)
  have "ramfs_write i n off buf s = diskfile_write i ?n off buf (put_node i ?n s)"
  proof (cases "n_disk_backed n")
    case True
    then have "?n = n" by simp
    then show ?thesis using True by (simp only: ramfs_write_def Let_def) simp
  next
    case False
    then show ?thesis using True by (simp add: ramfs_write_def lies_on_disk_def Let_def)
  qed
  moreover have "spared n n' s s' m" for m by (rule spared_disk [OF ok w(3,10,11,6) True])
  ultimately show thesis
    using w n' od True
    by (intro that [of s' n']) (simp_all add: file_ok_def ramfs_read_def new_blocks_def takes_blocks_def)
next
  case False
  have ram: "\<not> n_disk_backed n" "n_capacity n \<noteq> 0 \<or> \<not> bf_available (fs_blockfs s)"
    "length (data_bytes n) = unat (n_capacity n)" "n_size n \<le> n_capacity n" "unat off + length buf < 4294967232"
    using assms(1,2) False by (auto simp: lies_on_disk_def file_ok_def file_buffer_ok_def write_fits_def)
  obtain s' n' where w: "ramfs_write i n off buf s = Some (of_nat (length buf), s')"
    "unat (n_size n') = max (unat (n_size n)) (unat off + length buf)"
    "ramfs_read n' off (of_nat (length buf)) s' = (of_nat (length buf), buf)"
    "same_attrs n n'" "n_disk_backed n' = n_disk_backed n" "file_buffer_ok n'"
    "fs_nodes s' = (fs_nodes s)(i \<mapsto> n')" "fs_frame s s'" "fs_blockfs s' = fs_blockfs s" "fs_disk s' = fs_disk s"
    using ramfs_write_ram [OF ram(1-4) assms(3) ram(5) assms(4), of i] by blast
  have "0 < length buf" using assms(4) by simp
  then have "0 < n_size n'" using w(2) by (simp add: word_less_nat_alt max_def)
  then have "n_capacity n' \<noteq> 0" using w(6) by (auto simp: file_buffer_ok_def)
  then have od: "\<not> lies_on_disk n' s'" using w(5) False by (simp add: lies_on_disk_def)
  moreover have "spared n n' s s' m" for m by (rule spared_buffer) (use w(9,10) False od in simp_all)
  ultimately show thesis
    using w False by (intro that [of s' n']) (simp_all add: file_ok_def new_blocks_def free_blocks_def)
qed

section \<open>Witnesses\<close>

definition example_fs :: fs where
  "example_fs = \<lparr>fs_nodes = (\<lambda>_. None), fs_next = 1, fs_root = None, fs_vfs_root = None, fs_disk = example_disk,
     fs_blockfs = example_blockfs, fs_grants = (\<lambda>_. True), fs_allocs = 0, fs_junk = (\<lambda>_. 0xAA),
     fs_uptime = 7, fs_cred = None, fs_umask = 0x12\<rparr>"

definition example_file :: vnode where
  "example_file = (fresh_node None ''f'' VFS_FILE 0)\<lparr>n_disk_backed := True\<rparr>"

lemma example_blocks_free: "bf_used example_blockfs = {}"
proof -
  have "bf_bitmap example_blockfs = take (geo_bytes (unat (dk_total example_disk)))
       (read_run (dk_sector example_disk) 32768 (geo_sectors (unat (dk_total example_disk))))"
  proof (rule blockfs_init_mounted [OF example_disk, of blank_blockfs], goal_cases)
    case (1 b')
    show ?case unfolding example_blockfs_def 1(1) snd_conv by (rule 1(3))
  qed
  moreover have "set (read_run (dk_sector example_disk) a n) \<subseteq> {0}" for a n
    by (auto simp: read_run_def example_disk_def)
  ultimately have z: "set (bf_bitmap example_blockfs) \<subseteq> {0}" by (metis set_take_subset subset_trans)
  have "\<not> bit_test (of_nat i) (bf_bitmap example_blockfs)" if "i < unat (bf_total_blocks example_blockfs)" for i
  proof -
    have "blockfs_inv example_blockfs" using example_blockfs by (simp add: mounted_on_def)
    from nth_mem [OF blockfs_index(2) [OF this that]] z show ?thesis unfolding bit_test_bit by auto
  qed
  then show ?thesis by (auto simp: bf_used_def)
qed

lemma example_file_ok: "file_blocks_ok example_file example_fs"
  using example_blockfs example_disk
  by (simp add: file_blocks_ok_def example_file_def example_fs_def disk_ready_def block_list_def fresh_node_def)

theorem diskfile_write_read_witness:
  "\<exists>s' n'. diskfile_write 1 example_file 10 [1, 2, 3] example_fs = Some (3, s') \<and> fs_nodes s' 1 = Some n'
     \<and> diskfile_read n' 10 3 s' = (3, [1, 2, 3])"
proof -
  have room: "1 - length (block_list example_file) \<le> unat (bf_total_blocks (fs_blockfs example_fs)) - card (bf_used (fs_blockfs example_fs))"
    by (simp add: example_fs_def example_blocks example_blocks_free)
  have "fs_grants example_fs (fs_allocs example_fs)" by (simp add: example_fs_def)
  from diskfile_write_read [OF example_file_ok this, of 10 "[1, 2, 3]" 1 1] room show ?thesis by auto
qed

theorem diskfile_read_correct_witness: "diskfile_read example_file 0 8 example_fs = (0, [])"
  using diskfile_read_correct [OF example_file_ok, of 0 8]
  by (simp add: slice_def disk_content_def example_file_def fresh_node_def)

theorem ramfs_write_read_ram_witness:
  "\<exists>s' n'. ramfs_write 1 (fresh_node None ''f'' VFS_FILE 0) 2 [5, 6] (example_fs\<lparr>fs_blockfs := blank_blockfs\<rparr>) = Some (2, s')
     \<and> ramfs_read n' 2 2 s' = (2, [5, 6])"
  using ramfs_write_read_ram [of "fresh_node None ''f'' VFS_FILE 0" "example_fs\<lparr>fs_blockfs := blank_blockfs\<rparr>" 2 "[5, 6]" 1]
  by (auto simp: fresh_node_def example_fs_def blank_blockfs_def data_bytes_def)

end
