(* ===== verification/Vfs.thy ===== *)
theory Vfs
  imports Ramfs Path
begin

text \<open>
  The virtual file system, \<^verbatim>\<open>fs/vfs.c\<close>: path resolution over the node tree of \<open>Ramfs\<close>,
  creation and deletion, and the permission checks. The result \<open>None\<close> of an operation means that
  it overran one of its \<^verbatim>\<open>PATH_MAX\<close> buffers, followed a dangling node pointer, or never returned;
  a null node pointer is \<open>None\<close> inside the result.
\<close>

abbreviation ACC_READ :: u32 where "ACC_READ \<equiv> 4"
abbreviation ACC_WRITE :: u32 where "ACC_WRITE \<equiv> 2"
abbreviation ACC_EXEC :: u32 where "ACC_EXEC \<equiv> 1"
abbreviation VFS_STICKY :: u32 where "VFS_STICKY \<equiv> 0x200"

section \<open>Credentials and permissions\<close>

definition vfs_init :: "fs \<Rightarrow> fs" where
  "vfs_init s = s\<lparr>fs_vfs_root := None\<rparr>"

definition vfs_get_root :: "fs \<Rightarrow> nat option \<times> fs" where
  "vfs_get_root s =
     (let s = (if fs_vfs_root s = None then s\<lparr>fs_vfs_root := fs_root s\<rparr> else s) in (fs_vfs_root s, s))"

definition vfs_set_cred_provider :: "(u32 \<times> u32) option \<Rightarrow> fs \<Rightarrow> fs" where
  "vfs_set_cred_provider c s = s\<lparr>fs_cred := c\<rparr>"

definition vfs_set_umask :: "u32 \<Rightarrow> fs \<Rightarrow> fs" where
  "vfs_set_umask m s = s\<lparr>fs_umask := m AND 0x1FF\<rparr>"

definition current_cred :: "fs \<Rightarrow> u32 \<times> u32" where
  "current_cred s = (case fs_cred s of Some c \<Rightarrow> c | None \<Rightarrow> (0, 0))"

definition vfs_check_access :: "vnode \<Rightarrow> u32 \<Rightarrow> fs \<Rightarrow> bool" where
  "vfs_check_access n mode s =
     (case current_cred s of (uid, gid) \<Rightarrow>
        if uid = 0 then True
        else let perms = n_permissions n;
                 bits = (if uid = n_owner_uid n then drop_bit 6 perms AND 7
                         else if gid = n_owner_gid n then drop_bit 3 perms AND 7
                         else perms AND 7)
             in bits AND mode = mode)"

section \<open>Node operations\<close>

definition vfs_finddir :: "nat \<Rightarrow> string \<Rightarrow> fs \<Rightarrow> nat option" where
  "vfs_finddir i name s = (case fs_nodes s i of None \<Rightarrow> None | Some n \<Rightarrow> ramfs_finddir n name s)"

definition vfs_readdir :: "nat \<Rightarrow> nat \<Rightarrow> fs \<Rightarrow> nat option" where
  "vfs_readdir i index s = (case fs_nodes s i of None \<Rightarrow> None | Some n \<Rightarrow> ramfs_readdir n index)"

text \<open>A device node answers through its driver, which is an argument.\<close>

definition vfs_read :: "(nat \<Rightarrow> u32 \<Rightarrow> u32 \<Rightarrow> u32 \<times> u8 list) \<Rightarrow> nat \<Rightarrow> u32 \<Rightarrow> u32 \<Rightarrow> fs \<Rightarrow> u32 \<times> u8 list" where
  "vfs_read dev i off sz s =
     (case fs_nodes s i of
        None \<Rightarrow> (0, [])
      | Some n \<Rightarrow> (case n_ops n of Ramfs_ops \<Rightarrow> ramfs_read n off sz s | Device_ops \<Rightarrow> dev i off sz))"

definition vfs_write :: "(nat \<Rightarrow> u32 \<Rightarrow> u8 list \<Rightarrow> u32) \<Rightarrow> nat \<Rightarrow> u32 \<Rightarrow> u8 list \<Rightarrow> fs \<Rightarrow> (u32 \<times> fs) option" where
  "vfs_write dev i off buf s =
     (case fs_nodes s i of
        None \<Rightarrow> Some (0, s)
      | Some n \<Rightarrow> (case n_ops n of Ramfs_ops \<Rightarrow> ramfs_write i n off buf s | Device_ops \<Rightarrow> Some (dev i off buf, s)))"

section \<open>Paths of nodes\<close>

partial_function (option) get_path_walk :: "nat \<Rightarrow> string \<Rightarrow> fs \<Rightarrow> string option" where
  "get_path_walk i acc s =
     (case fs_nodes s i of
        None \<Rightarrow> None
      | Some n \<Rightarrow>
          (case n_parent n of
             None \<Rightarrow> Some acc
           | Some p \<Rightarrow> (let tmp = SLASH # n_name n @ acc
                      in if length tmp \<ge> PATH_MAX then None else get_path_walk p tmp s)))"

definition vfs_get_path :: "nat option \<Rightarrow> fs \<Rightarrow> string option" where
  "vfs_get_path node s =
     (case node of
        None \<Rightarrow> Some ''/''
      | Some i \<Rightarrow> map_option (\<lambda>acc. if acc \<noteq> [] then acc else ''/'') (get_path_walk i [] s))"

section \<open>Resolution\<close>

definition abs_normalize :: "string \<Rightarrow> nat option \<Rightarrow> fs \<Rightarrow> (string \<times> fs) option" where
  "abs_normalize path cwd s =
     (if path_is_absolute path
      then let out = path_normalize (Some ''/'') path
           in if length out < PATH_MAX then Some (out, s) else None
      else let (c, s) = (case cwd of Some c \<Rightarrow> (Some c, s) | None \<Rightarrow> vfs_get_root s)
           in Option.bind (vfs_get_path c s) (\<lambda>cwdpath.
                let out = path_normalize (Some cwdpath) path
                in if length out < PATH_MAX then Some (out, s) else None))"

text \<open>The \<^verbatim>\<open>strtok\<close> loop: its tokens are the non-empty runs between slashes.\<close>

fun resolve_walk :: "nat option \<Rightarrow> string list \<Rightarrow> fs \<Rightarrow> nat option" where
  "resolve_walk None toks s = None"
| "resolve_walk (Some i) [] s = Some i"
| "resolve_walk (Some i) (t # ts) s = resolve_walk (vfs_finddir i t s) ts s"

definition vfs_resolve :: "string \<Rightarrow> nat option \<Rightarrow> fs \<Rightarrow> (nat option \<times> fs) option" where
  "vfs_resolve path cwd s =
     Option.bind (abs_normalize path cwd s) (\<lambda>(norm, s).
       let (cur, s) = vfs_get_root s
       in if norm = ''/'' then Some (cur, s)
          else Some (resolve_walk cur (path_names (tl norm)) s, s))"

section \<open>Creation and deletion\<close>

definition set_owner :: "nat \<Rightarrow> u32 \<Rightarrow> fs \<Rightarrow> fs" where
  "set_owner i perms s =
     (case current_cred s of (uid, gid) \<Rightarrow>
        upd_node (Some i) (\<lambda>n. n\<lparr>n_owner_uid := uid, n_owner_gid := gid, n_permissions := perms\<rparr>) s)"

definition vfs_mkdir :: "string \<Rightarrow> nat option \<Rightarrow> fs \<Rightarrow> (nat option \<times> fs) option" where
  "vfs_mkdir path cwd s =
     Option.bind (abs_normalize path cwd s) (\<lambda>(norm, s).
     Option.bind (vfs_resolve (path_dirname norm) None s) (\<lambda>(parent, s).
       let name = path_basename norm
       in case Option.bind parent (\<lambda>p. map_option (Pair p) (fs_nodes s p)) of
            None \<Rightarrow> Some (None, s)
          | Some (p, v) \<Rightarrow>
              if n_type v \<noteq> VFS_DIRECTORY then Some (None, s)
              else if \<not> vfs_check_access v ACC_WRITE s then Some (None, s)
              else if vfs_finddir p name s \<noteq> None then Some (None, s)
              else case ramfs_create_node (Some p) name VFS_DIRECTORY s of
                     (None, s) \<Rightarrow> Some (None, s)
                   | (Some i, s) \<Rightarrow> Some (Some i, set_owner i (0x1FF AND NOT (fs_umask s)) s)))"

definition vfs_create :: "string \<Rightarrow> nat option \<Rightarrow> fs \<Rightarrow> (nat option \<times> fs) option" where
  "vfs_create path cwd s =
     Option.bind (abs_normalize path cwd s) (\<lambda>(norm, s).
     Option.bind (vfs_resolve (path_dirname norm) None s) (\<lambda>(parent, s).
       let name = path_basename norm
       in case Option.bind parent (\<lambda>p. map_option (Pair p) (fs_nodes s p)) of
            None \<Rightarrow> Some (None, s)
          | Some (p, v) \<Rightarrow>
              if n_type v \<noteq> VFS_DIRECTORY then Some (None, s)
              else case vfs_finddir p name s of
                     Some e \<Rightarrow>
                       (case fs_nodes s e of
                          None \<Rightarrow> None
                        | Some ev \<Rightarrow> if \<not> vfs_check_access ev ACC_WRITE s then Some (None, s) else Some (Some e, s))
                   | None \<Rightarrow>
                       if \<not> vfs_check_access v ACC_WRITE s then Some (None, s)
                       else case ramfs_create_node (Some p) name VFS_FILE s of
                              (None, s) \<Rightarrow> Some (None, s)
                            | (Some i, s) \<Rightarrow> Some (Some i, set_owner i (0x1B6 AND NOT (fs_umask s)) s)))"

definition vfs_delete :: "string \<Rightarrow> nat option \<Rightarrow> fs \<Rightarrow> (int \<times> fs) option" where
  "vfs_delete path cwd s =
     Option.bind (vfs_resolve path cwd s) (\<lambda>(node, s).
       case node of
         None \<Rightarrow> Some (-1, s)
       | Some i \<Rightarrow>
           (case fs_nodes s i of
              None \<Rightarrow> None
            | Some n \<Rightarrow>
                (case n_parent n of
                   None \<Rightarrow> Some (ramfs_remove_node i s)
                 | Some p \<Rightarrow>
                     (case fs_nodes s p of
                        None \<Rightarrow> None
                      | Some v \<Rightarrow>
                          if \<not> vfs_check_access v ACC_WRITE s then Some (-3, s)
                          else if n_permissions v AND VFS_STICKY \<noteq> 0
                               \<and> (let uid = fst (current_cred s)
                                  in uid \<noteq> 0 \<and> uid \<noteq> n_owner_uid n \<and> uid \<noteq> n_owner_uid v)
                          then Some (-4, s)
                          else Some (ramfs_remove_node i s)))))"

record stat_t =
  st_type :: u32
  st_size :: u32
  st_permissions :: u32
  st_owner_uid :: u32
  st_owner_gid :: u32
  st_created :: u32
  st_modified :: u32

definition vfs_stat :: "string \<Rightarrow> nat option \<Rightarrow> fs \<Rightarrow> (int \<times> stat_t option \<times> fs) option" where
  "vfs_stat path cwd s =
     Option.bind (vfs_resolve path cwd s) (\<lambda>(node, s).
       case node of
         None \<Rightarrow> Some (-1, None, s)
       | Some i \<Rightarrow>
           map_option (\<lambda>n. (0, Some \<lparr>st_type = n_type n, st_size = n_size n, st_permissions = n_permissions n,
              st_owner_uid = n_owner_uid n, st_owner_gid = n_owner_gid n, st_created = n_created n,
              st_modified = n_modified n\<rparr>, s)) (fs_nodes s i))"

definition vfs_chmod :: "string \<Rightarrow> nat option \<Rightarrow> u32 \<Rightarrow> fs \<Rightarrow> (int \<times> fs) option" where
  "vfs_chmod path cwd perms s =
     Option.bind (vfs_resolve path cwd s) (\<lambda>(node, s).
       case node of
         None \<Rightarrow> Some (-1, s)
       | Some i \<Rightarrow>
           (case fs_nodes s i of
              None \<Rightarrow> None
            | Some n \<Rightarrow>
                if fst (current_cred s) \<noteq> 0 \<and> fst (current_cred s) \<noteq> n_owner_uid n then Some (-2, s)
                else Some (0, put_node i (n\<lparr>n_permissions := perms AND 0x3FF\<rparr>) s)))"

definition vfs_chown :: "string \<Rightarrow> nat option \<Rightarrow> u32 \<Rightarrow> u32 \<Rightarrow> fs \<Rightarrow> (int \<times> fs) option" where
  "vfs_chown path cwd uid gid s =
     Option.bind (vfs_resolve path cwd s) (\<lambda>(node, s).
       case node of
         None \<Rightarrow> Some (-1, s)
       | Some i \<Rightarrow>
           (case fs_nodes s i of
              None \<Rightarrow> None
            | Some n \<Rightarrow>
                if fst (current_cred s) \<noteq> 0 then Some (-2, s)
                else Some (0, put_node i (n\<lparr>n_owner_uid := uid, n_owner_gid := gid\<rparr>) s)))"

end
