(* ===== verification/Vfs_Tree.thy ===== *)
theory Vfs_Tree
  imports Vfs
begin

text \<open>
  The node tree under the operations of \<^verbatim>\<open>fs/vfs.c\<close> and \<^verbatim>\<open>fs/ramfs.c\<close>: the well-formedness
  invariant, what path lookups see after a creation or a deletion, and who may do what.
\<close>

section \<open>The invariant\<close>

definition child_names :: "vnode \<Rightarrow> fs \<Rightarrow> string list" where
  "child_names v s = map (\<lambda>c. case fs_nodes s c of Some w \<Rightarrow> n_name w | None \<Rightarrow> []) (n_children v)"

text \<open>
  Node \<open>i\<close> with record \<open>v\<close> sits well in the store: it was handed out, its parent is an older node
  that lists it, its children list it as parent, and no two children share a name.
\<close>

definition node_ok :: "nat \<Rightarrow> vnode \<Rightarrow> fs \<Rightarrow> bool" where
  "node_ok i v s \<longleftrightarrow> i < fs_next s
     \<and> (case n_parent v of
          None \<Rightarrow> fs_root s = Some i
        | Some p \<Rightarrow> p < i \<and> name_ok (n_name v) \<and> (\<exists>w. fs_nodes s p = Some w \<and> i \<in> set (n_children w)))
     \<and> distinct (child_names v s) \<and> (n_children v \<noteq> [] \<longrightarrow> n_type v = VFS_DIRECTORY)
     \<and> length (n_children v) \<le> VFS_MAX_CHILDREN
     \<and> (\<forall>c \<in> set (n_children v). \<exists>w. fs_nodes s c = Some w \<and> n_parent w = Some i)"

definition tree_ok :: "fs \<Rightarrow> bool" where
  "tree_ok s \<longleftrightarrow> (\<exists>r v. fs_root s = Some r \<and> fs_nodes s r = Some v \<and> n_parent v = None \<and> n_type v = VFS_DIRECTORY)
     \<and> (fs_vfs_root s = None \<or> fs_vfs_root s = fs_root s)
     \<and> (\<forall>i v. fs_nodes s i = Some v \<longrightarrow> node_ok i v s)"

lemma tree_okD: "tree_ok s \<Longrightarrow> fs_nodes s i = Some v \<Longrightarrow> node_ok i v s"
  by (simp add: tree_ok_def)

lemma node_okD:
  assumes "node_ok i v s"
  shows "i < fs_next s" "n_parent v = None \<Longrightarrow> fs_root s = Some i" "distinct (child_names v s)"
    "length (n_children v) \<le> VFS_MAX_CHILDREN" "n_children v \<noteq> [] \<Longrightarrow> n_type v = VFS_DIRECTORY"
    "c \<in> set (n_children v) \<Longrightarrow> \<exists>w. fs_nodes s c = Some w \<and> n_parent w = Some i"
    "n_parent v = Some p \<Longrightarrow> p < i \<and> name_ok (n_name v) \<and> (\<exists>w. fs_nodes s p = Some w \<and> i \<in> set (n_children w))"
  using assms unfolding node_ok_def by (auto split: option.splits)

lemma children_distinct: "node_ok i v s \<Longrightarrow> distinct (n_children v)"
  using node_okD(3) [of i v s] unfolding child_names_def by (simp add: distinct_map)

lemma child_newer: "tree_ok s \<Longrightarrow> fs_nodes s i = Some v \<Longrightarrow> c \<in> set (n_children v) \<Longrightarrow> i < c"
  using node_okD(6) [OF tree_okD] node_okD(7) [OF tree_okD] by fastforce

lemma finddir_Some:
  assumes "tree_ok s" "fs_nodes s i = Some v" "vfs_finddir i nm s = Some c"
  obtains w where "n_type v = VFS_DIRECTORY" "c \<in> set (n_children v)" "fs_nodes s c = Some w" "n_name w = nm"
    "n_parent w = Some i"
proof -
  from assms(2,3) have t: "n_type v = VFS_DIRECTORY"
    and f: "find (\<lambda>c. case fs_nodes s c of Some v \<Rightarrow> n_name v = nm | None \<Rightarrow> False) (n_children v) = Some c"
    by (auto simp: vfs_finddir_def ramfs_finddir_def split: if_splits)
  from f have c: "c \<in> set (n_children v)" "case fs_nodes s c of Some v \<Rightarrow> n_name v = nm | None \<Rightarrow> False"
    unfolding find_Some_iff by (auto simp: nth_mem)
  obtain w where "fs_nodes s c = Some w" "n_parent w = Some i"
    using node_okD(6) [OF tree_okD [OF assms(1,2)] c(1)] by blast
  with c t that show ?thesis by simp
qed

lemma finddir_child:
  assumes "tree_ok s" "fs_nodes s i = Some v" "c \<in> set (n_children v)" "fs_nodes s c = Some w"
  shows "vfs_finddir i (n_name w) s = Some c"
proof -
  have ok: "node_ok i v s" by (rule tree_okD [OF assms(1,2)])
  have t: "n_type v = VFS_DIRECTORY" by (rule node_okD(5) [OF ok]) (use assms(3) in auto)
  let ?P = "\<lambda>c. case fs_nodes s c of Some v \<Rightarrow> n_name v = n_name w | None \<Rightarrow> False"
  have ex: "find ?P (n_children v) \<noteq> None" using assms(3,4) by (auto simp: find_None_iff)
  then obtain c' where c': "find ?P (n_children v) = Some c'" by blast
  then have m: "c' \<in> set (n_children v)" "?P c'" unfolding find_Some_iff by (auto simp: nth_mem)
  have inj: "inj_on (\<lambda>c. case fs_nodes s c of Some w \<Rightarrow> n_name w | None \<Rightarrow> []) (set (n_children v))"
    using node_okD(3) [OF ok] unfolding child_names_def distinct_map by simp
  have "c' = c" using m assms(3,4) by (intro inj_onD [OF inj]) (auto split: option.splits)
  with c' t assms(2) show ?thesis by (simp add: vfs_finddir_def ramfs_finddir_def)
qed

section \<open>Adding a node\<close>

lemma child_names_cong:
  "\<forall>c \<in> set (n_children v). map_option n_name (fs_nodes s c) = map_option n_name (fs_nodes s' c)
     \<Longrightarrow> child_names v s = child_names v s'"
  unfolding child_names_def by (intro map_cong refl) (auto split: option.splits)

text \<open>An update that keeps names, types, parents and children keeps the tree.\<close>

definition same_shape :: "vnode \<Rightarrow> vnode \<Rightarrow> bool" where
  "same_shape v w \<longleftrightarrow> n_name v = n_name w \<and> n_type v = n_type w \<and> n_parent v = n_parent w \<and> n_children v = n_children w"

lemma tree_ok_put_same:
  assumes "tree_ok s" "fs_nodes s i = Some v" "same_shape v w"
  shows "tree_ok (put_node i w s)"
proof -
  let ?s = "put_node i w s"
  have nodes: "fs_nodes ?s j = (if j = i then Some w else fs_nodes s j)" for j by (simp add: put_node_def)
  have names: "map_option n_name (fs_nodes ?s c) = map_option n_name (fs_nodes s c)" for c
    using assms(2,3) by (auto simp: nodes same_shape_def)
  have par: "(\<exists>x. fs_nodes ?s c = Some x \<and> n_parent x = q) \<longleftrightarrow> (\<exists>x. fs_nodes s c = Some x \<and> n_parent x = q)" for c q
    using assms(2,3) by (auto simp: nodes same_shape_def)
  have chl: "(\<exists>x. fs_nodes ?s p = Some x \<and> c \<in> set (n_children x)) \<longleftrightarrow> (\<exists>x. fs_nodes s p = Some x \<and> c \<in> set (n_children x))" for p c
    using assms(2,3) by (auto simp: nodes same_shape_def)
  have cn: "child_names x ?s = child_names x s" for x
    by (rule child_names_cong) (simp add: names)
  have fr: "fs_next ?s = fs_next s" "fs_root ?s = fs_root s" "fs_vfs_root ?s = fs_vfs_root s" by (simp_all add: put_node_def)
  have same: "node_ok j x ?s = node_ok j x s" for j x
    unfolding node_ok_def par chl cn fr ..
  have shape: "node_ok j w s = node_ok j v s" for j
    using assms(3) by (simp add: node_ok_def same_shape_def child_names_def split: option.split)
  have "node_ok j x ?s" if "fs_nodes ?s j = Some x" for j x
    using that assms(1,2) same shape tree_okD [OF assms(1)] by (auto simp: nodes split: if_splits)
  moreover have "\<exists>r v. fs_root ?s = Some r \<and> fs_nodes ?s r = Some v \<and> n_parent v = None \<and> n_type v = VFS_DIRECTORY"
    using assms by (auto simp: tree_ok_def fr nodes same_shape_def)
  moreover have "fs_vfs_root ?s = None \<or> fs_vfs_root ?s = fs_root ?s" using assms(1) by (simp add: tree_ok_def fr)
  ultimately show ?thesis by (simp add: tree_ok_def)
qed

lemma tree_ok_upd_same:
  "tree_ok s \<Longrightarrow> (\<And>v. same_shape v (f v)) \<Longrightarrow> tree_ok (upd_node i f s)"
  by (auto simp: upd_node_def tree_ok_put_same split: option.splits)

lemma tree_ok_frame:
  assumes "tree_ok s" "fs_nodes s' = fs_nodes s" "fs_next s' = fs_next s" "fs_root s' = fs_root s"
    "fs_vfs_root s' = None \<or> fs_vfs_root s' = fs_root s"
  shows "tree_ok s'"
proof -
  have "node_ok i v s' = node_ok i v s" for i v
    unfolding node_ok_def child_names_def assms(2-4) ..
  then show ?thesis using assms unfolding tree_ok_def by simp
qed

lemma create_node_cases:
  assumes "fs_nodes s p = Some v" "ramfs_create_node (Some p) nm ty s = (r, s')"
  obtains (none) "r = None" "s' = s \<or> s' = s\<lparr>fs_allocs := fs_allocs s + 1\<rparr>"
  | (some) "r = Some (fs_next s)" "length (n_children v) < VFS_MAX_CHILDREN"
      "s' = put_node p (v\<lparr>n_children := n_children v @ [fs_next s]\<rparr>)
              (put_node (fs_next s) (fresh_node (Some p) nm ty (fs_uptime s))
                 (s\<lparr>fs_allocs := fs_allocs s + 1, fs_next := fs_next s + 1\<rparr>))"
  using assms unfolding ramfs_create_node_def
  by (auto simp: Let_def kalloc_def split: if_splits)

lemma create_node_nodes:
  assumes "fs_nodes s p = Some v" "p < fs_next s"
  and s': "s' = put_node p (v\<lparr>n_children := n_children v @ [fs_next s]\<rparr>)
              (put_node (fs_next s) (fresh_node (Some p) nm ty (fs_uptime s))
                 (s\<lparr>fs_allocs := fs_allocs s + 1, fs_next := fs_next s + 1\<rparr>))"
  shows "fs_nodes s' j = (if j = p then Some (v\<lparr>n_children := n_children v @ [fs_next s]\<rparr>)
           else if j = fs_next s then Some (fresh_node (Some p) nm ty (fs_uptime s)) else fs_nodes s j)"
    and "fs_next s' = Suc (fs_next s)" "fs_root s' = fs_root s" "fs_vfs_root s' = fs_vfs_root s"
    "fs_cred s' = fs_cred s" "fs_umask s' = fs_umask s"
  using assms(2) unfolding s' by (auto simp: put_node_def)

lemma tree_ok_create_node:
  assumes ok: "tree_ok s" and p: "fs_nodes s p = Some v" "n_type v = VFS_DIRECTORY"
    and nm: "name_ok nm" "length nm \<le> 63" "vfs_finddir p nm s = None"
    and c: "ramfs_create_node (Some p) nm ty s = (r, s')"
  shows "tree_ok s'"
  using p(1) c
proof (cases rule: create_node_cases)
  case none
  then show ?thesis using ok tree_ok_frame [OF ok, of s'] by (auto simp: tree_ok_def)
next
  case some
  let ?n = "fs_next s" and ?f = "fresh_node (Some p) nm ty (fs_uptime s)"
  let ?v = "v\<lparr>n_children := n_children v @ [fs_next s]\<rparr>"
  have pn: "p < ?n" using node_okD(1) [OF tree_okD [OF ok p(1)]] .
  note nodes = create_node_nodes [OF p(1) pn some(3)]
  have fresh: "fs_nodes s ?n = None"
    using node_okD(1) [OF tree_okD [OF ok]] by (cases "fs_nodes s ?n") auto
  have names: "map_option n_name (fs_nodes s' c) = map_option n_name (fs_nodes s c)" if "c \<noteq> ?n" for c
    using that p(1) by (simp add: nodes(1))
  have old: "node_ok j x s'" if "fs_nodes s j = Some x" "j \<noteq> p" for j x
  proof -
    have jx: "node_ok j x s" by (rule tree_okD [OF ok that(1)])
    have nin: "?n \<notin> set (n_children x)" using node_okD(6) [OF jx] fresh by force
    have "child_names x s' = child_names x s"
      by (rule child_names_cong) (metis names nin)
    moreover have "(\<exists>w. fs_nodes s' c = Some w \<and> n_parent w = Some j)" if "c \<in> set (n_children x)" for c
      using node_okD(6) [OF jx that] nin p(1) that by (auto simp: nodes(1))
    moreover have "\<exists>w. fs_nodes s' q = Some w \<and> j \<in> set (n_children w)"
      if "\<exists>w. fs_nodes s q = Some w \<and> j \<in> set (n_children w)" for q
      using that p(1) fresh by (auto simp: nodes(1))
    ultimately show ?thesis using jx by (auto simp: node_ok_def nodes(2,3) split: option.splits)
  qed
  have new: "node_ok ?n ?f s'"
    using pn nm(1,2) by (auto simp: node_ok_def nodes fresh_node_def child_names_def)
  have "node_ok p ?v s'"
  proof -
    have pv: "node_ok p v s" by (rule tree_okD [OF ok p(1)])
    have nin: "?n \<notin> set (n_children v)" using node_okD(6) [OF pv] fresh by force
    have "child_names v s' = child_names v s" by (rule child_names_cong) (metis names nin)
    then have cn: "child_names ?v s' = child_names v s @ [nm]"
      using pn nm(2) by (simp add: child_names_def nodes(1) fresh_node_def)
    have "nm \<notin> set (child_names v s)"
    proof
      assume "nm \<in> set (child_names v s)"
      then obtain c where c: "c \<in> set (n_children v)" "nm = (case fs_nodes s c of Some w \<Rightarrow> n_name w | None \<Rightarrow> [])"
        by (auto simp: child_names_def)
      then obtain w where "fs_nodes s c = Some w" using node_okD(6) [OF pv] by blast
      with c finddir_child [OF ok p(1) c(1)] nm(3) show False by simp
    qed
    moreover have "\<exists>w. fs_nodes s' c = Some w \<and> n_parent w = Some p" if "c \<in> set (n_children ?v)" for c
    proof (cases "c = ?n")
      case True
      then show ?thesis using pn by (simp add: nodes(1) fresh_node_def)
    next
      case False
      then have "c \<in> set (n_children v)" using that by simp
      from node_okD(6) [OF pv this] obtain w where "fs_nodes s c = Some w" "n_parent w = Some p" by blast
      then show ?thesis using False p(1) by (auto simp: nodes(1))
    qed
    moreover have "\<exists>w. fs_nodes s' q = Some w \<and> p \<in> set (n_children w)"
      if "q < p" "\<exists>w. fs_nodes s q = Some w \<and> p \<in> set (n_children w)" for q
      using that pn fresh by (auto simp: nodes(1))
    ultimately show ?thesis using pv some(2) cn p(2)
      by (auto simp: node_ok_def nodes(2,3) split: option.splits)
  qed
  then have "node_ok j x s'" if "fs_nodes s' j = Some x" for j x
    using that old new pn by (auto simp: nodes(1) split: if_splits)
  moreover have "\<exists>r v. fs_root s' = Some r \<and> fs_nodes s' r = Some v \<and> n_parent v = None \<and> n_type v = VFS_DIRECTORY"
  proof -
    obtain r x where r: "fs_root s = Some r" "fs_nodes s r = Some x" "n_parent x = None" "n_type x = VFS_DIRECTORY"
      using ok by (auto simp: tree_ok_def)
    have "r \<noteq> ?n" using r(2) fresh by auto
    then show ?thesis using r p by (auto simp: nodes)
  qed
  ultimately show ?thesis using ok by (auto simp: tree_ok_def nodes(3,4))
qed


section \<open>Removing a node\<close>

lemma remove_node_cases:
  assumes ok: "tree_ok s" and n: "fs_nodes s i = Some n"
  obtains (root) "n_parent n = None" "ramfs_remove_node i s = (-1, s)"
  | (busy) p v where "n_parent n = Some p" "fs_nodes s p = Some v" "n_type n = VFS_DIRECTORY" "n_children n \<noteq> []"
      "ramfs_remove_node i s = (-2, s)"
  | (gone) p v s' where "n_parent n = Some p" "fs_nodes s p = Some v" "n_children n = []"
      "ramfs_remove_node i s = (0, s')" "fs_next s' = fs_next s" "fs_root s' = fs_root s" "fs_vfs_root s' = fs_vfs_root s"
      "\<And>j. fs_nodes s' j = (if j = i then None else if j = p then Some (v\<lparr>n_children := remove1 i (n_children v)\<rparr>)
             else fs_nodes s j)"
proof (cases "n_parent n")
  case None
  then show ?thesis using n by (intro root) (simp_all add: ramfs_remove_node_def)
next
  case (Some p)
  obtain v where v: "fs_nodes s p = Some v" "i \<in> set (n_children v)" "p < i"
    using node_okD(7) [OF tree_okD [OF ok n] Some] by blast
  show ?thesis
  proof (cases "n_children n = []")
    case True
    let ?s' = "snd (ramfs_remove_node i s)"
    show ?thesis
      by (rule gone [OF Some v(1) True, of ?s'])
        (use n Some v True in \<open>auto simp: ramfs_remove_node_def Let_def put_node_def\<close>)
  next
    case False
    have ty: "n_type n = VFS_DIRECTORY" by (rule node_okD(5) [OF tree_okD [OF ok n] False])
    show ?thesis
      by (rule busy [OF Some v(1) ty False]) (use n Some v False ty in \<open>simp add: ramfs_remove_node_def\<close>)
  qed
qed

lemma tree_ok_remove:
  assumes ok: "tree_ok s" and n: "fs_nodes s i = Some n" "n_parent n = Some p" "fs_nodes s p = Some v" "n_children n = []"
    and s': "fs_next s' = fs_next s" "fs_root s' = fs_root s" "fs_vfs_root s' = fs_vfs_root s"
      "\<And>j. fs_nodes s' j = (if j = i then None else if j = p then Some (v\<lparr>n_children := remove1 i (n_children v)\<rparr>)
             else fs_nodes s j)"
  shows "tree_ok s'"
proof -
  have pv: "node_ok p v s" by (rule tree_okD [OF ok n(3)])
  have ip: "p < i" using node_okD(7) [OF tree_okD [OF ok n(1)] n(2)] by blast
  have sub: "set (remove1 i (n_children v)) = set (n_children v) - {i}"
    by (rule set_remove1_eq [OF children_distinct [OF pv]])
  have keep: "node_ok j x s'" if jx: "fs_nodes s j = Some x" "j \<noteq> i" "j \<noteq> p" for j x
  proof -
    have o: "node_ok j x s" by (rule tree_okD [OF ok jx(1)])
    have nin: "i \<notin> set (n_children x)" using node_okD(6) [OF o, of i] n(1,2) jx(3) by force
    have "child_names x s' = child_names x s"
      by (rule child_names_cong) (use nin n(3) in \<open>auto simp: s'(4)\<close>)
    moreover have "\<exists>w. fs_nodes s' c = Some w \<and> n_parent w = Some j" if "c \<in> set (n_children x)" for c
      using node_okD(6) [OF o that] that nin n(3) by (auto simp: s'(4))
    moreover have "\<exists>w. fs_nodes s' q = Some w \<and> j \<in> set (n_children w)"
      if ex: "\<exists>w. fs_nodes s q = Some w \<and> j \<in> set (n_children w)" for q
    proof -
      obtain w where w: "fs_nodes s q = Some w" "j \<in> set (n_children w)" using ex by blast
      have "q \<noteq> i" using w n(1,4) by auto
      then show ?thesis using w n(3) jx(2) sub by (cases "q = p") (simp_all add: s'(4))
    qed
    ultimately show ?thesis using o by (auto simp: node_ok_def s'(1,2) split: option.splits)
  qed
  let ?v = "v\<lparr>n_children := remove1 i (n_children v)\<rparr>"
  have "node_ok p ?v s'"
  proof -
    have "child_names ?v s' = map (\<lambda>c. case fs_nodes s c of Some w \<Rightarrow> n_name w | None \<Rightarrow> []) (remove1 i (n_children v))"
      unfolding child_names_def using sub n(3) by (intro map_cong) (auto simp: s'(4))
    moreover have "distinct (map (\<lambda>c. case fs_nodes s c of Some w \<Rightarrow> n_name w | None \<Rightarrow> []) (remove1 i (n_children v)))"
    proof -
      have "distinct (n_children v)" "inj_on (\<lambda>c. case fs_nodes s c of Some w \<Rightarrow> n_name w | None \<Rightarrow> []) (set (n_children v))"
        using node_okD(3) [OF pv] unfolding child_names_def distinct_map by simp_all
      then show ?thesis unfolding distinct_map sub by (auto intro: inj_on_subset)
    qed
    ultimately have "distinct (child_names ?v s')" by simp
    moreover have "\<exists>w. fs_nodes s' c = Some w \<and> n_parent w = Some p" if "c \<in> set (n_children ?v)" for c
    proof -
      have "c \<in> set (n_children v)" "c \<noteq> i" using that sub by auto
      from node_okD(6) [OF pv this(1)] this(2) n(3) show ?thesis by (auto simp: s'(4))
    qed
    moreover have "\<exists>w. fs_nodes s' q = Some w \<and> p \<in> set (n_children w)"
      if "q < p" "\<exists>w. fs_nodes s q = Some w \<and> p \<in> set (n_children w)" for q
      using that ip by (auto simp: s'(4))
    moreover have "length (n_children ?v) \<le> VFS_MAX_CHILDREN"
      using node_okD(4) [OF pv] length_remove1 [of i "n_children v"] by (auto split: if_splits)
    moreover have "n_children ?v \<noteq> [] \<longrightarrow> n_type ?v = VFS_DIRECTORY"
      using node_okD(5) [OF pv] by (cases "n_children v") auto
    ultimately show ?thesis using pv by (auto simp: node_ok_def s'(1,2) split: option.splits)
  qed
  then have "node_ok j x s'" if "fs_nodes s' j = Some x" for j x
    using that keep by (auto simp: s'(4) split: if_splits)
  moreover have "\<exists>r v. fs_root s' = Some r \<and> fs_nodes s' r = Some v \<and> n_parent v = None \<and> n_type v = VFS_DIRECTORY"
  proof -
    obtain r x where r: "fs_root s = Some r" "fs_nodes s r = Some x" "n_parent x = None" "n_type x = VFS_DIRECTORY"
      using ok by (auto simp: tree_ok_def)
    have "r \<noteq> i" using r n(1,2) by auto
    then show ?thesis using r n(3) by (cases "r = p") (simp_all add: s'(2,4))
  qed
  ultimately show ?thesis using ok by (auto simp: tree_ok_def s'(2,3))
qed

section \<open>Walking\<close>

lemma resolve_walk_append:
  "resolve_walk r (xs @ ys) s = resolve_walk (resolve_walk r xs s) ys s"
proof (induction xs arbitrary: r)
  case Nil
  then show ?case by (cases r) simp_all
next
  case (Cons x xs)
  then show ?case by (cases r) simp_all
qed

lemma resolve_walk_node:
  assumes "tree_ok s" "fs_nodes s i = Some v" "resolve_walk (Some i) ts s = Some j"
  shows "\<exists>w. fs_nodes s j = Some w"
  using assms(2,3)
proof (induction ts arbitrary: i v)
  case Nil
  then show ?case by auto
next
  case (Cons t ts)
  then obtain c where c: "vfs_finddir i t s = Some c" by (cases "vfs_finddir i t s") auto
  obtain w where "fs_nodes s c = Some w" using finddir_Some [OF assms(1) Cons.prems(1) c] by blast
  then show ?case using Cons.IH Cons.prems(2) c by auto
qed

text \<open>The last step of a walk goes from the parent to the child of that name.\<close>

lemma resolve_walk_snoc:
  assumes "tree_ok s" "fs_nodes s i = Some v" "resolve_walk (Some i) (ts @ [t]) s = Some j"
  obtains p w where "resolve_walk (Some i) ts s = Some p" "fs_nodes s j = Some w" "n_parent w = Some p" "n_name w = t"
proof -
  have w: "resolve_walk (resolve_walk (Some i) ts s) [t] s = Some j" using assms(3) by (simp add: resolve_walk_append)
  then obtain p where p: "resolve_walk (Some i) ts s = Some p" by (cases "resolve_walk (Some i) ts s") auto
  obtain pv where pv: "fs_nodes s p = Some pv" using resolve_walk_node [OF assms(1,2) p] by blast
  have f: "vfs_finddir p t s = Some j" using w p by (cases "vfs_finddir p t s") auto
  show ?thesis by (rule finddir_Some [OF assms(1) pv f]) (rule that [OF p])
qed

lemma resolve_walk_unique:
  assumes ok: "tree_ok s" and root: "fs_root s = Some r"
    and "resolve_walk (Some r) ts s = Some j" "resolve_walk (Some r) us s = Some j"
  shows "ts = us"
  using assms(3,4)
proof (induction ts arbitrary: us j rule: rev_induct)
  case Nil
  obtain v where v: "fs_nodes s r = Some v" "n_parent v = None" using ok root by (auto simp: tree_ok_def)
  show ?case
  proof (cases us rule: rev_cases)
    case (snoc us' u)
    have "j = r" using Nil(1) by simp
    then have "resolve_walk (Some r) (us' @ [u]) s = Some r" using Nil(2) snoc by simp
    then obtain p w where "fs_nodes s r = Some w" "n_parent w = Some p" by (rule resolve_walk_snoc [OF ok v(1)])
    then show ?thesis using v by simp
  qed simp
next
  case (snoc t ts)
  obtain v where v: "fs_nodes s r = Some v" "n_parent v = None" using ok root by (auto simp: tree_ok_def)
  obtain p w where p: "resolve_walk (Some r) ts s = Some p" "fs_nodes s j = Some w" "n_parent w = Some p" "n_name w = t"
    using resolve_walk_snoc [OF ok v(1) snoc.prems(1)] by blast
  show ?case
  proof (cases us rule: rev_cases)
    case Nil
    then show ?thesis using snoc.prems(2) p(2,3) v by auto
  next
    case us: (snoc us' u)
    obtain p' w' where p': "resolve_walk (Some r) us' s = Some p'" "fs_nodes s j = Some w'" "n_parent w' = Some p'" "n_name w' = u"
      using resolve_walk_snoc [OF ok v(1)] snoc.prems(2) us by blast
    have "p' = p" "u = t" using p p' by auto
    then show ?thesis using snoc.IH [OF p(1)] p'(1) us by simp
  qed
qed

text \<open>Lookups after a removal: exactly the removed node has become unreachable.\<close>

lemma finddir_removed:
  assumes ok: "tree_ok s" and n: "fs_nodes s i = Some n" "n_parent n = Some p" "fs_nodes s p = Some v"
    and s': "\<And>j. fs_nodes s' j = (if j = i then None else if j = p then Some (v\<lparr>n_children := remove1 i (n_children v)\<rparr>)
             else fs_nodes s j)"
    and j: "j \<noteq> i"
  shows "vfs_finddir j t s' = (if vfs_finddir j t s = Some i then None else vfs_finddir j t s)"
proof (cases "fs_nodes s j")
  case None
  then show ?thesis using j n(3) by (auto simp: vfs_finddir_def s')
next
  case (Some x)
  let ?P = "\<lambda>s c. case fs_nodes s c of Some v \<Rightarrow> n_name v = t | None \<Rightarrow> False"
  have jx: "node_ok j x s" by (rule tree_okD [OF ok Some])
  have P: "?P s' c = ?P s c" if "c \<noteq> i" for c using that n(3) by (simp add: s')
  show ?thesis
  proof (cases "j = p")
    case False
    have "i \<notin> set (n_children x)" using node_okD(6) [OF jx, of i] n(1,2) False by force
    then have "find (?P s') (n_children x) = find (?P s) (n_children x)" by (intro find_cong refl) (metis P)
    moreover have "find (?P s) (n_children x) \<noteq> Some i"
      using \<open>i \<notin> set (n_children x)\<close> by (auto simp: find_Some_iff)
    ultimately show ?thesis using Some False j by (auto simp: vfs_finddir_def ramfs_finddir_def s')
  next
    case True
    then have x: "x = v" using Some n(3) by simp
    have i: "i \<in> set (n_children v)" using node_okD(7) [OF tree_okD [OF ok n(1)] n(2)] n(3) by auto
    have sub: "set (remove1 i (n_children v)) = set (n_children v) - {i}"
      using set_remove1_eq [OF children_distinct [OF jx]] unfolding x .
    have "find (?P s') (remove1 i (n_children v)) = find (?P s) (remove1 i (n_children v))"
    proof (intro find_cong refl)
      fix c
      assume "c \<in> set (remove1 i (n_children v))"
      then have "c \<noteq> i" using sub by blast
      then show "?P s' c = ?P s c" by (rule P)
    qed
    moreover have "find (?P s) (remove1 i (n_children v)) = (if find (?P s) (n_children v) = Some i then None else find (?P s) (n_children v))"
    proof (cases "?P s i")
      case True
      then have "n_name n = t" using n(1) by simp
      then have "vfs_finddir p t s = Some i" using finddir_child [OF ok n(3) i n(1)] by simp
      then have "find (?P s) (n_children v) = Some i" using n(3) by (simp add: vfs_finddir_def ramfs_finddir_def split: if_splits)
      moreover have "find (?P s) (remove1 i (n_children v)) = None"
      proof -
        have "c = i" if cin: "c \<in> set (n_children v)" and cP: "?P s c" for c
        proof -
          obtain w where "fs_nodes s c = Some w" "n_name w = t" using cP by (auto split: option.splits)
          then show ?thesis using finddir_child [OF ok n(3) cin] \<open>vfs_finddir p t s = Some i\<close> by simp
        qed
        then show ?thesis using sub by (auto simp: find_None_iff)
      qed
      ultimately show ?thesis by simp
    next
      case False
      then have "find (?P s) (n_children v) \<noteq> Some i" by (auto simp: find_Some_iff)
      moreover have "find (?P s) (remove1 i (n_children v)) = find (?P s) (n_children v)"
        by (rule find_remove1) (rule False)
      ultimately show ?thesis by simp
    qed
    ultimately show ?thesis using Some x True j by (auto simp: vfs_finddir_def ramfs_finddir_def s')
  qed
qed


lemma resolve_walk_removed:
  assumes ok: "tree_ok s" and n: "fs_nodes s i = Some n" "n_parent n = Some p" "fs_nodes s p = Some v" "n_children n = []"
    and s': "\<And>j. fs_nodes s' j = (if j = i then None else if j = p then Some (v\<lparr>n_children := remove1 i (n_children v)\<rparr>)
             else fs_nodes s j)"
    and j: "j \<noteq> i"
  shows "resolve_walk (Some j) ts s' = (if resolve_walk (Some j) ts s = Some i then None else resolve_walk (Some j) ts s)"
  using j
proof (induction ts arbitrary: j)
  case Nil
  then show ?case by simp
next
  case (Cons t ts)
  note f = finddir_removed [OF ok n(1-3) s' Cons.prems, of t]
  show ?case
  proof (cases "vfs_finddir j t s")
    case None
    then show ?thesis using f by simp
  next
    case (Some c)
    show ?thesis
    proof (cases "c = i")
      case True
      have "resolve_walk (Some i) ts s \<noteq> Some x \<or> (ts = [] \<and> x = i)" for x
      proof (cases ts)
        case (Cons u us)
        have "vfs_finddir i u s = None" using n(1,4) by (simp add: vfs_finddir_def ramfs_finddir_def)
        then show ?thesis using Cons by simp
      qed auto
      then have "resolve_walk (Some i) ts s = None \<or> resolve_walk (Some i) ts s = Some i"
        by (cases "resolve_walk (Some i) ts s") auto
      then show ?thesis using f Some True by auto
    next
      case False
      then show ?thesis using f Some Cons.IH [OF False] by simp
    qed
  qed
qed

text \<open>Lookups after a creation: exactly the new name has appeared.\<close>

lemma finddir_created:
  assumes ok: "tree_ok s" and p: "fs_nodes s p = Some v" "n_type v = VFS_DIRECTORY" and nm: "length nm \<le> 63"
    and nodes: "\<And>j. fs_nodes s' j = (if j = p then Some (v\<lparr>n_children := n_children v @ [i]\<rparr>)
           else if j = i then Some w else fs_nodes s j)"
    and w: "n_name w = nm" "n_children w = []" and i: "fs_nodes s i = None" "i \<noteq> p"
  shows "vfs_finddir j t s' =
     (case vfs_finddir j t s of Some c \<Rightarrow> Some c | None \<Rightarrow> if j = p \<and> t = nm then Some i else None)"
proof -
  let ?P = "\<lambda>s c. case fs_nodes s c of Some v \<Rightarrow> n_name v = t | None \<Rightarrow> False"
  have same: "find (?P s') (n_children x) = find (?P s) (n_children x)" if x: "fs_nodes s k = Some x" for k x
  proof (intro find_cong refl)
    fix c
    assume "c \<in> set (n_children x)"
    then have "c \<noteq> i" using node_okD(6) [OF tree_okD [OF ok x]] i(1) by force
    then show "?P s' c = ?P s c" using p(1) by (simp add: nodes)
  qed
  have app: "find Q (xs @ [y]) = (case find Q xs of Some c \<Rightarrow> Some c | None \<Rightarrow> if Q y then Some y else None)" for Q xs y
    by (induction xs) auto
  consider "j = p" | "j = i" | "j \<noteq> p" "j \<noteq> i" by blast
  then show ?thesis
  proof cases
    assume j: "j = p"
    show ?thesis using j p same [OF p(1)] app [of "?P s'" "n_children v" i] i w
      by (simp add: vfs_finddir_def ramfs_finddir_def nodes split: option.split)
  next
    assume j: "j = i"
    then show ?thesis using i w by (simp add: vfs_finddir_def ramfs_finddir_def nodes)
  next
    assume j: "j \<noteq> p" "j \<noteq> i"
    then show ?thesis using same [of j]
      by (auto simp: vfs_finddir_def ramfs_finddir_def nodes split: option.split)
  qed
qed

lemma resolve_walk_created:
  assumes ok: "tree_ok s" and p: "fs_nodes s p = Some v" "n_type v = VFS_DIRECTORY" and nm: "length nm \<le> 63"
    and nodes: "\<And>j. fs_nodes s' j = (if j = p then Some (v\<lparr>n_children := n_children v @ [i]\<rparr>)
           else if j = i then Some w else fs_nodes s j)"
    and w: "n_name w = nm" "n_children w = []" and i: "fs_nodes s i = None" "i \<noteq> p"
  shows "resolve_walk (Some j) ts s' =
     (case resolve_walk (Some j) ts s of
        Some q \<Rightarrow> Some q
      | None \<Rightarrow> if ts \<noteq> [] \<and> resolve_walk (Some j) (butlast ts) s = Some p \<and> last ts = nm
                   \<and> vfs_finddir p nm s = None then Some i else None)"
proof (induction ts arbitrary: j)
  case Nil
  then show ?case by simp
next
  case (Cons t ts)
  note f = finddir_created [OF assms, of j t]
  have none: "resolve_walk (Some i) us s' = (if us = [] then Some i else None)" for us
  proof (cases us)
    case (Cons u us')
    have "vfs_finddir i u s' = None" using w i by (simp add: vfs_finddir_def ramfs_finddir_def nodes)
    then show ?thesis using Cons by simp
  qed simp
  show ?case
  proof (cases "vfs_finddir j t s")
    case None
    show ?thesis
    proof (cases "j = p \<and> t = nm")
      case True
      then show ?thesis using f None none [of ts] by (cases ts) auto
    next
      case False
      then show ?thesis using f None by (cases ts) auto
    qed
  next
    case (Some c)
    then have "resolve_walk (Some j) (t # ts) s' = resolve_walk (Some c) ts s'" using f by simp
    then show ?thesis unfolding Cons.IH using Some by (cases ts) (auto split: option.split)
  qed
qed


section \<open>Resolving paths\<close>

text \<open>The only state a lookup changes is the cached root pointer.\<close>

definition rooted :: "fs \<Rightarrow> fs" where
  "rooted s = s\<lparr>fs_vfs_root := fs_root s\<rparr>"

lemma rooted_simps [simp]:
  "fs_nodes (rooted s) = fs_nodes s" "fs_root (rooted s) = fs_root s" "fs_next (rooted s) = fs_next s"
  "fs_cred (rooted s) = fs_cred s" "fs_umask (rooted s) = fs_umask s" "rooted (rooted s) = rooted s"
  "fs_allocs (rooted s) = fs_allocs s" "fs_grants (rooted s) = fs_grants s" "current_cred (rooted s) = current_cred s"
  "fs_uptime (rooted s) = fs_uptime s"
  by (simp_all add: rooted_def current_cred_def)

lemma tree_ok_rooted: "tree_ok s \<Longrightarrow> tree_ok (rooted s)"
  by (erule tree_ok_frame) (simp_all add: rooted_def)

lemma vfs_get_root_ok: "tree_ok s \<Longrightarrow> vfs_get_root s = (fs_root s, rooted s)"
  by (auto simp: tree_ok_def vfs_get_root_def rooted_def Let_def)

lemma vfs_finddir_cong: "fs_nodes s' = fs_nodes s \<Longrightarrow> vfs_finddir i t s' = vfs_finddir i t s"
  by (simp add: vfs_finddir_def ramfs_finddir_def split: option.split)

lemma resolve_walk_cong: "fs_nodes s' = fs_nodes s \<Longrightarrow> resolve_walk r ts s' = resolve_walk r ts s"
proof (induction ts arbitrary: r)
  case Nil
  then show ?case by (cases r) simp_all
next
  case (Cons t ts)
  have "vfs_finddir i t s' = vfs_finddir i t s" for i by (rule vfs_finddir_cong [OF Cons.prems])
  then show ?case using Cons.IH [OF Cons.prems] by (cases r) simp_all
qed

lemma vfs_check_access_cong: "fs_cred s' = fs_cred s \<Longrightarrow> vfs_check_access v m s' = vfs_check_access v m s"
  by (simp add: vfs_check_access_def current_cred_def)

lemma abs_normalize_spec:
  assumes "tree_ok s" "abs_normalize path cwd s = Some (norm, s1)"
  obtains cs where "norm = render cs" "\<forall>c \<in> set cs. name_ok c" "length cs \<le> 64" "length norm < PATH_MAX"
    "s1 = s \<or> s1 = rooted s"
proof -
  obtain base where norm: "norm = path_normalize base path" "length norm < PATH_MAX" "s1 = s \<or> s1 = rooted s"
    using assms vfs_get_root_ok [OF assms(1)]
    by (auto simp: abs_normalize_def Let_def bind_eq_Some_conv split: if_splits option.splits)
  obtain cs where "path_normalize base path = render cs" "\<forall>c \<in> set cs. name_ok c" "length cs \<le> 64"
    by (rule path_normalize_canonical)
  then show ?thesis using that norm by simp
qed

lemma path_names_tl_render: "\<forall>c \<in> set cs. name_ok c \<Longrightarrow> path_names (tl (render cs)) = cs"
proof -
  assume ok: "\<forall>c \<in> set cs. name_ok c"
  have "render cs = SLASH # tl (render cs)" by (cases cs) (simp_all add: render_def)
  then have "path_names (tl (render cs)) = path_names (render cs)" by (metis path_names_slash)
  then show ?thesis using path_names_render [OF ok] by simp
qed

lemma render_root: "render cs = ''/'' \<longleftrightarrow> cs = []" if "\<forall>c \<in> set cs. name_ok c"
  using that by (cases cs) (auto simp: render_def name_ok_def)

lemma vfs_resolve_spec:
  assumes "tree_ok s" "abs_normalize path cwd s = Some (render cs, s1)" "\<forall>c \<in> set cs. name_ok c"
  shows "vfs_resolve path cwd s = Some (resolve_walk (fs_root s) cs s, rooted s)"
proof -
  have s1: "s1 = s \<or> s1 = rooted s" using abs_normalize_spec [OF assms(1,2)] by blast
  then have "tree_ok s1" "rooted s1 = rooted s" "fs_root s1 = fs_root s" using assms(1) tree_ok_rooted by auto
  then have gr: "vfs_get_root s1 = (fs_root s, rooted s)" using vfs_get_root_ok [of s1] by simp
  obtain r where r: "fs_root s = Some r" using assms(1) by (auto simp: tree_ok_def)
  show ?thesis
    using assms(2) gr render_root [OF assms(3)] path_names_tl_render [OF assms(3)] r
      resolve_walk_cong [of "rooted s" s]
    by (auto simp: vfs_resolve_def)
qed

lemma vfs_resolve_state:
  assumes "tree_ok s" "vfs_resolve path cwd s = Some (r, s1)"
  shows "s1 = rooted s"
proof -
  obtain norm s0 where n: "abs_normalize path cwd s = Some (norm, s0)"
    using assms(2) by (cases "abs_normalize path cwd s") (auto simp: vfs_resolve_def)
  obtain cs where cs: "norm = render cs" "\<forall>c \<in> set cs. name_ok c" by (rule abs_normalize_spec [OF assms(1) n])
  have "abs_normalize path cwd s = Some (render cs, s0)" using n cs(1) by simp
  from vfs_resolve_spec [OF assms(1) this cs(2)] show ?thesis using assms(2) by simp
qed

lemma abs_normalize_render:
  assumes "\<forall>c \<in> set cs. name_ok c" "length cs \<le> 64" "length (render cs) < PATH_MAX"
  shows "abs_normalize (render cs) cwd s = Some (render cs, s)"
  using path_normalize_names [OF assms(1,2)] assms(3) by (simp add: abs_normalize_def)

lemma vfs_resolve_render:
  assumes "tree_ok s" "\<forall>c \<in> set cs. name_ok c" "length cs \<le> 64" "length (render cs) < PATH_MAX"
  shows "vfs_resolve (render cs) cwd s = Some (resolve_walk (fs_root s) cs s, rooted s)"
  by (rule vfs_resolve_spec [OF assms(1) abs_normalize_render [OF assms(2-4)] assms(2)])

lemma render_dirname:
  assumes "\<forall>x \<in> set (cs @ [c]). name_ok x"
  shows "path_dirname (render (cs @ [c])) = render cs" "path_basename (render (cs @ [c])) = c"
    "length (render cs) \<le> length (render (cs @ [c]))"
proof -
  have c: "SLASH \<notin> set c" "c \<noteq> []" using assms name_ok_notslash [of c] by auto
  have r: "render (cs @ [c]) = rebuild cs @ SLASH # c" by (simp add: render_def)
  note sl = split_last_append [OF c(1), of "rebuild cs"]
  have "rebuild cs = [] \<longleftrightarrow> cs = []" by (cases cs) auto
  then show "path_dirname (render (cs @ [c])) = render cs" using sl by (simp add: path_dirname_def r render_def)
  show "path_basename (render (cs @ [c])) = c" using sl c(2) by (simp add: path_basename_def r)
  show "length (render cs) \<le> length (render (cs @ [c]))" using r by (auto simp: render_def)
qed

text \<open>The common front of \<^verbatim>\<open>vfs_create\<close> and \<^verbatim>\<open>vfs_mkdir\<close>: the parent is found.\<close>

lemma resolve_parent:
  assumes ok: "tree_ok s" and nz: "abs_normalize path cwd s = Some (render (cs @ [c]), s1)"
    and names: "\<forall>x \<in> set (cs @ [c]). name_ok x"
  shows "vfs_resolve (path_dirname (render (cs @ [c]))) None s1 = Some (resolve_walk (fs_root s) cs s, rooted s)"
proof -
  obtain ds where ds: "render (cs @ [c]) = render ds" "\<forall>c \<in> set ds. name_ok c" "length ds \<le> 64"
    "length (render (cs @ [c])) < PATH_MAX" "s1 = s \<or> s1 = rooted s"
    using abs_normalize_spec [OF ok nz] by blast
  have "ds = cs @ [c]" using path_names_render [OF ds(2)] path_names_render [OF names] ds(1) by simp
  then have "length cs \<le> 64" "length (render cs) < PATH_MAX"
    using ds(3,4) render_dirname(3) [OF names] by auto
  moreover have "tree_ok s1" "fs_root s1 = fs_root s" "rooted s1 = rooted s" "fs_nodes s1 = fs_nodes s"
    using ok ds(5) tree_ok_rooted by auto
  ultimately show ?thesis unfolding render_dirname(1) [OF names]
    using vfs_resolve_render [of s1 cs None] names resolve_walk_cong [of s1 s] by simp
qed

section \<open>Creating\<close>

text \<open>What one successful creation does to the tree.\<close>

lemma create_effect:
  assumes ok: "tree_ok s" and p: "resolve_walk (fs_root s) cs s = Some p" "fs_nodes s p = Some v" "n_type v = VFS_DIRECTORY"
    and nm: "name_ok nm" "length nm \<le> 63" "vfs_finddir p nm s = None"
    and room: "length (n_children v) < VFS_MAX_CHILDREN" "fs_grants s (fs_allocs s)"
  obtains s' where "ramfs_create_node (Some p) nm ty (rooted s) = (Some (fs_next s), s')"
    "tree_ok (set_owner (fs_next s) perms s')" "fs_umask s' = fs_umask s"
    "fs_nodes (set_owner (fs_next s) perms s') (fs_next s) = Some ((fresh_node (Some p) nm ty (fs_uptime s))
       \<lparr>n_owner_uid := fst (current_cred s), n_owner_gid := snd (current_cred s), n_permissions := perms\<rparr>)"
    "\<forall>ts. resolve_walk (fs_root (set_owner (fs_next s) perms s')) ts (set_owner (fs_next s) perms s')
       = (if ts = cs @ [nm] then Some (fs_next s) else resolve_walk (fs_root s) ts s)"
proof -
  let ?i = "fs_next s" and ?s = "rooted s"
  have ok': "tree_ok ?s" by (rule tree_ok_rooted [OF ok])
  obtain r s' where c: "ramfs_create_node (Some p) nm ty ?s = (r, s')" by (cases "ramfs_create_node (Some p) nm ty ?s")
  have pr: "fs_nodes ?s p = Some v" "vfs_finddir p nm ?s = None" using p nm vfs_finddir_cong [of ?s s] by simp_all
  have some: "r = Some ?i"
    and s': "s' = put_node p (v\<lparr>n_children := n_children v @ [?i]\<rparr>)
              (put_node ?i (fresh_node (Some p) nm ty (fs_uptime s))
                 (?s\<lparr>fs_allocs := fs_allocs s + 1, fs_next := ?i + 1\<rparr>))"
    using c pr(1) room by (auto simp: ramfs_create_node_def kalloc_def Let_def)
  have pn: "p < ?i" using node_okD(1) [OF tree_okD [OF ok p(2)]] .
  have fresh: "fs_nodes s ?i = None" using node_okD(1) [OF tree_okD [OF ok]] by (cases "fs_nodes s ?i") auto
  have nodes: "fs_nodes s' j = (if j = p then Some (v\<lparr>n_children := n_children v @ [?i]\<rparr>)
           else if j = ?i then Some (fresh_node (Some p) nm ty (fs_uptime s)) else fs_nodes s j)" for j
    using pn unfolding s' by (simp add: put_node_def)
  have fr: "fs_root s' = fs_root s" "fs_cred s' = fs_cred s" "fs_umask s' = fs_umask s" unfolding s' by (simp_all add: put_node_def)
  have cc: "current_cred s' = current_cred s" using fr(2) by (simp add: current_cred_def)
  have ok2: "tree_ok s'" by (rule tree_ok_create_node [OF ok' pr(1) p(3) nm(1,2) pr(2) c])
  let ?w = "(fresh_node (Some p) nm ty (fs_uptime s))
       \<lparr>n_owner_uid := fst (current_cred s), n_owner_gid := snd (current_cred s), n_permissions := perms\<rparr>"
  let ?t = "set_owner ?i perms s'"
  have t: "?t = put_node ?i ?w s'" using pn nodes [of ?i] cc by (simp add: set_owner_def upd_node_def case_prod_beta)
  have tnodes: "fs_nodes ?t j = (if j = p then Some (v\<lparr>n_children := n_children v @ [?i]\<rparr>)
           else if j = ?i then Some ?w else fs_nodes s j)" for j
    using pn unfolding t by (auto simp: put_node_def nodes)
  have "same_shape (fresh_node (Some p) nm ty (fs_uptime s)) ?w" by (simp add: same_shape_def)
  then have tok: "tree_ok ?t" unfolding t using nodes [of ?i] pn by (intro tree_ok_put_same [OF ok2]) auto
  obtain rt where rt: "fs_root s = Some rt" using ok by (auto simp: tree_ok_def)
  have walk: "resolve_walk (fs_root ?t) ts ?t = (if ts = cs @ [nm] then Some ?i else resolve_walk (fs_root s) ts s)" for ts
  proof -
    have root: "fs_root ?t = Some rt" unfolding t using fr(1) rt by (simp add: put_node_def)
    have w: "n_name ?w = nm" "n_children ?w = []" using nm(2) by (simp_all add: fresh_node_def)
    have ip: "?i \<noteq> p" using pn by simp
    note rw = resolve_walk_created [OF ok p(2,3) nm(2) tnodes w fresh ip, of rt ts]
    have here: "resolve_walk (Some rt) (cs @ [nm]) s = None"
      using p(1) nm(3) rt by (simp add: resolve_walk_append)
    show ?thesis
    proof (cases "ts = cs @ [nm]")
      case True
      have "resolve_walk (Some rt) (butlast ts) s = Some p" "last ts = nm" "ts \<noteq> []" using True p(1) rt by simp_all
      moreover have "resolve_walk (Some rt) ts s = None" using True here by simp
      ultimately have "resolve_walk (Some rt) ts ?t = Some ?i" unfolding rw using nm(3) by simp
      then show ?thesis unfolding root using True by simp
    next
      case False
      have "\<not> (ts \<noteq> [] \<and> resolve_walk (Some rt) (butlast ts) s = Some p \<and> last ts = nm \<and> vfs_finddir p nm s = None)"
      proof
        assume "ts \<noteq> [] \<and> resolve_walk (Some rt) (butlast ts) s = Some p \<and> last ts = nm \<and> vfs_finddir p nm s = None"
        then have b: "ts \<noteq> []" "resolve_walk (Some rt) (butlast ts) s = Some p" "last ts = nm" by auto
        have "butlast ts = cs" using resolve_walk_unique [OF ok rt b(2)] p(1) rt by simp
        then show False using False b(1,3) by (metis append_butlast_last_id)
      qed
      then have "resolve_walk (Some rt) ts ?t = resolve_walk (Some rt) ts s"
        unfolding rw by (cases "resolve_walk (Some rt) ts s") (simp_all only: option.case if_False)
      then show ?thesis unfolding root rt using False by simp
    qed
  qed
  show ?thesis
  proof (rule that [OF _ tok fr(3)])
    show "\<forall>ts. resolve_walk (fs_root ?t) ts ?t = (if ts = cs @ [nm] then Some ?i else resolve_walk (fs_root s) ts s)"
      using walk by blast
    show "ramfs_create_node (Some p) nm ty ?s = (Some ?i, s')" using c some by simp
    show "fs_nodes ?t ?i = Some ?w" using tnodes [of ?i] pn by simp
  qed
qed


section \<open>The path of a node\<close>

lemma get_path_walk_spec:
  assumes ok: "tree_ok s" and "fs_nodes s i = Some v" "get_path_walk i acc s = Some out"
  shows "\<exists>cs. out = rebuild cs @ acc \<and> resolve_walk (fs_root s) cs s = Some i \<and> (\<forall>c \<in> set cs. name_ok c)
     \<and> (cs \<noteq> [] \<longrightarrow> length out < PATH_MAX)"
  using assms(2,3)
proof (induction i arbitrary: v acc rule: less_induct)
  case (less i)
  show ?case
  proof (cases "n_parent v")
    case None
    then have "fs_root s = Some i" using node_okD(2) [OF tree_okD [OF ok less(2)]] by simp
    moreover have "out = acc" using less(2,3) None by (simp add: get_path_walk.simps [of i])
    ultimately show ?thesis by (intro exI [of _ "[]"]) simp
  next
    case (Some p)
    obtain w where w: "p < i" "name_ok (n_name v)" "fs_nodes s p = Some w" "i \<in> set (n_children w)"
      using node_okD(7) [OF tree_okD [OF ok less(2)] Some] by blast
    let ?tmp = "SLASH # n_name v @ acc"
    have len: "length ?tmp < PATH_MAX" and step: "get_path_walk p ?tmp s = Some out"
      using less(2,3) Some by (auto simp: get_path_walk.simps [of i] Let_def split: if_splits)
    obtain cs where cs: "out = rebuild cs @ ?tmp" "resolve_walk (fs_root s) cs s = Some p" "\<forall>c \<in> set cs. name_ok c"
      "cs \<noteq> [] \<longrightarrow> length out < PATH_MAX"
      using less(1) [OF w(1,3) step] by blast
    have "vfs_finddir p (n_name v) s = Some i" by (rule finddir_child [OF ok w(3,4) less(2)])
    then have "resolve_walk (fs_root s) (cs @ [n_name v]) s = Some i" using cs(2) by (simp add: resolve_walk_append)
    moreover have "length out < PATH_MAX" using cs(1,4) len by (cases cs) auto
    ultimately show ?thesis using cs w(2) by (intro exI [of _ "cs @ [n_name v]"]) simp
  qed
qed

section \<open>Properties\<close>

text \<open>
  C14: Creating a file that does not exist, under a name of at most 63 characters, in a directory the
  caller may write and that has room,
  yields a new empty file owned by the caller with permissions 0666 less the umask, keeps the tree
  well formed, and changes the name space in exactly one place: the path now names the new file
  and every other path resolves as before.
\<close>

theorem vfs_create_correct:
  assumes "tree_ok s" "abs_normalize path cwd s = Some (render (cs @ [c]), s1)" "\<forall>x \<in> set (cs @ [c]). name_ok x"
    and "length c \<le> 63" "resolve_walk (fs_root s) cs s = Some p" "fs_nodes s p = Some v" "n_type v = VFS_DIRECTORY"
    and "vfs_check_access v ACC_WRITE s" "vfs_finddir p c s = None" "length (n_children v) < VFS_MAX_CHILDREN"
    and "fs_grants s (fs_allocs s)"
  shows "\<exists>i s' n. vfs_create path cwd s = Some (Some i, s') \<and> tree_ok s' \<and> fs_nodes s i = None \<and> fs_nodes s' i = Some n
     \<and> n_type n = VFS_FILE \<and> n_size n = 0 \<and> (n_owner_uid n, n_owner_gid n) = current_cred s
     \<and> n_permissions n = 0x1B6 AND NOT (fs_umask s)
     \<and> (\<forall>ts. resolve_walk (fs_root s') ts s' = (if ts = cs @ [c] then Some i else resolve_walk (fs_root s) ts s))"
proof -
  have nm: "name_ok c" using assms(3) by simp
  let ?perms = "0x1B6 AND NOT (fs_umask s)"
  obtain s2 where e: "ramfs_create_node (Some p) c VFS_FILE (rooted s) = (Some (fs_next s), s2)"
    "tree_ok (set_owner (fs_next s) ?perms s2)" "fs_umask s2 = fs_umask s"
    "fs_nodes (set_owner (fs_next s) ?perms s2) (fs_next s) = Some ((fresh_node (Some p) c VFS_FILE (fs_uptime s))
       \<lparr>n_owner_uid := fst (current_cred s), n_owner_gid := snd (current_cred s), n_permissions := ?perms\<rparr>)"
    "\<forall>ts. resolve_walk (fs_root (set_owner (fs_next s) ?perms s2)) ts (set_owner (fs_next s) ?perms s2)
       = (if ts = cs @ [c] then Some (fs_next s) else resolve_walk (fs_root s) ts s)"
    by (rule create_effect [OF assms(1,5,6,7) nm assms(4,9,10,11), where ty = VFS_FILE and perms = ?perms])
  note rp = resolve_parent [OF assms(1-3)]
  have "vfs_create path cwd s = Some (Some (fs_next s), set_owner (fs_next s) ?perms s2)"
    unfolding vfs_create_def assms(2) bind.simps case_prod_conv rp render_dirname(2) [OF assms(3)] Let_def
    using assms(5-9) e(1,3) vfs_finddir_cong [of "rooted s" s] vfs_check_access_cong [of "rooted s" s] by simp
  moreover have "fs_nodes s (fs_next s) = None"
    using node_okD(1) [OF tree_okD [OF assms(1)]] by (cases "fs_nodes s (fs_next s)") auto
  ultimately show ?thesis using e(2,4,5)
    by (intro exI [of _ "fs_next s"] exI [of _ "set_owner (fs_next s) ?perms s2"])
      (simp add: fresh_node_def)
qed

text \<open>
  C15: Deleting a path, on every branch: the root cannot be deleted (-1); without write permission
  on the parent the answer is -3; in a sticky directory only root, the file's owner and the
  directory's owner may delete (-4); a directory with entries is kept (-2); in each of these cases
  nothing changes. Otherwise the result is 0, the node is freed, the tree stays well formed, and
  exactly the paths that named it stop resolving.
\<close>

theorem vfs_delete_correct:
  assumes "tree_ok s" "vfs_resolve path cwd s = Some (Some i, s1)" "fs_nodes s i = Some n"
    and "rc = (case n_parent n of
          None \<Rightarrow> -1
        | Some p \<Rightarrow> (let v = the (fs_nodes s p); uid = fst (current_cred s)
                   in if \<not> vfs_check_access v ACC_WRITE s then -3
                      else if n_permissions v AND VFS_STICKY \<noteq> 0 \<and> uid \<noteq> 0 \<and> uid \<noteq> n_owner_uid n \<and> uid \<noteq> n_owner_uid v
                      then -4
                      else if n_children n \<noteq> [] then -2 else 0))"
  shows "\<exists>s'. vfs_delete path cwd s = Some (rc, s') \<and> tree_ok s'
     \<and> (if rc = 0
        then fs_nodes s' i = None \<and>
          (\<forall>ts. resolve_walk (fs_root s') ts s' =
             (if resolve_walk (fs_root s) ts s = Some i then None else resolve_walk (fs_root s) ts s))
        else s' = rooted s)"
proof -
  have s1: "s1 = rooted s" by (rule vfs_resolve_state [OF assms(1,2)])
  have ok: "tree_ok (rooted s)" by (rule tree_ok_rooted [OF assms(1)])
  have n: "fs_nodes (rooted s) i = Some n" using assms(3) by simp
  have acc: "vfs_check_access v m (rooted s) = vfs_check_access v m s" for v m by (rule vfs_check_access_cong) simp
  note del = vfs_delete_def [of path cwd s, unfolded assms(2) s1 bind.simps case_prod_conv option.case n]
  show ?thesis
  proof (rule remove_node_cases [OF ok n], goal_cases)
    case 1
    then show ?thesis using del assms(4) ok by (intro exI [of _ "rooted s"]) simp
  next
    case (2 p v)
    then show ?thesis using del assms(4) ok acc by (intro exI [of _ "rooted s"]) (auto simp: Let_def)
  next
    case (3 p v s')
    have p: "n_parent n = Some p" "fs_nodes s p = Some v" "n_children n = []" using 3 by auto
    show ?thesis
    proof (cases "rc = 0")
      case False
      then show ?thesis using del assms(4) ok acc p by (intro exI [of _ "rooted s"]) (auto simp: Let_def split: if_splits)
    next
      case True
      have d: "vfs_delete path cwd s = Some (0, s')"
        using del assms(4) acc p True 3(4) by (auto simp: Let_def split: if_splits)
      have ok': "tree_ok s'" by (rule tree_ok_remove [OF ok n 3(1,2,3,5-8)])
      obtain r where r: "fs_root s = Some r" "fs_root s' = Some r" using assms(1) 3(6) by (auto simp: tree_ok_def)
      have "r \<noteq> i" using r(1) assms(1,3) p(1) by (auto simp: tree_ok_def)
      then have "resolve_walk (fs_root s') ts s' =
          (if resolve_walk (fs_root s) ts s = Some i then None else resolve_walk (fs_root s) ts s)" for ts
        using resolve_walk_removed [OF ok n 3(1,2,3,8), of r ts] resolve_walk_cong [of "rooted s" s "Some r" ts] r by simp
      moreover have "fs_nodes s' i = None" using 3(8) by simp
      ultimately show ?thesis using d ok' True by (intro exI [of _ s']) simp
    qed
  qed
qed

text \<open>
  C37: The path that \<^verbatim>\<open>vfs_get_path\<close> reports for a node leads back to it: resolving it, from any
  directory, gives the node, provided the path has at most 64 components.
\<close>

theorem vfs_get_path_resolves:
  assumes "tree_ok s" "fs_nodes s i = Some v" "vfs_get_path (Some i) s = Some path" "length (path_names path) \<le> 64"
  shows "vfs_resolve path cwd s = Some (Some i, rooted s)"
proof -
  obtain out where out: "get_path_walk i [] s = Some out" "path = (if out \<noteq> [] then out else ''/'')"
    using assms(3) by (auto simp: vfs_get_path_def)
  obtain cs where cs: "out = rebuild cs" "resolve_walk (fs_root s) cs s = Some i" "\<forall>c \<in> set cs. name_ok c"
    "cs \<noteq> [] \<longrightarrow> length out < PATH_MAX"
    using get_path_walk_spec [OF assms(1,2) out(1)] by auto
  have "rebuild cs = [] \<longleftrightarrow> cs = []" by (cases cs) auto
  then have path: "path = render cs" using out(2) cs(1) by (auto simp: render_def)
  have "length (render cs) < PATH_MAX" using cs(1,4) by (auto simp: render_def)
  moreover have "length cs \<le> 64" using assms(4) path path_names_render [OF cs(3)] by simp
  ultimately show ?thesis unfolding path using vfs_resolve_render [OF assms(1) cs(3)] cs(2) by simp
qed

text \<open>
  A file name longer than 63 characters is cut when it is stored but not when it is looked up:
  creating such a file succeeds, and the path it was created under then does not resolve.
\<close>

theorem vfs_create_long_name_lost:
  assumes "tree_ok s" "abs_normalize path cwd s = Some (render (cs @ [c]), s1)" "\<forall>x \<in> set (cs @ [c]). name_ok x"
    and "63 < length c" "resolve_walk (fs_root s) cs s = Some p" "fs_nodes s p = Some v" "n_type v = VFS_DIRECTORY"
    and "vfs_check_access v ACC_WRITE s" "vfs_finddir p c s = None" "length (n_children v) < VFS_MAX_CHILDREN"
    and "fs_grants s (fs_allocs s)"
  shows "\<exists>i s'. vfs_create path cwd s = Some (Some i, s') \<and> vfs_finddir p c s' = None
     \<and> (\<exists>n. fs_nodes s' i = Some n \<and> n_parent n = Some p \<and> n_name n = take 63 c)"
proof -
  let ?i = "fs_next s" and ?f = "fresh_node (Some p) c VFS_FILE (fs_uptime s)"
  have pn: "p < ?i" using node_okD(1) [OF tree_okD [OF assms(1,6)]] .
  have fresh: "fs_nodes s ?i = None" using node_okD(1) [OF tree_okD [OF assms(1)]] by (cases "fs_nodes s ?i") auto
  define s2 where "s2 = put_node p (v\<lparr>n_children := n_children v @ [?i]\<rparr>)
              (put_node ?i ?f ((rooted s)\<lparr>fs_allocs := fs_allocs s + 1, fs_next := ?i + 1\<rparr>))"
  have cr: "ramfs_create_node (Some p) c VFS_FILE (rooted s) = (Some ?i, s2)"
    using assms(6,10,11) by (simp add: ramfs_create_node_def kalloc_def Let_def s2_def)
  define w where "w = ?f\<lparr>n_owner_uid := fst (current_cred s2), n_owner_gid := snd (current_cred s2),
      n_permissions := 0x1B6 AND NOT (fs_umask s2)\<rparr>"
  define s' where "s' = set_owner ?i (0x1B6 AND NOT (fs_umask s2)) s2"
  have nodes: "fs_nodes s' j = (if j = p then Some (v\<lparr>n_children := n_children v @ [?i]\<rparr>)
           else if j = ?i then Some w else fs_nodes s j)" for j
    using pn by (auto simp: s'_def w_def set_owner_def upd_node_def s2_def put_node_def case_prod_beta)
  have "vfs_create path cwd s = Some (Some ?i, s')"
    unfolding vfs_create_def assms(2) bind.simps case_prod_conv resolve_parent [OF assms(1-3)] render_dirname(2) [OF assms(3)] Let_def
    using assms(5-9) cr vfs_finddir_cong [of "rooted s" s] vfs_check_access_cong [of "rooted s" s] by (simp add: s'_def)
  moreover have w: "n_name w = take 63 c" "n_children w = []" "n_parent w = Some p" by (simp_all add: w_def fresh_node_def)
  moreover have "vfs_finddir p c s' = None"
  proof -
    have "length (take 63 c) \<noteq> length c" using assms(4) by simp
    then have "c \<noteq> take 63 c" by metis
    then show ?thesis
      using finddir_created [OF assms(1,6,7) _ nodes w(1,2) fresh, of p c] assms(9) pn by (simp del: take_all_iff)
  qed
  ultimately show ?thesis using nodes [of ?i] pn by (intro exI [of _ ?i] exI [of _ s']) auto
qed


section \<open>Witnesses\<close>

definition example_root :: vnode where
  "example_root = (fresh_node None ''/'' VFS_DIRECTORY 0)\<lparr>n_permissions := 0x1FF\<rparr>"

definition example_tree :: fs where
  "example_tree = \<lparr>fs_nodes = [1 \<mapsto> example_root], fs_next = 2, fs_root = Some 1, fs_vfs_root = None,
     fs_disk = example_disk, fs_blockfs = blank_blockfs, fs_grants = (\<lambda>_. True), fs_allocs = 0, fs_junk = (\<lambda>_. 0),
     fs_uptime = 5, fs_cred = Some (1000, 1000), fs_umask = 0x12\<rparr>"

definition example_tree2 :: fs where
  "example_tree2 = example_tree\<lparr>fs_nodes := [1 \<mapsto> example_root\<lparr>n_children := [2]\<rparr>,
     2 \<mapsto> fresh_node (Some 1) ''f'' VFS_FILE 5], fs_next := 3\<rparr>"

lemmas example_defs = example_tree2_def example_tree_def example_root_def fresh_node_def

lemma example_tree: "tree_ok example_tree"
  by (auto simp: tree_ok_def node_ok_def child_names_def example_defs)

lemma example_tree2: "tree_ok example_tree2"
  by (auto simp: tree_ok_def node_ok_def child_names_def example_defs name_ok_def split: if_splits)

lemma example_name: "\<forall>x \<in> set ([] @ [''f'']). name_ok x" "render ([] @ [''f'']) = ''/f''"
  by (simp_all add: name_ok_def render_def)

lemma example_path: "abs_normalize ''/f'' None s = Some (render ([] @ [''f'']), s)"
  using abs_normalize_render [OF example_name(1), of None s] unfolding example_name(2) by simp

theorem vfs_create_correct_witness:
  "\<exists>i s'. vfs_create ''/f'' None example_tree = Some (Some i, s') \<and> tree_ok s'
     \<and> resolve_walk (fs_root s') [''f''] s' = Some i"
  using vfs_create_correct [OF example_tree example_path example_name(1), of 1 example_root]
  by (simp add: example_defs vfs_check_access_def current_cred_def vfs_finddir_def ramfs_finddir_def) metis

theorem vfs_delete_correct_witness:
  "\<exists>s'. vfs_delete ''/f'' None example_tree2 = Some (0, s') \<and> tree_ok s' \<and> fs_nodes s' 2 = None"
proof -
  have r: "vfs_resolve ''/f'' None example_tree2 = Some (Some 2, rooted example_tree2)"
    using vfs_resolve_spec [OF example_tree2 example_path example_name(1)]
    by (simp add: example_defs vfs_finddir_def ramfs_finddir_def)
  have n: "fs_nodes example_tree2 2 = Some (fresh_node (Some 1) ''f'' VFS_FILE 5)" by (simp add: example_tree2_def)
  from vfs_delete_correct [OF example_tree2 r n, of 0] show ?thesis
    by (auto simp: example_defs vfs_check_access_def current_cred_def Let_def)
qed

theorem vfs_get_path_resolves_witness:
  "vfs_resolve ''/f'' (Some 1) example_tree2 = Some (Some 2, rooted example_tree2)"
proof -
  have n: "fs_nodes example_tree2 2 = Some (fresh_node (Some 1) ''f'' VFS_FILE 5)" by (simp add: example_tree2_def)
  have "vfs_get_path (Some 2) example_tree2 = Some ''/f''"
    by (simp add: vfs_get_path_def get_path_walk.simps [of 2] get_path_walk.simps [of "Suc 0"] example_defs)
  from vfs_get_path_resolves [OF example_tree2 n this] show ?thesis by (simp add: path_names_def)
qed

theorem vfs_create_long_name_lost_witness:
  "\<exists>i s'. vfs_create (SLASH # replicate 64 CHR ''a'') None example_tree = Some (Some i, s')
     \<and> vfs_finddir 1 (replicate 64 CHR ''a'') s' = None"
proof -
  let ?c = "replicate 64 CHR ''a''"
  have n: "\<forall>x \<in> set ([] @ [?c]). name_ok x" by (auto simp: name_ok_def dest: arg_cong [of _ _ length])
  have e: "render ([] @ [?c]) = SLASH # ?c" by (simp add: render_def)
  have a: "abs_normalize (SLASH # ?c) None example_tree = Some (render ([] @ [?c]), example_tree)"
    using abs_normalize_render [OF n, of None example_tree] unfolding e by simp
  have "63 < length ?c" "resolve_walk (fs_root example_tree) [] example_tree = Some 1"
    "fs_nodes example_tree 1 = Some example_root" "n_type example_root = VFS_DIRECTORY"
    "vfs_check_access example_root ACC_WRITE example_tree" "vfs_finddir 1 ?c example_tree = None"
    "length (n_children example_root) < VFS_MAX_CHILDREN" "fs_grants example_tree (fs_allocs example_tree)"
    by (simp_all add: example_defs vfs_check_access_def current_cred_def vfs_finddir_def ramfs_finddir_def)
  from vfs_create_long_name_lost [OF example_tree a n this] show ?thesis by blast
qed

end
