(* ===== verification/Diskfs.thy ===== *)
theory Diskfs
  imports Vfs_Tree
begin

text \<open>
  Persistence of the node tree, \<^verbatim>\<open>fs/diskfs.c\<close>: the tree is written to the last sectors of the disk
  as one image of node records in preorder, and rebuilt from it at boot. The recursive walks are
  loops over a worklist of the nodes still to visit, in the same order. The result \<open>None\<close> of an
  operation is an access outside an array, a dangling node, or a doubling loop that does not end.
\<close>

section \<open>Placement\<close>

abbreviation DISKFS_MAGIC :: u32 where "DISKFS_MAGIC \<equiv> 0x53464B4D"
abbreviation DISKFS_VERSION :: u32 where "DISKFS_VERSION \<equiv> 2"
abbreviation DISKFS_MAX_NODES :: nat where "DISKFS_MAX_NODES \<equiv> 16384"
abbreviation DISKFS_MAX_IMAGE :: u32 where "DISKFS_MAX_IMAGE \<equiv> 0x4000000"

definition diskfs_base_lba :: "disk \<Rightarrow> u32" where
  "diskfs_base_lba d =
     (let total = ata_total_sectors d
      in if total > DISKFS_TAIL_SECTORS + BOOT_RESERVE_SECTORS then total - DISKFS_TAIL_SECTORS
         else let base = total - total div 4
              in if base \<ge> total then (if total > 1 then total - 1 else 0) else base)"

section \<open>The growing buffer\<close>

record buffer_t =
  b_bytes :: "u8 list"     \<comment> \<open>the \<^verbatim>\<open>len\<close> bytes written\<close>
  b_cap :: u32
  b_oom :: bool

definition b_len :: "buffer_t \<Rightarrow> u32" where
  "b_len b = of_nat (length (b_bytes b))"

partial_function (option) grow_cap :: "u32 \<Rightarrow> u32 \<Rightarrow> u32 option" where
  "grow_cap newcap need = (if newcap < need then grow_cap (newcap * 2) need else Some newcap)"

definition buf_ensure :: "buffer_t \<Rightarrow> u32 \<Rightarrow> fs \<Rightarrow> (buffer_t \<times> fs) option" where
  "buf_ensure b extra s =
     (if b_oom b \<or> b_len b + extra \<le> b_cap b then Some (b, s)
      else do {
        newcap \<leftarrow> grow_cap (if b_cap b \<noteq> 0 then b_cap b * 2 else 4096) (b_len b + extra);
        let (ok, s) = kalloc s;
        Some (if ok then b\<lparr>b_cap := newcap\<rparr> else b\<lparr>b_oom := True\<rparr>, s)
      })"

definition buf_put :: "buffer_t \<Rightarrow> u8 list \<Rightarrow> fs \<Rightarrow> (buffer_t \<times> fs) option" where
  "buf_put b src s =
     do {
       (b, s) \<leftarrow> buf_ensure b (of_nat (length src)) s;
       if b_oom b then Some (b, s)
       else if length (b_bytes b) + length src > unat (b_cap b) then None
       else Some (b\<lparr>b_bytes := b_bytes b @ src\<rparr>, s)
     }"

fun buf_puts :: "buffer_t \<Rightarrow> u8 list list \<Rightarrow> fs \<Rightarrow> (buffer_t \<times> fs) option" where
  "buf_puts b [] s = Some (b, s)"
| "buf_puts b (c # cs) s = do { (b, s) \<leftarrow> buf_put b c s; buf_puts b cs s }"

definition u32_bytes :: "u32 \<Rightarrow> u8 list" where
  "u32_bytes v = [ucast v, ucast (drop_bit 8 v), ucast (drop_bit 16 v), ucast (drop_bit 24 v)]"

definition buf_u32 :: "buffer_t \<Rightarrow> u32 \<Rightarrow> fs \<Rightarrow> (buffer_t \<times> fs) option" where
  "buf_u32 b v s = buf_put b (u32_bytes v) s"

section \<open>Saving\<close>

definition on_disk :: "vnode \<Rightarrow> bool" where
  "on_disk n = (n_disk_backed n \<and> n_blocks n \<noteq> None)"

definition data_size :: "vnode \<Rightarrow> u32" where
  "data_size n = (if n_type n = VFS_FILE then n_size n else 0)"

text \<open>What is put into the buffer for one node, piece by piece; \<open>None\<close>: the payload is longer than its buffer.\<close>

definition payload_pieces :: "vnode \<Rightarrow> u8 list list option" where
  "payload_pieces n =
     (if on_disk n then Some (u32_bytes (of_nat (length (block_list n))) # map u32_bytes (block_list n))
      else case n_data n of
             Some dt \<Rightarrow>
               if data_size n \<noteq> 0
               then if unat (data_size n) \<le> length dt then Some [take (unat (data_size n)) dt] else None
               else Some []
           | None \<Rightarrow> Some [])"

definition header_pieces :: "vnode \<Rightarrow> u32 \<Rightarrow> u8 list list" where
  "header_pieces n parent_idx =
     [u32_bytes parent_idx, u32_bytes (n_type n), u32_bytes (n_permissions n), u32_bytes (n_owner_uid n), u32_bytes (n_owner_gid n),
      u32_bytes (data_size n), u32_bytes (of_nat (length (n_name n))), u32_bytes (if on_disk n then 1 else 0), string_bytes (n_name n)]"

function serialize_node :: "(nat \<times> u32) list \<Rightarrow> buffer_t \<Rightarrow> nat \<Rightarrow> fs \<Rightarrow> (buffer_t \<times> nat \<times> fs) option" where
  "serialize_node [] b count s = Some (b, count, s)"
| "serialize_node ((i, parent_idx) # todo) b count s =
     (if count \<ge> DISKFS_MAX_NODES then Some (b, count, s)
      else case fs_nodes s i of
             None \<Rightarrow> None
           | Some n \<Rightarrow>
               (case payload_pieces n of
                  None \<Rightarrow> None
                | Some ps \<Rightarrow>
                    (case buf_puts b (header_pieces n parent_idx @ ps) s of
                       None \<Rightarrow> None
                     | Some (b, s) \<Rightarrow>
                         serialize_node (map (\<lambda>c. (c, of_nat count)) (n_children n) @ todo) b (count + 1) s)))"
  by pat_completeness auto
termination
  by (relation "measure (\<lambda>(todo, b, count, s). DISKFS_MAX_NODES - count)") auto

definition diskfs_available :: "fs \<Rightarrow> bool" where
  "diskfs_available s = ata_present (fs_disk s)"

definition diskfs_total_bytes :: "fs \<Rightarrow> u32" where
  "diskfs_total_bytes s = (if \<not> ata_present (fs_disk s) then 0 else ata_total_sectors (fs_disk s) * 512)"

definition diskfs_total_mb :: "fs \<Rightarrow> u32" where
  "diskfs_total_mb s = (if \<not> ata_present (fs_disk s) then 0 else ata_total_sectors (fs_disk s) div 2048)"

partial_function (option) measure_node :: "nat list \<Rightarrow> u32 \<Rightarrow> fs \<Rightarrow> u32 option" where
  "measure_node todo bytes s =
     (case todo of
        [] \<Rightarrow> Some bytes
      | i # todo \<Rightarrow>
          (case fs_nodes s i of
             None \<Rightarrow> None
           | Some n \<Rightarrow>
               let bytes = bytes + 32 + of_nat (length (n_name n));
                   bytes = (if n_type n = VFS_FILE
                            then (if on_disk n then bytes + (4 + of_nat (length (block_list n)) * 4) else bytes + n_size n)
                            else bytes)
               in measure_node (n_children n @ todo) bytes s))"

definition diskfs_used_bytes :: "fs \<Rightarrow> u32 option" where
  "diskfs_used_bytes s =
     (if bf_available (fs_blockfs s) then Some (bf_used_blocks (fs_blockfs s) * BLOCK_SIZE)
      else case fs_root s of
             None \<Rightarrow> Some 0
           | Some root \<Rightarrow> map_option ((+) 16) (measure_node [root] 0 s))"

text \<open>The image once the walk is done: the superblock is patched, the tail of the last sector zeroed.\<close>

definition finished_image :: "u8 list \<Rightarrow> u32 \<Rightarrow> nat \<Rightarrow> u8 list" where
  "finished_image bytes node_count sectors =
     splice 12 (u32_bytes (of_nat (length bytes))) (splice 8 (u32_bytes node_count) bytes)
       @ replicate (sectors * 512 - length bytes) 0"

definition write_image :: "buffer_t \<Rightarrow> nat \<Rightarrow> fs \<Rightarrow> (int \<times> fs) option" where
  "write_image b count s =
     (let sectors = (b_len b + 512 - 1) div 512
      in do {
        let img = finished_image (b_bytes b) (of_nat count) (unat sectors);
        (b, s) \<leftarrow> buf_ensure b (sectors * 512 - b_len b) s;
        let base = diskfs_base_lba (fs_disk s);
        if b_oom b then Some (-4, s)
        else if sectors > DISKFS_TAIL_SECTORS then Some (-5, s)
        else if base + sectors > ata_total_sectors (fs_disk s) then Some (-6, s)
        else case write_chunks ata_write_sectors 32 base 0 (unat sectors) img (fs_disk s) of
               (False, d) \<Rightarrow> Some (-7, s\<lparr>fs_disk := d\<rparr>)
             | (True, d) \<Rightarrow>
                 let s = s\<lparr>fs_disk := d\<rparr>
                 in if bf_available (fs_blockfs s)
                    then let (ok, s) = kalloc s
                         in Some (0, s\<lparr>fs_disk := snd (blockfs_flush_bitmap ok (fs_blockfs s) (fs_disk s))\<rparr>)
                    else Some (0, s)
      })"

definition diskfs_save :: "fs \<Rightarrow> (int \<times> fs) option" where
  "diskfs_save s =
     (if \<not> ata_present (fs_disk s) then Some (-1, s)
      else case fs_root s of
             None \<Rightarrow> Some (-2, s)
           | Some root \<Rightarrow>
               let (ok, s) = kalloc s
               in if \<not> ok then Some (-3, s)
                  else do {
                    (b, s) \<leftarrow> buf_puts \<lparr>b_bytes = [], b_cap = 0, b_oom = False\<rparr>
                      [u32_bytes DISKFS_MAGIC, u32_bytes DISKFS_VERSION, u32_bytes 0, u32_bytes 0] s;
                    (b, count, s) \<leftarrow> serialize_node [(root, - 1)] b 0 s;
                    if b_oom b then Some (-4, s)
                    else if b_len b > DISKFS_MAX_IMAGE then Some (-5, s)
                    else write_image b count s
                  })"

section \<open>Loading\<close>

text \<open>The nodes below the root are freed; a node listed twice would be freed twice.\<close>

partial_function (option) wipe_list :: "nat list \<Rightarrow> fs \<Rightarrow> fs option" where
  "wipe_list todo s =
     (case todo of
        [] \<Rightarrow> Some s
      | c # todo \<Rightarrow>
          (case fs_nodes s c of
             None \<Rightarrow> None
           | Some n \<Rightarrow> wipe_list (n_children n @ todo) (s\<lparr>fs_nodes := (fs_nodes s)(c := None)\<rparr>)))"

definition wipe_children :: "nat \<Rightarrow> fs \<Rightarrow> fs option" where
  "wipe_children i s =
     do {
       n \<leftarrow> fs_nodes s i;
       s \<leftarrow> wipe_list (n_children n) s;
       Some (upd_node (Some i) (\<lambda>n. n\<lparr>n_children := []\<rparr>) s)
     }"

definition rd_u32 :: "u8 list \<Rightarrow> nat \<Rightarrow> u32 option" where
  "rd_u32 p off =
     (if off + 4 \<le> length p
      then Some (ucast (p ! off) OR push_bit 8 (ucast (p ! (off + 1))) OR
                 push_bit 16 (ucast (p ! (off + 2))) OR push_bit 24 (ucast (p ! (off + 3))))
      else None)"

record header =
  h_parent :: u32
  h_type :: u32
  h_perms :: u32
  h_uid :: u32
  h_gid :: u32
  h_size :: u32
  h_name_len :: u32
  h_flags :: u32

definition rd_header :: "u8 list \<Rightarrow> nat \<Rightarrow> header option" where
  "rd_header img off =
     do {
       parent_idx \<leftarrow> rd_u32 img off;
       type \<leftarrow> rd_u32 img (off + 4);
       perms \<leftarrow> rd_u32 img (off + 8);
       uid \<leftarrow> rd_u32 img (off + 12);
       gid \<leftarrow> rd_u32 img (off + 16);
       size \<leftarrow> rd_u32 img (off + 20);
       name_len \<leftarrow> rd_u32 img (off + 24);
       flags \<leftarrow> rd_u32 img (off + 28);
       Some \<lparr>h_parent = parent_idx, h_type = type, h_perms = perms, h_uid = uid, h_gid = gid, h_size = size,
             h_name_len = name_len, h_flags = flags\<rparr>
     }"

text \<open>The node of a record: the root for a negative parent index, otherwise a new child.\<close>

definition place_node :: "header \<Rightarrow> string \<Rightarrow> nat list \<Rightarrow> nat \<Rightarrow> fs \<Rightarrow> (int + nat) \<times> fs" where
  "place_node h name m root s =
     (if sint (h_parent h) < 0
      then (Inr root, upd_node (Some root) (\<lambda>n. n\<lparr>n_name := (if name \<noteq> [] then name else ''/'')\<rparr>) s)
      else if sint (h_parent h) \<ge> int (length m) then (Inl (-7), s)
      else case ramfs_create_node (Some (m ! unat (h_parent h))) name (h_type h) s of
             (None, s) \<Rightarrow> (Inl (-8), s)
           | (Some i, s) \<Rightarrow> (Inr i, s))"

definition load_payload :: "nat \<Rightarrow> header \<Rightarrow> u8 list \<Rightarrow> u32 \<Rightarrow> u32 \<Rightarrow> fs \<Rightarrow> ((int + u32) \<times> fs) option" where
  "load_payload node h img image_bytes off s =
     (if h_flags h AND 1 \<noteq> 0
      then if off + 4 > image_bytes then Some (Inl (-7), s)
           else do {
             bc \<leftarrow> rd_u32 img (unat off);
             let off = off + 4;
             if off + bc * 4 > image_bytes then Some (Inl (-7), s)
             else let (ok, s) = (if bc \<noteq> 0 then kalloc s else (True, s))
                  in if \<not> ok then Some (Inl (-9), s)
                     else if unat bc * 4 \<ge> 4294967296 then None
                     else do {
                       bl \<leftarrow> those (map (\<lambda>j. rd_u32 img (unat off + j * 4)) [0..<unat bc]);
                       Some (Inr (off + bc * 4),
                         upd_node (Some node) (\<lambda>n. n\<lparr>n_blocks := (if bc \<noteq> 0 then Some bl else n_blocks n),
                           n_disk_backed := True, n_size := h_size h\<rparr>) s)
                     }
           }
      else if h_size h \<noteq> 0
      then if off + h_size h > image_bytes then Some (Inl (-7), s)
           else let (ok, s) = kalloc s
                in if \<not> ok then Some (Inl (-9), s)
                   else if unat off + unat (h_size h) > length img then None
                   else Some (Inr (off + h_size h),
                     upd_node (Some node) (\<lambda>n. n\<lparr>n_data := Some (slice (unat off) (unat (h_size h)) img),
                       n_capacity := h_size h, n_size := h_size h\<rparr>) s)
      else Some (Inr off, s))"

text \<open>The name is copied into a 64-byte array and read back as a C string.\<close>

definition name_at :: "u8 list \<Rightarrow> nat \<Rightarrow> nat \<Rightarrow> string option" where
  "name_at img off n =
     (if off + n \<le> length img
      then Some (takeWhile (\<lambda>c. c \<noteq> CHR 0x00) (map (\<lambda>b. char_of (unat b)) (slice off n img))) else None)"

definition load_node :: "nat list \<Rightarrow> u8 list \<Rightarrow> u32 \<Rightarrow> u32 \<Rightarrow> nat \<Rightarrow> fs \<Rightarrow> ((int + (nat \<times> u32)) \<times> fs) option" where
  "load_node m img image_bytes off root s =
     (if off + 32 > image_bytes then Some (Inl (-7), s)
      else do {
        h \<leftarrow> rd_header img (unat off);
        let off = off + 32;
        if off + h_name_len h > image_bytes \<or> h_name_len h \<ge> 64 then Some (Inl (-7), s)
        else do {
          name \<leftarrow> name_at img (unat off) (unat (h_name_len h));
          let off = off + h_name_len h;
          case place_node h name m root s of
            (Inl rc, s) \<Rightarrow> Some (Inl rc, s)
          | (Inr node, s) \<Rightarrow>
              let s = upd_node (Some node) (\<lambda>n. n\<lparr>n_type := h_type h, n_permissions := h_perms h,
                        n_owner_uid := h_uid h, n_owner_gid := h_gid h\<rparr>) s
              in map_option (\<lambda>(r, s). (map_sum id (Pair node) r, s)) (load_payload node h img image_bytes off s)
        }
      })"

fun load_nodes :: "nat \<Rightarrow> nat list \<Rightarrow> u8 list \<Rightarrow> u32 \<Rightarrow> u32 \<Rightarrow> nat \<Rightarrow> fs \<Rightarrow> (int \<times> fs) option" where
  "load_nodes 0 m img image_bytes off root s = Some (1, s)"
| "load_nodes (Suc k) m img image_bytes off root s =
     (case load_node m img image_bytes off root s of
        None \<Rightarrow> None
      | Some (Inl rc, s) \<Rightarrow> Some (rc, s)
      | Some (Inr (node, off), s) \<Rightarrow> load_nodes k (m @ [node]) img image_bytes off root s)"

definition load_image :: "u32 \<Rightarrow> u32 \<Rightarrow> u32 \<Rightarrow> fs \<Rightarrow> (int \<times> fs) option" where
  "load_image base node_count image_bytes s =
     (let sectors = (image_bytes + 512 - 1) div 512;
          (ok, s) = kalloc s
      in if \<not> ok then Some (-4, s)
         else case read_chunks ata_read_sectors 255 base 0 (unat sectors) [] (fs_disk s) of
                None \<Rightarrow> Some (-5, s)
              | Some img \<Rightarrow>
                  let (ok, s) = kalloc s
                  in if \<not> ok then Some (-6, s)
                     else do {
                       root \<leftarrow> fs_root s;
                       s \<leftarrow> wipe_children root s;
                       load_nodes (unat node_count) [] img image_bytes 16 root s
                     })"

definition diskfs_load :: "fs \<Rightarrow> (int \<times> fs) option" where
  "diskfs_load s =
     (if \<not> ata_present (fs_disk s) then Some (-1, s)
      else let base = diskfs_base_lba (fs_disk s)
           in case ata_read_sectors base 1 (fs_disk s) of (rc, sb) \<Rightarrow>
                if rc \<noteq> 0 then Some (-2, s)
                else do {
                  magic \<leftarrow> rd_u32 sb 0;
                  version \<leftarrow> rd_u32 sb 4;
                  node_count \<leftarrow> rd_u32 sb 8;
                  image_bytes \<leftarrow> rd_u32 sb 12;
                  if magic \<noteq> DISKFS_MAGIC \<or> version \<noteq> DISKFS_VERSION then Some (0, s)
                  else if node_count = 0 \<or> node_count > of_nat DISKFS_MAX_NODES then Some (-3, s)
                  else if image_bytes < 16 \<or> image_bytes > DISKFS_MAX_IMAGE then Some (-3, s)
                  else load_image base node_count image_bytes s
                })"

end
