(* ===== verification/Diskfs_Image.thy ===== *)
theory Diskfs_Image
  imports Diskfs
begin

text \<open>
  What \<^verbatim>\<open>diskfs_save\<close> leaves on the disk and what \<^verbatim>\<open>diskfs_load\<close> rebuilds from it: the bytes of the
  image as a function of the tree, the order in which the walk visits the nodes, and the tree that
  comes back.
\<close>

section \<open>Little-endian words\<close>

lemma rd_u32_bytes:
  assumes "off + 4 \<le> length p" "slice off 4 p = u32_bytes v"
  shows "rd_u32 p off = Some v"
proof -
  have nth: "p ! (off + i) = u32_bytes v ! i" if "i < 4" for i
    using nth_slice [of i 4 off p] assms that by simp
  have b: "p ! off = ucast v" "p ! (off + 1) = ucast (drop_bit 8 v)" "p ! (off + 2) = ucast (drop_bit 16 v)"
    "p ! (off + 3) = ucast (drop_bit 24 v)"
    using nth [of 0] nth [of 1] nth [of 2] nth [of 3] by (simp_all add: u32_bytes_def)
  have "ucast (ucast v :: u8) OR push_bit 8 (ucast (ucast (drop_bit 8 v) :: u8)) OR
      push_bit 16 (ucast (ucast (drop_bit 16 v) :: u8)) OR push_bit 24 (ucast (ucast (drop_bit 24 v) :: u8)) = v"
  proof (rule bit_word_eqI, goal_cases)
    case (1 n)
    have "n - 16 < 8" if "\<not> bit v (24 + (n - 24))" "bit v n" using that by (cases "n < 24") auto
    then show ?case using 1 by (auto simp: bit_simps)
  qed
  then show ?thesis using assms(1) by (simp only: rd_u32_def b if_True)
qed

lemma length_u32_bytes [simp]: "length (u32_bytes v) = 4"
  by (simp add: u32_bytes_def)

lemma slice_prefix:
  assumes "drop off p = xs @ ys" "length xs = n"
  shows "slice off n p = xs"
  using assms by (simp add: slice_def)

lemma drop_append_le:
  assumes "drop off p = xs @ ys"
  shows "drop (off + length xs) p = ys" "off + length xs \<le> length p \<or> xs = []"
proof -
  show "drop (off + length xs) p = ys" using arg_cong [OF assms, of "drop (length xs)"] by (simp add: add.commute)
  show "off + length xs \<le> length p \<or> xs = []" using arg_cong [OF assms, of length] by (cases xs) auto
qed

lemma rd_u32_at:
  assumes "drop off p = u32_bytes v @ ys"
  shows "rd_u32 p off = Some v" "drop (off + 4) p = ys"
proof -
  have "length p - off \<ge> 4" using arg_cong [OF assms, of length] by simp
  then show "rd_u32 p off = Some v" using slice_prefix [OF assms, of 4] by (intro rd_u32_bytes) simp_all
  show "drop (off + 4) p = ys" using drop_append_le(1) [OF assms] by simp
qed

section \<open>The buffer\<close>

text \<open>The capacity is a power of two, so doubling reaches what is needed.\<close>

definition buffer_ok :: "buffer_t \<Rightarrow> bool" where
  "buffer_ok b = (\<not> b_oom b \<and> length (b_bytes b) \<le> unat (b_cap b) \<and> (b_cap b = 0 \<or> (\<exists>j. 12 \<le> j \<and> j \<le> 30 \<and> b_cap b = 2 ^ j)))"

lemma unat_pow2_u32: "j < 32 \<Longrightarrow> unat (2 ^ j :: u32) = 2 ^ j"
  using unat_of_nat_u32 [of "2 ^ j"] power_strict_increasing [of j 32 "2 :: nat"] by simp

lemma grow_cap_doubles:
  assumes "unat need \<le> 2 ^ 30" "k \<le> 30"
  shows "\<exists>j. k \<le> j \<and> j \<le> 30 \<and> grow_cap (2 ^ k) need = Some (2 ^ j) \<and> unat need \<le> 2 ^ j"
  using assms(2)
proof (induction "30 - k" arbitrary: k)
  case 0
  have "unat (2 ^ 30 :: u32) = 2 ^ 30" by simp
  then have "\<not> (2 ^ 30 :: u32) < need" using assms(1) by (simp add: word_less_nat_alt)
  then show ?case using 0 assms(1) by (subst grow_cap.simps) (auto intro!: exI [of _ 30])
next
  case (Suc n)
  have u: "unat (2 ^ k :: u32) = 2 ^ k" using Suc.prems by (simp add: unat_pow2_u32)
  show ?case
  proof (cases "2 ^ k < need")
    case True
    obtain j where "Suc k \<le> j" "j \<le> 30" "grow_cap (2 ^ Suc k) need = Some (2 ^ j)" "unat need \<le> 2 ^ j"
    proof -
      have "n = 30 - Suc k" "Suc k \<le> 30" using Suc.hyps(2) by simp_all
      then show ?thesis using Suc.hyps(1) [of "Suc k"] that by blast
    qed
    moreover have "grow_cap (2 ^ k) need = grow_cap (2 ^ Suc k) need"
      using True by (subst grow_cap.simps) (simp add: mult.commute)
    ultimately show ?thesis by (metis Suc_leD)
  next
    case False
    then have "unat need \<le> 2 ^ k" using u by (simp add: word_less_nat_alt)
    then show ?thesis using False Suc.prems by (subst grow_cap.simps) auto
  qed
qed

abbreviation grants_all :: "fs \<Rightarrow> bool" where
  "grants_all s \<equiv> \<forall>k. fs_grants s k"

lemma buf_ensure_ok:
  assumes "buffer_ok b" "grants_all s" "length (b_bytes b) + unat extra \<le> 2 ^ 30"
  obtains b' k where "buf_ensure b extra s = Some (b', s\<lparr>fs_allocs := k\<rparr>)" "buffer_ok b'" "b_bytes b' = b_bytes b"
    "length (b_bytes b) + unat extra \<le> unat (b_cap b')"
proof -
  have l: "unat (b_len b) = length (b_bytes b)" using assms(3) by (simp add: b_len_def)
  have n: "unat (b_len b + extra) = length (b_bytes b) + unat extra"
    using l assms(3) by (subst unat_plus_u32) simp_all
  show ?thesis
  proof (cases "b_len b + extra \<le> b_cap b")
    case True
    then show ?thesis
      using that [of b "fs_allocs s"] assms(1) n by (simp add: buf_ensure_def word_le_nat_alt)
  next
    case False
    obtain k where k: "12 \<le> k" "k \<le> 30" "(if b_cap b \<noteq> 0 then b_cap b * 2 else 4096) = 2 ^ k"
    proof (cases "b_cap b = 0")
      case True
      then show ?thesis using that [of 12] by simp
    next
      case nz: False
      then obtain j where j: "12 \<le> j" "j \<le> 30" "b_cap b = 2 ^ j" using assms(1) by (auto simp: buffer_ok_def)
      have "j \<noteq> 30"
      proof
        assume "j = 30"
        then have "unat (b_cap b) = 2 ^ 30" using j by simp
        then show False using False n assms(3) by (simp add: word_le_nat_alt)
      qed
      then show ?thesis using that [of "Suc j"] j nz by (simp add: mult.commute)
    qed
    obtain j where j: "k \<le> j" "j \<le> 30" "grow_cap (2 ^ k) (b_len b + extra) = Some (2 ^ j)" "unat (b_len b + extra) \<le> 2 ^ j"
      using grow_cap_doubles [of "b_len b + extra" k] n assms(3) k by auto
    have u: "unat (2 ^ j :: u32) = 2 ^ j" using j by (simp add: unat_pow2_u32)
    have "buf_ensure b extra s = Some (b\<lparr>b_cap := 2 ^ j\<rparr>, s\<lparr>fs_allocs := fs_allocs s + 1\<rparr>)"
      using False assms(1,2) k(3) j(3) by (simp add: buf_ensure_def kalloc_def buffer_ok_def)
    moreover have "buffer_ok (b\<lparr>b_cap := 2 ^ j\<rparr>)"
    proof -
      have "12 \<le> j" "length (b_bytes b) \<le> 2 ^ j" using j k(1) n by linarith+
      then show ?thesis using assms(1) j(2) u unfolding buffer_ok_def by (simp del: power_numeral) blast
    qed
    moreover have "length (b_bytes b) + unat extra \<le> unat (b_cap (b\<lparr>b_cap := 2 ^ j\<rparr>))"
      using j(4) unfolding n by (simp add: u)
    ultimately show ?thesis by (intro that [of "b\<lparr>b_cap := 2 ^ j\<rparr>" "fs_allocs s + 1"]) simp_all
  qed
qed

lemma buf_put_ok:
  assumes "buffer_ok b" "grants_all s" "length (b_bytes b) + length src \<le> 2 ^ 30"
  obtains b' k where "buf_put b src s = Some (b', s\<lparr>fs_allocs := k\<rparr>)" "buffer_ok b'" "b_bytes b' = b_bytes b @ src"
proof -
  have u: "unat (of_nat (length src) :: u32) = length src" using assms(3) by simp
  obtain b1 k where e: "buf_ensure b (of_nat (length src)) s = Some (b1, s\<lparr>fs_allocs := k\<rparr>)" "buffer_ok b1"
    "b_bytes b1 = b_bytes b" "length (b_bytes b) + length src \<le> unat (b_cap b1)"
    using buf_ensure_ok [OF assms(1,2), of "of_nat (length src)"] assms(3) u by metis
  have "buf_put b src s = Some (b1\<lparr>b_bytes := b_bytes b1 @ src\<rparr>, s\<lparr>fs_allocs := k\<rparr>)"
    using e by (simp add: buf_put_def buffer_ok_def)
  moreover have "buffer_ok (b1\<lparr>b_bytes := b_bytes b1 @ src\<rparr>)" using e by (simp add: buffer_ok_def)
  ultimately show ?thesis using that e(3) by simp
qed

lemma buf_puts_ok:
  assumes "buffer_ok b" "grants_all s" "length (b_bytes b) + length (concat cs) \<le> 2 ^ 30"
  shows "\<exists>b' k. buf_puts b cs s = Some (b', s\<lparr>fs_allocs := k\<rparr>) \<and> buffer_ok b' \<and> b_bytes b' = b_bytes b @ concat cs"
  using assms
proof (induction cs arbitrary: b s)
  case Nil
  then show ?case by (auto intro!: exI [of _ "fs_allocs s"])
next
  case (Cons c cs)
  obtain b1 k where p: "buf_put b c s = Some (b1, s\<lparr>fs_allocs := k\<rparr>)" "buffer_ok b1" "b_bytes b1 = b_bytes b @ c"
    using buf_put_ok [OF Cons.prems(1,2), of c] Cons.prems(3) by auto
  from Cons.IH [of b1 "s\<lparr>fs_allocs := k\<rparr>"] show ?case using p Cons.prems by simp
qed

section \<open>The walk\<close>

text \<open>The nodes in the order of their records, with the parent's index each record carries.\<close>

function walk :: "(nat \<Rightarrow> vnode option) \<Rightarrow> (nat \<times> u32) list \<Rightarrow> nat \<Rightarrow> (nat \<times> u32) list" where
  "walk N [] c = []"
| "walk N ((i, p) # todo) c =
     (if c \<ge> DISKFS_MAX_NODES then []
      else case N i of
             None \<Rightarrow> []
           | Some n \<Rightarrow> (i, p) # walk N (map (\<lambda>x. (x, of_nat c)) (n_children n) @ todo) (c + 1))"
  by pat_completeness auto
termination
  by (relation "measure (\<lambda>(N, todo, c). DISKFS_MAX_NODES - c)") auto

definition node_bytes :: "vnode \<Rightarrow> u32 \<Rightarrow> u8 list" where
  "node_bytes n p = concat (header_pieces n p @ the (payload_pieces n))"

definition record_of :: "(nat \<Rightarrow> vnode option) \<Rightarrow> nat \<times> u32 \<Rightarrow> u8 list" where
  "record_of N e = node_bytes (the (N (fst e))) (snd e)"

text \<open>A node whose contents are where its fields say they are.\<close>

definition storable :: "vnode \<Rightarrow> bool" where
  "storable n = ((if n_disk_backed n then n_type n = VFS_FILE \<and> (n_blocks n = None \<longrightarrow> n_size n = 0)
                 else unat (data_size n) \<le> length (data_bytes n))
     \<and> n_name n \<noteq> [] \<and> length (n_name n) < 64 \<and> CHR 0x00 \<notin> set (n_name n))"

definition all_storable :: "fs \<Rightarrow> bool" where
  "all_storable s = (\<forall>i n. fs_nodes s i = Some n \<longrightarrow> storable n)"

lemma all_storableD: "all_storable s \<Longrightarrow> fs_nodes s i = Some n \<Longrightarrow> storable n"
  by (simp add: all_storable_def)

lemma storable_payload: "storable n \<Longrightarrow> payload_pieces n \<noteq> None"
  by (auto simp: storable_def payload_pieces_def data_bytes_def on_disk_def data_size_def split: if_splits option.splits)

lemma serialize_walk:
  assumes "tree_ok s" "all_storable s" "grants_all s"
    and "buffer_ok b" "\<forall>e \<in> set todo. fs_nodes s (fst e) \<noteq> None"
    and "length (b_bytes b) + length (concat (map (record_of (fs_nodes s)) (walk (fs_nodes s) todo c))) \<le> 2 ^ 30"
  shows "\<exists>b' k'. serialize_node todo b c (s\<lparr>fs_allocs := k\<rparr>) = Some (b', c + length (walk (fs_nodes s) todo c), s\<lparr>fs_allocs := k'\<rparr>)
    \<and> buffer_ok b' \<and> b_bytes b' = b_bytes b @ concat (map (record_of (fs_nodes s)) (walk (fs_nodes s) todo c))"
  using assms(4-)
proof (induction "fs_nodes s" todo c arbitrary: b k rule: walk.induct)
  case (1 c)
  then show ?case by auto
next
  case (2 i p todo c)
  show ?case
  proof (cases "c \<ge> DISKFS_MAX_NODES")
    case True
    then show ?thesis using 2(2) by auto
  next
    case False
    obtain n where n: "fs_nodes s i = Some n" using 2(3) by auto
    obtain ps where ps: "payload_pieces n = Some ps" using storable_payload [OF all_storableD [OF assms(2) n]] by auto
    let ?cs = "header_pieces n p @ ps" and ?todo = "map (\<lambda>x. (x, of_nat c)) (n_children n) @ todo"
    have w: "walk (fs_nodes s) ((i, p) # todo) c = (i, p) # walk (fs_nodes s) ?todo (c + 1)" using False n by simp
    have r: "record_of (fs_nodes s) (i, p) = concat ?cs" using n ps by (simp add: record_of_def node_bytes_def)
    have le: "length (b_bytes b @ concat ?cs) + length (concat (map (record_of (fs_nodes s)) (walk (fs_nodes s) ?todo (c + 1)))) \<le> 2 ^ 30"
      using 2(4) unfolding w list.map concat.simps r by simp
    obtain b1 k1 where b1: "buf_puts b ?cs (s\<lparr>fs_allocs := k\<rparr>) = Some (b1, s\<lparr>fs_allocs := k1\<rparr>)" "buffer_ok b1"
      "b_bytes b1 = b_bytes b @ concat ?cs"
      using buf_puts_ok [OF 2(2), of "s\<lparr>fs_allocs := k\<rparr>" ?cs] assms(3) le by auto
    have ex: "\<forall>e \<in> set ?todo. fs_nodes s (fst e) \<noteq> None"
      using 2(3) node_okD(6) [OF tree_okD [OF assms(1) n]] by fastforce
    have step: "serialize_node ((i, p) # todo) b c (s\<lparr>fs_allocs := k\<rparr>) = serialize_node ?todo b1 (c + 1) (s\<lparr>fs_allocs := k1\<rparr>)"
      using False n ps b1(1) by simp
    from 2(1) [OF False n b1(2) ex, of k1] le b1(3) show ?thesis
      unfolding step w list.map concat.simps r by auto
  qed
qed

section \<open>The order of the records\<close>

text \<open>
  \<open>D\<close> are the entries whose records are written, \<open>T\<close> those still to come: no node occurs twice, every
  entry's parent index names a written entry, and the children of a written node are, in order,
  the entries with its index.
\<close>

definition kids :: "(nat \<times> u32) list \<Rightarrow> nat \<Rightarrow> nat list" where
  "kids E j = map fst (filter (\<lambda>e. snd e = of_nat j) E)"

definition walk_inv :: "fs \<Rightarrow> nat \<Rightarrow> (nat \<times> u32) list \<Rightarrow> (nat \<times> u32) list \<Rightarrow> bool" where
  "walk_inv s root D T = (distinct (map fst (D @ T)) \<and> (\<forall>e \<in> set (D @ T). fs_nodes s (fst e) \<noteq> None)
     \<and> (\<forall>j < length D. \<forall>v. fs_nodes s (fst (D ! j)) = Some v \<longrightarrow> n_children v = kids (D @ T) j)
     \<and> D @ T \<noteq> [] \<and> hd (D @ T) = (root, - 1)
     \<and> (\<forall>e \<in> set (tl (D @ T)). \<exists>j < length D. snd e = of_nat j)
     \<and> (\<forall>k < length D. 0 < k \<longrightarrow> (\<exists>j < k. snd (D ! k) = of_nat j)))"

lemma walk_invD:
  assumes "walk_inv s root D T"
  shows "distinct (map fst (D @ T))" "\<And>e. e \<in> set (D @ T) \<Longrightarrow> fs_nodes s (fst e) \<noteq> None"
    "\<And>j v. j < length D \<Longrightarrow> fs_nodes s (fst (D ! j)) = Some v \<Longrightarrow> n_children v = kids (D @ T) j"
    "D @ T \<noteq> []" "hd (D @ T) = (root, - 1)"
    "\<And>e. e \<in> set (tl (D @ T)) \<Longrightarrow> \<exists>j < length D. snd e = of_nat j"
    "\<And>k. k < length D \<Longrightarrow> 0 < k \<Longrightarrow> \<exists>j < k. snd (D ! k) = of_nat j"
  using assms unfolding walk_inv_def by blast+

lemma of_nat_u32_inj:
  assumes "j < 16384" "k < 16384"
  shows "(of_nat j :: u32) = of_nat k \<longleftrightarrow> j = k"
proof
  assume "(of_nat j :: u32) = of_nat k"
  then have "unat (of_nat j :: u32) = unat (of_nat k :: u32)" by (rule arg_cong)
  then show "j = k" using assms by simp
qed simp

lemma of_nat_u32_root:
  assumes "j < 16384"
  shows "(of_nat j :: u32) \<noteq> - 1"
proof
  assume "(of_nat j :: u32) = - 1"
  then have "unat (of_nat j :: u32) = unat (- 1 :: u32)" by (rule arg_cong)
  then show False using assms by (simp add: unsigned_minus_1_eq_mask mask_eq_exp_minus_1)
qed

lemma kids_simps:
  "kids [] j = []" "kids (e # E) j = (if snd e = of_nat j then fst e # kids E j else kids E j)"
  "kids (E @ F) j = kids E j @ kids F j"
  by (simp_all add: kids_def)

lemma kids_none: "\<forall>e \<in> set E. snd e \<noteq> of_nat j \<Longrightarrow> kids E j = []"
  by (simp add: kids_def filter_empty_conv)

lemma walk_inv_kids_fresh:
  assumes "tree_ok s" "fs_root s = Some root" "walk_inv s root D ((i, p) # T)" "fs_nodes s i = Some n" "c \<in> set (n_children n)"
  shows "c \<notin> fst ` set (D @ (i, p) # T)"
proof
  let ?E = "D @ (i, p) # T"
  note I = walk_invD [OF assms(3)]
  assume "c \<in> fst ` set ?E"
  then obtain e where "e \<in> set ?E" "c = fst e" by (rule imageE)
  then obtain q where e: "(c, q) \<in> set ?E" using prod.collapse [of e] by metis
  obtain w where w: "fs_nodes s c = Some w" "n_parent w = Some i"
    using node_okD(6) [OF tree_okD [OF assms(1,4)] assms(5)] by blast
  obtain v where v: "fs_nodes s root = Some v" "n_parent v = None" using assms(1,2) by (auto simp: tree_ok_def)
  have "?E = (root, - 1) # tl ?E" using I(4,5) by (metis list.collapse)
  then have "(c, q) = (root, - 1) \<or> (c, q) \<in> set (tl ?E)" using e by (metis set_ConsD)
  moreover have "c \<noteq> root" using w v by auto
  ultimately obtain j where j: "j < length D" "q = of_nat j" using I(6) [of "(c, q)"] by auto
  obtain x where x: "fs_nodes s (fst (D ! j)) = Some x" using I(2) [of "D ! j"] j(1) by auto
  have "c \<in> set (kids ?E j)" using e j(2) by (force simp: kids_def)
  then have "c \<in> set (n_children x)" using I(3) [OF j(1) x] by simp
  then have "i = fst (D ! j)" using node_okD(6) [OF tree_okD [OF assms(1) x]] w by fastforce
  then show False using I(1) j(1) by (auto simp: image_iff dest: nth_mem)
qed

lemma walk_inv_step:
  assumes "tree_ok s" "fs_root s = Some root" "walk_inv s root D ((i, p) # T)" "fs_nodes s i = Some n" "length D < 16384"
  shows "walk_inv s root (D @ [(i, p)]) (map (\<lambda>x. (x, of_nat (length D))) (n_children n) @ T)"
proof -
  let ?d = "length D" and ?E = "D @ (i, p) # T"
  let ?new = "map (\<lambda>x. (x, of_nat ?d :: u32)) (n_children n)"
  let ?F = "(D @ [(i, p)]) @ ?new @ T"
  note I = walk_invD [OF assms(3)]
  note ok = node_okD [OF tree_okD [OF assms(1,4)]]
  have new: "fst ` set ?new = set (n_children n)" by force
  have other: "snd e \<noteq> of_nat ?d" if "e \<in> set ?E" for e
  proof (cases "e \<in> set (tl ?E)")
    case True
    then obtain j where "j < ?d" "snd e = of_nat j" using I(6) by blast
    then show ?thesis using of_nat_u32_inj [of j ?d] assms(5) by simp
  next
    case False
    then have "e = (root, - 1)" using that I(4,5) by (metis list.collapse set_ConsD)
    then show ?thesis using of_nat_u32_root [OF assms(5)] by auto
  qed
  have "distinct (map fst ?F)"
    using I(1) children_distinct [OF tree_okD [OF assms(1,4)]] walk_inv_kids_fresh [OF assms(1-4)]
    by (auto simp: comp_def image_iff)
  moreover have "\<forall>e \<in> set ?F. fs_nodes s (fst e) \<noteq> None"
    using I(2) ok(6) by fastforce
  moreover have "n_children v = kids ?F j" if "j < Suc ?d" "fs_nodes s (fst ((D @ [(i, p)]) ! j)) = Some v" for j v
  proof (cases "j = ?d")
    case True
    have "kids ?new j = n_children n" using True by (simp add: kids_def comp_def)
    moreover have "kids D j = []" "kids [(i, p)] j = []" "kids T j = []"
      using other [of "(i, p)"] other True by (auto intro!: kids_none)
    ultimately show ?thesis using that(2) True assms(4) by (simp add: kids_simps split: if_splits)
  next
    case False
    then have lt: "j < ?d" using that(1) by simp
    then have "kids ?new j = []" using assms(5) of_nat_u32_inj [of ?d j] by (intro kids_none) auto
    then have "kids ?F j = kids ?E j" by (simp add: kids_simps)
    then show ?thesis using I(3) [OF lt, of v] that(2) lt by (simp add: nth_append)
  qed
  moreover have hd: "hd ?F = (root, - 1)" using I(5) by (cases D) auto
  moreover have "\<exists>j < Suc ?d. snd e = of_nat j" if "e \<in> set (tl ?F)" for e
  proof -
    have "e \<in> set ?new \<or> e \<in> set (tl ?E)" using that by (cases D) auto
    then show ?thesis
    proof
      assume "e \<in> set ?new"
      then show ?thesis by auto
    next
      assume "e \<in> set (tl ?E)"
      then show ?thesis using I(6) [of e] less_SucI by blast
    qed
  qed
  moreover have "\<exists>j < k. snd ((D @ [(i, p)]) ! k) = of_nat j" if "k < Suc ?d" "0 < k" for k
  proof (cases "k = ?d")
    case True
    then have "(i, p) \<in> set (tl ?E)" using that(2) by (cases D) auto
    then show ?thesis using I(6) True by auto
  next
    case False
    then show ?thesis using I(7) [of k] that by (simp add: nth_append)
  qed
  ultimately show ?thesis unfolding walk_inv_def by simp
qed

lemma walk_complete:
  assumes "tree_ok s" "fs_root s = Some root" "card (dom (fs_nodes s)) \<le> DISKFS_MAX_NODES"
    and "walk_inv s root D T" "c = length D"
  shows "walk_inv s root (D @ walk (fs_nodes s) T c) []"
  using assms(4,5)
proof (induction "fs_nodes s" T c arbitrary: D rule: walk.induct)
  case (1 c)
  then show ?case by simp
next
  case (2 i p T c)
  note I = walk_invD [OF 2(2)]
  have "dom (fs_nodes s) \<subseteq> {..<fs_next s}" using node_okD(1) [OF tree_okD [OF assms(1)]] by auto
  then have fin: "finite (dom (fs_nodes s))" by (rule finite_subset) simp
  have "length (map fst (D @ (i, p) # T)) = card (set (map fst (D @ (i, p) # T)))"
    by (rule distinct_card [symmetric]) (rule I(1))
  also have "\<dots> \<le> card (dom (fs_nodes s))"
  proof (rule card_mono [OF fin])
    show "set (map fst (D @ (i, p) # T)) \<subseteq> dom (fs_nodes s)" unfolding set_map using I(2) by blast
  qed
  finally have lt: "length D < DISKFS_MAX_NODES" using assms(3) by simp
  obtain n where n: "fs_nodes s i = Some n" using I(2) [of "(i, p)"] by auto
  have "walk_inv s root ((D @ [(i, p)]) @ walk (fs_nodes s) (map (\<lambda>x. (x, of_nat c)) (n_children n) @ T) (c + 1)) []"
    by (rule 2(1)) (use lt n 2(3) walk_inv_step [OF assms(1,2) 2(2) n] in simp_all)
  then show ?case using lt n 2(3) by simp
qed

section \<open>Reading one record\<close>

definition header_of :: "vnode \<Rightarrow> u32 \<Rightarrow> header" where
  "header_of n p = \<lparr>h_parent = p, h_type = n_type n, h_perms = n_permissions n, h_uid = n_owner_uid n, h_gid = n_owner_gid n,
     h_size = data_size n, h_name_len = of_nat (length (n_name n)), h_flags = (if on_disk n then 1 else 0)\<rparr>"

lemma rd_header_at:
  assumes "drop off img = concat (header_pieces n p) @ rest"
  shows "rd_header img off = Some (header_of n p)" "drop (off + 32) img = string_bytes (n_name n) @ rest"
proof -
  let ?w = "[p, n_type n, n_permissions n, n_owner_uid n, n_owner_gid n, data_size n, of_nat (length (n_name n)),
    if on_disk n then 1 else 0]"
  have d: "drop off img = u32_bytes (?w ! 0) @ u32_bytes (?w ! 1) @ u32_bytes (?w ! 2) @ u32_bytes (?w ! 3) @ u32_bytes (?w ! 4) @ u32_bytes (?w ! 5)
      @ u32_bytes (?w ! 6) @ u32_bytes (?w ! 7) @ string_bytes (n_name n) @ rest"
    unfolding assms by (simp add: header_pieces_def)
  note r0 = rd_u32_at [OF d]
  note r1 = rd_u32_at [OF r0(2)] note r2 = rd_u32_at [OF r1(2)] note r3 = rd_u32_at [OF r2(2)]
  note r4 = rd_u32_at [OF r3(2)] note r5 = rd_u32_at [OF r4(2)] note r6 = rd_u32_at [OF r5(2)] note r7 = rd_u32_at [OF r6(2)]
  note r = r0(1) r1(1) r2(1) r3(1) r4(1) r5(1) r6(1) r7
  show "rd_header img off = Some (header_of n p)"
    unfolding rd_header_def header_of_def using r by (simp add: add.assoc)
  show "drop (off + 32) img = string_bytes (n_name n) @ rest" using r(9) by (simp add: add.assoc)
qed

lemma name_at_ok:
  assumes "drop off img = string_bytes nm @ rest" "CHR 0x00 \<notin> set nm" "nm \<noteq> []"
  shows "name_at img off (length nm) = Some nm" "drop (off + length nm) img = rest"
proof -
  have len: "length (string_bytes nm) = length nm" by (simp add: string_bytes_def)
  have "off + length nm \<le> length img" using drop_append_le(2) [OF assms(1)] assms(3) len by (auto simp: string_bytes_def)
  moreover have "slice off (length nm) img = string_bytes nm" by (rule slice_prefix [OF assms(1) len])
  moreover have "map (\<lambda>b. char_of (unat b)) (string_bytes nm) = nm"
    by (simp add: string_bytes_def char_of_byte map_idI)
  moreover have "takeWhile (\<lambda>c. c \<noteq> CHR 0x00) nm = nm" using assms(2) by (auto simp: takeWhile_eq_all_conv)
  ultimately show "name_at img off (length nm) = Some nm" by (simp add: name_at_def)
  show "drop (off + length nm) img = rest" using drop_append_le(1) [OF assms(1)] len by simp
qed

lemma rd_u32_run:
  assumes "drop off img = concat (map u32_bytes vs) @ rest"
  shows "those (map (\<lambda>j. rd_u32 img (off + j * 4)) [0..<length vs]) = Some vs"
  using assms
proof (induction vs arbitrary: off)
  case Nil
  then show ?case by simp
next
  case (Cons v vs)
  have d: "drop off img = u32_bytes v @ concat (map u32_bytes vs) @ rest" using Cons.prems by simp
  note r = rd_u32_at [OF d]
  have "those (map (\<lambda>j. rd_u32 img (off + Suc j * 4)) [0..<length vs]) = Some vs"
    using Cons.IH [OF r(2)] by (simp add: add.assoc)
  then show ?case using r(1) by (simp add: upt_conv_Cons map_Suc_upt [symmetric] comp_def del: upt_Suc)
qed

definition fill :: "vnode \<Rightarrow> vnode \<Rightarrow> vnode" where
  "fill n w =
     (if on_disk n
      then w\<lparr>n_blocks := (if block_list n \<noteq> [] then Some (block_list n) else n_blocks w), n_disk_backed := True,
             n_size := data_size n\<rparr>
      else if data_size n \<noteq> 0
      then w\<lparr>n_data := Some (take (unat (data_size n)) (data_bytes n)), n_capacity := data_size n, n_size := data_size n\<rparr>
      else w)"

lemma no_wrap:
  assumes "unat (off :: u32) + k \<le> unat lim" "unat lim \<le> 2 ^ 30"
  shows "unat (off + of_nat k) = unat off + k" "\<not> lim < off + of_nat k"
proof -
  have "k < 2 ^ 32" using assms by simp
  then show u: "unat (off + of_nat k) = unat off + k" using assms by (subst unat_plus_u32) simp_all
  show "\<not> lim < off + of_nat k" unfolding word_less_nat_alt u using assms(1) by simp
qed

lemma length_blocks_bytes: "length (concat (map u32_bytes vs)) = 4 * length vs"
  by (induction vs) simp_all

lemma load_payload_disk:
  assumes "on_disk n" "drop (unat off) img = u32_bytes (of_nat (length (block_list n))) @ concat (map u32_bytes (block_list n)) @ rest"
    and "unat off + (4 + 4 * length (block_list n)) \<le> unat image_bytes" "unat image_bytes \<le> 2 ^ 30"
    and "fs_nodes t node = Some w" "grants_all t"
  shows "\<exists>k. load_payload node (header_of n p) img image_bytes off t =
    Some (Inr (off + of_nat (4 + 4 * length (block_list n))), t\<lparr>fs_nodes := (fs_nodes t)(node \<mapsto> fill n w), fs_allocs := k\<rparr>)"
proof -
  let ?bs = "block_list n"
  let ?bc = "of_nat (length ?bs) :: u32"
  have o4: "unat (off + 4) = unat off + 4" "\<not> image_bytes < off + 4" using no_wrap [of off 4 image_bytes] assms(3,4) by simp_all
  have l: "length ?bs < 2 ^ 28" using assms(3,4) by simp
  then have bc: "unat ?bc = length ?bs" by simp
  have bc4: "?bc * 4 = of_nat (4 * length ?bs)" by simp
  have all: "\<not> image_bytes < off + 4 + ?bc * 4"
    unfolding bc4 by (rule no_wrap(2)) (use assms(3,4) o4 in simp_all)
  note r = rd_u32_at [OF assms(2)]
  have run: "those (map (\<lambda>j. rd_u32 img (unat (off + 4) + j * 4)) [0..<length ?bs]) = Some ?bs"
    using r(2) unfolding o4(1) [symmetric] by (rule rd_u32_run)
  have z: "?bc = 0 \<longleftrightarrow> ?bs = []" unfolding unat_eq_0 [symmetric] bc by simp
  have e: "off + 4 + ?bc * 4 = off + of_nat (4 + 4 * length ?bs)" by simp
  have f: "flags AND 1 \<noteq> 0" if "flags = (1 :: u32)" for flags using that by simp
  have k1: "(if ?bc \<noteq> 0 then kalloc t else (True, t)) = (True, t\<lparr>fs_allocs := (if ?bc \<noteq> 0 then fs_allocs t + 1 else fs_allocs t)\<rparr>)"
    using assms(6) by (simp add: kalloc_def)
  have sm: "\<not> 4294967296 \<le> unat ?bc * 4" using bc l by simp
  let ?k = "if ?bc \<noteq> 0 then fs_allocs t + 1 else fs_allocs t"
  have "load_payload node (header_of n p) img image_bytes off t =
    Some (Inr (off + 4 + ?bc * 4), upd_node (Some node) (\<lambda>v. v\<lparr>n_blocks := (if ?bc \<noteq> 0 then Some ?bs else n_blocks v),
       n_disk_backed := True, n_size := data_size n\<rparr>) (t\<lparr>fs_allocs := ?k\<rparr>))"
    unfolding load_payload_def header_of_def Let_def
    using assms(1) o4(2) all r(1) sm by (simp only: header.simps if_True if_False bind.bind_lunit k1 prod.case bc run) simp
  also have "\<dots> = Some (Inr (off + of_nat (4 + 4 * length ?bs)), t\<lparr>fs_nodes := (fs_nodes t)(node \<mapsto> fill n w), fs_allocs := ?k\<rparr>)"
    using assms(1,5) z by (simp add: e upd_node_def put_node_def fill_def)
  finally show ?thesis by blast
qed

lemma load_payload_ram:
  assumes "\<not> on_disk n" "data_size n \<noteq> 0" "unat (data_size n) \<le> length (data_bytes n)"
    and "drop (unat off) img = take (unat (data_size n)) (data_bytes n) @ rest"
    and "unat off + unat (data_size n) \<le> unat image_bytes" "unat image_bytes \<le> 2 ^ 30" "unat image_bytes \<le> length img"
    and "fs_nodes t node = Some w" "grants_all t"
  shows "\<exists>k. load_payload node (header_of n p) img image_bytes off t =
    Some (Inr (off + data_size n), t\<lparr>fs_nodes := (fs_nodes t)(node \<mapsto> fill n w), fs_allocs := k\<rparr>)"
proof -
  have o: "\<not> image_bytes < off + data_size n"
    using no_wrap(2) [of off "unat (data_size n)" image_bytes] assms(5,6) by simp
  have sl: "slice (unat off) (unat (data_size n)) img = take (unat (data_size n)) (data_bytes n)"
    by (rule slice_prefix [OF assms(4)]) (use assms(3) in simp)
  show ?thesis
    unfolding load_payload_def header_of_def
    using assms o sl by (intro exI [of _ "Suc (fs_allocs t)"]) (simp add: kalloc_def upd_node_def put_node_def fill_def)
qed

lemma load_payload_ok:
  assumes "storable n" "payload_pieces n = Some ps" "drop (unat off) img = concat ps @ rest"
    and "unat off + length (concat ps) \<le> unat image_bytes" "unat image_bytes \<le> 2 ^ 30" "unat image_bytes \<le> length img"
    and "fs_nodes t node = Some w" "grants_all t"
  shows "\<exists>k. load_payload node (header_of n p) img image_bytes off t =
    Some (Inr (off + of_nat (length (concat ps))), t\<lparr>fs_nodes := (fs_nodes t)(node \<mapsto> fill n w), fs_allocs := k\<rparr>)"
proof -
  consider (disk) "on_disk n" | (ram) "\<not> on_disk n" "data_size n \<noteq> 0" | (none) "\<not> on_disk n" "data_size n = 0" by blast
  then show ?thesis
  proof cases
    case disk
    then have ps: "concat ps = u32_bytes (of_nat (length (block_list n))) @ concat (map u32_bytes (block_list n))"
      using assms(2) by (auto simp: payload_pieces_def)
    then show ?thesis
      using load_payload_disk [OF disk, of off img rest image_bytes t node w p] assms(3-)
      by (simp add: length_blocks_bytes)
  next
    case ram
    have nd: "\<not> n_disk_backed n"
      using assms(1) ram by (auto simp: storable_def on_disk_def data_size_def split: if_splits)
    then have le: "unat (data_size n) \<le> length (data_bytes n)" using assms(1) by (simp add: storable_def)
    then obtain dt where dt: "n_data n = Some dt"
      using ram(2) by (cases "n_data n") (auto simp: data_bytes_def unat_eq_0)
    then have "concat ps = take (unat (data_size n)) (data_bytes n)"
      using assms(2) ram le by (auto simp: payload_pieces_def data_bytes_def)
    then show ?thesis
      using load_payload_ram [OF ram le, of off img rest image_bytes t node w p] assms(3-) le by simp
  next
    case none
    then have "ps = []" using assms(2) by (auto simp: payload_pieces_def split: option.splits)
    moreover have "t\<lparr>fs_nodes := (fs_nodes t)(node \<mapsto> fill n w), fs_allocs := fs_allocs t\<rparr> = t"
      using none assms(7) by (simp add: fill_def fun_upd_idem)
    ultimately show ?thesis using none by (auto simp: load_payload_def header_of_def intro!: exI [of _ "fs_allocs t"])
  qed
qed

definition dress :: "vnode \<Rightarrow> vnode \<Rightarrow> vnode" where
  "dress n w = w\<lparr>n_type := n_type n, n_permissions := n_permissions n, n_owner_uid := n_owner_uid n, n_owner_gid := n_owner_gid n\<rparr>"

lemma fill_dress_simps [simp]:
  "n_children (fill n w) = n_children w" "n_children (dress n w) = n_children w"
  "n_name (fill n w) = n_name w" "n_name (dress n w) = n_name w"
  by (simp_all add: fill_def dress_def)

lemma load_node_ok:
  assumes "storable n" "drop (unat off) img = node_bytes n p @ rest"
    and "unat off + length (node_bytes n p) \<le> unat ib" "unat ib \<le> 2 ^ 30" "unat ib \<le> length img"
    and "place_node (header_of n p) (n_name n) m root t = (Inr node, t1)" "fs_nodes t1 node = Some w" "grants_all t1"
  shows "\<exists>k. load_node m img ib off root t =
    Some (Inr (node, off + of_nat (length (node_bytes n p))), t1\<lparr>fs_nodes := (fs_nodes t1)(node \<mapsto> fill n (dress n w)), fs_allocs := k\<rparr>)"
proof -
  obtain ps where ps: "payload_pieces n = Some ps" using storable_payload [OF assms(1)] by auto
  let ?nm = "n_name n" and ?h = "header_of n p"
  have nm: "CHR 0x00 \<notin> set ?nm" "?nm \<noteq> []" "length ?nm < 64" using assms(1) by (auto simp: storable_def)
  have len: "length (node_bytes n p) = 32 + length ?nm + length (concat ps)"
    using ps by (simp add: node_bytes_def header_pieces_def string_bytes_def)
  have d: "drop (unat off) img = concat (header_pieces n p) @ concat ps @ rest"
    using assms(2) ps by (simp add: node_bytes_def)
  note hdr = rd_header_at [OF d]
  have o1: "unat (off + 32) = unat off + 32" "\<not> ib < off + 32"
    using no_wrap [of off 32 ib] assms(3,4) len by simp_all
  have nl: "h_name_len ?h = of_nat (length ?nm)" by (simp add: header_of_def)
  have o2: "unat (off + 32 + of_nat (length ?nm)) = unat off + 32 + length ?nm" "\<not> ib < off + 32 + of_nat (length ?nm)"
    using no_wrap [of "off + 32" "length ?nm" ib] assms(3,4) len o1 by simp_all
  have n64: "\<not> (64 \<le> (of_nat (length ?nm) :: u32))" "unat (of_nat (length ?nm) :: u32) = length ?nm"
    using nm(3) by (simp_all add: word_le_nat_alt)
  note name = name_at_ok [OF hdr(2) nm(1,2)]
  let ?t = "upd_node (Some node) (dress n) t1"
  have t: "?t = t1\<lparr>fs_nodes := (fs_nodes t1)(node \<mapsto> dress n w)\<rparr>" using assms(7) by (simp add: upd_node_def put_node_def)
  have dp: "drop (unat (off + 32 + of_nat (length ?nm))) img = concat ps @ rest" using name(2) o2 by simp
  have le: "unat (off + 32 + of_nat (length ?nm)) + length (concat ps) \<le> unat ib" using assms(3) len o2 by simp
  obtain k where pay: "load_payload node ?h img ib (off + 32 + of_nat (length ?nm)) ?t =
     Some (Inr (off + 32 + of_nat (length ?nm) + of_nat (length (concat ps))), ?t\<lparr>fs_nodes := (fs_nodes ?t)(node \<mapsto> fill n (dress n w)), fs_allocs := k\<rparr>)"
    using load_payload_ok [OF assms(1) ps dp le assms(4,5), of ?t node "dress n w" p] assms(8) t by auto
  have dr: "(\<lambda>n'. n'\<lparr>n_type := h_type ?h, n_permissions := h_perms ?h, n_owner_uid := h_uid ?h, n_owner_gid := h_gid ?h\<rparr>) = dress n"
    by (simp add: header_of_def dress_def fun_eq_iff)
  have "load_node m img ib off root t = Some (Inr (node, off + 32 + of_nat (length ?nm) + of_nat (length (concat ps))),
     ?t\<lparr>fs_nodes := (fs_nodes ?t)(node \<mapsto> fill n (dress n w)), fs_allocs := k\<rparr>)"
    unfolding load_node_def Let_def
    by (simp only: o1 hdr(1) bind.bind_lunit nl n64 o2 name(1) assms(6) prod.case sum.case dr pay option.map map_sum.simps
      if_False simp_thms id_apply)
  moreover have "off + 32 + of_nat (length ?nm) + of_nat (length (concat ps)) = off + of_nat (length (node_bytes n p))"
    unfolding len by simp
  ultimately show ?thesis unfolding t by auto
qed

section \<open>Rebuilding the tree\<close>

text \<open>The bytes a node keeps: its block list, or the buffer up to the size.\<close>

definition stored :: "vnode \<Rightarrow> u32 list \<times> u8 list" where
  "stored n = (if n_disk_backed n then (block_list n, []) else ([], take (unat (data_size n)) (data_bytes n)))"

definition same_node :: "vnode \<Rightarrow> vnode \<Rightarrow> bool" where
  "same_node n w = (n_name w = n_name n \<and> n_type w = n_type n \<and> n_permissions w = n_permissions n
     \<and> n_owner_uid w = n_owner_uid n \<and> n_owner_gid w = n_owner_gid n \<and> data_size w = data_size n \<and> stored w = stored n
     \<and> (n_type n = VFS_FILE \<longrightarrow> (\<forall>off sz s. ramfs_read w off sz s = ramfs_read n off sz s)))"

lemma slice_take: "off + k \<le> n \<Longrightarrow> slice off k (take n xs) = slice off k xs"
  by (simp add: slice_def drop_take min_def)

lemma same_node_children [simp]: "same_node n (v\<lparr>n_children := cs\<rparr>) = same_node n v"
proof -
  have "block_list (v\<lparr>n_children := cs\<rparr>) = block_list v" "data_size (v\<lparr>n_children := cs\<rparr>) = data_size v"
    "data_bytes (v\<lparr>n_children := cs\<rparr>) = data_bytes v"
    by (simp_all add: block_list_def data_size_def data_bytes_def)
  moreover from this have "ramfs_read (v\<lparr>n_children := cs\<rparr>) off sz s = ramfs_read v off sz s" for off sz s
    by (simp add: ramfs_read_def diskfile_read_def cong: option.case_cong)
  ultimately show ?thesis by (simp add: same_node_def stored_def)
qed

lemma read_fill:
  assumes "storable n" "n_type n = VFS_FILE" "\<not> n_disk_backed w" "n_size w = 0" "n_blocks w = None"
  shows "ramfs_read (fill n (dress n w)) off sz s = ramfs_read n off sz s"
proof -
  consider (disk) "on_disk n" | (ram) "\<not> on_disk n" "data_size n \<noteq> 0" | (none) "\<not> on_disk n" "data_size n = 0" by blast
  then show ?thesis
  proof cases
    case disk
    then show ?thesis using assms
      by (auto simp: ramfs_read_def diskfile_read_def fill_def dress_def on_disk_def block_list_def data_size_def cong: if_cong)
  next
    case ram
    then have nd: "\<not> n_disk_backed n" "n_size n \<noteq> 0" using assms(1,2) by (auto simp: storable_def on_disk_def data_size_def)
    then obtain dt where dt: "n_data n = Some dt"
      using assms(1,2) by (cases "n_data n") (auto simp: storable_def data_bytes_def data_size_def unat_eq_0)
    have "slice (unat off) (unat z) (take (unat (n_size n)) dt) = slice (unat off) (unat z) dt"
      if "off < n_size n" "z \<le> n_size n - off" for z
      using that unat_minus_u32 [of off "n_size n"] by (intro slice_take) (auto simp: word_le_nat_alt word_less_nat_alt)
    then show ?thesis using ram nd dt assms(2,3)
      by (auto simp: ramfs_read_def fill_def dress_def data_size_def data_bytes_def Let_def not_le not_less)
  next
    case none
    then show ?thesis using assms
      by (auto simp: ramfs_read_def diskfile_read_def fill_def dress_def data_size_def split: option.split)
  qed
qed

lemma same_node_fill:
  assumes "storable n" "n_name w = n_name n" "\<not> n_disk_backed w"
    and "n_type n = VFS_FILE \<Longrightarrow> n_size w = 0 \<and> n_blocks w = None"
  shows "same_node n (fill n (dress n w))"
proof -
  have "ramfs_read (fill n (dress n w)) off sz s = ramfs_read n off sz s" if "n_type n = VFS_FILE" for off sz s
    using read_fill [OF assms(1) that assms(3)] assms(4) [OF that] by simp
  moreover have "stored (fill n (dress n w)) = stored n \<and> data_size (fill n (dress n w)) = data_size n"
  proof (cases "on_disk n")
    case True
    then have "n_type n = VFS_FILE" using assms(1) by (auto simp: storable_def on_disk_def)
    then show ?thesis using True assms
      by (auto simp: fill_def dress_def stored_def data_size_def on_disk_def block_list_def)
  next
    case nd: False
    show ?thesis
    proof (cases "data_size n = 0")
      case True
      then show ?thesis using nd assms
        by (auto simp: fill_def dress_def stored_def data_size_def on_disk_def block_list_def storable_def split: if_splits)
    next
      case False
      then have "n_type n = VFS_FILE" "\<not> n_disk_backed n"
        using nd assms(1) by (auto simp: data_size_def storable_def on_disk_def split: if_splits)
      then show ?thesis using nd False assms
        by (auto simp: fill_def dress_def stored_def data_size_def data_bytes_def)
    qed
  qed
  moreover have "n_type (fill n (dress n w)) = n_type n" "n_permissions (fill n (dress n w)) = n_permissions n"
    "n_owner_uid (fill n (dress n w)) = n_owner_uid n" "n_owner_gid (fill n (dress n w)) = n_owner_gid n"
    by (simp_all add: fill_def dress_def)
  ultimately show ?thesis using assms(2) by (simp add: same_node_def)
qed

text \<open>
  After \<open>length m\<close> records: node \<open>m ! j\<close> is the copy of the \<open>j\<close>-th visited node of the saved tree, its children
  are the copies of those among the first records that carry the index \<open>j\<close>.
\<close>

definition child_indices :: "(nat \<times> u32) list \<Rightarrow> nat \<Rightarrow> nat \<Rightarrow> nat list" where
  "child_indices D k j = filter (\<lambda>i. snd (D ! i) = of_nat j) [0..<k]"

definition copy_of :: "fs \<Rightarrow> (nat \<times> u32) list \<Rightarrow> nat list \<Rightarrow> nat \<Rightarrow> vnode \<Rightarrow> bool" where
  "copy_of sv D m j w = (same_node (the (fs_nodes sv (fst (D ! j)))) w
     \<and> n_children w = map ((!) m) (child_indices D (length m) j)
     \<and> n_parent w = (if j = 0 then None else Some (m ! unat (snd (D ! j)))))"

definition load_inv :: "fs \<Rightarrow> (nat \<times> u32) list \<Rightarrow> nat \<Rightarrow> nat list \<Rightarrow> fs \<Rightarrow> bool" where
  "load_inv sv D r m t = (length m \<le> length D \<and> sorted_wrt (<) m \<and> (\<forall>x \<in> set m. x < fs_next t)
     \<and> r \<in> set m \<and> m ! 0 = r \<and> dom (fs_nodes t) = set m
     \<and> (\<forall>j < length m. \<exists>w. fs_nodes t (m ! j) = Some w \<and> copy_of sv D m j w))"

lemma child_indices_Suc:
  "child_indices D (Suc k) j = child_indices D k j @ (if snd (D ! k) = of_nat j then [k] else [])"
  by (simp add: child_indices_def)

lemma child_indices_bound: "i \<in> set (child_indices D k j) \<Longrightarrow> i < k"
  by (simp add: child_indices_def)

lemma map_nth_snoc: "(\<And>i. i \<in> set is \<Longrightarrow> i < length m) \<Longrightarrow> map ((!) (m @ [x])) is = map ((!) m) is"
  by (auto simp: nth_append)

lemma kids_indices: "kids D j = map (\<lambda>i. fst (D ! i)) (child_indices D (length D) j)"
proof -
  have "filter (\<lambda>e. snd e = of_nat j) D = map ((!) D) (filter (\<lambda>i. snd (D ! i) = of_nat j) [0..<length D])"
    using filter_map [of "\<lambda>e. snd e = of_nat j" "(!) D" "[0..<length D]"] by (simp add: map_nth comp_def)
  then show ?thesis by (simp add: kids_def child_indices_def comp_def)
qed

lemma child_indices_mono: "k < n \<Longrightarrow> snd (D ! k) = of_nat j \<Longrightarrow> length (child_indices D k j) < length (child_indices D n j)"
proof (induction n)
  case (Suc n)
  then show ?case by (cases "k = n") (auto simp: child_indices_Suc)
qed simp

text \<open>What stays fixed while nodes are created.\<close>

definition same_frame :: "fs \<Rightarrow> fs \<Rightarrow> bool" where
  "same_frame t t' = (fs_grants t' = fs_grants t \<and> fs_root t' = fs_root t \<and> fs_vfs_root t' = fs_vfs_root t
     \<and> fs_disk t' = fs_disk t \<and> fs_blockfs t' = fs_blockfs t)"

lemma load_root_step:
  assumes "walk_inv sv root D []" "fs_nodes sv root = Some n" "storable n" "n_type n = VFS_DIRECTORY"
    and "fs_nodes t r = Some w" "n_children w = []" "n_parent w = None" "\<not> n_disk_backed w" "dom (fs_nodes t) = {r}" "r < fs_next t"
  shows "\<exists>t1. place_node (header_of n (- 1)) (n_name n) [] r t = (Inr r, t1) \<and> same_frame t t1 \<and> (\<exists>w1. fs_nodes t1 r = Some w1 \<and>
        load_inv sv D r [r] (t1\<lparr>fs_nodes := (fs_nodes t1)(r \<mapsto> fill n (dress n w1)), fs_allocs := k\<rparr>))"
proof -
  note I = walk_invD [OF assms(1)]
  let ?w = "w\<lparr>n_name := n_name n\<rparr>" and ?t1 = "t\<lparr>fs_nodes := (fs_nodes t)(r \<mapsto> w\<lparr>n_name := n_name n\<rparr>)\<rparr>"
  have "n_name n \<noteq> []" using assms(3) by (simp add: storable_def)
  then have p: "place_node (header_of n (- 1)) (n_name n) [] r t = (Inr r, ?t1)"
    using assms(5) by (simp add: place_node_def header_of_def upd_node_def put_node_def)
  have D0: "D ! 0 = (root, - 1)" "D \<noteq> []" using I(4,5) by (auto simp: hd_conv_nth)
  have "same_node n (fill n (dress n ?w))"
    using assms(3,4,8) by (intro same_node_fill) simp_all
  moreover have "child_indices D (Suc 0) 0 = []" using D0 by (simp add: child_indices_def)
  moreover have "n_parent (fill n (dress n ?w)) = None" using assms(7) by (simp add: fill_def dress_def)
  ultimately have "copy_of sv D [r] 0 (fill n (dress n ?w))"
    using D0 assms(2,6) by (simp add: copy_of_def)
  then have "load_inv sv D r [r] (?t1\<lparr>fs_nodes := (fs_nodes ?t1)(r \<mapsto> fill n (dress n ?w)), fs_allocs := k\<rparr>)"
    using D0 assms(9,10) by (simp add: load_inv_def Suc_le_eq)
  then show ?thesis using p by (intro exI [of _ ?t1]) (simp add: same_frame_def)
qed

lemma sint_index: "j < 16384 \<Longrightarrow> sint (of_nat j :: u32) = int j"
  by (simp add: sint_uint uint_nat signed_take_bit_eq_if_positive bit_iff_odd unat_of_nat take_bit_nat_eq_self take_bit_int_eq_self)

lemma copy_of_snoc:
  assumes "copy_of sv D m i w" "snd (D ! length m) \<noteq> of_nat i" "i = 0 \<or> unat (snd (D ! i)) < length m"
  shows "copy_of sv D (m @ [x]) i w"
  using assms child_indices_bound map_nth_snoc [of "child_indices D (length m) i" m x]
  by (auto simp: copy_of_def child_indices_Suc nth_append)

lemma copy_of_parent_snoc:
  assumes "copy_of sv D m i v" "snd (D ! length m) = of_nat i" "i = 0 \<or> unat (snd (D ! i)) < length m"
  shows "copy_of sv D (m @ [x]) i (v\<lparr>n_children := n_children v @ [x]\<rparr>)"
proof -
  have "map ((!) (m @ [x])) (child_indices D (Suc (length m)) i) = map ((!) m) (child_indices D (length m) i) @ [x]"
    using assms(2) map_nth_snoc [of "child_indices D (length m) i" m x] child_indices_bound by (auto simp: child_indices_Suc)
  then show ?thesis using assms(1,3)
    by (auto simp: copy_of_def nth_append)
qed

lemma load_child_step:
  assumes "walk_inv sv root D []" "tree_ok sv" "length D \<le> 16384" "load_inv sv D r m t" "length m < length D"
    and "fs_nodes sv (fst (D ! length m)) = Some n" "storable n" "grants_all t"
  shows "\<exists>x t1 w. place_node (header_of n (snd (D ! length m))) (n_name n) m r t = (Inr x, t1)
    \<and> same_frame t t1 \<and> fs_nodes t1 x = Some w
    \<and> (\<forall>a. load_inv sv D r (m @ [x]) (t1\<lparr>fs_nodes := (fs_nodes t1)(x \<mapsto> fill n (dress n w)), fs_allocs := a\<rparr>))"
proof -
  let ?k = "length m"
  note I = walk_invD [OF assms(1)]
  have L: "sorted_wrt (<) m" "\<forall>x \<in> set m. x < fs_next t" "r \<in> set m" "m ! 0 = r" "dom (fs_nodes t) = set m"
    "\<And>j. j < length m \<Longrightarrow> \<exists>w. fs_nodes t (m ! j) = Some w \<and> copy_of sv D m j w"
    using assms(4) by (auto simp: load_inv_def)
  have "0 < ?k" using L(3) by (cases m) auto
  then obtain j where j: "j < ?k" "snd (D ! ?k) = of_nat j" using I(7) [OF assms(5)] by auto
  have j_small: "j < 16384" using j assms(3,5) by simp
  obtain v where v: "fs_nodes t (m ! j) = Some v" "copy_of sv D m j v" using L(6) [OF j(1)] by auto
  obtain vs where vs: "fs_nodes sv (fst (D ! j)) = Some vs" using I(2) [of "D ! j"] j assms(5) by auto
  have "length (n_children v) < length (child_indices D (length D) j)"
    using v(2) child_indices_mono [OF assms(5) j(2)] by (simp add: copy_of_def)
  also have "\<dots> = length (n_children vs)" using I(3) [of j vs] vs j(1) assms(5) by (simp add: kids_indices)
  also have "\<dots> \<le> 256" using node_okD(4) [OF tree_okD [OF assms(2) vs]] .
  finally have room: "length (n_children v) < 256" .
  let ?x = "fs_next t"
  let ?w = "fresh_node (Some (m ! j)) (n_name n) (n_type n) (fs_uptime t)" and ?v = "v\<lparr>n_children := n_children v @ [?x]\<rparr>"
  let ?t1 = "t\<lparr>fs_allocs := fs_allocs t + 1, fs_next := ?x + 1, fs_nodes := (fs_nodes t)(?x \<mapsto> ?w, m ! j \<mapsto> ?v)\<rparr>"
  let ?F = "fill n (dress n ?w)"
  have lt: "m ! i < ?x" if "i < ?k" for i using L(2) that by simp
  have "place_node (header_of n (snd (D ! ?k))) (n_name n) m r t = (Inr ?x, ?t1)"
    using j j_small sint_index [OF j_small] assms(8) room v(1)
    by (simp add: place_node_def header_of_def ramfs_create_node_def kalloc_def put_node_def Let_def)
  moreover have "fs_nodes ?t1 ?x = Some ?w" using lt [OF j(1)] by simp
  moreover have "load_inv sv D r (m @ [?x]) (?t1\<lparr>fs_nodes := (fs_nodes ?t1)(?x \<mapsto> ?F), fs_allocs := a\<rparr>)" for a
  proof -
    let ?N = "(fs_nodes t)(?x \<mapsto> ?w, m ! j \<mapsto> ?v, ?x \<mapsto> ?F)"
    have idx: "i = 0 \<or> unat (snd (D ! i)) < ?k" if "i < Suc ?k" for i
      using I(7) [of i] that assms(3,5) by (cases "i = 0") auto
    have old: "\<exists>w. ?N (m ! i) = Some w \<and> copy_of sv D (m @ [?x]) i w" if "i < ?k" for i
    proof (cases "i = j")
      case True
      then show ?thesis using copy_of_parent_snoc [OF v(2) j(2), of ?x] lt [OF that] idx [of j] j(1) by auto
    next
      case False
      then have ne: "m ! i \<noteq> m ! j" using L(1) that j(1) by (simp add: nth_eq_iff_index_eq strict_sorted_iff)
      have "snd (D ! ?k) \<noteq> of_nat i" using False j j_small of_nat_u32_inj [of j i] that assms(3,5) by simp
      then show ?thesis using L(6) [OF that] copy_of_snoc [of sv D m i _ ?x] idx [of i] that ne lt [OF that] by force
    qed
    have none: "child_indices D (Suc ?k) ?k = []"
    proof -
      have "snd (D ! i) \<noteq> of_nat ?k" if ik: "i \<le> ?k" for i
      proof (cases "i = 0")
        case True
        then show ?thesis using I(4,5) of_nat_u32_root [of ?k] assms(3,5) by (auto simp: hd_conv_nth)
      next
        case False
        then obtain q where "q < i" "snd (D ! i) = of_nat q" using I(7) [of i] ik assms(5) by auto
        then show ?thesis using of_nat_u32_inj [of q ?k] ik assms(3,5) by simp
      qed
      then show ?thesis unfolding child_indices_def filter_empty_conv by (simp del: upt_Suc add: less_Suc_eq_le)
    qed
    have sn: "same_node n ?F"
      using assms(7) by (intro same_node_fill) (auto simp: fresh_node_def storable_def)
    have par: "n_parent ?F = Some (m ! j)" "n_children ?F = []" by (simp_all add: fill_def dress_def fresh_node_def)
    have "copy_of sv D (m @ [?x]) ?k ?F"
      using sn par none \<open>0 < ?k\<close> j j_small assms(6) by (simp add: copy_of_def nth_append)
    then have "\<exists>w. ?N ?x = Some w \<and> copy_of sv D (m @ [?x]) ?k w" by simp
    then have "\<forall>i < length (m @ [?x]). \<exists>w. ?N ((m @ [?x]) ! i) = Some w \<and> copy_of sv D (m @ [?x]) i w"
      using old by (simp add: nth_append less_Suc_eq del: fun_upd_apply)
    moreover have "dom ?N = set (m @ [?x])" using L(5) j(1) by auto
    ultimately show ?thesis
      using L assms(5) unfolding load_inv_def by (auto simp: sorted_wrt_append nth_append less_Suc_eq)
  qed
  ultimately show ?thesis
    by (intro exI [of _ ?x] exI [of _ ?t1] exI [of _ ?w]) (simp add: same_frame_def)
qed

end
