(* ===== verification/Diskfs_Reload.thy ===== *)
theory Diskfs_Reload
  imports Diskfs_Image
begin

text \<open>
  Saving and loading as a whole: the loop over all records, the wiping of the old tree, the sectors in
  between, and the theorem that a tree saved before a reboot is the tree found after it.
\<close>

section \<open>All records\<close>

lemma drop_records:
  fixes off ib :: u32
  assumes "drop (unat off) img = rec @ rest" "unat off + length rec \<le> unat ib" "unat ib \<le> 2 ^ 30"
  shows "drop (unat (off + of_nat (length rec))) img = rest" "unat (off + of_nat (length rec)) = unat off + length rec"
proof -
  show u: "unat (off + of_nat (length rec)) = unat off + length rec" by (rule no_wrap(1) [OF assms(2,3)])
  show "drop (unat (off + of_nat (length rec))) img = rest" unfolding u by (rule drop_append_le(1) [OF assms(1)])
qed

lemma load_nodes_rest:
  assumes "walk_inv sv root D []" "tree_ok sv" "length D \<le> 16384" "all_storable sv"
    and "load_inv sv D r m t" "grants_all t"
    and "drop (unat off) img = concat (map (record_of (fs_nodes sv)) (drop (length m) D)) @ rest"
    and "unat off + length (concat (map (record_of (fs_nodes sv)) (drop (length m) D))) \<le> unat ib"
    and "unat ib \<le> 2 ^ 30" "unat ib \<le> length img"
  shows "\<exists>m' t'. load_nodes (length D - length m) m img ib off r t = Some (1, t') \<and> load_inv sv D r m' t'
    \<and> length m' = length D \<and> same_frame t t'"
  using assms(5-8)
proof (induction "length D - length m" arbitrary: m t off)
  case 0
  then have "length m = length D" by (simp add: load_inv_def)
  then show ?case using 0 by (auto simp: same_frame_def)
next
  case (Suc k)
  let ?e = "D ! length m"
  have lt: "length m < length D" using Suc.hyps(2) by simp
  obtain n where n: "fs_nodes sv (fst ?e) = Some n" using walk_invD(2) [OF assms(1), of ?e] lt by auto
  let ?rec = "node_bytes n (snd ?e)" and ?rest = "concat (map (record_of (fs_nodes sv)) (drop (length m + 1) D)) @ rest"
  have split: "concat (map (record_of (fs_nodes sv)) (drop (length m) D)) = ?rec @ concat (map (record_of (fs_nodes sv)) (drop (length m + 1) D))"
    using lt n by (simp add: Cons_nth_drop_Suc [symmetric] record_of_def)
  have d: "drop (unat off) img = ?rec @ ?rest" using Suc.prems(3) unfolding split by simp
  have le: "unat off + length ?rec \<le> unat ib" using Suc.prems(4) unfolding split by simp
  note st = all_storableD [OF assms(4) n]
  obtain x t1 w where p: "place_node (header_of n (snd ?e)) (n_name n) m r t = (Inr x, t1)" "same_frame t t1" "fs_nodes t1 x = Some w"
    "\<And>a. load_inv sv D r (m @ [x]) (t1\<lparr>fs_nodes := (fs_nodes t1)(x \<mapsto> fill n (dress n w)), fs_allocs := a\<rparr>)"
    using load_child_step [OF assms(1-3) Suc.prems(1) lt n st Suc.prems(2)] by blast
  obtain a where ld: "load_node m img ib off r t = Some (Inr (x, off + of_nat (length ?rec)),
      t1\<lparr>fs_nodes := (fs_nodes t1)(x \<mapsto> fill n (dress n w)), fs_allocs := a\<rparr>)"
    using load_node_ok [OF st d le assms(9,10) p(1,3)] p(2) Suc.prems(2) by (auto simp: same_frame_def)
  let ?t = "t1\<lparr>fs_nodes := (fs_nodes t1)(x \<mapsto> fill n (dress n w)), fs_allocs := a\<rparr>"
  note dr = drop_records [OF d le assms(9)]
  have "\<exists>m' t'. load_nodes (length D - length (m @ [x])) (m @ [x]) img ib (off + of_nat (length ?rec)) r ?t = Some (1, t')
     \<and> load_inv sv D r m' t' \<and> length m' = length D \<and> same_frame ?t t'"
    by (rule Suc.hyps(1)) (use Suc.hyps(2) p(2,4) Suc.prems(2,4) dr in \<open>simp_all add: split same_frame_def\<close>)
  moreover have "length D - length m = Suc (length D - length (m @ [x]))" using lt by simp
  ultimately show ?case using ld p(2) by (auto simp: same_frame_def)
qed

lemma load_nodes_all:
  assumes "walk_inv sv root D []" "tree_ok sv" "fs_root sv = Some root" "length D \<le> 16384"
    and "all_storable sv"
    and "fs_nodes t r = Some w" "n_children w = []" "n_parent w = None" "\<not> n_disk_backed w" "dom (fs_nodes t) = {r}" "r < fs_next t"
    and "grants_all t" "drop (unat off) img = concat (map (record_of (fs_nodes sv)) D) @ rest"
    and "unat off + length (concat (map (record_of (fs_nodes sv)) D)) \<le> unat ib" "unat ib \<le> 2 ^ 30" "unat ib \<le> length img"
  shows "\<exists>m' t'. load_nodes (length D) [] img ib off r t = Some (1, t') \<and> load_inv sv D r m' t'
    \<and> length m' = length D \<and> same_frame t t'"
proof -
  obtain es where D: "D = (root, - 1) # es" using walk_invD(4,5) [OF assms(1)] by (cases D) auto
  obtain n where n: "fs_nodes sv root = Some n" "n_type n = VFS_DIRECTORY" using assms(2,3) by (auto simp: tree_ok_def)
  note st = all_storableD [OF assms(5) n(1)]
  let ?rec = "node_bytes n (- 1)" and ?recs = "concat (map (record_of (fs_nodes sv)) es)"
  have split: "concat (map (record_of (fs_nodes sv)) D) = ?rec @ ?recs" using n(1) D by (simp add: record_of_def)
  have d: "drop (unat off) img = ?rec @ ?recs @ rest" using assms(13) unfolding split by simp
  have le: "unat off + length ?rec \<le> unat ib" using assms(14) unfolding split by simp
  obtain t1 w1 where p: "place_node (header_of n (- 1)) (n_name n) [] r t = (Inr r, t1)" "same_frame t t1" "fs_nodes t1 r = Some w1"
    using load_root_step [OF assms(1) n(1) st n(2) assms(6-11)] by blast
  have inv: "load_inv sv D r [r] (t1\<lparr>fs_nodes := (fs_nodes t1)(r \<mapsto> fill n (dress n w1)), fs_allocs := a\<rparr>)" for a
    using load_root_step [OF assms(1) n(1) st n(2) assms(6-11), of a] p(1,3) by auto
  obtain a where ld: "load_node [] img ib off r t = Some (Inr (r, off + of_nat (length ?rec)),
      t1\<lparr>fs_nodes := (fs_nodes t1)(r \<mapsto> fill n (dress n w1)), fs_allocs := a\<rparr>)"
    using load_node_ok [OF st d le assms(15,16) p(1,3)] p(2) assms(12) by (auto simp: same_frame_def)
  let ?t = "t1\<lparr>fs_nodes := (fs_nodes t1)(r \<mapsto> fill n (dress n w1)), fs_allocs := a\<rparr>"
  note dr = drop_records [OF d le assms(15)]
  have "\<exists>m' t'. load_nodes (length D - length [r]) [r] img ib (off + of_nat (length ?rec)) r ?t = Some (1, t')
     \<and> load_inv sv D r m' t' \<and> length m' = length D \<and> same_frame ?t t'"
    by (rule load_nodes_rest [OF assms(1,2,4,5) inv])
      (use p(2) assms(12,14-16) dr D split in \<open>simp_all add: same_frame_def\<close>)
  then show ?thesis using ld p(2) D by (auto simp: same_frame_def)
qed

section \<open>Wiping the old tree\<close>

text \<open>
  \<open>A\<close> are the nodes not freed yet. Those in the worklist have lost their parent, every other one below
  the root still hangs on one.
\<close>

definition wipe_inv :: "fs \<Rightarrow> nat \<Rightarrow> nat set \<Rightarrow> nat list \<Rightarrow> bool" where
  "wipe_inv s r A todo = (finite A \<and> r \<in> A \<and> A \<subseteq> dom (fs_nodes s) \<and> distinct todo \<and> set todo \<subseteq> A - {r}
     \<and> (\<forall>i \<in> A - {r}. \<forall>v. fs_nodes s i = Some v \<longrightarrow> set (n_children v) \<subseteq> A - {r})
     \<and> (\<forall>c \<in> set todo. \<forall>v p. fs_nodes s c = Some v \<longrightarrow> n_parent v = Some p \<longrightarrow> p \<notin> A - {r})
     \<and> (\<forall>i \<in> A - {r}. i \<in> set todo \<or> (\<exists>v p. fs_nodes s i = Some v \<and> n_parent v = Some p \<and> p \<in> A - {r})))"

lemma wipe_inv_step:
  assumes "tree_ok s" "wipe_inv s r A (c # todo)" "fs_nodes s c = Some n"
  shows "wipe_inv s r (A - {c}) (n_children n @ todo)"
proof -
  have I: "finite A" "r \<in> A" "A \<subseteq> dom (fs_nodes s)" "distinct (c # todo)" "set (c # todo) \<subseteq> A - {r}"
    "\<And>i v. i \<in> A - {r} \<Longrightarrow> fs_nodes s i = Some v \<Longrightarrow> set (n_children v) \<subseteq> A - {r}"
    "\<And>i v p. i \<in> set (c # todo) \<Longrightarrow> fs_nodes s i = Some v \<Longrightarrow> n_parent v = Some p \<Longrightarrow> p \<notin> A - {r}"
    "\<And>i. i \<in> A - {r} \<Longrightarrow> i \<in> set (c # todo) \<or> (\<exists>v p. fs_nodes s i = Some v \<and> n_parent v = Some p \<and> p \<in> A - {r})"
    using assms(2) unfolding wipe_inv_def by blast+
  note ok = node_okD [OF tree_okD [OF assms(1,3)]]
  have c: "c \<in> A - {r}" using I(5) by simp
  have parent: "n_parent v = Some i" if "fs_nodes s i = Some u" "x \<in> set (n_children u)" "fs_nodes s x = Some v" for i u x v
    using node_okD(6) [OF tree_okD [OF assms(1) that(1)] that(2)] that(3) by auto
  have kids: "\<exists>v. fs_nodes s x = Some v \<and> n_parent v = Some c" if "x \<in> set (n_children n)" for x using ok(6) [OF that] .
  have fresh: "x \<notin> set (c # todo)" if x: "x \<in> set (n_children n)" for x
    using kids [OF x] I(7) [of x] c by blast
  have "distinct (n_children n @ todo)"
    using fresh I(4) children_distinct [OF tree_okD [OF assms(1,3)]] by auto
  moreover have "set (n_children n @ todo) \<subseteq> A - {c} - {r}"
    using I(4,5) I(6) [OF c assms(3)] fresh by auto
  moreover have "set (n_children v) \<subseteq> A - {c} - {r}" if "i \<in> A - {c} - {r}" "fs_nodes s i = Some v" for i v
  proof -
    have "c \<notin> set (n_children v)" using parent [OF that(2) _ assms(3)] I(7) [of c n i] assms(3) that(1) by auto
    then show ?thesis using I(6) [OF _ that(2)] that(1) by blast
  qed
  moreover have "p \<notin> A - {c} - {r}" if "x \<in> set (n_children n @ todo)" "fs_nodes s x = Some v" "n_parent v = Some p" for x v p
  proof (cases "x \<in> set (n_children n)")
    case True
    then show ?thesis using kids [OF True] that by auto
  next
    case False
    then show ?thesis using I(7) [of x v p] that by auto
  qed
  moreover have "x \<in> set (n_children n @ todo) \<or> (\<exists>v p. fs_nodes s x = Some v \<and> n_parent v = Some p \<and> p \<in> A - {c} - {r})"
    if x: "x \<in> A - {c} - {r}" for x
  proof (cases "x \<in> set todo")
    case False
    then obtain v p where v: "fs_nodes s x = Some v" "n_parent v = Some p" "p \<in> A - {r}" using I(8) [of x] x by auto
    show ?thesis
    proof (cases "p = c")
      case True
      then show ?thesis using node_okD(7) [OF tree_okD [OF assms(1) v(1)] v(2)] assms(3) by auto
    next
      case False
      then show ?thesis using v by auto
    qed
  qed simp
  ultimately show ?thesis unfolding wipe_inv_def using I(1-3) c by auto
qed

lemma wipe_list_ok:
  assumes "tree_ok s" "wipe_inv s r A todo"
  shows "wipe_list todo (s\<lparr>fs_nodes := fs_nodes s |` A\<rparr>) = Some (s\<lparr>fs_nodes := fs_nodes s |` {r}\<rparr>)"
  using assms(2)
proof (induction "card A" arbitrary: A todo rule: less_induct)
  case less
  have I: "finite A" "r \<in> A" "A \<subseteq> dom (fs_nodes s)" "set todo \<subseteq> A - {r}"
    "\<And>i. i \<in> A - {r} \<Longrightarrow> i \<in> set todo \<or> (\<exists>v p. fs_nodes s i = Some v \<and> n_parent v = Some p \<and> p \<in> A - {r})"
    using less(2) unfolding wipe_inv_def by blast+
  show ?case
  proof (cases todo)
    case Nil
    have "A - {r} = {}"
    proof (rule ccontr)
      assume ne: "A - {r} \<noteq> {}"
      have m: "Min (A - {r}) \<in> A - {r}" using I(1) ne by (intro Min_in) auto
      then obtain v p where v: "fs_nodes s (Min (A - {r})) = Some v" "n_parent v = Some p" "p \<in> A - {r}" using I(5) [OF m] Nil by auto
      then have "p < Min (A - {r})" using node_okD(7) [OF tree_okD [OF assms(1) v(1)] v(2)] by simp
      then show False using Min_le [OF finite_Diff [OF I(1)] v(3)] by simp
    qed
    then have "A = {r}" using I(2) by auto
    then show ?thesis using Nil by (subst wipe_list.simps) simp
  next
    case (Cons c cs)
    then have c: "c \<in> A" "c \<noteq> r" using I(4) by auto
    then obtain n where n: "fs_nodes s c = Some n" using I(3) by auto
    have inv: "wipe_inv s r (A - {c}) (n_children n @ cs)" using wipe_inv_step [OF assms(1) _ n] less(2) Cons by simp
    have "card (A - {c}) < card A" using I(1) c by (intro psubset_card_mono) auto
    moreover have "(fs_nodes s |` A)(c := None) = fs_nodes s |` (A - {c})" by (auto simp: restrict_map_def)
    ultimately show ?thesis using less(1) [OF _ inv] Cons c n by (subst wipe_list.simps) simp
  qed
qed

lemma wipe_children_ok:
  assumes "tree_ok s" "fs_root s = Some r" "fs_nodes s r = Some w"
  shows "wipe_children r s = Some (s\<lparr>fs_nodes := [r \<mapsto> w\<lparr>n_children := []\<rparr>]\<rparr>)"
proof -
  let ?A = "dom (fs_nodes s)"
  have root: "n_parent w = None" using assms by (auto simp: tree_ok_def)
  have "?A \<subseteq> {..<fs_next s}" using node_okD(1) [OF tree_okD [OF assms(1)]] by auto
  then have fin: "finite ?A" by (rule finite_subset) simp
  have kid: "x \<in> ?A - {r} \<and> (\<exists>v. fs_nodes s x = Some v \<and> n_parent v = Some i)"
    if "fs_nodes s i = Some u" "x \<in> set (n_children u)" for i u x
    using node_okD(6) [OF tree_okD [OF assms(1) that(1)] that(2)] root assms(3) by auto
  have "x \<in> set (n_children w) \<or> (\<exists>v p. fs_nodes s x = Some v \<and> n_parent v = Some p \<and> p \<in> ?A - {r})" if x: "x \<in> ?A - {r}" for x
  proof -
    obtain v where v: "fs_nodes s x = Some v" using x by auto
    obtain p where p: "n_parent v = Some p" using node_okD(2) [OF tree_okD [OF assms(1) v]] assms(2) x by (cases "n_parent v") auto
    show ?thesis using node_okD(7) [OF tree_okD [OF assms(1) v] p] v p assms(3) by (cases "p = r") auto
  qed
  moreover have "p \<notin> ?A - {r}" if "x \<in> set (n_children w)" "fs_nodes s x = Some v" "n_parent v = Some p" for x v p
    using kid [OF assms(3) that(1)] that by auto
  moreover have "distinct (n_children w)" by (rule children_distinct [OF tree_okD [OF assms(1,3)]])
  ultimately have "wipe_inv s r ?A (n_children w)"
    unfolding wipe_inv_def using fin assms(3) kid by (auto simp: subset_iff domI)
  then have "wipe_list (n_children w) (s\<lparr>fs_nodes := fs_nodes s |` ?A\<rparr>) = Some (s\<lparr>fs_nodes := fs_nodes s |` {r}\<rparr>)"
    by (rule wipe_list_ok [OF assms(1)])
  moreover have "fs_nodes s |` ?A = fs_nodes s" by (auto simp: restrict_map_def fun_eq_iff domIff)
  moreover have "(fs_nodes s |` {r})(r \<mapsto> w\<lparr>n_children := []\<rparr>) = [r \<mapsto> w\<lparr>n_children := []\<rparr>]" by (auto simp: restrict_map_def)
  ultimately show ?thesis
    using assms(3) by (simp add: wipe_children_def upd_node_def put_node_def)
qed

section \<open>The rebuilt tree\<close>

text \<open>Every path leads to the same kind of node, with the same contents, in both trees.\<close>

definition same_paths :: "fs \<Rightarrow> fs \<Rightarrow> bool" where
  "same_paths s t = (\<forall>ts. rel_option (\<lambda>i j. rel_option same_node (fs_nodes s i) (fs_nodes t j) \<and> fs_nodes s i \<noteq> None)
     (resolve_walk (fs_root s) ts s) (resolve_walk (fs_root t) ts t))"

lemma find_map: "find P (map f xs) = map_option f (find (\<lambda>x. P (f x)) xs)"
  by (induction xs) simp_all

lemma loaded_children:
  assumes "load_inv sv D r m t" "length m = length D" "walk_inv sv root D []" "j < length D"
  obtains n w where "fs_nodes sv (fst (D ! j)) = Some n" "fs_nodes t (m ! j) = Some w" "same_node n w"
    "n_children n = map (\<lambda>i. fst (D ! i)) (child_indices D (length D) j)" "n_children w = map ((!) m) (child_indices D (length D) j)"
    "n_parent w = (if j = 0 then None else Some (m ! unat (snd (D ! j))))"
proof -
  obtain n where n: "fs_nodes sv (fst (D ! j)) = Some n" using walk_invD(2) [OF assms(3), of "D ! j"] assms(4) by auto
  have "\<exists>w. fs_nodes t (m ! j) = Some w \<and> copy_of sv D m j w" using assms(1,2,4) by (simp add: load_inv_def)
  then show ?thesis
    using that [OF n] n walk_invD(3) [OF assms(3,4) n] assms(2) by (auto simp: copy_of_def kids_indices)
qed

lemma finddir_loaded:
  assumes "load_inv sv D r m t" "length m = length D" "walk_inv sv root D []" "j < length D"
  shows "\<exists>x. (case x of Some k \<Rightarrow> k < length D | None \<Rightarrow> True) \<and> vfs_finddir (fst (D ! j)) nm sv = map_option (\<lambda>k. fst (D ! k)) x
    \<and> vfs_finddir (m ! j) nm t = map_option ((!) m) x"
proof -
  let ?cs = "child_indices D (length D) j"
  obtain n w where nw: "fs_nodes sv (fst (D ! j)) = Some n" "fs_nodes t (m ! j) = Some w" "same_node n w"
    "n_children n = map (\<lambda>i. fst (D ! i)) ?cs" "n_children w = map ((!) m) ?cs"
    by (rule loaded_children [OF assms])
  let ?P = "\<lambda>k. case fs_nodes sv (fst (D ! k)) of Some v \<Rightarrow> n_name v = nm | None \<Rightarrow> False"
  let ?Q = "\<lambda>k. case fs_nodes t (m ! k) of Some v \<Rightarrow> n_name v = nm | None \<Rightarrow> False"
  have "?P k = ?Q k" if k: "k \<in> set ?cs" for k
  proof -
    have "k < length D" using child_indices_bound [OF k] .
    then show ?thesis by (rule loaded_children [OF assms(1-3)]) (simp add: same_node_def)
  qed
  then have e: "find ?P ?cs = find ?Q ?cs" by (intro find_cong) auto
  let ?x = "if n_type n = VFS_DIRECTORY then find ?P ?cs else None"
  have "case ?x of Some k \<Rightarrow> k < length D | None \<Rightarrow> True"
  proof (cases ?x)
    case (Some k)
    then have "k \<in> set ?cs" by (auto simp: find_Some_iff split: if_splits)
    then show ?thesis using Some child_indices_bound by auto
  qed simp
  moreover have "n_type w = n_type n" using nw(3) by (simp add: same_node_def)
  ultimately show ?thesis
    using nw e by (intro exI [of _ ?x]) (simp add: vfs_finddir_def ramfs_finddir_def find_map)
qed

lemma resolve_loaded:
  assumes "load_inv sv D r m t" "length m = length D" "walk_inv sv root D []" "j < length D"
  shows "\<exists>x. (case x of Some k \<Rightarrow> k < length D | None \<Rightarrow> True) \<and> resolve_walk (Some (fst (D ! j))) ts sv = map_option (\<lambda>k. fst (D ! k)) x
    \<and> resolve_walk (Some (m ! j)) ts t = map_option ((!) m) x"
  using assms(4)
proof (induction ts arbitrary: j)
  case Nil
  then show ?case by (intro exI [of _ "Some j"]) simp
next
  case (Cons nm ts)
  obtain x where x: "case x of Some k \<Rightarrow> k < length D | None \<Rightarrow> True" "vfs_finddir (fst (D ! j)) nm sv = map_option (\<lambda>k. fst (D ! k)) x"
    "vfs_finddir (m ! j) nm t = map_option ((!) m) x"
    using finddir_loaded [OF assms(1-3) Cons.prems] by blast
  show ?case
  proof (cases x)
    case None
    then show ?thesis using x by (intro exI [of _ None]) simp
  next
    case (Some k)
    then show ?thesis using Cons.IH [of k] x by simp
  qed
qed

lemma loaded_same_paths:
  assumes "load_inv sv D r m t" "length m = length D" "walk_inv sv root D []" "fs_root sv = Some root" "fs_root t = Some r"
  shows "same_paths sv t"
  unfolding same_paths_def
proof
  fix ts
  have D0: "fst (D ! 0) = root" "0 < length D" using walk_invD(4,5) [OF assms(3)] by (auto simp: hd_conv_nth)
  have m0: "m ! 0 = r" using assms(1) by (simp add: load_inv_def)
  obtain x where x: "case x of Some k \<Rightarrow> k < length D | None \<Rightarrow> True" "resolve_walk (Some root) ts sv = map_option (\<lambda>k. fst (D ! k)) x"
    "resolve_walk (Some r) ts t = map_option ((!) m) x"
    using resolve_loaded [OF assms(1-3) D0(2), of ts] D0(1) m0 by auto
  show "rel_option (\<lambda>i j. rel_option same_node (fs_nodes sv i) (fs_nodes t j) \<and> fs_nodes sv i \<noteq> None)
     (resolve_walk (fs_root sv) ts sv) (resolve_walk (fs_root t) ts t)"
  proof (cases x)
    case None
    then show ?thesis using x assms(4,5) by simp
  next
    case (Some k)
    then have "k < length D" using x(1) by simp
    then have "rel_option same_node (fs_nodes sv (fst (D ! k))) (fs_nodes t (m ! k)) \<and> fs_nodes sv (fst (D ! k)) \<noteq> None"
      by (rule loaded_children [OF assms(1-3)]) simp
    then show ?thesis using x Some assms(4,5) by simp
  qed
qed

lemma loaded_tree_ok:
  assumes "load_inv sv D r m t" "length m = length D" "walk_inv sv root D []" "length D \<le> 16384" "tree_ok sv" "fs_root sv = Some root"
    and "fs_root t = Some r" "fs_vfs_root t = None \<or> fs_vfs_root t = Some r"
  shows "tree_ok t"
proof -
  have L: "sorted_wrt (<) m" "\<forall>x \<in> set m. x < fs_next t" "m ! 0 = r" "dom (fs_nodes t) = set m" "m \<noteq> []"
    using assms(1) by (auto simp: load_inv_def)
  note I = walk_invD [OF assms(3)]
  have D0: "fst (D ! 0) = root" "0 < length D" using I(4,5) by (auto simp: hd_conv_nth)
  have less: "m ! i < m ! k" if "i < k" "k < length D" for i k using sorted_wrt_nth_less [OF L(1)] that assms(2) by simp
  have par: "\<exists>i < k. unat (snd (D ! k)) = i \<and> snd (D ! k) = of_nat i" if k: "k < length D" "0 < k" for k
  proof -
    obtain i where "i < k" "snd (D ! k) = of_nat i" using I(7) [OF k] by auto
    then show ?thesis using k(1) assms(4) by (intro exI [of _ i]) simp
  qed
  have "node_ok x w t" if x: "fs_nodes t x = Some w" for x w
  proof -
    obtain j where j: "j < length D" "x = m ! j" using L(4) x assms(2) by (metis domI in_set_conv_nth)
    obtain n v where nv: "fs_nodes sv (fst (D ! j)) = Some n" "fs_nodes t (m ! j) = Some v" "same_node n v"
      "n_children n = map (\<lambda>i. fst (D ! i)) (child_indices D (length D) j)" "n_children v = map ((!) m) (child_indices D (length D) j)"
      "n_parent v = (if j = 0 then None else Some (m ! unat (snd (D ! j))))"
      by (rule loaded_children [OF assms(1-3) j(1)])
    have w: "w = v" using x nv(2) j(2) by simp
    note ok = node_okD [OF tree_okD [OF assms(5) nv(1)]]
    have "name (fs_nodes t (m ! i)) = name (fs_nodes sv (fst (D ! i)))"
      if "i \<in> set (child_indices D (length D) j)" "name = (\<lambda>z. case z of Some u \<Rightarrow> n_name u | None \<Rightarrow> [])" for i name
      using child_indices_bound [OF that(1)] that(2)
      by (elim loaded_children [OF assms(1-3)]) (simp add: same_node_def)
    then have names: "child_names v t = child_names n sv" unfolding child_names_def nv(4,5) by simp
    have kids: "\<exists>u. fs_nodes t c = Some u \<and> n_parent u = Some x" if "c \<in> set (n_children v)" for c
    proof -
      obtain i where i: "i \<in> set (child_indices D (length D) j)" "c = m ! i" using \<open>c \<in> _\<close> nv(5) by auto
      have il: "i < length D" "snd (D ! i) = of_nat j" using i(1) by (auto simp: child_indices_def)
      have "i \<noteq> 0" using il(2) I(4,5) of_nat_u32_root [of j] j(1) assms(4)
        by (cases "i = 0") (auto simp: hd_conv_nth)
      moreover have "unat (snd (D ! i)) = j" using il(2) j(1) assms(4) by simp
      ultimately show ?thesis
        using il(1) i(2) j(2) by (elim loaded_children [OF assms(1-3)]) simp
    qed
    have parent: "case n_parent v of None \<Rightarrow> fs_root t = Some x
        | Some p \<Rightarrow> p < x \<and> name_ok (n_name v) \<and> (\<exists>u. fs_nodes t p = Some u \<and> x \<in> set (n_children u))"
    proof (cases "j = 0")
      case True
      then show ?thesis using nv(6) j L(3) assms(7) by simp
    next
      case False
      then obtain i where i: "i < j" "unat (snd (D ! j)) = i" "snd (D ! j) = of_nat i" using par [OF j(1)] by auto
      have "n_parent n \<noteq> None"
      proof
        assume "n_parent n = None"
        then have "fst (D ! j) = fst (D ! 0)" using ok(2) assms(6) D0 by simp
        then have "map fst D ! j = map fst D ! 0" using j(1) D0(2) by simp
        then show False using nth_eq_iff_index_eq [of "map fst D" j 0] I(1) False j(1) D0(2) by simp
      qed
      then have "name_ok (n_name v)" using ok(7) nv(3) by (auto simp: same_node_def)
      moreover have "\<exists>u. fs_nodes t (m ! i) = Some u \<and> x \<in> set (n_children u)"
      proof -
        have il: "i < length D" using i(1) j(1) by simp
        have "j \<in> set (child_indices D (length D) i)" using i(3) j(1) by (simp add: child_indices_def)
        then show ?thesis using il j(2) by (elim loaded_children [OF assms(1-3)]) auto
      qed
      ultimately show ?thesis using False nv(6) i(1,2) less [OF i(1) j(1)] j(2) by simp
    qed
    have "x < fs_next t" using L(2) j assms(2) by simp
    then show ?thesis
      unfolding node_ok_def w using parent names ok(3,4,5) kids nv(3,4,5) by (auto simp: same_node_def)
  qed
  moreover have "\<exists>v. fs_nodes t r = Some v \<and> n_parent v = None \<and> n_type v = VFS_DIRECTORY"
  proof -
    obtain n where n: "fs_nodes sv root = Some n" "n_type n = VFS_DIRECTORY" using assms(5,6) by (auto simp: tree_ok_def)
    show ?thesis
      by (rule loaded_children [OF assms(1-3) D0(2)]) (use n D0 L(3) in \<open>simp add: same_node_def\<close>)
  qed
  ultimately show ?thesis unfolding tree_ok_def using assms(7,8) by simp
qed

section \<open>The saved image\<close>

definition records :: "fs \<Rightarrow> nat \<Rightarrow> u8 list" where
  "records s root = concat (map (record_of (fs_nodes s)) (walk (fs_nodes s) [(root, - 1)] 0))"

definition node_total :: "fs \<Rightarrow> nat \<Rightarrow> nat" where
  "node_total s root = length (walk (fs_nodes s) [(root, - 1)] 0)"

definition image_sectors :: "fs \<Rightarrow> nat \<Rightarrow> nat" where
  "image_sectors s root = (16 + length (records s root) + 511) div 512"

definition image_of :: "fs \<Rightarrow> nat \<Rightarrow> u8 list" where
  "image_of s root = u32_bytes DISKFS_MAGIC @ u32_bytes DISKFS_VERSION @ u32_bytes (of_nat (node_total s root)) @ u32_bytes (of_nat (16 + length (records s root)))
     @ records s root @ replicate (image_sectors s root * 512 - (16 + length (records s root))) 0"

lemma finished_image_eq:
  assumes "bytes = u32_bytes a @ u32_bytes b @ u32_bytes 0 @ u32_bytes 0 @ rs"
  shows "finished_image bytes c n =
    u32_bytes a @ u32_bytes b @ u32_bytes c @ u32_bytes (of_nat (16 + length rs)) @ rs @ replicate (n * 512 - (16 + length rs)) 0"
  unfolding finished_image_def assms by (simp add: splice_def)

lemma length_image: "length (image_of s root) = image_sectors s root * 512"
proof -
  have "16 + length (records s root) \<le> image_sectors s root * 512" unfolding image_sectors_def by linarith
  then show ?thesis by (simp add: image_of_def)
qed

lemma walk_inv_start:
  assumes "tree_ok s" "fs_root s = Some root"
  shows "walk_inv s root [] [(root, - 1)]"
  using assms by (auto simp: walk_inv_def tree_ok_def)

lemma base_lba_bounds:
  assumes "163904 < unat (dk_total d)"
  shows "unat (diskfs_base_lba d) = unat (dk_total d) - 131072"
proof -
  have "DISKFS_TAIL_SECTORS + BOOT_RESERVE_SECTORS < dk_total d" using assms by (simp add: word_less_nat_alt)
  moreover have "unat (dk_total d - DISKFS_TAIL_SECTORS) = unat (dk_total d) - 131072"
    using assms by (subst unat_minus_u32) (simp_all add: word_le_nat_alt)
  ultimately show ?thesis by (simp add: diskfs_base_lba_def ata_total_sectors_def)
qed

lemma read_run_prefix: "n \<le> m \<Longrightarrow> \<forall>x. length (s x) = 512 \<Longrightarrow> read_run s lba n = take (n * 512) (read_run s lba m)"
  using read_run_append [of s lba n "m - n"] length_read_run [of s lba n] by simp

lemma block_read_frame:
  assumes "mounted_on (unat (dk_total d)) b" "device_ok d" "163904 < unat (dk_total d)" "device_ok d'" "dk_total d' = dk_total d"
    and "\<And>x. 32768 + geo_sectors (unat (dk_total d)) \<le> x \<Longrightarrow> x < unat (dk_total d) - 131072 \<Longrightarrow> dk_sector d' x = dk_sector d x"
  shows "blockfs_read_block k b d' = blockfs_read_block k b d"
proof (cases "k < bf_total_blocks b")
  case True
  have "read_run (dk_sector d') (32768 + geo_sectors (unat (dk_total d)) + unat k * 8) 8 =
      read_run (dk_sector d) (32768 + geo_sectors (unat (dk_total d)) + unat k * 8) 8"
    by (rule read_run_cong) (use assms(6) block_lba(2) [OF assms(1,3) True] in auto)
  then show ?thesis
    using blockfs_read_block_ok [OF assms(1-3) True] blockfs_read_block_ok [of d' b k] assms True by simp
next
  case False
  then show ?thesis by (simp add: blockfs_read_block_def not_less)
qed

lemma diskfile_read_loop_cong:
  assumes "\<And>k. blockfs_read_block k b d' = blockfs_read_block k b d"
  shows "diskfile_read_loop bs off sz b d' got out = diskfile_read_loop bs off sz b d got out"
  using assms
proof (induction bs off sz b d got out rule: diskfile_read_loop.induct)
  case (1 bs off sz b d got out)
  show ?case
  proof (cases "got < sz")
    case True
    note IH = 1(1) [OF True refl refl refl refl]
    show ?thesis using 1(2) IH
      by (subst (1 2) diskfile_read_loop.simps) (auto simp: Let_def split: prod.split)
  next
    case False
    then show ?thesis by (subst (1 2) diskfile_read_loop.simps) simp
  qed
qed

lemma ramfs_read_frame:
  assumes "\<And>k. blockfs_read_block k (fs_blockfs s) (fs_disk t) = blockfs_read_block k (fs_blockfs s) (fs_disk s)"
    and "fs_blockfs t = fs_blockfs s"
  shows "ramfs_read n off sz t = ramfs_read n off sz s"
  using diskfile_read_loop_cong [OF assms(1)] assms(2) by (simp add: ramfs_read_def diskfile_read_def cong: option.case_cong)

section \<open>Saving\<close>

text \<open>The block storage is either absent or the one mounted from this disk.\<close>

definition storage_ok :: "fs \<Rightarrow> bool" where
  "storage_ok s = (device_ok (fs_disk s) \<and> (bf_available (fs_blockfs s) \<longrightarrow>
     163904 < unat (dk_total (fs_disk s)) \<and> mounted_on (unat (dk_total (fs_disk s))) (fs_blockfs s)))"

text \<open>The image fits the format's limits and the disk.\<close>

definition fits :: "fs \<Rightarrow> nat \<Rightarrow> bool" where
  "fits s root = (card (dom (fs_nodes s)) \<le> DISKFS_MAX_NODES \<and> 16 + length (records s root) \<le> unat DISKFS_MAX_IMAGE
     \<and> unat (diskfs_base_lba (fs_disk s)) + image_sectors s root \<le> unat (dk_total (fs_disk s)))"

lemma write_image_ok:
  assumes "storage_ok s" "fits s root" "grants_all s" "buffer_ok b" "count = node_total s root"
    and "b_bytes b = u32_bytes DISKFS_MAGIC @ u32_bytes DISKFS_VERSION @ u32_bytes 0 @ u32_bytes 0 @ records s root"
  shows "\<exists>d k. write_image b count s = Some (0, s\<lparr>fs_disk := d, fs_allocs := k\<rparr>) \<and> device_ok d \<and> dk_total d = dk_total (fs_disk s)
    \<and> read_run (dk_sector d) (unat (diskfs_base_lba (fs_disk s))) (image_sectors s root) = image_of s root
    \<and> (\<forall>k. blockfs_read_block k (fs_blockfs s) d = blockfs_read_block k (fs_blockfs s) (fs_disk s))"
proof -
  let ?d = "fs_disk s" and ?n = "image_sectors s root" and ?base = "diskfs_base_lba (fs_disk s)"
  let ?len = "16 + length (records s root)"
  have dev: "device_ok ?d" using assms(1) by (simp add: storage_ok_def)
  have L: "?len \<le> 67108864" "unat ?base + ?n \<le> unat (dk_total ?d)" using assms(2) by (simp_all add: fits_def)
  have len: "length (b_bytes b) = ?len" using assms(6) by simp
  have bl: "unat (b_len b) = ?len" unfolding b_len_def len by (rule unat_of_nat_u32) (use L(1) in simp)
  have "b_len b + 512 - 1 = b_len b + of_nat 511" by simp
  moreover have "unat (b_len b + of_nat 511) = ?len + 511" using bl L(1) by (subst unat_plus_u32) simp_all
  ultimately have se: "unat ((b_len b + 512 - 1) div 512) = ?n" by (simp only: unat_div image_sectors_def) simp
  have nle: "?n \<le> 131072" using L(1) unfolding image_sectors_def by linarith
  let ?sec = "(b_len b + 512 - 1) div 512" and ?img = "image_of s root"
  have img: "finished_image (b_bytes b) (of_nat count) (unat ?sec) = ?img"
    unfolding finished_image_eq [OF assms(6)] se by (simp add: image_of_def assms(5))
  have ge: "?len \<le> ?n * 512" "?n * 512 \<le> ?len + 511" unfolding image_sectors_def by linarith+
  have m: "unat (?sec * 512) = ?n * 512" using nle se by (subst unat_mult_u32) simp_all
  have ex: "unat (?sec * 512 - b_len b) = ?n * 512 - ?len"
    using ge(1) m bl by (subst unat_minus_u32) (simp_all add: word_le_nat_alt)
  have "length (b_bytes b) + unat (?sec * 512 - b_len b) \<le> 2 ^ 30" unfolding ex len using ge L(1) by simp
  then obtain b1 k1 where b1: "buf_ensure b (?sec * 512 - b_len b) s = Some (b1, s\<lparr>fs_allocs := k1\<rparr>)" "buffer_ok b1"
    using buf_ensure_ok [OF assms(4,3)] by blast
  have oom: "\<not> b_oom b1" using b1(2) by (simp add: buffer_ok_def)
  have t1: "\<not> DISKFS_TAIL_SECTORS < ?sec" using nle se by (simp add: word_less_nat_alt)
  have "unat (?base + ?sec) = unat ?base + ?n"
    using se L(2) unat_u32_bound [of "dk_total ?d"] by (subst unat_plus_u32) simp_all
  then have t2: "\<not> ata_total_sectors ?d < ?base + ?sec" using L(2) by (simp add: word_less_nat_alt ata_total_sectors_def)
  obtain d1 where d1: "write_chunks ata_write_sectors 32 ?base 0 (unat ?sec) ?img ?d = (True, d1)" "device_ok d1"
    "dk_total d1 = dk_total ?d" "dk_sector d1 = write_run (unat ?base) ?n ?img (dk_sector ?d)"
    using ata.write_chunks_ok [OF dev L(2), of 32 0 ?img] length_image [of s root] se
    by (auto simp: word_eq_iff_unsigned [where ?'a = nat])
  have rd: "read_run (dk_sector d1) (unat ?base) ?n = ?img"
    unfolding d1(4) by (rule read_write_run) (rule length_image)
  have w: "write_image b count s = (let s = s\<lparr>fs_allocs := k1, fs_disk := d1\<rparr>
       in if bf_available (fs_blockfs s)
          then let (ok, s) = kalloc s in Some (0, s\<lparr>fs_disk := snd (blockfs_flush_bitmap ok (fs_blockfs s) (fs_disk s))\<rparr>)
          else Some (0, s))"
    unfolding write_image_def Let_def img b1(1) bind.bind_lunit prod.case
    using oom t1 t2 d1(1) by simp
  show ?thesis
  proof (cases "bf_available (fs_blockfs s)")
    case False
    then have "write_image b count s = Some (0, s\<lparr>fs_disk := d1, fs_allocs := k1\<rparr>)" using w by simp
    moreover have "blockfs_read_block k (fs_blockfs s) d1 = blockfs_read_block k (fs_blockfs s) ?d" for k
      using False by (simp add: blockfs_read_block_def)
    ultimately show ?thesis using d1(2,3) rd by blast
  next
    case True
    then have mnt: "163904 < unat (dk_total ?d)" "mounted_on (unat (dk_total ?d)) (fs_blockfs s)"
      using assms(1) by (simp_all add: storage_ok_def)
    note g = geo_bounds [OF mnt(1)]
    have base: "unat ?base = unat (dk_total ?d) - 131072" by (rule base_lba_bounds [OF mnt(1)])
    obtain d2 sec where d2: "blockfs_flush_bitmap True (fs_blockfs s) d1 = (0, d2)" "device_ok d2" "unat (dk_total d2) = unat (dk_total d1)"
      "dk_sector d2 = write_run 32768 (geo_sectors (unat (dk_total d1))) sec (dk_sector d1)"
      using blockfs_flush_ok [of d1 "fs_blockfs s"] mnt d1(2,3) by metis
    have "write_image b count s = Some (0, s\<lparr>fs_disk := d2, fs_allocs := k1 + 1\<rparr>)"
      using w True assms(3) d2(1) by (simp add: kalloc_def)
    moreover have "dk_total d2 = dk_total ?d" using d2(3) d1(3) by (simp add: word_eq_iff_unsigned [where ?'a = nat])
    moreover have "read_run (dk_sector d2) (unat ?base) ?n = ?img"
      unfolding rd [symmetric] d2(4) by (rule read_write_run_other) (use base d1(3) g(5) in auto)
    moreover have "blockfs_read_block k (fs_blockfs s) d2 = blockfs_read_block k (fs_blockfs s) ?d" for k
      by (rule block_read_frame [OF mnt(2) dev mnt(1) d2(2)])
        (use d2(3,4) d1(3,4) base in \<open>auto simp: write_run_def word_eq_iff_unsigned [where ?'a = nat]\<close>)
    ultimately show ?thesis using d2(2) by blast
  qed
qed

section \<open>Saving and loading\<close>

lemma tree_fields [simp]:
  "records (s\<lparr>fs_allocs := k\<rparr>) root = records s root" "node_total (s\<lparr>fs_allocs := k\<rparr>) root = node_total s root"
  "image_sectors (s\<lparr>fs_allocs := k\<rparr>) root = image_sectors s root" "image_of (s\<lparr>fs_allocs := k\<rparr>) root = image_of s root"
  "fits (s\<lparr>fs_allocs := k\<rparr>) root = fits s root" "storage_ok (s\<lparr>fs_allocs := k\<rparr>) = storage_ok s"
  by (simp_all add: records_def node_total_def image_sectors_def image_of_def fits_def storage_ok_def)

lemma diskfs_save_ok:
  assumes "tree_ok s" "fs_root s = Some root" "all_storable s" "grants_all s" "storage_ok s" "fits s root"
  obtains d k where "diskfs_save s = Some (0, s\<lparr>fs_disk := d, fs_allocs := k\<rparr>)" "device_ok d" "dk_total d = dk_total (fs_disk s)"
    "read_run (dk_sector d) (unat (diskfs_base_lba (fs_disk s))) (image_sectors s root) = image_of s root"
    "\<And>k. blockfs_read_block k (fs_blockfs s) d = blockfs_read_block k (fs_blockfs s) (fs_disk s)"
proof -
  let ?b0 = "\<lparr>b_bytes = [], b_cap = 0, b_oom = False\<rparr>" and ?sb = "[u32_bytes DISKFS_MAGIC, u32_bytes DISKFS_VERSION, u32_bytes 0, u32_bytes 0]"
  have len: "16 + length (records s root) \<le> 67108864" using assms(6) by (simp add: fits_def)
  have ka: "kalloc s = (True, s\<lparr>fs_allocs := Suc (fs_allocs s)\<rparr>)" using assms(4) by (simp add: kalloc_def)
  obtain b1 k1 where b1: "buf_puts ?b0 ?sb (s\<lparr>fs_allocs := Suc (fs_allocs s)\<rparr>) = Some (b1, s\<lparr>fs_allocs := k1\<rparr>)"
    "buffer_ok b1" "b_bytes b1 = concat ?sb"
  proof -
    have "buffer_ok ?b0" by (simp add: buffer_ok_def)
    then show ?thesis
      using that buf_puts_ok [of ?b0 "s\<lparr>fs_allocs := Suc (fs_allocs s)\<rparr>" ?sb] assms(4) by (auto simp del: buf_puts.simps)
  qed
  have r: "fs_nodes s root \<noteq> None" using assms(1,2) by (auto simp: tree_ok_def)
  obtain b2 k2 where b2: "serialize_node [(root, - 1)] b1 0 (s\<lparr>fs_allocs := k1\<rparr>) = Some (b2, node_total s root, s\<lparr>fs_allocs := k2\<rparr>)"
    "buffer_ok b2" "b_bytes b2 = concat ?sb @ records s root"
    using serialize_walk [OF assms(1,3,4) b1(2), where todo = "[(root, - 1)]" and c = 0 and k = k1] r b1(3) len
    by (auto simp: records_def node_total_def simp del: walk.simps serialize_node.simps)
  have bytes: "b_bytes b2 = u32_bytes DISKFS_MAGIC @ u32_bytes DISKFS_VERSION @ u32_bytes 0 @ u32_bytes 0 @ records s root" using b2(3) by simp
  have "unat (b_len b2) = 16 + length (records s root)"
    unfolding b_len_def bytes using len unat_of_nat_u32 [of "16 + length (records s root)"] by simp
  then have small: "\<not> DISKFS_MAX_IMAGE < b_len b2" using len by (simp add: word_less_nat_alt)
  obtain d k where w: "write_image b2 (node_total s root) (s\<lparr>fs_allocs := k2\<rparr>) = Some (0, s\<lparr>fs_allocs := k2, fs_disk := d, fs_allocs := k\<rparr>)"
    "device_ok d" "dk_total d = dk_total (fs_disk s)"
    "read_run (dk_sector d) (unat (diskfs_base_lba (fs_disk s))) (image_sectors s root) = image_of s root"
    "\<And>k. blockfs_read_block k (fs_blockfs s) d = blockfs_read_block k (fs_blockfs s) (fs_disk s)"
    using write_image_ok [of "s\<lparr>fs_allocs := k2\<rparr>" root b2 "node_total s root"] assms(4-6) b2(2) bytes by auto
  have "ata_present (fs_disk s)" using assms(5) by (auto simp: storage_ok_def device_ok_def ata_present_def)
  then have "diskfs_save s = Some (0, s\<lparr>fs_disk := d, fs_allocs := k\<rparr>)"
    unfolding diskfs_save_def assms(2) using b2(2) small
    by (simp add: ka b1(1) b2(1) w(1) buffer_ok_def del: buf_puts.simps serialize_node.simps)
  then show ?thesis using that w(2-) by blast
qed

lemma superblock:
  obtains rest where "take 512 (image_of s root) = u32_bytes DISKFS_MAGIC @ u32_bytes DISKFS_VERSION @ u32_bytes (of_nat (node_total s root))
    @ u32_bytes (of_nat (16 + length (records s root))) @ rest"
  unfolding image_of_def by (simp add: u32_bytes_def)

lemma diskfs_load_ok:
  assumes "tree_ok s" "fs_root s = Some root" "all_storable s" "fits s root"
    and "device_ok (fs_disk t)" "dk_total (fs_disk t) = dk_total (fs_disk s)"
    and "read_run (dk_sector (fs_disk t)) (unat (diskfs_base_lba (fs_disk s))) (image_sectors s root) = image_of s root"
    and "tree_ok t" "all_storable t" "grants_all t"
  obtains t' where "diskfs_load t = Some (1, t')" "tree_ok t'" "same_paths s t'" "fs_disk t' = fs_disk t" "fs_blockfs t' = fs_blockfs t"
proof -
  let ?d = "fs_disk t" and ?base = "diskfs_base_lba (fs_disk t)" and ?n = "image_sectors s root"
  let ?len = "16 + length (records s root)" and ?D = "walk (fs_nodes s) [(root, - 1)] 0"
  let ?ib = "of_nat ?len :: u32" and ?nc = "of_nat (node_total s root) :: u32"
  have base: "?base = diskfs_base_lba (fs_disk s)" using assms(6) by (simp add: diskfs_base_lba_def ata_total_sectors_def)
  have F: "card (dom (fs_nodes s)) \<le> 16384" "?len \<le> 67108864" "unat ?base + ?n \<le> unat (dk_total ?d)"
    using assms(4,6) by (simp_all add: fits_def base)
  have inv: "walk_inv s root ?D []"
    using walk_complete [OF assms(1,2) F(1) walk_inv_start [OF assms(1,2)]] by simp
  have D: "?D \<noteq> []" "length ?D = node_total s root" using walk_invD(4) [OF inv] by (simp_all add: node_total_def)
  have "distinct (map fst ?D)" "\<And>e. e \<in> set ?D \<Longrightarrow> fs_nodes s (fst e) \<noteq> None" using walk_invD(1,2) [OF inv] by simp_all
  moreover have "finite (dom (fs_nodes s))"
    using finite_subset [of "dom (fs_nodes s)" "{..<fs_next s}"] node_okD(1) [OF tree_okD [OF assms(1)]] by auto
  ultimately have "length ?D \<le> card (dom (fs_nodes s))"
    using distinct_card [of "map fst ?D"] card_mono [of "dom (fs_nodes s)" "set (map fst ?D)"] by fastforce
  then have dl: "length ?D \<le> 16384" using F(1) by simp
  have nc: "unat ?nc = length ?D" using dl D(2) by simp
  have ib: "unat ?ib = ?len" by (rule unat_of_nat_u32) (use F(2) in simp)
  have n1: "1 \<le> ?n" "?len \<le> ?n * 512" unfolding image_sectors_def by linarith+
  have "?ib + 512 - 1 = ?ib + of_nat 511" by simp
  moreover have "unat (?ib + of_nat 511) = ?len + 511" using ib F(2) by (subst unat_plus_u32) simp_all
  ultimately have se: "unat ((?ib + 512 - 1) div 512) = ?n" by (simp only: unat_div image_sectors_def) simp
  have sz: "\<forall>x. length (dk_sector ?d x) = 512" using assms(5) by (simp add: device_ok_def)
  have img: "read_run (dk_sector ?d) (unat ?base) ?n = image_of s root" using assms(7) base by simp
  obtain rest where sb: "take 512 (image_of s root) = u32_bytes DISKFS_MAGIC @ u32_bytes DISKFS_VERSION @ u32_bytes ?nc @ u32_bytes ?ib @ rest"
    by (rule superblock)
  have rd1: "ata_read_sectors ?base 1 ?d = (0, take 512 (image_of s root))"
    using ata.rd_ok [OF assms(5), of 1 ?base] F(3) n1(1) read_run_prefix [OF n1(1) sz, of "unat ?base"] img by simp
  have "drop 0 (take 512 (image_of s root)) = u32_bytes DISKFS_MAGIC @ u32_bytes DISKFS_VERSION @ u32_bytes ?nc @ u32_bytes ?ib @ rest" using sb by simp
  note r0 = rd_u32_at [OF this] note r1 = rd_u32_at [OF r0(2)] note r2 = rd_u32_at [OF r1(2)] note r3 = rd_u32_at [OF r2(2)]
  have rd: "read_chunks ata_read_sectors 255 ?base 0 ?n [] ?d = Some (image_of s root)"
    using ata.read_chunks_ok [OF assms(5) F(3), of 255 0 "[]"] img by simp
  obtain r w where w: "fs_root t = Some r" "fs_nodes t r = Some w" "n_parent w = None" "n_type w = VFS_DIRECTORY"
    "fs_vfs_root t = None \<or> fs_vfs_root t = fs_root t" using assms(8) by (auto simp: tree_ok_def)
  have nd: "\<not> n_disk_backed w" using all_storableD [OF assms(9) w(2)] w(4) by (auto simp: storable_def split: if_splits)
  let ?t = "t\<lparr>fs_allocs := fs_allocs t + 2\<rparr>" and ?w = "w\<lparr>n_children := []\<rparr>"
  have tok: "tree_ok ?t" by (rule tree_ok_frame [OF assms(8)]) (use w(5) in simp_all)
  have wipe: "wipe_children r ?t = Some (?t\<lparr>fs_nodes := [r \<mapsto> ?w]\<rparr>)" by (rule wipe_children_ok [OF tok]) (use w in simp_all)
  have d16: "drop (unat (16 :: u32)) (image_of s root) = concat (map (record_of (fs_nodes s)) ?D) @ replicate (?n * 512 - ?len) 0"
    by (simp add: image_of_def records_def)
  obtain m' t' where ld: "load_nodes (length ?D) [] (image_of s root) ?ib 16 r (?t\<lparr>fs_nodes := [r \<mapsto> ?w]\<rparr>) = Some (1, t')"
    "load_inv s ?D r m' t'" "length m' = length ?D" "same_frame (?t\<lparr>fs_nodes := [r \<mapsto> ?w]\<rparr>) t'"
    using load_nodes_all [OF inv assms(1,2) dl assms(3), of "?t\<lparr>fs_nodes := [r \<mapsto> ?w]\<rparr>" r ?w 16 "image_of s root"
        "replicate (?n * 512 - ?len) 0" ?ib]
      w nd assms(10) d16 ib F(2) n1(2) length_image [of s root] node_okD(1) [OF tree_okD [OF assms(8) w(2)]]
    by (auto simp: records_def)
  have k2: "kalloc t = (True, t\<lparr>fs_allocs := fs_allocs t + 1\<rparr>)" "kalloc (t\<lparr>fs_allocs := fs_allocs t + 1\<rparr>) = (True, ?t)"
    using assms(10) by (simp_all add: kalloc_def)
  have "load_image ?base ?nc ?ib t = Some (1, t')"
    unfolding load_image_def Let_def se k2 prod.case
    using rd w(1) wipe ld(1) nc k2(2) by simp
  moreover have "?nc \<noteq> 0 \<and> \<not> of_nat DISKFS_MAX_NODES < ?nc" "\<not> ?ib < 16 \<and> \<not> DISKFS_MAX_IMAGE < ?ib"
    using nc dl D(1) ib F(2) by (auto simp: word_less_nat_alt)
  moreover have "ata_present ?d" using assms(5) by (auto simp: device_ok_def ata_present_def)
  ultimately have "diskfs_load t = Some (1, t')"
    unfolding diskfs_load_def Let_def rd1 prod.case using r0(1) r1(1) r2(1) r3(1) by simp
  moreover have "fs_root t' = Some r" "fs_vfs_root t' = None \<or> fs_vfs_root t' = Some r" "fs_disk t' = ?d" "fs_blockfs t' = fs_blockfs t"
    using ld(4) w(1,5) by (auto simp: same_frame_def)
  ultimately show ?thesis
    using that loaded_tree_ok [OF ld(2,3) inv dl assms(1,2)] loaded_same_paths [OF ld(2,3) inv assms(2)] by blast
qed

section \<open>Properties\<close>

text \<open>
  C1: files survive a reboot. For every well-formed tree within the limits of the format, on a disk
  without failing sectors, \<^verbatim>\<open>diskfs_save\<close> succeeds; and \<^verbatim>\<open>diskfs_load\<close> on whatever default tree the
  next boot starts with, given that disk and the block storage remounted from it, succeeds and ends
  in a well-formed tree in which every path leads to a node with the same name, type,
  permissions, owner, size, block list and contents as before, or to no node exactly when it
  did before. Every file record then reads the same bytes as on the disk before saving.
\<close>

theorem diskfs_save_load:
  assumes "tree_ok s" "fs_root s = Some root" "all_storable s" "grants_all s" "storage_ok s" "fits s root"
    and "tree_ok boot" "all_storable boot" "grants_all boot"
  shows "\<exists>s' t. diskfs_save s = Some (0, s') \<and> fs_nodes s' = fs_nodes s
    \<and> diskfs_load (boot\<lparr>fs_disk := fs_disk s', fs_blockfs := fs_blockfs s'\<rparr>) = Some (1, t)
    \<and> tree_ok t \<and> same_paths s t \<and> (\<forall>n off sz. ramfs_read n off sz t = ramfs_read n off sz s)"
proof -
  obtain d k where sv: "diskfs_save s = Some (0, s\<lparr>fs_disk := d, fs_allocs := k\<rparr>)" "device_ok d" "dk_total d = dk_total (fs_disk s)"
    "read_run (dk_sector d) (unat (diskfs_base_lba (fs_disk s))) (image_sectors s root) = image_of s root"
    "\<And>k. blockfs_read_block k (fs_blockfs s) d = blockfs_read_block k (fs_blockfs s) (fs_disk s)"
    using diskfs_save_ok [OF assms(1-6)] by blast
  let ?t = "boot\<lparr>fs_disk := d, fs_blockfs := fs_blockfs s\<rparr>"
  have tok: "tree_ok ?t"
    by (rule tree_ok_frame [OF assms(7)]) (use assms(7) in \<open>simp_all add: tree_ok_def\<close>)
  have st: "all_storable ?t" using assms(8) by (simp add: all_storable_def)
  have dev: "device_ok (fs_disk ?t)" "dk_total (fs_disk ?t) = dk_total (fs_disk s)" "grants_all ?t"
    "read_run (dk_sector (fs_disk ?t)) (unat (diskfs_base_lba (fs_disk s))) (image_sectors s root) = image_of s root"
    using sv(2-4) assms(9) by simp_all
  obtain t where t: "diskfs_load ?t = Some (1, t)" "tree_ok t" "same_paths s t" "fs_disk t = d" "fs_blockfs t = fs_blockfs s"
    using diskfs_load_ok [OF assms(1-3,6) dev(1,2,4) tok st dev(3)] by auto
  have "ramfs_read n off sz t = ramfs_read n off sz s" for n off sz
    by (rule ramfs_read_frame) (use sv(5) t(4,5) in simp_all)
  then show ?thesis using sv(1) t(1-3) by (intro exI [of _ "s\<lparr>fs_disk := d, fs_allocs := k\<rparr>"] exI [of _ t]) simp
qed

section \<open>Witness\<close>

lemma example_all_storable: "all_storable example_tree" "all_storable example_tree2"
  by (auto simp: all_storable_def storable_def example_defs data_size_def data_bytes_def split: if_splits)

lemma example_walk: "walk (fs_nodes example_tree2) [(1, - 1)] 0 = [(1, - 1), (2, 0)]"
  by (simp add: example_defs)

lemma example_fits: "fits example_tree2 1"
proof -
  have "dom (fs_nodes example_tree2) = {1, 2}" by (auto simp: example_defs)
  moreover have r: "length (records example_tree2 1) = 66"
    by (simp add: records_def example_walk record_of_def node_bytes_def header_pieces_def payload_pieces_def
      example_defs on_disk_def data_size_def string_bytes_def)
  moreover have "fs_disk example_tree2 = example_disk" by (simp add: example_defs)
  moreover have "unat (diskfs_base_lba example_disk) + 1 \<le> unat (dk_total example_disk)"
    using base_lba_bounds [OF example_disk(2)] example_disk(2) by simp
  ultimately show ?thesis by (simp add: fits_def image_sectors_def)
qed

theorem diskfs_save_load_witness:
  "\<exists>s' t. diskfs_save example_tree2 = Some (0, s')
    \<and> diskfs_load (example_tree\<lparr>fs_disk := fs_disk s', fs_blockfs := fs_blockfs s'\<rparr>) = Some (1, t)
    \<and> tree_ok t \<and> same_paths example_tree2 t"
proof -
  have "fs_root example_tree2 = Some 1" "grants_all example_tree2" "grants_all example_tree" by (simp_all add: example_defs)
  moreover have "storage_ok example_tree2"
    using example_disk(1) by (simp add: storage_ok_def example_defs blank_blockfs_def)
  ultimately show ?thesis
    using diskfs_save_load [OF example_tree2 _ example_all_storable(2) _ _ example_fits example_tree example_all_storable(1)] by blast
qed

end
