(* ===== verification/CString.thy ===== *)
theory CString
  imports Kheap "HOL-Library.Sublist"
begin

text \<open>
  The string routines of \<^verbatim>\<open>lib/string.c\<close> over byte memory. A loop that runs until
  it meets a terminating zero is a partial function whose value is \<open>None\<close> when it
  never ends. \<open>cstring_at m a s\<close> says that the zero-terminated string \<open>s\<close> is stored at
  \<open>a\<close>; the lemmas show what each routine computes on such strings, which is what the
  components that treat strings as values rely on. Signed \<^verbatim>\<open>int\<close> arithmetic is
  32-bit two's complement; null is the address 0.
\<close>

section \<open>Character classes\<close>

definition isdigit :: "int \<Rightarrow> bool" where "isdigit c \<longleftrightarrow> 48 \<le> c \<and> c \<le> 57"
definition isalpha :: "int \<Rightarrow> bool" where "isalpha c \<longleftrightarrow> 97 \<le> c \<and> c \<le> 122 \<or> 65 \<le> c \<and> c \<le> 90"
definition isalnum :: "int \<Rightarrow> bool" where "isalnum c \<longleftrightarrow> isalpha c \<or> isdigit c"
definition isspace :: "int \<Rightarrow> bool" where
  "isspace c \<longleftrightarrow> c = 32 \<or> c = 9 \<or> c = 10 \<or> c = 13 \<or> c = 11 \<or> c = 12"
definition toupper :: "int \<Rightarrow> int" where "toupper c = (if 97 \<le> c \<and> c \<le> 122 then c - 32 else c)"
definition tolower :: "int \<Rightarrow> int" where "tolower c = (if 65 \<le> c \<and> c \<le> 90 then c + 32 else c)"

section \<open>Length, copy and comparison\<close>

partial_function (option) strlen_from :: "nat \<Rightarrow> nat \<Rightarrow> mem \<Rightarrow> nat option" where
  "strlen_from s n m = (if m (s + n) \<noteq> 0 then strlen_from s (n + 1) m else Some n)"

definition strlen :: "nat \<Rightarrow> mem \<Rightarrow> nat option" where
  "strlen s m = strlen_from s 0 m"

partial_function (option) strcpy :: "nat \<Rightarrow> nat \<Rightarrow> mem \<Rightarrow> mem option" where
  "strcpy d s m =
     (if m s \<noteq> 0 then strcpy (d + 1) (s + 1) (m(d := m s)) else Some (m(d := m s)))"

function strncpy_copy :: "nat \<Rightarrow> nat \<Rightarrow> nat \<Rightarrow> nat \<Rightarrow> mem \<Rightarrow> nat \<times> mem" where
  "strncpy_copy d s n i m =
     (if i < n \<and> m (s + i) \<noteq> 0 then strncpy_copy d s n (i + 1) (m(d + i := m (s + i))) else (i, m))"
  by pat_completeness auto
termination by (relation "measure (\<lambda>(d, s, n, i, m). n - i)") auto

function strncpy_pad :: "nat \<Rightarrow> nat \<Rightarrow> nat \<Rightarrow> mem \<Rightarrow> mem" where
  "strncpy_pad d n i m = (if i < n then strncpy_pad d n (i + 1) (m(d + i := 0)) else m)"
  by pat_completeness auto
termination by (relation "measure (\<lambda>(d, n, i, m). n - i)") auto

definition strncpy :: "nat \<Rightarrow> nat \<Rightarrow> nat \<Rightarrow> mem \<Rightarrow> mem" where
  "strncpy d s n m = (case strncpy_copy d s n 0 m of (i, m) \<Rightarrow> strncpy_pad d n i m)"

partial_function (option) strcmp :: "nat \<Rightarrow> nat \<Rightarrow> mem \<Rightarrow> int option" where
  "strcmp a b m =
     (if m a \<noteq> 0 \<and> m a = m b then strcmp (a + 1) (b + 1) m else Some (uint (m a) - uint (m b)))"

function strncmp_from :: "nat \<Rightarrow> nat \<Rightarrow> nat \<Rightarrow> nat \<Rightarrow> mem \<Rightarrow> int" where
  "strncmp_from a b n i m =
     (if i < n
      then if m (a + i) \<noteq> m (b + i) \<or> m (a + i) = 0 then uint (m (a + i)) - uint (m (b + i))
           else strncmp_from a b n (i + 1) m
      else 0)"
  by pat_completeness auto
termination by (relation "measure (\<lambda>(a, b, n, i, m). n - i)") auto

definition strncmp :: "nat \<Rightarrow> nat \<Rightarrow> nat \<Rightarrow> mem \<Rightarrow> int" where
  "strncmp a b n m = strncmp_from a b n 0 m"

definition strcat :: "nat \<Rightarrow> nat \<Rightarrow> mem \<Rightarrow> mem option" where
  "strcat d s m = Option.bind (strlen d m) (\<lambda>l. strcpy (d + l) s m)"

text \<open>The copy loop of \<^verbatim>\<open>strncat\<close> is the one of \<^verbatim>\<open>strncpy\<close>, with its own terminator.\<close>

definition strncat :: "nat \<Rightarrow> nat \<Rightarrow> nat \<Rightarrow> mem \<Rightarrow> mem option" where
  "strncat d s n m =
     map_option (\<lambda>l. case strncpy_copy (d + l) s n 0 m of (i, m) \<Rightarrow> m(d + l + i := 0)) (strlen d m)"

section \<open>Searching\<close>

partial_function (option) strchr :: "nat \<Rightarrow> u32 \<Rightarrow> mem \<Rightarrow> nat option" where
  "strchr s c m =
     (if m s \<noteq> 0 then if m s = ucast c then Some s else strchr (s + 1) c m
      else Some (if c = 0 then s else 0))"

partial_function (option) strrchr_from :: "nat \<Rightarrow> u32 \<Rightarrow> nat \<Rightarrow> mem \<Rightarrow> nat option" where
  "strrchr_from s c found m =
     (let found = (if m s = ucast c then s else found)
      in if m s \<noteq> 0 then strrchr_from (s + 1) c found m else Some found)"

definition strrchr :: "nat \<Rightarrow> u32 \<Rightarrow> mem \<Rightarrow> nat option" where
  "strrchr s c m = strrchr_from s c 0 m"

partial_function (option) strstr_match :: "nat \<Rightarrow> nat \<Rightarrow> mem \<Rightarrow> nat option" where
  "strstr_match h n m =
     (if m h \<noteq> 0 \<and> m n \<noteq> 0 \<and> m h = m n then strstr_match (h + 1) (n + 1) m else Some n)"

partial_function (option) strstr_from :: "nat \<Rightarrow> nat \<Rightarrow> mem \<Rightarrow> nat option" where
  "strstr_from haystack needle m =
     (if m haystack \<noteq> 0
      then Option.bind (strstr_match haystack needle m)
             (\<lambda>n. if m n = 0 then Some haystack else strstr_from (haystack + 1) needle m)
      else Some 0)"

definition strstr :: "nat \<Rightarrow> nat \<Rightarrow> mem \<Rightarrow> nat option" where
  "strstr haystack needle m =
     (if m needle = 0 then Some haystack else strstr_from haystack needle m)"

text \<open>
  \<^verbatim>\<open>strtok\<close>: the static save pointer is threaded through; the result is the token,
  the new save pointer and the memory.
\<close>

partial_function (option) strtok_span :: "bool \<Rightarrow> nat \<Rightarrow> nat \<Rightarrow> mem \<Rightarrow> nat option" where
  "strtok_span skipping save delim m =
     (if m save \<noteq> 0
      then Option.bind (strchr delim (scast (m save)) m)
             (\<lambda>r. if (r \<noteq> 0) = skipping then strtok_span skipping (save + 1) delim m else Some save)
      else Some save)"

definition strtok :: "nat \<Rightarrow> nat \<Rightarrow> nat \<Rightarrow> mem \<Rightarrow> (nat \<times> nat \<times> mem) option" where
  "strtok str delim save m =
     (let save = (if str \<noteq> 0 then str else save)
      in if save = 0 then Some (0, save, m)
         else Option.bind (strtok_span True save delim m) (\<lambda>save.
           if m save = 0 then Some (0, 0, m)
           else let token = save
                in map_option (\<lambda>save. if m save \<noteq> 0 then (token, save + 1, m(save := 0)) else (token, 0, m))
                     (strtok_span False save delim m)))"

definition strdup :: "nat \<Rightarrow> kheap \<Rightarrow> (nat \<times> kheap) option" where
  "strdup s h =
     Option.bind (strlen s (kh_mem h)) (\<lambda>l.
       map_option (\<lambda>(p, h). (p, if p \<noteq> 0 then h\<lparr>kh_mem := memcpy p s (l + 1) (kh_mem h)\<rparr> else h))
         (kmalloc (of_nat (l + 1)) h))"

section \<open>Numbers\<close>

partial_function (option) atoi_spaces :: "nat \<Rightarrow> mem \<Rightarrow> nat option" where
  "atoi_spaces s m = (if isspace (sint (m s)) then atoi_spaces (s + 1) m else Some s)"

partial_function (option) atoi_digits :: "nat \<Rightarrow> u32 \<Rightarrow> mem \<Rightarrow> u32 option" where
  "atoi_digits s result m =
     (if isdigit (sint (m s)) then atoi_digits (s + 1) (result * 10 + (scast (m s) - 48)) m
      else Some result)"

definition atoi :: "nat \<Rightarrow> mem \<Rightarrow> u32 option" where
  "atoi s m =
     Option.bind (atoi_spaces s m) (\<lambda>s.
       let (sign, s) = (if m s = 45 then (- 1, s + 1) else if m s = 43 then (1, s + 1) else (1, s))
       in map_option (\<lambda>result. sign * result) (atoi_digits s 0 m))"

function str_reverse_from :: "nat \<Rightarrow> int \<Rightarrow> int \<Rightarrow> mem \<Rightarrow> mem" where
  "str_reverse_from buf i j m =
     (if i < j
      then let t = m (buf + nat i);
               m = m(buf + nat i := m (buf + nat j));
               m = m(buf + nat j := t)
           in str_reverse_from buf (i + 1) (j - 1) m
      else m)"
  by pat_completeness auto
termination by (relation "measure (\<lambda>(buf, i, j, m). nat (j - i))") auto

definition str_reverse :: "nat \<Rightarrow> nat \<Rightarrow> mem \<Rightarrow> mem" where
  "str_reverse buf len m = str_reverse_from buf 0 (int len - 1) m"

definition digit_char :: "u32 \<Rightarrow> u8" where
  "digit_char rem = (if rem < 10 then 48 + ucast rem else 97 + ucast rem - 10)"

text \<open>The digit loop; a zero base is a division fault and base 1 never ends, both \<open>None\<close>.\<close>

partial_function (option) itoa_digits :: "u32 \<Rightarrow> u32 \<Rightarrow> nat \<Rightarrow> nat \<Rightarrow> mem \<Rightarrow> (nat \<times> mem) option" where
  "itoa_digits uv base buf i m =
     (if uv \<noteq> 0
      then if base = 0 then None
           else itoa_digits (uv div base) base buf (i + 1) (m(buf + i := digit_char (uv mod base)))
      else Some (i, m))"

definition itoa :: "u32 \<Rightarrow> nat \<Rightarrow> u32 \<Rightarrow> mem \<Rightarrow> mem option" where
  "itoa value buf base m =
     (if value = 0 then Some (m(buf := 48, buf + 1 := 0))
      else let negative = (base = 10 \<and> sint value < 0);
               uv = (if negative then - value else value)
           in map_option (\<lambda>(i, m).
                let (i, m) = (if negative then (i + 1, m(buf + i := 45)) else (i, m))
                in str_reverse buf i (m(buf + i := 0)))
              (itoa_digits uv base buf 0 m))"

definition hex_char :: "bool \<Rightarrow> u32 \<Rightarrow> u8" where
  "hex_char upper d = (if d < 10 then 48 + ucast d else (if upper then 65 else 97) + ucast d - 10)"

function itoa_hex_digits :: "u32 \<Rightarrow> bool \<Rightarrow> nat \<Rightarrow> nat \<Rightarrow> mem \<Rightarrow> nat \<times> mem" where
  "itoa_hex_digits value upper buf i m =
     (if value \<noteq> 0
      then itoa_hex_digits (drop_bit 4 value) upper buf (i + 1) (m(buf + i := hex_char upper (value AND 0xF)))
      else (i, m))"
  by pat_completeness auto
termination
proof (relation "measure (\<lambda>(value, upper, buf, i, m). unat value)", goal_cases)
  case (2 v upper buf i m)
  then have "0 < unat v" by (simp add: unat_gt_0)
  then show ?case by (simp add: drop_bit_eq_div unat_div)
qed simp

definition itoa_hex :: "u32 \<Rightarrow> nat \<Rightarrow> bool \<Rightarrow> mem \<Rightarrow> mem" where
  "itoa_hex value buf upper m =
     (if value = 0 then m(buf := 48, buf + 1 := 0)
      else case itoa_hex_digits value upper buf 0 m of (i, m) \<Rightarrow> str_reverse buf i (m(buf + i := 0)))"


section \<open>Strings in memory\<close>

fun cstring_at :: "mem \<Rightarrow> nat \<Rightarrow> u8 list \<Rightarrow> bool" where
  "cstring_at m a [] \<longleftrightarrow> m a = 0"
| "cstring_at m a (c # s) \<longleftrightarrow> m a = c \<and> c \<noteq> 0 \<and> cstring_at m (a + 1) s"

declare strncpy_copy.simps [simp del] strncpy_pad.simps [simp del] strncmp_from.simps [simp del]
  str_reverse_from.simps [simp del] itoa_hex_digits.simps [simp del]

lemma cstring_at_iff:
  "cstring_at m a s \<longleftrightarrow> (\<forall>i < length s. m (a + i) = s ! i) \<and> m (a + length s) = 0 \<and> 0 \<notin> set s"
proof (induction s arbitrary: a)
  case (Cons c s)
  have "(\<forall>i < Suc (length s). m (a + i) = (c # s) ! i) \<longleftrightarrow>
      m a = c \<and> (\<forall>i < length s. m (Suc a + i) = s ! i)"
    by (auto simp: less_Suc_eq_0_disj)
  with Cons.IH [of "a + 1"] show ?case by auto
qed simp

lemma cstring_at_cong:
  "\<forall>x. a \<le> x \<and> x \<le> a + length s \<longrightarrow> m x = m' x \<Longrightarrow> cstring_at m a s = cstring_at m' a s"
  by (simp add: cstring_at_iff)

lemma cstring_at_append:
  "cstring_at m a (s @ t) \<longleftrightarrow> (\<forall>i < length s. m (a + i) = s ! i) \<and> 0 \<notin> set s \<and> cstring_at m (a + length s) t"
proof (induction s arbitrary: a)
  case (Cons c s)
  have "(\<forall>i < Suc (length s). m (a + i) = (c # s) ! i) \<longleftrightarrow>
      m a = c \<and> (\<forall>i < length s. m (Suc a + i) = s ! i)"
    by (auto simp: less_Suc_eq_0_disj)
  with Cons.IH [of "a + 1"] show ?case by auto
qed simp

lemma cstring_at_char:
  assumes "cstring_at m a s" "i \<le> length s"
  shows "m (a + i) = (if i < length s then s ! i else 0)" and "m (a + i) \<noteq> 0 \<longleftrightarrow> i < length s"
proof -
  show c: "m (a + i) = (if i < length s then s ! i else 0)"
    using assms by (auto simp: cstring_at_iff)
  have "0 \<notin> set s" using assms(1) by (simp add: cstring_at_iff)
  then show "m (a + i) \<noteq> 0 \<longleftrightarrow> i < length s" unfolding c by (metis nth_mem)
qed

lemma cstring_at_drop: "cstring_at m a s \<Longrightarrow> k \<le> length s \<Longrightarrow> cstring_at m (a + k) (drop k s)"
  by (auto simp: cstring_at_iff add.assoc dest: in_set_dropD)

lemma cstring_at_unique: "cstring_at m a s \<Longrightarrow> cstring_at m a t \<Longrightarrow> s = t"
proof (induction s arbitrary: a t)
  case Nil
  then show ?case by (cases t) auto
next
  case (Cons c s)
  then show ?case by (cases t) auto
qed

lemma strlen_from_at: "cstring_at m (a + n) s \<Longrightarrow> strlen_from a n m = Some (n + length s)"
proof (induction s arbitrary: n)
  case Nil
  then show ?case by (subst strlen_from.simps) simp
next
  case (Cons c s)
  then show ?case by (subst strlen_from.simps) simp
qed

lemma strlen_at: "cstring_at m a s \<Longrightarrow> strlen a m = Some (length s)"
  by (simp add: strlen_def strlen_from_at)

text \<open>Copying is right when the destination starts below the source or beyond its terminator.\<close>

lemma strcpy_at:
  assumes "cstring_at m a s" "d \<le> a \<or> a + length s < d"
  shows "strcpy d a m = Some (copied d a (length s + 1) m)"
  using assms
proof (induction s arbitrary: a d m)
  case Nil
  then show ?case by (subst strcpy.simps) (auto simp: copied_def fun_eq_iff)
next
  case (Cons c s)
  let ?m = "m(d := m a)"
  have "cstring_at ?m (a + 1) s"
    using Cons.prems cstring_at_cong [of "a + 1" s m ?m] by auto
  moreover have "d + 1 \<le> a + 1 \<or> a + 1 + length s < d + 1" using Cons.prems(2) by auto
  ultimately have "strcpy (d + 1) (a + 1) ?m = Some (copied (d + 1) (a + 1) (length s + 1) ?m)"
    by (rule Cons.IH)
  moreover have "copied (d + 1) (a + 1) (length s + 1) ?m = copied d a (length (c # s) + 1) m"
    using Cons.prems(2) by (auto simp: copied_def fun_eq_iff intro!: arg_cong [of _ _ m])
  ultimately show ?case using Cons.prems(1) by (subst strcpy.simps) simp
qed

lemma cstring_at_copied: "cstring_at m a s \<Longrightarrow> cstring_at (copied d a (length s + 1) m) d s"
  by (auto simp: cstring_at_iff copied_def)

lemma strcat_at:
  assumes "cstring_at m d s" "cstring_at m a t"
    and "d + length s + length t < a \<or> a + length t < d"
  obtains m' where "strcat d a m = Some m'" "cstring_at m' d (s @ t)"
    "\<forall>x. x < d + length s \<or> d + length s + length t < x \<longrightarrow> m' x = m x"
proof (rule that)
  let ?m = "copied (d + length s) a (length t + 1) m"
  show "strcat d a m = Some ?m"
    using strlen_at [OF assms(1)] strcpy_at [OF assms(2), of "d + length s"] assms(3) by (auto simp: strcat_def)
  have "cstring_at ?m (d + length s) t" by (rule cstring_at_copied [OF assms(2)])
  moreover have "\<forall>i < length s. ?m (d + i) = s ! i" "0 \<notin> set s"
    using assms(1) by (auto simp: cstring_at_iff copied_def)
  ultimately show "cstring_at ?m d (s @ t)" by (simp add: cstring_at_append)
  show "\<forall>x. x < d + length s \<or> d + length s + length t < x \<longrightarrow> ?m x = m x" by (auto simp: copied_def)
qed

lemma strncpy_copy_at:
  assumes "cstring_at m a s" "d + n \<le> a \<or> a + length s < d" "i \<le> length s" "i \<le> n"
  shows "strncpy_copy d a n i m =
     (min n (length s), \<lambda>x. if d + i \<le> x \<and> x < d + min n (length s) then s ! (x - d) else m x)"
  using assms
proof (induction d a n i m rule: strncpy_copy.induct)
  case (1 d a n i m)
  have b: "m (a + i) \<noteq> 0 \<longleftrightarrow> i < length s" and v: "i < length s \<Longrightarrow> m (a + i) = s ! i"
    using cstring_at_char [OF 1(2,4)] by simp_all
  show ?case
  proof (cases "i < n \<and> m (a + i) \<noteq> 0")
    case True
    let ?m = "m(d + i := m (a + i))"
    have at: "cstring_at ?m a s"
      using 1(2,3) True cstring_at_cong [of a s m ?m] by auto
    have "strncpy_copy d a n (i + 1) ?m =
     (min n (length s), \<lambda>x. if d + (i + 1) \<le> x \<and> x < d + min n (length s) then s ! (x - d) else ?m x)"
      using True b 1(3) by (intro 1(1) at) auto
    with True b v show ?thesis
      by (subst strncpy_copy.simps) (auto simp: fun_eq_iff min_def)
  next
    case False
    then have "i = n \<or> i = length s" using b 1(4,5) by auto
    with False 1(4,5) show ?thesis by (subst strncpy_copy.simps) (auto simp: fun_eq_iff min_def)
  qed
qed

lemma strncpy_pad_apply:
  "strncpy_pad d n i m = (\<lambda>x. if d + i \<le> x \<and> x < d + n then 0 else m x)"
proof (induction d n i m rule: strncpy_pad.induct)
  case (1 d n i m)
  show ?case
  proof (cases "i < n")
    case True
    have "strncpy_pad d n i m = strncpy_pad d n (i + 1) (m(d + i := 0))"
      using True by (subst strncpy_pad.simps) simp
    then show ?thesis unfolding 1 [OF True] using True by (auto simp: fun_eq_iff)
  next
    case False
    then show ?thesis by (subst strncpy_pad.simps) (auto simp: fun_eq_iff)
  qed
qed

text \<open>\<^verbatim>\<open>strncpy\<close> fills exactly \<open>n\<close> bytes: the string cut to \<open>n\<close>, then zeros.\<close>

lemma strncpy_at:
  assumes "cstring_at m a s" "d + n \<le> a \<or> a + length s < d"
  shows "strncpy d a n m =
     (\<lambda>x. if d \<le> x \<and> x < d + n then (if x - d < length s then s ! (x - d) else 0) else m x)"
  using strncpy_copy_at [OF assms, of 0]
  by (auto simp: strncpy_def strncpy_pad_apply fun_eq_iff min_def)

text \<open>
  The kernel's idiom for a bounded copy, \<^verbatim>\<open>strncpy(d, s, n - 1); d[n - 1] = 0\<close>, stores the
  string cut to \<open>n - 1\<close> characters.
\<close>

lemma strncpy_bounded_at:
  assumes "cstring_at m a s" "d + n \<le> a \<or> a + length s < d" "0 < n"
  shows "cstring_at ((strncpy d a (n - 1) m)(d + (n - 1) := 0)) d (take (n - 1) s)"
proof -
  have "d + (n - 1) \<le> a \<or> a + length s < d" using assms(2) by auto
  note e = strncpy_at [OF assms(1) this]
  have "0 \<notin> set (take (n - 1) s)" using assms(1) by (auto simp: cstring_at_iff dest: in_set_takeD)
  then show ?thesis unfolding e using assms(3) by (auto simp: cstring_at_iff min_def)
qed

lemma strncat_at:
  assumes "cstring_at m d s" "cstring_at m a t"
    and "d + length s + n < a \<or> a + length t < d"
  obtains m' where "strncat d a n m = Some m'" "cstring_at m' d (s @ take n t)"
    "\<forall>x. x < d + length s \<or> d + length s + min n (length t) < x \<longrightarrow> m' x = m x"
proof (rule that)
  let ?l = "min n (length t)"
  let ?m = "(\<lambda>x. if d + length s \<le> x \<and> x < d + length s + ?l then t ! (x - (d + length s)) else m x)
     (d + length s + ?l := 0)"
  show "strncat d a n m = Some ?m"
    using strlen_at [OF assms(1)] strncpy_copy_at [OF assms(2), of "d + length s" n 0] assms(3)
    by (auto simp: strncat_def)
  have "\<forall>i < length s. ?m (d + i) = s ! i" "0 \<notin> set s" "0 \<notin> set (take n t)"
    using assms(1,2) by (auto simp: cstring_at_iff dest: in_set_takeD)
  moreover have "cstring_at ?m (d + length s) (take n t)"
    using \<open>0 \<notin> set (take n t)\<close> by (auto simp: cstring_at_iff min_def)
  ultimately show "cstring_at ?m d (s @ take n t)" by (simp add: cstring_at_append)
  show "\<forall>x. x < d + length s \<or> d + length s + ?l < x \<longrightarrow> ?m x = m x" by auto
qed

lemma strcmp_at:
  assumes "cstring_at m a s" "cstring_at m b t"
  shows "\<exists>r. strcmp a b m = Some r \<and> (r = 0 \<longleftrightarrow> s = t) \<and> (r < 0 \<longleftrightarrow> (s, t) \<in> lexord {(x, y). x < y})"
  using assms
proof (induction s arbitrary: a b t)
  case Nil
  have "0 < uint (m b) \<longleftrightarrow> m b \<noteq> 0" using word_gt_0 [of "m b"] unfolding word_less_def by simp
  with Nil show ?case
    by (cases t) (simp_all add: strcmp.simps [of a b m] uint_0_iff)
next
  case (Cons c s)
  show ?case
  proof (cases t)
    case Nil
    then show ?thesis using Cons.prems by (simp add: strcmp.simps [of a b m] uint_0_iff)
  next
    case (Cons e t')
    then show ?thesis
    proof (cases "c = e")
      case True
      with Cons Cons.prems show ?thesis
        using Cons.IH [of "a + 1" "b + 1" t'] by (simp add: strcmp.simps [of a b m])
    next
      case False
      with Cons Cons.prems show ?thesis
        by (auto simp: strcmp.simps [of a b m] word_less_def word_uint_eq_iff)
    qed
  qed
qed


section \<open>Searching for a substring\<close>

lemma strstr_match_at:
  assumes "cstring_at m h s" "cstring_at m n t"
  shows "\<exists>k. strstr_match h n m = Some (n + k) \<and> (m (n + k) = 0 \<longleftrightarrow> prefix t s)"
  using assms
proof (induction s arbitrary: h n t)
  case Nil
  then show ?case
    by (intro exI [of _ 0]) (cases t; simp add: strstr_match.simps [of h n])
next
  case (Cons c s)
  show ?case
  proof (cases "\<exists>t'. t = c # t'")
    case True
    then obtain t' where t': "t = c # t'" by blast
    from Cons.IH [of "h + 1" "n + 1" t'] Cons.prems t'
    obtain k where "strstr_match (h + 1) (n + 1) m = Some (n + 1 + k)" "m (n + 1 + k) = 0 \<longleftrightarrow> prefix t' s"
      by auto
    then show ?thesis using Cons.prems t'
      by (intro exI [of _ "Suc k"]) (simp add: strstr_match.simps [of h n])
  next
    case False
    then show ?thesis using Cons.prems
      by (intro exI [of _ 0]) (cases t; auto simp: strstr_match.simps [of h n])
  qed
qed

lemma strstr_from_at:
  assumes "cstring_at m h s" "cstring_at m n t" "t \<noteq> []"
  shows "\<exists>r. strstr_from h n m = Some r \<and>
     ((\<exists>k. r = h + k \<and> prefix t (drop k s) \<and> (\<forall>j < k. \<not> prefix t (drop j s)))
      \<or> r = 0 \<and> (\<forall>k. \<not> prefix t (drop k s)))"
  using assms
proof (induction s arbitrary: h)
  case Nil
  then show ?case by (simp add: strstr_from.simps [of h n])
next
  case (Cons c s)
  obtain k where k: "strstr_match h n m = Some (n + k)" "m (n + k) = 0 \<longleftrightarrow> prefix t (c # s)"
    using strstr_match_at [OF Cons.prems(1,2)] by blast
  show ?case
  proof (cases "prefix t (c # s)")
    case True
    then show ?thesis using k Cons.prems(1) by (auto simp: strstr_from.simps [of h n] intro: exI [of _ 0])
  next
    case False
    have "\<exists>r. strstr_from (h + 1) n m = Some r \<and>
     ((\<exists>k. r = h + 1 + k \<and> prefix t (drop k s) \<and> (\<forall>j < k. \<not> prefix t (drop j s)))
      \<or> r = 0 \<and> (\<forall>k. \<not> prefix t (drop k s)))"
      using Cons.prems by (intro Cons.IH) auto
    then obtain r where r: "strstr_from (h + 1) n m = Some r"
      and d: "(\<exists>k. r = h + 1 + k \<and> prefix t (drop k s) \<and> (\<forall>j < k. \<not> prefix t (drop j s)))
        \<or> r = 0 \<and> (\<forall>k. \<not> prefix t (drop k s))" by blast
    have "strstr_from h n m = Some r" using k r False Cons.prems(1) by (simp add: strstr_from.simps [of h n])
    moreover from d show ?thesis
    proof
      assume "\<exists>k. r = h + 1 + k \<and> prefix t (drop k s) \<and> (\<forall>j < k. \<not> prefix t (drop j s))"
      then obtain k where "r = h + 1 + k" "prefix t (drop k s)" "\<forall>j < k. \<not> prefix t (drop j s)" by blast
      with False have "r = h + Suc k \<and> prefix t (drop (Suc k) (c # s)) \<and> (\<forall>j < Suc k. \<not> prefix t (drop j (c # s)))"
        by (auto simp: less_Suc_eq_0_disj)
      with calculation show ?thesis by blast
    next
      assume "r = 0 \<and> (\<forall>k. \<not> prefix t (drop k s))"
      then have "r = 0 \<and> (\<forall>k. \<not> prefix t (drop k (c # s)))" using False by (auto simp: drop_Cons split: nat.split)
      with calculation show ?thesis by blast
    qed
  qed
qed

section \<open>Printing and reading numbers\<close>

function digits :: "u32 \<Rightarrow> u32 \<Rightarrow> u8 list" where
  "digits base uv = (if uv = 0 \<or> base < 2 then [] else digit_char (uv mod base) # digits base (uv div base))"
  by pat_completeness auto
termination
proof (relation "measure (\<lambda>(base, uv). unat uv)", goal_cases)
  case (2 base uv)
  then have "0 < unat uv" "1 < unat base" by (auto simp: unat_gt_0 word_less_nat_alt)
  then show ?case by (simp add: unat_div)
qed simp

declare digits.simps [simp del]

lemma itoa_digits_at:
  assumes "2 \<le> base"
  shows "itoa_digits uv base buf i m =
     Some (i + length (digits base uv),
       \<lambda>x. if buf + i \<le> x \<and> x < buf + i + length (digits base uv) then digits base uv ! (x - (buf + i)) else m x)"
  using assms
proof (induction base uv arbitrary: i m rule: digits.induct)
  case (1 base uv)
  have b: "base \<noteq> 0" "\<not> base < 2" using 1(2) by auto
  show ?case
  proof (cases "uv = 0")
    case True
    then show ?thesis by (subst itoa_digits.simps) (auto simp: digits.simps fun_eq_iff)
  next
    case False
    let ?d = "digits base (uv div base)" and ?m = "m(buf + i := digit_char (uv mod base))"
    have d: "digits base uv = digit_char (uv mod base) # ?d" using False b by (simp add: digits.simps [of base uv])
    have "itoa_digits uv base buf i m = itoa_digits (uv div base) base buf (i + 1) ?m"
      using False b by (subst itoa_digits.simps) simp
    also have "\<dots> = Some (i + 1 + length ?d,
        \<lambda>x. if buf + (i + 1) \<le> x \<and> x < buf + (i + 1) + length ?d then ?d ! (x - (buf + (i + 1))) else ?m x)"
      using False b 1(2) by (intro 1(1)) auto
    finally show ?thesis unfolding d by (auto simp: fun_eq_iff nth_Cons split: nat.splits intro!: arg_cong [of _ _ "(!) (digits base (uv div base))"])
  qed
qed

lemma str_reverse_from_apply:
  assumes "0 \<le> i"
  shows "str_reverse_from buf i j m x =
     (if int buf + i \<le> int x \<and> int x \<le> int buf + j then m (nat (2 * int buf + i + j - int x)) else m x)"
  using assms
proof (induction buf i j m arbitrary: rule: str_reverse_from.induct)
  case (1 buf i j m)
  show ?case
  proof (cases "i < j")
    case True
    let ?m = "m(buf + nat i := m (buf + nat j), buf + nat j := m (buf + nat i))"
    have u: "str_reverse_from buf i j m = str_reverse_from buf (i + 1) (j - 1) ?m"
      using True by (subst str_reverse_from.simps) (simp add: Let_def)
    have IH: "str_reverse_from buf (i + 1) (j - 1) ?m x =
      (if int buf + (i + 1) \<le> int x \<and> int x \<le> int buf + (j - 1)
       then ?m (nat (2 * int buf + (i + 1) + (j - 1) - int x)) else ?m x)"
      using True 1(2) by (intro 1(1)) auto
    consider "int x = int buf + i" | "int x = int buf + j" | "int buf + i < int x" "int x < int buf + j"
      | "int x < int buf + i \<or> int buf + j < int x" by linarith
    then show ?thesis
    proof cases
      assume x: "int x = int buf + i"
      then have "x = buf + nat i" "nat (2 * int buf + i + j - int x) = buf + nat j" using True 1(2) by auto
      then show ?thesis unfolding u IH using x True by auto
    next
      assume x: "int x = int buf + j"
      then have "x = buf + nat j" "nat (2 * int buf + i + j - int x) = buf + nat i" using True 1(2) by auto
      then show ?thesis unfolding u IH using x True by auto
    next
      assume x: "int buf + i < int x" "int x < int buf + j"
      have e: "2 * int buf + (i + 1) + (j - 1) - int x = 2 * int buf + i + j - int x" by simp
      from x have "nat (2 * int buf + i + j - int x) \<noteq> buf + nat i" "nat (2 * int buf + i + j - int x) \<noteq> buf + nat j"
        using True 1(2) by auto
      then show ?thesis unfolding u IH e using x True by auto
    next
      assume x: "int x < int buf + i \<or> int buf + j < int x"
      then have "x \<noteq> buf + nat i" "x \<noteq> buf + nat j" using True 1(2) by linarith+
      then show ?thesis unfolding u IH using x True by auto
    qed
  next
    case False
    then have "nat (2 * int buf + i + j - int x) = x" if "int buf + i \<le> int x" "int x \<le> int buf + j"
      using that by linarith
    with False show ?thesis by (subst str_reverse_from.simps) auto
  qed
qed

lemma cstring_at_reverse:
  assumes "\<forall>i < length s. m (buf + i) = s ! i" "0 \<notin> set s" "m (buf + length s) = 0"
  shows "cstring_at (str_reverse buf (length s) m) buf (rev s)"
proof -
  have "str_reverse buf (length s) m (buf + i) = rev s ! i" if "i < length s" for i
  proof -
    have "nat (2 * int buf + 0 + (int (length s) - 1) - int (buf + i)) = buf + (length s - 1 - i)"
      using that by auto
    then have "str_reverse buf (length s) m (buf + i) = m (buf + (length s - 1 - i))"
      using that by (simp add: str_reverse_def str_reverse_from_apply)
    also have "\<dots> = s ! (length s - 1 - i)" by (rule assms(1) [rule_format]) (use that in simp)
    finally show ?thesis using that by (simp add: rev_nth)
  qed
  moreover have "str_reverse buf (length s) m (buf + length s) = 0"
    using assms(3) by (simp add: str_reverse_def str_reverse_from_apply)
  ultimately show ?thesis using assms(2) by (simp add: cstring_at_iff)
qed


lemma small_digit:
  assumes "(d :: u32) < 10"
  shows "digit_char d = 48 + ucast d" "isdigit (sint (digit_char d))" "scast (digit_char d) - 48 = d"
    "digit_char d \<noteq> 0" "\<not> isspace (sint (digit_char d))" "digit_char d \<noteq> 45" "digit_char d \<noteq> 43"
proof -
  have "unat d < 10" using assms by (simp add: word_less_nat_alt)
  then have "unat d \<in> set [0..<10]" by simp
  then have "d \<in> of_nat ` set [0..<10]" by (metis image_eqI of_nat_unat ucast_id)
  then have "d \<in> {0, 1, 2, 3, 4, 5, 6, 7, 8, 9}" by (simp add: upt_rec)
  then show "digit_char d = 48 + ucast d" "isdigit (sint (digit_char d))" "scast (digit_char d) - 48 = d"
    "digit_char d \<noteq> 0" "\<not> isspace (sint (digit_char d))" "digit_char d \<noteq> 45" "digit_char d \<noteq> 43"
    by (auto simp: digit_char_def isdigit_def isspace_def)
qed

lemma digits_10_chars: "\<forall>c \<in> set (digits 10 uv). \<exists>d < 10. c = digit_char d"
proof (induction "10 :: u32" uv rule: digits.induct)
  case (1 uv)
  have "uv mod 10 < 10" by (simp add: word_less_nat_alt unat_mod)
  with 1 show ?case by (subst digits.simps) auto
qed

definition digit_step :: "u32 \<Rightarrow> u8 \<Rightarrow> u32" where
  "digit_step r c = r * 10 + (scast c - 48)"

lemma digits_10_value: "foldr (\<lambda>c r. digit_step r c) (digits 10 uv) 0 = uv"
proof (induction "10 :: u32" uv rule: digits.induct)
  case (1 uv)
  show ?case
  proof (cases "uv = 0")
    case True
    then show ?thesis by (simp add: digits.simps)
  next
    case False
    have "uv mod 10 < 10" by (simp add: word_less_nat_alt unat_mod)
    then have "digit_step (uv div 10) (digit_char (uv mod 10)) = uv"
      using small_digit(3) [of "uv mod 10"] by (simp add: digit_step_def div_mult_mod_eq)
    then show ?thesis using 1 False by (subst digits.simps) simp
  qed
qed

lemma atoi_digits_at:
  assumes "cstring_at m a s" "\<forall>c \<in> set s. isdigit (sint c)"
  shows "atoi_digits a r m = Some (foldl digit_step r s)"
  using assms
proof (induction s arbitrary: a r)
  case Nil
  then show ?case by (subst atoi_digits.simps) (simp add: isdigit_def)
next
  case (Cons c s)
  then show ?case by (subst atoi_digits.simps) (simp add: digit_step_def [symmetric])
qed

lemma atoi_at:
  assumes "cstring_at m a s" "s \<noteq> []" "\<forall>c \<in> set s. \<exists>d < 10. c = digit_char d"
  shows "atoi a m = Some (foldl digit_step 0 s)"
    and "\<lbrakk>cstring_at m b (45 # s); b = a - 1; 0 < a\<rbrakk> \<Longrightarrow> atoi b m = Some (- foldl digit_step 0 s)"
proof -
  have dg: "\<forall>c \<in> set s. isdigit (sint c)" using assms(3) small_digit(2) by auto
  obtain d s' where s: "s = digit_char d # s'" "d < 10" using assms(2,3) by (cases s) auto
  have c: "m a = digit_char d" using assms(1) s by simp
  show "atoi a m = Some (foldl digit_step 0 s)"
    using small_digit [OF s(2)] c atoi_digits_at [OF assms(1) dg]
    by (simp add: atoi_def atoi_spaces.simps [of a m])
  assume b: "cstring_at m b (45 # s)" "b = a - 1" "0 < a"
  then have "m b = 45" "b + 1 = a" by auto
  then show "atoi b m = Some (- foldl digit_step 0 s)"
    using atoi_digits_at [OF assms(1) dg] by (simp add: atoi_def atoi_spaces.simps [of b m] isspace_def)
qed

lemma itoa_at:
  fixes v :: u32
  assumes "v \<noteq> 0"
  defines "uv \<equiv> if sint v < 0 then - v else v"
  obtains m' where "itoa v buf 10 m = Some m'"
    "cstring_at m' buf ((if sint v < 0 then [45] else []) @ rev (digits 10 uv))"
proof -
  let ?ds = "digits 10 uv" and ?neg = "sint v < 0"
  let ?s = "?ds @ (if ?neg then [45] else [])"
  define m1 where "m1 = (\<lambda>x. if buf \<le> x \<and> x < buf + length ?ds then ?ds ! (x - buf) else m x)"
  define m2 where "m2 = (if ?neg then m1(buf + length ?ds := 45) else m1)"
  have d: "itoa_digits uv 10 buf 0 m = Some (length ?ds, m1)"
    using itoa_digits_at [of 10 uv buf 0 m] by (simp add: m1_def cong: if_cong)
  have it: "itoa v buf 10 m = Some (str_reverse buf (length ?s) (m2(buf + length ?s := 0)))"
    using assms(1) d by (auto simp: itoa_def Let_def m2_def uv_def)
  have nz: "0 \<notin> set ?s" using digits_10_chars [of uv] small_digit(4) by auto
  have "\<forall>i < length ?s. (m2(buf + length ?s := 0)) (buf + i) = ?s ! i"
    by (auto simp: m2_def m1_def nth_append)
  then have "cstring_at (str_reverse buf (length ?s) (m2(buf + length ?s := 0))) buf (rev ?s)"
    by (rule cstring_at_reverse [OF _ nz]) simp
  moreover have "rev ?s = (if ?neg then [45] else []) @ rev ?ds" by simp
  ultimately show ?thesis using that [OF it] by argo
qed

section \<open>Properties\<close>

text \<open>
  \<^verbatim>\<open>strcmp\<close> on two stored strings returns, its result is zero exactly when the strings are
  equal and negative exactly when the first precedes the second in byte-wise lexicographic order.
\<close>

theorem strcmp_correct:
  assumes "cstring_at m a s" "cstring_at m b t"
  shows "\<exists>r. strcmp a b m = Some r \<and> (r = 0 \<longleftrightarrow> s = t) \<and> (r < 0 \<longleftrightarrow> (s, t) \<in> lexord {(x, y). x < y})"
  by (rule strcmp_at [OF assms])

text \<open>
  \<^verbatim>\<open>strstr\<close> returns the address of the first occurrence of the needle in the haystack,
  and null exactly when there is none.
\<close>

theorem strstr_correct:
  assumes "cstring_at m h s" "cstring_at m n t"
  shows "\<exists>r. strstr h n m = Some r \<and>
     ((\<exists>k. r = h + k \<and> prefix t (drop k s) \<and> (\<forall>j < k. \<not> prefix t (drop j s)))
      \<or> r = 0 \<and> (\<forall>k. \<not> prefix t (drop k s)))"
proof (cases t)
  case Nil
  then show ?thesis using assms by (auto simp: strstr_def intro: exI [of _ 0])
next
  case (Cons c t')
  then show ?thesis using strstr_from_at [OF assms] assms(2) by (simp add: strstr_def)
qed

text \<open>
  Printing any 32-bit signed integer in base 10 with \<^verbatim>\<open>itoa\<close> and reading it back with
  \<^verbatim>\<open>atoi\<close> gives the same integer, the most negative one included.
\<close>

theorem atoi_itoa_roundtrip: "\<exists>m'. itoa v buf 10 m = Some m' \<and> atoi buf m' = Some v"
proof (cases "v = 0")
  case True
  let ?m = "m(buf := 48, buf + 1 := 0)"
  have z: "\<exists>d < 10. 48 = digit_char d" by (intro exI [of _ 0]) (simp add: digit_char_def)
  have "atoi buf ?m = Some (foldl digit_step 0 [48])" by (rule atoi_at(1)) (use z in auto)
  with True show ?thesis by (simp add: itoa_def digit_step_def)
next
  case False
  define uv where "uv = (if sint v < 0 then - v else v)"
  have uv: "uv \<noteq> 0" using False by (simp add: uv_def)
  let ?ds = "rev (digits 10 uv)"
  obtain m' where m': "itoa v buf 10 m = Some m'" "cstring_at m' buf ((if sint v < 0 then [45] else []) @ ?ds)"
    using itoa_at [OF False, of buf m] unfolding uv_def by blast
  have ne: "?ds \<noteq> []" using uv by (simp add: digits.simps [of 10 uv])
  have ch: "\<forall>c \<in> set ?ds. \<exists>d < 10. c = digit_char d" using digits_10_chars by simp
  have val: "foldl digit_step 0 ?ds = uv" using digits_10_value [of uv] by (simp add: foldl_conv_foldr)
  show ?thesis
  proof (cases "sint v < 0")
    case True
    have "cstring_at m' (buf + 1) ?ds" using m'(2) True by simp
    from atoi_at(2) [OF this ne ch, of buf] m' val True show ?thesis by (simp add: uv_def)
  next
    case False
    then show ?thesis using atoi_at(1) [OF _ ne ch, of m' buf] m' val by (simp add: uv_def)
  qed
qed

definition example_strings :: mem where
  "example_strings = (\<lambda>_. 0)(16 := 97, 17 := 98, 18 := 99, 32 := 98, 33 := 99)"

lemma example_strings: "cstring_at example_strings 16 [97, 98, 99]" "cstring_at example_strings 32 [98, 99]"
  by (simp_all add: example_strings_def)

theorem strcmp_correct_witness: "\<exists>r. strcmp 16 32 example_strings = Some r \<and> r < 0"
  using strcmp_correct [OF example_strings] by (auto simp: lexord_cons_cons)

theorem strstr_correct_witness: "strstr 16 32 example_strings = Some 17"
proof -
  define P where "P k \<longleftrightarrow> prefix [98, 99 :: u8] (drop k [97, 98, 99])" for k
  have p: "P 1" "\<not> P 0" by (simp_all add: P_def)
  obtain r where r: "strstr 16 32 example_strings = Some r"
    "(\<exists>k. r = 16 + k \<and> P k \<and> (\<forall>j < k. \<not> P j)) \<or> r = 0 \<and> (\<forall>k. \<not> P k)"
    using strstr_correct [OF example_strings] unfolding P_def [symmetric] by blast
  then obtain k where k: "r = 16 + k" "P k" "\<forall>j < k. \<not> P j" using p(1) by blast
  have "k \<noteq> 0" "\<not> 1 < k" using k(2,3) p by (metis, blast)
  then have "k = 1" by linarith
  then show ?thesis using r(1) k(1) by simp
qed

end
