(* ===== verification/Printf.thy ===== *)
theory Printf
  imports CString
begin

text \<open>
  Formatted output, \<^verbatim>\<open>lib/printf.c\<close>. A sink is either a buffer with a capacity or the console; the
  engine \<open>format\<close> interprets the format string character by character and takes its arguments
  from a list (\<open>None\<close>: an argument is missing or has the wrong type, which is undefined in C).
  Texts are lists of characters without terminator; the lemmas \<open>itoa_text_stored\<close> and
  \<open>hex_text_stored\<close> connect the number texts with what \<^verbatim>\<open>itoa\<close> and \<^verbatim>\<open>itoa_hex\<close> store in memory.
\<close>

section \<open>Numbers as text\<close>

definition byte_char :: "u8 \<Rightarrow> char" where
  "byte_char b = char_of (unat b)"

definition digit_text :: "u8 list \<Rightarrow> string" where
  "digit_text ds = rev (map byte_char ds)"

definition unsigned_text :: "u32 \<Rightarrow> string" where
  "unsigned_text v = (if v = 0 then ''0'' else digit_text (digits 10 v))"

definition itoa_text :: "u32 \<Rightarrow> string" where
  "itoa_text v = (if v = 0 then ''0''
                  else if sint v < 0 then CHR ''-'' # digit_text (digits 10 (- v)) else digit_text (digits 10 v))"

function hex_digits :: "bool \<Rightarrow> u32 \<Rightarrow> u8 list" where
  "hex_digits upper v = (if v = 0 then [] else hex_char upper (v AND 0xF) # hex_digits upper (drop_bit 4 v))"
  by pat_completeness auto
termination
proof (relation "measure (\<lambda>(upper, v). unat v)", goal_cases)
  case (2 upper v)
  then have "0 < unat v" by (simp add: unat_gt_0)
  then show ?case by (simp add: drop_bit_eq_div unat_div)
qed simp

declare hex_digits.simps [simp del]

definition hex_text :: "bool \<Rightarrow> u32 \<Rightarrow> string" where
  "hex_text upper v = (if v = 0 then ''0'' else digit_text (hex_digits upper v))"

text \<open>The texts are what the conversion routines of \<^verbatim>\<open>lib/string.c\<close> leave in memory.\<close>

lemma byte_char_inverse: "(of_char (byte_char b) :: u8) = b"
proof -
  have "(of_char (char_of (unat b)) :: nat) = unat b" using unat_u8_bound [of b] by simp
  then have "of_nat (of_char (char_of (unat b)) :: nat) = b" by (simp only: of_nat_unat ucast_id)
  then show ?thesis by (simp only: byte_char_def of_nat_of_char)
qed

lemma digit_text_bytes: "map of_char (digit_text ds) = rev ds"
  by (simp add: digit_text_def rev_map byte_char_inverse comp_def)

lemma itoa_text_stored: "\<exists>m'. itoa v buf 10 m = Some m' \<and> cstring_at m' buf (map of_char (itoa_text v))"
proof (cases "v = 0")
  case True
  then show ?thesis by (simp add: itoa_def itoa_text_def)
next
  case False
  obtain m' where "itoa v buf 10 m = Some m'"
    "cstring_at m' buf ((if sint v < 0 then [45] else []) @ rev (digits 10 (if sint v < 0 then - v else v)))"
    by (rule itoa_at [OF False])
  then show ?thesis using False by (auto simp: itoa_text_def digit_text_bytes)
qed

lemma itoa_hex_digits_at:
  "itoa_hex_digits v upper buf i m =
     (i + length (hex_digits upper v),
      \<lambda>x. if buf + i \<le> x \<and> x < buf + i + length (hex_digits upper v) then hex_digits upper v ! (x - (buf + i)) else m x)"
proof (induction upper v arbitrary: i m rule: hex_digits.induct)
  case (1 upper v)
  show ?case
  proof (cases "v = 0")
    case True
    then show ?thesis by (auto simp: itoa_hex_digits.simps hex_digits.simps fun_eq_iff)
  next
    case False
    let ?ds = "hex_digits upper (drop_bit 4 v)"
    have ds: "hex_digits upper v = hex_char upper (v AND 0xF) # ?ds" using False by (subst hex_digits.simps) simp
    have "itoa_hex_digits v upper buf i m =
        itoa_hex_digits (drop_bit 4 v) upper buf (i + 1) (m(buf + i := hex_char upper (v AND 0xF)))"
      using False by (subst itoa_hex_digits.simps) simp
    then show ?thesis unfolding 1 [OF False] ds by (auto simp: fun_eq_iff nth_Cons')
  qed
qed

lemma hex_digits_nonzero: "0 \<notin> set (hex_digits upper v)"
proof (induction upper v rule: hex_digits.induct)
  case (1 upper v)
  have "hex_char upper (v AND 0xF) \<noteq> 0"
  proof -
    have "v AND 0xF = take_bit 4 v" by (simp add: take_bit_eq_mask mask_eq_exp_minus_1)
    then have "unat (v AND 0xF) < 16" by (simp add: take_bit_eq_mod unat_mod)
    then have "v AND 0xF \<in> of_nat ` set [0..<16]" by (metis atLeast0LessThan atLeast_upt image_eqI lessThan_iff of_nat_unat ucast_id)
    then show ?thesis by (auto simp: upt_rec hex_char_def)
  qed
  with 1 show ?case by (subst hex_digits.simps) auto
qed

lemma hex_text_stored: "cstring_at (itoa_hex v buf upper m) buf (map of_char (hex_text upper v))"
proof (cases "v = 0")
  case True
  then show ?thesis by (simp add: itoa_hex_def hex_text_def)
next
  case False
  let ?ds = "hex_digits upper v"
  have "cstring_at (str_reverse buf (length ?ds)
      ((\<lambda>x. if buf \<le> x \<and> x < buf + length ?ds then ?ds ! (x - buf) else m x)(buf + length ?ds := 0))) buf (rev ?ds)"
    by (rule cstring_at_reverse) (auto simp: hex_digits_nonzero)
  then show ?thesis using False by (simp add: itoa_hex_def hex_text_def itoa_hex_digits_at digit_text_bytes cong: if_cong)
qed

section \<open>Sinks\<close>

record sink =
  sk_buf :: "char list option"
  sk_size :: nat
  sk_count :: nat
  sk_console :: string

definition sink_putc :: "char \<Rightarrow> sink \<Rightarrow> sink" where
  "sink_putc c s =
     (case sk_buf s of
        Some b \<Rightarrow> s\<lparr>sk_buf := Some (if sk_count s + 1 < sk_size s then b[sk_count s := c] else b), sk_count := sk_count s + 1\<rparr>
      | None \<Rightarrow> s\<lparr>sk_console := sk_console s @ [c], sk_count := sk_count s + 1\<rparr>)"

definition sink_puts :: "string \<Rightarrow> sink \<Rightarrow> sink" where
  "sink_puts str s = fold sink_putc str s"

definition emit_padded :: "string \<Rightarrow> nat \<Rightarrow> bool \<Rightarrow> char \<Rightarrow> sink \<Rightarrow> sink" where
  "emit_padded str width left pad s =
     (let fill = width - length str;
          s = (if \<not> left then fold (\<lambda>i. sink_putc pad) [0..<fill] s else s);
          s = sink_puts str s
      in if left then fold (\<lambda>i. sink_putc (CHR '' '')) [0..<fill] s else s)"

section \<open>The engine\<close>

datatype varg = VInt u32 | VStr "string option"

fun parse_flags :: "string \<Rightarrow> bool \<Rightarrow> char \<Rightarrow> bool \<times> char \<times> string" where
  "parse_flags (c # fmt) left pad =
     (if c = CHR ''-'' then parse_flags fmt True pad
      else if c = CHR ''0'' then parse_flags fmt left (CHR ''0'')
      else (left, pad, c # fmt))"
| "parse_flags [] left pad = (left, pad, [])"

definition is_digit :: "char \<Rightarrow> bool" where
  "is_digit c = (48 \<le> (of_char c :: nat) \<and> (of_char c :: nat) \<le> 57)"

fun parse_width :: "string \<Rightarrow> nat \<Rightarrow> nat \<times> string" where
  "parse_width (c # fmt) width =
     (if is_digit c then parse_width fmt (width * 10 + (of_char c - 48)) else (width, c # fmt))"
| "parse_width [] width = (width, [])"

text \<open>One conversion: what a letter emits, and the arguments left.\<close>

definition convert :: "char \<Rightarrow> varg list \<Rightarrow> char \<Rightarrow> ((string \<times> char) \<times> varg list) option" where
  "convert c args pad =
     (if c = CHR ''d'' \<or> c = CHR ''i'' then (case args of VInt v # r \<Rightarrow> Some ((itoa_text v, pad), r) | _ \<Rightarrow> None)
      else if c = CHR ''u'' then (case args of VInt v # r \<Rightarrow> Some ((unsigned_text v, pad), r) | _ \<Rightarrow> None)
      else if c = CHR ''x'' then (case args of VInt v # r \<Rightarrow> Some ((hex_text False v, pad), r) | _ \<Rightarrow> None)
      else if c = CHR ''X'' then (case args of VInt v # r \<Rightarrow> Some ((hex_text True v, pad), r) | _ \<Rightarrow> None)
      else if c = CHR ''p'' then (case args of VInt v # r \<Rightarrow> Some ((''0x'' @ hex_text False v, pad), r) | _ \<Rightarrow> None)
      else if c = CHR ''c'' then (case args of VInt v # r \<Rightarrow>
             Some ((if (ucast v :: u8) = 0 then [] else [byte_char (ucast v)], CHR '' ''), r) | _ \<Rightarrow> None)
      else if c = CHR ''s'' then (case args of VStr str # r \<Rightarrow>
             Some ((case str of None \<Rightarrow> ''(null)'' | Some t \<Rightarrow> t, CHR '' ''), r) | _ \<Rightarrow> None)
      else None)"

definition is_conversion :: "char \<Rightarrow> bool" where
  "is_conversion c = (c \<in> set ''diuxXpcs'')"

lemma parse_flags_length: "length (snd (snd (parse_flags fmt left pad))) \<le> length fmt"
  by (induction fmt left pad rule: parse_flags.induct) auto

lemma parse_width_length: "length (snd (parse_width fmt width)) \<le> length fmt"
  by (induction fmt width rule: parse_width.induct) auto

lemma parse_decreases:
  assumes "(left, pad, fmt1) = parse_flags fmt l p" "(width, d # fmt2) = parse_width fmt1 w"
  shows "length fmt2 < length fmt"
  using parse_flags_length [of fmt l p] parse_width_length [of fmt1 w] assms by (metis (no_types) Suc_le_eq length_Cons order_trans snd_conv)

function format :: "string \<Rightarrow> varg list \<Rightarrow> sink \<Rightarrow> sink option" where
  "format [] args s = Some s"
| "format (c # fmt) args s =
     (if c \<noteq> CHR ''%'' then format fmt args (sink_putc c s)
      else case parse_flags fmt False (CHR '' '') of (left, pad, fmt) \<Rightarrow>
           case parse_width fmt 0 of (width, fmt) \<Rightarrow>
           case fmt of
             [] \<Rightarrow> Some s
           | d # fmt \<Rightarrow>
               if is_conversion d
               then (case convert d args pad of
                       None \<Rightarrow> None
                     | Some ((text, pd), args) \<Rightarrow> format fmt args (emit_padded text width left pd s))
               else if d = CHR ''%'' then format fmt args (sink_putc (CHR ''%'') s)
               else format fmt args (sink_putc d (sink_putc (CHR ''%'') s)))"
  by pat_completeness auto
termination
  by (relation "measure (\<lambda>(fmt, args, s). length fmt)") (auto dest: parse_decreases)

definition kvprintf :: "string \<Rightarrow> varg list \<Rightarrow> string \<Rightarrow> string option" where
  "kvprintf fmt args console =
     map_option sk_console (format fmt args \<lparr>sk_buf = None, sk_size = 0, sk_count = 0, sk_console = console\<rparr>)"

definition kprintf :: "string \<Rightarrow> varg list \<Rightarrow> string \<Rightarrow> string option" where
  "kprintf fmt args console = kvprintf fmt args console"

text \<open>The buffer is the list of its \<open>cap\<close> characters; the value is the count and the buffer.\<close>

definition vsnprintf :: "char list \<Rightarrow> nat \<Rightarrow> string \<Rightarrow> varg list \<Rightarrow> (nat \<times> char list) option" where
  "vsnprintf buf cap fmt args =
     map_option (\<lambda>s. let b = the (sk_buf s)
                     in (sk_count s, if cap > 0 then b[(if sk_count s < cap then sk_count s else cap - 1) := CHR 0x00] else b))
       (format fmt args \<lparr>sk_buf = Some buf, sk_size = cap, sk_count = 0, sk_console = []\<rparr>)"

definition snprintf :: "char list \<Rightarrow> nat \<Rightarrow> string \<Rightarrow> varg list \<Rightarrow> (nat \<times> char list) option" where
  "snprintf buf cap fmt args = vsnprintf buf cap fmt args"

section \<open>The text a format denotes\<close>

definition padded :: "string \<Rightarrow> nat \<Rightarrow> bool \<Rightarrow> char \<Rightarrow> string" where
  "padded text width left pad =
     (if left then text @ replicate (width - length text) (CHR '' '') else replicate (width - length text) pad @ text)"

function format_text :: "string \<Rightarrow> varg list \<Rightarrow> string option" where
  "format_text [] args = Some []"
| "format_text (c # fmt) args =
     (if c \<noteq> CHR ''%'' then map_option ((#) c) (format_text fmt args)
      else case parse_flags fmt False (CHR '' '') of (left, pad, fmt) \<Rightarrow>
           case parse_width fmt 0 of (width, fmt) \<Rightarrow>
           case fmt of
             [] \<Rightarrow> Some []
           | d # fmt \<Rightarrow>
               if is_conversion d
               then (case convert d args pad of
                       None \<Rightarrow> None
                     | Some ((text, pd), args) \<Rightarrow> map_option ((@) (padded text width left pd)) (format_text fmt args))
               else if d = CHR ''%'' then map_option ((#) (CHR ''%'')) (format_text fmt args)
               else map_option (\<lambda>t. CHR ''%'' # d # t) (format_text fmt args))"
  by pat_completeness auto
termination
  by (relation "measure (\<lambda>(fmt, args). length fmt)") (auto dest: parse_decreases)

lemma sink_puts_simps [simp]:
  "sink_puts [] s = s" "sink_puts (c # t) s = sink_puts t (sink_putc c s)"
  "sink_puts (t @ u) s = sink_puts u (sink_puts t s)"
  by (simp_all add: sink_puts_def)

lemma fold_putc: "fold (\<lambda>i. sink_putc c) [0..<n] s = sink_puts (replicate n c) s"
proof -
  have "fold (\<lambda>i. sink_putc c) is s = sink_puts (replicate (length is) c) s" for "is" :: "nat list"
    by (induction "is" arbitrary: s) simp_all
  from this [of "[0..<n]"] show ?thesis by simp
qed

lemma emit_padded_puts: "emit_padded text width left pad s = sink_puts (padded text width left pad) s"
  by (simp add: emit_padded_def padded_def fold_putc Let_def)

lemma map_option_puts:
  "map_option (\<lambda>t. sink_puts t (sink_puts u s)) r = map_option (\<lambda>t. sink_puts t s) (map_option ((@) u) r)"
  by (simp add: option.map_comp comp_def)

lemma format_text_eq: "format fmt args s = map_option (\<lambda>t. sink_puts t s) (format_text fmt args)"
proof (induction fmt args s rule: format.induct)
  case (1 args s)
  then show ?case by simp
next
  case (2 c fmt args s)
  then show ?case
    by (auto simp: emit_padded_puts option.map_comp comp_def split: prod.splits list.splits option.splits)
qed

section \<open>Bounded buffers\<close>

lemma putc_buffer:
  assumes "sk_buf s = Some b"
  shows "sk_buf (sink_putc c s) = Some (if sk_count s + 1 < sk_size s then b[sk_count s := c] else b)"
    "sk_size (sink_putc c s) = sk_size s" "sk_count (sink_putc c s) = Suc (sk_count s)"
  using assms by (simp_all add: sink_putc_def)

lemma puts_count: "sk_count (sink_puts t s) = sk_count s + length t"
  by (induction t arbitrary: s) (simp_all add: sink_putc_def split: option.split)

lemma splice_putc:
  assumes "cap \<le> length b"
  shows "splice (Suc n) (take (cap - 1 - Suc n) t) (if n + 1 < cap then b[n := c] else b) = splice n (take (cap - 1 - n) (c # t)) b"
proof (cases "n + 1 < cap")
  case True
  then obtain k where k: "cap - 1 - n = Suc k" "cap - 1 - Suc n = k" by (cases "cap - 1 - n") auto
  have lt: "n < length b" using True assms by simp
  then have "take (Suc n) (b[n := c]) = take n b @ [c]" by (simp add: take_Suc_conv_app_nth)
  then show ?thesis using True k by (simp add: splice_def)
next
  case False
  then show ?thesis by (simp add: splice_def)
qed

lemma puts_buffer:
  assumes "sk_buf s = Some b" "sk_size s \<le> length b"
  shows "sk_buf (sink_puts t s) = Some (splice (sk_count s) (take (sk_size s - 1 - sk_count s) t) b)"
  using assms
proof (induction t arbitrary: s b)
  case Nil
  then show ?case by (simp add: splice_def)
next
  case (Cons c t)
  note p = putc_buffer [OF Cons.prems(1), of c]
  have "sk_size (sink_putc c s) \<le> length (if sk_count s + 1 < sk_size s then b[sk_count s := c] else b)"
    using Cons.prems(2) p(2) by simp
  from Cons.IH [OF p(1) this] show ?case by (simp only: sink_puts_simps p splice_putc [OF Cons.prems(2)])
qed

lemma snprintf_fills:
  assumes "length buf = cap" "cap > 0" "format_text fmt args = Some text"
  shows "snprintf buf cap fmt args =
    Some (length text, take (cap - 1) text @ [CHR 0x00] @ drop (Suc (length (take (cap - 1) text))) buf)"
proof -
  let ?s = "sink_puts text \<lparr>sk_buf = Some buf, sk_size = cap, sk_count = 0, sk_console = []\<rparr>"
  let ?w = "take (cap - 1) text"
  have buf: "sk_buf ?s = Some (splice 0 ?w buf)" "sk_count ?s = length text"
    using puts_buffer [of "\<lparr>sk_buf = Some buf, sk_size = cap, sk_count = 0, sk_console = []\<rparr>" buf "text"] assms(1)
    by (simp_all add: puts_count)
  let ?t = "if length text < cap then length text else cap - 1"
  have t: "?t = length ?w" using assms(2) by auto
  have lt: "length ?w < length buf" using assms(1,2) by simp
  have "splice 0 ?w buf = ?w @ buf ! length ?w # drop (Suc (length ?w)) buf"
    using lt by (simp add: splice_def Cons_nth_drop_Suc)
  then have eq: "(splice 0 ?w buf)[length ?w := CHR 0x00] = ?w @ [CHR 0x00] @ drop (Suc (length ?w)) buf"
    by (simp only: list_update_length append.simps)
  show ?thesis
    unfolding snprintf_def vsnprintf_def format_text_eq assms(3) option.map Let_def buf option.sel t
    by (simp only: assms(2) if_True eq)
qed

text \<open>
  C33: \<^verbatim>\<open>snprintf\<close> into a buffer of \<open>cap\<close> bytes, at least one. When the arguments fit the format, the
  buffer afterwards holds the first \<open>cap - 1\<close> characters of the formatted text and a terminator
  behind them, every byte beyond the terminator is as before, the buffer keeps its length (nothing
  is written outside it), and the result is the length of the whole text.
\<close>

theorem snprintf_bounded:
  assumes "length buf = cap" "cap > 0" "format_text fmt args = Some text"
  shows "snprintf buf cap fmt args =
    Some (length text, take (cap - 1) text @ [CHR 0x00] @ drop (Suc (length (take (cap - 1) text))) buf)"
  using assms by (rule snprintf_fills)

theorem snprintf_bounded_witness:
  "snprintf (replicate 8 (CHR ''z'')) 8 ''%s=%03d'' [VStr (Some ''x''), VInt 7]
     = Some (5, ''x=007'' @ [CHR 0x00] @ ''zz'')"
proof -
  have "format_text ''%s=%03d'' [VStr (Some ''x''), VInt 7] = Some ''x=007''"
    by code_simp
  from snprintf_bounded [OF _ _ this, of "replicate 8 (CHR ''z'')" 8] show ?thesis by (simp add: numeral_2_eq_2)
qed

end
