(* ===== verification/Sha256.thy ===== *)
theory Sha256
  imports Prelude "HOL-Library.Monad_Syntax"
begin

text \<open>
  The hash of passwords, \<^verbatim>\<open>lib/sha256.c\<close>: the block function, the loop over whole blocks with the
  padding of the last one, hexadecimal output and password verification. The code is shown to
  compute the hash of the standard: pad the message, cut it into blocks, fold the compression
  function over them.
\<close>

section \<open>The block function\<close>

definition K256 :: "u32 list" where
  "K256 =
    [0x428a2f98, 0x71374491, 0xb5c0fbcf, 0xe9b5dba5, 0x3956c25b, 0x59f111f1, 0x923f82a4, 0xab1c5ed5] @
    [0xd807aa98, 0x12835b01, 0x243185be, 0x550c7dc3, 0x72be5d74, 0x80deb1fe, 0x9bdc06a7, 0xc19bf174] @
    [0xe49b69c1, 0xefbe4786, 0x0fc19dc6, 0x240ca1cc, 0x2de92c6f, 0x4a7484aa, 0x5cb0a9dc, 0x76f988da] @
    [0x983e5152, 0xa831c66d, 0xb00327c8, 0xbf597fc7, 0xc6e00bf3, 0xd5a79147, 0x06ca6351, 0x14292967] @
    [0x27b70a85, 0x2e1b2138, 0x4d2c6dfc, 0x53380d13, 0x650a7354, 0x766a0abb, 0x81c2c92e, 0x92722c85] @
    [0xa2bfe8a1, 0xa81a664b, 0xc24b8b70, 0xc76c51a3, 0xd192e819, 0xd6990624, 0xf40e3585, 0x106aa070] @
    [0x19a4c116, 0x1e376c08, 0x2748774c, 0x34b0bcb5, 0x391c0cb3, 0x4ed8aa4a, 0x5b9cca4f, 0x682e6ff3] @
    [0x748f82ee, 0x78a5636f, 0x84c87814, 0x8cc70208, 0x90befffa, 0xa4506ceb, 0xbef9a3f7, 0xc67178f2]"

definition H0 :: "u32 list" where
  "H0 = [0x6a09e667, 0xbb67ae85, 0x3c6ef372, 0xa54ff53a, 0x510e527f, 0x9b05688c, 0x1f83d9ab, 0x5be0cd19]"

definition ROTR :: "u32 \<Rightarrow> nat \<Rightarrow> u32" where
  "ROTR x n = drop_bit n x OR push_bit (32 - n) x"

definition CH :: "u32 \<Rightarrow> u32 \<Rightarrow> u32 \<Rightarrow> u32" where
  "CH x y z = (x AND y) XOR (NOT x AND z)"

definition MAJ :: "u32 \<Rightarrow> u32 \<Rightarrow> u32 \<Rightarrow> u32" where
  "MAJ x y z = (x AND y) XOR (x AND z) XOR (y AND z)"

definition S0 :: "u32 \<Rightarrow> u32" where "S0 x = ROTR x 2 XOR ROTR x 13 XOR ROTR x 22"
definition S1 :: "u32 \<Rightarrow> u32" where "S1 x = ROTR x 6 XOR ROTR x 11 XOR ROTR x 25"
definition s0 :: "u32 \<Rightarrow> u32" where "s0 x = ROTR x 7 XOR ROTR x 18 XOR drop_bit 3 x"
definition s1 :: "u32 \<Rightarrow> u32" where "s1 x = ROTR x 17 XOR ROTR x 19 XOR drop_bit 10 x"

definition be32 :: "u8 list \<Rightarrow> nat \<Rightarrow> u32" where
  "be32 p i = push_bit 24 (ucast (p ! i)) OR push_bit 16 (ucast (p ! (i + 1)))
              OR push_bit 8 (ucast (p ! (i + 2))) OR ucast (p ! (i + 3))"

definition put_be32 :: "u32 \<Rightarrow> u8 list" where
  "put_be32 v = [ucast (drop_bit 24 v), ucast (drop_bit 16 v), ucast (drop_bit 8 v), ucast v]"

definition put_be64 :: "u64 \<Rightarrow> u8 list" where
  "put_be64 v = put_be32 (ucast (drop_bit 32 v)) @ put_be32 (ucast v)"

definition message_schedule :: "u8 list \<Rightarrow> u32 list" where
  "message_schedule block =
     fold (\<lambda>i w. w @ [s1 (w ! (i - 2)) + w ! (i - 7) + s0 (w ! (i - 15)) + w ! (i - 16)])
       [16..<64] (map (\<lambda>i. be32 block (i * 4)) [0..<16])"

type_synonym work = "u32 \<times> u32 \<times> u32 \<times> u32 \<times> u32 \<times> u32 \<times> u32 \<times> u32"

definition sha256_round :: "u32 list \<Rightarrow> nat \<Rightarrow> work \<Rightarrow> work" where
  "sha256_round w i = (\<lambda>(a, b, c, d, e, f, g, hh).
     let t1 = hh + S1 e + CH e f g + K256 ! i + w ! i;
         t2 = S0 a + MAJ a b c
     in (t1 + t2, a, b, c, d + t1, e, f, g))"

definition sha256_block :: "u32 list \<Rightarrow> u8 list \<Rightarrow> u32 list" where
  "sha256_block h block =
     (let w = message_schedule block;
          (a, b, c, d, e, f, g, hh) =
            fold (sha256_round w) [0..<64] (h ! 0, h ! 1, h ! 2, h ! 3, h ! 4, h ! 5, h ! 6, h ! 7)
      in [h ! 0 + a, h ! 1 + b, h ! 2 + c, h ! 3 + d, h ! 4 + e, h ! 5 + f, h ! 6 + g, h ! 7 + hh])"

section \<open>The hash\<close>

text \<open>The loop test \<^verbatim>\<open>done + 64 <= len\<close> is 32-bit arithmetic: for lengths near \<open>2\<^sup>3\<^sup>2\<close> the loop does not end.\<close>

partial_function (option) sha256_loop :: "u8 list \<Rightarrow> u32 \<Rightarrow> u32 \<Rightarrow> u32 list \<Rightarrow> (u32 \<times> u32 list) option" where
  "sha256_loop data len done h =
     (if done + 64 \<le> len then sha256_loop data len (done + 64) (sha256_block h (slice (unat done) 64 data))
      else Some (done, h))"

definition sha256 :: "u8 list \<Rightarrow> u32 \<Rightarrow> u8 list option" where
  "sha256 data len =
     Option.bind (sha256_loop data len 0 H0) (\<lambda>(done, h).
       let rest = unat (len - done);
           block = replicate 64 0;
           block = splice 0 (slice (unat done) rest data) block;
           block = block[rest := 0x80];
           bits = put_be64 (ucast len * 8);
           h = (if rest < 56 then sha256_block h (splice 56 bits block)
                else sha256_block (sha256_block h block) (splice 56 bits (replicate 64 0)))
       in Some (concat (map put_be32 h)))"

definition nibble :: "u8 \<Rightarrow> char" where
  "nibble n = ''0123456789abcdef'' ! unat n"

definition sha256_hex :: "u8 list \<Rightarrow> u32 \<Rightarrow> string option" where
  "sha256_hex data len =
     map_option (\<lambda>raw. concat (map (\<lambda>b. [nibble (drop_bit 4 b), nibble (b AND 0xF)]) raw)) (sha256 data len)"

definition char_bytes :: "string \<Rightarrow> u8 list" where
  "char_bytes s = map of_char s"

text \<open>\<open>None\<close> as an argument: a null pointer.\<close>

definition sha256_verify :: "string option \<Rightarrow> string option \<Rightarrow> bool option" where
  "sha256_verify password stored =
     (case (password, stored) of
        (Some pw, Some st) \<Rightarrow>
          if length st \<noteq> 64 then Some (length pw = length st \<and> (\<forall>i<length pw. pw ! i = st ! i))
          else Option.bind (sha256_hex (char_bytes pw) (of_nat (length pw))) (\<lambda>computed.
                 Some (fold (\<lambda>i diff. diff OR (of_char (computed ! i) XOR of_char (st ! i))) [0..<64] (0 :: u8) = 0))
      | _ \<Rightarrow> Some False)"

section \<open>The standard's definition\<close>

text \<open>The message schedule as a recurrence, the padding, and the hash of a list of blocks.\<close>

fun W :: "u8 list \<Rightarrow> nat \<Rightarrow> u32" where
  "W M t = (if t < 16 then be32 M (4 * t) else s1 (W M (t - 2)) + W M (t - 7) + s0 (W M (t - 15)) + W M (t - 16))"

declare W.simps [simp del]

definition std_round :: "u8 list \<Rightarrow> nat \<Rightarrow> work \<Rightarrow> work" where
  "std_round M t = (\<lambda>(a, b, c, d, e, f, g, h).
     let t1 = h + S1 e + CH e f g + K256 ! t + W M t; t2 = S0 a + MAJ a b c
     in (t1 + t2, a, b, c, d + t1, e, f, g))"

definition compress :: "u32 list \<Rightarrow> u8 list \<Rightarrow> u32 list" where
  "compress h M =
     (case fold (std_round M) [0..<64] (h ! 0, h ! 1, h ! 2, h ! 3, h ! 4, h ! 5, h ! 6, h ! 7) of
        (a, b, c, d, e, f, g, hh) \<Rightarrow> map2 (+) h [a, b, c, d, e, f, g, hh])"

definition padding :: "u8 list \<Rightarrow> u8 list" where
  "padding m = m @ [0x80] @ replicate ((119 - length m mod 64) mod 64) 0 @ put_be64 (of_nat (8 * length m))"

fun blocks :: "nat \<Rightarrow> u8 list \<Rightarrow> u8 list list" where
  "blocks 0 bs = []"
| "blocks (Suc n) bs = take 64 bs # blocks n (drop 64 bs)"

definition SHA256 :: "u8 list \<Rightarrow> u8 list" where
  "SHA256 m = concat (map put_be32 (fold (\<lambda>b h. compress h b) (blocks (length (padding m) div 64) (padding m)) H0))"

section \<open>The block function computes the recurrence\<close>

lemma schedule_upto:
  assumes "16 \<le> n" "n \<le> 64"
  shows "fold (\<lambda>i w. w @ [s1 (w ! (i - 2)) + w ! (i - 7) + s0 (w ! (i - 15)) + w ! (i - 16)])
           [16..<n] (map (\<lambda>i. be32 M (i * 4)) [0..<16]) = map (W M) [0..<n]"
  using assms
proof (induction n rule: nat_induct_at_least)
  case base
  have "map (\<lambda>i. be32 M (i * 4)) [0..<16] = map (W M) [0..<16]"
    by (rule map_cong) (auto simp: W.simps mult.commute)
  then show ?case by simp
next
  case (Suc n)
  have "W M n = s1 (W M (n - 2)) + W M (n - 7) + s0 (W M (n - 15)) + W M (n - 16)"
    using Suc.hyps by (subst W.simps) simp
  then show ?case using Suc by (simp add: nth_append)
qed

lemma message_schedule_W: "message_schedule M = map (W M) [0..<64]"
  unfolding message_schedule_def by (rule schedule_upto) simp_all

lemma fold_cong_set:
  assumes "\<And>x s. x \<in> set xs \<Longrightarrow> f x s = g x s"
  shows "fold f xs s = fold g xs s"
  using assms by (induction xs arbitrary: s) auto

lemma eight:
  assumes "length h = 8"
  obtains "h = [h ! 0, h ! 1, h ! 2, h ! 3, h ! 4, h ! 5, h ! 6, h ! 7]"
proof -
  have "h = map (\<lambda>i. h ! i) [0..<8]" using assms by (simp only: map_nth flip: assms)
  then show thesis using that by (simp add: upt_rec eval_nat_numeral)
qed

lemma sha256_block_compress:
  assumes "length h = 8"
  shows "sha256_block h M = compress h M"
proof -
  let ?v = "(h ! 0, h ! 1, h ! 2, h ! 3, h ! 4, h ! 5, h ! 6, h ! 7)"
  have eq: "fold (sha256_round (map (W M) [0..<64])) [0..<64] ?v = fold (std_round M) [0..<64] ?v"
    by (rule fold_cong_set) (simp add: sha256_round_def std_round_def del: upt_rec_numeral)
  obtain a b c d e f g hh where v: "fold (std_round M) [0..<64] ?v = (a, b, c, d, e, f, g, hh)"
    using prod_cases7 [of "fold (std_round M) [0..<64] ?v"] by (metis surj_pair)
  have "map2 (+) h [a, b, c, d, e, f, g, hh] =
      [h ! 0 + a, h ! 1 + b, h ! 2 + c, h ! 3 + d, h ! 4 + e, h ! 5 + f, h ! 6 + g, h ! 7 + hh]"
    by (rule eight [OF assms]) (erule ssubst, simp)
  then show ?thesis
    unfolding sha256_block_def compress_def message_schedule_W Let_def eq v by (simp only: prod.case)
qed

lemma compress_length [simp]: "length h = 8 \<Longrightarrow> length (compress h M) = 8"
  by (simp add: compress_def split: prod.split del: upt_rec_numeral)

section \<open>The loop and the padding\<close>

lemma blocks_append:
  "length xs = 64 * n \<Longrightarrow> blocks (n + k) (xs @ ys) = blocks n xs @ blocks k ys"
  by (induction n arbitrary: xs) simp_all

lemma blocks_take: "64 * n \<le> m \<Longrightarrow> blocks n (take m bs) = blocks n bs"
  by (induction n arbitrary: m bs) (simp_all add: drop_take)

definition absorb :: "u8 list list \<Rightarrow> u32 list \<Rightarrow> u32 list" where
  "absorb bs h = fold (\<lambda>b h. compress h b) bs h"

lemma absorb_simps [simp]:
  "absorb [] h = h" "absorb (b # bs) h = absorb bs (compress h b)" "absorb (xs @ ys) h = absorb ys (absorb xs h)"
  by (simp_all add: absorb_def)

lemma absorb_length [simp]: "length h = 8 \<Longrightarrow> length (absorb bs h) = 8"
  by (induction bs arbitrary: h) simp_all

lemma sha256_loop_eq:
  assumes "length data = unat len" "unat len + 64 < 2 ^ 32" "k \<le> unat len div 64" "length h = 8"
  shows "sha256_loop data len (of_nat (64 * k)) h =
    Some (of_nat (64 * (unat len div 64)), absorb (blocks (unat len div 64 - k) (drop (64 * k) data)) h)"
  using assms(3,4)
proof (induction "unat len div 64 - k" arbitrary: k h)
  case 0
  then have k: "k = unat len div 64" by simp
  have le: "64 * k \<le> unat len" unfolding k by simp
  have "unat (of_nat (64 * k) :: u32) = 64 * k" using le assms(2) by (intro unat_of_nat_u32) simp
  then have u: "unat (of_nat (64 * k) + 64 :: u32) = 64 * k + 64" using le assms(2) by (subst unat_plus_u32) simp_all
  have "unat len < 64 * k + 64" using k mod_less_divisor [of 64 "unat len"] div_mult_mod_eq [of "unat len" 64] by linarith
  then have "\<not> of_nat (64 * k) + 64 \<le> len" unfolding word_le_nat_alt u by simp
  then show ?case using k by (subst sha256_loop.simps) simp
next
  case (Suc x)
  have lt: "k < unat len div 64" using Suc.hyps(2) by simp
  then have le: "64 * k + 64 \<le> unat len" by linarith
  have u: "unat (of_nat (64 * k) :: u32) = 64 * k" using le assms(2) by (intro unat_of_nat_u32) simp
  then have u2: "unat (of_nat (64 * k) + 64 :: u32) = 64 * k + 64" using le assms(2) by (subst unat_plus_u32) simp_all
  have step: "of_nat (64 * k) + 64 = (of_nat (64 * Suc k) :: u32)" by simp
  have "of_nat (64 * k) + 64 \<le> len" unfolding word_le_nat_alt u2 by (rule le)
  then have "sha256_loop data len (of_nat (64 * k)) h =
      sha256_loop data len (of_nat (64 * Suc k)) (sha256_block h (slice (64 * k) 64 data))"
    by (subst sha256_loop.simps) (simp only: if_True step u)
  also have "\<dots> = Some (of_nat (64 * (unat len div 64)), absorb (blocks (unat len div 64 - Suc k) (drop (64 * Suc k) data))
      (compress h (slice (64 * k) 64 data)))"
    unfolding sha256_block_compress [OF Suc.prems(2)]
    by (rule Suc.hyps(1)) (use Suc.hyps(2) lt Suc.prems(2) in simp_all)
  also have "absorb (blocks (unat len div 64 - Suc k) (drop (64 * Suc k) data)) (compress h (slice (64 * k) 64 data)) =
      absorb (blocks (unat len div 64 - k) (drop (64 * k) data)) h"
    using lt by (simp add: Suc_diff_Suc [symmetric] slice_def add.commute)
  finally show ?case .
qed

text \<open>The last block with the end mark.\<close>

lemma last_block:
  assumes "length rs < 64"
  shows "(splice 0 rs (replicate 64 0))[length rs := x] = rs @ x # replicate (63 - length rs) (0 :: u8)"
proof -
  have "splice 0 rs (replicate 64 0) = rs @ replicate (64 - length rs) 0"
    by (simp only: splice_def take_0 append_Nil add_0 drop_replicate)
  also have "replicate (64 - length rs) (0 :: u8) = 0 # replicate (63 - length rs) 0"
  proof -
    have "64 - length rs = Suc (63 - length rs)" using assms by linarith
    then show ?thesis by (simp only: replicate_Suc)
  qed
  finally show ?thesis by (simp only: list_update_length)
qed

lemma put_be64_length [simp]: "length (put_be64 v) = 8"
  by (simp add: put_be64_def put_be32_def)

lemma splice_tail:
  assumes "length xs = 56" "length ys = 8" "length zs = 8"
  shows "splice 56 ys (xs @ zs) = xs @ ys"
  using assms by (simp add: splice_def)

lemma two_blocks: "length xs = 64 \<Longrightarrow> length ys = 64 \<Longrightarrow> blocks 2 (xs @ ys) = [xs, ys]"
  by (simp add: numeral_2_eq_2)

lemma padding_blocks:
  fixes m :: "u8 list"
  defines "n \<equiv> length m div 64" and "rs \<equiv> drop (64 * (length m div 64)) m" and "bits \<equiv> put_be64 (of_nat (8 * length m))"
  shows "blocks (length (padding m) div 64) (padding m) = blocks n m @
    (if length rs < 56 then [rs @ 0x80 # replicate (55 - length rs) 0 @ bits]
     else [rs @ 0x80 # replicate (63 - length rs) 0, replicate 56 0 @ bits])"
proof -
  let ?r = "length rs"
  have len: "length m = 64 * n + ?r" "?r = length m mod 64" by (simp_all add: n_def rs_def minus_mult_div_eq_mod)
  have r: "?r < 64" using len(2) by simp
  have m: "m = take (64 * n) m @ rs" by (simp add: n_def rs_def)
  have pre: "blocks n (take (64 * n) m) = blocks n m" by (rule blocks_take) simp
  have tl: "length (take (64 * n) m) = 64 * n" using len(1) by simp
  let ?z = "(119 - ?r) mod 64"
  have pad: "padding m = take (64 * n) m @ (rs @ 0x80 # replicate ?z 0 @ bits)"
    using m len(2) by (simp add: padding_def bits_def)
  show ?thesis
  proof (cases "?r < 56")
    case True
    have z: "?z = 55 - ?r" using True by (simp add: mod_if)
    have l: "length (padding m) div 64 = n + 1" unfolding pad using True tl z by (simp add: bits_def)
    have "blocks (n + 1) (padding m) = blocks n m @ blocks 1 (rs @ 0x80 # replicate (55 - ?r) 0 @ bits)"
      unfolding pad z blocks_append [OF tl] pre ..
    also have "blocks 1 (rs @ 0x80 # replicate (55 - ?r) 0 @ bits) = [rs @ 0x80 # replicate (55 - ?r) 0 @ bits]"
      using True by (simp add: bits_def)
    finally show ?thesis using True by (simp only: l if_True)
  next
    case False
    let ?b = "rs @ 0x80 # replicate (63 - ?r) 0" and ?c = "replicate 56 0 @ bits"
    have z: "?z = (63 - ?r) + 56" using False r by (simp add: mod_if)
    have l: "length (padding m) div 64 = n + 2" unfolding pad using False r tl z by (simp add: bits_def)
    have "rs @ 0x80 # replicate ?z 0 @ bits = ?b @ ?c" unfolding z replicate_add by simp
    then have "blocks (n + 2) (padding m) = blocks n m @ blocks 2 (?b @ ?c)"
      unfolding pad by (simp only: blocks_append [OF tl] pre)
    also have "blocks 2 (?b @ ?c) = [?b, ?c]" using r by (intro two_blocks) (simp_all add: bits_def)
    finally show ?thesis using False by (simp only: l if_False)
  qed
qed

lemma sha256_spec:
  assumes "length data = unat len" "unat len + 64 < 2 ^ 32"
  shows "sha256 data len = Some (SHA256 data)"
proof -
  let ?n = "unat len div 64" and ?rs = "drop (64 * (unat len div 64)) data" and ?bits = "put_be64 (ucast len * 8)"
  let ?h = "absorb (blocks ?n data) H0"
  have H: "length H0 = 8" by (simp add: H0_def)
  then have h: "length ?h = 8" by simp
  have loop: "sha256_loop data len 0 H0 = Some (of_nat (64 * ?n), ?h)"
    using sha256_loop_eq [OF assms, of 0 H0] H by simp
  have le: "64 * ?n \<le> unat len" by simp
  then have u: "unat (of_nat (64 * ?n) :: u32) = 64 * ?n" using assms(2) by (intro unat_of_nat_u32) simp
  have rest: "unat (len - of_nat (64 * ?n)) = length ?rs"
    using le assms(1) u by (subst unat_minus_u32) (simp_all add: word_le_nat_alt del: of_nat_mult)
  have r: "length ?rs < 64" using assms(1) by (simp add: minus_mult_div_eq_mod)
  have sl: "slice (64 * ?n) (length ?rs) data = ?rs" by (simp add: slice_def)
  have bits: "?bits = put_be64 (of_nat (8 * length data))"
    using assms(1) by (simp add: mult.commute)
  let ?blk = "?rs @ 0x80 # replicate (63 - length ?rs) 0"
  have fin: "(if length ?rs < 56 then sha256_block ?h (splice 56 ?bits ?blk)
       else sha256_block (sha256_block ?h ?blk) (splice 56 ?bits (replicate 64 0))) =
     absorb (blocks (length (padding data) div 64) (padding data)) H0"
  proof (cases "length ?rs < 56")
    case True
    then have "replicate (63 - length ?rs) (0 :: u8) = replicate (55 - length ?rs) 0 @ replicate 8 0"
      by (simp only: replicate_add [symmetric]) simp
    then have "splice 56 ?bits ?blk = ?rs @ 0x80 # replicate (55 - length ?rs) 0 @ ?bits"
      using True splice_tail [of "?rs @ 0x80 # replicate (55 - length ?rs) 0" ?bits "replicate 8 0"] by simp
    then show ?thesis using True h assms(1) bits
      unfolding padding_blocks by (simp add: sha256_block_compress)
  next
    case False
    have "splice 56 ?bits (replicate 64 (0 :: u8)) = replicate 56 0 @ ?bits"
      using splice_tail [of "replicate 56 (0 :: u8)" ?bits "replicate 8 0"] by (simp only: replicate_add [symmetric]) simp
    then show ?thesis using False h assms(1) bits
      unfolding padding_blocks by (simp add: sha256_block_compress)
  qed
  show ?thesis
    unfolding sha256_def loop SHA256_def absorb_def [symmetric] fin [symmetric]
    by (simp only: Option.bind.simps prod.case Let_def u rest sl last_block [OF r])
qed

section \<open>Verification of a password\<close>

definition hex_of :: "u8 list \<Rightarrow> string" where
  "hex_of raw = concat (map (\<lambda>b. [nibble (drop_bit 4 b), nibble (b AND 0xF)]) raw)"

lemma compress_fold_length: "length h = 8 \<Longrightarrow> length (fold (\<lambda>b h. compress h b) bs h) = 8"
  using absorb_length [of h bs] by (simp add: absorb_def)

lemma SHA256_length [simp]: "length (SHA256 m) = 32"
proof -
  have "length (fold (\<lambda>b h. compress h b) (blocks (length (padding m) div 64) (padding m)) H0) = 8"
    by (rule compress_fold_length) (simp add: H0_def)
  moreover have "length (concat (map put_be32 h)) = 4 * length h" for h by (induction h) (simp_all add: put_be32_def)
  ultimately show ?thesis by (simp add: SHA256_def)
qed

lemma hex_of_length: "length (hex_of raw) = 2 * length raw"
  by (induction raw) (simp_all add: hex_of_def)

lemma sha256_hex_spec:
  "length data = unat len \<Longrightarrow> unat len + 64 < 2 ^ 32 \<Longrightarrow> sha256_hex data len = Some (hex_of (SHA256 data))"
  by (simp add: sha256_hex_def sha256_spec hex_of_def)

lemma unat_of_char: "unat (of_char c :: u8) = of_char c"
proof -
  have "unat (of_nat (of_char c) :: u8) = of_char c"
    using nat_of_char_less_256 [of c] by (simp only: unat_of_nat) simp
  then show ?thesis by (simp only: of_nat_of_char)
qed

lemma of_char_u8: "(of_char c :: u8) = of_char d \<longleftrightarrow> c = d"
proof
  assume "(of_char c :: u8) = of_char d"
  then have "unat (of_char c :: u8) = unat (of_char d :: u8)" by (rule arg_cong)
  then show "c = d" unfolding unat_of_char by (rule of_char_eqI)
qed simp

lemma diff_zero:
  "fold (\<lambda>i diff. diff OR (of_char (a ! i) XOR of_char (b ! i))) is d = (0 :: u8)
     \<longleftrightarrow> d = 0 \<and> (\<forall>i \<in> set is. a ! i = b ! i)"
proof (induction "is" arbitrary: d)
  case (Cons i "is")
  have "(d OR e = 0) \<longleftrightarrow> d = 0 \<and> e = 0" for d e :: u8
    by (auto simp: bit_eq_iff bit_or_iff)
  moreover have "(x XOR y = 0) \<longleftrightarrow> x = y" for x y :: u8
    by (auto simp: bit_eq_iff bit_xor_iff)
  ultimately show ?case using Cons by (simp add: of_char_u8)
qed simp

lemma sha256_verify_spec:
  assumes "length pw + 64 < 2 ^ 32"
  shows "sha256_verify (Some pw) (Some st) =
    Some (if length st = 64 then hex_of (SHA256 (char_bytes pw)) = st else pw = st)"
proof -
  let ?c = "hex_of (SHA256 (char_bytes pw))"
  have hex: "sha256_hex (char_bytes pw) (of_nat (length pw)) = Some ?c"
    using assms by (intro sha256_hex_spec) (simp_all add: char_bytes_def)
  have "(\<forall>i \<in> set [0..<64]. ?c ! i = st ! i) \<longleftrightarrow> ?c = st" if "length st = 64"
    using that by (auto simp: list_eq_iff_nth_eq hex_of_length simp del: upt_rec_numeral)
  then show ?thesis
    by (auto simp: sha256_verify_def hex diff_zero list_eq_iff_nth_eq simp del: upt_rec_numeral)
qed

text \<open>The standard's first test vector, evaluated: the constants are transcribed correctly.\<close>

lemma sha256_block_abc:
  "hex_of (concat (map put_be32 (sha256_block H0 (char_bytes ''abc'' @ [0x80] @ replicate 59 0 @ [24])))) =
   ''ba7816bf8f01cfea414140de5dae2223b00361a396177a9cb410ff61f20015ad''"
  by code_simp

section \<open>Properties\<close>

text \<open>
  C8: for every message of fewer than \<open>2\<^sup>3\<^sup>2 - 64\<close> bytes the code terminates and computes SHA-256 as
  the standard defines it, with the message schedule as a recurrence, the padded message cut into
  64-byte blocks and the compression function folded over them.
\<close>

theorem sha256_correct:
  assumes "length data = unat len" "unat len + 64 < 2 ^ 32"
  shows "sha256 data len = Some (SHA256 data)"
  using assms by (rule sha256_spec)

theorem sha256_correct_witness: "sha256 (char_bytes ''abc'') 3 = Some (SHA256 (char_bytes ''abc''))"
  by (rule sha256_correct) (simp_all add: char_bytes_def)

end
