(* ===== verification/Users.thy ===== *)
theory Users
  imports Vfs_Tree Printf Sha256
begin

text \<open>
  User accounts, \<^verbatim>\<open>auth/users.c\<close>: the table of accounts, the text formats of \<^verbatim>\<open>/etc/passwd\<close> and
  \<^verbatim>\<open>/etc/shadow\<close>, loading and saving through the virtual file system, and password checks through
  \<open>Sha256\<close>. Texts are character lists without terminator; reading a file stops at a zero byte, as
  the C string functions do. The result \<open>None\<close> of an operation is that of the file system
  operations (a buffer overrun or a dangling node) or a hash that does not terminate.
\<close>

section \<open>State\<close>

abbreviation USER_NAME_MAX :: nat where "USER_NAME_MAX \<equiv> 32"
abbreviation USER_HOME_MAX :: nat where "USER_HOME_MAX \<equiv> 64"
abbreviation USER_PASS_MAX :: nat where "USER_PASS_MAX \<equiv> 32"
abbreviation MAX_USERS :: nat where "MAX_USERS \<equiv> 32"

record user_t =
  u_name :: string
  u_uid :: u32
  u_gid :: u32
  u_home :: string
  u_shell :: string
  u_gecos :: string
  u_password :: string

text \<open>The static array, how much of it is in use, the current user's slot, and the file system.\<close>

record accounts =
  users :: "user_t list"
  user_count :: nat
  cur_user :: "nat option"
  cred_registered :: bool
  ac_fs :: fs

definition zero_user :: user_t where
  "zero_user = \<lparr>u_name = [], u_uid = 0, u_gid = 0, u_home = [], u_shell = [], u_gecos = [], u_password = []\<rparr>"

definition cstr :: "u8 list \<Rightarrow> string" where
  "cstr bs = takeWhile (\<lambda>c. c \<noteq> CHR 0x00) (map byte_char bs)"

section \<open>Session\<close>

definition users_get_cred :: "accounts \<Rightarrow> u32 \<times> u32" where
  "users_get_cred a = (case cur_user a of Some i \<Rightarrow> (u_uid (users a ! i), u_gid (users a ! i)) | None \<Rightarrow> (0, 0))"

definition current_user :: "accounts \<Rightarrow> nat option" where
  "current_user a = cur_user a"

definition set_current_user :: "nat option \<Rightarrow> accounts \<Rightarrow> accounts" where
  "set_current_user u a = a\<lparr>cur_user := u\<rparr>"

definition is_root :: "accounts \<Rightarrow> bool" where
  "is_root a = (case cur_user a of Some i \<Rightarrow> u_uid (users a ! i) = 0 | None \<Rightarrow> False)"

text \<open>The file system sees the credentials of the moment once the provider is registered.\<close>

definition with_cred :: "accounts \<Rightarrow> fs" where
  "with_cred a = (if cred_registered a then vfs_set_cred_provider (Some (users_get_cred a)) (ac_fs a) else ac_fs a)"

definition lookup_path :: "string \<Rightarrow> accounts \<Rightarrow> (nat option \<times> accounts) option" where
  "lookup_path path a =
     (let (root, s) = vfs_get_root (with_cred a)
      in map_option (\<lambda>(n, s). (n, a\<lparr>ac_fs := s\<rparr>)) (vfs_resolve path root s))"

definition make_dir :: "string \<Rightarrow> accounts \<Rightarrow> accounts option" where
  "make_dir path a =
     (let (root, s) = vfs_get_root (with_cred a)
      in map_option (\<lambda>(n, s). a\<lparr>ac_fs := s\<rparr>) (vfs_mkdir path root s))"

section \<open>Files\<close>

text \<open>\<open>dr\<close> and \<open>dw\<close> answer for device nodes.\<close>

type_synonym devices = "(nat \<Rightarrow> u32 \<Rightarrow> u32 \<Rightarrow> u32 \<times> u8 list) \<times> (nat \<Rightarrow> u32 \<Rightarrow> u8 list \<Rightarrow> u32)"

definition write_file :: "devices \<Rightarrow> string \<Rightarrow> string \<Rightarrow> accounts \<Rightarrow> accounts option" where
  "write_file dev path text a =
     do {
       (n, a) \<leftarrow> lookup_path path a;
       (n, a) \<leftarrow> (case n of
                    Some i \<Rightarrow> Some (Some i, a)
                  | None \<Rightarrow> (let (root, s) = vfs_get_root (with_cred a)
                             in map_option (\<lambda>(n, s). (n, a\<lparr>ac_fs := s\<rparr>)) (vfs_create path root s)));
       case n of
         None \<Rightarrow> Some a
       | Some i \<Rightarrow>
           do {
             let s = upd_node (Some i) (\<lambda>v. v\<lparr>n_size := 0\<rparr>) (with_cred a);
             (r, s) \<leftarrow> vfs_write (snd dev) i 0 (string_bytes text) s;
             let s = (if path = ''/etc/shadow'' then upd_node (Some i) (\<lambda>v. v\<lparr>n_permissions := 0x180\<rparr>) s else s);
             Some (a\<lparr>ac_fs := s\<rparr>)
           }
     }"

text \<open>The count (negative: no such file) and the text up to the first zero byte.\<close>

definition read_file :: "devices \<Rightarrow> string \<Rightarrow> u32 \<Rightarrow> accounts \<Rightarrow> ((int \<times> string) \<times> accounts) option" where
  "read_file dev path cap a =
     do {
       (n, a) \<leftarrow> lookup_path path a;
       case Option.bind n (fs_nodes (ac_fs a)) of
         None \<Rightarrow> Some ((-1, []), a)
       | Some v \<Rightarrow>
           if n_type v \<noteq> VFS_FILE then Some ((-1, []), a)
           else case vfs_read (fst dev) (the n) 0 (cap - 1) (ac_fs a) of
                  (r, bs) \<Rightarrow> Some ((sint r, cstr (take (unat r) bs)), a)
     }"

fun split_from :: "char \<Rightarrow> nat \<Rightarrow> string \<Rightarrow> string \<Rightarrow> string list" where
  "split_from sep left cur [] = [cur]"
| "split_from sep left cur (c # s) =
     (if left > 0 \<and> c = sep then cur # split_from sep (left - 1) [] s else split_from sep left (cur @ [c]) s)"

text \<open>The last field keeps the remaining separators.\<close>

definition split_fields :: "string \<Rightarrow> char \<Rightarrow> nat \<Rightarrow> string list" where
  "split_fields line sep maxf = split_from sep (maxf - 1) [] line"

text \<open>One line of at most \<open>lim\<close> characters, and what follows it.\<close>

fun read_line :: "nat \<Rightarrow> string \<Rightarrow> string \<times> string" where
  "read_line lim [] = ([], [])"
| "read_line lim (c # s) =
     (if c = CHR 0x0A then ([], s)
      else if lim = 0 then ([], c # s)
      else case read_line (lim - 1) s of (line, rest) \<Rightarrow> (c # line, rest))"

lemma read_line_length: "read_line lim s = (line, rest) \<Longrightarrow> length rest \<le> length s"
  by (induction lim s arbitrary: line rest rule: read_line.induct) (auto split: if_splits prod.splits)

lemma read_line_decreases:
  assumes "read_line lim (c # s) = (line, rest)" "lim > 0"
  shows "length rest < length (c # s)"
  using assms read_line_length [of "lim - 1" s] by (auto split: if_splits prod.splits)

lemma read_line_rest:
  "(line, rest) = read_line 127 (c # s) \<Longrightarrow> length rest < Suc (length s)"
  "(line, rest) = read_line 255 (c # s) \<Longrightarrow> length rest < Suc (length s)"
  using read_line_decreases [of 127 c s line rest] read_line_decreases [of 255 c s line rest]
  by (simp_all del: read_line.simps add: eq_commute [of "(line, rest)"])

section \<open>Passwords\<close>

definition hash_password :: "string \<Rightarrow> string option" where
  "hash_password plain = sha256_hex (char_bytes plain) (of_nat (length plain))"

definition hex_lower :: "char \<Rightarrow> bool" where
  "hex_lower c = (let n = (of_char c :: nat) in 48 \<le> n \<and> n \<le> 57 \<or> 97 \<le> n \<and> n \<le> 102)"

definition is_hashed :: "string option \<Rightarrow> bool" where
  "is_hashed stored =
     (case stored of
        None \<Rightarrow> False
      | Some st \<Rightarrow> length st = 64 \<and> (\<forall>i<64. hex_lower (st ! i)))"

section \<open>The shadow file\<close>

function shadow_find :: "string \<Rightarrow> string \<Rightarrow> nat \<Rightarrow> string" where
  "shadow_find name p cap =
     (if p = [] then []
      else case read_line 127 p of (line, rest) \<Rightarrow>
        if line = [] then shadow_find name rest cap
        else case split_fields line (CHR '':'') 2 of
               [f0, f1] \<Rightarrow> if f0 = name then take (cap - 1) f1 else shadow_find name rest cap
             | _ \<Rightarrow> shadow_find name rest cap)"
  by auto
termination
  by (relation "measure (\<lambda>(name, p, cap). length p)") (auto simp: neq_Nil_conv simp del: read_line.simps dest: read_line_rest)

definition shadow_get :: "devices \<Rightarrow> string \<Rightarrow> nat \<Rightarrow> accounts \<Rightarrow> (string \<times> accounts) option" where
  "shadow_get dev name cap a =
     do {
       ((r, buf), a) \<leftarrow> read_file dev ''/etc/shadow'' 1024 a;
       Some (if r < 0 then [] else shadow_find name buf cap, a)
     }"

section \<open>Loading\<close>

definition text_memory :: "string \<Rightarrow> mem" where
  "text_memory s = (\<lambda>i. if i < length s then of_char (s ! i) else 0)"

definition atoi_text :: "string \<Rightarrow> u32 option" where
  "atoi_text s = atoi 0 (text_memory s)"

text \<open>One line of \<^verbatim>\<open>/etc/passwd\<close> as the fields of an account, without its password.\<close>

definition passwd_entry :: "string \<Rightarrow> user_t option option" where
  "passwd_entry line =
     (if line = [] \<or> hd line = CHR ''#'' then Some None
      else let f = split_fields line (CHR '':'') 7
           in if length f \<ge> 6
              then do {
                uid \<leftarrow> atoi_text (f ! 2);
                gid \<leftarrow> atoi_text (f ! 3);
                Some (Some (zero_user\<lparr>u_name := take (USER_NAME_MAX - 1) (f ! 0), u_uid := uid, u_gid := gid,
                  u_gecos := take (USER_NAME_MAX - 1) (f ! 4), u_home := take (USER_HOME_MAX - 1) (f ! 5),
                  u_shell := take (USER_HOME_MAX - 1) (if length f \<ge> 7 then f ! 6 else ''/bin/sh'')\<rparr>))
              }
              else Some None)"

definition load_entry :: "devices \<Rightarrow> string \<Rightarrow> accounts \<Rightarrow> accounts option" where
  "load_entry dev line a =
     do {
       e \<leftarrow> passwd_entry line;
       case e of
         None \<Rightarrow> Some a
       | Some u \<Rightarrow>
           do {
             let i = user_count a;
             let a = a\<lparr>users := (users a)[i := u], user_count := i + 1\<rparr>;
             (pw, a) \<leftarrow> shadow_get dev (u_name u) USER_PASS_MAX a;
             Some (a\<lparr>users := (users a)[i := u\<lparr>u_password := pw\<rparr>]\<rparr>)
           }
     }"

function load_lines :: "devices \<Rightarrow> string \<Rightarrow> accounts \<Rightarrow> accounts option" where
  "load_lines dev p a =
     (if p = [] \<or> \<not> user_count a < MAX_USERS then Some a
      else case read_line 255 p of (line, rest) \<Rightarrow>
        case load_entry dev line a of None \<Rightarrow> None | Some a \<Rightarrow> load_lines dev rest a)"
  by auto
termination
  by (relation "measure (\<lambda>(dev, p, a). length p)") (auto simp: neq_Nil_conv simp del: read_line.simps dest: read_line_rest)

declare shadow_find.simps [simp del] load_lines.simps [simp del]

definition users_load :: "devices \<Rightarrow> accounts \<Rightarrow> accounts option" where
  "users_load dev a =
     do {
       ((r, buf), a) \<leftarrow> read_file dev ''/etc/passwd'' 2048 (a\<lparr>user_count := 0\<rparr>);
       if r < 0 then Some a else load_lines dev buf a
     }"

section \<open>Saving\<close>

text \<open>\<^verbatim>\<open>snprintf\<close> into a local buffer, read back as a C string.\<close>

definition sprint :: "nat \<Rightarrow> string \<Rightarrow> varg list \<Rightarrow> string option" where
  "sprint cap fmt args = map_option (\<lambda>(n, b). takeWhile (\<lambda>c. c \<noteq> CHR 0x00) b) (snprintf (replicate cap (CHR 0x00)) cap fmt args)"

fun save_texts :: "user_t list \<Rightarrow> string \<Rightarrow> string \<Rightarrow> (string \<times> string) option" where
  "save_texts [] passwd shadow = Some (passwd, shadow)"
| "save_texts (u # us) passwd shadow =
     do {
       line \<leftarrow> sprint 256 (''%s:x:%u:%u:%s:%s:%s'' @ [CHR 0x0A])
         [VStr (Some (u_name u)), VInt (u_uid u), VInt (u_gid u), VStr (Some (u_gecos u)), VStr (Some (u_home u)), VStr (Some (u_shell u))];
       let passwd = passwd @ take (2048 - length passwd - 1) line;
       sline \<leftarrow> sprint 128 (''%s:%s'' @ [CHR 0x0A]) [VStr (Some (u_name u)), VStr (Some (u_password u))];
       let shadow = shadow @ take (2048 - length shadow - 1) sline;
       save_texts us passwd shadow
     }"

definition users_save :: "devices \<Rightarrow> accounts \<Rightarrow> accounts option" where
  "users_save dev a =
     do {
       (passwd, shadow) \<leftarrow> save_texts (take (user_count a) (users a)) [] [];
       a \<leftarrow> write_file dev ''/etc/passwd'' passwd a;
       write_file dev ''/etc/shadow'' shadow a
     }"

section \<open>Lookups and changes\<close>

definition users_find :: "string \<Rightarrow> accounts \<Rightarrow> nat option" where
  "users_find name a = find (\<lambda>i. u_name (users a ! i) = name) [0..<user_count a]"

definition users_find_uid :: "u32 \<Rightarrow> accounts \<Rightarrow> nat option" where
  "users_find_uid uid a = find (\<lambda>i. u_uid (users a ! i) = uid) [0..<user_count a]"

definition users_name_for_uid :: "u32 \<Rightarrow> accounts \<Rightarrow> string" where
  "users_name_for_uid uid a = (case users_find_uid uid a of Some i \<Rightarrow> u_name (users a ! i) | None \<Rightarrow> ''?'')"

definition users_count :: "accounts \<Rightarrow> nat" where
  "users_count a = user_count a"

definition users_at :: "int \<Rightarrow> accounts \<Rightarrow> nat option" where
  "users_at index a = (if index \<ge> 0 \<and> index < int (user_count a) then Some (nat index) else None)"

definition set_user :: "nat \<Rightarrow> (user_t \<Rightarrow> user_t) \<Rightarrow> accounts \<Rightarrow> accounts" where
  "set_user i f a = a\<lparr>users := (users a)[i := f (users a ! i)]\<rparr>"

definition users_add :: "devices \<Rightarrow> string option \<Rightarrow> string option \<Rightarrow> u32 \<Rightarrow> u32 \<Rightarrow> string option \<Rightarrow> accounts \<Rightarrow> (nat option \<times> accounts) option" where
  "users_add dev name password uid gid home a =
     (case name of
        None \<Rightarrow> Some (None, a)
      | Some name \<Rightarrow>
          if name = [] \<or> users_find name a \<noteq> None \<or> user_count a \<ge> MAX_USERS then Some (None, a)
          else do {
            let i = user_count a;
            h \<leftarrow> (case home of
                    Some h \<Rightarrow> if h \<noteq> [] then Some (take (USER_HOME_MAX - 1) h) else sprint USER_HOME_MAX ''/home/%s'' [VStr (Some name)]
                  | None \<Rightarrow> sprint USER_HOME_MAX ''/home/%s'' [VStr (Some name)]);
            pw \<leftarrow> (case password of
                     Some p \<Rightarrow> if p \<noteq> [] then map_option (take (USER_PASS_MAX - 1)) (hash_password p) else Some []
                   | None \<Rightarrow> Some []);
            let u = zero_user\<lparr>u_name := take (USER_NAME_MAX - 1) name, u_uid := uid, u_gid := gid,
              u_gecos := take (USER_NAME_MAX - 1) name, u_home := h, u_shell := ''/bin/sh'', u_password := pw\<rparr>;
            let a = a\<lparr>users := (users a)[i := u], user_count := i + 1\<rparr>;
            (n, a) \<leftarrow> lookup_path h a;
            a \<leftarrow> (if n = None then make_dir h a else Some a);
            (hd, a) \<leftarrow> lookup_path h a;
            let a = a\<lparr>ac_fs := upd_node hd (\<lambda>v. v\<lparr>n_owner_uid := uid, n_owner_gid := gid\<rparr>) (ac_fs a)\<rparr>;
            a \<leftarrow> users_save dev a;
            Some (Some i, a)
          })"

definition users_set_password :: "devices \<Rightarrow> string \<Rightarrow> string option \<Rightarrow> accounts \<Rightarrow> (int \<times> accounts) option" where
  "users_set_password dev name password a =
     (case users_find name a of
        None \<Rightarrow> Some (-1, a)
      | Some i \<Rightarrow>
          do {
            pw \<leftarrow> (case password of
                     Some p \<Rightarrow> if p \<noteq> [] then map_option (take (USER_PASS_MAX - 1)) (hash_password p) else Some []
                   | None \<Rightarrow> Some []);
            a \<leftarrow> users_save dev (set_user i (\<lambda>u. u\<lparr>u_password := pw\<rparr>) a);
            Some (0, a)
          })"

definition users_check_password :: "devices \<Rightarrow> string \<Rightarrow> string option \<Rightarrow> accounts \<Rightarrow> (int \<times> accounts) option" where
  "users_check_password dev name password a =
     (case users_find name a of
        None \<Rightarrow> Some (0, a)
      | Some i \<Rightarrow>
          let stored = u_password (users a ! i)
          in if stored = [] then Some (1, a)
             else do {
               ok \<leftarrow> sha256_verify (Some (case password of Some p \<Rightarrow> p | None \<Rightarrow> [])) (Some stored);
               a \<leftarrow> (if ok \<and> \<not> is_hashed (Some stored)
                     then do {
                       p \<leftarrow> password;
                       h \<leftarrow> hash_password p;
                       users_save dev (set_user i (\<lambda>u. u\<lparr>u_password := take (USER_PASS_MAX - 1) h\<rparr>) a)
                     }
                     else Some a);
               Some (if ok then 1 else 0, a)
             })"

section \<open>Boot\<close>

definition blank :: "int \<Rightarrow> string \<Rightarrow> bool" where
  "blank r buf = (r \<le> 0 \<or> buf = [] \<or> hd buf = CHR 0x0A)"

definition default_passwd :: string where
  "default_passwd = ''root:x:0:0:root:/root:/bin/sh'' @ [CHR 0x0A] @
     ''user:x:1000:1000:Default User:/home/user:/bin/sh'' @ [CHR 0x0A]"

definition default_shadow :: "string \<Rightarrow> string \<Rightarrow> string option" where
  "default_shadow root_hash user_hash =
     sprint 256 (''root:%s'' @ [CHR 0x0A] @ ''user:%s'' @ [CHR 0x0A]) [VStr (Some root_hash), VStr (Some user_hash)]"

definition ensure_dir :: "string \<Rightarrow> accounts \<Rightarrow> accounts option" where
  "ensure_dir path a = do { (n, a) \<leftarrow> lookup_path path a; if n = None then make_dir path a else Some a }"

definition users_init :: "devices \<Rightarrow> accounts \<Rightarrow> accounts option" where
  "users_init dev a =
     do {
       root_hash \<leftarrow> hash_password ''root'';
       user_hash \<leftarrow> hash_password ''user'';
       shadow \<leftarrow> default_shadow root_hash user_hash;
       ((r, buf), a) \<leftarrow> read_file dev ''/etc/passwd'' 64 a;
       a \<leftarrow> (if blank r buf
             then do { a \<leftarrow> write_file dev ''/etc/passwd'' default_passwd a; write_file dev ''/etc/shadow'' shadow a }
             else Some a);
       ((r, buf), a) \<leftarrow> read_file dev ''/etc/shadow'' 64 a;
       a \<leftarrow> (if blank r buf then write_file dev ''/etc/shadow'' shadow a else Some a);
       a \<leftarrow> ensure_dir ''/root'' a;
       (n, a) \<leftarrow> lookup_path ''/home/user'' a;
       a \<leftarrow> (if n = None then do { a \<leftarrow> ensure_dir ''/home'' a; make_dir ''/home/user'' a } else Some a);
       a \<leftarrow> users_load dev a;
       a \<leftarrow> (if users_find ''root'' a = None
             then map_option snd (users_add dev (Some ''root'') (Some ''root'') 0 0 (Some ''/root'') a) else Some a);
       a \<leftarrow> (if users_find ''user'' a = None
             then map_option snd (users_add dev (Some ''user'') (Some ''user'') 1000 1000 (Some ''/home/user'') a) else Some a);
       let c = users_find ''user'' a;
       let c = (if c = None \<and> user_count a > 0 then Some 0 else c);
       Some (a\<lparr>cur_user := c, cred_registered := True\<rparr>)
     }"

section \<open>What the operations keep\<close>

definition same_table :: "accounts \<Rightarrow> accounts \<Rightarrow> bool" where
  "same_table a b = (users a = users b \<and> user_count a = user_count b \<and> cur_user a = cur_user b
     \<and> cred_registered a = cred_registered b)"

lemma lookup_path_table: "lookup_path path a = Some (n, b) \<Longrightarrow> same_table a b"
  by (auto simp: lookup_path_def same_table_def split: prod.splits)

lemma write_file_table: "write_file dev path text a = Some b \<Longrightarrow> same_table a b"
  by (auto simp: write_file_def same_table_def bind_eq_Some_conv Let_def
    split: prod.splits option.splits dest!: lookup_path_table)

lemma users_save_table: "users_save dev a = Some b \<Longrightarrow> same_table a b"
  by (auto simp: users_save_def same_table_def bind_eq_Some_conv split: prod.splits dest!: write_file_table)

lemma users_find_Some:
  "users_find name a = Some i \<Longrightarrow> i < user_count a \<and> u_name (users a ! i) = name"
  by (auto simp: users_find_def find_Some_iff)

lemma find_ext:
  assumes "\<And>x. x \<in> set xs \<Longrightarrow> P x = Q x"
  shows "find P xs = find Q xs"
  using assms by (induction xs) simp_all

lemma users_find_set_user:
  assumes "\<And>u. u_name (f u) = u_name u" "i < length (users a)"
  shows "users_find name (set_user i f a) = users_find name a"
  unfolding users_find_def set_user_def
  by (simp, rule find_ext) (use assms in \<open>auto simp: nth_list_update\<close>)

lemma hash_password_spec:
  assumes "length pw + 64 < 2 ^ 32"
  shows "hash_password pw = Some (hex_of (SHA256 (char_bytes pw)))"
  unfolding hash_password_def using assms by (intro sha256_hex_spec) (simp_all add: char_bytes_def)

section \<open>The text files\<close>

lemma sprint_text:
  assumes "format_text fmt args = Some t" "CHR 0x00 \<notin> set t" "0 < cap"
  shows "sprint cap fmt args = Some (take (cap - 1) t)"
proof -
  have "takeWhile (\<lambda>c. c \<noteq> CHR 0x00) (take (cap - 1) t @ CHR 0x00 # rest) = take (cap - 1) t" for rest
    using assms(2) by (subst takeWhile_append2) (auto dest: in_set_takeD)
  then show ?thesis
    using snprintf_fills [of "replicate cap (CHR 0x00)" cap fmt args t] assms by (simp add: sprint_def)
qed

definition passwd_line :: "user_t \<Rightarrow> string" where
  "passwd_line u = u_name u @ '':x:'' @ unsigned_text (u_uid u) @ '':'' @ unsigned_text (u_gid u) @ '':'' @ u_gecos u @ '':''
     @ u_home u @ '':'' @ u_shell u"

definition shadow_line :: "user_t \<Rightarrow> string" where
  "shadow_line u = u_name u @ '':'' @ u_password u"

abbreviation newline :: char where "newline \<equiv> CHR 0x0A"

lemma passwd_format:
  "format_text (''%s:x:%u:%u:%s:%s:%s'' @ [newline]) [VStr (Some (u_name u)), VInt (u_uid u), VInt (u_gid u),
     VStr (Some (u_gecos u)), VStr (Some (u_home u)), VStr (Some (u_shell u))] = Some (passwd_line u @ [newline])"
  by (simp add: is_conversion_def is_digit_def convert_def padded_def passwd_line_def)

lemma shadow_format:
  "format_text (''%s:%s'' @ [newline]) [VStr (Some (u_name u)), VStr (Some (u_password u))] = Some (shadow_line u @ [newline])"
  by (simp add: is_conversion_def is_digit_def convert_def padded_def shadow_line_def)

text \<open>An account whose fields the files can carry.\<close>

definition plain :: "string \<Rightarrow> bool" where
  "plain t = (CHR '':'' \<notin> set t \<and> newline \<notin> set t \<and> CHR 0x00 \<notin> set t)"

definition clean_user :: "user_t \<Rightarrow> bool" where
  "clean_user u = (plain (u_name u) \<and> plain (u_gecos u) \<and> plain (u_home u) \<and> plain (u_shell u) \<and> plain (u_password u)
     \<and> u_name u \<noteq> [] \<and> hd (u_name u) \<noteq> CHR ''#'' \<and> length (u_name u) < USER_NAME_MAX \<and> length (u_gecos u) < USER_NAME_MAX
     \<and> length (u_home u) < USER_HOME_MAX \<and> length (u_shell u) < USER_HOME_MAX \<and> length (u_password u) < USER_PASS_MAX
     \<and> length (passwd_line u) < 255)"

lemma digit_bytes:
  assumes "c \<in> set (unsigned_text v)"
  shows "\<exists>d < 10. of_char c = digit_char d"
proof (cases "v = 0")
  case True
  then show ?thesis using assms by (intro exI [of _ 0]) (simp add: unsigned_text_def digit_char_def)
next
  case False
  then obtain b where "b \<in> set (digits 10 v)" "c = byte_char b" using assms by (auto simp: unsigned_text_def digit_text_def)
  then show ?thesis using digits_10_chars [of v] byte_char_inverse by fastforce
qed

lemma digit_char_values:
  assumes "(d :: u32) < 10"
  shows "digit_char d \<noteq> of_char (CHR '':'')" "digit_char d \<noteq> of_char newline" "digit_char d \<noteq> of_char (CHR 0x00)"
proof -
  have "unat d < 10" using assms by (simp add: word_less_nat_alt)
  then have "unat d \<in> set [0..<10]" by simp
  then have "d \<in> of_nat ` set [0..<10]" by (metis image_eqI of_nat_unat ucast_id)
  then have "d \<in> {0, 1, 2, 3, 4, 5, 6, 7, 8, 9}" by (simp add: upt_rec)
  then show "digit_char d \<noteq> of_char (CHR '':'')" "digit_char d \<noteq> of_char newline" "digit_char d \<noteq> of_char (CHR 0x00)"
    by (auto simp: digit_char_def)
qed

lemma plain_number: "plain (unsigned_text v)"
  using digit_bytes [of _ v] digit_char_values by (fastforce simp: plain_def)

lemma of_char_zero: "(of_char c :: u8) = 0 \<longleftrightarrow> c = CHR 0x00"
  using of_char_u8 [of c "CHR 0x00"] by simp

lemma text_memory_string: "CHR 0x00 \<notin> set t \<Longrightarrow> cstring_at (text_memory t) 0 (map of_char t)"
  by (auto simp: cstring_at_iff text_memory_def of_char_zero in_set_conv_nth)

lemma atoi_unsigned: "atoi_text (unsigned_text v) = Some v"
proof -
  have nz: "CHR 0x00 \<notin> set (unsigned_text v)" using plain_number [of v] by (simp add: plain_def)
  have ne: "unsigned_text v \<noteq> []" by (simp add: unsigned_text_def digit_text_def digits.simps [of 10 v])
  have "atoi 0 (text_memory (unsigned_text v)) = Some (foldl digit_step 0 (map of_char (unsigned_text v)))"
    by (rule atoi_at(1) [OF text_memory_string [OF nz]]) (use ne digit_bytes [of _ v] in auto)
  moreover have "foldl digit_step 0 (map of_char (unsigned_text v)) = v"
  proof (cases "v = 0")
    case True
    then show ?thesis by (simp add: unsigned_text_def digit_step_def)
  next
    case False
    then show ?thesis using digits_10_value [of v] by (simp add: unsigned_text_def digit_text_bytes foldl_conv_foldr)
  qed
  ultimately show ?thesis by (simp add: atoi_text_def)
qed

lemma split_from_field:
  "sep \<notin> set t \<Longrightarrow> 0 < left \<Longrightarrow> split_from sep left cur (t @ sep # r) = (cur @ t) # split_from sep (left - 1) [] r"
  by (induction t arbitrary: cur) auto

lemma split_from_last: "sep \<notin> set t \<Longrightarrow> split_from sep left cur t = [cur @ t]"
  by (induction t arbitrary: cur) auto

lemma split_from_rest: "split_from sep 0 cur t = [cur @ t]"
  by (induction t arbitrary: cur) auto

lemma read_line_text: "newline \<notin> set t \<Longrightarrow> length t \<le> lim \<Longrightarrow> read_line lim (t @ newline # r) = (t, r)"
  by (induction t arbitrary: lim) (auto simp: Suc_le_eq)

lemma passwd_entry_line:
  assumes "clean_user u"
  shows "passwd_entry (passwd_line u) = Some (Some (u\<lparr>u_password := []\<rparr>))"
proof -
  have c: "plain (u_name u)" "plain (u_gecos u)" "plain (u_home u)" "plain (u_shell u)" "u_name u \<noteq> []" "hd (u_name u) \<noteq> CHR ''#''"
    "length (u_name u) < 32" "length (u_gecos u) < 32" "length (u_home u) < 64" "length (u_shell u) < 64"
    using assms by (simp_all add: clean_user_def)
  have "split_fields (passwd_line u) (CHR '':'') 7 =
      [u_name u, ''x'', unsigned_text (u_uid u), unsigned_text (u_gid u), u_gecos u, u_home u, u_shell u]"
    using c plain_number [of "u_uid u"] plain_number [of "u_gid u"] split_from_field [of "CHR '':''" "''x''" 5]
    by (simp add: split_fields_def passwd_line_def split_from_field split_from_rest plain_def)
  moreover have "passwd_line u \<noteq> []" "hd (passwd_line u) = hd (u_name u)" using c(5) by (simp_all add: passwd_line_def)
  ultimately show ?thesis using c by (simp add: passwd_entry_def atoi_unsigned zero_user_def)
qed

lemma plain_lines:
  assumes "clean_user u"
  shows "newline \<notin> set (passwd_line u)" "CHR 0x00 \<notin> set (passwd_line u)" "newline \<notin> set (shadow_line u)" "CHR 0x00 \<notin> set (shadow_line u)"
    "length (shadow_line u) < 64" "length (passwd_line u) < 255"
  using assms plain_number [of "u_uid u"] plain_number [of "u_gid u"]
  by (auto simp: clean_user_def passwd_line_def shadow_line_def plain_def)

text \<open>The two files as \<^verbatim>\<open>users_save\<close> composes them.\<close>

definition passwd_text :: "user_t list \<Rightarrow> string" where
  "passwd_text us = concat (map (\<lambda>u. passwd_line u @ [newline]) us)"

definition shadow_text :: "user_t list \<Rightarrow> string" where
  "shadow_text us = concat (map (\<lambda>u. shadow_line u @ [newline]) us)"

lemma save_texts_eq:
  assumes "\<forall>u \<in> set us. clean_user u" "length p + length (passwd_text us) < 2048" "length q + length (shadow_text us) < 2048"
  shows "save_texts us p q = Some (p @ passwd_text us, q @ shadow_text us)"
  using assms
proof (induction us arbitrary: p q)
  case Nil
  then show ?case by (simp add: passwd_text_def shadow_text_def)
next
  case (Cons u us)
  note l = plain_lines [of u]
  have "sprint 256 (''%s:x:%u:%u:%s:%s:%s'' @ [newline]) [VStr (Some (u_name u)), VInt (u_uid u), VInt (u_gid u),
     VStr (Some (u_gecos u)), VStr (Some (u_home u)), VStr (Some (u_shell u))] = Some (passwd_line u @ [newline])"
    by (subst sprint_text [OF passwd_format]) (use l Cons.prems(1) in auto)
  moreover have "sprint 128 (''%s:%s'' @ [newline]) [VStr (Some (u_name u)), VStr (Some (u_password u))] = Some (shadow_line u @ [newline])"
    by (subst sprint_text [OF shadow_format]) (use l Cons.prems(1) in auto)
  moreover have "save_texts us (p @ passwd_line u @ [newline]) (q @ shadow_line u @ [newline]) =
      Some ((p @ passwd_line u @ [newline]) @ passwd_text us, (q @ shadow_line u @ [newline]) @ shadow_text us)"
    by (rule Cons.IH) (use Cons.prems in \<open>simp_all add: passwd_text_def shadow_text_def\<close>)
  ultimately show ?case using Cons.prems by (simp add: passwd_text_def shadow_text_def)
qed

lemma shadow_find_text:
  assumes "\<forall>u \<in> set us. clean_user u" "distinct (map u_name us)" "u \<in> set us"
  shows "shadow_find (u_name u) (shadow_text us @ rest) USER_PASS_MAX = u_password u"
  using assms
proof (induction us)
  case Nil
  then show ?case by simp
next
  case (Cons v us)
  have v: "clean_user v" using Cons.prems by simp
  note l = plain_lines [OF v]
  let ?r = "shadow_text us @ rest"
  have p: "shadow_text (v # us) @ rest = shadow_line v @ newline # ?r" by (simp add: shadow_text_def)
  have rl: "read_line 127 (shadow_line v @ newline # ?r) = (shadow_line v, ?r)"
    by (rule read_line_text) (use l in simp_all)
  have "plain (u_name v)" "length (u_password v) < 32" using v by (simp_all add: clean_user_def)
  then have sf: "split_fields (shadow_line v) (CHR '':'') 2 = [u_name v, u_password v]" "shadow_line v \<noteq> []"
    by (simp_all add: split_fields_def shadow_line_def split_from_field split_from_rest plain_def)
  have step: "shadow_find (u_name u) (shadow_line v @ newline # ?r) USER_PASS_MAX =
      (if u_name v = u_name u then take 31 (u_password v) else shadow_find (u_name u) ?r USER_PASS_MAX)"
    using rl sf by (subst shadow_find.simps) simp
  show ?case
  proof (cases "u_name v = u_name u")
    case True
    then have "u = v" using Cons.prems(2,3) by (metis distinct.simps(2) image_eqI list.simps(9) set_ConsD set_map)
    then show ?thesis unfolding p step using \<open>length (u_password v) < 32\<close> by simp
  next
    case False
    then have "u \<in> set us" using Cons.prems(3) by auto
    then show ?thesis unfolding p step using False Cons.IH Cons.prems by simp
  qed
qed

end
