(* ===== verification/Users_Files.thy ===== *)
theory Users_Files
  imports Users Ramfs_Data
begin

text \<open>
  The account database on top of the file system: what \<^verbatim>\<open>users_save\<close> writes is what \<^verbatim>\<open>users_load\<close> reads
  back, through path resolution, file writes and file reads.
\<close>

section \<open>Files that hold a text\<close>

definition file_at :: "string list \<Rightarrow> accounts \<Rightarrow> nat option" where
  "file_at cs a = resolve_walk (fs_root (ac_fs a)) cs (ac_fs a)"

text \<open>
  A file of ramfs in order, in memory or on the disk, and one that holds a text: reading its whole
  length returns the text.
\<close>

definition text_file :: "vnode \<Rightarrow> fs \<Rightarrow> bool" where
  "text_file n s = (n_type n = VFS_FILE \<and> n_ops n = Ramfs_ops \<and> file_ok n s)"

definition holds :: "vnode \<Rightarrow> string \<Rightarrow> fs \<Rightarrow> bool" where
  "holds n t s = (text_file n s \<and> n_size n = of_nat (length t) \<and> ramfs_read n 0 (n_size n) s = (n_size n, string_bytes t))"

lemma ramfs_read_clip: "n_size n \<le> m \<Longrightarrow> ramfs_read n 0 m s = ramfs_read n 0 (n_size n) s"
  by (simp add: ramfs_read_def diskfile_read_def Let_def split: option.split)

text \<open>Only the storage matters to a file, and the size and the permissions not to where it lies.\<close>

lemma storage_cong:
  assumes "fs_blockfs s = fs_blockfs t" "fs_disk s = fs_disk t"
  shows "lies_on_disk n s = lies_on_disk n t" "file_ok n s = file_ok n t" "apart n m s = apart n m t" "free_blocks s = free_blocks t"
    "new_blocks n fin s = new_blocks n fin t" "ramfs_read n off sz s = ramfs_read n off sz t" "holds n x s = holds n x t"
proof -
  show "ramfs_read n off sz s = ramfs_read n off sz t" for off sz
    using assms by (simp add: ramfs_read_def diskfile_read_def)
  moreover show "lies_on_disk n s = lies_on_disk n t" for n using assms by (simp add: lies_on_disk_def)
  moreover from this show "file_ok n s = file_ok n t" using assms by (simp add: file_ok_def file_blocks_ok_def)
  ultimately show "holds n x s = holds n x t" "apart n m s = apart n m t" "new_blocks n fin s = new_blocks n fin t"
    by (simp_all add: holds_def text_file_def apart_def new_blocks_def)
  show "free_blocks s = free_blocks t" using assms by (simp add: free_blocks_def)
qed

lemma place_frame [simp]:
  "lies_on_disk (n\<lparr>n_size := z\<rparr>) s = lies_on_disk n s" "lies_on_disk (n\<lparr>n_permissions := p\<rparr>) s = lies_on_disk n s"
  "block_list (n\<lparr>n_size := z\<rparr>) = block_list n" "block_list (n\<lparr>n_permissions := p\<rparr>) = block_list n"
  "new_blocks (n\<lparr>n_size := z\<rparr>) fin s = new_blocks n fin s" "apart (n\<lparr>n_size := z\<rparr>) m s = apart n m s"
  "apart (n\<lparr>n_permissions := p\<rparr>) m s = apart n m s" "ramfs_read (n\<lparr>n_permissions := p\<rparr>) off sz s = ramfs_read n off sz s"
  by (simp_all add: lies_on_disk_def block_list_def new_blocks_def apart_def ramfs_read_def diskfile_read_def split: option.split)

lemma file_ok_frame [simp]: "file_ok n s \<Longrightarrow> file_ok (n\<lparr>n_size := 0\<rparr>) s" "file_ok (n\<lparr>n_permissions := p\<rparr>) s = file_ok n s"
  by (auto simp: file_ok_def file_blocks_ok_def file_buffer_ok_def data_bytes_def)

definition good_path :: "string list \<Rightarrow> bool" where
  "good_path cs = ((\<forall>c \<in> set cs. name_ok c) \<and> length cs \<le> 64 \<and> length (render cs) < PATH_MAX)"

lemma with_cred_frame [simp]:
  "fs_nodes (with_cred a) = fs_nodes (ac_fs a)" "fs_root (with_cred a) = fs_root (ac_fs a)" "fs_next (with_cred a) = fs_next (ac_fs a)"
  "fs_vfs_root (with_cred a) = fs_vfs_root (ac_fs a)" "fs_blockfs (with_cred a) = fs_blockfs (ac_fs a)"
  "fs_grants (with_cred a) = fs_grants (ac_fs a)" "fs_disk (with_cred a) = fs_disk (ac_fs a)"
  "fs_allocs (with_cred a) = fs_allocs (ac_fs a)"
  by (simp_all add: with_cred_def vfs_set_cred_provider_def)

lemma rooted_storage [simp]: "fs_blockfs (rooted s) = fs_blockfs s" "fs_disk (rooted s) = fs_disk s"
  by (simp_all add: rooted_def)

lemma tree_ok_with_cred:
  assumes "tree_ok (ac_fs a)"
  shows "tree_ok (with_cred a)"
  by (rule tree_ok_frame [OF assms]) (use assms in \<open>auto simp: tree_ok_def\<close>)

lemma lookup_path_ok:
  assumes "tree_ok (ac_fs a)" "good_path cs"
  shows "lookup_path (render cs) a = Some (file_at cs a, a\<lparr>ac_fs := rooted (with_cred a)\<rparr>)"
proof -
  note ok = tree_ok_with_cred [OF assms(1)]
  note ok2 = tree_ok_rooted [OF ok]
  have "vfs_resolve (render cs) (fs_root (with_cred a)) (rooted (with_cred a)) =
      Some (resolve_walk (fs_root (ac_fs a)) cs (ac_fs a), rooted (with_cred a))"
    using vfs_resolve_render [OF ok2, of cs] assms(2) resolve_walk_cong [of "rooted (with_cred a)" "ac_fs a"]
    by (simp add: good_path_def)
  then show ?thesis using vfs_get_root_ok [OF ok] by (simp add: lookup_path_def file_at_def)
qed

lemma cstr_string_bytes: "CHR 0x00 \<notin> set t \<Longrightarrow> cstr (string_bytes t) = t"
proof -
  have "map byte_char (string_bytes t) = t"
    by (simp add: string_bytes_def byte_char_def unat_of_char map_idI)
  moreover assume "CHR 0x00 \<notin> set t"
  ultimately show ?thesis by (auto simp: cstr_def takeWhile_eq_all_conv)
qed

lemma read_file_ok:
  assumes "tree_ok (ac_fs a)" "good_path cs" "file_at cs a = Some i" "fs_nodes (ac_fs a) i = Some n" "holds n t (ac_fs a)"
    and "CHR 0x00 \<notin> set t" "length t < unat cap" "unat cap < 2 ^ 31"
  shows "read_file dev (render cs) cap a = Some ((int (length t), t), a\<lparr>ac_fs := rooted (with_cred a)\<rparr>)"
proof -
  have n: "n_type n = VFS_FILE" "n_ops n = Ramfs_ops" "n_size n = of_nat (length t)"
    "ramfs_read n 0 (n_size n) (ac_fs a) = (n_size n, string_bytes t)"
    using assms(5) unfolding holds_def text_file_def by blast+
  have l: "unat (of_nat (length t) :: u32) = length t" using assms(7,8) by simp
  have c: "unat (cap - 1) = unat cap - 1" using assms(7) by (subst unat_minus_u32) (auto simp: word_le_nat_alt)
  let ?r = "of_nat (length t) :: u32" and ?s = "rooted (with_cred a)"
  have "n_size n \<le> cap - 1" using assms(7) l c n(3) by (simp add: word_le_nat_alt)
  from ramfs_read_clip [OF this, of ?s] have rd: "vfs_read (fst dev) i 0 (cap - 1) ?s = (?r, string_bytes t)"
    using assms(4) n storage_cong(6) [of ?s "ac_fs a"] by (simp add: vfs_read_def)
  have si: "sint ?r = int (length t)"
    using assms(7,8) by (simp add: sint_uint uint_nat l signed_take_bit_int_eq_self)
  have "length (string_bytes t) = length t" by (simp add: string_bytes_def)
  then have cs: "cstr (take (unat ?r) (string_bytes t)) = t" using l cstr_string_bytes [OF assms(6)] by simp
  show ?thesis
    unfolding read_file_def lookup_path_ok [OF assms(1,2)]
    using assms(3,4) n(1) rd si cs by simp
qed

lemma finddir_same_shape:
  assumes "fs_nodes s i = Some v" "same_shape v w" "fs_nodes s' = (fs_nodes s)(i \<mapsto> w)"
  shows "vfs_finddir x nm s' = vfs_finddir x nm s"
proof -
  have P: "(\<lambda>c. case fs_nodes s' c of None \<Rightarrow> False | Some v \<Rightarrow> n_name v = nm) = (\<lambda>c. case fs_nodes s c of None \<Rightarrow> False | Some v \<Rightarrow> n_name v = nm)"
    using assms by (auto simp: same_shape_def fun_eq_iff)
  show ?thesis unfolding vfs_finddir_def ramfs_finddir_def P using assms by (simp add: same_shape_def)
qed

lemma resolve_same_shape:
  assumes "fs_nodes s i = Some v" "same_shape v w" "fs_nodes s' = (fs_nodes s)(i \<mapsto> w)"
  shows "resolve_walk r ts s' = resolve_walk r ts s"
proof (induction ts arbitrary: r)
  case Nil
  then show ?case by (cases r) simp_all
next
  case (Cons t ts)
  then show ?case using finddir_same_shape [OF assms] by (cases r) simp_all
qed

lemma with_cred_idem: "with_cred (a\<lparr>ac_fs := rooted (with_cred a)\<rparr>) = rooted (with_cred a)"
  by (cases "cred_registered a"; cases "cur_user a") (simp_all add: with_cred_def vfs_set_cred_provider_def users_get_cred_def rooted_def)

section \<open>Writing\<close>

text \<open>What the database asks of the file system it is stored in.\<close>

definition ready :: "accounts \<Rightarrow> bool" where
  "ready a = (tree_ok (ac_fs a) \<and> (\<forall>k. fs_grants (ac_fs a) k))"

lemma write_file_ok:
  assumes "ready a" "good_path cs" "file_at cs a = Some i" "fs_nodes (ac_fs a) i = Some n" "text_file n (ac_fs a)"
    and "t \<noteq> []" "length t < 2 ^ 31" "new_blocks n (length t) (ac_fs a) \<le> free_blocks (ac_fs a)"
  obtains b n' where "write_file dev (render cs) t a = Some b" "same_table a b" "ready b" "holds n' t (ac_fs b)" "same_shape n n'"
    "fs_nodes (ac_fs b) = (fs_nodes (ac_fs a))(i \<mapsto> n')" "\<forall>ds. file_at ds b = file_at ds a"
    "\<forall>m. spared n n' (ac_fs a) (ac_fs b) m" "free_blocks (ac_fs b) = free_blocks (ac_fs a) - new_blocks n (length t) (ac_fs a)"
proof -
  have ok: "tree_ok (ac_fs a)" "\<forall>k. fs_grants (ac_fs a) k" using assms(1) by (simp_all add: ready_def)
  have f: "n_type n = VFS_FILE" "n_ops n = Ramfs_ops" "file_ok n (ac_fs a)" using assms(5) by (simp_all add: text_file_def)
  let ?s = "rooted (with_cred a)" and ?m = "n\<lparr>n_size := 0\<rparr>" and ?bs = "string_bytes t"
  let ?z = "put_node i ?m ?s"
  have z: "fs_blockfs ?z = fs_blockfs (ac_fs a)" "fs_disk ?z = fs_disk (ac_fs a)" "fs_grants ?z = fs_grants (ac_fs a)"
    by (simp_all add: put_node_def)
  note cong = storage_cong [OF z(1,2)]
  have lb: "length ?bs = length t" by (simp add: string_bytes_def)
  have pre: "file_ok ?m ?z" "write_fits ?m (unat (0 :: u32)) (length ?bs) ?z" "fs_grants ?z (fs_allocs ?z)" "?bs \<noteq> []"
    using f(3) ok(2) z(3) assms(6-8) lb by (simp_all add: cong write_fits_def string_bytes_def)
  obtain r s1 n1 where w: "ramfs_write i ?m 0 ?bs ?z = Some (r, s1)" "fs_nodes s1 = (fs_nodes ?z)(i \<mapsto> n1)"
    "n_size n1 = of_nat (length t)" "ramfs_read n1 0 (of_nat (length t)) s1 = (of_nat (length t), ?bs)"
    "file_ok n1 s1" "same_attrs ?m n1" "fs_frame ?z s1" "\<forall>m. spared ?m n1 ?z s1 m"
    "free_blocks s1 = free_blocks (ac_fs a) - new_blocks n (length t) (ac_fs a)"
  proof (rule ramfs_write_file [OF pre, of i], goal_cases)
    case (1 s' n')
    have "n_size n' = of_nat (length t)" using 1(4) lb assms(7) by (simp add: word_eq_iff_unsigned [where ?'a = nat])
    then show ?case using 1(2-) lb by (intro 1(1) [of _ s' n']) (simp_all add: cong)
  qed
  let ?n2 = "if render cs = ''/etc/shadow'' then n1\<lparr>n_permissions := 0x180\<rparr> else n1"
  let ?s2 = "s1\<lparr>fs_nodes := (fs_nodes (ac_fs a))(i \<mapsto> ?n2)\<rparr>"
  have vw: "vfs_write (snd dev) i 0 ?bs ?z = Some (r, s1)" using w(1) f(2) by (simp add: vfs_write_def put_node_def)
  have s1: "s1\<lparr>fs_nodes := fs_nodes s1\<rparr> = s1" "fs_nodes s1 = (fs_nodes (ac_fs a))(i \<mapsto> n1)" using w(2) by (simp_all add: put_node_def)
  have u0: "upd_node (Some i) (\<lambda>v. v\<lparr>n_size := 0\<rparr>) ?s = ?z" using assms(4) by (simp add: upd_node_def)
  have wr: "write_file dev (render cs) t a = Some (a\<lparr>ac_fs := ?s2\<rparr>)"
    unfolding write_file_def lookup_path_ok [OF ok(1) assms(2)] assms(3)
    by (simp add: with_cred_idem u0 vw) (use s1 in \<open>auto simp: upd_node_def put_node_def\<close>)
  have sh: "same_shape n ?n2" using w(6) by (simp add: same_shape_def same_attrs_def)
  have st: "fs_blockfs ?s2 = fs_blockfs s1" "fs_disk ?s2 = fs_disk s1" by simp_all
  have "holds ?n2 t s1" using w(3-6) f by (auto simp: holds_def text_file_def same_attrs_def)
  then have "holds ?n2 t ?s2" using storage_cong(7) [OF st] by blast
  moreover have fr: "fs_next ?s2 = fs_next (ac_fs a)" "fs_root ?s2 = fs_root (ac_fs a)" "fs_vfs_root ?s2 = fs_vfs_root (rooted (with_cred a))"
    "fs_grants ?s2 = fs_grants (ac_fs a)" using w(7) by (simp_all add: fs_frame_def put_node_def)
  moreover have "tree_ok ?s2"
  proof -
    have "tree_ok (put_node i ?n2 ?s)"
      by (rule tree_ok_put_same [OF tree_ok_rooted [OF tree_ok_with_cred [OF ok(1)]] _ sh]) (use assms(4) in simp)
    then show ?thesis by (rule tree_ok_frame) (use fr in \<open>auto simp: put_node_def rooted_def\<close>)
  qed
  moreover have "file_at ds (a\<lparr>ac_fs := ?s2\<rparr>) = file_at ds a" for ds
  proof -
    have "resolve_walk (fs_root (ac_fs a)) ds ?s2 = resolve_walk (fs_root (ac_fs a)) ds (ac_fs a)"
      by (rule resolve_same_shape [OF assms(4) sh]) simp
    then show ?thesis using fr(2) by (simp add: file_at_def)
  qed
  moreover have "spared n ?n2 (ac_fs a) ?s2 m" for m
    using w(8) unfolding spared_def cong storage_cong [OF st] by auto
  moreover have "free_blocks ?s2 = free_blocks (ac_fs a) - new_blocks n (length t) (ac_fs a)"
    using w(9) storage_cong(4) [OF st] by simp
  ultimately show ?thesis
    using ok by (intro that [OF wr _ _ _ sh]) (simp_all add: same_table_def ready_def)
qed

section \<open>The two files\<close>

abbreviation passwd_path :: "string list" where "passwd_path \<equiv> [''etc'', ''passwd'']"
abbreviation shadow_path :: "string list" where "shadow_path \<equiv> [''etc'', ''shadow'']"

lemma paths [simp]:
  "render passwd_path = ''/etc/passwd''" "render shadow_path = ''/etc/shadow''" "good_path passwd_path" "good_path shadow_path"
  by (simp_all add: render_def good_path_def name_ok_def)

text \<open>
  Both files are there and in order, in memory or on the disk; on the disk no block belongs to both
  and the blocks they still need for a text of up to 2048 bytes are free.
\<close>

definition account_files :: "accounts \<Rightarrow> bool" where
  "account_files a = (ready a \<and> (\<exists>i n j m. file_at passwd_path a = Some i \<and> fs_nodes (ac_fs a) i = Some n \<and> text_file n (ac_fs a)
     \<and> file_at shadow_path a = Some j \<and> fs_nodes (ac_fs a) j = Some m \<and> text_file m (ac_fs a)
     \<and> apart n m (ac_fs a) \<and> new_blocks n 2048 (ac_fs a) + new_blocks m 2048 (ac_fs a) \<le> free_blocks (ac_fs a)))"

definition stored_text :: "string list \<Rightarrow> string \<Rightarrow> accounts \<Rightarrow> bool" where
  "stored_text cs t a = (\<exists>i n. file_at cs a = Some i \<and> fs_nodes (ac_fs a) i = Some n \<and> holds n t (ac_fs a))"

lemma stored_text_frame:
  assumes "fs_nodes (ac_fs b) = fs_nodes (ac_fs a)" "fs_root (ac_fs b) = fs_root (ac_fs a)"
    and "fs_blockfs (ac_fs b) = fs_blockfs (ac_fs a)" "fs_disk (ac_fs b) = fs_disk (ac_fs a)"
  shows "stored_text cs t b = stored_text cs t a"
  using assms(1,2) resolve_walk_cong [OF assms(1)] storage_cong(7) [OF assms(3,4)] by (simp add: stored_text_def file_at_def)

lemma new_blocks_mono: "p \<le> q \<Longrightarrow> new_blocks n p s \<le> new_blocks n q s"
  by (auto simp: new_blocks_def intro!: diff_le_mono div_le_mono)

lemma holds_spared:
  assumes "holds n t s" "spared m m' s s' n" "apart m n s"
  shows "holds n t s'"
  using assms unfolding holds_def text_file_def spared_def by metis

lemma users_save_ok:
  assumes "account_files a" "\<forall>u \<in> set us. clean_user u" "us \<noteq> []" "us = take (user_count a) (users a)"
    and "length (passwd_text us) < 2048" "length (shadow_text us) < 2048"
  obtains b where "users_save dev a = Some b" "same_table a b" "ready b" "stored_text passwd_path (passwd_text us) b"
    "stored_text shadow_path (shadow_text us) b"
proof -
  have ok: "ready a" using assms(1) by (simp add: account_files_def)
  obtain i n j m where f1: "file_at passwd_path a = Some i" "fs_nodes (ac_fs a) i = Some n" "text_file n (ac_fs a)"
    and f2: "file_at shadow_path a = Some j" "fs_nodes (ac_fs a) j = Some m" "text_file m (ac_fs a)"
    and d: "apart n m (ac_fs a)" "new_blocks n 2048 (ac_fs a) + new_blocks m 2048 (ac_fs a) \<le> free_blocks (ac_fs a)"
    using assms(1) by (auto simp: account_files_def)
  obtain r where r: "fs_root (ac_fs a) = Some r" using ok by (auto simp: ready_def tree_ok_def)
  have ij: "i \<noteq> j"
    using resolve_walk_unique [of "ac_fs a" r passwd_path i shadow_path] ok f1(1) f2(1) r by (auto simp: ready_def file_at_def)
  have tx: "save_texts us [] [] = Some (passwd_text us, shadow_text us)"
    using save_texts_eq [OF assms(2), of "[]" "[]"] assms(5,6) by simp
  have ne: "passwd_text us \<noteq> []" "shadow_text us \<noteq> []" using assms(3) by (auto simp: passwd_text_def shadow_text_def neq_Nil_conv)
  have lt: "length (passwd_text us) < 2 ^ 31" "length (shadow_text us) < 2 ^ 31" using assms(5,6) by simp_all
  have nb: "new_blocks n (length (passwd_text us)) (ac_fs a) \<le> new_blocks n 2048 (ac_fs a)" by (rule new_blocks_mono) (use assms(5) in simp)
  then have room: "new_blocks n (length (passwd_text us)) (ac_fs a) \<le> free_blocks (ac_fs a)" using d(2) by simp
  obtain b1 n1 where b1: "write_file dev ''/etc/passwd'' (passwd_text us) a = Some b1" "same_table a b1" "ready b1"
    "holds n1 (passwd_text us) (ac_fs b1)" "same_shape n n1" "fs_nodes (ac_fs b1) = (fs_nodes (ac_fs a))(i \<mapsto> n1)"
    "\<forall>ds. file_at ds b1 = file_at ds a" "\<forall>m. spared n n1 (ac_fs a) (ac_fs b1) m"
    "free_blocks (ac_fs b1) = free_blocks (ac_fs a) - new_blocks n (length (passwd_text us)) (ac_fs a)"
    by (rule write_file_ok [OF ok paths(3) f1 ne(1) lt(1) room, of dev, unfolded paths])
  have f2': "file_at shadow_path b1 = Some j" "fs_nodes (ac_fs b1) j = Some m" using b1(6,7) f2 ij by auto
  have sm: "text_file m (ac_fs b1)" "apart n1 m (ac_fs b1)" "lies_on_disk m (ac_fs b1) = lies_on_disk m (ac_fs a)"
    using b1(8) f2(3) d(1) by (auto simp: text_file_def spared_def)
  have "new_blocks m (length (shadow_text us)) (ac_fs b1) \<le> new_blocks m 2048 (ac_fs b1)" by (rule new_blocks_mono) (use assms(6) in simp)
  moreover have "new_blocks m 2048 (ac_fs b1) = new_blocks m 2048 (ac_fs a)" using sm(3) by (simp add: new_blocks_def)
  ultimately have room2: "new_blocks m (length (shadow_text us)) (ac_fs b1) \<le> free_blocks (ac_fs b1)"
    using d(2) nb b1(9) by linarith
  obtain b2 n2 where b2: "write_file dev ''/etc/shadow'' (shadow_text us) b1 = Some b2" "same_table b1 b2" "ready b2"
    "holds n2 (shadow_text us) (ac_fs b2)" "same_shape m n2" "fs_nodes (ac_fs b2) = (fs_nodes (ac_fs b1))(j \<mapsto> n2)"
    "\<forall>ds. file_at ds b2 = file_at ds b1" "\<forall>x. spared m n2 (ac_fs b1) (ac_fs b2) x"
    "free_blocks (ac_fs b2) = free_blocks (ac_fs b1) - new_blocks m (length (shadow_text us)) (ac_fs b1)"
    by (rule write_file_ok [OF b1(3) paths(4) f2' sm(1) ne(2) lt(2) room2, of dev, unfolded paths])
  have "apart m n1 (ac_fs b1)" using sm(2) by (auto simp: apart_def)
  then have h1: "holds n1 (passwd_text us) (ac_fs b2)" using holds_spared [OF b1(4)] b2(8) by blast
  have "users_save dev a = Some b2" using tx b1(1) b2(1) assms(4) by (simp add: users_save_def)
  moreover have "same_table a b2" using b1(2) b2(2) by (simp add: same_table_def)
  moreover have "stored_text passwd_path (passwd_text us) b2" "stored_text shadow_path (shadow_text us) b2"
    using b1(6,7) b2(4,6,7) h1 f1(1) f2(1) ij by (auto simp: stored_text_def)
  ultimately show ?thesis using that b2(3) by blast
qed

section \<open>Reading back\<close>

lemma shadow_get_ok:
  assumes "ready a" "stored_text shadow_path (shadow_text us) a" "\<forall>u \<in> set us. clean_user u" "distinct (map u_name us)" "u \<in> set us"
    and "length (shadow_text us) < 1024"
  shows "shadow_get dev (u_name u) USER_PASS_MAX a = Some (u_password u, a\<lparr>ac_fs := rooted (with_cred a)\<rparr>)"
proof -
  obtain i n where f: "file_at shadow_path a = Some i" "fs_nodes (ac_fs a) i = Some n" "holds n (shadow_text us) (ac_fs a)"
    using assms(2) by (auto simp: stored_text_def)
  have nz: "CHR 0x00 \<notin> set (shadow_text us)" using plain_lines(4) assms(3) by (auto simp: shadow_text_def)
  have "tree_ok (ac_fs a)" using assms(1) by (simp add: ready_def)
  then have "read_file dev ''/etc/shadow'' 1024 a = Some ((int (length (shadow_text us)), shadow_text us), a\<lparr>ac_fs := rooted (with_cred a)\<rparr>)"
    using read_file_ok [OF _ paths(4) f nz, of 1024 dev] assms(6) by simp
  then show ?thesis using shadow_find_text [OF assms(3-5), of "[]"] by (simp add: shadow_get_def)
qed

lemma ready_rooted:
  assumes "ready a" "ac_fs c = ac_fs a"
  shows "ready (a\<lparr>users := us, user_count := k, ac_fs := rooted (with_cred c)\<rparr>)"
proof -
  have "tree_ok (rooted (with_cred c))"
    using assms tree_ok_rooted [OF tree_ok_with_cred [of c]] by (simp add: ready_def)
  moreover have "fs_blockfs (rooted (with_cred c)) = fs_blockfs (ac_fs a)" "fs_grants (rooted (with_cred c)) = fs_grants (ac_fs a)"
    using assms(2) by (simp_all add: rooted_def)
  ultimately show ?thesis using assms by (simp add: ready_def)
qed

lemma load_lines_ok:
  assumes "ready a" "stored_text shadow_path (shadow_text us) a" "\<forall>u \<in> set us. clean_user u" "distinct (map u_name us)"
    and "length (shadow_text us) < 1024" "set vs \<subseteq> set us" "user_count a + length vs \<le> MAX_USERS" "length (users a) = MAX_USERS"
  shows "\<exists>c. load_lines dev (passwd_text vs) a = Some c \<and> user_count c = user_count a + length vs
    \<and> take (user_count c) (users c) = take (user_count a) (users a) @ vs"
  using assms(1,2,6-8)
proof (induction vs arbitrary: a)
  case Nil
  then show ?case by (simp add: load_lines.simps passwd_text_def)
next
  case (Cons v vs)
  let ?i = "user_count a" and ?rest = "passwd_text vs"
  have v: "clean_user v" "v \<in> set us" using Cons.prems(3) assms(3) by auto
  note l = plain_lines [OF v(1)]
  have p: "passwd_text (v # vs) = passwd_line v @ newline # ?rest" by (simp add: passwd_text_def)
  have rl: "read_line 255 (passwd_line v @ newline # ?rest) = (passwd_line v, ?rest)" by (rule read_line_text) (use l in simp_all)
  let ?u = "v\<lparr>u_password := []\<rparr>"
  let ?b = "a\<lparr>users := (users a)[?i := ?u], user_count := ?i + 1\<rparr>"
  have rb: "ready ?b" "stored_text shadow_path (shadow_text us) ?b"
    using Cons.prems(1,2) stored_text_frame [of ?b a] by (simp_all add: ready_def)
  let ?c = "a\<lparr>users := (users a)[?i := v], user_count := ?i + 1, ac_fs := rooted (with_cred ?b)\<rparr>"
  have "shadow_get dev (u_name v) USER_PASS_MAX ?b = Some (u_password v, ?b\<lparr>ac_fs := rooted (with_cred ?b)\<rparr>)"
    by (rule shadow_get_ok [OF rb assms(3,4) v(2) assms(5)])
  then have le: "load_entry dev (passwd_line v) a = Some ?c"
    unfolding load_entry_def passwd_entry_line [OF v(1)] by (simp add: Let_def)
  have step: "load_lines dev (passwd_text (v # vs)) a = load_lines dev ?rest ?c"
    unfolding p using rl le Cons.prems(4) by (subst load_lines.simps) simp
  have "ready ?c" by (rule ready_rooted [OF Cons.prems(1)]) simp
  moreover have "stored_text shadow_path (shadow_text us) ?c" using Cons.prems(2) stored_text_frame [of ?c a] by simp
  ultimately have "\<exists>d. load_lines dev ?rest ?c = Some d \<and> user_count d = user_count ?c + length vs
      \<and> take (user_count d) (users d) = take (user_count ?c) (users ?c) @ vs"
    by (rule Cons.IH) (use Cons.prems in simp_all)
  moreover have "take (Suc ?i) ((users a)[?i := v]) = take ?i (users a) @ [v]"
    using Cons.prems(4,5) by (simp add: take_Suc_conv_app_nth)
  ultimately show ?case unfolding step by auto
qed

section \<open>Properties\<close>

text \<open>
  C11: the account database survives a save and a load, whether its two files are kept in memory or in
  blocks of the disk. On a well-formed tree with a heap that grants every request, both files
  present and in order with no block in common and the blocks they still need free
  (\<open>account_files\<close>), every account clean (fields without separators, within the structure's sizes),
  account names distinct and the texts within the 2048 and 1024 bytes the loader reads, \<^verbatim>\<open>users_save\<close> followed by \<^verbatim>\<open>users_load\<close> returns
  and leaves exactly the accounts that were there, passwords included, in the same order.
\<close>

theorem users_save_load:
  assumes "account_files a" "us = take (user_count a) (users a)" "length (users a) = MAX_USERS" "user_count a \<le> MAX_USERS" "us \<noteq> []"
    and "\<forall>u \<in> set us. clean_user u" "distinct (map u_name us)" "length (passwd_text us) < 2048" "length (shadow_text us) < 1024"
  shows "\<exists>b c. users_save dev a = Some b \<and> users_load dev b = Some c \<and> user_count c = user_count a \<and> take (user_count c) (users c) = us"
proof -
  obtain b where b: "users_save dev a = Some b" "same_table a b" "ready b" "stored_text passwd_path (passwd_text us) b"
    "stored_text shadow_path (shadow_text us) b"
    by (rule users_save_ok [OF assms(1,6,5,2,8), of dev]) (use assms(9) in simp)
  let ?b = "b\<lparr>user_count := 0\<rparr>" and ?c = "b\<lparr>user_count := 0, ac_fs := rooted (with_cred (b\<lparr>user_count := 0\<rparr>))\<rparr>"
  obtain i n where f: "file_at passwd_path ?b = Some i" "fs_nodes (ac_fs ?b) i = Some n" "holds n (passwd_text us) (ac_fs ?b)"
    using b(4) by (auto simp: stored_text_def file_at_def)
  have nz: "CHR 0x00 \<notin> set (passwd_text us)" using plain_lines(2) assms(6) by (auto simp: passwd_text_def)
  have "tree_ok (ac_fs ?b)" using b(3) by (simp add: ready_def)
  then have rd: "read_file dev ''/etc/passwd'' 2048 ?b = Some ((int (length (passwd_text us)), passwd_text us), ?c)"
    using read_file_ok [OF _ paths(3) f nz, of 2048 dev] assms(8) by simp
  have "ready ?c"
    using ready_rooted [OF b(3), where c = ?b and us = "users b" and k = 0] by simp
  moreover have "stored_text shadow_path (shadow_text us) ?c" using b(5) stored_text_frame [of ?c b] by simp
  moreover have "length us = user_count a" using assms(2-4) by simp
  ultimately obtain c where "load_lines dev (passwd_text us) ?c = Some c" "user_count c = user_count a" "take (user_count c) (users c) = us"
    using load_lines_ok [of ?c us us dev] assms(3,4,6,7,9) b(2) by (auto simp: same_table_def)
  then show ?thesis using b(1) rd by (auto simp: users_load_def)
qed

text \<open>
  C38: a password that was set cannot be used. The stored hash is cut to the 31 characters the
  account structure has room for, so the check no longer takes it for a hash and compares it with
  the attempt as plain text: after a successful \<^verbatim>\<open>users_set_password\<close> with a non-empty password every
  attempt other than that 31-character prefix of the hash is refused, the password itself included,
  and the table stays as it is.
\<close>

theorem users_set_password_unusable:
  assumes "users_set_password dev name (Some pw) a = Some (0, b)" "pw \<noteq> []" "length pw + 64 < 2 ^ 32"
    and "user_count a \<le> length (users a)" "length attempt + 64 < 2 ^ 32"
    and "attempt \<noteq> take 31 (hex_of (SHA256 (char_bytes pw)))"
  shows "users_check_password dev name (Some attempt) b = Some (0, b)"
proof -
  let ?st = "take 31 (hex_of (SHA256 (char_bytes pw)))"
  obtain i where i: "users_find name a = Some i"
    using assms(1) by (auto simp: users_set_password_def split: option.splits)
  let ?a = "set_user i (\<lambda>u. u\<lparr>u_password := ?st\<rparr>) a"
  have lt: "i < length (users a)" using users_find_Some [OF i] assms(4) by simp
  have "users_save dev ?a = Some b"
    using assms(1,2) i by (auto simp: users_set_password_def hash_password_spec [OF assms(3)] bind_eq_Some_conv)
  then have eq: "users b = users ?a" "user_count b = user_count ?a"
    using users_save_table by (auto simp: same_table_def)
  have "users_find name ?a = Some i" using i lt by (subst users_find_set_user) simp_all
  then have "users_find name b = Some i" using eq by (simp add: users_find_def)
  moreover have "u_password (users b ! i) = ?st" using lt unfolding eq by (simp add: set_user_def)
  moreover have "length ?st = 31" by (simp add: hex_of_length)
  ultimately show ?thesis
    using assms(6) by (auto simp: users_check_password_def Let_def sha256_verify_spec [OF assms(5)])
qed

section \<open>Witnesses\<close>

definition example_users_tree :: fs where
  "example_users_tree = example_tree\<lparr>fs_nodes := [1 \<mapsto> example_root\<lparr>n_children := [2]\<rparr>,
     2 \<mapsto> (fresh_node (Some 1) ''etc'' VFS_DIRECTORY 5)\<lparr>n_children := [3, 4]\<rparr>,
     3 \<mapsto> fresh_node (Some 2) ''passwd'' VFS_FILE 5, 4 \<mapsto> fresh_node (Some 2) ''shadow'' VFS_FILE 5], fs_next := 5\<rparr>"

definition example_user :: user_t where
  "example_user = zero_user\<lparr>u_name := ''root'', u_home := ''/root'', u_shell := ''/bin/sh''\<rparr>"

definition example_accounts :: accounts where
  "example_accounts = \<lparr>users = example_user # replicate 31 zero_user, user_count = 1, cur_user = Some 0, cred_registered = True,
     ac_fs = example_users_tree\<rparr>"

lemma example_users_tree: "tree_ok example_users_tree"
  by (auto simp: tree_ok_def node_ok_def child_names_def example_users_tree_def example_defs name_ok_def split: if_splits)

text \<open>The same accounts with the files in memory and, block storage being there, on the disk.\<close>

definition on_example_disk :: "accounts \<Rightarrow> accounts" where
  "on_example_disk a = a\<lparr>ac_fs := (ac_fs a)\<lparr>fs_disk := example_disk, fs_blockfs := example_blockfs\<rparr>\<rparr>"

lemma example_files:
  assumes "a = example_accounts\<lparr>users := us\<rparr> \<or> a = on_example_disk (example_accounts\<lparr>users := us\<rparr>)"
  shows "account_files a"
proof -
  have t: "fs_nodes (ac_fs a) = fs_nodes example_users_tree" "fs_root (ac_fs a) = Some 1" "fs_grants (ac_fs a) = (\<lambda>_. True)"
    "fs_next (ac_fs a) = 5" "fs_vfs_root (ac_fs a) = None"
    using assms by (auto simp: example_accounts_def on_example_disk_def example_users_tree_def example_tree_def)
  then have at: "file_at passwd_path a = Some 3" "file_at shadow_path a = Some 4"
    by (simp_all add: file_at_def example_users_tree_def example_defs vfs_finddir_def ramfs_finddir_def)
  have "tree_ok (ac_fs a)"
    by (rule tree_ok_frame [OF example_users_tree]) (use t in \<open>simp_all add: example_users_tree_def example_tree_def\<close>)
  then have r: "ready a" using t by (simp add: ready_def)
  have f: "text_file (fresh_node p nm VFS_FILE 5) (ac_fs a)" "new_blocks (fresh_node p nm VFS_FILE 5) 2048 (ac_fs a) \<le> 1"
    "free_blocks (ac_fs a) \<ge> 2 \<or> new_blocks (fresh_node p nm VFS_FILE 5) 2048 (ac_fs a) = 0" for p nm
    using assms example_disk example_blockfs
    by (auto simp: text_file_def file_ok_def lies_on_disk_def file_blocks_ok_def file_buffer_ok_def fresh_node_def data_bytes_def block_list_def
        new_blocks_def disk_ready_def free_blocks_def example_blocks example_blocks_free on_example_disk_def example_accounts_def
        example_users_tree_def example_tree_def blank_blockfs_def)
  have "apart (fresh_node p nm VFS_FILE 5) (fresh_node q nm' VFS_FILE 5) (ac_fs a)" for p nm q nm'
    by (simp add: apart_def block_list_def fresh_node_def)
  moreover have "fs_nodes (ac_fs a) 3 = Some (fresh_node (Some 2) ''passwd'' VFS_FILE 5)"
    "fs_nodes (ac_fs a) 4 = Some (fresh_node (Some 2) ''shadow'' VFS_FILE 5)"
    using t(1) by (simp_all add: example_users_tree_def)
  moreover have "new_blocks (fresh_node (Some 2) ''passwd'' VFS_FILE 5) 2048 (ac_fs a) + new_blocks (fresh_node (Some 2) ''shadow'' VFS_FILE 5) 2048 (ac_fs a)
      \<le> free_blocks (ac_fs a)"
    using f(2,3) [of "Some 2" "''passwd''"] f(2,3) [of "Some 2" "''shadow''"] by linarith
  ultimately show ?thesis using r at f(1) by (simp add: account_files_def)
qed

lemma nibble_plain: "plain [nibble (b AND 0xF)]" "plain [nibble (drop_bit 4 b)]"
proof -
  have "unat (b AND 0xF) < 16"
  proof -
    have "b AND 0xF = take_bit 4 b" by (simp add: take_bit_eq_mask mask_eq_exp_minus_1)
    then show ?thesis by (simp add: take_bit_eq_mod unat_mod)
  qed
  moreover have "unat (drop_bit 4 b) < 16" using unat_u8_bound [of b] by (simp add: drop_bit_eq_div unat_div)
  moreover have "nibble x \<in> set ''0123456789abcdef''" if "unat x < 16" for x
    unfolding nibble_def using that nth_mem [of "unat x" "''0123456789abcdef''"] by simp
  ultimately show "plain [nibble (b AND 0xF)]" "plain [nibble (drop_bit 4 b)]"
    unfolding plain_def by fastforce+
qed

lemma hash_plain: "plain (hex_of raw)"
  using nibble_plain by (induction raw) (auto simp: hex_of_def plain_def)

lemma example_clean:
  assumes "plain pw" "length pw < 32"
  shows "clean_user (example_user\<lparr>u_password := pw\<rparr>)"
  using assms by (simp add: clean_user_def example_user_def zero_user_def plain_def passwd_line_def unsigned_text_def)

definition no_devices :: devices where
  "no_devices = (\<lambda>i off sz. (0, []), \<lambda>i off buf. 0)"

definition restored :: "accounts \<Rightarrow> bool" where
  "restored a = (\<exists>b c. users_save no_devices a = Some b \<and> users_load no_devices b = Some c \<and> user_count c = 1
     \<and> take 1 (users c) = [example_user])"

theorem users_save_load_witness: "restored example_accounts \<and> restored (on_example_disk example_accounts)"
proof -
  have "restored a" if a: "a = example_accounts \<or> a = on_example_disk example_accounts" for a
  proof -
    have "clean_user example_user" using example_clean [of "[]"] by (simp add: plain_def example_user_def zero_user_def)
    moreover have "length (passwd_text [example_user]) < 2048" "length (shadow_text [example_user]) < 1024"
      by (simp_all add: passwd_text_def shadow_text_def passwd_line_def shadow_line_def example_user_def zero_user_def unsigned_text_def)
    moreover have "account_files a" using example_files [of a "users example_accounts"] a by simp
    moreover have "users a = example_user # replicate 31 zero_user" "user_count a = 1"
      using a by (auto simp: on_example_disk_def example_accounts_def)
    ultimately show ?thesis
      using users_save_load [of a "[example_user]" no_devices] by (simp add: restored_def) metis
  qed
  then show ?thesis by simp
qed

theorem users_set_password_unusable_witness:
  "\<exists>b. users_check_password no_devices ''root'' (Some ''secret'') b = Some (0, b) \<and> users_set_password no_devices ''root'' (Some ''secret'') example_accounts = Some (0, b)"
proof -
  let ?h = "hex_of (SHA256 (char_bytes ''secret''))"
  let ?u = "example_user\<lparr>u_password := take 31 ?h\<rparr>"
  let ?a = "example_accounts\<lparr>users := ?u # replicate 31 zero_user\<rparr>"
  have f: "users_find ''root'' example_accounts = Some 0"
    by (simp add: users_find_def example_accounts_def example_user_def)
  have s: "set_user 0 (\<lambda>u. u\<lparr>u_password := take 31 ?h\<rparr>) example_accounts = ?a" by (simp add: set_user_def example_accounts_def)
  have pl: "plain (take 31 ?h)" using hash_plain [of "SHA256 (char_bytes ''secret'')"] by (auto simp: plain_def dest: in_set_takeD)
  have len: "length (take 31 ?h) = 31" by (simp add: hex_of_length)
  note cl = example_clean [OF pl]
  have tx: "length (passwd_text [?u]) < 2048" "length (shadow_text [?u]) < 2048"
    using plain_lines(5,6) [OF cl] len by (simp_all add: passwd_text_def shadow_text_def)
  obtain b where b: "users_save no_devices ?a = Some b"
    by (rule users_save_ok [OF example_files [of ?a "?u # replicate 31 zero_user"], of "[?u]" no_devices])
      (use cl tx len in \<open>simp_all add: example_accounts_def\<close>)
  have sp: "users_set_password no_devices ''root'' (Some ''secret'') example_accounts = Some (0, b)"
    using f b s hash_password_spec [of "''secret''"] by (simp add: users_set_password_def)
  have "''secret'' \<noteq> take 31 ?h"
  proof
    assume "''secret'' = take 31 ?h"
    then have "length ''secret'' = 31" using len by (simp only:)
    then show False by simp
  qed
  then have "users_check_password no_devices ''root'' (Some ''secret'') b = Some (0, b)"
    by (intro users_set_password_unusable [OF sp]) (simp_all add: example_accounts_def)
  then show ?thesis using sp by blast
qed

end
