(* ===== verification/Process.thy ===== *)
theory Process
  imports Prelude
begin

text \<open>
  The process table, \<^verbatim>\<open>process/process.c\<close>. The table is the list of the slots in use (its length
  is \<^verbatim>\<open>proc_count\<close>); a process pointer is a slot number. Addresses handed out by the address space
  and heap managers are arguments of the operations that ask for them. Calls into other
  components (freeing an address space or a kernel stack, closing descriptors, switching
  context) are recorded in order in \<open>ps_trace\<close>. The scheduler's own variables are part of the
  same state.
\<close>

section \<open>State\<close>

datatype proc_state_t = PROC_RUNNING | PROC_READY | PROC_SLEEPING | PROC_ZOMBIE

abbreviation MAX_PROCESSES :: nat where "MAX_PROCESSES \<equiv> 128"
abbreviation PRIO_MIN :: int where "PRIO_MIN \<equiv> -20"
abbreviation PRIO_MAX :: int where "PRIO_MAX \<equiv> 19"
abbreviation PRIO_DEFAULT :: int where "PRIO_DEFAULT \<equiv> 0"
abbreviation PRIO_IDLE :: int where "PRIO_IDLE \<equiv> 100"
abbreviation SIGKILL :: int where "SIGKILL \<equiv> 9"
abbreviation SIGCHLD :: int where "SIGCHLD \<equiv> 17"
abbreviation NSIG :: int where "NSIG \<equiv> 32"
abbreviation SIG_DFL :: u32 where "SIG_DFL \<equiv> 0"
abbreviation SIG_IGN :: u32 where "SIG_IGN \<equiv> 1"

record context_t =
  cx_esp :: u32
  cx_ebp :: u32
  cx_ebx :: u32
  cx_esi :: u32
  cx_edi :: u32
  cx_eflags :: u32
  cx_eip :: u32

record process_t =
  pid :: u32
  pname :: string
  pstate :: proc_state_t
  pcontext :: context_t
  page_dir :: u32
  cwd :: string
  exit_code :: int
  entry :: u32
  kstack :: u32
  priority :: int
  dyn_boost :: int
  cpu_ticks :: u32
  cpu_ticks_user :: u32
  cpu_ticks_sys :: u32
  ticks_window :: u32
  start_tick :: u32
  quantum_used :: u32
  consec_full :: u32
  sleep_until :: u32
  signal_pending :: int
  signaled :: bool
  sig_handlers :: "u32 list"
  parent_pid :: u32
  heap_start :: u32
  heap_brk :: u32

datatype effect =
    Free_stack u32
  | Free_space u32
  | Close_fds u32
  | Push_frame u32 u32               \<comment> \<open>return address and entry stored below the top of a stack\<close>
  | Set_tss u32
  | Switch_to "nat option" nat

record ps =
  processes :: "process_t list"
  next_pid :: u32
  current :: "nat option"
  next_priority_hint :: "int option"
  ps_now :: u32                     \<comment> \<open>\<^verbatim>\<open>timer_get_ticks()\<close>\<close>
  ps_trace :: "effect list"
  run_queue :: "nat option list"    \<comment> \<open>\<open>None\<close>: a null pointer was added\<close>
  last_picked_idx :: nat
  tick_count :: u32
  kick_flag :: bool
  last_was_user :: bool
  cached_idle :: "nat option"

definition zero_context :: context_t where
  "zero_context = \<lparr>cx_esp = 0, cx_ebp = 0, cx_ebx = 0, cx_esi = 0, cx_edi = 0, cx_eflags = 0, cx_eip = 0\<rparr>"

text \<open>\<^verbatim>\<open>memset(p, 0, sizeof(process_t))\<close>.\<close>

definition zero_process :: process_t where
  "zero_process = \<lparr>pid = 0, pname = [], pstate = PROC_RUNNING, pcontext = zero_context, page_dir = 0,
     cwd = [], exit_code = 0, entry = 0, kstack = 0, priority = 0, dyn_boost = 0, cpu_ticks = 0,
     cpu_ticks_user = 0, cpu_ticks_sys = 0, ticks_window = 0, start_tick = 0, quantum_used = 0,
     consec_full = 0, sleep_until = 0, signal_pending = 0, signaled = False, sig_handlers = replicate 32 0,
     parent_pid = 0, heap_start = 0, heap_brk = 0\<rparr>"

definition emit :: "effect \<Rightarrow> ps \<Rightarrow> ps" where
  "emit e s = s\<lparr>ps_trace := ps_trace s @ [e]\<rparr>"

definition upd_proc :: "nat \<Rightarrow> (process_t \<Rightarrow> process_t) \<Rightarrow> ps \<Rightarrow> ps" where
  "upd_proc i f s = s\<lparr>processes := (processes s)[i := f (processes s ! i)]\<rparr>"

section \<open>Creation\<close>

definition process_set_next_priority :: "int \<Rightarrow> ps \<Rightarrow> ps" where
  "process_set_next_priority prio s =
     (let prio = (if prio < PRIO_MIN then PRIO_MIN else prio);
          prio = (if prio > PRIO_MAX then PRIO_MAX else prio)
      in s\<lparr>next_priority_hint := Some prio\<rparr>)"

definition spawn_kthread :: "string \<Rightarrow> proc_state_t \<Rightarrow> ps \<Rightarrow> nat option \<times> ps" where
  "spawn_kthread name st s =
     (if length (processes s) \<ge> MAX_PROCESSES then (None, s)
      else (Some (length (processes s)),
            s\<lparr>processes := processes s @ [zero_process\<lparr>pid := next_pid s, pname := take 31 name, pstate := st,
                priority := PRIO_DEFAULT, start_tick := ps_now s, cwd := ''/''\<rparr>],
              next_pid := next_pid s + 1\<rparr>))"

definition set_prio :: "nat option \<Rightarrow> int \<Rightarrow> ps \<Rightarrow> ps" where
  "set_prio i prio s = (case i of None \<Rightarrow> s | Some i \<Rightarrow> upd_proc i (\<lambda>p. p\<lparr>priority := prio\<rparr>) s)"

definition process_init :: "ps \<Rightarrow> ps" where
  "process_init s =
     (let s = s\<lparr>processes := [], next_pid := 1, current := None\<rparr>;
          (init, s) = spawn_kthread ''init'' PROC_RUNNING s;
          s = (set_prio init PRIO_IDLE s)\<lparr>current := init\<rparr>;
          (kth, s) = spawn_kthread ''kthreadd'' PROC_SLEEPING s;
          s = set_prio kth PRIO_IDLE s;
          (msh, s) = spawn_kthread ''mysh'' PROC_READY s;
          s = set_prio msh PRIO_IDLE s;
          (idle, s) = spawn_kthread ''idle'' PROC_READY s
      in set_prio idle PRIO_IDLE s)"

definition find_zombie :: "ps \<Rightarrow> nat option" where
  "find_zombie s = first_index (\<lambda>i. pstate (processes s ! i) = PROC_ZOMBIE) 0 (length (processes s))"

text \<open>What becomes of the old owner of a slot that is used again.\<close>

definition recycle :: "nat \<Rightarrow> ps \<Rightarrow> ps" where
  "recycle i s =
     (let p = processes s ! i;
          s = (if kstack p \<noteq> 0 then emit (Free_stack (kstack p)) s else s)
      in if page_dir p \<noteq> 0 then emit (Free_space (page_dir p)) s else s)"

text \<open>\<open>space\<close> and \<open>stack\<close>: what \<^verbatim>\<open>vmm_create_address_space\<close> and \<^verbatim>\<open>kmalloc_aligned\<close> return.\<close>

definition process_create :: "string \<Rightarrow> u32 \<Rightarrow> u32 \<Rightarrow> u32 \<Rightarrow> ps \<Rightarrow> nat option \<times> ps" where
  "process_create name ent space stack s =
     (case (case find_zombie s of
              Some i \<Rightarrow> Some (i, recycle i s)
            | None \<Rightarrow> if length (processes s) \<ge> MAX_PROCESSES then None
                      else Some (length (processes s), s\<lparr>processes := processes s @ [zero_process]\<rparr>)) of
        None \<Rightarrow> (None, s)
      | Some (i, s) \<Rightarrow>
          (let esp = stack + 8192 - 8;
               p = zero_process\<lparr>pid := next_pid s,
                     parent_pid := (case current s of Some c \<Rightarrow> if c = i then next_pid s else pid (processes s ! c) | None \<Rightarrow> 0),
                     pname := take 31 name, pstate := PROC_READY, entry := ent,
                     priority := (case next_priority_hint s of Some h \<Rightarrow> h | None \<Rightarrow> PRIO_DEFAULT),
                     start_tick := ps_now s, cwd := ''/'', page_dir := space, kstack := stack,
                     pcontext := zero_context\<lparr>cx_eip := ent, cx_esp := esp, cx_ebp := esp, cx_eflags := 0x202\<rparr>\<rparr>
           in (Some i, emit (Push_frame esp ent)
                         (s\<lparr>processes := (processes s)[i := p], next_pid := next_pid s + 1,
                            next_priority_hint := None\<rparr>))))"

definition process_create_tracking :: "string \<Rightarrow> u32 \<Rightarrow> u32 \<Rightarrow> ps \<Rightarrow> nat option \<times> ps" where
  "process_create_tracking name space stack s =
     (case process_create name 0 space stack (s\<lparr>next_priority_hint := None\<rparr>) of
        (r, s') \<Rightarrow> (r, s'\<lparr>next_priority_hint := next_priority_hint s\<rparr>))"

section \<open>Lookup\<close>

definition process_get :: "u32 \<Rightarrow> ps \<Rightarrow> nat option" where
  "process_get p s =
     first_index (\<lambda>i. pid (processes s ! i) = p \<and> pstate (processes s ! i) \<noteq> PROC_ZOMBIE) 0 (length (processes s))"

definition process_count :: "ps \<Rightarrow> nat" where
  "process_count s = length (filter (\<lambda>p. pstate p \<noteq> PROC_ZOMBIE) (processes s))"

fun process_at_loop :: "process_t list \<Rightarrow> nat \<Rightarrow> nat \<Rightarrow> nat \<Rightarrow> nat option" where
  "process_at_loop [] i seen index = None"
| "process_at_loop (p # qs) i seen index =
     (if pstate p = PROC_ZOMBIE then process_at_loop qs (i + 1) seen index
      else if seen = index then Some i
      else process_at_loop qs (i + 1) (seen + 1) index)"

definition process_at :: "nat \<Rightarrow> ps \<Rightarrow> nat option" where
  "process_at index s = process_at_loop (processes s) 0 0 index"

definition process_get_ppid :: "u32 \<Rightarrow> ps \<Rightarrow> u32" where
  "process_get_ppid p s = (case process_get p s of None \<Rightarrow> 0 | Some i \<Rightarrow> parent_pid (processes s ! i))"

definition process_set_current :: "nat option \<Rightarrow> ps \<Rightarrow> ps" where
  "process_set_current p s = s\<lparr>current := p\<rparr>"

section \<open>Signals, termination, waiting\<close>

definition process_signal :: "u32 \<Rightarrow> int \<Rightarrow> ps \<Rightarrow> int \<times> ps" where
  "process_signal p sig s =
     (case process_get p s of
        None \<Rightarrow> (-1, s)
      | Some i \<Rightarrow> (0, upd_proc i (\<lambda>q. q\<lparr>signal_pending := sig\<rparr>) s))"

definition reparent :: "u32 \<Rightarrow> process_t list \<Rightarrow> process_t list" where
  "reparent me qs = map (\<lambda>q. if pstate q \<noteq> PROC_ZOMBIE \<and> parent_pid q = me \<and> pid q \<noteq> 1
                             then q\<lparr>parent_pid := 1\<rparr> else q) qs"

text \<open>Zombies whose parent is gone lose their name when more than three quarters of the table are zombies.\<close>

definition auto_reap :: "ps \<Rightarrow> ps" where
  "auto_reap s =
     (let n = length (processes s);
          zombies = length (filter (\<lambda>p. pstate p = PROC_ZOMBIE) (processes s))
      in if zombies > n * 3 div 4 \<and> n > 8
         then s\<lparr>processes := map (\<lambda>p. if pstate p = PROC_ZOMBIE \<and> pid p > 3 \<and> process_get (parent_pid p) s = None
                                      then p\<lparr>pname := []\<rparr> else p) (processes s)\<rparr>
         else s)"

definition process_exit :: "int \<Rightarrow> ps \<Rightarrow> ps" where
  "process_exit code s =
     (case current s of
        None \<Rightarrow> s
      | Some c \<Rightarrow>
          (let s = upd_proc c (\<lambda>p. p\<lparr>exit_code := code, pstate := PROC_ZOMBIE\<rparr>) s;
               me = pid (processes s ! c);
               s = emit (Close_fds me) s;
               s = s\<lparr>processes := reparent me (processes s)\<rparr>;
               s = (if parent_pid (processes s ! c) > 0
                    then snd (process_signal (parent_pid (processes s ! c)) SIGCHLD s) else s);
               s = auto_reap s;
               pd = page_dir (processes s ! c)
           in if pd \<noteq> 0 then upd_proc c (\<lambda>p. p\<lparr>page_dir := 0\<rparr>) (emit (Free_space pd) s) else s))"

definition process_kill :: "u32 \<Rightarrow> ps \<Rightarrow> int \<times> ps" where
  "process_kill p s =
     (if p = 1 then (-1, s)
      else case process_get p s of
             None \<Rightarrow> (-2, s)
           | Some i \<Rightarrow> (0, upd_proc i (\<lambda>q. q\<lparr>pstate := PROC_ZOMBIE\<rparr>) s))"

text \<open>\<open>is_root\<close>: \<^verbatim>\<open>current_user()\<close> exists and has uid 0.\<close>

definition process_set_priority :: "bool \<Rightarrow> u32 \<Rightarrow> int \<Rightarrow> ps \<Rightarrow> int \<times> ps" where
  "process_set_priority is_root p prio s =
     (if prio < PRIO_MIN \<or> prio > PRIO_MAX then (-2, s)
      else case process_get p s of
             None \<Rightarrow> (-1, s)
           | Some i \<Rightarrow> if prio < PRIO_DEFAULT \<and> \<not> is_root then (-3, s)
                       else (0, upd_proc i (\<lambda>q. q\<lparr>priority := prio\<rparr>) s))"

text \<open>
  One round of the loop of \<^verbatim>\<open>process_waitpid\<close> (\<open>me\<close>: the caller's slot, read once before the loop),
  and the loop: \<open>yield\<close> is what the rest of the system does while the caller is inside
  \<^verbatim>\<open>schedule()\<close>, \<open>None\<close> that the fuel ran out while the caller was still waiting.
\<close>

datatype wait_result = Waited int "int option" | Wait_yield

definition waitpid_round :: "nat \<Rightarrow> int \<Rightarrow> bool \<Rightarrow> ps \<Rightarrow> wait_result" where
  "waitpid_round c p wnohang s =
     (let me = pid (processes s ! c); n = length (processes s)
      in case first_index (\<lambda>i. let q = processes s ! i in parent_pid q = me
                \<and> (p > 0 \<longrightarrow> pid q = word_of_int p) \<and> pstate q = PROC_ZOMBIE) 0 n of
           Some i \<Rightarrow> Waited (sint (pid (processes s ! i))) (Some (exit_code (processes s ! i)))
         | None \<Rightarrow>
             if wnohang then Waited 0 None
             else if first_index (\<lambda>i. parent_pid (processes s ! i) = me
                       \<and> pstate (processes s ! i) \<noteq> PROC_ZOMBIE) 0 n = None
             then Waited (-1) None
             else Wait_yield)"

fun waitpid_loop :: "(ps \<Rightarrow> ps) \<Rightarrow> nat \<Rightarrow> nat \<Rightarrow> int \<Rightarrow> bool \<Rightarrow> ps \<Rightarrow> (int \<times> int option \<times> ps) option" where
  "waitpid_loop yield 0 c p wnohang s = None"
| "waitpid_loop yield (Suc fuel) c p wnohang s =
     (case waitpid_round c p wnohang s of
        Waited r st \<Rightarrow> Some (r, st, s)
      | Wait_yield \<Rightarrow> waitpid_loop yield fuel c p wnohang (yield s))"

definition process_waitpid :: "(ps \<Rightarrow> ps) \<Rightarrow> nat \<Rightarrow> int \<Rightarrow> bool \<Rightarrow> ps \<Rightarrow> (int \<times> int option \<times> ps) option" where
  "process_waitpid yield fuel p wnohang s =
     (case current s of
        None \<Rightarrow> Some (-1, None, s)
      | Some c \<Rightarrow> waitpid_loop yield fuel c p wnohang s)"

definition process_sigaction :: "int \<Rightarrow> u32 \<Rightarrow> ps \<Rightarrow> u32 \<times> ps" where
  "process_sigaction sig handler s =
     (if sig = SIGKILL \<or> sig \<le> 0 \<or> sig \<ge> NSIG then (SIG_DFL, s)
      else case current s of
             None \<Rightarrow> (SIG_DFL, s)
           | Some c \<Rightarrow> (sig_handlers (processes s ! c) ! nat sig,
               upd_proc c (\<lambda>p. p\<lparr>sig_handlers := (sig_handlers p)[nat sig := handler]\<rparr>) s))"

definition process_deliver_signal :: "int \<Rightarrow> ps \<Rightarrow> bool \<times> ps" where
  "process_deliver_signal sig s =
     (case current s of
        None \<Rightarrow> (True, s)
      | Some c \<Rightarrow>
          if sig \<le> 0 \<or> sig \<ge> NSIG then (True, s)
          else let handler = sig_handlers (processes s ! c) ! nat sig
               in if handler = SIG_IGN then (False, s)
                  else if handler \<noteq> 0 then (False, upd_proc c (\<lambda>p. p\<lparr>signal_pending := sig\<rparr>) s)
                  else if sig = SIGCHLD then (False, s)
                  else (True, upd_proc c (\<lambda>p. p\<lparr>pstate := PROC_ZOMBIE, exit_code := 128 + sig, signaled := True\<rparr>) s))"

definition process_check_signal :: "ps \<Rightarrow> bool \<times> ps" where
  "process_check_signal s =
     (case current s of
        None \<Rightarrow> (False, s)
      | Some c \<Rightarrow>
          (let sig = signal_pending (processes s ! c)
           in if sig = 0 then (False, s)
              else process_deliver_signal sig (upd_proc c (\<lambda>p. p\<lparr>signal_pending := 0\<rparr>) s)))"

end
