(* ===== verification/Scheduler.thy ===== *)
theory Scheduler
  imports Process "HOL-Library.Multiset"
begin

text \<open>
  The scheduler, \<^verbatim>\<open>process/scheduler.c\<close>: effective priorities and quanta, the multi-level feedback
  adjustments, sleeping and waking, the timer tick, the choice of the next task and the switch to
  it. Then the properties of the process table and the scheduler together, over the step relation
  of their operations.
\<close>

section \<open>Operations\<close>

abbreviation MLFQ_BOOST_MAX :: int where "MLFQ_BOOST_MAX \<equiv> 4"
abbreviation MLFQ_BOOST_MIN :: int where "MLFQ_BOOST_MIN \<equiv> -4"
abbreviation MLFQ_DEMOTE_AFTER :: u32 where "MLFQ_DEMOTE_AFTER \<equiv> 2"
abbreviation MLFQ_DECAY_TICKS :: u32 where "MLFQ_DECAY_TICKS \<equiv> 500"

definition scheduler_set_last_user :: "bool \<Rightarrow> ps \<Rightarrow> ps" where
  "scheduler_set_last_user was_user s = s\<lparr>last_was_user := was_user\<rparr>"

definition scheduler_init :: "ps \<Rightarrow> ps" where
  "scheduler_init s = s\<lparr>run_queue := [], last_picked_idx := 0, tick_count := 0, kick_flag := False\<rparr>"

definition scheduler_add :: "nat option \<Rightarrow> ps \<Rightarrow> ps" where
  "scheduler_add proc s =
     (if length (run_queue s) < MAX_PROCESSES then s\<lparr>run_queue := run_queue s @ [proc]\<rparr> else s)"

definition eff_prio :: "process_t \<Rightarrow> int" where
  "eff_prio p =
     (let e = priority p + dyn_boost p
      in if priority p \<ge> PRIO_IDLE then priority p
         else let e = (if e < PRIO_MIN then PRIO_MIN else e)
              in if e > PRIO_MAX then PRIO_MAX else e)"

text \<open>\<^verbatim>\<open>/\<close> on \<^verbatim>\<open>int\<close> truncates towards zero.\<close>

definition quantum_for :: "int \<Rightarrow> u32" where
  "quantum_for prio =
     (if prio \<ge> PRIO_IDLE then 1
      else let q = 5 + (if prio < 0 then - ((- prio) div 4) else prio div 4);
               q = (if q < 2 then 2 else q);
               q = (if q > 12 then 12 else q)
           in word_of_int q)"

fun find_idle_loop :: "nat list \<Rightarrow> ps \<Rightarrow> nat option" where
  "find_idle_loop [] s = None"
| "find_idle_loop (i # is) s =
     (case process_at i s of
        None \<Rightarrow> find_idle_loop is s
      | Some p \<Rightarrow> if pname (processes s ! p) = ''idle'' then Some p else find_idle_loop is s)"

definition find_idle_task :: "ps \<Rightarrow> nat option \<times> ps" where
  "find_idle_task s =
     (case cached_idle s of
        Some p \<Rightarrow> (Some p, s)
      | None \<Rightarrow>
          (case find_idle_loop [0..<process_count s] s of
             Some p \<Rightarrow> (Some p, s\<lparr>cached_idle := Some p\<rparr>)
           | None \<Rightarrow> (None, s)))"

definition looks_like_idle_period :: "nat option \<Rightarrow> ps \<Rightarrow> bool" where
  "looks_like_idle_period cur s =
     (case cur of None \<Rightarrow> True | Some c \<Rightarrow> priority (processes s ! c) \<ge> PRIO_IDLE)"

definition mlfq_credit_release :: "int \<Rightarrow> int \<Rightarrow> process_t \<Rightarrow> process_t" where
  "mlfq_credit_release used cap p =
     (if priority p \<ge> PRIO_IDLE then p
      else if used < cap
      then (if dyn_boost p > MLFQ_BOOST_MIN then p\<lparr>dyn_boost := dyn_boost p - 1\<rparr> else p)\<lparr>consec_full := 0\<rparr>
      else p)"

definition mlfq_charge_quantum :: "int \<Rightarrow> process_t \<Rightarrow> process_t" where
  "mlfq_charge_quantum cap p =
     (if priority p \<ge> PRIO_IDLE then p
      else if sint (quantum_used p) \<ge> cap
      then let p = p\<lparr>consec_full := consec_full p + 1\<rparr>
           in if consec_full p \<ge> MLFQ_DEMOTE_AFTER
              then (if dyn_boost p < MLFQ_BOOST_MAX then p\<lparr>dyn_boost := dyn_boost p + 1\<rparr> else p)\<lparr>consec_full := 0\<rparr>
              else p
      else p)"

definition decay :: "process_t \<Rightarrow> process_t" where
  "decay p = (if dyn_boost p > 0 then p\<lparr>dyn_boost := dyn_boost p div 2\<rparr>
              else if dyn_boost p < 0 then p\<lparr>dyn_boost := - ((- dyn_boost p) div 2)\<rparr>
              else p)"

definition mlfq_decay_all :: "ps \<Rightarrow> ps" where
  "mlfq_decay_all s =
     fold (\<lambda>q s. case q of None \<Rightarrow> s | Some p \<Rightarrow> upd_proc p decay s) (run_queue s) s"

definition wake :: "nat option \<Rightarrow> ps \<Rightarrow> ps" where
  "wake q s =
     (case q of
        None \<Rightarrow> s
      | Some i \<Rightarrow>
          (let p = processes s ! i
           in if pstate p = PROC_SLEEPING \<and> sleep_until p \<noteq> 0 \<and> ps_now s \<ge> sleep_until p
              then (upd_proc i (\<lambda>p. p\<lparr>pstate := PROC_READY, sleep_until := 0\<rparr>) s)\<lparr>kick_flag := True\<rparr>
              else s))"

definition scheduler_wakeup_check :: "ps \<Rightarrow> ps" where
  "scheduler_wakeup_check s = fold wake (run_queue s) s"

definition runnable :: "process_t \<Rightarrow> bool" where
  "runnable p = (pstate p = PROC_READY \<or> pstate p = PROC_RUNNING)"

fun pick_loop :: "nat list \<Rightarrow> nat option \<times> int \<Rightarrow> ps \<Rightarrow> nat option" where
  "pick_loop [] (best, best_prio) s = best"
| "pick_loop (i # is) (best, best_prio) s =
     (let idx = (last_picked_idx s + 1 + i) mod length (run_queue s)
      in case run_queue s ! idx of
           None \<Rightarrow> pick_loop is (best, best_prio) s
         | Some p \<Rightarrow>
             if \<not> runnable (processes s ! p) then pick_loop is (best, best_prio) s
             else let ep = eff_prio (processes s ! p)
                  in if ep < best_prio then pick_loop is (Some idx, ep) s
                     else pick_loop is (best, best_prio) s)"

text \<open>\<open>None\<close>: the code's \<^verbatim>\<open>-1\<close>.\<close>

definition pick_next :: "ps \<Rightarrow> nat option" where
  "pick_next s =
     (if run_queue s = [] then None
      else pick_loop [0..<length (run_queue s)] (None, 0x7FFFFFFF) s)"

definition schedule :: "ps \<Rightarrow> ps" where
  "schedule s =
     (case pick_next s of
        None \<Rightarrow> s
      | Some idx \<Rightarrow>
          (let p = the (run_queue s ! idx); prev = current s
           in if prev = Some p then upd_proc p (\<lambda>q. q\<lparr>quantum_used := 0\<rparr>) s
              else
                let s = (case prev of
                           None \<Rightarrow> s
                         | Some c \<Rightarrow>
                             upd_proc c (\<lambda>q.
                               let q = mlfq_credit_release (sint (quantum_used q)) (uint (quantum_for (eff_prio q))) q
                               in if pstate q = PROC_RUNNING then q\<lparr>pstate := PROC_READY\<rparr> else q) s);
                    s = upd_proc p (\<lambda>q. q\<lparr>pstate := PROC_RUNNING, quantum_used := 0\<rparr>) s;
                    s = process_set_current (Some p) s;
                    s = s\<lparr>last_picked_idx := idx\<rparr>;
                    s = (if kstack (processes s ! p) \<noteq> 0 then emit (Set_tss (kstack (processes s ! p) + 8192)) s else s)
                in emit (Switch_to prev p) s))"

definition bill :: "bool \<Rightarrow> process_t \<Rightarrow> process_t" where
  "bill user p =
     (if pstate p = PROC_ZOMBIE then p
      else let p = p\<lparr>cpu_ticks := cpu_ticks p + 1, ticks_window := ticks_window p + 1\<rparr>
           in if user then p\<lparr>cpu_ticks_user := cpu_ticks_user p + 1\<rparr>
              else p\<lparr>cpu_ticks_sys := cpu_ticks_sys p + 1\<rparr>)"

definition scheduler_tick :: "ps \<Rightarrow> ps" where
  "scheduler_tick s =
     (let s = s\<lparr>tick_count := tick_count s + 1\<rparr>;
          s = (if tick_count s mod MLFQ_DECAY_TICKS = 0 then mlfq_decay_all s else s);
          s = scheduler_wakeup_check s;
          cur = current s;
          (bill_to, s) = (if looks_like_idle_period cur s
                          then (case find_idle_task s of (None, s) \<Rightarrow> (cur, s) | (Some i, s) \<Rightarrow> (Some i, s))
                          else (cur, s));
          s = (case bill_to of None \<Rightarrow> s | Some b \<Rightarrow> upd_proc b (bill (last_was_user s)) s);
          s = (case cur of None \<Rightarrow> s
               | Some c \<Rightarrow> upd_proc c (\<lambda>p. if pstate p = PROC_ZOMBIE then p
                                          else p\<lparr>quantum_used := quantum_used p + 1\<rparr>) s);
          cap = quantum_for (case cur of None \<Rightarrow> PRIO_DEFAULT | Some c \<Rightarrow> eff_prio (processes s ! c));
          s = (case cur of None \<Rightarrow> s
               | Some c \<Rightarrow> upd_proc c (\<lambda>p. if pstate p \<noteq> PROC_ZOMBIE \<and> quantum_used p \<ge> cap
                                          then mlfq_charge_quantum (uint cap) p else p) s)
      in if kick_flag s \<or> (case cur of None \<Rightarrow> False | Some c \<Rightarrow> quantum_used (processes s ! c) \<ge> cap)
         then schedule (s\<lparr>kick_flag := False\<rparr>) else s)"

definition scheduler_kick :: "ps \<Rightarrow> ps" where
  "scheduler_kick s = s\<lparr>kick_flag := True\<rparr>"

definition scheduler_sleep_current :: "u32 \<Rightarrow> ps \<Rightarrow> ps" where
  "scheduler_sleep_current until_tick s =
     (case current s of
        None \<Rightarrow> s
      | Some c \<Rightarrow>
          if kstack (processes s ! c) = 0 then s
          else schedule (upd_proc c (\<lambda>p.
                 let p = p\<lparr>sleep_until := until_tick, pstate := PROC_SLEEPING\<rparr>
                 in (mlfq_credit_release (sint (quantum_used p)) (uint (quantum_for (eff_prio p))) p)\<lparr>quantum_used := 0\<rparr>) s))"

section \<open>The choice of the next task\<close>

text \<open>\<open>candidate s i p\<close>: at cyclic distance \<open>i + 1\<close> from the last picked entry there is a runnable task \<open>p\<close>.\<close>

definition cyc :: "ps \<Rightarrow> nat \<Rightarrow> nat" where
  "cyc s i = (last_picked_idx s + 1 + i) mod length (run_queue s)"

definition candidate :: "ps \<Rightarrow> nat \<Rightarrow> nat \<Rightarrow> bool" where
  "candidate s i p = (run_queue s ! cyc s i = Some p \<and> runnable (processes s ! p))"

definition prefers :: "ps \<Rightarrow> nat \<times> nat \<Rightarrow> nat \<times> nat \<Rightarrow> bool" where
  "prefers s a b = (eff_prio (processes s ! snd a) < eff_prio (processes s ! snd b)
     \<or> eff_prio (processes s ! snd a) = eff_prio (processes s ! snd b) \<and> fst a \<le> fst b)"

definition best_of :: "ps \<Rightarrow> nat set \<Rightarrow> nat \<Rightarrow> nat \<Rightarrow> bool" where
  "best_of s I i p = (i \<in> I \<and> candidate s i p \<and> (\<forall>k q. k \<in> I \<longrightarrow> candidate s k q \<longrightarrow> prefers s (i, p) (k, q)))"

lemma pick_loop_Some:
  assumes "best_of s {..<m} i p"
  shows "\<exists>i' p'. pick_loop [m..<m + d] (Some (cyc s i), eff_prio (processes s ! p)) s = Some (cyc s i')
           \<and> best_of s {..<m + d} i' p'"
  using assms
proof (induction d arbitrary: m i p)
  case 0
  then show ?case by auto
next
  case (Suc d)
  have up: "[m..<m + Suc d] = m # [Suc m..<Suc m + d]" by (simp add: upt_rec)
  have keep: "best_of s {..<Suc m} i p"
    if "\<And>q. candidate s m q \<Longrightarrow> \<not> eff_prio (processes s ! q) < eff_prio (processes s ! p)"
    using Suc.prems that by (fastforce simp: best_of_def prefers_def less_Suc_eq)
  have change: "best_of s {..<Suc m} m q"
    if "candidate s m q" "eff_prio (processes s ! q) < eff_prio (processes s ! p)" for q
    using Suc.prems that by (fastforce simp: best_of_def prefers_def less_Suc_eq candidate_def)
  show ?case
  proof (cases "\<exists>q. candidate s m q \<and> eff_prio (processes s ! q) < eff_prio (processes s ! p)")
    case True
    then obtain q where q: "candidate s m q" "eff_prio (processes s ! q) < eff_prio (processes s ! p)" by auto
    then show ?thesis unfolding up
      using Suc.IH [OF change [OF q]] by (simp add: candidate_def cyc_def Let_def)
  next
    case False
    then have "best_of s {..<Suc m} i p" using keep by blast
    then show ?thesis unfolding up
      using Suc.IH [of "Suc m" i p] False by (auto simp: candidate_def cyc_def Let_def split: option.split)
  qed
qed

lemma pick_loop_None:
  assumes "\<forall>i<m. \<forall>p. \<not> candidate s i p"
    and small: "\<forall>i p. candidate s i p \<longrightarrow> eff_prio (processes s ! p) < 0x7FFFFFFF"
  shows "case pick_loop [m..<m + d] (None, 0x7FFFFFFF) s of
           None \<Rightarrow> \<forall>i<m + d. \<forall>p. \<not> candidate s i p
         | Some idx \<Rightarrow> \<exists>i p. idx = cyc s i \<and> best_of s {..<m + d} i p"
  using assms(1)
proof (induction d arbitrary: m)
  case 0
  then show ?case by simp
next
  case (Suc d)
  have up: "[m..<m + Suc d] = m # [Suc m..<Suc m + d]" by (simp add: upt_rec)
  show ?case
  proof (cases "\<exists>p. candidate s m p")
    case True
    then obtain p where p: "candidate s m p" by auto
    have "best_of s {..<Suc m} m p"
      using p Suc.prems by (auto simp: best_of_def prefers_def less_Suc_eq candidate_def)
    then have *: "\<exists>i' p'. pick_loop [Suc m..<Suc m + d] (Some (cyc s m), eff_prio (processes s ! p)) s = Some (cyc s i')
           \<and> best_of s {..<Suc m + d} i' p'"
      by (rule pick_loop_Some)
    have "pick_loop [m..<m + Suc d] (None, 0x7FFFFFFF) s
            = pick_loop [Suc m..<Suc m + d] (Some (cyc s m), eff_prio (processes s ! p)) s"
      unfolding up using p small [rule_format, OF p] by (simp add: candidate_def cyc_def Let_def del: upt_Suc)
    moreover obtain i' p' where "pick_loop [Suc m..<Suc m + d] (Some (cyc s m), eff_prio (processes s ! p)) s = Some (cyc s i')"
      and b: "best_of s {..<Suc m + d} i' p'" using * by blast
    ultimately have "pick_loop [m..<m + Suc d] (None, 0x7FFFFFFF) s = Some (cyc s i')" by (simp only:)
    then show ?thesis using b by (auto simp del: upt_Suc)
  next
    case False
    then have n: "\<forall>i<Suc m. \<forall>p. \<not> candidate s i p" using Suc.prems by (auto simp: less_Suc_eq)
    have "pick_loop [m..<m + Suc d] (None, 0x7FFFFFFF) s = pick_loop [Suc m..<Suc m + d] (None, 0x7FFFFFFF) s"
      unfolding up using False by (auto simp: candidate_def cyc_def Let_def split: option.split)
    then show ?thesis using Suc.IH [OF n] by (simp only: add_Suc add_Suc_right)
  qed
qed

lemma pick_next_spec:
  assumes "\<forall>i p. candidate s i p \<longrightarrow> eff_prio (processes s ! p) < 0x7FFFFFFF"
  shows "case pick_next s of
           None \<Rightarrow> \<forall>i<length (run_queue s). \<forall>p. \<not> candidate s i p
         | Some idx \<Rightarrow> \<exists>i p. idx = cyc s i \<and> best_of s {..<length (run_queue s)} i p"
proof (cases "run_queue s = []")
  case True
  then show ?thesis by (simp add: pick_next_def)
next
  case False
  have "pick_next s = pick_loop [0..<0 + length (run_queue s)] (None, 0x7FFFFFFF) s"
    using False by (simp add: pick_next_def)
  moreover have "\<forall>i<0. \<forall>p. \<not> candidate s i p" by simp
  ultimately show ?thesis
    using pick_loop_None [OF _ assms, of 0 "length (run_queue s)"] by (simp only: add_0 if_False)
qed

lemma cyc_surj:
  assumes "j < length (run_queue s)" "last_picked_idx s < length (run_queue s)"
  obtains i where "i < length (run_queue s)" "cyc s i = j"
proof -
  let ?n = "length (run_queue s)" and ?l = "last_picked_idx s"
  let ?i = "if j > ?l then j - ?l - 1 else j + ?n - ?l - 1"
  have "?i < ?n" using assms by auto
  moreover have "cyc s ?i = j"
  proof (cases "j > ?l")
    case True then show ?thesis using assms by (simp add: cyc_def)
  next
    case False
    then have "?l + 1 + ?i = j + ?n" using assms by simp
    then show ?thesis unfolding cyc_def using assms by simp
  qed
  ultimately show thesis by (rule that)
qed

section \<open>Well-formed tables\<close>

definition proc_ok :: "process_t \<Rightarrow> bool" where
  "proc_ok p = (length (sig_handlers p) = 32 \<and> length (pname p) \<le> 31
     \<and> (PRIO_MIN \<le> priority p \<and> priority p \<le> PRIO_MAX \<or> priority p = PRIO_IDLE)
     \<and> MLFQ_BOOST_MIN \<le> dyn_boost p \<and> dyn_boost p \<le> MLFQ_BOOST_MAX)"

definition ps_wf :: "ps \<Rightarrow> bool" where
  "ps_wf s = (length (processes s) \<le> MAX_PROCESSES \<and> list_all proc_ok (processes s)
     \<and> pred_option (\<lambda>c. c < length (processes s)) (current s)
     \<and> pred_option (\<lambda>c. c < length (processes s)) (cached_idle s)
     \<and> pred_option (\<lambda>h. PRIO_MIN \<le> h \<and> h \<le> PRIO_MAX) (next_priority_hint s)
     \<and> length (run_queue s) \<le> MAX_PROCESSES
     \<and> list_all (pred_option (\<lambda>c. c < length (processes s))) (run_queue s)
     \<and> (run_queue s = [] \<longrightarrow> last_picked_idx s = 0)
     \<and> (run_queue s \<noteq> [] \<longrightarrow> last_picked_idx s < length (run_queue s)))"

fun frees_space :: "effect \<Rightarrow> u32 multiset" where
  "frees_space (Free_space d) = {#d#}"
| "frees_space _ = {#}"

fun frees_stack :: "effect \<Rightarrow> u32 multiset" where
  "frees_stack (Free_stack d) = {#d#}"
| "frees_stack _ = {#}"

definition freed_spaces :: "ps \<Rightarrow> u32 multiset" where
  "freed_spaces s = sum_list (map frees_space (ps_trace s))"

definition freed_stacks :: "ps \<Rightarrow> u32 multiset" where
  "freed_stacks s = sum_list (map frees_stack (ps_trace s))"

definition nonzero :: "u32 list \<Rightarrow> u32 multiset" where
  "nonzero ds = {#d \<in># mset ds. d \<noteq> 0#}"

text \<open>
  An operation is \<open>steady\<close> between two states when it keeps the table well-formed and neither
  creates processes nor gives back memory.
\<close>

definition steady :: "ps \<Rightarrow> ps \<Rightarrow> bool" where
  "steady s t = (ps_wf s \<longrightarrow> ps_wf t \<and> map pid (processes t) = map pid (processes s)
     \<and> map page_dir (processes t) = map page_dir (processes s)
     \<and> map kstack (processes t) = map kstack (processes s)
     \<and> next_pid t = next_pid s \<and> freed_spaces t = freed_spaces s \<and> freed_stacks t = freed_stacks s)"

lemma steady_refl [simp]: "steady s s"
  by (simp add: steady_def)

lemma steady_trans [trans]: "steady s t \<Longrightarrow> steady t u \<Longrightarrow> steady s u"
  by (auto simp: steady_def)

lemma upd_proc_simps [simp]:
  "processes (upd_proc i f s) = (processes s)[i := f (processes s ! i)]"
  "next_pid (upd_proc i f s) = next_pid s" "current (upd_proc i f s) = current s"
  "next_priority_hint (upd_proc i f s) = next_priority_hint s" "ps_now (upd_proc i f s) = ps_now s"
  "ps_trace (upd_proc i f s) = ps_trace s" "run_queue (upd_proc i f s) = run_queue s"
  "last_picked_idx (upd_proc i f s) = last_picked_idx s" "tick_count (upd_proc i f s) = tick_count s"
  "kick_flag (upd_proc i f s) = kick_flag s" "last_was_user (upd_proc i f s) = last_was_user s"
  "cached_idle (upd_proc i f s) = cached_idle s"
  by (simp_all add: upd_proc_def)

lemma emit_simps [simp]:
  "processes (emit e s) = processes s" "next_pid (emit e s) = next_pid s" "current (emit e s) = current s"
  "next_priority_hint (emit e s) = next_priority_hint s" "ps_now (emit e s) = ps_now s"
  "run_queue (emit e s) = run_queue s" "last_picked_idx (emit e s) = last_picked_idx s"
  "cached_idle (emit e s) = cached_idle s" "ps_trace (emit e s) = ps_trace s @ [e]"
  "freed_spaces (emit e s) = freed_spaces s + frees_space e"
  "freed_stacks (emit e s) = freed_stacks s + frees_stack e"
  by (simp_all add: emit_def freed_spaces_def freed_stacks_def)

lemma freed_upd [simp]:
  "freed_spaces (upd_proc i f s) = freed_spaces s" "freed_stacks (upd_proc i f s) = freed_stacks s"
  by (simp_all add: freed_spaces_def freed_stacks_def)

lemma map_upd_same: "(\<And>p. g (f p) = g p) \<Longrightarrow> map g (xs[i := f (xs ! i)]) = map g xs"
  by (cases "i < length xs") (simp_all add: map_update list_update_same_conv list_update_beyond)

lemma list_all_upd: "list_all P xs \<Longrightarrow> (\<And>x. P x \<Longrightarrow> P (f x)) \<Longrightarrow> list_all P (xs[i := f (xs ! i)])"
  by (cases "i < length xs") (auto simp: list_all_length nth_list_update)

lemma steady_upd:
  assumes "\<And>p. pid (f p) = pid p" "\<And>p. page_dir (f p) = page_dir p" "\<And>p. kstack (f p) = kstack p"
    and "\<And>p. proc_ok p \<Longrightarrow> proc_ok (f p)"
  shows "steady s (upd_proc i f s)"
  using assms by (simp add: steady_def ps_wf_def map_upd_same list_all_upd)

lemma steady_emit:
  assumes "frees_space e = {#}" "frees_stack e = {#}"
  shows "steady s (emit e s)"
  using assms by (simp add: steady_def ps_wf_def)

text \<open>What each adjustment of a single process keeps.\<close>

lemma credit_keeps:
  "pid (mlfq_credit_release u c p) = pid p" "page_dir (mlfq_credit_release u c p) = page_dir p"
  "kstack (mlfq_credit_release u c p) = kstack p" "pstate (mlfq_credit_release u c p) = pstate p"
  "proc_ok p \<Longrightarrow> proc_ok (mlfq_credit_release u c p)"
  by (auto simp: mlfq_credit_release_def proc_ok_def)

lemma charge_keeps:
  "pid (mlfq_charge_quantum c p) = pid p" "page_dir (mlfq_charge_quantum c p) = page_dir p"
  "kstack (mlfq_charge_quantum c p) = kstack p" "pstate (mlfq_charge_quantum c p) = pstate p"
  "proc_ok p \<Longrightarrow> proc_ok (mlfq_charge_quantum c p)"
  by (auto simp: mlfq_charge_quantum_def proc_ok_def Let_def)

lemma decay_keeps:
  "pid (decay p) = pid p" "page_dir (decay p) = page_dir p" "kstack (decay p) = kstack p"
  "proc_ok p \<Longrightarrow> proc_ok (decay p)"
  by (auto simp: decay_def proc_ok_def)

lemma bill_keeps:
  "pid (bill u p) = pid p" "page_dir (bill u p) = page_dir p" "kstack (bill u p) = kstack p"
  "pstate (bill u p) = pstate p" "proc_ok p \<Longrightarrow> proc_ok (bill u p)"
  by (auto simp: bill_def proc_ok_def Let_def)

lemmas process_keeps = credit_keeps charge_keeps decay_keeps bill_keeps

lemma eff_prio_bound: "proc_ok p \<Longrightarrow> PRIO_MIN \<le> eff_prio p \<and> eff_prio p \<le> PRIO_IDLE"
  by (auto simp: eff_prio_def proc_ok_def Let_def)

lemma candidate_small:
  assumes "ps_wf s" "candidate s i p" "run_queue s \<noteq> []"
  shows "p < length (processes s)" and "eff_prio (processes s ! p) < 0x7FFFFFFF"
proof -
  have "cyc s i < length (run_queue s)" using assms(3) by (simp add: cyc_def)
  then show p: "p < length (processes s)"
    using assms by (force simp: ps_wf_def list_all_length candidate_def)
  then have "proc_ok (processes s ! p)" using assms(1) by (simp add: ps_wf_def list_all_length)
  then show "eff_prio (processes s ! p) < 0x7FFFFFFF" using eff_prio_bound by fastforce
qed

lemma pick_next_cases:
  assumes "ps_wf s"
  obtains "pick_next s = None" "\<forall>i<length (run_queue s). \<forall>p. \<not> candidate s i p"
  | i p where "pick_next s = Some (cyc s i)" "best_of s {..<length (run_queue s)} i p"
      "run_queue s ! cyc s i = Some p" "p < length (processes s)" "cyc s i < length (run_queue s)"
proof (cases "run_queue s = []")
  case True
  then show thesis using that(1) by (simp add: pick_next_def)
next
  case False
  have "\<forall>i p. candidate s i p \<longrightarrow> eff_prio (processes s ! p) < 0x7FFFFFFF"
    using candidate_small [OF assms _ False] by blast
  note spec = pick_next_spec [OF this]
  show thesis
  proof (cases "pick_next s")
    case None
    then show thesis using that(1) spec by simp
  next
    case (Some idx)
    then obtain i p where "idx = cyc s i" "best_of s {..<length (run_queue s)} i p" using spec by auto
    moreover have "run_queue s ! cyc s i = Some p" using \<open>best_of s _ i p\<close> by (simp add: best_of_def candidate_def)
    moreover have "p < length (processes s)"
      using candidate_small(1) [OF assms _ False] \<open>best_of s _ i p\<close> by (auto simp: best_of_def)
    moreover have "cyc s i < length (run_queue s)" using False by (simp add: cyc_def)
    ultimately show thesis using that(2) Some by blast
  qed
qed

section \<open>What each operation keeps\<close>

lemma steady_fields:
  "steady s (s\<lparr>kick_flag := k\<rparr>)" "steady s (s\<lparr>tick_count := t\<rparr>)" "steady s (s\<lparr>last_was_user := u\<rparr>)"
  "steady s (s\<lparr>ps_now := n\<rparr>)"
  by (simp_all add: steady_def ps_wf_def freed_spaces_def freed_stacks_def)

lemma steady_fold:
  assumes "\<And>x t. steady t (f x t)"
  shows "steady s (fold f xs s)"
proof (induction xs arbitrary: s)
  case (Cons x xs)
  have "steady s (f x s)" by (rule assms)
  also have "steady (f x s) (fold f xs (f x s))" by (rule Cons.IH)
  finally show ?case by simp
qed simp

lemma decay_all_steady: "steady s (mlfq_decay_all s)"
  unfolding mlfq_decay_all_def
  by (rule steady_fold) (auto intro!: steady_upd simp: process_keeps split: option.split)

lemma wake_steady: "steady s (wake q s)"
proof -
  have "steady s ((upd_proc i (\<lambda>p. p\<lparr>pstate := PROC_READY, sleep_until := 0\<rparr>) s)\<lparr>kick_flag := True\<rparr>)" for i
    by (rule steady_trans [OF steady_upd steady_fields(1)]) (simp_all add: proc_ok_def)
  then show ?thesis by (simp add: wake_def Let_def split: option.split)
qed

lemma wakeup_steady: "steady s (scheduler_wakeup_check s)"
  unfolding scheduler_wakeup_check_def by (rule steady_fold) (rule wake_steady)

lemma find_idle_loop_bound: "find_idle_loop is s = Some p \<Longrightarrow> p < length (processes s)"
proof (induction "is")
  case (Cons i "is")
  have "process_at_loop qs k seen i = Some p \<Longrightarrow> p < k + length qs" for qs k seen
    by (induction qs k seen i rule: process_at_loop.induct) (auto split: if_splits)
  from this [of "processes s" 0 0] have "process_at i s = Some p \<Longrightarrow> p < length (processes s)"
    by (simp add: process_at_def)
  with Cons show ?case by (auto split: option.splits if_splits)
qed simp

lemma find_idle_steady: "find_idle_task s = (r, t) \<Longrightarrow> steady s t"
proof -
  assume "find_idle_task s = (r, t)"
  then have "t = s \<or> (\<exists>p. p < length (processes s) \<and> t = s\<lparr>cached_idle := Some p\<rparr>)"
    unfolding find_idle_task_def
    using find_idle_loop_bound [of "[0..<process_count s]" s] by (auto split: option.splits simp del: upt_Suc)
  then show ?thesis by (auto simp: steady_def ps_wf_def freed_spaces_def freed_stacks_def)
qed

lemma set_current_steady:
  assumes "p < length (processes s)" "idx < length (run_queue s)"
  shows "steady s ((process_set_current (Some p) s)\<lparr>last_picked_idx := idx\<rparr>)"
  using assms by (auto simp: steady_def ps_wf_def process_set_current_def freed_spaces_def freed_stacks_def)

text \<open>The prior task's share of \<open>schedule\<close>, and the shape of its result.\<close>

definition demote :: "process_t \<Rightarrow> process_t" where
  "demote q = (let q = mlfq_credit_release (sint (quantum_used q)) (uint (quantum_for (eff_prio q))) q
               in if pstate q = PROC_RUNNING then q\<lparr>pstate := PROC_READY\<rparr> else q)"

definition switch_to :: "nat \<Rightarrow> nat \<Rightarrow> ps \<Rightarrow> ps" where
  "switch_to idx p s =
     (let s = upd_proc p (\<lambda>q. q\<lparr>pstate := PROC_RUNNING, quantum_used := 0\<rparr>) s
      in (process_set_current (Some p) s)\<lparr>last_picked_idx := idx\<rparr>)"

definition announce :: "nat option \<Rightarrow> nat \<Rightarrow> ps \<Rightarrow> ps" where
  "announce prev p s =
     emit (Switch_to prev p)
       (if kstack (processes s ! p) \<noteq> 0 then emit (Set_tss (kstack (processes s ! p) + 8192)) s else s)"

lemma schedule_eq:
  "schedule s =
     (case pick_next s of
        None \<Rightarrow> s
      | Some idx \<Rightarrow>
          (let p = the (run_queue s ! idx)
           in if current s = Some p then upd_proc p (\<lambda>q. q\<lparr>quantum_used := 0\<rparr>) s
              else announce (current s) p (switch_to idx p
                     (case current s of None \<Rightarrow> s | Some c \<Rightarrow> upd_proc c demote s))))"
  by (simp add: schedule_def announce_def switch_to_def demote_def [abs_def] Let_def split: option.split)

lemma demote_keeps:
  "pid (demote p) = pid p" "page_dir (demote p) = page_dir p" "kstack (demote p) = kstack p"
  "proc_ok p \<Longrightarrow> proc_ok (demote p)"
  using process_keeps(5) [of p]
  by (auto simp: demote_def process_keeps Let_def proc_ok_def)

lemma announce_steady: "steady s (announce prev p s)"
  by (auto simp: announce_def intro!: steady_emit steady_trans [OF steady_emit steady_emit])

lemma switch_to_steady:
  assumes "p < length (processes s)" "idx < length (run_queue s)"
  shows "steady s (switch_to idx p s)"
proof -
  let ?t = "upd_proc p (\<lambda>q. q\<lparr>pstate := PROC_RUNNING, quantum_used := 0\<rparr>) s"
  have "steady s ?t" by (rule steady_upd) (simp_all add: proc_ok_def)
  also have "steady ?t (switch_to idx p s)"
    unfolding switch_to_def Let_def by (rule set_current_steady) (use assms in simp_all)
  finally show ?thesis .
qed

lemma schedule_steady: "steady s (schedule s)"
proof (cases "ps_wf s")
  case True
  then show ?thesis
  proof (rule pick_next_cases, goal_cases)
    case 1
    then show ?case by (simp add: schedule_eq)
  next
    case (2 i p)
    let ?t = "case current s of None \<Rightarrow> s | Some c \<Rightarrow> upd_proc c demote s"
    have same: "steady s (upd_proc p (\<lambda>q. q\<lparr>quantum_used := 0\<rparr>) s)"
      by (rule steady_upd) (simp_all add: proc_ok_def)
    have "steady s ?t" by (auto intro!: steady_upd simp: demote_keeps split: option.split)
    also have "steady ?t (switch_to (cyc s i) p ?t)"
      by (rule switch_to_steady) (use 2 in \<open>auto split: option.split\<close>)
    also have "steady (switch_to (cyc s i) p ?t) (announce (current s) p (switch_to (cyc s i) p ?t))"
      by (rule announce_steady)
    finally show ?case using 2 same by (simp add: schedule_eq Let_def)
  qed
qed (simp add: steady_def)

lemma if_either: "(if c then a else b) = b \<or> (if c then a else b) = a"
  by simp

lemma charge_steady:
  "steady s (upd_proc c (\<lambda>p. if pstate p \<noteq> PROC_ZOMBIE \<and> quantum_used p \<ge> cap
                             then mlfq_charge_quantum (uint cap) p else p) s)"
  by (rule steady_upd) (simp_all add: process_keeps)

lemma count_quantum_steady:
  "steady s (upd_proc c (\<lambda>p. if pstate p = PROC_ZOMBIE then p else p\<lparr>quantum_used := quantum_used p + 1\<rparr>) s)"
  by (rule steady_upd) (simp_all add: proc_ok_def)

lemma bill_steady: "steady s (upd_proc b (bill u) s)"
  by (rule steady_upd) (simp_all add: process_keeps)

text \<open>The tick in the order of its stages.\<close>

definition tick_accounts :: "ps \<Rightarrow> ps" where
  "tick_accounts s =
     (let s = s\<lparr>tick_count := tick_count s + 1\<rparr>;
          s = (if tick_count s mod MLFQ_DECAY_TICKS = 0 then mlfq_decay_all s else s)
      in scheduler_wakeup_check s)"

definition tick_bills :: "ps \<Rightarrow> ps" where
  "tick_bills s =
     (let (bill_to, s) = (if looks_like_idle_period (current s) s
                          then (case find_idle_task s of (None, s') \<Rightarrow> (current s, s') | (Some i, s') \<Rightarrow> (Some i, s'))
                          else (current s, s))
      in case bill_to of None \<Rightarrow> s | Some b \<Rightarrow> upd_proc b (bill (last_was_user s)) s)"

definition tick_preempts :: "nat option \<Rightarrow> ps \<Rightarrow> ps" where
  "tick_preempts cur s =
     (let s = (case cur of None \<Rightarrow> s
               | Some c \<Rightarrow> upd_proc c (\<lambda>p. if pstate p = PROC_ZOMBIE then p
                                          else p\<lparr>quantum_used := quantum_used p + 1\<rparr>) s);
          cap = quantum_for (case cur of None \<Rightarrow> PRIO_DEFAULT | Some c \<Rightarrow> eff_prio (processes s ! c));
          s = (case cur of None \<Rightarrow> s
               | Some c \<Rightarrow> upd_proc c (\<lambda>p. if pstate p \<noteq> PROC_ZOMBIE \<and> quantum_used p \<ge> cap
                                          then mlfq_charge_quantum (uint cap) p else p) s)
      in if kick_flag s \<or> (case cur of None \<Rightarrow> False | Some c \<Rightarrow> quantum_used (processes s ! c) \<ge> cap)
         then schedule (s\<lparr>kick_flag := False\<rparr>) else s)"

lemma scheduler_tick_eq:
  "scheduler_tick s = (let t = tick_accounts s in tick_preempts (current t) (tick_bills t))"
  unfolding scheduler_tick_def tick_accounts_def tick_bills_def tick_preempts_def Let_def
  by (simp only: case_prod_beta)

lemma tick_accounts_steady: "steady s (tick_accounts s)"
proof -
  let ?t = "s\<lparr>tick_count := tick_count s + 1\<rparr>"
  let ?u = "if tick_count ?t mod MLFQ_DECAY_TICKS = 0 then mlfq_decay_all ?t else ?t"
  have "steady s ?t" by (rule steady_fields)
  also have "steady ?t ?u" using decay_all_steady by simp
  also have "steady ?u (scheduler_wakeup_check ?u)" by (rule wakeup_steady)
  finally show ?thesis by (simp add: tick_accounts_def Let_def)
qed

lemma tick_bills_steady: "steady s (tick_bills s)"
  by (auto simp: tick_bills_def Let_def split: prod.splits option.splits if_splits
      intro: steady_trans [OF find_idle_steady bill_steady] bill_steady find_idle_steady)

lemma tick_preempts_steady: "steady s (tick_preempts cur s)"
proof -
  have sched: "steady t (schedule (t\<lparr>kick_flag := False\<rparr>))" for t
    by (rule steady_trans [OF steady_fields(1) schedule_steady])
  show ?thesis
  proof (cases cur)
    case None
    then show ?thesis using sched by (simp add: tick_preempts_def)
  next
    case (Some c)
    let ?t = "upd_proc c (\<lambda>p. if pstate p = PROC_ZOMBIE then p else p\<lparr>quantum_used := quantum_used p + 1\<rparr>) s"
    let ?cap = "quantum_for (eff_prio (processes ?t ! c))"
    let ?u = "upd_proc c (\<lambda>p. if pstate p \<noteq> PROC_ZOMBIE \<and> quantum_used p \<ge> ?cap
                             then mlfq_charge_quantum (uint ?cap) p else p) ?t"
    have "steady s ?t" by (rule count_quantum_steady)
    also have "steady ?t ?u" by (rule charge_steady)
    finally have "steady s ?u" .
    moreover have "tick_preempts cur s = ?u \<or> tick_preempts cur s = schedule (?u\<lparr>kick_flag := False\<rparr>)"
      unfolding tick_preempts_def Let_def Some option.case by (rule if_either)
    ultimately show ?thesis using steady_trans [OF \<open>steady s ?u\<close> sched] by (elim disjE) (simp_all only:)
  qed
qed

lemma tick_steady: "steady s (scheduler_tick s)"
  unfolding scheduler_tick_eq Let_def
  by (rule steady_trans [OF tick_accounts_steady steady_trans [OF tick_bills_steady tick_preempts_steady]])

lemma sleep_steady: "steady s (scheduler_sleep_current d s)"
proof -
  have "steady s (upd_proc c (\<lambda>p. let p = p\<lparr>sleep_until := d, pstate := PROC_SLEEPING\<rparr>
      in (mlfq_credit_release (sint (quantum_used p)) (uint (quantum_for (eff_prio p))) p)\<lparr>quantum_used := 0\<rparr>) s)" for c
    by (rule steady_upd) (auto simp: mlfq_credit_release_def proc_ok_def Let_def)
  from steady_trans [OF this schedule_steady] show ?thesis
    by (simp add: scheduler_sleep_current_def split: option.split)
qed

lemma kill_steady: "steady s (snd (process_kill q s))"
  by (auto simp: process_kill_def proc_ok_def intro!: steady_upd split: option.split)

lemma signal_steady: "steady s (snd (process_signal q sig s))"
  by (auto simp: process_signal_def proc_ok_def intro!: steady_upd split: option.split)

lemma renice_steady: "steady s (snd (process_set_priority r q prio s))"
  by (auto simp: process_set_priority_def proc_ok_def intro!: steady_upd split: option.split)

lemma sigaction_steady: "steady s (snd (process_sigaction sig h s))"
  by (auto simp: process_sigaction_def proc_ok_def intro!: steady_upd split: option.split)

lemma deliver_steady: "steady s (snd (process_deliver_signal sig s))"
  by (auto simp: process_deliver_signal_def proc_ok_def Let_def intro!: steady_upd split: option.split)

lemma check_signal_steady: "steady s (snd (process_check_signal s))"
proof -
  have "steady s (upd_proc c (\<lambda>p. p\<lparr>signal_pending := 0\<rparr>) s)" for c
    by (rule steady_upd) (simp_all add: proc_ok_def)
  from steady_trans [OF this deliver_steady] show ?thesis
    by (simp add: process_check_signal_def Let_def split: option.split)
qed

lemma add_steady:
  assumes "pred_option (\<lambda>p. p < length (processes s)) q"
  shows "steady s (scheduler_add q s)"
  using assms by (auto simp: steady_def scheduler_add_def ps_wf_def freed_spaces_def freed_stacks_def)

lemma nice_steady: "steady s (process_set_next_priority h s)"
  by (simp add: process_set_next_priority_def steady_def ps_wf_def freed_spaces_def freed_stacks_def Let_def)

end
