(* ===== verification/Process_Props.thy ===== *)
theory Process_Props
  imports Scheduler
begin

text \<open>
  The life of a process: creation, exit and waiting, and the invariant of the process table and
  scheduler under every sequence of their operations. Address spaces and kernel stacks are
  accounted for as multisets: what was handed to \<^verbatim>\<open>process_create\<close> is owned by a slot or was given
  back, each exactly once.
\<close>

section \<open>Accounting for memory\<close>

lemma nonzero_simps [simp]:
  "nonzero [] = {#}" "nonzero (d # ds) = (if d = 0 then {#} else {#d#}) + nonzero ds"
  "nonzero (ds @ es) = nonzero ds + nonzero es"
  by (simp_all add: nonzero_def)

lemma nonzero_update:
  assumes "i < length ds"
  shows "nonzero (ds[i := d]) + nonzero [ds ! i] = nonzero ds + nonzero [d]"
proof -
  have "mset (ds[i := d]) + {#ds ! i#} = mset ds + {#d#}"
    using assms by (simp add: mset_update)
  then have "filter_mset (\<lambda>d. d \<noteq> 0) (mset (ds[i := d]) + {#ds ! i#}) = filter_mset (\<lambda>d. d \<noteq> 0) (mset ds + {#d#})"
    by (rule arg_cong)
  then show ?thesis by (simp add: nonzero_def split: if_splits)
qed

lemma recycle_simps [simp]:
  "processes (recycle i s) = processes s" "next_pid (recycle i s) = next_pid s" "current (recycle i s) = current s"
  "next_priority_hint (recycle i s) = next_priority_hint s" "ps_now (recycle i s) = ps_now s"
  "run_queue (recycle i s) = run_queue s" "last_picked_idx (recycle i s) = last_picked_idx s"
  "cached_idle (recycle i s) = cached_idle s"
  "freed_spaces (recycle i s) = freed_spaces s + nonzero [page_dir (processes s ! i)]"
  "freed_stacks (recycle i s) = freed_stacks s + nonzero [kstack (processes s ! i)]"
  by (auto simp: recycle_def Let_def)

section \<open>Creation\<close>

text \<open>The slot that a creation uses: the first zombie, else a new one.\<close>

definition new_slot :: "ps \<Rightarrow> nat" where
  "new_slot s = (case find_zombie s of Some i \<Rightarrow> i | None \<Rightarrow> length (processes s))"

definition slot_available :: "ps \<Rightarrow> bool" where
  "slot_available s = (length (processes s) < MAX_PROCESSES \<or> (\<exists>p \<in> set (processes s). pstate p = PROC_ZOMBIE))"

definition newborn :: "string \<Rightarrow> u32 \<Rightarrow> u32 \<Rightarrow> u32 \<Rightarrow> ps \<Rightarrow> process_t" where
  "newborn name ent space stack s =
     zero_process\<lparr>pid := next_pid s,
       parent_pid := (case current s of Some c \<Rightarrow> if c = new_slot s then next_pid s else pid (processes s ! c) | None \<Rightarrow> 0),
       pname := take 31 name, pstate := PROC_READY, entry := ent,
       priority := (case next_priority_hint s of Some h \<Rightarrow> h | None \<Rightarrow> PRIO_DEFAULT),
       start_tick := ps_now s, cwd := ''/'', page_dir := space, kstack := stack,
       pcontext := zero_context\<lparr>cx_eip := ent, cx_esp := stack + 8192 - 8, cx_ebp := stack + 8192 - 8, cx_eflags := 0x202\<rparr>\<rparr>"

lemma find_zombie_Some:
  "find_zombie s = Some i \<longleftrightarrow> i < length (processes s) \<and> pstate (processes s ! i) = PROC_ZOMBIE
     \<and> (\<forall>j<i. pstate (processes s ! j) \<noteq> PROC_ZOMBIE)"
  by (auto simp: find_zombie_def first_index_Some)

lemma find_zombie_None:
  "find_zombie s = None \<longleftrightarrow> (\<forall>p \<in> set (processes s). pstate p \<noteq> PROC_ZOMBIE)"
  by (simp add: find_zombie_def first_index_None all_set_conv_all_nth)

lemma process_create_None: "\<not> slot_available s \<Longrightarrow> process_create name ent space stack s = (None, s)"
  using find_zombie_None [of s] by (simp add: process_create_def slot_available_def)

lemma process_create_Some:
  assumes "slot_available s" "ps_wf s"
  obtains t where "process_create name ent space stack s = (Some (new_slot s), t)"
    and "processes t = (if new_slot s < length (processes s)
                        then (processes s)[new_slot s := newborn name ent space stack s]
                        else processes s @ [newborn name ent space stack s])"
    and "new_slot s < length (processes s) \<Longrightarrow> pstate (processes s ! new_slot s) = PROC_ZOMBIE"
    and "new_slot s \<le> length (processes s)" "length (processes t) \<le> MAX_PROCESSES"
    and "next_pid t = next_pid s + 1" "next_priority_hint t = None" "current t = current s"
    and "cached_idle t = cached_idle s" "run_queue t = run_queue s" "last_picked_idx t = last_picked_idx s"
    and "freed_spaces t = freed_spaces s + (if new_slot s < length (processes s)
           then nonzero [page_dir (processes s ! new_slot s)] else {#})"
    and "freed_stacks t = freed_stacks s + (if new_slot s < length (processes s)
           then nonzero [kstack (processes s ! new_slot s)] else {#})"
proof (cases "find_zombie s")
  case (Some i)
  then have i: "new_slot s = i" "i < length (processes s)" "pstate (processes s ! i) = PROC_ZOMBIE"
    using find_zombie_Some [of s i] by (simp_all add: new_slot_def)
  let ?t = "emit (Push_frame (stack + 8192 - 8) ent) ((recycle i s)\<lparr>processes := (processes s)[i := newborn name ent space stack s],
              next_pid := next_pid s + 1, next_priority_hint := None\<rparr>)"
  have "process_create name ent space stack s = (Some (new_slot s), ?t)"
    using i by (cases "current s") (simp_all add: process_create_def Some newborn_def Let_def)
  moreover have "length (processes ?t) \<le> MAX_PROCESSES" using assms(2) by (simp add: ps_wf_def)
  moreover have "freed_spaces ?t = freed_spaces (recycle i s)" "freed_stacks ?t = freed_stacks (recycle i s)"
    by (simp_all add: freed_spaces_def freed_stacks_def)
  ultimately show thesis using i by (intro that [of ?t]) simp_all
next
  case None
  then have l: "new_slot s = length (processes s)" "length (processes s) < MAX_PROCESSES"
    using assms(1) find_zombie_None [of s] by (auto simp: new_slot_def slot_available_def)
  let ?s = "s\<lparr>processes := processes s @ [zero_process]\<rparr>"
  let ?t = "emit (Push_frame (stack + 8192 - 8) ent) (?s\<lparr>processes := processes s @ [newborn name ent space stack s],
              next_pid := next_pid s + 1, next_priority_hint := None\<rparr>)"
  have "pred_option (\<lambda>c. c < length (processes s)) (current s)" using assms(2) by (simp add: ps_wf_def)
  then have "process_create name ent space stack s = (Some (new_slot s), ?t)"
    using l by (cases "current s") (simp_all add: process_create_def None newborn_def Let_def nth_append)
  moreover have "freed_spaces ?t = freed_spaces s" "freed_stacks ?t = freed_stacks s"
    by (simp_all add: freed_spaces_def freed_stacks_def)
  ultimately show thesis using l by (intro that [of ?t]) simp_all
qed

section \<open>Exit\<close>

lemma newborn_ok:
  "ps_wf s \<Longrightarrow> proc_ok (newborn name ent space stack s)"
  by (auto simp: ps_wf_def newborn_def proc_ok_def zero_process_def split: option.split)

lemma newborn_simps [simp]:
  "pid (newborn name ent space stack s) = next_pid s" "page_dir (newborn name ent space stack s) = space"
  "kstack (newborn name ent space stack s) = stack"
  by (simp_all add: newborn_def)

lemma reparent_maps [simp]:
  "map pid (reparent me qs) = map pid qs" "map page_dir (reparent me qs) = map page_dir qs"
  "map kstack (reparent me qs) = map kstack qs" "length (reparent me qs) = length qs"
  "list_all proc_ok qs \<Longrightarrow> list_all proc_ok (reparent me qs)"
proof -
  have "proc_ok (p\<lparr>parent_pid := 1\<rparr>)" if "proc_ok p" for p using that by (simp add: proc_ok_def)
  then show "list_all proc_ok qs \<Longrightarrow> list_all proc_ok (reparent me qs)" by (auto simp: reparent_def list_all_iff)
qed (simp_all add: reparent_def)

lemma steady_processes:
  assumes "map pid qs = map pid (processes s)" "map page_dir qs = map page_dir (processes s)"
    "map kstack qs = map kstack (processes s)" "list_all proc_ok (processes s) \<Longrightarrow> list_all proc_ok qs"
  shows "steady s (s\<lparr>processes := qs\<rparr>)"
proof -
  have "length qs = length (processes s)" using arg_cong [OF assms(1), of length] by simp
  then show ?thesis using assms by (simp add: steady_def ps_wf_def freed_spaces_def freed_stacks_def)
qed

lemma auto_reap_steady: "steady s (auto_reap s)"
proof -
  have "proc_ok (p\<lparr>pname := []\<rparr>)" if "proc_ok p" for p using that by (simp add: proc_ok_def)
  then show ?thesis by (auto simp: auto_reap_def Let_def list_all_iff intro!: steady_processes)
qed

lemma notify_steady: "steady t (if c then snd (process_signal q sig t) else t)"
  by (simp add: signal_steady)

text \<open>Everything \<^verbatim>\<open>process_exit\<close> does before it gives the address space back.\<close>

definition exit_prefix :: "int \<Rightarrow> nat \<Rightarrow> ps \<Rightarrow> ps" where
  "exit_prefix code c s =
     (let s = upd_proc c (\<lambda>p. p\<lparr>exit_code := code, pstate := PROC_ZOMBIE\<rparr>) s;
          me = pid (processes s ! c);
          s = emit (Close_fds me) s;
          s = s\<lparr>processes := reparent me (processes s)\<rparr>;
          s = (if parent_pid (processes s ! c) > 0
               then snd (process_signal (parent_pid (processes s ! c)) SIGCHLD s) else s)
      in auto_reap s)"

lemma exit_prefix_steady: "steady s (exit_prefix code c s)"
proof -
  let ?a = "upd_proc c (\<lambda>p. p\<lparr>exit_code := code, pstate := PROC_ZOMBIE\<rparr>) s"
  let ?b = "emit (Close_fds (pid (processes ?a ! c))) ?a"
  let ?c = "?b\<lparr>processes := reparent (pid (processes ?a ! c)) (processes ?b)\<rparr>"
  let ?d = "if parent_pid (processes ?c ! c) > 0
            then snd (process_signal (parent_pid (processes ?c ! c)) SIGCHLD ?c) else ?c"
  have "steady s ?a" by (rule steady_upd) (simp_all add: proc_ok_def)
  also have "steady ?a ?b" by (rule steady_emit) simp_all
  also have "steady ?b ?c" by (rule steady_processes) (simp_all only: reparent_maps)
  also have "steady ?c ?d" by (rule notify_steady)
  also have "steady ?d (auto_reap ?d)" by (rule auto_reap_steady)
  finally show ?thesis unfolding exit_prefix_def Let_def .
qed

lemma process_exit_eq:
  "process_exit code s =
     (case current s of
        None \<Rightarrow> s
      | Some c \<Rightarrow>
          (let t = exit_prefix code c s; pd = page_dir (processes t ! c)
           in if pd \<noteq> 0 then upd_proc c (\<lambda>p. p\<lparr>page_dir := 0\<rparr>) (emit (Free_space pd) t) else t))"
  unfolding process_exit_def exit_prefix_def Let_def by (rule refl)

section \<open>The invariant of the table\<close>

text \<open>
  \<open>ps_reach A K s\<close>: \<open>s\<close> is reached from boot by operations of the two components, in any order, in
  which the address spaces \<open>A\<close> and the stacks \<open>K\<close> were handed to new processes. The process
  number counter has not wrapped.
\<close>

inductive ps_reach :: "u32 list \<Rightarrow> u32 list \<Rightarrow> ps \<Rightarrow> bool" where
  boot: "ps_trace s = [] \<Longrightarrow> cached_idle s = None \<Longrightarrow> next_priority_hint s = None
           \<Longrightarrow> ps_reach [] [] (scheduler_init (process_init s))"
| create: "ps_reach A K s \<Longrightarrow> next_pid s + 1 \<noteq> 0 \<Longrightarrow> process_create name ent space stack s = (Some i, t)
           \<Longrightarrow> ps_reach (A @ [space]) (K @ [stack]) t"
| track: "ps_reach A K s \<Longrightarrow> next_pid s + 1 \<noteq> 0 \<Longrightarrow> process_create_tracking name space stack s = (Some i, t)
           \<Longrightarrow> ps_reach (A @ [space]) (K @ [stack]) t"
| exit: "ps_reach A K s \<Longrightarrow> ps_reach A K (process_exit code s)"
| kill: "ps_reach A K s \<Longrightarrow> ps_reach A K (snd (process_kill q s))"
| signal: "ps_reach A K s \<Longrightarrow> ps_reach A K (snd (process_signal q sig s))"
| sigaction: "ps_reach A K s \<Longrightarrow> ps_reach A K (snd (process_sigaction sig h s))"
| check: "ps_reach A K s \<Longrightarrow> ps_reach A K (snd (process_check_signal s))"
| renice: "ps_reach A K s \<Longrightarrow> ps_reach A K (snd (process_set_priority is_root q prio s))"
| nice: "ps_reach A K s \<Longrightarrow> ps_reach A K (process_set_next_priority prio s)"
| set_current: "ps_reach A K s \<Longrightarrow> c < length (processes s) \<Longrightarrow> ps_reach A K (process_set_current (Some c) s)"
| add: "ps_reach A K s \<Longrightarrow> pred_option (\<lambda>p. p < length (processes s)) q \<Longrightarrow> ps_reach A K (scheduler_add q s)"
| tick: "ps_reach A K s \<Longrightarrow> ps_reach A K (scheduler_tick (scheduler_set_last_user user (s\<lparr>ps_now := now\<rparr>)))"
| sched: "ps_reach A K s \<Longrightarrow> ps_reach A K (schedule s)"
| kick: "ps_reach A K s \<Longrightarrow> ps_reach A K (scheduler_kick s)"
| sleep: "ps_reach A K s \<Longrightarrow> ps_reach A K (scheduler_sleep_current until s)"

definition ps_inv :: "u32 list \<Rightarrow> u32 list \<Rightarrow> ps \<Rightarrow> bool" where
  "ps_inv A K s = (ps_wf s \<and> distinct (map pid (processes s)) \<and> (\<forall>n \<in> set (map pid (processes s)). n \<noteq> 0 \<and> n < next_pid s)
     \<and> next_pid s \<noteq> 0
     \<and> nonzero A = nonzero (map page_dir (processes s)) + freed_spaces s
     \<and> nonzero K = nonzero (map kstack (processes s)) + freed_stacks s)"

lemma steady_inv: "steady s t \<Longrightarrow> ps_inv A K s \<Longrightarrow> ps_inv A K t"
  unfolding ps_inv_def steady_def by (elim conjE, intro conjI) (simp_all del: set_map)

lemma boot_inv:
  assumes "ps_trace s = []" "cached_idle s = None" "next_priority_hint s = None"
  shows "ps_inv [] [] (scheduler_init (process_init s))"
proof -
  have "freed_spaces (scheduler_init (process_init s)) = {#}" "freed_stacks (scheduler_init (process_init s)) = {#}"
    using assms by (simp_all add: freed_spaces_def freed_stacks_def scheduler_init_def process_init_def spawn_kthread_def
        set_prio_def upd_proc_def Let_def)
  then show ?thesis using assms
    by (simp add: ps_inv_def ps_wf_def scheduler_init_def process_init_def spawn_kthread_def set_prio_def
        upd_proc_def zero_process_def proc_ok_def Let_def)
qed

lemma next_pid_fresh:
  assumes "n < (p :: u32)" "p + 1 \<noteq> 0"
  shows "n < p + 1" and "p < p + 1"
proof -
  have "unat (p + 1) = Suc (unat p)"
    using assms(2) unatSuc [of p] by (simp add: add.commute)
  then show "n < p + 1" "p < p + 1" using assms(1) by (simp_all add: word_less_nat_alt)
qed

lemma create_inv:
  assumes "ps_inv A K s" "next_pid s + 1 \<noteq> 0" "process_create name ent space stack s = (Some i, t)"
  shows "ps_inv (A @ [space]) (K @ [stack]) t"
proof -
  have wf: "ps_wf s" using assms(1) by (simp add: ps_inv_def)
  have avail: "slot_available s" using process_create_None assms(3) by fastforce
  obtain u where "process_create name ent space stack s = (Some (new_slot s), u)" and
      u: "processes u = (if new_slot s < length (processes s)
                        then (processes s)[new_slot s := newborn name ent space stack s]
                        else processes s @ [newborn name ent space stack s])"
      "new_slot s \<le> length (processes s)" "length (processes u) \<le> MAX_PROCESSES"
      "next_pid u = next_pid s + 1" "next_priority_hint u = None" "current u = current s"
      "cached_idle u = cached_idle s" "run_queue u = run_queue s" "last_picked_idx u = last_picked_idx s"
      "freed_spaces u = freed_spaces s + (if new_slot s < length (processes s)
           then nonzero [page_dir (processes s ! new_slot s)] else {#})"
      "freed_stacks u = freed_stacks s + (if new_slot s < length (processes s)
           then nonzero [kstack (processes s ! new_slot s)] else {#})"
    by (rule process_create_Some [OF avail wf])
  then have tu: "t = u" using assms(3) by simp
  let ?b = "newborn name ent space stack s"
  have len: "length (processes s) \<le> length (processes u)" using u(1) by simp
  have all_ok: "list_all proc_ok (processes u)"
    using wf newborn_ok [OF wf] u(1) by (auto simp: ps_wf_def list_all_length nth_list_update nth_append)
  have mono: "pred_option (\<lambda>c. c < length (processes u)) q" if "pred_option (\<lambda>c. c < length (processes s)) q" for q
    using that len by (cases q) auto
  have "ps_wf u" using wf u all_ok mono
    by (auto simp: ps_wf_def list_all_iff)
  moreover have "nonzero (A @ [space]) = nonzero (map page_dir (processes u)) + freed_spaces u"
    "nonzero (K @ [stack]) = nonzero (map kstack (processes u)) + freed_stacks u"
    using assms(1) nonzero_update [of "new_slot s" "map page_dir (processes s)" space]
      nonzero_update [of "new_slot s" "map kstack (processes s)" stack] u(1,10,11)
    by (auto simp: ps_inv_def map_update ac_simps split: if_splits)
  moreover have "distinct (map pid (processes u))"
    "\<forall>n \<in> set (map pid (processes u)). n \<noteq> 0 \<and> n < next_pid u"
  proof -
    have old: "distinct (map pid (processes s))" "\<forall>n \<in> set (map pid (processes s)). n \<noteq> 0 \<and> n < next_pid s"
      "next_pid s \<noteq> 0"
      using assms(1) by (simp_all add: ps_inv_def)
    have eq: "map pid (processes u) = (if new_slot s < length (processes s)
                then (map pid (processes s))[new_slot s := next_pid s] else map pid (processes s) @ [next_pid s])"
      using u(1) by (simp add: map_update)
    have sub: "set (map pid (processes u)) \<subseteq> insert (next_pid s) (set (map pid (processes s)))"
      unfolding eq using set_update_subset_insert [of "map pid (processes s)"] by auto
    have fresh: "next_pid s \<notin> set (map pid (processes s))" using old(2) by blast
    show "distinct (map pid (processes u))" unfolding eq using old(1) fresh by (auto intro: distinct_list_update)
    show "\<forall>n \<in> set (map pid (processes u)). n \<noteq> 0 \<and> n < next_pid u"
    proof
      fix n assume "n \<in> set (map pid (processes u))"
      then have n: "n = next_pid s \<or> n \<in> set (map pid (processes s))" using sub by blast
      have p: "next_pid s < next_pid s + 1"
        using next_pid_fresh(2) [of 0 "next_pid s"] old(3) assms(2) by (simp add: word_neq_0_conv)
      from n show "n \<noteq> 0 \<and> n < next_pid u"
      proof
        assume "n = next_pid s"
        then show ?thesis using p old(3) u(4) by simp
      next
        assume "n \<in> set (map pid (processes s))"
        then have "n \<noteq> 0" "n < next_pid s" using old(2) by blast+
        then show ?thesis using next_pid_fresh(1) [OF _ assms(2)] u(4) by simp
      qed
    qed
  qed
  ultimately show ?thesis unfolding tu ps_inv_def u(4) using assms(2) by (intro conjI)
qed

lemma track_inv:
  assumes "ps_inv A K s" "next_pid s + 1 \<noteq> 0" "process_create_tracking name space stack s = (Some i, t)"
  shows "ps_inv (A @ [space]) (K @ [stack]) t"
proof -
  obtain u where u: "process_create name 0 space stack (s\<lparr>next_priority_hint := None\<rparr>) = (Some i, u)"
      and t: "t = u\<lparr>next_priority_hint := next_priority_hint s\<rparr>"
    using assms(3) by (auto simp: process_create_tracking_def split: prod.splits)
  have "ps_inv A K (s\<lparr>next_priority_hint := None\<rparr>)"
    using assms(1) by (simp add: ps_inv_def ps_wf_def freed_spaces_def freed_stacks_def)
  from create_inv [OF this _ u] have "ps_inv (A @ [space]) (K @ [stack]) u" using assms(2) by simp
  then show ?thesis unfolding t using assms(1) by (simp add: ps_inv_def ps_wf_def freed_spaces_def freed_stacks_def)
qed

lemma map_update_same: "(map f xs)[i := f (xs ! i)] = map f xs"
  by (cases "i < length xs") (simp_all add: list_update_same_conv list_update_beyond)

lemma drop_space_wf: "ps_wf s \<Longrightarrow> ps_wf (upd_proc c (\<lambda>p. p\<lparr>page_dir := 0\<rparr>) (emit e s))"
proof -
  have "proc_ok (p\<lparr>page_dir := 0\<rparr>)" if "proc_ok p" for p using that by (simp add: proc_ok_def)
  then show "ps_wf s \<Longrightarrow> ?thesis" by (simp add: ps_wf_def list_all_upd)
qed

lemma exit_inv:
  assumes "ps_inv A K s"
  shows "ps_inv A K (process_exit code s)"
proof (cases "current s")
  case None
  then show ?thesis using assms by (simp add: process_exit_eq)
next
  case (Some c)
  let ?t = "exit_prefix code c s"
  have t: "ps_inv A K ?t" by (rule steady_inv [OF exit_prefix_steady assms])
  have "c < length (processes ?t)"
  proof -
    have "ps_wf s" using assms by (simp add: ps_inv_def)
    then have "map pid (processes ?t) = map pid (processes s)" "c < length (processes s)"
      using exit_prefix_steady [of s code c] Some by (simp_all add: steady_def ps_wf_def)
    then show ?thesis by (metis length_map)
  qed
  then have "ps_inv A K (upd_proc c (\<lambda>p. p\<lparr>page_dir := 0\<rparr>) (emit (Free_space (page_dir (processes ?t ! c))) ?t))"
    if "page_dir (processes ?t ! c) \<noteq> 0"
    using t that nonzero_update [of c "map page_dir (processes ?t)" 0]
    by (simp add: ps_inv_def drop_space_wf map_update_same map_update del: set_map)
  then show ?thesis using t by (simp add: process_exit_eq Some Let_def)
qed

lemma ps_reach_inv: "ps_reach A K s \<Longrightarrow> ps_inv A K s"
proof (induction rule: ps_reach.induct)
  case (tick A K s user now)
  have "steady s (scheduler_tick (scheduler_set_last_user user (s\<lparr>ps_now := now\<rparr>)))"
    unfolding scheduler_set_last_user_def
    by (rule steady_trans [OF steady_fields(4) steady_trans [OF steady_fields(3) tick_steady]])
  then show ?case using tick.IH by (rule steady_inv)
next
  case (set_current A K s c)
  then show ?case by (simp add: ps_inv_def ps_wf_def process_set_current_def freed_spaces_def freed_stacks_def)
next
  case (kick A K s)
  show ?case unfolding scheduler_kick_def by (rule steady_inv [OF steady_fields(1) kick.IH])
qed (auto intro: boot_inv create_inv track_inv exit_inv steady_inv [OF kill_steady] steady_inv [OF signal_steady]
      steady_inv [OF sigaction_steady] steady_inv [OF check_signal_steady] steady_inv [OF renice_steady]
      steady_inv [OF nice_steady] steady_inv [OF add_steady] steady_inv [OF schedule_steady] steady_inv [OF sleep_steady])

definition blank_ps :: ps where
  "blank_ps = \<lparr>processes = [], next_pid = 1, current = None, next_priority_hint = None, ps_now = 0, ps_trace = [],
     run_queue = [], last_picked_idx = 0, tick_count = 0, kick_flag = False, last_was_user = False, cached_idle = None\<rparr>"

definition booted_ps :: ps where
  "booted_ps = scheduler_init (process_init blank_ps)"

lemma booted_reach: "ps_reach [] [] booted_ps"
  unfolding booted_ps_def by (rule ps_reach.boot) (simp_all add: blank_ps_def)

lemmas boot_defs = booted_ps_def blank_ps_def scheduler_init_def process_init_def spawn_kthread_def set_prio_def
  upd_proc_def Let_def

lemma booted_facts: "length (processes booted_ps) = 4" "next_pid booted_ps = 5" "current booted_ps = Some 0"
  "map pstate (processes booted_ps) = [PROC_RUNNING, PROC_SLEEPING, PROC_READY, PROC_READY]"
  "run_queue booted_ps = []"
  by (simp_all add: boot_defs zero_process_def)

lemma booted_available: "slot_available booted_ps"
  by (simp add: slot_available_def booted_facts)

text \<open>A state in which one process has been created and queued.\<close>

definition one_task :: ps where
  "one_task = scheduler_add (Some 4) (snd (process_create ''sh'' 0x08048000 0x00400000 0x00900000 booted_ps))"

lemma create_on_boot:
  "fst (process_create ''sh'' 0x08048000 0x00400000 0x00900000 booted_ps) = Some 4"
  "length (processes (snd (process_create ''sh'' 0x08048000 0x00400000 0x00900000 booted_ps))) = 5"
proof -
  have "find_zombie booted_ps = None"
    using booted_facts(1,4) by (simp add: find_zombie_None flip: set_map [of pstate]) (auto dest: arg_cong [of _ _ set])
  then have "new_slot booted_ps = 4" by (simp add: new_slot_def booted_facts)
  moreover have "ps_wf booted_ps" using ps_reach_inv [OF booted_reach] by (simp add: ps_inv_def)
  ultimately show "fst (process_create ''sh'' 0x08048000 0x00400000 0x00900000 booted_ps) = Some 4"
    "length (processes (snd (process_create ''sh'' 0x08048000 0x00400000 0x00900000 booted_ps))) = 5"
    using booted_facts(1) by (auto intro: process_create_Some [OF booted_available \<open>ps_wf booted_ps\<close>,
          of "''sh''" "0x08048000" "0x00400000" "0x00900000"])
qed

lemma one_task_reach: "ps_reach [0x00400000] [0x00900000] one_task"
proof -
  let ?t = "snd (process_create ''sh'' 0x08048000 0x00400000 0x00900000 booted_ps)"
  have eq: "process_create ''sh'' 0x08048000 0x00400000 0x00900000 booted_ps = (Some 4, ?t)"
    using create_on_boot(1) by (simp add: prod_eq_iff)
  have "ps_reach ([] @ [0x00400000]) ([] @ [0x00900000]) ?t"
    by (rule ps_reach.create [OF booted_reach _ eq]) (simp add: booted_facts)
  then show ?thesis unfolding one_task_def by (intro ps_reach.add) (simp_all add: create_on_boot)
qed

lemma held_once:
  assumes "nonzero A = nonzero ds + F" "distinct A" "i < length ds" "ds ! i \<noteq> 0"
  shows "ds ! i \<notin># F \<and> (j < length ds \<and> ds ! j = ds ! i \<longrightarrow> i = j)"
proof -
  let ?d = "ds ! i"
  have "count (nonzero A) ?d \<le> 1" using assms(2) by (simp add: nonzero_def distinct_count_atmost_1)
  then have total: "count (nonzero ds) ?d + count F ?d \<le> 1" using assms(1) by simp
  have one: "count (nonzero ds) ?d = count (mset ds) ?d" using assms(4) by (simp add: nonzero_def)
  have i: "count (mset ds) ?d > 0" using assms(3) by simp
  have "i = j" if "j < length ds" "ds ! j = ?d"
  proof (rule ccontr)
    assume "i \<noteq> j"
    let ?rest = "ds[j := ?d + 1]"
    have "mset ds = add_mset ?d (mset ?rest - {#?d + 1#})" using that assms(3) by (simp add: mset_update)
    moreover have "?rest ! i = ?d" "i < length ?rest" using \<open>i \<noteq> j\<close> assms(3) by simp_all
    then have "?d \<in># mset ?rest" by (metis nth_mem set_mset_mset)
    then have "count (mset ?rest - {#?d + 1#}) ?d > 0" by (simp add: count_greater_zero_iff)
    ultimately have "count (mset ds) ?d > 1" by simp
    then show False using total one by simp
  qed
  moreover have "count F ?d = 0" using total one i by linarith
  ultimately show ?thesis by (simp add: not_in_iff)
qed

lemma new_slot_spec:
  "if \<exists>p \<in> set (processes s). pstate p = PROC_ZOMBIE
   then new_slot s < length (processes s) \<and> pstate (processes s ! new_slot s) = PROC_ZOMBIE
        \<and> (\<forall>j<new_slot s. pstate (processes s ! j) \<noteq> PROC_ZOMBIE)
   else new_slot s = length (processes s)"
proof (cases "find_zombie s")
  case None
  then show ?thesis using find_zombie_None [of s] by (simp add: new_slot_def)
next
  case (Some i)
  then show ?thesis using find_zombie_None [of s] find_zombie_Some [of s i] by (simp add: new_slot_def)
qed

section \<open>Properties of the process table\<close>

text \<open>
  C5: after any sequence of process and scheduler operations the table holds at most 128
  processes with distinct, non-zero process numbers below the counter; every address space handed
  to a new process is either held by exactly one slot or has been freed, exactly once (the two
  multisets add up), and the same for kernel stacks. So when address spaces are handed out once,
  the space of a slot has not been freed and no other slot holds it.
\<close>

theorem process_resources_conserved:
  assumes "ps_reach A K s"
  shows "length (processes s) \<le> MAX_PROCESSES \<and> distinct (map pid (processes s))
    \<and> (\<forall>p \<in> set (processes s). pid p \<noteq> 0 \<and> pid p < next_pid s)
    \<and> nonzero A = nonzero (map page_dir (processes s)) + freed_spaces s
    \<and> nonzero K = nonzero (map kstack (processes s)) + freed_stacks s
    \<and> (distinct A \<longrightarrow> (\<forall>i j. i < length (processes s) \<and> page_dir (processes s ! i) \<noteq> 0
          \<longrightarrow> page_dir (processes s ! i) \<notin># freed_spaces s
            \<and> (j < length (processes s) \<and> page_dir (processes s ! j) = page_dir (processes s ! i) \<longrightarrow> i = j)))"
proof -
  have inv: "ps_inv A K s" using assms by (rule ps_reach_inv)
  have "page_dir (processes s ! i) \<notin># freed_spaces s
      \<and> (j < length (processes s) \<and> page_dir (processes s ! j) = page_dir (processes s ! i) \<longrightarrow> i = j)"
    if "distinct A" "i < length (processes s)" "page_dir (processes s ! i) \<noteq> 0" for i j
    using held_once [of A "map page_dir (processes s)" "freed_spaces s" i j] inv that by (auto simp: ps_inv_def)
  then show ?thesis using inv by (auto simp: ps_inv_def ps_wf_def)
qed

theorem process_resources_conserved_witness:
  "nonzero [0x00400000] = nonzero (map page_dir (processes one_task)) + freed_spaces one_task"
  using process_resources_conserved [OF one_task_reach] by blast

text \<open>
  creating a process takes the slot of the first zombie, or a new slot when there is none, and
  fails, changing nothing, exactly when all 128 slots hold live processes. The new process is
  ready, has the next process number, the caller as parent, the pending \<^verbatim>\<open>nice\<close> value or the default
  priority, and starts at its entry point at the top of its stack; every other slot, the current
  process and the run queue are as before, and the \<^verbatim>\<open>nice\<close> value is used up.
\<close>

theorem process_create_correct:
  assumes "ps_reach A K s" and "process_create name ent space stack s = (r, t)"
  shows "(r = None \<longleftrightarrow> length (processes s) = MAX_PROCESSES \<and> (\<forall>p \<in> set (processes s). pstate p \<noteq> PROC_ZOMBIE))
    \<and> (r = None \<longrightarrow> t = s)
    \<and> (\<forall>i. r = Some i \<longrightarrow>
         (if \<exists>p \<in> set (processes s). pstate p = PROC_ZOMBIE
          then i < length (processes s) \<and> pstate (processes s ! i) = PROC_ZOMBIE
               \<and> (\<forall>j<i. pstate (processes s ! j) \<noteq> PROC_ZOMBIE)
          else i = length (processes s))
         \<and> length (processes t) = max (length (processes s)) (Suc i)
         \<and> (\<forall>j<length (processes s). j \<noteq> i \<longrightarrow> processes t ! j = processes s ! j)
         \<and> pid (processes t ! i) = next_pid s \<and> pstate (processes t ! i) = PROC_READY
         \<and> (\<forall>c. current s = Some c \<longrightarrow> c \<noteq> i \<longrightarrow> parent_pid (processes t ! i) = pid (processes s ! c))
         \<and> priority (processes t ! i) = (case next_priority_hint s of Some h \<Rightarrow> h | None \<Rightarrow> PRIO_DEFAULT)
         \<and> page_dir (processes t ! i) = space \<and> kstack (processes t ! i) = stack
         \<and> cx_eip (pcontext (processes t ! i)) = ent \<and> cx_esp (pcontext (processes t ! i)) = stack + 8184
         \<and> next_pid t = next_pid s + 1 \<and> next_priority_hint t = None
         \<and> current t = current s \<and> run_queue t = run_queue s)"
proof -
  have wf: "ps_wf s" using ps_reach_inv [OF assms(1)] by (simp add: ps_inv_def)
  then have len: "length (processes s) \<le> MAX_PROCESSES" by (simp add: ps_wf_def)
  show ?thesis
  proof (cases "slot_available s")
    case False
    then have "r = None" "t = s" using process_create_None [OF False] assms(2) by auto
    then show ?thesis using False len by (auto simp: slot_available_def)
  next
    case True
    obtain u where "process_create name ent space stack s = (Some (new_slot s), u)" and
      u: "processes u = (if new_slot s < length (processes s)
                        then (processes s)[new_slot s := newborn name ent space stack s]
                        else processes s @ [newborn name ent space stack s])"
        "new_slot s \<le> length (processes s)" "next_pid u = next_pid s + 1" "next_priority_hint u = None"
        "current u = current s" "run_queue u = run_queue s"
      by (rule process_create_Some [OF True wf])
    then have ru: "r = Some (new_slot s)" "t = u" using assms(2) by auto
    have "processes u ! new_slot s = newborn name ent space stack s" using u(1,2) by (auto simp: nth_append)
    moreover have "length (processes u) = max (length (processes s)) (Suc (new_slot s))" using u(1,2) by auto
    moreover have "\<forall>j<length (processes s). j \<noteq> new_slot s \<longrightarrow> processes u ! j = processes s ! j"
      using u(1) by (auto simp: nth_append)
    ultimately show ?thesis unfolding ru using u(3-6) True new_slot_spec [of s]
      by (auto simp: newborn_def slot_available_def)
  qed
qed

theorem process_create_correct_witness:
  "\<exists>t. process_create ''sh'' 0x08048000 0x00400000 0x00900000 booted_ps = (Some 4, t) \<and> next_pid t = next_pid booted_ps + 1"
proof -
  let ?t = "snd (process_create ''sh'' 0x08048000 0x00400000 0x00900000 booted_ps)"
  have eq: "process_create ''sh'' 0x08048000 0x00400000 0x00900000 booted_ps = (Some 4, ?t)"
    using create_on_boot(1) by (simp add: prod_eq_iff)
  show ?thesis using process_create_correct [OF booted_reach eq] eq by blast
qed

section \<open>Properties of the scheduler\<close>

text \<open>How many entries after the last picked one an entry of the run queue comes.\<close>

definition wait_dist :: "ps \<Rightarrow> nat \<Rightarrow> nat" where
  "wait_dist s j = (if j > last_picked_idx s then j - last_picked_idx s - 1
                    else j + length (run_queue s) - last_picked_idx s - 1)"

lemma wait_dist_cyc:
  assumes "i < length (run_queue s)" "last_picked_idx s < length (run_queue s)"
  shows "wait_dist s (cyc s i) = i"
proof (cases "last_picked_idx s + 1 + i < length (run_queue s)")
  case True
  then show ?thesis by (simp add: wait_dist_def cyc_def)
next
  case False
  then have "cyc s i = last_picked_idx s + 1 + i - length (run_queue s)"
    unfolding cyc_def using assms by (subst mod_if) simp
  moreover from this have "\<not> last_picked_idx s < cyc s i" using assms by linarith
  ultimately show ?thesis using False assms by (simp add: wait_dist_def)
qed

lemma cyc_wait_dist:
  assumes "j < length (run_queue s)" "last_picked_idx s < length (run_queue s)"
  shows "cyc s (wait_dist s j) = j" and "wait_dist s j < length (run_queue s)"
  using cyc_surj [OF assms] wait_dist_cyc [OF _ assms(2)] by metis+

text \<open>The choice in terms of queue positions.\<close>

definition chosen :: "ps \<Rightarrow> nat \<Rightarrow> nat \<Rightarrow> bool" where
  "chosen s idx p = (idx < length (run_queue s) \<and> run_queue s ! idx = Some p \<and> runnable (processes s ! p)
     \<and> (\<forall>j q. j < length (run_queue s) \<and> run_queue s ! j = Some q \<and> runnable (processes s ! q)
          \<longrightarrow> eff_prio (processes s ! p) < eff_prio (processes s ! q)
            \<or> eff_prio (processes s ! p) = eff_prio (processes s ! q) \<and> wait_dist s idx \<le> wait_dist s j))"

lemma pick_next_chosen:
  assumes "ps_wf s"
  shows "case pick_next s of
           None \<Rightarrow> \<forall>p. Some p \<in> set (run_queue s) \<longrightarrow> \<not> runnable (processes s ! p)
         | Some idx \<Rightarrow> \<exists>p. chosen s idx p"
  using assms
proof (rule pick_next_cases, goal_cases)
  case 1
  have "\<not> runnable (processes s ! p)" if p: "Some p \<in> set (run_queue s)" for p
  proof -
    obtain j where j: "j < length (run_queue s)" "run_queue s ! j = Some p" using p by (auto simp: in_set_conv_nth)
    then have "last_picked_idx s < length (run_queue s)" using assms by (auto simp: ps_wf_def)
    from cyc_wait_dist [OF j(1) this] 1(2) j(2) show ?thesis by (auto simp: candidate_def)
  qed
  with 1(1) show ?case by simp
next
  case (2 i p)
  then have l: "last_picked_idx s < length (run_queue s)" using assms by (auto simp: ps_wf_def)
  have i: "wait_dist s (cyc s i) = i" using 2(2) wait_dist_cyc [OF _ l] by (auto simp: best_of_def)
  have "chosen s (cyc s i) p"
    unfolding chosen_def
  proof (intro conjI allI impI)
    fix j q assume "j < length (run_queue s) \<and> run_queue s ! j = Some q \<and> runnable (processes s ! q)"
    then have "candidate s (wait_dist s j) q" "wait_dist s j < length (run_queue s)"
      using cyc_wait_dist [OF _ l, of j] by (auto simp: candidate_def)
    then show "eff_prio (processes s ! p) < eff_prio (processes s ! q)
            \<or> eff_prio (processes s ! p) = eff_prio (processes s ! q) \<and> wait_dist s (cyc s i) \<le> wait_dist s j"
      using 2(2) unfolding i by (auto simp: best_of_def prefers_def)
  qed (use 2 in \<open>auto simp: best_of_def candidate_def\<close>)
  then show ?case using 2(1) by auto
qed

text \<open>
  C25: \<^verbatim>\<open>pick_next\<close> finds nothing exactly when no queued task can run; otherwise it picks a runnable
  task of the least effective priority number and, among those of equal priority, the one that
  comes first after the task picked last, going round the queue.
\<close>

theorem pick_next_correct:
  assumes "ps_reach A K s"
  shows "case pick_next s of
           None \<Rightarrow> \<forall>p. Some p \<in> set (run_queue s) \<longrightarrow> \<not> runnable (processes s ! p)
         | Some idx \<Rightarrow> idx < length (run_queue s) \<and> (\<exists>p. run_queue s ! idx = Some p \<and> runnable (processes s ! p)
             \<and> (\<forall>j q. j < length (run_queue s) \<and> run_queue s ! j = Some q \<and> runnable (processes s ! q)
                  \<longrightarrow> eff_prio (processes s ! p) < eff_prio (processes s ! q)
                    \<or> eff_prio (processes s ! p) = eff_prio (processes s ! q) \<and> wait_dist s idx \<le> wait_dist s j))"
proof -
  have "ps_wf s" using ps_reach_inv [OF assms] by (simp add: ps_inv_def)
  from pick_next_chosen [OF this] show ?thesis by (auto simp: chosen_def split: option.splits)
qed

theorem pick_next_correct_witness:
  "case pick_next one_task of None \<Rightarrow> \<forall>p. Some p \<in> set (run_queue one_task) \<longrightarrow> \<not> runnable (processes one_task ! p)
   | Some idx \<Rightarrow> idx < length (run_queue one_task)"
  using pick_next_correct [OF one_task_reach] by (cases "pick_next one_task") simp_all

lemma schedule_queue [simp]: "run_queue (schedule s) = run_queue s"
  by (auto simp: schedule_eq announce_def switch_to_def process_set_current_def Let_def split: option.split)

lemma schedule_picks:
  assumes "ps_wf s" "pick_next s = Some idx" "chosen s idx p"
  shows "current (schedule s) = Some p"
    and "last_picked_idx (schedule s) = (if current s = Some p then last_picked_idx s else idx)"
  using assms
  by (auto simp: schedule_eq chosen_def announce_def switch_to_def process_set_current_def Let_def split: option.split)

text \<open>
  The turn of the queue is in step with the processor when \<^verbatim>\<open>last_picked_idx\<close> is the position of the
  running task, or that task is not queued at all (as \<^verbatim>\<open>init\<close> when the first call comes).
\<close>

definition turn_ok :: "ps \<Rightarrow> bool" where
  "turn_ok s = (current s = run_queue s ! last_picked_idx s \<or> current s \<notin> set (run_queue s))"

text \<open>One call brings a waiting task of top priority nearer, or runs it.\<close>

lemma schedule_progress:
  assumes wf: "ps_wf s" and queue: "distinct (run_queue s)" "turn_ok s"
    and j: "j < length (run_queue s)" "run_queue s ! j = Some p" "runnable (processes s ! p)"
    and top: "\<forall>q. Some q \<in> set (run_queue s) \<and> runnable (processes s ! q) \<longrightarrow> eff_prio (processes s ! p) \<le> eff_prio (processes s ! q)"
  shows "turn_ok (schedule s)
    \<and> (current (schedule s) = Some p \<or> wait_dist (schedule s) j < wait_dist s j)"
proof -
  let ?n = "length (run_queue s)" and ?l = "last_picked_idx s"
  have l: "?l < ?n" using wf j(1) by (auto simp: ps_wf_def)
  obtain idx q where pick: "pick_next s = Some idx" "chosen s idx q"
    using pick_next_chosen [OF wf] j nth_mem [OF j(1)] by (cases "pick_next s") auto
  note after = schedule_picks [OF wf pick]
  have idx: "idx < ?n" "run_queue s ! idx = Some q" using pick(2) by (simp_all add: chosen_def)
  have le: "wait_dist s idx \<le> wait_dist s j"
    using pick(2) j top nth_mem [OF idx(1)] idx(2) by (fastforce simp: chosen_def)
  show ?thesis
  proof (cases "current s = Some q")
    case True
    then have "current s \<in> set (run_queue s)" using nth_mem [OF idx(1)] idx(2) by simp
    then have cur: "current s = run_queue s ! ?l" using queue(2) by (simp add: turn_ok_def)
    then have "idx = ?l" using True idx(2) nth_eq_iff_index_eq [OF queue(1) idx(1) l] by simp
    then have "wait_dist s idx = ?n - 1" using l by (simp add: wait_dist_def)
    then have "wait_dist s j = wait_dist s idx" using le cyc_wait_dist(2) [OF j(1) l] by simp
    then have "cyc s (wait_dist s j) = cyc s (wait_dist s idx)" by (rule arg_cong)
    then have "j = idx" unfolding cyc_wait_dist(1) [OF j(1) l] cyc_wait_dist(1) [OF idx(1) l] .
    then show ?thesis using after True idx j(2) \<open>idx = ?l\<close> by (simp add: turn_ok_def)
  next
    case False
    have "wait_dist (schedule s) j < wait_dist s j" if "q \<noteq> p"
    proof -
      have "idx \<noteq> j" using that idx(2) j(2) by auto
      moreover have "wait_dist (schedule s) j = (if j > idx then j - idx - 1 else j + ?n - idx - 1)"
        using after(2) False by (simp add: wait_dist_def)
      ultimately show ?thesis using le l j(1) idx(1) unfolding wait_dist_def
        by (cases "idx < j"; cases "?l < j"; cases "?l < idx") simp_all
    qed
    then show ?thesis using after False idx by (auto simp: turn_ok_def)
  qed
qed

lemma wait_dist_cong:
  "run_queue s = run_queue t \<Longrightarrow> last_picked_idx s = last_picked_idx t \<Longrightarrow> wait_dist s j = wait_dist t j"
  by (simp add: wait_dist_def)

text \<open>
  \<open>sched_run \<sigma>\<close>: \<open>\<sigma> k\<close> is the state in which \<^verbatim>\<open>schedule\<close> is called for the \<open>k\<close>-th time; between the
  calls processes run and change anything but the queue, the current task and the last pick.
\<close>

definition sched_run :: "(nat \<Rightarrow> ps) \<Rightarrow> bool" where
  "sched_run \<sigma> = (\<forall>k. ps_wf (\<sigma> k) \<and> run_queue (\<sigma> (Suc k)) = run_queue (schedule (\<sigma> k))
     \<and> last_picked_idx (\<sigma> (Suc k)) = last_picked_idx (schedule (\<sigma> k))
     \<and> current (\<sigma> (Suc k)) = current (schedule (\<sigma> k)))"

lemma no_starvation_within:
  assumes run: "sched_run \<sigma>" and queue: "distinct (run_queue (\<sigma> m))" "turn_ok (\<sigma> m)"
    and j: "j < length (run_queue (\<sigma> m))" "run_queue (\<sigma> m) ! j = Some p"
    and ready: "\<forall>k. runnable (processes (\<sigma> k) ! p)"
    and top: "\<forall>k q. Some q \<in> set (run_queue (\<sigma> k)) \<and> runnable (processes (\<sigma> k) ! q)
                \<longrightarrow> eff_prio (processes (\<sigma> k) ! p) \<le> eff_prio (processes (\<sigma> k) ! q)"
  shows "\<exists>k\<le>wait_dist (\<sigma> m) j. current (schedule (\<sigma> (m + k))) = Some p"
  using queue j
proof (induction "wait_dist (\<sigma> m) j" arbitrary: m rule: less_induct)
  case less
  have wf: "ps_wf (\<sigma> m)" using run by (simp add: sched_run_def)
  have same: "run_queue (\<sigma> (Suc m)) = run_queue (\<sigma> m)" "last_picked_idx (\<sigma> (Suc m)) = last_picked_idx (schedule (\<sigma> m))"
      "current (\<sigma> (Suc m)) = current (schedule (\<sigma> m))" using run by (simp_all add: sched_run_def)
  have prog: "turn_ok (schedule (\<sigma> m))
    \<and> (current (schedule (\<sigma> m)) = Some p \<or> wait_dist (schedule (\<sigma> m)) j < wait_dist (\<sigma> m) j)"
    by (rule schedule_progress [OF wf less.prems]) (use ready top in blast)+
  show ?case
  proof (cases "current (schedule (\<sigma> m)) = Some p")
    case True
    then show ?thesis by (intro exI [of _ 0]) simp
  next
    case False
    have d: "wait_dist (\<sigma> (Suc m)) j < wait_dist (\<sigma> m) j"
      using prog False wait_dist_cong [of "\<sigma> (Suc m)" "schedule (\<sigma> m)"] same by simp
    have "\<exists>k\<le>wait_dist (\<sigma> (Suc m)) j. current (schedule (\<sigma> (Suc m + k))) = Some p"
      by (rule less.hyps [OF d]) (use less.prems same prog in \<open>simp_all add: turn_ok_def\<close>)
    then obtain k where "k \<le> wait_dist (\<sigma> (Suc m)) j" "current (schedule (\<sigma> (Suc m + k))) = Some p" by blast
    then show ?thesis using d by (intro exI [of _ "Suc k"]) simp
  qed
qed

text \<open>
  C26: no task starves behind tasks of its own priority, as long as the queue is in order. On a queue
  that holds no task twice and that nothing is added to, with \<^verbatim>\<open>last_picked_idx\<close> at the running task
  or the running task not queued, a queued task that stays runnable, and than which no runnable
  queued task ever has a better effective priority, gets the processor within as many calls of
  \<^verbatim>\<open>schedule\<close> as the queue has entries, whatever the processes do between the calls, which leave the
  queue, the current task and the last pick alone (\<open>sched_run\<close>). Neither
  condition on the queue can be dropped: \<open>double_queued_starves\<close> below.
\<close>

theorem schedule_no_starvation:
  assumes "sched_run \<sigma>" "distinct (run_queue (\<sigma> 0))" "current (\<sigma> 0) = run_queue (\<sigma> 0) ! last_picked_idx (\<sigma> 0) \<or> current (\<sigma> 0) \<notin> set (run_queue (\<sigma> 0))"
    and "Some p \<in> set (run_queue (\<sigma> 0))" "\<forall>k. runnable (processes (\<sigma> k) ! p)"
    and "\<forall>k q. Some q \<in> set (run_queue (\<sigma> k)) \<and> runnable (processes (\<sigma> k) ! q)
           \<longrightarrow> eff_prio (processes (\<sigma> k) ! p) \<le> eff_prio (processes (\<sigma> k) ! q)"
  shows "\<exists>k<length (run_queue (\<sigma> 0)). current (schedule (\<sigma> k)) = Some p"
proof -
  obtain j where j: "j < length (run_queue (\<sigma> 0))" "run_queue (\<sigma> 0) ! j = Some p"
    using assms(4) by (auto simp: in_set_conv_nth)
  have "last_picked_idx (\<sigma> 0) < length (run_queue (\<sigma> 0))"
  proof -
    have "ps_wf (\<sigma> 0)" using assms(1) by (simp add: sched_run_def)
    then show ?thesis using j(1) by (auto simp: ps_wf_def)
  qed
  then have d: "wait_dist (\<sigma> 0) j < length (run_queue (\<sigma> 0))" by (rule cyc_wait_dist(2) [OF j(1)])
  obtain k where "k \<le> wait_dist (\<sigma> 0) j" "current (schedule (\<sigma> (0 + k))) = Some p"
    using no_starvation_within [OF assms(1,2) assms(3) [folded turn_ok_def] j assms(5-6)] by blast
  then show ?thesis using d by (intro exI [of _ k]) simp
qed

text \<open>
  What happens otherwise. \<^verbatim>\<open>schedule\<close> returns before it sets \<^verbatim>\<open>last_picked_idx\<close> when it picks the task
  that runs already, so when that task comes first in the turn it is picked again by every call.
\<close>

lemma schedule_keeps_running:
  assumes "pick_next s = Some idx" "run_queue s ! idx = current s" "current s = Some p"
  shows "schedule s = upd_proc p (\<lambda>q. q\<lparr>quantum_used := 0\<rparr>) s"
  using assms by (simp add: schedule_def)

text \<open>The first two tasks of the table, of the same priority; the slot of the first is queued twice.\<close>

definition double_queued :: ps where
  "double_queued = blank_ps\<lparr>processes := [zero_process\<lparr>pid := 1\<rparr>, zero_process\<lparr>pid := 2\<rparr>], current := Some 0,
     run_queue := [Some 0, Some 1, Some 0], last_picked_idx := 2\<rparr>"

lemma double_queued_starves: "current ((schedule ^^ k) double_queued) = Some 0"
proof -
  have "pick_next double_queued = Some 0" by code_simp
  then have "schedule double_queued = upd_proc 0 (\<lambda>q. q\<lparr>quantum_used := 0\<rparr>) double_queued"
    by (rule schedule_keeps_running) (simp_all add: double_queued_def)
  then have "schedule double_queued = double_queued"
    by (simp add: upd_proc_def double_queued_def blank_ps_def zero_process_def)
  then have "(schedule ^^ k) double_queued = double_queued" by (induction k) simp_all
  then show ?thesis by (simp add: double_queued_def)
qed

text \<open>Two tasks of the same priority that run in turn.\<close>

definition duo :: "nat \<Rightarrow> ps" where
  "duo c = blank_ps\<lparr>processes := [zero_process\<lparr>pid := 1\<rparr>, zero_process\<lparr>pid := 2\<rparr>], current := Some c,
     run_queue := [Some 0, Some 1], last_picked_idx := c\<rparr>"

lemma duo_wf: "c < 2 \<Longrightarrow> ps_wf (duo c)"
  by (auto simp: ps_wf_def duo_def blank_ps_def proc_ok_def zero_process_def)

lemma duo_schedule:
  "run_queue (schedule (duo c)) = [Some 0, Some 1]"
  "last_picked_idx (schedule (duo 0)) = 1" "current (schedule (duo 0)) = Some 1"
  "last_picked_idx (schedule (duo 1)) = 0" "current (schedule (duo 1)) = Some 0"
proof -
  have "pick_next (duo 0) = Some 1" "pick_next (duo 1) = Some 0"
    by code_simp+
  then show "last_picked_idx (schedule (duo 0)) = 1" "current (schedule (duo 0)) = Some 1"
    "last_picked_idx (schedule (duo 1)) = 0" "current (schedule (duo 1)) = Some 0"
    by (simp_all add: schedule_eq announce_def switch_to_def process_set_current_def Let_def duo_def blank_ps_def)
qed (simp add: duo_def blank_ps_def)

lemma duo_simps [simp]: "run_queue (duo c) = [Some 0, Some 1]" "last_picked_idx (duo c) = c" "current (duo c) = Some c"
  by (simp_all add: duo_def)

lemma mod2_turns: "k mod 2 = 0 \<and> Suc k mod 2 = 1 \<or> k mod 2 = 1 \<and> Suc k mod 2 = (0 :: nat)"
  by presburger

lemma duo_run: "sched_run (\<lambda>k. duo (k mod 2))"
  unfolding sched_run_def
proof
  fix k :: nat
  consider "k mod 2 = 0" "Suc k mod 2 = 1" | "k mod 2 = 1" "Suc k mod 2 = 0" using mod2_turns [of k] by (elim disjE conjE)
  then show "ps_wf (duo (k mod 2)) \<and> run_queue (duo (Suc k mod 2)) = run_queue (schedule (duo (k mod 2)))
     \<and> last_picked_idx (duo (Suc k mod 2)) = last_picked_idx (schedule (duo (k mod 2)))
     \<and> current (duo (Suc k mod 2)) = current (schedule (duo (k mod 2)))"
    by cases (simp_all add: duo_wf duo_schedule del: One_nat_def)
qed

theorem schedule_no_starvation_witness: "\<exists>k<2. current (schedule (duo (k mod 2))) = Some 1"
proof -
  have "\<exists>k<length (run_queue (duo (0 mod 2))). current (schedule (duo (k mod 2))) = Some 1"
    by (rule schedule_no_starvation [OF duo_run])
      (auto simp: duo_def blank_ps_def runnable_def zero_process_def eff_prio_def)
  then show ?thesis by (simp add: numeral_2_eq_2)
qed

end
