(* ===== verification/Uaccess.thy ===== *)
theory Uaccess
  imports Printf Diskfs
begin

text \<open>
  User pointers, \<^verbatim>\<open>cpu/uaccess.h\<close>. The kernel and the programs share one flat 32-bit address space:
  \<open>mem\<close> is its content, and an address is a \<open>u32\<close> whose arithmetic wraps. The range test
  \<open>uaccess_ok\<close> and the string test \<open>uaccess_strnlen\<close> are those of the header; \<open>load_bytes\<close>,
  \<open>store_bytes\<close> and \<open>str_at\<close> are the plain memory accesses the system calls make afterwards. The
  lemmas say what a granted range guarantees and when it does not.
\<close>

abbreviation USER_SPACE_START :: u32 where "USER_SPACE_START \<equiv> 0x08000000"
abbreviation USER_SPACE_END :: u32 where "USER_SPACE_END \<equiv> 0x10000000"

section \<open>The tests\<close>

definition uaccess_ok :: "u32 \<Rightarrow> u32 \<Rightarrow> bool" where
  "uaccess_ok addr len =
     (if addr = 0 then False
      else if addr < USER_SPACE_START then False
      else if addr \<ge> USER_SPACE_END then False
      else if len > 0 \<and> addr + len > USER_SPACE_END then False
      else True)"

definition uaccess_strnlen :: "u32 \<Rightarrow> u32 \<Rightarrow> mem \<Rightarrow> int" where
  "uaccess_strnlen addr maxlen m =
     (if addr = 0 then -1
      else if addr < USER_SPACE_START then -1
      else if addr \<ge> USER_SPACE_END then -1
      else let avail = USER_SPACE_END - addr;
               limit = (if maxlen > avail then avail else maxlen)
           in case first_index (\<lambda>i. m (unat (addr + of_nat i)) = 0) 0 (unat limit) of
                Some i \<Rightarrow> int i
              | None \<Rightarrow> -1)"

section \<open>Accesses\<close>

definition load_bytes :: "u32 \<Rightarrow> nat \<Rightarrow> mem \<Rightarrow> u8 list" where
  "load_bytes a n m = map (\<lambda>i. m (unat (a + of_nat i))) [0..<n]"

fun store_bytes :: "u32 \<Rightarrow> u8 list \<Rightarrow> mem \<Rightarrow> mem" where
  "store_bytes a [] m = m"
| "store_bytes a (b # bs) m = store_bytes (a + 1) bs (m(unat a := b))"

definition load32 :: "u32 \<Rightarrow> mem \<Rightarrow> u32" where
  "load32 a m = le32 (m (unat a)) (m (unat (a + 1))) (m (unat (a + 2))) (m (unat (a + 3)))"

definition store32 :: "u32 \<Rightarrow> u32 \<Rightarrow> mem \<Rightarrow> mem" where
  "store32 a v m = store_bytes a (le32_bytes v) m"

text \<open>Reading through a \<^verbatim>\<open>char *\<close> up to its terminator; \<open>None\<close>: there is none in all of memory.\<close>

partial_function (option) str_at :: "u32 \<Rightarrow> mem \<Rightarrow> string option" where
  "str_at a m =
     (if m (unat a) = 0 then Some []
      else Option.bind (str_at (a + 1) m) (\<lambda>s. Some (byte_char (m (unat a)) # s)))"

text \<open>\<^verbatim>\<open>while (s[i] && i < n) { dst[i] = s[i]; i++; } dst[i] = 0\<close>\<close>

definition store_name :: "u32 \<Rightarrow> int \<Rightarrow> string \<Rightarrow> mem \<Rightarrow> mem" where
  "store_name dst n s m = store_bytes dst (string_bytes (take (nat n) s) @ [0]) m"

section \<open>What the range test guarantees\<close>

definition in_user :: "nat \<Rightarrow> bool" where
  "in_user x \<longleftrightarrow> unat USER_SPACE_START \<le> x \<and> x < unat USER_SPACE_END"

definition confined :: "mem \<Rightarrow> mem \<Rightarrow> bool" where
  "confined m m' \<longleftrightarrow> (\<forall>x. \<not> in_user x \<longrightarrow> m' x = m x)"

text \<open>The sum is a 32-bit sum: a length that makes it wrap passes the test.\<close>

lemma uaccess_ok_iff:
  "uaccess_ok a len \<longleftrightarrow> in_user (unat a)
     \<and> (len = 0 \<or> unat a + unat len \<le> 0x10000000 \<or> 0x100000000 \<le> unat a + unat len)"
proof -
  have "a + len > USER_SPACE_END \<longleftrightarrow> \<not> (unat a + unat len \<le> 0x10000000 \<or> 0x100000000 \<le> unat a + unat len)"
    if "a < USER_SPACE_END"
  proof -
    have a: "unat a < 0x10000000" using that by (simp add: word_less_nat_alt)
    show ?thesis
    proof (cases "unat a + unat len < 0x100000000")
      case True
      then show ?thesis by (auto simp: word_less_nat_alt unat_plus_u32)
    next
      case False
      have "unat (a + len) = (unat a + unat len) mod 0x100000000"
        by (simp add: unat_word_ariths)
      also have "\<dots> = unat a + unat len - 0x100000000"
        using False unat_u32_bound [of a] unat_u32_bound [of len] by (simp add: mod_if)
      finally show ?thesis using False a unat_u32_bound [of len] by (simp add: word_less_nat_alt)
    qed
  qed
  moreover have "a = 0 \<longrightarrow> \<not> in_user (unat a)" by (simp add: in_user_def)
  moreover have "in_user (unat a) \<longleftrightarrow> \<not> a < USER_SPACE_START \<and> a < USER_SPACE_END"
    by (simp add: in_user_def word_less_nat_alt not_less)
  ultimately show ?thesis
    unfolding uaccess_ok_def by (auto simp: not_less not_le word_neq_0_conv)
qed

lemma store_bytes_apply:
  assumes "unat a + length bs \<le> 0x100000000"
  shows "store_bytes a bs m x = (if unat a \<le> x \<and> x < unat a + length bs then bs ! (x - unat a) else m x)"
  using assms
proof (induction bs arbitrary: a m)
  case Nil
  then show ?case by auto
next
  case (Cons b bs)
  show ?case
  proof (cases bs)
    case Nil
    then show ?thesis by auto
  next
    case (Cons c cs)
    then have next_a: "unat (a + 1) = unat a + 1" using Cons.prems by (simp add: unat_word_ariths)
    show ?thesis using Cons.prems Cons.IH [of "a + 1" "m(unat a := b)"] next_a
      by (auto simp: nth_Cons' le_Suc_eq simp del: fun_upd_apply) (simp_all add: fun_upd_apply)
  qed
qed

lemma confined_refl [simp]: "confined m m"
  by (simp add: confined_def)

lemma confined_trans: "confined m m' \<Longrightarrow> confined m' m'' \<Longrightarrow> confined m m''"
  by (simp add: confined_def)

lemma store_bytes_confined:
  assumes "in_user (unat a)" "unat a + length bs \<le> 0x10000000"
  shows "confined m (store_bytes a bs m)"
  using assms by (auto simp: confined_def in_user_def store_bytes_apply)

lemma uaccess_ok_confined:
  assumes ok: "uaccess_ok a len" and wrap: "unat a + unat len < 0x100000000" and n: "length bs \<le> unat len"
  shows "confined m (store_bytes a bs m)"
proof (cases bs)
  case Nil
  then show ?thesis by simp
next
  case (Cons b cs)
  then have "len \<noteq> 0" using n by auto
  then show ?thesis using ok wrap n by (intro store_bytes_confined) (auto simp: uaccess_ok_iff)
qed

lemma length_load_bytes [simp]: "length (load_bytes a n m) = n"
  by (simp add: load_bytes_def)

lemma load_store_bytes:
  assumes "unat a + length bs \<le> 0x100000000"
  shows "load_bytes a (length bs) (store_bytes a bs m) = bs"
proof (rule nth_equalityI)
  fix i assume "i < length (load_bytes a (length bs) (store_bytes a bs m))"
  then have i: "i < length bs" by simp
  then have "unat (a + of_nat i) = unat a + i" using assms
    by (simp add: unat_plus_u32)
  then show "load_bytes a (length bs) (store_bytes a bs m) ! i = bs ! i"
    using i assms by (simp add: load_bytes_def store_bytes_apply)
qed simp

section \<open>What the string test guarantees\<close>

lemma str_at_first_zero:
  assumes "m (unat (a + of_nat k)) = 0" "\<forall>j<k. m (unat (a + of_nat j)) \<noteq> 0"
  shows "str_at a m = Some (map (\<lambda>i. byte_char (m (unat (a + of_nat i)))) [0..<k])"
  using assms
proof (induction k arbitrary: a)
  case 0
  then show ?case by (subst str_at.simps) simp
next
  case (Suc k)
  have step: "a + 1 + of_nat i = a + of_nat (Suc i)" for i by (simp add: add_ac)
  have "str_at (a + 1) m = Some (map (\<lambda>i. byte_char (m (unat (a + 1 + of_nat i)))) [0..<k])"
    by (rule Suc.IH) (use Suc.prems in \<open>simp_all only: step, auto\<close>)
  moreover have "m (unat a) \<noteq> 0" using Suc.prems(2) by (auto dest: spec [of _ 0])
  moreover have "[0..<Suc k] = 0 # map Suc [0..<k]"
    by (simp add: map_Suc_upt upt_conv_Cons del: upt_Suc)
  ultimately show ?case
    by (subst str_at.simps) (simp add: step o_def del: upt_Suc of_nat_Suc)
qed

definition cstr_at :: "u32 \<Rightarrow> string \<Rightarrow> mem \<Rightarrow> bool" where
  "cstr_at a s m \<longleftrightarrow> (\<forall>j \<le> length s. m (unat a + j) = (string_bytes s @ [0]) ! j)"

lemma str_at_cstr:
  assumes "cstr_at a s m" "unat a + length s < 0x100000000" "CHR 0x00 \<notin> set s"
  shows "str_at a m = Some s"
proof -
  define bs where "bs = string_bytes s"
  have len: "length bs = length s" by (simp add: bs_def string_bytes_def)
  have chars: "byte_char (bs ! j) = s ! j" "bs ! j \<noteq> 0" if "j < length s" for j
  proof -
    have b: "bs ! j = of_char (s ! j)" using that by (simp add: bs_def string_bytes_def)
    then show *: "byte_char (bs ! j) = s ! j" by (simp add: byte_char_def char_of_byte)
    show "bs ! j \<noteq> 0" using nth_mem [OF that] assms(3) * by (auto simp: byte_char_def char_of_def)
  qed
  have at: "m (unat (a + of_nat j)) = (bs @ [0]) ! j" if "j \<le> length s" for j
    using that assms(1,2) by (simp add: unat_plus_u32 cstr_at_def bs_def)
  have "str_at a m = Some (map (\<lambda>i. byte_char (m (unat (a + of_nat i)))) [0..<length s])"
    by (rule str_at_first_zero) (simp_all add: at nth_append len chars)
  also have "map (\<lambda>i. byte_char (m (unat (a + of_nat i)))) [0..<length s] = s"
    by (rule nth_equalityI) (simp_all add: at nth_append len chars)
  finally show ?thesis .
qed

lemma cstr_at_stored:
  "unat a + length s < 0x100000000 \<Longrightarrow> cstr_at a s (store_bytes a (string_bytes s @ [0]) m)"
  by (auto simp: cstr_at_def store_bytes_apply string_bytes_def)

lemma cstr_at_cong:
  "(\<And>x. unat a \<le> x \<Longrightarrow> x \<le> unat a + length s \<Longrightarrow> m' x = m x) \<Longrightarrow> cstr_at a s m \<Longrightarrow> cstr_at a s m'"
  by (simp add: cstr_at_def)

lemma str_at_stored:
  "unat a + length s < 0x100000000 \<Longrightarrow> CHR 0x00 \<notin> set s \<Longrightarrow> str_at a (store_bytes a (string_bytes s @ [0]) m) = Some s"
  by (intro str_at_cstr cstr_at_stored)

lemma load32_rd32: "unat a + 4 \<le> 0x100000000 \<Longrightarrow> load32 a m = rd32 m (unat a)"
  by (simp add: load32_def rd32_def unat_plus_u32)

lemma store32_wr32: "unat a + 4 \<le> 0x100000000 \<Longrightarrow> store32 a v m = wr32 m (unat a) v"
  by (simp add: store32_def le32_bytes_def wr32_def unat_plus_u32 add.assoc)

lemma uaccess_strnlen_nonneg:
  assumes "uaccess_strnlen a n m \<ge> 0"
  obtains k where "uaccess_strnlen a n m = int k" "m (unat (a + of_nat k)) = 0"
    "\<forall>j<k. m (unat (a + of_nat j)) \<noteq> 0" "k < unat n" "unat a + k < 0x10000000" "in_user (unat a)"
proof -
  let ?limit = "if n > USER_SPACE_END - a then USER_SPACE_END - a else n"
  have a: "\<not> a < USER_SPACE_START" "a < USER_SPACE_END"
    and s: "(case first_index (\<lambda>i. m (unat (a + of_nat i)) = 0) 0 (unat ?limit) of
               Some i \<Rightarrow> int i | None \<Rightarrow> -1) = uaccess_strnlen a n m"
    using assms unfolding uaccess_strnlen_def Let_def by (auto simp: not_le split: if_splits)
  then obtain k where k: "first_index (\<lambda>i. m (unat (a + of_nat i)) = 0) 0 (unat ?limit) = Some k"
    and r: "uaccess_strnlen a n m = int k"
    using assms by (cases "first_index (\<lambda>i. m (unat (a + of_nat i)) = 0) 0 (unat ?limit)") auto
  have "unat (USER_SPACE_END - a) = 0x10000000 - unat a"
    using a(2) by (simp add: unat_minus_u32)
  then have "k < unat n" "unat a + k < 0x10000000"
    using k by (auto simp: first_index_Some word_less_nat_alt split: if_splits)
  with that [of k] k r a show thesis
    by (auto simp: first_index_Some in_user_def word_less_nat_alt)
qed

lemma uaccess_strnlen_str_at:
  assumes "uaccess_strnlen a n m \<ge> 0"
  shows "\<exists>s. str_at a m = Some s \<and> int (length s) = uaccess_strnlen a n m"
  using assms by (rule uaccess_strnlen_nonneg) (auto dest: str_at_first_zero)

end
