(* ===== verification/Keyboard.thy ===== *)
theory Keyboard
  imports Scheduler Uaccess
begin

text \<open>
  The keyboard driver, \<^verbatim>\<open>drivers/keyboard.c\<close>: scancodes of set 1 are decoded, under the state of
  the modifier keys, into key codes that wait in a ring of 65536 entries for
  \<^verbatim>\<open>keyboard_getchar\<close>. The bytes the controller delivers are an argument: one list of pairs
  (status port, data port) for every interrupt. A \<^verbatim>\<open>hlt\<close> waits for the next interrupt; when
  there is none left the caller is still waiting, which is the value \<open>None\<close>.
\<close>

section \<open>State\<close>

abbreviation BUF_SIZE :: nat where "BUF_SIZE \<equiv> 65536"
abbreviation MOD_STUCK_LIMIT :: int where "MOD_STUCK_LIMIT \<equiv> 300"

abbreviation KEY_UP :: int where "KEY_UP \<equiv> 0x80"
abbreviation KEY_DOWN :: int where "KEY_DOWN \<equiv> 0x81"
abbreviation KEY_LEFT :: int where "KEY_LEFT \<equiv> 0x82"
abbreviation KEY_RIGHT :: int where "KEY_RIGHT \<equiv> 0x83"
abbreviation KEY_F1 :: int where "KEY_F1 \<equiv> 0x84"
abbreviation KEY_F11 :: int where "KEY_F11 \<equiv> 0x8E"
abbreviation KEY_F12 :: int where "KEY_F12 \<equiv> 0x8F"
abbreviation KEY_HOME :: int where "KEY_HOME \<equiv> 0x90"
abbreviation KEY_END :: int where "KEY_END \<equiv> 0x91"
abbreviation KEY_DELETE :: int where "KEY_DELETE \<equiv> 0x92"

record kbd =
  kbuf :: "nat \<Rightarrow> int"
  khead :: nat
  ktail :: nat
  shift_down :: bool
  ctrl_down :: bool
  alt_down :: bool
  caps_lock :: bool
  extended :: bool
  shift_age :: int
  ctrl_age :: int
  alt_age :: int
  stdin_override :: "u8 list option"
  stdin_override_len :: u32
  stdin_override_pos :: u32

definition scancode_normal :: "u8 list" where
  "scancode_normal =
     [0, 27] @ string_bytes ''1234567890-='' @ [8] @
     [9] @ string_bytes ''qwertyuiop[]'' @ [10] @
     [0] @ string_bytes ''asdfghjkl;'' @ [39, 96] @
     [0, 92] @ string_bytes ''zxcvbnm,./'' @
     [0, 42, 0, 32] @ replicate 70 0"

definition scancode_shift :: "u8 list" where
  "scancode_shift =
     [0, 27] @ string_bytes ''!@#$%^&*()_+'' @ [8] @
     [9] @ string_bytes ''QWERTYUIOP{}'' @ [10] @
     [0] @ string_bytes ''ASDFGHJKL:'' @ [34, 126] @
     [0, 124] @ string_bytes ''ZXCVBNM<>?'' @
     [0, 42, 0, 32] @ replicate 70 0"

section \<open>The key queue\<close>

definition buf_push :: "int \<Rightarrow> kbd \<times> ps \<Rightarrow> kbd \<times> ps" where
  "buf_push key ks =
     (case ks of (k, s) \<Rightarrow>
        let next = (khead k + 1) mod BUF_SIZE
        in if next \<noteq> ktail k
           then (k\<lparr>kbuf := (kbuf k)(khead k := key), khead := next\<rparr>, scheduler_kick s)
           else (k, s))"

definition keyboard_inject_char :: "int \<Rightarrow> kbd \<times> ps \<Rightarrow> kbd \<times> ps" where
  "keyboard_inject_char key ks = buf_push key ks"

definition buf_pop :: "kbd \<Rightarrow> int \<times> kbd" where
  "buf_pop k =
     (if khead k = ktail k then (-1, k)
      else (kbuf k (ktail k), k\<lparr>ktail := (ktail k + 1) mod BUF_SIZE\<rparr>))"

section \<open>Decoding\<close>

definition extended_key :: "bool \<Rightarrow> u8 \<Rightarrow> kbd \<times> ps \<Rightarrow> kbd \<times> ps" where
  "extended_key released code ks =
     (case ks of (k, s) \<Rightarrow>
        if \<not> released \<and> code = 0x48 then buf_push KEY_UP ks
        else if \<not> released \<and> code = 0x50 then buf_push KEY_DOWN ks
        else if \<not> released \<and> code = 0x4B then buf_push KEY_LEFT ks
        else if \<not> released \<and> code = 0x4D then buf_push KEY_RIGHT ks
        else if \<not> released \<and> code = 0x47 then buf_push KEY_HOME ks
        else if \<not> released \<and> code = 0x4F then buf_push KEY_END ks
        else if \<not> released \<and> code = 0x53 then buf_push KEY_DELETE ks
        else if code = 0x1D then (k\<lparr>ctrl_down := \<not> released, ctrl_age := 0\<rparr>, s)
        else if code = 0x38 then (k\<lparr>alt_down := \<not> released, alt_age := 0\<rparr>, s)
        else (k, s))"

text \<open>A modifier held for too many key events counts as released.\<close>

definition age_modifiers :: "kbd \<Rightarrow> kbd" where
  "age_modifiers k =
     (let k = (if shift_down k
               then k\<lparr>shift_age := shift_age k + 1, shift_down := \<not> shift_age k + 1 > MOD_STUCK_LIMIT\<rparr> else k);
          k = (if ctrl_down k
               then k\<lparr>ctrl_age := ctrl_age k + 1, ctrl_down := \<not> ctrl_age k + 1 > MOD_STUCK_LIMIT\<rparr> else k)
      in if alt_down k
         then k\<lparr>alt_age := alt_age k + 1, alt_down := \<not> alt_age k + 1 > MOD_STUCK_LIMIT\<rparr> else k)"

definition lower :: "u8 \<Rightarrow> bool" where "lower c \<longleftrightarrow> 97 \<le> c \<and> c \<le> 122"
definition upper :: "u8 \<Rightarrow> bool" where "upper c \<longleftrightarrow> 65 \<le> c \<and> c \<le> 90"

definition apply_modifiers :: "kbd \<Rightarrow> u8 \<Rightarrow> u8" where
  "apply_modifiers k c =
     (let c = (if caps_lock k \<and> lower c then c - 32
               else if caps_lock k \<and> shift_down k \<and> upper c then c + 32 else c)
      in if ctrl_down k \<and> (lower c \<or> upper c) then c AND 0x1F else c)"

definition plain_key :: "u8 \<Rightarrow> kbd \<times> ps \<Rightarrow> kbd \<times> ps" where
  "plain_key code ks =
     (case ks of (k, s) \<Rightarrow>
        if 0x3B \<le> code \<and> code \<le> 0x44 then buf_push (KEY_F1 + (uint code - 0x3B)) ks
        else if code = 0x57 then buf_push KEY_F11 ks
        else if code = 0x58 then buf_push KEY_F12 ks
        else let c = (if shift_down k then scancode_shift ! unat code else scancode_normal ! unat code)
             in if c = 0 then ks
                else let c = apply_modifiers k c
                     in case current s of
                          Some p \<Rightarrow> if c = 3 \<and> pid (processes s ! p) > 3
                                    then (k, snd (process_signal (pid (processes s ! p)) 2 s))
                                    else buf_push (uint c) ks
                        | None \<Rightarrow> buf_push (uint c) ks)"

definition handle_scancode :: "u8 \<Rightarrow> kbd \<times> ps \<Rightarrow> kbd \<times> ps" where
  "handle_scancode sc ks =
     (case ks of (k, s) \<Rightarrow>
        if sc = 0xE0 then (k\<lparr>extended := True\<rparr>, s)
        else let released = (sc AND 0x80 \<noteq> 0); code = sc AND 0x7F
             in if extended k then extended_key released code (k\<lparr>extended := False\<rparr>, s)
                else if code = 0x2A \<or> code = 0x36 then (k\<lparr>shift_down := \<not> released, shift_age := 0\<rparr>, s)
                else if code = 0x1D then (k\<lparr>ctrl_down := \<not> released, ctrl_age := 0\<rparr>, s)
                else if code = 0x38 then (k\<lparr>alt_down := \<not> released, alt_age := 0\<rparr>, s)
                else if code = 0x3A then (if \<not> released then k\<lparr>caps_lock := \<not> caps_lock k\<rparr> else k, s)
                else if released then (k, s)
                else plain_key code (age_modifiers k, s))"

text \<open>The interrupt handler: at most 65 bytes, and none past one that is not the keyboard's.\<close>

fun drain :: "nat \<Rightarrow> (u8 \<times> u8) list \<Rightarrow> kbd \<times> ps \<Rightarrow> kbd \<times> ps" where
  "drain guard [] ks = ks"
| "drain guard ((status, sc) # pending) ks =
     (if status AND 0x21 = 0x01
      then let ks = handle_scancode sc ks
           in if guard + 1 > 64 then ks else drain (guard + 1) pending ks
      else ks)"

definition keyboard_callback :: "(u8 \<times> u8) list \<Rightarrow> kbd \<times> ps \<Rightarrow> kbd \<times> ps" where
  "keyboard_callback pending ks = drain 0 pending ks"

definition keyboard_init :: "kbd \<Rightarrow> kbd" where
  "keyboard_init k = k\<lparr>khead := 0, ktail := 0, shift_down := False, ctrl_down := False, alt_down := False,
     caps_lock := False, extended := False, shift_age := 0, ctrl_age := 0, alt_age := 0\<rparr>"

definition keyboard_reset_modifiers :: "kbd \<Rightarrow> kbd" where
  "keyboard_reset_modifiers k = k\<lparr>shift_down := False, ctrl_down := False, alt_down := False,
     extended := False, shift_age := 0, ctrl_age := 0, alt_age := 0\<rparr>"

definition keyboard_reset_all :: "kbd \<Rightarrow> kbd" where
  "keyboard_reset_all k = k\<lparr>shift_down := False, ctrl_down := False, alt_down := False, caps_lock := False,
     extended := False, shift_age := 0, ctrl_age := 0, alt_age := 0\<rparr>"

section \<open>Reading keys\<close>

definition keyboard_trygetchar :: "kbd \<Rightarrow> int \<times> kbd" where
  "keyboard_trygetchar k = buf_pop k"

definition keyboard_set_stdin_override :: "u8 list \<Rightarrow> u32 \<Rightarrow> kbd \<Rightarrow> kbd" where
  "keyboard_set_stdin_override buf len k =
     k\<lparr>stdin_override := Some buf, stdin_override_len := len, stdin_override_pos := 0\<rparr>"

definition keyboard_clear_stdin_override :: "kbd \<Rightarrow> kbd" where
  "keyboard_clear_stdin_override k =
     k\<lparr>stdin_override := None, stdin_override_len := 0, stdin_override_pos := 0\<rparr>"

definition override_char :: "kbd \<Rightarrow> (int \<times> kbd) option" where
  "override_char k =
     (case stdin_override k of
        Some buf \<Rightarrow> if stdin_override_pos k < stdin_override_len k
                    then Some (uint (buf ! unat (stdin_override_pos k)),
                               k\<lparr>stdin_override_pos := stdin_override_pos k + 1\<rparr>)
                    else None
      | None \<Rightarrow> None)"

type_synonym irqs = "(u8 \<times> u8) list list"

fun wait_key :: "irqs \<Rightarrow> kbd \<times> ps \<Rightarrow> (int \<times> irqs \<times> kbd \<times> ps) option" where
  "wait_key irqs (k, s) =
     (case buf_pop k of (key, k) \<Rightarrow>
        if key < 0 then (case irqs of [] \<Rightarrow> None | pending # irqs \<Rightarrow> wait_key irqs (keyboard_callback pending (k, s)))
        else Some (key, irqs, k, s))"

definition keyboard_getchar :: "irqs \<Rightarrow> kbd \<times> ps \<Rightarrow> (int \<times> irqs \<times> kbd \<times> ps) option" where
  "keyboard_getchar irqs ks =
     (case override_char (fst ks) of
        Some (c, k) \<Rightarrow> Some (c, irqs, k, snd ks)
      | None \<Rightarrow> wait_key irqs ks)"

definition keyboard_try_getchar :: "kbd \<Rightarrow> int \<times> kbd" where
  "keyboard_try_getchar k =
     (case override_char k of Some r \<Rightarrow> r | None \<Rightarrow> buf_pop k)"

text \<open>\<open>out\<close> collects the characters echoed on the screen.\<close>

partial_function (option) readline_loop ::
  "u32 \<Rightarrow> int \<Rightarrow> int \<Rightarrow> irqs \<Rightarrow> kbd \<times> ps \<Rightarrow> mem \<Rightarrow> u8 list \<Rightarrow> (int \<times> irqs \<times> (kbd \<times> ps) \<times> mem \<times> u8 list) option" where
  "readline_loop buffer max_len len irqs ks m out =
     Option.bind (keyboard_getchar irqs ks) (\<lambda>(key, irqs, ks).
       if key = 10 then Some (len, irqs, ks, m(unat (buffer + word_of_int len) := 0), out @ [10])
       else if key = 8
       then (if len > 0 then readline_loop buffer max_len (len - 1) irqs ks m (out @ [8])
             else readline_loop buffer max_len len irqs ks m out)
       else if key \<ge> 32 \<and> key < 127 \<and> len < max_len - 1
       then readline_loop buffer max_len (len + 1) irqs ks
              (m(unat (buffer + word_of_int len) := word_of_int key)) (out @ [word_of_int key])
       else readline_loop buffer max_len len irqs ks m out)"

definition keyboard_readline ::
  "u32 \<Rightarrow> int \<Rightarrow> irqs \<Rightarrow> kbd \<times> ps \<Rightarrow> mem \<Rightarrow> (int \<times> irqs \<times> (kbd \<times> ps) \<times> mem \<times> u8 list) option" where
  "keyboard_readline buffer max_len irqs ks m = readline_loop buffer max_len 0 irqs ks m []"

end
