(* ===== verification/Syscall.thy ===== *)
theory Syscall
  imports Users Pipe Keyboard Vmm
begin

text \<open>
  The system calls, \<^verbatim>\<open>cpu/syscall.c\<close>: the table of open files, the table of directory handles and
  the cases of \<^verbatim>\<open>syscall_handler\<close>, one definition per case, over the state of all the components
  they call. A case takes the arguments in \<^verbatim>\<open>ebx\<close>, \<^verbatim>\<open>ecx\<close>, \<^verbatim>\<open>edx\<close> and gives the value left in
  \<^verbatim>\<open>eax\<close> with the new state. The result \<open>None\<close> means that the kernel follows a dangling or null
  pointer, overruns a buffer of its own, or never leaves a loop.

  \<^verbatim>\<open>UCHECK_STR\<close> has no effect on control: its \<^verbatim>\<open>break\<close> only leaves the macro's own
  \<^verbatim>\<open>do ... while(0)\<close>, and the error it leaves in \<^verbatim>\<open>eax\<close> is overwritten on every path. The calls
  guarded by it alone read their string wherever it is.
\<close>

section \<open>State\<close>

abbreviation FD_MAX :: nat where "FD_MAX \<equiv> 64"
abbreviation DH_MAX :: nat where "DH_MAX \<equiv> 32"
abbreviation BRK_MAX_ADDR :: u32 where "BRK_MAX_ADDR \<equiv> 0x0E000000"
abbreviation O_WRONLY :: u32 where "O_WRONLY \<equiv> 1"
abbreviation O_RDWR :: u32 where "O_RDWR \<equiv> 2"
abbreviation O_CREAT :: u32 where "O_CREAT \<equiv> 0x40"
abbreviation O_TRUNC :: u32 where "O_TRUNC \<equiv> 0x200"
abbreviation O_APPEND :: u32 where "O_APPEND \<equiv> 0x400"
abbreviation FAIL :: u32 where "FAIL \<equiv> -1"
abbreviation EFAULT :: u32 where "EFAULT \<equiv> -14"
abbreviation SIGPIPE :: int where "SIGPIPE \<equiv> 13"
abbreviation SIGTERM :: int where "SIGTERM \<equiv> 15"

record kfd_t =
  kf_node :: "nat option"
  kf_pos :: u32
  kf_flags :: u32
  kf_used :: bool
  kf_owner_pid :: u32

text \<open>
  \<open>k_vga\<close> and \<open>k_serial\<close> list the characters handed to \<^verbatim>\<open>vga_putchar\<close> and
  \<^verbatim>\<open>serial_write_char\<close>; \<open>k_jmp\<close> is \<^verbatim>\<open>g_elf_jmp\<close> (armed or not, exit code); \<open>k_irqs\<close> the keyboard
  interrupts to come.
\<close>

record ksys =
  k_ac :: accounts
  k_ps :: ps
  k_kbd :: kbd
  k_irqs :: irqs
  k_pipes :: pipe_table
  k_vmm :: vmm
  k_mem :: mem
  k_fds :: "kfd_t list"
  k_dh :: "nat option list"
  k_dh_idx :: "u32 list"
  k_cwd :: "nat option"
  k_hostname :: string
  k_vga :: "u8 list"
  k_serial :: "u8 list"
  k_capture :: bool
  k_jmp :: "bool \<times> int"

definition elf_disarm_exit_jmp :: "ksys \<Rightarrow> ksys" where
  "elf_disarm_exit_jmp k = k\<lparr>k_jmp := (False, snd (k_jmp k))\<rparr>"

definition elf_get_exit_code :: "ksys \<Rightarrow> int" where
  "elf_get_exit_code k = snd (k_jmp k)"

section \<open>Access to the components\<close>

definition kfs :: "ksys \<Rightarrow> fs" where
  "kfs k = with_cred (k_ac k)"

definition put_fs :: "fs \<Rightarrow> ksys \<Rightarrow> ksys" where
  "put_fs s k = k\<lparr>k_ac := (k_ac k)\<lparr>ac_fs := s\<rparr>\<rparr>"

definition with_fs :: "('a \<times> fs) option \<Rightarrow> ksys \<Rightarrow> ('a \<times> ksys) option" where
  "with_fs r k = map_option (\<lambda>(x, s). (x, put_fs s k)) r"

text \<open>\<^verbatim>\<open>vfs_resolve(path, cwd_of_caller())\<close>, and the node behind a pointer.\<close>

definition kresolve :: "string \<Rightarrow> ksys \<Rightarrow> (nat option \<times> ksys) option" where
  "kresolve path k = with_fs (vfs_resolve path (k_cwd k) (kfs k)) k"

definition knode :: "nat \<Rightarrow> ksys \<Rightarrow> vnode option" where
  "knode i k = fs_nodes (ac_fs (k_ac k)) i"

definition upd_knode :: "nat \<Rightarrow> (vnode \<Rightarrow> vnode) \<Rightarrow> ksys \<Rightarrow> ksys" where
  "upd_knode i f k = put_fs (upd_node (Some i) f (kfs k)) k"

definition allowed :: "vnode \<Rightarrow> u32 \<Rightarrow> ksys \<Rightarrow> bool" where
  "allowed n mode k = vfs_check_access n mode (kfs k)"

definition kread :: "devices \<Rightarrow> nat \<Rightarrow> u32 \<Rightarrow> u32 \<Rightarrow> ksys \<Rightarrow> u32 \<times> u8 list" where
  "kread dev i off sz k = vfs_read (fst dev) i off sz (kfs k)"

definition kwrite :: "devices \<Rightarrow> nat \<Rightarrow> u32 \<Rightarrow> u8 list \<Rightarrow> ksys \<Rightarrow> (u32 \<times> ksys) option" where
  "kwrite dev i off buf k = with_fs (vfs_write (snd dev) i off buf (kfs k)) k"

definition ustr :: "u32 \<Rightarrow> ksys \<Rightarrow> string option" where
  "ustr p k = str_at p (k_mem k)"

text \<open>A string argument that may be a null pointer.\<close>

definition ustr_opt :: "u32 \<Rightarrow> ksys \<Rightarrow> string option option" where
  "ustr_opt p k = (if p = 0 then Some None else map_option Some (ustr p k))"

definition ustore :: "u32 \<Rightarrow> u8 list \<Rightarrow> ksys \<Rightarrow> ksys" where
  "ustore p bs k = k\<lparr>k_mem := store_bytes p bs (k_mem k)\<rparr>"

definition ustore32 :: "u32 \<Rightarrow> u32 \<Rightarrow> ksys \<Rightarrow> ksys" where
  "ustore32 p v k = k\<lparr>k_mem := store32 p v (k_mem k)\<rparr>"

definition ustore_name :: "u32 \<Rightarrow> int \<Rightarrow> string \<Rightarrow> ksys \<Rightarrow> ksys" where
  "ustore_name p n s k = k\<lparr>k_mem := store_name p n s (k_mem k)\<rparr>"

definition is_root_user :: "ksys \<Rightarrow> bool" where
  "is_root_user k = is_root (k_ac k)"

definition ok_or_fail :: "bool \<Rightarrow> u32" where
  "ok_or_fail b = (if b then 0 else FAIL)"

section \<open>The table of open files\<close>

definition current_pid :: "ksys \<Rightarrow> u32" where
  "current_pid k = (case current (k_ps k) of Some c \<Rightarrow> pid (processes (k_ps k) ! c) | None \<Rightarrow> 0)"

definition upd_fd :: "nat \<Rightarrow> (kfd_t \<Rightarrow> kfd_t) \<Rightarrow> ksys \<Rightarrow> ksys" where
  "upd_fd i f k = k\<lparr>k_fds := (k_fds k)[i := f (k_fds k ! i)]\<rparr>"

definition alloc_fd :: "ksys \<Rightarrow> nat option \<times> ksys" where
  "alloc_fd k =
     (case first_index (\<lambda>i. \<not> kf_used (k_fds k ! i)) 3 FD_MAX of
        None \<Rightarrow> (None, k)
      | Some i \<Rightarrow> (Some i, upd_fd i (\<lambda>d. d\<lparr>kf_owner_pid := current_pid k\<rparr>) k))"

text \<open>The descriptor in use that a signed number names, if any.\<close>

definition open_fd :: "int \<Rightarrow> ksys \<Rightarrow> nat option" where
  "open_fd fd k = (if fd < 3 \<or> fd \<ge> int FD_MAX \<or> \<not> kf_used (k_fds k ! nat fd) then None else Some (nat fd))"

definition clean_fd :: "u32 \<Rightarrow> nat \<Rightarrow> kfd_t \<Rightarrow> kfd_t" where
  "clean_fd p i d =
     (if 3 \<le> i \<and> kf_used d \<and> kf_owner_pid d = p then d\<lparr>kf_used := False, kf_node := None, kf_owner_pid := 0\<rparr> else d)"

fun close_pipes :: "int list \<Rightarrow> pipe_table \<Rightarrow> pipe_table option" where
  "close_pipes [] t = Some t"
| "close_pipes (fd # fds) t =
     (if pipe_is_pipe fd t then Option.bind (pipe_close fd t) (close_pipes fds) else close_pipes fds t)"

definition fd_cleanup_process :: "u32 \<Rightarrow> ksys \<Rightarrow> ksys option" where
  "fd_cleanup_process p k =
     (let k = k\<lparr>k_fds := map (\<lambda>(i, d). clean_fd p i d) (enumerate 0 (k_fds k))\<rparr>
      in map_option (\<lambda>t. k\<lparr>k_pipes := t\<rparr>) (close_pipes [100..131] (k_pipes k)))"

section \<open>The process side\<close>

text \<open>
  What a process operation asks of other components: its trace of effects is carried out on
  them.
\<close>

fun perform :: "effect list \<Rightarrow> ksys \<Rightarrow> ksys option" where
  "perform [] k = Some k"
| "perform (Close_fds p # es) k = Option.bind (fd_cleanup_process p k) (perform es)"
| "perform (Free_space pd # es) k = perform es (k\<lparr>k_vmm := vmm_free_address_space pd (k_vmm k)\<rparr>)"
| "perform (_ # es) k = perform es k"

definition run_ps :: "(ps \<Rightarrow> 'a \<times> ps) \<Rightarrow> ksys \<Rightarrow> ('a \<times> ksys) option" where
  "run_ps f k =
     (case f (k_ps k) of (r, s) \<Rightarrow>
        map_option (Pair r) (perform (drop (length (ps_trace (k_ps k))) (ps_trace s)) (k\<lparr>k_ps := s\<rparr>)))"

text \<open>What the handler hands back to the assembly stub.\<close>

datatype outcome =
    Resume u32         \<comment> \<open>the value in \<^verbatim>\<open>eax\<close>\<close>
  | Unwound int        \<comment> \<open>\<^verbatim>\<open>elf_jmp_longjmp\<close> with this exit code\<close>
  | Suspended          \<comment> \<open>switched out: inside a pipe transfer, or for good\<close>

text \<open>\<^verbatim>\<open>schedule()\<close> at the end of a process: it comes back only when nothing else can run.\<close>

definition leave_cpu :: "u32 \<Rightarrow> ksys \<Rightarrow> outcome \<times> ksys" where
  "leave_cpu eax k =
     (let s = schedule (k_ps k)
      in (if current s = current (k_ps k) then Resume eax else Suspended, k\<lparr>k_ps := s\<rparr>))"

definition sys_exit :: "u32 \<Rightarrow> u32 \<Rightarrow> ksys \<Rightarrow> (outcome \<times> ksys) option" where
  "sys_exit eax a1 k =
     do {
       (_, k) \<leftarrow> run_ps (\<lambda>s. ((), process_exit (sint a1) s)) k;
       if fst (k_jmp k) then Some (Unwound (sint a1), k\<lparr>k_jmp := (False, sint a1)\<rparr>)
       else Some (leave_cpu eax k)
     }"

definition usermode_fault_kill :: "int \<Rightarrow> ksys \<Rightarrow> (outcome \<times> ksys) option" where
  "usermode_fault_kill signal_code k =
     do {
       (_, k) \<leftarrow> run_ps (\<lambda>s. ((), process_exit signal_code s)) k;
       if fst (k_jmp k) then Some (Unwound signal_code, k\<lparr>k_jmp := (False, signal_code)\<rparr>)
       else Some (leave_cpu 1 k)
     }"

definition sys_getpid :: "ksys \<Rightarrow> (u32 \<times> ksys) option" where
  "sys_getpid k =
     (case current (k_ps k) of None \<Rightarrow> None | Some c \<Rightarrow> Some (pid (processes (k_ps k) ! c), k))"

text \<open>\<open>yield\<close>: what happens from the call of \<^verbatim>\<open>schedule()\<close> until the caller runs again.\<close>

definition sys_yield :: "(ps \<Rightarrow> ps) \<Rightarrow> ksys \<Rightarrow> (u32 \<times> ksys) option" where
  "sys_yield yield k = Some (0, k\<lparr>k_ps := yield (k_ps k)\<rparr>)"

definition sys_uptime :: "ksys \<Rightarrow> (u32 \<times> ksys) option" where
  "sys_uptime k = Some (fs_uptime (ac_fs (k_ac k)), k)"

definition sys_getppid :: "ksys \<Rightarrow> (u32 \<times> ksys) option" where
  "sys_getppid k =
     Some (case current (k_ps k) of None \<Rightarrow> 0 | Some c \<Rightarrow> parent_pid (processes (k_ps k) ! c), k)"

definition sys_signal :: "u32 \<Rightarrow> u32 \<Rightarrow> ksys \<Rightarrow> (u32 \<times> ksys) option" where
  "sys_signal a1 a2 k = (case process_sigaction (sint a1) a2 (k_ps k) of (old, s) \<Rightarrow> Some (old, k\<lparr>k_ps := s\<rparr>))"

definition sys_kill :: "u32 \<Rightarrow> u32 \<Rightarrow> ksys \<Rightarrow> (u32 \<times> ksys) option" where
  "sys_kill a1 a2 k =
     (let sig = sint a2
      in if \<not> is_root_user k then Some (FAIL, k)
         else if sig = 0 then Some (ok_or_fail (process_get a1 (k_ps k) \<noteq> None), k)
         else if sig = SIGKILL \<or> sig = SIGTERM
         then (case process_kill a1 (k_ps k) of (r, s) \<Rightarrow> Some (ok_or_fail (r \<ge> 0), k\<lparr>k_ps := s\<rparr>))
         else (case process_signal a1 sig (k_ps k) of (r, s) \<Rightarrow> Some (ok_or_fail (r \<ge> 0), k\<lparr>k_ps := s\<rparr>)))"

definition sys_renice :: "u32 \<Rightarrow> u32 \<Rightarrow> ksys \<Rightarrow> (u32 \<times> ksys) option" where
  "sys_renice a1 a2 k =
     (case process_set_priority (is_root_user k) a1 (sint a2) (k_ps k) of
        (r, s) \<Rightarrow> Some (ok_or_fail (r \<ge> 0), k\<lparr>k_ps := s\<rparr>))"

text \<open>\<open>yield\<close> and \<open>fuel\<close> are those of \<open>process_waitpid\<close>.\<close>

definition sys_waitpid :: "(ps \<Rightarrow> ps) \<Rightarrow> nat \<Rightarrow> u32 \<Rightarrow> u32 \<Rightarrow> u32 \<Rightarrow> ksys \<Rightarrow> (u32 \<times> ksys) option" where
  "sys_waitpid yield fuel a1 a2 a3 k =
     (if a2 \<noteq> 0 \<and> \<not> uaccess_ok a2 4 then Some (EFAULT, k)
      else map_option
             (\<lambda>(r, st, s). let k = k\<lparr>k_ps := s\<rparr>
                           in (word_of_int r,
                               case st of Some c \<Rightarrow> if a2 \<noteq> 0 then ustore32 a2 (word_of_int c) k else k | None \<Rightarrow> k))
             (process_waitpid yield fuel (sint a1) (a3 AND 1 \<noteq> 0) (k_ps k)))"

partial_function (option) brk_loop :: "u32 \<Rightarrow> u32 \<Rightarrow> u32 \<Rightarrow> vmm \<Rightarrow> vmm option" where
  "brk_loop pd pg end_pg v =
     (if pg < end_pg
      then brk_loop pd (pg + 0x1000) end_pg (vmm_map_page_in pd pg pg (PAGE_PRESENT OR PAGE_RW OR PAGE_USER) v)
      else Some v)"

definition sys_brk :: "u32 \<Rightarrow> ksys \<Rightarrow> (u32 \<times> ksys) option" where
  "sys_brk a1 k =
     (case current (k_ps k) of
        None \<Rightarrow> Some (0, k)
      | Some c \<Rightarrow>
          (let p = processes (k_ps k) ! c
           in if page_dir p = 0 then Some (0, k)
              else if heap_start p = 0 then Some (0, k)
              else if a1 = 0 then Some (heap_brk p, k)
              else if a1 < heap_start p \<or> a1 \<ge> BRK_MAX_ADDR then Some (0, k)
              else let old_brk = heap_brk p
                   in do {
                        v \<leftarrow> (if a1 > old_brk
                             then brk_loop (page_dir p) ((old_brk + 0xFFF) AND NOT 0xFFF) ((a1 + 0xFFF) AND NOT 0xFFF) (k_vmm k)
                             else Some (k_vmm k));
                        Some (old_brk, k\<lparr>k_vmm := v, k_ps := upd_proc c (\<lambda>p. p\<lparr>heap_brk := a1\<rparr>) (k_ps k)\<rparr>)
                      }))"

end
