(* ===== verification/Syscall_Files.thy ===== *)
theory Syscall_Files
  imports Syscall
begin

text \<open>
  The cases of \<^verbatim>\<open>syscall_handler\<close> that work on files, directories and open descriptors. Structures
  in user memory are written field by field at the offsets of their i386 layout.
\<close>

section \<open>Whole files\<close>

definition sys_write :: "u32 \<Rightarrow> u32 \<Rightarrow> ksys \<Rightarrow> (u32 \<times> ksys) option" where
  "sys_write a2 a3 k =
     (if a3 > 0 \<and> \<not> uaccess_ok a2 a3 then Some (EFAULT, k)
      else let bs = load_bytes a2 (unat a3) (k_mem k)
           in Some (a3, k\<lparr>k_vga := k_vga k @ bs, k_serial := k_serial k @ (if k_capture k then [] else bs)\<rparr>))"

definition sys_readfile :: "devices \<Rightarrow> u32 \<Rightarrow> u32 \<Rightarrow> u32 \<Rightarrow> ksys \<Rightarrow> (u32 \<times> ksys) option" where
  "sys_readfile dev a1 a2 a3 k =
     (if uaccess_strnlen a1 512 (k_mem k) < 0 then Some (EFAULT, k)
      else if a3 > 0 \<and> \<not> uaccess_ok a2 a3 then Some (EFAULT, k)
      else do {
        path \<leftarrow> ustr a1 k;
        (n, k) \<leftarrow> kresolve path k;
        case n of
          None \<Rightarrow> Some (FAIL, k)
        | Some i \<Rightarrow>
            do {
              v \<leftarrow> knode i k;
              if n_type v \<noteq> VFS_FILE then Some (FAIL, k)
              else if \<not> allowed v ACC_READ k then Some (FAIL, k)
              else let want = (if n_size v < a3 then n_size v else a3)
                   in case kread dev i 0 want k of (got, bs) \<Rightarrow> Some (got, ustore a2 bs k)
            }
      })"

definition sys_writefile :: "devices \<Rightarrow> u32 \<Rightarrow> u32 \<Rightarrow> u32 \<Rightarrow> ksys \<Rightarrow> (u32 \<times> ksys) option" where
  "sys_writefile dev a1 a2 a3 k =
     (if uaccess_strnlen a1 512 (k_mem k) < 0 then Some (EFAULT, k)
      else if a3 > 0 \<and> \<not> uaccess_ok a2 a3 then Some (EFAULT, k)
      else do {
        path \<leftarrow> ustr a1 k;
        (n, k) \<leftarrow> with_fs (vfs_create path (k_cwd k) (kfs k)) k;
        case n of
          None \<Rightarrow> Some (FAIL, k)
        | Some i \<Rightarrow> kwrite dev i 0 (load_bytes a2 (unat a3) (k_mem k)) (upd_knode i (\<lambda>v. v\<lparr>n_size := 0\<rparr>) k)
      })"

section \<open>Directories and names\<close>

definition sys_getcwd :: "u32 \<Rightarrow> u32 \<Rightarrow> ksys \<Rightarrow> (u32 \<times> ksys) option" where
  "sys_getcwd a1 a2 k =
     (let max = sint a2
      in if max \<le> 0 then Some (0, k)
         else if \<not> uaccess_ok a1 a2 then Some (EFAULT, k)
         else do {
           tmp \<leftarrow> vfs_get_path (k_cwd k) (kfs k);
           Some (of_nat (min (length tmp) (nat (max - 1))), ustore_name a1 (max - 1) tmp k)
         })"

definition sys_chdir :: "u32 \<Rightarrow> ksys \<Rightarrow> (u32 \<times> ksys) option" where
  "sys_chdir a1 k =
     (if uaccess_strnlen a1 512 (k_mem k) < 0 then Some (FAIL, k)
      else do {
        path \<leftarrow> ustr a1 k;
        (n, k) \<leftarrow> kresolve path k;
        case n of
          None \<Rightarrow> Some (FAIL, k)
        | Some i \<Rightarrow> do { v \<leftarrow> knode i k;
                        if n_type v \<noteq> VFS_DIRECTORY then Some (FAIL, k) else Some (0, k\<lparr>k_cwd := Some i\<rparr>) }
      })"

definition sys_mkdir :: "u32 \<Rightarrow> ksys \<Rightarrow> (u32 \<times> ksys) option" where
  "sys_mkdir a1 k =
     do {
       path \<leftarrow> ustr a1 k;
       (n, k) \<leftarrow> with_fs (vfs_mkdir path (k_cwd k) (kfs k)) k;
       Some (ok_or_fail (n \<noteq> None), k)
     }"

definition sys_unlink :: "u32 \<Rightarrow> ksys \<Rightarrow> (u32 \<times> ksys) option" where
  "sys_unlink a1 k =
     do {
       path \<leftarrow> ustr a1 k;
       (r, k) \<leftarrow> with_fs (vfs_delete path (k_cwd k) (kfs k)) k;
       Some (ok_or_fail (r \<ge> 0), k)
     }"

definition sys_rmdir :: "u32 \<Rightarrow> ksys \<Rightarrow> (u32 \<times> ksys) option" where
  "sys_rmdir a1 k =
     do {
       path \<leftarrow> ustr a1 k;
       (n, k) \<leftarrow> kresolve path k;
       case n of
         None \<Rightarrow> Some (FAIL, k)
       | Some i \<Rightarrow>
           do {
             v \<leftarrow> knode i k;
             if n_type v \<noteq> VFS_DIRECTORY then Some (FAIL, k)
             else if n_children v \<noteq> [] then Some (FAIL, k)
             else do {
               (r, k) \<leftarrow> with_fs (vfs_delete path (k_cwd k) (kfs k)) k;
               Some (ok_or_fail (r \<ge> 0), k)
             }
           }
     }"

text \<open>
  The copy is made through a kernel buffer of \<^verbatim>\<open>size + 1\<close> bytes, whose allocation may fail. The
  source is deleted whatever the copy achieved.
\<close>

definition sys_rename :: "devices \<Rightarrow> u32 \<Rightarrow> u32 \<Rightarrow> ksys \<Rightarrow> (u32 \<times> ksys) option" where
  "sys_rename dev a1 a2 k =
     do {
       src \<leftarrow> ustr a1 k;
       (sn, k) \<leftarrow> kresolve src k;
       case sn of
         None \<Rightarrow> Some (FAIL, k)
       | Some i \<Rightarrow>
           do {
             v \<leftarrow> knode i k;
             if \<not> allowed v ACC_READ k then Some (FAIL, k)
             else if n_type v \<noteq> VFS_FILE then Some (FAIL, k)
             else case kalloc (kfs k) of
                    (ok, s) \<Rightarrow>
                      let k = put_fs s k
                      in if \<not> ok then Some (FAIL, k)
                         else case kread dev i 0 (n_size v) k of
                                (got, bs) \<Rightarrow>
                                  do {
                                    dst \<leftarrow> ustr a2 k;
                                    (dn, k) \<leftarrow> with_fs (vfs_create dst (k_cwd k) (kfs k)) k;
                                    case dn of
                                      None \<Rightarrow> Some (FAIL, k)
                                    | Some j \<Rightarrow>
                                        do {
                                          (_, k) \<leftarrow> kwrite dev j 0 (take (unat got) bs) (upd_knode j (\<lambda>v. v\<lparr>n_size := 0\<rparr>) k);
                                          (_, k) \<leftarrow> with_fs (vfs_delete src (k_cwd k) (kfs k)) k;
                                          Some (0, k)
                                        }
                                  }
           }
     }"

definition sys_opendir :: "u32 \<Rightarrow> ksys \<Rightarrow> (u32 \<times> ksys) option" where
  "sys_opendir a1 k =
     do {
       path \<leftarrow> ustr a1 k;
       (n, k) \<leftarrow> kresolve path k;
       case n of
         None \<Rightarrow> Some (FAIL, k)
       | Some i \<Rightarrow>
           do {
             v \<leftarrow> knode i k;
             if n_type v \<noteq> VFS_DIRECTORY then Some (FAIL, k)
             else if \<not> allowed v ACC_READ k then Some (FAIL, k)
             else case first_index (\<lambda>j. k_dh k ! j = None) 1 DH_MAX of
                    None \<Rightarrow> Some (FAIL, k)
                  | Some j \<Rightarrow> Some (of_nat j, k\<lparr>k_dh := (k_dh k)[j := Some i], k_dh_idx := (k_dh_idx k)[j := 0]\<rparr>)
           }
     }"

definition sys_readdir :: "u32 \<Rightarrow> u32 \<Rightarrow> ksys \<Rightarrow> (u32 \<times> ksys) option" where
  "sys_readdir a1 a2 k =
     (let dh = sint a1
      in if \<not> uaccess_ok a2 68 then Some (EFAULT, k)
         else if dh \<le> 0 \<or> dh \<ge> int DH_MAX \<or> k_dh k ! nat dh = None then Some (FAIL, k)
         else do {
           i \<leftarrow> k_dh k ! nat dh;
           v \<leftarrow> knode i k;
           case ramfs_readdir v (unat (k_dh_idx k ! nat dh)) of
             None \<Rightarrow> Some (FAIL, k)
           | Some c \<Rightarrow>
               do {
                 cv \<leftarrow> knode c k;
                 let k = k\<lparr>k_dh_idx := (k_dh_idx k)[nat dh := k_dh_idx k ! nat dh + 1]\<rparr>;
                 let k = ustore_name a2 63 (n_name cv) k;
                 Some (0, ustore32 (a2 + 64) (n_type cv) k)
               }
         })"

definition sys_closedir :: "u32 \<Rightarrow> ksys \<Rightarrow> (u32 \<times> ksys) option" where
  "sys_closedir a1 k =
     (let dh = sint a1
      in Some (0, if dh > 0 \<and> dh < int DH_MAX
                  then k\<lparr>k_dh := (k_dh k)[nat dh := None], k_dh_idx := (k_dh_idx k)[nat dh := 0]\<rparr> else k))"

definition sys_stat :: "u32 \<Rightarrow> u32 \<Rightarrow> ksys \<Rightarrow> (u32 \<times> ksys) option" where
  "sys_stat a1 a2 k =
     (if \<not> uaccess_ok a2 84 then Some (EFAULT, k)
      else do {
        path \<leftarrow> ustr a1 k;
        (n, k) \<leftarrow> kresolve path k;
        case n of
          None \<Rightarrow> Some (FAIL, k)
        | Some i \<Rightarrow>
            do {
              v \<leftarrow> knode i k;
              let k = ustore_name a2 63 (n_name v) k;
              let k = ustore32 (a2 + 64) (n_size v) k;
              let k = ustore32 (a2 + 68) (n_type v) k;
              let k = ustore32 (a2 + 72) (n_permissions v) k;
              let k = ustore32 (a2 + 76) (n_owner_uid v) k;
              Some (0, ustore32 (a2 + 80) (n_owner_gid v) k)
            }
      })"

definition sys_resolve :: "u32 \<Rightarrow> u32 \<Rightarrow> u32 \<Rightarrow> ksys \<Rightarrow> (u32 \<times> ksys) option" where
  "sys_resolve a1 a2 a3 k =
     (let max = sint a3
      in if a2 = 0 \<or> max \<le> 0 then Some (FAIL, k)
         else if \<not> uaccess_ok a2 a3 then Some (EFAULT, k)
         else do {
           path \<leftarrow> ustr a1 k;
           (n, k) \<leftarrow> kresolve path k;
           case n of
             None \<Rightarrow> Some (FAIL, k)
           | Some i \<Rightarrow>
               do {
                 tmp \<leftarrow> vfs_get_path (Some i) (kfs k);
                 Some (of_nat (min (length tmp) (nat (max - 1))), ustore_name a2 (max - 1) tmp k)
               }
         })"

definition sys_chmod :: "u32 \<Rightarrow> u32 \<Rightarrow> ksys \<Rightarrow> (u32 \<times> ksys) option" where
  "sys_chmod a1 a2 k =
     do {
       path \<leftarrow> ustr a1 k;
       (r, k) \<leftarrow> with_fs (vfs_chmod path (k_cwd k) a2 (kfs k)) k;
       Some (ok_or_fail (r \<ge> 0), k)
     }"

definition sys_chown :: "u32 \<Rightarrow> u32 \<Rightarrow> u32 \<Rightarrow> ksys \<Rightarrow> (u32 \<times> ksys) option" where
  "sys_chown a1 a2 a3 k =
     (if \<not> is_root_user k then Some (FAIL, k)
      else do {
        path \<leftarrow> ustr a1 k;
        (r, k) \<leftarrow> with_fs (vfs_chown path (k_cwd k) a2 a3 (kfs k)) k;
        Some (ok_or_fail (r \<ge> 0), k)
      })"

section \<open>Open descriptors\<close>

definition sys_file_open :: "u32 \<Rightarrow> u32 \<Rightarrow> ksys \<Rightarrow> (u32 \<times> ksys) option" where
  "sys_file_open a1 a2 k =
     do {
       path \<leftarrow> ustr a1 k;
       (n, k) \<leftarrow> kresolve path k;
       (n, k) \<leftarrow> (if n = None \<and> a2 AND O_CREAT \<noteq> 0
                  then with_fs (vfs_create path (k_cwd k) (kfs k)) k else Some (n, k));
       case n of
         None \<Rightarrow> Some (FAIL, k)
       | Some i \<Rightarrow>
           do {
             v \<leftarrow> knode i k;
             let acc_mode = a2 AND 3;
             if acc_mode = 0 \<and> \<not> allowed v ACC_READ k then Some (FAIL, k)
             else if (acc_mode = O_WRONLY \<or> acc_mode = O_RDWR) \<and> \<not> allowed v ACC_WRITE k then Some (FAIL, k)
             else case alloc_fd k of
                    (None, k) \<Rightarrow> Some (FAIL, k)
                  | (Some fd, k) \<Rightarrow>
                      let k = upd_fd fd (\<lambda>d. d\<lparr>kf_node := Some i,
                                kf_pos := (if a2 AND O_APPEND \<noteq> 0 then n_size v else 0)\<rparr>) k;
                          k = (if a2 AND O_TRUNC \<noteq> 0 then upd_knode i (\<lambda>v. v\<lparr>n_size := 0\<rparr>) k else k)
                      in Some (of_nat fd, upd_fd fd (\<lambda>d. d\<lparr>kf_flags := a2, kf_used := True\<rparr>) k)
           }
     }"

definition io_eax :: "io_outcome \<Rightarrow> outcome" where
  "io_eax r = (case r of Io_done n bs \<Rightarrow> Resume (word_of_int n) | Io_blocked bs \<Rightarrow> Suspended)"

definition sys_file_read :: "devices \<Rightarrow> u32 \<Rightarrow> u32 \<Rightarrow> u32 \<Rightarrow> ksys \<Rightarrow> (outcome \<times> ksys) option" where
  "sys_file_read dev a1 a2 a3 k =
     (let fd = sint a1
      in if fd = 0
         then (if \<not> uaccess_ok a2 a3 then Some (Resume EFAULT, k)
               else map_option
                      (\<lambda>(n, irqs, (kbd, s), m, out).
                         (Resume (word_of_int n),
                          k\<lparr>k_irqs := irqs, k_kbd := kbd, k_ps := s, k_mem := m, k_vga := k_vga k @ out\<rparr>))
                      (keyboard_readline a2 (sint a3) (k_irqs k) (k_kbd k, k_ps k) (k_mem k)))
         else if pipe_is_pipe fd (k_pipes k)
         then (if \<not> uaccess_ok a2 a3 then Some (Resume EFAULT, k)
               else map_option
                      (\<lambda>(r, t). (io_eax r,
                         ustore a2 (case r of Io_done n bs \<Rightarrow> bs | Io_blocked bs \<Rightarrow> bs) (k\<lparr>k_pipes := t\<rparr>)))
                      (pipe_read fd (unat a3) (k_pipes k)))
         else case open_fd fd k of
                None \<Rightarrow> Some (Resume FAIL, k)
              | Some d \<Rightarrow>
                  do {
                    i \<leftarrow> kf_node (k_fds k ! d);
                    v \<leftarrow> knode i k;
                    let pos = kf_pos (k_fds k ! d);
                    if pos \<ge> n_size v then Some (Resume 0, k)
                    else if \<not> uaccess_ok a2 a3 then Some (Resume EFAULT, k)
                    else let want = (if pos + a3 > n_size v then n_size v - pos else a3)
                         in case kread dev i pos want k of
                              (got, bs) \<Rightarrow> Some (Resume got, upd_fd d (\<lambda>d. d\<lparr>kf_pos := kf_pos d + got\<rparr>) (ustore a2 bs k))
                  })"

definition raise_sigpipe :: "ksys \<Rightarrow> ksys" where
  "raise_sigpipe k =
     (case current (k_ps k) of
        None \<Rightarrow> k
      | Some c \<Rightarrow> k\<lparr>k_ps := upd_proc c (\<lambda>p. p\<lparr>signal_pending := SIGPIPE\<rparr>) (k_ps k)\<rparr>)"

definition sys_file_write :: "devices \<Rightarrow> u32 \<Rightarrow> u32 \<Rightarrow> u32 \<Rightarrow> ksys \<Rightarrow> (outcome \<times> ksys) option" where
  "sys_file_write dev a1 a2 a3 k =
     (let fd = sint a1
      in if a3 > 0 \<and> \<not> uaccess_ok a2 a3 then Some (Resume EFAULT, k)
         else let bs = load_bytes a2 (unat a3) (k_mem k)
              in if fd = 1 \<or> fd = 2
                 then Some (Resume a3, k\<lparr>k_vga := k_vga k @ bs, k_serial := k_serial k @ bs\<rparr>)
                 else if pipe_is_pipe fd (k_pipes k)
                 then map_option
                        (\<lambda>(r, t). let k = k\<lparr>k_pipes := t\<rparr>
                                  in (io_eax r, case r of Io_done n bs \<Rightarrow> if n < 0 then raise_sigpipe k else k | Io_blocked bs \<Rightarrow> k))
                        (pipe_write fd bs (k_pipes k))
                 else case open_fd fd k of
                        None \<Rightarrow> Some (Resume FAIL, k)
                      | Some d \<Rightarrow>
                          do {
                            i \<leftarrow> kf_node (k_fds k ! d);
                            v \<leftarrow> knode i k;
                            (wrote, k) \<leftarrow> kwrite dev i (kf_pos (k_fds k ! d)) bs k;
                            Some (Resume wrote, upd_fd d (\<lambda>d. d\<lparr>kf_pos := kf_pos d + wrote\<rparr>) k)
                          })"

definition sys_file_close :: "u32 \<Rightarrow> ksys \<Rightarrow> (u32 \<times> ksys) option" where
  "sys_file_close a1 k =
     (let fd = sint a1
      in if pipe_is_pipe fd (k_pipes k)
         then map_option (\<lambda>t. (0, k\<lparr>k_pipes := t\<rparr>)) (pipe_close fd (k_pipes k))
         else Some (0, if fd \<ge> 3 \<and> fd < int FD_MAX then upd_fd (nat fd) (\<lambda>d. d\<lparr>kf_used := False\<rparr>) k else k))"

definition sys_file_seek :: "u32 \<Rightarrow> u32 \<Rightarrow> u32 \<Rightarrow> ksys \<Rightarrow> (u32 \<times> ksys) option" where
  "sys_file_seek a1 a2 a3 k =
     (case open_fd (sint a1) k of
        None \<Rightarrow> Some (FAIL, k)
      | Some d \<Rightarrow>
          do {
            let pos = kf_pos (k_fds k ! d);
            newpos \<leftarrow> (if a3 = 0 then Some a2
                      else if a3 = 1 then Some (pos + a2)
                      else if a3 = 2
                      then do { i \<leftarrow> kf_node (k_fds k ! d); v \<leftarrow> knode i k; Some (n_size v + a2) }
                      else Some pos);
            Some (newpos, upd_fd d (\<lambda>d. d\<lparr>kf_pos := newpos\<rparr>) k)
          })"

definition sys_pipe :: "u32 \<Rightarrow> ksys \<Rightarrow> (u32 \<times> ksys) option" where
  "sys_pipe a2 k =
     (if \<not> uaccess_ok a2 8 then Some (EFAULT, k)
      else case pipe_create (k_pipes k) of
             (r, fds, t) \<Rightarrow>
               Some (word_of_int r,
                     let k = k\<lparr>k_pipes := t\<rparr>
                     in case fds of None \<Rightarrow> k
                        | Some (rd, wr) \<Rightarrow> ustore32 (a2 + 4) (word_of_int wr) (ustore32 a2 (word_of_int rd) k)))"

definition sys_pipe_close :: "u32 \<Rightarrow> ksys \<Rightarrow> (u32 \<times> ksys) option" where
  "sys_pipe_close a1 k = map_option (\<lambda>t. (0, k\<lparr>k_pipes := t\<rparr>)) (pipe_close (sint a1) (k_pipes k))"

end
