(* ===== verification/Syscall_Walk.thy ===== *)
theory Syscall_Walk
  imports Syscall_Files
begin

text \<open>
  The two calls that walk a whole tree with an explicit stack of 256 entries, \<^verbatim>\<open>SYS_VFS_FIND\<close> and
  \<^verbatim>\<open>SYS_VFS_TREE\<close>. The head of a list is the top of the stack.
\<close>

section \<open>Find\<close>

definition name_contains :: "string \<Rightarrow> string \<Rightarrow> bool" where
  "name_contains name needle \<longleftrightarrow>
     list_ex (\<lambda>i. take (length needle) (drop i name) = needle) [0..<length name]"

text \<open>The path of a child: at most 200 characters of the parent's, a slash, and the name up to 255 in all.\<close>

definition find_child_path :: "string \<Rightarrow> string \<Rightarrow> string" where
  "find_child_path cur name =
     (let b = take 200 cur;
          b = (if b = [] \<or> last b \<noteq> SLASH then b @ [SLASH] else b)
      in b @ take (255 - length b) name)"

fun push_children :: "nat list \<Rightarrow> string \<Rightarrow> fs \<Rightarrow> (nat \<times> string) list \<Rightarrow> (nat \<times> string) list option" where
  "push_children [] cur s stk = Some stk"
| "push_children (c # cs) cur s stk =
     (if length stk < 256
      then Option.bind (fs_nodes s c) (\<lambda>v. push_children cs cur s ((c, find_child_path cur (n_name v)) # stk))
      else Some stk)"

definition dir_children :: "vnode \<Rightarrow> nat list" where
  "dir_children n = (if n_type n = VFS_DIRECTORY then n_children n else [])"

text \<open>A path is stored byte by byte, \<^verbatim>\<open>r->out_paths\<close> read anew for each; \<open>off\<close> counts from the first slot.\<close>

fun store_path :: "u32 \<Rightarrow> nat \<Rightarrow> u8 list \<Rightarrow> ksys \<Rightarrow> ksys" where
  "store_path r off [] k = ustore (load32 (r + 16) (k_mem k) + of_nat off) [0] k"
| "store_path r off (b # bs) k = store_path r (off + 1) bs (ustore (load32 (r + 16) (k_mem k) + of_nat off) [b] k)"

text \<open>
  \<^verbatim>\<open>r->max\<close> is read anew in every round; the pointer \<open>needle\<close> is read once, the
  string behind it in every round.
\<close>

partial_function (option) find_loop :: "u32 \<Rightarrow> u32 \<Rightarrow> (nat \<times> string) list \<Rightarrow> nat \<Rightarrow> ksys \<Rightarrow> (nat \<times> ksys) option" where
  "find_loop r needle stk got k =
     (if stk \<noteq> [] \<and> int got < sint (load32 (r + 8) (k_mem k))
      then do {
        n \<leftarrow> knode (fst (hd stk)) k;
        sub \<leftarrow> ustr_opt needle k;
        let cur = snd (hd stk);
        let hit = (case sub of None \<Rightarrow> True | Some w \<Rightarrow> name_contains (n_name n) w);
        let k' = (if hit then store_path r (256 * got) (string_bytes (take 255 cur)) k else k);
        stk' \<leftarrow> push_children (dir_children n) cur (kfs k) (tl stk);
        find_loop r needle stk' (if hit then got + 1 else got) k'
      }
      else Some (got, k))"

definition sys_vfs_find :: "u32 \<Rightarrow> ksys \<Rightarrow> (u32 \<times> ksys) option" where
  "sys_vfs_find a1 k =
     (if \<not> uaccess_ok a1 20 then Some (0, k)
      else if load32 (a1 + 16) (k_mem k) = 0 \<or> sint (load32 (a1 + 8) (k_mem k)) \<le> 0 then Some (0, k)
      else do {
        path \<leftarrow> ustr_opt (load32 a1 (k_mem k)) k;
        (root, k) \<leftarrow> kresolve (case path of Some p \<Rightarrow> p | None \<Rightarrow> ''/'') k;
        case root of
          None \<Rightarrow> Some (0, ustore32 (a1 + 12) 0 k)
        | Some i \<Rightarrow>
            do {
              rp \<leftarrow> vfs_get_path (Some i) (kfs k);
              (got, k) \<leftarrow> find_loop a1 (load32 (a1 + 4) (k_mem k)) [(i, take 255 rp)] 0 k;
              Some (of_nat got, ustore32 (a1 + 12) (of_nat got) k)
            }
      })"

section \<open>Tree\<close>

definition tree_line :: "nat \<Rightarrow> vnode \<Rightarrow> u8 list" where
  "tree_line d n =
     replicate (2 * d) 32 @ string_bytes (n_name n) @ (if n_type n = VFS_DIRECTORY then [47] else []) @ [10]"

text \<open>The children go onto the stack from the last to the first, while there is room.\<close>

definition push_level :: "nat list \<Rightarrow> nat \<Rightarrow> (nat \<times> nat) list \<Rightarrow> (nat \<times> nat) list" where
  "push_level cs d stk = fold (\<lambda>c stk. if length stk < 256 then (c, d) # stk else stk) (rev cs) stk"

partial_function (option) tree_loop :: "nat \<Rightarrow> fs \<Rightarrow> (nat \<times> nat) list \<Rightarrow> u8 list \<Rightarrow> u8 list option" where
  "tree_loop max_d s stk out =
     (case stk of
        [] \<Rightarrow> Some out
      | (i, d) # stk \<Rightarrow>
          Option.bind (fs_nodes s i) (\<lambda>n.
            tree_loop max_d s
              (if n_type n = VFS_DIRECTORY \<and> d < max_d then push_level (n_children n) (d + 1) stk else stk)
              (out @ tree_line d n)))"

definition sys_vfs_tree :: "u32 \<Rightarrow> ksys \<Rightarrow> (u32 \<times> ksys) option" where
  "sys_vfs_tree a1 k =
     (if \<not> uaccess_ok a1 8 then Some (EFAULT, k)
      else do {
        path \<leftarrow> ustr_opt (load32 a1 (k_mem k)) k;
        (root, k) \<leftarrow> kresolve (case path of Some p \<Rightarrow> p | None \<Rightarrow> ''/'') k;
        case root of
          None \<Rightarrow> Some (FAIL, k)
        | Some i \<Rightarrow>
            do {
              let depth = sint (load32 (a1 + 4) (k_mem k));
              out \<leftarrow> tree_loop (nat (if depth > 0 then depth else 32)) (kfs k) [(i, 0)] [];
              Some (0, k\<lparr>k_vga := k_vga k @ out\<rparr>)
            }
      })"

end
