(* ===== verification/Syscall_Handler.thy ===== *)
theory Syscall_Handler
  imports Syscall_Walk
begin

text \<open>
  The remaining cases of \<^verbatim>\<open>syscall_handler\<close> (accounts, information, listing of trees, keyboard) and
  the handler itself: the test of the number, the dispatch and the delivery of pending signals.
  The calls that drive hardware or start programs (\<open>driver_calls\<close>) are an argument of the handler.
\<close>

section \<open>Accounts\<close>

definition user_name_of :: "ksys \<Rightarrow> string" where
  "user_name_of k = (case cur_user (k_ac k) of Some u \<Rightarrow> u_name (users (k_ac k) ! u) | None \<Rightarrow> ''?'')"

text \<open>A buffer length that is not positive skips the range test, yet the terminator is stored.\<close>

definition answer_name :: "string \<Rightarrow> u32 \<Rightarrow> u32 \<Rightarrow> ksys \<Rightarrow> (u32 \<times> ksys) option" where
  "answer_name name a1 a2 k =
     (let max = sint a2
      in if max > 0 \<and> \<not> uaccess_ok a1 a2 then Some (EFAULT, k)
         else Some (of_nat (min (length name) (nat (max - 1))), ustore_name a1 (max - 1) name k))"

definition sys_hostname :: "u32 \<Rightarrow> u32 \<Rightarrow> ksys \<Rightarrow> (u32 \<times> ksys) option" where
  "sys_hostname a1 a2 k = answer_name (k_hostname k) a1 a2 k"

definition sys_getuser :: "u32 \<Rightarrow> u32 \<Rightarrow> ksys \<Rightarrow> (u32 \<times> ksys) option" where
  "sys_getuser a1 a2 k = answer_name (user_name_of k) a1 a2 k"

definition sys_getuid :: "ksys \<Rightarrow> (u32 \<times> ksys) option" where
  "sys_getuid k = Some (case cur_user (k_ac k) of Some u \<Rightarrow> u_uid (users (k_ac k) ! u) | None \<Rightarrow> 0, k)"

definition sys_useradd :: "devices \<Rightarrow> u32 \<Rightarrow> ksys \<Rightarrow> (u32 \<times> ksys) option" where
  "sys_useradd dev a1 k =
     (if \<not> is_root_user k then Some (FAIL, k)
      else if \<not> uaccess_ok a1 20 then Some (EFAULT, k)
      else do {
        let m = k_mem k;
        name \<leftarrow> ustr_opt (load32 a1 m) k;
        pass \<leftarrow> ustr_opt (load32 (a1 + 4) m) k;
        home \<leftarrow> ustr_opt (load32 (a1 + 16) m) k;
        (u, a) \<leftarrow> users_add dev name pass (load32 (a1 + 8) m) (load32 (a1 + 12) m) home (k_ac k);
        Some (ok_or_fail (u \<noteq> None), k\<lparr>k_ac := a\<rparr>)
      })"

definition sys_passwd :: "devices \<Rightarrow> u32 \<Rightarrow> ksys \<Rightarrow> (u32 \<times> ksys) option" where
  "sys_passwd dev a1 k =
     (if \<not> uaccess_ok a1 8 then Some (EFAULT, k)
      else case cur_user (k_ac k) of
             None \<Rightarrow> Some (FAIL, k)
           | Some u \<Rightarrow>
               do {
                 let me = users (k_ac k) ! u;
                 user \<leftarrow> ustr (load32 a1 (k_mem k)) k;
                 if u_uid me \<noteq> 0 \<and> u_name me \<noteq> user then Some (FAIL, k)
                 else do {
                   new_pass \<leftarrow> ustr_opt (load32 (a1 + 4) (k_mem k)) k;
                   (r, a) \<leftarrow> users_set_password dev user new_pass (k_ac k);
                   Some (if r \<noteq> 0 then 0 else FAIL, k\<lparr>k_ac := a\<rparr>)
                 }
               })"

definition sys_login :: "devices \<Rightarrow> u32 \<Rightarrow> u32 \<Rightarrow> ksys \<Rightarrow> (u32 \<times> ksys) option" where
  "sys_login dev a1 a2 k =
     do {
       u \<leftarrow> ustr a1 k;
       case users_find u (k_ac k) of
         None \<Rightarrow> Some (FAIL, k)
       | Some i \<Rightarrow>
           do {
             p \<leftarrow> ustr_opt a2 k;
             (ok, a) \<leftarrow> users_check_password dev u p (k_ac k);
             if ok = 0 then Some (FAIL, k\<lparr>k_ac := a\<rparr>)
             else do {
               let a = set_current_user (Some i) a;
               (home, a) \<leftarrow> lookup_path (u_home (users a ! i)) a;
               let k = k\<lparr>k_ac := a\<rparr>;
               Some (0, if home \<noteq> None then k\<lparr>k_cwd := home\<rparr> else k)
             }
           }
     }"

definition sys_logout :: "ksys \<Rightarrow> (u32 \<times> ksys) option" where
  "sys_logout k = Some (0, k\<lparr>k_ac := set_current_user None (k_ac k)\<rparr>)"

definition sys_su :: "devices \<Rightarrow> u32 \<Rightarrow> u32 \<Rightarrow> ksys \<Rightarrow> (u32 \<times> ksys) option" where
  "sys_su dev a1 a2 k =
     do {
       u \<leftarrow> ustr a1 k;
       case users_find u (k_ac k) of
         None \<Rightarrow> Some (FAIL, k)
       | Some i \<Rightarrow>
           do {
             (ok, a) \<leftarrow> (if is_root_user k then Some (1, k_ac k)
                         else do { p \<leftarrow> ustr_opt a2 k; users_check_password dev u p (k_ac k) });
             if ok = 0 then Some (FAIL, k\<lparr>k_ac := a\<rparr>)
             else Some (0, k\<lparr>k_ac := set_current_user (Some i) a\<rparr>)
           }
     }"

text \<open>The list that a request structure points to is written without a range test.\<close>

definition sys_getgroups :: "u32 \<Rightarrow> ksys \<Rightarrow> (u32 \<times> ksys) option" where
  "sys_getgroups a1 k =
     (let list = load32 (a1 + 8) (k_mem k)
      in if \<not> uaccess_ok a1 12 then Some (0, k)
         else if list = 0 \<or> sint (load32 a1 (k_mem k)) \<le> 0 then Some (0, k)
         else case cur_user (k_ac k) of
                None \<Rightarrow> Some (0, ustore32 (a1 + 4) 0 k)
              | Some u \<Rightarrow>
                  let k = ustore32 list (u_uid (users (k_ac k) ! u)) k;
                      k = ustore32 (load32 (a1 + 8) (k_mem k) + 4) (u_gid (users (k_ac k) ! u)) k
                  in Some (1, ustore32 (a1 + 4) 1 k))"

definition user_entry :: "u32 \<Rightarrow> user_t \<Rightarrow> ksys \<Rightarrow> ksys" where
  "user_entry e u k =
     (let k = ustore_name e 31 (u_name u) k;
          k = ustore32 (e + 32) (u_uid u) k;
          k = ustore32 (e + 36) (u_gid u) k
      in ustore_name (e + 40) 63 (u_home u) k)"

text \<open>\<open>r->max\<close> and \<open>r->list\<close> are read anew in every round.\<close>

fun list_users :: "nat list \<Rightarrow> u32 \<Rightarrow> nat \<Rightarrow> ksys \<Rightarrow> nat \<times> ksys" where
  "list_users [] r n k = (n, k)"
| "list_users (i # is) r n k =
     (if int n < sint (load32 r (k_mem k))
      then (case users_at (int i) (k_ac k) of
              None \<Rightarrow> list_users is r n k
            | Some u \<Rightarrow> list_users is r (n + 1)
                          (user_entry (load32 (r + 8) (k_mem k) + 104 * of_nat n) (users (k_ac k) ! u) k))
      else (n, k))"

definition sys_userlist :: "u32 \<Rightarrow> ksys \<Rightarrow> (u32 \<times> ksys) option" where
  "sys_userlist a1 k =
     (if \<not> uaccess_ok a1 12 then Some (0, k)
      else if load32 (a1 + 8) (k_mem k) = 0 \<or> sint (load32 a1 (k_mem k)) \<le> 0 then Some (0, k)
      else case list_users [0..<users_count (k_ac k)] a1 0 k of
             (n, k) \<Rightarrow> Some (of_nat n, ustore32 (a1 + 4) (of_nat n) k))"

section \<open>Information\<close>

fun state_code :: "proc_state_t \<Rightarrow> u32" where
  "state_code PROC_RUNNING = 0"
| "state_code PROC_READY = 1"
| "state_code PROC_SLEEPING = 2"
| "state_code PROC_ZOMBIE = 3"

definition proc_entry :: "u32 \<Rightarrow> process_t \<Rightarrow> ksys \<Rightarrow> ksys" where
  "proc_entry e p k =
     (let k = ustore32 e (pid p) k;
          k = ustore (e + 4) (string_bytes (take 31 (pname p))) k;
          k = ustore (e + 4 + 31) [0] k;
          k = ustore32 (e + 36) (cpu_ticks p) k;
          k = ustore32 (e + 40) (state_code (pstate p)) k
      in ustore32 (e + 44) (word_of_int (priority p)) k)"

fun list_procs :: "nat list \<Rightarrow> u32 \<Rightarrow> nat \<Rightarrow> ksys \<Rightarrow> nat \<times> ksys" where
  "list_procs [] r n k = (n, k)"
| "list_procs (i # is) r n k =
     (if int n < sint (load32 r (k_mem k))
      then (case process_at i (k_ps k) of
              None \<Rightarrow> list_procs is r n k
            | Some p \<Rightarrow> list_procs is r (n + 1)
                          (proc_entry (load32 (r + 8) (k_mem k) + 48 * of_nat n) (processes (k_ps k) ! p) k))
      else (n, k))"

definition sys_listproc :: "u32 \<Rightarrow> ksys \<Rightarrow> (u32 \<times> ksys) option" where
  "sys_listproc a1 k =
     (if \<not> uaccess_ok a1 12 then Some (0, k)
      else if load32 (a1 + 8) (k_mem k) = 0 \<or> sint (load32 a1 (k_mem k)) \<le> 0 then Some (0, k)
      else case list_procs [0..<process_count (k_ps k)] a1 0 k of
             (n, k) \<Rightarrow> Some (of_nat n, ustore32 (a1 + 4) (of_nat n) k))"

definition sys_meminfo :: "u32 \<Rightarrow> ksys \<Rightarrow> (u32 \<times> ksys) option" where
  "sys_meminfo a1 k =
     (if \<not> uaccess_ok a1 12 then Some (EFAULT, k)
      else let p = vm_pmm (k_vmm k);
               k = ustore32 a1 (pmm_get_total_memory p) k;
               k = ustore32 (a1 + 4) (pmm_get_used_memory p) k
           in Some (0, ustore32 (a1 + 8) (pmm_get_free_memory p) k))"

definition sys_dfinfo :: "u32 \<Rightarrow> ksys \<Rightarrow> (u32 \<times> ksys) option" where
  "sys_dfinfo a1 k =
     (if \<not> uaccess_ok a1 16 then Some (EFAULT, k)
      else let b = fs_blockfs (ac_fs (k_ac k)); have_disk = bf_available b;
               k = ustore32 a1 (if have_disk then 1 else 0) k;
               k = ustore32 (a1 + 12) BLOCK_SIZE k;
               k = ustore32 (a1 + 4) (if have_disk then bf_total_blocks b else 0) k
           in Some (0, ustore32 (a1 + 8) (if have_disk then bf_used_blocks b else 0) k))"

definition sys_sync :: "ksys \<Rightarrow> (u32 \<times> ksys) option" where
  "sys_sync k = map_option (\<lambda>(r, k). (ok_or_fail (r \<ge> 0), k)) (with_fs (diskfs_save (kfs k)) k)"

section \<open>Keyboard\<close>

definition public_key :: "int \<Rightarrow> int" where
  "public_key key =
     (if key = KEY_UP then 1002 else if key = KEY_DOWN then 1003 else if key = KEY_LEFT then 1000
      else if key = KEY_RIGHT then 1001 else if key = KEY_HOME then 1004 else if key = KEY_END then 1005 else key)"

definition wait_char :: "(int \<Rightarrow> int) \<Rightarrow> ksys \<Rightarrow> (u32 \<times> ksys) option" where
  "wait_char f k =
     map_option (\<lambda>(key, irqs, kbd, s). (word_of_int (f key), k\<lparr>k_irqs := irqs, k_kbd := kbd, k_ps := s\<rparr>))
       (keyboard_getchar (k_irqs k) (k_kbd k, k_ps k))"

definition sys_getc :: "ksys \<Rightarrow> (u32 \<times> ksys) option" where
  "sys_getc k = wait_char (\<lambda>key. key) k"

definition sys_key_raw :: "ksys \<Rightarrow> (u32 \<times> ksys) option" where
  "sys_key_raw k = wait_char public_key k"

definition sys_key_poll :: "ksys \<Rightarrow> (u32 \<times> ksys) option" where
  "sys_key_poll k =
     (case keyboard_try_getchar (k_kbd k) of
        (key, kbd) \<Rightarrow> Some (word_of_int (if key \<ge> 0 then public_key key else key), k\<lparr>k_kbd := kbd\<rparr>))"

definition sys_getline :: "u32 \<Rightarrow> u32 \<Rightarrow> ksys \<Rightarrow> (u32 \<times> ksys) option" where
  "sys_getline a1 a2 k =
     (if a2 = 0 then Some (0, k)
      else if \<not> uaccess_ok a1 a2 then Some (EFAULT, k)
      else map_option
             (\<lambda>(n, irqs, (kbd, s), m, out).
                (word_of_int n, k\<lparr>k_irqs := irqs, k_kbd := kbd, k_ps := s, k_mem := m, k_vga := k_vga k @ out\<rparr>))
             (keyboard_readline a1 (sint a2) (k_irqs k) (k_kbd k, k_ps k) (k_mem k)))"

section \<open>The handler\<close>

text \<open>
  What the handler needs from outside the model: the device drivers' read and write, the calls
  that drive the clock, the screen and the power or start programs, and what the rest of
  the system does while the caller has given up the processor.
\<close>

record env =
  e_dev :: devices
  e_drv :: "u32 \<Rightarrow> u32 \<Rightarrow> u32 \<Rightarrow> u32 \<Rightarrow> ksys \<Rightarrow> (outcome \<times> ksys) option"
  e_yield :: "ps \<Rightarrow> ps"
  e_fuel :: nat

definition driver_calls :: "u32 list" where
  "driver_calls = [5, 21, 22, 30, 31, 33, 41, 51, 54, 62, 63, 64, 65, 66, 69, 73]"

definition resume :: "(u32 \<times> ksys) option \<Rightarrow> (outcome \<times> ksys) option" where
  "resume r = map_option (\<lambda>(eax, k). (Resume eax, k)) r"

definition dispatch :: "env \<Rightarrow> u32 \<Rightarrow> u32 \<Rightarrow> u32 \<Rightarrow> u32 \<Rightarrow> ksys \<Rightarrow> (outcome \<times> ksys) option" where
  "dispatch e num a1 a2 a3 k =
     (if num = 1 then sys_exit num a1 k
      else if num = 2 then resume (sys_write a2 a3 k)
      else if num = 3 then resume (sys_getpid k)
      else if num = 4 then resume (sys_yield (e_yield e) k)
      else if num = 6 then resume (sys_getc k)
      else if num = 7 then resume (sys_uptime k)
      else if num = 8 then resume (sys_readfile (e_dev e) a1 a2 a3 k)
      else if num = 9 then resume (sys_writefile (e_dev e) a1 a2 a3 k)
      else if num = 10 then resume (sys_getline a1 a2 k)
      else if num = 11 then resume (sys_getcwd a1 a2 k)
      else if num = 12 then resume (sys_chdir a1 k)
      else if num = 13 then resume (sys_opendir a1 k)
      else if num = 14 then resume (sys_readdir a1 a2 k)
      else if num = 15 then resume (sys_closedir a1 k)
      else if num = 16 then resume (sys_stat a1 a2 k)
      else if num = 17 then resume (sys_unlink a1 k)
      else if num = 18 then resume (sys_mkdir a1 k)
      else if num = 19 then resume (sys_rmdir a1 k)
      else if num = 20 then resume (sys_hostname a1 a2 k)
      else if num = 23 then resume (sys_kill a1 a2 k)
      else if num = 24 then resume (sys_sync k)
      else if num = 25 then resume (sys_getuid k)
      else if num = 26 then resume (sys_getuser a1 a2 k)
      else if num = 27 then resume (sys_rename (e_dev e) a1 a2 k)
      else if num = 32 then resume (sys_waitpid (e_yield e) (e_fuel e) a1 a2 a3 k)
      else if num = 35 then resume (sys_file_open a1 a2 k)
      else if num = 36 then sys_file_read (e_dev e) a1 a2 a3 k
      else if num = 37 then sys_file_write (e_dev e) a1 a2 a3 k
      else if num = 38 then resume (sys_file_close a1 k)
      else if num = 39 then resume (sys_file_seek a1 a2 a3 k)
      else if num = 40 then resume (sys_key_raw k)
      else if num = 42 then resume (sys_useradd (e_dev e) a1 k)
      else if num = 43 then resume (sys_passwd (e_dev e) a1 k)
      else if num = 44 then resume (sys_listproc a1 k)
      else if num = 45 then resume (sys_login (e_dev e) a1 a2 k)
      else if num = 47 then resume (sys_chmod a1 a2 k)
      else if num = 48 then resume (sys_chown a1 a2 a3 k)
      else if num = 49 then resume (sys_meminfo a1 k)
      else if num = 50 then resume (sys_dfinfo a1 k)
      else if num = 52 then resume (sys_userlist a1 k)
      else if num = 53 then resume (sys_renice a1 a2 k)
      else if num = 55 then resume (sys_logout k)
      else if num = 56 then resume (sys_su (e_dev e) a1 a2 k)
      else if num = 57 then resume (sys_getgroups a1 k)
      else if num = 58 then resume (sys_vfs_find a1 k)
      else if num = 59 then resume (sys_vfs_tree a1 k)
      else if num = 60 then resume (sys_resolve a1 a2 a3 k)
      else if num = 61 then resume (sys_key_poll k)
      else if num = 67 then resume (sys_pipe a2 k)
      else if num = 68 then resume (sys_pipe_close a1 k)
      else if num = 70 then resume (sys_getppid k)
      else if num = 71 then resume (sys_signal a1 a2 k)
      else if num = 72 then resume (sys_brk a1 k)
      else if num \<in> set driver_calls then e_drv e num a1 a2 a3 k
      else Some (Resume FAIL, k))"

text \<open>A program that a pending signal killed is unwound instead of resumed.\<close>

definition deliver_pending :: "u32 \<Rightarrow> ksys \<Rightarrow> outcome \<times> ksys" where
  "deliver_pending eax k =
     (case process_check_signal (k_ps k) of
        (killed, s) \<Rightarrow>
          let k = k\<lparr>k_ps := s\<rparr>;
              code = (case current s of Some c \<Rightarrow> exit_code (processes s ! c) | None \<Rightarrow> 128 + 2)
          in if killed \<and> fst (k_jmp k) then (Unwound code, k\<lparr>k_jmp := (False, code)\<rparr>) else (Resume eax, k))"

definition syscall_handler :: "env \<Rightarrow> u32 \<Rightarrow> u32 \<Rightarrow> u32 \<Rightarrow> u32 \<Rightarrow> ksys \<Rightarrow> (outcome \<times> ksys) option" where
  "syscall_handler e num a1 a2 a3 k =
     (if num > 73 then Some (Resume FAIL, k)
      else map_option
             (\<lambda>(r, k). case r of Resume eax \<Rightarrow> deliver_pending eax k | _ \<Rightarrow> (r, k))
             (dispatch e num a1 a2 a3 k))"

end
