(* ===== verification/Keyboard_Props.thy ===== *)
theory Keyboard_Props
  imports Keyboard Process_Props
begin

text \<open>
  What the keyboard driver promises: its ring is a bounded queue of key codes, the scancodes of a
  typed text arrive in it as that text, and \<^verbatim>\<open>keyboard_readline\<close> edits a line the way the
  specification \<open>edit_line\<close> does, inside its buffer.
\<close>

section \<open>The ring is a bounded queue\<close>

definition key_count :: "kbd \<Rightarrow> nat" where
  "key_count k = (khead k + BUF_SIZE - ktail k) mod BUF_SIZE"

definition key_queue :: "kbd \<Rightarrow> int list" where
  "key_queue k = map (\<lambda>i. kbuf k ((ktail k + i) mod BUF_SIZE)) [0..<key_count k]"

definition key_inv :: "kbd \<Rightarrow> bool" where
  "key_inv k \<longleftrightarrow> khead k < BUF_SIZE \<and> ktail k < BUF_SIZE"

definition key_get :: "kbd \<times> ps \<Rightarrow> int \<times> kbd \<times> ps" where
  "key_get ks = (case ks of (k, s) \<Rightarrow> case buf_pop k of (x, k') \<Rightarrow> (x, (k', s)))"

lemma length_key_queue [simp]: "length (key_queue k) = key_count k"
  by (simp add: key_queue_def)

lemma wrap_once: "(x :: nat) < 2 * n \<Longrightarrow> x mod n = (if x < n then x else x - n)"
  by (simp add: mod_if)

lemma key_count_eq:
  "key_inv k \<Longrightarrow> key_count k = (if ktail k \<le> khead k then khead k - ktail k else khead k + BUF_SIZE - ktail k)"
  unfolding key_count_def key_inv_def by (subst wrap_once) auto

lemma key_step: "x < BUF_SIZE \<Longrightarrow> Suc x mod BUF_SIZE = (if Suc x = BUF_SIZE then 0 else Suc x)"
  by (subst wrap_once) auto

lemma key_index:
  "key_inv k \<Longrightarrow> i < BUF_SIZE \<Longrightarrow>
     (ktail k + i) mod BUF_SIZE = (if ktail k + i < BUF_SIZE then ktail k + i else ktail k + i - BUF_SIZE)"
  unfolding key_inv_def by (rule wrap_once) linarith

lemma key_invD: "key_inv k \<Longrightarrow> khead k < BUF_SIZE" "key_inv k \<Longrightarrow> ktail k < BUF_SIZE"
  by (simp_all add: key_inv_def)

lemma key_count_zero: "key_inv k \<Longrightarrow> key_count k = 0 \<longleftrightarrow> khead k = ktail k"
  using key_invD [of k] by (simp add: key_count_eq)

lemma key_count_full: "key_inv k \<Longrightarrow> Suc (khead k) mod BUF_SIZE = ktail k \<longleftrightarrow> key_count k = BUF_SIZE - 1"
  using key_invD [of k] by (auto simp: key_step key_count_eq)

lemma key_count_bound: "key_inv k \<Longrightarrow> key_count k < BUF_SIZE"
  using key_invD [of k] unfolding key_count_eq by (auto split: if_splits)

lemma key_head: "key_inv k \<Longrightarrow> (ktail k + key_count k) mod BUF_SIZE = khead k"
  using key_invD [of k] by (simp only: key_index key_count_bound) (simp add: key_count_eq)

lemma buf_push_full:
  "key_inv k \<Longrightarrow> key_count k = BUF_SIZE - 1 \<Longrightarrow> buf_push x (k, s) = (k, s)"
  using key_count_full [of k] by (simp add: buf_push_def Let_def)

lemma buf_push_room:
  assumes inv: "key_inv k" and room: "key_count k < BUF_SIZE - 1"
  shows "buf_push x (k, s) = (k\<lparr>kbuf := (kbuf k)(khead k := x), khead := Suc (khead k) mod BUF_SIZE\<rparr>, scheduler_kick s)"
    and "key_inv (fst (buf_push x (k, s)))"
    and "key_queue (fst (buf_push x (k, s))) = key_queue k @ [x]"
proof -
  let ?k = "k\<lparr>kbuf := (kbuf k)(khead k := x), khead := Suc (khead k) mod BUF_SIZE\<rparr>"
  show eq: "buf_push x (k, s) = (?k, scheduler_kick s)"
    using key_count_full [OF inv] room by (simp add: buf_push_def Let_def)
  show "key_inv (fst (buf_push x (k, s)))" using inv by (simp add: eq key_inv_def)
  have inv': "key_inv ?k" using inv by (simp add: key_inv_def)
  have n: "key_count ?k = Suc (key_count k)"
    using room key_invD [OF inv] key_count_eq [OF inv'] key_step [OF key_invD(1) [OF inv]]
    unfolding key_count_eq [OF inv] by (auto split: if_splits)
  have ne: "(ktail k + i) mod BUF_SIZE \<noteq> khead k" if "i < key_count k" for i
    using that key_invD [OF inv] key_index [OF inv, of i] key_count_bound [OF inv]
    unfolding key_count_eq [OF inv] by (simp split: if_splits)
  have "map (\<lambda>i. kbuf ?k ((ktail k + i) mod BUF_SIZE)) [0..<key_count k] = key_queue k"
    unfolding key_queue_def using ne by (intro map_cong) auto
  then show "key_queue (fst (buf_push x (k, s))) = key_queue k @ [x]"
    using key_head [OF inv] by (simp add: eq key_queue_def n)
qed

lemma buf_pop_queue:
  assumes inv: "key_inv k" and ne: "key_queue k \<noteq> []"
  shows "key_queue k = fst (buf_pop k) # key_queue (snd (buf_pop k))" and "key_inv (snd (buf_pop k))"
    and "snd (buf_pop k) = k\<lparr>ktail := Suc (ktail k) mod BUF_SIZE\<rparr>"
proof -
  let ?k = "k\<lparr>ktail := Suc (ktail k) mod BUF_SIZE\<rparr>"
  have pos: "0 < key_count k" using ne by (simp add: key_queue_def)
  then have eq: "buf_pop k = (kbuf k (ktail k), ?k)"
    using key_count_zero [OF inv] by (auto simp: buf_pop_def)
  then show "snd (buf_pop k) = ?k" by simp
  show "key_inv (snd (buf_pop k))" using inv by (simp add: eq key_inv_def)
  have n: "key_count k = Suc (key_count ?k)"
    using pos key_invD [OF inv]
    by (cases "Suc (ktail k) = BUF_SIZE"; cases "ktail k \<le> khead k")
      (auto simp: key_count_eq key_inv_def key_step)
  have "(Suc (ktail k) mod BUF_SIZE + i) mod BUF_SIZE = (ktail k + Suc i) mod BUF_SIZE" for i
    by (simp add: mod_add_left_eq)
  then show "key_queue k = fst (buf_pop k) # key_queue (snd (buf_pop k))"
    using inv by (simp add: eq key_queue_def n key_inv_def upt_conv_Cons map_Suc_upt [symmetric] o_def del: upt_Suc)
qed

interpretation keys: bounded_queue "\<lambda>ks. key_inv (fst ks)" "\<lambda>ks. key_queue (fst ks)" "BUF_SIZE - 1" buf_push key_get
proof
  fix ks :: "kbd \<times> ps" and x :: int
  assume inv: "key_inv (fst ks)"
  obtain k s where ks: "ks = (k, s)" by (cases ks)
  note inv = inv [unfolded ks fst_conv]
  show "length (key_queue (fst ks)) \<le> BUF_SIZE - 1" by (simp add: key_count_def)
  show "key_queue (fst (buf_push x ks)) = key_queue (fst ks) @ [x]" "key_inv (fst (buf_push x ks))"
    if "length (key_queue (fst ks)) < BUF_SIZE - 1"
    using buf_push_room [OF inv] that by (simp_all add: ks)
  show "key_queue (fst ks) = fst (key_get ks) # key_queue (fst (snd (key_get ks)))"
    "key_inv (fst (snd (key_get ks)))" if "key_queue (fst ks) \<noteq> []"
    using buf_pop_queue(1,2) [OF inv] that by (simp_all add: ks key_get_def case_prod_beta)
qed

section \<open>Typing a text\<close>

text \<open>The scancodes of one character on a US keyboard: the key alone, or the key while Shift is held.\<close>

definition key_code :: "u8 list \<Rightarrow> u8 \<Rightarrow> u8 option" where
  "key_code table c = map_option of_nat (first_index (\<lambda>i. table ! i = c) 0 128)"

definition keystrokes :: "u8 \<Rightarrow> u8 list" where
  "keystrokes c =
     (case key_code scancode_normal c of
        Some code \<Rightarrow> [code, code OR 0x80]
      | None \<Rightarrow> (case key_code scancode_shift c of
                    Some code \<Rightarrow> [0x2A, code, code OR 0x80, 0xAA]
                  | None \<Rightarrow> []))"

definition typeable :: "u8 \<Rightarrow> bool" where
  "typeable c \<longleftrightarrow> c \<noteq> 0 \<and> (c \<in> set scancode_normal \<or> c \<in> set scancode_shift)"

definition no_modifiers :: "kbd \<Rightarrow> bool" where
  "no_modifiers k \<longleftrightarrow> \<not> shift_down k \<and> \<not> ctrl_down k \<and> \<not> alt_down k \<and> \<not> caps_lock k \<and> \<not> extended k"

text \<open>What the tables hold: only ordinary keys, no code of a modifier, no character 3.\<close>

definition ordinary :: "nat \<Rightarrow> bool" where
  "ordinary i \<longleftrightarrow> i < 0x3A \<and> i \<notin> {0x1D, 0x2A, 0x36, 0x38}"

lemma table_lengths [simp]: "length scancode_normal = 128" "length scancode_shift = 128"
  by (simp_all add: scancode_normal_def scancode_shift_def string_bytes_def)

lemma table_entries:
  "list_all (\<lambda>(i, c). c \<noteq> 0 \<longrightarrow> ordinary i \<and> c \<noteq> 3) (enumerate 0 scancode_normal)"
  "list_all (\<lambda>(i, c). c \<noteq> 0 \<longrightarrow> ordinary i \<and> c \<noteq> 3) (enumerate 0 scancode_shift)"
  by code_simp+

lemma table_codes:
  assumes "table = scancode_normal \<or> table = scancode_shift" "i < 128" "table ! i \<noteq> 0"
  shows "ordinary i" "table ! i \<noteq> 3"
  using assms table_entries by (auto simp: list_all_length nth_enumerate_eq)

lemma key_code_Some:
  assumes "key_code table c = Some code" "length table = 128"
  obtains i where "i < 128" "code = of_nat i" "table ! i = c"
  using assms by (auto simp: key_code_def first_index_Some)

lemma key_code_None: "key_code table c = None \<Longrightarrow> length table = 128 \<Longrightarrow> c \<notin> set table"
  by (auto simp: key_code_def first_index_None in_set_conv_nth)

lemma code_bits:
  fixes i :: nat
  assumes "i < 128"
  shows "(of_nat i :: u8) AND 0x80 = 0" "(of_nat i :: u8) AND 0x7F = of_nat i" "unat (of_nat i :: u8) = i"
    "(of_nat i OR 0x80 :: u8) AND 0x7F = of_nat i" "(of_nat i OR 0x80 :: u8) AND 0x80 = 0x80"
proof -
  let ?w = "of_nat i :: u8"
  show u: "unat ?w = i" using assms by (simp add: unat_of_nat)
  have "?w AND 0x7F = take_bit 7 ?w" by (simp add: take_bit_eq_mask mask_eq_exp_minus_1)
  also have "\<dots> = ?w" using assms by (simp add: take_bit_eq_mod word_arith_nat_mod u)
  finally show low: "?w AND 0x7F = ?w" .
  have "?w AND 0x80 = ?w AND (0x7F AND 0x80)" by (metis low and.assoc)
  then show high: "?w AND 0x80 = 0" by simp
  show "(?w OR 0x80) AND 0x7F = ?w" "(?w OR 0x80) AND 0x80 = 0x80"
    by (simp_all add: bit.conj_disj_distrib2 low high)
qed

lemma ordinary_code:
  assumes "ordinary i"
  shows "i < 128" "(of_nat i :: u8) \<notin> {0xE0, 0x2A, 0x36, 0x1D, 0x38, 0x3A, 0x57, 0x58}"
    "\<not> (0x3B :: u8) \<le> of_nat i"
proof -
  have i: "i < 0x3A" "i \<notin> {0x1D, 0x2A, 0x36, 0x38}" using assms by (auto simp: ordinary_def)
  then show "i < 128" by simp
  then have u: "unat (of_nat i :: u8) = i" by (rule code_bits)
  have "(of_nat i :: u8) = v \<longleftrightarrow> i = unat v" for v using u by (metis word_unat_eq_iff)
  then show "(of_nat i :: u8) \<notin> {0xE0, 0x2A, 0x36, 0x1D, 0x38, 0x3A, 0x57, 0x58}" using i by simp
  show "\<not> (0x3B :: u8) \<le> of_nat i" using i u by (simp add: word_le_nat_alt)
qed

lemma key_frame [simp]:
  "key_count (k\<lparr>shift_down := b\<rparr>) = key_count k" "key_queue (k\<lparr>shift_down := b\<rparr>) = key_queue k"
  "key_inv (k\<lparr>shift_down := b\<rparr>) = key_inv k"
  "key_count (k\<lparr>shift_age := n\<rparr>) = key_count k" "key_queue (k\<lparr>shift_age := n\<rparr>) = key_queue k"
  "key_inv (k\<lparr>shift_age := n\<rparr>) = key_inv k"
  by (simp_all add: key_count_def key_queue_def key_inv_def)

lemma handle_shift [simp]:
  "\<not> extended k \<Longrightarrow> handle_scancode 0x2A (k, s) = (k\<lparr>shift_down := True, shift_age := 0\<rparr>, s)"
  "\<not> extended k \<Longrightarrow> handle_scancode 0xAA (k, s) = (k\<lparr>shift_down := False, shift_age := 0\<rparr>, s)"
  by (simp_all add: handle_scancode_def)

lemma handle_release:
  assumes "ordinary i" "\<not> extended k"
  shows "handle_scancode (of_nat i OR 0x80) (k, s) = (k, s)"
proof -
  note bits = code_bits [OF ordinary_code(1) [OF assms(1)]] and code = ordinary_code(2) [OF assms(1)]
  have "of_nat i OR 0x80 \<noteq> (0xE0 :: u8)"
  proof
    assume "of_nat i OR 0x80 = (0xE0 :: u8)"
    then have "of_nat i = (0xE0 AND 0x7F :: u8)" using bits(4) by metis
    then have "unat (of_nat i :: u8) = 0x60" by simp
    then show False using bits(3) assms(1) by (simp add: ordinary_def)
  qed
  then show ?thesis using bits(4,5) code assms(2) by (simp add: handle_scancode_def)
qed

lemma handle_press:
  assumes "ordinary i" "\<not> extended k"
  shows "handle_scancode (of_nat i) (k, s) = plain_key (of_nat i) (age_modifiers k, s)"
proof -
  note bits = code_bits [OF ordinary_code(1) [OF assms(1)]] and code = ordinary_code(2) [OF assms(1)]
  show ?thesis using bits(1,2) code assms(2) by (simp add: handle_scancode_def)
qed

lemma plain_key_char:
  assumes "ordinary i" "\<not> ctrl_down k" "\<not> caps_lock k"
    and c: "c = (if shift_down k then scancode_shift ! i else scancode_normal ! i)" "c \<noteq> 0" "c \<noteq> 3"
  shows "plain_key (of_nat i) (k, s) = buf_push (uint c) (k, s)"
proof -
  note bits = code_bits(3) [OF ordinary_code(1) [OF assms(1)]]
    and code = ordinary_code(2,3) [OF assms(1)]
  have same: "apply_modifiers k c = c" using assms(2,3) by (simp add: apply_modifiers_def Let_def)
  show ?thesis using c(2,3) code
    unfolding plain_key_def Let_def prod.case bits c(1) [symmetric] same by (simp split: option.split)
qed

lemma handle_keystrokes:
  assumes c: "typeable c" and inv: "key_inv k" "no_modifiers k" and room: "key_count k < BUF_SIZE - 1"
  obtains k' s' where "fold handle_scancode (keystrokes c) (k, s) = (k', s')" "key_inv k'" "no_modifiers k'"
    "key_queue k' = key_queue k @ [uint c]"
proof (cases "key_code scancode_normal c")
  case (Some code)
  then obtain i where i: "i < 128" "code = of_nat i" "scancode_normal ! i = c" by (rule key_code_Some) simp
  then have o: "ordinary i" "c \<noteq> 3" using table_codes [of scancode_normal i] c by (auto simp: typeable_def)
  have "age_modifiers k = k" using inv(2) by (simp add: age_modifiers_def no_modifiers_def)
  then have press: "handle_scancode code (k, s) = buf_push (uint c) (k, s)"
    using handle_press [OF o(1)] plain_key_char [OF o(1)] i o(2) c inv(2)
    by (simp add: no_modifiers_def typeable_def)
  have "no_modifiers (fst (buf_push (uint c) (k, s)))"
    using inv(2) buf_push_room(1) [OF inv(1) room] by (simp add: no_modifiers_def)
  with that [of "fst (buf_push (uint c) (k, s))" "snd (buf_push (uint c) (k, s))"]
    press Some handle_release [OF o(1)] i(2) buf_push_room(2,3) [OF inv(1) room, of "uint c" s]
  show thesis by (cases "buf_push (uint c) (k, s)") (simp add: keystrokes_def no_modifiers_def)
next
  case None
  then have "c \<in> set scancode_shift" using key_code_None [of scancode_normal c] c by (auto simp: typeable_def)
  then obtain code where code: "key_code scancode_shift c = Some code"
    using key_code_None [of scancode_shift c] by fastforce
  then obtain i where i: "i < 128" "code = of_nat i" "scancode_shift ! i = c" by (rule key_code_Some) simp
  then have o: "ordinary i" "c \<noteq> 3" using table_codes [of scancode_shift i] c by (auto simp: typeable_def)
  let ?k = "k\<lparr>shift_down := True, shift_age := 1\<rparr>"
  have "age_modifiers (k\<lparr>shift_down := True, shift_age := 0\<rparr>) = ?k"
    using inv(2) by (simp add: age_modifiers_def no_modifiers_def)
  then have press: "handle_scancode code (k\<lparr>shift_down := True, shift_age := 0\<rparr>, s) = buf_push (uint c) (?k, s)"
    using handle_press [OF o(1)] plain_key_char [OF o(1)] i o(2) c inv(2)
    by (simp add: no_modifiers_def typeable_def)
  have inv': "key_inv ?k" "key_count ?k < BUF_SIZE - 1" using inv room by simp_all
  have "extended (fst (buf_push (uint c) (?k, s))) = False"
    "no_modifiers ((fst (buf_push (uint c) (?k, s)))\<lparr>shift_down := False, shift_age := 0\<rparr>)"
    using inv(2) buf_push_room(1) [OF inv'] by (simp_all add: no_modifiers_def)
  with that [of "(fst (buf_push (uint c) (?k, s)))\<lparr>shift_down := False, shift_age := 0\<rparr>" "snd (buf_push (uint c) (?k, s))"]
    press None code handle_release [OF o(1)] i(2) inv(2) buf_push_room(2,3) [OF inv', of "uint c" s]
  show thesis by (cases "buf_push (uint c) (?k, s)") (simp add: keystrokes_def no_modifiers_def)
qed

lemma type_text_queue:
  assumes "list_all typeable cs" "key_inv k" "no_modifiers k" "key_count k + length cs < BUF_SIZE"
  shows "\<exists>k' s'. fold handle_scancode (concat (map keystrokes cs)) (k, s) = (k', s') \<and> key_inv k'
           \<and> no_modifiers k' \<and> key_queue k' = key_queue k @ map uint cs"
  using assms
proof (induction cs arbitrary: k s)
  case Nil
  then show ?case by simp
next
  case (Cons c cs)
  obtain k' s' where one: "fold handle_scancode (keystrokes c) (k, s) = (k', s')" "key_inv k'" "no_modifiers k'"
    "key_queue k' = key_queue k @ [uint c]"
    by (rule handle_keystrokes [of c k s]) (use Cons.prems in auto)
  have "key_count k' = key_count k + 1" using arg_cong [OF one(4), of length] by simp
  with Cons.IH [of k' s'] one Cons.prems show ?case by auto
qed

section \<open>Reading a line\<close>

text \<open>The line that a sequence of keys other than Enter leaves behind.\<close>

fun edit_line :: "int \<Rightarrow> int list \<Rightarrow> int list \<Rightarrow> int list" where
  "edit_line max_len line [] = line"
| "edit_line max_len line (key # keys) =
     (if key = 8 then edit_line max_len (butlast line) keys
      else if 32 \<le> key \<and> key < 127 \<and> int (length line) < max_len - 1 then edit_line max_len (line @ [key]) keys
      else edit_line max_len line keys)"

lemma buf_push_nothing: "buf_pop k = (key, k') \<Longrightarrow> override_char k' = None \<longleftrightarrow> override_char k = None"
  by (auto simp: buf_pop_def override_char_def split: if_splits option.splits)

lemma keyboard_getchar_queued:
  assumes "key_inv k" "override_char k = None" "key_queue k = key # keys" "0 \<le> key"
  obtains k' where "keyboard_getchar irqs (k, s) = Some (key, irqs, k', s)" "key_inv k'"
    "override_char k' = None" "key_queue k' = keys"
proof -
  obtain x k' where pop: "buf_pop k = (x, k')" by (cases "buf_pop k")
  have "x = key" "key_queue k' = keys" "key_inv k'"
    using buf_pop_queue [OF assms(1)] assms(3) pop by auto
  with that [of k'] pop assms buf_push_nothing [OF pop] show thesis
    by (simp add: keyboard_getchar_def)
qed

lemma load_bytes_snoc:
  assumes "load_bytes a n m = bs" "unat a + n < 0x100000000"
  shows "load_bytes a (n + 1) (m(unat (a + of_nat n) := v)) = bs @ [v]"
proof -
  have "unat (a + of_nat i) = unat a + i" if "i \<le> n" for i
    using that assms(2) by (simp add: unat_plus_u32)
  then show ?thesis using assms(1) by (auto simp: load_bytes_def)
qed

lemma load_bytes_butlast: "load_bytes a (n - 1) m = butlast (load_bytes a n m)"
  by (cases n) (simp_all add: load_bytes_def)

lemma readline_loop_edits:
  assumes "key_inv k" "override_char k = None" "key_queue k = keys @ 10 # rest"
    and "\<forall>key \<in> set keys. 0 \<le> key \<and> key \<noteq> 10"
    and "load_bytes a (length line) m = map word_of_int line"
    and "length line \<le> nat (max_len - 1)" "unat a + max 1 (nat max_len) \<le> 0x100000000"
  shows "\<exists>k' m' out'. readline_loop a max_len (int (length line)) irqs (k, s) m out
            = Some (int (length (edit_line max_len line keys)), irqs, (k', s), m', out')
          \<and> key_inv k' \<and> override_char k' = None \<and> key_queue k' = rest
          \<and> load_bytes a (length (edit_line max_len line keys) + 1) m'
              = map word_of_int (edit_line max_len line keys) @ [0]
          \<and> length (edit_line max_len line keys) \<le> nat (max_len - 1)
          \<and> (\<forall>x. x < unat a \<or> unat a + max 1 (nat max_len) \<le> x \<longrightarrow> m' x = m x)"
  using assms(1-6)
proof (induction keys arbitrary: k line m out)
  case Nil
  have fits: "unat a + length line < 0x100000000" using Nil.prems(6) assms(7) by linarith
  then have at: "unat (a + of_nat (length line)) = unat a + length line" by (simp add: unat_plus_u32)
  obtain k' where get: "keyboard_getchar irqs (k, s) = Some (10, irqs, k', s)" "key_inv k'"
    "override_char k' = None" "key_queue k' = rest"
    by (rule keyboard_getchar_queued [OF Nil.prems(1,2), of 10 rest]) (use Nil.prems(3) in auto)
  have "unat a + length line < unat a + max 1 (nat max_len)" using Nil.prems(6) by linarith
  then show ?case
    using get load_bytes_snoc [OF Nil.prems(5) fits, of 0] Nil.prems(6) at
    by (subst readline_loop.simps) auto
next
  case (Cons key keys)
  have key: "0 \<le> key" "key \<noteq> 10" using Cons.prems(4) by auto
  obtain k' where get: "keyboard_getchar irqs (k, s) = Some (key, irqs, k', s)" and k': "key_inv k'"
    "override_char k' = None" "key_queue k' = keys @ 10 # rest"
    by (rule keyboard_getchar_queued [OF Cons.prems(1,2), of key "keys @ 10 # rest"]) (use Cons.prems(3) key in auto)
  note IH = Cons.IH [OF k']
  consider "key = 8" "line = []" | "key = 8" "line \<noteq> []"
    | "key \<noteq> 8" "32 \<le> key \<and> key < 127 \<and> int (length line) < max_len - 1"
    | "key \<noteq> 8" "\<not> (32 \<le> key \<and> key < 127 \<and> int (length line) < max_len - 1)" by blast
  then show ?case
  proof cases
    case 1
    then show ?thesis using IH [of line m out] get Cons.prems by (subst readline_loop.simps) simp
  next
    case 2
    then have fits: "load_bytes a (length (butlast line)) m = map word_of_int (butlast line)"
      "length (butlast line) \<le> nat (max_len - 1)"
      using Cons.prems(5,6) load_bytes_butlast [of a "length line" m] by (simp_all add: map_butlast)
    have tail: "\<forall>key \<in> set keys. 0 \<le> key \<and> key \<noteq> 10" using Cons.prems(4) by simp
    have "int (length (butlast line)) = int (length line) - 1" using 2 by (cases line) auto
    then have step: "readline_loop a max_len (int (length line)) irqs (k, s) m out
        = readline_loop a max_len (int (length (butlast line))) irqs (k', s) m (out @ [8])"
      by (subst readline_loop.simps) (use 2 get in simp)
    have edit: "edit_line max_len line (key # keys) = edit_line max_len (butlast line) keys" using 2 by simp
    show ?thesis unfolding step edit by (rule IH [OF tail fits])
  next
    case 3
    let ?m = "m(unat (a + of_nat (length line)) := word_of_int key)"
    have fits: "unat a + length line < 0x100000000" "length line < max 1 (nat max_len)"
      using 3 assms(7) by linarith+
    then have at: "unat (a + of_nat (length line)) = unat a + length line" by (simp add: unat_plus_u32)
    have "load_bytes a (length (line @ [key])) ?m = map word_of_int (line @ [key])"
      using load_bytes_snoc [OF Cons.prems(5) fits(1)] by simp
    moreover have "length (line @ [key]) \<le> nat (max_len - 1)" using 3 by (simp, linarith)
    moreover have "\<forall>key \<in> set keys. 0 \<le> key \<and> key \<noteq> 10" using Cons.prems(4) by simp
    ultimately have tail: "\<forall>key \<in> set keys. 0 \<le> key \<and> key \<noteq> 10"
      "load_bytes a (length (line @ [key])) ?m = map word_of_int (line @ [key])"
      "length (line @ [key]) \<le> nat (max_len - 1)" by simp_all
    obtain k2 m2 out2 where r: "readline_loop a max_len (int (length (line @ [key]))) irqs (k', s) ?m (out @ [word_of_int key])
            = Some (int (length (edit_line max_len (line @ [key]) keys)), irqs, (k2, s), m2, out2)"
      "key_inv k2" "override_char k2 = None" "key_queue k2 = rest"
      "load_bytes a (length (edit_line max_len (line @ [key]) keys) + 1) m2
              = map word_of_int (edit_line max_len (line @ [key]) keys) @ [0]"
      "length (edit_line max_len (line @ [key]) keys) \<le> nat (max_len - 1)"
      "\<forall>x. x < unat a \<or> unat a + max 1 (nat max_len) \<le> x \<longrightarrow> m2 x = ?m x"
      using IH [of "line @ [key]" ?m "out @ [word_of_int key]", OF tail] by (elim exE conjE) (rule that; assumption)
    have "edit_line max_len line (key # keys) = edit_line max_len (line @ [key]) keys" using 3 by simp
    moreover have "readline_loop a max_len (int (length line)) irqs (k, s) m out
        = readline_loop a max_len (int (length (line @ [key]))) irqs (k', s) ?m (out @ [word_of_int key])"
      using 3 get key by (subst readline_loop.simps) (simp add: add.commute)
    moreover have "\<forall>x. x < unat a \<or> unat a + max 1 (nat max_len) \<le> x \<longrightarrow> m2 x = m x"
      using r(7) at fits(2) by auto
    ultimately show ?thesis using r(1-6) by (simp only:) blast
  next
    case 4
    have tail: "\<forall>key \<in> set keys. 0 \<le> key \<and> key \<noteq> 10" using Cons.prems(4) by simp
    have step: "readline_loop a max_len (int (length line)) irqs (k, s) m out
        = readline_loop a max_len (int (length line)) irqs (k', s) m out"
      using 4 get key by (subst readline_loop.simps) auto
    have edit: "edit_line max_len line (key # keys) = edit_line max_len line keys" using 4 by auto
    show ?thesis unfolding step edit by (rule IH [OF tail Cons.prems(5,6)])
  qed
qed

section \<open>Properties\<close>

text \<open>
  the scancodes of a text, decoded one by one from a state with no modifier key held, arrive in
  the key queue as that text, behind what was waiting there, as long as the ring has room; the
  modifiers are released again.
\<close>

theorem keyboard_types_text:
  assumes "list_all typeable cs" "key_inv k" "no_modifiers k" "length (key_queue k) + length cs < BUF_SIZE"
  shows "case fold handle_scancode (concat (map keystrokes cs)) (k, s) of
           (k', s') \<Rightarrow> key_queue k' = key_queue k @ map uint cs \<and> key_inv k' \<and> no_modifiers k'"
  using type_text_queue [of cs k s] assms by auto

definition idle_keyboard :: kbd where
  "idle_keyboard = \<lparr>kbuf = (\<lambda>_. 0), khead = 65535, ktail = 65535, shift_down = False, ctrl_down = False,
     alt_down = False, caps_lock = False, extended = False, shift_age = 0, ctrl_age = 0, alt_age = 0,
     stdin_override = None, stdin_override_len = 0, stdin_override_pos = 0\<rparr>"

lemma idle_keyboard_ok: "key_inv idle_keyboard" "no_modifiers idle_keyboard" "key_queue idle_keyboard = []"
  by (simp_all add: idle_keyboard_def key_inv_def no_modifiers_def key_queue_def key_count_def)

theorem keyboard_types_text_witness:
  "case fold handle_scancode (concat (map keystrokes (string_bytes ''Hi, $!''))) (idle_keyboard, booted_ps) of
     (k', s') \<Rightarrow> key_queue k' = key_queue idle_keyboard @ map uint (string_bytes ''Hi, $!'') \<and> key_inv k' \<and> no_modifiers k'"
proof (rule keyboard_types_text)
  show "list_all typeable (string_bytes ''Hi, $!'')" by code_simp
qed (use idle_keyboard_ok in \<open>simp_all add: string_bytes_def\<close>)

text \<open>
  C20: when the keys of a line and an Enter are waiting, \<^verbatim>\<open>keyboard_readline\<close> returns without waiting:
  it stores the edited line and its terminator in the buffer, returns the line's length, which
  leaves room for the terminator, consumes those keys and no other, and writes nothing outside
  the first \<open>max_len\<close> bytes of the buffer (outside its first byte when \<open>max_len\<close> is not positive).
\<close>

theorem keyboard_readline_edits:
  assumes "key_inv k" "override_char k = None" "key_queue k = keys @ 10 # rest"
    and "\<forall>key \<in> set keys. 0 \<le> key \<and> key \<noteq> 10"
    and "unat a + max 1 (nat max_len) \<le> 0x100000000"
  shows "\<exists>k' m' out. keyboard_readline a max_len irqs (k, s) m
            = Some (int (length (edit_line max_len [] keys)), irqs, (k', s), m', out)
          \<and> key_queue k' = rest
          \<and> load_bytes a (length (edit_line max_len [] keys) + 1) m' = map word_of_int (edit_line max_len [] keys) @ [0]
          \<and> length (edit_line max_len [] keys) \<le> nat (max_len - 1)
          \<and> (\<forall>x. x < unat a \<or> unat a + max 1 (nat max_len) \<le> x \<longrightarrow> m' x = m x)"
proof -
  have "load_bytes a (length []) m = map word_of_int []" by (simp add: load_bytes_def)
  from readline_loop_edits [OF assms(1-4) this _ assms(5), of irqs s "[]"] show ?thesis
    unfolding keyboard_readline_def by simp blast
qed

definition typed_line :: kbd where
  "typed_line = idle_keyboard\<lparr>kbuf := (\<lambda>_. 0)(65535 := 108, 0 := 120, 1 := 8, 2 := 115, 3 := 10, 4 := 65), khead := 5\<rparr>"

theorem keyboard_readline_edits_witness:
  "\<exists>k' m' out. keyboard_readline 0x08048000 4 [] (typed_line, booted_ps) (\<lambda>_. 7)
            = Some (int (length (edit_line 4 [] [108, 120, 8, 115])), [], (k', booted_ps), m', out)
          \<and> key_queue k' = [65]
          \<and> load_bytes 0x08048000 (length (edit_line 4 [] [108, 120, 8, 115]) + 1) m'
              = map word_of_int (edit_line 4 [] [108, 120, 8, 115]) @ [0]
          \<and> length (edit_line 4 [] [108, 120, 8, 115]) \<le> nat (4 - 1)
          \<and> (\<forall>x. x < unat (0x08048000 :: u32) \<or> unat (0x08048000 :: u32) + max 1 (nat 4) \<le> x \<longrightarrow> m' x = 7)"
proof (rule keyboard_readline_edits)
  show "key_queue typed_line = [108, 120, 8, 115] @ 10 # [65]"
    by (simp add: key_queue_def key_count_def typed_line_def idle_keyboard_def upt_rec)
qed (simp_all add: key_inv_def override_char_def typed_line_def idle_keyboard_def)

end
