(* ===== verification/Syscall_Trees.thy ===== *)
theory Syscall_Trees
  imports Syscall_Handler Users_Files Keyboard_Props
begin

text \<open>
  \<^verbatim>\<open>SYS_VFS_TREE\<close> always comes to an end, and prints the recursive listing of the tree when the
  tree fits its stack. The section before it collects how the file calls see the tree.
\<close>

section \<open>The tree behind a system call\<close>

lemma kfs_put_fs [simp]: "fs_nodes (kfs (put_fs s k)) = fs_nodes s" "fs_root (kfs (put_fs s k)) = fs_root s"
  by (simp_all add: kfs_def put_fs_def with_cred_def vfs_set_cred_provider_def)

lemma kfs_same [simp]: "fs_nodes (kfs k) = fs_nodes (ac_fs (k_ac k))" "fs_root (kfs k) = fs_root (ac_fs (k_ac k))"
  by (simp_all add: kfs_def with_cred_def vfs_set_cred_provider_def)

lemma knode_kfs: "knode i k = fs_nodes (kfs k) i"
  by (simp add: knode_def)

lemma kfs_put_rooted [simp]: "kfs (put_fs (rooted (kfs k)) k) = rooted (kfs k)"
  by (cases "cred_registered (k_ac k)")
    (simp_all add: kfs_def put_fs_def with_cred_def rooted_def vfs_set_cred_provider_def users_get_cred_def
      cong: option.case_cong)

lemma put_fs_frame [simp]:
  "k_mem (put_fs s k) = k_mem k" "k_fds (put_fs s k) = k_fds k" "k_pipes (put_fs s k) = k_pipes k"
  "k_ps (put_fs s k) = k_ps k" "k_dh (put_fs s k) = k_dh k" "k_dh_idx (put_fs s k) = k_dh_idx k"
  "k_vga (put_fs s k) = k_vga k" "k_cwd (put_fs s k) = k_cwd k" "k_kbd (put_fs s k) = k_kbd k"
  "users (k_ac (put_fs s k)) = users (k_ac k)" "ac_fs (k_ac (put_fs s k)) = s"
  "cur_user (k_ac (put_fs s k)) = cur_user (k_ac k)"
  by (simp_all add: put_fs_def)

lemma vfs_resolve_node:
  assumes "tree_ok s" "vfs_resolve path c s = Some (n, s')"
  shows "s' = rooted s" and "n = Some i \<Longrightarrow> \<exists>v. fs_nodes s i = Some v"
proof -
  show "s' = rooted s" by (rule vfs_resolve_state [OF assms])
  obtain norm s0 where n: "abs_normalize path c s = Some (norm, s0)"
    using assms(2) by (cases "abs_normalize path c s") (auto simp: vfs_resolve_def)
  obtain cs where cs: "norm = render cs" "\<forall>c \<in> set cs. name_ok c" by (rule abs_normalize_spec [OF assms(1) n])
  have "abs_normalize path c s = Some (render cs, s0)" using n cs(1) by simp
  from vfs_resolve_spec [OF assms(1) this cs(2)] assms(2) have w: "resolve_walk (fs_root s) cs s = n" by simp
  show "\<exists>v. fs_nodes s i = Some v" if "n = Some i"
    using resolve_walk_node [OF assms(1)] assms(1) w that by (metis tree_ok_def)
qed

lemma resolve_tree:
  assumes "tree_ok (kfs k)" "kresolve path k = Some (n, k1)"
  shows "k1 = put_fs (rooted (kfs k)) k" and "n = Some i \<Longrightarrow> \<exists>v. fs_nodes (kfs k) i = Some v"
  using assms vfs_resolve_node [OF assms(1), of path "k_cwd k" n]
  unfolding kresolve_def with_fs_def by auto

section \<open>The listing, recursively\<close>

text \<open>\<open>deep\<close>: how many levels below the node are still listed.\<close>

primrec tree_text :: "nat \<Rightarrow> fs \<Rightarrow> nat \<Rightarrow> nat \<Rightarrow> u8 list" where
  "tree_text 0 s d i = (case fs_nodes s i of None \<Rightarrow> [] | Some n \<Rightarrow> tree_line d n)"
| "tree_text (Suc deep) s d i =
     (case fs_nodes s i of
        None \<Rightarrow> []
      | Some n \<Rightarrow> tree_line d n @ concat (map (tree_text deep s (d + 1)) (dir_children n)))"

text \<open>How many lines that listing has.\<close>

primrec tree_lines :: "nat \<Rightarrow> fs \<Rightarrow> nat \<Rightarrow> nat" where
  "tree_lines 0 s i = 1"
| "tree_lines (Suc deep) s i =
     (case fs_nodes s i of
        None \<Rightarrow> 1
      | Some n \<Rightarrow> 1 + sum_list (map (tree_lines deep s) (dir_children n)))"

lemma tree_lines_pos: "Suc 0 \<le> tree_lines deep s i"
  by (cases deep) (auto split: option.split)

lemma sum_list_length: "(\<forall>x \<in> set xs. Suc 0 \<le> f x) \<Longrightarrow> length xs \<le> sum_list (map f xs)"
  by (induction xs) auto

lemma sum_list_drop: "sum_list (map f (drop j xs)) \<le> (sum_list (map f xs) :: nat)"
  by (induction xs arbitrary: j) (auto simp: drop_Cons split: nat.split intro: trans_le_add2)

section \<open>The stack computes it\<close>

lemma push_level_eq:
  assumes "length stk \<le> 256"
  shows "push_level cs d stk = map (\<lambda>c. (c, d)) (drop (length cs - (256 - length stk)) cs) @ stk"
  using assms
proof (induction cs arbitrary: stk rule: rev_induct)
  case Nil
  then show ?case by (simp add: push_level_def)
next
  case (snoc c cs)
  show ?case
  proof (cases "length stk < 256")
    case True
    then have "push_level (cs @ [c]) d stk = push_level cs d ((c, d) # stk)" by (simp add: push_level_def)
    also have "\<dots> = map (\<lambda>c. (c, d)) (drop (length cs - (255 - length stk)) cs) @ (c, d) # stk"
      using snoc.IH [of "(c, d) # stk"] True by simp
    also have "length cs - (255 - length stk) = length (cs @ [c]) - (256 - length stk)" using True by simp
    finally show ?thesis using True by simp
  next
    case False
    then show ?thesis using snoc.IH [of stk] snoc.prems by (simp add: push_level_def)
  qed
qed

definition stack_lines :: "nat \<Rightarrow> fs \<Rightarrow> (nat \<times> nat) list \<Rightarrow> nat" where
  "stack_lines max_d s stk = sum_list (map (\<lambda>(i, d). tree_lines (max_d - d) s i) stk)"

definition stack_text :: "nat \<Rightarrow> fs \<Rightarrow> (nat \<times> nat) list \<Rightarrow> u8 list" where
  "stack_text max_d s stk = concat (map (\<lambda>(i, d). tree_text (max_d - d) s d i) stk)"

lemma stack_lines_simps [simp]:
  "stack_lines max_d s [] = 0"
  "stack_lines max_d s ((i, d) # stk) = tree_lines (max_d - d) s i + stack_lines max_d s stk"
  by (simp_all add: stack_lines_def)

lemma stack_text_simps [simp]:
  "stack_text max_d s [] = []"
  "stack_text max_d s ((i, d) # stk) = tree_text (max_d - d) s d i @ stack_text max_d s stk"
  by (simp_all add: stack_text_def)

lemma stack_lines_length: "length stk \<le> stack_lines max_d s stk"
  unfolding stack_lines_def by (rule sum_list_length) (use tree_lines_pos in auto)

lemma stack_lines_level:
  "stack_lines max_d s (map (\<lambda>c. (c, d)) cs @ stk) = sum_list (map (tree_lines (max_d - d) s) cs) + stack_lines max_d s stk"
  by (induction cs) simp_all

lemma stack_text_level:
  "stack_text max_d s (map (\<lambda>c. (c, d)) cs @ stk) = concat (map (tree_text (max_d - d) s d) cs) @ stack_text max_d s stk"
  by (induction cs) simp_all

lemma expand:
  assumes "fs_nodes s i = Some n" "n_type n = VFS_DIRECTORY \<and> d < max_d"
  shows "tree_lines (max_d - d) s i = 1 + sum_list (map (tree_lines (max_d - (d + 1)) s) (n_children n))"
    and "tree_text (max_d - d) s d i = tree_line d n @ concat (map (tree_text (max_d - (d + 1)) s (d + 1)) (n_children n))"
proof -
  have e: "max_d - d = Suc (max_d - (d + 1))" using assms(2) by (simp add: Suc_diff_Suc)
  show "tree_lines (max_d - d) s i = 1 + sum_list (map (tree_lines (max_d - (d + 1)) s) (n_children n))"
    "tree_text (max_d - d) s d i = tree_line d n @ concat (map (tree_text (max_d - (d + 1)) s (d + 1)) (n_children n))"
    unfolding e using assms by (simp_all add: dir_children_def)
qed

lemma leaf:
  assumes "fs_nodes s i = Some n" "\<not> (n_type n = VFS_DIRECTORY \<and> d < max_d)"
  shows "tree_lines (max_d - d) s i = 1" "tree_text (max_d - d) s d i = tree_line d n"
  using assms by (cases "max_d - d"; auto simp: dir_children_def)+

lemma tree_loop_lists:
  assumes "tree_ok s" "\<forall>(i, d) \<in> set stk. fs_nodes s i \<noteq> None" "length stk \<le> 256"
  shows "\<exists>deep. tree_loop max_d s stk out = Some (out @ deep)
           \<and> (stack_lines max_d s stk \<le> 256 \<longrightarrow> deep = stack_text max_d s stk)"
  using assms(2,3)
proof (induction "stack_lines max_d s stk" arbitrary: stk out rule: less_induct)
  case less
  show ?case
  proof (cases stk)
    case Nil
    then show ?thesis by (subst tree_loop.simps) simp
  next
    case (Cons x rest)
    then obtain i d n where x: "stk = (i, d) # rest" "fs_nodes s i = Some n" using less.prems(1) by (cases x) auto
    note rest = less.prems [unfolded x(1)]
    show ?thesis
    proof (cases "n_type n = VFS_DIRECTORY \<and> d < max_d")
      case False
      have "stack_lines max_d s rest < stack_lines max_d s stk" using x(1) tree_lines_pos [of "max_d - d" s i] by simp
      from less.hyps [OF this, of "out @ tree_line d n"] rest False x leaf [OF x(2) False]
      show ?thesis by (subst tree_loop.simps) auto
    next
      case True
      let ?cs = "drop (length (n_children n) - (256 - length rest)) (n_children n)"
      let ?stk = "map (\<lambda>c. (c, d + 1)) ?cs @ rest"
      have push: "push_level (n_children n) (d + 1) rest = ?stk" using rest(2) by (intro push_level_eq) simp
      have p: "stack_lines max_d s stk = 1 + sum_list (map (tree_lines (max_d - (d + 1)) s) (n_children n)) + stack_lines max_d s rest"
        using expand(1) [OF x(2) True] x(1) by simp
      have smaller: "stack_lines max_d s ?stk < stack_lines max_d s stk"
        unfolding p stack_lines_level using sum_list_drop [of "tree_lines (max_d - (d + 1)) s"] by (simp add: le_imp_less_Suc)
      have nodes: "\<forall>(i, d) \<in> set ?stk. fs_nodes s i \<noteq> None"
        using rest(1) node_okD(6) [OF tree_okD [OF assms(1) x(2)]] by (auto dest!: in_set_dropD)
      have "length ?stk \<le> 256" using rest(2) by simp
      from less.hyps [OF smaller nodes this, of "out @ tree_line d n"] obtain deep where
        deep: "tree_loop max_d s ?stk (out @ tree_line d n) = Some ((out @ tree_line d n) @ deep)"
          "stack_lines max_d s ?stk \<le> 256 \<longrightarrow> deep = stack_text max_d s ?stk" by blast
      have step: "tree_loop max_d s stk out = tree_loop max_d s ?stk (out @ tree_line d n)"
        unfolding x(1) by (subst tree_loop.simps) (use x(2) True push in simp)
      have all: "?cs = n_children n" if "stack_lines max_d s stk \<le> 256"
      proof -
        have "length (n_children n) \<le> sum_list (map (tree_lines (max_d - (d + 1)) s) (n_children n))"
          by (rule sum_list_length) (use tree_lines_pos in auto)
        then show ?thesis using that p stack_lines_length [of rest max_d s] by simp
      qed
      have "tree_line d n @ deep = stack_text max_d s stk" if "stack_lines max_d s stk \<le> 256"
        using that deep(2) smaller expand(2) [OF x(2) True] all [OF that] stack_text_level [of max_d s "d + 1" "n_children n" rest]
        unfolding x(1) by simp
      then show ?thesis using deep(1) step by auto
    qed
  qed
qed

section \<open>Property\<close>

text \<open>
  C21: on a well-formed tree \<^verbatim>\<open>SYS_VFS_TREE\<close> returns for every root and depth limit, although its
  stack is bounded and its loop is not; and when the tree below the root has at most 256 lines it prints
  exactly the recursive pre-order listing down to that depth.
\<close>

theorem sys_vfs_tree_prints:
  assumes "tree_ok (kfs k)" "uaccess_ok a1 8" "ustr_opt (load32 a1 (k_mem k)) k = Some path"
    and "kresolve (case path of Some p \<Rightarrow> p | None \<Rightarrow> ''/'') k = Some (Some i, k')"
    and "levels = nat (let d = sint (load32 (a1 + 4) (k_mem k)) in if d > 0 then d else 32)"
  shows "\<exists>out. sys_vfs_tree a1 k = Some (0, k'\<lparr>k_vga := k_vga k @ out\<rparr>)
           \<and> (tree_lines levels (kfs k) i \<le> 256 \<longrightarrow> out = tree_text levels (kfs k) 0 i)"
proof -
  note r = resolve_tree [OF assms(1,4)]
  obtain v where v: "fs_nodes (kfs k) i = Some v" using r(2) by blast
  have t: "tree_ok (kfs k')" unfolding r(1) using assms(1) by (simp add: tree_ok_rooted)
  have same: "fs_nodes (kfs k') = fs_nodes (kfs k)" "k_mem k' = k_mem k" "k_vga k' = k_vga k" unfolding r(1) by simp_all
  have text_same: "tree_text m (kfs k') = tree_text m (kfs k)" "tree_lines m (kfs k') = tree_lines m (kfs k)" for m
    by (induction m; intro ext; simp add: same [unfolded kfs_same] cong: option.case_cong)+
  from tree_loop_lists [OF t, of "[(i, 0)]" levels "[]"] v same(1) obtain out where
    "tree_loop levels (kfs k') [(i, 0)] [] = Some out"
    "tree_lines levels (kfs k) i \<le> 256 \<longrightarrow> out = tree_text levels (kfs k) 0 i"
    by (auto simp: text_same)
  then show ?thesis using assms(2-5) same(2,3) by (auto simp: sys_vfs_tree_def Let_def)
qed

definition example_ksys :: ksys where
  "example_ksys = \<lparr>k_ac = example_accounts, k_ps = booted_ps, k_kbd = idle_keyboard, k_irqs = [], k_pipes = pipe_init,
     k_vmm = example_vmm, k_mem = (\<lambda>_. 0),
     k_fds = replicate 64 \<lparr>kf_node = None, kf_pos = 0, kf_flags = 0, kf_used = False, kf_owner_pid = 0\<rparr>,
     k_dh = replicate 32 None, k_dh_idx = replicate 32 0, k_cwd = Some 1, k_hostname = ''trinux'',
     k_vga = [], k_serial = [], k_capture = False, k_jmp = (False, 0)\<rparr>"

lemma example_kfs: "tree_ok (kfs example_ksys)"
  using example_users_tree tree_ok_with_cred [of example_accounts]
  by (simp add: kfs_def example_ksys_def example_accounts_def)

lemma example_root_node: "fs_root (kfs example_ksys) = Some 1"
  by (simp add: example_ksys_def example_accounts_def example_users_tree_def example_tree_def)

lemma example_resolve_root:
  "kresolve ''/'' example_ksys = Some (Some 1, put_fs (rooted (kfs example_ksys)) example_ksys)"
proof -
  have "render [] = ''/''" by (simp add: render_def)
  then have "vfs_resolve ''/'' (k_cwd example_ksys) (kfs example_ksys) = Some (Some 1, rooted (kfs example_ksys))"
    using vfs_resolve_render [OF example_kfs, of "[]" "k_cwd example_ksys"] example_root_node by simp
  then show ?thesis by (simp add: kresolve_def with_fs_def)
qed

theorem sys_vfs_tree_prints_witness:
  "\<exists>out. sys_vfs_tree 0x08048000 example_ksys
           = Some (0, (put_fs (rooted (kfs example_ksys)) example_ksys)\<lparr>k_vga := k_vga example_ksys @ out\<rparr>)
           \<and> (tree_lines 32 (kfs example_ksys) 1 \<le> 256 \<longrightarrow> out = tree_text 32 (kfs example_ksys) 0 1)"
proof (rule sys_vfs_tree_prints [OF example_kfs])
  have z: "load32 a (k_mem example_ksys) = 0" for a by (simp add: load32_def le32_def example_ksys_def)
  show "uaccess_ok 0x08048000 8" by (simp add: uaccess_ok_def)
  show "ustr_opt (load32 0x08048000 (k_mem example_ksys)) example_ksys = Some None" by (simp add: z ustr_opt_def)
  show "32 = nat (let d = sint (load32 (0x08048000 + 4) (k_mem example_ksys)) in if d > 0 then d else 32)" by (simp add: z)
qed (simp add: example_resolve_root)

end
