(* ===== verification/Syscall_Types.thy ===== *)
theory Syscall_Types
  imports Syscall_Trees
begin

text \<open>
  The kernel tables behind the system calls keep their types: whatever a program puts into its
  registers, and for every call that is not an argument of the handler, the tables of descriptors, directory handles, pipes and keys stay within their
  bounds, and a descriptor in use names a node.
\<close>

section \<open>The invariant\<close>

definition ksys_ok :: "ksys \<Rightarrow> bool" where
  "ksys_ok k \<longleftrightarrow> length (k_fds k) = FD_MAX \<and> (\<forall>i < 3. \<not> kf_used (k_fds k ! i))
     \<and> (\<forall>i < FD_MAX. kf_used (k_fds k ! i) \<longrightarrow> kf_node (k_fds k ! i) \<noteq> None)
     \<and> length (k_dh k) = DH_MAX \<and> length (k_dh_idx k) = DH_MAX \<and> k_dh k ! 0 = None
     \<and> table_inv (k_pipes k) \<and> key_inv (k_kbd k)"

lemma ksys_ok_frame [simp]:
  "ksys_ok (k\<lparr>k_ac := a\<rparr>) = ksys_ok k" "ksys_ok (k\<lparr>k_ps := s\<rparr>) = ksys_ok k" "ksys_ok (k\<lparr>k_vmm := v\<rparr>) = ksys_ok k"
  "ksys_ok (k\<lparr>k_mem := m\<rparr>) = ksys_ok k" "ksys_ok (k\<lparr>k_cwd := c\<rparr>) = ksys_ok k" "ksys_ok (k\<lparr>k_vga := bs\<rparr>) = ksys_ok k"
  "ksys_ok (k\<lparr>k_serial := bs\<rparr>) = ksys_ok k" "ksys_ok (k\<lparr>k_jmp := j\<rparr>) = ksys_ok k" "ksys_ok (k\<lparr>k_irqs := q\<rparr>) = ksys_ok k"
  "ksys_ok (put_fs fsys k) = ksys_ok k" "ksys_ok (ustore p bs k) = ksys_ok k" "ksys_ok (ustore32 p w k) = ksys_ok k"
  "ksys_ok (ustore_name p len name k) = ksys_ok k" "ksys_ok (upd_knode i f k) = ksys_ok k"
  by (simp_all add: ksys_ok_def put_fs_def ustore_def ustore32_def ustore_name_def upd_knode_def)

section \<open>What a call ensures\<close>

text \<open>The rules follow the structure of a case: tests, matches and sequences of calls.\<close>

definition ensures :: "(ksys \<Rightarrow> bool) \<Rightarrow> ('a \<times> ksys) option \<Rightarrow> bool" where
  "ensures P r \<longleftrightarrow> (\<forall>x k'. r = Some (x, k') \<longrightarrow> P k')"

lemma ensuresD: "ensures P r \<Longrightarrow> r = Some (x, k') \<Longrightarrow> P k'"
  by (simp add: ensures_def)

lemma ensures_None: "ensures P None"
  by (simp add: ensures_def)

lemma ensures_Some: "P k \<Longrightarrow> ensures P (Some (x, k))"
  by (simp add: ensures_def)

lemma ensures_if: "(b \<Longrightarrow> ensures P r) \<Longrightarrow> (\<not> b \<Longrightarrow> ensures P q) \<Longrightarrow> ensures P (if b then r else q)"
  by simp

lemma ensures_let: "ensures P (f x) \<Longrightarrow> ensures P (Let x f)"
  by (simp add: Let_def)

lemma ensures_option:
  "(c = None \<Longrightarrow> ensures P r) \<Longrightarrow> (\<And>x. c = Some x \<Longrightarrow> ensures P (f x)) \<Longrightarrow>
     ensures P (case c of None \<Rightarrow> r | Some x \<Rightarrow> f x)"
  by (cases c) simp_all

lemma ensures_prod: "(\<And>x y. p = (x, y) \<Longrightarrow> ensures P (f x y)) \<Longrightarrow> ensures P (case p of (x, y) \<Rightarrow> f x y)"
  by (cases p) simp

lemma ensures_bind_call:
  "ensures P r \<Longrightarrow> (\<And>x k'. P k' \<Longrightarrow> ensures P (f x k')) \<Longrightarrow> ensures P (Option.bind r (\<lambda>(x, k'). f x k'))"
  by (auto simp: ensures_def bind_eq_Some_conv)

lemma ensures_bind: "(\<And>x. r = Some x \<Longrightarrow> ensures P (f x)) \<Longrightarrow> ensures P (Option.bind r f)"
  by (auto simp: ensures_def bind_eq_Some_conv)

lemma ensures_map: "(\<And>x. r = Some x \<Longrightarrow> ensures P (Some (f x))) \<Longrightarrow> ensures P (map_option f r)"
  by (auto simp: ensures_def)

lemma ensures_map_call:
  "ensures P r \<Longrightarrow> (\<And>x k'. P k' \<Longrightarrow> ensures P (Some (f (x, k')))) \<Longrightarrow> ensures P (map_option f r)"
  by (auto simp: ensures_def)

lemmas ensures_step =
  ensures_None ensures_Some ensures_if ensures_let ensures_option ensures_prod

named_theorems sys_ok \<open>system calls that keep the tables well typed\<close>

lemma with_fs_ok [sys_ok]: "ksys_ok k \<Longrightarrow> ensures ksys_ok (with_fs r k)"
  by (auto simp: with_fs_def ensures_def)

lemma resolve_ok [sys_ok]: "ksys_ok k \<Longrightarrow> ensures ksys_ok (kresolve path k)"
  unfolding kresolve_def by (rule with_fs_ok)

lemma kwrite_ok [sys_ok]: "ksys_ok k \<Longrightarrow> ensures ksys_ok (kwrite dev i off bs k)"
  unfolding kwrite_def by (rule with_fs_ok)

section \<open>Calls that leave the tables alone\<close>

lemma file_calls_ok [sys_ok]:
    "ksys_ok k \<Longrightarrow> ensures ksys_ok (sys_readfile dev a1 a2 a3 k)"
    "ksys_ok k \<Longrightarrow> ensures ksys_ok (sys_writefile dev a1 a2 a3 k)"
    "ksys_ok k \<Longrightarrow> ensures ksys_ok (sys_rename dev a1 a2 k)"
    "ksys_ok k \<Longrightarrow> ensures ksys_ok (sys_write a2 a3 k)"
    "ksys_ok k \<Longrightarrow> ensures ksys_ok (sys_getcwd a1 a2 k)"
    "ksys_ok k \<Longrightarrow> ensures ksys_ok (sys_chdir a1 k)"
    "ksys_ok k \<Longrightarrow> ensures ksys_ok (sys_mkdir a1 k)"
    "ksys_ok k \<Longrightarrow> ensures ksys_ok (sys_unlink a1 k)"
    "ksys_ok k \<Longrightarrow> ensures ksys_ok (sys_rmdir a1 k)"
    "ksys_ok k \<Longrightarrow> ensures ksys_ok (sys_stat a1 a2 k)"
    "ksys_ok k \<Longrightarrow> ensures ksys_ok (sys_resolve a1 a2 a3 k)"
    "ksys_ok k \<Longrightarrow> ensures ksys_ok (sys_chmod a1 a2 k)"
    "ksys_ok k \<Longrightarrow> ensures ksys_ok (sys_chown a1 a2 a3 k)"
  unfolding sys_readfile_def sys_writefile_def sys_rename_def sys_write_def sys_getcwd_def sys_chdir_def
    sys_mkdir_def sys_unlink_def sys_rmdir_def sys_stat_def sys_resolve_def sys_chmod_def sys_chown_def
  by (assumption | rule ensures_step ensures_bind_call sys_ok ensures_bind | simp)+

lemma answer_name_ok [sys_ok]:
    "ksys_ok k \<Longrightarrow> ensures ksys_ok (answer_name name a1 a2 k)"
  unfolding answer_name_def
  by (assumption | rule ensures_step ensures_bind_call sys_ok ensures_bind | simp)+

lemma plain_calls_ok [sys_ok]:
    "ksys_ok k \<Longrightarrow> ensures ksys_ok (sys_getuid k)"
    "ksys_ok k \<Longrightarrow> ensures ksys_ok (sys_useradd dev a1 k)"
    "ksys_ok k \<Longrightarrow> ensures ksys_ok (sys_passwd dev a1 k)"
    "ksys_ok k \<Longrightarrow> ensures ksys_ok (sys_login dev a1 a2 k)"
    "ksys_ok k \<Longrightarrow> ensures ksys_ok (sys_logout k)"
    "ksys_ok k \<Longrightarrow> ensures ksys_ok (sys_su dev a1 a2 k)"
    "ksys_ok k \<Longrightarrow> ensures ksys_ok (sys_getgroups a1 k)"
    "ksys_ok k \<Longrightarrow> ensures ksys_ok (sys_meminfo a1 k)"
    "ksys_ok k \<Longrightarrow> ensures ksys_ok (sys_dfinfo a1 k)"
    "ksys_ok k \<Longrightarrow> ensures ksys_ok (sys_kill a1 a2 k)"
    "ksys_ok k \<Longrightarrow> ensures ksys_ok (sys_renice a1 a2 k)"
    "ksys_ok k \<Longrightarrow> ensures ksys_ok (sys_signal a1 a2 k)"
    "ksys_ok k \<Longrightarrow> ensures ksys_ok (sys_getpid k)"
    "ksys_ok k \<Longrightarrow> ensures ksys_ok (sys_getppid k)"
    "ksys_ok k \<Longrightarrow> ensures ksys_ok (sys_yield yield k)"
    "ksys_ok k \<Longrightarrow> ensures ksys_ok (sys_uptime k)"
    "ksys_ok k \<Longrightarrow> ensures ksys_ok (sys_brk a1 k)"
    "ksys_ok k \<Longrightarrow> ensures ksys_ok (sys_vfs_tree a1 k)"
  unfolding sys_getuid_def sys_useradd_def sys_passwd_def sys_login_def sys_logout_def sys_su_def sys_getgroups_def
    sys_meminfo_def sys_dfinfo_def sys_kill_def sys_renice_def sys_signal_def sys_getpid_def sys_getppid_def
    sys_yield_def sys_uptime_def sys_brk_def sys_vfs_tree_def
  by (assumption | rule ensures_step ensures_bind_call sys_ok ensures_bind | simp)+

lemma sys_names_ok [sys_ok]:
  "ksys_ok k \<Longrightarrow> ensures ksys_ok (sys_hostname a1 a2 k)" "ksys_ok k \<Longrightarrow> ensures ksys_ok (sys_getuser a1 a2 k)"
  unfolding sys_hostname_def sys_getuser_def by (rule answer_name_ok, assumption)+

lemma sys_waitpid_ok [sys_ok]: "ksys_ok k \<Longrightarrow> ensures ksys_ok (sys_waitpid yield fuel a1 a2 a3 k)"
  unfolding sys_waitpid_def
  by (auto intro!: ensures_step ensures_map simp: ensures_def Let_def split: option.splits if_splits)

lemma sys_sync_ok [sys_ok]: "ksys_ok k \<Longrightarrow> ensures ksys_ok (sys_sync k)"
  unfolding sys_sync_def by (rule ensures_map_call [OF with_fs_ok]) (auto intro: ensures_Some)

lemma list_users_ok: "ksys_ok k \<Longrightarrow> ksys_ok (snd (list_users js r n k))"
  by (induction js r n k rule: list_users.induct) (auto simp: user_entry_def split: option.split)

lemma list_procs_ok: "ksys_ok k \<Longrightarrow> ksys_ok (snd (list_procs js r n k))"
  by (induction js r n k rule: list_procs.induct) (auto simp: proc_entry_def split: option.split)

lemma sys_lists_ok [sys_ok]:
  "ksys_ok k \<Longrightarrow> ensures ksys_ok (sys_userlist a1 k)" "ksys_ok k \<Longrightarrow> ensures ksys_ok (sys_listproc a1 k)"
  using list_users_ok [of k] list_procs_ok [of k] unfolding sys_userlist_def sys_listproc_def
  by (auto intro!: ensures_step dest!: arg_cong [of _ _ snd])

lemma store_path_ok [simp]: "ksys_ok (store_path r off bs k) = ksys_ok k"
  by (induction bs arbitrary: off k) simp_all

lemma find_loop_ok:
  assumes "find_loop r needle stk got k = Some y"
  shows "ksys_ok k \<longrightarrow> ksys_ok (snd y)"
proof (rule find_loop.raw_induct [where P = "\<lambda>r needle stk got k y. ksys_ok k \<longrightarrow> ksys_ok (snd y)", OF _ assms], goal_cases)
  case (1 loop r needle stk got k y)
  from 1(2) show ?case
    by (auto simp: bind_eq_Some_conv Let_def split: if_splits dest!: 1(1))
qed

lemma sys_vfs_find_ok [sys_ok]: "ksys_ok k \<Longrightarrow> ensures ksys_ok (sys_vfs_find a1 k)"
proof -
  have find: "ksys_ok k \<Longrightarrow> ensures ksys_ok (find_loop r needle stk got k)" for r needle stk got k
    using find_loop_ok by (fastforce simp: ensures_def)
  show "ksys_ok k \<Longrightarrow> ensures ksys_ok (sys_vfs_find a1 k)"
    unfolding sys_vfs_find_def
    by (assumption | rule ensures_step ensures_bind_call sys_ok find ensures_bind | simp)+
qed

section \<open>Pipes and keys\<close>

lemma table_inv_pipe_read:
  assumes "table_inv t" "pipe_read fd len t = Some (r, t')"
  shows "table_inv t'"
proof (cases "t' = t")
  case False
  then obtain p where p: "nat (fd_to_slot fd) < PIPE_MAX_OPEN"
    "pipe_read_loop len [] (pipes t ! nat (fd_to_slot fd)) = (r, p)" "t' = t\<lparr>pipes := (pipes t)[nat (fd_to_slot fd) := p]\<rparr>"
    using assms(2) by (auto simp: pipe_read_def Let_def split: if_splits prod.splits)
  from pipe_read_loop_spec [OF table_invD(3) [OF assms(1) p(1)] _ p(2)]
  show ?thesis unfolding p(3) by (intro table_inv_update [OF assms(1) p(1)]) auto
qed (use assms in simp)

lemma table_inv_pipe_write:
  assumes "table_inv t" "pipe_write fd src t = Some (r, t')"
  shows "table_inv t'"
proof (cases "t' = t")
  case False
  then obtain p where p: "nat (fd_to_slot fd) < PIPE_MAX_OPEN"
    "pipe_write_loop [] src (pipes t ! nat (fd_to_slot fd)) = (r, p)" "t' = t\<lparr>pipes := (pipes t)[nat (fd_to_slot fd) := p]\<rparr>"
    using assms(2) by (auto simp: pipe_write_def Let_def split: if_splits prod.splits)
  from pipe_write_loop_spec [OF table_invD(3) [OF assms(1) p(1)] p(2)]
  show ?thesis unfolding p(3) by (intro table_inv_update [OF assms(1) p(1)]) auto
qed (use assms in simp)

lemma close_pipes_inv: "table_inv t \<Longrightarrow> close_pipes fds t = Some t' \<Longrightarrow> table_inv t'"
  by (induction fds arbitrary: t) (auto simp: bind_eq_Some_conv split: if_splits dest: table_inv_close)

lemma buf_push_inv: "key_inv (fst ks) \<Longrightarrow> key_inv (fst (buf_push x ks))"
proof -
  assume inv: "key_inv (fst ks)"
  obtain k s where ks: "ks = (k, s)" by (cases ks)
  show "key_inv (fst (buf_push x ks))"
    using inv key_count_bound [of k] buf_push_full [of k x s] buf_push_room(2) [of k x s]
    unfolding ks by (cases "key_count k = BUF_SIZE - 1") auto
qed

lemma buf_pop_inv: "key_inv k \<Longrightarrow> key_inv (snd (buf_pop k))"
  by (simp add: buf_pop_def key_inv_def)

lemma plain_key_inv: "key_inv (fst ks) \<Longrightarrow> key_inv (fst (plain_key code ks))"
  using buf_push_inv [of ks] unfolding plain_key_def Let_def by (auto split: option.split prod.split)

lemma key_inv_cong: "khead k' = khead k \<Longrightarrow> ktail k' = ktail k \<Longrightarrow> key_inv k' = key_inv k"
  by (simp add: key_inv_def)

lemma age_modifiers_ring [simp]: "khead (age_modifiers k) = khead k" "ktail (age_modifiers k) = ktail k"
  by (simp_all add: age_modifiers_def Let_def)

lemma handle_scancode_inv:
  assumes "key_inv (fst ks)"
  shows "key_inv (fst (handle_scancode sc ks))"
proof -
  obtain k s where ks: "ks = (k, s)" by (cases ks)
  have frame: "key_inv (k\<lparr>extended := b\<rparr>)" "key_inv (k\<lparr>extended := b, ctrl_down := c, ctrl_age := n\<rparr>)"
    "key_inv (k\<lparr>extended := b, alt_down := c, alt_age := n\<rparr>)" "key_inv (k\<lparr>shift_down := c, shift_age := n\<rparr>)"
    "key_inv (k\<lparr>ctrl_down := c, ctrl_age := n\<rparr>)" "key_inv (k\<lparr>alt_down := c, alt_age := n\<rparr>)" "key_inv (k\<lparr>caps_lock := c\<rparr>)"
    "key_inv (age_modifiers k)" for b c n
    using assms unfolding ks by (simp_all add: key_inv_def)
  have "key_inv (fst (extended_key released code (k\<lparr>extended := False\<rparr>, s)))" for released code
    unfolding extended_key_def using frame buf_push_inv [of "(k\<lparr>extended := False\<rparr>, s)"] by simp
  then show ?thesis
    unfolding handle_scancode_def ks Let_def
    using assms frame plain_key_inv [of "(age_modifiers k, s)"] ks by simp
qed

lemma drain_inv: "key_inv (fst ks) \<Longrightarrow> key_inv (fst (drain guard pending ks))"
  by (induction guard pending ks rule: drain.induct) (auto simp: Let_def handle_scancode_inv)

lemma wait_key_inv: "wait_key irqs (k, s) = Some (key, irqs', k', s') \<Longrightarrow> key_inv k \<Longrightarrow> key_inv k'"
proof (induction irqs arbitrary: k s)
  case Nil
  then show ?case using buf_pop_inv [of k] by (auto split: prod.splits if_splits)
next
  case (Cons pending irqs)
  obtain x k2 where pop: "buf_pop k = (x, k2)" by (cases "buf_pop k")
  have k2: "key_inv k2" using buf_pop_inv [OF Cons.prems(2)] pop by simp
  then have "key_inv (fst (keyboard_callback pending (k2, s)))" using drain_inv by (simp add: keyboard_callback_def)
  then show ?case
    using Cons.prems Cons.IH [of "fst (keyboard_callback pending (k2, s))" "snd (keyboard_callback pending (k2, s))"] pop k2
    by (auto split: if_splits)
qed

lemma override_char_inv: "override_char k = Some (c, k') \<Longrightarrow> key_inv k \<Longrightarrow> key_inv k'"
  by (auto simp: override_char_def key_inv_def split: option.splits if_splits)

lemma keyboard_getchar_inv:
  "keyboard_getchar irqs (k, s) = Some (key, irqs', k', s') \<Longrightarrow> key_inv k \<Longrightarrow> key_inv k'"
  unfolding keyboard_getchar_def
  by (auto split: option.splits simp del: wait_key.simps dest: override_char_inv wait_key_inv)

lemma readline_loop_inv:
  assumes "readline_loop a max_len len irqs ks m out = Some y"
  shows "key_inv (fst ks) \<longrightarrow> (case y of (n, irqs', (k', s'), m', out') \<Rightarrow> key_inv k')"
proof (rule readline_loop.raw_induct [where P =
      "\<lambda>a max_len len irqs ks m out y. key_inv (fst ks) \<longrightarrow> (case y of (n, irqs', (k', s'), m', out') \<Rightarrow> key_inv k')", OF _ assms], goal_cases)
  case (1 loop a max_len len irqs ks m out y)
  obtain k s where ks: "ks = (k, s)" by (cases ks)
  from 1(2) obtain key irqs' k' s' where get: "keyboard_getchar irqs ks = Some (key, irqs', k', s')"
    by (auto simp: bind_eq_Some_conv)
  have "key_inv (fst ks) \<longrightarrow> key_inv k'" using keyboard_getchar_inv get unfolding ks by auto
  with 1(2) show ?case unfolding get by (auto split: if_splits prod.splits dest!: 1(1))
qed

lemma keyboard_readline_inv:
  "keyboard_readline a max_len irqs (k, s) m = Some (n, irqs', (k', s'), m', out) \<Longrightarrow> key_inv k \<Longrightarrow> key_inv k'"
  unfolding keyboard_readline_def by (drule readline_loop_inv) simp

section \<open>Calls that change the tables\<close>

lemma ksys_ok_pipes: "ksys_ok k \<Longrightarrow> table_inv t \<Longrightarrow> ksys_ok (k\<lparr>k_pipes := t\<rparr>)"
  by (simp add: ksys_ok_def)

lemma ksys_ok_kbd: "ksys_ok k \<Longrightarrow> key_inv kbd \<Longrightarrow> ksys_ok (k\<lparr>k_kbd := kbd\<rparr>)"
  by (simp add: ksys_ok_def)

lemma ksys_okD: "ksys_ok k \<Longrightarrow> table_inv (k_pipes k)" "ksys_ok k \<Longrightarrow> key_inv (k_kbd k)"
  by (simp_all add: ksys_ok_def)

lemma ksys_ok_upd_fd:
  assumes "ksys_ok k" "3 \<le> i" "kf_used (f (k_fds k ! i)) \<Longrightarrow> kf_node (f (k_fds k ! i)) \<noteq> None"
  shows "ksys_ok (upd_fd i f k)"
  using assms by (cases "i < FD_MAX") (auto simp: ksys_ok_def upd_fd_def nth_list_update)

lemma open_fd_Some: "open_fd fd k = Some d \<Longrightarrow> 3 \<le> d \<and> d < FD_MAX \<and> kf_used (k_fds k ! d) \<and> fd = int d"
  by (auto simp: open_fd_def split: if_splits)

lemma alloc_fd_Some:
  "alloc_fd k = (Some d, k') \<Longrightarrow> 3 \<le> d \<and> d < FD_MAX \<and> \<not> kf_used (k_fds k ! d)
     \<and> k' = upd_fd d (\<lambda>x. x\<lparr>kf_owner_pid := current_pid k\<rparr>) k"
  by (auto simp: alloc_fd_def first_index_Some split: option.splits)

lemma clean_fd_nth:
  "i < length ds \<Longrightarrow> map (\<lambda>(i, d). clean_fd p i d) (enumerate 0 ds) ! i = clean_fd p i (ds ! i)"
  by (simp add: nth_enumerate_eq)

lemma fd_cleanup_ok:
  assumes "ksys_ok k" "fd_cleanup_process p k = Some k'"
  shows "ksys_ok k'"
proof -
  obtain t where t: "close_pipes [100..131] (k_pipes k) = Some t"
    "k' = k\<lparr>k_fds := map (\<lambda>(i, d). clean_fd p i d) (enumerate 0 (k_fds k)), k_pipes := t\<rparr>"
    using assms(2) by (auto simp: fd_cleanup_process_def Let_def simp del: upto_rec_numeral)
  have "table_inv t" by (rule close_pipes_inv [OF ksys_okD(1) [OF assms(1)] t(1)])
  moreover define ds where "ds = map (\<lambda>(i, d). clean_fd p i d) (enumerate 0 (k_fds k))"
  have kept: "kf_used (ds ! i) \<longrightarrow> kf_used (k_fds k ! i) \<and> kf_node (ds ! i) = kf_node (k_fds k ! i)" if "i < FD_MAX" for i
    using clean_fd_nth [of i "k_fds k" p] that assms(1) by (simp add: ds_def clean_fd_def ksys_ok_def)
  have "\<not> kf_used (ds ! i)" if "i < 3" for i using kept [of i] that assms(1) by (simp add: ksys_ok_def)
  moreover have "length ds = FD_MAX" using assms(1) by (simp add: ds_def ksys_ok_def)
  ultimately show ?thesis using assms(1) kept unfolding t(2) ds_def [symmetric] ksys_ok_def by simp
qed

lemma perform_ok: "perform es k = Some k' \<Longrightarrow> ksys_ok k \<Longrightarrow> ksys_ok k'"
  by (induction es k rule: perform.induct) (auto simp: bind_eq_Some_conv dest: fd_cleanup_ok)

lemma run_ps_ok [sys_ok]: "ksys_ok k \<Longrightarrow> ensures ksys_ok (run_ps f k)"
  by (auto simp: run_ps_def ensures_def split: prod.splits dest!: perform_ok)

lemma leave_cpu_ok: "ksys_ok k \<Longrightarrow> ensures ksys_ok (Some (leave_cpu eax k))"
  by (simp add: leave_cpu_def ensures_def Let_def)

lemma sys_exit_ok [sys_ok]: "ksys_ok k \<Longrightarrow> ensures ksys_ok (sys_exit eax a1 k)"
  unfolding sys_exit_def by (assumption | rule leave_cpu_ok ensures_step ensures_bind_call sys_ok | simp)+

lemma sys_opendir_ok [sys_ok]: "ksys_ok k \<Longrightarrow> ensures ksys_ok (sys_opendir a1 k)"
  unfolding sys_opendir_def
  by (assumption | rule ensures_step ensures_bind_call sys_ok ensures_bind
    | simp add: ksys_ok_def first_index_Some nth_list_update)+

lemma sys_closedir_ok [sys_ok]: "ksys_ok k \<Longrightarrow> ensures ksys_ok (sys_closedir a1 k)"
  by (auto simp: sys_closedir_def ensures_def Let_def ksys_ok_def nth_list_update)

lemma sys_readdir_ok [sys_ok]: "ksys_ok k \<Longrightarrow> ensures ksys_ok (sys_readdir a1 a2 k)"
  unfolding sys_readdir_def
  by (assumption | rule ensures_step ensures_bind | simp | simp add: ksys_ok_def)+

lemma sys_file_open_ok [sys_ok]:
  assumes "ksys_ok k"
  shows "ensures ksys_ok (sys_file_open a1 a2 k)"
proof -
  have finish: "ksys_ok (upd_fd d (\<lambda>x. x\<lparr>kf_flags := a2, kf_used := True\<rparr>)
        (if b then upd_knode i f (upd_fd d (\<lambda>x. x\<lparr>kf_node := Some i, kf_pos := pos\<rparr>) k') else upd_fd d (\<lambda>x. x\<lparr>kf_node := Some i, kf_pos := pos\<rparr>) k'))"
    if "ksys_ok k0" "alloc_fd k0 = (x, k')" "x = Some d" for k0 k' d b i f pos x
    using that(1) alloc_fd_Some [OF that(2) [unfolded that(3)]]
    by (auto simp: ksys_ok_def upd_fd_def upd_knode_def put_fs_def nth_list_update)
  have none: "ksys_ok k'" if "ksys_ok k0" "alloc_fd k0 = (x, k')" "x = None" for k0 k' x
    using that by (auto simp: alloc_fd_def split: option.splits)
  show ?thesis unfolding sys_file_open_def using assms
    by - (assumption | rule ensures_step ensures_bind_call sys_ok ensures_bind | rule finish none, assumption+)+
qed

lemma sys_file_close_ok [sys_ok]: "ksys_ok k \<Longrightarrow> ensures ksys_ok (sys_file_close a1 k)"
  by (auto simp: sys_file_close_def ensures_def Let_def intro!: ksys_ok_pipes ksys_ok_upd_fd
      dest: table_inv_close [OF ksys_okD(1)])

lemma sys_file_seek_ok [sys_ok]: "ksys_ok k \<Longrightarrow> ensures ksys_ok (sys_file_seek a1 a2 a3 k)"
  unfolding sys_file_seek_def
  by (auto simp: ensures_def bind_eq_Some_conv Let_def ksys_ok_def upd_fd_def nth_list_update split: option.splits if_splits
      dest!: open_fd_Some)

lemma sys_pipe_ok [sys_ok]: "ksys_ok k \<Longrightarrow> ensures ksys_ok (sys_pipe a2 k)"
  unfolding sys_pipe_def using table_inv_create [OF ksys_okD(1), of k] ksys_ok_pipes [of k]
  by (cases "pipe_create (k_pipes k)") (auto simp: ensures_def Let_def split: option.splits if_splits)

lemma sys_pipe_close_ok [sys_ok]: "ksys_ok k \<Longrightarrow> ensures ksys_ok (sys_pipe_close a1 k)"
  by (auto simp: sys_pipe_close_def ensures_def intro!: ksys_ok_pipes dest: table_inv_close [OF ksys_okD(1)])

lemma wait_char_ok: "ksys_ok k \<Longrightarrow> ensures ksys_ok (wait_char f k)"
  by (auto simp: wait_char_def ensures_def intro!: ksys_ok_kbd dest: keyboard_getchar_inv [OF _ ksys_okD(2)])

lemma sys_keys_ok [sys_ok]:
  "ksys_ok k \<Longrightarrow> ensures ksys_ok (sys_getc k)" "ksys_ok k \<Longrightarrow> ensures ksys_ok (sys_key_raw k)"
  by (simp_all add: sys_getc_def sys_key_raw_def wait_char_ok)

lemma buf_override_inv: "key_inv k \<Longrightarrow> keyboard_try_getchar k = (key, k') \<Longrightarrow> key_inv k'"
  unfolding keyboard_try_getchar_def using buf_pop_inv [of k]
  by (auto split: option.splits dest: override_char_inv)

lemma sys_key_poll_ok [sys_ok]: "ksys_ok k \<Longrightarrow> ensures ksys_ok (sys_key_poll k)"
  by (auto simp: sys_key_poll_def ensures_def split: prod.splits intro!: ksys_ok_kbd dest: buf_override_inv [OF ksys_okD(2)])

lemma readline_ok:
  assumes "ksys_ok k" "keyboard_readline a n (k_irqs k) (k_kbd k, k_ps k) (k_mem k) = Some (r, irqs, (kbd, s), m, out)"
  shows "ksys_ok (k\<lparr>k_irqs := irqs, k_kbd := kbd, k_ps := s, k_mem := m, k_vga := v\<rparr>)"
proof -
  have "key_inv kbd" by (rule keyboard_readline_inv [OF assms(2) ksys_okD(2) [OF assms(1)]])
  with ksys_ok_kbd [OF assms(1)] have "ksys_ok (k\<lparr>k_kbd := kbd\<rparr>)" by simp
  then show ?thesis by (simp add: ksys_ok_def)
qed

lemma sys_getline_ok [sys_ok]: "ksys_ok k \<Longrightarrow> ensures ksys_ok (sys_getline a1 a2 k)"
  by (auto simp: sys_getline_def ensures_def dest: readline_ok)

lemma raise_sigpipe_ok [simp]: "ksys_ok (raise_sigpipe k) = ksys_ok k"
  by (simp add: raise_sigpipe_def split: option.split)

lemma sys_file_read_ok [sys_ok]:
  assumes ok: "ksys_ok k"
  shows "ensures ksys_ok (sys_file_read dev a1 a2 a3 k)"
proof -
  have moved: "ksys_ok (upd_fd d (\<lambda>x. x\<lparr>kf_pos := kf_pos x + n\<rparr>) (ustore a bs k))" if "open_fd fd k = Some d" for fd d n a bs
    using open_fd_Some [OF that] ok by (intro ksys_ok_upd_fd) (auto simp: ustore_def ksys_ok_def)
  have keys: "ensures ksys_ok (map_option
      (\<lambda>(n, irqs, (kbd, s), m, out).
         (Resume (word_of_int n), k\<lparr>k_irqs := irqs, k_kbd := kbd, k_ps := s, k_mem := m, k_vga := k_vga k @ out\<rparr>))
      (keyboard_readline a2 (sint a3) (k_irqs k) (k_kbd k, k_ps k) (k_mem k)))"
    using ok by (auto simp: ensures_def dest: readline_ok)
  have pipe: "ensures ksys_ok (map_option (\<lambda>(r, t). (io_eax r, ustore a2 (f r) (k\<lparr>k_pipes := t\<rparr>))) (pipe_read fd n (k_pipes k)))" for fd n f
    using ksys_ok_pipes [OF ok] table_inv_pipe_read [OF ksys_okD(1) [OF ok]] by (auto simp: ensures_def)
  show ?thesis
    unfolding sys_file_read_def using ok
    by - (assumption | rule ensures_step keys pipe ensures_bind moved)+
qed

lemma sys_file_write_ok [sys_ok]:
  assumes ok: "ksys_ok k"
  shows "ensures ksys_ok (sys_file_write dev a1 a2 a3 k)"
proof -
  have moved: "ksys_ok (upd_fd d (\<lambda>x. x\<lparr>kf_pos := kf_pos x + n\<rparr>) k')"
    if "open_fd fd k = Some d" "kwrite dev i off bs k = Some (n, k')" for fd d n i off bs k'
  proof (rule ksys_ok_upd_fd)
    have "k_fds k' = k_fds k" using that(2) by (auto simp: kwrite_def with_fs_def put_fs_def)
    then show "kf_used ((k_fds k' ! d)\<lparr>kf_pos := kf_pos (k_fds k' ! d) + n\<rparr>) \<Longrightarrow>
        kf_node ((k_fds k' ! d)\<lparr>kf_pos := kf_pos (k_fds k' ! d) + n\<rparr>) \<noteq> None"
      using open_fd_Some [OF that(1)] ok by (simp add: ksys_ok_def)
  qed (use ensuresD [OF kwrite_ok [OF ok] that(2)] open_fd_Some [OF that(1)] in simp_all)
  have signal: "ksys_ok (case r of Io_done n bs \<Rightarrow> if n < 0 then raise_sigpipe k' else k' | Io_blocked bs \<Rightarrow> k')"
    if "ksys_ok k'" for r k'
    using that by (simp split: io_outcome.split)
  have pipe: "ensures ksys_ok (map_option
      (\<lambda>(r, t). let k = k\<lparr>k_pipes := t\<rparr>
                in (io_eax r, case r of Io_done n bs \<Rightarrow> if n < 0 then raise_sigpipe k else k | Io_blocked bs \<Rightarrow> k))
      (pipe_write fd bs (k_pipes k)))" for fd bs
    using ksys_ok_pipes [OF ok] table_inv_pipe_write [OF ksys_okD(1) [OF ok]]
    by (auto simp: ensures_def Let_def intro!: signal)
  have shown: "ksys_ok (k\<lparr>k_vga := v, k_serial := w\<rparr>)" for v w using ok by simp
  have seq: "ensures ksys_ok (Option.bind (kwrite dev i off bs k)
      (\<lambda>(n, k'). Some (Resume n, upd_fd d (\<lambda>d. d\<lparr>kf_pos := kf_pos d + n\<rparr>) k')))" if "open_fd fd k = Some d" for fd d i off bs
    using moved [OF that] by (auto simp: ensures_def bind_eq_Some_conv)
  show ?thesis
    unfolding sys_file_write_def using ok
    by - (assumption | rule seq ensures_step pipe shown ensures_bind)+
qed

section \<open>The handler\<close>

lemma resume_ok [sys_ok]: "ensures ksys_ok r \<Longrightarrow> ensures ksys_ok (resume r)"
  by (auto simp: resume_def ensures_def)

lemma dispatch_ok:
  assumes "ksys_ok k" "num \<notin> set driver_calls"
  shows "ensures ksys_ok (dispatch e num a1 a2 a3 k)"
  unfolding dispatch_def using assms(1)
  by - (assumption | rule sys_ok ensures_if ensures_Some notE [OF assms(2)])+

lemma deliver_pending_ok: "ksys_ok k \<Longrightarrow> ksys_ok (snd (deliver_pending eax k))"
  by (auto simp: deliver_pending_def Let_def split: prod.split)

lemma handler_ensures:
  assumes "P k" "ensures P (dispatch e num a1 a2 a3 k)" "\<And>eax q. P q \<Longrightarrow> P (snd (deliver_pending eax q))"
  shows "ensures P (syscall_handler e num a1 a2 a3 k)"
proof -
  have "ensures P (Some (case (x, k') of (r, k) \<Rightarrow> case r of Resume eax \<Rightarrow> deliver_pending eax k | _ \<Rightarrow> (r, k)))"
    if "P k'" for x k'
    using assms(3) [OF that] that by (cases x) (simp_all add: ensures_def, metis snd_conv)
  then show ?thesis
    unfolding syscall_handler_def by (intro ensures_if ensures_Some assms(1) ensures_map_call [OF assms(2)])
qed

text \<open>
  C9: whatever number outside \<open>driver_calls\<close> (the sixteen calls that drive hardware, start programs
  or run the compiler, which are an argument of the handler) and whatever arguments a program puts into its registers,
  unknown numbers included, a system call that comes back leaves the kernel's tables well typed: 64
  descriptors of which the first three are never in use and every one in use names a node, 32
  directory handles of which the first is never in use, sixteen consistent pipes, and a key ring
  with both indices in range.
\<close>

theorem syscall_handler_types:
  assumes "ksys_ok k" "num \<notin> set driver_calls"
    and "syscall_handler e num a1 a2 a3 k = Some (r, k')"
  shows "ksys_ok k'"
proof -
  have "ensures ksys_ok (syscall_handler e num a1 a2 a3 k)"
    by (intro handler_ensures assms(1,2) dispatch_ok deliver_pending_ok)
  then show ?thesis using assms(3) by (rule ensuresD)
qed

definition no_drivers :: env where
  "no_drivers = \<lparr>e_dev = (\<lambda>_ _ _. (0, []), \<lambda>_ _ _. 0), e_drv = (\<lambda>_ _ _ _ k. Some (Resume FAIL, k)), e_yield = (\<lambda>s. s), e_fuel = 0\<rparr>"

lemma example_ksys_ok: "ksys_ok example_ksys"
  using idle_keyboard_ok(1) table_inv_init by (simp add: ksys_ok_def example_ksys_def)

lemma example_pipe_call: "\<exists>r k'. syscall_handler no_drivers 67 0 0x08048000 0 example_ksys = Some (r, k')"
proof -
  have "\<exists>r k'. dispatch no_drivers 67 0 0x08048000 0 example_ksys = Some (Resume r, k')"
    by (simp add: dispatch_def resume_def sys_pipe_def split: prod.split)
  then show ?thesis by (auto simp: syscall_handler_def)
qed

theorem syscall_handler_types_witness:
  "\<exists>r k'. syscall_handler no_drivers 67 0 0x08048000 0 example_ksys = Some (r, k') \<and> ksys_ok k'"
proof -
  obtain r k' where h: "syscall_handler no_drivers 67 0 0x08048000 0 example_ksys = Some (r, k')"
    using example_pipe_call by blast
  have "ksys_ok k'"
    by (rule syscall_handler_types [OF example_ksys_ok _ h]) (simp add: driver_calls_def)
  then show ?thesis using h by blast
qed

end
