(* ===== verification/Syscall_Confine.thy ===== *)
theory Syscall_Confine
  imports Syscall_Types
begin

text \<open>
  Where the system calls write: all but four of them, given a buffer whose end does not wrap around
  the address space, leave every byte outside the user range alone. The proofs follow the cases
  with the rules of \<open>ensures\<close>.
\<close>

definition keeps_kernel :: "mem \<Rightarrow> ksys \<Rightarrow> bool" where
  "keeps_kernel m k \<longleftrightarrow> confined m (k_mem k)"

named_theorems mem_ok \<open>system calls that write to user memory only\<close>

lemma keeps_kernel_frame [simp]:
  "keeps_kernel m (k\<lparr>k_ac := a\<rparr>) = keeps_kernel m k" "keeps_kernel m (k\<lparr>k_ps := s\<rparr>) = keeps_kernel m k"
  "keeps_kernel m (k\<lparr>k_vmm := v\<rparr>) = keeps_kernel m k" "keeps_kernel m (k\<lparr>k_cwd := c\<rparr>) = keeps_kernel m k"
  "keeps_kernel m (k\<lparr>k_vga := bs\<rparr>) = keeps_kernel m k" "keeps_kernel m (k\<lparr>k_serial := bs\<rparr>) = keeps_kernel m k"
  "keeps_kernel m (k\<lparr>k_jmp := j\<rparr>) = keeps_kernel m k" "keeps_kernel m (k\<lparr>k_irqs := q\<rparr>) = keeps_kernel m k"
  "keeps_kernel m (k\<lparr>k_kbd := kb\<rparr>) = keeps_kernel m k" "keeps_kernel m (k\<lparr>k_pipes := t\<rparr>) = keeps_kernel m k"
  "keeps_kernel m (k\<lparr>k_dh := d\<rparr>) = keeps_kernel m k" "keeps_kernel m (k\<lparr>k_dh_idx := d'\<rparr>) = keeps_kernel m k"
  "keeps_kernel m (k\<lparr>k_fds := ds\<rparr>) = keeps_kernel m k" "keeps_kernel m (upd_fd fd g k) = keeps_kernel m k"
  "keeps_kernel m (put_fs fsys k) = keeps_kernel m k" "keeps_kernel m (upd_knode i f k) = keeps_kernel m k"
  by (simp_all add: keeps_kernel_def put_fs_def upd_knode_def upd_fd_def)

lemma keeps_kernel_if: "keeps_kernel m (if b then upd_knode i f k else k) = keeps_kernel m k"
  by simp

section \<open>Stores\<close>

lemma keeps_ustore:
  "keeps_kernel m k \<Longrightarrow> uaccess_ok p len \<Longrightarrow> unat p + unat len < 0x100000000 \<Longrightarrow> length bs \<le> unat len
     \<Longrightarrow> keeps_kernel m (ustore p bs k)"
  unfolding keeps_kernel_def ustore_def by (auto intro: confined_trans uaccess_ok_confined)

lemma keeps_store_at:
  assumes "keeps_kernel m k" "uaccess_ok p len" "unat p + unat len < 0x100000000" "unat off + length bs \<le> unat len" "bs \<noteq> []"
  shows "confined m (store_bytes (p + off) bs (k_mem k))"
proof -
  have "len \<noteq> 0" using assms(4,5) by auto
  then have r: "in_user (unat p)" "unat p + unat len \<le> 0x10000000"
    using assms(2,3) by (auto simp: uaccess_ok_iff)
  have "0 < length bs" using assms(5) by simp
  then have "unat p + unat off < 0x10000000" using assms(4) r(2) by linarith
  then have "unat (p + off) = unat p + unat off" "in_user (unat p + unat off)"
    using r(1) by (simp_all add: unat_plus_u32 in_user_def)
  moreover have "unat (p + off) + length bs \<le> 0x10000000" using assms(4) r(2) calculation(1) by linarith
  ultimately have "confined (k_mem k) (store_bytes (p + off) bs (k_mem k))" by (intro store_bytes_confined) simp_all
  with assms(1) show ?thesis unfolding keeps_kernel_def by (rule confined_trans)
qed

lemma keeps_ustore32:
  "keeps_kernel m k \<Longrightarrow> uaccess_ok p len \<Longrightarrow> unat p + unat len < 0x100000000 \<Longrightarrow> unat off + 4 \<le> unat len
     \<Longrightarrow> keeps_kernel m (ustore32 (p + off) v k)"
  using keeps_store_at [of m k p len off "le32_bytes v"]
  by (simp add: keeps_kernel_def ustore32_def store32_def le32_bytes_def)

lemma keeps_ustore_name:
  assumes "keeps_kernel m k" "uaccess_ok p len" "unat p + unat len < 0x100000000" "nat n + 1 \<le> unat len"
  shows "keeps_kernel m (ustore_name p n name k)"
proof -
  have "length (string_bytes (take (nat n) name) @ [0]) \<le> unat len" using assms(4) by (simp add: string_bytes_def)
  then show ?thesis using keeps_ustore [OF assms(1-3)] by (simp add: ustore_name_def ustore_def store_name_def)
qed

text \<open>A length that is positive as a signed number cannot wrap.\<close>

lemma positive_length:
  fixes p len :: u32
  assumes "uaccess_ok p len" "0 < sint len"
  shows "unat p + unat len < 0x100000000" "nat (sint len - 1) + 1 \<le> unat len"
proof -
  have "sint len = uint len - 4294967296 * of_bool (bit (uint len) 31)"
    using take_bit_int_eq_self [of "uint len" 32] uint_bounded [of len]
    by (simp add: sint_uint signed_take_bit_eq_take_bit_minus)
  then have "sint len = uint len" using assms(2) uint_bounded [of len] by (cases "bit (uint len) 31") simp_all
  then have sint: "sint len = int (unat len)" by simp
  have "sint len < 2147483648" using sint_lt [of len] by simp
  then have l: "unat len < 0x80000000 \<and> sint len = int (unat len)" using sint by linarith
  show "nat (sint len - 1) + 1 \<le> unat len" using assms(2) unfolding sint by linarith
  show "unat p + unat len < 0x100000000" using assms(1) l by (auto simp: uaccess_ok_iff in_user_def)
qed

section \<open>Bytes delivered\<close>

lemma diskfile_read_loop_length:
  "got \<le> sz \<Longrightarrow> length out \<le> got \<Longrightarrow> length (snd (diskfile_read_loop bs off sz b d got out)) \<le> sz"
proof (induction bs off sz b d got out rule: diskfile_read_loop.induct)
  case (1 bs off sz b d got out)
  show ?case
    using 1(2,3) by (subst diskfile_read_loop.simps) (auto simp: Let_def split: prod.split intro!: 1(1))
qed

lemma kread_length:
  assumes "\<forall>i off sz. length (snd (fst dev i off sz)) \<le> unat sz"
  shows "length (snd (kread dev i off sz k)) \<le> unat sz"
proof -
  have disk: "length (snd (diskfile_read_loop bs off n b d 0 [])) \<le> n" for bs off n b d
    using diskfile_read_loop_length [of 0 n "[]"] by simp
  have "length (snd (diskfile_read v off sz s)) \<le> unat sz" for v s
    using disk [of "block_list v" off "unat (if sz > n_size v - off then n_size v - off else sz)" "fs_blockfs s" "fs_disk s"]
    by (auto simp: diskfile_read_def Let_def word_less_nat_alt split: prod.split if_splits)
  then have "length (snd (ramfs_read v off sz s)) \<le> unat sz" for v s
    by (auto simp: ramfs_read_def Let_def word_less_nat_alt split: option.split)
  then show ?thesis using assms by (auto simp: kread_def vfs_read_def split: option.split node_ops.split)
qed

lemma pipe_read_loop_length:
  "length dst \<le> len \<Longrightarrow> length (case fst (pipe_read_loop len dst p) of Io_done n bs \<Rightarrow> bs | Io_blocked bs \<Rightarrow> bs) \<le> len"
proof (induction len dst p rule: pipe_read_loop.induct)
  case (1 len dst p)
  obtain bs p' where g: "ring_get (min (unat (p_used p)) (len - length dst)) p = (bs, p')" by (metis prod.exhaust)
  then have "length bs = min (unat (p_used p)) (len - length dst)" by (metis ring_get_length)
  then show ?case using 1(2) g by (subst pipe_read_loop.simps) (auto intro!: 1(1))
qed

lemma pipe_read_length:
  assumes "pipe_read fd len t = Some (r, t')"
  shows "length (case r of Io_done n bs \<Rightarrow> bs | Io_blocked bs \<Rightarrow> bs) \<le> len"
  using assms pipe_read_loop_length [of "[]" len "pipes t ! nat (fd_to_slot fd)"]
  by (auto simp: pipe_read_def Let_def split: if_splits prod.splits)

lemma readline_loop_confined:
  assumes "readline_loop a max_len len irqs ks m out = Some y"
  shows "0 \<le> len \<and> len < max max_len 1 \<and> in_user (unat a) \<and> unat a + nat max_len \<le> 0x10000000 \<longrightarrow>
           (case y of (n, irqs', ks', m', out') \<Rightarrow> confined m m')"
proof (rule readline_loop.raw_induct [where P =
      "\<lambda>a max_len len irqs ks m out y. 0 \<le> len \<and> len < max max_len 1 \<and> in_user (unat a) \<and> unat a + nat max_len \<le> 0x10000000 \<longrightarrow>
           (case y of (n, irqs', ks', m', out') \<Rightarrow> confined m m')", OF _ assms], goal_cases)
  case (1 loop a max_len len irqs ks m out y)
  show ?case
  proof
    assume h: "0 \<le> len \<and> len < max max_len 1 \<and> in_user (unat a) \<and> unat a + nat max_len \<le> 0x10000000"
    then have w: "word_of_int len = (of_nat (nat len) :: u32)" by simp
    have "nat len < 0x10000000" "unat a + nat len < 0x10000000" using h by (auto simp: in_user_def max_def split: if_splits)
    then have "unat (a + word_of_int len) = unat a + nat len" unfolding w by (simp add: unat_plus_u32 unat_of_nat)
    then have one: "confined m (m(unat (a + word_of_int len) := v))" for v
      using h \<open>unat a + nat len < 0x10000000\<close> by (auto simp: confined_def in_user_def)
    obtain key irqs' ks' where get: "keyboard_getchar irqs ks = Some (key, irqs', ks')"
      using 1(2) by (auto simp: bind_eq_Some_conv)
    show "case y of (n, irqs', ks', m', out') \<Rightarrow> confined m m'"
      using 1(2) h unfolding get
      by (auto split: if_splits prod.splits dest!: 1(1) intro: one confined_trans [OF one])
  qed
qed

lemma keyboard_readline_confined:
  assumes "keyboard_readline a (sint len) irqs ks m = Some (n, irqs', ks', m', out)" "uaccess_ok a len"
  shows "confined m m'"
proof -
  have "unat a + nat (sint len) \<le> 0x10000000"
  proof (cases "0 < sint len")
    case True
    then show ?thesis using positive_length [OF assms(2)] assms(2) by (auto simp: uaccess_ok_iff)
  next
    case False
    then show ?thesis using assms(2) by (simp add: uaccess_ok_iff in_user_def)
  qed
  then show ?thesis using readline_loop_confined [OF assms(1) [unfolded keyboard_readline_def]] assms(2)
    by (simp add: uaccess_ok_iff)
qed

section \<open>Calls that write nowhere\<close>

lemma with_fs_mem [mem_ok]: "keeps_kernel m k \<Longrightarrow> ensures (keeps_kernel m) (with_fs r k)"
  by (auto simp: with_fs_def ensures_def)

lemma access_mem [mem_ok]:
  "keeps_kernel m k \<Longrightarrow> ensures (keeps_kernel m) (kresolve path k)"
  "keeps_kernel m k \<Longrightarrow> ensures (keeps_kernel m) (kwrite dev i off bs k)"
  unfolding kresolve_def kwrite_def by (rule with_fs_mem, assumption)+

lemma fd_cleanup_mem: "keeps_kernel m k \<Longrightarrow> fd_cleanup_process p k = Some k' \<Longrightarrow> keeps_kernel m k'"
  by (auto simp: fd_cleanup_process_def Let_def simp del: upto_rec_numeral)

lemma run_ps_mem [mem_ok]: "keeps_kernel m k \<Longrightarrow> ensures (keeps_kernel m) (run_ps f k)"
proof -
  have "perform es k = Some k' \<Longrightarrow> keeps_kernel m k \<Longrightarrow> keeps_kernel m k'" for es k k'
    by (induction es k rule: perform.induct) (auto simp: bind_eq_Some_conv dest: fd_cleanup_mem)
  then show "keeps_kernel m k \<Longrightarrow> ensures (keeps_kernel m) (run_ps f k)"
    by (fastforce simp: run_ps_def ensures_def split: prod.splits)
qed

lemma leave_cpu_mem [mem_ok]: "keeps_kernel m k \<Longrightarrow> ensures (keeps_kernel m) (Some (leave_cpu eax k))"
  by (simp add: leave_cpu_def ensures_def Let_def)

lemma alloc_fd_mem: "keeps_kernel m k \<Longrightarrow> alloc_fd k = (x, k') \<Longrightarrow> keeps_kernel m k'"
  by (auto simp: alloc_fd_def split: option.splits)

lemma file_calls_mem [mem_ok]:
  "keeps_kernel m k \<Longrightarrow> ensures (keeps_kernel m) (sys_write a2 a3 k)"
  "keeps_kernel m k \<Longrightarrow> ensures (keeps_kernel m) (sys_writefile dev a1 a2 a3 k)"
  "keeps_kernel m k \<Longrightarrow> ensures (keeps_kernel m) (sys_chdir a1 k)"
  "keeps_kernel m k \<Longrightarrow> ensures (keeps_kernel m) (sys_mkdir a1 k)"
  "keeps_kernel m k \<Longrightarrow> ensures (keeps_kernel m) (sys_unlink a1 k)"
  "keeps_kernel m k \<Longrightarrow> ensures (keeps_kernel m) (sys_rmdir a1 k)"
  "keeps_kernel m k \<Longrightarrow> ensures (keeps_kernel m) (sys_rename dev a1 a2 k)"
  "keeps_kernel m k \<Longrightarrow> ensures (keeps_kernel m) (sys_opendir a1 k)"
  "keeps_kernel m k \<Longrightarrow> ensures (keeps_kernel m) (sys_closedir a1 k)"
  "keeps_kernel m k \<Longrightarrow> ensures (keeps_kernel m) (sys_chmod a1 a2 k)"
  "keeps_kernel m k \<Longrightarrow> ensures (keeps_kernel m) (sys_chown a1 a2 a3 k)"
  "keeps_kernel m k \<Longrightarrow> ensures (keeps_kernel m) (sys_file_seek a1 a2 a3 k)"
  "keeps_kernel m k \<Longrightarrow> ensures (keeps_kernel m) (sys_vfs_tree a1 k)"
  unfolding sys_write_def sys_writefile_def sys_chdir_def sys_mkdir_def sys_unlink_def sys_rmdir_def sys_rename_def
    sys_opendir_def sys_closedir_def sys_chmod_def sys_chown_def sys_file_seek_def sys_vfs_tree_def
  by (assumption | rule ensures_step ensures_bind_call mem_ok ensures_bind | simp)+

lemma sys_file_open_mem [mem_ok]: "keeps_kernel m k \<Longrightarrow> ensures (keeps_kernel m) (sys_file_open a1 a2 k)"
  unfolding sys_file_open_def Let_def
  by (assumption | rule ensures_step ensures_bind_call mem_ok ensures_bind | rule alloc_fd_mem, assumption, assumption
    | simp add: keeps_kernel_if split del: if_split)+

lemma process_calls_mem [mem_ok]:
  "keeps_kernel m k \<Longrightarrow> ensures (keeps_kernel m) (sys_exit eax a1 k)"
  "keeps_kernel m k \<Longrightarrow> ensures (keeps_kernel m) (sys_getpid k)"
  "keeps_kernel m k \<Longrightarrow> ensures (keeps_kernel m) (sys_getppid k)"
  "keeps_kernel m k \<Longrightarrow> ensures (keeps_kernel m) (sys_yield yield k)"
  "keeps_kernel m k \<Longrightarrow> ensures (keeps_kernel m) (sys_uptime k)"
  "keeps_kernel m k \<Longrightarrow> ensures (keeps_kernel m) (sys_signal a1 a2 k)"
  "keeps_kernel m k \<Longrightarrow> ensures (keeps_kernel m) (sys_kill a1 a2 k)"
  "keeps_kernel m k \<Longrightarrow> ensures (keeps_kernel m) (sys_renice a1 a2 k)"
  "keeps_kernel m k \<Longrightarrow> ensures (keeps_kernel m) (sys_brk a1 k)"
  "keeps_kernel m k \<Longrightarrow> ensures (keeps_kernel m) (sys_getuid k)"
  "keeps_kernel m k \<Longrightarrow> ensures (keeps_kernel m) (sys_useradd dev a1 k)"
  "keeps_kernel m k \<Longrightarrow> ensures (keeps_kernel m) (sys_passwd dev a1 k)"
  "keeps_kernel m k \<Longrightarrow> ensures (keeps_kernel m) (sys_login dev a1 a2 k)"
  "keeps_kernel m k \<Longrightarrow> ensures (keeps_kernel m) (sys_logout k)"
  "keeps_kernel m k \<Longrightarrow> ensures (keeps_kernel m) (sys_su dev a1 a2 k)"
  unfolding sys_exit_def sys_getpid_def sys_getppid_def sys_yield_def sys_uptime_def sys_signal_def sys_kill_def
    sys_renice_def sys_brk_def sys_getuid_def sys_useradd_def sys_passwd_def sys_login_def sys_logout_def sys_su_def
  by (assumption | rule ensures_step ensures_bind_call mem_ok ensures_bind | simp)+

lemma key_calls_mem [mem_ok]:
  "keeps_kernel m k \<Longrightarrow> ensures (keeps_kernel m) (sys_getc k)"
  "keeps_kernel m k \<Longrightarrow> ensures (keeps_kernel m) (sys_key_raw k)"
  "keeps_kernel m k \<Longrightarrow> ensures (keeps_kernel m) (sys_key_poll k)"
  "keeps_kernel m k \<Longrightarrow> ensures (keeps_kernel m) (sys_sync k)"
  "keeps_kernel m k \<Longrightarrow> ensures (keeps_kernel m) (sys_file_close a1 k)"
  "keeps_kernel m k \<Longrightarrow> ensures (keeps_kernel m) (sys_pipe_close a1 k)"
  by (auto simp: sys_getc_def sys_key_raw_def wait_char_def sys_key_poll_def sys_sync_def with_fs_def
      sys_file_close_def sys_pipe_close_def ensures_def Let_def split: prod.split)

section \<open>Calls that write to a tested buffer\<close>

lemma ustore32_calls_mem [mem_ok]:
  "keeps_kernel m k \<Longrightarrow> ensures (keeps_kernel m) (sys_meminfo a1 k)"
  "keeps_kernel m k \<Longrightarrow> ensures (keeps_kernel m) (sys_dfinfo a1 k)"
  "keeps_kernel m k \<Longrightarrow> ensures (keeps_kernel m) (sys_pipe a2 k)"
  "keeps_kernel m k \<Longrightarrow> ensures (keeps_kernel m) (sys_waitpid yield fuel a1 a2 a3 k)"
proof -
  have at: "uaccess_ok p len \<Longrightarrow> unat len < 0x80000000 \<Longrightarrow> unat off + 4 \<le> unat len \<Longrightarrow> keeps_kernel m k
              \<Longrightarrow> keeps_kernel m (ustore32 (p + off) v k)" for p len off v and k :: ksys
    by (rule keeps_ustore32) (auto simp: uaccess_ok_iff in_user_def)
  have at0: "uaccess_ok p len \<Longrightarrow> unat len < 0x80000000 \<Longrightarrow> 4 \<le> unat len \<Longrightarrow> keeps_kernel m k
              \<Longrightarrow> keeps_kernel m (ustore32 p v k)" for p len v and k :: ksys
    using at [of p len 0 k v] by simp
  show "keeps_kernel m k \<Longrightarrow> ensures (keeps_kernel m) (sys_meminfo a1 k)"
    by (auto simp: sys_meminfo_def Let_def ensures_def intro!: at [of a1 12] at0 [of a1 12])
  show "keeps_kernel m k \<Longrightarrow> ensures (keeps_kernel m) (sys_dfinfo a1 k)"
    by (auto simp: sys_dfinfo_def Let_def ensures_def intro!: at [of a1 16] at0 [of a1 16])
  show "keeps_kernel m k \<Longrightarrow> ensures (keeps_kernel m) (sys_pipe a2 k)"
    by (auto simp: sys_pipe_def Let_def ensures_def split: prod.splits option.split intro!: at [of a2 8] at0 [of a2 8])
  show "keeps_kernel m k \<Longrightarrow> ensures (keeps_kernel m) (sys_waitpid yield fuel a1 a2 a3 k)"
    by (auto simp: sys_waitpid_def Let_def ensures_def split: option.splits if_splits intro!: at0 [of a2 4])
qed

lemma struct_calls_mem [mem_ok]:
  "keeps_kernel m k \<Longrightarrow> ensures (keeps_kernel m) (sys_stat a1 a2 k)"
  "keeps_kernel m k \<Longrightarrow> ensures (keeps_kernel m) (sys_readdir a1 a2 k)"
proof -
  have at: "uaccess_ok p len \<Longrightarrow> unat len < 0x80000000 \<Longrightarrow> unat off + 4 \<le> unat len \<Longrightarrow> keeps_kernel m k
              \<Longrightarrow> keeps_kernel m (ustore32 (p + off) v k)" for p len off v and k :: ksys
    by (rule keeps_ustore32) (auto simp: uaccess_ok_iff in_user_def)
  have name: "uaccess_ok p len \<Longrightarrow> unat len < 0x80000000 \<Longrightarrow> 64 \<le> unat len \<Longrightarrow> keeps_kernel m k
              \<Longrightarrow> keeps_kernel m (ustore_name p 63 name k)" for p len name and k :: ksys
    by (rule keeps_ustore_name) (auto simp: uaccess_ok_iff in_user_def)
  show "keeps_kernel m k \<Longrightarrow> ensures (keeps_kernel m) (sys_stat a1 a2 k)"
    unfolding sys_stat_def
    by (assumption | rule ensures_step ensures_bind_call mem_ok ensures_bind | simp add: at [of a2 84] name [of a2 84])+
  show "keeps_kernel m k \<Longrightarrow> ensures (keeps_kernel m) (sys_readdir a1 a2 k)"
    unfolding sys_readdir_def
    by (assumption | rule ensures_step ensures_bind_call mem_ok ensures_bind | simp add: at [of a2 68] name [of a2 68])+
qed

lemma keeps_positive_name:
  "keeps_kernel m k \<Longrightarrow> 0 < sint len \<Longrightarrow> uaccess_ok p len \<Longrightarrow> keeps_kernel m (ustore_name p (sint len - 1) name k)"
  by (rule keeps_ustore_name) (auto dest: positive_length)

lemma name_calls_mem [mem_ok]:
  "keeps_kernel m k \<Longrightarrow> ensures (keeps_kernel m) (sys_getcwd a1 a2 k)"
  "keeps_kernel m k \<Longrightarrow> ensures (keeps_kernel m) (sys_resolve a1 a2 a3 k)"
  "keeps_kernel m k \<Longrightarrow> 0 < sint a2 \<Longrightarrow> ensures (keeps_kernel m) (sys_hostname a1 a2 k)"
  "keeps_kernel m k \<Longrightarrow> 0 < sint a2 \<Longrightarrow> ensures (keeps_kernel m) (sys_getuser a1 a2 k)"
  unfolding sys_getcwd_def sys_resolve_def sys_hostname_def sys_getuser_def answer_name_def
  by (assumption | rule ensures_step ensures_bind_call mem_ok ensures_bind | simp add: keeps_positive_name)+

lemma keeps_readline:
  "keeps_kernel m k \<Longrightarrow> uaccess_ok a len \<Longrightarrow>
     keyboard_readline a (sint len) irqs ks (k_mem k) = Some (n, irqs', (kbd, s), m', out) \<Longrightarrow>
     keeps_kernel m (k\<lparr>k_irqs := irqs', k_kbd := kbd, k_ps := s, k_mem := m', k_vga := v\<rparr>)"
  by (auto simp: keeps_kernel_def intro: confined_trans keyboard_readline_confined)

lemma sys_getline_mem [mem_ok]: "keeps_kernel m k \<Longrightarrow> ensures (keeps_kernel m) (sys_getline a1 a2 k)"
  by (auto simp: sys_getline_def ensures_def intro: keeps_readline)

lemma sys_readfile_mem [mem_ok]:
  assumes "keeps_kernel m k" "unat a2 + unat a3 < 0x100000000" "\<forall>i off sz. length (snd (fst dev i off sz)) \<le> unat sz"
  shows "ensures (keeps_kernel m) (sys_readfile dev a1 a2 a3 k)"
proof -
  have deliver: "keeps_kernel m (ustore a2 bs k')"
    if "keeps_kernel m k'" "\<not> (0 < a3 \<and> \<not> uaccess_ok a2 a3)" "kread dev i 0 (if n < a3 then n else a3) k' = (got, bs)" for k' i n got bs
  proof (cases "a3 = 0")
    case True
    then have "bs = []" using kread_length [OF assms(3), of i 0 0 k'] that(3) by simp
    then show ?thesis using that(1) by (simp add: ustore_def)
  next
    case False
    have "length bs \<le> unat a3"
      using kread_length [OF assms(3), of i 0 "if n < a3 then n else a3" k'] that(3) by (auto simp: word_less_nat_alt split: if_splits)
    then show ?thesis using keeps_ustore that(1,2) assms(2) False by (auto simp: word_neq_0_conv)
  qed
  show ?thesis unfolding sys_readfile_def using assms(1)
    by - (assumption | rule ensures_step ensures_bind_call mem_ok ensures_bind | rule deliver, assumption+)+
qed

lemma keeps_moved: "keeps_kernel m (upd_fd d f k) = keeps_kernel m k"
  by simp

lemma sys_file_read_mem [mem_ok]:
  assumes "keeps_kernel m k" "unat a2 + unat a3 < 0x100000000" "\<forall>i off sz. length (snd (fst dev i off sz)) \<le> unat sz"
  shows "ensures (keeps_kernel m) (sys_file_read dev a1 a2 a3 k)"
proof -
  have keys: "ensures (keeps_kernel m) (map_option
      (\<lambda>(n, irqs, (kbd, s), m, out).
         (Resume (word_of_int n), k\<lparr>k_irqs := irqs, k_kbd := kbd, k_ps := s, k_mem := m, k_vga := k_vga k @ out\<rparr>))
      (keyboard_readline a2 (sint a3) (k_irqs k) (k_kbd k, k_ps k) (k_mem k)))" if "uaccess_ok a2 a3"
    using assms(1) that by (auto simp: ensures_def intro: keeps_readline)
  have pipe: "ensures (keeps_kernel m) (map_option
      (\<lambda>(r, t). (io_eax r, ustore a2 (case r of Io_done n bs \<Rightarrow> bs | Io_blocked bs \<Rightarrow> bs) (k\<lparr>k_pipes := t\<rparr>)))
      (pipe_read fd (unat a3) (k_pipes k)))" if "uaccess_ok a2 a3" for fd
    using assms(1,2) that by (auto simp: ensures_def intro!: keeps_ustore [of m _ a2 a3] pipe_read_length)
  have want: "unat (if pos + a3 > n then n - pos else a3) \<le> unat a3" if "pos < n" for pos n :: u32
  proof -
    have p: "unat pos < unat n" using that by (simp add: word_less_nat_alt)
    then have "unat (n - pos) = unat n - unat pos" by (intro unat_minus_u32) (simp add: word_le_nat_alt)
    moreover have "unat (pos + a3) \<le> unat pos + unat a3" by (simp add: unat_word_ariths)
    ultimately show ?thesis by (auto simp: word_less_nat_alt)
  qed
  have deliver: "keeps_kernel m (upd_fd d f (ustore a2 bs k))"
    if "\<not> n \<le> pos" "\<not> \<not> uaccess_ok a2 a3" "kread dev i pos (if pos + a3 > n then n - pos else a3) k = (got, bs)" for d f i pos n got bs
    using kread_length [OF assms(3), of i pos "if pos + a3 > n then n - pos else a3" k] that want [of pos n] assms(1,2)
    by (auto simp: not_le intro!: keeps_ustore [of m _ a2 a3])
  show ?thesis unfolding sys_file_read_def using assms(1)
    by - (assumption | rule ensures_step | rule keys pipe, blast | rule deliver, assumption+ | rule ensures_bind)+
qed

lemma raise_sigpipe_mem [simp]: "keeps_kernel m (raise_sigpipe k) = keeps_kernel m k"
  by (simp add: raise_sigpipe_def split: option.split)

lemma sys_file_write_mem [mem_ok]: "keeps_kernel m k \<Longrightarrow> ensures (keeps_kernel m) (sys_file_write dev a1 a2 a3 k)"
proof -
  have signal: "keeps_kernel m k' \<Longrightarrow>
      keeps_kernel m (case r of Io_done n bs \<Rightarrow> if n < 0 then raise_sigpipe k' else k' | Io_blocked bs \<Rightarrow> k')" for r k'
    by (simp split: io_outcome.split)
  have pipe: "keeps_kernel m k \<Longrightarrow> ensures (keeps_kernel m) (map_option
      (\<lambda>(r, t). let k = k\<lparr>k_pipes := t\<rparr>
                in (io_eax r, case r of Io_done n bs \<Rightarrow> if n < 0 then raise_sigpipe k else k | Io_blocked bs \<Rightarrow> k))
      (pipe_write fd bs (k_pipes k)))" for fd bs
    by (auto simp: ensures_def Let_def intro!: signal)
  show "keeps_kernel m k \<Longrightarrow> ensures (keeps_kernel m) (sys_file_write dev a1 a2 a3 k)"
    unfolding sys_file_write_def
    by (assumption | rule pipe ensures_step ensures_bind_call mem_ok ensures_bind | simp)+
qed

section \<open>The handler\<close>

definition unchecked_calls :: "u32 list" where
  "unchecked_calls = [44, 52, 57, 58]"

lemma resume_mem [mem_ok]: "ensures (keeps_kernel m) r \<Longrightarrow> ensures (keeps_kernel m) (resume r)"
  by (auto simp: resume_def ensures_def)

lemma dispatch_mem:
  assumes "keeps_kernel m k" "num \<notin> set unchecked_calls" "num \<notin> set driver_calls"
    and "num = 20 \<or> num = 26 \<longrightarrow> 0 < sint a2" "num = 8 \<or> num = 36 \<longrightarrow> unat a2 + unat a3 < 0x100000000"
    and "\<forall>i off sz. length (snd (fst (e_dev e) i off sz)) \<le> unat sz"
  shows "ensures (keeps_kernel m) (dispatch e num a1 a2 a3 k)"
  unfolding dispatch_def using assms
  by - (rule mem_ok ensures_if ensures_Some | assumption | simp add: unchecked_calls_def)+

text \<open>
  C4: no system call outside the four unchecked ones (list of processes, list of users, groups, find)
  and the driver calls writes a byte outside the user range, whatever pointers it is given: for the
  host and user name when the buffer length is positive, and for the two reads when the end of
  the buffer does not wrap around the address space. (A device driver delivers at most the bytes asked for.)
\<close>

theorem syscall_confines_writes:
  assumes "num \<notin> set unchecked_calls" "num \<notin> set driver_calls"
    and "num = 20 \<or> num = 26 \<longrightarrow> 0 < sint a2" "num = 8 \<or> num = 36 \<longrightarrow> unat a2 + unat a3 < 0x100000000"
    and "\<forall>i off sz. length (snd (fst (e_dev e) i off sz)) \<le> unat sz"
    and "syscall_handler e num a1 a2 a3 k = Some (r, k')"
  shows "\<forall>x. x < 0x08000000 \<or> 0x10000000 \<le> x \<longrightarrow> k_mem k' x = k_mem k x"
proof -
  have start: "keeps_kernel (k_mem k) k" by (simp add: keeps_kernel_def)
  have "keeps_kernel (k_mem k) (snd (deliver_pending eax q))" if "keeps_kernel (k_mem k) q" for eax q
    using that by (auto simp: deliver_pending_def Let_def split: prod.split)
  then have "ensures (keeps_kernel (k_mem k)) (syscall_handler e num a1 a2 a3 k)"
    by (intro handler_ensures start dispatch_mem [OF start assms(1-5)])
  from ensuresD [OF this assms(6)] show ?thesis by (auto simp: keeps_kernel_def confined_def in_user_def)
qed

theorem syscall_confines_writes_witness:
  "\<exists>r k'. syscall_handler no_drivers 67 0 0x08048000 0 example_ksys = Some (r, k') \<and> k_mem k' 7 = 0"
proof -
  obtain r k' where h: "syscall_handler no_drivers 67 0 0x08048000 0 example_ksys = Some (r, k')"
    using example_pipe_call by blast
  have "\<forall>x. x < 0x08000000 \<or> 0x10000000 \<le> x \<longrightarrow> k_mem k' x = k_mem example_ksys x"
    by (rule syscall_confines_writes [OF _ _ _ _ _ h]) (simp_all add: unchecked_calls_def driver_calls_def no_drivers_def)
  then show ?thesis using h by (auto simp: example_ksys_def)
qed

text \<open>
  the two name queries skip the range test when the buffer length is not positive, and still
  store the terminator: any program can write a zero byte to any address of the kernel.
\<close>

theorem empty_name_query_writes_anywhere:
  "dispatch e 26 a1 0 a3 k = Some (Resume 0, k\<lparr>k_mem := (k_mem k)(unat a1 := 0)\<rparr>)
     \<and> dispatch e 20 a1 0 a3 k = Some (Resume 0, k\<lparr>k_mem := (k_mem k)(unat a1 := 0)\<rparr>)"
  by (simp add: dispatch_def resume_def sys_getuser_def sys_hostname_def answer_name_def ustore_name_def store_name_def
      string_bytes_def)

end
