(* ===== verification/Syscall_Access.thy ===== *)
theory Syscall_Access
  imports Syscall_Confine Ramfs_Data
begin

text \<open>
  Opening a file and working on it through its descriptor: what a granted descriptor entitles to,
  the access mode that escapes the checks, and the round trip of writing, seeking and reading.
\<close>

section \<open>Opening\<close>

lemma current_cred_frame [simp]:
  "current_cred (upd_node i g s) = current_cred s"
  "current_cred (kfs (put_fs (upd_node i g (kfs k)) k)) = current_cred (kfs k)"
  by (simp_all add: current_cred_def upd_node_def put_node_def kfs_def put_fs_def with_cred_def vfs_set_cred_provider_def users_get_cred_def
      split: option.split)

lemma allowed_frame [simp]:
  "allowed v mode (upd_fd d f k) = allowed v mode k"
  "allowed (v\<lparr>n_size := n\<rparr>) mode k = allowed v mode k"
  "allowed v mode (upd_knode i g k) = allowed v mode k"
  by (simp_all add: allowed_def vfs_check_access_def upd_knode_def) (simp_all add: upd_fd_def kfs_def)

lemma knode_frame [simp]:
  "knode i (upd_fd d f k) = knode i k"
  "knode i (upd_knode i g k) = map_option g (knode i k)"
  by (auto simp: knode_def upd_fd_def upd_knode_def put_fs_def upd_node_def put_node_def split: option.split)

lemma fds_frame [simp]:
  "k_fds (put_fs s k) = k_fds k" "k_ps (put_fs s k) = k_ps k" "k_mem (put_fs s k) = k_mem k"
  "k_fds (upd_knode i f k) = k_fds k" "k_ps (upd_knode i f k) = k_ps k" "k_mem (upd_knode i f k) = k_mem k"
  "k_pipes (upd_knode i f k) = k_pipes k" "k_pipes (put_fs s k) = k_pipes k"
  by (simp_all add: put_fs_def upd_knode_def)

lemma kfs_upd_fd [simp]: "kfs (upd_fd d f k) = kfs k" "k_mem (upd_fd d f k) = k_mem k" "k_pipes (upd_fd d f k) = k_pipes k"
  by (simp_all add: kfs_def upd_fd_def)

definition opened :: "nat \<Rightarrow> u32 \<Rightarrow> vnode \<Rightarrow> u32 \<Rightarrow> kfd_t" where
  "opened i flags v p =
     \<lparr>kf_node = Some i, kf_pos = (if flags AND O_APPEND \<noteq> 0 then n_size v else 0), kf_flags = flags,
      kf_used = True, kf_owner_pid = p\<rparr>"

lemma upd_fd_upd_fd: "fd < length (k_fds k) \<Longrightarrow> upd_fd fd f (upd_fd fd g k) = upd_fd fd (f \<circ> g) k"
  by (simp add: upd_fd_def)

lemma upd_fd_knode: "upd_fd fd f (upd_knode i g k) = upd_knode i g (upd_fd fd f k)"
  by (simp add: upd_fd_def upd_knode_def put_fs_def kfs_def)

lemma upd_fd_opened:
  "fd < length (k_fds k) \<Longrightarrow>
     upd_fd fd (\<lambda>d. d\<lparr>kf_flags := flags, kf_used := True\<rparr>)
       (upd_fd fd (\<lambda>d. d\<lparr>kf_node := Some i, kf_pos := (if flags AND O_APPEND \<noteq> 0 then n_size v else 0)\<rparr>)
         (upd_fd fd (\<lambda>d. d\<lparr>kf_owner_pid := p\<rparr>) k))
     = upd_fd fd (\<lambda>_. opened i flags v p) k"
  by (simp add: upd_fd_upd_fd o_def) (cases "k_fds k ! fd", simp add: upd_fd_def opened_def)

lemma sys_file_open_Some:
  assumes "sys_file_open a1 a2 k = Some (r, k')" "r \<noteq> FAIL" "length (k_fds k) = FD_MAX"
  obtains i v k2 fd where "k_fds k2 = k_fds k" "k_ps k2 = k_ps k" "knode i k2 = Some v"
    "a2 AND 3 = 0 \<longrightarrow> allowed v ACC_READ k2" "a2 AND 3 = O_WRONLY \<or> a2 AND 3 = O_RDWR \<longrightarrow> allowed v ACC_WRITE k2"
    "first_index (\<lambda>i. \<not> kf_used (k_fds k2 ! i)) 3 FD_MAX = Some fd" "r = of_nat fd"
    "k' = (if a2 AND O_TRUNC \<noteq> 0 then upd_knode i (\<lambda>v. v\<lparr>n_size := 0\<rparr>) else id)
            (upd_fd fd (\<lambda>_. opened i a2 v (current_pid k2)) k2)"
proof -
  obtain path n1 k1 n2 k2 where o: "ustr a1 k = Some path" "kresolve path k = Some (n1, k1)"
    "(if n1 = None \<and> a2 AND O_CREAT \<noteq> 0 then with_fs (vfs_create path (k_cwd k1) (kfs k1)) k1 else Some (n1, k1)) = Some (n2, k2)"
    using assms by (auto simp: sys_file_open_def bind_eq_Some_conv)
  have same: "k_fds k2 = k_fds k" "k_ps k2 = k_ps k"
    using o(2,3) by (auto simp: kresolve_def with_fs_def split: if_splits)
  obtain i where i: "n2 = Some i" using assms o by (cases n2) (auto simp: sys_file_open_def)
  obtain v where v: "knode i k2 = Some v"
    using assms o i by (cases "knode i k2") (auto simp: sys_file_open_def)
  have acc: "a2 AND 3 = 0 \<longrightarrow> allowed v ACC_READ k2" "a2 AND 3 = O_WRONLY \<or> a2 AND 3 = O_RDWR \<longrightarrow> allowed v ACC_WRITE k2"
    using assms o i v by (auto simp: sys_file_open_def Let_def split: if_splits)
  obtain fd where fd: "first_index (\<lambda>i. \<not> kf_used (k_fds k2 ! i)) 3 FD_MAX = Some fd"
    using assms o i v acc by (cases "first_index (\<lambda>i. \<not> kf_used (k_fds k2 ! i)) 3 FD_MAX") (auto simp: sys_file_open_def Let_def alloc_fd_def split: if_splits)
  have len: "fd < length (k_fds k2)" using fd same(1) assms(3) by (simp add: first_index_Some)
  have "(of_nat fd, (if a2 AND O_TRUNC \<noteq> 0 then upd_knode i (\<lambda>v. v\<lparr>n_size := 0\<rparr>) else id)
           (upd_fd fd (\<lambda>_. opened i a2 v (current_pid k2)) k2)) = (r, k')"
    using assms(1) o i v acc fd upd_fd_opened [OF len, where flags = a2 and i = i and v = v and p = "current_pid k2"]
    by (auto simp: sys_file_open_def Let_def alloc_fd_def upd_fd_knode split: if_splits)
  then show thesis by (intro that [OF same v acc fd]) simp_all
qed

text \<open>
  C17: a descriptor that \<^verbatim>\<open>SYS_FILE_OPEN\<close> hands out is one of 3 to 63, was free, and is the only one that
  changes; it names an existing node, and the caller has the read permission on that node when it
  was opened for reading only (mode 0), the write permission when it was opened for writing only or
  for both (modes 1 and 2). Nothing asks for the read permission in mode 2, nor for any in mode 3:
  \<open>sys_file_open_read\<close> below.
\<close>

theorem sys_file_open_checks:
  assumes "ksys_ok k" "sys_file_open a1 a2 k = Some (r, k')" "r \<noteq> FAIL"
  shows "\<exists>fd i v. r = of_nat fd \<and> 3 \<le> fd \<and> fd < FD_MAX \<and> \<not> kf_used (k_fds k ! fd)
           \<and> kf_used (k_fds k' ! fd) \<and> kf_node (k_fds k' ! fd) = Some i \<and> kf_owner_pid (k_fds k' ! fd) = current_pid k
           \<and> (\<forall>j. j \<noteq> fd \<longrightarrow> k_fds k' ! j = k_fds k ! j) \<and> knode i k' = Some v
           \<and> (a2 AND 3 = 0 \<longrightarrow> allowed v ACC_READ k')
           \<and> (a2 AND 3 = 1 \<or> a2 AND 3 = 2 \<longrightarrow> allowed v ACC_WRITE k')"
proof -
  have len: "length (k_fds k) = FD_MAX" using assms(1) by (simp add: ksys_ok_def)
  from sys_file_open_Some [OF assms(2,3) len] obtain i v k2 fd where o: "k_fds k2 = k_fds k" "k_ps k2 = k_ps k"
    "knode i k2 = Some v" "a2 AND 3 = 0 \<longrightarrow> allowed v ACC_READ k2"
    "a2 AND 3 = O_WRONLY \<or> a2 AND 3 = O_RDWR \<longrightarrow> allowed v ACC_WRITE k2"
    "first_index (\<lambda>i. \<not> kf_used (k_fds k2 ! i)) 3 FD_MAX = Some fd" "r = of_nat fd"
    "k' = (if a2 AND O_TRUNC \<noteq> 0 then upd_knode i (\<lambda>v. v\<lparr>n_size := 0\<rparr>) else id)
            (upd_fd fd (\<lambda>_. opened i a2 v (current_pid k2)) k2)" .
  have cp: "current_pid k2 = current_pid k" unfolding current_pid_def o(2) ..
  have n: "3 \<le> fd" "fd < FD_MAX" "\<not> kf_used (k_fds k ! fd)" using o(1,6) by (auto simp: first_index_Some)
  have "k_fds k' = (k_fds k)[fd := opened i a2 v (current_pid k)]" using o(1,8) cp by (simp add: upd_fd_def)
  then have fds: "k_fds k' ! fd = opened i a2 v (current_pid k)" "j \<noteq> fd \<Longrightarrow> k_fds k' ! j = k_fds k ! j" for j
    using n(2) len by simp_all
  obtain w where w: "knode i k' = Some w" "\<And>mode. allowed w mode k' = allowed v mode k2"
    using o(3,8) by (cases "a2 AND O_TRUNC \<noteq> 0") simp_all
  show ?thesis
  proof (rule exI [of _ fd], rule exI [of _ i], rule exI [of _ w], intro conjI)
    show "kf_used (k_fds k' ! fd)" "kf_node (k_fds k' ! fd) = Some i" "kf_owner_pid (k_fds k' ! fd) = current_pid k"
      by (simp_all add: fds(1) opened_def)
  qed (use o(4,5,7) n fds(2) w in simp_all)
qed

section \<open>The mode that escapes the checks\<close>

lemma sys_file_open_unchecked:
  assumes "ksys_ok k" "ustr a1 k = Some path" "kresolve path k = Some (Some i, k1)" "knode i k1 = Some v"
    and "first_index (\<lambda>i. \<not> kf_used (k_fds k ! i)) 3 FD_MAX = Some fd"
    and "m = 3 \<or> (m = 1 \<or> m = 2) \<and> allowed v ACC_WRITE k1"
  shows "sys_file_open a1 m k = Some (of_nat fd, upd_fd fd (\<lambda>_. opened i m v (current_pid k1)) k1)"
proof -
  have fds: "k_fds k1 = k_fds k" using assms(3) by (auto simp: kresolve_def with_fs_def)
  have len: "fd < length (k_fds k1)" using assms(1,5) fds by (simp add: ksys_ok_def first_index_Some)
  show ?thesis
    using assms fds upd_fd_opened [OF len, where flags = m and i = i and v = v and p = "current_pid k1"]
    by (elim disjE conjE; simp add: sys_file_open_def Let_def alloc_fd_def)
qed

lemma sys_file_read_node:
  assumes "open_fd (sint fd) k = Some d" "kf_node (k_fds k ! d) = Some i" "knode i k = Some v"
    and "kf_pos (k_fds k ! d) < n_size v" "uaccess_ok a2 a3"
    and "kread dev i (kf_pos (k_fds k ! d)) (if kf_pos (k_fds k ! d) + a3 > n_size v then n_size v - kf_pos (k_fds k ! d) else a3) k
           = (got, bs)"
  shows "sys_file_read dev fd a2 a3 k = Some (Resume got, upd_fd d (\<lambda>d. d\<lparr>kf_pos := kf_pos d + got\<rparr>) (ustore a2 bs k))"
proof -
  have "3 \<le> sint fd" "sint fd < 64" using open_fd_Some [OF assms(1)] by simp_all
  then have "sint fd \<noteq> 0" "\<not> pipe_is_pipe (sint fd) (k_pipes k)" by (simp_all add: pipe_is_pipe_def)
  moreover have "\<not> n_size v \<le> kf_pos (k_fds k ! d)" using assms(4) by simp
  ultimately show ?thesis using assms by (simp add: sys_file_read_def Let_def)
qed

text \<open>
  Opening for reading and writing (mode 2) asks for the write permission only, and reading does not
  look at the mode of the descriptor: whoever may write a file can read it, permitted or not. Mode
  3 asks for nothing.
\<close>

lemma sys_file_open_read:
  assumes "ksys_ok k" "ustr a1 k = Some path" "kresolve path k = Some (Some i, k1)" "knode i k1 = Some v" "0 < n_size v"
    and "first_index (\<lambda>i. \<not> kf_used (k_fds k ! i)) 3 FD_MAX = Some fd" "uaccess_ok a2 a3"
    and "kread dev i 0 (if n_size v < a3 then n_size v else a3) k1 = (got, bs)"
    and "m = 3 \<or> (m = 1 \<or> m = 2) \<and> allowed v ACC_WRITE k1"
  shows "\<exists>k2 k3. sys_file_open a1 m k = Some (of_nat fd, k2) \<and> sys_file_read dev (of_nat fd) a2 a3 k2 = Some (Resume got, k3)
           \<and> k_mem k3 = store_bytes a2 bs (k_mem k)"
proof -
  let ?k2 = "upd_fd fd (\<lambda>_. opened i m v (current_pid k1)) k1"
  have k1: "k_fds k1 = k_fds k" "k_mem k1 = k_mem k" using assms(3) by (auto simp: kresolve_def with_fs_def)
  have n: "3 \<le> fd" "fd < 64" using assms(6) by (simp_all add: first_index_Some)
  have at: "k_fds ?k2 ! fd = opened i m v (current_pid k1)" using assms(1) n(2) k1(1) by (simp add: upd_fd_def ksys_ok_def)
  have at2: "kf_node (k_fds ?k2 ! fd) = Some i" "kf_pos (k_fds ?k2 ! fd) = 0" "kf_used (k_fds ?k2 ! fd)"
    unfolding at using assms(9) by (auto simp: opened_def)
  have s: "sint (of_nat fd :: u32) = int fd" using n(2) by (simp add: sint_uint uint_nat signed_take_bit_int_eq_self)
  have "open_fd (sint (of_nat fd :: u32)) ?k2 = Some fd" using n at2(3) unfolding s by (simp add: open_fd_def)
  then have "sys_file_read dev (of_nat fd) a2 a3 ?k2
          = Some (Resume got, upd_fd fd (\<lambda>d. d\<lparr>kf_pos := kf_pos d + got\<rparr>) (ustore a2 bs ?k2))"
    by (rule sys_file_read_node [where i = i and v = v])
      (use assms(4,5,7,8) in \<open>simp_all add: at2 kread_def cong: if_cong split del: if_split\<close>)
  then show ?thesis
    using sys_file_open_unchecked [OF assms(1-4,6,9)] k1(2) by (auto simp: upd_fd_def ustore_def)
qed

text \<open>
  C39: the two access bits together (mode 3) are neither read-only, write-only nor read-write, so no
  permission is asked for: whoever the caller and whatever the permissions of the node, the open
  succeeds, and a read through the descriptor delivers the contents.
\<close>

theorem sys_file_open_mode3_unchecked:
  assumes "ksys_ok k" "ustr a1 k = Some path" "kresolve path k = Some (Some i, k1)" "knode i k1 = Some v" "0 < n_size v"
    and "first_index (\<lambda>i. \<not> kf_used (k_fds k ! i)) 3 FD_MAX = Some fd" "uaccess_ok a2 a3"
    and "kread dev i 0 (if n_size v < a3 then n_size v else a3) k1 = (got, bs)"
  shows "\<exists>k2 k3. sys_file_open a1 3 k = Some (of_nat fd, k2) \<and> sys_file_read dev (of_nat fd) a2 a3 k2 = Some (Resume got, k3)
           \<and> k_mem k3 = store_bytes a2 bs (k_mem k)"
  by (rule sys_file_open_read [OF assms]) simp

section \<open>Writing, seeking, reading\<close>

lemma ramfs_read_cong:
  "fs_blockfs s = fs_blockfs s' \<Longrightarrow> fs_disk s = fs_disk s' \<Longrightarrow> ramfs_read n off sz s = ramfs_read n off sz s'"
  by (simp add: ramfs_read_def diskfile_read_def)

lemma kfs_storage [simp]: "fs_blockfs (kfs (put_fs s k)) = fs_blockfs s" "fs_disk (kfs (put_fs s k)) = fs_disk s"
  "fs_grants (kfs (put_fs s k)) = fs_grants s"
  by (simp_all add: kfs_def put_fs_def with_cred_def vfs_set_cred_provider_def)

text \<open>
  C18: writing a buffer through a descriptor on a file of ramfs, kept in memory or in blocks of the
  disk, seeking back to where the write began and reading the same length brings the same bytes
  back into user memory and leaves the descriptor after them. The file has to be in order
  (\<open>file_ok\<close>: its buffer as long as its capacity and holding its size, or its blocks distinct, in use
  and holding its size), the heap has to grant the allocation and, on the disk, the blocks for the
  new part have to be free, with the end of the write 4096 bytes (in memory 64) below the limit of
  32 bits (\<open>write_fits\<close>). Devices and FAT16 files, whose bytes come from a driver, are not covered.
\<close>

theorem sys_file_write_seek_read:
  assumes "ksys_ok k" "open_fd (sint fd) k = Some d" "kf_node (k_fds k ! d) = Some i" "knode i k = Some n" "n_ops n = Ramfs_ops"
    and "file_ok n (kfs k)" "write_fits n (unat (kf_pos (k_fds k ! d))) (unat len) (kfs k)" "fs_grants (kfs k) (fs_allocs (kfs k))"
    and "0 < len" "uaccess_ok a len" "uaccess_ok b len" "unat b + unat len < 0x100000000"
  shows "\<exists>k1 k2 k3. sys_file_write dev fd a len k = Some (Resume len, k1)
           \<and> sys_file_seek fd (kf_pos (k_fds k ! d)) 0 k1 = Some (kf_pos (k_fds k ! d), k2)
           \<and> sys_file_read dev fd b len k2 = Some (Resume len, k3)
           \<and> load_bytes b (unat len) (k_mem k3) = load_bytes a (unat len) (k_mem k)
           \<and> kf_pos (k_fds k3 ! d) = kf_pos (k_fds k ! d) + len"
proof -
  let ?pos = "kf_pos (k_fds k ! d)" and ?bs = "load_bytes a (unat len) (k_mem k)"
  have len: "?bs \<noteq> []" "length ?bs = unat len" using assms(9) by (auto simp: word_less_nat_alt simp flip: length_0_conv)
  have d: "3 \<le> d" "d < 64" "sint fd = int d" "kf_used (k_fds k ! d)" using open_fd_Some [OF assms(2)] by auto
  have lf: "d < length (k_fds k)" using assms(1) d(2) by (simp add: ksys_ok_def)
  have np: "\<not> pipe_is_pipe (int d) t" for t using d(2) by (simp add: pipe_is_pipe_def)
  have fits: "write_fits n (unat ?pos) (length ?bs) (kfs k)" using assms(7) len(2) by simp
  have bound: "unat ?pos + unat len < 4294967232" using assms(7) by (simp add: write_fits_def split: if_splits)
  obtain s n' where w: "ramfs_write i n ?pos ?bs (kfs k) = Some (len, s)" "fs_nodes s i = Some n'" "n_ops n' = Ramfs_ops"
      "unat (n_size n') = max (unat (n_size n)) (unat ?pos + unat len)"
      "ramfs_read n' ?pos len s = (len, ?bs)"
  proof (rule ramfs_write_file [OF assms(6) fits assms(8) len(1), of i], goal_cases)
    case (1 s' n')
    then show ?case using len(2) assms(5) by (intro 1(1) [of s' n']) (simp_all add: same_attrs_def)
  qed
  define k1 where "k1 = upd_fd d (\<lambda>d. d\<lparr>kf_pos := kf_pos d + len\<rparr>) (put_fs s k)"
  define k2 where "k2 = upd_fd d (\<lambda>d. d\<lparr>kf_pos := ?pos\<rparr>) k1"
  have wr: "sys_file_write dev fd a len k = Some (Resume len, k1)"
    using assms(2-5,10) d(1,3) np w(1)
    by (simp add: sys_file_write_def Let_def kwrite_def vfs_write_def with_fs_def k1_def knode_kfs)
  have fds: "k_fds k2 ! d = k_fds k ! d" using lf by (simp add: k2_def k1_def upd_fd_def)
  have op1: "open_fd (int d) k1 = Some d" using d lf by (simp add: open_fd_def k1_def upd_fd_def)
  have sk: "sys_file_seek fd ?pos 0 k1 = Some (?pos, k2)" using op1 d(3) by (simp add: sys_file_seek_def k2_def)
  have op2: "open_fd (sint fd) k2 = Some d" using d fds by (simp add: open_fd_def)
  have node: "knode i k2 = Some n'" using w(2) by (simp add: k2_def k1_def knode_def put_fs_def upd_fd_def)
  have e: "unat (?pos + len) = unat ?pos + unat len" using bound by (simp add: unat_plus_u32)
  have lt: "?pos < n_size n'" using w(4) assms(9) by (simp add: word_less_nat_alt)
  have all: "(if ?pos + len > n_size n' then n_size n' - ?pos else len) = len" using w(4) e by (simp add: word_less_nat_alt)
  have "kread dev i ?pos len k2 = (len, ?bs)"
    using w(2,3,5) ramfs_read_cong [of "kfs k2" s] by (simp add: kread_def vfs_read_def k2_def k1_def)
  then have rd: "sys_file_read dev fd b len k2
      = Some (Resume len, upd_fd d (\<lambda>d. d\<lparr>kf_pos := kf_pos d + len\<rparr>) (ustore b ?bs k2))"
    by (intro sys_file_read_node [OF op2 _ node]) (simp_all add: fds assms(3,11) lt all cong: if_cong split del: if_split)
  have "load_bytes b (unat len) (store_bytes b ?bs (k_mem k)) = ?bs"
    using load_store_bytes [of b ?bs] assms(12) len(2) by simp
  with wr sk rd show ?thesis using lf fds
    by (intro exI [of _ k1] exI [of _ k2] exI [of _ "upd_fd d (\<lambda>d. d\<lparr>kf_pos := kf_pos d + len\<rparr>) (ustore b ?bs k2)"])
      (simp add: ustore_def upd_fd_def k2_def k1_def put_fs_def)
qed

section \<open>Witnesses\<close>

text \<open>A user \<open>uid\<close> and the file \<^verbatim>\<open>/etc/shadow\<close>, which belongs to root and nobody else may read.\<close>

definition shadow_ksys :: "u32 \<Rightarrow> ksys" where
  "shadow_ksys uid = example_ksys\<lparr>k_ac := example_accounts\<lparr>
       users := example_user\<lparr>u_uid := uid, u_gid := uid\<rparr> # replicate 31 zero_user,
       ac_fs := example_users_tree\<lparr>fs_nodes := (fs_nodes example_users_tree)(4 \<mapsto>
         (fresh_node (Some 2) ''shadow'' VFS_FILE 5)\<lparr>n_permissions := 0x180, n_size := 1, n_data := Some [115], n_capacity := 1\<rparr>)\<rparr>\<rparr>,
     k_mem := store_bytes 0x08048000 (string_bytes ''/etc/shadow'' @ [0]) (\<lambda>_. 0)\<rparr>"

lemma shadow_ksys_ok: "ksys_ok (shadow_ksys uid)"
  using example_ksys_ok by (simp add: shadow_ksys_def)

lemma shadow_name: "ustr 0x08048000 (shadow_ksys uid) = Some ''/etc/shadow''"
  using str_at_stored [where a = "0x08048000" and s = "''/etc/shadow''" and m = "\<lambda>_. 0"]
  by (simp add: ustr_def shadow_ksys_def)

lemma shadow_resolve:
  "\<exists>k1. kresolve ''/etc/shadow'' (shadow_ksys uid) = Some (Some 4, k1) \<and> knode 4 k1 = knode 4 (shadow_ksys uid)
     \<and> k1 = put_fs (rooted (kfs (shadow_ksys uid))) (shadow_ksys uid)"
proof -
  let ?k = "shadow_ksys uid"
  have "tree_ok (ac_fs (k_ac ?k))"
    by (auto simp: shadow_ksys_def tree_ok_def node_ok_def child_names_def example_users_tree_def example_defs name_ok_def split: if_splits)
  then have t: "tree_ok (kfs ?k)" by (simp add: kfs_def tree_ok_with_cred)
  have "resolve_walk (fs_root (kfs ?k)) shadow_path (kfs ?k) = Some 4"
    by (simp add: shadow_ksys_def example_users_tree_def example_defs vfs_finddir_def ramfs_finddir_def)
  then have "vfs_resolve ''/etc/shadow'' (k_cwd ?k) (kfs ?k) = Some (Some 4, rooted (kfs ?k))"
    using vfs_resolve_render [OF t, of shadow_path "k_cwd ?k"] by (simp add: name_ok_def)
  then show ?thesis by (simp add: kresolve_def with_fs_def knode_def put_fs_def)
qed

lemma shadow_fds: "first_index (\<lambda>i. \<not> kf_used (k_fds (shadow_ksys uid) ! i)) 3 FD_MAX = Some 3"
  by (simp add: first_index_Some shadow_ksys_def example_ksys_def)

lemma shadow_node:
  "knode 4 (shadow_ksys uid) = Some ((fresh_node (Some 2) ''shadow'' VFS_FILE 5)
     \<lparr>n_permissions := 0x180, n_size := 1, n_data := Some [115], n_capacity := 1\<rparr>)"
  by (simp add: knode_def shadow_ksys_def)

theorem sys_file_open_mode3_unchecked_witness:
  "\<exists>k2 k3. sys_file_open 0x08048000 3 (shadow_ksys 1000) = Some (3, k2)
     \<and> sys_file_read (e_dev no_drivers) 3 0x08049000 16 k2 = Some (Resume 1, k3) \<and> k_mem k3 0x08049000 = 115
     \<and> \<not> allowed (the (knode 4 (shadow_ksys 1000))) ACC_READ (shadow_ksys 1000)"
proof -
  obtain k1 where r: "kresolve ''/etc/shadow'' (shadow_ksys 1000) = Some (Some 4, k1)"
    "knode 4 k1 = knode 4 (shadow_ksys 1000)"
    using shadow_resolve by blast
  have n: "fs_nodes (ac_fs (k_ac k1)) 4 = knode 4 (shadow_ksys 1000)" using r(2) by (simp add: knode_def)
  have rd: "kread (e_dev no_drivers) 4 0 (if 1 < (16 :: u32) then 1 else 16) k1 = (1, [115])"
    by (simp add: kread_def vfs_read_def n shadow_node fresh_node_def ramfs_read_def slice_def)
  have "\<exists>k2 k3. sys_file_open 0x08048000 3 (shadow_ksys 1000) = Some (of_nat 3, k2)
      \<and> sys_file_read (e_dev no_drivers) (of_nat 3) 0x08049000 16 k2 = Some (Resume 1, k3)
      \<and> k_mem k3 = store_bytes 0x08049000 [115] (k_mem (shadow_ksys 1000))"
    by (rule sys_file_open_mode3_unchecked [OF shadow_ksys_ok shadow_name r(1) r(2) [unfolded shadow_node] _ shadow_fds])
      (use rd in \<open>simp_all add: fresh_node_def uaccess_ok_def\<close>)
  moreover have "\<not> allowed (the (knode 4 (shadow_ksys 1000))) ACC_READ (shadow_ksys 1000)"
    unfolding shadow_node option.sel
    by (simp add: allowed_def vfs_check_access_def current_cred_def kfs_def with_cred_def vfs_set_cred_provider_def
        users_get_cred_def shadow_ksys_def example_accounts_def fresh_node_def)
  ultimately show ?thesis by auto
qed

theorem sys_file_open_checks_witness:
  "\<exists>k' i v. sys_file_open 0x08048000 0 (shadow_ksys 0) = Some (3, k') \<and> kf_node (k_fds k' ! 3) = Some i
     \<and> knode i k' = Some v \<and> allowed v ACC_READ k'"
proof -
  obtain k1 where r: "kresolve ''/etc/shadow'' (shadow_ksys 0) = Some (Some 4, k1)" "knode 4 k1 = knode 4 (shadow_ksys 0)"
    "k1 = put_fs (rooted (kfs (shadow_ksys 0))) (shadow_ksys 0)"
    using shadow_resolve by blast
  have root: "allowed v mode k1" for v mode
    by (simp add: r(3) allowed_def vfs_check_access_def current_cred_def kfs_def with_cred_def vfs_set_cred_provider_def
        users_get_cred_def shadow_ksys_def example_accounts_def put_fs_def example_user_def zero_user_def)
  have fds: "k_fds k1 = k_fds (shadow_ksys 0)" by (simp add: r(3))
  obtain k' where o: "sys_file_open 0x08048000 0 (shadow_ksys 0) = Some (3, k')"
    by (simp add: sys_file_open_def shadow_name r(1,2) shadow_node root Let_def alloc_fd_def fds shadow_fds)
  from sys_file_open_checks [OF shadow_ksys_ok o] obtain fd i v where
    "(3 :: u32) = of_nat fd" "fd < FD_MAX" "kf_node (k_fds k' ! fd) = Some i" "knode i k' = Some v" "allowed v ACC_READ k'" by auto
  moreover then have "fd = 3" by (simp add: word_unat_eq_iff)
  ultimately show ?thesis using o by auto
qed

text \<open>A file that user 1000 may write and may not read: opening it in mode 2 lets the user read it.\<close>

lemma write_only_allowed:
  "allowed (v\<lparr>n_permissions := 0x92, n_owner_uid := 0, n_owner_gid := 0\<rparr>) ACC_WRITE (shadow_ksys 1000)
   \<and> \<not> allowed (v\<lparr>n_permissions := 0x92, n_owner_uid := 0, n_owner_gid := 0\<rparr>) ACC_READ (shadow_ksys 1000)"
  by (simp add: allowed_def vfs_check_access_def current_cred_def kfs_def with_cred_def vfs_set_cred_provider_def
      users_get_cred_def shadow_ksys_def example_accounts_def)

definition written_ksys :: ksys where
  "written_ksys = upd_fd 3 (\<lambda>_. opened 4 2 (the (knode 4 (shadow_ksys 0))) 1) (shadow_ksys 0)"

text \<open>The same file when the machine has a disk: empty so far, its first write takes a block.\<close>

definition stored_ksys :: ksys where
  "stored_ksys = put_fs ((kfs written_ksys)\<lparr>fs_nodes := (fs_nodes (kfs written_ksys))(4 \<mapsto> fresh_node (Some 2) ''shadow'' VFS_FILE 5),
     fs_disk := example_disk, fs_blockfs := example_blockfs\<rparr>) written_ksys"

definition round_trip :: "ksys \<Rightarrow> bool" where
  "round_trip k = (\<exists>k1 k2 k3. sys_file_write (e_dev no_drivers) 3 0x08048000 4 k = Some (Resume 4, k1)
     \<and> sys_file_seek 3 0 0 k1 = Some (0, k2) \<and> sys_file_read (e_dev no_drivers) 3 0x08049000 4 k2 = Some (Resume 4, k3)
     \<and> load_bytes 0x08049000 4 (k_mem k3) = load_bytes 0x08048000 4 (k_mem k))"

lemma written_ksys_fds:
  "ksys_ok written_ksys" "kf_node (k_fds written_ksys ! 3) = Some 4" "kf_pos (k_fds written_ksys ! 3) = 0" "kf_used (k_fds written_ksys ! 3)"
proof -
  have len: "length (k_fds (shadow_ksys 0)) = FD_MAX" using shadow_ksys_ok by (simp add: ksys_ok_def)
  then have fd: "k_fds written_ksys ! 3 = opened 4 2 (the (knode 4 (shadow_ksys 0))) 1"
    by (simp add: written_ksys_def upd_fd_def)
  show "ksys_ok written_ksys"
    unfolding written_ksys_def by (rule ksys_ok_upd_fd [OF shadow_ksys_ok]) (simp_all add: opened_def)
  show "kf_node (k_fds written_ksys ! 3) = Some 4" "kf_pos (k_fds written_ksys ! 3) = 0" "kf_used (k_fds written_ksys ! 3)"
    unfolding fd by (simp_all add: opened_def)
qed

lemma written_ksys_storage:
  "knode 4 written_ksys = knode 4 (shadow_ksys 0)" "\<not> bf_available (fs_blockfs (kfs written_ksys))" "fs_grants (kfs written_ksys) x"
  by (simp_all add: written_ksys_def) (simp_all add: kfs_def with_cred_def vfs_set_cred_provider_def shadow_ksys_def example_accounts_def
        example_users_tree_def example_tree_def blank_blockfs_def)

lemma stored_ksys_storage:
  "knode 4 stored_ksys = Some (fresh_node (Some 2) ''shadow'' VFS_FILE 5)" "fs_blockfs (kfs stored_ksys) = example_blockfs"
  "fs_disk (kfs stored_ksys) = example_disk" "fs_grants (kfs stored_ksys) x" "k_fds stored_ksys = k_fds written_ksys"
  using written_ksys_storage(3)
  by (simp_all add: stored_ksys_def knode_def)

lemma stored_ksys_ok: "ksys_ok stored_ksys"
  using written_ksys_fds(1) by (simp add: stored_ksys_def)

lemma written_file: "file_ok (the (knode 4 written_ksys)) (kfs written_ksys)" "write_fits (the (knode 4 written_ksys)) 0 4 (kfs written_ksys)"
  using written_ksys_storage(2)
  by (simp_all add: written_ksys_storage(1) shadow_node file_ok_def lies_on_disk_def file_buffer_ok_def data_bytes_def fresh_node_def
      write_fits_def new_blocks_def)

lemma stored_file: "file_ok (the (knode 4 stored_ksys)) (kfs stored_ksys)" "write_fits (the (knode 4 stored_ksys)) 0 4 (kfs stored_ksys)"
proof -
  have "bf_available example_blockfs" using example_blockfs by (simp add: mounted_on_def blockfs_inv_def)
  then show "file_ok (the (knode 4 stored_ksys)) (kfs stored_ksys)" "write_fits (the (knode 4 stored_ksys)) 0 4 (kfs stored_ksys)"
    using example_disk example_blockfs
    by (simp_all add: stored_ksys_storage file_ok_def lies_on_disk_def file_blocks_ok_def fresh_node_def block_list_def disk_ready_def
        write_fits_def new_blocks_def free_blocks_def example_blocks example_blocks_free)
qed

theorem sys_file_write_seek_read_witness: "round_trip written_ksys \<and> round_trip stored_ksys"
proof -
  have "round_trip k" if k: "ksys_ok k" "k_fds k = k_fds written_ksys" "knode 4 k = Some n" "n_ops n = Ramfs_ops"
    "file_ok n (kfs k)" "write_fits n 0 4 (kfs k)" "fs_grants (kfs k) (fs_allocs (kfs k))" for k n
  proof -
    note fd = written_ksys_fds(2-4) [folded k(2)]
    have "open_fd (sint (3 :: u32)) k = Some 3" by (simp add: open_fd_def fd)
    note rt = sys_file_write_seek_read [OF k(1) this fd(1) k(3-5), where a = "0x08048000" and b = "0x08049000" and len = 4
        and dev = "e_dev no_drivers", unfolded fd(2)]
    show ?thesis unfolding round_trip_def
      by (rule rt [elim_format]) (use k(6,7) in \<open>simp_all add: uaccess_ok_def\<close>, auto)
  qed
  note rt = this
  show ?thesis
  proof
    show "round_trip written_ksys"
      by (rule rt [of _ "the (knode 4 written_ksys)"]) (use written_file written_ksys_fds written_ksys_storage shadow_node in
          \<open>simp_all add: fresh_node_def\<close>)
    show "round_trip stored_ksys"
      by (rule rt [of _ "the (knode 4 stored_ksys)"]) (use stored_file stored_ksys_ok stored_ksys_storage in
          \<open>simp_all add: fresh_node_def\<close>)
  qed
qed

end
