(* ===== verification/Elf.thy ===== *)
theory Elf
  imports Syscall
begin

text \<open>
  The program loader, \<^verbatim>\<open>kernel/elf.c\<close>: the header of an executable, the two passes of
  \<^verbatim>\<open>elf_execve\<close> over its segments, the stack a program starts with, and the nested start of
  \<^verbatim>\<open>elf_exec_argv\<close>. The first GiB is mapped one to one in every address space, so a segment is
  loaded by plain stores into \<open>k_mem\<close>. Reading the file's buffer outside its bounds is \<open>None\<close>; the bytes
  behind a short read are those the heap held.
\<close>

section \<open>Headers\<close>

abbreviation ELF_MAGIC :: u32 where "ELF_MAGIC \<equiv> 0x464C457F"
abbreviation PT_LOAD :: u32 where "PT_LOAD \<equiv> 1"
abbreviation USER_STACK_SIZE :: u32 where "USER_STACK_SIZE \<equiv> 0x10000"
abbreviation PADRE_SAVE_BASE :: u32 where "PADRE_SAVE_BASE \<equiv> 0x08048000"
abbreviation PADRE_SAVE_SIZE :: nat where "PADRE_SAVE_SIZE \<equiv> 0xB8000"

record elf32_ehdr_t =
  e_magic :: u32
  e_class :: u8
  e_data :: u8
  e_type :: u16
  e_machine :: u16
  e_entry :: u32
  e_phoff :: u32
  e_phentsize :: u16
  e_phnum :: u16

record elf32_phdr_t =
  p_type :: u32
  p_offset :: u32
  p_vaddr :: u32
  p_filesz :: u32
  p_memsz :: u32

definition le16_at :: "u8 list \<Rightarrow> nat \<Rightarrow> u16" where
  "le16_at bs off = ucast (bs ! off) OR push_bit 8 (ucast (bs ! (off + 1)))"

definition le32_at :: "u8 list \<Rightarrow> nat \<Rightarrow> u32" where
  "le32_at bs off = le32 (bs ! off) (bs ! (off + 1)) (bs ! (off + 2)) (bs ! (off + 3))"

definition parse_ehdr :: "u8 list \<Rightarrow> elf32_ehdr_t" where
  "parse_ehdr bs =
     \<lparr>e_magic = le32_at bs 0, e_class = bs ! 4, e_data = bs ! 5, e_type = le16_at bs 16, e_machine = le16_at bs 18,
      e_entry = le32_at bs 24, e_phoff = le32_at bs 28, e_phentsize = le16_at bs 42, e_phnum = le16_at bs 44\<rparr>"

text \<open>The address of the \<open>i\<close>th program header is a 32-bit sum.\<close>

definition read_phdr :: "u8 list \<Rightarrow> elf32_ehdr_t \<Rightarrow> nat \<Rightarrow> elf32_phdr_t option" where
  "read_phdr bs e i =
     (let off = unat (e_phoff e + of_nat i * ucast (e_phentsize e))
      in if off + 32 \<le> length bs
         then Some \<lparr>p_type = le32_at bs off, p_offset = le32_at bs (off + 4), p_vaddr = le32_at bs (off + 8),
                    p_filesz = le32_at bs (off + 16), p_memsz = le32_at bs (off + 20)\<rparr>
         else None)"

definition elf_validate :: "elf32_ehdr_t \<Rightarrow> bool" where
  "elf_validate e =
     (if e_magic e \<noteq> ELF_MAGIC then False
      else if e_class e \<noteq> 1 then False
      else if e_data e \<noteq> 1 then False
      else if e_type e \<noteq> 2 then False
      else if e_machine e \<noteq> 3 then False
      else True)"

section \<open>Arguments\<close>

text \<open>\<^verbatim>\<open>while (argv[argc]) argc++\<close>\<close>

partial_function (option) count_args :: "u32 \<Rightarrow> mem \<Rightarrow> nat option" where
  "count_args argv m = (if load32 argv m = 0 then Some 0 else Option.bind (count_args (argv + 4) m) (\<lambda>n. Some (n + 1)))"

fun read_args :: "nat \<Rightarrow> u32 \<Rightarrow> mem \<Rightarrow> string list option" where
  "read_args 0 argv m = Some []"
| "read_args (Suc n) argv m =
     do { s \<leftarrow> str_at (load32 argv m) m; ss \<leftarrow> read_args n (argv + 4) m; Some (s # ss) }"

text \<open>
  Arguments are copied to the heap when they would be overwritten (\<open>Copied\<close>), or else read where they are
  while the stack is built.
\<close>

datatype arguments = Copied "string list" | In_place u32 nat

definition arg_count :: "arguments \<Rightarrow> nat" where
  "arg_count a = (case a of Copied ss \<Rightarrow> length ss | In_place argv n \<Rightarrow> n)"

definition argument :: "arguments \<Rightarrow> nat \<Rightarrow> mem \<Rightarrow> string option" where
  "argument a i m = (case a of Copied ss \<Rightarrow> Some (ss ! i) | In_place argv n \<Rightarrow> str_at (load32 (argv + 4 * of_nat i) m) m)"

section \<open>The first stack\<close>

definition stack_top :: "nat \<Rightarrow> u32" where
  "stack_top nest =
     (if nest = 1 then 0x0F000000 else if nest = 2 then 0x0EE00000 else if nest = 3 then 0x0EC00000
      else if nest = 4 then 0x0EA00000 else 0x0E800000)"

text \<open>The loop runs from the last argument to the first; \<open>ptrs\<close> collects \<^verbatim>\<open>str_ptrs\<close>.\<close>

fun push_args :: "nat \<Rightarrow> arguments \<Rightarrow> u32 \<Rightarrow> u32 list \<Rightarrow> mem \<Rightarrow> (u32 \<times> u32 list \<times> mem) option" where
  "push_args 0 a sp ptrs m = Some (sp, ptrs, m)"
| "push_args (Suc i) a sp ptrs m =
     do {
       s \<leftarrow> argument a i m;
       let sp = sp - of_nat (length s + 1);
       push_args i a sp (sp # ptrs) (store_bytes sp (string_bytes s @ [0]) m)
     }"

fun store_words :: "u32 \<Rightarrow> u32 list \<Rightarrow> mem \<Rightarrow> mem" where
  "store_words a [] m = m"
| "store_words a (w # ws) m = store_words (a + 4) ws (store32 a w m)"

definition build_stack :: "u32 \<Rightarrow> arguments option \<Rightarrow> mem \<Rightarrow> (u32 \<times> mem) option" where
  "build_stack tp args m =
     (let m = store_bytes (tp - USER_STACK_SIZE) (replicate (unat USER_STACK_SIZE) 0) m;
          esp = tp - 16 - 12;
          m = store_words esp [0, 0, 0] m
      in case args of
           None \<Rightarrow> Some (esp, m)
         | Some a \<Rightarrow>
             do {
               let argc = min (arg_count a) 32;
               (str_top, ptrs, m) \<leftarrow> push_args argc a (tp - 16) [] m;
               let str_top = str_top AND NOT 3;
               let arr = str_top - 4 * (of_nat argc + 1);
               let m = store_words arr (ptrs @ [0]) m;
               let esp = arr - 12;
               Some (esp, store_words esp [0, of_nat argc, arr] m)
             })"

section \<open>Segments\<close>

text \<open>The file in its heap buffer, with the number of bytes that were read.\<close>

definition elf_file :: "devices \<Rightarrow> nat \<Rightarrow> u32 \<Rightarrow> ksys \<Rightarrow> u32 \<times> u8 list" where
  "elf_file dev i filesz k =
     (case kread dev i 0 filesz k of
        (got, bs) \<Rightarrow> (got, take (unat filesz) (bs @ map (fs_junk (kfs k)) [length bs..<unat filesz])))"

text \<open>The loop that maps the pages of a range is that of \<open>sys_brk\<close>.\<close>

definition map_pages :: "u32 \<Rightarrow> u32 \<Rightarrow> u32 \<Rightarrow> ksys \<Rightarrow> ksys option" where
  "map_pages pd start end_addr k =
     (if pd \<noteq> 0 then map_option (\<lambda>v. k\<lparr>k_vmm := v\<rparr>) (brk_loop pd (start AND NOT 0xFFF) end_addr (k_vmm k)) else Some k)"

definition heap_after :: "u32 \<Rightarrow> nat \<Rightarrow> ksys \<Rightarrow> ksys" where
  "heap_after max_end c k =
     (if max_end > 0
      then let h = (max_end + 0x1000) AND NOT 0xFFF
           in k\<lparr>k_ps := upd_proc c (\<lambda>p. p\<lparr>heap_start := h, heap_brk := h\<rparr>) (k_ps k)\<rparr>
      else k)"

definition last_component :: "string \<Rightarrow> string" where
  "last_component path = rev (takeWhile (\<lambda>c. c \<noteq> SLASH) (rev path))"

section \<open>Replacing the image of a process\<close>

text \<open>The first pass: 0, or the error that ends it. The sums are 64-bit sums.\<close>

fun check_segments :: "nat list \<Rightarrow> u8 list \<Rightarrow> elf32_ehdr_t \<Rightarrow> u32 \<Rightarrow> int option" where
  "check_segments [] buf e got = Some 0"
| "check_segments (i # is) buf e got =
     do {
       p \<leftarrow> read_phdr buf e i;
       if p_type p \<noteq> PT_LOAD then check_segments is buf e got
       else if unat (p_vaddr p) + unat (p_memsz p) > 0x40000000 then Some (-3)
       else if unat (p_offset p) + unat (p_filesz p) > unat got then Some (-2)
       else check_segments is buf e got
     }"

definition copy_segment :: "u8 list \<Rightarrow> elf32_phdr_t \<Rightarrow> mem \<Rightarrow> mem" where
  "copy_segment buf p m = store_bytes (p_vaddr p) (slice (unat (p_offset p)) (unat (p_filesz p)) buf) m"

definition clear_tail :: "elf32_phdr_t \<Rightarrow> mem \<Rightarrow> mem" where
  "clear_tail p m =
     (if p_memsz p > p_filesz p
      then store_bytes (p_vaddr p + p_filesz p) (replicate (unat (p_memsz p - p_filesz p)) 0) m else m)"

text \<open>The second pass; the bounds of the file were tested by the first.\<close>

fun commit_segments :: "nat list \<Rightarrow> u8 list \<Rightarrow> elf32_ehdr_t \<Rightarrow> u32 \<Rightarrow> u32 \<Rightarrow> ksys \<Rightarrow> (u32 \<times> ksys) option" where
  "commit_segments [] buf e pd max_end k = Some (max_end, k)"
| "commit_segments (i # is) buf e pd max_end k =
     do {
       p \<leftarrow> read_phdr buf e i;
       if p_type p \<noteq> PT_LOAD then commit_segments is buf e pd max_end k
       else do {
         let end_addr = p_vaddr p + p_memsz p;
         k \<leftarrow> map_pages pd (p_vaddr p) end_addr k;
         commit_segments is buf e pd (if end_addr > max_end then end_addr else max_end)
           (k\<lparr>k_mem := clear_tail p (copy_segment buf p (k_mem k))\<rparr>)
       }
     }"

text \<open>The copy of the arguments in the heap, whose allocation may fail; \<open>None\<close> inside: no arguments.\<close>

definition copy_args :: "nat \<Rightarrow> u32 \<Rightarrow> ksys \<Rightarrow> (bool \<times> arguments option \<times> ksys) option" where
  "copy_args argc argv k =
     (if argc > 0 \<and> argv \<noteq> 0
      then do {
        ss \<leftarrow> read_args argc argv (k_mem k);
        case kalloc (kfs k) of (ok, s) \<Rightarrow> Some (ok, Some (Copied ss), put_fs s k)
      }
      else Some (True, None, k))"

definition elf_enter :: "nat \<Rightarrow> nat \<Rightarrow> u32 \<Rightarrow> arguments option \<Rightarrow> ksys \<Rightarrow> (u32 \<times> ksys) option" where
  "elf_enter nest c max_end args k =
     do {
       let k = heap_after max_end c k;
       let tp = stack_top nest;
       k \<leftarrow> map_pages (page_dir (processes (k_ps k) ! c)) (tp - USER_STACK_SIZE) tp k;
       (esp, m) \<leftarrow> build_stack tp args (k_mem k);
       Some (esp, k\<lparr>k_mem := m\<rparr>)
     }"

text \<open>\<open>nest\<close> is \<^verbatim>\<open>g_nest\<close>. The result: the code, and the entry point and stack pointer on success.\<close>

definition elf_execve ::
  "devices \<Rightarrow> nat \<Rightarrow> string \<Rightarrow> nat \<Rightarrow> u32 \<Rightarrow> ksys \<Rightarrow> ((int \<times> (u32 \<times> u32) option) \<times> ksys) option" where
  "elf_execve dev nest path argc argv k =
     (case current (k_ps k) of
        None \<Rightarrow> Some ((-1, None), k)
      | Some c \<Rightarrow>
          do {
            (n, k) \<leftarrow> kresolve path k;
            case n of
              None \<Rightarrow> Some ((-1, None), k)
            | Some i \<Rightarrow>
                do {
                  v \<leftarrow> knode i k;
                  if n_type v \<noteq> VFS_FILE then Some ((-1, None), k)
                  else if \<not> allowed v ACC_EXEC k then Some ((-5, None), k)
                  else if n_size v < 52 then Some ((-2, None), k)
                  else case kalloc (kfs k) of
                    (ok, s) \<Rightarrow>
                      let k = put_fs s k
                      in if \<not> ok then Some ((-3, None), k)
                         else case elf_file dev i (n_size v) k of
                           (got, buf) \<Rightarrow>
                             let e = parse_ehdr buf
                             in if got < 52 then Some ((-2, None), k)
                                else if \<not> elf_validate e then Some ((-2, None), k)
                                else if e_entry e = 0 then Some ((-4, None), k)
                                else do {
                                  let phdrs = [0..<unat (e_phnum e)];
                                  rc \<leftarrow> check_segments phdrs buf e got;
                                  if rc \<noteq> 0 then Some ((rc, None), k)
                                  else do {
                                    (ok, args, k) \<leftarrow> copy_args argc argv k;
                                    if \<not> ok then Some ((-3, None), k)
                                    else do {
                                      (max_end, k) \<leftarrow> commit_segments phdrs buf e (page_dir (processes (k_ps k) ! c)) 0 k;
                                      (esp, k) \<leftarrow> elf_enter nest c max_end args k;
                                      Some ((0, Some (e_entry e, esp)),
                                        k\<lparr>k_ps := upd_proc c (\<lambda>p. p\<lparr>pname := take 31 (last_component path)\<rparr>) (k_ps k)\<rparr>)
                                    }
                                  }
                                }
                }
          })"

section \<open>Starting a program in a new process\<close>

text \<open>
  The segments are loaded as they are met: an error in a later one leaves the earlier ones loaded. The sums are 32-bit
  sums, so the copy can start behind the buffer (\<open>None\<close>).
\<close>

fun load_segments :: "nat list \<Rightarrow> u8 list \<Rightarrow> elf32_ehdr_t \<Rightarrow> u32 \<Rightarrow> u32 \<Rightarrow> u32 \<Rightarrow> ksys \<Rightarrow> (u32 option \<times> ksys) option" where
  "load_segments [] buf e got pd max_end k = Some (Some max_end, k)"
| "load_segments (i # is) buf e got pd max_end k =
     do {
       p \<leftarrow> read_phdr buf e i;
       let end_addr = p_vaddr p + p_memsz p;
       if p_type p \<noteq> PT_LOAD then load_segments is buf e got pd max_end k
       else if end_addr > 0x40000000 then Some (None, k)
       else do {
         k \<leftarrow> map_pages pd (p_vaddr p) end_addr k;
         let copies = (p_filesz p > 0 \<and> p_offset p + p_filesz p \<le> got);
         if copies \<and> unat (p_offset p) + unat (p_filesz p) > length buf then None
         else load_segments is buf e got pd (if end_addr > max_end then end_addr else max_end)
           (k\<lparr>k_mem := clear_tail p (if copies then copy_segment buf p (k_mem k) else k_mem k)\<rparr>)
       }
     }"

definition end_process :: "nat \<Rightarrow> int \<Rightarrow> ksys \<Rightarrow> ksys" where
  "end_process c code k = k\<lparr>k_ps := upd_proc c (\<lambda>p. p\<lparr>pstate := PROC_ZOMBIE, exit_code := code\<rparr>) (k_ps k)\<rparr>"

definition elf_arm_exit_jmp :: "ksys \<Rightarrow> ksys" where
  "elf_arm_exit_jmp k = k\<lparr>k_jmp := (True, snd (k_jmp k))\<rparr>"

text \<open>A process without a kernel stack enters on one that is allocated on the spot.\<close>

definition set_entry_stack :: "nat \<Rightarrow> ksys \<Rightarrow> ksys" where
  "set_entry_stack c k =
     (let st = kstack (processes (k_ps k) ! c)
      in if st \<noteq> 0 then k\<lparr>k_ps := emit (Set_tss (st + 8192)) (k_ps k)\<rparr> else put_fs (snd (kalloc (kfs k))) k)"

text \<open>
  \<open>enter\<close> runs the program from its entry point and stack pointer until control is back in the kernel; the
  code it left is in \<open>k_jmp\<close>.
\<close>

definition elf_exec_argv_inner ::
  "(u32 \<Rightarrow> u32 \<Rightarrow> ksys \<Rightarrow> ksys option) \<Rightarrow> devices \<Rightarrow> nat \<Rightarrow> string \<Rightarrow> arguments option \<Rightarrow> nat \<Rightarrow> ksys \<Rightarrow> (int \<times> ksys) option" where
  "elf_exec_argv_inner enter dev nest path args c k =
     do {
       (n, k) \<leftarrow> kresolve path k;
       case n of
         None \<Rightarrow> Some (-1, end_process c (-1) k)
       | Some i \<Rightarrow>
           do {
             v \<leftarrow> knode i k;
             if n_type v \<noteq> VFS_FILE then Some (-1, end_process c (-1) k)
             else if n_size v < 52 then Some (-2, end_process c (-2) k)
             else case kalloc (kfs k) of
               (ok, s) \<Rightarrow>
                 let k = put_fs s k
                 in if \<not> ok then Some (-3, end_process c (-3) k)
                    else case elf_file dev i (n_size v) k of
                      (got, buf) \<Rightarrow>
                        let e = parse_ehdr buf
                        in if got < 52 then Some (-2, end_process c (-2) k)
                           else if \<not> elf_validate e then Some (-2, end_process c (-2) k)
                           else if e_entry e = 0 then Some (-4, end_process c (-4) k)
                           else do {
                             (loaded, k) \<leftarrow> load_segments [0..<unat (e_phnum e)] buf e got (page_dir (processes (k_ps k) ! c)) 0 k;
                             case loaded of
                               None \<Rightarrow> Some (-3, end_process c (-3) k)
                             | Some max_end \<Rightarrow>
                                 do {
                                   (esp, k) \<leftarrow> elf_enter nest c max_end args k;
                                   k \<leftarrow> enter (e_entry e) esp (set_entry_stack c (elf_arm_exit_jmp k));
                                   let code = elf_get_exit_code k;
                                   Some (code, end_process c code (elf_disarm_exit_jmp k))
                                 }
                           }
           }
     }"

text \<open>
  \<^verbatim>\<open>process_create\<close> with its allocations: the space of a slot that is used again is freed before the new one is
  made. \<open>stack\<close> is the kernel stack the heap hands out.
\<close>

definition spawn_process :: "string \<Rightarrow> u32 \<Rightarrow> ksys \<Rightarrow> nat option \<times> ksys" where
  "spawn_process name stack k =
     (let v = (case find_zombie (k_ps k) of
                 None \<Rightarrow> k_vmm k
               | Some i \<Rightarrow> let pd = page_dir (processes (k_ps k) ! i)
                           in if pd \<noteq> 0 then vmm_free_address_space pd (k_vmm k) else k_vmm k)
      in if find_zombie (k_ps k) = None \<and> length (processes (k_ps k)) \<ge> MAX_PROCESSES then (None, k)
         else case vmm_create_address_space v of
                (pd, v) \<Rightarrow> (case process_create name 0 pd stack (k_ps k) of (r, s) \<Rightarrow> (r, k\<lparr>k_vmm := v, k_ps := s\<rparr>)))"

text \<open>
  \<open>nest\<close> programs are already running. A nested start first copies away the code of its parent, which the new program
  is loaded over, and its arguments, when the heap grants the copies.
\<close>

definition save_parent :: "nat \<Rightarrow> ksys \<Rightarrow> u8 list option \<times> ksys" where
  "save_parent nest k =
     (if nest \<ge> 1
      then case kalloc (kfs k) of
             (ok, s) \<Rightarrow> (if ok then Some (load_bytes PADRE_SAVE_BASE PADRE_SAVE_SIZE (k_mem k)) else None, put_fs s k)
      else (None, k))"

definition save_args :: "nat \<Rightarrow> nat \<Rightarrow> u32 \<Rightarrow> ksys \<Rightarrow> (arguments option \<times> ksys) option" where
  "save_args nest argc argv k =
     (if argc = 0 \<or> argv = 0 then Some (None, k)
      else if nest \<ge> 1
      then do { (ok, args, k) \<leftarrow> copy_args argc argv k; Some (if ok then args else Some (In_place argv argc), k) }
      else Some (Some (In_place argv argc), k))"

definition elf_exec_argv ::
  "(u32 \<Rightarrow> u32 \<Rightarrow> ksys \<Rightarrow> ksys option) \<Rightarrow> devices \<Rightarrow> u32 \<Rightarrow> nat \<Rightarrow> string \<Rightarrow> nat \<Rightarrow> u32 \<Rightarrow> ksys \<Rightarrow> (int \<times> ksys) option" where
  "elf_exec_argv enter dev stack nest path argc argv k =
     (case save_parent nest k of
        (backup, k) \<Rightarrow>
          do {
            (args, k) \<leftarrow> save_args nest argc argv k;
            case spawn_process (take 31 (last_component path)) stack k of
              (proc, k) \<Rightarrow>
                do {
                  let prev = current (k_ps k);
                  (rc, k) \<leftarrow> (case proc of
                                None \<Rightarrow> Some (-1, k)
                              | Some c \<Rightarrow>
                                  elf_exec_argv_inner enter dev (nest + 1) path args c
                                    (k\<lparr>k_ps := process_set_current (Some c)
                                                (upd_proc c (\<lambda>p. p\<lparr>pstate := PROC_RUNNING\<rparr>) (k_ps k))\<rparr>));
                  let k = (case backup of None \<Rightarrow> k | Some bs \<Rightarrow> ustore PADRE_SAVE_BASE bs k);
                  let k = (case prev of None \<Rightarrow> k | Some p \<Rightarrow> k\<lparr>k_ps := process_set_current (Some p) (k_ps k)\<rparr>);
                  Some (rc, case current (k_ps k) of
                              None \<Rightarrow> k
                            | Some c \<Rightarrow> let st = kstack (processes (k_ps k) ! c)
                                        in if st \<noteq> 0 then k\<lparr>k_ps := emit (Set_tss (st + 8192)) (k_ps k)\<rparr> else k)
                }
          })"

definition elf_exec ::
  "(u32 \<Rightarrow> u32 \<Rightarrow> ksys \<Rightarrow> ksys option) \<Rightarrow> devices \<Rightarrow> u32 \<Rightarrow> nat \<Rightarrow> string \<Rightarrow> ksys \<Rightarrow> (int \<times> ksys) option" where
  "elf_exec enter dev stack nest path k = elf_exec_argv enter dev stack nest path 0 0 k"

section \<open>The system call\<close>

text \<open>The path is copied into a kernel buffer of 128 bytes.\<close>

definition sys_execve :: "devices \<Rightarrow> nat \<Rightarrow> u32 \<Rightarrow> u32 \<Rightarrow> ksys \<Rightarrow> ((int \<times> (u32 \<times> u32) option) \<times> ksys) option" where
  "sys_execve dev nest a1 a2 k =
     do {
       path \<leftarrow> ustr a1 k;
       argc \<leftarrow> (if a2 \<noteq> 0 then count_args a2 (k_mem k) else Some 0);
       elf_execve dev nest (take 127 path) argc a2 k
     }"

definition sys_spawn :: "(u32 \<Rightarrow> u32 \<Rightarrow> ksys \<Rightarrow> ksys option) \<Rightarrow> devices \<Rightarrow> u32 \<Rightarrow> nat \<Rightarrow> u32 \<Rightarrow> u32 \<Rightarrow> ksys \<Rightarrow> (u32 \<times> ksys) option" where
  "sys_spawn enter dev stack nest a1 a2 k =
     do {
       path \<leftarrow> ustr a1 k;
       argc \<leftarrow> (if a2 \<noteq> 0 then count_args a2 (k_mem k) else Some 0);
       (rc, k) \<leftarrow> elf_exec_argv enter dev stack nest (take 127 path) argc a2 k;
       Some (word_of_int rc, k)
     }"

end
