(* ===== verification/Elf_Stack.thy ===== *)
theory Elf_Stack
  imports Elf
begin

text \<open>
  The stack a program starts with: the strings, the pointers to them and the frame below, laid out in the
  region reserved for the stack and nowhere else.
\<close>

section \<open>Words in memory\<close>

lemma load32_store32: "unat a + 4 \<le> 0x100000000 \<Longrightarrow> load32 a (store32 a v m) = v"
  by (simp add: load32_rd32 store32_wr32)

lemma store32_outside: "unat a + 4 \<le> 0x100000000 \<Longrightarrow> x < unat a \<or> unat a + 4 \<le> x \<Longrightarrow> store32 a v m x = m x"
  by (simp add: store32_wr32)

lemma load32_cong:
  "unat a + 4 \<le> 0x100000000 \<Longrightarrow> (\<And>x. unat a \<le> x \<Longrightarrow> x < unat a + 4 \<Longrightarrow> m' x = m x) \<Longrightarrow> load32 a m' = load32 a m"
  using rd32_cong [of "unat a" m' m] by (simp add: load32_rd32)

lemma store_words_outside:
  "unat a + 4 * length ws \<le> 0x100000000 \<Longrightarrow> x < unat a \<or> unat a + 4 * length ws \<le> x \<Longrightarrow> store_words a ws m x = m x"
proof (induction ws arbitrary: a m)
  case (Cons w ws)
  show ?case
  proof (cases "ws = []")
    case True
    then show ?thesis using Cons.prems by (simp add: store32_outside)
  next
    case False
    then have "4 \<le> 4 * length ws" by (cases ws) simp_all
    then have "unat a + 4 < 0x100000000" using Cons.prems(1) by simp
    then have n: "unat (a + 4) = unat a + 4" by (simp add: unat_plus_u32)
    have "store32 a w m x = m x" using Cons.prems by (intro store32_outside) auto
    then show ?thesis using Cons.prems Cons.IH [of "a + 4" "store32 a w m"] n by auto
  qed
qed simp

lemma store_words_load:
  "unat a + 4 * length ws \<le> 0x100000000 \<Longrightarrow> i < length ws \<Longrightarrow> load32 (a + 4 * of_nat i) (store_words a ws m) = ws ! i"
proof (induction ws arbitrary: a m i)
  case (Cons w ws)
  show ?case
  proof (cases i)
    case 0
    have "load32 a (store_words (a + 4) ws (store32 a w m)) = load32 a (store32 a w m)"
    proof (cases "ws = []")
      case False
      then have "4 \<le> 4 * length ws" by (cases ws) simp_all
      then have "unat a + 4 < 0x100000000" using Cons.prems(1) by simp
      then have n: "unat (a + 4) = unat a + 4" by (simp add: unat_plus_u32)
      show ?thesis
        by (rule load32_cong) (use Cons.prems(1) n store_words_outside [of "a + 4" ws] in auto)
    qed simp
    then show ?thesis using 0 Cons.prems(1) by (simp add: load32_store32)
  next
    case (Suc j)
    then have "4 \<le> 4 * length ws" using Cons.prems(2) by (cases ws) simp_all
    then have "unat a + 4 < 0x100000000" using Cons.prems(1) by simp
    then have n: "unat (a + 4) = unat a + 4" by (simp add: unat_plus_u32)
    have e: "a + 4 * of_nat i = a + 4 + 4 * of_nat j" by (simp add: Suc algebra_simps)
    have "load32 (a + 4 + 4 * of_nat j) (store_words (a + 4) ws (store32 a w m)) = ws ! j"
      using Cons.prems n Suc by (intro Cons.IH) auto
    then show ?thesis unfolding e by (simp add: Suc)
  qed
qed simp

section \<open>The strings\<close>

definition args_size :: "string list \<Rightarrow> nat" where
  "args_size ss = sum_list (map (\<lambda>s. length s + 1) ss)"

lemma args_size_simps [simp]: "args_size [] = 0" "args_size (ss @ [s]) = args_size ss + length s + 1"
  by (simp_all add: args_size_def)

lemma push_args_copied:
  assumes "i \<le> length ss" "args_size (take i ss) \<le> unat sp"
  shows "\<exists>sp' new m'. push_args i (Copied ss) sp ptrs m = Some (sp', new @ ptrs, m') \<and> length new = i
           \<and> unat sp' = unat sp - args_size (take i ss)
           \<and> (\<forall>j < i. unat sp' \<le> unat (new ! j) \<and> unat (new ! j) + length (ss ! j) < unat sp \<and> cstr_at (new ! j) (ss ! j) m')
           \<and> (\<forall>x. x < unat sp' \<or> unat sp \<le> x \<longrightarrow> m' x = m x)"
  using assms
proof (induction i arbitrary: sp ptrs m)
  case 0
  then show ?case by simp
next
  case (Suc i)
  define s where "s = ss ! i"
  define sp1 where "sp1 = sp - of_nat (length s + 1)"
  have t: "args_size (take (Suc i) ss) = args_size (take i ss) + length s + 1"
    using Suc.prems(1) by (simp add: take_Suc_conv_app_nth s_def)
  then have le: "length s + 1 \<le> unat sp" using Suc.prems(2) by simp
  have "unat (of_nat (length s + 1) :: u32) = length s + 1" using le unat_u32_bound [of sp]
    by (intro unat_of_nat_u32) simp
  then have u: "unat sp1 = unat sp - (length s + 1)" unfolding sp1_def using le by (subst unat_minus_u32) (simp_all add: word_le_nat_alt)
  let ?m = "store_bytes sp1 (string_bytes s @ [0]) m"
  have lb: "length (string_bytes s) = length s" by (simp add: string_bytes_def)
  have fits: "unat sp1 + length (string_bytes s @ [0]) \<le> 0x100000000" using u le lb unat_u32_bound [of sp] by simp
  have here: "cstr_at sp1 s ?m" using fits lb by (intro cstr_at_stored) simp
  have out: "?m x = m x" if "x < unat sp1 \<or> unat sp \<le> x" for x
    using that u le fits lb by (auto simp: store_bytes_apply)
  have i: "i \<le> length ss" using Suc.prems(1) by simp
  have le1: "args_size (take i ss) \<le> unat sp1" using Suc.prems(2) t u by simp
  obtain sp' new m' where ih: "push_args i (Copied ss) sp1 (sp1 # ptrs) ?m = Some (sp', new @ sp1 # ptrs, m')" "length new = i"
    "unat sp' = unat sp1 - args_size (take i ss)"
    "\<forall>j < i. unat sp' \<le> unat (new ! j) \<and> unat (new ! j) + length (ss ! j) < unat sp1 \<and> cstr_at (new ! j) (ss ! j) m'"
    "\<forall>x. x < unat sp' \<or> unat sp1 \<le> x \<longrightarrow> m' x = ?m x"
    using Suc.IH [OF i le1, of "sp1 # ptrs" ?m] by blast
  have "cstr_at sp1 s m'" by (rule cstr_at_cong [OF _ here]) (use ih(5) in simp)
  then have "\<forall>j < Suc i. unat sp' \<le> unat ((new @ [sp1]) ! j) \<and> unat ((new @ [sp1]) ! j) + length (ss ! j) < unat sp
      \<and> cstr_at ((new @ [sp1]) ! j) (ss ! j) m'"
    using ih(2,3,4) u le by (auto simp: less_Suc_eq nth_append s_def)
  moreover have "\<forall>x. x < unat sp' \<or> unat sp \<le> x \<longrightarrow> m' x = m x"
  proof (intro allI impI)
    fix x assume x: "x < unat sp' \<or> unat sp \<le> x"
    then have a: "x < unat sp' \<or> unat sp1 \<le> x" and b: "x < unat sp1 \<or> unat sp \<le> x" using ih(3) u by linarith+
    show "m' x = m x" using ih(5) [rule_format, OF a] out [OF b] by (rule trans)
  qed
  moreover have "push_args (Suc i) (Copied ss) sp ptrs m = Some (sp', (new @ [sp1]) @ ptrs, m')"
    using ih(1) by (simp add: argument_def Let_def s_def sp1_def)
  ultimately show ?case using ih(2,3) u t
    by (intro exI [of _ sp'] exI [of _ "new @ [sp1]"] exI [of _ m']) simp
qed

section \<open>The frame\<close>

lemma unat_and_not3: "unat (w AND NOT 3 :: u32) = unat w div 4 * 4"
proof -
  have "(3 :: u32) = mask 2" by (simp add: mask_eq_exp_minus_1)
  then have *: "w AND NOT 3 = w AND NOT (mask 2)" by (rule arg_cong)
  have "(w AND NOT 3) + take_bit 2 w = (w AND NOT 3) OR take_bit 2 w"
    unfolding * by (rule disjunctive_add_eq_or) (rule bit_word_eqI, auto simp: bit_simps)
  also have "\<dots> = w" unfolding * by (rule bit_word_eqI) (auto simp: bit_simps)
  finally have "w AND NOT 3 = w - take_bit 2 w" by (simp add: eq_diff_eq)
  moreover have "take_bit 2 w \<le> w" by (simp only: word_le_nat_alt unsigned_take_bit_eq take_bit_nat_less_eq_self)
  ultimately have "unat (w AND NOT 3) = unat w - take_bit 2 (unat w)"
    using unat_minus_u32 [of "take_bit 2 w" w] by (simp only: unsigned_take_bit_eq)
  then show ?thesis by (simp add: take_bit_eq_mod minus_mod_eq_div_mult)
qed

lemma count_args_pointers:
  assumes "unat a + 4 * (n + 1) \<le> 0x100000000" "\<forall>j < n. load32 (a + 4 * of_nat j) m \<noteq> 0" "load32 (a + 4 * of_nat n) m = 0"
  shows "count_args a m = Some n"
  using assms
proof (induction n arbitrary: a)
  case 0
  then show ?case by (subst count_args.simps) simp
next
  case (Suc n)
  have step: "a + 4 + 4 * of_nat j = a + 4 * of_nat (Suc j)" for j by (simp add: algebra_simps)
  have u: "unat (a + 4) = unat a + 4" using Suc.prems(1) by (simp add: unat_plus_u32)
  have "count_args (a + 4) m = Some n"
    by (rule Suc.IH) (use Suc.prems u in \<open>simp_all only: step, auto\<close>)
  moreover have "load32 a m \<noteq> 0" using Suc.prems(2) by (auto dest: spec [of _ 0])
  ultimately show ?case by (subst count_args.simps) simp
qed

lemma read_args_pointers:
  assumes "unat a + 4 * length ss \<le> 0x100000000" "\<forall>j < length ss. str_at (load32 (a + 4 * of_nat j) m) m = Some (ss ! j)"
  shows "read_args (length ss) a m = Some ss"
  using assms
proof (induction ss arbitrary: a)
  case (Cons s ss)
  have step: "a + 4 + 4 * of_nat j = a + 4 * of_nat (Suc j)" for j by (simp add: algebra_simps)
  have "read_args (length ss) (a + 4) m = Some ss"
  proof (cases "ss = []")
    case False
    then have u: "unat (a + 4) = unat a + 4" using Cons.prems(1) by (cases ss) (simp_all add: unat_plus_u32)
    show ?thesis by (rule Cons.IH) (use Cons.prems u in \<open>simp_all only: step, auto\<close>)
  qed simp
  moreover have "str_at (load32 a m) m = Some s" using Cons.prems(2) by (auto dest: spec [of _ 0])
  ultimately show ?case by simp
qed simp

text \<open>The words written last: the null-terminated vector of pointers at \<open>arr\<close> and the frame below it.\<close>

lemma build_frame:
  assumes n: "length ptrs = n" "n \<le> 32" and sp: "200 \<le> unat sp"
    and m': "sa = sp AND NOT 3" "arr = sa - 4 * (of_nat n + 1)"
      "m' = store_words (arr - 12) [0, of_nat n, arr] (store_words arr (ptrs @ [0]) m)"
  shows "unat (arr - 12) mod 4 = 0 \<and> unat sp - 160 \<le> unat (arr - 12) \<and> unat (arr - 12) < unat sp
    \<and> unat arr + 4 * (n + 1) \<le> unat sp \<and> load32 (arr - 12 + 4) m' = of_nat n \<and> load32 (arr - 12 + 8) m' = arr
    \<and> (\<forall>j \<le> n. load32 (arr + 4 * of_nat j) m' = (ptrs @ [0]) ! j)
    \<and> (\<forall>x. x < unat (arr - 12) \<or> unat sp \<le> x \<longrightarrow> m' x = m x)"
proof -
  let ?m = "store_words arr (ptrs @ [0]) m"
  have sa: "unat sa = unat sp div 4 * 4" unfolding m' by (rule unat_and_not3)
  then have sa2: "unat sp < unat sa + 4" "unat sa \<le> unat sp" by linarith+
  have "4 * (of_nat n + 1) = (of_nat (4 * (n + 1)) :: u32)" by simp
  then have k: "unat (4 * (of_nat n + 1) :: u32) = 4 * (n + 1)" using n(2) by (simp only:) (rule unat_of_nat_u32, simp)
  have arr: "unat arr = unat sa - 4 * (n + 1)"
    unfolding m'(2) k [symmetric] using n(2) sp sa2 k by (intro unat_minus_u32) (simp add: word_le_nat_alt)
  have esp: "unat (arr - 12) = unat arr - 12" using arr n(2) sp sa2 by (subst unat_minus_u32) (simp_all add: word_le_nat_alt)
  have top: "unat sp < 0x100000000" using unat_u32_bound [of sp] by simp
  have inner: "unat arr + 4 * length (ptrs @ [0]) \<le> 0x100000000" "unat (arr - 12) + 4 * length [0, of_nat n, arr] \<le> 0x100000000"
    using arr esp sa2 n sp top by simp_all
  have frame: "load32 (arr - 12 + 4 * of_nat i) m' = [0, of_nat n, arr] ! i" if "i < 3" for i
    unfolding m'(3) by (rule store_words_load [OF inner(2)]) (use that in simp)
  have vec: "load32 (arr + 4 * of_nat j) m' = (ptrs @ [0]) ! j" if j: "j \<le> n" for j
  proof -
    have "4 * of_nat j = (of_nat (4 * j) :: u32)" by simp
    then have "unat (4 * of_nat j :: u32) = 4 * j" using n(2) j by (simp only:) (rule unat_of_nat_u32, simp)
    then have a: "unat (arr + 4 * of_nat j) = unat arr + 4 * j"
      using arr sa2 n sp top j by (subst unat_plus_u32) simp_all
    have "load32 (arr + 4 * of_nat j) m' = load32 (arr + 4 * of_nat j) ?m"
    proof (rule load32_cong)
      show "unat (arr + 4 * of_nat j) + 4 \<le> 0x100000000" using a arr sa2 n sp top j by simp
      show "m' x = ?m x" if "unat (arr + 4 * of_nat j) \<le> x" for x
        unfolding m'(3) by (rule store_words_outside [OF inner(2)]) (use that a arr esp sa2 n sp in auto)
    qed
    also have "\<dots> = (ptrs @ [0]) ! j" by (rule store_words_load [OF inner(1)]) (use n j in simp)
    finally show ?thesis .
  qed
  have "m' x = m x" if "x < unat (arr - 12) \<or> unat sp \<le> x" for x
  proof -
    have "m' x = ?m x" unfolding m'(3) by (rule store_words_outside [OF inner(2)]) (use that arr esp sa2 n sp in auto)
    also have "\<dots> = m x" by (rule store_words_outside [OF inner(1)]) (use that arr esp sa2 n sp in auto)
    finally show ?thesis .
  qed
  moreover have "unat (arr - 12) = (unat sp div 4 - (n + 4)) * 4" using sa arr esp by (simp add: diff_mult_distrib)
  then have "unat (arr - 12) mod 4 = 0" by simp
  moreover have "unat sp - 160 \<le> unat (arr - 12)" "unat (arr - 12) < unat sp" "unat arr + 4 * (n + 1) \<le> unat sp"
    using arr esp n(2) sp sa2 by simp_all
  moreover have "load32 (arr - 12 + 4) m' = of_nat n" "load32 (arr - 12 + 8) m' = arr"
    using frame [of 1] frame [of 2] by simp_all
  ultimately show ?thesis using vec by (intro conjI allI impI)
qed

text \<open>
  What the program finds: its kernel reads the vector back as the first 32 arguments, and nothing outside the
  region of the stack has changed.
\<close>

definition args_on_stack :: "u32 \<Rightarrow> string list \<Rightarrow> mem \<Rightarrow> bool" where
  "args_on_stack esp ss m \<longleftrightarrow>
     unat esp mod 4 = 0 \<and> load32 (esp + 4) m = of_nat (length ss)
     \<and> count_args (load32 (esp + 8) m) m = Some (length ss)
     \<and> read_args (length ss) (load32 (esp + 8) m) m = Some ss"

lemma build_stack_args:
  assumes tp: "0x10000 \<le> unat tp" and fits: "args_size (take 32 ss) \<le> 0xFF00" and nul: "\<forall>s \<in> set ss. CHR 0x00 \<notin> set s"
  shows "\<exists>esp m'. build_stack tp (Some (Copied ss)) m = Some (esp, m') \<and> args_on_stack esp (take 32 ss) m'
           \<and> unat tp - 0x10000 \<le> unat esp \<and> unat esp < unat tp
           \<and> (\<forall>x. x < unat tp - 0x10000 \<or> unat tp \<le> x \<longrightarrow> m' x = m x)"
proof -
  define n where "n = min (length ss) 32"
  define m1 where "m1 = store_words (tp - 16 - 12) [0, 0, 0] (store_bytes (tp - USER_STACK_SIZE) (replicate (unat USER_STACK_SIZE) 0) m)"
  have n: "n \<le> length ss" "n \<le> 32" "take n ss = take 32 ss" by (simp_all add: n_def min_def)
  have top: "unat tp < 0x100000000" using unat_u32_bound [of tp] by simp
  have b: "unat (tp - 0x10000) = unat tp - 0x10000" "unat (tp - 16) = unat tp - 16"
    using tp by (simp_all add: unat_minus_u32 word_le_nat_alt)
  have b2: "unat (tp - 16 - 12) = unat tp - 28" using tp b by (subst unat_minus_u32) (simp_all add: word_le_nat_alt)
  have m1: "m1 x = m x" if "x < unat tp - 0x10000 \<or> unat tp \<le> x" for x
  proof -
    have "m1 x = store_bytes (tp - USER_STACK_SIZE) (replicate (unat USER_STACK_SIZE) 0) m x"
      unfolding m1_def by (rule store_words_outside) (use that b2 tp top in auto)
    also have "\<dots> = m x" using that b tp top by (auto simp: store_bytes_apply)
    finally show ?thesis .
  qed
  obtain sp ptrs m2 where push: "push_args n (Copied ss) (tp - 16) [] m1 = Some (sp, ptrs, m2)" "length ptrs = n"
    "unat sp = unat (tp - 16) - args_size (take n ss)"
    "\<forall>j < n. unat sp \<le> unat (ptrs ! j) \<and> unat (ptrs ! j) + length (ss ! j) < unat (tp - 16) \<and> cstr_at (ptrs ! j) (ss ! j) m2"
    "\<forall>x. x < unat sp \<or> unat (tp - 16) \<le> x \<longrightarrow> m2 x = m1 x"
  proof -
    have "args_size (take n ss) \<le> unat (tp - 16)" using fits b tp n(3) by simp
    from push_args_copied [OF n(1) this, of "[]" m1] that show ?thesis by auto
  qed
  define arr where "arr = (sp AND NOT 3) - 4 * (of_nat n + 1)"
  define m3 where "m3 = store_words (arr - 12) [0, of_nat n, arr] (store_words arr (ptrs @ [0]) m2)"
  have sp: "200 \<le> unat sp" "unat tp - 0xFF10 \<le> unat sp" "unat sp \<le> unat tp - 16" using push(3) b fits tp n(3) by simp_all
  have frame: "unat (arr - 12) mod 4 = 0" "unat sp - 160 \<le> unat (arr - 12)" "unat (arr - 12) < unat sp"
    "unat arr + 4 * (n + 1) \<le> unat sp" "load32 (arr - 12 + 4) m3 = of_nat n" "load32 (arr - 12 + 8) m3 = arr"
    "\<And>j. j \<le> n \<Longrightarrow> load32 (arr + 4 * of_nat j) m3 = (ptrs @ [0]) ! j"
    "\<And>x. x < unat (arr - 12) \<or> unat sp \<le> x \<Longrightarrow> m3 x = m2 x"
    using build_frame [OF push(2) n(2) sp(1) refl arr_def m3_def] by blast+
  have string: "str_at (ptrs ! j) m3 = Some (ss ! j)" if j: "j < n" for j
  proof (rule str_at_cstr)
    have c: "cstr_at (ptrs ! j) (ss ! j) m2" "unat sp \<le> unat (ptrs ! j)" "unat (ptrs ! j) + length (ss ! j) < unat (tp - 16)"
      using push(4) j by simp_all
    show "cstr_at (ptrs ! j) (ss ! j) m3" by (rule cstr_at_cong [OF _ c(1)]) (use frame(8) c(2) in simp)
    show "unat (ptrs ! j) + length (ss ! j) < 0x100000000" using c(3) b top by simp
    show "CHR 0x00 \<notin> set (ss ! j)" using nul j n(1) by simp
  qed
  have nz: "ptrs ! j \<noteq> 0" if "j < n" for j using push(4) that sp(1) by fastforce
  have lim: "unat arr + 4 * (n + 1) \<le> 0x100000000" using frame(4) sp(3) top by simp
  have "count_args arr m3 = Some n"
    using lim by (rule count_args_pointers) (simp_all add: frame(7) push(2) nth_append nz)
  moreover have "read_args (length (take n ss)) arr m3 = Some (take n ss)"
    using lim n(1) by (intro read_args_pointers) (simp_all add: frame(7) push(2) nth_append string)
  moreover have len: "length (take 32 ss) = n" by (simp add: n_def)
  ultimately have "args_on_stack (arr - 12) (take 32 ss) m3"
    using frame(1,5,6) unfolding args_on_stack_def frame(6) len n(3) by simp
  moreover have "build_stack tp (Some (Copied ss)) m = Some (arr - 12, m3)"
    by (simp only: build_stack_def Let_def option.case arg_count_def arguments.case n_def [symmetric] m1_def [symmetric]
        push(1) Option.bind.bind_lunit prod.case arr_def m3_def)
  moreover have "m3 x = m x" if "x < unat tp - 0x10000 \<or> unat tp \<le> x" for x
  proof -
    have "m3 x = m2 x" by (rule frame(8)) (use that frame(2) sp in auto)
    also have "\<dots> = m1 x" using push(5) that sp b by auto
    finally show ?thesis using m1 [OF that] by simp
  qed
  moreover have "unat tp - 0x10000 \<le> unat (arr - 12)" "unat (arr - 12) < unat tp" using frame(2,3) sp by simp_all
  ultimately show ?thesis by (intro exI [of _ "arr - 12"] exI [of _ m3] conjI allI impI)
qed

end
