(* ===== verification/Elf_Props.thy ===== *)
theory Elf_Props
  imports Elf_Stack Syscall_Access
begin

text \<open>
  What \<^verbatim>\<open>execve\<close> promises: a failed call leaves the caller as it was, and a well-formed executable is loaded
  byte for byte, with its arguments on the new stack and nothing else changed.
\<close>

section \<open>A segment in memory\<close>

definition seg_mem :: "u8 list \<Rightarrow> elf32_phdr_t \<Rightarrow> mem \<Rightarrow> mem" where
  "seg_mem buf p m = clear_tail p (copy_segment buf p m)"

definition seg_range :: "elf32_phdr_t \<Rightarrow> nat set" where
  "seg_range p = {unat (p_vaddr p)..<unat (p_vaddr p) + unat (p_memsz p)}"

text \<open>The bytes of the file, then zeros.\<close>

definition seg_byte :: "u8 list \<Rightarrow> elf32_phdr_t \<Rightarrow> nat \<Rightarrow> u8" where
  "seg_byte buf p x =
     (let j = x - unat (p_vaddr p) in if j < unat (p_filesz p) then buf ! (unat (p_offset p) + j) else 0)"

definition seg_ok :: "u8 list \<Rightarrow> u32 \<Rightarrow> elf32_phdr_t \<Rightarrow> bool" where
  "seg_ok buf got p \<longleftrightarrow>
     unat (p_vaddr p) + unat (p_memsz p) \<le> 0x40000000 \<and> unat (p_offset p) + unat (p_filesz p) \<le> unat got
     \<and> unat got \<le> length buf \<and> p_filesz p \<le> p_memsz p"

lemma seg_mem_apply:
  assumes "seg_ok buf got p"
  shows "seg_mem buf p m x = (if x \<in> seg_range p then seg_byte buf p x else m x)"
proof -
  let ?v = "unat (p_vaddr p)" and ?f = "unat (p_filesz p)" and ?n = "unat (p_memsz p)"
  have b: "?v + ?n \<le> 0x40000000" "unat (p_offset p) + ?f \<le> length buf" "?f \<le> ?n"
    using assms by (auto simp: seg_ok_def word_le_nat_alt)
  have vf: "unat (p_vaddr p + p_filesz p) = ?v + ?f" using b by (simp add: unat_plus_u32)
  have rest: "unat (p_memsz p - p_filesz p) = ?n - ?f" using b(3) by (simp add: unat_minus_u32 word_le_nat_alt)
  have copy: "copy_segment buf p m x = (if ?v \<le> x \<and> x < ?v + ?f then buf ! (unat (p_offset p) + (x - ?v)) else m x)"
    using b by (auto simp: copy_segment_def store_bytes_apply nth_slice)
  show ?thesis
  proof (cases "p_filesz p < p_memsz p")
    case True
    then have "seg_mem buf p m x = (if ?v + ?f \<le> x \<and> x < ?v + ?n then 0 else copy_segment buf p m x)"
      using b vf rest by (auto simp: seg_mem_def clear_tail_def store_bytes_apply word_less_nat_alt)
    then show ?thesis using b copy by (auto simp: seg_range_def seg_byte_def Let_def)
  next
    case False
    then have "?f = ?n" using b(3) by (simp add: word_less_nat_alt)
    then show ?thesis using False b copy by (auto simp: seg_mem_def clear_tail_def seg_range_def seg_byte_def Let_def)
  qed
qed

definition disjoint_segments :: "elf32_phdr_t list \<Rightarrow> bool" where
  "disjoint_segments ps \<longleftrightarrow> sorted_wrt (\<lambda>p q. seg_range p \<inter> seg_range q = {}) ps"

lemma fold_seg_mem_outside:
  "\<forall>p \<in> set ps. seg_ok buf got p \<Longrightarrow> \<forall>p \<in> set ps. x \<notin> seg_range p \<Longrightarrow> fold (seg_mem buf) ps m x = m x"
  by (induction ps arbitrary: m) (simp_all add: seg_mem_apply [of buf got])

lemma fold_seg_mem:
  assumes "\<forall>p \<in> set ps. seg_ok buf got p" "disjoint_segments ps" "p \<in> set ps" "x \<in> seg_range p"
  shows "fold (seg_mem buf) ps m x = seg_byte buf p x"
  using assms
proof (induction ps arbitrary: m)
  case (Cons q ps)
  show ?case
  proof (cases "p \<in> set ps")
    case True
    then show ?thesis using Cons by (simp add: disjoint_segments_def)
  next
    case False
    then have q: "q = p" using Cons.prems(3) by simp
    then have "\<forall>r \<in> set ps. x \<notin> seg_range r" using Cons.prems(2,4) by (auto simp: disjoint_segments_def)
    then have "fold (seg_mem buf) ps (seg_mem buf q m) x = seg_mem buf q m x"
      using Cons.prems(1) by (intro fold_seg_mem_outside [where got = got]) simp_all
    then show ?thesis using q Cons.prems(1,4) by (simp add: seg_mem_apply [of buf got])
  qed
qed simp

section \<open>The two passes\<close>

lemma brk_loop_returns:
  assumes "unat b \<le> 0x40000000"
  shows "\<exists>v'. brk_loop pd pg b v = Some v'"
proof (induction "unat b - unat pg" arbitrary: pg v rule: less_induct)
  case less
  show ?case
  proof (cases "pg < b")
    case True
    then have u: "unat (pg + 0x1000) = unat pg + 0x1000" using assms by (simp add: unat_plus_u32 word_less_nat_alt)
    have "unat b - unat (pg + 0x1000) < unat b - unat pg" using True u by (simp add: word_less_nat_alt)
    from less [OF this] show ?thesis using True by (subst brk_loop.simps) simp
  qed (subst brk_loop.simps, simp)
qed

lemma map_pages_returns:
  assumes "unat b \<le> 0x40000000"
  shows "\<exists>v. map_pages pd a b k = Some (k\<lparr>k_vmm := v\<rparr>)"
  using brk_loop_returns [OF assms, of pd "a AND NOT 0xFFF" "k_vmm k"]
  by (cases "pd = 0") (auto simp: map_pages_def intro: exI [of _ "k_vmm k"])

definition seg_end :: "elf32_phdr_t \<Rightarrow> u32" where
  "seg_end p = p_vaddr p + p_memsz p"

definition loads :: "u8 list \<Rightarrow> elf32_ehdr_t \<Rightarrow> nat list \<Rightarrow> elf32_phdr_t list" where
  "loads buf e is = filter (\<lambda>p. p_type p = PT_LOAD) (map (\<lambda>i. the (read_phdr buf e i)) is)"

lemma check_segments_ok:
  assumes "\<forall>i \<in> set is. read_phdr buf e i \<noteq> None" "\<forall>p \<in> set (loads buf e is). seg_ok buf got p"
  shows "check_segments is buf e got = Some 0"
  using assms by (induction "is") (auto simp: loads_def seg_ok_def split: if_splits)

lemma commit_segments_ok:
  assumes "\<forall>i \<in> set is. read_phdr buf e i \<noteq> None" "\<forall>p \<in> set (loads buf e is). seg_ok buf got p"
  shows "\<exists>v. commit_segments is buf e pd mx k
    = Some (foldl max mx (map seg_end (loads buf e is)), k\<lparr>k_vmm := v, k_mem := fold (seg_mem buf) (loads buf e is) (k_mem k)\<rparr>)"
  using assms
proof (induction "is" arbitrary: mx k)
  case Nil
  show ?case by (intro exI [of _ "k_vmm k"]) (simp add: loads_def)
next
  case (Cons i "is")
  obtain p where p: "read_phdr buf e i = Some p" using Cons.prems(1) by auto
  show ?case
  proof (cases "p_type p = PT_LOAD")
    case True
    then have l: "loads buf e (i # is) = p # loads buf e is" by (simp add: loads_def p)
    then have "unat (p_vaddr p + p_memsz p) \<le> 0x40000000"
      using Cons.prems(2) by (simp add: seg_ok_def unat_plus_u32)
    from map_pages_returns [OF this] obtain v where
      v: "map_pages pd (p_vaddr p) (p_vaddr p + p_memsz p) k = Some (k\<lparr>k_vmm := v\<rparr>)" by blast
    have m: "(if p_vaddr p + p_memsz p > mx then p_vaddr p + p_memsz p else mx) = max mx (seg_end p)"
      by (auto simp: seg_end_def max_def)
    show ?thesis
      using Cons.IH [of "max mx (seg_end p)" "k\<lparr>k_vmm := v, k_mem := seg_mem buf p (k_mem k)\<rparr>"] Cons.prems True
      by (simp add: p v l m seg_mem_def [symmetric] Let_def)
  next
    case False
    then show ?thesis using Cons by (simp add: loads_def p)
  qed
qed

lemma foldl_max_u32: "mx \<le> foldl max mx es \<and> (\<forall>x \<in> set es. x \<le> foldl max mx es)" for mx :: u32
  by (induction es arbitrary: mx) (simp, fastforce)

lemma foldl_max_bound: "mx \<le> b \<Longrightarrow> \<forall>x \<in> set es. x \<le> b \<Longrightarrow> foldl max mx es \<le> b" for mx :: u32
  by (induction es arbitrary: mx) simp_all

section \<open>Loading a well-formed executable\<close>

text \<open>
  What a linker produces: a valid header, headers of segments inside the file, and segments that fit the file and
  the first GiB, overlap neither each other nor the stack, and are at least as long in memory as in the file.
\<close>

definition stack_range :: "nat \<Rightarrow> nat set" where
  "stack_range nest = {unat (stack_top nest) - 0x10000..<unat (stack_top nest)}"

definition executable :: "nat \<Rightarrow> u32 \<Rightarrow> u8 list \<Rightarrow> bool" where
  "executable nest got buf \<longleftrightarrow>
     (let e = parse_ehdr buf; is = [0..<unat (e_phnum e)]
      in 52 \<le> got \<and> elf_validate e \<and> e_entry e \<noteq> 0 \<and> (\<forall>i \<in> set is. read_phdr buf e i \<noteq> None)
         \<and> (\<forall>p \<in> set (loads buf e is). seg_ok buf got p \<and> seg_range p \<inter> stack_range nest = {})
         \<and> disjoint_segments (loads buf e is))"

abbreviation segments :: "u8 list \<Rightarrow> elf32_phdr_t list" where
  "segments buf \<equiv> loads buf (parse_ehdr buf) [0..<unat (e_phnum (parse_ehdr buf))]"

definition image_loaded :: "nat \<Rightarrow> u8 list \<Rightarrow> mem \<Rightarrow> mem \<Rightarrow> bool" where
  "image_loaded nest buf m m' \<longleftrightarrow>
     (\<forall>p \<in> set (segments buf). \<forall>x \<in> seg_range p. m' x = seg_byte buf p x)
     \<and> (\<forall>x. x \<notin> stack_range nest \<and> (\<forall>p \<in> set (segments buf). x \<notin> seg_range p) \<longrightarrow> m' x = m x)"

lemma stack_top_bound: "0xE800000 \<le> unat (stack_top nest)" "unat (stack_top nest) \<le> 0xF000000"
  by (simp_all add: stack_top_def)

lemma image_then_stack:
  assumes "executable nest got buf" "m1 = fold (seg_mem buf) (segments buf) m"
    and "\<forall>x. x \<notin> stack_range nest \<longrightarrow> m2 x = m1 x"
  shows "image_loaded nest buf m m2"
proof -
  have ok: "\<forall>p \<in> set (segments buf). seg_ok buf got p" "disjoint_segments (segments buf)"
    and s: "\<forall>p \<in> set (segments buf). seg_range p \<inter> stack_range nest = {}"
    using assms(1) by (auto simp: executable_def Let_def)
  have "m2 x = seg_byte buf p x" if "p \<in> set (segments buf)" "x \<in> seg_range p" for p x
  proof -
    have "x \<notin> stack_range nest" using s that by auto
    then show ?thesis using assms(2,3) fold_seg_mem [OF ok that, of m] by simp
  qed
  moreover have "m2 x = m x" if "x \<notin> stack_range nest" "\<forall>p \<in> set (segments buf). x \<notin> seg_range p" for x
    using assms(2,3) that(1) fold_seg_mem_outside [OF ok(1) that(2), of m] by simp
  ultimately show ?thesis by (simp add: image_loaded_def)
qed

lemma str_at_nul:
  assumes "str_at a m = Some s"
  shows "CHR 0x00 \<notin> set s"
proof (rule str_at.raw_induct [where P = "\<lambda>a m s. CHR 0x00 \<notin> set s", OF _ assms], goal_cases)
  case (1 loop a m s)
  have nz: "byte_char b = CHR 0x00 \<Longrightarrow> b = 0" for b
    using byte_char_inverse [of b] by (simp add: of_char_def)
  show ?case
  proof (cases "m (unat a) = 0")
    case True
    then show ?thesis using 1(2) by simp
  next
    case False
    then obtain r where "loop (a + 1) m = Some r" "s = byte_char (m (unat a)) # r"
      using 1(2) by (auto simp: bind_eq_Some_conv)
    moreover then have "CHR 0x00 \<notin> set r" using 1(1) by blast
    ultimately show ?thesis using nz [of "m (unat a)"] False by auto
  qed
qed

lemma read_args_nul: "read_args n a m = Some ss \<Longrightarrow> length ss = n \<and> (\<forall>s \<in> set ss. CHR 0x00 \<notin> set s)"
  by (induction n arbitrary: a ss) (auto simp: bind_eq_Some_conv dest: str_at_nul)

definition start_frame :: "u32 \<Rightarrow> string list \<Rightarrow> mem \<Rightarrow> bool" where
  "start_frame esp ss m \<longleftrightarrow> load32 (esp + 4) m = of_nat (length ss) \<and> (ss \<noteq> [] \<longrightarrow> args_on_stack esp ss m)"

lemma build_stack_none:
  assumes "0x10000 \<le> unat tp"
  shows "\<exists>esp m'. build_stack tp None m = Some (esp, m') \<and> start_frame esp [] m' \<and> unat tp - 0x10000 \<le> unat esp \<and> unat esp < unat tp
    \<and> (\<forall>x. x < unat tp - 0x10000 \<or> unat tp \<le> x \<longrightarrow> m' x = m x)"
proof -
  let ?m = "store_bytes (tp - USER_STACK_SIZE) (replicate (unat USER_STACK_SIZE) 0) m"
  let ?m' = "store_words (tp - 16 - 12) [0, 0, 0] ?m"
  have e: "unat (tp - 16 - 12) = unat tp - 28" "unat (tp - 0x10000) = unat tp - 0x10000"
    using assms by (simp_all add: unat_minus_u32 word_le_nat_alt)
  have top: "unat tp < 0x100000000" using unat_u32_bound [of tp] by simp
  have fits: "unat (tp - 16 - 12) + 4 * length [0, 0, 0 :: u32] \<le> 0x100000000" using e top assms by simp
  have "load32 (tp - 16 - 12 + 4 * of_nat 1) ?m' = [0, 0, 0] ! 1" by (rule store_words_load [OF fits]) simp
  then have "start_frame (tp - 16 - 12) [] ?m'" unfolding start_frame_def by (simp del: store_words.simps)
  moreover have "?m' x = m x" if "x < unat tp - 0x10000 \<or> unat tp \<le> x" for x
  proof -
    have "?m' x = ?m x" by (rule store_words_outside [OF fits]) (use that e assms in auto)
    also have "\<dots> = m x" using that e assms top by (auto simp: store_bytes_apply)
    finally show ?thesis .
  qed
  moreover have "build_stack tp None m = Some (tp - 16 - 12, ?m')"
    by (simp only: build_stack_def Let_def option.case)
  moreover have "unat tp - 0x10000 \<le> unat (tp - 16 - 12)" "unat (tp - 16 - 12) < unat tp" using e assms by simp_all
  ultimately show ?thesis by (intro exI [of _ "tp - 16 - 12"] exI [of _ ?m'] conjI allI impI)
qed

definition args_ok :: "nat \<Rightarrow> u32 \<Rightarrow> string list \<Rightarrow> mem \<Rightarrow> bool" where
  "args_ok argc argv ss m \<longleftrightarrow>
     args_size (take 32 ss) \<le> 0xFF00
     \<and> (if argc > 0 \<and> argv \<noteq> 0 then read_args argc argv m = Some ss else ss = [])"

lemma build_stack_ok:
  assumes "args_ok argc argv ss m0"
  shows "\<exists>esp m'. build_stack (stack_top nest) (if argc > 0 \<and> argv \<noteq> 0 then Some (Copied ss) else None) m = Some (esp, m')
    \<and> start_frame esp (take 32 ss) m' \<and> unat esp \<in> stack_range nest \<and> (\<forall>x. x \<notin> stack_range nest \<longrightarrow> m' x = m x)"
proof -
  have tp: "0x10000 \<le> unat (stack_top nest)" using stack_top_bound [of nest] by simp
  show ?thesis
  proof (cases "argc > 0 \<and> argv \<noteq> 0")
    case True
    then have r: "read_args argc argv m0 = Some ss" "args_size (take 32 ss) \<le> 0xFF00" using assms by (simp_all add: args_ok_def)
    have nul: "\<forall>s \<in> set ss. CHR 0x00 \<notin> set s" using read_args_nul [OF r(1)] by blast
    from build_stack_args [OF tp r(2) nul, of m] True show ?thesis
      by (auto simp: start_frame_def args_on_stack_def stack_range_def not_less not_le)
  next
    case False
    then have "ss = []" using assms by (simp add: args_ok_def split: if_splits)
    with build_stack_none [OF tp, of m] False show ?thesis by (auto simp: stack_range_def not_less not_le)
  qed
qed

section \<open>A failed call\<close>

lemma put_fs_put [simp]: "put_fs s (put_fs t k) = put_fs s k"
  by (simp add: put_fs_def)

lemma kalloc_nodes: "kalloc s = (ok, t) \<Longrightarrow> fs_nodes t = fs_nodes s"
  by (auto simp: kalloc_def)

definition same_but_heap :: "ksys \<Rightarrow> ksys \<Rightarrow> bool" where
  "same_but_heap k k' \<longleftrightarrow> (\<exists>s. k' = put_fs s k \<and> fs_nodes s = fs_nodes (kfs k))"

lemma same_but_heap_refl [simp]: "same_but_heap k k"
  unfolding same_but_heap_def by (rule exI [of _ "ac_fs (k_ac k)"]) (simp add: put_fs_def)

lemma same_but_heap_put: "same_but_heap k k1 \<Longrightarrow> fs_nodes s = fs_nodes (kfs k1) \<Longrightarrow> same_but_heap k (put_fs s k1)"
  by (auto simp: same_but_heap_def)

lemma kresolve_same: "tree_ok (kfs k) \<Longrightarrow> kresolve path k = Some (n, k1) \<Longrightarrow> same_but_heap k k1"
  using resolve_tree(1) by (fastforce simp: same_but_heap_def)

lemma copy_args_same: "same_but_heap k k1 \<Longrightarrow> copy_args argc argv k1 = Some (ok, args, k2) \<Longrightarrow> same_but_heap k k2"
  by (auto simp: copy_args_def kalloc_def bind_eq_Some_conv split: if_splits intro: same_but_heap_put)

lemma check_segments_codes: "check_segments is buf e got = Some rc \<Longrightarrow> rc \<in> {0, -2, -3}"
  by (induction "is") (auto simp: bind_eq_Some_conv split: if_splits)

lemma execve_fails:
  assumes "tree_ok (kfs k)" "elf_execve dev nest path argc argv k = Some ((rc, None), k')"
  shows "rc \<in> {-1, -2, -3, -4, -5} \<and> same_but_heap k k'"
proof (cases "current (k_ps k)")
  case None
  then show ?thesis using assms(2) by (auto simp: elf_execve_def)
next
  case (Some c)
  then obtain n k1 where r: "kresolve path k = Some (n, k1)"
    using assms(2) by (auto simp: elf_execve_def bind_eq_Some_conv)
  have s1: "same_but_heap k k1" by (rule kresolve_same [OF assms(1) r])
  show ?thesis
  proof (cases n)
    case None
    then show ?thesis using assms(2) Some r s1 by (simp add: elf_execve_def)
  next
    case (Some i)
    obtain ok s where a: "kalloc (kfs k1) = (ok, s)" by (cases "kalloc (kfs k1)") auto
    have s2: "same_but_heap k (put_fs s k1)" by (rule same_but_heap_put [OF s1 kalloc_nodes [OF a]])
    obtain v where v: "knode i (put_fs s k1) = Some v" "knode i k1 = Some v"
      using assms(2) \<open>current (k_ps k) = Some c\<close> Some r kalloc_nodes [OF a]
      by (auto simp: elf_execve_def knode_kfs bind_eq_Some_conv)
    obtain got buf where f: "elf_file dev i (n_size v) (put_fs s k1) = (got, buf)" by (rule prod.exhaust)
    show ?thesis
      using assms(2) \<open>current (k_ps k) = Some c\<close> Some r s1 s2 v
      by (auto simp: elf_execve_def Let_def f a bind_eq_Some_conv split: if_splits
          dest!: check_segments_codes copy_args_same [OF s2])
  qed
qed

section \<open>A successful call\<close>

lemma copy_args_ok:
  assumes "args_ok argc argv ss (k_mem k)" "\<forall>x. fs_grants (kfs k) x"
  shows "\<exists>s. copy_args argc argv k = Some (True, if argc > 0 \<and> argv \<noteq> 0 then Some (Copied ss) else None, put_fs s k)"
proof (cases "argc > 0 \<and> argv \<noteq> 0")
  case True
  then show ?thesis using assms
    by (intro exI [of _ "(kfs k)\<lparr>fs_allocs := fs_allocs (kfs k) + 1\<rparr>"]) (simp add: copy_args_def args_ok_def kalloc_def)
next
  case False
  have "put_fs (ac_fs (k_ac k)) k = k" by (simp add: put_fs_def)
  then show ?thesis using False by (auto simp: copy_args_def intro: exI [of _ "ac_fs (k_ac k)"])
qed

lemma heap_start_above:
  assumes "mx \<le> (0x40000000 :: u32)"
  shows "unat mx < unat ((mx + 0x1000) AND NOT 0xFFF)" "unat ((mx + 0x1000) AND NOT 0xFFF) mod 4096 = 0"
proof -
  have "unat (mx + 0x1000) = unat mx + 0x1000" using assms by (simp add: unat_plus_u32 word_le_nat_alt)
  then have u: "unat ((mx + 0x1000) AND NOT 0xFFF) = (unat mx + 0x1000) div 4096 * 4096"
    using frame_of_unat [of "mx + 0x1000"] by (simp only: frame_of_def minus_mod_eq_div_mult)
  show "unat mx < unat ((mx + 0x1000) AND NOT 0xFFF)" unfolding u by simp
  show "unat ((mx + 0x1000) AND NOT 0xFFF) mod 4096 = 0" unfolding u by simp
qed

text \<open>The process after a load: its name, and its heap behind the last segment.\<close>

definition heap_behind :: "u8 list \<Rightarrow> process_t \<Rightarrow> process_t \<Rightarrow> bool" where
  "heap_behind buf p p' \<longleftrightarrow>
     (\<forall>q \<in> set (segments buf). unat (p_vaddr q) + unat (p_memsz q) \<le> unat (heap_start p'))
     \<and> (if \<forall>q \<in> set (segments buf). seg_end q = 0 then heap_start p' = heap_start p \<and> heap_brk p' = heap_brk p
        else heap_brk p' = heap_start p' \<and> unat (heap_start p') mod 4096 = 0)"

lemma heap_after_behind:
  assumes "executable nest got buf" "c < length (processes (k_ps k))" "mx = foldl max 0 (map seg_end (segments buf))"
  shows "\<exists>h b. heap_after mx c k = k\<lparr>k_ps := upd_proc c (\<lambda>p. p\<lparr>heap_start := h, heap_brk := b\<rparr>) (k_ps k)\<rparr>
    \<and> heap_behind buf (processes (k_ps k) ! c) ((processes (k_ps k) ! c)\<lparr>heap_start := h, heap_brk := b, pname := nm\<rparr>)"
proof -
  let ?p = "processes (k_ps k) ! c"
  have ok: "\<forall>q \<in> set (segments buf). seg_ok buf got q" using assms(1) by (auto simp: executable_def Let_def)
  then have ends: "unat (seg_end q) = unat (p_vaddr q) + unat (p_memsz q)" "seg_end q \<le> 0x40000000"
    if "q \<in> set (segments buf)" for q
    using that by (auto simp: seg_end_def seg_ok_def unat_plus_u32 word_le_nat_alt)
  have le: "seg_end q \<le> mx" if "q \<in> set (segments buf)" for q
    using foldl_max_u32 [of 0 "map seg_end (segments buf)"] that assms(3) by auto
  have bound: "mx \<le> 0x40000000" unfolding assms(3) by (rule foldl_max_bound) (use ends(2) in auto)
  show ?thesis
  proof (cases "mx = 0")
    case True
    then have z: "seg_end q = 0" if "q \<in> set (segments buf)" for q using le [OF that] True by (simp add: word_coorder.extremum_unique)
    have "heap_after mx c k = k" using True by (simp add: heap_after_def)
    moreover have "k\<lparr>k_ps := upd_proc c (\<lambda>p. p\<lparr>heap_start := heap_start ?p, heap_brk := heap_brk ?p\<rparr>) (k_ps k)\<rparr> = k"
      by (simp add: upd_proc_def)
    moreover have "heap_behind buf ?p (?p\<lparr>heap_start := heap_start ?p, heap_brk := heap_brk ?p, pname := nm\<rparr>)"
      using z ends by (simp add: heap_behind_def flip: ends(1))
    ultimately show ?thesis by (intro exI [of _ "heap_start ?p"] exI [of _ "heap_brk ?p"]) simp
  next
    case False
    let ?h = "(mx + 0x1000) AND NOT 0xFFF"
    have above: "unat (p_vaddr q) + unat (p_memsz q) \<le> unat ?h" if "q \<in> set (segments buf)" for q
      using le [OF that] ends(1) [OF that] heap_start_above(1) [OF bound] by (simp add: word_le_nat_alt)
    have "\<exists>q \<in> set (segments buf). seg_end q \<noteq> 0"
    proof (rule ccontr)
      assume "\<not> (\<exists>q \<in> set (segments buf). seg_end q \<noteq> 0)"
      then have "mx \<le> 0" unfolding assms(3) by (intro foldl_max_bound) auto
      then show False using False by simp
    qed
    then have "heap_behind buf ?p (?p\<lparr>heap_start := ?h, heap_brk := ?h, pname := nm\<rparr>)"
      using above heap_start_above(2) [OF bound] by (auto simp: heap_behind_def)
    moreover have "heap_after mx c k = k\<lparr>k_ps := upd_proc c (\<lambda>p. p\<lparr>heap_start := ?h, heap_brk := ?h\<rparr>) (k_ps k)\<rparr>"
      using False by (simp add: heap_after_def Let_def word_gt_0)
    ultimately show ?thesis by blast
  qed
qed

lemma elf_enter_ok:
  assumes "args_ok argc argv ss m0"
  shows "\<exists>v esp m'. elf_enter nest c mx (if argc > 0 \<and> argv \<noteq> 0 then Some (Copied ss) else None) k
      = Some (esp, (heap_after mx c k)\<lparr>k_vmm := v, k_mem := m'\<rparr>)
    \<and> start_frame esp (take 32 ss) m' \<and> unat esp \<in> stack_range nest
    \<and> (\<forall>x. x \<notin> stack_range nest \<longrightarrow> m' x = k_mem k x)"
proof -
  let ?k = "heap_after mx c k" and ?tp = "stack_top nest"
  have "unat ?tp \<le> 0x40000000" using stack_top_bound(2) [of nest] by simp
  from map_pages_returns [OF this] obtain v where
    v: "map_pages (page_dir (processes (k_ps ?k) ! c)) (?tp - USER_STACK_SIZE) ?tp ?k = Some (?k\<lparr>k_vmm := v\<rparr>)" by blast
  have m: "k_mem ?k = k_mem k" by (simp add: heap_after_def Let_def)
  from build_stack_ok [OF assms, of nest "k_mem k"] obtain esp m' where
    b: "build_stack ?tp (if argc > 0 \<and> argv \<noteq> 0 then Some (Copied ss) else None) (k_mem k) = Some (esp, m')"
      "start_frame esp (take 32 ss) m'" "unat esp \<in> stack_range nest" "\<forall>x. x \<notin> stack_range nest \<longrightarrow> m' x = k_mem k x"
    by blast
  have "elf_enter nest c mx (if argc > 0 \<and> argv \<noteq> 0 then Some (Copied ss) else None) k
      = Some (esp, ?k\<lparr>k_vmm := v, k_mem := m'\<rparr>)"
    using b(1) by (simp add: elf_enter_def Let_def v m del: not_gr_zero split del: if_split)
  with b(2-4) show ?thesis by blast
qed

lemma kresolve_put: "kresolve path k = Some (n, k1) \<Longrightarrow> \<exists>s. k1 = put_fs s k"
  by (auto simp: kresolve_def with_fs_def)

lemma execve_loads:
  assumes c: "current (k_ps k) = Some c" "c < length (processes (k_ps k))"
    and f: "kresolve path k = Some (Some i, k1)" "knode i k1 = Some v" "n_type v = VFS_FILE" "allowed v ACC_EXEC k1"
      "52 \<le> n_size v" "\<forall>x. fs_grants (kfs k1) x"
      "elf_file dev i (n_size v) (put_fs (snd (kalloc (kfs k1))) k1) = (got, buf)"
    and x: "executable nest got buf" "args_ok argc argv ss (k_mem k)"
  shows "\<exists>esp s w m h b. elf_execve dev nest path argc argv k
      = Some ((0, Some (e_entry (parse_ehdr buf), esp)),
          (put_fs s k)\<lparr>k_vmm := w, k_mem := m,
            k_ps := upd_proc c (\<lambda>p. p\<lparr>heap_start := h, heap_brk := b, pname := take 31 (last_component path)\<rparr>) (k_ps k)\<rparr>)
    \<and> image_loaded nest buf (k_mem k) m \<and> start_frame esp (take 32 ss) m \<and> unat esp \<in> stack_range nest
    \<and> heap_behind buf (processes (k_ps k) ! c)
        ((processes (k_ps k) ! c)\<lparr>heap_start := h, heap_brk := b, pname := take 31 (last_component path)\<rparr>)"
proof -
  let ?e = "parse_ehdr buf" and ?nm = "take 31 (last_component path)"
  let ?is = "[0..<unat (e_phnum ?e)]"
  let ?args = "if argc > 0 \<and> argv \<noteq> 0 then Some (Copied ss) else None"
  obtain s1 where k1: "k1 = put_fs s1 k" using kresolve_put [OF f(1)] by blast
  obtain s2 where kf: "kalloc (kfs k1) = (True, s2)" using f(6) by (simp add: kalloc_def)
  define k2 where "k2 = put_fs s2 k1"
  have buf: "elf_file dev i (n_size v) k2 = (got, buf)" using f(7) kf by (simp add: k2_def)
  have g2: "\<forall>x. fs_grants (kfs k2) x" using f(6) kf by (auto simp: k2_def kalloc_def)
  have m2: "k_mem k2 = k_mem k" "k_ps k2 = k_ps k" by (simp_all add: k2_def k1)
  have e: "52 \<le> got" "elf_validate ?e" "e_entry ?e \<noteq> 0" "\<forall>i \<in> set ?is. read_phdr buf ?e i \<noteq> None"
    "\<forall>p \<in> set (segments buf). seg_ok buf got p"
    using x(1) by (auto simp: executable_def Let_def)
  from copy_args_ok [OF _ g2, of argc argv ss] x(2) obtain s3 where
    ca: "copy_args argc argv k2 = Some (True, ?args, put_fs s3 k2)" unfolding m2 by blast
  define k3 where "k3 = put_fs s3 k2"
  define mx where "mx = foldl max 0 (map seg_end (segments buf))"
  from commit_segments_ok [OF e(4,5), where k = k3 and mx = 0 and pd = "page_dir (processes (k_ps k3) ! c)"]
  obtain v1 where cs: "commit_segments ?is buf ?e (page_dir (processes (k_ps k3) ! c)) 0 k3
      = Some (mx, k3\<lparr>k_vmm := v1, k_mem := fold (seg_mem buf) (segments buf) (k_mem k3)\<rparr>)"
    unfolding mx_def by blast
  define k4 where "k4 = k3\<lparr>k_vmm := v1, k_mem := fold (seg_mem buf) (segments buf) (k_mem k3)\<rparr>"
  from elf_enter_ok [OF x(2), where c = c and mx = mx and k = k4 and nest = nest] obtain w esp m where
    en: "elf_enter nest c mx ?args k4 = Some (esp, (heap_after mx c k4)\<lparr>k_vmm := w, k_mem := m\<rparr>)"
      "start_frame esp (take 32 ss) m" "unat esp \<in> stack_range nest" "\<forall>x. x \<notin> stack_range nest \<longrightarrow> m x = k_mem k4 x"
    by blast
  have p4: "k_ps k4 = k_ps k" by (simp add: k4_def k3_def m2)
  from heap_after_behind [OF x(1) _ mx_def, where c = c and k = k4 and nm = ?nm] c(2) obtain h b where
    h: "heap_after mx c k4 = k4\<lparr>k_ps := upd_proc c (\<lambda>p. p\<lparr>heap_start := h, heap_brk := b\<rparr>) (k_ps k)\<rparr>"
      "heap_behind buf (processes (k_ps k) ! c) ((processes (k_ps k) ! c)\<lparr>heap_start := h, heap_brk := b, pname := ?nm\<rparr>)"
    unfolding p4 by blast
  have "k_mem k4 = fold (seg_mem buf) (segments buf) (k_mem k)" by (simp add: k4_def k3_def m2)
  from image_then_stack [OF x(1) this en(4)] have im: "image_loaded nest buf (k_mem k) m" .
  have small: "\<not> n_size v < 52" "\<not> got < 52" using f(5) e(1) by simp_all
  have "elf_execve dev nest path argc argv k
      = Some ((0, Some (e_entry ?e, esp)),
          ((heap_after mx c k4)\<lparr>k_vmm := w, k_mem := m\<rparr>)
            \<lparr>k_ps := upd_proc c (\<lambda>p. p\<lparr>pname := ?nm\<rparr>) (k_ps ((heap_after mx c k4)\<lparr>k_vmm := w, k_mem := m\<rparr>))\<rparr>)"
    unfolding elf_execve_def c(1) option.case f(1) f(2) Option.bind.bind_lunit prod.case kf
    using f(3,4) small buf e(2,3) check_segments_ok [OF e(4,5)] ca cs en(1)
    by (simp add: Let_def flip: k2_def k3_def k4_def del: upt_Suc cong: if_cong)
  also have "\<dots> = Some ((0, Some (e_entry ?e, esp)), (put_fs s3 k)\<lparr>k_vmm := w, k_mem := m,
        k_ps := upd_proc c (\<lambda>p. p\<lparr>heap_start := h, heap_brk := b, pname := ?nm\<rparr>) (k_ps k)\<rparr>)"
    unfolding h(1) using c(2) by (simp add: upd_proc_def k4_def k3_def k2_def k1)
  finally show ?thesis using im en(2,3) h(2) by blast
qed

end
