(* ===== verification/Elf_Files.thy ===== *)
theory Elf_Files
  imports Elf_Props
begin

text \<open>
  The properties of \<^verbatim>\<open>execve\<close> on files kept in memory, with an executable of one segment as the example: a
  header of 52 bytes, one program header of 32 bytes, and the bytes of the segment.
\<close>

section \<open>An executable of one segment\<close>

definition one_segment :: "u32 \<Rightarrow> u32 \<Rightarrow> u8 list \<Rightarrow> u8 list" where
  "one_segment eip a bs =
     [0x7F, 0x45, 0x4C, 0x46, 1, 1, 1, 0, 0, 0, 0, 0, 0, 0, 0, 0, 2, 0, 3, 0, 1, 0, 0, 0] @ le32_bytes eip
     @ [52, 0, 0, 0, 0, 0, 0, 0, 0, 0, 0, 0, 52, 0, 32, 0, 1, 0, 0, 0, 0, 0, 0, 0]
     @ [1, 0, 0, 0, 84, 0, 0, 0] @ le32_bytes a @ le32_bytes a
     @ le32_bytes (of_nat (length bs)) @ le32_bytes (of_nat (length bs)) @ [7, 0, 0, 0, 0, 0x10, 0, 0] @ bs"

lemma length_one_segment [simp]: "length (one_segment eip a bs) = 84 + length bs"
  by (simp add: one_segment_def)

lemma one_segment_parse:
  "parse_ehdr (one_segment eip a bs)
     = \<lparr>e_magic = ELF_MAGIC, e_class = 1, e_data = 1, e_type = 2, e_machine = 3, e_entry = eip, e_phoff = 52,
        e_phentsize = 32, e_phnum = 1\<rparr>"
  unfolding parse_ehdr_def one_segment_def le32_bytes_def le16_at_def le32_at_def
  by (simp add: le32_of_bytes) (simp add: le32_def)

lemma one_segment_phdr:
  "read_phdr (one_segment eip a bs) (parse_ehdr (one_segment eip a bs)) 0
     = Some \<lparr>p_type = PT_LOAD, p_offset = 84, p_vaddr = a, p_filesz = of_nat (length bs), p_memsz = of_nat (length bs)\<rparr>"
  unfolding one_segment_parse read_phdr_def
  by (simp add: Let_def) (simp add: one_segment_def le32_bytes_def le32_at_def le32_of_bytes, simp add: le32_def)

lemma one_segment_data: "j < length bs \<Longrightarrow> one_segment eip a bs ! (84 + j) = bs ! j"
  by (simp add: one_segment_def le32_bytes_def nth_append)

lemma one_segment_segments:
  "segments (one_segment eip a bs)
     = [\<lparr>p_type = PT_LOAD, p_offset = 84, p_vaddr = a, p_filesz = of_nat (length bs), p_memsz = of_nat (length bs)\<rparr>]"
  using one_segment_phdr [of eip a bs] by (simp add: loads_def one_segment_parse)

lemma one_segment_executable:
  assumes "eip \<noteq> 0" "unat a + length bs \<le> unat (stack_top nest) - 0x10000"
  shows "executable nest (of_nat (84 + length bs)) (one_segment eip a bs)"
proof -
  have n: "length bs + 84 < 0x100000000" using assms(2) stack_top_bound(2) [of nest] by simp
  have u: "unat (of_nat (length bs) :: u32) = length bs" "unat (of_nat (84 + length bs) :: u32) = 84 + length bs"
    using n by (intro unat_of_nat_u32, simp)+
  have "(52 :: u32) \<le> of_nat (84 + length bs)" unfolding word_le_nat_alt u by simp
  moreover have "elf_validate (parse_ehdr (one_segment eip a bs))" by (simp add: one_segment_parse elf_validate_def)
  moreover have "\<forall>p \<in> set (segments (one_segment eip a bs)).
      seg_ok (one_segment eip a bs) (of_nat (84 + length bs)) p \<and> seg_range p \<inter> stack_range nest = {}"
    using assms(2) stack_top_bound(2) [of nest] u
    by (auto simp: one_segment_segments seg_ok_def seg_range_def stack_range_def simp del: of_nat_add)
  moreover have "disjoint_segments (segments (one_segment eip a bs))"
    by (simp add: one_segment_segments disjoint_segments_def)
  moreover have "\<forall>i \<in> set [0..<unat (e_phnum (parse_ehdr (one_segment eip a bs)))].
      read_phdr (one_segment eip a bs) (parse_ehdr (one_segment eip a bs)) i \<noteq> None"
    using one_segment_phdr [of eip a bs] by (simp add: one_segment_parse)
  ultimately show ?thesis using assms(1) by (simp add: executable_def Let_def one_segment_parse)
qed

text \<open>A file kept in the heap is read whole.\<close>

definition heap_content :: "vnode \<Rightarrow> u8 list \<Rightarrow> bool" where
  "heap_content v bs \<longleftrightarrow>
     n_type v = VFS_FILE \<and> n_ops v = Ramfs_ops \<and> \<not> n_disk_backed v \<and> n_data v = Some bs
     \<and> length bs < 0x100000000 \<and> n_size v = of_nat (length bs)"

lemma elf_file_heap:
  assumes "heap_content v bs" "knode i k = Some v" "bs \<noteq> []"
  shows "elf_file dev i (n_size v) k = (n_size v, bs)"
proof -
  have "unat (n_size v) = length bs" using assms(1) by (simp add: heap_content_def)
  then show ?thesis using assms
    by (auto simp: heap_content_def elf_file_def kread_def vfs_read_def knode_kfs ramfs_read_def slice_def
        simp del: unat_of_nat_u32)
qed

section \<open>Properties\<close>

text \<open>
  C16: \<^verbatim>\<open>execve\<close> fails without a trace. Whatever the path, the file and the arguments, a call that returns an
  error returns one of the five codes of the source, and the caller's memory, address space, process entry,
  descriptors and every node of the file tree are what they were; only allocations were made.
\<close>

theorem elf_execve_fails_clean:
  assumes "tree_ok (kfs k)" "elf_execve dev nest path argc argv k = Some ((rc, None), k')"
  shows "rc \<in> {-1, -2, -3, -4, -5} \<and> (\<exists>s. k' = put_fs s k \<and> fs_nodes s = fs_nodes (kfs k))"
  using execve_fails [OF assms] unfolding same_but_heap_def .

text \<open>
  C2: \<^verbatim>\<open>execve\<close> loads a well-formed executable that the caller may execute, from a heap that grants every request and with
  first 32 arguments of at most 65280 bytes together. The call succeeds with the entry
  point of the header; every byte of every segment is the file's, or zero behind its part in the file; memory
  outside the segments and the stack is untouched; the stack holds the count and, null-terminated, pointers to the
  first 32 arguments; the heap starts behind the last segment; the process is renamed, and every other process and
  every descriptor stays.
\<close>

theorem elf_execve_loads:
  assumes "current (k_ps k) = Some c" "c < length (processes (k_ps k))"
    and "kresolve path k = Some (Some i, k1)" "knode i k1 = Some v" "n_type v = VFS_FILE" "allowed v ACC_EXEC k1"
      "52 \<le> n_size v" "\<forall>x. fs_grants (kfs k1) x"
      "elf_file dev i (n_size v) (put_fs (snd (kalloc (kfs k1))) k1) = (got, buf)"
    and "executable nest got buf" "args_ok argc argv ss (k_mem k)"
  shows "\<exists>esp s w m h b. elf_execve dev nest path argc argv k
      = Some ((0, Some (e_entry (parse_ehdr buf), esp)),
          (put_fs s k)\<lparr>k_vmm := w, k_mem := m,
            k_ps := upd_proc c (\<lambda>p. p\<lparr>heap_start := h, heap_brk := b, pname := take 31 (last_component path)\<rparr>) (k_ps k)\<rparr>)
    \<and> image_loaded nest buf (k_mem k) m \<and> start_frame esp (take 32 ss) m \<and> unat esp \<in> stack_range nest
    \<and> heap_behind buf (processes (k_ps k) ! c)
        ((processes (k_ps k) ! c)\<lparr>heap_start := h, heap_brk := b, pname := take 31 (last_component path)\<rparr>)"
  by (rule execve_loads [OF assms])

lemma image_segment_bytes:
  assumes "image_loaded nest (one_segment eip a bs) m m'" "unat a + length bs \<le> unat (stack_top nest)"
  shows "load_bytes a (length bs) m' = bs"
proof (rule nth_equalityI)
  fix j assume "j < length (load_bytes a (length bs) m')"
  then have j: "j < length bs" by simp
  have n: "unat a + length bs < 0x100000000" using assms(2) stack_top_bound(2) [of nest] by simp
  have u: "unat (of_nat (length bs) :: u32) = length bs" "unat (a + of_nat j) = unat a + j"
    using n j by (simp_all add: unat_plus_u32)
  have "m' (unat a + j) = one_segment eip a bs ! (84 + j)"
    using assms(1) u j by (auto simp: image_loaded_def one_segment_segments seg_range_def seg_byte_def Let_def)
  then show "load_bytes a (length bs) m' ! j = bs ! j"
    using j u by (simp add: load_bytes_def one_segment_data)
qed simp

text \<open>
  C40: The addresses of the segments are not confined to the user range. For every address below the stack, the
  kernel's code and data included, and every string of bytes, a process that may execute a file of its own making
  has \<^verbatim>\<open>execve\<close> store those bytes at that address.
\<close>

theorem elf_execve_writes_anywhere:
  assumes "current (k_ps k) = Some c" "c < length (processes (k_ps k))"
    and "kresolve path k = Some (Some i, k1)" "knode i k1 = Some v" "allowed v ACC_EXEC k1" "\<forall>x. fs_grants (kfs k1) x"
    and "heap_content v (one_segment eip a bs)" "eip \<noteq> 0" "unat a + length bs \<le> unat (stack_top nest) - 0x10000"
  shows "\<exists>esp k'. elf_execve dev nest path 0 0 k = Some ((0, Some (eip, esp)), k') \<and> load_bytes a (length bs) (k_mem k') = bs"
proof -
  let ?buf = "one_segment eip a bs"
  have v: "n_type v = VFS_FILE" "n_size v = of_nat (84 + length bs)" "84 + length bs < 0x100000000"
    using assms(7) by (simp_all add: heap_content_def)
  then have "unat (n_size v) = 84 + length bs" by (simp only:) (rule unat_of_nat_u32, simp)
  then have size: "52 \<le> n_size v" by (simp add: word_le_nat_alt)
  have "knode i (put_fs (snd (kalloc (kfs k1))) k1) = Some v" using assms(4) by (simp add: knode_kfs kalloc_def)
  then have buf: "elf_file dev i (n_size v) (put_fs (snd (kalloc (kfs k1))) k1) = (of_nat (84 + length bs), ?buf)"
    using elf_file_heap [OF assms(7)] v(2) by (simp add: one_segment_def)
  have args: "args_ok 0 0 [] (k_mem k)" by (simp add: args_ok_def args_size_def)
  from execve_loads [OF assms(1-4) v(1) assms(5) size assms(6) buf one_segment_executable [OF assms(8,9)] args]
  obtain esp s w m h b where "elf_execve dev nest path 0 0 k
      = Some ((0, Some (e_entry (parse_ehdr ?buf), esp)),
          (put_fs s k)\<lparr>k_vmm := w, k_mem := m,
            k_ps := upd_proc c (\<lambda>p. p\<lparr>heap_start := h, heap_brk := b, pname := take 31 (last_component path)\<rparr>) (k_ps k)\<rparr>)"
    "image_loaded nest ?buf (k_mem k) m" by blast
  moreover have "unat a + length bs \<le> unat (stack_top nest)" using assms(9) by simp
  ultimately show ?thesis using image_segment_bytes by (fastforce simp: one_segment_parse)
qed

section \<open>Witnesses\<close>

text \<open>A user who is not root, and an executable file \<^verbatim>\<open>/prog\<close>.\<close>

definition program_node :: "u8 list \<Rightarrow> vnode" where
  "program_node bs = (fresh_node (Some 1) ''prog'' VFS_FILE 5)\<lparr>n_permissions := 0x1ED, n_size := of_nat (length bs),
     n_data := Some bs, n_capacity := of_nat (length bs)\<rparr>"

definition program_ksys :: "u8 list \<Rightarrow> mem \<Rightarrow> ksys" where
  "program_ksys bs m = example_ksys\<lparr>k_ac := example_accounts\<lparr>
       users := example_user\<lparr>u_uid := 1000, u_gid := 1000\<rparr> # replicate 31 zero_user,
       ac_fs := example_tree\<lparr>fs_nodes := [1 \<mapsto> example_root\<lparr>n_children := [2]\<rparr>, 2 \<mapsto> program_node bs], fs_next := 3\<rparr>\<rparr>,
     k_mem := m\<rparr>"

lemma program_tree: "tree_ok (kfs (program_ksys bs m))"
proof -
  have "tree_ok (ac_fs (k_ac (program_ksys bs m)))"
    by (auto simp: program_ksys_def program_node_def tree_ok_def node_ok_def child_names_def example_defs name_ok_def
        split: if_splits)
  then show ?thesis by (simp add: kfs_def tree_ok_with_cred)
qed

lemma program_resolve:
  "kresolve ''/prog'' (program_ksys bs m) = Some (Some 2, put_fs (rooted (kfs (program_ksys bs m))) (program_ksys bs m))"
proof -
  let ?k = "program_ksys bs m"
  have "resolve_walk (fs_root (kfs ?k)) [''prog''] (kfs ?k) = Some 2"
    by (simp add: program_ksys_def program_node_def example_defs vfs_finddir_def ramfs_finddir_def fresh_node_def)
  then have "vfs_resolve ''/prog'' (k_cwd ?k) (kfs ?k) = Some (Some 2, rooted (kfs ?k))"
    using vfs_resolve_render [OF program_tree, of "[''prog'']" "k_cwd ?k"] by (simp add: name_ok_def render_def)
  then show ?thesis by (simp add: kresolve_def with_fs_def)
qed

lemma program_facts:
  defines "k1 \<equiv> \<lambda>bs m. put_fs (rooted (kfs (program_ksys bs m))) (program_ksys bs m)"
  shows "current (k_ps (program_ksys bs m)) = Some 0" "0 < length (processes (k_ps (program_ksys bs m)))"
    "knode 2 (k1 bs m) = Some (program_node bs)" "allowed (program_node bs) ACC_EXEC (k1 bs m)" "fs_grants (kfs (k1 bs m)) x"
proof -
  have ps: "k_ps (program_ksys bs m) = booted_ps" by (simp add: program_ksys_def example_ksys_def)
  show "current (k_ps (program_ksys bs m)) = Some 0" "0 < length (processes (k_ps (program_ksys bs m)))"
    using booted_facts(1,3) unfolding ps by (simp_all del: length_greater_0_conv)
  show "knode 2 (k1 bs m) = Some (program_node bs)" by (simp add: k1_def knode_kfs) (simp add: program_ksys_def)
  show "allowed (program_node bs) ACC_EXEC (k1 bs m)"
    by (simp add: k1_def allowed_def vfs_check_access_def current_cred_def program_node_def kfs_def with_cred_def
        vfs_set_cred_provider_def users_get_cred_def program_ksys_def example_accounts_def fresh_node_def put_fs_def)
  show "fs_grants (kfs (k1 bs m)) x"
    by (simp add: k1_def rooted_def kfs_def with_cred_def vfs_set_cred_provider_def program_ksys_def example_accounts_def
        example_tree_def put_fs_def)
qed

lemma program_content: "length bs < 0x100000000 \<Longrightarrow> heap_content (program_node bs) bs"
  by (simp add: heap_content_def program_node_def fresh_node_def)

theorem elf_execve_fails_clean_witness:
  "\<exists>k'. elf_execve (e_dev no_drivers) 1 ''/prog'' 0 0 (program_ksys [] (\<lambda>_. 0)) = Some ((-2, None), k')
     \<and> (\<exists>s. k' = put_fs s (program_ksys [] (\<lambda>_. 0)) \<and> fs_nodes s = fs_nodes (kfs (program_ksys [] (\<lambda>_. 0))))"
proof -
  have "\<exists>k'. elf_execve (e_dev no_drivers) 1 ''/prog'' 0 0 (program_ksys [] (\<lambda>_. 0)) = Some ((-2, None), k')"
    unfolding elf_execve_def program_facts(1) option.case program_resolve Option.bind.bind_lunit prod.case program_facts(3)
    using program_facts(4) [of "[]"] by (simp add: program_node_def fresh_node_def)
  then obtain k' where "elf_execve (e_dev no_drivers) 1 ''/prog'' 0 0 (program_ksys [] (\<lambda>_. 0)) = Some ((-2, None), k')" by blast
  with elf_execve_fails_clean [OF program_tree this] show ?thesis by blast
qed

definition program_memory :: mem where
  "program_memory = store_words 0x08050000 [0x08060000, 0] (store_bytes 0x08060000 (string_bytes ''-v'' @ [0]) (\<lambda>_. 0))"

lemma program_args: "args_ok 1 0x08050000 [''-v''] program_memory"
proof -
  let ?m = "store_bytes 0x08060000 (string_bytes ''-v'' @ [0]) (\<lambda>_. 0)"
  have "load32 (0x08050000 + 4 * of_nat 0) program_memory = [0x08060000, 0] ! 0"
    unfolding program_memory_def by (rule store_words_load) simp_all
  then have p: "load32 0x08050000 program_memory = 0x08060000" by simp
  have "cstr_at 0x08060000 ''-v'' program_memory"
  proof (rule cstr_at_cong)
    show "cstr_at 0x08060000 ''-v'' ?m" by (rule cstr_at_stored) simp
    show "program_memory x = ?m x" if "unat (0x08060000 :: u32) \<le> x" for x
      unfolding program_memory_def by (rule store_words_outside) (use that in simp_all)
  qed
  then have "str_at 0x08060000 program_memory = Some ''-v''" by (rule str_at_cstr) simp_all
  then show ?thesis by (simp add: args_ok_def args_size_def p)
qed

theorem elf_execve_loads_witness:
  "\<exists>esp k'. elf_execve (e_dev no_drivers) 1 ''/prog'' 1 0x08050000 (program_ksys (one_segment 0x08048000 0x08048000 [0xC3]) program_memory)
      = Some ((0, Some (0x08048000, esp)), k') \<and> load_bytes 0x08048000 1 (k_mem k') = [0xC3] \<and> start_frame esp [''-v''] (k_mem k')"
proof -
  let ?bs = "one_segment 0x08048000 0x08048000 [0xC3]"
  let ?k = "program_ksys ?bs program_memory"
  let ?k1 = "put_fs (rooted (kfs ?k)) ?k"
  have c: "heap_content (program_node ?bs) ?bs" by (rule program_content) simp
  have kn: "knode 2 (put_fs (snd (kalloc (kfs ?k1))) ?k1) = Some (program_node ?bs)"
    using program_facts(3) by (simp add: knode_kfs kalloc_def)
  have size: "n_size (program_node ?bs) = 85" by (simp add: program_node_def)
  then have big: "52 \<le> n_size (program_node ?bs)" by simp
  have ty: "n_type (program_node ?bs) = VFS_FILE" using c by (simp add: heap_content_def)
  have buf: "elf_file (e_dev no_drivers) 2 (n_size (program_node ?bs)) (put_fs (snd (kalloc (kfs ?k1))) ?k1) = (85, ?bs)"
    using elf_file_heap [OF c kn] size by (simp add: one_segment_def)
  have x: "executable 1 85 ?bs" using one_segment_executable [of "0x08048000" "0x08048000" "[0xC3]" 1] by (simp add: stack_top_def)
  have a: "args_ok 1 0x08050000 [''-v''] (k_mem ?k)" using program_args by (simp add: program_ksys_def)
  obtain esp s w m h b where r: "elf_execve (e_dev no_drivers) 1 ''/prog'' 1 0x08050000 ?k
      = Some ((0, Some (e_entry (parse_ehdr ?bs), esp)),
          (put_fs s ?k)\<lparr>k_vmm := w, k_mem := m,
            k_ps := upd_proc 0 (\<lambda>p. p\<lparr>heap_start := h, heap_brk := b, pname := take 31 (last_component ''/prog'')\<rparr>) (k_ps ?k)\<rparr>)"
    "image_loaded 1 ?bs (k_mem ?k) m" "start_frame esp (take 32 [''-v'']) m"
    using elf_execve_loads [OF program_facts(1,2) program_resolve program_facts(3) ty program_facts(4) big
        allI [OF program_facts(5)] buf x a] by blast
  have "load_bytes 0x08048000 (length [0xC3 :: u8]) m = [0xC3]"
    by (rule image_segment_bytes [OF r(2)]) (simp add: stack_top_def)
  with r show ?thesis by (simp add: one_segment_parse)
qed

theorem elf_execve_writes_anywhere_witness:
  "\<exists>esp k'. elf_execve (e_dev no_drivers) 1 ''/prog'' 0 0 (program_ksys (one_segment 1 0x100000 [0xC3]) (\<lambda>_. 0))
      = Some ((0, Some (1, esp)), k') \<and> load_bytes 0x100000 1 (k_mem k') = [0xC3]"
  using elf_execve_writes_anywhere [OF program_facts(1,2) program_resolve program_facts(3,4) allI [OF program_facts(5)]
      program_content, of 1 "0x100000" "[0xC3]" 1 "e_dev no_drivers" "\<lambda>_. 0"]
  by (simp add: stack_top_def)

end
