(* ===== verification/Devfs.thy ===== *)
theory Devfs
  imports Ramfs_Data Vfs
begin

text \<open>
  The device files, \<^verbatim>\<open>fs/devfs.c\<close>: the four pairs of read and write functions and the creation of their nodes.
  \<open>/dev/sda\<close> is the disk as one array of bytes. A reader returns its count and the bytes it stored.
\<close>

section \<open>Pseudo devices\<close>

definition zero_read :: "u32 \<Rightarrow> u32 \<times> u8 list" where
  "zero_read sz = (sz, replicate (unat sz) 0)"

definition zero_write :: "u32 \<Rightarrow> u8 list \<Rightarrow> u32" where
  "zero_write sz buf = sz"

definition null_read :: "u32 \<Rightarrow> u32 \<times> u8 list" where
  "null_read sz = (0, [])"

definition null_write :: "u32 \<Rightarrow> u8 list \<Rightarrow> u32" where
  "null_write sz buf = sz"

definition rand_next :: "u32 \<Rightarrow> u32" where
  "rand_next r = r * 1664525 + 1013904223"

fun random_bytes :: "nat \<Rightarrow> u32 \<Rightarrow> u8 list \<times> u32" where
  "random_bytes 0 r = ([], r)"
| "random_bytes (Suc n) r =
     (let r = rand_next r in case random_bytes n r of (bs, r') \<Rightarrow> (ucast (drop_bit 24 r) # bs, r'))"

definition random_read :: "u32 \<Rightarrow> u32 \<Rightarrow> u32 \<Rightarrow> (u32 \<times> u8 list) \<times> u32" where
  "random_read now sz r =
     (let r = r XOR (now * 2654435761) in case random_bytes (unat sz) r of (bs, r) \<Rightarrow> ((sz, bs), r))"

definition random_write :: "u32 \<Rightarrow> u8 list \<Rightarrow> u32 \<Rightarrow> u32 \<times> u32" where
  "random_write sz buf r = (sz, fold (\<lambda>b r. r * 31 + ucast b) (take (unat sz) buf) r)"

section \<open>The raw disk\<close>

text \<open>
  Runs of whole sectors, at most 255 at a time, go straight to the driver; the rest goes through a sector buffer.
\<close>

function sda_read_loop :: "u32 \<Rightarrow> nat \<Rightarrow> disk \<Rightarrow> nat \<Rightarrow> u8 list \<Rightarrow> nat \<times> u8 list" where
  "sda_read_loop off sz d got out =
     (if got < sz
      then let pos = off + of_nat got; lba = pos div 512; soff = unat (pos mod 512); want = sz - got
           in if soff = 0 \<and> want \<ge> 512
              then let nsec = min (want div 512) 255
                   in case ata_read_sectors lba (of_nat nsec) d of
                        (rc, bs) \<Rightarrow> if rc \<noteq> 0 then (got, out @ bs) else sda_read_loop off sz d (got + nsec * 512) (out @ bs)
              else case ata_read_sectors lba 1 d of
                     (rc, bs) \<Rightarrow>
                       if rc \<noteq> 0 then (got, out)
                       else let chunk = min (512 - soff) want in sda_read_loop off sz d (got + chunk) (out @ slice soff chunk bs)
      else (got, out))"
  by pat_completeness auto
termination
proof (relation "measure (\<lambda>(off, sz, d, got, out). sz - got)", goal_cases)
  case (2 off sz d got out x xa xb xc xd)
  then have "512 div 512 \<le> xc div 512" by (intro div_le_mono) simp
  then have "0 < xd" using 2 by simp
  then show ?case using 2(1) by simp
next
  case (3 off sz d got out x xa xb xc)
  have "unat (x mod 512) < 512" using unat_mod [of x 512] by simp
  then show ?case using 3 by (auto simp: min_def)
qed simp

definition disk_bytes :: "disk \<Rightarrow> u32" where
  "disk_bytes d = ata_total_sectors d * 512"

definition sda_read :: "u32 \<Rightarrow> u32 \<Rightarrow> disk \<Rightarrow> u32 \<times> u8 list" where
  "sda_read off sz d =
     (if \<not> ata_present d then (0, [])
      else if off \<ge> disk_bytes d then (0, [])
      else let sz = (if off + sz > disk_bytes d then disk_bytes d - off else sz)
           in if sz = 0 then (0, [])
              else case sda_read_loop off (unat sz) d 0 [] of (got, bs) \<Rightarrow> (of_nat got, bs))"

function sda_write_loop :: "u32 \<Rightarrow> nat \<Rightarrow> u8 list \<Rightarrow> nat \<Rightarrow> disk \<Rightarrow> nat \<times> disk" where
  "sda_write_loop off sz buf put d =
     (if put < sz
      then let pos = off + of_nat put; lba = pos div 512; soff = unat (pos mod 512); want = sz - put
           in if soff = 0 \<and> want \<ge> 512
              then let nsec = min (want div 512) 255
                   in case ata_write_sectors lba (of_nat nsec) (slice put (nsec * 512) buf) d of
                        (rc, d) \<Rightarrow> if rc \<noteq> 0 then (put, d) else sda_write_loop off sz buf (put + nsec * 512) d
              else case ata_read_sectors lba 1 d of
                     (rc, bs) \<Rightarrow>
                       if rc \<noteq> 0 then (put, d)
                       else let chunk = min (512 - soff) want
                            in case ata_write_sectors lba 1 (splice soff (slice put chunk buf) bs) d of
                                 (rc, d) \<Rightarrow> if rc \<noteq> 0 then (put, d) else sda_write_loop off sz buf (put + chunk) d
      else (put, d))"
  by pat_completeness auto
termination
proof (relation "measure (\<lambda>(off, sz, buf, put, d). sz - put)", goal_cases)
  case (2 off sz buf put d x xa xb xc xd)
  then have "512 div 512 \<le> xc div 512" by (intro div_le_mono) simp
  then have "0 < xd" using 2 by simp
  then show ?case using 2(1) by simp
next
  case (3 off sz buf put d x xa xb xc)
  have "unat (x mod 512) < 512" using unat_mod [of x 512] by simp
  then show ?case using 3 by (auto simp: min_def)
qed simp

declare sda_read_loop.simps [simp del] sda_write_loop.simps [simp del]

definition sda_write :: "u32 \<Rightarrow> u32 \<Rightarrow> u8 list \<Rightarrow> disk \<Rightarrow> u32 \<times> disk" where
  "sda_write off sz buf d =
     (if \<not> ata_present d then (0, d)
      else if off \<ge> disk_bytes d then (0, d)
      else let sz = (if off + sz > disk_bytes d then disk_bytes d - off else sz)
           in if sz = 0 then (0, d)
              else case sda_write_loop off (unat sz) buf 0 d of (put, d) \<Rightarrow> (of_nat put, d))"

section \<open>The nodes\<close>

definition make_dev :: "nat \<Rightarrow> string \<Rightarrow> u32 \<Rightarrow> u32 \<Rightarrow> fs \<Rightarrow> nat option \<times> fs" where
  "make_dev dir name sz perms s =
     (case ramfs_create_node (Some dir) name VFS_DEVICE s of
        (i, s) \<Rightarrow> (i, upd_node i (\<lambda>n. n\<lparr>n_ops := Device_ops, n_size := sz, n_permissions := perms,
                                      n_owner_uid := 0, n_owner_gid := 0\<rparr>) s))"

text \<open>Permissions are octal 666, 666, 644 and 640.\<close>

definition devfs_init :: "fs \<Rightarrow> fs" where
  "devfs_init s =
     (case vfs_get_root s of
        (root, s) \<Rightarrow>
          (case Option.bind root (\<lambda>r. vfs_finddir r ''dev'' s) of
             None \<Rightarrow> s
           | Some dev \<Rightarrow>
               let s = snd (make_dev dev ''zero'' 0 0x1B6 s);
                   s = snd (make_dev dev ''null'' 0 0x1B6 s);
                   s = snd (make_dev dev ''random'' 0 0x1A4 s)
               in if ata_present (fs_disk s)
                  then snd (make_dev dev ''sda'' (disk_bytes (fs_disk s)) 0x1A0 s) else s))"

section \<open>The disk as an array of bytes\<close>

definition disk_image :: "disk \<Rightarrow> u8 list" where
  "disk_image d = read_run (dk_sector d) 0 (unat (dk_total d))"

lemma length_disk_image: "device_ok d \<Longrightarrow> length (disk_image d) = unat (dk_total d) * 512"
  unfolding disk_image_def by (rule length_read_run) (simp add: device_ok_def)

lemma image_split:
  "a + n \<le> unat (dk_total d) \<Longrightarrow>
     disk_image d = read_run (dk_sector d) 0 a @ read_run (dk_sector d) a n @ read_run (dk_sector d) (a + n) (unat (dk_total d) - (a + n))"
  using read_run_append [of "dk_sector d" 0 "a + n" "unat (dk_total d) - (a + n)"] read_run_append [of "dk_sector d" 0 a n]
  by (simp add: disk_image_def)

lemma run_slice:
  assumes "device_ok d" "a + n \<le> unat (dk_total d)"
  shows "read_run (dk_sector d) a n = slice (a * 512) (n * 512) (disk_image d)"
proof -
  have l: "length (read_run (dk_sector d) x m) = m * 512" for x m
    by (rule length_read_run) (use assms(1) in \<open>simp add: device_ok_def\<close>)
  show ?thesis unfolding image_split [OF assms(2)] by (simp add: slice_def l)
qed

lemma image_write:
  assumes "device_ok d" "a + n \<le> unat (dk_total d)" "length buf = n * 512"
    and "dk_total d' = dk_total d" "dk_sector d' = write_run a n buf (dk_sector d)"
  shows "disk_image d' = splice (a * 512) buf (disk_image d)"
proof -
  have l: "length (read_run (dk_sector d) x m) = m * 512" for x m
    by (rule length_read_run) (use assms(1) in \<open>simp add: device_ok_def\<close>)
  have "a + n \<le> unat (dk_total d')" using assms(2,4) by simp
  from image_split [OF this] have "disk_image d' = read_run (dk_sector d) 0 a @ buf @ read_run (dk_sector d) (a + n) (unat (dk_total d) - (a + n))"
    unfolding assms(4,5) by (simp add: read_write_run [OF assms(3)] read_write_run_other)
  then show ?thesis unfolding image_split [OF assms(2)] by (simp add: splice_def l assms(3) add_mult_distrib)
qed

text \<open>A byte position inside the disk.\<close>

lemma sda_position:
  fixes off :: u32
  assumes "unat off + got < 4294967296"
  shows "unat ((off + of_nat got) div 512) = (unat off + got) div 512" "unat ((off + of_nat got) mod 512) = (unat off + got) mod 512"
  using assms unat_plus_u32 [of off "of_nat got"] by (simp_all add: unat_div unat_mod)

lemma sda_sectors:
  assumes "device_ok d" "p + want \<le> unat (dk_total d) * 512" "p mod 512 = 0" "512 \<le> want"
  defines "n \<equiv> min (want div 512) 255"
  shows "0 < n" "n * 512 \<le> want" "unat (of_nat n :: u8) = n" "p div 512 + n \<le> unat (dk_total d)" "p div 512 * 512 = p"
proof -
  have "512 div 512 \<le> want div 512" using assms(4) by (intro div_le_mono)
  then show "0 < n" by (simp add: n_def)
  have "want div 512 * 512 \<le> want" by simp
  moreover have "n \<le> want div 512" by (simp add: n_def)
  then have "n * 512 \<le> want div 512 * 512" by (rule mult_le_mono1)
  ultimately show w: "n * 512 \<le> want" by linarith
  have "n < 256" by (simp add: n_def)
  then show "unat (of_nat n :: u8) = n" by (simp add: unat_of_nat)
  show p: "p div 512 * 512 = p" using assms(3) by (simp add: mult.commute minus_mod_eq_mult_div [symmetric])
  have "(p div 512 + n) * 512 \<le> unat (dk_total d) * 512" using w p assms(2) by (simp add: add_mult_distrib)
  then show "p div 512 + n \<le> unat (dk_total d)" by simp
qed

lemma sda_read_loop_ok:
  assumes ok: "device_ok d" and fit: "unat off + sz \<le> unat (dk_total d) * 512" "unat off + sz < 4294967296" and got: "got \<le> sz"
  shows "sda_read_loop off sz d got out = (sz, out @ slice (unat off + got) (sz - got) (disk_image d))"
  using got
proof (induction "sz - got" arbitrary: got out rule: less_induct)
  case less
  let ?p = "unat off + got"
  show ?case
  proof (cases "got < sz")
    case False
    then show ?thesis using less(2) by (subst sda_read_loop.simps) (simp add: slice_def)
  next
    case True
    have p: "?p < 4294967296" "?p + (sz - got) \<le> unat (dk_total d) * 512" using True fit by simp_all
    note pos = sda_position [OF p(1)]
    have step: "sda_read_loop off sz d (got + n) (out @ slice ?p n (disk_image d)) = (sz, out @ slice ?p (sz - got) (disk_image d))"
      if "0 < n" "got + n \<le> sz" for n
    proof -
      have "sda_read_loop off sz d (got + n) (out @ slice ?p n (disk_image d))
          = (sz, (out @ slice ?p n (disk_image d)) @ slice (unat off + (got + n)) (sz - (got + n)) (disk_image d))"
        by (rule less(1)) (use that in auto)
      then show ?thesis using slice_append_slice [of ?p n "disk_image d" "sz - (got + n)"] that by (simp add: add.assoc)
    qed
    show ?thesis
    proof (cases "?p mod 512 = 0 \<and> 512 \<le> sz - got")
      case fast: True
      define n where "n = min ((sz - got) div 512) 255"
      note s = sda_sectors [OF ok p(2), folded n_def]
      have rd: "ata_read_sectors ((off + of_nat got) div 512) (of_nat n) d = (0, slice ?p (n * 512) (disk_image d))"
        using ata.rd_ok [OF ok, of "of_nat n" "(off + of_nat got) div 512"] s fast pos run_slice [OF ok s(4)]
        by (simp add: word_less_nat_alt)
      show ?thesis using step [of "n * 512"] s fast True pos rd
        by (subst sda_read_loop.simps) (simp add: Let_def n_def [symmetric])
    next
      case slow: False
      define n where "n = min (512 - ?p mod 512) (sz - got)"
      have n: "0 < n" "got + n \<le> sz" "?p mod 512 + n \<le> 512" using True by (auto simp: n_def min_def)
      have "?p < unat (dk_total d) * 512" using p(2) True by simp
      then have i: "?p div 512 + 1 \<le> unat (dk_total d)" by (simp add: less_mult_imp_div_less Suc_leI)
      have rd: "ata_read_sectors ((off + of_nat got) div 512) 1 d = (0, slice (?p div 512 * 512) 512 (disk_image d))"
        using ata.rd_ok [OF ok, of 1 "(off + of_nat got) div 512"] i pos run_slice [OF ok i] by simp
      have "slice (?p mod 512) n (slice (?p div 512 * 512) 512 (disk_image d)) = slice ?p n (disk_image d)"
        using n(3) by (simp add: slice_def drop_take min_def add.commute)
      then show ?thesis using step [OF n(1,2)] slow True pos rd n_def
        by (subst sda_read_loop.simps) (auto simp: Let_def)
    qed
  qed
qed

text \<open>Writing: one transfer, and the loop.\<close>

lemma sda_transfer:
  assumes "device_ok d" "unat lba + unat count \<le> unat (dk_total d)" "0 < count" "length buf = unat count * 512"
  shows "\<exists>d'. ata_write_sectors lba count buf d = (0, d') \<and> device_ok d' \<and> dk_total d' = dk_total d
    \<and> disk_image d' = splice (unat lba * 512) buf (disk_image d)"
proof -
  from ata.wr_ok [OF assms(1,3,2,4)] obtain d' where
    d: "ata_write_sectors lba count buf d = (0, d')" "device_ok d'" "unat (dk_total d') = unat (dk_total d)"
      "dk_sector d' = write_run (unat lba) (unat count) buf (dk_sector d)" by blast
  then have "dk_total d' = dk_total d" by (simp add: word_unat_eq_iff)
  with d image_write [OF assms(1,2,4) this d(4)] show ?thesis by blast
qed

lemma slice_slice: "a + m \<le> n \<Longrightarrow> slice a m (slice off n xs) = slice (off + a) m xs"
  by (simp add: slice_def drop_take min_def add.commute)

lemma sda_write_loop_ok:
  assumes "unat off + sz < 4294967296" "sz \<le> length buf"
    and "device_ok d" "unat off + sz \<le> unat (dk_total d) * 512" "put \<le> sz"
  shows "\<exists>d'. sda_write_loop off sz buf put d = (sz, d') \<and> device_ok d' \<and> dk_total d' = dk_total d
    \<and> disk_image d' = splice (unat off + put) (slice put (sz - put) buf) (disk_image d)"
  using assms(3-5)
proof (induction "sz - put" arbitrary: put d rule: less_induct)
  case less
  let ?p = "unat off + put"
  show ?case
  proof (cases "put < sz")
    case False
    then show ?thesis using less(2,4) by (subst sda_write_loop.simps) (simp add: slice_def splice_def)
  next
    case True
    have p: "?p < 4294967296" "?p + (sz - put) \<le> unat (dk_total d) * 512" using True assms(1) less(3) by simp_all
    note pos = sda_position [OF p(1)]
    have len: "length (disk_image d) = unat (dk_total d) * 512" by (rule length_disk_image [OF less(2)])
    have step: "\<exists>d'. sda_write_loop off sz buf (put + n) d1 = (sz, d') \<and> device_ok d' \<and> dk_total d' = dk_total d
        \<and> disk_image d' = splice ?p (slice put (sz - put) buf) (disk_image d)"
      if n: "0 < n" "put + n \<le> sz"
        and d1: "device_ok d1" "dk_total d1 = dk_total d" "disk_image d1 = splice ?p (slice put n buf) (disk_image d)" for n d1
    proof -
      have "\<exists>d'. sda_write_loop off sz buf (put + n) d1 = (sz, d') \<and> device_ok d' \<and> dk_total d' = dk_total d1
          \<and> disk_image d' = splice (unat off + (put + n)) (slice (put + n) (sz - (put + n)) buf) (disk_image d1)"
        by (rule less(1)) (use n d1 less(3) in auto)
      moreover have ln: "length (slice put n buf) = n" using n assms(2) by simp
      then have "splice (?p + length (slice put n buf)) (slice (put + n) (sz - (put + n)) buf) (splice ?p (slice put n buf) (disk_image d))
          = splice ?p (slice put n buf @ slice (put + n) (sz - (put + n)) buf) (disk_image d)"
        by (intro splice_splice_adjacent) (use n assms(2) p(2) len in simp)
      moreover have "slice put n buf @ slice (put + n) (sz - (put + n)) buf = slice put (sz - put) buf"
        using n by (simp add: slice_append_slice)
      ultimately show ?thesis unfolding d1 using ln by (simp add: add.assoc)
    qed
    show ?thesis
    proof (cases "?p mod 512 = 0 \<and> 512 \<le> sz - put")
      case fast: True
      define n where "n = min ((sz - put) div 512) 255"
      note s = sda_sectors [OF less(2) p(2), folded n_def]
      have "length (slice put (n * 512) buf) = n * 512" using s(2) fast assms(2) by simp
      with sda_transfer [OF less(2), of "(off + of_nat put) div 512" "of_nat n" "slice put (n * 512) buf"] s fast pos
      obtain d1 where d1: "ata_write_sectors ((off + of_nat put) div 512) (of_nat n) (slice put (n * 512) buf) d = (0, d1)"
        "device_ok d1" "dk_total d1 = dk_total d" "disk_image d1 = splice ?p (slice put (n * 512) buf) (disk_image d)"
        by (auto simp: word_less_nat_alt)
      have "sda_write_loop off sz buf put d = sda_write_loop off sz buf (put + n * 512) d1"
        using fast True pos d1(1) by (subst sda_write_loop.simps) (simp add: Let_def n_def [symmetric])
      then show ?thesis using step [OF _ _ d1(2-4)] s fast True by simp
    next
      case slow: False
      define n where "n = min (512 - ?p mod 512) (sz - put)"
      have n: "0 < n" "put + n \<le> sz" "?p mod 512 + n \<le> 512" using True by (auto simp: n_def min_def)
      have "?p < unat (dk_total d) * 512" using p(2) True by simp
      then have i: "?p div 512 + 1 \<le> unat (dk_total d)" by (simp add: less_mult_imp_div_less Suc_leI)
      then have "(?p div 512 + 1) * 512 \<le> length (disk_image d)" unfolding len by (rule mult_le_mono1)
      then have room: "?p div 512 * 512 + 512 \<le> length (disk_image d)" by simp
      let ?old = "slice (?p div 512 * 512) 512 (disk_image d)" and ?new = "slice put n buf"
      have rd: "ata_read_sectors ((off + of_nat put) div 512) 1 d = (0, ?old)"
        using ata.rd_ok [OF less(2), of 1 "(off + of_nat put) div 512"] i pos run_slice [OF less(2) i] by simp
      have ln: "length ?new = n" using n(2) assms(2) by simp
      have "length (splice (?p mod 512) ?new ?old) = 512" using n(3) ln room by simp
      with sda_transfer [OF less(2), of "(off + of_nat put) div 512" 1 "splice (?p mod 512) ?new ?old"] i pos
      obtain d1 where d1: "ata_write_sectors ((off + of_nat put) div 512) 1 (splice (?p mod 512) ?new ?old) d = (0, d1)"
        "device_ok d1" "dk_total d1 = dk_total d"
        "disk_image d1 = splice (?p div 512 * 512) (splice (?p mod 512) ?new ?old) (disk_image d)"
        by auto
      have "disk_image d1 = splice (?p div 512 * 512 + ?p mod 512) ?new (disk_image d)"
        unfolding d1(4) by (rule splice_splice_nested) (use n(3) ln room in simp_all)
      then have im: "disk_image d1 = splice ?p ?new (disk_image d)" by simp
      have "sda_write_loop off sz buf put d = sda_write_loop off sz buf (put + n) d1"
        using slow True pos rd d1(1) n_def by (subst sda_write_loop.simps) (auto simp: Let_def)
      then show ?thesis using step [OF n(1,2) d1(2,3) im] by simp
    qed
  qed
qed

text \<open>
  C12: \<^verbatim>\<open>/dev/sda\<close> refines an array of bytes. On a disk below 4 GiB and for a range that does not wrap, a read
  stores exactly the bytes of the range that lie on the disk and counts them, and a write replaces exactly those
  bytes, whatever the alignment and the length: partial sectors keep their other bytes.
\<close>

theorem sda_refines_bytes:
  assumes "device_ok d" "unat (dk_total d) * 512 < 0x100000000" "unat off + unat sz < 0x100000000" "unat sz \<le> length buf"
  defines "n \<equiv> min (unat sz) (unat (dk_total d) * 512 - unat off)"
  shows "sda_read off sz d = (of_nat n, slice (unat off) n (disk_image d))
    \<and> (\<exists>d'. sda_write off sz buf d = (of_nat n, d') \<and> device_ok d' \<and> dk_total d' = dk_total d
          \<and> disk_image d' = splice (unat off) (take n buf) (disk_image d))"
proof -
  let ?N = "unat (dk_total d) * 512"
  have bytes: "unat (disk_bytes d) = ?N" using assms(2) by (simp add: disk_bytes_def ata_total_sectors_def unat_word_ariths)
  have present: "ata_present d" using assms(1) by (auto simp: ata_present_def device_ok_def)
  show ?thesis
  proof (cases "unat off < ?N")
    case False
    then have "disk_bytes d \<le> off" "n = 0" using bytes by (simp_all add: word_le_nat_alt n_def)
    then show ?thesis using assms(1) by (simp add: sda_read_def sda_write_def slice_def splice_def)
  next
    case True
    define m where "m = (if off + sz > disk_bytes d then disk_bytes d - off else sz)"
    have "unat (off + sz) = unat off + unat sz" using assms(3) by (simp add: unat_plus_u32)
    then have m: "unat m = n" using True bytes
      by (auto simp: m_def n_def word_less_nat_alt unat_minus_u32 word_le_nat_alt)
    have lt: "\<not> disk_bytes d \<le> off" using True bytes by (simp add: word_le_nat_alt)
    have fit: "unat off + n \<le> ?N" "unat off + n < 4294967296" "n \<le> length buf"
      using True assms(2,4) by (auto simp: n_def)
    have "sda_read off sz d = (if m = 0 then (0, []) else case sda_read_loop off n d 0 [] of (got, bs) \<Rightarrow> (of_nat got, bs))"
      by (simp only: sda_read_def Let_def m_def [symmetric] m present lt if_False not_True_eq_False)
    also have "\<dots> = (of_nat n, slice (unat off) n (disk_image d))"
      using sda_read_loop_ok [OF assms(1) fit(1,2), of 0 "[]"] m by (auto simp: slice_def)
    finally have rd: "sda_read off sz d = (of_nat n, slice (unat off) n (disk_image d))" .
    have wr: "sda_write off sz buf d = (if m = 0 then (0, d) else case sda_write_loop off n buf 0 d of (put, d) \<Rightarrow> (of_nat put, d))"
      by (simp only: sda_write_def Let_def m_def [symmetric] m present lt if_False not_True_eq_False)
    from sda_write_loop_ok [OF fit(2,3) assms(1) fit(1), of 0] obtain d' where
      "sda_write_loop off n buf 0 d = (n, d')" "device_ok d'" "dk_total d' = dk_total d"
      "disk_image d' = splice (unat off) (take n buf) (disk_image d)" by (auto simp: slice_def)
    moreover have "n = 0 \<Longrightarrow> splice (unat off) (take n buf) (disk_image d) = disk_image d" by (simp add: splice_def)
    ultimately have "\<exists>d'. sda_write off sz buf d = (of_nat n, d') \<and> device_ok d' \<and> dk_total d' = dk_total d
        \<and> disk_image d' = splice (unat off) (take n buf) (disk_image d)"
      unfolding wr using m assms(1) by (cases "m = 0") auto
    with rd show ?thesis by blast
  qed
qed

theorem sda_refines_bytes_witness:
  "\<exists>d'. sda_write 510 4 [1, 2, 3, 4] example_disk = (4, d') \<and> disk_image d' = splice 510 [1, 2, 3, 4] (disk_image example_disk)"
proof -
  have "unat (dk_total example_disk) = 200000" by (simp add: example_disk_def)
  then show ?thesis using sda_refines_bytes [OF example_disk(1), of 510 4 "[1, 2, 3, 4]"] by auto
qed

end
