(* ===== verification/Fat16.thy ===== *)
theory Fat16
  imports Ramfs_Data CMemory
begin

text \<open>
  The FAT16 driver, \<^verbatim>\<open>fs/fat16.c\<close>: the table and its chains, files, directories, and mounting. The driver's static
  variables are a record beside the disk. \<open>junk\<close> is what an unset sector buffer contains; a chain that never ends and a
  division by a cluster size of zero are \<open>None\<close>. The allocations of the driver, which it does not check, are taken to
  succeed. Nodes are values: the pointer to the parent is left out, and a node keeps its first cluster in the group.
\<close>

section \<open>State\<close>

record fat_bpb =
  bytes_per_sector :: u16
  sectors_per_cluster :: u8
  reserved_sectors :: u16
  fat_count :: u8
  root_dir_entries :: u16
  total_sectors_16 :: u16
  sectors_per_fat_16 :: u16
  total_sectors_32 :: u32

record fat16 =
  partition_lba :: u32
  bpb :: fat_bpb
  fat_start_lba :: u32
  root_dir_lba :: u32
  data_start_lba :: u32
  root_dir_sectors :: u32
  total_clusters :: u32
  fat16_mounted :: bool

datatype fat_node =
  Fat_node (f_name: "u8 list") (f_type: u32) (f_perms: u32) (f_size: u32) (f_gid: u32) (f_children: "fat_node list")

abbreviation FAT_ATTR_READ_ONLY :: u8 where "FAT_ATTR_READ_ONLY \<equiv> 1"
abbreviation FAT_ATTR_VOLUME_ID :: u8 where "FAT_ATTR_VOLUME_ID \<equiv> 8"
abbreviation FAT_ATTR_DIRECTORY :: u8 where "FAT_ATTR_DIRECTORY \<equiv> 0x10"
abbreviation FAT_ATTR_LFN :: u8 where "FAT_ATTR_LFN \<equiv> 0x0F"

definition get16 :: "u8 list \<Rightarrow> nat \<Rightarrow> u16" where
  "get16 bs i = ucast (bs ! i) OR push_bit 8 (ucast (bs ! (i + 1)))"

definition put16 :: "u8 list \<Rightarrow> nat \<Rightarrow> u16 \<Rightarrow> u8 list" where
  "put16 bs i v = splice i [ucast v, ucast (drop_bit 8 v)] bs"

definition get32 :: "u8 list \<Rightarrow> nat \<Rightarrow> u32" where
  "get32 bs i = le32 (bs ! i) (bs ! (i + 1)) (bs ! (i + 2)) (bs ! (i + 3))"

section \<open>Sectors and the table\<close>

text \<open>The sector buffer keeps its bytes where the read stored none.\<close>

definition fat16_read_sector :: "fat16 \<Rightarrow> u32 \<Rightarrow> u8 list \<Rightarrow> disk \<Rightarrow> bool \<times> u8 list" where
  "fat16_read_sector f lba buf d =
     (case ata_read_sectors (partition_lba f + lba) 1 d of (rc, bs) \<Rightarrow> (rc = 0, bs @ drop (length bs) buf))"

definition fat16_write_sector :: "fat16 \<Rightarrow> u32 \<Rightarrow> u8 list \<Rightarrow> disk \<Rightarrow> bool \<times> disk" where
  "fat16_write_sector f lba buf d =
     (case ata_write_sectors (partition_lba f + lba) 1 buf d of (rc, d) \<Rightarrow> (rc = 0, d))"

definition fat_sector :: "fat16 \<Rightarrow> u16 \<Rightarrow> u32" where
  "fat_sector f cluster = fat_start_lba f + (ucast cluster * 2) div 512"

definition fat_index :: "u16 \<Rightarrow> nat" where
  "fat_index cluster = (unat cluster * 2) mod 512"

definition fat16_get_fat_entry :: "fat16 \<Rightarrow> u16 \<Rightarrow> disk \<Rightarrow> u16" where
  "fat16_get_fat_entry f cluster d =
     (case fat16_read_sector f (fat_sector f cluster) [] d of
        (ok, buf) \<Rightarrow> if \<not> ok then 0xFFFF else get16 buf (fat_index cluster))"

text \<open>Every copy of the table is read, changed and written back, until one of them fails.\<close>

fun set_copies :: "fat16 \<Rightarrow> nat list \<Rightarrow> u16 \<Rightarrow> u16 \<Rightarrow> disk \<Rightarrow> bool \<times> disk" where
  "set_copies f [] cluster val d = (True, d)"
| "set_copies f (copy # cs) cluster val d =
     (let sector = fat_sector f cluster + of_nat copy * ucast (sectors_per_fat_16 (bpb f))
      in case fat16_read_sector f sector [] d of
           (ok, buf) \<Rightarrow>
             if \<not> ok then (False, d)
             else case fat16_write_sector f sector (put16 buf (fat_index cluster) val) d of
                    (ok, d) \<Rightarrow> if \<not> ok then (False, d) else set_copies f cs cluster val d)"

definition fat16_set_fat_entry :: "fat16 \<Rightarrow> u16 \<Rightarrow> u16 \<Rightarrow> disk \<Rightarrow> bool \<times> disk" where
  "fat16_set_fat_entry f cluster val d = set_copies f [0..<unat (fat_count (bpb f))] cluster val d"

text \<open>The first free cluster, marked as the end of a chain; 0 when there is none.\<close>

definition fat16_alloc_cluster :: "fat16 \<Rightarrow> disk \<Rightarrow> u16 \<times> disk" where
  "fat16_alloc_cluster f d =
     (case first_index (\<lambda>i. fat16_get_fat_entry f (of_nat i) d = 0) 2 (unat (ucast (total_clusters f + 2) :: u16)) of
        Some i \<Rightarrow> (of_nat i, snd (fat16_set_fat_entry f (of_nat i) 0xFFFF d))
      | None \<Rightarrow> (0, d))"

partial_function (option) fat16_free_cluster_chain :: "fat16 \<Rightarrow> u16 \<Rightarrow> disk \<Rightarrow> disk option" where
  "fat16_free_cluster_chain f c d =
     (if c \<ge> 2 \<and> c < 0xFFF8
      then fat16_free_cluster_chain f (fat16_get_fat_entry f c d) (snd (fat16_set_fat_entry f c 0 d))
      else Some d)"

definition fat16_cluster_to_lba :: "fat16 \<Rightarrow> u16 \<Rightarrow> u32" where
  "fat16_cluster_to_lba f cluster = data_start_lba f + (ucast cluster - 2) * ucast (sectors_per_cluster (bpb f))"

section \<open>Names\<close>

definition fat_lower :: "u8 \<Rightarrow> u8" where
  "fat_lower b = (if 0x41 \<le> b \<and> b \<le> 0x5A then b + 32 else b)"

definition fat_upper :: "u8 \<Rightarrow> u8" where
  "fat_upper b = (if 0x61 \<le> b \<and> b \<le> 0x7A then b - 32 else b)"

text \<open>The formatted name is read as a C string, so a zero byte in the entry ends it.\<close>

definition fat16_format_name :: "u8 list \<Rightarrow> u8 list" where
  "fat16_format_name nm =
     takeWhile (\<lambda>b. b \<noteq> 0)
       (map fat_lower (takeWhile (\<lambda>b. b \<noteq> 0x20) (take 8 nm))
        @ (if nm ! 8 \<noteq> 0x20 then 0x2E # map fat_lower (takeWhile (\<lambda>b. b \<noteq> 0x20) (slice 8 3 nm)) else []))"

text \<open>A name is a string of bytes without its terminator.\<close>

definition fat16_to_83 :: "u8 list \<Rightarrow> u8 list" where
  "fat16_to_83 name =
     (let base = take 8 (takeWhile (\<lambda>b. b \<noteq> 0x2E) name);
          rest = drop (length base) name;
          ext = (if rest \<noteq> [] \<and> hd rest = 0x2E then take 3 (tl rest) else [])
      in map fat_upper base @ replicate (8 - length base) 0x20 @ map fat_upper ext @ replicate (3 - length ext) 0x20)"

section \<open>Reading a file\<close>

text \<open>
  The sectors of one cluster, until the range is done or a sector fails: the number of bytes and the bytes. Here
  and below \<open>byte_in\<close>, a position inside a sector, is less than 512 in every call.
\<close>

function read_cluster :: "fat16 \<Rightarrow> u32 \<Rightarrow> nat \<Rightarrow> nat \<Rightarrow> nat \<Rightarrow> u8 list \<Rightarrow> disk \<Rightarrow> nat \<times> u8 list" where
  "read_cluster f sec byte_in to_read cnt out d =
     (if cnt < to_read \<and> byte_in < 512
      then case fat16_read_sector f sec [] d of
             (ok, tmp) \<Rightarrow>
               if \<not> ok then (cnt, out)
               else let n = min (512 - byte_in) (to_read - cnt)
                    in read_cluster f (sec + 1) 0 to_read (cnt + n) (out @ slice byte_in n tmp) d
      else (cnt, out))"
  by pat_completeness auto
termination by (relation "measure (\<lambda>(f, sec, byte_in, to_read, cnt, out, d). to_read - cnt)") auto

declare read_cluster.simps [simp del]

fun skip_clusters :: "nat \<Rightarrow> fat16 \<Rightarrow> u16 \<Rightarrow> disk \<Rightarrow> u16 option" where
  "skip_clusters 0 f c d = Some c"
| "skip_clusters (Suc n) f c d =
     (let c = fat16_get_fat_entry f c d in if c \<ge> 0xFFF8 then None else skip_clusters n f c d)"

partial_function (option) read_chain :: "fat16 \<Rightarrow> nat \<Rightarrow> nat \<Rightarrow> u16 \<Rightarrow> nat \<Rightarrow> nat \<Rightarrow> u8 list \<Rightarrow> disk \<Rightarrow> (nat \<times> u8 list) option" where
  "read_chain f csize sz c off_in got out d =
     (if got < sz \<and> c \<ge> 2 \<and> c < 0xFFF8
      then let to_read = min (csize - off_in) (sz - got)
           in case read_cluster f (fat16_cluster_to_lba f c + of_nat (off_in div 512)) (off_in mod 512) to_read 0 [] d of
                (cnt, bs) \<Rightarrow> read_chain f csize sz (fat16_get_fat_entry f c d) 0 (got + cnt) (out @ bs) d
      else Some (got, out))"

definition fat16_node_read :: "fat16 \<Rightarrow> fat_node \<Rightarrow> u32 \<Rightarrow> u32 \<Rightarrow> disk \<Rightarrow> (u32 \<times> u8 list) option" where
  "fat16_node_read f node off sz d =
     (if off \<ge> f_size node then Some (0, [])
      else let sz = (if off + sz > f_size node then f_size node - off else sz);
               cluster = ucast (f_gid node);
               csize = unat (sectors_per_cluster (bpb f)) * 512
           in if cluster < 2 then Some (0, [])
              else if csize = 0 then None
              else case skip_clusters (unat off div csize) f cluster d of
                     None \<Rightarrow> Some (0, [])
                   | Some c \<Rightarrow> map_option (\<lambda>(got, out). (of_nat got, out)) (read_chain f csize (unat sz) c (unat off mod csize) 0 [] d))"

section \<open>Writing a file\<close>

text \<open>The next cluster of a chain, which grows when it ends here; \<open>None\<close>: no cluster is free.\<close>

definition next_cluster :: "fat16 \<Rightarrow> u16 \<Rightarrow> disk \<Rightarrow> u16 option \<times> disk" where
  "next_cluster f c d =
     (let nx = fat16_get_fat_entry f c d
      in if nx \<ge> 0xFFF8
         then case fat16_alloc_cluster f d of
                (new, d) \<Rightarrow> if new = 0 then (None, d) else (Some new, snd (fat16_set_fat_entry f c new d))
         else (Some nx, d))"

fun walk_clusters :: "nat \<Rightarrow> fat16 \<Rightarrow> u16 \<Rightarrow> disk \<Rightarrow> u16 option \<times> disk" where
  "walk_clusters 0 f c d = (Some c, d)"
| "walk_clusters (Suc n) f c d =
     (case next_cluster f c d of (None, d) \<Rightarrow> (None, d) | (Some c, d) \<Rightarrow> walk_clusters n f c d)"

text \<open>Read, change and write back the sectors of one cluster; the number of bytes done.\<close>

function write_cluster :: "fat16 \<Rightarrow> u32 \<Rightarrow> nat \<Rightarrow> u8 list \<Rightarrow> nat \<Rightarrow> disk \<Rightarrow> nat \<times> disk" where
  "write_cluster f sec byte_in bs put d =
     (if put < length bs \<and> byte_in < 512
      then case fat16_read_sector f sec [] d of
             (ok, tmp) \<Rightarrow>
               if \<not> ok then (put, d)
               else let n = min (512 - byte_in) (length bs - put)
                    in case fat16_write_sector f sec (splice byte_in (slice put n bs) tmp) d of
                         (ok, d) \<Rightarrow> if \<not> ok then (put, d) else write_cluster f (sec + 1) 0 bs (put + n) d
      else (put, d))"
  by pat_completeness auto
termination by (relation "measure (\<lambda>(f, sec, byte_in, bs, put, d). length bs - put)") auto

declare write_cluster.simps [simp del]

partial_function (option) write_chain :: "fat16 \<Rightarrow> nat \<Rightarrow> u16 \<Rightarrow> nat \<Rightarrow> u8 list \<Rightarrow> nat \<Rightarrow> disk \<Rightarrow> (nat \<times> disk) option" where
  "write_chain f csize c off_in buf written d =
     (if written < length buf
      then let n = min (csize - off_in) (length buf - written)
           in case write_cluster f (fat16_cluster_to_lba f c + of_nat (off_in div 512)) (off_in mod 512) (slice written n buf) 0 d of
                (done, d) \<Rightarrow>
                  let written = written + done
                  in if written < length buf
                     then case next_cluster f c d of
                            (None, d) \<Rightarrow> Some (written, d)
                          | (Some c, d) \<Rightarrow> write_chain f csize c 0 buf written d
                     else Some (written, d)
      else Some (written, d))"

text \<open>The cluster size is a 16-bit integer here. The node comes back with its first cluster and its size.\<close>

definition set_gid :: "u32 \<Rightarrow> fat_node \<Rightarrow> fat_node" where
  "set_gid g n = Fat_node (f_name n) (f_type n) (f_perms n) (f_size n) g (f_children n)"

definition set_size :: "u32 \<Rightarrow> fat_node \<Rightarrow> fat_node" where
  "set_size sz n = Fat_node (f_name n) (f_type n) (f_perms n) sz (f_gid n) (f_children n)"

definition fat16_node_write :: "fat16 \<Rightarrow> fat_node \<Rightarrow> u32 \<Rightarrow> u8 list \<Rightarrow> disk \<Rightarrow> ((u32 \<times> fat_node) \<times> disk) option" where
  "fat16_node_write f node off buf d =
     (if \<not> fat16_mounted f \<or> buf = [] then Some ((0, node), d)
      else let csize = unat (ucast (sectors_per_cluster (bpb f)) * 512 :: u16);
               start = ucast (f_gid node) :: u16
           in case (if start < 2 then fat16_alloc_cluster f d else (start, d)) of
                (start', d) \<Rightarrow>
                  if start' = 0 then Some ((0, node), d)
                  else let node = (if start < 2 then set_gid (ucast start') node else node)
                       in if csize = 0 then None
                          else case walk_clusters (unat off div csize) f start' d of
                                 (None, d) \<Rightarrow> Some ((0, node), d)
                               | (Some c, d) \<Rightarrow>
                                   map_option
                                     (\<lambda>(written, d).
                                        ((of_nat written,
                                          if off + of_nat written > f_size node then set_size (off + of_nat written) node else node), d))
                                     (write_chain f csize c (unat off mod csize) buf 0 d))"

section \<open>Directories\<close>

definition entry_cluster :: "u8 list \<Rightarrow> u16" where
  "entry_cluster e = get16 e 26"

definition entry_node :: "u8 list \<Rightarrow> fat_node" where
  "entry_node e =
     (if e ! 11 AND FAT_ATTR_DIRECTORY \<noteq> 0
      then Fat_node (fat16_format_name (take 11 e)) VFS_DIRECTORY 0x1ED 0 (ucast (entry_cluster e)) []
      else Fat_node (fat16_format_name (take 11 e)) VFS_FILE (if e ! 11 AND FAT_ATTR_READ_ONLY \<noteq> 0 then 0x124 else 0x1A4)
             (get32 e 28) (ucast (entry_cluster e)) [])"

text \<open>The entries up to the first unused one, without deleted entries, long names and labels; at most 256.\<close>

definition shown_entry :: "u8 list \<Rightarrow> bool" where
  "shown_entry e \<longleftrightarrow> e ! 0 \<noteq> 0xE5 \<and> e ! 11 \<noteq> FAT_ATTR_LFN \<and> e ! 11 AND FAT_ATTR_VOLUME_ID = 0"

definition dir_children :: "u8 list list \<Rightarrow> fat_node list" where
  "dir_children es = take VFS_MAX_CHILDREN (map entry_node (filter shown_entry (takeWhile (\<lambda>e. e ! 0 \<noteq> 0) es)))"

text \<open>Sectors one after the other; a sector that fails leaves the buffer as it was.\<close>

fun read_sectors :: "fat16 \<Rightarrow> u32 list \<Rightarrow> u8 list \<Rightarrow> disk \<Rightarrow> u8 list list \<times> u8 list" where
  "read_sectors f [] tmp d = ([], tmp)"
| "read_sectors f (sec # ss) tmp d =
     (let tmp = snd (fat16_read_sector f sec tmp d)
      in case read_sectors f ss tmp d of (bs, t) \<Rightarrow> (tmp # bs, t))"

definition sector_entries :: "u8 list \<Rightarrow> u8 list list" where
  "sector_entries sec = map (\<lambda>e. slice (e * 32) 32 sec) [0..<16]"

text \<open>A subdirectory is read to the end of its chain, but only 2048 entries are kept.\<close>

partial_function (option) read_dir_chain :: "fat16 \<Rightarrow> u16 \<Rightarrow> u8 list \<Rightarrow> u8 list list \<Rightarrow> disk \<Rightarrow> u8 list list option" where
  "read_dir_chain f c tmp es d =
     (if c \<ge> 2 \<and> c < 0xFFF8
      then case read_sectors f (map (\<lambda>s. fat16_cluster_to_lba f c + of_nat s) [0..<unat (sectors_per_cluster (bpb f))]) tmp d of
             (secs, tmp) \<Rightarrow> read_dir_chain f (fat16_get_fat_entry f c d) tmp (take 2048 (es @ concat (map sector_entries secs))) d
      else Some es)"

definition fat16_read_dir :: "u8 list \<Rightarrow> fat16 \<Rightarrow> u16 \<Rightarrow> bool \<Rightarrow> disk \<Rightarrow> fat_node option" where
  "fat16_read_dir junk f start_cluster is_root d =
     map_option (\<lambda>es. Fat_node [] VFS_DIRECTORY 0x1ED 0 (ucast start_cluster) (dir_children es))
       (if is_root
        then case read_sectors f (map (\<lambda>i. root_dir_lba f + of_nat i) [0..<unat (root_dir_sectors f)]) junk d of
               (secs, _) \<Rightarrow> Some (take (unat (root_dir_entries (bpb f))) (concat (map sector_entries secs)))
        else read_dir_chain f start_cluster junk [] d)"

text \<open>A directory that has no children yet is read when its parent is listed.\<close>

definition fat16_vfs_readdir :: "u8 list \<Rightarrow> fat16 \<Rightarrow> fat_node \<Rightarrow> nat \<Rightarrow> disk \<Rightarrow> (fat_node option \<times> fat_node) option" where
  "fat16_vfs_readdir junk f node index d =
     (if index \<ge> length (f_children node) then Some (None, node)
      else let child = f_children node ! index
           in if f_type child = VFS_DIRECTORY \<and> f_children child = [] \<and> (f_name child = [] \<or> hd (f_name child) \<noteq> 0x2E)
              then map_option
                     (\<lambda>dir. let child = Fat_node (f_name child) (f_type child) (f_perms child) (f_size child) (f_gid child) (f_children dir)
                            in (Some child, Fat_node (f_name node) (f_type node) (f_perms node) (f_size node) (f_gid node)
                                              ((f_children node)[index := child])))
                     (fat16_read_dir junk f (ucast (f_gid child)) False d)
              else Some (Some child, node))"

section \<open>Entries of the root directory\<close>

definition new_entry :: "u8 list \<Rightarrow> u8 \<Rightarrow> u16 \<Rightarrow> u8 list" where
  "new_entry name attr cluster = put16 (fat16_to_83 name @ attr # replicate 20 0) 26 cluster"

definition free_slot :: "u8 list \<Rightarrow> nat option" where
  "free_slot sec = first_index (\<lambda>e. sec ! (e * 32) = 0 \<or> sec ! (e * 32) = 0xE5) 0 16"

fun place_entry :: "fat16 \<Rightarrow> nat list \<Rightarrow> u8 list \<Rightarrow> u8 list \<Rightarrow> disk \<Rightarrow> bool \<times> disk" where
  "place_entry f [] entry buf d = (False, d)"
| "place_entry f (i # is) entry buf d =
     (case fat16_read_sector f (root_dir_lba f + of_nat i) buf d of
        (ok, buf) \<Rightarrow>
          if \<not> ok then place_entry f is entry buf d
          else case free_slot buf of
                 None \<Rightarrow> place_entry f is entry buf d
               | Some e \<Rightarrow> (True, snd (fat16_write_sector f (root_dir_lba f + of_nat i) (splice (e * 32) entry buf) d)))"

definition fat16_create_root_entry :: "fat16 \<Rightarrow> u8 list \<Rightarrow> u8 \<Rightarrow> disk \<Rightarrow> u16 \<times> disk" where
  "fat16_create_root_entry f name attr d =
     (case fat16_alloc_cluster f d of
        (c, d) \<Rightarrow>
          if c = 0 then (0, d)
          else case place_entry f [0..<unat (root_dir_sectors f)] (new_entry name attr c) [] d of
                 (True, d) \<Rightarrow> (c, d)
               | (False, d) \<Rightarrow> (0, snd (fat16_set_fat_entry f c 0 d)))"

text \<open>
  The search in one sector ends at an unused entry (\<open>Inl False\<close>), finds the name (\<open>Inr e\<close>) or goes on
  (\<open>Inl True\<close>).
\<close>

fun find_entry :: "nat list \<Rightarrow> u8 list \<Rightarrow> u8 list \<Rightarrow> bool + nat" where
  "find_entry [] nm sec = Inl True"
| "find_entry (e # es) nm sec =
     (if sec ! (e * 32) = 0 then Inl False
      else if sec ! (e * 32) = 0xE5 then find_entry es nm sec
      else if slice (e * 32) 11 sec = nm then Inr e
      else find_entry es nm sec)"

fun remove_entry :: "fat16 \<Rightarrow> nat list \<Rightarrow> u8 list \<Rightarrow> u8 list \<Rightarrow> disk \<Rightarrow> (bool \<times> disk) option" where
  "remove_entry f [] nm buf d = Some (False, d)"
| "remove_entry f (i # is) nm buf d =
     (case fat16_read_sector f (root_dir_lba f + of_nat i) buf d of
        (ok, buf) \<Rightarrow>
          if \<not> ok then remove_entry f is nm buf d
          else case find_entry [0..<16] nm buf of
                 Inl False \<Rightarrow> Some (False, d)
               | Inl True \<Rightarrow> remove_entry f is nm buf d
               | Inr e \<Rightarrow>
                   map_option (\<lambda>d. (True, snd (fat16_write_sector f (root_dir_lba f + of_nat i) (buf[e * 32 := 0xE5]) d)))
                     (fat16_free_cluster_chain f (get16 buf (e * 32 + 26)) d))"

definition fat16_delete_root_entry :: "fat16 \<Rightarrow> u8 list \<Rightarrow> disk \<Rightarrow> (bool \<times> disk) option" where
  "fat16_delete_root_entry f name d = remove_entry f [0..<unat (root_dir_sectors f)] (fat16_to_83 name) [] d"

section \<open>Mounting\<close>

definition parse_bpb :: "u8 list \<Rightarrow> fat_bpb" where
  "parse_bpb bs =
     \<lparr>bytes_per_sector = get16 bs 11, sectors_per_cluster = bs ! 13, reserved_sectors = get16 bs 14, fat_count = bs ! 16,
      root_dir_entries = get16 bs 17, total_sectors_16 = get16 bs 19, sectors_per_fat_16 = get16 bs 22,
      total_sectors_32 = get32 bs 32\<rparr>"

definition find_partition :: "u8 list \<Rightarrow> u32 option" where
  "find_partition mbr =
     (if get16 mbr 510 = 0xAA55
      then map_option (\<lambda>i. get32 mbr (446 + i * 16 + 8))
             (first_index (\<lambda>i. let t = mbr ! (446 + i * 16 + 4) in t = 4 \<or> t = 6 \<or> t = 0x0E) 0 4)
      else None)"

definition fat16_layout :: "fat_bpb \<Rightarrow> fat16 \<Rightarrow> fat16 option" where
  "fat16_layout b f =
     (let fat_start = ucast (reserved_sectors b);
          root_dir = fat_start + ucast (fat_count b) * ucast (sectors_per_fat_16 b);
          root_secs = (ucast (root_dir_entries b) * 32 + 511) div 512;
          data_start = root_dir + root_secs;
          total = (if total_sectors_16 b \<noteq> 0 then ucast (total_sectors_16 b) else total_sectors_32 b);
          f = f\<lparr>fat_start_lba := fat_start, root_dir_lba := root_dir, root_dir_sectors := root_secs, data_start_lba := data_start\<rparr>
      in if sectors_per_cluster b = 0 then None
         else Some (f\<lparr>total_clusters := (total - data_start) div ucast (sectors_per_cluster b)\<rparr>))"

text \<open>\<open>room\<close>: the root of the tree exists and has less than 256 children.\<close>

definition fat16_init :: "u8 list \<Rightarrow> bool \<Rightarrow> disk \<Rightarrow> fat16 \<Rightarrow> (fat_node option \<times> fat16) option" where
  "fat16_init junk room d f =
     (if \<not> ata_present d then Some (None, f)
      else case ata_read_sectors 0 1 d of
             (rc, mbr) \<Rightarrow>
               if rc \<noteq> 0 then Some (None, f)
               else let f = (case find_partition mbr of Some lba \<Rightarrow> f\<lparr>partition_lba := lba\<rparr> | None \<Rightarrow> f)
                    in case ata_read_sectors (partition_lba f) 1 d of
                         (rc, buf) \<Rightarrow>
                           if rc \<noteq> 0 then Some (None, f)
                           else let f = f\<lparr>bpb := parse_bpb buf\<rparr>
                                in if bytes_per_sector (bpb f) \<noteq> 512 then Some (None, f)
                                   else Option.bind (fat16_layout (bpb f) f) (\<lambda>f.
                                     Option.bind (fat16_read_dir junk f 0 True d) (\<lambda>n.
                                       let n = Fat_node (string_bytes ''fat'') (f_type n) (f_perms n) (f_size n) (f_gid n) (f_children n)
                                       in Some (if room then (Some n, f\<lparr>fat16_mounted := True\<rparr>) else (None, f)))))"

end
