(* ===== verification/Fat16_Table.thy ===== *)
theory Fat16_Table
  imports Fat16
begin

text \<open>
  The file allocation table on a volume whose layout fits the disk: entries read back, all copies of the table agree,
  no change of the table touches the data, and allocation is the first-fit allocator of \<open>Prelude\<close>.
\<close>

section \<open>Sectors\<close>

lemma unat_u16_bound: "unat (w :: u16) < 65536"
  using unsigned_less [of w] by simp

lemma unat_ucast_u16 [simp]: "unat (ucast (w :: u16) :: u32) = unat w"
  using unat_u16_bound [of w] by (simp add: unsigned_ucast_eq take_bit_nat_eq_self)

text \<open>The tables lie before the data, the data within the disk, and a table has an entry for every cluster.\<close>

definition fat_ok :: "fat16 \<Rightarrow> disk \<Rightarrow> bool" where
  "fat_ok f d \<longleftrightarrow> device_ok d \<and> 0 < sectors_per_cluster (bpb f) \<and> sectors_per_cluster (bpb f) \<le> 64
     \<and> 0 < fat_count (bpb f) \<and> unat (total_clusters f) + 2 \<le> 0xFFF8
     \<and> (unat (total_clusters f) + 2) * 2 \<le> unat (sectors_per_fat_16 (bpb f)) * 512
     \<and> unat (fat_start_lba f) + unat (fat_count (bpb f)) * unat (sectors_per_fat_16 (bpb f)) \<le> unat (data_start_lba f)
     \<and> unat (partition_lba f) + unat (data_start_lba f) + unat (total_clusters f) * unat (sectors_per_cluster (bpb f))
         \<le> unat (dk_total d)"

definition sec_at :: "fat16 \<Rightarrow> disk \<Rightarrow> nat \<Rightarrow> u8 list" where
  "sec_at f d i = dk_sector d (unat (partition_lba f) + i)"

definition on_disk_sec :: "fat16 \<Rightarrow> disk \<Rightarrow> nat \<Rightarrow> bool" where
  "on_disk_sec f d i \<longleftrightarrow> unat (partition_lba f) + i < unat (dk_total d)"

lemma sec_length [simp]: "fat_ok f d \<Longrightarrow> length (sec_at f d i) = 512"
  by (simp add: fat_ok_def device_ok_def sec_at_def)

lemma lba_nat: "on_disk_sec f d (unat lba) \<Longrightarrow> unat (partition_lba f + lba) = unat (partition_lba f) + unat lba"
  using unat_u32_bound [of "dk_total d"] by (simp add: on_disk_sec_def unat_plus_u32)

lemma sector_read:
  assumes "fat_ok f d" "on_disk_sec f d (unat lba)"
  shows "fat16_read_sector f lba buf d = (True, sec_at f d (unat lba) @ drop 512 buf)"
proof -
  have ok: "device_ok d" using assms(1) by (simp add: fat_ok_def)
  have l: "length (dk_sector d x) = 512" for x using ok by (simp add: device_ok_def)
  have "ata_read_sectors (partition_lba f + lba) 1 d = (0, sec_at f d (unat lba))"
    using ata.rd_ok [OF ok, of 1 "partition_lba f + lba"] lba_nat [OF assms(2)] assms(2)
    by (simp add: read_run_def sec_at_def on_disk_sec_def)
  then show ?thesis using assms(1) by (simp add: fat16_read_sector_def)
qed

lemma sector_write:
  assumes "fat_ok f d" "on_disk_sec f d (unat lba)" "length buf = 512"
  shows "\<exists>d'. fat16_write_sector f lba buf d = (True, d') \<and> fat_ok f d' \<and> dk_total d' = dk_total d
    \<and> (\<forall>i. sec_at f d' i = (if i = unat lba then buf else sec_at f d i))"
proof -
  have ok: "device_ok d" using assms(1) by (simp add: fat_ok_def)
  from ata.wr_ok [OF ok, of 1 "partition_lba f + lba" buf] lba_nat [OF assms(2)] assms(2,3) obtain d' where
    d': "ata_write_sectors (partition_lba f + lba) 1 buf d = (0, d')" "device_ok d'" "unat (dk_total d') = unat (dk_total d)"
      "dk_sector d' = write_run (unat (partition_lba f) + unat lba) 1 buf (dk_sector d)"
    by (auto simp: on_disk_sec_def)
  have "dk_total d' = dk_total d" using d'(3) by (simp add: word_unat_eq_iff)
  moreover have "fat_ok f d'" using assms(1) d'(2,3) by (simp add: fat_ok_def)
  moreover have "sec_at f d' i = (if i = unat lba then buf else sec_at f d i)" for i
    using assms(3) by (auto simp: sec_at_def d'(4) write_run_def slice_def)
  ultimately show ?thesis using d'(1) by (simp add: fat16_write_sector_def)
qed

lemma on_disk_cong: "dk_total d' = dk_total d \<Longrightarrow> on_disk_sec f d' i = on_disk_sec f d i"
  by (simp add: on_disk_sec_def)

section \<open>Entries\<close>

definition valid_cluster :: "fat16 \<Rightarrow> u16 \<Rightarrow> bool" where
  "valid_cluster f c \<longleftrightarrow> unat c < unat (total_clusters f) + 2"

definition copy_sec :: "fat16 \<Rightarrow> nat \<Rightarrow> u16 \<Rightarrow> nat" where
  "copy_sec f k c = unat (fat_start_lba f) + unat c * 2 div 512 + k * unat (sectors_per_fat_16 (bpb f))"

definition table_entry :: "fat16 \<Rightarrow> disk \<Rightarrow> nat \<Rightarrow> u16 \<Rightarrow> u16" where
  "table_entry f d k c = get16 (sec_at f d (copy_sec f k c)) (fat_index c)"

abbreviation copies :: "fat16 \<Rightarrow> nat" where
  "copies f \<equiv> unat (fat_count (bpb f))"

lemma fat_index_even: "\<exists>j < 256. fat_index c = 2 * j"
proof -
  have "fat_index c = 2 * (unat c mod 256)" using mult_mod_right [of 2 "unat c" 256] by (simp add: fat_index_def mult.commute)
  then show ?thesis by (intro exI [of _ "unat c mod 256"]) simp
qed

lemma fat_index_bound: "fat_index c + 2 \<le> 512"
  using fat_index_even [of c] by auto

lemma get_put16:
  assumes "i + 2 \<le> length bs"
  shows "get16 (put16 bs i v) i = v"
proof -
  have "put16 bs i v ! i = ucast v" "put16 bs i v ! (i + 1) = ucast (drop_bit 8 v)"
    using assms by (simp_all add: put16_def nth_splice)
  then show ?thesis unfolding get16_def by (intro bit_word_eqI) (auto simp: bit_simps)
qed

lemma get_put16_other: "i + 2 \<le> length bs \<Longrightarrow> j + 2 \<le> i \<or> i + 2 \<le> j \<Longrightarrow> j + 2 \<le> length bs \<Longrightarrow> get16 (put16 bs i v) j = get16 bs j"
  by (auto simp: get16_def put16_def nth_splice)

lemma length_put16 [simp]: "i + 2 \<le> length bs \<Longrightarrow> length (put16 bs i v) = length bs"
  by (simp add: put16_def)

text \<open>Where the copies of an entry lie.\<close>

lemma entry_fits:
  assumes "fat_ok f d" "valid_cluster f c"
  shows "unat c * 2 div 512 < unat (sectors_per_fat_16 (bpb f))"
proof -
  have "unat c * 2 < unat (sectors_per_fat_16 (bpb f)) * 512" using assms by (simp add: fat_ok_def valid_cluster_def)
  then show ?thesis by (simp add: less_mult_imp_div_less)
qed

lemma copy_sec_bound:
  assumes "fat_ok f d" "valid_cluster f c" "k < copies f"
  shows "copy_sec f k c < unat (data_start_lba f)" "on_disk_sec f d (copy_sec f k c)"
proof -
  let ?s = "unat (sectors_per_fat_16 (bpb f))"
  have "(k + 1) * ?s \<le> copies f * ?s" using assms(3) by (intro mult_le_mono1) simp
  then show lt: "copy_sec f k c < unat (data_start_lba f)"
    using entry_fits [OF assms(1,2)] assms(1) by (simp add: copy_sec_def fat_ok_def)
  then show "on_disk_sec f d (copy_sec f k c)" using assms(1) by (simp add: on_disk_sec_def fat_ok_def)
qed

lemma copy_sec_inj:
  assumes "fat_ok f d" "valid_cluster f c" "valid_cluster f c'" "copy_sec f k c = copy_sec f k' c'"
  shows "k = k'" "unat c * 2 div 512 = unat c' * 2 div 512"
proof -
  let ?s = "unat (sectors_per_fat_16 (bpb f))"
  have e: "k * ?s + unat c * 2 div 512 = k' * ?s + unat c' * 2 div 512" using assms(4) by (simp add: copy_sec_def)
  have lt: "unat c * 2 div 512 < ?s" "unat c' * 2 div 512 < ?s" using entry_fits assms(1-3) by blast+
  have "(m * ?s + a) div ?s = m" "(m * ?s + a) mod ?s = a" if "a < ?s" for m a using that by simp_all
  then show "k = k'" "unat c * 2 div 512 = unat c' * 2 div 512" using e lt by metis+
qed

lemma same_entry:
  assumes "unat c * 2 div 512 = unat c' * 2 div 512" "c \<noteq> c'"
  shows "fat_index c + 2 \<le> fat_index c' \<or> fat_index c' + 2 \<le> fat_index c"
proof -
  have "unat c * 2 \<noteq> unat c' * 2" using assms(2) by (simp add: word_unat_eq_iff)
  then have "fat_index c \<noteq> fat_index c'" using assms(1) unfolding fat_index_def by (metis div_mult_mod_eq)
  moreover obtain i j where "fat_index c = 2 * i" "fat_index c' = 2 * j" using fat_index_even by meson
  ultimately show ?thesis by (simp, arith)
qed

section \<open>Changing the table\<close>

lemma copy_lba:
  assumes "fat_ok f d" "valid_cluster f c" "k < copies f"
  shows "unat (fat_sector f c + of_nat k * ucast (sectors_per_fat_16 (bpb f))) = copy_sec f k c"
proof -
  let ?s = "sectors_per_fat_16 (bpb f)"
  have cs: "unat (fat_start_lba f) + unat c * 2 div 512 + k * unat ?s < 0x100000000"
    using copy_sec_bound(1) [OF assms] unat_u32_bound [of "data_start_lba f"] by (simp add: copy_sec_def)
  have c: "unat ((ucast c :: u32) * 2) = unat c * 2"
    using unat_u16_bound [of c] by (simp add: unat_word_ariths)
  have sec: "unat (fat_sector f c) = unat (fat_start_lba f) + unat c * 2 div 512"
    unfolding fat_sector_def using cs c by (subst unat_plus_u32) (simp_all add: unat_div)
  have kk: "k < 256" using assms(3) unat_u8_bound [of "fat_count (bpb f)"] by simp
  have "k * unat ?s < 256 * 65536" using kk unat_u16_bound [of ?s] by (intro mult_strict_mono) auto
  then have ks: "unat (of_nat k * ucast ?s :: u32) = k * unat ?s"
    using kk by (simp add: unat_word_ariths unat_of_nat_u32)
  show ?thesis using cs unfolding copy_sec_def by (subst unat_plus_u32) (simp_all add: sec ks)
qed

definition table_set :: "fat16 \<Rightarrow> u16 \<Rightarrow> u16 \<Rightarrow> nat set \<Rightarrow> disk \<Rightarrow> disk \<Rightarrow> bool" where
  "table_set f c v ks d d' \<longleftrightarrow> fat_ok f d' \<and> dk_total d' = dk_total d
     \<and> (\<forall>i. sec_at f d' i = (if \<exists>k \<in> ks. i = copy_sec f k c then put16 (sec_at f d i) (fat_index c) v else sec_at f d i))"

lemma set_copies_ok:
  assumes "fat_ok f d" "valid_cluster f c" "set ks \<subseteq> {..<copies f}" "distinct ks"
  shows "\<exists>d'. set_copies f ks c v d = (True, d') \<and> table_set f c v (set ks) d d'"
  using assms
proof (induction ks arbitrary: d)
  case Nil
  then show ?case by (simp add: table_set_def)
next
  case (Cons k ks)
  have k: "k < copies f" using Cons.prems(3) by simp
  note lba = copy_lba [OF Cons.prems(1,2) k]
  have on: "on_disk_sec f d (unat (fat_sector f c + of_nat k * ucast (sectors_per_fat_16 (bpb f))))"
    unfolding lba by (rule copy_sec_bound(2) [OF Cons.prems(1,2) k])
  note rd = sector_read [OF Cons.prems(1) on, of "[]", unfolded lba, simplified]
  have "length (put16 (sec_at f d (copy_sec f k c)) (fat_index c) v) = 512"
    using Cons.prems(1) fat_index_bound [of c] by simp
  from sector_write [OF Cons.prems(1) on this, unfolded lba] obtain d1 where
    d1: "fat16_write_sector f (fat_sector f c + of_nat k * ucast (sectors_per_fat_16 (bpb f)))
          (put16 (sec_at f d (copy_sec f k c)) (fat_index c) v) d = (True, d1)"
      "fat_ok f d1" "dk_total d1 = dk_total d"
      "\<forall>i. sec_at f d1 i = (if i = copy_sec f k c then put16 (sec_at f d (copy_sec f k c)) (fat_index c) v else sec_at f d i)"
    by blast
  from Cons.IH [OF d1(2) Cons.prems(2)] Cons.prems(3,4) obtain d' where
    d': "set_copies f ks c v d1 = (True, d')" "table_set f c v (set ks) d1 d'" by auto
  have "copy_sec f k c \<noteq> copy_sec f j c" if "j \<in> set ks" for j
    using copy_sec_inj(1) [OF Cons.prems(1,2,2)] Cons.prems(4) that by auto
  then have "table_set f c v (set (k # ks)) d d'" using d'(2) d1(3,4) by (auto simp: table_set_def)
  then show ?case using rd d1(1) d'(1) by (simp add: Let_def)
qed

lemma set_entry_ok:
  assumes "fat_ok f d" "valid_cluster f c"
  shows "\<exists>d'. fat16_set_fat_entry f c v d = (True, d') \<and> table_set f c v {..<copies f} d d'"
  using set_copies_ok [OF assms, of "[0..<copies f]"] by (simp add: fat16_set_fat_entry_def atLeast0LessThan)

lemma get_entry:
  assumes "fat_ok f d" "valid_cluster f c"
  shows "fat16_get_fat_entry f c d = table_entry f d 0 c"
proof -
  have k: "0 < copies f" using assms(1) by (simp add: fat_ok_def word_less_nat_alt)
  have lba: "unat (fat_sector f c) = copy_sec f 0 c" using copy_lba [OF assms k] by simp
  have on: "on_disk_sec f d (unat (fat_sector f c))" unfolding lba by (rule copy_sec_bound(2) [OF assms k])
  show ?thesis using sector_read [OF assms(1) on, of "[]"] lba by (simp add: fat16_get_fat_entry_def table_entry_def)
qed

text \<open>Every copy of every other entry is kept.\<close>

lemma table_set_entry:
  assumes "fat_ok f d" "valid_cluster f c" "table_set f c v {..<copies f} d d'" "valid_cluster f c'" "k < copies f"
  shows "table_entry f d' k c' = (if c' = c then v else table_entry f d k c')"
proof (cases "\<exists>j \<in> {..<copies f}. copy_sec f k c' = copy_sec f j c")
  case True
  then obtain j where j: "copy_sec f k c' = copy_sec f j c" by blast
  have eq: "k = j" "unat c' * 2 div 512 = unat c * 2 div 512" using copy_sec_inj [OF assms(1,4,2) j] by simp_all
  have sec: "sec_at f d' (copy_sec f k c') = put16 (sec_at f d (copy_sec f k c')) (fat_index c) v"
    using True assms(3) by (auto simp: table_set_def)
  show ?thesis
  proof (cases "c' = c")
    case True
    then show ?thesis using sec assms(1) fat_index_bound [of c] by (simp add: table_entry_def get_put16)
  next
    case False
    then show ?thesis using sec assms(1) fat_index_bound same_entry [OF eq(2)]
      by (auto simp: table_entry_def get_put16_other)
  qed
next
  case False
  then have "c' \<noteq> c" using assms(5) by auto
  then show ?thesis using False assms(3) by (auto simp: table_entry_def table_set_def)
qed

lemma get_set_entry:
  assumes "fat_ok f d" "valid_cluster f c" "fat16_set_fat_entry f c v d = (ok, d')"
  shows "ok" "fat_ok f d'" "dk_total d' = dk_total d"
    "valid_cluster f c' \<Longrightarrow> fat16_get_fat_entry f c' d' = (if c' = c then v else fat16_get_fat_entry f c' d)"
proof -
  have t: "ok" "table_set f c v {..<copies f} d d'" using set_entry_ok [OF assms(1,2), of v] assms(3) by auto
  show "ok" by (rule t(1))
  show d': "fat_ok f d'" "dk_total d' = dk_total d" using t(2) by (simp_all add: table_set_def)
  have "0 < copies f" using assms(1) by (simp add: fat_ok_def word_less_nat_alt)
  then show "fat16_get_fat_entry f c' d' = (if c' = c then v else fat16_get_fat_entry f c' d)" if "valid_cluster f c'"
    using table_set_entry [OF assms(1,2) t(2) that] get_entry [OF assms(1) that] get_entry [OF d'(1) that] by simp
qed

text \<open>The copies agree, and go on agreeing.\<close>

definition mirrored :: "fat16 \<Rightarrow> disk \<Rightarrow> bool" where
  "mirrored f d \<longleftrightarrow> (\<forall>k < copies f. \<forall>c. valid_cluster f c \<longrightarrow> table_entry f d k c = table_entry f d 0 c)"

lemma set_entry_mirrored:
  assumes "fat_ok f d" "valid_cluster f c" "fat16_set_fat_entry f c v d = (ok, d')" "mirrored f d"
  shows "mirrored f d'"
proof -
  have t: "table_set f c v {..<copies f} d d'" using set_entry_ok [OF assms(1,2), of v] assms(3) by auto
  have "0 < copies f" using assms(1) by (simp add: fat_ok_def word_less_nat_alt)
  have "table_entry f d' k c' = table_entry f d' 0 c'" if "k < copies f" "valid_cluster f c'" for k c'
  proof -
    have "table_entry f d k c' = table_entry f d 0 c'" using assms(4) that unfolding mirrored_def by blast
    then show ?thesis
      using table_set_entry [OF assms(1,2) t that(2,1)] table_set_entry [OF assms(1,2) t that(2) \<open>0 < copies f\<close>] by simp
  qed
  then show ?thesis unfolding mirrored_def by blast
qed

section \<open>Allocation\<close>

definition clusters :: "fat16 \<Rightarrow> nat" where
  "clusters f = unat (total_clusters f) + 2"

lemma cluster_index:
  assumes "fat_ok f d" "i < clusters f"
  shows "unat (of_nat i :: u16) = i" "valid_cluster f (of_nat i)"
proof -
  have "i < 65536" using assms by (simp add: fat_ok_def clusters_def)
  then show "unat (of_nat i :: u16) = i" by (simp add: unat_of_nat)
  then show "valid_cluster f (of_nat i)" using assms(2) by (simp add: valid_cluster_def clusters_def)
qed

lemma alloc_bound: "fat_ok f d \<Longrightarrow> unat (ucast (total_clusters f + 2) :: u16) = clusters f"
proof -
  assume "fat_ok f d"
  then have "unat (total_clusters f) + 2 < 65536" by (simp add: fat_ok_def)
  moreover then have "unat (total_clusters f + 2) = unat (total_clusters f) + 2" by (simp add: unat_plus_u32)
  ultimately show ?thesis by (simp add: clusters_def unsigned_ucast_eq take_bit_nat_eq_self)
qed

lemma alloc_cases:
  assumes "fat_ok f d"
  obtains (full) "fat16_alloc_cluster f d = (0, d)" "\<forall>i. 2 \<le> i \<and> i < clusters f \<longrightarrow> fat16_get_fat_entry f (of_nat i) d \<noteq> 0"
    | (found) i d' where "fat16_alloc_cluster f d = (of_nat i, d')" "2 \<le> i" "i < clusters f" "unat (of_nat i :: u16) = i"
        "fat16_get_fat_entry f (of_nat i) d = 0" "fat16_set_fat_entry f (of_nat i) 0xFFFF d = (True, d')"
        "\<forall>j. 2 \<le> j \<and> j < i \<longrightarrow> fat16_get_fat_entry f (of_nat j) d \<noteq> 0"
proof (cases "first_index (\<lambda>i. fat16_get_fat_entry f (of_nat i) d = 0) 2 (clusters f)")
  case None
  then have "fat16_alloc_cluster f d = (0, d)" by (simp add: fat16_alloc_cluster_def alloc_bound [OF assms])
  then show ?thesis using full None by (simp add: first_index_None)
next
  case (Some i)
  then have i: "2 \<le> i" "i < clusters f" "fat16_get_fat_entry f (of_nat i) d = 0"
    "\<forall>j. 2 \<le> j \<and> j < i \<longrightarrow> fat16_get_fat_entry f (of_nat j) d \<noteq> 0" by (simp_all add: first_index_Some)
  obtain ok d' where s: "fat16_set_fat_entry f (of_nat i) 0xFFFF d = (ok, d')" by (rule prod.exhaust)
  then have "ok" using get_set_entry(1) [OF assms cluster_index(2) [OF assms i(2)]] by blast
  then show ?thesis using found [of i d'] Some s i cluster_index(1) [OF assms i(2)]
    by (simp add: fat16_alloc_cluster_def alloc_bound [OF assms])
qed

text \<open>The driver and its disk as an allocator of slots; the first two entries are reserved.\<close>

definition fat_used :: "fat16 \<times> disk \<Rightarrow> nat set" where
  "fat_used s = (case s of (f, d) \<Rightarrow> {i. i < clusters f \<and> (i < 2 \<or> fat16_get_fat_entry f (of_nat i) d \<noteq> 0)})"

definition fat_alloc_slot :: "fat16 \<times> disk \<Rightarrow> nat option \<times> (fat16 \<times> disk)" where
  "fat_alloc_slot s = (case s of (f, d) \<Rightarrow> (case fat16_alloc_cluster f d of (c, d') \<Rightarrow> (if c = 0 then None else Some (unat c), (f, d'))))"

definition fat_release :: "nat \<Rightarrow> fat16 \<times> disk \<Rightarrow> fat16 \<times> disk" where
  "fat_release k s = (case s of (f, d) \<Rightarrow> (f, if k < clusters f then snd (fat16_set_fat_entry f (of_nat k) 0 d) else d))"

lemma fat_used_set:
  assumes "fat_ok f d" "i < clusters f" "2 \<le> i" "fat16_set_fat_entry f (of_nat i) v d = (ok, d')"
  shows "fat_ok f d'" "fat_used (f, d') = (if v = 0 then fat_used (f, d) - {i} else insert i (fat_used (f, d)))"
proof -
  note g = get_set_entry [OF assms(1) cluster_index(2) [OF assms(1,2)] assms(4)]
  show "fat_ok f d'" by (rule g(2))
  have e: "fat16_get_fat_entry f (of_nat j) d' = (if j = i then v else fat16_get_fat_entry f (of_nat j) d)" if "j < clusters f" for j
    using g(4) [OF cluster_index(2) [OF assms(1) that]] cluster_index(1) [OF assms(1)] that assms(2) by (metis (full_types))
  show "fat_used (f, d') = (if v = 0 then fat_used (f, d) - {i} else insert i (fat_used (f, d)))"
    using assms(2,3) e by (auto simp: fat_used_def split: if_splits)
qed

interpretation fat: slot_allocator "\<lambda>(f, d). fat_ok f d" "\<lambda>(f, d). clusters f" fat_used "{0, 1}" fat_alloc_slot fat_release
proof
  fix s s' :: "fat16 \<times> disk" and k j r
  obtain f d where s: "s = (f, d)" by (rule prod.exhaust)
  assume inv: "case s of (f, d) \<Rightarrow> fat_ok f d"
  then have ok: "fat_ok f d" by (simp add: s)
  show "fat_used s \<subseteq> {..<(case s of (f, d) \<Rightarrow> clusters f)}" by (auto simp: s fat_used_def)
  show "k < (case s of (f, d) \<Rightarrow> clusters f) \<and> k \<notin> fat_used s \<and> k \<notin> {0, 1}" if "fat_alloc_slot s = (Some k, s')"
    using that ok by (cases rule: alloc_cases [OF ok]) (auto simp: s fat_alloc_slot_def fat_used_def split: if_splits)
  show "j \<in> fat_used s" if "fat_alloc_slot s = (Some k, s')" "j < k"
    using that ok by (cases rule: alloc_cases [OF ok]) (auto simp: s fat_alloc_slot_def fat_used_def split: if_splits)
  show "fat_used s' = insert k (fat_used s)" if "fat_alloc_slot s = (Some k, s')"
    using that ok fat_used_set(2) [OF ok, where v = "0xFFFF" and ok = True]
    by (cases rule: alloc_cases [OF ok]) (auto simp: s fat_alloc_slot_def split: if_splits)
  show "(case s' of (f, d) \<Rightarrow> fat_ok f d) \<and> (case s' of (f, d) \<Rightarrow> clusters f) = (case s of (f, d) \<Rightarrow> clusters f)"
    if "fat_alloc_slot s = (r, s')"
    using that ok fat_used_set(1) [OF ok, where v = "0xFFFF" and ok = True]
    by (cases rule: alloc_cases [OF ok]) (auto simp: s fat_alloc_slot_def split: if_splits)
  show "fat_used s = {..<(case s of (f, d) \<Rightarrow> clusters f)} \<and> s' = s" if "fat_alloc_slot s = (None, s')"
    using that ok by (cases rule: alloc_cases [OF ok]) (auto simp: s fat_alloc_slot_def fat_used_def split: if_splits)
  assume k: "k \<notin> {0, 1}"
  show "fat_used (fat_release k s) = fat_used s - {k}"
    using fat_used_set(2) [OF ok, where i = k and v = 0 and ok = "fst (fat16_set_fat_entry f (of_nat k) 0 d)"] k
    by (cases "k < clusters f") (auto simp: s fat_release_def fat_used_def)
  show "(case fat_release k s of (f, d) \<Rightarrow> fat_ok f d)
      \<and> (case fat_release k s of (f, d) \<Rightarrow> clusters f) = (case s of (f, d) \<Rightarrow> clusters f)"
    using fat_used_set(1) [OF ok, where i = k and v = 0 and ok = "fst (fat16_set_fat_entry f (of_nat k) 0 d)"] k ok
    by (cases "k < clusters f") (auto simp: s fat_release_def)
qed

section \<open>Releasing a chain\<close>

text \<open>
  \<open>fat_link\<close> leads from a cluster to the next one of its chain. \<open>links_ok\<close>: no link leads outside the volume; chains
  may still be cyclic or share clusters.
\<close>

definition in_chain :: "u16 \<Rightarrow> bool" where
  "in_chain c \<longleftrightarrow> 2 \<le> c \<and> c < 0xFFF8"

definition fat_link :: "fat16 \<Rightarrow> disk \<Rightarrow> u16 \<Rightarrow> u16 \<Rightarrow> bool" where
  "fat_link f d a b \<longleftrightarrow> in_chain a \<and> b = fat16_get_fat_entry f a d"

definition links_ok :: "fat16 \<Rightarrow> disk \<Rightarrow> bool" where
  "links_ok f d \<longleftrightarrow> (\<forall>c. valid_cluster f c \<and> in_chain (fat16_get_fat_entry f c d) \<longrightarrow> valid_cluster f (fat16_get_fat_entry f c d))"

definition reached :: "fat16 \<Rightarrow> disk \<Rightarrow> u16 \<Rightarrow> u16 set" where
  "reached f d c = {x. (fat_link f d)\<^sup>*\<^sup>* c x \<and> in_chain x}"

lemma not_in_chain_0: "\<not> in_chain 0"
  by (simp add: in_chain_def)

lemma reached_valid: "links_ok f d \<Longrightarrow> valid_cluster f c \<Longrightarrow> x \<in> reached f d c \<Longrightarrow> valid_cluster f x"
proof -
  assume l: "links_ok f d" "valid_cluster f c" "x \<in> reached f d c"
  have "(fat_link f d)\<^sup>*\<^sup>* c x \<Longrightarrow> in_chain x \<longrightarrow> valid_cluster f x"
    by (induction rule: rtranclp_induct) (use l(1,2) in \<open>auto simp: fat_link_def links_ok_def\<close>)
  then show ?thesis using l(3) by (simp add: reached_def)
qed

text \<open>Clearing the first entry of a chain does not lose what is reached behind it.\<close>

lemma reached_clear:
  assumes "in_chain c" "\<And>a. in_chain a \<Longrightarrow> (\<exists>y. (fat_link f d)\<^sup>*\<^sup>* c y \<and> y = a) \<Longrightarrow>
      fat16_get_fat_entry f a d' = (if a = c then 0 else fat16_get_fat_entry f a d)"
  shows "insert c (reached f d' (fat16_get_fat_entry f c d)) = reached f d c"
proof -
  let ?n = "fat16_get_fat_entry f c d"
  have first: "fat_link f d c ?n" using assms(1) by (simp add: fat_link_def)
  have fwd: "(fat_link f d')\<^sup>*\<^sup>* ?n x \<Longrightarrow> x = 0 \<or> (fat_link f d)\<^sup>*\<^sup>* c x" for x
  proof (induction rule: rtranclp_induct)
    case base
    then show ?case using first by blast
  next
    case (step y z)
    have y: "in_chain y" using step(2) by (simp add: fat_link_def)
    then have y: "in_chain y" "(fat_link f d)\<^sup>*\<^sup>* c y" using step(3) not_in_chain_0 by auto
    have "z = 0 \<or> fat_link f d y z" using step(2) assms(2) [OF y(1)] y by (auto simp: fat_link_def split: if_splits)
    then show ?case using y(2) by (meson rtranclp.rtrancl_into_rtrancl)
  qed
  have bwd: "(fat_link f d)\<^sup>*\<^sup>* c x \<Longrightarrow> x = c \<or> (fat_link f d')\<^sup>*\<^sup>* ?n x" for x
  proof (induction rule: rtranclp_induct)
    case (step y z)
    then have y: "in_chain y" by (simp add: fat_link_def)
    show ?case
    proof (cases "y = c")
      case True
      then show ?thesis using step(2) by (simp add: fat_link_def)
    next
      case False
      have "fat16_get_fat_entry f y d' = fat16_get_fat_entry f y d" using assms(2) [OF y] step(1) False by auto
      then have "fat_link f d' y z" using step(2) y by (simp add: fat_link_def)
      then show ?thesis using step(3) False by (meson rtranclp.rtrancl_into_rtrancl)
    qed
  qed simp
  show ?thesis using fwd bwd assms(1) not_in_chain_0 by (auto simp: reached_def)
qed

lemma free_chain_frees:
  assumes "fat_ok f d" "links_ok f d" "in_chain c \<Longrightarrow> valid_cluster f c"
  shows "\<exists>d'. fat16_free_cluster_chain f c d = Some d' \<and> fat_ok f d'
    \<and> (\<forall>x. valid_cluster f x \<longrightarrow>
          fat16_get_fat_entry f x d' = (if x \<in> reached f d c then 0 else fat16_get_fat_entry f x d))"
  using assms
proof (induction "card {x. valid_cluster f x \<and> fat16_get_fat_entry f x d \<noteq> 0}" arbitrary: c d rule: less_induct)
  case less
  show ?case
  proof (cases "in_chain c")
    case False
    have "reached f d c = {}"
    proof -
      have "(fat_link f d)\<^sup>*\<^sup>* c x \<Longrightarrow> x = c" for x
        by (erule converse_rtranclpE) (use False in \<open>auto simp: fat_link_def\<close>)
      then show ?thesis using False by (auto simp: reached_def)
    qed
    then show ?thesis using False less(2) by (subst fat16_free_cluster_chain.simps) (auto simp: in_chain_def)
  next
    case True
    then have v: "valid_cluster f c" by (rule less(4))
    let ?n = "fat16_get_fat_entry f c d"
    obtain ok d1 where s: "fat16_set_fat_entry f c 0 d = (ok, d1)" by (rule prod.exhaust)
    note g = get_set_entry [OF less(2) v s]
    have run: "fat16_free_cluster_chain f c d = fat16_free_cluster_chain f ?n d1"
      using True s by (subst fat16_free_cluster_chain.simps) (simp add: in_chain_def)
    have val: "valid_cluster f a" if "(fat_link f d)\<^sup>*\<^sup>* c a" "in_chain a" for a
      using reached_valid [OF less(3) v, of a] that by (simp add: reached_def)
    have r: "insert c (reached f d1 ?n) = reached f d c"
      by (rule reached_clear [OF True]) (use val g(4) in auto)
    have vn: "in_chain ?n \<Longrightarrow> valid_cluster f ?n" using less(3) v by (simp add: links_ok_def)
    have l1: "links_ok f d1" using less(3) g(4) not_in_chain_0 by (auto simp: links_ok_def)
    have "\<exists>d'. fat16_free_cluster_chain f ?n d1 = Some d' \<and> fat_ok f d'
      \<and> (\<forall>x. valid_cluster f x \<longrightarrow>
          fat16_get_fat_entry f x d' = (if x \<in> reached f d1 ?n then 0 else fat16_get_fat_entry f x d1))"
    proof (cases "?n = 0")
      case True
      have "reached f d1 0 = {}"
      proof -
        have "(fat_link f d1)\<^sup>*\<^sup>* 0 x \<Longrightarrow> x = 0" for x
          by (erule converse_rtranclpE) (auto simp: fat_link_def not_in_chain_0)
        then show ?thesis using not_in_chain_0 by (auto simp: reached_def)
      qed
      then show ?thesis using True g(2) by (subst fat16_free_cluster_chain.simps) simp
    next
      case False
      have "{x. valid_cluster f x \<and> fat16_get_fat_entry f x d1 \<noteq> 0}
          \<subseteq> {x. valid_cluster f x \<and> fat16_get_fat_entry f x d \<noteq> 0} - {c}" using g(4) by (auto split: if_splits)
      moreover have "c \<in> {x. valid_cluster f x \<and> fat16_get_fat_entry f x d \<noteq> 0}" using v False by simp
      ultimately have "{x. valid_cluster f x \<and> fat16_get_fat_entry f x d1 \<noteq> 0}
          \<subset> {x. valid_cluster f x \<and> fat16_get_fat_entry f x d \<noteq> 0}" by blast
      then have "card {x. valid_cluster f x \<and> fat16_get_fat_entry f x d1 \<noteq> 0} < card {x. valid_cluster f x \<and> fat16_get_fat_entry f x d \<noteq> 0}"
        by (rule psubset_card_mono [rotated]) simp
      from less(1) [OF this g(2) l1 vn] show ?thesis .
    qed
    then obtain d' where d': "fat16_free_cluster_chain f ?n d1 = Some d'" "fat_ok f d'"
      "\<forall>x. valid_cluster f x \<longrightarrow> fat16_get_fat_entry f x d' = (if x \<in> reached f d1 ?n then 0 else fat16_get_fat_entry f x d1)"
      by blast
    have "fat16_get_fat_entry f x d' = (if x \<in> reached f d c then 0 else fat16_get_fat_entry f x d)" if "valid_cluster f x" for x
      using d'(3) g(4) that unfolding r [symmetric] by auto
    then show ?thesis using run d'(1,2) by auto
  qed
qed

section \<open>Names\<close>

definition short_char :: "u8 \<Rightarrow> bool" where
  "short_char b \<longleftrightarrow> b \<noteq> 0 \<and> b \<noteq> 0x20 \<and> b \<noteq> 0x2E \<and> \<not> (0x41 \<le> b \<and> b \<le> 0x5A)"

lemma short_char_case:
  assumes "short_char b"
  shows "fat_lower (fat_upper b) = b" "fat_upper b \<noteq> 0x20"
proof -
  have u: "unat (b - 32) = unat b - 32" if "0x61 \<le> b" using that by (simp add: unat_sub word_le_nat_alt)
  have "b - 32 + 32 = b" by simp
  then show "fat_lower (fat_upper b) = b" using assms u
    by (auto simp: fat_lower_def fat_upper_def short_char_def word_le_nat_alt)
  show "fat_upper b \<noteq> 0x20" using assms u
    by (auto simp: fat_upper_def short_char_def word_unat_eq_iff word_le_nat_alt)
qed

lemma takeWhile_padded:
  assumes "\<forall>b \<in> set bs. short_char b"
  shows "map fat_lower (takeWhile (\<lambda>b. b \<noteq> 0x20) (map fat_upper bs @ replicate n 0x20)) = bs"
proof -
  have "takeWhile (\<lambda>b. b \<noteq> 0x20) (map fat_upper bs @ replicate n 0x20) = map fat_upper bs"
    using assms short_char_case(2) by (subst takeWhile_append2) (auto simp: takeWhile_eq_Nil_iff)
  then show ?thesis using assms short_char_case(1) by (simp add: map_idI)
qed

text \<open>A name in lower case of at most eight and three characters survives the directory.\<close>

lemma fat16_names:
  assumes "length base \<le> 8" "length ext \<le> 3" "\<forall>b \<in> set base. short_char b" "\<forall>b \<in> set ext. short_char b"
  defines "name \<equiv> base @ (if ext = [] then [] else 0x2E # ext)"
  shows "fat16_format_name (fat16_to_83 name) = name"
proof -
  let ?b = "map fat_upper base @ replicate (8 - length base) 0x20" and ?e = "map fat_upper ext @ replicate (3 - length ext) 0x20"
  have "takeWhile (\<lambda>b. b \<noteq> 0x2E) name = base"
    unfolding name_def using assms(3) by (subst takeWhile_append2) (auto simp: short_char_def)
  then have t: "fat16_to_83 name = ?b @ ?e"
    using assms(1,2) by (simp add: fat16_to_83_def Let_def name_def)
  have l: "length ?b = 8" "length ?e = 3" using assms(1,2) by simp_all
  have s: "take 8 (?b @ ?e) = ?b" "slice 8 3 (?b @ ?e) = ?e" "(?b @ ?e) ! 8 = ?e ! 0"
    using l by (simp_all add: slice_def nth_append)
  have "?e ! 0 \<noteq> 0x20 \<longleftrightarrow> ext \<noteq> []" using assms(4) short_char_case(2) by (cases ext) auto
  moreover have "0 \<notin> set name" using assms(3,4) by (auto simp: name_def short_char_def)
  ultimately show ?thesis unfolding t fat16_format_name_def s takeWhile_padded [OF assms(3)] takeWhile_padded [OF assms(4)]
    by (auto simp: name_def takeWhile_eq_all_conv)
qed

end
