(* ===== verification/Fat16_Data.thy ===== *)
theory Fat16_Data
  imports Fat16_Table
begin

text \<open>
  Clusters as strings of bytes: the transfer loops read and change exactly a range of one cluster, and neither the
  table nor another cluster is touched.
\<close>

section \<open>Clusters\<close>

abbreviation spc :: "fat16 \<Rightarrow> nat" where
  "spc f \<equiv> unat (sectors_per_cluster (bpb f))"

definition csize :: "fat16 \<Rightarrow> nat" where
  "csize f = spc f * 512"

definition data_cluster :: "fat16 \<Rightarrow> u16 \<Rightarrow> bool" where
  "data_cluster f c \<longleftrightarrow> 2 \<le> c \<and> valid_cluster f c"

definition cluster_sec :: "fat16 \<Rightarrow> u16 \<Rightarrow> nat \<Rightarrow> nat" where
  "cluster_sec f c i = unat (data_start_lba f) + (unat c - 2) * spc f + i"

definition cluster_bytes :: "fat16 \<Rightarrow> disk \<Rightarrow> u16 \<Rightarrow> u8 list" where
  "cluster_bytes f d c = concat (map (\<lambda>i. sec_at f d (cluster_sec f c i)) [0..<spc f])"

lemma length_cluster_bytes: "fat_ok f d \<Longrightarrow> length (cluster_bytes f d c) = csize f"
  unfolding cluster_bytes_def csize_def by (subst length_concat_blocks [where m = 512]) simp_all

lemma cluster_sec_bound:
  assumes "fat_ok f d" "data_cluster f c" "i < spc f"
  shows "on_disk_sec f d (cluster_sec f c i)" "cluster_sec f c i < 0x100000000"
proof -
  have "unat c - 2 + 1 \<le> unat (total_clusters f)"
    using assms(2) by (auto simp: data_cluster_def valid_cluster_def word_le_nat_alt)
  then have "(unat c - 2 + 1) * spc f \<le> unat (total_clusters f) * spc f" by (rule mult_le_mono1)
  then have "cluster_sec f c i < unat (data_start_lba f) + unat (total_clusters f) * spc f"
    using assms(3) by (simp add: cluster_sec_def)
  then show "on_disk_sec f d (cluster_sec f c i)" using assms(1) by (simp add: on_disk_sec_def fat_ok_def)
  then show "cluster_sec f c i < 0x100000000" using unat_u32_bound [of "dk_total d"] by (simp add: on_disk_sec_def)
qed

lemma cluster_lba:
  assumes "fat_ok f d" "data_cluster f c" "i < spc f"
  shows "unat (fat16_cluster_to_lba f c + of_nat i) = cluster_sec f c i"
proof -
  note b = cluster_sec_bound [OF assms]
  have c2: "unat (ucast c - 2 :: u32) = unat c - 2"
    using assms(2) by (subst unat_minus_u32) (simp_all add: data_cluster_def word_le_nat_alt)
  have s: "unat (ucast (sectors_per_cluster (bpb f)) :: u32) = spc f"
    using unat_u8_bound [of "sectors_per_cluster (bpb f)"] by (simp add: unsigned_ucast_eq take_bit_nat_eq_self)
  have m: "unat ((ucast c - 2) * ucast (sectors_per_cluster (bpb f)) :: u32) = (unat c - 2) * spc f"
    using b(2) by (simp add: unat_word_ariths c2 s cluster_sec_def)
  have "unat (fat16_cluster_to_lba f c) = unat (data_start_lba f) + (unat c - 2) * spc f"
    unfolding fat16_cluster_to_lba_def using b(2) m by (subst unat_plus_u32) (simp_all add: cluster_sec_def)
  moreover have "unat (of_nat i :: u32) = i" using b(2) by (intro unat_of_nat_u32) (simp add: cluster_sec_def)
  ultimately show ?thesis using b(2) by (subst unat_plus_u32) (simp_all add: cluster_sec_def)
qed

lemma cluster_sec_inj:
  assumes "data_cluster f c" "data_cluster f c'" "i < spc f" "i' < spc f" "cluster_sec f c i = cluster_sec f c' i'"
  shows "c = c'" "i = i'"
proof -
  have e: "(unat c - 2) * spc f + i = (unat c' - 2) * spc f + i'" using assms(5) by (simp add: cluster_sec_def)
  have "(m * spc f + a) div spc f = m" "(m * spc f + a) mod spc f = a" if "a < spc f" for m a using that by simp_all
  then have "unat c - 2 = unat c' - 2" "i = i'" using e assms(3,4) by metis+
  moreover have "2 \<le> unat c" "2 \<le> unat c'" using assms(1,2) by (simp_all add: data_cluster_def word_le_nat_alt)
  ultimately have "unat c = unat c'" "i = i'" by linarith+
  then show "c = c'" "i = i'" by (simp_all add: word_unat_eq_iff)
qed

text \<open>The sectors of the tables end where the data starts.\<close>

lemma table_below_data: "fat_ok f d \<Longrightarrow> valid_cluster f c \<Longrightarrow> k < copies f \<Longrightarrow> cluster_sec f c' i \<noteq> copy_sec f k c"
  using copy_sec_bound(1) [of f d c k] by (simp add: cluster_sec_def)

lemma table_set_bytes: "fat_ok f d \<Longrightarrow> valid_cluster f c \<Longrightarrow> table_set f c v {..<copies f} d d' \<Longrightarrow> cluster_bytes f d' c' = cluster_bytes f d c'"
  using table_below_data [of f d c _ c'] unfolding cluster_bytes_def table_set_def
  by (intro arg_cong [of _ _ concat] map_cong) auto

lemma set_entry_bytes:
  assumes "fat_ok f d" "valid_cluster f c" "fat16_set_fat_entry f c v d = (ok, d')"
  shows "cluster_bytes f d' c' = cluster_bytes f d c'"
  using set_entry_ok [OF assms(1,2), of v] assms(3) table_set_bytes [OF assms(1,2)] by auto

section \<open>The transfer loops\<close>

lemma sector_slice:
  assumes "fat_ok f d" "s < spc f" "b + n \<le> 512"
  shows "slice b n (sec_at f d (cluster_sec f c s)) = slice (s * 512 + b) n (cluster_bytes f d c)"
proof -
  have "slice (s * 512) 512 (cluster_bytes f d c) = sec_at f d (cluster_sec f c ([0..<spc f] ! s))"
    unfolding cluster_bytes_def by (rule slice_concat_block) (use assms in simp_all)
  then have "sec_at f d (cluster_sec f c s) = slice (s * 512) 512 (cluster_bytes f d c)" using assms(2) by simp
  then show ?thesis using assms(3) by (simp add: slice_def drop_take min_def add.commute)
qed

lemma read_cluster_ok:
  assumes ok: "fat_ok f d" "data_cluster f c" and b: "b < 512" and r: "cnt \<le> to_read" "s * 512 + b + (to_read - cnt) \<le> csize f"
  shows "read_cluster f (fat16_cluster_to_lba f c + of_nat s) b to_read cnt out d
    = (to_read, out @ slice (s * 512 + b) (to_read - cnt) (cluster_bytes f d c))"
  using b r
proof (induction "to_read - cnt" arbitrary: s b cnt out rule: less_induct)
  case less
  show ?case
  proof (cases "cnt < to_read")
    case False
    then show ?thesis using less(3) by (subst read_cluster.simps) (simp add: slice_def)
  next
    case True
    define n where "n = min (512 - b) (to_read - cnt)"
    have n: "0 < n" "b + n \<le> 512" "cnt + n \<le> to_read" using True less(2) by (auto simp: n_def)
    have "s * 512 < spc f * 512" using less(4) True by (simp add: csize_def)
    then have s: "s < spc f" by simp
    note lba = cluster_lba [OF ok s]
    have on: "on_disk_sec f d (unat (fat16_cluster_to_lba f c + of_nat s))" unfolding lba by (rule cluster_sec_bound(1) [OF ok s])
    have "read_cluster f (fat16_cluster_to_lba f c + of_nat s) b to_read cnt out d
        = read_cluster f (fat16_cluster_to_lba f c + of_nat s + 1) 0 to_read (cnt + n) (out @ slice (s * 512 + b) n (cluster_bytes f d c)) d"
      using True less(2) sector_read [OF ok(1) on, of "[]"] sector_slice [OF ok(1) s n(2)] lba
      by (subst read_cluster.simps) (simp add: n_def [symmetric])
    also have "fat16_cluster_to_lba f c + of_nat s + 1 = fat16_cluster_to_lba f c + of_nat (Suc s)" by (simp add: add_ac)
    also have "read_cluster f (fat16_cluster_to_lba f c + of_nat (Suc s)) 0 to_read (cnt + n) (out @ slice (s * 512 + b) n (cluster_bytes f d c)) d
        = (to_read, out @ slice (s * 512 + b) (to_read - cnt) (cluster_bytes f d c))"
    proof (cases "cnt + n = to_read")
      case True
      then have "to_read - cnt = n" by simp
      then show ?thesis using True by (subst read_cluster.simps) simp
    next
      case False
      then have e: "b + n = 512" using n by (auto simp: n_def)
      have "read_cluster f (fat16_cluster_to_lba f c + of_nat (Suc s)) 0 to_read (cnt + n) (out @ slice (s * 512 + b) n (cluster_bytes f d c)) d
          = (to_read, (out @ slice (s * 512 + b) n (cluster_bytes f d c)) @ slice (Suc s * 512 + 0) (to_read - (cnt + n)) (cluster_bytes f d c))"
        by (rule less(1)) (use n e less(4) True in auto)
      moreover have e2: "Suc s * 512 + 0 = s * 512 + b + n" using e by simp
      have "n + (to_read - (cnt + n)) = to_read - cnt" using n by simp
      then have "slice (s * 512 + b) n (cluster_bytes f d c) @ slice (Suc s * 512 + 0) (to_read - (cnt + n)) (cluster_bytes f d c)
          = slice (s * 512 + b) (to_read - cnt) (cluster_bytes f d c)"
        unfolding e2 by (simp only: slice_append_slice)
      ultimately show ?thesis by (simp only: append_assoc)
    qed
    finally show ?thesis .
  qed
qed

text \<open>One cluster changed, everything else as before.\<close>

definition cluster_set :: "fat16 \<Rightarrow> u16 \<Rightarrow> u8 list \<Rightarrow> disk \<Rightarrow> disk \<Rightarrow> bool" where
  "cluster_set f c bs d d' \<longleftrightarrow> fat_ok f d' \<and> dk_total d' = dk_total d \<and> cluster_bytes f d' c = bs
     \<and> (\<forall>i. (\<forall>s < spc f. i \<noteq> cluster_sec f c s) \<longrightarrow> sec_at f d' i = sec_at f d i)"

lemma write_sector_cluster:
  assumes "fat_ok f d" "data_cluster f c" "s < spc f" "b + length zs \<le> 512"
  shows "\<exists>d'. fat16_write_sector f (fat16_cluster_to_lba f c + of_nat s) (splice b zs (sec_at f d (cluster_sec f c s))) d = (True, d')
    \<and> cluster_set f c (splice (s * 512 + b) zs (cluster_bytes f d c)) d d'"
proof -
  note lba = cluster_lba [OF assms(1-3)]
  have on: "on_disk_sec f d (unat (fat16_cluster_to_lba f c + of_nat s))" unfolding lba by (rule cluster_sec_bound(1) [OF assms(1-3)])
  let ?new = "splice b zs (sec_at f d (cluster_sec f c s))"
  have len: "length ?new = 512" using assms(1,4) by simp
  from sector_write [OF assms(1) on len, unfolded lba] obtain d' where
    d': "fat16_write_sector f (fat16_cluster_to_lba f c + of_nat s) ?new d = (True, d')" "fat_ok f d'" "dk_total d' = dk_total d"
      "\<forall>i. sec_at f d' i = (if i = cluster_sec f c s then ?new else sec_at f d i)" by blast
  have "cluster_bytes f d' c = splice (s * 512) ?new (cluster_bytes f d c)"
    unfolding cluster_bytes_def
    by (rule concat_block_update) (use assms(1,3) len d'(4) cluster_sec_inj(2) [OF assms(2,2)] in auto)
  also have "\<dots> = splice (s * 512 + b) zs (cluster_bytes f d c)"
  proof -
    have "sec_at f d (cluster_sec f c s) = slice (s * 512) 512 (cluster_bytes f d c)"
      using sector_slice [OF assms(1,3), of 0 512 c] assms(1) by (simp add: slice_def)
    moreover have "(s + 1) * 512 \<le> csize f" unfolding csize_def using assms(3) by (intro mult_le_mono1) simp
    ultimately show ?thesis using splice_splice_nested [of "s * 512" 512 "cluster_bytes f d c" b zs] assms(4)
        length_cluster_bytes [OF assms(1), of c] by simp
  qed
  finally show ?thesis using d' assms(3) by (auto simp: cluster_set_def)
qed

lemma cluster_set_trans:
  "cluster_set f c bs d d1 \<Longrightarrow> cluster_set f c bs' d1 d' \<Longrightarrow> cluster_set f c bs' d d'"
  by (simp add: cluster_set_def)

lemma write_cluster_ok:
  assumes "data_cluster f c" "fat_ok f d" "b < 512" "put \<le> length bs" "s * 512 + b + (length bs - put) \<le> csize f"
  shows "\<exists>d'. write_cluster f (fat16_cluster_to_lba f c + of_nat s) b bs put d = (length bs, d')
    \<and> cluster_set f c (splice (s * 512 + b) (drop put bs) (cluster_bytes f d c)) d d'"
  using assms(2-5)
proof (induction "length bs - put" arbitrary: s b put d rule: less_induct)
  case less
  show ?case
  proof (cases "put < length bs")
    case False
    then show ?thesis using less(2,4) by (subst write_cluster.simps) (simp add: cluster_set_def splice_def)
  next
    case True
    define n where "n = min (512 - b) (length bs - put)"
    have n: "0 < n" "b + n \<le> 512" "put + n \<le> length bs" using True less(3) by (auto simp: n_def)
    have "s * 512 < spc f * 512" using less(5) True by (simp add: csize_def)
    then have s: "s < spc f" by simp
    let ?zs = "slice put n bs"
    have lz: "length ?zs = n" using n(3) by simp
    note lba = cluster_lba [OF less(2) assms(1) s]
    have on: "on_disk_sec f d (unat (fat16_cluster_to_lba f c + of_nat s))"
      unfolding lba by (rule cluster_sec_bound(1) [OF less(2) assms(1) s])
    have "b + length ?zs \<le> 512" using n(2) lz by simp
    from write_sector_cluster [OF less(2) assms(1) s this] obtain d1 where
      d1: "fat16_write_sector f (fat16_cluster_to_lba f c + of_nat s) (splice b ?zs (sec_at f d (cluster_sec f c s))) d = (True, d1)"
        "cluster_set f c (splice (s * 512 + b) ?zs (cluster_bytes f d c)) d d1" by blast
    have step: "write_cluster f (fat16_cluster_to_lba f c + of_nat s) b bs put d
        = write_cluster f (fat16_cluster_to_lba f c + of_nat (Suc s)) 0 bs (put + n) d1"
      using True less(3) sector_read [OF less(2) on, of "[]"] lba d1(1)
      by (subst write_cluster.simps) (simp add: n_def [symmetric] add_ac)
    show ?thesis
    proof (cases "put + n = length bs")
      case full: True
      then have "?zs = drop put bs" by (simp add: slice_def)
      then show ?thesis using step d1(2) full by (subst (asm) write_cluster.simps) simp
    next
      case False
      then have e: "b + n = 512" using n by (auto simp: n_def)
      have ok1: "fat_ok f d1" using d1(2) by (simp add: cluster_set_def)
      have "\<exists>d'. write_cluster f (fat16_cluster_to_lba f c + of_nat (Suc s)) 0 bs (put + n) d1 = (length bs, d')
          \<and> cluster_set f c (splice (Suc s * 512 + 0) (drop (put + n) bs) (cluster_bytes f d1 c)) d1 d'"
        by (rule less(1)) (use n e less(5) True ok1 in auto)
      then obtain d' where d': "write_cluster f (fat16_cluster_to_lba f c + of_nat (Suc s)) 0 bs (put + n) d1 = (length bs, d')"
        "cluster_set f c (splice (Suc s * 512 + 0) (drop (put + n) bs) (cluster_bytes f d1 c)) d1 d'" by blast
      have e2: "Suc s * 512 + 0 = s * 512 + b + length ?zs" using e lz by simp
      have "s * 512 + b + length ?zs + length (drop (put + n) bs) \<le> length (cluster_bytes f d c)"
        using less(5) n lz length_cluster_bytes [OF less(2), of c] by simp
      then have "splice (Suc s * 512 + 0) (drop (put + n) bs) (cluster_bytes f d1 c)
          = splice (s * 512 + b) (?zs @ drop (put + n) bs) (cluster_bytes f d c)"
        using d1(2) unfolding e2 cluster_set_def by (simp only: splice_splice_adjacent)
      moreover have "?zs @ drop (put + n) bs = drop put bs"
        using append_take_drop_id [of n "drop put bs"] by (simp only: slice_def drop_drop add.commute)
      ultimately show ?thesis using step d'(1) cluster_set_trans [OF d1(2)] d'(2) by simp
    qed
  qed
qed

text \<open>What a change of one cluster leaves alone.\<close>

lemma cluster_set_other:
  assumes "fat_ok f d" "data_cluster f c" "cluster_set f c bs d d'"
  shows "data_cluster f c' \<Longrightarrow> c' \<noteq> c \<Longrightarrow> cluster_bytes f d' c' = cluster_bytes f d c'"
    "valid_cluster f x \<Longrightarrow> fat16_get_fat_entry f x d' = fat16_get_fat_entry f x d"
proof -
  have ok': "fat_ok f d'" using assms(3) by (simp add: cluster_set_def)
  show "cluster_bytes f d' c' = cluster_bytes f d c'" if c': "data_cluster f c'" "c' \<noteq> c"
  proof -
    have "sec_at f d' (cluster_sec f c' i) = sec_at f d (cluster_sec f c' i)" if "i < spc f" for i
    proof -
      have "\<forall>s < spc f. cluster_sec f c' i \<noteq> cluster_sec f c s"
        using cluster_sec_inj(1) [OF c'(1) assms(2) that] c'(2) by blast
      then show ?thesis using assms(3) by (simp add: cluster_set_def)
    qed
    then show ?thesis unfolding cluster_bytes_def by (intro arg_cong [of _ _ concat] map_cong) simp_all
  qed
  show "fat16_get_fat_entry f x d' = fat16_get_fat_entry f x d" if x: "valid_cluster f x"
  proof -
    have "0 < copies f" using assms(1) by (simp add: fat_ok_def word_less_nat_alt)
    then have "\<forall>s < spc f. copy_sec f 0 x \<noteq> cluster_sec f c s"
      using table_below_data [OF assms(1) x, of 0 c] by metis
    then have "sec_at f d' (copy_sec f 0 x) = sec_at f d (copy_sec f 0 x)"
      using assms(3) by (simp add: cluster_set_def)
    then show ?thesis using get_entry [OF assms(1) x] get_entry [OF ok' x] by (simp add: table_entry_def)
  qed
qed

end
