(* ===== verification/Fat16_Files.thy ===== *)
theory Fat16_Files
  imports Fat16_Data
begin

text \<open>
  Files as chains of clusters: reading a range, writing one with the chain growing on demand, and what a second
  file sees of it.
\<close>

section \<open>Chains\<close>

definition chain :: "fat16 \<Rightarrow> disk \<Rightarrow> u16 list \<Rightarrow> bool" where
  "chain f d cs \<longleftrightarrow> cs \<noteq> [] \<and> distinct cs \<and> (\<forall>c \<in> set cs. data_cluster f c)
     \<and> (\<forall>i < length cs. if Suc i < length cs then fat16_get_fat_entry f (cs ! i) d = cs ! Suc i
                         else fat16_get_fat_entry f (cs ! i) d \<ge> 0xFFF8)"

definition content :: "fat16 \<Rightarrow> disk \<Rightarrow> u16 list \<Rightarrow> u8 list" where
  "content f d cs = concat (map (cluster_bytes f d) cs)"

lemma length_content: "fat_ok f d \<Longrightarrow> length (content f d cs) = length cs * csize f"
  unfolding content_def by (rule length_concat_blocks) (simp add: length_cluster_bytes)

lemma csize_pos: "fat_ok f d \<Longrightarrow> 0 < csize f"
  by (simp add: fat_ok_def csize_def word_less_nat_alt)

lemma data_cluster_range: "fat_ok f d \<Longrightarrow> data_cluster f c \<Longrightarrow> 2 \<le> c \<and> c < 0xFFF8"
  by (simp add: fat_ok_def data_cluster_def valid_cluster_def word_less_nat_alt)

lemma chain_cluster: "chain f d cs \<Longrightarrow> k < length cs \<Longrightarrow> data_cluster f (cs ! k)"
  by (simp add: chain_def)

lemma chain_next: "chain f d cs \<Longrightarrow> Suc k < length cs \<Longrightarrow> fat16_get_fat_entry f (cs ! k) d = cs ! Suc k"
  by (auto simp: chain_def)

lemma content_slice:
  assumes "fat_ok f d" "k < length cs" "b + n \<le> csize f"
  shows "slice b n (cluster_bytes f d (cs ! k)) = slice (k * csize f + b) n (content f d cs)"
proof -
  have "slice (k * csize f) (csize f) (content f d cs) = cluster_bytes f d (cs ! k)"
    unfolding content_def by (rule slice_concat_block) (use assms(2) length_cluster_bytes [OF assms(1)] in auto)
  then have "slice b n (cluster_bytes f d (cs ! k)) = slice b n (slice (k * csize f) (csize f) (content f d cs))" by simp
  also have "\<dots> = slice (k * csize f + b) n (content f d cs)"
    using assms(3) by (simp add: slice_def drop_take min_def add.commute)
  finally show ?thesis .
qed

section \<open>Reading\<close>

lemma skip_clusters_ok:
  assumes "fat_ok f d" "chain f d cs" "k + n < length cs"
  shows "skip_clusters n f (cs ! k) d = Some (cs ! (k + n))"
  using assms(3)
proof (induction n arbitrary: k)
  case (Suc n)
  have e: "fat16_get_fat_entry f (cs ! k) d = cs ! Suc k" using Suc.prems by (intro chain_next [OF assms(2)]) simp
  have "data_cluster f (cs ! Suc k)" using Suc.prems by (intro chain_cluster [OF assms(2)]) simp
  then have "\<not> cs ! Suc k \<ge> 0xFFF8" using data_cluster_range [OF assms(1)] by (simp add: not_le)
  then show ?case using Suc.IH [of "Suc k"] Suc.prems by (simp add: e)
qed simp

lemma read_chain_ok:
  assumes ok: "fat_ok f d" "chain f d cs"
    and k: "k < length cs" "b < csize f" "got \<le> sz" "k * csize f + b + (sz - got) \<le> length cs * csize f"
  shows "read_chain f (csize f) sz (cs ! k) b got out d = Some (sz, out @ slice (k * csize f + b) (sz - got) (content f d cs))"
  using k
proof (induction "sz - got" arbitrary: k b got out rule: less_induct)
  case less
  show ?case
  proof (cases "got < sz")
    case False
    then show ?thesis using less(4) by (subst read_chain.simps) (simp add: slice_def)
  next
    case True
    define n where "n = min (csize f - b) (sz - got)"
    have n: "0 < n" "b + n \<le> csize f" "got + n \<le> sz" using True less(3) by (auto simp: n_def)
    have dc: "data_cluster f (cs ! k)" by (rule chain_cluster [OF ok(2) less(2)])
    have "b div 512 * 512 + b mod 512 + (n - 0) \<le> csize f" using n(2) by simp
    from read_cluster_ok [OF ok(1) dc _ _ this] have rc:
      "read_cluster f (fat16_cluster_to_lba f (cs ! k) + of_nat (b div 512)) (b mod 512) n 0 [] d
        = (n, slice b n (cluster_bytes f d (cs ! k)))" by simp
    have range: "2 \<le> cs ! k \<and> cs ! k < 0xFFF8" by (rule data_cluster_range [OF ok(1) dc])
    have step: "read_chain f (csize f) sz (cs ! k) b got out d
        = read_chain f (csize f) sz (fat16_get_fat_entry f (cs ! k) d) 0 (got + n) (out @ slice (k * csize f + b) n (content f d cs)) d"
      using True range rc content_slice [OF ok(1) less(2) n(2)]
      by (subst read_chain.simps) (simp add: Let_def n_def [symmetric])
    show ?thesis
    proof (cases "got + n = sz")
      case full: True
      then have "sz - got = n" by simp
      then show ?thesis unfolding step using full by (subst read_chain.simps) simp
    next
      case False
      then have e: "b + n = csize f" using n by (auto simp: n_def)
      have "Suc k * csize f < length cs * csize f" using less(5) e n False by simp
      then have k1: "Suc k < length cs" by (simp only: mult_less_cancel2)
      have "read_chain f (csize f) sz (cs ! Suc k) 0 (got + n) (out @ slice (k * csize f + b) n (content f d cs)) d
          = Some (sz, (out @ slice (k * csize f + b) n (content f d cs)) @ slice (Suc k * csize f + 0) (sz - (got + n)) (content f d cs))"
        by (rule less(1)) (use n e less(5) True k1 csize_pos [OF ok(1)] in auto)
      moreover have e2: "Suc k * csize f + 0 = k * csize f + b + n" using e by simp
      have "n + (sz - (got + n)) = sz - got" using n by simp
      then have "slice (k * csize f + b) n (content f d cs) @ slice (Suc k * csize f + 0) (sz - (got + n)) (content f d cs)
          = slice (k * csize f + b) (sz - got) (content f d cs)" unfolding e2 by (simp only: slice_append_slice)
      ultimately show ?thesis unfolding step chain_next [OF ok(2) k1] by (simp only: append_assoc)
    qed
  qed
qed

lemma node_read_chain:
  assumes "fat_ok f d" "chain f d cs" "ucast (f_gid node) = hd cs"
    and "unat off + unat sz \<le> unat (f_size node)" "unat off + unat sz \<le> length cs * csize f" "0 < sz"
  shows "fat16_node_read f node off sz d = Some (sz, slice (unat off) (unat sz) (content f d cs))"
proof -
  have sz: "0 < unat sz" using assms(6) by (simp add: word_less_nat_alt)
  have u: "unat (off + sz) = unat off + unat sz" using assms(4) unat_u32_bound [of "f_size node"] by (intro unat_plus_u32) simp
  have lt: "\<not> f_size node \<le> off" "\<not> f_size node < off + sz"
    using assms(4) sz u by (simp_all add: word_le_nat_alt word_less_nat_alt)
  have cs: "cs \<noteq> []" using assms(2) by (simp add: chain_def)
  then have hd: "hd cs = cs ! 0" by (rule hd_conv_nth)
  have "data_cluster f (cs ! 0)" by (rule chain_cluster [OF assms(2)]) (use cs in simp)
  then have c2: "\<not> hd cs < 2" unfolding hd by (simp add: data_cluster_def not_less)
  have k: "unat off div csize f < length cs"
    using assms(5) sz by (intro less_mult_imp_div_less) simp
  have "skip_clusters (unat off div csize f) f (hd cs) d = Some (cs ! (unat off div csize f))"
    using skip_clusters_ok [OF assms(1,2), of 0] k unfolding hd by simp
  moreover have "read_chain f (csize f) (unat sz) (cs ! (unat off div csize f)) (unat off mod csize f) 0 [] d
      = Some (unat sz, slice (unat off) (unat sz) (content f d cs))"
    using read_chain_ok [OF assms(1,2) k, of "unat off mod csize f" 0 "unat sz" "[]"] csize_pos [OF assms(1)] assms(5) by simp
  moreover have "csize f \<noteq> 0" using csize_pos [OF assms(1)] by simp
  ultimately show ?thesis using lt c2 assms(3)
    by (simp add: fat16_node_read_def Let_def csize_def [symmetric])
qed

section \<open>Growing a chain\<close>

definition free_clusters :: "fat16 \<Rightarrow> disk \<Rightarrow> u16 set" where
  "free_clusters f d = {c. data_cluster f c \<and> fat16_get_fat_entry f c d = 0}"

text \<open>Outside \<open>S\<close>, links and data are the same.\<close>

definition others_kept :: "fat16 \<Rightarrow> u16 set \<Rightarrow> disk \<Rightarrow> disk \<Rightarrow> bool" where
  "others_kept f S d d' \<longleftrightarrow>
     (\<forall>c. data_cluster f c \<and> c \<notin> S \<longrightarrow> fat16_get_fat_entry f c d' = fat16_get_fat_entry f c d
                                     \<and> cluster_bytes f d' c = cluster_bytes f d c)"

lemma others_kept_trans:
  "others_kept f S d d1 \<Longrightarrow> others_kept f T d1 d' \<Longrightarrow> S \<subseteq> T \<Longrightarrow> others_kept f T d d'"
  unfolding others_kept_def by (metis subsetD)

lemma chain_entry_nonzero:
  assumes "chain f d cs" "c \<in> set cs"
  shows "fat16_get_fat_entry f c d \<noteq> 0"
proof -
  obtain i where i: "i < length cs" "c = cs ! i" using assms(2) by (auto simp: in_set_conv_nth)
  show ?thesis
  proof (cases "Suc i < length cs")
    case True
    then have "data_cluster f (cs ! Suc i)" by (rule chain_cluster [OF assms(1)])
    then have "cs ! Suc i \<noteq> 0" by (auto simp: data_cluster_def)
    then show ?thesis using chain_next [OF assms(1) True] i(2) by simp
  next
    case False
    then have "fat16_get_fat_entry f (cs ! i) d \<ge> 0xFFF8" using assms(1) i(1) by (auto simp: chain_def)
    then show ?thesis using i(2) by auto
  qed
qed

lemma chain_kept:
  assumes "chain f d cs" "others_kept f S d d'" "set cs \<inter> S = {}"
  shows "chain f d' cs" "content f d' cs = content f d cs"
proof -
  have e: "fat16_get_fat_entry f (cs ! i) d' = fat16_get_fat_entry f (cs ! i) d" "cluster_bytes f d' (cs ! i) = cluster_bytes f d (cs ! i)"
    if "i < length cs" for i
  proof -
    have "cs ! i \<notin> S" using nth_mem [OF that] assms(3) by blast
    then show "fat16_get_fat_entry f (cs ! i) d' = fat16_get_fat_entry f (cs ! i) d"
      "cluster_bytes f d' (cs ! i) = cluster_bytes f d (cs ! i)"
      using assms(2) chain_cluster [OF assms(1) that] by (simp_all add: others_kept_def)
  qed
  show "chain f d' cs" using assms(1) e(1) by (simp add: chain_def)
  have "map (cluster_bytes f d') cs = map (cluster_bytes f d) cs" by (rule nth_equalityI) (simp_all add: e(2))
  then show "content f d' cs = content f d cs" unfolding content_def by (rule arg_cong)
qed

lemma grow_chain:
  assumes ok: "fat_ok f d" "chain f d cs" and new: "new \<in> free_clusters f d"
    and a: "fat16_set_fat_entry f new 0xFFFF d = (True, d1)" and b: "fat16_set_fat_entry f (last cs) new d1 = (r, d')"
  shows "fat_ok f d'" "chain f d' (cs @ [new])" "free_clusters f d' = free_clusters f d - {new}"
    "cluster_bytes f d' c = cluster_bytes f d c" "others_kept f (set (cs @ [new])) d d'"
proof -
  have cs: "cs \<noteq> []" using ok(2) by (simp add: chain_def)
  have dn: "data_cluster f new" "fat16_get_fat_entry f new d = 0" using new by (simp_all add: free_clusters_def)
  have dl: "data_cluster f (last cs)" using ok(2) cs by (simp add: chain_def)
  have v: "valid_cluster f new" "valid_cluster f (last cs)" using dn(1) dl by (simp_all add: data_cluster_def)
  note g1 = get_set_entry [OF ok(1) v(1) a]
  note g2 = get_set_entry [OF g1(2) v(2) b]
  show "fat_ok f d'" by (rule g2(2))
  have fresh: "new \<notin> set cs" using chain_entry_nonzero [OF ok(2)] dn(2) by blast
  have e: "fat16_get_fat_entry f c d' = (if c = last cs then new else if c = new then 0xFFFF else fat16_get_fat_entry f c d)"
    if "valid_cluster f c" for c
    using g1(4) [OF that] g2(4) [OF that] by simp
  have bytes: "cluster_bytes f d' c = cluster_bytes f d c" for c
    using set_entry_bytes [OF ok(1) v(1) a, of c] set_entry_bytes [OF g1(2) v(2) b, of c] by simp
  then show "cluster_bytes f d' c = cluster_bytes f d c" .
  show "others_kept f (set (cs @ [new])) d d'"
    using e bytes last_in_set [OF cs] by (auto simp: others_kept_def data_cluster_def)
  have ln: "new \<noteq> 0" "last cs \<noteq> 0" using dn(1) dl by (auto simp: data_cluster_def)
  have "fat16_get_fat_entry f (last cs) d \<noteq> 0" by (rule chain_entry_nonzero [OF ok(2)]) (use cs in simp)
  then show "free_clusters f d' = free_clusters f d - {new}"
    using e ln by (auto simp: free_clusters_def data_cluster_def split: if_splits)
  have all: "\<forall>c \<in> set (cs @ [new]). data_cluster f c" using ok(2) dn(1) by (simp add: chain_def)
  have "if Suc i < length (cs @ [new]) then fat16_get_fat_entry f ((cs @ [new]) ! i) d' = (cs @ [new]) ! Suc i
      else fat16_get_fat_entry f ((cs @ [new]) ! i) d' \<ge> 0xFFF8" if i: "i < length (cs @ [new])" for i
  proof -
    have vi: "valid_cluster f ((cs @ [new]) ! i)" using all nth_mem [OF i] by (auto simp: data_cluster_def)
    consider "i = length cs" | "Suc i = length cs" | "Suc i < length cs" using i by fastforce
    then show ?thesis
    proof cases
      case 1
      then have "new \<noteq> last cs" using fresh cs by (metis last_in_set)
      then show ?thesis using 1 e [OF v(1)] by simp
    next
      case 2
      then have "cs ! i = last cs" using cs by (metis diff_Suc_1 last_conv_nth)
      then show ?thesis using 2 e [OF v(2)] by (simp add: nth_append)
    next
      case 3
      have "cs ! i \<noteq> last cs" using ok(2) cs 3
        by (metis Suc_lessD chain_def diff_Suc_1 last_conv_nth length_greater_0_conv less_not_refl lessI nth_eq_iff_index_eq Suc_pred)
      moreover have "cs ! i \<noteq> new" using fresh 3 by (metis Suc_lessD nth_mem)
      ultimately show ?thesis using 3 e [OF vi] chain_next [OF ok(2) 3] by (simp add: nth_append)
    qed
  qed
  then show "chain f d' (cs @ [new])" using ok(2) fresh all by (simp add: chain_def)
qed

lemma next_cluster_ok:
  assumes ok: "fat_ok f d" "chain f d cs" and k: "k < length cs" "Suc k < length cs \<or> free_clusters f d \<noteq> {}"
  obtains c d' new where "next_cluster f (cs ! k) d = (Some c, d')" "fat_ok f d'" "chain f d' (cs @ new)"
    "Suc k < length (cs @ new)" "(cs @ new) ! Suc k = c" "set new \<subseteq> free_clusters f d" "distinct new"
    "Suc k < length cs \<Longrightarrow> new = []" "free_clusters f d' = free_clusters f d - set new"
    "\<And>x. cluster_bytes f d' x = cluster_bytes f d x" "others_kept f (set (cs @ new)) d d'"
proof (cases "Suc k < length cs")
  case True
  have "data_cluster f (cs ! Suc k)" by (rule chain_cluster [OF ok(2) True])
  then have "\<not> cs ! Suc k \<ge> 0xFFF8" using data_cluster_range [OF ok(1)] by (simp add: not_le)
  then have "next_cluster f (cs ! k) d = (Some (cs ! Suc k), d)"
    using chain_next [OF ok(2) True] by (simp add: next_cluster_def)
  then show ?thesis using that [of "cs ! Suc k" d "[]"] ok True by (simp add: others_kept_def)
next
  case False
  then have last: "cs ! k = last cs" using k(1) ok(2) by (metis Suc_lessI chain_def diff_Suc_1 last_conv_nth)
  have end_mark: "fat16_get_fat_entry f (last cs) d \<ge> 0xFFF8" using ok(2) k(1) False last by (auto simp: chain_def)
  from False k(2) obtain c where c: "data_cluster f c" "fat16_get_fat_entry f c d = 0" by (auto simp: free_clusters_def)
  show ?thesis
  proof (cases rule: alloc_cases [OF ok(1)])
    case 1
    have "2 \<le> unat c \<and> unat c < clusters f" using c(1) by (auto simp: data_cluster_def valid_cluster_def clusters_def word_le_nat_alt)
    then show ?thesis using 1(2) c(2) by auto
  next
    case (2 i d1)
    let ?new = "of_nat i :: u16"
    have dn: "data_cluster f ?new"
      using 2(2,4) cluster_index(2) [OF ok(1) 2(3)] by (simp add: data_cluster_def word_le_nat_alt)
    then have fr: "?new \<in> free_clusters f d" using 2(5) by (simp add: free_clusters_def)
    have nz: "?new \<noteq> 0" using dn by (auto simp: data_cluster_def)
    obtain r d' where s: "fat16_set_fat_entry f (last cs) ?new d1 = (r, d')" by (rule prod.exhaust)
    note g = grow_chain [OF ok fr 2(6) s]
    have "next_cluster f (cs ! k) d = (Some ?new, d')"
      using end_mark 2(1) nz s by (simp add: next_cluster_def last)
    moreover have "Suc k = length cs" using False k(1) by simp
    ultimately show ?thesis using that [of ?new d' "[?new]"] g fr False by (simp add: nth_append)
  qed
qed

text \<open>\<open>new\<close> was appended to the chain \<open>cs\<close>.\<close>

definition grown :: "fat16 \<Rightarrow> u16 list \<Rightarrow> u16 list \<Rightarrow> disk \<Rightarrow> disk \<Rightarrow> bool" where
  "grown f cs new d d' \<longleftrightarrow> fat_ok f d' \<and> chain f d' (cs @ new) \<and> set new \<subseteq> free_clusters f d \<and> distinct new
     \<and> free_clusters f d' = free_clusters f d - set new \<and> others_kept f (set (cs @ new)) d d'"

lemma grown_trans: "grown f cs new d d1 \<Longrightarrow> grown f (cs @ new) new' d1 d' \<Longrightarrow> grown f cs (new @ new') d d'"
  unfolding grown_def by (auto intro: others_kept_trans)

lemma grown_card: "grown f cs new d d' \<Longrightarrow> card (free_clusters f d') + length new = card (free_clusters f d)"
proof -
  assume g: "grown f cs new d d'"
  then have "card (free_clusters f d') = card (free_clusters f d) - card (set new)"
    unfolding grown_def by (simp add: card_Diff_subset)
  moreover have "card (set new) \<le> card (free_clusters f d)" using g unfolding grown_def by (intro card_mono) auto
  ultimately show ?thesis using g by (simp add: grown_def distinct_card)
qed

lemma next_cluster_grown:
  assumes ok: "fat_ok f d" "chain f d cs" and k: "k < length cs" "Suc k < length cs + card (free_clusters f d)"
  obtains c d' new where "next_cluster f (cs ! k) d = (Some c, d')" "grown f cs new d d'"
    "Suc k < length (cs @ new)" "(cs @ new) ! Suc k = c" "\<And>x. cluster_bytes f d' x = cluster_bytes f d x"
proof -
  have "Suc k < length cs \<or> free_clusters f d \<noteq> {}" using k by auto
  from next_cluster_ok [OF ok k(1) this] that show ?thesis unfolding grown_def by metis
qed

lemma walk_clusters_ok:
  assumes "fat_ok f d" "chain f d cs" "k < length cs" "k + n < length cs + card (free_clusters f d)"
  shows "\<exists>c d' new. walk_clusters n f (cs ! k) d = (Some c, d') \<and> grown f cs new d d' \<and> k + n < length (cs @ new)
    \<and> (cs @ new) ! (k + n) = c \<and> (\<forall>x. cluster_bytes f d' x = cluster_bytes f d x)"
  using assms
proof (induction n arbitrary: k d cs)
  case 0
  then show ?case by (intro exI [of _ "cs ! k"] exI [of _ d] exI [of _ "[]"]) (simp add: grown_def others_kept_def)
next
  case (Suc n)
  have "Suc k < length cs + card (free_clusters f d)" using Suc.prems(4) by simp
  from next_cluster_grown [OF Suc.prems(1-3) this] obtain c d1 new where
    n: "next_cluster f (cs ! k) d = (Some c, d1)" "grown f cs new d d1" "Suc k < length (cs @ new)" "(cs @ new) ! Suc k = c"
      "\<And>x. cluster_bytes f d1 x = cluster_bytes f d x" by blast
  have "Suc k + n < length (cs @ new) + card (free_clusters f d1)" using grown_card [OF n(2)] Suc.prems(4) by simp
  from Suc.IH [OF _ _ n(3) this] n(2) obtain c' d' new' where
    w: "walk_clusters n f c d1 = (Some c', d')" "grown f (cs @ new) new' d1 d'" "Suc k + n < length ((cs @ new) @ new')"
      "((cs @ new) @ new') ! (Suc k + n) = c'" "\<forall>x. cluster_bytes f d' x = cluster_bytes f d1 x"
    unfolding n(4) by (auto simp: grown_def)
  show ?case
    using n(1,5) w grown_trans [OF n(2) w(2)]
    by (intro exI [of _ c'] exI [of _ d'] exI [of _ "new @ new'"]) simp
qed

section \<open>Writing\<close>

lemma content_cluster_set:
  assumes "fat_ok f d" "distinct cs" "\<forall>c \<in> set cs. data_cluster f c" "k < length cs" "b + length bs \<le> csize f"
    and "cluster_set f (cs ! k) (splice b bs (cluster_bytes f d (cs ! k))) d d'"
  shows "content f d' cs = splice (k * csize f + b) bs (content f d cs)"
proof -
  have dc: "data_cluster f (cs ! k)" using assms(3,4) by simp
  have l: "length (cluster_bytes f d c) = csize f" for c by (rule length_cluster_bytes [OF assms(1)])
  have "content f d' cs = splice (k * csize f) (splice b bs (cluster_bytes f d (cs ! k))) (content f d cs)"
    unfolding content_def
  proof (rule concat_block_update)
    show "\<forall>c \<in> set cs. cluster_bytes f d' c = (if c = cs ! k then splice b bs (cluster_bytes f d (cs ! k)) else cluster_bytes f d c)"
      using assms(3,6) cluster_set_other(1) [OF assms(1) dc assms(6)] by (auto simp: cluster_set_def)
  qed (use assms(2,4,5) l in auto)
  moreover have "cluster_bytes f d (cs ! k) = slice (k * csize f) (csize f) (content f d cs)"
    using content_slice [OF assms(1,4), of 0 "csize f"] l by (simp add: slice_def)
  moreover have "Suc k * csize f \<le> length cs * csize f" using assms(4) by (intro mult_le_mono1) simp
  ultimately show ?thesis using splice_splice_nested [of "k * csize f" "csize f" "content f d cs" b bs] assms(5)
    by (simp add: length_content [OF assms(1)])
qed

lemma cluster_set_grown:
  assumes "fat_ok f d" "chain f d cs" "k < length cs" "cluster_set f (cs ! k) bs d d'"
  shows "grown f cs [] d d'"
proof -
  have dc: "data_cluster f (cs ! k)" by (rule chain_cluster [OF assms(2,3)])
  note o = cluster_set_other [OF assms(1) dc assms(4)]
  have v: "valid_cluster f (cs ! i)" if "i < length cs" for i using chain_cluster [OF assms(2) that] by (simp add: data_cluster_def)
  have "chain f d' cs" using assms(2) o(2) v by (simp add: chain_def)
  moreover have "free_clusters f d' = free_clusters f d" using o(2) by (auto simp: free_clusters_def data_cluster_def)
  moreover have "others_kept f (set cs) d d'" using o nth_mem [OF assms(3)] by (auto simp: others_kept_def data_cluster_def)
  moreover have "fat_ok f d'" using assms(4) by (simp add: cluster_set_def)
  ultimately show ?thesis by (simp add: grown_def)
qed

lemma content_bytes_cong: "(\<And>x. cluster_bytes f d' x = cluster_bytes f d x) \<Longrightarrow> content f d' cs = content f d cs"
  unfolding content_def by (intro arg_cong [where f = concat] map_cong) simp_all

lemma write_chain_ok:
  assumes "fat_ok f d" "chain f d cs" "k < length cs" "b < csize f" "written \<le> length buf"
    and "k * csize f + b + (length buf - written) \<le> (length cs + card (free_clusters f d)) * csize f"
  shows "\<exists>d' new. write_chain f (csize f) (cs ! k) b buf written d = Some (length buf, d') \<and> grown f cs new d d'
    \<and> k * csize f + b + (length buf - written) \<le> length (cs @ new) * csize f
    \<and> content f d' (cs @ new) = splice (k * csize f + b) (drop written buf) (content f d (cs @ new))"
  using assms
proof (induction "length buf - written" arbitrary: k b written d cs rule: less_induct)
  case less
  show ?case
  proof (cases "written < length buf")
    case False
    have "Suc k * csize f \<le> length cs * csize f" using less(4) by (intro mult_le_mono1) simp
    then show ?thesis using False less(2-6)
      by (subst write_chain.simps) (intro exI [of _ d] exI [of _ "[]"], simp add: grown_def others_kept_def splice_def)
  next
    case True
    define n where "n = min (csize f - b) (length buf - written)"
    have n: "0 < n" "b + n \<le> csize f" "written + n \<le> length buf" using True less(5) by (auto simp: n_def)
    let ?bs = "slice written n buf"
    have lb: "length ?bs = n" using n(3) by simp
    have dc: "data_cluster f (cs ! k)" by (rule chain_cluster [OF less(3,4)])
    have "b div 512 * 512 + b mod 512 + (length ?bs - 0) \<le> csize f" using n(2) lb by simp
    from write_cluster_ok [OF dc less(2) _ _ this] obtain d1 where
      d1: "write_cluster f (fat16_cluster_to_lba f (cs ! k) + of_nat (b div 512)) (b mod 512) ?bs 0 d = (n, d1)"
        "cluster_set f (cs ! k) (splice b ?bs (cluster_bytes f d (cs ! k))) d d1" using lb by auto
    have g1: "grown f cs [] d d1" by (rule cluster_set_grown [OF less(2-4) d1(2)])
    then have ok1: "fat_ok f d1" "chain f d1 cs" by (simp_all add: grown_def)
    have step: "write_chain f (csize f) (cs ! k) b buf written d
        = (if written + n < length buf
           then case next_cluster f (cs ! k) d1 of
                  (None, d) \<Rightarrow> Some (written + n, d) | (Some c, d) \<Rightarrow> write_chain f (csize f) c 0 buf (written + n) d
           else Some (written + n, d1))"
      using True d1(1) by (subst write_chain.simps) (simp add: Let_def n_def [symmetric])
    show ?thesis
    proof (cases "written + n = length buf")
      case full: True
      then have "?bs = drop written buf" by (simp add: slice_def)
      moreover have "content f d1 cs = splice (k * csize f + b) ?bs (content f d cs)"
        by (rule content_cluster_set [OF less(2) _ _ less(4) _ d1(2)]) (use less(3) n lb in \<open>auto simp: chain_def\<close>)
      moreover have "Suc k * csize f \<le> length cs * csize f" using less(4) by (intro mult_le_mono1) simp
      ultimately show ?thesis using g1 full n(2) unfolding step by (intro exI [of _ d1] exI [of _ "[]"]) simp
    next
      case False
      then have e: "b + n = csize f" "written + n < length buf" using n by (auto simp: n_def)
      have c1: "card (free_clusters f d1) = card (free_clusters f d)" using grown_card [OF g1] by simp
      have "Suc k * csize f < (length cs + card (free_clusters f d)) * csize f" using less(7) e by simp
      then have "Suc k < length cs + card (free_clusters f d1)" unfolding c1 by (simp only: mult_less_cancel2)
      from next_cluster_grown [OF ok1 less(4) this] obtain c d2 new1 where
        d2: "next_cluster f (cs ! k) d1 = (Some c, d2)" "grown f cs new1 d1 d2" "Suc k < length (cs @ new1)"
          "(cs @ new1) ! Suc k = c" "\<And>x. cluster_bytes f d2 x = cluster_bytes f d1 x" by blast
      have c2: "card (free_clusters f d2) + length new1 = card (free_clusters f d)" using grown_card [OF d2(2)] c1 by simp
      have ok2: "fat_ok f d2" "chain f d2 (cs @ new1)" using d2(2) by (simp_all add: grown_def)
      have room: "Suc k * csize f + 0 + (length buf - (written + n)) \<le> (length (cs @ new1) + card (free_clusters f d2)) * csize f"
      proof -
        have l: "Suc k * csize f + 0 + (length buf - (written + n)) = k * csize f + b + (length buf - written)" using e by simp
        have r: "length (cs @ new1) + card (free_clusters f d2) = length cs + card (free_clusters f d)" using c2 by simp
        show ?thesis unfolding l r by (rule less(7))
      qed
      have "length buf - (written + n) < length buf - written" using n(1) True by simp
      from less(1) [OF this ok2 d2(3) csize_pos [OF ok2(1)] n(3) room] obtain d' new2 where
        d': "write_chain f (csize f) c 0 buf (written + n) d2 = Some (length buf, d')" "grown f (cs @ new1) new2 d2 d'"
          "Suc k * csize f + 0 + (length buf - (written + n)) \<le> length ((cs @ new1) @ new2) * csize f"
          "content f d' ((cs @ new1) @ new2) = splice (Suc k * csize f + 0) (drop (written + n) buf) (content f d2 ((cs @ new1) @ new2))"
        unfolding d2(4) by blast
      let ?cs = "(cs @ new1) @ new2"
      have g: "grown f cs (new1 @ new2) d d'" using grown_trans [OF g1] grown_trans [OF d2(2) d'(2)] by simp
      have all: "chain f d' ?cs" using d'(2) by (simp add: grown_def)
      have "content f d1 ?cs = splice (k * csize f + b) ?bs (content f d ?cs)"
      proof (rule content_cluster_set [OF less(2)])
        show "cluster_set f (?cs ! k) (splice b ?bs (cluster_bytes f d (?cs ! k))) d d1" using d1(2) less(4) by (simp add: nth_append)
      qed (use all less(4) n lb in \<open>auto simp: chain_def\<close>)
      then have "content f d2 ?cs = splice (k * csize f + b) ?bs (content f d ?cs)" using content_bytes_cong [OF d2(5)] by simp
      moreover have pos: "Suc k * csize f + 0 = k * csize f + b + length ?bs" using e(1) lb by simp
      moreover have "splice (k * csize f + b + length ?bs) (drop (written + n) buf) (splice (k * csize f + b) ?bs (content f d ?cs))
          = splice (k * csize f + b) (?bs @ drop (written + n) buf) (content f d ?cs)"
        by (rule splice_splice_adjacent) (use d'(3) pos length_content [OF less(2), of ?cs] in simp)
      moreover have "?bs @ drop (written + n) buf = drop written buf"
        using append_take_drop_id [of n "drop written buf"] by (simp only: slice_def drop_drop add.commute)
      ultimately have "content f d' ?cs = splice (k * csize f + b) (drop written buf) (content f d ?cs)"
        using d'(4) by (simp only:)
      moreover have "k * csize f + b + (length buf - written) \<le> length ?cs * csize f" using d'(3) e n by simp
      ultimately show ?thesis using g e(2) d'(1) unfolding step d2(1)
        by (intro exI [of _ d'] exI [of _ "new1 @ new2"]) simp
    qed
  qed
qed

section \<open>Properties\<close>

lemma csize_u16:
  assumes "fat_ok f d"
  shows "unat (ucast (sectors_per_cluster (bpb f)) * 512 :: u16) = csize f"
proof -
  have "spc f \<le> 64" using assms by (simp add: fat_ok_def word_le_nat_alt)
  moreover have "unat (ucast (sectors_per_cluster (bpb f)) :: u16) = spc f"
    using unat_u8_bound [of "sectors_per_cluster (bpb f)"] by (simp add: unsigned_ucast_eq take_bit_nat_eq_self)
  ultimately show ?thesis by (simp add: unat_word_ariths csize_def)
qed

lemma free_disjoint: "chain f d cs \<Longrightarrow> set cs \<inter> free_clusters f d = {}"
  using chain_entry_nonzero by (fastforce simp: free_clusters_def)

lemma node_write_chain:
  assumes ok: "fat_ok f d" "fat16_mounted f" "chain f d cs" "ucast (f_gid node) = hd cs" "buf \<noteq> []"
    and room: "unat off + length buf \<le> (length cs + card (free_clusters f d)) * csize f"
  shows "\<exists>d' new. fat16_node_write f node off buf d
      = Some ((of_nat (length buf),
          if off + of_nat (length buf) > f_size node then set_size (off + of_nat (length buf)) node else node), d')
    \<and> grown f cs new d d' \<and> unat off + length buf \<le> length (cs @ new) * csize f
    \<and> content f d' (cs @ new) = splice (unat off) buf (content f d (cs @ new))"
proof -
  have cs: "cs \<noteq> []" using ok(3) by (simp add: chain_def)
  then have hd: "hd cs = cs ! 0" by (rule hd_conv_nth)
  have "data_cluster f (cs ! 0)" by (rule chain_cluster [OF ok(3)]) (use cs in simp)
  then have c2: "\<not> hd cs < 2" "hd cs \<noteq> 0" unfolding hd by (auto simp: data_cluster_def not_less)
  let ?q = "unat off div csize f" and ?b = "unat off mod csize f"
  have b: "?b < csize f" using csize_pos [OF ok(1)] by simp
  have off: "?q * csize f + ?b = unat off" by simp
  have "0 < length buf" using ok(5) by simp
  then have "unat off < (length cs + card (free_clusters f d)) * csize f" using room by linarith
  then have "0 + ?q < length cs + card (free_clusters f d)" by (simp add: less_mult_imp_div_less)
  from walk_clusters_ok [OF ok(1,3) _ this] cs obtain c d1 new1 where
    w: "walk_clusters ?q f (hd cs) d = (Some c, d1)" "grown f cs new1 d d1" "?q < length (cs @ new1)" "(cs @ new1) ! ?q = c"
      "\<And>x. cluster_bytes f d1 x = cluster_bytes f d x" unfolding hd by auto
  have ok1: "fat_ok f d1" "chain f d1 (cs @ new1)" using w(2) by (simp_all add: grown_def)
  have "?q * csize f + ?b + (length buf - 0) \<le> (length (cs @ new1) + card (free_clusters f d1)) * csize f"
  proof -
    have r: "length (cs @ new1) + card (free_clusters f d1) = length cs + card (free_clusters f d)"
      using grown_card [OF w(2)] by simp
    show ?thesis unfolding r off using room by simp
  qed
  from write_chain_ok [OF ok1 w(3) b _ this] obtain d' new2 where
    d': "write_chain f (csize f) c ?b buf 0 d1 = Some (length buf, d')" "grown f (cs @ new1) new2 d1 d'"
      "unat off + length buf \<le> length ((cs @ new1) @ new2) * csize f"
      "content f d' ((cs @ new1) @ new2) = splice (unat off) buf (content f d1 ((cs @ new1) @ new2))"
    unfolding w(4) off by auto
  have "content f d1 ((cs @ new1) @ new2) = content f d ((cs @ new1) @ new2)" by (rule content_bytes_cong) (rule w(5))
  moreover have "fat16_node_write f node off buf d
      = Some ((of_nat (length buf),
          if off + of_nat (length buf) > f_size node then set_size (off + of_nat (length buf)) node else node), d')"
    using ok(2,4,5) c2 csize_pos [OF ok(1)] w(1) d'(1)
    by (simp add: fat16_node_write_def Let_def csize_u16 [OF ok(1)])
  ultimately show ?thesis using grown_trans [OF w(2) d'(2)] d'(3,4)
    by (intro exI [of _ d'] exI [of _ "new1 @ new2"]) simp
qed

text \<open>
  C3: What is written to a file on a FAT16 volume that owns a cluster already reads back. On a volume whose layout fits the disk, for every
  offset and every string of bytes that fit the file's clusters and the free ones: the write stores all of them,
  appending free clusters to the chain as it goes; the contents of the chain change in exactly that range; a read of the
  range returns the bytes; and every file whose chain shares no cluster with this one keeps its chain and contents.
\<close>

theorem fat16_write_read:
  assumes "fat_ok f d" "fat16_mounted f" "chain f d cs" "ucast (f_gid node) = hd cs" "buf \<noteq> []"
    and "unat off + length buf < 0x100000000"
    and "unat off + length buf \<le> (length cs + card (free_clusters f d)) * csize f"
  shows "\<exists>node' d' new. fat16_node_write f node off buf d = Some ((of_nat (length buf), node'), d')
    \<and> set new \<subseteq> free_clusters f d \<and> chain f d' (cs @ new)
    \<and> content f d' (cs @ new) = splice (unat off) buf (content f d (cs @ new))
    \<and> fat16_node_read f node' off (of_nat (length buf)) d' = Some (of_nat (length buf), buf)
    \<and> (\<forall>other. chain f d other \<and> set other \<inter> set cs = {} \<longrightarrow> chain f d' other \<and> content f d' other = content f d other)"
proof -
  let ?n = "of_nat (length buf) :: u32"
  let ?node = "if off + ?n > f_size node then set_size (off + ?n) node else node"
  from node_write_chain [OF assms(1-5,7)] obtain d' new where
    w: "fat16_node_write f node off buf d = Some ((?n, ?node), d')" "grown f cs new d d'"
      "unat off + length buf \<le> length (cs @ new) * csize f"
      "content f d' (cs @ new) = splice (unat off) buf (content f d (cs @ new))" by blast
  have g: "fat_ok f d'" "chain f d' (cs @ new)" "set new \<subseteq> free_clusters f d" "others_kept f (set (cs @ new)) d d'"
    using w(2) by (simp_all add: grown_def)
  have n: "unat ?n = length buf" "unat (off + ?n) = unat off + length buf" using assms(6) by (simp_all add: unat_plus_u32)
  have gid: "ucast (f_gid ?node) = hd (cs @ new)" using assms(3,4) by (simp add: set_size_def chain_def)
  have size: "unat off + unat ?n \<le> unat (f_size ?node)" using n by (simp add: set_size_def word_less_nat_alt)
  have "0 < length buf" using assms(5) by simp
  then have pos: "0 < ?n" using n(1) by (simp add: word_less_nat_alt)
  have "fat16_node_read f ?node off ?n d' = Some (?n, slice (unat off) (length buf) (content f d' (cs @ new)))"
    using node_read_chain [OF g(1,2) gid size _ pos] w(3) n(1) by simp
  also have "slice (unat off) (length buf) (content f d' (cs @ new)) = buf"
    unfolding w(4) using w(3) by (intro slice_splice_same) (simp add: length_content [OF assms(1)])
  finally have "fat16_node_read f ?node off ?n d' = Some (?n, buf)" .
  moreover have "chain f d' other \<and> content f d' other = content f d other"
    if "chain f d other" "set other \<inter> set cs = {}" for other
  proof -
    have "set other \<inter> set (cs @ new) = {}" using free_disjoint [OF that(1)] g(3) that(2) by auto
    from chain_kept [OF that(1) g(4) this] show ?thesis by blast
  qed
  ultimately show ?thesis using w(1,4) g(2,3) by (intro exI [of _ ?node] exI [of _ d'] exI [of _ new]) blast
qed

text \<open>
  C22: Releasing a file ends, and frees exactly what its first cluster leads to, even when the chain is a cycle or
  runs into another one: each step clears an entry, so a cluster is met at most once more.
\<close>

theorem fat16_free_chain_ends:
  assumes "fat_ok f d" "links_ok f d" "valid_cluster f c"
  shows "\<exists>d'. fat16_free_cluster_chain f c d = Some d' \<and> fat_ok f d'
    \<and> (\<forall>x. valid_cluster f x \<longrightarrow>
          fat16_get_fat_entry f x d' = (if x \<in> reached f d c then 0 else fat16_get_fat_entry f x d))"
  by (rule free_chain_frees [OF assms(1,2)]) (rule assms(3))

section \<open>Witnesses\<close>

text \<open>A volume of 100 clusters, with a file in cluster 2.\<close>

definition example_fat :: fat16 where
  "example_fat = \<lparr>partition_lba = 0,
     bpb = \<lparr>bytes_per_sector = 512, sectors_per_cluster = 1, reserved_sectors = 1, fat_count = 2, root_dir_entries = 16,
            total_sectors_16 = 104, sectors_per_fat_16 = 1, total_sectors_32 = 0\<rparr>,
     fat_start_lba = 1, root_dir_lba = 3, data_start_lba = 4, root_dir_sectors = 1, total_clusters = 100, fat16_mounted = True\<rparr>"

lemma example_fat_ok: "fat_ok example_fat example_disk"
  using example_disk(1) by (simp add: fat_ok_def example_fat_def example_disk_def)

lemma example_valid: "valid_cluster example_fat c \<longleftrightarrow> unat c < 102"
  by (simp add: valid_cluster_def example_fat_def)

lemma example_empty:
  assumes "valid_cluster example_fat c"
  shows "fat16_get_fat_entry example_fat c example_disk = 0"
  unfolding get_entry [OF example_fat_ok assms] using fat_index_bound [of c]
  by (simp add: table_entry_def get16_def sec_at_def example_disk_def)

definition example_volume :: disk where
  "example_volume = snd (fat16_set_fat_entry example_fat 2 0xFFFF example_disk)"

lemma example_volume:
  "fat_ok example_fat example_volume"
  "valid_cluster example_fat c \<Longrightarrow> fat16_get_fat_entry example_fat c example_volume = (if c = 2 then 0xFFFF else 0)"
proof -
  have v: "valid_cluster example_fat 2" by (simp add: example_valid)
  have s: "fat16_set_fat_entry example_fat 2 0xFFFF example_disk = (fst (fat16_set_fat_entry example_fat 2 0xFFFF example_disk), example_volume)"
    by (simp add: example_volume_def)
  note g = get_set_entry [OF example_fat_ok v s]
  show "fat_ok example_fat example_volume" by (rule g(2))
  show "fat16_get_fat_entry example_fat c example_volume = (if c = 2 then 0xFFFF else 0)" if "valid_cluster example_fat c"
    using g(4) [OF that] example_empty [OF that] by simp
qed

lemma example_chain: "chain example_fat example_volume [2]"
  using example_volume(2) [of 2] by (simp add: chain_def data_cluster_def example_valid)

theorem fat16_write_read_witness:
  "\<exists>node' d'. fat16_node_write example_fat (Fat_node [] 1 0 0 2 []) 510 [1, 2, 3, 4] example_volume = Some ((4, node'), d')
     \<and> fat16_node_read example_fat node' 510 4 d' = Some (4, [1, 2, 3, 4])"
proof -
  have "3 \<in> free_clusters example_fat example_volume"
    using example_volume(2) [of 3] by (simp add: free_clusters_def data_cluster_def example_valid)
  then have "{3} \<subseteq> free_clusters example_fat example_volume" by simp
  then have "card {3 :: u16} \<le> card (free_clusters example_fat example_volume)" by (intro card_mono) simp_all
  moreover have c: "csize example_fat = 512" by (simp add: csize_def example_fat_def)
  ultimately have room: "unat (510 :: u32) + length [1, 2, 3, 4 :: u8]
      \<le> (length [2 :: u16] + card (free_clusters example_fat example_volume)) * csize example_fat" by simp
  have m: "fat16_mounted example_fat" by (simp add: example_fat_def)
  have "ucast (f_gid (Fat_node [] 1 0 0 2 [])) = hd [2 :: u16]" "[1, 2, 3, 4 :: u8] \<noteq> []"
    "unat (510 :: u32) + length [1, 2, 3, 4 :: u8] < 0x100000000" by simp_all
  note w = fat16_write_read [OF example_volume(1) m example_chain this room]
  have n: "of_nat (length [1, 2, 3, 4 :: u8]) = (4 :: u32)" by simp
  show ?thesis using w unfolding n by blast
qed

text \<open>Cluster 2 leads to itself.\<close>

theorem fat16_free_chain_ends_witness:
  "\<exists>d d'. fat16_get_fat_entry example_fat 2 d = 2 \<and> fat16_free_cluster_chain example_fat 2 d = Some d'
     \<and> fat16_get_fat_entry example_fat 2 d' = 0"
proof -
  have v: "valid_cluster example_fat 2" by (simp add: example_valid)
  obtain r d where s: "fat16_set_fat_entry example_fat 2 2 example_disk = (r, d)" by (rule prod.exhaust)
  note g = get_set_entry [OF example_fat_ok v s]
  have "links_ok example_fat d" using g(4) example_empty v by (auto simp: links_ok_def in_chain_def)
  from fat16_free_chain_ends [OF g(2) this v] obtain d' where
    "fat16_free_cluster_chain example_fat 2 d = Some d'"
    "fat16_get_fat_entry example_fat 2 d' = (if 2 \<in> reached example_fat d 2 then 0 else fat16_get_fat_entry example_fat 2 d)"
    using v by blast
  moreover have "2 \<in> reached example_fat d 2" by (simp add: reached_def in_chain_def)
  ultimately show ?thesis using g(4) [OF v] by auto
qed

end
