(* ===== verification/Tasm.thy ===== *)
theory Tasm
  imports Elf_Files Users_Files
begin

text \<open>
  The assembler, \<^verbatim>\<open>shell/tasm.c\<close>: two passes over the lines of a source file, the table of references
  patched behind the second pass, and the executable written around the code. The code buffer is the list of the bytes
  emitted so far; a store into it behind its end is \<open>None\<close>. Messages on the console are left out.
\<close>

section \<open>State\<close>

abbreviation MAX_LABELS :: nat where "MAX_LABELS \<equiv> 128"
abbreviation MAX_CODE :: nat where "MAX_CODE \<equiv> 8192"
abbreviation BASE_ADDR :: u32 where "BASE_ADDR \<equiv> 0x08048000"
abbreviation HDR_SIZE :: u32 where "HDR_SIZE \<equiv> 84"

record fixup_t =
  code_offset :: nat
  fx_name :: string
  fx_rel :: bool

record asm =
  labels :: "(string \<times> u32) list"
  fixups :: "fixup_t list"
  code :: "u8 list"

definition emit8 :: "u8 \<Rightarrow> asm \<Rightarrow> asm" where
  "emit8 b a = (if length (code a) < MAX_CODE then a\<lparr>code := code a @ [b]\<rparr> else a)"

definition emits :: "u8 list \<Rightarrow> asm \<Rightarrow> asm" where
  "emits bs a = fold emit8 bs a"

definition emit32 :: "u32 \<Rightarrow> asm \<Rightarrow> asm" where
  "emit32 v a = emits [ucast (v AND 0xFF), ucast (drop_bit 8 v AND 0xFF), ucast (drop_bit 16 v AND 0xFF), ucast (drop_bit 24 v AND 0xFF)] a"

definition find_label :: "string \<Rightarrow> (string \<times> u32) list \<Rightarrow> u32 option" where
  "find_label name ls = map_of ls name"

text \<open>Names keep 31 characters; what does not fit into a table is dropped.\<close>

definition add_label :: "string \<Rightarrow> asm \<Rightarrow> asm" where
  "add_label name a =
     (if length (labels a) < MAX_LABELS then a\<lparr>labels := labels a @ [(take 31 name, of_nat (length (code a)))]\<rparr> else a)"

definition add_fixup :: "string \<Rightarrow> bool \<Rightarrow> asm \<Rightarrow> asm" where
  "add_fixup name rel a =
     (if length (fixups a) < MAX_LABELS
      then a\<lparr>fixups := fixups a @ [\<lparr>code_offset = length (code a), fx_name = take 31 name, fx_rel = rel\<rparr>]\<rparr> else a)"

section \<open>Registers and numbers\<close>

definition parse_reg :: "string \<Rightarrow> u8 option" where
  "parse_reg s =
     map_of [(''eax'', 0), (''ecx'', 1), (''edx'', 2), (''ebx'', 3), (''esp'', 4), (''ebp'', 5), (''esi'', 6), (''edi'', 7)] s"

definition char_byte :: "char \<Rightarrow> u8" where
  "char_byte c = of_char c"

definition digit_ch :: "char \<Rightarrow> bool" where
  "digit_ch c = isdigit (sint (char_byte c))"

definition is_number :: "string \<Rightarrow> bool" where
  "is_number s =
     (if s = [] then False
      else let s = (if hd s = CHR ''-'' then tl s else s)
           in if take 2 s = ''0x'' then True else list_all digit_ch s)"

definition hex_digit :: "char \<Rightarrow> u32 option" where
  "hex_digit c =
     (let b = sint (char_byte c)
      in if 48 \<le> b \<and> b \<le> 57 then Some (ucast (char_byte c) - 48)
         else if 97 \<le> b \<and> b \<le> 102 then Some (ucast (char_byte c) - 97 + 10)
         else if 65 \<le> b \<and> b \<le> 70 then Some (ucast (char_byte c) - 65 + 10)
         else None)"

fun parse_hex :: "u32 \<Rightarrow> string \<Rightarrow> u32" where
  "parse_hex v [] = v"
| "parse_hex v (c # s) = (case hex_digit c of None \<Rightarrow> v | Some d \<Rightarrow> parse_hex (v * 16 + d) s)"

text \<open>\<^verbatim>\<open>atoi\<close> on a string; \<open>atoi_text_string\<close> says that it is the library's.\<close>

definition atoi_string :: "string \<Rightarrow> u32" where
  "atoi_string s =
     (let s = dropWhile (\<lambda>c. isspace (sint (char_byte c))) s;
          n = (\<lambda>t. foldl digit_step 0 (map char_byte (takeWhile digit_ch t)))
      in case s of
           [] \<Rightarrow> 0
         | c # t \<Rightarrow> if c = CHR ''-'' then - n t else if c = CHR ''+'' then n t else n s)"

definition parse_imm :: "string \<Rightarrow> u32" where
  "parse_imm s = (if take 2 s = ''0x'' then parse_hex 0 (drop 2 s) else atoi_string s)"

section \<open>A line and its parts\<close>

definition strip :: "string \<Rightarrow> string" where
  "strip s =
     (let s = dropWhile (\<lambda>c. c = CHR '' '' \<or> c = CHR 0x09) s;
          s = takeWhile (\<lambda>c. c \<noteq> CHR '';'') s
      in rev (dropWhile (\<lambda>c. c = CHR '' '' \<or> c = CHR 0x09 \<or> c = CHR 0x0D \<or> c = CHR 0x0A) (rev s)))"

definition part_sep :: "char \<Rightarrow> bool" where
  "part_sep c = (c = CHR '' '' \<or> c = CHR 0x09 \<or> c = CHR '','')"

text \<open>The separator behind a part is overwritten, so it is skipped.\<close>

fun split_line :: "nat \<Rightarrow> string \<Rightarrow> string list" where
  "split_line 0 p = []"
| "split_line (Suc n) p =
     (case dropWhile part_sep p of
        [] \<Rightarrow> []
      | c # q \<Rightarrow>
          if c = CHR 0x22
          then let rest = dropWhile (\<lambda>c. c \<noteq> CHR 0x22) q
               in (c # takeWhile (\<lambda>c. c \<noteq> CHR 0x22) q @ take 1 rest) # split_line n (drop 2 rest)
          else (takeWhile (\<lambda>c. \<not> part_sep c) (c # q)) # split_line n (drop 1 (dropWhile (\<lambda>c. \<not> part_sep c) (c # q))))"

fun db_chars :: "string \<Rightarrow> u8 list" where
  "db_chars [] = []"
| "db_chars [c] = [char_byte c]"
| "db_chars (c # d # s) = (if c = CHR 0x5C \<and> d = CHR ''n'' then 10 # db_chars s else char_byte c # db_chars (d # s))"

definition db_bytes :: "string \<Rightarrow> u8 list" where
  "db_bytes p =
     (if take 1 p = [CHR 0x22]
      then let s = tl p in db_chars (if s \<noteq> [] \<and> last s = CHR 0x22 then butlast s else s)
      else [ucast (parse_imm p)])"

section \<open>Instructions\<close>

definition alu_code :: "string \<Rightarrow> u8 option" where
  "alu_code s = map_of [(''add'', 0), (''or'', 1), (''and'', 4), (''sub'', 5), (''xor'', 6), (''cmp'', 7)] s"

text \<open>An instruction that ends in four bytes for the address of a label.\<close>

definition emit_ref :: "bool \<Rightarrow> u8 list \<Rightarrow> string \<Rightarrow> bool \<Rightarrow> asm \<Rightarrow> asm" where
  "emit_ref pass2 opcode l rel a = (let a = emits opcode a in emit32 0 (if pass2 then add_fixup l rel a else a))"

text \<open>An instruction with no register where one is needed falls through to the end: \<open>None\<close>.\<close>

definition asm_stack :: "string \<Rightarrow> string \<Rightarrow> asm \<Rightarrow> asm option" where
  "asm_stack op x a =
     (case parse_reg x of
        Some r \<Rightarrow>
          Some (emit8 ((if op = ''push'' then 0x50 else if op = ''pop'' then 0x58 else if op = ''inc'' then 0x40 else 0x48) + r) a)
      | None \<Rightarrow> if op = ''push'' \<and> is_number x then Some (emit32 (parse_imm x) (emit8 0x68 a)) else None)"

definition asm_mov :: "bool \<Rightarrow> string \<Rightarrow> string \<Rightarrow> asm \<Rightarrow> asm option" where
  "asm_mov pass2 d x a =
     (case parse_reg d of
        None \<Rightarrow> None
      | Some rd \<Rightarrow>
          (case parse_reg x of
             Some rs \<Rightarrow> Some (emits [0x89, 0xC0 OR push_bit 3 rs OR rd] a)
           | None \<Rightarrow>
               if is_number x then Some (emit32 (parse_imm x) (emit8 (0xB8 + rd) a))
               else Some (emit_ref pass2 [0xB8 + rd] x False a)))"

definition asm_alu :: "u8 \<Rightarrow> string \<Rightarrow> string \<Rightarrow> asm \<Rightarrow> asm option" where
  "asm_alu alu d x a =
     (case parse_reg d of
        None \<Rightarrow> None
      | Some rd \<Rightarrow>
          (case parse_reg x of
             Some rs \<Rightarrow> Some (emits [0x01 OR push_bit 3 alu, 0xC0 OR push_bit 3 rs OR rd] a)
           | None \<Rightarrow>
               if \<not> is_number x then None
               else if rd = 0 then Some (emit32 (parse_imm x) (emit8 (0x05 OR push_bit 3 alu) a))
               else Some (emit32 (parse_imm x) (emits [0x81, 0xC0 OR push_bit 3 alu OR rd] a))))"

definition asm_instr :: "bool \<Rightarrow> string \<Rightarrow> string list \<Rightarrow> asm \<Rightarrow> asm option" where
  "asm_instr pass2 op args a =
     (if op = ''db'' then Some (fold (\<lambda>p. emits (db_bytes p)) args a)
      else if op = ''nop'' then Some (emit8 0x90 a)
      else if op = ''ret'' then Some (emit8 0xC3 a)
      else if op = ''hlt'' then Some (emit8 0xF4 a)
      else if op = ''int'' \<and> length args \<ge> 1 then Some (emits [0xCD, ucast (parse_imm (args ! 0))] a)
      else if op \<in> {''push'', ''pop'', ''inc'', ''dec''} \<and> length args \<ge> 1 then asm_stack op (args ! 0) a
      else if op = ''mov'' \<and> length args \<ge> 2 then asm_mov pass2 (args ! 0) (args ! 1) a
      else if alu_code op \<noteq> None \<and> length args \<ge> 2 then asm_alu (the (alu_code op)) (args ! 0) (args ! 1) a
      else if op = ''jmp'' \<and> length args \<ge> 1 then Some (emit_ref pass2 [0xE9] (args ! 0) True a)
      else if op = ''call'' \<and> length args \<ge> 1 then Some (emit_ref pass2 [0xE8] (args ! 0) True a)
      else if (op = ''je'' \<or> op = ''jz'') \<and> length args \<ge> 1 then Some (emit_ref pass2 [0x0F, 0x84] (args ! 0) True a)
      else if (op = ''jne'' \<or> op = ''jnz'') \<and> length args \<ge> 1 then Some (emit_ref pass2 [0x0F, 0x85] (args ! 0) True a)
      else None)"

text \<open>The flag is false for an unknown instruction.\<close>

definition asm_line :: "bool \<Rightarrow> string \<Rightarrow> asm \<Rightarrow> bool \<times> asm" where
  "asm_line pass2 line a =
     (let line = strip line
      in if line = [] then (True, a)
         else if length line > 1 \<and> last line = CHR '':'' then (True, if pass2 then a else add_label (butlast line) a)
         else case split_line 8 line of
                [] \<Rightarrow> (True, a)
              | op # args \<Rightarrow> (case asm_instr pass2 op args a of None \<Rightarrow> (False, a) | Some a \<Rightarrow> (True, a)))"

section \<open>The passes\<close>

lemma read_line_rest_255: "(line, rest) = read_line 255 (c # s) \<Longrightarrow> length rest < Suc (length s)"
  using read_line_decreases [of 255 c s line rest] by simp

function source_lines :: "string \<Rightarrow> string list" where
  "source_lines [] = []"
| "source_lines (c # s) = (case read_line 255 (c # s) of (line, rest) \<Rightarrow> line # source_lines rest)"
  by pat_completeness auto
termination by (relation "measure length") (auto simp del: read_line.simps dest: read_line_rest_255)

text \<open>The number of lines in error, and the state behind the last line.\<close>

fun run_pass :: "bool \<Rightarrow> string list \<Rightarrow> asm \<Rightarrow> nat \<times> asm" where
  "run_pass pass2 [] a = (0, a)"
| "run_pass pass2 (l # ls) a =
     (case asm_line pass2 l a of
        (ok, a) \<Rightarrow> (case run_pass pass2 ls a of (n, a) \<Rightarrow> (if ok then n else n + 1, a)))"

fun patch_fixups :: "fixup_t list \<Rightarrow> (string \<times> u32) list \<Rightarrow> u8 list \<Rightarrow> (nat \<times> u8 list) option" where
  "patch_fixups [] ls bs = Some (0, bs)"
| "patch_fixups (f # fs) ls bs =
     (case find_label (fx_name f) ls of
        None \<Rightarrow> map_option (\<lambda>(n, bs). (n + 1, bs)) (patch_fixups fs ls bs)
      | Some target \<Rightarrow>
          let off = code_offset f; here = BASE_ADDR + HDR_SIZE + of_nat off + 4
          in if off + 4 > length bs then None
             else patch_fixups fs ls (splice off (le32_bytes (if fx_rel f then target - here else target)) bs))"

text \<open>The code of a source text; the inner \<open>None\<close>: errors were reported.\<close>

definition assemble :: "string \<Rightarrow> u8 list option option" where
  "assemble src =
     (case run_pass False (source_lines src) \<lparr>labels = [], fixups = [], code = []\<rparr> of
        (errors, a) \<Rightarrow>
          if errors > 0 then Some None
          else let ls = map (\<lambda>(n, off). (n, off + (BASE_ADDR + HDR_SIZE))) (labels a)
               in case run_pass True (source_lines src) \<lparr>labels = ls, fixups = [], code = []\<rparr> of
                    (_, a) \<Rightarrow>
                      map_option (\<lambda>(errors, bs). if errors > 0 then None else Some bs) (patch_fixups (fixups a) ls (code a)))"

section \<open>The executable\<close>

definition build_elf :: "u8 list \<Rightarrow> u8 list" where
  "build_elf bs =
     (let total = HDR_SIZE + of_nat (length bs); out = replicate 84 0;
          out = splice 0 [0x7F, 0x45, 0x4C, 0x46, 1, 1, 1] out;
          out = splice 16 [2, 0] out;
          out = splice 18 [3, 0] out;
          out = splice 20 (le32_bytes 1) out;
          out = splice 24 (le32_bytes (BASE_ADDR + HDR_SIZE)) out;
          out = splice 28 (le32_bytes 52) out;
          out = splice 40 [52, 0] out;
          out = splice 42 [32, 0] out;
          out = splice 44 [1, 0] out;
          out = splice 52 (le32_bytes 1) out;
          out = splice 56 (le32_bytes 0) out;
          out = splice 60 (le32_bytes BASE_ADDR) out;
          out = splice 64 (le32_bytes BASE_ADDR) out;
          out = splice 68 (le32_bytes total) out;
          out = splice 72 (le32_bytes total) out;
          out = splice 76 (le32_bytes 7) out;
          out = splice 80 (le32_bytes 0x1000) out
      in out @ bs)"

definition tasm_assemble :: "devices \<Rightarrow> string \<Rightarrow> nat option \<Rightarrow> string \<Rightarrow> fs \<Rightarrow> (int \<times> fs) option" where
  "tasm_assemble dev src_path dir out_path s =
     do {
       (n, s) \<leftarrow> vfs_resolve src_path dir s;
       case Option.bind n (\<lambda>i. map_option (Pair i) (fs_nodes s i)) of
         None \<Rightarrow> Some (-1, s)
       | Some (i, v) \<Rightarrow>
           if n_type v \<noteq> VFS_FILE then Some (-1, s)
           else case kalloc s of
             (ok, s) \<Rightarrow>
               if \<not> ok then Some (-1, s)
               else case vfs_read (fst dev) i 0 8191 s of
                 (got, bs) \<Rightarrow>
                   (case kalloc s of
                      (ok, s) \<Rightarrow>
                        if \<not> ok then Some (-1, s)
                        else do {
                          r \<leftarrow> assemble (cstr (take (unat got) bs));
                          case r of
                            None \<Rightarrow> Some (-1, s)
                          | Some bin \<Rightarrow>
                              (case kalloc s of
                                 (ok, s) \<Rightarrow>
                                   if \<not> ok then Some (-1, s)
                                   else do {
                                     (out, s) \<leftarrow> vfs_create out_path dir s;
                                     case out of
                                       None \<Rightarrow> Some (-1, s)
                                     | Some out \<Rightarrow>
                                         do {
                                           let s = upd_node (Some out) (\<lambda>n. n\<lparr>n_size := 0, n_permissions := 0x1ED\<rparr>) s;
                                           (w, s) \<leftarrow> vfs_write (snd dev) out 0 (build_elf bin) s;
                                           Some (0, s)
                                         }
                                   })
                        })
     }"

end
