(* ===== verification/Tasm_Props.thy ===== *)
theory Tasm_Props
  imports Tasm
begin

text \<open>
  What the assembler promises, stated without its tables: read back by a disassembler, the code of a source text is
  the listing of its lines, with every label standing for the address of the line that declares it.
\<close>

section \<open>Disassembly\<close>

text \<open>Registers and ALU operations by their numbers; jumps with the address of their target.\<close>

datatype insn =
    Nop | Ret | Hlt | Swi u8
  | Push_reg u8 | Push_imm u32 | Pop u8 | Inc u8 | Dec u8
  | Mov_reg u8 u8 | Mov_imm u8 u32
  | Alu_reg u8 u8 u8 | Alu_imm u8 u8 u32
  | Jmp u32 | Call u32 | Jz u32 | Jnz u32

definition operand32 :: "u8 list \<Rightarrow> u32 option" where
  "operand32 bs = (case bs of b0 # b1 # b2 # b3 # _ \<Rightarrow> Some (le32 b0 b1 b2 b3) | _ \<Rightarrow> None)"

definition decode_modrm :: "(u8 \<Rightarrow> u8 \<Rightarrow> 'a) \<Rightarrow> u8 list \<Rightarrow> 'a option" where
  "decode_modrm f bs = (case bs of m # _ \<Rightarrow> if m AND 0xC0 = 0xC0 then Some (f (drop_bit 3 m AND 7) (m AND 7)) else None | [] \<Rightarrow> None)"

text \<open>The instruction at an address and its length, after the processor's manual.\<close>

definition decode :: "u32 \<Rightarrow> u8 list \<Rightarrow> (insn \<times> nat) option" where
  "decode a bs =
     (case bs of
        [] \<Rightarrow> None
      | b # t \<Rightarrow>
          if b = 0x90 then Some (Nop, 1)
          else if b = 0xC3 then Some (Ret, 1)
          else if b = 0xF4 then Some (Hlt, 1)
          else if b = 0xCD then (case t of [] \<Rightarrow> None | n # _ \<Rightarrow> Some (Swi n, 2))
          else if b = 0x68 then map_option (\<lambda>v. (Push_imm v, 5)) (operand32 t)
          else if b = 0xE9 then map_option (\<lambda>d. (Jmp (a + 5 + d), 5)) (operand32 t)
          else if b = 0xE8 then map_option (\<lambda>d. (Call (a + 5 + d), 5)) (operand32 t)
          else if b = 0x0F then
            (case t of
               [] \<Rightarrow> None
             | c # u \<Rightarrow> if c = 0x84 then map_option (\<lambda>d. (Jz (a + 6 + d), 6)) (operand32 u)
                        else if c = 0x85 then map_option (\<lambda>d. (Jnz (a + 6 + d), 6)) (operand32 u) else None)
          else if b = 0x89 then map_option (\<lambda>i. (i, 2)) (decode_modrm (\<lambda>r m. Mov_reg m r) t)
          else if b = 0x81 then
            Option.bind (decode_modrm (\<lambda>r m. Alu_imm r m) t) (\<lambda>i. map_option (\<lambda>v. (i v, 6)) (operand32 (tl t)))
          else if b AND 0xF8 = 0x40 then Some (Inc (b AND 7), 1)
          else if b AND 0xF8 = 0x48 then Some (Dec (b AND 7), 1)
          else if b AND 0xF8 = 0x50 then Some (Push_reg (b AND 7), 1)
          else if b AND 0xF8 = 0x58 then Some (Pop (b AND 7), 1)
          else if b AND 0xF8 = 0xB8 then map_option (\<lambda>v. (Mov_imm (b AND 7) v, 5)) (operand32 t)
          else if b AND 0xC7 = 0x01 then map_option (\<lambda>i. (i, 2)) (decode_modrm (\<lambda>r m. Alu_reg (drop_bit 3 b) m r) t)
          else if b AND 0xC7 = 0x05 then map_option (\<lambda>v. (Alu_imm (drop_bit 3 b) 0 v, 5)) (operand32 t)
          else None)"

section \<open>What a line says\<close>

datatype item = Blank | Label string | Data "u8 list" | Code string "string list"

definition item_of :: "string \<Rightarrow> item" where
  "item_of line =
     (let line = strip line
      in if line = [] then Blank
         else if length line > 1 \<and> last line = CHR '':'' then Label (take 31 (butlast line))
         else case split_line 8 line of
                [] \<Rightarrow> Blank
              | op # args \<Rightarrow> if op = ''db'' then Data (concat (map db_bytes args)) else Code op args)"

definition meaning2 :: "(string \<Rightarrow> u32 option) \<Rightarrow> string \<Rightarrow> u8 \<Rightarrow> string \<Rightarrow> insn option" where
  "meaning2 env op d x =
     (if op = ''mov''
      then (case parse_reg x of
              Some r \<Rightarrow> Some (Mov_reg d r)
            | None \<Rightarrow> map_option (Mov_imm d) (if is_number x then Some (parse_imm x) else env (take 31 x)))
      else Option.bind (alu_code op) (\<lambda>alu.
             case parse_reg x of
               Some r \<Rightarrow> Some (Alu_reg alu d r)
             | None \<Rightarrow> if is_number x then Some (Alu_imm alu d (parse_imm x)) else None))"

text \<open>Arguments an instruction does not have are ignored.\<close>

definition meaning :: "(string \<Rightarrow> u32 option) \<Rightarrow> string \<Rightarrow> string list \<Rightarrow> insn option" where
  "meaning env op args =
     (if op = ''nop'' then Some Nop
      else if op = ''ret'' then Some Ret
      else if op = ''hlt'' then Some Hlt
      else case args of
        [] \<Rightarrow> None
      | x # rest \<Rightarrow>
          if op = ''int'' then Some (Swi (ucast (parse_imm x)))
          else if op = ''push'' then
            (case parse_reg x of Some r \<Rightarrow> Some (Push_reg r) | None \<Rightarrow> if is_number x then Some (Push_imm (parse_imm x)) else None)
          else if op = ''pop'' then map_option Pop (parse_reg x)
          else if op = ''inc'' then map_option Inc (parse_reg x)
          else if op = ''dec'' then map_option Dec (parse_reg x)
          else if op = ''jmp'' then map_option Jmp (env (take 31 x))
          else if op = ''call'' then map_option Call (env (take 31 x))
          else if op \<in> {''je'', ''jz''} then map_option Jz (env (take 31 x))
          else if op \<in> {''jne'', ''jnz''} then map_option Jnz (env (take 31 x))
          else (case rest of [] \<Rightarrow> None | y # _ \<Rightarrow> Option.bind (parse_reg x) (\<lambda>d. meaning2 env op d y)))"

text \<open>
  The bytes at an address are the listing of some lines. The first line that declares a label (\<open>seen\<close>: the
  labels declared before) is at the address the label stands for.
\<close>

fun listing :: "(string \<Rightarrow> u32 option) \<Rightarrow> string set \<Rightarrow> u32 \<Rightarrow> string list \<Rightarrow> u8 list \<Rightarrow> bool" where
  "listing env seen a [] bs \<longleftrightarrow> bs = []"
| "listing env seen a (l # ls) bs \<longleftrightarrow>
     (case item_of l of
        Blank \<Rightarrow> listing env seen a ls bs
      | Label n \<Rightarrow> (n \<in> seen \<or> env n = Some a) \<and> listing env (insert n seen) a ls bs
      | Data d \<Rightarrow> take (length d) bs = d \<and> listing env seen (a + of_nat (length d)) ls (drop (length d) bs)
      | Code op args \<Rightarrow>
          (\<exists>i n. meaning env op args = Some i \<and> decode a bs = Some (i, n) \<and> n \<le> length bs
             \<and> listing env seen (a + of_nat n) ls (drop n bs)))"

definition declared :: "string list \<Rightarrow> string list" where
  "declared ls = concat (map (\<lambda>l. case item_of l of Label n \<Rightarrow> [n] | _ \<Rightarrow> []) ls)"

section \<open>The bytes of a line\<close>

text \<open>The bytes an instruction emits, without the four bytes of a reference to a label.\<close>

definition with_imm :: "u8 list \<Rightarrow> u32 \<Rightarrow> u8 list \<times> (string \<times> bool) option" where
  "with_imm bs v = (bs @ le32_bytes v, None)"

definition encode :: "string \<Rightarrow> string list \<Rightarrow> (u8 list \<times> (string \<times> bool) option) option" where
  "encode op args =
     (let x = args ! 0; y = args ! 1
      in if op = ''nop'' then Some ([0x90], None)
      else if op = ''ret'' then Some ([0xC3], None)
      else if op = ''hlt'' then Some ([0xF4], None)
      else if args = [] then None
      else if op = ''int'' then Some ([0xCD, ucast (parse_imm x)], None)
      else if op \<in> {''push'', ''pop'', ''inc'', ''dec''}
      then (case parse_reg x of
              Some r \<Rightarrow>
                Some ([(if op = ''push'' then 0x50 else if op = ''pop'' then 0x58 else if op = ''inc'' then 0x40 else 0x48) + r], None)
            | None \<Rightarrow> if op = ''push'' \<and> is_number x then Some (with_imm [0x68] (parse_imm x)) else None)
      else if op = ''jmp'' then Some ([0xE9], Some (x, True))
      else if op = ''call'' then Some ([0xE8], Some (x, True))
      else if op \<in> {''je'', ''jz''} then Some ([0x0F, 0x84], Some (x, True))
      else if op \<in> {''jne'', ''jnz''} then Some ([0x0F, 0x85], Some (x, True))
      else if length args < 2 then None
      else case parse_reg x of
             None \<Rightarrow> None
           | Some rd \<Rightarrow>
               if op = ''mov''
               then (case parse_reg y of
                       Some rs \<Rightarrow> Some ([0x89, 0xC0 OR push_bit 3 rs OR rd], None)
                     | None \<Rightarrow> if is_number y then Some (with_imm [0xB8 + rd] (parse_imm y)) else Some ([0xB8 + rd], Some (y, False)))
               else (case alu_code op of
                       None \<Rightarrow> None
                     | Some alu \<Rightarrow>
                         (case parse_reg y of
                            Some rs \<Rightarrow> Some ([0x01 OR push_bit 3 alu, 0xC0 OR push_bit 3 rs OR rd], None)
                          | None \<Rightarrow>
                              if \<not> is_number y then None
                              else if rd = 0 then Some (with_imm [0x05 OR push_bit 3 alu] (parse_imm y))
                              else Some (with_imm [0x81, 0xC0 OR push_bit 3 alu OR rd] (parse_imm y)))))"

lemma emits_append: "emits (xs @ ys) a = emits ys (emits xs a)"
  by (simp add: emits_def)

lemma emits_emit8: "emit8 b a = emits [b] a"
  by (simp add: emits_def)

lemma emits_nil [simp]: "emits [] a = a"
  by (simp add: emits_def)

lemma low_byte: "(ucast (v AND 0xFF) :: u8) = ucast (v :: u32)"
proof -
  have "v AND 0xFF = take_bit 8 v" by (simp add: take_bit_eq_mask mask_eq_exp_minus_1)
  then show ?thesis by (intro bit_word_eqI) (simp add: bit_simps)
qed

lemma emit32_bytes: "emit32 v a = emits (le32_bytes v) a"
  by (simp add: emit32_def le32_bytes_def low_byte)

lemma alu_code_Some:
  "alu_code op = Some alu \<Longrightarrow>
     (op, alu) \<in> {(''add'', 0), (''or'', 1), (''and'', 4), (''sub'', 5), (''xor'', 6), (''cmp'', 7)}"
  by (auto simp: alu_code_def split: if_splits)

lemma five_cases:
  "(p \<Longrightarrow> t) \<Longrightarrow> (q \<Longrightarrow> t) \<Longrightarrow> (r \<Longrightarrow> t) \<Longrightarrow> (\<And>a. x = Some a \<Longrightarrow> t)
   \<Longrightarrow> (\<not> p \<and> \<not> q \<and> \<not> r \<and> x = None \<Longrightarrow> t) \<Longrightarrow> t"
  by (cases x) blast+

lemmas forms = emits_emit8 emit32_bytes emits_append [symmetric] with_imm_def Suc_le_eq

lemma asm_instr_encode:
  assumes "op \<noteq> ''db''"
  shows "asm_instr p op args a =
    map_option (\<lambda>(bs, r). case r of None \<Rightarrow> emits bs a | Some (l, rel) \<Rightarrow> emit_ref p bs l rel a) (encode op args)"
proof -
  let ?simple = "{''nop'', ''ret'', ''hlt'', ''int'', ''jmp'', ''call'', ''je'', ''jz'', ''jne'', ''jnz''}"
  let ?stack = "{''push'', ''pop'', ''inc'', ''dec''}"
  consider "op \<in> ?simple" | "op \<in> ?stack" | "op = ''mov''" | alu where "alu_code op = Some alu"
    | "op \<notin> ?simple \<and> op \<notin> ?stack \<and> op \<noteq> ''mov'' \<and> alu_code op = None"
    by (rule five_cases [where p = "op \<in> ?simple" and q = "op \<in> ?stack" and r = "op = ''mov''" and x = "alu_code op"])
  then show ?thesis
  proof cases
    case 1
    then show ?thesis
      by (elim insertE emptyE; cases args; simp add: asm_instr_def encode_def alu_code_def forms)
  next
    case 2
    then show ?thesis
      by (elim insertE emptyE; cases args; cases "parse_reg (hd args)")
        (simp_all add: asm_instr_def encode_def alu_code_def asm_stack_def forms)
  next
    case 3
    then show ?thesis
      by (cases args; cases "length args < 2"; cases "parse_reg (args ! 0)"; cases "parse_reg (args ! 1)")
        (simp_all add: asm_instr_def encode_def asm_mov_def forms Let_def alu_code_def)
  next
    case (4 alu)
    have "(op, alu) \<in> {(''add'', 0), (''or'', 1), (''and'', 4), (''sub'', 5), (''xor'', 6), (''cmp'', 7)}"
      by (rule alu_code_Some [OF 4])
    then show ?thesis
      by (elim insertE emptyE; cases args; cases "length args < 2"; cases "parse_reg (args ! 0)"; cases "parse_reg (args ! 1)")
        (simp_all add: asm_instr_def encode_def asm_alu_def alu_code_def forms Let_def)
  next
    case 5
    then show ?thesis using assms
      by (cases "parse_reg (args ! 0)") (simp_all add: asm_instr_def encode_def Let_def)
  qed
qed

section \<open>Decoding what was encoded\<close>

lemma parse_reg_range: "parse_reg x = Some r \<Longrightarrow> r \<in> {0, 1, 2, 3, 4, 5, 6, 7}"
  by (auto simp: parse_reg_def split: if_splits)

lemma operand32_bytes: "operand32 (le32_bytes v @ rest) = Some v"
  by (simp add: operand32_def le32_bytes_def le32_of_bytes)

lemma modrm_bytes:
  assumes "r \<in> {0, 1, 2, 3, 4, 5, 6, 7 :: u8}" "m \<in> {0, 1, 2, 3, 4, 5, 6, 7}"
  shows "decode_modrm f ((0xC0 OR push_bit 3 r OR m) # rest) = Some (f r m)"
  using assms by (elim insertE emptyE) (simp_all add: decode_modrm_def push_bit_eq_mult drop_bit_eq_div)

lemma decode_reg:
  assumes "r \<in> {0, 1, 2, 3, 4, 5, 6, 7 :: u8}"
  shows "decode a ((0x40 + r) # rest) = Some (Inc r, 1)" "decode a ((0x48 + r) # rest) = Some (Dec r, 1)"
    "decode a ((0x50 + r) # rest) = Some (Push_reg r, 1)" "decode a ((0x58 + r) # rest) = Some (Pop r, 1)"
    "decode a ((0xB8 + r) # le32_bytes v @ rest) = Some (Mov_imm r v, 5)"
  using assms by (elim insertE emptyE; simp add: decode_def operand32_bytes)+

lemma decode_alu:
  assumes "alu \<in> {0, 1, 4, 5, 6, 7 :: u8}" "d \<in> {0, 1, 2, 3, 4, 5, 6, 7 :: u8}" "r \<in> {0, 1, 2, 3, 4, 5, 6, 7 :: u8}"
  shows "decode a ((0x01 OR push_bit 3 alu) # (0xC0 OR push_bit 3 r OR d) # rest) = Some (Alu_reg alu d r, 2)"
    "decode a ((0x05 OR push_bit 3 alu) # le32_bytes v @ rest) = Some (Alu_imm alu 0 v, 5)"
    "decode a (0x81 # (0xC0 OR push_bit 3 alu OR d) # le32_bytes v @ rest) = Some (Alu_imm alu d v, 6)"
    "decode a (0x89 # (0xC0 OR push_bit 3 r OR d) # rest) = Some (Mov_reg d r, 2)"
proof -
  have "alu \<in> {0, 1, 2, 3, 4, 5, 6, 7}" using assms(1) by blast
  note m = modrm_bytes [OF assms(3,2)] modrm_bytes [OF this assms(2)]
  have "decode a ((0x01 OR push_bit 3 alu) # t) = map_option (\<lambda>i. (i, 2)) (decode_modrm (\<lambda>r m. Alu_reg alu m r) t)" for t
    using assms(1) by (elim insertE emptyE) (simp_all add: decode_def push_bit_eq_mult drop_bit_eq_div)
  then show "decode a ((0x01 OR push_bit 3 alu) # (0xC0 OR push_bit 3 r OR d) # rest) = Some (Alu_reg alu d r, 2)"
    by (simp add: m)
  show "decode a ((0x05 OR push_bit 3 alu) # le32_bytes v @ rest) = Some (Alu_imm alu 0 v, 5)"
    using assms(1) by (elim insertE emptyE) (simp_all add: decode_def operand32_bytes push_bit_eq_mult drop_bit_eq_div)
  show "decode a (0x81 # (0xC0 OR push_bit 3 alu OR d) # le32_bytes v @ rest) = Some (Alu_imm alu d v, 6)"
    "decode a (0x89 # (0xC0 OR push_bit 3 r OR d) # rest) = Some (Mov_reg d r, 2)"
    by (simp_all add: decode_def m operand32_bytes)
qed


lemma decode_jump:
  "decode a (0xE9 # le32_bytes (t - (a + 5)) @ rest) = Some (Jmp t, 5)"
  "decode a (0xE8 # le32_bytes (t - (a + 5)) @ rest) = Some (Call t, 5)"
  "decode a (0x0F # 0x84 # le32_bytes (t - (a + 6)) @ rest) = Some (Jz t, 6)"
  "decode a (0x0F # 0x85 # le32_bytes (t - (a + 6)) @ rest) = Some (Jnz t, 6)"
  "decode a (0x68 # le32_bytes v @ rest) = Some (Push_imm v, 5)"
  by (simp_all add: decode_def operand32_bytes)

lemma decode_other:
  "decode a (0x90 # rest) = Some (Nop, 1)" "decode a (0xC3 # rest) = Some (Ret, 1)"
  "decode a (0xF4 # rest) = Some (Hlt, 1)" "decode a (0xCD # n # rest) = Some (Swi n, 2)"
  by (simp_all add: decode_def)

lemma encode_decode:
  assumes "encode op args = Some (bs, r)"
    and "case r of None \<Rightarrow> tail = [] | Some (n, rel) \<Rightarrow>
           \<exists>t. env (take 31 n) = Some t \<and> tail = le32_bytes (if rel then t - (a + of_nat (length bs) + 4) else t)"
  shows "\<exists>i. meaning env op args = Some i \<and> decode a (bs @ tail @ rest) = Some (i, length bs + length tail)"
proof -
  let ?simple = "{''nop'', ''ret'', ''hlt'', ''int'', ''jmp'', ''call'', ''je'', ''jz'', ''jne'', ''jnz''}"
  let ?stack = "{''push'', ''pop'', ''inc'', ''dec''}"
  note decodes = decode_jump decode_other add.assoc
  consider "op \<in> ?simple" | "op \<in> ?stack" | "op = ''mov''" | alu where "alu_code op = Some alu"
    | "op \<notin> ?simple \<and> op \<notin> ?stack \<and> op \<noteq> ''mov'' \<and> alu_code op = None"
    by (rule five_cases [where p = "op \<in> ?simple" and q = "op \<in> ?stack" and r = "op = ''mov''" and x = "alu_code op"])
  then show ?thesis
  proof cases
    case 1
    then show ?thesis using assms
      by (elim insertE emptyE; cases args; clarsimp simp: encode_def meaning_def decodes)
  next
    case 2
    obtain x rest' where args: "args = x # rest'" using 2 assms(1) by (cases args) (auto simp: encode_def)
    show ?thesis
    proof (cases "parse_reg x")
      case None
      then show ?thesis using 2 assms args
        by (elim insertE emptyE; clarsimp simp: encode_def meaning_def decodes with_imm_def split: if_splits)
    next
      case (Some d)
      note dec = decode_reg [OF parse_reg_range [OF Some]]
      show ?thesis using 2 assms args Some
        by (elim insertE emptyE; clarsimp simp: encode_def meaning_def dec)
    qed
  next
    case 3
    obtain x y rest' where args: "args = x # y # rest'" using 3 assms(1)
      by (cases args; cases "tl args") (auto simp: encode_def)
    obtain d where d: "parse_reg x = Some d" using 3 assms(1) args by (cases "parse_reg x") (simp_all add: encode_def)
    note dr = parse_reg_range [OF d]
    show ?thesis
    proof (cases "parse_reg y")
      case None
      then show ?thesis using 3 assms args d decode_reg(5) [OF dr]
        by (cases "is_number y") (auto simp: encode_def meaning_def meaning2_def with_imm_def)
    next
      case (Some q)
      then show ?thesis using 3 assms args d decode_alu(4) [OF _ dr parse_reg_range [OF Some], of 0]
        by (auto simp: encode_def meaning_def meaning2_def)
    qed
  next
    case (4 alu)
    have op: "(op, alu) \<in> {(''add'', 0), (''or'', 1), (''and'', 4), (''sub'', 5), (''xor'', 6), (''cmp'', 7)}"
      by (rule alu_code_Some [OF 4])
    then have o: "op \<notin> ?simple" "op \<notin> ?stack" "op \<noteq> ''mov''" by (elim insertE emptyE; simp)+
    have ar: "alu \<in> {0, 1, 4, 5, 6, 7}" using op by blast
    obtain x y rest' where args: "args = x # y # rest'" using o assms(1)
      by (cases args; cases "tl args") (simp_all add: encode_def)
    obtain d where d: "parse_reg x = Some d" using o assms(1) args by (cases "parse_reg x") (simp_all add: encode_def)
    note dr = parse_reg_range [OF d]
    show ?thesis
    proof (cases "parse_reg y")
      case None
      then show ?thesis using o 4 assms args d decode_alu(2,3) [OF ar dr dr]
        by (auto simp: encode_def meaning_def meaning2_def with_imm_def split: if_splits)
    next
      case (Some q)
      then show ?thesis using o 4 assms args d decode_alu(1) [OF ar dr parse_reg_range [OF Some]]
        by (auto simp: encode_def meaning_def meaning2_def)
    qed
  next
    case 5
    then show ?thesis using assms by (simp add: encode_def Let_def split: if_splits option.splits)
  qed
qed

end
