(* ===== verification/Tasm_Listing.thy ===== *)
theory Tasm_Listing
  imports Tasm_Props
begin

text \<open>
  The two passes of the assembler and the patching of references against the disassembly of the code.
\<close>

section \<open>One line\<close>

definition line_bytes :: "string \<Rightarrow> u8 list" where
  "line_bytes l =
     (case item_of l of
        Data d \<Rightarrow> d
      | Code op args \<Rightarrow>
          (case encode op args of None \<Rightarrow> [] | Some (bs, r) \<Rightarrow> bs @ (if r = None then [] else [0, 0, 0, 0]))
      | _ \<Rightarrow> [])"

definition line_ref :: "string \<Rightarrow> (string \<times> bool) option" where
  "line_ref l = (case item_of l of Code op args \<Rightarrow> Option.bind (encode op args) snd | _ \<Rightarrow> None)"

definition line_bad :: "string \<Rightarrow> bool" where
  "line_bad l = (case item_of l of Code op args \<Rightarrow> encode op args = None | _ \<Rightarrow> False)"

definition line_labels :: "nat \<Rightarrow> string \<Rightarrow> (string \<times> u32) list" where
  "line_labels off l = (case item_of l of Label n \<Rightarrow> [(n, of_nat off)] | _ \<Rightarrow> [])"

definition line_fixups :: "nat \<Rightarrow> string \<Rightarrow> fixup_t list" where
  "line_fixups off l =
     (case line_ref l of
        None \<Rightarrow> []
      | Some (n, rel) \<Rightarrow> [\<lparr>code_offset = off + length (line_bytes l) - 4, fx_name = take 31 n, fx_rel = rel\<rparr>])"

lemma emits_take:
  "length (code a) \<le> MAX_CODE \<Longrightarrow> emits bs a = a\<lparr>code := take MAX_CODE (code a @ bs)\<rparr>"
proof (induction bs arbitrary: a)
  case (Cons b bs)
  have "emits (b # bs) a = emits bs (emit8 b a)" by (simp add: emits_def)
  also have "\<dots> = (emit8 b a)\<lparr>code := take MAX_CODE (code (emit8 b a) @ bs)\<rparr>"
    using Cons.prems by (intro Cons.IH) (simp add: emit8_def)
  also have "\<dots> = a\<lparr>code := take MAX_CODE (code a @ b # bs)\<rparr>"
    using Cons.prems by (cases "length (code a) < MAX_CODE") (simp_all add: emit8_def)
  finally show ?case .
qed simp

lemma fold_emits: "fold (\<lambda>p. emits (db_bytes p)) ps a = emits (concat (map db_bytes ps)) a"
  by (induction ps arbitrary: a) (simp_all add: emits_append)

lemma add_label_take: "add_label (take 31 n) a = add_label n a"
  by (simp add: add_label_def)

lemma asm_line_item:
  "asm_line p l a =
     (case item_of l of
        Blank \<Rightarrow> (True, a)
      | Label n \<Rightarrow> (True, if p then a else add_label n a)
      | Data d \<Rightarrow> (True, emits d a)
      | Code op args \<Rightarrow>
          (case encode op args of
             None \<Rightarrow> (False, a)
           | Some (bs, r) \<Rightarrow> (True, case r of None \<Rightarrow> emits bs a | Some (x, rel) \<Rightarrow> emit_ref p bs x rel a)))"
proof -
  have db: "asm_instr p ''db'' args a = Some (emits (concat (map db_bytes args)) a)" for args
    by (simp add: asm_instr_def fold_emits)
  show ?thesis
    by (auto simp: asm_line_def item_of_def Let_def db add_label_take asm_instr_encode split: list.splits option.splits)
qed

lemma le32_bytes_0: "le32_bytes 0 = [0, 0, 0, 0]"
  by (simp add: le32_bytes_def)

lemma asm_line_length:
  assumes "length (code a) \<le> MAX_CODE"
  shows "length (code (snd (asm_line p l a))) = min MAX_CODE (length (code a) + length (line_bytes l))"
proof -
  have f: "code (add_fixup x r b) = code b" "code (add_label n b) = code b" for x r b n
    by (simp_all add: add_fixup_def add_label_def)
  have r: "code (emit_ref p bs x rel a) = take MAX_CODE (code a @ bs @ [0, 0, 0, 0])" for bs x rel
  proof -
    let ?b = "emits bs a" and ?c = "if p then add_fixup x rel (emits bs a) else emits bs a"
    have b: "code ?b = take MAX_CODE (code a @ bs)" by (simp add: emits_take assms)
    have c: "code ?c = code ?b" by (simp add: f)
    have "emit_ref p bs x rel a = emits [0, 0, 0, 0] ?c" by (simp add: emit_ref_def emit32_bytes le32_bytes_0 Let_def)
    moreover have "length (code ?c) \<le> MAX_CODE" unfolding c b by simp
    ultimately have "code (emit_ref p bs x rel a) = take MAX_CODE (code ?b @ [0, 0, 0, 0])" by (simp add: emits_take c)
    then show ?thesis by (simp add: b min_def)
  qed
  show ?thesis using assms
    by (auto simp: asm_line_item line_bytes_def emits_take r f split: item.splits option.splits)
qed

lemma asm_line_fits:
  assumes "length (code a) + length (line_bytes l) < MAX_CODE"
    and "p \<or> length (labels a) + length (line_labels 0 l) \<le> MAX_LABELS"
    and "\<not> p \<or> length (fixups a) + length (line_fixups 0 l) \<le> MAX_LABELS"
  shows "asm_line p l a = (\<not> line_bad l,
    a\<lparr>labels := labels a @ (if p then [] else line_labels (length (code a)) l),
      fixups := fixups a @ (if p then line_fixups (length (code a)) l else []), code := code a @ line_bytes l\<rparr>)"
proof -
  have e: "emits bs b = b\<lparr>code := code b @ bs\<rparr>" if "length (code b) + length bs < MAX_CODE" for bs b
    using that by (simp add: emits_take)
  note defs = asm_line_item line_bad_def line_labels_def line_fixups_def line_ref_def line_bytes_def
  show ?thesis
  proof (cases "item_of l")
    case (Label n)
    then have "take 31 n = n" by (auto simp: item_of_def Let_def split: if_splits list.splits)
    then show ?thesis using assms Label by (auto simp: defs add_label_def)
  next
    case (Code op args)
    show ?thesis
    proof (cases "encode op args")
      case (Some br)
      obtain bs r where br: "br = (bs, r)" by (cases br)
      show ?thesis
      proof (cases r)
        case None
        then show ?thesis using assms(1) Some br Code by (simp add: defs e)
      next
        case r: (Some xr)
        obtain x rel where xr: "xr = (x, rel)" by (cases xr)
        show ?thesis using assms Some br Code r xr
          by (auto simp: defs e emit_ref_def emit32_bytes le32_bytes_0 add_fixup_def)
      qed
    qed (use Code in \<open>simp add: defs\<close>)
  qed (use assms(1) e in \<open>simp_all add: defs\<close>)
qed

section \<open>All lines\<close>

fun labels_at :: "nat \<Rightarrow> string list \<Rightarrow> (string \<times> u32) list" where
  "labels_at off [] = []"
| "labels_at off (l # ls) = line_labels off l @ labels_at (off + length (line_bytes l)) ls"

fun fixups_at :: "nat \<Rightarrow> string list \<Rightarrow> fixup_t list" where
  "fixups_at off [] = []"
| "fixups_at off (l # ls) = line_fixups off l @ fixups_at (off + length (line_bytes l)) ls"

definition lines_bytes :: "string list \<Rightarrow> u8 list" where
  "lines_bytes ls = concat (map line_bytes ls)"

lemma lines_bytes_simps [simp]: "lines_bytes [] = []" "lines_bytes (l # ls) = line_bytes l @ lines_bytes ls"
  by (simp_all add: lines_bytes_def)

lemma run_pass_length:
  assumes "length (code a) \<le> MAX_CODE"
  shows "length (code (snd (run_pass p ls a))) = min MAX_CODE (length (code a) + length (lines_bytes ls))"
  using assms
proof (induction ls arbitrary: a)
  case (Cons l ls)
  obtain ok b where b: "asm_line p l a = (ok, b)" by (cases "asm_line p l a")
  have "length (code b) = min MAX_CODE (length (code a) + length (line_bytes l))"
    using asm_line_length [OF Cons.prems, of p l] b by simp
  then show ?case using Cons.IH [of b] b by (auto simp: split: prod.splits)
qed simp

lemma length_line_labels: "length (line_labels off l) = length (line_labels 0 l)"
  by (simp add: line_labels_def split: item.splits)

lemma length_line_fixups: "length (line_fixups off l) = length (line_fixups 0 l)"
  by (simp add: line_fixups_def split: option.splits)

lemma run_pass_fits:
  assumes "length (code a) + length (lines_bytes ls) < MAX_CODE"
    and "p \<or> length (labels a) + length (labels_at (length (code a)) ls) \<le> MAX_LABELS"
    and "\<not> p \<or> length (fixups a) + length (fixups_at (length (code a)) ls) \<le> MAX_LABELS"
  shows "run_pass p ls a = (length (filter line_bad ls),
    a\<lparr>labels := labels a @ (if p then [] else labels_at (length (code a)) ls),
      fixups := fixups a @ (if p then fixups_at (length (code a)) ls else []), code := code a @ lines_bytes ls\<rparr>)"
  using assms
proof (induction ls arbitrary: a)
  case (Cons l ls)
  let ?b = "a\<lparr>labels := labels a @ (if p then [] else line_labels (length (code a)) l),
      fixups := fixups a @ (if p then line_fixups (length (code a)) l else []), code := code a @ line_bytes l\<rparr>"
  have l: "asm_line p l a = (\<not> line_bad l, ?b)"
    using Cons.prems length_line_labels [of "length (code a)" l] length_line_fixups [of "length (code a)" l]
    by (intro asm_line_fits) auto
  show ?case using Cons.prems Cons.IH [of ?b] l by auto
qed simp

section \<open>Patching\<close>

definition unresolved :: "(string \<Rightarrow> u32 option) \<Rightarrow> string \<Rightarrow> bool" where
  "unresolved env l = (case line_ref l of None \<Rightarrow> False | Some (n, rel) \<Rightarrow> env (take 31 n) = None)"

definition final_bytes :: "(string \<Rightarrow> u32 option) \<Rightarrow> nat \<Rightarrow> string \<Rightarrow> u8 list" where
  "final_bytes env off l =
     (case Option.bind (line_ref l) (\<lambda>(n, rel). map_option (\<lambda>t. (t, rel)) (env (take 31 n))) of
        None \<Rightarrow> line_bytes l
      | Some (t, rel) \<Rightarrow>
          let k = length (line_bytes l) - 4
          in take k (line_bytes l)
             @ le32_bytes (if rel then t - (BASE_ADDR + HDR_SIZE + of_nat (off + k) + 4) else t))"

fun finals :: "(string \<Rightarrow> u32 option) \<Rightarrow> nat \<Rightarrow> string list \<Rightarrow> u8 list" where
  "finals env off [] = []"
| "finals env off (l # ls) = final_bytes env off l @ finals env (off + length (line_bytes l)) ls"

lemma line_bytes_ref:
  assumes "line_ref l = Some r"
  obtains op args bs where "item_of l = Code op args" "encode op args = Some (bs, Some r)" "line_bytes l = bs @ [0, 0, 0, 0]"
  using assms by (auto simp: line_ref_def line_bytes_def bind_eq_Some_conv split: item.splits)

lemma length_final_bytes [simp]: "length (final_bytes env off l) = length (line_bytes l)"
  by (cases "line_ref l") (auto simp: final_bytes_def Let_def elim!: line_bytes_ref split: option.splits)

lemma splice_middle: "length zs = length ys \<Longrightarrow> splice (length xs) zs (xs @ ys @ rest) = xs @ zs @ rest"
  by (simp add: splice_def)

lemma patch_fixups_lines:
  assumes "env = (\<lambda>n. find_label n tab)"
  shows "patch_fixups (fixups_at (length pre) ls) tab (pre @ lines_bytes ls)
    = Some (length (filter (unresolved env) ls), pre @ finals env (length pre) ls)"
proof (induction ls arbitrary: pre)
  case (Cons l ls)
  show ?case
  proof (cases "line_ref l")
    case None
    then show ?thesis using Cons [of "pre @ line_bytes l"]
      by (simp add: line_fixups_def unresolved_def final_bytes_def)
  next
    case (Some r)
    obtain n rel where r: "r = (n, rel)" by (cases r)
    obtain op args bs where l: "item_of l = Code op args" "encode op args = Some (bs, Some r)" "line_bytes l = bs @ [0, 0, 0, 0]"
      by (rule line_bytes_ref [OF Some])
    show ?thesis
    proof (cases "env (take 31 n)")
      case None
      then show ?thesis using Cons [of "pre @ line_bytes l"] Some r assms
        by (simp add: line_fixups_def unresolved_def final_bytes_def)
    next
      case t: (Some t)
      let ?q = "pre @ bs"
      let ?w = "le32_bytes (if rel then t - (BASE_ADDR + HDR_SIZE + of_nat (length ?q) + 4) else t)"
      have fx: "line_fixups (length pre) l = [\<lparr>code_offset = length ?q, fx_name = take 31 n, fx_rel = rel\<rparr>]"
        using Some r l(3) by (simp add: line_fixups_def)
      have fb: "final_bytes env (length pre) l = bs @ ?w"
        using Some r l(3) t by (simp add: final_bytes_def Let_def)
      have find: "find_label (take 31 n) tab = Some t" using t assms by simp
      have u: "\<not> unresolved env l" using Some r t by (simp add: unresolved_def)
      have sp: "splice (length pre + length bs) zs (pre @ bs @ 0 # 0 # 0 # 0 # lines_bytes ls) = pre @ bs @ zs @ lines_bytes ls"
        if "length zs = 4" for zs
        using splice_middle [of zs "[0, 0, 0, 0]" ?q "lines_bytes ls"] that by simp
      have l4: "length (line_bytes l) = length bs + 4" using l(3) by simp
      have fs: "fixups_at (length pre) (l # ls)
          = \<lparr>code_offset = length ?q, fx_name = take 31 n, fx_rel = rel\<rparr> # fixups_at (length (?q @ ?w)) ls"
        by (simp add: fx l4 add.assoc)
      have bs: "pre @ lines_bytes (l # ls) = pre @ bs @ 0 # 0 # 0 # 0 # lines_bytes ls" by (simp add: l(3))
      have "patch_fixups (fixups_at (length pre) (l # ls)) tab (pre @ lines_bytes (l # ls))
          = patch_fixups (fixups_at (length (?q @ ?w)) ls) tab ((?q @ ?w) @ lines_bytes ls)"
        unfolding fs bs by (simp add: sp find Let_def cong: if_cong split del: if_split)
      also have "\<dots> = Some (length (filter (unresolved env) ls), (?q @ ?w) @ finals env (length (?q @ ?w)) ls)"
        by (rule Cons.IH)
      also have "\<dots> = Some (length (filter (unresolved env) (l # ls)), pre @ finals env (length pre) (l # ls))"
        by (simp add: u fb l4 add.assoc)
      finally show ?thesis .
    qed
  qed
qed simp

section \<open>The listing\<close>

lemma finals_listing:
  assumes "\<forall>l \<in> set ls. \<not> line_bad l \<and> \<not> unresolved env l"
    and "env = map_of (early @ map (\<lambda>(n, p). (n, p + (BASE_ADDR + HDR_SIZE))) (labels_at off ls))"
    and "fst ` set early = seen"
  shows "listing env seen (BASE_ADDR + HDR_SIZE + of_nat off) ls (finals env off ls)"
  using assms
proof (induction ls arbitrary: off early seen)
  case (Cons l ls)
  let ?a = "BASE_ADDR + HDR_SIZE + of_nat off" and ?n = "length (line_bytes l)"
  have step: "BASE_ADDR + HDR_SIZE + of_nat (off + ?n) = ?a + of_nat ?n" by simp
  have L: "listing env seen (?a + of_nat ?n) ls (finals env (off + ?n) ls)" if "line_labels off l = []"
  proof -
    have "listing env seen (BASE_ADDR + HDR_SIZE + of_nat (off + ?n)) ls (finals env (off + ?n) ls)"
      by (rule Cons.IH [of early]) (use Cons.prems that in simp_all)
    then show ?thesis unfolding step .
  qed
  show ?case
  proof (cases "item_of l")
    case Blank
    then show ?thesis using L by (simp add: line_labels_def final_bytes_def line_ref_def line_bytes_def)
  next
    case (Label n)
    have "n \<in> seen \<or> env n = Some ?a"
      using Label Cons.prems(2,3) map_of_eq_None_iff [of early n]
      by (cases "map_of early n") (auto simp: line_labels_def map_add_def add.commute)
    moreover have "listing env (insert n seen) ?a ls (finals env off ls)"
      using Cons.prems Label by (intro Cons.IH [of "early @ [(n, ?a)]"]) (auto simp: line_labels_def line_bytes_def add.commute)
    ultimately show ?thesis using Label by (simp add: final_bytes_def line_ref_def line_bytes_def)
  next
    case (Data d)
    then show ?thesis using L by (simp add: line_labels_def final_bytes_def line_ref_def line_bytes_def)
  next
    case (Code op args)
    then obtain bs r where e: "encode op args = Some (bs, r)" using Cons.prems(1) by (auto simp: line_bad_def)
    define tail where "tail = drop (length bs) (final_bytes env off l)"
    have "final_bytes env off l = bs @ tail \<and> (case r of None \<Rightarrow> tail = [] | Some (n, rel) \<Rightarrow>
           \<exists>t. env (take 31 n) = Some t \<and> tail = le32_bytes (if rel then t - (?a + of_nat (length bs) + 4) else t))"
      using Code e Cons.prems(1)
      by (auto simp: tail_def final_bytes_def line_ref_def line_bytes_def unresolved_def Let_def add.assoc split: option.splits)
    then have f: "final_bytes env off l = bs @ tail" and t: "case r of None \<Rightarrow> tail = [] | Some (n, rel) \<Rightarrow>
           \<exists>t. env (take 31 n) = Some t \<and> tail = le32_bytes (if rel then t - (?a + of_nat (length bs) + 4) else t)"
      by blast+
    have n: "length bs + length tail = ?n" using arg_cong [OF f, of length] by simp
    obtain i where i: "meaning env op args = Some i"
      "decode ?a (bs @ tail @ finals env (off + ?n) ls) = Some (i, ?n)"
      using encode_decode [OF e t, of "finals env (off + ?n) ls"] n by auto
    have "listing env seen (?a + of_nat ?n) ls (finals env (off + ?n) ls)"
      using L Code by (simp add: line_labels_def)
    then show ?thesis using Code i f n by (auto intro!: exI [of _ i] exI [of _ ?n] simp del: append_assoc simp: append_assoc [symmetric])
  qed
qed simp

lemma labels_at_declared: "map fst (labels_at off ls) = declared ls"
  by (induction ls arbitrary: off) (auto simp: declared_def line_labels_def split: item.splits)

end
