(* ===== verification/Tasm_Files.thy ===== *)
theory Tasm_Files
  imports Tasm_Listing
begin

text \<open>
  The properties of the assembler: what it makes of a source text, that a failed call leaves the file tree alone, and
  that the loader starts what it wrote.
\<close>

section \<open>The assembler\<close>

definition meaningful :: "(string \<Rightarrow> u32 option) \<Rightarrow> string \<Rightarrow> bool" where
  "meaningful env l = (case item_of l of Code op args \<Rightarrow> meaning env op args \<noteq> None | _ \<Rightarrow> True)"

definition code_size :: "string list \<Rightarrow> nat" where
  "code_size ls = length (lines_bytes ls)"

definition references :: "string list \<Rightarrow> nat" where
  "references ls = length (filter (\<lambda>l. line_ref l \<noteq> None) ls)"

lemma encode_None:
  assumes "encode op args = None \<or> (\<exists>bs n rel. encode op args = Some (bs, Some (n, rel)) \<and> env (take 31 n) = None)"
  shows "meaning env op args = None"
proof -
  let ?simple = "{''nop'', ''ret'', ''hlt'', ''int'', ''jmp'', ''call'', ''je'', ''jz'', ''jne'', ''jnz''}"
  let ?stack = "{''push'', ''pop'', ''inc'', ''dec''}"
  consider "op \<in> ?simple" | "op \<in> ?stack" | "op = ''mov''" | alu where "alu_code op = Some alu"
    | "op \<notin> ?simple \<and> op \<notin> ?stack \<and> op \<noteq> ''mov'' \<and> alu_code op = None"
    by (rule five_cases [where p = "op \<in> ?simple" and q = "op \<in> ?stack" and r = "op = ''mov''" and x = "alu_code op"])
  then show ?thesis
  proof cases
    case 1
    then show ?thesis using assms by (elim insertE emptyE; cases args; simp add: encode_def meaning_def)
  next
    case 2
    then show ?thesis using assms
      by (elim insertE emptyE; cases args; cases "parse_reg (hd args)")
        (simp_all add: encode_def meaning_def with_imm_def split: if_splits)
  next
    case 3
    then show ?thesis using assms
      by (cases args; cases "tl args"; cases "parse_reg (args ! 0)"; cases "parse_reg (args ! 1)")
        (simp_all add: encode_def meaning_def meaning2_def with_imm_def split: if_splits)
  next
    case (4 alu)
    have op: "(op, alu) \<in> {(''add'', 0), (''or'', 1), (''and'', 4), (''sub'', 5), (''xor'', 6), (''cmp'', 7)}"
      by (rule alu_code_Some [OF 4])
    then have "op \<notin> ?simple" "op \<notin> ?stack" "op \<noteq> ''mov''" by (elim insertE emptyE; simp)+
    then show ?thesis using 4 assms
      by (cases args; cases "tl args"; cases "parse_reg (args ! 0)"; cases "parse_reg (args ! 1)")
        (auto simp add: encode_def meaning_def meaning2_def with_imm_def split: if_splits)
  next
    case 5
    then show ?thesis by (auto simp: meaning_def meaning2_def split: list.splits option.splits Option.bind_splits)
  qed
qed

lemma meaningful_iff: "meaningful env l \<longleftrightarrow> \<not> line_bad l \<and> \<not> unresolved env l"
proof (cases "item_of l")
  case (Code op args)
  show ?thesis
  proof (cases "encode op args")
    case None
    then show ?thesis using Code encode_None [of op args env] by (simp add: meaningful_def line_bad_def)
  next
    case (Some br)
    obtain bs r where br: "br = (bs, r)" by (cases br)
    show ?thesis
    proof (cases "unresolved env l")
      case True
      then show ?thesis using Code Some br encode_None [of op args env]
        by (auto simp: meaningful_def unresolved_def line_ref_def split: option.splits)
    next
      case False
      define tail where "tail = (case r of None \<Rightarrow> [] | Some (n, rel) \<Rightarrow>
        le32_bytes (if rel then the (env (take 31 n)) - (of_nat (length bs) + 4) else the (env (take 31 n))))"
      have "case r of None \<Rightarrow> tail = [] | Some (n, rel) \<Rightarrow>
          \<exists>t. env (take 31 n) = Some t \<and> tail = le32_bytes (if rel then t - (0 + of_nat (length bs) + 4) else t)"
        using False Code Some br by (auto simp: tail_def unresolved_def line_ref_def split: option.splits)
      from encode_decode [OF Some [unfolded br] this] show ?thesis
        using False Code Some by (auto simp: meaningful_def line_bad_def)
    qed
  qed
qed (simp_all add: meaningful_def line_bad_def unresolved_def line_ref_def)

lemma length_labels_at: "length (labels_at off ls) = length (declared ls)"
  using arg_cong [OF labels_at_declared [of off ls], of length] by simp

lemma length_fixups_at: "length (fixups_at off ls) = references ls"
  by (induction ls arbitrary: off) (auto simp: references_def line_fixups_def split: option.splits)

definition label_env :: "string list \<Rightarrow> string \<Rightarrow> u32 option" where
  "label_env ls = map_of (map (\<lambda>(n, p). (n, p + (BASE_ADDR + HDR_SIZE))) (labels_at 0 ls))"

lemma dom_label_env: "dom (label_env ls) = set (declared ls)"
  by (simp add: label_env_def dom_map_of_conv_image_fst image_image case_prod_beta labels_at_declared [of 0, symmetric])

lemma assemble_eq:
  assumes "ls = source_lines src" "code_size ls < MAX_CODE" "length (declared ls) \<le> MAX_LABELS" "references ls \<le> MAX_LABELS"
  shows "assemble src = Some (if \<forall>l \<in> set ls. meaningful (label_env ls) l then Some (finals (label_env ls) 0 ls) else None)"
proof -
  let ?tab = "map (\<lambda>(n, p). (n, p + (BASE_ADDR + HDR_SIZE))) (labels_at 0 ls)"
  let ?a = "\<lparr>labels = [], fixups = [], code = []\<rparr>" and ?b = "\<lparr>labels = ?tab, fixups = [], code = []\<rparr>"
  have p1: "run_pass False ls ?a = (length (filter line_bad ls), ?a\<lparr>labels := labels_at 0 ls, code := lines_bytes ls\<rparr>)"
    using run_pass_fits [of ?a ls False] assms by (simp add: code_size_def length_labels_at)
  have p2: "run_pass True ls ?b = (length (filter line_bad ls), ?b\<lparr>fixups := fixups_at 0 ls, code := lines_bytes ls\<rparr>)"
    using run_pass_fits [of ?b ls True] assms by (simp add: code_size_def length_fixups_at)
  have "label_env ls = (\<lambda>n. find_label n ?tab)" by (simp add: label_env_def find_label_def fun_eq_iff)
  then have "patch_fixups (fixups_at 0 ls) ?tab (lines_bytes ls)
      = Some (length (filter (unresolved (label_env ls)) ls), finals (label_env ls) 0 ls)"
    using patch_fixups_lines [of "label_env ls" ?tab "[]" ls] by simp
  then show ?thesis using p1 p2 assms(1)
    by (auto simp: assemble_def meaningful_iff filter_empty_conv)
qed

lemma patch_length: "patch_fixups fs tab bs = Some (n, bs') \<Longrightarrow> length bs' = length bs"
  by (induction fs tab bs arbitrary: n bs' rule: patch_fixups.induct) (auto simp: Let_def split: option.splits if_splits)

text \<open>Code that does not fit is cut off without an error.\<close>

lemma assemble_truncates:
  assumes "assemble src = Some (Some bs)"
  shows "length bs = min MAX_CODE (code_size (source_lines src))"
proof -
  let ?ls = "source_lines src"
  obtain tab n a m where "run_pass True ?ls \<lparr>labels = tab, fixups = [], code = []\<rparr> = (n, a)"
    "patch_fixups (fixups a) tab (code a) = Some (m, bs)"
    using assms by (auto simp: assemble_def Let_def split: prod.splits if_splits)
  then show ?thesis using run_pass_length [of "\<lparr>labels = tab, fixups = [], code = []\<rparr>" True ?ls] patch_length
    by (fastforce simp: code_size_def)
qed

section \<open>The executable\<close>

definition tasm_header :: "u32 \<Rightarrow> u8 list" where
  "tasm_header sz =
     [0x7F, 0x45, 0x4C, 0x46, 1, 1, 1, 0, 0, 0, 0, 0, 0, 0, 0, 0, 2, 0, 3, 0, 1, 0, 0, 0]
     @ le32_bytes (BASE_ADDR + HDR_SIZE) @ [52, 0, 0, 0, 0, 0, 0, 0, 0, 0, 0, 0, 52, 0, 32, 0, 1, 0, 0, 0, 0, 0, 0, 0]
     @ [1, 0, 0, 0, 0, 0, 0, 0] @ le32_bytes BASE_ADDR @ le32_bytes BASE_ADDR
     @ le32_bytes sz @ le32_bytes sz @ [7, 0, 0, 0, 0, 0x10, 0, 0]"

text \<open>The header the assembler writes, byte by byte.\<close>

lemma splice_skip: "length xs \<le> k \<Longrightarrow> splice k ys (xs @ zs) = xs @ splice (k - length xs) ys zs"
  by (simp add: splice_def)

lemma splice_Cons: "0 < k \<Longrightarrow> splice k ys (x # zs) = x # splice (k - 1) ys zs"
  by (cases k) (simp_all add: splice_def)

lemma splice_zeros:
  "k + length ys \<le> n \<Longrightarrow> splice k ys (replicate n 0) = replicate k 0 @ ys @ replicate (n - k - length ys) 0"
  by (simp add: splice_def)

lemma build_elf_header: "build_elf bs = tasm_header (HDR_SIZE + of_nat (length bs)) @ bs"
proof -
  have small: "le32_bytes 1 = [1, 0, 0, 0]" "le32_bytes 0 = [0, 0, 0, 0]" "le32_bytes 52 = [52, 0, 0, 0]"
    "le32_bytes 7 = [7, 0, 0, 0]" "le32_bytes 0x1000 = [0, 0x10, 0, 0]"
    by (simp_all add: le32_bytes_def)
  show ?thesis
    unfolding build_elf_def tasm_header_def Let_def
    by (simp add: splice_zeros splice_skip splice_Cons, simp add: small numeral_eq_Suc)
qed

lemma length_tasm_header [simp]: "length (tasm_header n) = 84"
  by (simp add: tasm_header_def)

lemma length_build_elf [simp]: "length (build_elf bs) = 84 + length bs"
  by (simp add: build_elf_header)

lemma build_elf_parse:
  "parse_ehdr (build_elf bs)
     = \<lparr>e_magic = ELF_MAGIC, e_class = 1, e_data = 1, e_type = 2, e_machine = 3, e_entry = BASE_ADDR + HDR_SIZE, e_phoff = 52,
        e_phentsize = 32, e_phnum = 1\<rparr>"
  unfolding parse_ehdr_def build_elf_header tasm_header_def le32_bytes_def le16_at_def le32_at_def
  by simp (simp add: le32_def)

lemma build_elf_phdr:
  "read_phdr (build_elf bs) (parse_ehdr (build_elf bs)) 0
     = Some \<lparr>p_type = PT_LOAD, p_offset = 0, p_vaddr = BASE_ADDR, p_filesz = HDR_SIZE + of_nat (length bs),
          p_memsz = HDR_SIZE + of_nat (length bs)\<rparr>"
  unfolding build_elf_parse read_phdr_def
  by (simp add: Let_def) (simp add: build_elf_header tasm_header_def le32_bytes_def le32_at_def le32_of_bytes, simp add: le32_def)

lemma build_elf_code: "j < length bs \<Longrightarrow> build_elf bs ! (84 + j) = bs ! j"
  by (simp add: build_elf_header nth_append)

lemma build_elf_segments:
  "segments (build_elf bs) = [\<lparr>p_type = PT_LOAD, p_offset = 0, p_vaddr = BASE_ADDR, p_filesz = HDR_SIZE + of_nat (length bs),
      p_memsz = HDR_SIZE + of_nat (length bs)\<rparr>]"
  using build_elf_phdr [of bs] by (simp add: loads_def build_elf_parse)

lemma build_elf_executable:
  assumes "length bs \<le> MAX_CODE"
  shows "executable nest (of_nat (84 + length bs)) (build_elf bs)"
proof -
  have u: "unat (of_nat (84 + length bs) :: u32) = 84 + length bs" "unat (HDR_SIZE + of_nat (length bs) :: u32) = 84 + length bs"
    using assms unat_of_nat_u32 [of "84 + length bs"] by simp_all
  have "(52 :: u32) \<le> of_nat (84 + length bs)" unfolding word_le_nat_alt u by simp
  moreover have "elf_validate (parse_ehdr (build_elf bs))" by (simp add: build_elf_parse elf_validate_def)
  moreover have "\<forall>p \<in> set (segments (build_elf bs)).
      seg_ok (build_elf bs) (of_nat (84 + length bs)) p \<and> seg_range p \<inter> stack_range nest = {}"
    using assms stack_top_bound [of nest] u
    by (auto simp: build_elf_segments seg_ok_def seg_range_def stack_range_def simp del: of_nat_add)
  moreover have "disjoint_segments (segments (build_elf bs))"
    by (simp add: build_elf_segments disjoint_segments_def)
  moreover have "\<forall>i \<in> set [0..<unat (e_phnum (parse_ehdr (build_elf bs)))].
      read_phdr (build_elf bs) (parse_ehdr (build_elf bs)) i \<noteq> None"
    using build_elf_phdr [of bs] by (simp add: build_elf_parse)
  ultimately show ?thesis by (simp add: executable_def Let_def build_elf_parse)
qed

lemma image_code_bytes:
  assumes "image_loaded nest (build_elf bs) m m'" "length bs \<le> MAX_CODE"
  shows "load_bytes (BASE_ADDR + HDR_SIZE) (length bs) m' = bs"
proof (rule nth_equalityI)
  fix j assume "j < length (load_bytes (BASE_ADDR + HDR_SIZE) (length bs) m')"
  then have j: "j < length bs" by simp
  have sz: "unat (HDR_SIZE + of_nat (length bs) :: u32) = 84 + length bs"
    using assms(2) unat_of_nat_u32 [of "84 + length bs"] by simp
  have a: "unat (BASE_ADDR + HDR_SIZE + of_nat j) = unat BASE_ADDR + (84 + j)"
    using j assms(2) unat_of_nat_u32 [of j] by (subst unat_plus_u32) simp_all
  have "m' (unat BASE_ADDR + (84 + j)) = build_elf bs ! (84 + j)"
    using assms(1) j sz by (auto simp: image_loaded_def build_elf_segments seg_range_def seg_byte_def Let_def)
  then show "load_bytes (BASE_ADDR + HDR_SIZE) (length bs) m' ! j = bs ! j"
    using j a by (simp add: load_bytes_def build_elf_code)
qed simp

section \<open>Numbers\<close>

text \<open>The function on strings is \<^verbatim>\<open>atoi\<close> of \<^verbatim>\<open>lib/string.c\<close> on the memory that holds the string.\<close>

lemma char_byte_inject: "char_byte c = char_byte d \<longleftrightarrow> c = d"
  using char_of_byte [of c] char_of_byte [of d] unfolding char_byte_def by metis

lemma cstring_text: "CHR 0x00 \<notin> set s \<Longrightarrow> n \<le> length s \<Longrightarrow> cstring_at (text_memory s) n (map char_byte (drop n s))"
proof (induction "length s - n" arbitrary: n)
  case 0
  then show ?case by (simp add: text_memory_def)
next
  case (Suc k)
  then have n: "n < length s" by simp
  have "k = length s - Suc n" using Suc.hyps(2) by simp
  from Suc.hyps(1) [OF this Suc.prems(1)] n have "cstring_at (text_memory s) (Suc n) (map char_byte (drop (Suc n) s))" by simp
  moreover have "s ! n \<noteq> CHR 0x00" using Suc.prems(1) n nth_mem by metis
  then have "char_byte (s ! n) \<noteq> 0" using char_byte_inject [of "s ! n" "CHR 0x00"] by (simp add: char_byte_def)
  ultimately show ?case using n by (simp add: Cons_nth_drop_Suc [symmetric] text_memory_def char_byte_def)
qed

lemma atoi_spaces_cstring:
  "cstring_at m a s \<Longrightarrow> atoi_spaces a m = Some (a + length (takeWhile (\<lambda>c. isspace (sint c)) s))"
proof (induction s arbitrary: a)
  case Nil
  then show ?case by (subst atoi_spaces.simps) (simp add: isspace_def)
next
  case (Cons c s)
  then show ?case by (subst atoi_spaces.simps) auto
qed

lemma atoi_digits_cstring:
  "cstring_at m a s \<Longrightarrow> atoi_digits a r m = Some (foldl digit_step r (takeWhile (\<lambda>c. isdigit (sint c)) s))"
proof (induction s arbitrary: a r)
  case Nil
  then show ?case by (subst atoi_digits.simps) (simp add: isdigit_def)
next
  case (Cons c s)
  then show ?case by (subst atoi_digits.simps) (simp add: digit_step_def [symmetric])
qed

lemma atoi_text_string:
  assumes "CHR 0x00 \<notin> set s"
  shows "atoi_text s = Some (atoi_string s)"
proof -
  let ?m = "text_memory s" and ?k = "length (takeWhile (\<lambda>c. isspace (sint (char_byte c))) s)"
  define t where "t = dropWhile (\<lambda>c. isspace (sint (char_byte c))) s"
  have k: "?k \<le> length s" by (rule length_takeWhile_le)
  have t: "t = drop ?k s" by (simp add: t_def dropWhile_eq_drop)
  have "atoi_spaces 0 ?m = Some ?k"
    using atoi_spaces_cstring [OF cstring_text [OF assms, of 0]] by (simp add: takeWhile_map comp_def)
  moreover have at: "cstring_at ?m ?k (map char_byte t)" unfolding t by (rule cstring_text [OF assms k])
  ultimately show ?thesis
  proof (cases t)
    case Nil
    then show ?thesis using at \<open>atoi_spaces 0 ?m = Some ?k\<close> atoi_digits_cstring [OF at, of 0]
      by (simp add: atoi_text_def atoi_def atoi_string_def t_def [symmetric])
  next
    case (Cons c u)
    have c: "?m ?k = char_byte c" "cstring_at ?m (?k + 1) (map char_byte u)" using at Cons by simp_all
    have sign: "char_byte c = 45 \<longleftrightarrow> c = CHR ''-''" "char_byte c = 43 \<longleftrightarrow> c = CHR ''+''"
      using char_byte_inject [of c "CHR ''-''"] char_byte_inject [of c "CHR ''+''"] by (simp_all add: char_byte_def)
    show ?thesis using \<open>atoi_spaces 0 ?m = Some ?k\<close> atoi_digits_cstring [OF at, of 0] atoi_digits_cstring [OF c(2), of 0] Cons c(1)
      by (simp add: atoi_text_def atoi_def atoi_string_def t_def [symmetric] sign Let_def digit_ch_def [abs_def] takeWhile_map comp_def)
  qed
qed

text \<open>A minus sign before a hexadecimal number: accepted as a number, and read as 0.\<close>

lemma negative_hex: "is_number ''-0x10''" "parse_imm ''-0x10'' = 0"
  by (simp_all add: is_number_def parse_imm_def atoi_string_def char_byte_def isspace_def digit_ch_def isdigit_def digit_step_def)

section \<open>Failed calls\<close>

lemma kalloc_keeps_tree: "kalloc s = (ok, s') \<Longrightarrow> fs_nodes s' = fs_nodes s \<and> (tree_ok s \<longrightarrow> tree_ok s')"
proof -
  assume k: "kalloc s = (ok, s')"
  then have nodes: "fs_nodes s' = fs_nodes s" by (auto simp: kalloc_def)
  have "tree_ok s'" if "tree_ok s"
    by (rule tree_ok_frame [OF that]) (use k that in \<open>auto simp: kalloc_def tree_ok_def\<close>)
  with nodes show ?thesis by blast
qed

lemma vfs_create_none:
  assumes "tree_ok s" "vfs_create path dir s = Some (None, s')"
  shows "fs_nodes s' = fs_nodes s"
proof -
  obtain norm s1 where n: "abs_normalize path dir s = Some (norm, s1)"
    using assms(2) by (cases "abs_normalize path dir s") (auto simp: vfs_create_def)
  have s1: "s1 = s \<or> s1 = rooted s" by (rule abs_normalize_spec [OF assms(1) n])
  then have ok1: "tree_ok s1" and nodes1: "fs_nodes s1 = fs_nodes s" using assms(1) tree_ok_rooted by auto
  obtain parent s2 where p: "vfs_resolve (path_dirname norm) None s1 = Some (parent, s2)"
    using assms(2) n by (cases "vfs_resolve (path_dirname norm) None s1") (auto simp: vfs_create_def)
  have nodes2: "fs_nodes s2 = fs_nodes s" using vfs_resolve_state [OF ok1 p] nodes1 by simp
  show ?thesis
  proof (cases "Option.bind parent (\<lambda>p. map_option (Pair p) (fs_nodes s2 p))")
    case None
    then show ?thesis using assms(2) n p nodes2 by (simp add: vfs_create_def)
  next
    case (Some pv)
    obtain i v where pv: "pv = (i, v)" "fs_nodes s2 i = Some v" using Some by (auto simp: bind_eq_Some_conv)
    let ?c = "ramfs_create_node (Some i) (path_basename norm) VFS_FILE s2"
    have "s' = s2 \<or> fst ?c = None \<and> s' = snd ?c"
      using assms(2) n p Some pv(1)
      by (auto simp: vfs_create_def Let_def split: if_splits option.splits prod.splits)
    then show ?thesis
    proof
      assume c: "fst ?c = None \<and> s' = snd ?c"
      then have "?c = (None, s')" by (simp add: prod_eq_iff)
      then show ?thesis by (rule create_node_cases [OF pv(2)]) (use nodes2 in auto)
    qed (simp add: nodes2)
  qed
qed

lemma tasm_fails:
  assumes "tree_ok s" "tasm_assemble dev src_path dir out_path s = Some (rc, s')"
  shows "rc = 0 \<or> rc = -1 \<and> fs_nodes s' = fs_nodes s"
proof -
  obtain n s1 where r: "vfs_resolve src_path dir s = Some (n, s1)"
    using assms(2) by (cases "vfs_resolve src_path dir s") (auto simp: tasm_assemble_def)
  have s1: "fs_nodes s1 = fs_nodes s" "tree_ok s1"
    using vfs_resolve_state [OF assms(1) r] tree_ok_rooted [OF assms(1)] by simp_all
  obtain ok2 s2 where k2: "kalloc s1 = (ok2, s2)" by (cases "kalloc s1")
  obtain ok3 s3 where k3: "kalloc s2 = (ok3, s3)" by (cases "kalloc s2")
  obtain ok4 s4 where k4: "kalloc s3 = (ok4, s4)" by (cases "kalloc s3")
  have nodes: "fs_nodes s2 = fs_nodes s" "fs_nodes s3 = fs_nodes s" "fs_nodes s4 = fs_nodes s" "tree_ok s4"
    using kalloc_keeps_tree [OF k2] kalloc_keeps_tree [OF k3] kalloc_keeps_tree [OF k4] s1 by simp_all
  have c: "fs_nodes s5 = fs_nodes s" if "vfs_create out_path dir s4 = Some (None, s5)" for s5
    using vfs_create_none [OF nodes(4) that] nodes(3) by simp
  show ?thesis using assms(2) r s1 k2 k3 k4 nodes
    by (auto simp: tasm_assemble_def Let_def bind_eq_Some_conv dest!: c split: option.splits prod.splits if_splits)
qed

section \<open>Properties\<close>

text \<open>
  C7: The two passes, the label table and the patches together make the code the lines of a source text say. With at
  most 8191 bytes of code, 128 labels and 128 references, the assembler ends; it fails exactly when a line has no
  meaning (an unknown instruction, or a label that no line declares); and otherwise a disassembler reads the code
  back as the listing of the lines, every label being the address of the line that first declares it.
\<close>

theorem tasm_lists_source:
  assumes "code_size (source_lines src) < MAX_CODE" "length (declared (source_lines src)) \<le> MAX_LABELS"
    and "references (source_lines src) \<le> MAX_LABELS"
  shows "\<exists>env r. dom env = set (declared (source_lines src)) \<and> assemble src = Some r
    \<and> (r = None \<longleftrightarrow> (\<exists>l \<in> set (source_lines src). \<not> meaningful env l))
    \<and> (case r of None \<Rightarrow> True | Some bs \<Rightarrow> listing env {} (BASE_ADDR + HDR_SIZE) (source_lines src) bs)"
proof -
  let ?ls = "source_lines src"
  have "listing (label_env ?ls) {} (BASE_ADDR + HDR_SIZE) ?ls (finals (label_env ?ls) 0 ?ls)"
    if "\<forall>l \<in> set ?ls. meaningful (label_env ?ls) l"
    using finals_listing [of ?ls "label_env ?ls" "[]" 0 "{}"] that by (simp add: meaningful_iff label_env_def)
  then show ?thesis using assemble_eq [OF refl assms] dom_label_env [of ?ls]
    by (intro exI [of _ "label_env ?ls"]) auto
qed

text \<open>
  C23: An assembled program starts. A process that executes a file holding what the assembler wrote for a source text
  enters at the first byte of the code, and the code is in memory, byte for byte, at the addresses its references
  were resolved to.
\<close>

theorem tasm_program_starts:
  assumes "current (k_ps k) = Some c" "c < length (processes (k_ps k))"
    and "kresolve path k = Some (Some i, k1)" "knode i k1 = Some v" "allowed v ACC_EXEC k1" "\<forall>x. fs_grants (kfs k1) x"
    and "assemble src = Some (Some bs)" "heap_content v (build_elf bs)"
  shows "\<exists>esp k'. elf_execve dev nest path 0 0 k = Some ((0, Some (BASE_ADDR + HDR_SIZE, esp)), k')
    \<and> load_bytes (BASE_ADDR + HDR_SIZE) (length bs) (k_mem k') = bs"
proof -
  let ?buf = "build_elf bs"
  have l: "length bs \<le> MAX_CODE" using assemble_truncates [OF assms(7)] by simp
  have v: "n_type v = VFS_FILE" "n_size v = of_nat (84 + length bs)"
    using assms(8) by (simp_all add: heap_content_def)
  then have "unat (n_size v) = 84 + length bs" using l by (simp only:) (rule unat_of_nat_u32, simp)
  then have size: "52 \<le> n_size v" by (simp add: word_le_nat_alt)
  have "?buf \<noteq> []" using length_build_elf [of bs] by (metis add_is_0 list.size(3) zero_neq_numeral)
  moreover have "knode i (put_fs (snd (kalloc (kfs k1))) k1) = Some v" using assms(4) by (simp add: knode_kfs kalloc_def)
  ultimately have buf: "elf_file dev i (n_size v) (put_fs (snd (kalloc (kfs k1))) k1) = (of_nat (84 + length bs), ?buf)"
    using elf_file_heap [OF assms(8)] v(2) by simp
  have args: "args_ok 0 0 [] (k_mem k)" by (simp add: args_ok_def args_size_def)
  from execve_loads [OF assms(1-4) v(1) assms(5) size assms(6) buf build_elf_executable [OF l] args]
  obtain esp s w m h b where r: "elf_execve dev nest path 0 0 k
      = Some ((0, Some (e_entry (parse_ehdr ?buf), esp)),
          (put_fs s k)\<lparr>k_vmm := w, k_mem := m,
            k_ps := upd_proc c (\<lambda>p. p\<lparr>heap_start := h, heap_brk := b, pname := take 31 (last_component path)\<rparr>) (k_ps k)\<rparr>)"
    "image_loaded nest ?buf (k_mem k) m" by blast
  have "load_bytes (BASE_ADDR + HDR_SIZE) (length bs) m = bs" by (rule image_code_bytes [OF r(2) l])
  with r(1) show ?thesis by (simp add: build_elf_parse)
qed

text \<open>
  C34: The assembler returns 0 or -1, and when it returns -1 (no such file, no memory, errors in the text, an output
  file that cannot be made) every node of the file tree is what it was.
\<close>

theorem tasm_fails_clean:
  assumes "tree_ok s" "tasm_assemble dev src_path dir out_path s = Some (rc, s')"
  shows "rc = 0 \<or> rc = -1 \<and> fs_nodes s' = fs_nodes s"
  by (rule tasm_fails [OF assms])

section \<open>Witnesses\<close>

text \<open>A label, an instruction with a number, a jump back to the label, and a string.\<close>

definition example_source :: string where
  "example_source = ''go: '' @ [CHR 0x0A] @ '' mov ecx, -2 ; x'' @ [CHR 0x0A] @ ''jmp go'' @ [CHR 0x0A] @ ''db '' @ [CHR 0x22] @ ''hi'' @ [CHR 0x22]"


definition example_code :: "u8 list" where
  "example_code = [0xB9, 0xFE, 0xFF, 0xFF, 0xFF, 0xE9, 0xF6, 0xFF, 0xFF, 0xFF, 0x68, 0x69]"

lemma example_lines:
  "source_lines example_source
     = [''go: '', '' mov ecx, -2 ; x'', ''jmp go'', ''db '' @ [CHR 0x22] @ ''hi'' @ [CHR 0x22]]"
  by (simp add: example_source_def)

lemma example_items:
  "item_of ''go: '' = Label ''go''" "item_of '' mov ecx, -2 ; x'' = Code ''mov'' [''ecx'', ''-2'']"
  "item_of ''jmp go'' = Code ''jmp'' [''go'']" "item_of (''db '' @ [CHR 0x22] @ ''hi'' @ [CHR 0x22]) = Data [0x68, 0x69]"
  by (simp_all add: item_of_def strip_def part_sep_def db_bytes_def char_byte_def Let_def numeral_eq_Suc)

lemma example_encoded:
  "encode ''mov'' [''ecx'', ''-2''] = Some ([0xB9, 0xFE, 0xFF, 0xFF, 0xFF], None)" "encode ''jmp'' [''go''] = Some ([0xE9], Some (''go'', True))"
  by (simp_all add: encode_def parse_reg_def is_number_def digit_ch_def char_byte_def isdigit_def with_imm_def parse_imm_def
      atoi_string_def isspace_def digit_step_def le32_bytes_def)

lemma example_tables:
  "code_size (source_lines example_source) = 12" "declared (source_lines example_source) = [''go'']"
  "references (source_lines example_source) = 1"
  unfolding example_lines code_size_def declared_def references_def
  using example_items example_encoded by (simp_all add: line_bytes_def line_ref_def del: not_None_eq)

lemma example_assembles: "assemble example_source = Some (Some example_code)"
proof -
  let ?ls = "source_lines example_source"
  have env: "label_env ?ls = [''go'' \<mapsto> 0x08048054]"
    unfolding label_env_def example_lines using example_items by (simp add: line_labels_def line_bytes_def)
  have "\<forall>l \<in> set ?ls. meaningful (label_env ?ls) l"
    unfolding env unfolding example_lines meaningful_iff line_bad_def unresolved_def line_ref_def
    using example_items example_encoded by simp
  moreover have "finals (label_env ?ls) 0 ?ls = example_code"
    unfolding env unfolding example_lines example_code_def using example_items example_encoded
    by (simp add: final_bytes_def line_ref_def line_bytes_def le32_bytes_def)
  ultimately show ?thesis using assemble_eq [OF refl, of example_source] by (simp add: example_tables)
qed

theorem tasm_lists_source_witness:
  "\<exists>env. dom env = {''go''} \<and> listing env {} 0x08048054 (source_lines example_source) example_code"
proof -
  have "\<exists>env r. dom env = {''go''} \<and> assemble example_source = Some r
    \<and> (r = None \<longleftrightarrow> (\<exists>l \<in> set (source_lines example_source). \<not> meaningful env l))
    \<and> (case r of None \<Rightarrow> True | Some bs \<Rightarrow> listing env {} (BASE_ADDR + HDR_SIZE) (source_lines example_source) bs)"
    using tasm_lists_source [of example_source] by (simp add: example_tables)
  then show ?thesis by (auto simp: example_assembles)
qed

theorem tasm_program_starts_witness:
  "\<exists>esp k'. elf_execve (e_dev no_drivers) 1 ''/prog'' 0 0 (program_ksys (build_elf example_code) (\<lambda>_. 0))
      = Some ((0, Some (0x08048054, esp)), k') \<and> load_bytes 0x08048054 12 (k_mem k') = example_code"
proof -
  have "length example_code = 12" by (simp add: example_code_def)
  then show ?thesis
    using tasm_program_starts [where nest = 1 and dev = "e_dev no_drivers", OF program_facts(1,2) program_resolve
        program_facts(3,4) allI [OF program_facts(5)] example_assembles program_content, of "\<lambda>_. 0"]
    by simp
qed

theorem tasm_fails_clean_witness:
  "\<exists>s'. tasm_assemble (e_dev no_drivers) ''/x.s'' None ''/x'' example_tree = Some (-1, s') \<and> fs_nodes s' = fs_nodes example_tree"
proof -
  have "resolve_walk (fs_root example_tree) [''x.s''] example_tree = None"
    by (simp add: example_defs vfs_finddir_def ramfs_finddir_def)
  then have "vfs_resolve ''/x.s'' None example_tree = Some (None, rooted example_tree)"
    using vfs_resolve_render [OF example_tree, of "[''x.s'']" None] by (simp add: name_ok_def render_def)
  then have r: "tasm_assemble (e_dev no_drivers) ''/x.s'' None ''/x'' example_tree = Some (-1, rooted example_tree)"
    by (simp add: tasm_assemble_def)
  then show ?thesis using tasm_fails_clean [OF example_tree r] by auto
qed

end
