(* ===== verification/Fork.thy ===== *)
theory Fork
  imports Elf
begin

text \<open>
  The start of a copy of a process, \<^verbatim>\<open>mm/fork.c\<close>. The copy of a page is a \<^verbatim>\<open>memcpy\<close> through the address
  space the kernel runs in, so both addresses are translated by the processor's walk, and \<open>k_mem\<close> is read and
  written at the physical addresses; a page that is not mapped is \<open>None\<close>. Pages are aligned, so a page is one run of
  bytes. Messages to the log are left out.
\<close>

section \<open>Operations\<close>

abbreviation USER_COPY_START :: u32 where "USER_COPY_START \<equiv> 0x08048000"
abbreviation USER_COPY_END :: u32 where "USER_COPY_END \<equiv> 0x0F100000"

definition page_phys :: "u32 \<Rightarrow> vmm \<Rightarrow> nat option" where
  "page_phys a v = map_option (\<lambda>(p, _). unat p) (mmu_walk (vm_mem v) (vm_cr3 v) a)"

definition copy_frame :: "u32 \<Rightarrow> u32 \<Rightarrow> vmm \<Rightarrow> mem \<Rightarrow> mem option" where
  "copy_frame new_frame addr v m = do { d \<leftarrow> page_phys new_frame v; s \<leftarrow> page_phys addr v; Some (memcpy d s 4096 m) }"

partial_function (option) copy_pages :: "u32 \<Rightarrow> u32 \<Rightarrow> u32 \<Rightarrow> vmm \<Rightarrow> mem \<Rightarrow> (vmm \<times> mem) option" where
  "copy_pages pd addr end_addr v m =
     (if addr < end_addr
      then case pmm_alloc_frame (vm_pmm v) of
             (new_frame, p) \<Rightarrow>
               if new_frame = 0 then copy_pages pd (addr + 4096) end_addr (v\<lparr>vm_pmm := p\<rparr>) m
               else Option.bind (copy_frame new_frame addr (v\<lparr>vm_pmm := p\<rparr>) m) (\<lambda>m.
                      copy_pages pd (addr + 4096) end_addr
                        (vmm_map_page_in pd addr new_frame (PAGE_PRESENT OR PAGE_RW OR PAGE_USER) (v\<lparr>vm_pmm := p\<rparr>)) m)
      else Some (v, m))"

definition vmm_copy_region :: "u32 \<Rightarrow> u32 \<Rightarrow> u32 \<Rightarrow> vmm \<Rightarrow> mem \<Rightarrow> (vmm \<times> mem) option" where
  "vmm_copy_region child_pd start end_addr v m = copy_pages child_pd (start AND NOT 0xFFF) end_addr v m"

definition process_free_address_space :: "nat option \<Rightarrow> ksys \<Rightarrow> ksys" where
  "process_free_address_space proc k =
     (case proc of
        None \<Rightarrow> k
      | Some c \<Rightarrow>
          let pd = page_dir (processes (k_ps k) ! c)
          in if pd = 0 then k
             else k\<lparr>k_vmm := vmm_free_address_space pd (k_vmm k), k_ps := upd_proc c (\<lambda>p. p\<lparr>page_dir := 0\<rparr>) (k_ps k)\<rparr>)"

text \<open>What the child inherits: the working directory and the state of the heap.\<close>

definition inherit :: "nat \<Rightarrow> ps \<Rightarrow> ps" where
  "inherit c s =
     (case current s of
        None \<Rightarrow> s
      | Some p \<Rightarrow>
          let q = processes s ! p
          in upd_proc c (\<lambda>r. r\<lparr>cwd := take 255 (cwd q), heap_start := heap_start q, heap_brk := heap_brk q\<rparr>) s)"

text \<open>\<open>stack\<close> is the kernel stack of the child.\<close>

definition process_fork :: "u32 \<Rightarrow> ksys \<Rightarrow> (int \<times> ksys) option" where
  "process_fork stack k =
     (case vmm_create_address_space (k_vmm k) of
        (pd, v) \<Rightarrow>
          if pd = 0 then Some (-1, k\<lparr>k_vmm := v\<rparr>)
          else do {
            (v, m) \<leftarrow> vmm_copy_region pd USER_COPY_START USER_COPY_END v (k_mem k);
            case spawn_process ''(fork-child)'' stack (k\<lparr>k_vmm := v, k_mem := m\<rparr>) of
              (None, k) \<Rightarrow> Some (-1, k\<lparr>k_vmm := vmm_free_address_space pd (k_vmm k)\<rparr>)
            | (Some c, k) \<Rightarrow>
                let s = inherit c (upd_proc c (\<lambda>p. p\<lparr>page_dir := pd\<rparr>) (k_ps k));
                    child_pid = sint (pid (processes s ! c));
                    parent_pd = vmm_get_current_dir (k_vmm k);
                    saved = current s;
                    s = process_set_current (Some c) s;
                    v = vmm_switch_address_space pd (k_vmm k);
                    s = scheduler_add (Some c) s;
                    s = process_set_current saved s;
                    v = vmm_switch_address_space parent_pd v
                in Some (child_pid, k\<lparr>k_ps := s, k_vmm := v\<rparr>)
          })"

definition sys_fork :: "u32 \<Rightarrow> ksys \<Rightarrow> (u32 \<times> ksys) option" where
  "sys_fork stack k = map_option (\<lambda>(rc, k). (word_of_int rc, k)) (process_fork stack k)"

section \<open>Shared tables\<close>

text \<open>A directory that maps the first gigabyte by the kernel's own tables, as every new address space does.\<close>

definition shares :: "vmm \<Rightarrow> u32 \<Rightarrow> bool" where
  "shares v dir \<longleftrightarrow> aligned dir \<and> (\<forall>t < IDENTITY_TABLES. dir \<noteq> page_at (page_tables v) t)
     \<and> (\<forall>t < IDENTITY_TABLES. vm_mem v (word_at dir t) = page_at (page_tables v) t OR table_flags t)"

definition pte :: "vmm \<Rightarrow> nat \<Rightarrow> u32" where
  "pte v q = vm_mem v (word_at (page_at (page_tables v) (q div 1024)) (q mod 1024))"

abbreviation page_addr :: "nat \<Rightarrow> u32" where
  "page_addr q \<equiv> of_nat q * 4096"

lemma page_number:
  assumes "q < 262144"
  shows "unat (page_addr q) = q * 4096" "aligned (page_addr q)" "page_addr q < 0x40000000"
    and "dir_idx (page_addr q) = q div 1024" "tbl_idx (page_addr q) = q mod 1024"
proof -
  have "q < 1048576" using assms by simp
  note p = page_number_aligned [OF this]
  show "unat (page_addr q) = q * 4096" "aligned (page_addr q)" by (rule p)+
  show "page_addr q < 0x40000000" unfolding word_less_nat_alt p(1) using assms by simp
  show "dir_idx (page_addr q) = q div 1024" unfolding dir_idx_eq p(1)
    using div_mult_mult2 [of 4096 q 1024] by simp
  show "tbl_idx (page_addr q) = q mod 1024" unfolding tbl_idx_eq p(1) by simp
qed

lemma page_phys_shared:
  assumes "layout_ok v" "shares v (vm_cr3 v)" "q < 262144" "pte v q = make_entry (page_addr f) flags" "f < 1048576"
  shows "page_phys (page_addr q) v = Some (f * 4096)"
proof -
  note q = page_number [OF assms(3)]
  have d: "q div 1024 < IDENTITY_TABLES" using assms(3) by simp
  have z: "page_addr q AND 0xFFF = 0" using q(2) by (simp add: aligned_def)
  have fr: "frame_of (page_addr f) = page_addr f" using page_number_aligned [OF assms(5)] by (intro frame_of_aligned) simp
  have "mmu_walk (vm_mem v) (vm_cr3 v) (page_addr q)
      = Some (frame_of (page_addr f) OR (page_addr q AND 0xFFF), 0x05000000 \<le> page_addr q \<and> bit flags 2, bit flags 1)"
    using assms d q by (intro walk_shared_table [of v "q div 1024"]) (simp_all add: shares_def pte_def)
  then show ?thesis using page_number_aligned [OF assms(5)] by (simp add: page_phys_def z fr)
qed


section \<open>The loop\<close>

text \<open>
  The frames handed out are \<open>n\<close>, \<open>n + 1\<close>, ..., the pages copied \<open>n + d\<close>, \<open>n + d + 1\<close>, .... After \<open>k\<close> rounds, page
  \<open>q\<close> is translated to frame \<open>target n d k q\<close>, and frame \<open>q\<close> holds what frame \<open>source n d k q\<close> held before.
\<close>

definition target :: "nat \<Rightarrow> nat \<Rightarrow> nat \<Rightarrow> nat \<Rightarrow> nat" where
  "target n d k q = (if n + d \<le> q \<and> q < n + d + k then q - d else q)"

definition source :: "nat \<Rightarrow> nat \<Rightarrow> nat \<Rightarrow> nat \<Rightarrow> nat" where
  "source n d k q =
     (if n \<le> q \<and> q < n + k then if q + d < n + k then q + 2 * d else if q < n + d then q + d else q else q)"

definition copying :: "vmm \<Rightarrow> mem \<Rightarrow> u32 set \<Rightarrow> nat \<Rightarrow> nat \<Rightarrow> nat \<Rightarrow> vmm \<Rightarrow> mem \<Rightarrow> bool" where
  "copying v0 m0 dirs n d k v m \<longleftrightarrow>
     layout_ok v \<and> page_tables v = page_tables v0 \<and> vm_cr3 v = vm_cr3 v0 \<and> page_directory v = page_directory v0
     \<and> pmm_inv (vm_pmm v) \<and> pmm_used (vm_pmm v) = {..<n + k} \<and> pmm_cap (vm_pmm v) = pmm_cap (vm_pmm v0)
     \<and> (\<forall>dir \<in> dirs. shares v dir)
     \<and> (\<forall>q < 262144. \<exists>flags. pte v q = make_entry (page_addr (target n d k q)) flags)
     \<and> (\<forall>q. \<forall>x < 4096. m (q * 4096 + x) = m0 (source n d k q * 4096 + x))"

lemma next_frame:
  assumes "pmm_inv p" "pmm_used p = {..<f}" "f < pmm_cap p"
  obtains p' where "pmm_alloc_frame p = (page_addr f, p')" "page_addr f \<noteq> 0" "pmm_inv p'" "pmm_used p' = {..<Suc f}"
    "pmm_cap p' = pmm_cap p"
  using assms(1)
proof (cases rule: pmm_alloc_frame_cases)
  case full
  then have "{..<f} = {..<pmm_cap p}" using assms(2) by simp
  then show thesis using assms(3) by simp
next
  case (ok g t)
  have "\<not> f < g" using ok(4) assms(2) by auto
  moreover have "\<not> g < f" using ok(3) assms(2) by simp
  ultimately have "g = f" by simp
  then show thesis using ok assms(2) frame_addr_nonzero [of f] by (intro that [of t]) auto
qed

lemma store_pte:
  fixes f flags :: u32
  assumes "layout_ok v" "shares v pd" "q < 262144"
  defines "w \<equiv> vmm_map_page_in pd (page_addr q) f flags v"
  shows "w = v\<lparr>vm_mem := (vm_mem v)(word_at (page_at (page_tables v) (q div 1024)) (q mod 1024) := make_entry f flags)\<rparr>"
    and "r < 262144 \<Longrightarrow> pte w r = (if r = q then make_entry f flags else pte v r)"
    and "shares v dir \<Longrightarrow> shares w dir"
proof -
  note qn = page_number [OF assms(3)]
  let ?t = "page_at (page_tables v) (q div 1024)"
  have d: "q div 1024 < IDENTITY_TABLES" using assms(3) by simp
  have al: "aligned ?t" by (rule layout_tables(1) [OF assms(1) d])
  have e: "vm_mem v (word_at pd (q div 1024)) = ?t OR table_flags (q div 1024)" using assms(2) d by (simp add: shares_def)
  have "present (vm_mem v (word_at pd (dir_idx (page_addr q))))"
    unfolding qn(4) e present_bit by (simp add: low_bits_or [OF al])
  from map_page_in_present [OF this] show w:
    "w = v\<lparr>vm_mem := (vm_mem v)(word_at ?t (q mod 1024) := make_entry f flags)\<rparr>"
    by (simp add: w_def qn(4,5) table_at_def e frame_of_or [OF al])
  show "pte w r = (if r = q then make_entry f flags else pte v r)" if "r < 262144"
  proof -
    have dr: "r div 1024 < IDENTITY_TABLES" using that by simp
    have "word_at (page_at (page_tables v) (r div 1024)) (r mod 1024) = word_at ?t (q mod 1024) \<longleftrightarrow> r = q"
      using word_at_eq [OF layout_tables(1) [OF assms(1) dr] al, of "r mod 1024" "q mod 1024"]
        layout_tables(4) [OF assms(1) dr d] by (metis div_mult_mod_eq mod_less_divisor zero_less_numeral)
    then show ?thesis by (simp add: pte_def w)
  qed
  show "shares w dir" if dir: "shares v dir"
  proof -
    have "dir \<noteq> ?t" using dir d by (simp add: shares_def)
    then show ?thesis using dir al by (simp add: shares_def w word_at_eq)
  qed
qed


lemma page_bytes: "q * 4096 \<le> y \<and> y < q * 4096 + 4096 \<longleftrightarrow> y div 4096 = q" for q y :: nat
  by (auto intro!: div_nat_eqI dest: sym [of _ q] simp: dividend_less_times_div)

lemma copying_step:
  assumes c: "copying v0 m0 dirs n d k v m" and dirs: "pd \<in> dirs" "vm_cr3 v0 \<in> dirs"
    and b: "1 \<le> d" "n + d + k < 262144" "n + k < pmm_cap (vm_pmm v0)"
  obtains p m' where "pmm_alloc_frame (vm_pmm v) = (page_addr (n + k), p)" "page_addr (n + k) \<noteq> 0"
    "copy_frame (page_addr (n + k)) (page_addr (n + d + k)) (v\<lparr>vm_pmm := p\<rparr>) m = Some m'"
    "copying v0 m0 dirs n d (Suc k) (vmm_map_page_in pd (page_addr (n + d + k)) (page_addr (n + k)) 7 (v\<lparr>vm_pmm := p\<rparr>)) m'"
proof -
  let ?a = "n + d + k" and ?f = "n + k"
  have lay: "layout_ok v" and inv: "pmm_inv (vm_pmm v)" "pmm_used (vm_pmm v) = {..<?f}" "?f < pmm_cap (vm_pmm v)"
    and sh: "\<And>dir. dir \<in> dirs \<Longrightarrow> shares v dir"
    and pt: "\<And>q. q < 262144 \<Longrightarrow> \<exists>flags. pte v q = make_entry (page_addr (target n d k q)) flags"
    and mem: "\<And>q x. x < 4096 \<Longrightarrow> m (q * 4096 + x) = m0 (source n d k q * 4096 + x)"
    using c b(3) by (simp_all add: copying_def)
  obtain p where p: "pmm_alloc_frame (vm_pmm v) = (page_addr ?f, p)" "page_addr ?f \<noteq> 0" "pmm_inv p"
    "pmm_used p = {..<Suc ?f}" "pmm_cap p = pmm_cap (vm_pmm v)"
    using next_frame [OF inv] by blast
  let ?v = "v\<lparr>vm_pmm := p\<rparr>"
  have lay': "layout_ok ?v" using lay layout_cong [of ?v v] by simp
  have sh': "shares ?v dir \<longleftrightarrow> shares v dir" for dir by (simp add: shares_def)
  have pte': "pte ?v q = pte v q" for q by (simp add: pte_def)
  have cr3: "shares ?v (vm_cr3 ?v)" using sh dirs(2) sh' c by (simp add: copying_def)
  have phys: "page_phys (page_addr q) ?v = Some (target n d k q * 4096)" if q: "q < 262144" for q
  proof -
    obtain flags where "pte ?v q = make_entry (page_addr (target n d k q)) flags" using pt [OF q] pte' by auto
    then show ?thesis using q by (intro page_phys_shared [OF lay' cr3 q]) (auto simp: target_def)
  qed
  let ?g = "target n d k ?f"
  let ?m = "memcpy (?g * 4096) (?a * 4096) 4096 m"
  have ta: "target n d k ?a = ?a" by (simp add: target_def)
  have fr: "?f < 262144" using b(2) by simp
  have cf: "copy_frame (page_addr ?f) (page_addr ?a) ?v m = Some ?m"
    using phys [OF fr] phys [OF b(2)] ta by (simp add: copy_frame_def)
  have "?g \<le> ?a" by (simp add: target_def) arith
  then have le: "?g * 4096 \<le> ?a * 4096" by (rule mult_le_mono1)
  have mm: "?m (q * 4096 + x) = (if q = ?g then m (?a * 4096 + x) else m (q * 4096 + x))" if "x < 4096" for q x
  proof -
    have "?g * 4096 \<le> q * 4096 + x \<and> q * 4096 + x < ?g * 4096 + 4096 \<longleftrightarrow> q = ?g"
      unfolding page_bytes using that by simp
    then show ?thesis using memcpy_eq_copied [of "?g * 4096" "?a * 4096" 4096 m] le by (auto simp: copied_def)
  qed
  let ?w = "vmm_map_page_in pd (page_addr ?a) (page_addr ?f) 7 ?v"
  have pdv: "shares ?v pd" using sh [OF dirs(1)] sh' by simp
  note st = store_pte [OF lay' pdv b(2), where f = "page_addr ?f" and flags = 7]
  obtain tables where w: "?w = ?v\<lparr>vm_mem := tables\<rparr>" using st(1) by blast
  have "copying v0 m0 dirs n d (Suc k) ?w ?m"
    unfolding copying_def
  proof (intro conjI allI impI ballI)
    show "layout_ok ?w" unfolding w using lay layout_cong [of "?v\<lparr>vm_mem := tables\<rparr>" v] by simp
    show "page_tables ?w = page_tables v0" "vm_cr3 ?w = vm_cr3 v0" "page_directory ?w = page_directory v0"
      "pmm_inv (vm_pmm ?w)" "pmm_used (vm_pmm ?w) = {..<n + Suc k}" "pmm_cap (vm_pmm ?w) = pmm_cap (vm_pmm v0)"
      unfolding w using c p by (simp_all add: copying_def)
    show "shares ?w dir" if "dir \<in> dirs" for dir using st(3) [of dir] sh [OF that] sh' by simp
    show "\<exists>flags. pte ?w q = make_entry (page_addr (target n d (Suc k) q)) flags" if "q < 262144" for q
    proof (cases "q = ?a")
      case True
      then have "target n d (Suc k) q = ?f" by (simp add: target_def)
      then show ?thesis using st(2) [OF that] True by auto
    next
      case False
      then have "target n d (Suc k) q = target n d k q" by (auto simp: target_def)
      then show ?thesis using st(2) [OF that] False pt [OF that] pte' by simp
    qed
    show "?m (q * 4096 + x) = m0 (source n d (Suc k) q * 4096 + x)" if "x < 4096" for q x
    proof (cases "q = ?g")
      case True
      have "source n d k ?a = ?a" using b(1) by (simp add: source_def)
      moreover have "source n d (Suc k) q = ?a" unfolding True using b(1) by (auto simp: source_def target_def)
      ultimately show ?thesis using mm [OF that] mem [OF that, of ?a] True by simp
    next
      case False
      then have "source n d (Suc k) q = source n d k q" using b(1) by (auto simp: source_def target_def split: if_splits)
      then show ?thesis using mm [OF that] mem [OF that] False by simp
    qed
  qed
  then show thesis using that [OF p(1,2) cf] by simp
qed


lemma copying_run:
  assumes dirs: "pd \<in> dirs" "vm_cr3 v0 \<in> dirs"
    and b: "1 \<le> d" "n + d + l < 262144" "n + l \<le> pmm_cap (vm_pmm v0)"
    and c: "copying v0 m0 dirs n d k v m" "k \<le> l"
  shows "\<exists>w m'. copy_pages pd (page_addr (n + d + k)) (page_addr (n + d + l)) v m = Some (w, m') \<and> copying v0 m0 dirs n d l w m'"
  using c
proof (induction "l - k" arbitrary: k v m)
  case 0
  then have "k = l" by simp
  then show ?case using 0 by (subst copy_pages.simps) simp
next
  case (Suc j)
  then have k: "k < l" by simp
  have lt: "page_addr (n + d + k) < page_addr (n + d + l)"
    using k b(2) page_number(1) [of "n + d + k"] page_number(1) [of "n + d + l"] by (simp add: word_less_nat_alt del: of_nat_add)
  have next_page: "page_addr (n + d + k) + 4096 = page_addr (n + d + Suc k)" by (simp add: algebra_simps)
  have "n + d + k < 262144" "n + k < pmm_cap (vm_pmm v0)" using b k by simp_all
  then obtain p m' where s: "pmm_alloc_frame (vm_pmm v) = (page_addr (n + k), p)" "page_addr (n + k) \<noteq> 0"
    "copy_frame (page_addr (n + k)) (page_addr (n + d + k)) (v\<lparr>vm_pmm := p\<rparr>) m = Some m'"
    "copying v0 m0 dirs n d (Suc k) (vmm_map_page_in pd (page_addr (n + d + k)) (page_addr (n + k)) 7 (v\<lparr>vm_pmm := p\<rparr>)) m'"
    using copying_step [OF Suc.prems(1) dirs b(1)] by blast
  have flags: "PAGE_PRESENT OR PAGE_RW OR PAGE_USER = 7" by simp
  have "copy_pages pd (page_addr (n + d + k)) (page_addr (n + d + l)) v m
      = copy_pages pd (page_addr (n + d + Suc k)) (page_addr (n + d + l))
          (vmm_map_page_in pd (page_addr (n + d + k)) (page_addr (n + k)) 7 (v\<lparr>vm_pmm := p\<rparr>)) m'"
    using lt s(2) by (subst copy_pages.simps) (simp only: s(1,3) flags next_page if_True if_False prod.case Option.bind.bind_lunit refl)
  moreover have "j = l - Suc k" "Suc k \<le> l" using Suc.hyps(2) k by simp_all
  ultimately show ?case using Suc.hyps(1) [OF _ s(4)] by simp
qed

lemma make_identity: "aligned a \<Longrightarrow> a OR table_flags t = make_entry a (table_flags t)"
proof -
  assume "aligned a"
  then have "frame_of a = a" by (rule frame_of_aligned)
  moreover have "(table_flags t AND 0xFFF) OR PAGE_PRESENT = table_flags t"
    by (simp add: table_flags_def)
  ultimately show ?thesis by (simp add: make_entry_def or.assoc)
qed

lemma copying_start:
  assumes "kernel_ok v" "pmm_used (vm_pmm v) = {..<n}" "\<forall>dir \<in> dirs. shares v dir"
  shows "copying v m dirs n d 0 v m"
proof -
  have "pte v q = make_entry (page_addr q) (table_flags (q div 1024))" if q: "q < 262144" for q
  proof -
    have "\<forall>t < IDENTITY_TABLES. \<forall>p < 1024. vm_mem v (word_at (page_at (page_tables v) t) p) = page_addr (t * 1024 + p) OR table_flags t"
      using assms(1) unfolding kernel_ok_def identity_upto_def by blast
    moreover have "q div 1024 < IDENTITY_TABLES" "q mod 1024 < 1024" using q by simp_all
    ultimately have "pte v q = page_addr (q div 1024 * 1024 + q mod 1024) OR table_flags (q div 1024)"
      unfolding pte_def by blast
    then show ?thesis using make_identity [OF page_number(2) [OF q]] by (simp add: div_mult_mod_eq)
  qed
  then show ?thesis using assms by (auto simp: copying_def kernel_ok_def target_def source_def)
qed


section \<open>Properties\<close>

text \<open>An address space made by \<^verbatim>\<open>vmm_create_address_space\<close> shares the kernel's tables.\<close>

lemma create_shares:
  assumes "kernel_ok s" "vmm_create_address_space s = (pd, t)" "pd \<noteq> 0"
  shows "shares t pd" and "space_ok pd' s \<Longrightarrow> shares s pd' \<Longrightarrow> shares t pd'"
proof -
  note cs = create_space [OF assms]
  have lay: "layout_ok t" using cs(1) by (simp add: kernel_ok_def)
  have apart: "pd \<noteq> page_at (page_tables t) i" if "i < IDENTITY_TABLES" for i
    using space_table_apart [OF cs(2), of i] cs(5) that layout_tables(1) [OF lay that] by (simp add: cs(3))
  then show "shares t pd" using cs(4,5) by (simp add: shares_def cs(3))
  show "shares t pd'" if "space_ok pd' s" "shares s pd'"
    using cs(6) [OF that(1)] that(2) by (simp add: shares_def cs(3))
qed

lemma shared_walk:
  assumes "copying v0 m0 dirs n d l v m" "dir \<in> dirs" "q < 262144" "x < 4096"
  shows "\<exists>u w. mmu_walk (vm_mem v) dir (page_addr q + of_nat x) = Some (page_addr (target n d l q) + of_nat x, u, w)"
proof -
  let ?a = "page_addr q + of_nat x" and ?f = "target n d l q"
  have lay: "layout_ok v" and sh: "shares v dir" using assms by (simp_all add: copying_def)
  obtain flags where pte: "pte v q = make_entry (page_addr ?f) flags" using assms(1,3) by (auto simp: copying_def)
  have f: "?f < 1048576" using assms(3) by (auto simp: target_def)
  note q = page_number [OF assms(3)] and pf = page_number_aligned [OF f]
  have x: "unat (of_nat x :: u32) = x" using assms(4) by simp
  have u: "unat ?a = q * 4096 + x" using q(1) x assms(3,4) by (subst unat_plus_u32) simp_all
  have "(q * 4096 + x) div 4096 = q" using assms(4) by simp
  then have "unat ?a div 4096 = unat (page_addr q) div 4096" unfolding u q(1) by simp
  then have d: "dir_idx ?a = q div 1024" "tbl_idx ?a = q mod 1024" using same_page [of ?a "page_addr q"] q(4,5) by simp_all
  have low: "?a AND 0xFFF = of_nat x"
    unfolding word_unat_eq_iff and_fff u x using assms(4) by simp
  have "page_addr ?f AND of_nat x = 0"
  proof (rule bit_eqI)
    fix i show "bit (page_addr ?f AND of_nat x) i = bit (0 :: u32) i"
      using offset_bit [of ?a i] aligned_bit [OF pf(2), of i] unfolding low bit_and_iff by auto
  qed
  then have "page_addr ?f + of_nat x = page_addr ?f OR of_nat x" by (rule disjunctive_add_eq_or)
  moreover have "frame_of (page_addr ?f) = page_addr ?f" by (rule frame_of_aligned [OF pf(2)])
  moreover have "mmu_walk (vm_mem v) dir ?a
      = Some (frame_of (page_addr ?f) OR (?a AND 0xFFF), 0x05000000 \<le> ?a \<and> bit flags 2, bit flags 1)"
    using sh assms(3) pte d by (intro walk_shared_table [OF lay, of "q div 1024"]) (simp_all add: shares_def pte_def)
  ultimately show ?thesis by (simp add: low)
qed

text \<open>
  C19: \<^verbatim>\<open>fork\<close> does not copy a process. A new address space shares the page tables of the first gigabyte with every
  other one, and the copy is written through them: when the free frames begin \<open>d\<close> pages below the region, the new
  frames lie inside the region that is being remapped. Afterwards the parent and the child see the same memory, and
  every page of the region holds what was \<open>d\<close> pages further up.
\<close>

theorem vmm_copy_region_shifts:
  assumes "kernel_ok s" "space_ok parent s" "shares s parent" "vm_cr3 s = parent"
    and "vmm_create_address_space s = (child, t)" "child \<noteq> 0" "pmm_used (vm_pmm t) = {..<n}"
    and "1 \<le> d" "n + d + l < 262144" "n + l \<le> pmm_cap (vm_pmm t)" "i + d < l" "x < 4096"
  shows "\<exists>v m'. vmm_copy_region child (page_addr (n + d)) (page_addr (n + d + l)) t m = Some (v, m')
    \<and> (\<forall>dir \<in> {parent, child}. \<exists>p u w. mmu_walk (vm_mem v) dir (page_addr (n + d + i) + of_nat x) = Some (p, u, w)
          \<and> m' (unat p) = m ((n + d + (i + d)) * 4096 + x))"
proof -
  note cs = create_space [OF assms(1,5,6)]
  have sh: "\<forall>dir \<in> {parent, child}. shares t dir" using create_shares [OF assms(1,5,6)] assms(2,3) by simp
  have cr3: "vm_cr3 t = parent" using assms(4,5,6) by (auto simp: vmm_create_address_space_def split: prod.splits if_splits)
  have "child \<in> {parent, child}" "vm_cr3 t \<in> {parent, child}" by (simp_all add: cr3)
  from copying_run [OF this assms(8-10) copying_start [OF cs(1) assms(7) sh], of m]
  obtain v m' where r: "copy_pages child (page_addr (n + d)) (page_addr (n + d + l)) t m = Some (v, m')"
    and c: "copying t m {parent, child} n d l v m'" by auto
  have "n + d < 262144" using assms(9) by simp
  from page_number(2) [OF this] have "page_addr (n + d) AND NOT 0xFFF = page_addr (n + d)"
    using frame_of_aligned by (simp add: frame_of_def)
  then have vc: "vmm_copy_region child (page_addr (n + d)) (page_addr (n + d + l)) t m = Some (v, m')"
    using r by (simp add: vmm_copy_region_def)
  have q: "n + d + i < 262144" using assms(9,11) by simp
  have tg: "target n d l (n + d + i) = n + i" using assms(11) by (simp add: target_def)
  have sr: "source n d l (n + i) = n + d + (i + d)" using assms(11) by (simp add: source_def)
  have "n + i < 1048576" using assms(9,11) by simp
  note pn = page_number_aligned(1) [OF this]
  have p: "unat (page_addr (n + i) + of_nat x) = (n + i) * 4096 + x"
    using pn assms(9,11,12) by (subst unat_plus_u32) simp_all
  have "m' (unat (page_addr (n + i) + of_nat x)) = m ((n + d + (i + d)) * 4096 + x)"
    using c assms(12) unfolding p copying_def sr [symmetric] by blast
  then show ?thesis using vc shared_walk [OF c _ q assms(12)] tg by (metis (no_types, lifting))
qed


section \<open>Witness\<close>

text \<open>Two spaces in a kernel with 256 MiB; the page of the region at 0x08004000 is filled with 7.\<close>

lemma create_next:
  assumes "kernel_ok s" "pmm_used (vm_pmm s) = {..<n}" "n < pmm_cap (vm_pmm s)"
  obtains pd t where "vmm_create_address_space s = (pd, t)" "pd \<noteq> 0" "pmm_used (vm_pmm t) = {..<Suc n}"
    "pmm_cap (vm_pmm t) = pmm_cap (vm_pmm s)"
proof -
  have "pmm_inv (vm_pmm s)" using assms(1) by (simp add: kernel_ok_def)
  from next_frame [OF this assms(2,3)] obtain p where "pmm_alloc_frame (vm_pmm s) = (page_addr n, p)" "page_addr n \<noteq> 0"
    "pmm_used p = {..<Suc n}" "pmm_cap p = pmm_cap (vm_pmm s)" by blast
  then show thesis using that [of "page_addr n"] by (simp add: vmm_create_address_space_def)
qed

theorem vmm_copy_region_shifts_witness:
  "\<exists>child t v m' p u w. vmm_copy_region child 0x08003000 0x08005000 t (\<lambda>a. if a div 4096 = 0x8004 then 7 else 0) = Some (v, m')
     \<and> mmu_walk (vm_mem v) child 0x08003000 = Some (p, u, w) \<and> m' (unat p) = 7"
proof -
  let ?m = "\<lambda>a :: nat. if a div 4096 = 0x8004 then 7 else 0 :: u8"
  have "vm_pmm example_vmm = pmm_init 0x10000000" by (simp add: example_vmm_def vmm_init_def Let_def)
  moreover have "{..<32768 :: nat} \<inter> {..<65536} = {..<32768}" by (rule Int_absorb2) simp
  ultimately have e: "pmm_used (vm_pmm example_vmm) = {..<32768}" "pmm_cap (vm_pmm example_vmm) = 65536"
    by (simp_all add: pmm_init_used pmm_init_frames pmm_reserved_def)
  obtain parent s where p: "vmm_create_address_space example_vmm = (parent, s)" "parent \<noteq> 0"
    "pmm_used (vm_pmm s) = {..<32769}" "pmm_cap (vm_pmm s) = 65536"
  proof (rule create_next [OF example_kernel e(1)], goal_cases)
    case (2 pd t)
    then show ?case using e(2) by (intro 2(1) [of pd t]) simp_all
  qed (simp add: e(2))
  note P = create_space [OF example_kernel p(1,2)] create_shares(1) [OF example_kernel p(1,2)]
  let ?s = "vmm_switch_address_space parent s"
  have sw: "vm_mem ?s = vm_mem s" "vm_pmm ?s = vm_pmm s" "page_tables ?s = page_tables s" "page_directory ?s = page_directory s"
    "extra_tables ?s = extra_tables s" "vm_cr3 ?s = parent"
    by (simp_all add: vmm_switch_address_space_def)
  have k: "kernel_ok ?s" using P(1) layout_cong [of ?s s] identity_cong [of ?s s] sw by (simp add: kernel_ok_def)
  have sp: "space_ok parent ?s" "shares ?s parent" using P(2,8) sw by (simp_all add: space_ok_def shares_def)
  obtain child t where c: "vmm_create_address_space ?s = (child, t)" "child \<noteq> 0"
    "pmm_used (vm_pmm t) = {..<32770}" "pmm_cap (vm_pmm t) = 65536"
  proof (rule create_next [OF k, of 32769], goal_cases)
    case (3 pd u)
    then show ?case using p(4) sw(2) by (intro 3(1) [of pd u]) simp_all
  qed (simp_all add: p(3,4) sw(2))
  have r: "\<exists>v m'. vmm_copy_region child (page_addr (32770 + 1)) (page_addr (32770 + 1 + 2)) t ?m = Some (v, m')
    \<and> (\<forall>dir \<in> {parent, child}. \<exists>p u w. mmu_walk (vm_mem v) dir (page_addr (32770 + 1 + 0) + of_nat 0) = Some (p, u, w)
          \<and> m' (unat p) = ?m ((32770 + 1 + (0 + 1)) * 4096 + 0))"
    by (rule vmm_copy_region_shifts [OF k sp sw(6) c(1,2,3)]) (simp_all add: c(4))
  show ?thesis
    by (rule exI [of _ child], rule exI [of _ t]) (use r in auto)
qed

end
