(* ===== verification/Spec2Isabelle.thy ===== *)
theory Spec2Isabelle
  imports Kheap Vmm Pipe_Spec Path Ramfs_Data Diskfs_Reload Users_Files Process_Props Syscall_Access Elf_Files
    Devfs Fat16_Files Tasm_Files Fork
begin

text \<open>
  A verification development for Trinux, a 32-bit x86 kernel written in C.

  \<^bold>\<open>The program.\<close> A program enters the kernel through interrupt \<^verbatim>\<open>0x80\<close>, which runs
  \<^verbatim>\<open>syscall_handler\<close> (\<^verbatim>\<open>cpu/syscall.c\<close>). The handler works on the open descriptors, which name nodes of the
  virtual file system (\<^verbatim>\<open>fs/vfs.c\<close>) or pipes (\<^verbatim>\<open>fs/pipe.c\<close>); nodes keep their bytes in the kernel heap
  (\<^verbatim>\<open>mm/kheap.c\<close>) or in blocks of the disk (\<^verbatim>\<open>fs/ramfs.c\<close>, \<^verbatim>\<open>fs/blockfs.c\<close>, \<^verbatim>\<open>drivers/ata.c\<close>), and the whole tree
  is saved to and restored from the disk (\<^verbatim>\<open>fs/diskfs.c\<close>). Accounts (\<^verbatim>\<open>auth/users.c\<close>) live in files of that tree
  and give the file system the caller's identity. Processes (\<^verbatim>\<open>process/\<close>) own address spaces
  (\<^verbatim>\<open>mm/vmm.c\<close>) built from physical frames (\<^verbatim>\<open>mm/pmm.c\<close>); the keyboard (\<^verbatim>\<open>drivers/keyboard.c\<close>) wakes
  them and signals them.

  \<^bold>\<open>Conventions.\<close> A record holds what the C file keeps in static variables; an operation takes the state
  and returns the new one with its result. An integer keeps its width (\<open>u8\<close>, \<open>u16\<close>, \<open>u32\<close>) wherever it
  may wrap. \<open>None\<close> is behaviour C does not define and the kernel does not survive: an access outside an
  object, a null or dangling pointer, or a loop that never ends (those loops are partial functions).
  Bytes the kernel never initialised, and the answers of the heap to the file system, come from
  oracles in the state (\<open>fs_junk\<close>, \<open>fs_grants\<close>), so a theorem holds for all of them.

  \<^bold>\<open>Memory.\<close>
  \<^item> \<open>Prelude\<close>: word arithmetic as natural numbers, first-index search, runs of lists, and two interfaces as
    locales: \<open>slot_allocator\<close> (a table whose slots are handed out once) and \<open>bounded_queue\<close> (a FIFO queue). The
    frame allocator, the two block allocators and the pipe table interpret the first; the pipe ring and the key ring the
    second.
  \<^item> \<open>Pmm\<close> (\<^verbatim>\<open>mm/pmm.c\<close>): first fit, and counters that agree with the bitmap in every reachable state.
  \<^item> \<open>CMemory\<close> (\<^verbatim>\<open>memcpy\<close> and friends of \<^verbatim>\<open>lib/string.c\<close>), \<open>Kheap\<close> (\<^verbatim>\<open>mm/kheap.c\<close>): the doubly linked block
    list inside byte memory; allocation, release, reallocation and coalescing against the list of blocks they
    stand for.
  \<^item> \<open>Vmm\<close> (\<^verbatim>\<open>mm/vmm.c\<close>): page directories and tables as words of memory, their meaning as a partial
    translation function, and the effect of every operation on the translations of the space it works on and of the spaces
    that share no table with it; the sharing below one gigabyte is shown apart.

  \<^bold>\<open>Libraries.\<close> \<open>CString\<close> (\<^verbatim>\<open>lib/string.c\<close>) against lists of bytes; \<open>Printf\<close> (\<^verbatim>\<open>lib/printf.c\<close>): a format
    engine writing into a bounded buffer; \<open>Sha256\<close> (\<^verbatim>\<open>lib/sha256.c\<close>) against the standard's padding and compression; \<open>Path\<close>
    (\<^verbatim>\<open>fs/path.c\<close>) against the resolution of name sequences.

  \<^bold>\<open>Storage.\<close>
  \<^item> \<open>Disk\<close> (\<^verbatim>\<open>drivers/ata.c\<close>), \<open>Blockfs\<close> (\<^verbatim>\<open>fs/blockfs.c\<close>): sectors, blocks, the bitmap and its flush and remount.
  \<^item> \<open>Ramfs\<close> and \<open>Ramfs_Data\<close> (\<^verbatim>\<open>fs/ramfs.c\<close>): nodes and their contents in memory or in blocks. \<open>ramfs_write_file\<close> is the
    contract of a write for both kinds: complete when it finds room, read back, other files spared. Clients rest on it.
  \<^item> \<open>Vfs\<close> and \<open>Vfs_Tree\<close> (\<^verbatim>\<open>fs/vfs.c\<close>): resolution and permissions; \<open>tree_ok\<close> is the invariant (unique names,
    parents and children that agree, no cycles), which creation and deletion keep.
  \<^item> \<open>Diskfs\<close>, \<open>Diskfs_Image\<close>, \<open>Diskfs_Reload\<close> (\<^verbatim>\<open>fs/diskfs.c\<close>): the image of the tree, its parsing, and the
    theorem that a saved tree is restored.
  \<^item> \<open>Pipe\<close>, \<open>Pipe_Spec\<close> (\<^verbatim>\<open>fs/pipe.c\<close>): the ring, calls that wait half-way as resumable steps, FIFO order under
    every interleaving, and the refinement of abstract channels.
  \<^item> \<open>Devfs\<close> (\<^verbatim>\<open>fs/devfs.c\<close>): the device files; the raw disk against an array of bytes.
  \<^item> \<open>Fat16\<close> (\<^verbatim>\<open>fs/fat16.c\<close>): the FAT16 driver. \<open>Fat16_Table\<close>: entries and the copies of the table, allocation as an
    instance of \<open>slot_allocator\<close>, the release of chains. \<open>Fat16_Data\<close>: clusters as strings of bytes. \<open>Fat16_Files\<close>: chains,
    reading, writing with growth, and the independence of files.
  \<^item> \<open>Users\<close>, \<open>Users_Files\<close> (\<^verbatim>\<open>auth/users.c\<close>): the account table and the two files it is kept in, in
    memory or on the disk.

  \<^bold>\<open>Processes and input.\<close>
  \<^item> \<open>Process\<close>, \<open>Scheduler\<close>, \<open>Process_Props\<close> (\<^verbatim>\<open>process/process.c\<close>, \<^verbatim>\<open>process/scheduler.c\<close>): the process table,
    the multi-level queue and, over all sequences of their operations, the ownership of address spaces and
    kernel stacks. What an operation asks of other components is a recorded effect. Equal priorities take turns as
    long as the queue is in order; \<open>double_queued_starves\<close> is what happens when a task is queued twice.
  \<^item> \<open>Keyboard\<close>, \<open>Keyboard_Props\<close> (\<^verbatim>\<open>drivers/keyboard.c\<close>): the scancode decoder, the key ring and line editing. The
    interrupts to come are a list of batches of controller bytes; a wait that outlives the list is \<open>None\<close>.

  \<^bold>\<open>System calls.\<close>
  \<^item> \<open>Uaccess\<close> (\<^verbatim>\<open>cpu/uaccess.h\<close>): the range test, the string test and what they guarantee.
  \<^item> \<open>Syscall\<close> (state, descriptors, processes), \<open>Syscall_Files\<close>, \<open>Syscall_Walk\<close>, \<open>Syscall_Handler\<close> (\<^verbatim>\<open>cpu/syscall.c\<close>): one
    definition per case of the switch, \<open>dispatch\<close>, and \<open>syscall_handler\<close>. \<open>perform\<close> carries the effects recorded by the
    process table out on the descriptors, pipes and address spaces.
  \<^item> \<open>Syscall_Trees\<close>: the bounded stack of \<^verbatim>\<open>SYS_VFS_TREE\<close> against the recursive listing. \<open>Syscall_Types\<close>: the rules of
    \<open>ensures\<close>, one per construct of a case, and the tables' invariant through every case of the handler that is modelled. \<open>Syscall_Confine\<close>: where system calls write.
    \<open>Syscall_Access\<close>: opening, permissions, and reading back through a descriptor.

  \<^bold>\<open>Programs.\<close>
  \<^item> \<open>Elf\<close> (\<^verbatim>\<open>kernel/elf.c\<close>): the header of an executable, the segments, the first stack, \<^verbatim>\<open>elf_execve\<close> and the nested
    \<^verbatim>\<open>elf_exec_argv\<close>, and their two system calls. The run of a program is the parameter \<open>enter\<close>; \<open>nest\<close> is \<^verbatim>\<open>g_nest\<close>,
    and \<open>stack\<close> the address of a new kernel stack. The kernel heap is not part of \<open>k_mem\<close>, so its buffers do not
    overlap what is loaded.
  \<^item> \<open>Elf_Stack\<close>: the strings, the vector and the frame of the stack, read back. \<open>Elf_Props\<close>: segments as a function on memory,
    the failed and the successful call. \<open>Elf_Files\<close>: the properties, with an executable of one segment.

  \<^item> \<open>Fork\<close> (\<^verbatim>\<open>mm/fork.c\<close>): the copy of a process, with the copy of a page going through the processor's walk, and
    what it does to the memory of parent and child.
  \<^item> \<open>Tasm\<close> (\<^verbatim>\<open>shell/tasm.c\<close>): the assembler, its tables as lists and its code buffer as the bytes emitted so far.
    \<open>Tasm_Props\<close>: a disassembler after the processor's manual, what a line means, and the decoding of every encoding.
    \<open>Tasm_Listing\<close>: the two passes and the patches. \<open>Tasm_Files\<close>: the properties, and the start of what was assembled.

  \<^bold>\<open>Bounds and fuel.\<close> \<^verbatim>\<open>process_waitpid\<close> takes a fuel, the number of times it may yield; its callers pass it on
  and no property depends on it being large. The batches of keyboard bytes bound the waits for keys. The walks over page tables, blocks,
  queues and strings need no bound: they are structural, have a measure, or are partial.

  \<^bold>\<open>Parameters.\<close> Device nodes answer through \<open>devices\<close>; the calls that drive hardware, and in \<open>dispatch\<close> those that start programs and \<^verbatim>\<open>SYS_FORK\<close>, are \<open>e_drv\<close> of
  \<open>env\<close>; \<open>e_yield\<close> is what other processes do while the caller has given up the processor.
  Nodes are those of ramfs and devices; the nodes of a mounted FAT16 volume are records of \<open>Fat16\<close> and not reached
  through \<open>fs_nodes\<close>: the calls that go through a node are modelled for ramfs and device nodes only.

  \<^bold>\<open>Not modelled.\<close> Port access and interrupt plumbing (\<^verbatim>\<open>cpu/isr.c\<close>, \<^verbatim>\<open>cpu/irq.c\<close>, \<^verbatim>\<open>cpu/idt.c\<close>, \<^verbatim>\<open>cpu/smp.c\<close>,
  \<^verbatim>\<open>boot/gdt.c\<close>) and the device drivers except the disk's sector loops and the keyboard, whose behaviour is that
  of hardware; boot (\<^verbatim>\<open>kernel/kernel.c\<close>); \<^verbatim>\<open>fs/fat.c\<close>, a FAT driver that nothing calls; the
  shell, its editor and compiler, and the user programs, which run on top of the kernel. Messages to
  the kernel log are left out everywhere. Processor caches and the TLB are taken to be coherent.
\<close>

end
